(* ===== verification/Prelude.thy ===== *)
theory Prelude
  imports Main "HOL-Library.Word" "HOL-Library.List_Lexorder"
begin

text \<open>
  Shared vocabulary of the GoDB development: the result type that models Go's
  panics and returned errors, byte buffers (slices, \<^verbatim>\<open>copy\<close>, in-place
  writes) and the little-endian codec of \<^verbatim>\<open>encoding/binary\<close>.  The named
  collections \<open>res_simps\<close> and \<open>buf_simps\<close> carry the component proofs.
\<close>

named_theorems res_simps \<open>unfolding rules of the result monad\<close>
named_theorems buf_simps \<open>reading back what was written to a byte buffer\<close>

unbundle bit_operations_syntax

section \<open>Results: panics and returned errors\<close>

datatype GoDBErrorCode =
    DuplicateObjectError
  | NoSuchObjectError
  | DeadlockError
  | LogClosedError
  | LockNotFoundError

text \<open>
  A panic stops the program and carries its message; a returned error is a value
  the caller inspects.  \<open>OtherError\<close> stands for the errors that the code builds
  with \<^verbatim>\<open>fmt.Errorf\<close> or \<^verbatim>\<open>errors.New\<close>, with their fixed text.  \<open>Spins\<close> is the
  outcome of a call that busy-waits for another thread: it has not returned.
\<close>

datatype fault =
    Panic string
  | GoDBError GoDBErrorCode
  | OtherError string
  | Spins

type_synonym 'a res = "fault + 'a"
type_synonym byte = "8 word"

definition bindR :: "'a res \<Rightarrow> ('a \<Rightarrow> 'b res) \<Rightarrow> 'b res" where
  "bindR r f = (case r of Inl e \<Rightarrow> Inl e | Inr x \<Rightarrow> f x)"

definition Assert :: "bool \<Rightarrow> string \<Rightarrow> unit res" where
  "Assert c msg = (if c then Inr () else Inl (Panic msg))"

lemma bindR_Inl [simp, res_simps]: "bindR (Inl e) f = Inl e"
  by (simp add: bindR_def)

lemma bindR_Inr [simp, res_simps]: "bindR (Inr x) f = f x"
  by (simp add: bindR_def)

lemma Assert_True [simp, res_simps]: "Assert True m = Inr ()"
  by (simp add: Assert_def)

lemma Assert_False [simp, res_simps]: "Assert False m = Inl (Panic m)"
  by (simp add: Assert_def)

lemma bindR_eq_Inr: "bindR r f = Inr y \<longleftrightarrow> (\<exists>x. r = Inr x \<and> f x = Inr y)"
  by (cases r) auto

lemma Assert_eq_Inr: "Assert c m = Inr u \<longleftrightarrow> c"
  by (simp add: Assert_def)

lemma bindR_eq_InrE [elim!]:
  assumes "bindR r f = Inr y"
  obtains x where "r = Inr x" "f x = Inr y"
  using assms by (auto simp: bindR_eq_Inr)

primrec mapR :: "('a \<Rightarrow> 'b res) \<Rightarrow> 'a list \<Rightarrow> 'b list res" where
  "mapR f [] = Inr []"
| "mapR f (x # xs) = bindR (f x) (\<lambda>y. bindR (mapR f xs) (\<lambda>ys. Inr (y # ys)))"

primrec foldR :: "('a \<Rightarrow> 's \<Rightarrow> 's res) \<Rightarrow> 'a list \<Rightarrow> 's \<Rightarrow> 's res" where
  "foldR f [] s = Inr s"
| "foldR f (x # xs) s = bindR (f x s) (foldR f xs)"

lemma mapR_total: "(\<And>x. x \<in> set xs \<Longrightarrow> f x = Inr (g x)) \<Longrightarrow> mapR f xs = Inr (map g xs)"
  by (induction xs) auto

lemma mapR_Inr_iff: "mapR f xs = Inr ys \<longleftrightarrow> list_all2 (\<lambda>x y. f x = Inr y) xs ys"
  by (induction xs arbitrary: ys) (auto simp: bindR_eq_Inr list_all2_Cons1)

lemma foldR_append: "foldR f (xs @ ys) s = bindR (foldR f xs s) (foldR f ys)"
proof (induction xs arbitrary: s)
  case (Cons x xs)
  then show ?case by (cases "f x s") auto
qed simp

lemma foldR_invariant:
  assumes "foldR f xs s = Inr t" and "P s"
    and "\<And>x u v. x \<in> set xs \<Longrightarrow> P u \<Longrightarrow> f x u = Inr v \<Longrightarrow> P v"
  shows "P t"
  using assms by (induction xs arbitrary: s) auto

text \<open>
  Operations that change a state even when they fail: they return their result beside
  the state they leave.
\<close>

definition bindS :: "'a res \<times> 's \<Rightarrow> ('a \<Rightarrow> 's \<Rightarrow> 'b res \<times> 's) \<Rightarrow> 'b res \<times> 's" where
  "bindS m f = (case m of (Inl e, s) \<Rightarrow> (Inl e, s) | (Inr x, s) \<Rightarrow> f x s)"

lemma bindS_simps [simp, res_simps]: "bindS (Inl e, s) f = (Inl e, s)" "bindS (Inr x, s) f = f x s"
  by (simp_all add: bindS_def)

text \<open>A step that can only panic, run on a part of the state.\<close>

definition stepS :: "'a res \<Rightarrow> 's \<Rightarrow> ('a \<Rightarrow> 'b res \<times> 's) \<Rightarrow> 'b res \<times> 's" where
  "stepS r s f = (case r of Inl e \<Rightarrow> (Inl e, s) | Inr x \<Rightarrow> f x)"

lemma stepS_simps [simp, res_simps]: "stepS (Inl e) s f = (Inl e, s)" "stepS (Inr x) s f = f x"
  by (simp_all add: stepS_def)

section \<open>Searching lists\<close>

lemma find_append:
  "find P (xs @ ys) = (case find P xs of None \<Rightarrow> find P ys | Some x \<Rightarrow> Some x)"
  by (induction xs) auto

lemma find_SomeD: "find P xs = Some x \<Longrightarrow> x \<in> set xs \<and> P x"
  by (auto simp: find_Some_iff)

lemma find_upt_split:
  "i \<le> j \<Longrightarrow> j \<le> k \<Longrightarrow>
     find P [i..<k] = (case find P [i..<j] of None \<Rightarrow> find P [j..<k] | Some x \<Rightarrow> Some x)"
  using upt_add_eq_append [of i j "k - j"] by (simp add: find_append)

section \<open>Byte buffers\<close>

text \<open>
  A Go byte slice is a list of bytes.  \<open>slice off n buf\<close> is \<^verbatim>\<open>buf[off:off+n]\<close>
  where that range exists, \<open>put_at off src buf\<close> overwrites the bytes from \<open>off\<close>
  on, \<open>go_copy dst src\<close> is the built-in \<^verbatim>\<open>copy(dst, src)\<close>, which copies
  as many bytes as the shorter slice holds.
\<close>

definition slice :: "nat \<Rightarrow> nat \<Rightarrow> 'a list \<Rightarrow> 'a list" where
  "slice off n buf = take n (drop off buf)"

definition put_at :: "nat \<Rightarrow> 'a list \<Rightarrow> 'a list \<Rightarrow> 'a list" where
  "put_at off src buf = take off buf @ src @ drop (off + length src) buf"

definition go_copy :: "'a list \<Rightarrow> 'a list \<Rightarrow> 'a list" where
  "go_copy dst src = take (length dst) src @ drop (length src) dst"

text \<open>Writing past the end of a slice is a run-time panic.\<close>

definition put_checked :: "nat \<Rightarrow> 'a list \<Rightarrow> 'a list \<Rightarrow> 'a list res" where
  "put_checked off src buf =
     (if off + length src \<le> length buf then Inr (put_at off src buf)
      else Inl (Panic ''index out of range''))"

definition slice_checked :: "nat \<Rightarrow> nat \<Rightarrow> 'a list \<Rightarrow> 'a list res" where
  "slice_checked off n buf =
     (if off + n \<le> length buf then Inr (slice off n buf)
      else Inl (Panic ''index out of range''))"

lemma length_put_at [simp, buf_simps]:
  "off + length src \<le> length buf \<Longrightarrow> length (put_at off src buf) = length buf"
  by (simp add: put_at_def)

lemma length_slice [simp, buf_simps]: "off + n \<le> length buf \<Longrightarrow> length (slice off n buf) = n"
  by (simp add: slice_def)

lemma length_go_copy [simp, buf_simps]: "length (go_copy dst src) = length dst"
  by (simp add: go_copy_def)

lemma slice_0 [simp]: "slice off 0 buf = []"
  by (simp add: slice_def)

lemma nth_put_at:
  assumes "off + length src \<le> length buf" "i < length buf"
  shows "put_at off src buf ! i =
    (if off \<le> i \<and> i < off + length src then src ! (i - off) else buf ! i)"
  using assms by (auto simp: put_at_def nth_append less_diff_conv2 not_less)
lemma nth_slice: "i < n \<Longrightarrow> off + n \<le> length buf \<Longrightarrow> slice off n buf ! i = buf ! (off + i)"
  by (simp add: slice_def)

lemma slice_put_at_same [simp, buf_simps]:
  "off + length src \<le> length buf \<Longrightarrow> n = length src \<Longrightarrow> slice off n (put_at off src buf) = src"
  by (simp add: slice_def put_at_def)

lemma slice_put_at_other [buf_simps]:
  assumes "off + length src \<le> length buf" "o2 + n \<le> off \<or> off + length src \<le> o2"
    "o2 + n \<le> length buf"
  shows "slice o2 n (put_at off src buf) = slice o2 n buf"
  by (rule nth_equalityI) (use assms in \<open>auto simp: nth_slice nth_put_at\<close>)

lemma put_at_same_bytes [simp]: "off + n \<le> length buf \<Longrightarrow> put_at off (slice off n buf) buf = buf"
  by (rule nth_equalityI) (auto simp: nth_slice nth_put_at)

lemma go_copy_full [simp, buf_simps]: "length src = length dst \<Longrightarrow> go_copy dst src = src"
  by (simp add: go_copy_def)

lemma go_copy_put_at: "length src \<le> length dst \<Longrightarrow> go_copy dst src = put_at 0 src dst"
  by (simp add: go_copy_def put_at_def)

section \<open>Little-endian integers\<close>

text \<open>
  \<^verbatim>\<open>binary.LittleEndian.PutUint64\<close> and its kin write the bytes of a word,
  least significant first; \<^verbatim>\<open>Uint64\<close> and its kin read them back.
\<close>

definition le_put :: "nat \<Rightarrow> 'a::len word \<Rightarrow> byte list" where
  "le_put n w = map (\<lambda>i. ucast (drop_bit (8 * i) w)) [0..<n]"

fun le_get :: "byte list \<Rightarrow> 'a::len word" where
  "le_get [] = 0"
| "le_get (b # bs) = ucast b OR push_bit 8 (le_get bs)"

lemma length_le_put [simp, buf_simps]: "length (le_put n w) = n"
  by (simp add: le_put_def)

lemma bit_le_get:
  "bit (le_get bs :: 'a::len word) k \<longleftrightarrow>
     k < LENGTH('a) \<and> k div 8 < length bs \<and> bit (bs ! (k div 8)) (k mod 8)"
proof (induction bs arbitrary: k)
  case Nil
  then show ?case by simp
next
  case (Cons b bs)
  show ?case
  proof (cases "k < 8")
    case True
    then show ?thesis
      by (auto simp: bit_simps)
  next
    case False
    then have "k div 8 = Suc ((k - 8) div 8)" "(k - 8) mod 8 = k mod 8"
      by (auto simp: le_div_geq le_mod_geq)
    with False Cons.IH [of "k - 8"] show ?thesis
      by (auto simp: bit_simps dest: bit_imp_le_length)
  qed
qed

lemma le_get_put [simp, buf_simps]:
  assumes "LENGTH('a) \<le> 8 * n"
  shows "le_get (le_put n w) = (w :: 'a::len word)"
proof (rule bit_word_eqI)
  fix k
  assume k: "k < LENGTH('a)"
  then have "k div 8 < n" using assms by auto
  moreover have "8 * (k div 8) + k mod 8 = k" by simp
  ultimately show "bit (le_get (le_put n w) :: 'a word) k = bit w k"
    using k by (simp add: bit_le_get le_put_def bit_simps)
qed

lemma le_put_get [simp, buf_simps]:
  assumes "length bs = n" "8 * n \<le> LENGTH('a)"
  shows "le_put n (le_get bs :: 'a::len word) = bs"
proof (rule nth_equalityI)
  fix i
  assume i: "i < length (le_put n (le_get bs :: 'a word))"
  show "le_put n (le_get bs :: 'a word) ! i = bs ! i"
  proof (rule bit_word_eqI)
    fix k
    assume "k < LENGTH(8)"
    then have k: "k < 8" by simp
    then have "(8 * i + k) div 8 = i" "(8 * i + k) mod 8 = k" by auto
    then show "bit (le_put n (le_get bs :: 'a word) ! i) k = bit (bs ! i) k"
      using i k assms by (simp add: le_put_def bit_simps bit_le_get)
  qed
qed (simp add: assms)

lemma le_get_inj:
  assumes "(le_get a :: 'a::len word) = le_get b" "length a = length b" "8 * length b \<le> LENGTH('a)"
  shows "a = b"
  using le_put_get [of a "length b", where 'a = 'a] le_put_get [of b "length b", where 'a = 'a] assms
  by metis

lemma sint_inject [simp]: "sint a = sint b \<longleftrightarrow> a = b"
  by (auto intro: signed_word_eqI)

lemma slice_append_left [buf_simps]: "off + n \<le> length a \<Longrightarrow> slice off n (a @ b) = slice off n a"
  by (simp add: slice_def)

lemma slice_append_right [buf_simps]:
  "length a \<le> off \<Longrightarrow> slice off n (a @ b) = slice (off - length a) n b"
  by (simp add: slice_def)

lemma slice_all [simp, buf_simps]: "n = length a \<Longrightarrow> slice 0 n a = a"
  by (simp add: slice_def)

text \<open>
  \<^verbatim>\<open>copy(buf[off:], src)\<close>, and a writer applied to \<^verbatim>\<open>buf[off:]\<close>.
\<close>

definition copy_checked :: "nat \<Rightarrow> 'a list \<Rightarrow> 'a list \<Rightarrow> 'a list res" where
  "copy_checked off src buf =
     (if off \<le> length buf then Inr (take off buf @ go_copy (drop off buf) src)
      else Inl (Panic ''slice bounds out of range''))"

definition write_from :: "nat \<Rightarrow> ('a list \<Rightarrow> 'a list res) \<Rightarrow> 'a list \<Rightarrow> 'a list res" where
  "write_from off f buf =
     (if off \<le> length buf then bindR (f (drop off buf)) (\<lambda>sub. Inr (take off buf @ sub))
      else Inl (Panic ''slice bounds out of range''))"

lemma put_at_append [buf_simps]:
  "off = length a \<Longrightarrow> length old = length src \<Longrightarrow> put_at off src (a @ old @ rest) = a @ src @ rest"
  "off = length a \<Longrightarrow> length old = length src \<Longrightarrow> put_at off src (a @ old) = a @ src"
  by (simp_all add: put_at_def)

lemma copy_checked_append [buf_simps]:
  "off = length a \<Longrightarrow> length old = length src \<Longrightarrow> copy_checked off src (a @ old @ rest) = Inr (a @ src @ rest)"
  "off = length a \<Longrightarrow> length old = length src \<Longrightarrow> copy_checked off src (a @ old) = Inr (a @ src)"
  by (simp_all add: copy_checked_def go_copy_def)

section \<open>Three-way comparison\<close>

text \<open>
  The code orders values, keys and tuples with functions that return \<open>-1\<close>, \<open>0\<close>
  or \<open>1\<close> and that panic on operands of different types.  The locale states what
  such a comparison promises on operands that are comparable (\<open>same\<close>); its lemmas
  give the clients (sorting, joins, ordered indexes) a total preorder.
\<close>

fun lex_cmp :: "('a \<Rightarrow> 'a \<Rightarrow> int res) \<Rightarrow> 'a list \<Rightarrow> 'a list \<Rightarrow> int res" where
  "lex_cmp cmp (x # xs) (y # ys) =
     bindR (cmp x y) (\<lambda>c. if c \<noteq> 0 then Inr c else lex_cmp cmp xs ys)"
| "lex_cmp cmp _ _ = Inr 0"

locale three_way =
  fixes same :: "'a \<Rightarrow> 'a \<Rightarrow> bool" and cmp :: "'a \<Rightarrow> 'a \<Rightarrow> int res"
  assumes same_sym: "same x y \<Longrightarrow> same y x"
    and same_trans: "same x y \<Longrightarrow> same y z \<Longrightarrow> same x z"
    and cmp_range: "same x y \<Longrightarrow> \<exists>c \<in> {- 1, 0, 1}. cmp x y = Inr c"
    and cmp_antisym: "same x y \<Longrightarrow> cmp x y = Inr c \<Longrightarrow> cmp y x = Inr (- c)"
    and cmp_trans: "same x y \<Longrightarrow> same y z \<Longrightarrow> cmp x y = Inr c \<Longrightarrow> cmp y z = Inr d \<Longrightarrow>
      c \<le> 0 \<Longrightarrow> d \<le> 0 \<Longrightarrow> \<exists>e. cmp x z = Inr e \<and> e \<le> 0 \<and> (e = 0 \<longleftrightarrow> c = 0 \<and> d = 0)"
begin

lemma cmp_self: "same x x \<Longrightarrow> cmp x x = Inr 0"
  using cmp_range [of x x] cmp_antisym [of x x] by fastforce

lemma cmp_le_total: "same x y \<Longrightarrow> (\<exists>c \<le> 0. cmp x y = Inr c) \<or> (\<exists>c \<le> 0. cmp y x = Inr c)"
  using cmp_range [of x y] cmp_antisym [of x y] by force

lemma cmp_zero_trans:
  assumes "same x y" "same y z" "cmp x y = Inr 0" "cmp y z = Inr 0"
  shows "cmp x z = Inr 0"
  using cmp_trans [OF assms] by auto

lemma cmp_zero_left:
  assumes "same x y" "same y z" "cmp x y = Inr 0"
  shows "cmp x z = cmp y z"
proof -
  obtain d where d: "cmp y z = Inr d" "d \<in> {- 1, 0, 1}" using cmp_range assms by blast
  have zy: "cmp z y = Inr (- d)" using cmp_antisym assms d by blast
  have yx: "cmp y x = Inr 0" using cmp_antisym [of x y 0] assms by simp
  have xz: "same x z" using same_trans assms by blast
  show ?thesis
  proof (cases "d \<le> 0")
    case True
    then obtain e where "cmp x z = Inr e" "e \<le> 0" "e = 0 \<longleftrightarrow> d = 0"
      using cmp_trans [OF assms(1,2,3) d(1)] by auto
    then show ?thesis using True d cmp_range [OF xz] by auto
  next
    case False
    then have "d = 1" using d by auto
    then obtain e where "cmp z x = Inr e" "e \<le> 0" "e \<noteq> 0"
      using cmp_trans [of z y x "- 1" 0] same_sym assms zy yx by auto
    moreover have zx: "same z x" using same_sym xz .
    ultimately have "cmp z x = Inr (- 1)" using cmp_range [OF zx] by auto
    then have "cmp x z = Inr 1" using cmp_antisym [OF zx, of "- 1"] by simp
    then show ?thesis using \<open>d = 1\<close> d by simp
  qed
qed

lemma lex_cmp_range: "list_all2 same xs ys \<Longrightarrow> \<exists>c \<in> {- 1, 0, 1}. lex_cmp cmp xs ys = Inr c"
proof (induction rule: list_all2_induct)
  case (Cons x xs y ys)
  obtain c where "cmp x y = Inr c" "c \<in> {- 1, 0, 1}" using cmp_range Cons by blast
  with Cons show ?case by auto
qed simp

lemma lex_cmp_antisym:
  "list_all2 same xs ys \<Longrightarrow> lex_cmp cmp xs ys = Inr c \<Longrightarrow> lex_cmp cmp ys xs = Inr (- c)"
proof (induction rule: list_all2_induct)
  case (Cons x xs y ys)
  then obtain d where d: "cmp x y = Inr d" using cmp_range by blast
  then have "cmp y x = Inr (- d)" using cmp_antisym Cons by blast
  with d Cons show ?case by (auto split: if_splits)
qed simp

lemma lex_cmp_trans:
  assumes "list_all2 same xs ys" "list_all2 same ys zs"
    "lex_cmp cmp xs ys = Inr c" "lex_cmp cmp ys zs = Inr d" "c \<le> 0" "d \<le> 0"
  shows "\<exists>e. lex_cmp cmp xs zs = Inr e \<and> e \<le> 0 \<and> (e = 0 \<longleftrightarrow> c = 0 \<and> d = 0)"
  using assms
proof (induction xs arbitrary: ys zs)
  case (Cons x xs)
  then obtain y ys' z zs' where yz: "ys = y # ys'" "zs = z # zs'" and s: "same x y" "same y z"
    by (auto simp: list_all2_Cons1)
  obtain a b where ab: "cmp x y = Inr a" "cmp y z = Inr b" using s cmp_range by meson
  have "a \<le> 0" "b \<le> 0" using Cons.prems ab yz by (auto split: if_splits)
  then obtain e where e: "cmp x z = Inr e" "e \<le> 0" "e = 0 \<longleftrightarrow> a = 0 \<and> b = 0"
    using cmp_trans [OF s ab] by blast
  show ?case
  proof (cases "a = 0 \<and> b = 0")
    case True
    then show ?thesis using Cons.IH [of ys' zs'] Cons.prems e ab yz by auto
  next
    case False
    then show ?thesis using Cons.prems e ab yz by (auto split: if_splits)
  qed
qed auto

lemma lex_three_way: "three_way (list_all2 same) (lex_cmp cmp)"
proof
  show "list_all2 same y x" if "list_all2 same x y" for x y
    using that same_sym by (metis list_all2_conv_all_nth)
  show "list_all2 same x z" if "list_all2 same x y" "list_all2 same y z" for x y z
    using list_all2_trans [of same same same x y z] same_trans that by blast
  show "\<exists>c \<in> {- 1, 0, 1}. lex_cmp cmp x y = Inr c" if "list_all2 same x y" for x y
    using that by (rule lex_cmp_range)
  show "lex_cmp cmp y x = Inr (- c)"
    if "list_all2 same x y" "lex_cmp cmp x y = Inr c" for x y c
    using that by (rule lex_cmp_antisym)
  show "\<exists>e. lex_cmp cmp x z = Inr e \<and> e \<le> 0 \<and> (e = 0 \<longleftrightarrow> c = 0 \<and> d = 0)"
    if "list_all2 same x y" "list_all2 same y z" "lex_cmp cmp x y = Inr c"
      "lex_cmp cmp y z = Inr d" "c \<le> 0" "d \<le> 0" for x y z c d
    using that by (rule lex_cmp_trans)
qed

end

end
