(* ===== verification/Common_Types.thy ===== *)
theory Common_Types
  imports Prelude "HOL-Library.Signed_Division"
begin

text \<open>
  Package \<^verbatim>\<open>common\<close> (\<^verbatim>\<open>types.go\<close>, \<^verbatim>\<open>utils.go\<close>):
  page and record identifiers with their 8 and 12 byte serialisations, the typed
  column values with their fixed-width storage format and NULL sentinels, their
  ordering, and the successor and predecessor that range scans use for open bounds.
\<close>

section \<open>Constants and utilities\<close>

definition PageSize :: nat where "PageSize = 4096"
definition IntSize :: nat where "IntSize = 8"
definition StringLength :: nat where "StringLength = 32"

lemmas size_defs = PageSize_def IntSize_def StringLength_def

text \<open>\<^verbatim>\<open>Align8\<close> clears the three low bits of \<open>n + 7\<close>.\<close>

definition Align8 :: "int \<Rightarrow> int" where
  "Align8 n = (n + 7) AND NOT 7"

definition AlignedTo8 :: "int \<Rightarrow> bool" where
  "AlignedTo8 n \<longleftrightarrow> n smod 8 = 0"

definition offset64 :: "64 word" where "offset64 = 14695981039346656037"
definition prime64 :: "64 word" where "prime64 = 1099511628211"

fun Hash_loop :: "64 word \<Rightarrow> byte list \<Rightarrow> 64 word" where
  "Hash_loop h [] = h"
| "Hash_loop h (b # bs) = Hash_loop ((h XOR ucast b) * prime64) bs"

definition Hash :: "byte list \<Rightarrow> 64 word" where
  "Hash data = Hash_loop offset64 data"

section \<open>Types, page and record identifiers\<close>

datatype gtype = DefaultType | IntType | StringType

fun Type_Size :: "gtype \<Rightarrow> nat res" where
  "Type_Size IntType = Inr IntSize"
| "Type_Size StringType = Inr StringLength"
| "Type_Size DefaultType = Inl (Panic ''unknown type'')"

type_synonym ObjectID = "32 word"
type_synonym TransactionID = "64 word"

definition InvalidObjectID :: ObjectID where "InvalidObjectID = 0"
definition InvalidTransactionID :: TransactionID where "InvalidTransactionID = 0"

datatype PageID = PageID (Oid: ObjectID) (PageNum: "32 word")
datatype RecordID = RecordID (ridPage: PageID) (Slot: "32 word")

definition PageIDSize :: nat where "PageIDSize = 8"
definition RecordIDSize :: nat where "RecordIDSize = 12"

definition PageID_IsNil :: "PageID \<Rightarrow> bool" where
  "PageID_IsNil p \<longleftrightarrow> Oid p = 0"

definition PageID_WriteTo :: "PageID \<Rightarrow> byte list \<Rightarrow> byte list res" where
  "PageID_WriteTo p data =
     (if length data < PageIDSize then Inl (Panic ''buffer too small'')
      else bindR (put_checked 0 (le_put 4 (Oid p)) data)
             (\<lambda>d. put_checked 4 (le_put 4 (PageNum p)) d))"

definition PageID_LoadFrom :: "byte list \<Rightarrow> PageID res" where
  "PageID_LoadFrom data =
     (if length data < PageIDSize then Inl (Panic ''buffer too small'')
      else Inr (PageID (le_get (slice 0 4 data)) (le_get (slice 4 4 data))))"

definition RecordID_IsNil :: "RecordID \<Rightarrow> bool" where
  "RecordID_IsNil r \<longleftrightarrow> PageID_IsNil (ridPage r)"

definition RecordID_WriteTo :: "RecordID \<Rightarrow> byte list \<Rightarrow> byte list res" where
  "RecordID_WriteTo r data =
     (if length data < RecordIDSize then Inl (Panic ''buffer too small'')
      else bindR (PageID_WriteTo (ridPage r) data)
             (\<lambda>d. put_checked PageIDSize (le_put 4 (Slot r)) d))"

definition RecordID_LoadFrom :: "byte list \<Rightarrow> RecordID res" where
  "RecordID_LoadFrom data =
     (if length data < RecordIDSize then Inl (Panic ''buffer too small'')
      else bindR (PageID_LoadFrom data)
             (\<lambda>p. Inr (RecordID p (le_get (slice PageIDSize 4 data)))))"

text \<open>The zero value of the struct, which is what \<^verbatim>\<open>common.RecordID{}\<close> builds.\<close>

definition zeroRID :: RecordID where
  "zeroRID = RecordID (PageID 0 0) 0"

section \<open>Values\<close>

record Value =
  val_t :: gtype
  val_safe :: bool
  val_null :: bool
  val_int :: "64 word"
  val_str :: "byte list"

definition zeroValue :: "gtype \<Rightarrow> Value" where
  "zeroValue t = \<lparr>val_t = t, val_safe = False, val_null = False, val_int = 0, val_str = []\<rparr>"

definition MinInt64 :: "64 word" where "MinInt64 = 0x8000000000000000"
definition MaxInt64 :: "64 word" where "MaxInt64 = 0x7FFFFFFFFFFFFFFF"

text \<open>The index of the first zero byte among the first \<open>n\<close>, or \<open>n\<close>.\<close>

fun realLen_loop :: "byte list \<Rightarrow> nat \<Rightarrow> nat \<Rightarrow> nat" where
  "realLen_loop source i 0 = i"
| "realLen_loop source i (Suc k) =
     (if source ! i = 0 then i else realLen_loop source (Suc i) k)"

definition AsValue :: "gtype \<Rightarrow> byte list \<Rightarrow> Value res" where
  "AsValue t source = (case t of
     IntType \<Rightarrow>
       bindR (slice_checked 0 8 source) (\<lambda>b.
         let n = le_get b
         in Inr ((zeroValue t)\<lparr>val_int := n, val_null := (n = MinInt64)\<rparr>))
   | StringType \<Rightarrow>
       bindR (slice_checked 0 1 source) (\<lambda>b.
         if b ! 0 = 0xFF then Inr ((zeroValue t)\<lparr>val_null := True, val_safe := True\<rparr>)
         else bindR (Assert (length source \<ge> StringLength) ''string too short'') (\<lambda>_.
           let realLen = realLen_loop source 0 StringLength
           in if realLen = 0 then Inr ((zeroValue t)\<lparr>val_str := [], val_safe := True\<rparr>)
              else Inr ((zeroValue t)\<lparr>val_str := take realLen source, val_safe := False\<rparr>)))
   | DefaultType \<Rightarrow> Inr (zeroValue t))"

definition Value_IsNil :: "Value \<Rightarrow> bool" where
  "Value_IsNil v \<longleftrightarrow> val_t v = DefaultType"

definition Value_Copy :: "Value \<Rightarrow> Value" where
  "Value_Copy v =
     (if val_t v = StringType \<and> \<not> val_null v \<and> \<not> val_safe v
      then \<lparr>val_t = StringType, val_safe = True, val_null = False, val_int = 0,
            val_str = val_str v\<rparr>
      else v)"

definition NewIntValue :: "64 word \<Rightarrow> Value" where
  "NewIntValue n = (zeroValue IntType)\<lparr>val_int := n\<rparr>"

definition NewStringValue :: "byte list \<Rightarrow> Value res" where
  "NewStringValue s =
     (if length s > StringLength then Inl (Panic ''string too long'')
      else Inr ((zeroValue StringType)\<lparr>val_str := s, val_safe := True\<rparr>))"

definition NewNullInt :: Value where
  "NewNullInt = (zeroValue IntType)\<lparr>val_null := True\<rparr>"

definition NewNullString :: Value where
  "NewNullString = (zeroValue StringType)\<lparr>val_null := True, val_safe := True\<rparr>"

definition IntValue :: "Value \<Rightarrow> 64 word res" where
  "IntValue v =
     bindR (Assert (val_t v = IntType) ''type mismatch in IntValue'') (\<lambda>_.
     bindR (Assert (\<not> val_null v) ''accessing value of NULL int'') (\<lambda>_. Inr (val_int v)))"

definition StringValue :: "Value \<Rightarrow> byte list res" where
  "StringValue v =
     bindR (Assert (val_t v = StringType) ''type mismatch in StringValue'') (\<lambda>_.
     bindR (Assert (\<not> val_null v) ''accessing value of NULL string'') (\<lambda>_. Inr (val_str v)))"

section \<open>Successor and predecessor of a string\<close>

text \<open>
  \<^verbatim>\<open>nextLexString\<close> on a string of full length: scan from the last byte for one
  that is not \<open>0xFF\<close>; \<open>i\<close> counts the bytes still to be looked at.
\<close>

fun nextLex_carry :: "nat \<Rightarrow> byte list \<Rightarrow> byte list res" where
  "nextLex_carry 0 b = Inl (Panic ''string overflow in Increment'')"
| "nextLex_carry (Suc i) b =
     (if b ! i \<noteq> 0xFF
      then Inr (take i b @ [b ! i + 1] @ replicate (length b - Suc i) 0)
      else nextLex_carry i b)"

definition nextLexString :: "byte list \<Rightarrow> byte list res" where
  "nextLexString s =
     bindR (Assert (length s \<le> StringLength) ''string too long'') (\<lambda>_.
     if length s < StringLength then Inr (s @ [0]) else nextLex_carry (length s) s)"

definition prevLexString :: "byte list \<Rightarrow> byte list res" where
  "prevLexString s =
     bindR (Assert (length s \<le> StringLength) ''string too long'') (\<lambda>_.
     bindR (Assert (length s > 0) ''string underflow in Decrement'') (\<lambda>_.
     if last s = 0 then Inr (butlast s)
     else Inr (butlast s @ [last s - 1] @ replicate (StringLength - length s) 0xFF)))"

definition Value_Increment :: "Value \<Rightarrow> Value res" where
  "Value_Increment v =
     bindR (Assert (\<not> val_null v) ''incrementing NULL value'') (\<lambda>_.
     case val_t v of
       IntType \<Rightarrow>
         bindR (Assert (sint (val_int v) < sint MaxInt64) ''int overflow in Increment'')
           (\<lambda>_. Inr (NewIntValue (val_int v + 1)))
     | StringType \<Rightarrow> bindR (nextLexString (val_str v)) NewStringValue
     | DefaultType \<Rightarrow> Inl (Panic ''unknown type''))"

definition Value_Decrement :: "Value \<Rightarrow> Value res" where
  "Value_Decrement v =
     bindR (Assert (\<not> val_null v) ''decrementing NULL value'') (\<lambda>_.
     case val_t v of
       IntType \<Rightarrow>
         bindR (Assert (sint (val_int v) > sint MinInt64) ''int underflow in Decrement'')
           (\<lambda>_. Inr (NewIntValue (val_int v - 1)))
     | StringType \<Rightarrow> bindR (prevLexString (val_str v)) NewStringValue
     | DefaultType \<Rightarrow> Inl (Panic ''unknown type''))"

section \<open>Storage format and ordering\<close>

definition SizeInBytes :: "Value \<Rightarrow> nat res" where
  "SizeInBytes v = Type_Size (val_t v)"

definition Value_WriteTo :: "Value \<Rightarrow> byte list \<Rightarrow> byte list res" where
  "Value_WriteTo v data =
     bindR (SizeInBytes v) (\<lambda>sz.
     bindR (Assert (length data \<ge> sz) ''buffer too small'') (\<lambda>_.
     if val_null v then
       (case val_t v of
          IntType \<Rightarrow> put_checked 0 (le_put 8 MinInt64) data
        | StringType \<Rightarrow> put_checked 0 (0xFF # replicate (StringLength - 1) 0) data
        | DefaultType \<Rightarrow> Inr data)
     else
       (case val_t v of
          IntType \<Rightarrow> put_checked 0 (le_put 8 (val_int v)) data
        | StringType \<Rightarrow>
            (let n = min (length data) (length (val_str v)); d = go_copy data (val_str v)
             in put_checked n (replicate (StringLength - n) 0) d)
        | DefaultType \<Rightarrow> Inr data)))"

definition Value_Compare :: "Value \<Rightarrow> Value \<Rightarrow> int res" where
  "Value_Compare v w =
     bindR (Assert (val_t v = val_t w) ''type mismatch in comparison'') (\<lambda>_.
     if val_null v \<and> val_null w then Inr 0
     else if val_null v then Inr (- 1)
     else if val_null w then Inr 1
     else case val_t v of
       IntType \<Rightarrow>
         Inr (if sint (val_int v) < sint (val_int w) then - 1
              else if sint (val_int v) > sint (val_int w) then 1 else 0)
     | StringType \<Rightarrow>
         Inr (if val_str v < val_str w then - 1 else if val_str v > val_str w then 1 else 0)
     | DefaultType \<Rightarrow> Inl (Panic ''unreachable''))"

section \<open>Identifiers: serialisation and order\<close>

lemma PageID_roundtrip:
  assumes "PageIDSize \<le> length data"
  shows "bindR (PageID_WriteTo p data) PageID_LoadFrom = Inr p"
  using assms
  by (cases p) (simp add: PageID_WriteTo_def PageID_LoadFrom_def PageIDSize_def put_checked_def
      slice_put_at_other)

lemma length_PageID_WriteTo:
  "PageID_WriteTo p data = Inr d \<Longrightarrow> length d = length data"
  by (auto simp: PageID_WriteTo_def put_checked_def split: if_splits)

text \<open>The bytes a record identifier is stored as.\<close>

definition rid_bytes :: "RecordID \<Rightarrow> byte list" where
  "rid_bytes r = le_put 4 (Oid (ridPage r)) @ le_put 4 (PageNum (ridPage r)) @ le_put 4 (Slot r)"

lemma length_rid_bytes [simp]: "length (rid_bytes r) = 12"
  by (simp add: rid_bytes_def)

lemma RecordID_WriteTo_bytes:
  assumes "RecordIDSize \<le> length data"
  shows "RecordID_WriteTo r data = Inr (put_at 0 (rid_bytes r) data)"
proof -
  obtain d1 d2 where d: "data = d1 @ d2" "length d1 = 12"
    using assms by (metis append_take_drop_id length_take min_absorb2 RecordIDSize_def)
  have "length d2 = length data - 12" using d by simp
  then show ?thesis
    using d assms
    by (simp add: RecordID_WriteTo_def PageID_WriteTo_def put_checked_def PageIDSize_def
        RecordIDSize_def put_at_def rid_bytes_def)
qed

lemma RecordID_LoadFrom_bytes:
  "RecordID_LoadFrom (rid_bytes r @ rest) = Inr r"
  by (cases r; cases "ridPage r")
    (simp add: RecordID_LoadFrom_def PageID_LoadFrom_def RecordIDSize_def PageIDSize_def
      rid_bytes_def slice_def)

lemma put_at_0: "put_at 0 src buf = src @ drop (length src) buf"
  by (simp add: put_at_def)

lemma RecordID_roundtrip:
  assumes "RecordIDSize \<le> length data"
  shows "bindR (RecordID_WriteTo r data) RecordID_LoadFrom = Inr r"
  using assms by (simp add: RecordID_WriteTo_bytes RecordID_LoadFrom_bytes put_at_0)

text \<open>
  Records are ordered by object, then page, then slot; page and slot numbers are
  signed.  This is the tie-break of the ordered index.
\<close>

instantiation PageID :: linorder
begin

definition less_eq_PageID :: "PageID \<Rightarrow> PageID \<Rightarrow> bool" where
  "less_eq_PageID a b \<longleftrightarrow>
     Oid a < Oid b \<or> Oid a = Oid b \<and> sint (PageNum a) \<le> sint (PageNum b)"

definition less_PageID :: "PageID \<Rightarrow> PageID \<Rightarrow> bool" where
  "less_PageID a b \<longleftrightarrow>
     Oid a < Oid b \<or> Oid a = Oid b \<and> sint (PageNum a) < sint (PageNum b)"

instance
  by standard (auto simp: less_eq_PageID_def less_PageID_def PageID.expand)

end

instantiation RecordID :: linorder
begin

definition less_eq_RecordID :: "RecordID \<Rightarrow> RecordID \<Rightarrow> bool" where
  "less_eq_RecordID a b \<longleftrightarrow>
     ridPage a < ridPage b \<or> ridPage a = ridPage b \<and> sint (Slot a) \<le> sint (Slot b)"

definition less_RecordID :: "RecordID \<Rightarrow> RecordID \<Rightarrow> bool" where
  "less_RecordID a b \<longleftrightarrow>
     ridPage a < ridPage b \<or> ridPage a = ridPage b \<and> sint (Slot a) < sint (Slot b)"

instance
  by standard (auto simp: less_eq_RecordID_def less_RecordID_def RecordID.expand)

end

section \<open>Values: the ordering\<close>

definition same_type :: "Value \<Rightarrow> Value \<Rightarrow> bool" where
  "same_type v w \<longleftrightarrow> val_t v = val_t w \<and> val_t v \<noteq> DefaultType"

text \<open>Equality as the code sees it: the type, the NULL flag and the payload.\<close>

definition value_eq :: "Value \<Rightarrow> Value \<Rightarrow> bool" where
  "value_eq v w \<longleftrightarrow> val_t v = val_t w \<and> val_null v = val_null w \<and>
     (\<not> val_null v \<longrightarrow> (val_t v = IntType \<longrightarrow> val_int v = val_int w) \<and>
                      (val_t v = StringType \<longrightarrow> val_str v = val_str w))"

interpretation vcmp: three_way same_type Value_Compare
proof
  show "\<exists>c \<in> {- 1, 0, 1}. Value_Compare x y = Inr c" if "same_type x y" for x y
    using that by (auto simp: same_type_def Value_Compare_def split: gtype.splits)
  show "Value_Compare y x = Inr (- c)" if "same_type x y" "Value_Compare x y = Inr c" for x y c
    using that by (auto simp: same_type_def Value_Compare_def split: gtype.splits if_splits)
  show "\<exists>e. Value_Compare x z = Inr e \<and> e \<le> 0 \<and> (e = 0 \<longleftrightarrow> c = 0 \<and> d = 0)"
    if "same_type x y" "same_type y z" "Value_Compare x y = Inr c" "Value_Compare y z = Inr d"
      "c \<le> 0" "d \<le> 0" for x y z c d
    using that by (auto simp: same_type_def Value_Compare_def split: gtype.splits if_splits)
qed (auto simp: same_type_def)

interpretation vlex: three_way "list_all2 same_type" "lex_cmp Value_Compare"
  by (rule vcmp.lex_three_way)

lemma Value_Compare_eq_0:
  assumes "same_type v w"
  shows "Value_Compare v w = Inr 0 \<longleftrightarrow> value_eq v w"
  using assms
  by (auto simp: same_type_def Value_Compare_def value_eq_def split: gtype.splits)

section \<open>Values: the storage format\<close>

text \<open>
  A value survives storage when its payload is not one of the sentinels: an integer
  other than the smallest one, a string of at most 32 bytes that has no zero byte and
  does not start with \<open>0xFF\<close>.  NULL values of either type always do.
\<close>

definition storable :: "Value \<Rightarrow> bool" where
  "storable v \<longleftrightarrow> (case val_t v of
     IntType \<Rightarrow> val_null v \<or> val_int v \<noteq> MinInt64
   | StringType \<Rightarrow> val_null v \<or>
       length (val_str v) \<le> StringLength \<and> 0 \<notin> set (val_str v) \<and>
       (val_str v \<noteq> [] \<longrightarrow> hd (val_str v) \<noteq> 0xFF)
   | DefaultType \<Rightarrow> False)"

lemma realLen_loop_prefix:
  assumes "0 \<notin> set (drop i s)" "i \<le> length s" "length s \<le> i + k"
    "source = s @ replicate m 0 @ rest" "i + k \<le> length s + m"
  shows "realLen_loop source i k = length s"
  using assms
proof (induction k arbitrary: i)
  case (Suc k)
  show ?case
  proof (cases "i < length s")
    case True
    then have d: "drop i s = s ! i # drop (Suc i) s" by (simp add: Cons_nth_drop_Suc)
    then have "source ! i = s ! i" "s ! i \<noteq> 0" "0 \<notin> set (drop (Suc i) s)"
      using Suc.prems True by (auto simp: nth_append)
    then show ?thesis using Suc True by simp
  next
    case False
    then have "i = length s" using Suc.prems by simp
    then show ?thesis using Suc.prems by (simp add: nth_append)
  qed
qed simp

text \<open>The encoded bytes of a value, without the buffer around them.\<close>

definition value_bytes :: "Value \<Rightarrow> byte list" where
  "value_bytes v = (case val_t v of
     IntType \<Rightarrow> le_put 8 (if val_null v then MinInt64 else val_int v)
   | StringType \<Rightarrow> if val_null v then 0xFF # replicate (StringLength - 1) 0
       else val_str v @ replicate (StringLength - length (val_str v)) 0
   | DefaultType \<Rightarrow> [])"

definition type_size :: "gtype \<Rightarrow> nat" where
  "type_size t = (case t of IntType \<Rightarrow> IntSize | StringType \<Rightarrow> StringLength | DefaultType \<Rightarrow> 0)"

definition value_wf :: "Value \<Rightarrow> bool" where
  "value_wf v \<longleftrightarrow> val_t v \<noteq> DefaultType \<and>
     (val_t v = StringType \<longrightarrow> length (val_str v) \<le> StringLength)"

lemma length_value_bytes: "value_wf v \<Longrightarrow> length (value_bytes v) = type_size (val_t v)"
  by (auto simp: value_bytes_def type_size_def value_wf_def size_defs split: gtype.splits)

lemma Value_WriteTo_bytes:
  assumes "value_wf v" "type_size (val_t v) \<le> length data"
  shows "Value_WriteTo v data = Inr (put_at 0 (value_bytes v) data)"
  using assms
  by (cases "val_t v")
    (auto simp: Value_WriteTo_def SizeInBytes_def value_bytes_def value_wf_def type_size_def
      put_checked_def size_defs go_copy_put_at put_at_def min_def)

lemma AsValue_bytes:
  assumes "storable v"
  shows "\<exists>w. AsValue (val_t v) (value_bytes v @ rest) = Inr w \<and> value_eq v w"
proof (cases "val_t v")
  case IntType
  then show ?thesis using assms
    by (auto simp: AsValue_def value_bytes_def slice_checked_def slice_append_left Let_def
        zeroValue_def value_eq_def storable_def)
next
  case StringType
  show ?thesis
  proof (cases "val_null v")
    case True
    then show ?thesis using StringType
      by (auto simp: AsValue_def value_bytes_def slice_checked_def slice_def zeroValue_def
          value_eq_def)
  next
    case False
    let ?s = "val_str v"
    have s: "length ?s \<le> 32" "0 \<notin> set ?s" "?s \<noteq> [] \<longrightarrow> hd ?s \<noteq> 0xFF"
      using assms StringType False by (auto simp: storable_def StringLength_def)
    have src: "value_bytes v @ rest = ?s @ replicate (32 - length ?s) 0 @ rest"
      using StringType False by (simp add: value_bytes_def StringLength_def)
    have len: "32 \<le> length (value_bytes v @ rest)" using s by (simp add: src)
    have hd0: "(value_bytes v @ rest) ! 0 \<noteq> 0xFF"
      using s by (cases ?s) (auto simp: src nth_append)
    have rl: "realLen_loop (value_bytes v @ rest) 0 32 = length ?s"
      using realLen_loop_prefix [of 0 ?s 32 _ "32 - length ?s" rest] s src by simp
    have tk: "take (length ?s) (value_bytes v @ rest) = ?s"
      by (simp add: src)
    have "slice 0 1 (value_bytes v @ rest) ! 0 = (value_bytes v @ rest) ! 0"
      using len by (simp add: nth_slice)
    then show ?thesis
      using StringType False hd0 len rl tk
      by (auto simp: AsValue_def slice_checked_def StringLength_def Let_def zeroValue_def
          value_eq_def)
  qed
next
  case DefaultType
  then show ?thesis using assms by (simp add: storable_def)
qed

lemma storable_wf: "storable v \<Longrightarrow> val_str v = [] \<or> val_t v \<noteq> StringType \<or> \<not> val_null v \<Longrightarrow> value_wf v"
  by (auto simp: storable_def value_wf_def split: gtype.splits)

lemma AsValue_type: "AsValue t s = Inr v \<Longrightarrow> val_t v = t"
  by (auto simp: AsValue_def zeroValue_def slice_checked_def Assert_def Let_def
      split: gtype.splits if_splits)

lemma AsValue_total:
  assumes "t \<noteq> DefaultType" "type_size t \<le> length s"
  shows "\<exists>v. AsValue t s = Inr v"
  using assms
  by (cases t) (auto simp: AsValue_def slice_checked_def type_size_def size_defs Let_def Assert_def)

lemma AsValue_wf:
  assumes "AsValue t s = Inr v" "t \<noteq> DefaultType"
  shows "value_wf v"
proof -
  have "realLen_loop s i k \<le> i + k" for i k
  proof (induction k arbitrary: i)
    case (Suc k)
    then show ?case using Suc [of "Suc i"] by simp
  qed simp
  from this [of 0 StringLength] show ?thesis using assms
    by (auto simp: AsValue_def zeroValue_def slice_checked_def Assert_def Let_def value_wf_def
      split: gtype.splits if_splits)
qed

section \<open>Values: successor and predecessor\<close>

lemma less_snoc_0: "u < s @ [0] \<longleftrightarrow> u \<le> (s :: byte list)"
proof (induction s arbitrary: u)
  case Nil
  then show ?case by (cases u) auto
next
  case (Cons x s)
  then show ?case by (cases u) (auto simp: less_le)
qed

lemma unat_byte_less: "unat (y :: byte) < 256"
  using unsigned_less [of y, where 'a = nat] by simp

lemma byte_le_top: "(y :: byte) \<le> 0xFF"
  using unat_byte_less [of y] by (simp add: word_le_nat_alt)

lemma le_replicate_top:
  "length ys \<le> k \<Longrightarrow> ys \<le> replicate k (0xFF :: byte)"
proof (induction ys arbitrary: k)
  case (Cons y ys)
  have "y \<le> 0xFF" by (rule byte_le_top)
  then show ?case using Cons by (cases k) (auto simp: less_le)
qed simp

lemma word_less_iff_le_pred: "x \<noteq> 0 \<Longrightarrow> y < x \<longleftrightarrow> y \<le> x - (1 :: byte)"
  by unat_arith

lemma less_snoc_pred:
  assumes "x \<noteq> 0" "length u \<le> length p + 1 + k"
  shows "u < p @ [x] \<longleftrightarrow> u \<le> p @ [x - 1] @ replicate k (0xFF :: byte)"
  using assms
proof (induction p arbitrary: u)
  case Nil
  show ?case
  proof (cases u)
    case (Cons y ys)
    then have "ys \<le> replicate k 0xFF" using Nil le_replicate_top by auto
    moreover have "y < x \<longleftrightarrow> y \<le> x - 1" using Nil by (simp add: word_less_iff_le_pred)
    ultimately show ?thesis using Cons by (auto simp: le_less)
  qed simp
next
  case (Cons a p)
  then show ?case by (cases u) auto
qed

lemma nextLex_carry_Some:
  assumes "nextLex_carry i b = Inr t" "i \<le> length b"
  obtains j where "j < i" "b ! j \<noteq> 0xFF" "t = take j b @ [b ! j + 1] @ replicate (length b - Suc j) 0"
    "\<forall>k. j < k \<and> k < i \<longrightarrow> b ! k = 0xFF"
  using assms
proof (induction i)
  case (Suc i)
  show ?case
  proof (cases "b ! i = 0xFF")
    case True
    show ?thesis
    proof (rule Suc.IH)
      fix j
      assume "j < i" "b ! j \<noteq> 0xFF" "t = take j b @ [b ! j + 1] @ replicate (length b - Suc j) 0"
        "\<forall>k. j < k \<and> k < i \<longrightarrow> b ! k = 0xFF"
      with True Suc.prems(1) [of j] show thesis by (metis less_Suc_eq)
    qed (use Suc.prems True in auto)
  next
    case False
    show ?thesis by (rule Suc.prems(1) [of i]) (use False Suc.prems(2) in auto)
  qed
qed simp

lemma nextLexString_length: "nextLexString s = Inr t \<Longrightarrow> length t \<le> StringLength"
  by (auto simp: nextLexString_def Assert_def split: if_splits elim!: nextLex_carry_Some)

lemma less_append_mid:
  "(x :: byte) < y \<Longrightarrow> p @ x # r < p @ y # q"
  by (induction p) auto

lemma word_less_succ: "x \<noteq> 0xFF \<Longrightarrow> x < x + (1 :: byte)"
  by unat_arith simp

lemma nextLexString_greater: "nextLexString s = Inr t \<Longrightarrow> s < t"
proof -
  assume n: "nextLexString s = Inr t"
  show "s < t"
  proof (cases "length s < StringLength")
    case True
    then show ?thesis using n by (auto simp: nextLexString_def Assert_def less_snoc_0 split: if_splits)
  next
    case False
    then have "nextLex_carry (length s) s = Inr t"
      using n by (auto simp: nextLexString_def Assert_def split: if_splits)
    then obtain j where j: "j < length s" "s ! j \<noteq> 0xFF"
      "t = take j s @ [s ! j + 1] @ replicate (length s - Suc j) 0"
      by (rule nextLex_carry_Some) simp
    have "s = take j s @ s ! j # drop (Suc j) s" using j by (simp add: id_take_nth_drop)
    with j show ?thesis using less_append_mid [OF word_less_succ] by (metis append_Cons append_Nil)
  qed
qed

lemma realLen_loop_le:
  "source ! j = 0 \<Longrightarrow> i \<le> j \<Longrightarrow> j < i + k \<Longrightarrow> realLen_loop source i k \<le> j"
proof (induction k arbitrary: i)
  case (Suc k)
  then show ?case by (cases "i = j") auto
qed simp

lemma AsValue_not_storable:
  assumes "value_wf v" "\<not> storable v" "AsValue (val_t v) (value_bytes v @ rest) = Inr w"
  shows "\<not> value_eq v w"
proof (cases "val_t v")
  case IntType
  then show ?thesis using assms
    by (auto simp: AsValue_def value_bytes_def slice_checked_def slice_append_left Let_def
        zeroValue_def value_eq_def storable_def)
next
  case StringType
  let ?s = "val_str v" and ?src = "value_bytes v @ rest"
  have nn: "\<not> val_null v" and l: "length ?s \<le> 32"
    and bad: "0 \<in> set ?s \<or> ?s \<noteq> [] \<and> hd ?s = 0xFF"
    using assms StringType by (auto simp: storable_def value_wf_def StringLength_def)
  have src: "?src = ?s @ replicate (32 - length ?s) 0 @ rest"
    using StringType nn by (simp add: value_bytes_def StringLength_def)
  have ne: "?s \<noteq> []" using bad by auto
  then have h: "slice 0 1 ?src ! 0 = hd ?s" by (cases ?s) (auto simp: src slice_def)
  show ?thesis
  proof (cases "hd ?s = 0xFF")
    case True
    then show ?thesis using assms StringType nn h
      by (auto simp: AsValue_def slice_checked_def zeroValue_def value_eq_def split: if_splits)
  next
    case False
    then obtain j where j: "j < length ?s" "?s ! j = 0" using bad by (auto simp: in_set_conv_nth)
    then have "realLen_loop ?src 0 32 \<le> j"
      using l realLen_loop_le [of ?src j 0 32] by (auto simp: src nth_append)
    then have "length (take (realLen_loop ?src 0 32) ?src) < length ?s" using j by simp
    then show ?thesis using assms StringType nn h False
      by (auto simp: AsValue_def slice_checked_def StringLength_def Let_def zeroValue_def
          value_eq_def Assert_def split: if_splits)
  qed
qed (use assms in \<open>simp add: value_wf_def\<close>)

text \<open>
  C40: Storage format of values.  Serialising a well-formed value into a large enough
  buffer never fails, touches only the bytes of the value, and reading the buffer back
  yields an equal value exactly for the storable ones: the smallest integer, a string
  with a zero byte and a string starting with \<open>0xFF\<close> are not recovered.
\<close>

theorem value_storage_roundtrip:
  assumes "value_wf v" and "type_size (val_t v) \<le> length data"
  shows "\<exists>d w. Value_WriteTo v data = Inr d \<and> length d = length data \<and>
      drop (type_size (val_t v)) d = drop (type_size (val_t v)) data \<and>
      AsValue (val_t v) d = Inr w \<and> (Value_Compare v w = Inr 0 \<longleftrightarrow> storable v)"
proof -
  let ?d = "put_at 0 (value_bytes v) data" and ?n = "type_size (val_t v)"
  have d: "?d = value_bytes v @ drop ?n data"
    using assms by (simp add: put_at_0 length_value_bytes)
  have len: "?n \<le> length ?d" using assms by (simp add: d length_value_bytes)
  obtain w where w: "AsValue (val_t v) ?d = Inr w"
    using AsValue_total len assms(1) unfolding value_wf_def by blast
  have t: "same_type v w" using AsValue_type [OF w] assms(1) by (simp add: same_type_def value_wf_def)
  have "value_eq v w \<longleftrightarrow> storable v"
    using AsValue_bytes [of v "drop ?n data"] AsValue_not_storable [OF assms(1), of "drop ?n data" w] w
    by (auto simp: d)
  then show ?thesis
    using Value_WriteTo_bytes [OF assms] w assms t
    by (auto simp: Value_Compare_eq_0 length_value_bytes d)
qed

lemma value_storage_roundtrip_witness:
  "value_wf (NewIntValue 5) \<and>
   (\<exists>d w. Value_WriteTo (NewIntValue 5) (replicate 9 7) = Inr d \<and> AsValue IntType d = Inr w \<and>
      Value_Compare (NewIntValue 5) w = Inr 0)"
  using value_storage_roundtrip [of "NewIntValue 5" "replicate 9 7"]
  by (auto simp: value_wf_def NewIntValue_def zeroValue_def type_size_def size_defs storable_def
      MinInt64_def)

text \<open>
  Successor of a string.  Below full length, and at full length when the last byte
  is not \<open>0xFF\<close>, \<^verbatim>\<open>nextLexString\<close> returns the least string of at most 32
  bytes that is greater than its argument, as its comment says.
\<close>

theorem nextLexString_successor:
  assumes "length s < StringLength \<or> length s = StringLength \<and> last s \<noteq> 0xFF"
  shows "\<exists>t. nextLexString s = Inr t \<and> length t \<le> StringLength \<and>
    (\<forall>u. length u \<le> StringLength \<longrightarrow> (u < t \<longleftrightarrow> u \<le> s))"
proof (cases "length s < StringLength")
  case True
  then show ?thesis by (auto simp: nextLexString_def less_snoc_0)
next
  case False
  then have l: "length s = 32" "last s \<noteq> 0xFF" "s \<noteq> []" using assms by (auto simp: StringLength_def)
  let ?t = "butlast s @ [last s + 1]"
  have "nextLex_carry (length s) s = Inr ?t"
    using l(2,3) by (cases s rule: rev_cases) simp_all
  then have "nextLexString s = Inr ?t" using l by (simp add: nextLexString_def StringLength_def)
  moreover have "u < ?t \<longleftrightarrow> u \<le> s" if "length u \<le> 32" for u
  proof -
    have "last s + 1 \<noteq> 0" using word_less_succ [OF l(2)] by auto
    moreover have "length (butlast s) = 31" using l by simp
    ultimately show ?thesis
      using less_snoc_pred [of "last s + 1" u "butlast s" 0] that l by simp
  qed
  ultimately show ?thesis using l by (auto simp: StringLength_def)
qed

lemma nextLexString_successor_witness:
  "length [97 :: byte] < StringLength \<and>
   (\<exists>t. nextLexString [97] = Inr t \<and> (\<forall>u. length u \<le> StringLength \<longrightarrow> (u < t \<longleftrightarrow> u \<le> [97])))"
  using nextLexString_successor [of "[97]"] by (auto simp: StringLength_def)

text \<open>
  Predecessor of a string.  \<^verbatim>\<open>prevLexString\<close> returns, for every non-empty
  string of at most 32 bytes, the greatest string of at most 32 bytes below it.
\<close>

theorem prevLexString_predecessor:
  assumes "s \<noteq> []" and "length s \<le> StringLength"
  shows "\<exists>t. prevLexString s = Inr t \<and> length t \<le> StringLength \<and>
    (\<forall>u. length u \<le> StringLength \<longrightarrow> (u < s \<longleftrightarrow> u \<le> t))"
proof -
  obtain p x where s: "s = p @ [x]" using assms(1) by (cases s rule: rev_cases) auto
  show ?thesis
  proof (cases "x = 0")
    case True
    then show ?thesis using assms s by (auto simp: prevLexString_def less_snoc_0)
  next
    case False
    let ?k = "StringLength - length s"
    have "length u \<le> StringLength \<Longrightarrow> length u \<le> length p + 1 + ?k" for u :: "byte list"
      using assms s by simp
    then show ?thesis
      using assms s False less_snoc_pred [OF False, of _ p ?k]
      by (auto simp: prevLexString_def)
  qed
qed

lemma prevLexString_predecessor_witness:
  "[98 :: byte] \<noteq> [] \<and> length [98 :: byte] \<le> StringLength \<and>
   (\<exists>t. prevLexString [98] = Inr t \<and> (\<forall>u. length u \<le> StringLength \<longrightarrow> (u < [98] \<longleftrightarrow> u \<le> t)))"
  using prevLexString_predecessor [of "[98]"] by (auto simp: StringLength_def)

text \<open>
  The successor is not immediate when a carry is needed: a full-length string that
  ends in \<open>0xFF\<close> is followed by a shorter string that \<^verbatim>\<open>nextLexString\<close>
  skips, although its comment promises the immediate successor.
\<close>

theorem nextLexString_carry_skips:
  "\<exists>s t u. length s = StringLength \<and> nextLexString s = Inr t \<and> length u \<le> StringLength \<and>
     s < u \<and> u < t"
proof -
  let ?s = "97 # replicate 31 (0xFF :: byte)" and ?u = "[98 :: byte]"
    and ?t = "98 # replicate 31 (0 :: byte)"
  have "nextLexString ?s = Inr ?t" by code_simp
  moreover have "?s < ?u" by simp
  moreover have "replicate 31 (0 :: byte) = 0 # replicate 30 0" by (simp add: numeral_eq_Suc)
  then have "?u < ?t" by simp
  ultimately show ?thesis by (intro exI [of _ ?s] exI [of _ ?t] exI [of _ ?u]) (simp add: StringLength_def)
qed

end
