(* ===== verification/Lock_Manager.thy ===== *)
theory Lock_Manager
  imports Common_Types "HOL-Library.AList"
begin

text \<open>
  \<^verbatim>\<open>transaction/lock.go\<close>: multi-granularity locking with FIFO queues, lock
  upgrades, a wait-for graph with edge counts, deadlock detection and victim abortion.
  A call of \<^verbatim>\<open>Lock\<close> that has to wait returns \<open>Blocked\<close>; the message that
  later arrives on its channel is an entry of \<open>delivered\<close>.  The registries and the
  wait graph are maps, a holder table is an association list because the code iterates
  over it (the loops do not depend on the order).
\<close>

section \<open>Tags and modes\<close>

datatype DBLockTag = DBLockTag (tag_rid: RecordID)

definition NewTableLockTag :: "ObjectID \<Rightarrow> DBLockTag" where
  "NewTableLockTag oid = DBLockTag (RecordID (PageID oid (- 1)) (- 1))"

definition NewTupleLockTag :: "RecordID \<Rightarrow> DBLockTag" where
  "NewTupleLockTag rid = DBLockTag rid"

definition IsTableTag :: "DBLockTag \<Rightarrow> bool" where
  "IsTableTag t \<longleftrightarrow> PageNum (ridPage (tag_rid t)) = - 1 \<and> Slot (tag_rid t) = - 1"

datatype DBLockMode = LockModeS | LockModeX | LockModeIS | LockModeIX | LockModeSIX

fun coverage :: "DBLockMode \<Rightarrow> nat" where
  "coverage LockModeX = 0"
| "coverage LockModeSIX = 1"
| "coverage LockModeS = 2"
| "coverage LockModeIX = 2"
| "coverage LockModeIS = 3"

fun compatibility :: "DBLockMode \<Rightarrow> DBLockMode \<Rightarrow> bool" where
  "compatibility LockModeIS LockModeX = False"
| "compatibility LockModeIS _ = True"
| "compatibility LockModeIX LockModeIS = True"
| "compatibility LockModeIX LockModeIX = True"
| "compatibility LockModeIX _ = False"
| "compatibility LockModeS LockModeIS = True"
| "compatibility LockModeS LockModeS = True"
| "compatibility LockModeS _ = False"
| "compatibility LockModeSIX LockModeIS = True"
| "compatibility LockModeSIX _ = False"
| "compatibility LockModeX _ = False"

definition IsLockModeCovered :: "DBLockMode \<Rightarrow> DBLockMode \<Rightarrow> bool" where
  "IsLockModeCovered mode1 mode2 =
     (if mode1 = LockModeS \<and> mode2 = LockModeIX \<or> mode2 = LockModeS \<and> mode1 = LockModeIX then False
      else coverage mode1 \<le> coverage mode2)"

section \<open>State\<close>

record LockRequest =
  lr_tid :: TransactionID
  lr_tag :: DBLockTag
  lr_mode :: DBLockMode

record TransactionControlBlock =
  lockCount :: int
  waitingOn :: "LockRequest option"
  backOff :: "32 word"

record LockControlBlock =
  holders :: "(TransactionID \<times> DBLockMode) list"
  waiters :: "LockRequest list"

type_synonym wait_graph = "TransactionID \<rightharpoonup> (TransactionID \<rightharpoonup> nat)"

record LockManager =
  txnRegistry :: "TransactionID \<rightharpoonup> TransactionControlBlock"
  lockRegistry :: "DBLockTag \<rightharpoonup> LockControlBlock"
  waitGraph :: wait_graph
  waitStateChanged :: bool
  delivered :: "(TransactionID \<times> fault option) list"

definition NewLockManager :: LockManager where
  "NewLockManager = \<lparr>txnRegistry = Map.empty, lockRegistry = Map.empty, waitGraph = Map.empty,
     waitStateChanged = False, delivered = []\<rparr>"

definition newTCB :: TransactionControlBlock where
  "newTCB = \<lparr>lockCount = 0, waitingOn = None, backOff = 0\<rparr>"

definition newLCB :: LockControlBlock where
  "newLCB = \<lparr>holders = [], waiters = []\<rparr>"

definition loadOrStoreTCB :: "LockManager \<Rightarrow> TransactionID \<Rightarrow> TransactionControlBlock \<times> LockManager" where
  "loadOrStoreTCB lm tid = (case txnRegistry lm tid of
     Some tcb \<Rightarrow> (tcb, lm)
   | None \<Rightarrow> (newTCB, lm\<lparr>txnRegistry := (txnRegistry lm)(tid \<mapsto> newTCB)\<rparr>))"

definition loadOrStoreLCB :: "LockManager \<Rightarrow> DBLockTag \<Rightarrow> LockControlBlock \<times> LockManager" where
  "loadOrStoreLCB lm tag = (case lockRegistry lm tag of
     Some lcb \<Rightarrow> (lcb, lm)
   | None \<Rightarrow> (newLCB, lm\<lparr>lockRegistry := (lockRegistry lm)(tag \<mapsto> newLCB)\<rparr>))"

definition delInactiveTCB :: "LockManager \<Rightarrow> TransactionID \<Rightarrow> LockManager" where
  "delInactiveTCB lm tid = (case txnRegistry lm tid of
     None \<Rightarrow> lm
   | Some tcb \<Rightarrow> if lockCount tcb = 0 \<and> waitingOn tcb = None
       then lm\<lparr>txnRegistry := (txnRegistry lm)(tid := None)\<rparr> else lm)"

definition LockHeld :: "LockManager \<Rightarrow> DBLockTag \<Rightarrow> bool" where
  "LockHeld lm tag = (case lockRegistry lm tag of None \<Rightarrow> False | Some lcb \<Rightarrow> holders lcb \<noteq> [])"

definition isLockModeCompatible :: "LockRequest \<Rightarrow> LockControlBlock \<Rightarrow> bool" where
  "isLockModeCompatible lr lcb =
     list_all (\<lambda>(holder, mode). holder = lr_tid lr \<or> compatibility (lr_mode lr) mode) (holders lcb)"

definition held_mode :: "LockControlBlock \<Rightarrow> TransactionID \<Rightarrow> DBLockMode option" where
  "held_mode lcb tid = map_of (holders lcb) tid"

definition covered_by_hold :: "LockControlBlock \<Rightarrow> LockRequest \<Rightarrow> bool" where
  "covered_by_hold lcb lr = (case held_mode lcb (lr_tid lr) of
     None \<Rightarrow> False | Some m \<Rightarrow> IsLockModeCovered m (lr_mode lr))"

text \<open>Counting wait-for edges up and down.\<close>

definition edge_inc :: "TransactionID \<Rightarrow> (TransactionID \<rightharpoonup> nat) \<Rightarrow> (TransactionID \<rightharpoonup> nat)" where
  "edge_inc h es = es(h \<mapsto> (case es h of None \<Rightarrow> 0 | Some c \<Rightarrow> c) + 1)"

definition edge_dec :: "TransactionID \<Rightarrow> (TransactionID \<rightharpoonup> nat) \<Rightarrow> (TransactionID \<rightharpoonup> nat) res" where
  "edge_dec h es = (case es h of
     None \<Rightarrow> Inl (Panic ''Waiter should wait for incompatiable holder into wait graph'')
   | Some c \<Rightarrow> Inr (if c = 1 then es(h := None) else es(h \<mapsto> c - 1)))"

fun holder_edges :: "LockRequest \<Rightarrow> (TransactionID \<times> DBLockMode) list \<Rightarrow> (TransactionID \<rightharpoonup> nat) \<Rightarrow>
    (TransactionID \<rightharpoonup> nat)" where
  "holder_edges lr [] es = es"
| "holder_edges lr ((h, m) # hs) es =
     holder_edges lr hs
       (if h = lr_tid lr then es
        else if \<not> compatibility (lr_mode lr) m then edge_inc h es else es)"

fun waiter_edges :: "LockRequest \<Rightarrow> LockRequest list \<Rightarrow> (TransactionID \<rightharpoonup> nat) \<Rightarrow> (TransactionID \<rightharpoonup> nat)" where
  "waiter_edges lr [] es = es"
| "waiter_edges lr (w # ws) es =
     (if lr_tid w = lr_tid lr then es
      else waiter_edges lr ws
        (if \<not> compatibility (lr_mode lr) (lr_mode w) then edge_inc (lr_tid w) es else es))"

section \<open>Waking waiters\<close>

fun wakeUpCompatibleWaiters :: "LockManager \<Rightarrow> LockControlBlock \<Rightarrow> LockRequest list \<Rightarrow>
    (LockManager \<times> LockControlBlock) res" where
  "wakeUpCompatibleWaiters lm lcb [] = Inr (lm, lcb\<lparr>waiters := []\<rparr>)"
| "wakeUpCompatibleWaiters lm lcb (w # ws) =
     (let isCovered = covered_by_hold lcb w; isCompatible = isLockModeCompatible w lcb;
          isNew = (\<not> isCovered \<and> held_mode lcb (lr_tid w) = None);
          lcb' = (if isCovered then lcb
                  else lcb\<lparr>holders := AList.update (lr_tid w) (lr_mode w) (holders lcb)\<rparr>)
      in if isCovered \<or> isCompatible
         then (case txnRegistry lm (lr_tid w) of
                 None \<Rightarrow> Inl (Panic ''should load waiter TCB'')
               | Some tcb \<Rightarrow>
                   wakeUpCompatibleWaiters
                     (lm\<lparr>waitGraph := (waitGraph lm)(lr_tid w := None),
                         txnRegistry := (txnRegistry lm)(lr_tid w \<mapsto>
                           tcb\<lparr>lockCount := lockCount tcb + (if isNew then 1 else 0),
                               waitingOn := None, backOff := 0\<rparr>),
                         delivered := delivered lm @ [(lr_tid w, None)]\<rparr>)
                     lcb' ws)
         else Inr (lm, lcb\<lparr>waiters := w # ws\<rparr>))"

section \<open>Lock and unlock\<close>

datatype lock_outcome = Granted | Blocked

definition set_lcb :: "DBLockTag \<Rightarrow> LockControlBlock \<Rightarrow> LockManager \<Rightarrow> LockManager" where
  "set_lcb tag lcb lm = lm\<lparr>lockRegistry := (lockRegistry lm)(tag \<mapsto> lcb)\<rparr>"

definition set_tcb :: "TransactionID \<Rightarrow> TransactionControlBlock \<Rightarrow> LockManager \<Rightarrow> LockManager" where
  "set_tcb tid tcb lm = lm\<lparr>txnRegistry := (txnRegistry lm)(tid \<mapsto> tcb)\<rparr>"

text \<open>The critical section of \<^verbatim>\<open>lock\<close>, up to the point where it would wait.\<close>

definition lock_request :: "LockManager \<Rightarrow> TransactionControlBlock \<Rightarrow> LockControlBlock \<Rightarrow> LockRequest \<Rightarrow>
    (lock_outcome \<times> LockManager) res" where
  "lock_request lm tcb lcb lr =
     (if covered_by_hold lcb lr then Inr (Granted, lm)
      else if waiters lcb = [] \<and> isLockModeCompatible lr lcb
      then Inr (Granted,
             set_tcb (lr_tid lr)
               (if held_mode lcb (lr_tid lr) = None then tcb\<lparr>lockCount := lockCount tcb + 1\<rparr> else tcb)
               (set_lcb (lr_tag lr)
                 (lcb\<lparr>holders := AList.update (lr_tid lr) (lr_mode lr) (holders lcb)\<rparr>) lm))
      else let lcb' = lcb\<lparr>waiters := waiters lcb @ [lr]\<rparr>
           in bindR (Assert (waitingOn tcb = None)
                      ''The transaction should not be able to call lock() when it is waiting'') (\<lambda>_.
              let es0 = (case waitGraph lm (lr_tid lr) of None \<Rightarrow> Map.empty | Some es \<Rightarrow> es);
                  es = waiter_edges lr (waiters lcb') (holder_edges lr (holders lcb') es0)
              in Inr (Blocked,
                   (set_tcb (lr_tid lr) (tcb\<lparr>waitingOn := Some lr\<rparr>) (set_lcb (lr_tag lr) lcb' lm))
                   \<lparr>waitGraph := (waitGraph lm)(lr_tid lr \<mapsto> es), waitStateChanged := True\<rparr>)))"

definition Lock :: "LockManager \<Rightarrow> TransactionID \<Rightarrow> DBLockTag \<Rightarrow> DBLockMode \<Rightarrow>
    (lock_outcome \<times> LockManager) res" where
  "Lock lm tid tag mode =
     (let (tcb, lm1) = loadOrStoreTCB lm tid; (lcb, lm2) = loadOrStoreLCB lm1 tag
      in bindR (lock_request lm2 tcb lcb \<lparr>lr_tid = tid, lr_tag = tag, lr_mode = mode\<rparr>) (\<lambda>(res, lm3).
         case res of Granted \<Rightarrow> Inr (Granted, delInactiveTCB lm3 tid) | Blocked \<Rightarrow> Inr (Blocked, lm3)))"

text \<open>
  What the blocked call does when its message arrives: on an error the back-off is
  started or doubled (from the value read when the call began), then the deferred
  clean-up runs.
\<close>

definition Lock_return :: "LockManager \<Rightarrow> TransactionID \<Rightarrow> 32 word \<Rightarrow> fault option \<Rightarrow> LockManager" where
  "Lock_return lm tid backOff0 err =
     (case txnRegistry lm tid of
        None \<Rightarrow> lm
      | Some tcb \<Rightarrow>
          delInactiveTCB
            (if err = None then lm
             else set_tcb tid (tcb\<lparr>backOff := (if backOff0 = 0 then 10 else backOff0 * 2)\<rparr>) lm) tid)"

fun unlock_edges :: "wait_graph \<Rightarrow> TransactionID \<Rightarrow> DBLockMode \<Rightarrow> LockRequest list \<Rightarrow> wait_graph res" where
  "unlock_edges g tid mode [] = Inr g"
| "unlock_edges g tid mode (w # ws) =
     (case g (lr_tid w) of
        None \<Rightarrow> Inl (Panic ''Waiter should added itself into wait graph'')
      | Some es \<Rightarrow>
          bindR (Assert (lr_tid w \<noteq> tid) ''Unlocking txn should not as a waiter in wait graph'') (\<lambda>_.
          if \<not> compatibility (lr_mode w) mode
          then bindR (edge_dec tid es) (\<lambda>es'. unlock_edges (g(lr_tid w \<mapsto> es')) tid mode ws)
          else unlock_edges g tid mode ws))"

definition unlock_request :: "LockManager \<Rightarrow> TransactionControlBlock \<Rightarrow> LockControlBlock \<Rightarrow>
    TransactionID \<Rightarrow> DBLockTag \<Rightarrow> LockManager res" where
  "unlock_request lm tcb lcb tid tag =
     (case held_mode lcb tid of
        None \<Rightarrow> Inl (GoDBError LockNotFoundError)
      | Some mode \<Rightarrow>
          let lcb1 = lcb\<lparr>holders := AList.delete tid (holders lcb)\<rparr>;
              lm1 = set_tcb tid (tcb\<lparr>lockCount := lockCount tcb - 1\<rparr>) lm
          in bindR (unlock_edges (waitGraph lm1) tid mode (waiters lcb1)) (\<lambda>g.
             bindR (wakeUpCompatibleWaiters (lm1\<lparr>waitGraph := g\<rparr>) lcb1 (waiters lcb1)) (\<lambda>(lm2, lcb2).
             Inr (set_lcb tag lcb2 lm2))))"

definition Unlock :: "LockManager \<Rightarrow> TransactionID \<Rightarrow> DBLockTag \<Rightarrow> LockManager res" where
  "Unlock lm tid tag =
     (case txnRegistry lm tid of
        None \<Rightarrow> Inl (GoDBError LockNotFoundError)
      | Some tcb \<Rightarrow>
          (case lockRegistry lm tag of
             None \<Rightarrow> Inl (GoDBError LockNotFoundError)
           | Some lcb \<Rightarrow> bindR (unlock_request lm tcb lcb tid tag) (\<lambda>lm'. Inr (delInactiveTCB lm' tid))))"

section \<open>Aborting a waiter\<close>

text \<open>Only the waiters behind the victim have an edge for its queued request.\<close>

fun resolve_edges :: "wait_graph \<Rightarrow> TransactionID \<Rightarrow> DBLockMode \<Rightarrow> bool \<Rightarrow> LockRequest list \<Rightarrow> wait_graph res" where
  "resolve_edges g victim mode isAfterVictim [] = Inr g"
| "resolve_edges g victim mode isAfterVictim (w # ws) =
     (if lr_tid w = victim then resolve_edges g victim mode True ws
      else if \<not> isAfterVictim then resolve_edges g victim mode False ws
      else case g (lr_tid w) of
             None \<Rightarrow> Inl (Panic ''Waiter should added itself into wait graph'')
           | Some es \<Rightarrow>
               if \<not> compatibility (lr_mode w) mode
               then bindR (edge_dec victim es) (\<lambda>es'.
                    resolve_edges (g(lr_tid w \<mapsto> es')) victim mode True ws)
               else resolve_edges g victim mode True ws)"

definition abort_waiter :: "LockManager \<Rightarrow> TransactionID \<Rightarrow> LockManager res" where
  "abort_waiter lm victim =
     (case txnRegistry lm victim of
        None \<Rightarrow> Inr lm
      | Some tcb \<Rightarrow>
          (case waitingOn tcb of
             None \<Rightarrow> Inr lm
           | Some lr \<Rightarrow>
               (case lockRegistry lm (lr_tag lr) of
                  None \<Rightarrow> Inr lm
                | Some lcb \<Rightarrow>
                    let lm1 = (set_tcb victim (tcb\<lparr>waitingOn := None\<rparr>) lm)
                                \<lparr>waitGraph := (waitGraph lm)(victim := None)\<rparr>
                    in bindR (resolve_edges (waitGraph lm1) victim (lr_mode lr) False (waiters lcb)) (\<lambda>g.
                       let ws = filter (\<lambda>w. lr_tid w \<noteq> victim) (waiters lcb)
                       in bindR (Assert (length ws + 1 = length (waiters lcb))
                                   ''Victim is not deleted from the waiter queue'') (\<lambda>_.
                          bindR (wakeUpCompatibleWaiters
                                   (lm1\<lparr>waitGraph := g,
                                        delivered := delivered lm1 @ [(victim, Some (GoDBError DeadlockError))]\<rparr>)
                                   lcb ws) (\<lambda>(lm2, lcb2).
                          Inr (set_lcb (lr_tag lr) lcb2 lm2)))))))"

text \<open>The victim of a cycle is its largest transaction identifier, the youngest.\<close>

definition resolveCycle :: "LockManager \<Rightarrow> TransactionID list \<Rightarrow> LockManager res" where
  "resolveCycle lm cycle =
     (if cycle = [] then Inl (Panic ''index out of range'') else abort_waiter lm (last (sort cycle)))"

section \<open>Modes\<close>

lemma compatibility_sym: "compatibility a b = compatibility b a"
  by (cases a; cases b) simp_all

lemma all_modes:
  "(\<forall>m. P m) \<longleftrightarrow> P LockModeS \<and> P LockModeX \<and> P LockModeIS \<and> P LockModeIX \<and> P LockModeSIX"
proof
  assume p: "P LockModeS \<and> P LockModeX \<and> P LockModeIS \<and> P LockModeIX \<and> P LockModeSIX"
  show "\<forall>m. P m"
  proof
    fix m
    show "P m" using p by (cases m) auto
  qed
qed simp

lemma covered_iff_compatible:
  "IsLockModeCovered a b \<longleftrightarrow> (\<forall>m. compatibility a m \<longrightarrow> compatibility b m)"
  unfolding all_modes by (cases a; cases b) (simp_all add: IsLockModeCovered_def)

section \<open>The invariant\<close>

definition cnt :: "(TransactionID \<rightharpoonup> nat) \<Rightarrow> TransactionID \<Rightarrow> nat" where
  "cnt es h = (case es h of None \<Rightarrow> 0 | Some c \<Rightarrow> c)"

text \<open>The edges a waiter must have: to conflicting holders and to conflicting earlier waiters.\<close>

definition holder_need :: "LockControlBlock \<Rightarrow> LockRequest \<Rightarrow> TransactionID \<Rightarrow> nat" where
  "holder_need lcb w h = (case held_mode lcb h of
     None \<Rightarrow> 0 | Some m \<Rightarrow> if h \<noteq> lr_tid w \<and> \<not> compatibility (lr_mode w) m then 1 else 0)"

definition queue_need :: "LockRequest list \<Rightarrow> LockRequest \<Rightarrow> TransactionID \<Rightarrow> nat" where
  "queue_need earlier w h =
     length (filter (\<lambda>v. lr_tid v = h \<and> \<not> compatibility (lr_mode w) (lr_mode v)) earlier)"

fun edges_ok :: "wait_graph \<Rightarrow> LockControlBlock \<Rightarrow> LockRequest list \<Rightarrow> LockRequest list \<Rightarrow> bool" where
  "edges_ok g lcb earlier [] = True"
| "edges_ok g lcb earlier (w # ws) =
     ((\<exists>es. g (lr_tid w) = Some es \<and> (\<forall>h. holder_need lcb w h + queue_need earlier w h \<le> cnt es h)) \<and>
      edges_ok g lcb (earlier @ [w]) ws)"

definition lcb_ok :: "DBLockTag \<Rightarrow> LockControlBlock \<Rightarrow> bool" where
  "lcb_ok tag lcb \<longleftrightarrow> distinct (map fst (holders lcb)) \<and>
     (\<forall>h m h' m'. held_mode lcb h = Some m \<longrightarrow> held_mode lcb h' = Some m' \<longrightarrow> h \<noteq> h' \<longrightarrow>
        compatibility m m') \<and>
     distinct (map lr_tid (waiters lcb)) \<and>
     (\<forall>w \<in> set (waiters lcb). lr_tag w = tag \<and> \<not> covered_by_hold lcb w)"

definition head_blocked :: "LockControlBlock \<Rightarrow> bool" where
  "head_blocked lcb \<longleftrightarrow> (waiters lcb \<noteq> [] \<longrightarrow> \<not> isLockModeCompatible (hd (waiters lcb)) lcb)"

definition held :: "LockManager \<Rightarrow> TransactionID \<Rightarrow> DBLockTag set" where
  "held lm tid = {tag. \<exists>lcb. lockRegistry lm tag = Some lcb \<and> held_mode lcb tid \<noteq> None}"

definition waiting_for :: "LockManager \<Rightarrow> TransactionID \<Rightarrow> LockRequest option" where
  "waiting_for lm tid = (case txnRegistry lm tid of None \<Rightarrow> None | Some tcb \<Rightarrow> waitingOn tcb)"

definition txns_ok :: "LockManager \<Rightarrow> bool" where
  "txns_ok lm \<longleftrightarrow>
     (\<forall>tid. finite (held lm tid) \<and>
        (case txnRegistry lm tid of None \<Rightarrow> held lm tid = {} | Some tcb \<Rightarrow> lockCount tcb = int (card (held lm tid)))) \<and>
     (\<forall>tid w. waiting_for lm tid = Some w \<longrightarrow> lr_tid w = tid \<and>
        (\<exists>lcb. lockRegistry lm (lr_tag w) = Some lcb \<and> w \<in> set (waiters lcb))) \<and>
     (\<forall>tag lcb w. lockRegistry lm tag = Some lcb \<longrightarrow> w \<in> set (waiters lcb) \<longrightarrow>
        waiting_for lm (lr_tid w) = Some w) \<and>
     (\<forall>tid. waitGraph lm tid \<noteq> None \<longrightarrow> waiting_for lm tid \<noteq> None)"

definition lm_inv_but :: "DBLockTag set \<Rightarrow> LockManager \<Rightarrow> bool" where
  "lm_inv_but open_tags lm \<longleftrightarrow> txns_ok lm \<and>
     (\<forall>tag lcb. lockRegistry lm tag = Some lcb \<longrightarrow> lcb_ok tag lcb \<and>
        edges_ok (waitGraph lm) lcb [] (waiters lcb) \<and> (tag \<notin> open_tags \<longrightarrow> head_blocked lcb))"

abbreviation lm_inv :: "LockManager \<Rightarrow> bool" where
  "lm_inv \<equiv> lm_inv_but {}"

lemma cnt_edge_inc [simp]: "cnt (edge_inc h es) x = cnt es x + (if x = h then 1 else 0)"
  by (simp add: cnt_def edge_inc_def split: option.splits)

lemma cnt_edge_dec:
  assumes "1 \<le> cnt es h"
  obtains es' where "edge_dec h es = Inr es'" "\<And>x. cnt es' x = cnt es x - (if x = h then 1 else 0)"
  using assms by (cases "es h") (auto simp: edge_dec_def cnt_def)

lemma edges_ok_nth:
  "edges_ok g lcb earlier ws \<longleftrightarrow>
     (\<forall>A w B. ws = A @ w # B \<longrightarrow>
        (\<exists>es. g (lr_tid w) = Some es \<and>
          (\<forall>h. holder_need lcb w h + queue_need (earlier @ A) w h \<le> cnt es h)))"
proof (induction ws arbitrary: earlier)
  case (Cons v ws)
  show ?case
  proof
    assume l: "edges_ok g lcb earlier (v # ws)"
    show "\<forall>A w B. v # ws = A @ w # B \<longrightarrow> (\<exists>es. g (lr_tid w) = Some es \<and>
        (\<forall>h. holder_need lcb w h + queue_need (earlier @ A) w h \<le> cnt es h))"
    proof (intro allI impI)
      fix A w B
      assume s: "v # ws = A @ w # B"
      show "\<exists>es. g (lr_tid w) = Some es \<and> (\<forall>h. holder_need lcb w h + queue_need (earlier @ A) w h \<le> cnt es h)"
        using l s Cons.IH [of "earlier @ [v]"] by (cases A) auto
    qed
  next
    assume r: "\<forall>A w B. v # ws = A @ w # B \<longrightarrow> (\<exists>es. g (lr_tid w) = Some es \<and>
        (\<forall>h. holder_need lcb w h + queue_need (earlier @ A) w h \<le> cnt es h))"
    have "\<exists>es. g (lr_tid v) = Some es \<and> (\<forall>h. holder_need lcb v h + queue_need earlier v h \<le> cnt es h)"
      using r [rule_format, of "[]" v ws] by simp
    moreover have "edges_ok g lcb (earlier @ [v]) ws"
      unfolding Cons.IH using r by (metis append.assoc append_Cons append_Nil)
    ultimately show "edges_ok g lcb earlier (v # ws)" by simp
  qed
qed simp

section \<open>Holder tables\<close>

lemma held_mode_waiters [simp]: "held_mode (lcb\<lparr>waiters := ws\<rparr>) h = held_mode lcb h"
  by (simp add: held_mode_def)

lemma held_mode_update [simp]:
  "held_mode (lcb\<lparr>holders := AList.update t m (holders lcb)\<rparr>) h = (if h = t then Some m else held_mode lcb h)"
  by (simp add: held_mode_def update_conv)

lemma held_mode_delete [simp]:
  "held_mode (lcb\<lparr>holders := AList.delete t (holders lcb)\<rparr>) h = (if h = t then None else held_mode lcb h)"
  by (simp add: held_mode_def delete_conv)

lemma compatible_iff:
  assumes "distinct (map fst (holders lcb))"
  shows "isLockModeCompatible lr lcb \<longleftrightarrow>
    (\<forall>h m. held_mode lcb h = Some m \<longrightarrow> h = lr_tid lr \<or> compatibility (lr_mode lr) m)"
  using assms by (auto simp: isLockModeCompatible_def held_mode_def list_all_iff)

lemma covered_by_hold_waiters [simp]: "covered_by_hold (lcb\<lparr>waiters := ws\<rparr>) lr = covered_by_hold lcb lr"
  by (simp add: covered_by_hold_def)

lemma isLockModeCompatible_waiters [simp]:
  "isLockModeCompatible lr (lcb\<lparr>waiters := ws\<rparr>) = isLockModeCompatible lr lcb"
  by (simp add: isLockModeCompatible_def)

lemma holder_need_waiters [simp]: "holder_need (lcb\<lparr>waiters := ws\<rparr>) w h = holder_need lcb w h"
  by (simp add: holder_need_def)

lemma held_at:
  assumes "lockRegistry V' = (lockRegistry V)(tag \<mapsto> lcb')"
  shows "held V' x = held V x - {tag} \<union> (if held_mode lcb' x = None then {} else {tag})"
  using assms by (auto simp: held_def split: if_splits)

lemma held_member: "lockRegistry V tag = Some lcb \<Longrightarrow> tag \<in> held V x \<longleftrightarrow> held_mode lcb x \<noteq> None"
  by (simp add: held_def)

lemma edges_ok_cong:
  assumes "edges_ok g lcb earlier ws" "\<And>w. w \<in> set ws \<Longrightarrow> g' (lr_tid w) = g (lr_tid w)"
  shows "edges_ok g' lcb earlier ws"
  using assms by (induction ws arbitrary: earlier) auto

lemma txns_okD:
  assumes "txns_ok V"
  shows "finite (held V x)" "txnRegistry V x = None \<Longrightarrow> held V x = {}"
    "txnRegistry V x = Some tcb \<Longrightarrow> lockCount tcb = int (card (held V x))"
    "waiting_for V x = Some w \<Longrightarrow> lr_tid w = x"
    "waiting_for V x = Some w \<Longrightarrow> \<exists>l. lockRegistry V (lr_tag w) = Some l \<and> w \<in> set (waiters l)"
    "lockRegistry V g = Some l \<Longrightarrow> w \<in> set (waiters l) \<Longrightarrow> waiting_for V (lr_tid w) = Some w"
    "waitGraph V x \<noteq> None \<Longrightarrow> waiting_for V x \<noteq> None"
proof -
  note a = assms [unfolded txns_ok_def]
  show "finite (held V x)" using a by blast
  show "txnRegistry V x = None \<Longrightarrow> held V x = {}"
    using conjunct1 [OF a, rule_format, of x] by simp
  show "txnRegistry V x = Some tcb \<Longrightarrow> lockCount tcb = int (card (held V x))"
    using conjunct1 [OF a, rule_format, of x] by simp
  show "waiting_for V x = Some w \<Longrightarrow> lr_tid w = x" using a by blast
  show "waiting_for V x = Some w \<Longrightarrow> \<exists>l. lockRegistry V (lr_tag w) = Some l \<and> w \<in> set (waiters l)"
    using a by blast
  show "lockRegistry V g = Some l \<Longrightarrow> w \<in> set (waiters l) \<Longrightarrow> waiting_for V (lr_tid w) = Some w"
    using a by blast
  show "waitGraph V x \<noteq> None \<Longrightarrow> waiting_for V x \<noteq> None" using a by blast
qed

lemma txns_okI:
  assumes "\<And>x. finite (held V x)" "\<And>x. txnRegistry V x = None \<Longrightarrow> held V x = {}"
    "\<And>x tcb. txnRegistry V x = Some tcb \<Longrightarrow> lockCount tcb = int (card (held V x))"
    "\<And>x w. waiting_for V x = Some w \<Longrightarrow> lr_tid w = x"
    "\<And>x w. waiting_for V x = Some w \<Longrightarrow> \<exists>l. lockRegistry V (lr_tag w) = Some l \<and> w \<in> set (waiters l)"
    "\<And>g l w. lockRegistry V g = Some l \<Longrightarrow> w \<in> set (waiters l) \<Longrightarrow> waiting_for V (lr_tid w) = Some w"
    "\<And>x. waitGraph V x \<noteq> None \<Longrightarrow> waiting_for V x \<noteq> None"
  shows "txns_ok V"
  unfolding txns_ok_def using assms by (auto split: option.splits)

text \<open>A transaction waits in at most one queue.\<close>

lemma other_queue_tid:
  assumes "txns_ok V" "lockRegistry V tag = Some lcb" "w \<in> set (waiters lcb)"
    "lockRegistry V tag' = Some lcb'" "v \<in> set (waiters lcb')" "lr_tag w \<noteq> lr_tag v"
  shows "lr_tid v \<noteq> lr_tid w"
proof
  assume "lr_tid v = lr_tid w"
  moreover have "waiting_for V (lr_tid w) = Some w" "waiting_for V (lr_tid v) = Some v"
    using assms unfolding txns_ok_def by blast+
  ultimately show False using assms(6) by simp
qed

section \<open>Granting a lock\<close>

lemma queue_need_Cons:
  "queue_need (u # A) w h = (if lr_tid u = h \<and> \<not> compatibility (lr_mode w) (lr_mode u) then 1 else 0) + queue_need A w h"
  by (simp add: queue_need_def)

lemma edges_ok_grant:
  assumes "edges_ok g lcb [w] ws" "lr_tid w \<notin> lr_tid ` set ws"
    and lcb': "\<And>h. held_mode lcb' h = (if h = lr_tid w then Some (lr_mode w) else held_mode lcb h)"
  shows "edges_ok (g(lr_tid w := None)) lcb' [] ws"
  unfolding edges_ok_nth
proof (intro allI impI)
  fix A v B
  assume s: "ws = A @ v # B"
  then obtain es where es: "g (lr_tid v) = Some es"
      "\<And>h. holder_need lcb v h + queue_need ([w] @ A) v h \<le> cnt es h"
    using assms(1) unfolding edges_ok_nth by blast
  have "lr_tid v \<noteq> lr_tid w" using assms(2) s by auto
  moreover have "holder_need lcb' v h + queue_need ([] @ A) v h \<le> cnt es h" for h
    using es(2) [of h] \<open>lr_tid v \<noteq> lr_tid w\<close>
    by (auto simp: holder_need_def lcb' queue_need_Cons split: if_splits)
  ultimately show "\<exists>es. (g(lr_tid w := None)) (lr_tid v) = Some es \<and>
      (\<forall>h. holder_need lcb' v h + queue_need ([] @ A) v h \<le> cnt es h)"
    using es(1) by auto
qed

lemma lcb_ok_grant:
  assumes ok: "lcb_ok tag lcb" and c: "isLockModeCompatible w lcb" and ws: "set ws \<subseteq> set (waiters lcb)"
    "distinct (map lr_tid ws)" "lr_tid w \<notin> lr_tid ` set ws"
  shows "lcb_ok tag (lcb\<lparr>holders := AList.update (lr_tid w) (lr_mode w) (holders lcb), waiters := ws\<rparr>)"
    (is "lcb_ok tag ?l")
proof -
  have d: "distinct (map fst (holders lcb))" using ok by (simp add: lcb_ok_def)
  have hm: "held_mode ?l h = (if h = lr_tid w then Some (lr_mode w) else held_mode lcb h)" for h
    by (simp add: held_mode_def update_conv)
  have "compatibility m m'" if "held_mode ?l h = Some m" "held_mode ?l h' = Some m'" "h \<noteq> h'" for h m h' m'
    using that ok c compatible_iff [OF d, of w] compatibility_sym
    by (auto simp: hm lcb_ok_def split: if_splits)
  moreover have "lr_tag v = tag \<and> \<not> covered_by_hold ?l v" if "v \<in> set ws" for v
  proof -
    have "lr_tid v \<noteq> lr_tid w" using ws(3) that by (metis image_eqI)
    then show ?thesis using that ws ok by (auto simp: lcb_ok_def covered_by_hold_def hm)
  qed
  ultimately show ?thesis using d ws by (simp add: lcb_ok_def distinct_update)
qed

text \<open>
  One transaction \<open>t\<close> changes its hold on one resource and leaves its queue, if it was
  in it: granting, unlocking and aborting are all of this form.
\<close>

lemma txns_ok_update:
  assumes ok: "txns_ok V" and R: "lockRegistry V tag = Some lcb" and T: "txnRegistry V t = Some tcb"
    and R': "lockRegistry V' = (lockRegistry V)(tag \<mapsto> lcb')"
    and T': "txnRegistry V' = (txnRegistry V)(t \<mapsto> tcb')"
    and hm: "\<And>h. h \<noteq> t \<Longrightarrow> held_mode lcb' h = held_mode lcb h"
    and c: "lockCount tcb' + (if held_mode lcb t = None then 0 else 1) =
              lockCount tcb + (if held_mode lcb' t = None then 0 else 1)"
    and w': "waitingOn tcb' = None" "set (waiters lcb') = {v \<in> set (waiters lcb). lr_tid v \<noteq> t}"
    and q: "\<And>w. waiting_for V t = Some w \<Longrightarrow> lr_tag w = tag"
    and tags: "\<And>g l v. lockRegistry V g = Some l \<Longrightarrow> v \<in> set (waiters l) \<Longrightarrow> lr_tag v = g"
    and G: "\<And>x. waitGraph V' x \<noteq> None \<Longrightarrow> x \<noteq> t \<and> waitGraph V x \<noteq> None"
  shows "txns_ok V'"
proof -
  note D = txns_okD [OF ok]
  have wf: "waiting_for V' x = (if x = t then None else waiting_for V x)" for x
    using w'(1) by (simp add: waiting_for_def T')
  have other: "held V' x = held V x" if "x \<noteq> t" for x
    using held_at [OF R', of x] held_member [OF R, of x] hm [OF that] by auto
  have fin: "finite (held V' x)" for x using held_at [OF R', of x] D(1) [of x] by auto
  have card_t: "int (card (held V' t)) = lockCount tcb'"
  proof -
    obtain K where K: "K = held V t - {tag}" "finite K" "tag \<notin> K" using D(1) by auto
    have "held V t = (if held_mode lcb t = None then K else insert tag K)"
      using held_member [OF R, of t] K(1) by auto
    then have "card (held V t) = card K + (if held_mode lcb t = None then 0 else 1)" using K(2,3) by simp
    moreover have "held V' t = (if held_mode lcb' t = None then K else insert tag K)"
      using held_at [OF R', of t] K(1) by auto
    then have "card (held V' t) = card K + (if held_mode lcb' t = None then 0 else 1)" using K(2,3) by simp
    ultimately show ?thesis using D(3) [OF T] c by (simp split: if_splits)
  qed
  show ?thesis
  proof (rule txns_okI)
    show "finite (held V' x)" for x by (rule fin)
    show "held V' x = {}" if "txnRegistry V' x = None" for x
      using that other [of x] D(2) [of x] by (simp add: T' split: if_splits)
    show "lockCount u = int (card (held V' x))" if "txnRegistry V' x = Some u" for x u
      using that other [of x] D(3) [of x u] card_t by (simp add: T' split: if_splits)
    show "lr_tid w = x" if "waiting_for V' x = Some w" for x w
      using that D(4) [of x w] by (simp add: wf split: if_splits)
    show "\<exists>l. lockRegistry V' (lr_tag w) = Some l \<and> w \<in> set (waiters l)" if "waiting_for V' x = Some w" for x w
      using that D(4,5) [of x w] w'(2) R by (auto simp: wf R' split: if_splits)
    show "waiting_for V' (lr_tid w) = Some w" if "lockRegistry V' g = Some l" "w \<in> set (waiters l)" for g l w
    proof (cases "g = tag")
      case True
      then show ?thesis using that w'(2) D(6) [OF R, of w] by (auto simp: R' wf)
    next
      case False
      then have l: "lockRegistry V g = Some l" using that by (simp add: R')
      then have "waiting_for V (lr_tid w) = Some w" "lr_tag w = g" using that D(6) tags by auto
      then show ?thesis using q False by (auto simp: wf)
    qed
    show "waiting_for V' x \<noteq> None" if "waitGraph V' x \<noteq> None" for x
      using G [OF that] D(7) by (simp add: wf)
  qed
qed

lemma inv_parts:
  assumes "lm_inv_but X V" "lockRegistry V g = Some l"
  shows "lcb_ok g l" "edges_ok (waitGraph V) l [] (waiters l)" "g \<notin> X \<Longrightarrow> head_blocked l"
    "v \<in> set (waiters l) \<Longrightarrow> lr_tag v = g"
  using assms unfolding lm_inv_but_def lcb_ok_def by blast+

lemma inv_txns: "lm_inv_but X V \<Longrightarrow> txns_ok V"
  by (simp add: lm_inv_but_def)

lemma lm_inv_butI:
  assumes "txns_ok V"
    "\<And>g l. lockRegistry V g = Some l \<Longrightarrow>
       lcb_ok g l \<and> edges_ok (waitGraph V) l [] (waiters l) \<and> (g \<notin> X \<longrightarrow> head_blocked l)"
  shows "lm_inv_but X V"
  using assms by (simp add: lm_inv_but_def)

text \<open>Changing one queue keeps the others' edges, as long as their waiters' edges stay.\<close>

lemma inv_update:
  assumes inv: "lm_inv_but X V" and R': "lockRegistry V' = (lockRegistry V)(tag \<mapsto> lcb')"
    and "txns_ok V'" "lcb_ok tag lcb'" "edges_ok (waitGraph V') lcb' [] (waiters lcb')"
    and "tag \<notin> Y \<Longrightarrow> head_blocked lcb'" "X \<subseteq> insert tag Y"
    and G: "\<And>g l v. lockRegistry V g = Some l \<Longrightarrow> v \<in> set (waiters l) \<Longrightarrow> g \<noteq> tag \<Longrightarrow>
      waitGraph V' (lr_tid v) = waitGraph V (lr_tid v)"
  shows "lm_inv_but Y V'"
proof (rule lm_inv_butI)
  fix g l
  assume l: "lockRegistry V' g = Some l"
  show "lcb_ok g l \<and> edges_ok (waitGraph V') l [] (waiters l) \<and> (g \<notin> Y \<longrightarrow> head_blocked l)"
  proof (cases "g = tag")
    case True
    then show ?thesis using l assms(4-6) by (simp add: R')
  next
    case False
    then have lV: "lockRegistry V g = Some l" using l by (simp add: R')
    have "edges_ok (waitGraph V') l [] (waiters l)"
      by (rule edges_ok_cong [OF inv_parts(2) [OF inv lV]]) (use G lV False in blast)
    then show ?thesis using inv_parts [OF inv lV] False assms(7) by blast
  qed
qed (rule assms(3))

lemma grant_step:
  assumes inv: "lm_inv_but {tag} V" and R: "lockRegistry V tag = Some lcb" "waiters lcb = w # ws"
    and c: "isLockModeCompatible w lcb" and T: "txnRegistry V (lr_tid w) = Some tcb"
    and R': "lockRegistry V' = (lockRegistry V)(tag \<mapsto>
        lcb\<lparr>holders := AList.update (lr_tid w) (lr_mode w) (holders lcb), waiters := ws\<rparr>)"
    and T': "txnRegistry V' = (txnRegistry V)(lr_tid w \<mapsto>
        tcb\<lparr>lockCount := lockCount tcb + (if held_mode lcb (lr_tid w) = None then 1 else 0),
            waitingOn := None, backOff := 0\<rparr>)"
    and G': "waitGraph V' = (waitGraph V)(lr_tid w := None)"
  shows "lm_inv_but {tag} V'"
proof (rule inv_update [OF inv R'])
  let ?l = "lcb\<lparr>holders := AList.update (lr_tid w) (lr_mode w) (holders lcb), waiters := ws\<rparr>"
  have ok: "lcb_ok tag lcb" "edges_ok (waitGraph V) lcb [] (w # ws)" using inv_parts [OF inv R(1)] R(2) by auto
  have d: "distinct (map lr_tid (w # ws))" using ok(1) R(2) by (simp add: lcb_ok_def)
  then have w: "lr_tid w \<notin> lr_tid ` set ws" by simp
  have hm: "held_mode ?l h = (if h = lr_tid w then Some (lr_mode w) else held_mode lcb h)" for h
    by (simp add: held_mode_def update_conv)
  show "lcb_ok tag ?l" by (rule lcb_ok_grant [OF ok(1) c]) (use R(2) d w in auto)
  show "edges_ok (waitGraph V') ?l [] (waiters ?l)"
    using edges_ok_grant [OF _ w, of "waitGraph V" lcb ?l] ok(2) hm by (simp add: G')
  have wv: "waiting_for V (lr_tid w) = Some w" using txns_okD(6) [OF inv_txns [OF inv] R(1)] R(2) by simp
  have tw: "lr_tag w = tag" using inv_parts(4) [OF inv R(1)] R(2) by simp
  show "txns_ok V'"
  proof (rule txns_ok_update [OF inv_txns [OF inv] R(1) T R' T'])
    show "set (waiters ?l) = {v \<in> set (waiters lcb). lr_tid v \<noteq> lr_tid w}"
      using R(2) w by (force simp: image_iff)
    show "lr_tag u = tag" if "waiting_for V (lr_tid w) = Some u" for u using that wv tw by simp
    show "lr_tag v = g" if "lockRegistry V g = Some l" "v \<in> set (waiters l)" for g l v
      using inv_parts(4) [OF inv that(1)] that(2) by simp
  qed (auto simp: hm G' split: if_splits)
  show "waitGraph V' (lr_tid v) = waitGraph V (lr_tid v)"
    if "lockRegistry V g = Some l" "v \<in> set (waiters l)" "g \<noteq> tag" for g l v
    using other_queue_tid [OF inv_txns [OF inv] R(1) _ that(1,2), of w] R(2) tw that(3)
      inv_parts(4) [OF inv that(1,2)] by (simp add: G')
qed simp_all

lemma inv_close:
  assumes "lm_inv_but {tag} V" "lockRegistry V tag = Some l" "head_blocked l"
  shows "lm_inv V"
proof (rule lm_inv_butI [OF inv_txns [OF assms(1)]])
  fix g k
  assume "lockRegistry V g = Some k"
  then show "lcb_ok g k \<and> edges_ok (waitGraph V) k [] (waiters k) \<and> (g \<notin> {} \<longrightarrow> head_blocked k)"
    using inv_parts [OF assms(1)] assms(2,3) by (cases "g = tag") auto
qed

lemma wake_keeps_inv:
  assumes "lm_inv_but {tag} (set_lcb tag (lcb\<lparr>waiters := ws\<rparr>) lm)"
  shows "\<exists>lm' lcb'. wakeUpCompatibleWaiters lm lcb ws = Inr (lm', lcb') \<and> lm_inv (set_lcb tag lcb' lm')"
  using assms
proof (induction ws arbitrary: lm lcb)
  case Nil
  let ?V = "set_lcb tag (lcb\<lparr>waiters := []\<rparr>) lm"
  have "lm_inv ?V" by (rule inv_close [OF Nil, where l = "lcb\<lparr>waiters := []\<rparr>"]) (simp_all add: set_lcb_def head_blocked_def)
  then show ?case by simp
next
  case (Cons w ws)
  let ?l = "lcb\<lparr>waiters := w # ws\<rparr>"
  let ?V = "set_lcb tag ?l lm"
  have R: "lockRegistry ?V tag = Some ?l" by (simp add: set_lcb_def)
  have nc: "\<not> covered_by_hold lcb w" using inv_parts(1) [OF Cons.prems R] by (simp add: lcb_ok_def)
  show ?case
  proof (cases "isLockModeCompatible w lcb")
    case True
    have "waiting_for ?V (lr_tid w) = Some w" using txns_okD(6) [OF inv_txns [OF Cons.prems] R] by simp
    then obtain tcb where T: "txnRegistry lm (lr_tid w) = Some tcb"
      by (auto simp: waiting_for_def set_lcb_def split: option.splits)
    let ?lm' = "lm\<lparr>waitGraph := (waitGraph lm)(lr_tid w := None),
        txnRegistry := (txnRegistry lm)(lr_tid w \<mapsto> tcb\<lparr>lockCount := lockCount tcb +
          (if held_mode lcb (lr_tid w) = None then 1 else 0), waitingOn := None, backOff := 0\<rparr>),
        delivered := delivered lm @ [(lr_tid w, None)]\<rparr>"
    let ?lcb' = "lcb\<lparr>holders := AList.update (lr_tid w) (lr_mode w) (holders lcb)\<rparr>"
    have "lm_inv_but {tag} (set_lcb tag (?lcb'\<lparr>waiters := ws\<rparr>) ?lm')"
      by (rule grant_step [OF Cons.prems R, where w = w and tcb = tcb])
        (use True T in \<open>simp_all add: set_lcb_def\<close>)
    then show ?thesis using Cons.IH [of ?lcb' ?lm'] True nc T by (simp add: Let_def)
  next
    case False
    have "lm_inv ?V" by (rule inv_close [OF Cons.prems R]) (use False in \<open>simp add: head_blocked_def\<close>)
    then show ?thesis using False nc by (simp add: Let_def)
  qed
qed

section \<open>Removing edges\<close>

lemma unlock_edges_spec:
  assumes "distinct (map lr_tid ws)" "\<And>w. w \<in> set ws \<Longrightarrow> lr_tid w \<noteq> t"
    "\<And>w. w \<in> set ws \<Longrightarrow> \<exists>es. g (lr_tid w) = Some es \<and> (\<not> compatibility (lr_mode w) mode \<longrightarrow> 1 \<le> cnt es t)"
  shows "\<exists>g'. unlock_edges g t mode ws = Inr g' \<and> (\<forall>x. x \<notin> lr_tid ` set ws \<longrightarrow> g' x = g x) \<and>
    (\<forall>w \<in> set ws. \<forall>es. g (lr_tid w) = Some es \<longrightarrow> (\<exists>es'. g' (lr_tid w) = Some es' \<and>
       (\<forall>h. cnt es' h = cnt es h - (if h = t \<and> \<not> compatibility (lr_mode w) mode then 1 else 0))))"
  using assms
proof (induction ws arbitrary: g)
  case (Cons w ws)
  obtain es where es: "g (lr_tid w) = Some es" "\<not> compatibility (lr_mode w) mode \<longrightarrow> 1 \<le> cnt es t"
    using Cons.prems(3) [of w] by auto
  obtain es' where es': "\<And>h. cnt es' h = cnt es h - (if h = t \<and> \<not> compatibility (lr_mode w) mode then 1 else 0)"
      "unlock_edges g t mode (w # ws) = unlock_edges (g(lr_tid w \<mapsto> es')) t mode ws"
  proof (cases "compatibility (lr_mode w) mode")
    case True
    then show ?thesis using that [of es] es Cons.prems(2) [of w] by (simp add: map_upd_triv)
  next
    case False
    then obtain e where "edge_dec t es = Inr e" "\<And>x. cnt e x = cnt es x - (if x = t then 1 else 0)"
      using cnt_edge_dec es(2) by blast
    then show ?thesis using that [of e] False es(1) Cons.prems(2) [of w] by simp
  qed
  have wn: "lr_tid w \<notin> lr_tid ` set ws" using Cons.prems(1) by simp
  have nd: "distinct (map lr_tid ws)" and tn: "\<And>v. v \<in> set ws \<Longrightarrow> lr_tid v \<noteq> t"
    using Cons.prems(1,2) by auto
  have need: "\<exists>e. (g(lr_tid w \<mapsto> es')) (lr_tid v) = Some e \<and>
      (\<not> compatibility (lr_mode v) mode \<longrightarrow> 1 \<le> cnt e t)" if "v \<in> set ws" for v
    using Cons.prems(3) [of v] that wn by (metis fun_upd_other image_eqI list.set_intros(2))
  obtain g' where g': "unlock_edges (g(lr_tid w \<mapsto> es')) t mode ws = Inr g'"
      "\<forall>x. x \<notin> lr_tid ` set ws \<longrightarrow> g' x = (g(lr_tid w \<mapsto> es')) x"
      "\<forall>v \<in> set ws. \<forall>e. (g(lr_tid w \<mapsto> es')) (lr_tid v) = Some e \<longrightarrow> (\<exists>e'. g' (lr_tid v) = Some e' \<and>
         (\<forall>h. cnt e' h = cnt e h - (if h = t \<and> \<not> compatibility (lr_mode v) mode then 1 else 0)))"
    using Cons.IH [OF nd tn need] by blast
  have "\<exists>e'. g' (lr_tid v) = Some e' \<and>
      (\<forall>h. cnt e' h = cnt e h - (if h = t \<and> \<not> compatibility (lr_mode v) mode then 1 else 0))"
    if "v \<in> set (w # ws)" "g (lr_tid v) = Some e" for v e
  proof (cases "lr_tid v = lr_tid w")
    case True
    then have "v = w" using that(1) wn by (auto simp: image_iff)
    then show ?thesis using g'(2) wn es' es(1) that(2) by auto
  next
    case False
    then have "v \<in> set ws" using that(1) by auto
    moreover have "(g(lr_tid w \<mapsto> es')) (lr_tid v) = Some e" using False that(2) by simp
    ultimately show ?thesis using g'(3) by blast
  qed
  moreover have "\<forall>x. x \<notin> lr_tid ` set (w # ws) \<longrightarrow> g' x = g x" using g'(2) by auto
  ultimately show ?case using g'(1) es'(2) by auto
qed simp

lemma resolve_after_victim:
  "victim \<notin> lr_tid ` set ws \<Longrightarrow> resolve_edges g victim mode True ws = unlock_edges g victim mode ws"
  by (induction ws arbitrary: g) (auto split: option.splits simp: bindR_def split: sum.splits)

lemma resolve_edges_split:
  assumes "victim \<notin> lr_tid ` set A" "victim \<notin> lr_tid ` set B" "lr_tid lr = victim"
  shows "resolve_edges g victim mode False (A @ lr # B) = unlock_edges g victim mode B"
  using assms(1) by (induction A) (use assms(2,3) resolve_after_victim in auto)

lemma edges_ok_unlock:
  assumes old: "edges_ok g lcb [] ws" and d: "distinct (map lr_tid ws)"
    and t: "\<And>w. w \<in> set ws \<Longrightarrow> lr_tid w \<noteq> t" and m: "held_mode lcb t = Some mode"
    and lcb': "\<And>h. held_mode lcb' h = (if h = t then None else held_mode lcb h)"
  shows "\<exists>g'. unlock_edges g t mode ws = Inr g' \<and> (\<forall>x. x \<notin> lr_tid ` set ws \<longrightarrow> g' x = g x) \<and>
    edges_ok g' lcb' [] ws"
proof -
  have need: "\<exists>es. g (lr_tid w) = Some es \<and> (\<not> compatibility (lr_mode w) mode \<longrightarrow> 1 \<le> cnt es t)"
    if "w \<in> set ws" for w
  proof -
    obtain A B where "ws = A @ w # B" using split_list [OF \<open>w \<in> set ws\<close>] by blast
    then obtain es where es: "g (lr_tid w) = Some es"
        "\<And>h. holder_need lcb w h + queue_need ([] @ A) w h \<le> cnt es h"
      using old unfolding edges_ok_nth by blast
    then show ?thesis using es(2) [of t] t [OF that] m by (auto simp: holder_need_def)
  qed
  obtain g' where g': "unlock_edges g t mode ws = Inr g'" "\<forall>x. x \<notin> lr_tid ` set ws \<longrightarrow> g' x = g x"
    "\<forall>w \<in> set ws. \<forall>es. g (lr_tid w) = Some es \<longrightarrow> (\<exists>es'. g' (lr_tid w) = Some es' \<and>
       (\<forall>h. cnt es' h = cnt es h - (if h = t \<and> \<not> compatibility (lr_mode w) mode then 1 else 0)))"
    using unlock_edges_spec [OF d t need] by blast
  have "edges_ok g' lcb' [] ws"
    unfolding edges_ok_nth
  proof (intro allI impI)
    fix A w B
    assume s: "ws = A @ w # B"
    then obtain es where es: "g (lr_tid w) = Some es"
        "\<And>h. holder_need lcb w h + queue_need ([] @ A) w h \<le> cnt es h"
      using old unfolding edges_ok_nth by blast
    then obtain es' where es': "g' (lr_tid w) = Some es'"
        "\<And>h. cnt es' h = cnt es h - (if h = t \<and> \<not> compatibility (lr_mode w) mode then 1 else 0)"
      using g'(3) s by fastforce
    have "holder_need lcb' w h + queue_need ([] @ A) w h \<le> cnt es' h" for h
      using es(2) [of h] es'(2) [of h] t [of w] s m by (auto simp: holder_need_def lcb' split: if_splits)
    then show "\<exists>es. g' (lr_tid w) = Some es \<and> (\<forall>h. holder_need lcb' w h + queue_need ([] @ A) w h \<le> cnt es h)"
      using es'(1) by blast
  qed
  then show ?thesis using g' by blast
qed

lemma edges_ok_append: "edges_ok g lcb e (A @ B) \<longleftrightarrow> edges_ok g lcb e A \<and> edges_ok g lcb (e @ A) B"
  by (induction A arbitrary: e) auto

lemma queue_need_append [simp]: "queue_need (A @ B) w h = queue_need A w h + queue_need B w h"
  by (simp add: queue_need_def)

text \<open>Dropping a queued request: the edges that later waiters have for it go away.\<close>

lemma edges_ok_abort:
  assumes old: "edges_ok g lcb [] (A @ lr # B)" and d: "distinct (map lr_tid (A @ lr # B))"
  shows "\<exists>g'. unlock_edges (g(lr_tid lr := None)) (lr_tid lr) (lr_mode lr) B = Inr g' \<and>
    (\<forall>x. x \<notin> lr_tid ` set B \<longrightarrow> g' x = (g(lr_tid lr := None)) x) \<and> edges_ok g' lcb [] (A @ B)"
proof -
  let ?t = "lr_tid lr" and ?g = "g(lr_tid lr := None)"
  have tn: "?t \<notin> lr_tid ` set A" "?t \<notin> lr_tid ` set B" using d by auto
  have t: "lr_tid w \<noteq> ?t" if "w \<in> set B" for w using tn(2) that by (metis image_eqI)
  have oldB: "edges_ok g lcb (A @ [lr]) B" and oldA: "edges_ok g lcb [] A"
    using old by (auto simp: edges_ok_append)
  have es: "\<exists>es. g (lr_tid w) = Some es \<and> (\<forall>h. holder_need lcb w h + queue_need ((A @ [lr]) @ C) w h \<le> cnt es h)"
    if "B = C @ w # D" for C w D
    using oldB that unfolding edges_ok_nth by blast
  have need: "\<exists>es. ?g (lr_tid w) = Some es \<and> (\<not> compatibility (lr_mode w) (lr_mode lr) \<longrightarrow> 1 \<le> cnt es ?t)"
    if "w \<in> set B" for w
  proof -
    obtain C D where "B = C @ w # D" using split_list [OF \<open>w \<in> set B\<close>] by blast
    then obtain e where "g (lr_tid w) = Some e" "\<And>h. holder_need lcb w h + queue_need ((A @ [lr]) @ C) w h \<le> cnt e h"
      using es by blast
    moreover have "\<not> compatibility (lr_mode w) (lr_mode lr) \<Longrightarrow> 1 \<le> queue_need ((A @ [lr]) @ C) w ?t"
      by (simp add: queue_need_def)
    ultimately show ?thesis using t [OF that] by (metis add_leD2 fun_upd_other order_trans)
  qed
  have dB: "distinct (map lr_tid B)" using d by simp
  obtain g' where g': "unlock_edges ?g ?t (lr_mode lr) B = Inr g'" "\<forall>x. x \<notin> lr_tid ` set B \<longrightarrow> g' x = ?g x"
    "\<forall>w \<in> set B. \<forall>e. ?g (lr_tid w) = Some e \<longrightarrow> (\<exists>e'. g' (lr_tid w) = Some e' \<and>
       (\<forall>h. cnt e' h = cnt e h - (if h = ?t \<and> \<not> compatibility (lr_mode w) (lr_mode lr) then 1 else 0)))"
    using unlock_edges_spec [OF dB t need] by blast
  have A: "edges_ok g' lcb [] A"
  proof (rule edges_ok_cong [OF oldA])
    fix w
    assume w: "w \<in> set A"
    then have "lr_tid w \<notin> lr_tid ` set B" "lr_tid w \<noteq> ?t" using d tn(1) by (auto simp: image_iff)
    then show "g' (lr_tid w) = g (lr_tid w)" using g'(2) by simp
  qed
  have "edges_ok g' lcb ([] @ A) B"
    unfolding edges_ok_nth
  proof (intro allI impI)
    fix C w D
    assume s: "B = C @ w # D"
    then obtain e where e: "g (lr_tid w) = Some e" "\<And>h. holder_need lcb w h + queue_need ((A @ [lr]) @ C) w h \<le> cnt e h"
      using es by blast
    moreover have "lr_tid w \<noteq> ?t" using t s by simp
    ultimately obtain e' where e': "g' (lr_tid w) = Some e'"
        "\<And>h. cnt e' h = cnt e h - (if h = ?t \<and> \<not> compatibility (lr_mode w) (lr_mode lr) then 1 else 0)"
      using g'(3) s by fastforce
    have "holder_need lcb w h + queue_need (([] @ A) @ C) w h \<le> cnt e' h" for h
      using e(2) [of h] e'(2) [of h] by (auto simp: queue_need_Cons queue_need_def split: if_splits)
    then show "\<exists>e. g' (lr_tid w) = Some e \<and> (\<forall>h. holder_need lcb w h + queue_need (([] @ A) @ C) w h \<le> cnt e h)"
      using e'(1) by blast
  qed
  with A have "edges_ok g' lcb [] (A @ B)" by (simp add: edges_ok_append)
  then show ?thesis using g' by blast
qed

section \<open>Lock, unlock and abort keep the invariant\<close>

lemma held_new: "lockRegistry V tag = None \<Longrightarrow> lockRegistry V' = (lockRegistry V)(tag \<mapsto> newLCB) \<Longrightarrow> held V' x = held V x"
  by (auto simp: held_def newLCB_def held_mode_def split: if_splits)

lemma loadOrStoreLCB_inv:
  assumes inv: "lm_inv V" and l: "loadOrStoreLCB V tag = (lcb, V')"
  shows "lm_inv V'" "lockRegistry V' tag = Some lcb" "txnRegistry V' = txnRegistry V" "waitGraph V' = waitGraph V"
    "waiting_for V' x = waiting_for V x"
proof -
  show r: "lockRegistry V' tag = Some lcb" "txnRegistry V' = txnRegistry V" "waitGraph V' = waitGraph V"
    using l by (auto simp: loadOrStoreLCB_def split: option.splits)
  then show wf: "waiting_for V' x = waiting_for V x" for x by (simp add: waiting_for_def)
  show "lm_inv V'"
  proof (cases "lockRegistry V tag")
    case (Some k)
    then show ?thesis using inv l by (simp add: loadOrStoreLCB_def)
  next
    case None
    then have R': "lockRegistry V' = (lockRegistry V)(tag \<mapsto> newLCB)" using l by (auto simp: loadOrStoreLCB_def)
    note D = txns_okD [OF inv_txns [OF inv]]
    have "txns_ok V'"
    proof (rule txns_okI)
      show "\<exists>l. lockRegistry V' (lr_tag w) = Some l \<and> w \<in> set (waiters l)" if "waiting_for V' x = Some w" for x w
        using D(5) that None by (fastforce simp: wf R')
      show "waiting_for V' (lr_tid w) = Some w" if "lockRegistry V' g = Some l" "w \<in> set (waiters l)" for g l w
        using D(6) [of g l w] that by (auto simp: wf R' newLCB_def split: if_splits)
    qed (use D held_new [OF None R'] r wf in auto)
    then show ?thesis
      by (intro inv_update [OF inv R']) (auto simp: lcb_ok_def newLCB_def held_mode_def head_blocked_def r)
  qed
qed

lemma loadOrStoreTCB_inv:
  assumes inv: "lm_inv V" and l: "loadOrStoreTCB V tid = (tcb, V')"
  shows "lm_inv V'" "txnRegistry V' tid = Some tcb" "lockRegistry V' = lockRegistry V" "waitGraph V' = waitGraph V"
    "waiting_for V' x = waiting_for V x"
proof -
  show r: "txnRegistry V' tid = Some tcb" "lockRegistry V' = lockRegistry V" "waitGraph V' = waitGraph V"
    using l by (auto simp: loadOrStoreTCB_def split: option.splits)
  show wf: "waiting_for V' x = waiting_for V x" for x
    using l by (auto simp: loadOrStoreTCB_def waiting_for_def newTCB_def split: option.splits if_splits)
  note D = txns_okD [OF inv_txns [OF inv]]
  have h: "held V' x = held V x" for x by (simp add: held_def r)
  have t: "txnRegistry V' x = txnRegistry V x \<or> txnRegistry V x = None \<and> txnRegistry V' x = Some newTCB" for x
    using l by (auto simp: loadOrStoreTCB_def split: option.splits if_splits)
  have "txns_ok V'"
  proof (rule txns_okI)
    show "held V' x = {}" if "txnRegistry V' x = None" for x using t [of x] D(2) [of x] that h by auto
    show "lockCount u = int (card (held V' x))" if "txnRegistry V' x = Some u" for x u
      using t [of x] D(2,3) [of x] that h by (auto simp: newTCB_def)
  qed (use D h wf r in auto)
  then show "lm_inv V'"
    using inv r by (auto simp: lm_inv_but_def)
qed

lemma delInactiveTCB_inv:
  assumes inv: "lm_inv V"
  shows "lm_inv (delInactiveTCB V tid)"
proof (cases "delInactiveTCB V tid = V")
  case False
  then obtain tcb where t: "txnRegistry V tid = Some tcb" "lockCount tcb = 0" "waitingOn tcb = None"
      "delInactiveTCB V tid = V\<lparr>txnRegistry := (txnRegistry V)(tid := None)\<rparr>" (is "_ = ?V'")
    by (auto simp: delInactiveTCB_def split: option.splits if_splits)
  note D = txns_okD [OF inv_txns [OF inv]]
  have wf: "waiting_for ?V' x = waiting_for V x" for x using t by (simp add: waiting_for_def)
  have h: "held ?V' x = held V x" for x by (simp add: held_def)
  have "held V tid = {}" using D(1,3) t by (metis card_0_eq of_nat_eq_0_iff)
  then have "txns_ok ?V'" by (intro txns_okI) (use D wf h in \<open>auto split: if_splits\<close>)
  then show ?thesis using inv by (auto simp: lm_inv_but_def t(4))
qed (use inv in simp)

lemma waiting_none_free:
  assumes "lm_inv V" "waiting_for V t = None" "lockRegistry V g = Some l" "w \<in> set (waiters l)"
  shows "lr_tid w \<noteq> t"
  using txns_okD(6) [OF inv_txns [OF assms(1)] assms(3,4)] assms(2) by auto

lemma waitGraph_none_free: "lm_inv V \<Longrightarrow> waiting_for V t = None \<Longrightarrow> waitGraph V t = None"
  using txns_okD(7) [OF inv_txns] by fastforce

text \<open>A grant to a transaction that was not waiting, on a resource without a queue.\<close>

lemma lock_grant_inv:
  assumes inv: "lm_inv V" and R: "lockRegistry V (lr_tag lr) = Some lcb" and T: "txnRegistry V (lr_tid lr) = Some tcb"
    and w: "waiters lcb = []" and nw: "waiting_for V (lr_tid lr) = None" and c: "isLockModeCompatible lr lcb"
  shows "lm_inv (set_tcb (lr_tid lr)
      (if held_mode lcb (lr_tid lr) = None then tcb\<lparr>lockCount := lockCount tcb + 1\<rparr> else tcb)
      (set_lcb (lr_tag lr) (lcb\<lparr>holders := AList.update (lr_tid lr) (lr_mode lr) (holders lcb)\<rparr>) V))"
    (is "lm_inv ?V'")
proof -
  let ?l = "lcb\<lparr>holders := AList.update (lr_tid lr) (lr_mode lr) (holders lcb)\<rparr>"
  let ?tcb = "if held_mode lcb (lr_tid lr) = None then tcb\<lparr>lockCount := lockCount tcb + 1\<rparr> else tcb"
  have lw: "lcb\<lparr>holders := X, waiters := []\<rparr> = lcb\<lparr>holders := X\<rparr>" for X using w by simp
  have wt: "waitingOn tcb = None" using nw T by (simp add: waiting_for_def)
  have "lcb_ok (lr_tag lr) ?l"
    using lcb_ok_grant [OF inv_parts(1) [OF inv R] c, of "[]"] by (simp add: lw)
  moreover have "txns_ok ?V'"
  proof (rule txns_ok_update [OF inv_txns [OF inv] R T, where lcb' = ?l and tcb' = ?tcb])
    show "lr_tag v = g" if "lockRegistry V g = Some l" "v \<in> set (waiters l)" for g l v
      using inv_parts(4) [OF inv that] .
    show "x \<noteq> lr_tid lr \<and> waitGraph V x \<noteq> None" if "waitGraph ?V' x \<noteq> None" for x
      using that waitGraph_none_free [OF inv nw] by (auto simp: set_tcb_def set_lcb_def)
  qed (use w wt nw in \<open>auto simp: set_tcb_def set_lcb_def\<close>)
  ultimately show ?thesis
    by (intro inv_update [OF inv]) (use w in \<open>auto simp: set_tcb_def set_lcb_def head_blocked_def\<close>)
qed

lemma cnt_holder_edges:
  "distinct (map fst hs) \<Longrightarrow> cnt (holder_edges lr hs es) h = cnt es h +
     (case map_of hs h of None \<Rightarrow> 0 | Some m \<Rightarrow> if h \<noteq> lr_tid lr \<and> \<not> compatibility (lr_mode lr) m then 1 else 0)"
proof (induction hs arbitrary: es)
  case (Cons a hs)
  obtain k m where a: "a = (k, m)" by (cases a)
  have "map_of hs k = None" using Cons.prems by (simp add: a map_of_eq_None_iff)
  then show ?case using Cons by (auto simp: a split: option.splits)
qed simp

lemma cnt_waiter_edges:
  "lr_tid lr \<notin> lr_tid ` set ws \<Longrightarrow> cnt (waiter_edges lr (ws @ [lr]) es) h = cnt es h + queue_need ws lr h"
  by (induction ws arbitrary: es) (auto simp: queue_need_def)

text \<open>Joining the queue.\<close>

lemma lock_enqueue_inv:
  assumes inv: "lm_inv V" and R: "lockRegistry V (lr_tag lr) = Some lcb" and T: "txnRegistry V (lr_tid lr) = Some tcb"
    and nw: "waiting_for V (lr_tid lr) = None" and nc: "\<not> covered_by_hold lcb lr"
    and b: "\<not> (waiters lcb = [] \<and> isLockModeCompatible lr lcb)"
    and es: "es = waiter_edges lr (waiters lcb @ [lr]) (holder_edges lr (holders lcb) es0)"
  shows "lm_inv ((set_tcb (lr_tid lr) (tcb\<lparr>waitingOn := Some lr\<rparr>)
      (set_lcb (lr_tag lr) (lcb\<lparr>waiters := waiters lcb @ [lr]\<rparr>) V))
      \<lparr>waitGraph := (waitGraph V)(lr_tid lr \<mapsto> es), waitStateChanged := True\<rparr>)" (is "lm_inv ?V'")
proof -
  let ?l = "lcb\<lparr>waiters := waiters lcb @ [lr]\<rparr>" and ?t = "lr_tid lr" and ?g = "lr_tag lr"
  note D = txns_okD [OF inv_txns [OF inv]]
  note ok = inv_parts [OF inv R]
  have R': "lockRegistry ?V' = (lockRegistry V)(?g \<mapsto> ?l)" by (simp add: set_tcb_def set_lcb_def)
  have wf: "waiting_for ?V' x = (if x = ?t then Some lr else waiting_for V x)" for x
    by (simp add: waiting_for_def set_tcb_def set_lcb_def)
  have free: "lr_tid w \<noteq> ?t" if "lockRegistry V g = Some l" "w \<in> set (waiters l)" for g l w
    by (rule waiting_none_free [OF inv nw that])
  have tn: "?t \<notin> lr_tid ` set (waiters lcb)" using free [OF R] by (metis imageE)
  have d: "distinct (map fst (holders lcb))" using ok(1) by (simp add: lcb_ok_def)
  have h: "held ?V' x = held V x" for x using held_at [OF R', of x] held_member [OF R, of x] by auto
  have "txns_ok ?V'"
  proof (rule txns_okI)
    show "finite (held ?V' x)" for x using D(1) h by simp
    show "held ?V' x = {}" if "txnRegistry ?V' x = None" for x
      using D(2) [of x] h that by (simp add: set_tcb_def set_lcb_def split: if_splits)
    show "lockCount u = int (card (held ?V' x))" if "txnRegistry ?V' x = Some u" for x u
      using D(3) [of x u] D(3) [OF T] h that by (auto simp: set_tcb_def set_lcb_def split: if_splits)
    show "lr_tid w = x" if "waiting_for ?V' x = Some w" for x w
      using D(4) [of x w] that by (auto simp: wf split: if_splits)
    show "\<exists>l. lockRegistry ?V' (lr_tag w) = Some l \<and> w \<in> set (waiters l)" if "waiting_for ?V' x = Some w" for x w
      using D(5) [of x w] that R by (auto simp: wf R' split: if_splits)
    show "waiting_for ?V' (lr_tid w) = Some w" if "lockRegistry ?V' g = Some l" "w \<in> set (waiters l)" for g l w
      using that D(6) [of g l w] D(6) [OF R, of w] free [of g l w] free [OF R, of w]
      by (auto simp: wf R' split: if_splits)
    show "waiting_for ?V' x \<noteq> None" if "waitGraph ?V' x \<noteq> None" for x
      using D(7) [of x] that by (auto simp: wf split: if_splits)
  qed
  moreover have "edges_ok (waitGraph ?V') ?l [] (waiters ?l)"
  proof -
    have "edges_ok (waitGraph V) ?l [] (waiters lcb)" using ok(2) unfolding edges_ok_nth by simp
    then have "edges_ok (waitGraph ?V') ?l [] (waiters lcb)"
      by (rule edges_ok_cong) (use free [OF R] in auto)
    moreover have "holder_need ?l lr x + queue_need ([] @ waiters lcb) lr x \<le> cnt es x" for x
      using cnt_waiter_edges [OF tn, of "holder_edges lr (holders lcb) es0" x] cnt_holder_edges [OF d, of lr es0 x]
      by (simp add: es holder_need_def held_mode_def)
    ultimately show ?thesis by (simp add: edges_ok_append)
  qed
  moreover have "lcb_ok ?g ?l" using ok(1,4) tn nc by (auto simp: lcb_ok_def)
  moreover have "head_blocked ?l" using ok(3) b by (cases "waiters lcb") (auto simp: head_blocked_def)
  ultimately show ?thesis
    by (intro inv_update [OF inv R']) (use free in auto)
qed

lemma Lock_inv:
  assumes inv: "lm_inv V" and nw: "waiting_for V tid = None"
  shows "\<exists>o' V'. Lock V tid tag mode = Inr (o', V') \<and> lm_inv V'"
proof -
  obtain tcb V1 lcb V2 where s: "loadOrStoreTCB V tid = (tcb, V1)" "loadOrStoreLCB V1 tag = (lcb, V2)"
    by (metis surj_pair)
  note a = loadOrStoreTCB_inv [OF inv s(1)]
  note b = loadOrStoreLCB_inv [OF a(1) s(2)]
  let ?lr = "\<lparr>lr_tid = tid, lr_tag = tag, lr_mode = mode\<rparr>"
  have T: "txnRegistry V2 (lr_tid ?lr) = Some tcb" using a(2) b(3) by simp
  have R: "lockRegistry V2 (lr_tag ?lr) = Some lcb" using b(2) by simp
  have nw2: "waiting_for V2 (lr_tid ?lr) = None" using nw a(5) b(5) by simp
  then have wt: "waitingOn tcb = None" using T by (simp add: waiting_for_def)
  show ?thesis
  proof (cases "covered_by_hold lcb ?lr \<or> waiters lcb = [] \<and> isLockModeCompatible ?lr lcb")
    case True
    then show ?thesis
      using s delInactiveTCB_inv b(1) lock_grant_inv [OF b(1) R T _ nw2]
      by (auto simp: Lock_def lock_request_def)
  next
    case False
    then have nc: "\<not> covered_by_hold lcb ?lr" and nb: "\<not> (waiters lcb = [] \<and> isLockModeCompatible ?lr lcb)"
      by auto
    obtain es0 where es0: "lock_request V2 tcb lcb ?lr = Inr (Blocked,
        (set_tcb (lr_tid ?lr) (tcb\<lparr>waitingOn := Some ?lr\<rparr>)
          (set_lcb (lr_tag ?lr) (lcb\<lparr>waiters := waiters lcb @ [?lr]\<rparr>) V2))
        \<lparr>waitGraph := (waitGraph V2)(lr_tid ?lr \<mapsto>
          waiter_edges ?lr (waiters lcb @ [?lr]) (holder_edges ?lr (holders lcb) es0)),
          waitStateChanged := True\<rparr>)"
      unfolding lock_request_def if_not_P [OF nc] if_not_P [OF nb] using wt by (simp add: Let_def)
    show ?thesis
      using s lock_enqueue_inv [OF b(1) R T nw2 nc nb refl, of es0] by (simp add: Lock_def es0)
  qed
qed

lemma Unlock_inv:
  assumes inv: "lm_inv V" and nw: "waiting_for V tid = None" and h: "tag \<in> held V tid"
  shows "\<exists>V'. Unlock V tid tag = Inr V' \<and> lm_inv V'"
proof -
  note D = txns_okD [OF inv_txns [OF inv]]
  obtain lcb mode where R: "lockRegistry V tag = Some lcb" and m: "held_mode lcb tid = Some mode"
    using h by (auto simp: held_def)
  obtain tcb where T: "txnRegistry V tid = Some tcb" using D(2) h by (cases "txnRegistry V tid") auto
  note ok = inv_parts [OF inv R]
  let ?l = "lcb\<lparr>holders := AList.delete tid (holders lcb)\<rparr>" and ?tcb = "tcb\<lparr>lockCount := lockCount tcb - 1\<rparr>"
  have d: "distinct (map lr_tid (waiters lcb))" using ok(1) by (simp add: lcb_ok_def)
  have free: "lr_tid w \<noteq> tid" if "lockRegistry V g = Some l" "w \<in> set (waiters l)" for g l w
    by (rule waiting_none_free [OF inv nw that])
  obtain g where g: "unlock_edges (waitGraph V) tid mode (waiters lcb) = Inr g"
      "\<forall>x. x \<notin> lr_tid ` set (waiters lcb) \<longrightarrow> g x = waitGraph V x" "edges_ok g ?l [] (waiters lcb)"
    using edges_ok_unlock [OF ok(2) d free [OF R] m, of ?l] by auto
  let ?V1 = "(set_tcb tid ?tcb V)\<lparr>waitGraph := g\<rparr>"
  let ?V2 = "set_lcb tag (?l\<lparr>waiters := waiters lcb\<rparr>) ?V1"
  have l2: "?l\<lparr>waiters := waiters lcb\<rparr> = ?l" by simp
  have "lm_inv_but {tag} ?V2"
  proof (rule inv_update [OF inv, where lcb' = ?l and tag = tag])
    have "held_mode ?l x = Some m' \<Longrightarrow> held_mode lcb x = Some m'" for x m' by (simp split: if_splits)
    moreover have "covered_by_hold ?l w \<Longrightarrow> covered_by_hold lcb w" for w
      by (auto simp: covered_by_hold_def split: option.splits if_splits)
    ultimately show "lcb_ok tag ?l" using ok(1) unfolding lcb_ok_def
      by (simp del: held_mode_delete) (metis distinct_delete)
    show "txns_ok ?V2"
    proof (rule txns_ok_update [OF inv_txns [OF inv] R T, where lcb' = ?l and tcb' = ?tcb])
      show "lr_tag v = g" if "lockRegistry V g = Some l" "v \<in> set (waiters l)" for g l v
        using inv_parts(4) [OF inv that] .
      show "x \<noteq> tid \<and> waitGraph V x \<noteq> None" if "waitGraph ?V2 x \<noteq> None" for x
      proof (cases "x \<in> lr_tid ` set (waiters lcb)")
        case True
        then obtain w where w: "w \<in> set (waiters lcb)" "x = lr_tid w" by auto
        then obtain A B where "waiters lcb = A @ w # B" by (meson split_list)
        then show ?thesis using ok(2) w free [OF R w(1)] unfolding edges_ok_nth by fastforce
      next
        case False
        then show ?thesis
          using that g(2) waitGraph_none_free [OF inv nw] by (auto simp: set_tcb_def set_lcb_def)
      qed
      show "waitingOn ?tcb = None" using nw T by (simp add: waiting_for_def)
      show "set (waiters ?l) = {v \<in> set (waiters lcb). lr_tid v \<noteq> tid}" using free [OF R] by auto
    qed (use m nw in \<open>auto simp: set_tcb_def set_lcb_def\<close>)
    show "waitGraph ?V2 (lr_tid v) = waitGraph V (lr_tid v)"
      if "lockRegistry V k = Some l" "v \<in> set (waiters l)" "k \<noteq> tag" for k l v
    proof -
      have "lr_tid v \<notin> lr_tid ` set (waiters lcb)"
        using other_queue_tid [OF inv_txns [OF inv] R _ that(1,2)] ok(4) inv_parts(4) [OF inv that(1,2)] that(3)
        by (metis imageE)
      then show ?thesis using g(2) by (simp add: set_tcb_def set_lcb_def)
    qed
  qed (use g(3) in \<open>auto simp: set_tcb_def set_lcb_def\<close>)
  then obtain V3 lcb3 where "wakeUpCompatibleWaiters ?V1 ?l (waiters lcb) = Inr (V3, lcb3)" "lm_inv (set_lcb tag lcb3 V3)"
    using wake_keeps_inv [where tag = tag and lcb = ?l and ws = "waiters lcb" and lm = ?V1] by blast
  then show ?thesis
    using delInactiveTCB_inv T R m g(1) by (auto simp: Unlock_def unlock_request_def set_tcb_def Let_def)
qed

lemma filter_other_tid:
  assumes "distinct (map lr_tid (A @ lr # B))"
  shows "filter (\<lambda>w. lr_tid w \<noteq> lr_tid lr) (A @ lr # B) = A @ B"
proof -
  have "\<forall>w \<in> set A \<union> set B. lr_tid w \<noteq> lr_tid lr" using assms by (auto simp: image_iff)
  then show ?thesis by (simp add: filter_id_conv)
qed

lemma abort_waiter_inv:
  assumes inv: "lm_inv V"
  shows "\<exists>V'. abort_waiter V victim = Inr V' \<and> lm_inv V'"
proof (cases "waiting_for V victim")
  case None
  then show ?thesis using inv by (auto simp: abort_waiter_def waiting_for_def split: option.splits)
next
  case (Some lr)
  note D = txns_okD [OF inv_txns [OF inv]]
  obtain tcb where T: "txnRegistry V victim = Some tcb" "waitingOn tcb = Some lr"
    using Some by (auto simp: waiting_for_def split: option.splits)
  have t: "lr_tid lr = victim" using D(4) [OF Some] .
  obtain lcb where R: "lockRegistry V (lr_tag lr) = Some lcb" "lr \<in> set (waiters lcb)" using D(5) [OF Some] by auto
  note ok = inv_parts [OF inv R(1)]
  obtain A B where ws: "waiters lcb = A @ lr # B" using split_list [OF R(2)] by blast
  have d: "distinct (map lr_tid (A @ lr # B))" using ok(1) by (simp add: lcb_ok_def ws)
  have tn: "victim \<notin> lr_tid ` set A" "victim \<notin> lr_tid ` set B" using d t by auto
  obtain g where g: "unlock_edges ((waitGraph V)(victim := None)) victim (lr_mode lr) B = Inr g"
      "\<forall>x. x \<notin> lr_tid ` set B \<longrightarrow> g x = ((waitGraph V)(victim := None)) x" "edges_ok g lcb [] (A @ B)"
    using edges_ok_abort [OF _ d, of "waitGraph V" lcb] ok(2) t by (auto simp: ws)
  let ?tcb = "tcb\<lparr>waitingOn := None\<rparr>"
  let ?V1 = "(set_tcb victim ?tcb V)\<lparr>waitGraph := g,
      delivered := delivered V @ [(victim, Some (GoDBError DeadlockError))]\<rparr>"
  let ?l = "lcb\<lparr>waiters := A @ B\<rparr>"
  let ?V2 = "set_lcb (lr_tag lr) ?l ?V1"
  have set2: "set (waiters ?l) = {v \<in> set (waiters lcb). lr_tid v \<noteq> victim}"
  proof -
    have "set (A @ B) = set (filter (\<lambda>w. lr_tid w \<noteq> victim) (waiters lcb))"
      using filter_other_tid [OF d] by (simp only: ws t)
    then show ?thesis by (simp only: set_filter) simp
  qed
  have "lm_inv_but {lr_tag lr} ?V2"
  proof (rule inv_update [OF inv, where lcb' = ?l and tag = "lr_tag lr"])
    show "lcb_ok (lr_tag lr) ?l" using ok(1) d by (auto simp: lcb_ok_def ws)
    show "edges_ok (waitGraph ?V2) ?l [] (waiters ?l)"
      using g(3) unfolding edges_ok_nth by (simp add: set_tcb_def set_lcb_def)
    show "txns_ok ?V2"
    proof (rule txns_ok_update [OF inv_txns [OF inv] R(1) T(1), where lcb' = ?l and tcb' = ?tcb])
      show "lr_tag v = g" if "lockRegistry V g = Some l" "v \<in> set (waiters l)" for g l v
        using inv_parts(4) [OF inv that] .
      show "x \<noteq> victim \<and> waitGraph V x \<noteq> None" if x: "waitGraph ?V2 x \<noteq> None" for x
      proof (cases "x \<in> lr_tid ` set B")
        case True
        then obtain w where w: "w \<in> set B" "x = lr_tid w" by auto
        then have "waitGraph V x \<noteq> None"
          using ok(2) split_list [of w "waiters lcb"] unfolding edges_ok_nth ws by fastforce
        then show ?thesis using True tn by auto
      next
        case False
        then show ?thesis using x g(2) by (auto simp: set_tcb_def set_lcb_def split: if_splits)
      qed
      show "set (waiters ?l) = {v \<in> set (waiters lcb). lr_tid v \<noteq> victim}" by (rule set2)
    qed (use Some in \<open>auto simp: set_tcb_def set_lcb_def\<close>)
    show "waitGraph ?V2 (lr_tid v) = waitGraph V (lr_tid v)"
      if "lockRegistry V k = Some l" "v \<in> set (waiters l)" "k \<noteq> lr_tag lr" for k l v
    proof -
      have "lr_tid v \<notin> lr_tid ` set (waiters lcb)"
        using other_queue_tid [OF inv_txns [OF inv] R(1) _ that(1,2)] ok(4) inv_parts(4) [OF inv that(1,2)] that(3)
        by (metis imageE)
      then show ?thesis using g(2) t by (auto simp: set_tcb_def set_lcb_def ws)
    qed
  qed (auto simp: set_tcb_def set_lcb_def)
  then obtain V3 lcb3 where "wakeUpCompatibleWaiters ?V1 lcb (A @ B) = Inr (V3, lcb3)"
      "lm_inv (set_lcb (lr_tag lr) lcb3 V3)"
    using wake_keeps_inv [where tag = "lr_tag lr" and lcb = lcb and ws = "A @ B" and lm = ?V1] by blast
  moreover have "resolve_edges ((waitGraph V)(victim := None)) victim (lr_mode lr) False (waiters lcb) = Inr g"
    using resolve_edges_split [OF tn t] g(1) by (simp add: ws)
  moreover have "filter (\<lambda>w. lr_tid w \<noteq> victim) (waiters lcb) = A @ B"
    using filter_other_tid [OF d] t by (simp add: ws)
  ultimately show ?thesis
    using T R(1) ws by (simp add: abort_waiter_def set_tcb_def Let_def)
qed

section \<open>Runs of the lock manager\<close>

text \<open>
  A transaction calls \<^verbatim>\<open>Lock\<close> and \<^verbatim>\<open>Unlock\<close> one at a time: not while a
  request of it is queued or its wake-up message is unread.  Victims are aborted at any
  time (by the detector or by a time-out).
\<close>

inductive lock_step :: "LockManager \<Rightarrow> LockManager \<Rightarrow> bool" where
  ls_lock: "waiting_for lm tid = None \<Longrightarrow> tid \<notin> fst ` set (delivered lm) \<Longrightarrow>
    Lock lm tid tag mode = Inr (res, lm') \<Longrightarrow> lock_step lm lm'"
| ls_return: "(tid, e) \<in> set (delivered lm) \<Longrightarrow>
    lock_step lm (Lock_return (lm\<lparr>delivered := remove1 (tid, e) (delivered lm)\<rparr>) tid b e)"
| ls_unlock: "waiting_for lm tid = None \<Longrightarrow> tid \<notin> fst ` set (delivered lm) \<Longrightarrow>
    Unlock lm tid tag = Inr lm' \<Longrightarrow> lock_step lm lm'"
| ls_resolve: "resolveCycle lm cycle = Inr lm' \<Longrightarrow> lock_step lm lm'"

inductive lock_reach :: "LockManager \<Rightarrow> bool" where
  lr_start: "lock_reach NewLockManager"
| lr_step: "lock_reach lm \<Longrightarrow> lock_step lm lm' \<Longrightarrow> lock_reach lm'"

inductive_cases lock_stepE: "lock_step lm lm'"

lemma NewLockManager_inv: "lm_inv NewLockManager"
  by (simp add: lm_inv_but_def NewLockManager_def txns_ok_def held_def waiting_for_def)

lemma lm_inv_cong:
  assumes "lm_inv V" "lockRegistry V' = lockRegistry V" "waitGraph V' = waitGraph V"
    "\<And>x. waiting_for V' x = waiting_for V x"
    "\<And>x. map_option lockCount (txnRegistry V' x) = map_option lockCount (txnRegistry V x)"
  shows "lm_inv V'"
proof -
  note D = txns_okD [OF inv_txns [OF assms(1)]]
  have h: "held V' x = held V x" for x by (simp add: held_def assms(2))
  have "txns_ok V'"
  proof (rule txns_okI)
    show "held V' x = {}" if "txnRegistry V' x = None" for x
      using D(2) [of x] assms(5) [of x] that h by (cases "txnRegistry V x") auto
    show "lockCount u = int (card (held V' x))" if "txnRegistry V' x = Some u" for x u
      using D(3) [of x] assms(5) [of x] that h by (cases "txnRegistry V x") auto
  qed (use D h assms in auto)
  then show ?thesis using assms(1-3) by (auto simp: lm_inv_but_def)
qed

lemma Lock_return_inv: "lm_inv V \<Longrightarrow> lm_inv (Lock_return (V\<lparr>delivered := d\<rparr>) tid b e)"
proof (cases "txnRegistry V tid")
  case (Some tcb)
  assume "lm_inv V"
  then have "lm_inv (V\<lparr>delivered := d\<rparr>)"
    "lm_inv (set_tcb tid (tcb\<lparr>backOff := (if b = 0 then 10 else b * 2)\<rparr>) (V\<lparr>delivered := d\<rparr>))"
    using Some by (auto elim!: lm_inv_cong simp: waiting_for_def set_tcb_def)
  then show ?thesis using Some by (simp add: Lock_return_def delInactiveTCB_inv)
next
  case None
  assume "lm_inv V"
  then have "lm_inv (V\<lparr>delivered := d\<rparr>)" by (rule lm_inv_cong) (auto simp: waiting_for_def)
  then show ?thesis using None by (simp add: Lock_return_def)
qed

lemma Unlock_not_held:
  assumes "lm_inv V" "tag \<notin> held V tid"
  shows "Unlock V tid tag = Inl (GoDBError LockNotFoundError)"
  using assms(2) by (auto simp: Unlock_def unlock_request_def held_def split: option.splits)

lemma resolveCycle_inv: "lm_inv V \<Longrightarrow> cycle \<noteq> [] \<Longrightarrow> \<exists>V'. resolveCycle V cycle = Inr V' \<and> lm_inv V'"
  using abort_waiter_inv by (simp add: resolveCycle_def)

lemma lock_step_inv: "lock_step V V' \<Longrightarrow> lm_inv V \<Longrightarrow> lm_inv V'"
proof (induction rule: lock_step.induct)
  case (ls_lock lm tid tag mode res lm')
  then show ?case using Lock_inv [of lm tid tag mode] by auto
next
  case (ls_unlock lm tid tag lm')
  then show ?case
    using Unlock_inv [of lm tid tag] Unlock_not_held [of lm tag tid] by (cases "tag \<in> held lm tid") auto
next
  case (ls_resolve lm cycle lm')
  then show ?case using resolveCycle_inv [of lm cycle] by (cases "cycle = []") (auto simp: resolveCycle_def)
qed (rule Lock_return_inv)

lemma lock_reach_inv: "lock_reach V \<Longrightarrow> lm_inv V"
  by (induction rule: lock_reach.induct) (auto intro: NewLockManager_inv lock_step_inv)

section \<open>What a caller holds\<close>

definition hold :: "LockManager \<Rightarrow> TransactionID \<Rightarrow> DBLockTag \<Rightarrow> DBLockMode option" where
  "hold lm tid tag = (case lockRegistry lm tag of None \<Rightarrow> None | Some lcb \<Rightarrow> held_mode lcb tid)"

lemma held_hold: "tag \<in> held lm tid \<longleftrightarrow> hold lm tid tag \<noteq> None"
  by (auto simp: held_def hold_def split: option.splits)

lemma hold_delInactive [simp]: "hold (delInactiveTCB lm t) x tag = hold lm x tag"
  by (auto simp: hold_def delInactiveTCB_def split: option.splits)

lemma waiting_delInactive [simp]: "waiting_for (delInactiveTCB lm t) x = waiting_for lm x"
  by (auto simp: waiting_for_def delInactiveTCB_def split: option.splits)

lemma wake_others:
  "wakeUpCompatibleWaiters lm lcb ws = Inr (lm', lcb') \<Longrightarrow> x \<notin> lr_tid ` set ws \<Longrightarrow>
     lockRegistry lm' = lockRegistry lm \<and> held_mode lcb' x = held_mode lcb x \<and> waiting_for lm' x = waiting_for lm x"
proof (induction ws arbitrary: lm lcb)
  case (Cons w ws)
  let ?l = "if covered_by_hold lcb w then lcb
      else lcb\<lparr>holders := AList.update (lr_tid w) (lr_mode w) (holders lcb)\<rparr>"
  have x: "x \<noteq> lr_tid w" "x \<notin> lr_tid ` set ws" using Cons.prems(2) by auto
  show ?case
  proof (cases "covered_by_hold lcb w \<or> isLockModeCompatible w lcb")
    case True
    then obtain tcb k where t: "txnRegistry lm (lr_tid w) = Some tcb"
        "wakeUpCompatibleWaiters
           (lm\<lparr>waitGraph := (waitGraph lm)(lr_tid w := None),
               txnRegistry := (txnRegistry lm)(lr_tid w \<mapsto> tcb\<lparr>lockCount := k, waitingOn := None, backOff := 0\<rparr>),
               delivered := delivered lm @ [(lr_tid w, None)]\<rparr>) ?l ws = Inr (lm', lcb')"
      using Cons.prems(1) by (auto simp: Let_def split: option.splits)
    then show ?thesis using Cons.IH [OF t(2) x(2)] x(1) by (auto simp: waiting_for_def)
  next
    case False
    then show ?thesis using Cons.prems(1) by (auto simp: Let_def)
  qed
qed auto

lemma Unlock_hold:
  assumes inv: "lm_inv V" and nw: "waiting_for V tid = None" and u: "Unlock V tid tag = Inr V'"
  shows "hold V' tid tag' = (if tag' = tag then None else hold V tid tag')" "waiting_for V' tid = None"
proof -
  obtain tcb lcb mode g V2 lcb2 where s: "txnRegistry V tid = Some tcb" "lockRegistry V tag = Some lcb"
      "wakeUpCompatibleWaiters ((set_tcb tid (tcb\<lparr>lockCount := lockCount tcb - 1\<rparr>) V)\<lparr>waitGraph := g\<rparr>)
         (lcb\<lparr>holders := AList.delete tid (holders lcb)\<rparr>) (waiters lcb) = Inr (V2, lcb2)"
      "V' = delInactiveTCB (set_lcb tag lcb2 V2) tid" "held_mode lcb tid = Some mode"
    using u by (auto simp: Unlock_def unlock_request_def Let_def split: option.splits)
  have "tid \<notin> lr_tid ` set (waiters lcb)" using waiting_none_free [OF inv nw s(2)] by (metis imageE)
  note w = wake_others [OF s(3) this]
  show "hold V' tid tag' = (if tag' = tag then None else hold V tid tag')"
    unfolding s(4) hold_delInactive using w s(2) by (simp add: hold_def set_lcb_def set_tcb_def)
  show "waiting_for V' tid = None"
    unfolding s(4) waiting_delInactive using w nw s(1)
    by (simp add: waiting_for_def set_lcb_def set_tcb_def)
qed

lemma Lock_hold:
  assumes inv: "lm_inv V" and l: "Lock V tid tag mode = Inr (Granted, V')"
  shows "hold V' tid tag' = (if tag' = tag then
      (case hold V tid tag of
         Some m \<Rightarrow> if IsLockModeCovered m mode then Some m else Some mode | None \<Rightarrow> Some mode)
      else hold V tid tag')"
    "waiting_for V' x = waiting_for V x"
proof -
  obtain tcb V1 lcb V2 where s: "loadOrStoreTCB V tid = (tcb, V1)" "loadOrStoreLCB V1 tag = (lcb, V2)"
    by (metis surj_pair)
  note a = loadOrStoreTCB_inv [OF inv s(1)]
  note b = loadOrStoreLCB_inv [OF a(1) s(2)]
  have h: "held_mode lcb t = hold V t tag" for t
    using s a(3) by (auto simp: loadOrStoreLCB_def hold_def newLCB_def held_mode_def split: option.splits)
  have h2: "hold V2 t g = hold V t g" for t g
    using s a(3) by (auto simp: loadOrStoreLCB_def hold_def newLCB_def held_mode_def split: option.splits if_splits)
  have T: "txnRegistry V2 tid = Some tcb" using a(2) b(3) by simp
  obtain V3 where r: "lock_request V2 tcb lcb \<lparr>lr_tid = tid, lr_tag = tag, lr_mode = mode\<rparr> = Inr (Granted, V3)"
      "V' = delInactiveTCB V3 tid"
    using l s by (auto simp: Lock_def split: lock_outcome.splits)
  let ?lr = "\<lparr>lr_tid = tid, lr_tag = tag, lr_mode = mode\<rparr>"
  have cases: "covered_by_hold lcb ?lr \<and> V3 = V2 \<or> \<not> covered_by_hold lcb ?lr \<and> (\<exists>k.
      V3 = set_tcb tid (tcb\<lparr>lockCount := k\<rparr>)
        (set_lcb tag (lcb\<lparr>holders := AList.update tid mode (holders lcb)\<rparr>) V2))"
  proof (cases "covered_by_hold lcb ?lr \<or> waiters lcb = [] \<and> isLockModeCompatible ?lr lcb")
    case True
    let ?k = "if held_mode lcb tid = None then lockCount tcb + 1 else lockCount tcb"
    have "V3 = (if covered_by_hold lcb ?lr then V2 else set_tcb tid (tcb\<lparr>lockCount := ?k\<rparr>)
        (set_lcb tag (lcb\<lparr>holders := AList.update tid mode (holders lcb)\<rparr>) V2))"
      using True r(1) by (auto simp: lock_request_def split: if_splits)
    then show ?thesis by (cases "covered_by_hold lcb ?lr") (simp, simp only: if_False simp_thms, rule exI, rule refl)
  next
    case False
    then have "\<not> covered_by_hold lcb ?lr" "\<not> (waiters lcb = [] \<and> isLockModeCompatible ?lr lcb)" by auto
    then show ?thesis
      using r(1) unfolding lock_request_def by (simp add: Assert_def Let_def split: if_splits)
  qed
  have h3: "hold V3 tid tag' = (if tag' = tag then
      (case hold V tid tag of
         Some m \<Rightarrow> if IsLockModeCovered m mode then Some m else Some mode | None \<Rightarrow> Some mode)
      else hold V tid tag')"
    using cases
  proof
    assume c: "covered_by_hold lcb ?lr \<and> V3 = V2"
    then obtain m where "hold V tid tag = Some m" "IsLockModeCovered m mode"
      using h [of tid] by (auto simp: covered_by_hold_def split: option.splits)
    then show ?thesis using c h2 by simp
  next
    assume c: "\<not> covered_by_hold lcb ?lr \<and> (\<exists>k. V3 = set_tcb tid (tcb\<lparr>lockCount := k\<rparr>)
        (set_lcb tag (lcb\<lparr>holders := AList.update tid mode (holders lcb)\<rparr>) V2))"
    then have "hold V3 tid tag' = (if tag' = tag then Some mode else hold V2 tid tag')"
      by (auto simp: hold_def set_tcb_def set_lcb_def held_mode_def update_conv)
    moreover have "\<forall>m. hold V tid tag = Some m \<longrightarrow> \<not> IsLockModeCovered m mode"
      using c h [of tid] by (auto simp: covered_by_hold_def)
    ultimately show ?thesis using h2 by (auto split: option.splits)
  qed
  then show "hold V' tid tag' = (if tag' = tag then
      (case hold V tid tag of
         Some m \<Rightarrow> if IsLockModeCovered m mode then Some m else Some mode | None \<Rightarrow> Some mode)
      else hold V tid tag')"
    by (simp add: r(2))
  have "waiting_for V3 x = waiting_for V2 x"
    using cases T by (auto simp: waiting_for_def set_tcb_def set_lcb_def)
  then show "waiting_for V' x = waiting_for V x" using a(5) b(5) by (simp add: r(2))
qed

section \<open>The lock manager as an interface\<close>

text \<open>
  What a transaction relies on: a granted lock is held in a mode that covers the request,
  releasing gives up that resource only, and neither makes the transaction wait.
\<close>

locale lock_service =
  fixes inv :: "'l \<Rightarrow> bool" and holds :: "'l \<Rightarrow> TransactionID \<Rightarrow> DBLockTag \<Rightarrow> DBLockMode option"
    and idle :: "'l \<Rightarrow> TransactionID \<Rightarrow> bool"
    and lock_op :: "'l \<Rightarrow> TransactionID \<Rightarrow> DBLockTag \<Rightarrow> DBLockMode \<Rightarrow> (lock_outcome \<times> 'l) res"
    and unlock_op :: "'l \<Rightarrow> TransactionID \<Rightarrow> DBLockTag \<Rightarrow> 'l res"
  assumes lock_law: "inv l \<Longrightarrow> idle l t \<Longrightarrow> lock_op l t g m = Inr (Granted, l') \<Longrightarrow>
      inv l' \<and> idle l' t \<and> holds l' t g' = (if g' = g then
        (case holds l t g of
           Some k \<Rightarrow> if IsLockModeCovered k m then Some k else Some m | None \<Rightarrow> Some m) else holds l t g')"
    and unlock_law: "inv l \<Longrightarrow> idle l t \<Longrightarrow> holds l t g \<noteq> None \<Longrightarrow>
      \<exists>l'. unlock_op l t g = Inr l' \<and> inv l' \<and> idle l' t \<and>
        (\<forall>g'. holds l' t g' = (if g' = g then None else holds l t g'))"
begin

lemma release_list:
  assumes "inv l" "idle l t" "distinct gs" "\<forall>g \<in> set gs. holds l t g \<noteq> None"
  shows "\<exists>l'. foldR (\<lambda>g l. unlock_op l t g) gs l = Inr l' \<and> inv l' \<and> idle l' t \<and>
    (\<forall>g. holds l' t g = (if g \<in> set gs then None else holds l t g))"
  using assms
proof (induction gs arbitrary: l)
  case (Cons g gs)
  then obtain l1 where l1: "unlock_op l t g = Inr l1" "inv l1" "idle l1 t"
      "\<forall>g'. holds l1 t g' = (if g' = g then None else holds l t g')"
    using unlock_law [of l t g] by auto
  have "\<forall>g' \<in> set gs. holds l1 t g' \<noteq> None" using Cons.prems l1(4) by auto
  then obtain l' where "foldR (\<lambda>g l. unlock_op l t g) gs l1 = Inr l'" "inv l'" "idle l' t"
      "\<forall>g. holds l' t g = (if g \<in> set gs then None else holds l1 t g)"
    using Cons.IH [OF l1(2,3)] Cons.prems(3) by auto
  then show ?case using l1 by auto
qed simp

end

interpretation lms: lock_service lm_inv hold "\<lambda>lm t. waiting_for lm t = None" Lock Unlock
proof
  show "lm_inv l' \<and> waiting_for l' t = None \<and> hold l' t g' = (if g' = g then
        (case hold l t g of
           Some k \<Rightarrow> if IsLockModeCovered k m then Some k else Some m | None \<Rightarrow> Some m) else hold l t g')"
    if "lm_inv l" "waiting_for l t = None" "Lock l t g m = Inr (Granted, l')" for l t g m l' g'
    using Lock_inv [OF that(1,2), of g m] Lock_hold [OF that(1,3)] that by auto
  show "\<exists>l'. Unlock l t g = Inr l' \<and> lm_inv l' \<and> waiting_for l' t = None \<and>
        (\<forall>g'. hold l' t g' = (if g' = g then None else hold l t g'))"
    if "lm_inv l" "waiting_for l t = None" "hold l t g \<noteq> None" for l t g
    using Unlock_inv [OF that(1,2), of g] Unlock_hold [OF that(1,2)] that(3) by (fastforce simp: held_hold)
qed

section \<open>Properties of the lock manager\<close>

text \<open>
  Coverage is the privilege order of the compatibility matrix.  A held mode covers a
  requested one exactly when everything compatible with the held mode is compatible with
  the requested one, so returning without a change is always right; and the matrix is
  symmetric.
\<close>

theorem lock_modes_ordered:
  "(IsLockModeCovered a b \<longleftrightarrow> (\<forall>m. compatibility a m \<longrightarrow> compatibility b m)) \<and>
   compatibility a b = compatibility b a"
  by (rule conjI [OF covered_iff_compatible compatibility_sym])

lemma lock_modes_ordered_witness:
  "IsLockModeCovered LockModeSIX LockModeS \<and> compatibility LockModeSIX LockModeIS \<and>
   compatibility LockModeS LockModeIS \<and> \<not> IsLockModeCovered LockModeS LockModeIX"
  using lock_modes_ordered [of LockModeSIX LockModeS] by (simp add: IsLockModeCovered_def)

text \<open>Two transactions share a table; a third waits for it exclusively.\<close>

definition demo_tag :: DBLockTag where "demo_tag = NewTableLockTag 1"

definition demo_locks :: "LockManager res" where
  "demo_locks =
     bindR (Lock NewLockManager 1 demo_tag LockModeS) (\<lambda>(_, lm).
     bindR (Lock lm 2 demo_tag LockModeS) (\<lambda>(_, lm).
     bindR (Lock lm 3 demo_tag LockModeX) (\<lambda>(_, lm). Inr lm)))"

lemma demo_locks_reach:
  obtains lm where "demo_locks = Inr lm" "lock_reach lm"
    "lockRegistry lm demo_tag = Some \<lparr>holders = [(1, LockModeS), (2, LockModeS)],
       waiters = [\<lparr>lr_tid = 3, lr_tag = demo_tag, lr_mode = LockModeX\<rparr>]\<rparr>"
    "waiting_for lm 1 = None" "1 \<notin> fst ` set (delivered lm)"
    "\<And>g. g \<noteq> demo_tag \<Longrightarrow> lockRegistry lm g = None"
proof -
  define lm1 where "lm1 = NewLockManager\<lparr>txnRegistry := [1 \<mapsto> newTCB\<lparr>lockCount := 1\<rparr>],
      lockRegistry := [demo_tag \<mapsto> \<lparr>holders = [(1, LockModeS)], waiters = []\<rparr>]\<rparr>"
  define lm2 where "lm2 = NewLockManager\<lparr>txnRegistry := [1 \<mapsto> newTCB\<lparr>lockCount := 1\<rparr>, 2 \<mapsto> newTCB\<lparr>lockCount := 1\<rparr>],
      lockRegistry := [demo_tag \<mapsto> \<lparr>holders = [(1, LockModeS), (2, LockModeS)], waiters = []\<rparr>]\<rparr>"
  have 1: "Lock NewLockManager 1 demo_tag LockModeS = Inr (Granted, lm1)"
    by (simp add: Lock_def loadOrStoreTCB_def loadOrStoreLCB_def NewLockManager_def lock_request_def
        covered_by_hold_def held_mode_def newLCB_def isLockModeCompatible_def set_tcb_def set_lcb_def
        delInactiveTCB_def newTCB_def lm1_def)
  have 2: "Lock lm1 2 demo_tag LockModeS = Inr (Granted, lm2)"
    by (simp add: Lock_def loadOrStoreTCB_def loadOrStoreLCB_def NewLockManager_def lock_request_def
        covered_by_hold_def held_mode_def isLockModeCompatible_def set_tcb_def set_lcb_def
        delInactiveTCB_def newTCB_def lm1_def lm2_def fun_upd_twist)
  obtain lm3 where 3: "Lock lm2 3 demo_tag LockModeX = Inr (Blocked, lm3)"
    "lockRegistry lm3 demo_tag = Some \<lparr>holders = [(1, LockModeS), (2, LockModeS)],
       waiters = [\<lparr>lr_tid = 3, lr_tag = demo_tag, lr_mode = LockModeX\<rparr>]\<rparr>"
    "waiting_for lm3 1 = None" "1 \<notin> fst ` set (delivered lm3)"
    "\<forall>g. g \<noteq> demo_tag \<longrightarrow> lockRegistry lm3 g = None"
    by (simp add: Lock_def loadOrStoreTCB_def loadOrStoreLCB_def NewLockManager_def lock_request_def
        covered_by_hold_def held_mode_def isLockModeCompatible_def set_tcb_def set_lcb_def
        newTCB_def lm2_def waiting_for_def Let_def)
  have "lock_reach lm1"
    by (rule lr_step [OF lr_start ls_lock [OF _ _ 1]]) (simp_all add: NewLockManager_def waiting_for_def)
  then have "lock_reach lm2"
    by (rule lr_step [OF _ ls_lock [OF _ _ 2]]) (simp_all add: lm1_def NewLockManager_def waiting_for_def)
  then have "lock_reach lm3"
    by (rule lr_step [OF _ ls_lock [OF _ _ 3(1)]]) (simp_all add: lm2_def NewLockManager_def waiting_for_def)
  then show thesis using that [of lm3] 1 2 3 by (simp add: demo_locks_def)
qed

text \<open>
  C25: Mutual exclusion.  In every reachable state of the lock manager, two different
  transactions that hold the same resource hold it in compatible modes.
\<close>

theorem lock_holders_compatible:
  assumes "lock_reach lm" "lockRegistry lm tag = Some lcb"
    "(h, m) \<in> set (holders lcb)" "(h', m') \<in> set (holders lcb)" "h \<noteq> h'"
  shows "compatibility m m'"
proof -
  have ok: "lcb_ok tag lcb" by (rule inv_parts(1) [OF lock_reach_inv [OF assms(1)] assms(2)])
  then have "held_mode lcb h = Some m" "held_mode lcb h' = Some m'"
    using assms(3,4) by (simp_all add: lcb_ok_def held_mode_def)
  then show ?thesis using ok assms(5) unfolding lcb_ok_def by blast
qed

lemma lock_holders_compatible_witness:
  "\<exists>lm. demo_locks = Inr lm \<and> lock_reach lm \<and> compatibility LockModeS LockModeS"
proof (rule demo_locks_reach)
  fix lm
  assume a: "demo_locks = Inr lm" "lock_reach lm"
    "lockRegistry lm demo_tag = Some \<lparr>holders = [(1, LockModeS), (2, LockModeS)],
       waiters = [\<lparr>lr_tid = 3, lr_tag = demo_tag, lr_mode = LockModeX\<rparr>]\<rparr>"
  show ?thesis
    using lock_holders_compatible [OF a(2,3), of 1 LockModeS 2 LockModeS] a(1,2) by auto
qed

text \<open>
  C27: No internal assertion fires.  In every reachable state, \<^verbatim>\<open>Lock\<close> and
  \<^verbatim>\<open>Unlock\<close> by a transaction that is not waiting, and aborting the victim of any
  cycle, complete without a panic: the wait-graph entries and edge counts they assert are
  there.  \<^verbatim>\<open>Unlock\<close> fails only with \<^verbatim>\<open>LockNotFoundError\<close>, and exactly when
  the transaction does not hold the resource.
\<close>

theorem lock_manager_never_panics:
  assumes "lock_reach lm" "waiting_for lm tid = None"
  shows "(\<exists>res lm'. Lock lm tid tag mode = Inr (res, lm')) \<and>
    (if tag \<in> held lm tid then \<exists>lm'. Unlock lm tid tag = Inr lm'
     else Unlock lm tid tag = Inl (GoDBError LockNotFoundError)) \<and>
    (\<exists>lm'. resolveCycle lm (t # cycle) = Inr lm')"
  using Lock_inv [OF lock_reach_inv [OF assms(1)] assms(2)] Unlock_inv [OF lock_reach_inv [OF assms(1)] assms(2)]
    Unlock_not_held [OF lock_reach_inv [OF assms(1)]] resolveCycle_inv [OF lock_reach_inv [OF assms(1)]]
  by (metis list.distinct(1))

lemma lock_manager_never_panics_witness:
  "\<exists>lm lm'. demo_locks = Inr lm \<and> Unlock lm 1 demo_tag = Inr lm'"
proof (rule demo_locks_reach)
  fix lm
  assume a: "demo_locks = Inr lm" "lock_reach lm"
    "lockRegistry lm demo_tag = Some \<lparr>holders = [(1, LockModeS), (2, LockModeS)],
       waiters = [\<lparr>lr_tid = 3, lr_tag = demo_tag, lr_mode = LockModeX\<rparr>]\<rparr>" "waiting_for lm 1 = None"
  have "demo_tag \<in> held lm 1" using a(3) by (simp add: held_def held_mode_def)
  then show ?thesis using lock_manager_never_panics [OF a(2,4), of demo_tag] a(1) by auto
qed

text \<open>
  C26: No waiter is stranded.  In every reachable state, a queue that is not empty has a
  holder of the resource, other than the first waiter, whose mode conflicts with the
  first waiter's: nobody waits for a lock that could be granted.
\<close>

theorem lock_first_waiter_is_blocked:
  assumes "lock_reach lm" "lockRegistry lm tag = Some lcb" "waiters lcb = w # ws"
  shows "\<exists>(h, m) \<in> set (holders lcb). h \<noteq> lr_tid w \<and> \<not> compatibility (lr_mode w) m"
  using inv_parts(3) [OF lock_reach_inv [OF assms(1)] assms(2)] assms(3)
  by (auto simp: head_blocked_def isLockModeCompatible_def list_all_iff)

lemma lock_first_waiter_is_blocked_witness:
  "\<exists>lm lcb. demo_locks = Inr lm \<and> lockRegistry lm demo_tag = Some lcb \<and>
     (\<exists>(h, m) \<in> set (holders lcb). h \<noteq> 3 \<and> \<not> compatibility LockModeX m)"
proof (rule demo_locks_reach)
  fix lm
  assume a: "demo_locks = Inr lm" "lock_reach lm"
    "lockRegistry lm demo_tag = Some \<lparr>holders = [(1, LockModeS), (2, LockModeS)],
       waiters = [\<lparr>lr_tid = 3, lr_tag = demo_tag, lr_mode = LockModeX\<rparr>]\<rparr>"
  show ?thesis
    using lock_first_waiter_is_blocked [OF a(2,3), of "\<lparr>lr_tid = 3, lr_tag = demo_tag, lr_mode = LockModeX\<rparr>" "[]"]
      a(1,3) by auto
qed

end
