(* ===== verification/Deadlock_Detection.thy ===== *)
theory Deadlock_Detection
  imports Lock_Manager
begin

text \<open>
  The detector of \<^verbatim>\<open>transaction/lock.go\<close> (\<^verbatim>\<open>runGlobalDeadlockCheck\<close>): a depth-first
  search over a snapshot of the wait graph that aborts a victim of each cycle it
  reports.  The theorems say that it ends, that it misses no cycle, and that it may
  report a transaction that lies on none.
\<close>

section \<open>Deadlock detection\<close>

text \<open>
  The depth-first search over a snapshot of the wait graph.  \<open>fuel\<close> bounds the recursion
  depth; each nested call visits a new transaction, so as much fuel as the snapshot has
  transactions is enough.
\<close>

record dfs_state =
  visited :: "TransactionID list"
  onStack :: "TransactionID list"

definition neighbours :: "(TransactionID \<times> TransactionID list) list \<Rightarrow> TransactionID \<Rightarrow> TransactionID list" where
  "neighbours g u = (case map_of g u of None \<Rightarrow> [] | Some vs \<Rightarrow> vs)"

definition extend_path :: "TransactionID \<Rightarrow> TransactionID list \<Rightarrow> TransactionID list" where
  "extend_path u path =
     (if hd path = 0 then path else if hd path \<noteq> u then path @ [u] else 0 # path)"

fun findAnyCycle :: "(TransactionID \<times> TransactionID list) list \<Rightarrow> nat \<Rightarrow> TransactionID \<Rightarrow> dfs_state \<Rightarrow>
      TransactionID list option \<times> dfs_state"
  and scan_neighbours :: "(TransactionID \<times> TransactionID list) list \<Rightarrow> nat \<Rightarrow> TransactionID \<Rightarrow>
      TransactionID list \<Rightarrow> dfs_state \<Rightarrow> TransactionID list option \<times> dfs_state" where
  "findAnyCycle g 0 u st = (None, st)"
| "findAnyCycle g (Suc fuel) u st =
     scan_neighbours g fuel u (neighbours g u)
       (st\<lparr>visited := u # visited st, onStack := u # onStack st\<rparr>)"
| "scan_neighbours g fuel u [] st = (None, st\<lparr>onStack := removeAll u (onStack st)\<rparr>)"
| "scan_neighbours g fuel u (v # vs) st =
     (if v \<in> set (onStack st) then (Some [v, u], st)
      else if v \<notin> set (visited st)
      then (case findAnyCycle g fuel v st of
              (Some path, st') \<Rightarrow> (Some (extend_path u path), st')
            | (None, st') \<Rightarrow> scan_neighbours g fuel u vs st')
      else scan_neighbours g fuel u vs st)"

fun cycle_pass :: "(TransactionID \<times> TransactionID list) list \<Rightarrow> TransactionID list \<Rightarrow> dfs_state \<Rightarrow>
    LockManager \<Rightarrow> bool \<Rightarrow> (bool \<times> dfs_state \<times> LockManager) res" where
  "cycle_pass g [] st lm found = Inr (found, st, lm)"
| "cycle_pass g (tid # tids) st lm found =
     (if tid \<in> set (visited st) then cycle_pass g tids st lm found
      else case findAnyCycle g (length g + 1) tid st of
             (None, st') \<Rightarrow> cycle_pass g tids st' lm found
           | (Some cycle, st') \<Rightarrow>
               bindR (resolveCycle lm (if hd cycle = 0 then tl cycle else cycle)) (\<lambda>lm'.
               cycle_pass g tids st' lm' True))"

text \<open>
  \<^verbatim>\<open>runGlobalDeadlockCheck\<close>: passes over the snapshot until one finds no cycle.
  \<open>g\<close> is the snapshot in the order in which the code iterates over it.
\<close>

fun detect_loop :: "nat \<Rightarrow> (TransactionID \<times> TransactionID list) list \<Rightarrow> dfs_state \<Rightarrow> LockManager \<Rightarrow>
    LockManager res option" where
  "detect_loop 0 g st lm = None"
| "detect_loop (Suc fuel) g st lm =
     (case cycle_pass g (map fst g) st lm False of
        Inl e \<Rightarrow> Some (Inl e)
      | Inr (found, st', lm') \<Rightarrow> if found then detect_loop fuel g st' lm' else Some (Inr lm'))"

definition runGlobalDeadlockCheck :: "(TransactionID \<times> TransactionID list) list \<Rightarrow> LockManager \<Rightarrow>
    LockManager res option" where
  "runGlobalDeadlockCheck g lm = detect_loop 2 g \<lparr>visited = [], onStack = []\<rparr> lm"

definition snapshot_of :: "(TransactionID \<times> TransactionID list) list \<Rightarrow> wait_graph \<Rightarrow> bool" where
  "snapshot_of g wg \<longleftrightarrow> distinct (map fst g) \<and>
     (\<forall>u. map_option set (map_of g u) = map_option dom (wg u))"

section \<open>Every search ends and visits its start\<close>

lemma dfs_visits:
  "findAnyCycle g fuel u st = (r, st') \<Longrightarrow> set (visited st) \<subseteq> set (visited st') \<and> (0 < fuel \<longrightarrow> u \<in> set (visited st'))"
  "scan_neighbours g fuel u vs st = (r, st') \<Longrightarrow> set (visited st) \<subseteq> set (visited st')"
proof (induction g fuel u st and g fuel u vs st arbitrary: r st' and r st' rule: findAnyCycle_scan_neighbours.induct)
  case (2 g fuel u st)
  then show ?case by fastforce
next
  case (4 g fuel u v vs st)
  show ?case
  proof (cases "v \<in> set (onStack st) \<or> v \<in> set (visited st)")
    case True
    then show ?thesis using 4 by (auto split: if_splits)
  next
    case False
    obtain r1 st1 where f: "findAnyCycle g fuel v st = (r1, st1)" by fastforce
    then show ?thesis using 4 False by (cases r1) (auto, blast+)
  qed
qed auto

lemma dfs_path:
  "findAnyCycle g fuel u st = (Some p, st') \<Longrightarrow> \<exists>a b p'. p = a # b # p'"
  "scan_neighbours g fuel u vs st = (Some p, st') \<Longrightarrow> \<exists>a b p'. p = a # b # p'"
proof (induction g fuel u st and g fuel u vs st arbitrary: p st' and p st' rule: findAnyCycle_scan_neighbours.induct)
  case (4 g fuel u v vs st)
  show ?case
  proof (cases "v \<in> set (onStack st) \<or> v \<in> set (visited st)")
    case True
    then show ?thesis using 4 by (auto split: if_splits)
  next
    case False
    obtain r1 st1 where f: "findAnyCycle g fuel v st = (r1, st1)" by fastforce
    then show ?thesis using 4 False by (cases r1) (auto simp: extend_path_def split: if_splits)
  qed
qed auto

lemma resolve_path:
  assumes "lm_inv lm" "p = a # b # p'"
  shows "\<exists>lm1. resolveCycle lm (if hd p = 0 then tl p else p) = Inr lm1 \<and> lm_inv lm1"
  by (rule resolveCycle_inv [OF assms(1)]) (simp add: assms(2))

lemma cycle_pass_total:
  assumes "lm_inv lm"
  shows "\<exists>found' st' lm'. cycle_pass g ts st lm found = Inr (found', st', lm') \<and> lm_inv lm' \<and>
    set ts \<union> set (visited st) \<subseteq> set (visited st') \<and> (found \<longrightarrow> found')"
  using assms
proof (induction ts arbitrary: st lm found)
  case (Cons t ts)
  show ?case
  proof (cases "t \<in> set (visited st)")
    case True
    then show ?thesis using Cons.IH [OF Cons.prems, of st found] by fastforce
  next
    case False
    obtain r st1 where f: "findAnyCycle g (length g + 1) t st = (r, st1)" by fastforce
    have v: "t \<in> set (visited st1)" "set (visited st) \<subseteq> set (visited st1)" using dfs_visits(1) [OF f] by auto
    show ?thesis
    proof (cases r)
      case None
      then show ?thesis using Cons.IH [OF Cons.prems, of st1 found] f v False by fastforce
    next
      case (Some p)
      then obtain a b p' where p: "p = a # b # p'" using dfs_path(1) f by blast
      then obtain lm1 where "resolveCycle lm (if hd p = 0 then tl p else p) = Inr lm1" "lm_inv lm1"
        using resolve_path [OF Cons.prems p] by blast
      then show ?thesis using Cons.IH [of lm1 st1 True] f v False Some by fastforce
    qed
  qed
qed auto

lemma cycle_pass_visited:
  "set ts \<subseteq> set (visited st) \<Longrightarrow> cycle_pass g ts st lm found = Inr (found, st, lm)"
  by (induction ts) auto

lemma detector_ends:
  assumes "lm_inv lm"
  shows "\<exists>lm'. runGlobalDeadlockCheck g lm = Some (Inr lm') \<and> lm_inv lm'"
proof -
  obtain found st lm1 where p: "cycle_pass g (map fst g) \<lparr>visited = [], onStack = []\<rparr> lm False = Inr (found, st, lm1)"
      "lm_inv lm1" "set (map fst g) \<subseteq> set (visited st)"
    using cycle_pass_total [OF assms, of g "map fst g" "\<lparr>visited = [], onStack = []\<rparr>" False] by auto
  then show ?thesis
    using cycle_pass_visited [OF p(3), of g lm1 False]
    by (auto simp: runGlobalDeadlockCheck_def numeral_2_eq_2)
qed

section \<open>No cycle is missed\<close>

definition wait_edges :: "(TransactionID \<times> TransactionID list) list \<Rightarrow> (TransactionID \<times> TransactionID) set" where
  "wait_edges g = {(u, v). v \<in> set (neighbours g u)}"

text \<open>The finished transactions, in an order in which edges only point backwards.\<close>

definition finished :: "(TransactionID \<times> TransactionID list) list \<Rightarrow> dfs_state \<Rightarrow> TransactionID list \<Rightarrow> bool" where
  "finished g st L \<longleftrightarrow> set L = set (visited st) - set (onStack st) \<and> set (onStack st) \<subseteq> set (visited st) \<and>
     distinct L \<and> (\<forall>A u B. L = A @ u # B \<longrightarrow> set (neighbours g u) \<subseteq> set A)"

abbreviation keys_left :: "(TransactionID \<times> TransactionID list) list \<Rightarrow> dfs_state \<Rightarrow> nat" where
  "keys_left g st \<equiv> card (fst ` set g - set (visited st))"

lemma neighbours_key: "neighbours g u \<noteq> [] \<Longrightarrow> u \<in> fst ` set g"
  by (auto simp: neighbours_def image_iff split: option.splits dest: map_of_SomeD) (metis fst_conv map_of_SomeD)

lemma finished_snoc:
  assumes "finished g st L" "u \<in> set (onStack st)" "set (neighbours g u) \<subseteq> set L"
  shows "finished g (st\<lparr>onStack := removeAll u (onStack st)\<rparr>) (L @ [u])"
proof -
  have "u \<notin> set L" using assms by (auto simp: finished_def)
  moreover have "set (neighbours g x) \<subseteq> set A" if s: "L @ [u] = A @ x # B" for A x B
  proof (cases B rule: rev_cases)
    case Nil
    then show ?thesis using s assms(3) by simp
  next
    case (snoc B' b)
    then have "L = A @ x # B'" using s by simp
    then show ?thesis using assms(1) unfolding finished_def by blast
  qed
  ultimately show ?thesis using assms unfolding finished_def by auto
qed

lemma keys_left_visit:
  assumes "u \<in> fst ` set g" "u \<notin> set (visited st)"
  shows "keys_left g (st\<lparr>visited := u # visited st, onStack := x\<rparr>) < keys_left g st"
  using assms by (intro psubset_card_mono) auto

lemma dfs_complete:
  "findAnyCycle g fuel u st = (None, st') \<Longrightarrow> u \<notin> set (visited st) \<Longrightarrow> keys_left g st < fuel \<Longrightarrow>
     finished g st L \<Longrightarrow>
     \<exists>L'. finished g st' (L @ L') \<and> onStack st' = onStack st \<and> u \<in> set L'"
  "scan_neighbours g fuel u vs st = (None, st') \<Longrightarrow> u \<in> set (onStack st) \<Longrightarrow>
     (vs \<noteq> [] \<longrightarrow> keys_left g st < fuel) \<Longrightarrow> finished g st L \<Longrightarrow>
     set (neighbours g u) \<subseteq> set L \<union> set vs \<Longrightarrow>
     \<exists>L'. finished g st' (L @ L') \<and> onStack st' = removeAll u (onStack st) \<and> u \<in> set L'"
proof (induction g fuel u st and g fuel u vs st arbitrary: st' L and st' L rule: findAnyCycle_scan_neighbours.induct)
  case (1 g u st)
  then show ?case by simp
next
  case (2 g fuel u st)
  let ?st = "st\<lparr>visited := u # visited st, onStack := u # onStack st\<rparr>"
  have un: "u \<notin> set (onStack st)" using "2.prems" by (auto simp: finished_def)
  have "finished g ?st L" using "2.prems" un unfolding finished_def by auto
  moreover have "neighbours g u \<noteq> [] \<longrightarrow> keys_left g ?st < fuel"
    using "2.prems"(2,3) keys_left_visit [of u g st "u # onStack st"] neighbours_key [of g u] by fastforce
  ultimately show ?case
    using "2.IH" [of st' L] "2.prems"(1) un by auto
next
  case (3 g fuel u st)
  then show ?case using finished_snoc [of g st L u] by (intro exI [of _ "[u]"]) auto
next
  case (4 g fuel u v vs st)
  have vs: "v \<notin> set (onStack st)" using "4.prems"(1) by (auto split: if_splits)
  have kl: "keys_left g st < fuel" using "4.prems"(3) by simp
  show ?case
  proof (cases "v \<in> set (visited st)")
    case True
    then have "v \<in> set L" using vs "4.prems"(4) by (auto simp: finished_def)
    then show ?thesis using "4.IH"(3) [OF vs, of st' L] "4.prems" vs True kl by auto
  next
    case False
    obtain r st1 where f: "findAnyCycle g fuel v st = (r, st1)" by fastforce
    have r: "r = None" using "4.prems"(1) vs False f by (cases r) auto
    then obtain L1 where L1: "finished g st1 (L @ L1)" "onStack st1 = onStack st" "v \<in> set L1"
      using "4.IH"(1) [OF vs False _ False kl "4.prems"(4)] f by blast
    have "set (visited st) \<subseteq> set (visited st1)" using dfs_visits(1) [OF f] by blast
    then have "keys_left g st1 \<le> keys_left g st" by (intro card_mono) auto
    then have "keys_left g st1 < fuel" using kl by simp
    moreover have "scan_neighbours g fuel u vs st1 = (None, st')" using "4.prems"(1) vs False f r by simp
    moreover have "set (neighbours g u) \<subseteq> set (L @ L1) \<union> set vs" using "4.prems"(5) L1(3) by auto
    moreover have "u \<in> set (onStack st1)" using "4.prems"(2) L1(2) by simp
    ultimately obtain L2 where "finished g st' ((L @ L1) @ L2)" "onStack st' = removeAll u (onStack st1)" "u \<in> set L2"
      using "4.IH"(2) [OF vs False f [unfolded r, symmetric] refl _ _ _ L1(1)] by blast
    then show ?thesis using L1(2) by (intro exI [of _ "L1 @ L2"]) simp
  qed
qed

lemma cycle_pass_complete:
  assumes "cycle_pass g ts st lm False = Inr (False, st', lm')" "lm_inv lm" "finished g st L" "onStack st = []"
  shows "\<exists>L'. finished g st' L' \<and> onStack st' = [] \<and> set ts \<subseteq> set L'"
  using assms
proof (induction ts arbitrary: st lm L)
  case (Cons t ts)
  show ?case
  proof (cases "t \<in> set (visited st)")
    case True
    then obtain L' where "finished g st' L'" "onStack st' = []" "set ts \<subseteq> set L'"
      using Cons.IH [of st lm L] Cons.prems by auto
    moreover have "set (visited st) \<subseteq> set (visited st')"
      using cycle_pass_total [OF Cons.prems(2), of g "t # ts" st False] Cons.prems(1) by auto
    ultimately show ?thesis using True by (auto simp: finished_def)
  next
    case False
    obtain r st1 where f: "findAnyCycle g (length g + 1) t st = (r, st1)" by fastforce
    have "r = None"
    proof (rule ccontr)
      assume "r \<noteq> None"
      then obtain p where r: "r = Some p" by auto
      then obtain a b p' where p: "p = a # b # p'" using dfs_path(1) f by blast
      then obtain lm1 where "resolveCycle lm (if hd p = 0 then tl p else p) = Inr lm1" "lm_inv lm1"
        using resolve_path [OF Cons.prems(2) p] by blast
      then show False
        using Cons.prems(1) f r False cycle_pass_total [of lm1 g ts st1 True] by auto
    qed
    have "keys_left g st \<le> card (fst ` set g)" by (intro card_mono) auto
    also have "\<dots> \<le> length g" using card_image_le [of "set g" fst] card_length [of g] by simp
    finally have kl: "keys_left g st < length g + 1" by simp
    obtain L1 where L1: "finished g st1 (L @ L1)" "onStack st1 = onStack st" "t \<in> set L1"
      using dfs_complete(1) [OF _ False kl Cons.prems(3)] f \<open>r = None\<close> by blast
    have rest: "cycle_pass g ts st1 lm False = Inr (False, st', lm')"
      using Cons.prems(1) f \<open>r = None\<close> False by simp
    then obtain L' where L': "finished g st' L'" "onStack st' = []" "set ts \<subseteq> set L'"
      using Cons.IH [OF _ Cons.prems(2) L1(1)] L1(2) Cons.prems(4) by auto
    have "t \<in> set (visited st1)" using L1(1,3) by (auto simp: finished_def)
    moreover have "set (visited st1) \<subseteq> set (visited st')"
      using cycle_pass_total [OF Cons.prems(2), of g ts st1 False] rest by auto
    ultimately have "t \<in> set L'" using L'(1,2) by (auto simp: finished_def)
    then show ?thesis using L' by auto
  qed
qed auto

lemma finished_acyclic:
  assumes L: "finished g st L" and k: "fst ` set g \<subseteq> set L"
  shows "acyclic (wait_edges g)"
proof (rule acyclicI, intro allI notI)
  fix u
  assume c: "(u, u) \<in> (wait_edges g)\<^sup>+"
  have earlier: "w \<in> set A" if "(v, w) \<in> (wait_edges g)\<^sup>+" "L = A @ v # B" for v w A B
    using that
  proof (induction rule: trancl_induct)
    case (base y)
    then show ?case using L unfolding finished_def wait_edges_def by blast
  next
    case (step y z)
    then obtain A1 A2 where "A = A1 @ y # A2" by (meson split_list)
    then have "L = A1 @ y # (A2 @ v # B)" using step.prems by simp
    then have "z \<in> set A1" using L step.hyps(2) unfolding finished_def wait_edges_def by blast
    then show ?case using \<open>A = A1 @ y # A2\<close> by simp
  qed
  obtain v where "(u, v) \<in> wait_edges g" using c by (meson tranclD)
  then have "neighbours g u \<noteq> []" by (auto simp: wait_edges_def)
  then have "u \<in> fst ` set g" by (rule neighbours_key)
  then obtain A B where s: "L = A @ u # B" using k by (meson split_list subsetD)
  then have "u \<in> set A" using earlier [OF c] by blast
  then show False using s L by (auto simp: finished_def)
qed

section \<open>No transaction waits for itself\<close>

definition no_self_edge :: "wait_graph \<Rightarrow> bool" where
  "no_self_edge wg \<longleftrightarrow> (\<forall>t es. wg t = Some es \<longrightarrow> es t = None)"

lemma no_self_edgeI: "(\<And>t es. wg t = Some es \<Longrightarrow> es t = None) \<Longrightarrow> no_self_edge wg"
  by (simp add: no_self_edge_def)

lemma no_self_edge_upd:
  "no_self_edge wg \<Longrightarrow> es t = None \<Longrightarrow> no_self_edge (wg(t \<mapsto> es))" "no_self_edge wg \<Longrightarrow> no_self_edge (wg(t := None))"
  by (auto simp: no_self_edge_def)

lemma edges_self:
  "es (lr_tid lr) = None \<Longrightarrow> holder_edges lr hs es (lr_tid lr) = None"
  "es (lr_tid lr) = None \<Longrightarrow> waiter_edges lr ws es (lr_tid lr) = None"
proof -
  show "es (lr_tid lr) = None \<Longrightarrow> holder_edges lr hs es (lr_tid lr) = None"
    by (induction lr hs es rule: holder_edges.induct) (auto simp: edge_inc_def)
  show "es (lr_tid lr) = None \<Longrightarrow> waiter_edges lr ws es (lr_tid lr) = None"
    by (induction lr ws es rule: waiter_edges.induct) (auto simp: edge_inc_def)
qed

lemma edge_dec_none: "edge_dec h es = Inr es' \<Longrightarrow> es x = None \<Longrightarrow> es' x = None"
  by (auto simp: edge_dec_def split: option.splits if_splits)

lemma no_self_edge_dec:
  "no_self_edge wg \<Longrightarrow> wg t = Some es \<Longrightarrow> edge_dec h es = Inr es' \<Longrightarrow> no_self_edge (wg(t \<mapsto> es'))"
  using edge_dec_none [of h es es' t] no_self_edge_upd(1) [of wg es' t] by (simp add: no_self_edge_def [of wg])

lemma released_edges_self:
  "unlock_edges wg tid mode ws = Inr wg' \<Longrightarrow> no_self_edge wg \<Longrightarrow> no_self_edge wg'"
  "resolve_edges wg tid mode after ws = Inr wg' \<Longrightarrow> no_self_edge wg \<Longrightarrow> no_self_edge wg'"
proof -
  show "unlock_edges wg tid mode ws = Inr wg' \<Longrightarrow> no_self_edge wg \<Longrightarrow> no_self_edge wg'"
  proof (induction ws arbitrary: wg)
    case (Cons w ws)
    then show ?case
      using no_self_edge_dec [of wg "lr_tid w" _ tid] by (auto simp del: fun_upd_apply split: option.splits if_splits)
  qed simp
  show "resolve_edges wg tid mode after ws = Inr wg' \<Longrightarrow> no_self_edge wg \<Longrightarrow> no_self_edge wg'"
  proof (induction ws arbitrary: wg after)
    case (Cons w ws)
    then show ?case
      using no_self_edge_dec [of wg "lr_tid w" _ tid] by (auto simp del: fun_upd_apply split: option.splits if_splits)
  qed simp
qed

text \<open>What waking the waiters of a resource, aborting a waiter and a pass of the detector leave alone.\<close>

definition woken :: "LockManager \<Rightarrow> LockManager \<Rightarrow> bool" where
  "woken lm lm' \<longleftrightarrow> (\<exists>ds. delivered lm' = delivered lm @ ds) \<and> (\<forall>t. waiting_for lm t = None \<longrightarrow> waiting_for lm' t = None) \<and>
     (no_self_edge (waitGraph lm) \<longrightarrow> no_self_edge (waitGraph lm'))"

lemma woken_refl: "woken lm lm"
  by (simp add: woken_def)

lemma woken_trans: "woken a b \<Longrightarrow> woken b c \<Longrightarrow> woken a c"
  unfolding woken_def by (metis append.assoc)

lemma wake_woken: "wakeUpCompatibleWaiters lm lcb ws = Inr (lm', lcb') \<Longrightarrow> woken lm lm'"
proof (induction ws arbitrary: lm lcb)
  case (Cons w ws)
  let ?c = "covered_by_hold lcb w"
  show ?case
  proof (cases "?c \<or> isLockModeCompatible w lcb")
    case True
    then obtain tcb lm1 lcb1 where t: "txnRegistry lm (lr_tid w) = Some tcb"
        "lm1 = lm\<lparr>waitGraph := (waitGraph lm)(lr_tid w := None), txnRegistry := (txnRegistry lm)(lr_tid w \<mapsto>
           tcb\<lparr>lockCount := lockCount tcb + (if \<not> ?c \<and> held_mode lcb (lr_tid w) = None then 1 else 0), waitingOn := None, backOff := 0\<rparr>),
           delivered := delivered lm @ [(lr_tid w, None)]\<rparr>"
        "wakeUpCompatibleWaiters lm1 lcb1 ws = Inr (lm', lcb')"
      using Cons.prems by (auto simp: Let_def split: option.splits)
    have "woken lm lm1" by (auto simp: woken_def t(2) waiting_for_def no_self_edge_def)
    then show ?thesis using Cons.IH [OF t(3)] by (rule woken_trans)
  next
    case False
    then show ?thesis using Cons.prems by (auto simp: Let_def woken_refl)
  qed
qed (simp add: woken_refl)

lemma abort_woken:
  assumes "abort_waiter lm v = Inr lm'"
  shows "woken lm lm'" "lm_inv lm \<Longrightarrow> waiting_for lm v \<noteq> None \<Longrightarrow>
    waiting_for lm' v = None \<and> (\<exists>ds. delivered lm' = delivered lm @ (v, Some (GoDBError DeadlockError)) # ds)"
proof -
  have "lm' = lm \<and> (lm_inv lm \<longrightarrow> waiting_for lm v = None) \<or> (\<exists>lm1. woken lm1 lm' \<and> delivered lm1 = delivered lm @ [(v, Some (GoDBError DeadlockError))] \<and>
      waiting_for lm1 v = None \<and> (\<forall>t. waiting_for lm t = None \<longrightarrow> waiting_for lm1 t = None) \<and> (no_self_edge (waitGraph lm) \<longrightarrow> no_self_edge (waitGraph lm1)))"
  proof (cases "\<exists>tcb lr lcb. txnRegistry lm v = Some tcb \<and> waitingOn tcb = Some lr \<and> lockRegistry lm (lr_tag lr) = Some lcb")
    case False
    then have "lm' = lm" using assms by (auto simp: abort_waiter_def split: option.splits)
    moreover have "waiting_for lm v = None" if "lm_inv lm"
    proof (rule ccontr)
      assume "waiting_for lm v \<noteq> None"
      then obtain lr where "waiting_for lm v = Some lr" by auto
      then show False using False txns_okD(5) [OF inv_txns [OF that], of v lr] by (auto simp: waiting_for_def split: option.splits)
    qed
    ultimately show ?thesis by simp
  next
    case True
    then obtain tcb lr lcb where r: "txnRegistry lm v = Some tcb" "waitingOn tcb = Some lr" "lockRegistry lm (lr_tag lr) = Some lcb" by auto
    let ?lm1 = "(set_tcb v (tcb\<lparr>waitingOn := None\<rparr>) lm)\<lparr>waitGraph := (waitGraph lm)(v := None)\<rparr>"
    obtain g lm2 lcb2 where g: "resolve_edges (waitGraph ?lm1) v (lr_mode lr) False (waiters lcb) = Inr g"
        "wakeUpCompatibleWaiters (?lm1\<lparr>waitGraph := g, delivered := delivered ?lm1 @ [(v, Some (GoDBError DeadlockError))]\<rparr>) lcb
           (filter (\<lambda>w. lr_tid w \<noteq> v) (waiters lcb)) = Inr (lm2, lcb2)" "lm' = set_lcb (lr_tag lr) lcb2 lm2"
      using assms r by (auto simp: abort_waiter_def Let_def)
    have "no_self_edge g" if "no_self_edge (waitGraph lm)"
      using released_edges_self(2) [OF g(1)] no_self_edge_upd(2) [OF that, of v] by simp
    moreover have "woken lm2 lm'" by (simp add: woken_def g(3) set_lcb_def waiting_for_def)
    note woken_trans [OF wake_woken [OF g(2)] this]
    ultimately show ?thesis by (intro disjI2 exI conjI) (auto simp: set_tcb_def waiting_for_def)
  qed
  then show "woken lm lm'" "lm_inv lm \<Longrightarrow> waiting_for lm v \<noteq> None \<Longrightarrow>
    waiting_for lm' v = None \<and> (\<exists>ds. delivered lm' = delivered lm @ (v, Some (GoDBError DeadlockError)) # ds)"
    by (auto simp: woken_def)
qed

lemma delInactive_graph [simp]: "waitGraph (delInactiveTCB lm t) = waitGraph lm"
  by (simp add: delInactiveTCB_def split: option.splits)

lemma lock_step_self: "lock_step lm lm' \<Longrightarrow> no_self_edge (waitGraph lm) \<Longrightarrow> no_self_edge (waitGraph lm')"
proof (induction rule: lock_step.induct)
  case (ls_lock lm tid tag mode res lm')
  let ?lr = "\<lparr>lr_tid = tid, lr_tag = tag, lr_mode = mode\<rparr>"
  have "(case waitGraph lm tid of None \<Rightarrow> Map.empty | Some es \<Rightarrow> es) tid = None" using ls_lock(4) by (simp add: no_self_edge_def split: option.splits)
  then have w: "waiter_edges ?lr ws (holder_edges ?lr hs (case waitGraph lm tid of None \<Rightarrow> Map.empty | Some es \<Rightarrow> es)) tid = None" for ws hs
    using edges_self [where lr = ?lr] by simp
  have upd: "no_self_edge ((waitGraph lm)(tid \<mapsto> waiter_edges ?lr ws (holder_edges ?lr hs (case waitGraph lm tid of None \<Rightarrow> Map.empty | Some es \<Rightarrow> es))))" for ws hs
    by (rule no_self_edge_upd(1), rule ls_lock(4), rule w)
  have g: "waitGraph (snd (loadOrStoreTCB x tid)) = waitGraph x" "waitGraph (snd (loadOrStoreLCB x tag)) = waitGraph x" for x
    by (simp_all add: loadOrStoreTCB_def loadOrStoreLCB_def split: option.splits)
  obtain tcb lm1 lcb lm2 where 1: "loadOrStoreTCB lm tid = (tcb, lm1)" "loadOrStoreLCB lm1 tag = (lcb, lm2)" by fastforce
  have g2: "waitGraph lm2 = waitGraph lm" using g(1) [of lm] g(2) [of lm1] 1 by simp
  obtain lm3 where 3: "lock_request lm2 tcb lcb ?lr = Inr (res, lm3)" "waitGraph lm' = waitGraph lm3"
    using ls_lock(3) 1 by (auto simp: Lock_def split: lock_outcome.splits)
  have "no_self_edge (waitGraph lm3)"
    using 3(1) upd ls_lock(4) g2 by (auto simp: lock_request_def set_tcb_def set_lcb_def Let_def split: if_splits)
  then show ?case using 3(2) by simp
next
  case (ls_unlock lm tid tag lm')
  show ?case
  proof (cases "txnRegistry lm tid = None \<or> lockRegistry lm tag = None")
    case False
    then obtain tcb lcb where r: "txnRegistry lm tid = Some tcb" "lockRegistry lm tag = Some lcb" by auto
    then obtain lm1 where u: "unlock_request lm tcb lcb tid tag = Inr lm1" "waitGraph lm' = waitGraph lm1"
      using ls_unlock(3) by (auto simp: Unlock_def)
    then obtain mode g lm2 lcb2 x where "unlock_edges (waitGraph lm) tid mode (waiters lcb) = Inr g"
        "wakeUpCompatibleWaiters (x\<lparr>waitGraph := g\<rparr>) (lcb\<lparr>holders := AList.delete tid (holders lcb)\<rparr>) (waiters lcb) = Inr (lm2, lcb2)" "waitGraph lm1 = waitGraph lm2"
      by (auto simp: unlock_request_def Let_def set_tcb_def set_lcb_def split: option.splits)
    then show ?thesis using u(2) released_edges_self(1) [of "waitGraph lm" tid mode "waiters lcb" g] ls_unlock(4) wake_woken by (fastforce simp: woken_def)
  qed (use ls_unlock(3) in \<open>auto simp: Unlock_def split: option.splits\<close>)
next
  case (ls_resolve lm cycle lm')
  then show ?case using abort_woken(1) by (auto simp: resolveCycle_def woken_def split: if_splits)
qed (auto simp: Lock_return_def set_tcb_def split: option.splits)

lemma lock_reach_self: "lock_reach lm \<Longrightarrow> no_self_edge (waitGraph lm)"
proof (induction rule: lock_reach.induct)
  case lr_start
  then show ?case by (simp add: NewLockManager_def no_self_edge_def)
qed (rule lock_step_self)

section \<open>What the search reports from a clear stack\<close>

abbreviation on_cycle :: "(TransactionID \<times> TransactionID list) list \<Rightarrow> TransactionID \<Rightarrow> bool" where
  "on_cycle g x \<equiv> (x, x) \<in> (wait_edges g)\<^sup>+"

text \<open>The stack of a search, from its top to its root: every transaction waits for the one above it.\<close>

fun chain :: "(TransactionID \<times> TransactionID list) list \<Rightarrow> TransactionID list \<Rightarrow> bool" where
  "chain g (u # v # S) \<longleftrightarrow> (v, u) \<in> wait_edges g \<and> chain g (v # S)"
| "chain g S \<longleftrightarrow> True"

lemma chain_reach: "chain g (u # S) \<Longrightarrow> v \<in> set S \<Longrightarrow> (v, u) \<in> (wait_edges g)\<^sup>+"
proof (induction S arbitrary: u)
  case (Cons w S)
  then show ?case by (cases "v = w") (auto intro: trancl_into_trancl)
qed simp

lemma dfs_restores:
  "findAnyCycle g fuel u st = (None, st') \<Longrightarrow> u \<notin> set (visited st) \<Longrightarrow> set (onStack st) \<subseteq> set (visited st) \<Longrightarrow>
     onStack st' = onStack st \<and> set (onStack st') \<subseteq> set (visited st')"
  "scan_neighbours g fuel u vs st = (None, st') \<Longrightarrow> set (onStack st) \<subseteq> set (visited st) \<Longrightarrow>
     onStack st' = removeAll u (onStack st) \<and> set (onStack st') \<subseteq> set (visited st')"
proof (induction g fuel u st and g fuel u vs st arbitrary: st' and st' rule: findAnyCycle_scan_neighbours.induct)
  case (2 g fuel u st)
  have "u \<notin> set (onStack st)" using 2(3,4) by blast
  then show ?case using 2 by auto
next
  case (4 g fuel u v vs st)
  have vs: "v \<notin> set (onStack st)" using 4(4) by (auto split: if_splits)
  show ?case
  proof (cases "v \<in> set (visited st)")
    case True
    then show ?thesis using 4(3) [OF vs, of st'] 4(4,5) vs by auto
  next
    case False
    obtain r st1 where f: "findAnyCycle g fuel v st = (r, st1)" by fastforce
    then have r: "r = None" using 4(4) vs False by (cases r) auto
    have i: "onStack st1 = onStack st" "set (onStack st1) \<subseteq> set (visited st1)" using 4(1) [OF vs False, of st1] f r False 4(5) by blast+
    have "scan_neighbours g fuel u vs st1 = (None, st')" using 4(4) vs False f r by simp
    then show ?thesis using 4(2) [OF vs False f [unfolded r, symmetric] refl, of st'] i by auto
  qed
qed auto

definition path_ok :: "(TransactionID \<times> TransactionID list) list \<Rightarrow> TransactionID list \<Rightarrow> TransactionID \<Rightarrow> TransactionID list \<Rightarrow> bool" where
  "path_ok g S u p \<longleftrightarrow> p \<noteq> [] \<and> tl p \<noteq> [] \<and> (\<forall>x \<in> set (tl p). on_cycle g x) \<and>
     (hd p = 0 \<or> hd p \<in> set S \<and> (u, hd p) \<in> (wait_edges g)\<^sup>+)"

lemma path_ok_extend:
  assumes p: "path_ok g (u # S) v p" and c: "chain g (u # S)" and e: "(u, v) \<in> wait_edges g"
  shows "path_ok g S u (extend_path u p)"
proof -
  obtain a q where q: "p = a # q" "q \<noteq> []" "\<forall>x \<in> set q. on_cycle g x" "a = 0 \<or> (a = u \<or> a \<in> set S) \<and> (v, a) \<in> (wait_edges g)\<^sup>+"
    using p by (cases p) (auto simp: path_ok_def)
  have ua: "(u, a) \<in> (wait_edges g)\<^sup>+" if "a \<noteq> 0" using q(4) that e by (meson trancl_into_trancl2)
  consider "a = 0" | "a \<noteq> 0" "a = u" | "a \<noteq> 0" "a \<noteq> u" "a \<in> set S" using q(4) by blast
  then show ?thesis
  proof cases
    case 3
    then have "on_cycle g u" using ua chain_reach [OF c] by (meson trancl_trans)
    then show ?thesis using q 3 ua by (auto simp: path_ok_def extend_path_def)
  qed (use q ua in \<open>auto simp: path_ok_def extend_path_def\<close>)
qed

lemma dfs_sound:
  "findAnyCycle g fuel u st = (Some p, st') \<Longrightarrow> u \<notin> set (visited st) \<Longrightarrow> set (onStack st) \<subseteq> set (visited st) \<Longrightarrow>
     chain g (u # onStack st) \<Longrightarrow> irrefl (wait_edges g) \<Longrightarrow> path_ok g (onStack st) u p"
  "scan_neighbours g fuel u vs st = (Some p, st') \<Longrightarrow> onStack st = u # S \<Longrightarrow> set (onStack st) \<subseteq> set (visited st) \<Longrightarrow>
     chain g (u # S) \<Longrightarrow> set vs \<subseteq> set (neighbours g u) \<Longrightarrow> irrefl (wait_edges g) \<Longrightarrow> path_ok g S u p"
proof (induction g fuel u st and g fuel u vs st arbitrary: p st' and p st' S rule: findAnyCycle_scan_neighbours.induct)
  case (2 g fuel u st)
  show ?case by (rule 2(1)) (use 2 in auto)
next
  case (4 g fuel u v vs st)
  have e: "(u, v) \<in> wait_edges g" using 4(8) by (simp add: wait_edges_def)
  show ?case
  proof (cases "v \<in> set (onStack st)")
    case True
    have "v \<noteq> u" using e 4(9) by (auto simp: irrefl_def)
    then have v: "v \<in> set S" using True 4(5) by simp
    then have "on_cycle g u" using chain_reach [OF 4(7) v] e by (meson trancl_into_trancl2)
    then show ?thesis using 4(4) True v e by (auto simp: path_ok_def)
  next
    case vs: False
    show ?thesis
    proof (cases "v \<in> set (visited st)")
      case True
      then show ?thesis using 4(3) [OF vs, of p st' S] 4(4-9) vs by simp
    next
      case False
      obtain r st1 where f: "findAnyCycle g fuel v st = (r, st1)" by fastforce
      show ?thesis
      proof (cases r)
        case None
        have i: "onStack st1 = onStack st" "set (onStack st1) \<subseteq> set (visited st1)" using dfs_restores(1) [OF f [unfolded None] False 4(6)] by blast+
        have "scan_neighbours g fuel u vs st1 = (Some p, st')" using 4(4) vs False f None by simp
        then show ?thesis using 4(2) [OF vs False f [unfolded None, symmetric] refl, of p st' S] i 4(5-9) by simp
      next
        case (Some q)
        have "path_ok g (onStack st) v q" using 4(1) [OF vs False, of q st1] f Some False 4(5-9) e by simp
        then have "path_ok g S u (extend_path u q)" using path_ok_extend 4(5,7) e by simp
        then show ?thesis using 4(4) vs False f Some by simp
      qed
    qed
  qed
qed auto

section \<open>What a pass does\<close>

lemma resolve_woken: "resolveCycle lm c = Inr lm' \<Longrightarrow> woken lm lm'"
  using abort_woken(1) by (simp add: resolveCycle_def split: if_splits)

lemma cycle_pass_steps:
  "cycle_pass g ts st lm found = Inr (found', st', lm') \<Longrightarrow> woken lm lm' \<and> (lock_reach lm \<longrightarrow> lock_reach lm')"
proof (induction ts arbitrary: st lm found)
  case (Cons t ts)
  show ?case
  proof (cases "t \<in> set (visited st)")
    case True
    then show ?thesis using Cons by simp
  next
    case False
    obtain r st1 where f: "findAnyCycle g (length g + 1) t st = (r, st1)" by fastforce
    show ?thesis
    proof (cases r)
      case None
      then show ?thesis using Cons f False by simp
    next
      case (Some p)
      then obtain lm1 where 1: "resolveCycle lm (if hd p = 0 then tl p else p) = Inr lm1" "cycle_pass g ts st1 lm1 True = Inr (found', st', lm')"
        using Cons.prems f False by auto
      have "lock_reach lm \<longrightarrow> lock_reach lm1" using ls_resolve [OF 1(1)] lr_step by blast
      then show ?thesis using Cons.IH [OF 1(2)] woken_trans [OF resolve_woken [OF 1(1)]] by blast
    qed
  qed
qed (simp add: woken_refl)

lemma cycle_pass_found: "cycle_pass g ts st lm True = Inr (found, st', lm') \<Longrightarrow> found"
proof (induction ts arbitrary: st lm)
  case (Cons t ts)
  then show ?case by (auto split: if_splits prod.splits option.splits)
qed simp

text \<open>The first cycle that a pass finds is one.\<close>

lemma cycle_pass_first:
  assumes "cycle_pass g ts st lm False = Inr (found, st', lm')" "onStack st = []" "irrefl (wait_edges g)"
  shows "\<not> found \<and> lm' = lm \<or> found \<and>
    (\<exists>c lm1 st1 us. c \<noteq> [] \<and> (\<forall>x \<in> set c. on_cycle g x) \<and> resolveCycle lm c = Inr lm1 \<and> cycle_pass g us st1 lm1 True = Inr (found, st', lm'))"
  using assms
proof (induction ts arbitrary: st)
  case (Cons t ts)
  show ?case
  proof (cases "t \<in> set (visited st)")
    case True
    then show ?thesis using Cons by simp
  next
    case False
    obtain r st1 where f: "findAnyCycle g (length g + 1) t st = (r, st1)" by fastforce
    show ?thesis
    proof (cases r)
      case None
      have "onStack st1 = []" using dfs_restores(1) [OF f [unfolded None] False] Cons.prems(2) by simp
      then show ?thesis using Cons f False None by simp
    next
      case (Some p)
      have p: "path_ok g [] t p" using dfs_sound(1) [OF f [unfolded Some] False] Cons.prems(2,3) by simp
      then have h: "hd p = 0" "tl p \<noteq> []" "\<forall>x \<in> set (tl p). on_cycle g x" by (auto simp: path_ok_def)
      then obtain lm1 where 1: "resolveCycle lm (tl p) = Inr lm1" "cycle_pass g ts st1 lm1 True = Inr (found, st', lm')"
        using Cons.prems(1) f False Some by auto
      have "found" using cycle_pass_found [OF 1(2)] by simp
      then show ?thesis using h(2,3) 1 by blast
    qed
  qed
qed simp

text \<open>
  C29: The deadlock detector.  On any reachable lock manager and its own wait graph,
  \<^verbatim>\<open>runGlobalDeadlockCheck\<close> returns without a panic, in a reachable state.  When no
  transactions wait for each other in a cycle, nobody is aborted and nothing changes; when some
  do, it aborts a transaction that was waiting and lies on a cycle: the first message that it
  sends is the deadlock error to this victim, which waits no longer.
\<close>

theorem deadlock_detector_complete:
  assumes reach: "lock_reach lm" and g: "snapshot_of g (waitGraph lm)"
  shows "\<exists>lm'. runGlobalDeadlockCheck g lm = Some (Inr lm') \<and> lock_reach lm' \<and>
    (if acyclic (wait_edges g) then lm' = lm
     else \<exists>victim ds. on_cycle g victim \<and> waiting_for lm victim \<noteq> None \<and>
       delivered lm' = delivered lm @ (victim, Some (GoDBError DeadlockError)) # ds \<and> waiting_for lm' victim = None)"
proof -
  note inv = lock_reach_inv [OF reach]
  let ?st = "\<lparr>visited = [], onStack = []\<rparr>"
  obtain found st lm' where p: "cycle_pass g (map fst g) ?st lm False = Inr (found, st, lm')" "set (map fst g) \<subseteq> set (visited st)"
    using cycle_pass_total [OF inv, of g "map fst g" ?st False] by auto
  have run: "runGlobalDeadlockCheck g lm = Some (Inr lm')"
    using p(1) cycle_pass_visited [OF p(2), of g lm' False] by (auto simp: runGlobalDeadlockCheck_def numeral_2_eq_2)
  have out: "\<exists>es. waitGraph lm u = Some es \<and> es v \<noteq> None" if e: "(u, v) \<in> wait_edges g" for u v
  proof -
    obtain vs where vs: "map_of g u = Some vs" "v \<in> set vs" using e by (cases "map_of g u") (simp_all add: wait_edges_def neighbours_def)
    have "map_option set (map_of g u) = map_option dom (waitGraph lm u)" using g by (simp add: snapshot_of_def)
    then show ?thesis using vs by (cases "waitGraph lm u") auto
  qed
  have irr: "irrefl (wait_edges g)"
  proof (rule irreflI)
    show "(u, u) \<notin> wait_edges g" for u
    proof
      assume "(u, u) \<in> wait_edges g"
      then obtain es where es: "waitGraph lm u = Some es" "es u \<noteq> None" using out by blast
      then show False using lock_reach_self [OF reach, unfolded no_self_edge_def, rule_format, OF es(1)] by simp
    qed
  qed
  have "acyclic (wait_edges g)" if nf: "\<not> found"
  proof -
    have "finished g ?st []" by (simp add: finished_def)
    then obtain L where "finished g st L" "set (map fst g) \<subseteq> set L"
      using cycle_pass_complete [of g "map fst g" ?st lm st lm' "[]"] p nf inv by auto
    then show ?thesis using finished_acyclic by fastforce
  qed
  moreover have "\<not> acyclic (wait_edges g)" "\<exists>victim ds. on_cycle g victim \<and> waiting_for lm victim \<noteq> None \<and>
       delivered lm' = delivered lm @ (victim, Some (GoDBError DeadlockError)) # ds \<and> waiting_for lm' victim = None" if fd: found
  proof -
    obtain c lm1 st1 us where c: "c \<noteq> []" "\<forall>x \<in> set c. on_cycle g x" "resolveCycle lm c = Inr lm1" "cycle_pass g us st1 lm1 True = Inr (found, st, lm')"
      using cycle_pass_first [OF p(1) _ irr] fd by auto
    let ?v = "last (sort c)"
    have "?v \<in> set c" using c(1) by (metis last_in_set set_empty set_sort)
    then have v: "on_cycle g ?v" using c(2) by blast
    then obtain w where "(?v, w) \<in> wait_edges g" by (meson tranclD)
    then have w: "waiting_for lm ?v \<noteq> None" using out txns_okD(7) [OF inv_txns [OF inv]] by blast
    have "abort_waiter lm ?v = Inr lm1" using c(1,3) by (simp add: resolveCycle_def)
    from abort_woken(2) [OF this inv w] have "waiting_for lm1 ?v = None" "\<exists>ds. delivered lm1 = delivered lm @ (?v, Some (GoDBError DeadlockError)) # ds" by simp_all
    then show "\<exists>victim ds. on_cycle g victim \<and> waiting_for lm victim \<noteq> None \<and>
       delivered lm' = delivered lm @ (victim, Some (GoDBError DeadlockError)) # ds \<and> waiting_for lm' victim = None"
      using cycle_pass_steps [OF c(4)] v w unfolding woken_def by (intro exI [of _ ?v]) auto
    show "\<not> acyclic (wait_edges g)" using v by (auto simp: acyclic_def)
  qed
  moreover have "lm' = lm" if "\<not> found" using cycle_pass_first [OF p(1) _ irr] that by auto
  moreover have "lock_reach lm'" using cycle_pass_steps [OF p(1)] reach by simp
  ultimately show ?thesis using run by (cases found) auto
qed

text \<open>Two transactions hold a table each and then ask for the table of the other one.\<close>

definition demo_deadlock :: "LockManager res" where
  "demo_deadlock =
     bindR (Lock NewLockManager 1 (NewTableLockTag 1) LockModeX) (\<lambda>(_, lm).
     bindR (Lock lm 2 (NewTableLockTag 2) LockModeX) (\<lambda>(_, lm).
     bindR (Lock lm 1 (NewTableLockTag 2) LockModeX) (\<lambda>(_, lm).
     bindR (Lock lm 2 (NewTableLockTag 1) LockModeX) (\<lambda>(_, lm). Inr lm))))"

lemma demo_deadlock_reach:
  obtains lm where "demo_deadlock = Inr lm" "lock_reach lm" "snapshot_of [(1, [2]), (2, [1])] (waitGraph lm)" "delivered lm = []"
proof -
  let ?A = "NewTableLockTag 1" and ?B = "NewTableLockTag 2"
  note s = Lock_def loadOrStoreTCB_def loadOrStoreLCB_def lock_request_def covered_by_hold_def held_mode_def newLCB_def isLockModeCompatible_def
      set_tcb_def set_lcb_def delInactiveTCB_def newTCB_def waiting_for_def NewTableLockTag_def NewLockManager_def Let_def edge_inc_def
  obtain lm1 where 1: "Lock NewLockManager 1 ?A LockModeX = Inr (Granted, lm1)"
    "lm1 = NewLockManager\<lparr>txnRegistry := [1 \<mapsto> newTCB\<lparr>lockCount := 1\<rparr>], lockRegistry := [?A \<mapsto> \<lparr>holders = [(1, LockModeX)], waiters = []\<rparr>]\<rparr>"
    by (simp add: s)
  obtain lm2 where 2: "Lock lm1 2 ?B LockModeX = Inr (Granted, lm2)"
    "txnRegistry lm2 = [1 \<mapsto> newTCB\<lparr>lockCount := 1\<rparr>, 2 \<mapsto> newTCB\<lparr>lockCount := 1\<rparr>]"
    "lockRegistry lm2 = [?A \<mapsto> \<lparr>holders = [(1, LockModeX)], waiters = []\<rparr>, ?B \<mapsto> \<lparr>holders = [(2, LockModeX)], waiters = []\<rparr>]"
    "waitGraph lm2 = Map.empty" "delivered lm2 = []"
    by (simp add: 1(2) s)
  obtain lm3 where 3: "Lock lm2 1 ?B LockModeX = Inr (Blocked, lm3)" "txnRegistry lm3 2 = Some (newTCB\<lparr>lockCount := 1\<rparr>)"
    "lockRegistry lm3 ?A = Some \<lparr>holders = [(1, LockModeX)], waiters = []\<rparr>" "waitGraph lm3 = [1 \<mapsto> [2 \<mapsto> 1]]" "delivered lm3 = []"
    using 2 by (simp add: s)
  obtain lm4 where 4: "Lock lm3 2 ?A LockModeX = Inr (Blocked, lm4)" "waitGraph lm4 = [1 \<mapsto> [2 \<mapsto> 1], 2 \<mapsto> [1 \<mapsto> 1]]" "delivered lm4 = []"
    using 3 by (simp add: s)
  have "lock_reach lm1" by (rule lr_step [OF lr_start ls_lock [OF _ _ 1(1)]]) (simp_all add: NewLockManager_def waiting_for_def)
  then have "lock_reach lm2" by (rule lr_step [OF _ ls_lock [OF _ _ 2(1)]]) (simp_all add: 1(2) NewLockManager_def waiting_for_def)
  then have "lock_reach lm3" by (rule lr_step [OF _ ls_lock [OF _ _ 3(1)]]) (simp_all add: 2 waiting_for_def newTCB_def)
  then have "lock_reach lm4" by (rule lr_step [OF _ ls_lock [OF _ _ 4(1)]]) (simp_all add: 3 waiting_for_def newTCB_def)
  moreover have "snapshot_of [(1, [2]), (2, [1])] (waitGraph lm4)" by (auto simp: snapshot_of_def 4(2))
  ultimately show thesis using that 1(1) 2(1) 3(1) 4 by (simp add: demo_deadlock_def)
qed

theorem deadlock_detector_complete_witness:
  "\<exists>lm lm' victim. demo_deadlock = Inr lm \<and> runGlobalDeadlockCheck [(1, [2]), (2, [1])] lm = Some (Inr lm') \<and>
     hd (delivered lm') = (victim, Some (GoDBError DeadlockError)) \<and> waiting_for lm victim \<noteq> None \<and> waiting_for lm' victim = None"
proof -
  let ?g = "[(1, [2]), (2, [1])] :: (TransactionID \<times> TransactionID list) list"
  obtain lm where lm: "demo_deadlock = Inr lm" "lock_reach lm" "snapshot_of ?g (waitGraph lm)" "delivered lm = []" by (rule demo_deadlock_reach)
  have "(1, 2) \<in> wait_edges ?g" "(2, 1) \<in> wait_edges ?g" by (simp_all add: wait_edges_def neighbours_def)
  then have "on_cycle ?g 1" by (meson trancl.simps)
  then have "\<not> acyclic (wait_edges ?g)" by (auto simp: acyclic_def)
  with deadlock_detector_complete [OF lm(2,3)] obtain lm' victim ds where "runGlobalDeadlockCheck ?g lm = Some (Inr lm')"
      "waiting_for lm victim \<noteq> None" "delivered lm' = delivered lm @ (victim, Some (GoDBError DeadlockError)) # ds" "waiting_for lm' victim = None" by auto
  then show ?thesis using lm(1,4) by (intro exI [of _ lm] exI [of _ lm'] exI [of _ victim]) simp
qed

text \<open>Transactions 1 and 2 wait for each other; 3 waits for 1 but is on no cycle.\<close>

definition demo_graph :: "(TransactionID \<times> TransactionID list) list" where
  "demo_graph = [(1, [2]), (2, [1]), (3, [1])]"

text \<open>
  A transaction outside every cycle can be reported.  After a cycle has been found its
  transactions stay marked as on the stack, so a later search that merely reaches one of
  them reports a cycle: with 1 and 2 deadlocked and 3 waiting for 1, the search from 3
  reports 1 and 3, and 3, the larger identifier, is the victim, although no wait edge
  leads to 3.
\<close>

theorem deadlock_detector_spurious_victim:
  "(let st = snd (findAnyCycle demo_graph 4 1 \<lparr>visited = [], onStack = []\<rparr>)
    in fst (findAnyCycle demo_graph 4 3 st) = Some [1, 3] \<and> last (sort [1, 3 :: TransactionID]) = 3) \<and>
   (\<forall>u. (u, 3) \<notin> wait_edges demo_graph)"
proof
  show "let st = snd (findAnyCycle demo_graph 4 1 \<lparr>visited = [], onStack = []\<rparr>)
    in fst (findAnyCycle demo_graph 4 3 st) = Some [1, 3] \<and> last (sort [1, 3 :: TransactionID]) = 3"
    by code_simp
  show "\<forall>u. (u, 3) \<notin> wait_edges demo_graph"
    by (auto simp: wait_edges_def neighbours_def demo_graph_def split: if_splits)
qed

end
