(* ===== verification/Disk_Storage.thy ===== *)
theory Disk_Storage
  imports Common_Types
begin

text \<open>
  Table files on disk (\<^verbatim>\<open>storage/db_file.go\<close>, \<^verbatim>\<open>storage/disk_storage.go\<close>).
  The manager's state is the content of the files, the cached page count of every open
  handle, and the error the operating system returns for calls on a file, if it returns
  one.  A handle is named by the object id of its file.  The locale \<open>paged_files\<close> is
  what the buffer pool relies on: a file is a list of pages.
\<close>

section \<open>The file manager\<close>

record DiskDBFileManager =
  disk :: "ObjectID \<rightharpoonup> byte list"           \<comment> \<open>\<^verbatim>\<open>dbo_<oid>.dat\<close>\<close>
  fileCache :: "ObjectID \<rightharpoonup> 32 word"        \<comment> \<open>open handles, with \<^verbatim>\<open>numPages\<close>\<close>
  os_err :: "ObjectID \<Rightarrow> fault option"

definition NewDiskStorageManager :: "(ObjectID \<rightharpoonup> byte list) \<Rightarrow> DiskDBFileManager" where
  "NewDiskStorageManager files = \<lparr>disk = files, fileCache = Map.empty, os_err = (\<lambda>_. None)\<rparr>"

definition NewDiskDBFile :: "byte list \<Rightarrow> 32 word" where
  "NewDiskDBFile content = of_nat (length content div PageSize)"

text \<open>Opening creates the file if it is not there.\<close>

definition GetDBFile :: "ObjectID \<Rightarrow> DiskDBFileManager \<Rightarrow> unit res \<times> DiskDBFileManager" where
  "GetDBFile oid dsm =
     (if fileCache dsm oid \<noteq> None then (Inr (), dsm)
      else case os_err dsm oid of
             Some e \<Rightarrow> (Inl e, dsm)
           | None \<Rightarrow>
               let content = (case disk dsm oid of None \<Rightarrow> [] | Some c \<Rightarrow> c)
               in (Inr (), dsm\<lparr>disk := (disk dsm)(oid \<mapsto> content),
                               fileCache := (fileCache dsm)(oid \<mapsto> NewDiskDBFile content)\<rparr>))"

definition DeleteDBFile :: "ObjectID \<Rightarrow> DiskDBFileManager \<Rightarrow> unit res \<times> DiskDBFileManager" where
  "DeleteDBFile oid dsm =
     (let dsm1 = dsm\<lparr>fileCache := (fileCache dsm)(oid := None)\<rparr>
      in case os_err dsm oid of
           Some e \<Rightarrow> (Inl e, dsm1)
         | None \<Rightarrow> if disk dsm oid = None then (Inl (OtherError ''remove: no such file''), dsm1)
                   else (Inr (), dsm1\<lparr>disk := (disk dsm)(oid := None)\<rparr>))"

section \<open>Operations on a handle\<close>

definition handle_pages :: "DiskDBFileManager \<Rightarrow> ObjectID \<Rightarrow> 32 word" where
  "handle_pages dsm oid = (case fileCache dsm oid of None \<Rightarrow> 0 | Some n \<Rightarrow> n)"

definition content_of :: "DiskDBFileManager \<Rightarrow> ObjectID \<Rightarrow> byte list" where
  "content_of dsm oid = (case disk dsm oid of None \<Rightarrow> [] | Some c \<Rightarrow> c)"

definition NumPages :: "DiskDBFileManager \<Rightarrow> ObjectID \<Rightarrow> int" where
  "NumPages dsm oid = sint (handle_pages dsm oid)"

text \<open>\<^verbatim>\<open>Truncate\<close> cuts the file or extends it with zeros.\<close>

definition Truncate :: "int \<Rightarrow> byte list \<Rightarrow> byte list" where
  "Truncate n content = take (nat n) content @ replicate (nat n - length content) 0"

definition AllocatePage :: "ObjectID \<Rightarrow> int \<Rightarrow> DiskDBFileManager \<Rightarrow> int res \<times> DiskDBFileManager" where
  "AllocatePage oid n dsm =
     (if \<not> 0 < n then (Inl (Panic ''cannot allocate negative number of pages''), dsm)
      else let currentPages = handle_pages dsm oid;
               newTotalPages = currentPages + of_int n;
               newSizeBytes = sint newTotalPages * int PageSize
           in if newSizeBytes < 0 then (Inl (OtherError ''failed to allocate pages: invalid argument''), dsm)
              else case os_err dsm oid of
                     Some e \<Rightarrow> (Inl e, dsm)
                   | None \<Rightarrow>
                       (Inr (sint currentPages),
                        dsm\<lparr>disk := (disk dsm)(oid \<mapsto> Truncate newSizeBytes (content_of dsm oid)),
                            fileCache := (fileCache dsm)(oid \<mapsto> newTotalPages)\<rparr>))"

text \<open>
  Reading at a negative offset is an error of the operating system, as is a read that
  the file is too short for.
\<close>

definition ReadPage :: "DiskDBFileManager \<Rightarrow> ObjectID \<Rightarrow> int \<Rightarrow> byte list \<Rightarrow> byte list res" where
  "ReadPage dsm oid pageNum frame =
     bindR (Assert (length frame = PageSize) ''buffer numBits must match PageSize'') (\<lambda>_.
     if sint (of_int pageNum :: 32 word) \<ge> sint (handle_pages dsm oid)
     then Inl (OtherError ''read out of bounds: page does not exist'')
     else case os_err dsm oid of
            Some e \<Rightarrow> Inl e
          | None \<Rightarrow>
              let offset = pageNum * int PageSize
              in if offset < 0 \<or> offset + int PageSize > int (length (content_of dsm oid))
                 then Inl (OtherError ''read failed'')
                 else Inr (slice (nat offset) PageSize (content_of dsm oid)))"

text \<open>A write past the end extends the file.\<close>

definition WriteAt :: "nat \<Rightarrow> byte list \<Rightarrow> byte list \<Rightarrow> byte list" where
  "WriteAt off b content =
     take off (content @ replicate (off - length content) 0) @ b @ drop (off + length b) content"

definition WritePage :: "ObjectID \<Rightarrow> int \<Rightarrow> byte list \<Rightarrow> DiskDBFileManager \<Rightarrow> unit res \<times> DiskDBFileManager" where
  "WritePage oid pageNum frame dsm =
     (if length frame \<noteq> PageSize then (Inl (Panic ''buffer numBits must match PageSize''), dsm)
      else if sint (of_int pageNum :: 32 word) \<ge> sint (handle_pages dsm oid)
      then (Inl (OtherError ''write out of bounds: page does not exist''), dsm)
      else case os_err dsm oid of
             Some e \<Rightarrow> (Inl e, dsm)
           | None \<Rightarrow>
               let offset = pageNum * int PageSize
               in if offset < 0 then (Inl (OtherError ''write failed''), dsm)
                  else (Inr (), dsm\<lparr>disk := (disk dsm)(oid \<mapsto> WriteAt (nat offset) frame (content_of dsm oid))\<rparr>))"

section \<open>Files as lists of pages\<close>

definition page_range :: "nat \<Rightarrow> byte list \<Rightarrow> byte list" where
  "page_range i content = slice (i * PageSize) PageSize content"

text \<open>
  A manager is healthy when no call fails and every open handle has counted the pages of
  its file; the contents of a file are then its pages.
\<close>

definition disk_ok :: "DiskDBFileManager \<Rightarrow> bool" where
  "disk_ok dsm \<longleftrightarrow> (\<forall>oid. os_err dsm oid = None) \<and>
     (\<forall>oid c. disk dsm oid = Some c \<longrightarrow> (\<exists>n. length c = n * PageSize \<and> n < 2 ^ 31)) \<and>
     (\<forall>oid n. fileCache dsm oid = Some n \<longrightarrow>
        (\<exists>c. disk dsm oid = Some c \<and> n = of_nat (length c div PageSize)))"

definition file_pages :: "DiskDBFileManager \<Rightarrow> ObjectID \<Rightarrow> byte list list" where
  "file_pages dsm oid =
     map (\<lambda>i. page_range i (content_of dsm oid)) [0..<length (content_of dsm oid) div PageSize]"

definition opened :: "DiskDBFileManager \<Rightarrow> ObjectID \<Rightarrow> bool" where
  "opened dsm oid \<longleftrightarrow> fileCache dsm oid \<noteq> None"

lemma length_file_pages: "length (file_pages dsm oid) = length (content_of dsm oid) div PageSize"
  by (simp add: file_pages_def)

lemma sint_small: "n < 2 ^ 31 \<Longrightarrow> sint (of_nat n :: 32 word) = int n"
  by (simp add: signed_of_nat signed_take_bit_int_eq_self)

lemma not_neg_offset [simp]: "\<not> int i * int n < 0"
  by (simp add: not_less)

lemma disk_ok_content:
  assumes "disk_ok dsm"
  obtains n where "length (content_of dsm oid) = n * PageSize" "n < 2 ^ 31" "length (file_pages dsm oid) = n"
    "opened dsm oid \<Longrightarrow> handle_pages dsm oid = of_nat n"
proof (cases "disk dsm oid")
  case None
  then have "\<not> opened dsm oid" using assms by (fastforce simp: disk_ok_def opened_def)
  then show thesis using None that [of 0] by (simp add: content_of_def length_file_pages)
next
  case (Some c)
  then obtain n where "length c = n * PageSize" "n < 2 ^ 31" using assms unfolding disk_ok_def by metis
  moreover have "handle_pages dsm oid = of_nat n" if "opened dsm oid"
    using that assms Some calculation by (fastforce simp: disk_ok_def opened_def handle_pages_def PageSize_def)
  ultimately show thesis using that [of n] Some by (simp add: content_of_def length_file_pages PageSize_def)
qed

lemma GetDBFile_ok:
  assumes "disk_ok dsm"
  shows "\<exists>dsm'. GetDBFile oid dsm = (Inr (), dsm') \<and> disk_ok dsm' \<and> opened dsm' oid \<and>
    (\<forall>o'. opened dsm o' \<longrightarrow> opened dsm' o') \<and> file_pages dsm' = file_pages dsm"
proof (cases "fileCache dsm oid")
  case (Some n)
  then show ?thesis using assms by (simp add: GetDBFile_def opened_def)
next
  case None
  let ?c = "content_of dsm oid"
  let ?d = "dsm\<lparr>disk := (disk dsm)(oid \<mapsto> ?c), fileCache := (fileCache dsm)(oid \<mapsto> NewDiskDBFile ?c)\<rparr>"
  obtain n where n: "length ?c = n * PageSize" "n < 2 ^ 31" by (rule disk_ok_content [OF assms])
  have "GetDBFile oid dsm = (Inr (), ?d)"
    using assms None by (simp add: GetDBFile_def content_of_def disk_ok_def Let_def)
  moreover have "disk_ok ?d" using assms n by (auto simp: disk_ok_def NewDiskDBFile_def)
  moreover have "content_of ?d = content_of dsm" by (auto simp: content_of_def)
  ultimately show ?thesis by (simp add: opened_def file_pages_def fun_eq_iff)
qed

lemma ReadPage_ok:
  assumes "disk_ok dsm" "opened dsm oid" "i < length (file_pages dsm oid)" "length frame = PageSize"
  shows "ReadPage dsm oid (int i) frame = Inr (file_pages dsm oid ! i)"
proof -
  obtain n where n: "length (content_of dsm oid) = n * PageSize" "n < 2 ^ 31" "length (file_pages dsm oid) = n"
      "handle_pages dsm oid = of_nat n"
    using disk_ok_content [OF assms(1), of oid] assms(2) by metis
  have "int i * int PageSize + int PageSize \<le> int (n * PageSize)"
    using assms(3) n(3) by (simp add: PageSize_def)
  then show ?thesis
    using assms n sint_small [of i] sint_small [of n]
    by (simp add: ReadPage_def disk_ok_def page_range_def file_pages_def nat_mult_distrib Let_def)
qed

lemma page_range_WriteAt:
  assumes "length content = n * PageSize" "i < n" "length b = PageSize" "j < n"
  shows "page_range j (WriteAt (i * PageSize) b content) = (if j = i then b else page_range j content)"
    and "length (WriteAt (i * PageSize) b content) = length content"
proof -
  have fit: "i * PageSize + PageSize \<le> length content" "j * PageSize + PageSize \<le> length content"
    using mult_le_mono1 [of "Suc i" n PageSize] mult_le_mono1 [of "Suc j" n PageSize] assms by auto
  then have w: "WriteAt (i * PageSize) b content = put_at (i * PageSize) b content"
    using assms(3) by (simp add: WriteAt_def put_at_def)
  show "length (WriteAt (i * PageSize) b content) = length content"
    unfolding w using assms fit by simp
  have "j < i \<Longrightarrow> j * PageSize + PageSize \<le> i * PageSize" "i < j \<Longrightarrow> i * PageSize + PageSize \<le> j * PageSize"
    using mult_le_mono1 [of "Suc j" i PageSize] mult_le_mono1 [of "Suc i" j PageSize] by auto
  then show "page_range j (WriteAt (i * PageSize) b content) = (if j = i then b else page_range j content)"
    unfolding w page_range_def using assms(3) fit
    by (cases "j = i") (auto simp: slice_put_at_other nat_neq_iff)
qed

lemma opened_content: "disk_ok dsm \<Longrightarrow> opened dsm oid \<Longrightarrow> disk dsm oid = Some (content_of dsm oid)"
  by (fastforce simp: disk_ok_def opened_def content_of_def)

lemma disk_ok_same_length:
  assumes "disk_ok dsm" "disk dsm oid = Some c" "length c' = length c"
  shows "disk_ok (dsm\<lparr>disk := (disk dsm)(oid \<mapsto> c')\<rparr>)"
proof -
  have "\<exists>n. length c' = n * PageSize \<and> n < 2 ^ 31" using assms unfolding disk_ok_def by metis
  moreover have "n = of_nat (length c' div PageSize)" if "fileCache dsm oid = Some n" for n
    using assms that unfolding disk_ok_def by (metis option.inject)
  ultimately show ?thesis using assms(1) by (auto simp: disk_ok_def)
qed

lemma disk_ok_resize:
  assumes "disk_ok dsm" "length c = n * PageSize" "n < 2 ^ 31" "m = of_nat n"
  shows "disk_ok (dsm\<lparr>disk := (disk dsm)(oid \<mapsto> c), fileCache := (fileCache dsm)(oid \<mapsto> m)\<rparr>)"
proof -
  have "length c div PageSize = n" using assms(2) by (simp add: PageSize_def)
  then show ?thesis using assms by (auto simp: disk_ok_def)
qed

lemma WritePage_ok:
  assumes "disk_ok dsm" "opened dsm oid" "i < length (file_pages dsm oid)" "length frame = PageSize"
  shows "\<exists>dsm'. WritePage oid (int i) frame dsm = (Inr (), dsm') \<and> disk_ok dsm' \<and> opened dsm' = opened dsm \<and>
    file_pages dsm' = (file_pages dsm)(oid := (file_pages dsm oid)[i := frame])"
proof -
  let ?c = "content_of dsm oid"
  obtain n where n: "length ?c = n * PageSize" "n < 2 ^ 31" "length (file_pages dsm oid) = n"
      "handle_pages dsm oid = of_nat n"
    using disk_ok_content [OF assms(1), of oid] assms(2) by metis
  have i: "i < n" using assms(3) n(3) by simp
  let ?c' = "WriteAt (i * PageSize) frame ?c" and ?d = "dsm\<lparr>disk := (disk dsm)(oid \<mapsto> WriteAt (i * PageSize) frame ?c)\<rparr>"
  note w = page_range_WriteAt [OF n(1) i assms(4)]
  have "WritePage oid (int i) frame dsm = (Inr (), ?d)"
    using assms n sint_small [of i] sint_small [of n] i
    by (simp add: WritePage_def disk_ok_def nat_mult_distrib Let_def)
  moreover have "disk_ok ?d"
    by (rule disk_ok_same_length [OF assms(1)])
      (use opened_content [OF assms(1,2)] w(2) [OF i] in simp_all)
  moreover have "file_pages ?d o' = ((file_pages dsm)(oid := (file_pages dsm oid)[i := frame])) o'" for o'
  proof (cases "o' = oid")
    case True
    have c: "content_of ?d oid = ?c'" and p: "PageSize \<noteq> 0" by (simp_all add: content_of_def PageSize_def)
    have "file_pages ?d oid = (file_pages dsm oid)[i := frame]"
      by (rule nth_equalityI)
        (use n i w(2) [OF i] p in \<open>auto simp: c nth_list_update file_pages_def w(1)\<close>)
    then show ?thesis using True by simp
  next
    case False
    then show ?thesis by (simp add: file_pages_def content_of_def)
  qed
  ultimately show ?thesis by (auto simp: opened_def fun_eq_iff)
qed

lemma AllocatePage_ok:
  assumes "disk_ok dsm" "opened dsm oid" "0 < k" "length (file_pages dsm oid) + k < 2 ^ 31"
  shows "\<exists>dsm'. AllocatePage oid (int k) dsm = (Inr (int (length (file_pages dsm oid))), dsm') \<and> disk_ok dsm' \<and>
    opened dsm' = opened dsm \<and>
    file_pages dsm' = (file_pages dsm)(oid := file_pages dsm oid @ replicate k (replicate PageSize 0))"
proof -
  let ?c = "content_of dsm oid"
  obtain n where n: "length ?c = n * PageSize" "n < 2 ^ 31" "length (file_pages dsm oid) = n"
      "handle_pages dsm oid = of_nat n"
    using disk_ok_content [OF assms(1), of oid] assms(2) by metis
  let ?c' = "?c @ replicate (k * PageSize) 0"
  let ?d = "dsm\<lparr>disk := (disk dsm)(oid \<mapsto> ?c'), fileCache := (fileCache dsm)(oid \<mapsto> of_nat n + of_nat k)\<rparr>"
  have s: "sint (of_nat n + of_nat k :: 32 word) = int (n + k)"
    using sint_small [of "n + k"] assms(4) n(3) by simp
  have "nat (int (n + k) * int PageSize) = (n + k) * PageSize" by (metis nat_int of_nat_mult)
  then have t: "Truncate (int (n + k) * int PageSize) ?c = ?c'"
    using n(1) by (simp add: Truncate_def distrib_right)
  have "AllocatePage oid (int k) dsm = (Inr (int n), ?d)"
    using assms n sint_small [of n] s t
    by (simp add: AllocatePage_def disk_ok_def Let_def del: of_nat_add)
  moreover have "disk_ok ?d"
    by (rule disk_ok_resize [OF assms(1), of _ "n + k"]) (use assms(4) n in \<open>simp_all add: distrib_right\<close>)
  moreover have "file_pages ?d o' =
      ((file_pages dsm)(oid := file_pages dsm oid @ replicate k (replicate PageSize 0))) o'" for o'
  proof (cases "o' = oid")
    case True
    have c: "content_of ?d oid = ?c'" by (simp add: content_of_def)
    have len: "length ?c' div PageSize = n + k" using n(1) by (simp add: PageSize_def)
    have "page_range i ?c' = (if i < n then page_range i ?c else replicate PageSize 0)" if "i < n + k" for i
    proof (cases "i < n")
      case True
      then show ?thesis
        using n(1) mult_le_mono1 [of "Suc i" n PageSize] by (simp add: page_range_def slice_def)
    next
      case False
      then have "i * PageSize + PageSize - n * PageSize \<le> k * PageSize"
        using that mult_le_mono1 [of "Suc i" "n + k" PageSize] by (simp add: distrib_right)
      then show ?thesis
        using n(1) False mult_le_mono1 [of n i PageSize] by (simp add: page_range_def slice_def min_def)
    qed
    then have "file_pages ?d oid = map (\<lambda>i. if i < n then page_range i ?c else replicate PageSize 0) [0..<n + k]"
      unfolding file_pages_def c len by simp
    also have "\<dots> = file_pages dsm oid @ replicate k (replicate PageSize 0)"
    proof -
      have "length ?c div PageSize = n" using n(1) by (simp add: PageSize_def)
      then show ?thesis
        by (intro nth_equalityI) (simp_all add: file_pages_def nth_append)
    qed
    finally have "file_pages ?d oid = file_pages dsm oid @ replicate k (replicate PageSize 0)" .
    then show ?thesis using True by simp
  next
    case False
    then show ?thesis by (simp add: file_pages_def content_of_def)
  qed
  ultimately show ?thesis using n(3) assms(2) by (auto simp: opened_def fun_eq_iff)
qed

lemma page_out_of_bounds:
  assumes "disk_ok dsm" "opened dsm oid" "\<not> pn < int (length (file_pages dsm oid))" "pn < 2 ^ 31"
    "length frame = PageSize"
  shows "ReadPage dsm oid pn frame = Inl (OtherError ''read out of bounds: page does not exist'')"
    and "WritePage oid pn frame dsm = (Inl (OtherError ''write out of bounds: page does not exist''), dsm)"
proof -
  obtain n where n: "length (content_of dsm oid) = n * PageSize" "n < 2 ^ 31" "length (file_pages dsm oid) = n"
      "handle_pages dsm oid = of_nat n"
    using disk_ok_content [OF assms(1), of oid] assms(2) by metis
  obtain i where i: "pn = int i" "n \<le> i" using assms(3) n(3) by (metis nat_int of_nat_0_le_iff of_nat_le_iff not_less nonneg_int_cases order_trans)
  then have "sint (of_int pn :: 32 word) = pn" using sint_small [of i] assms(4) by simp
  then show "ReadPage dsm oid pn frame = Inl (OtherError ''read out of bounds: page does not exist'')"
    "WritePage oid pn frame dsm = (Inl (OtherError ''write out of bounds: page does not exist''), dsm)"
    using assms(5) n i sint_small [of n] by (simp_all add: ReadPage_def WritePage_def)
qed

section \<open>The interface the buffer pool uses\<close>

locale paged_files =
  fixes inv :: "'d \<Rightarrow> bool" and pages_of :: "'d \<Rightarrow> ObjectID \<Rightarrow> byte list list"
    and is_open :: "'d \<Rightarrow> ObjectID \<Rightarrow> bool"
    and open_op :: "ObjectID \<Rightarrow> 'd \<Rightarrow> unit res \<times> 'd"
    and read_op :: "'d \<Rightarrow> ObjectID \<Rightarrow> int \<Rightarrow> byte list \<Rightarrow> byte list res"
    and write_op :: "ObjectID \<Rightarrow> int \<Rightarrow> byte list \<Rightarrow> 'd \<Rightarrow> unit res \<times> 'd"
    and alloc_op :: "ObjectID \<Rightarrow> int \<Rightarrow> 'd \<Rightarrow> int res \<times> 'd"
  assumes open_law: "inv d \<Longrightarrow> \<exists>d'. open_op oid d = (Inr (), d') \<and> inv d' \<and> is_open d' oid \<and>
      (\<forall>o'. is_open d o' \<longrightarrow> is_open d' o') \<and> pages_of d' = pages_of d"
    and read_law: "inv d \<Longrightarrow> is_open d oid \<Longrightarrow> i < length (pages_of d oid) \<Longrightarrow> length f = PageSize \<Longrightarrow>
      read_op d oid (int i) f = Inr (pages_of d oid ! i)"
    and write_law: "inv d \<Longrightarrow> is_open d oid \<Longrightarrow> i < length (pages_of d oid) \<Longrightarrow> length f = PageSize \<Longrightarrow>
      \<exists>d'. write_op oid (int i) f d = (Inr (), d') \<and> inv d' \<and> is_open d' = is_open d \<and>
        pages_of d' = (pages_of d)(oid := (pages_of d oid)[i := f])"
    and alloc_law: "inv d \<Longrightarrow> is_open d oid \<Longrightarrow> 0 < k \<Longrightarrow> length (pages_of d oid) + k < 2 ^ 31 \<Longrightarrow>
      \<exists>d'. alloc_op oid (int k) d = (Inr (int (length (pages_of d oid))), d') \<and> inv d' \<and> is_open d' = is_open d \<and>
        pages_of d' = (pages_of d)(oid := pages_of d oid @ replicate k (replicate PageSize 0))"
begin

lemma read_after_write:
  assumes "inv d" "is_open d oid" "i < length (pages_of d oid)" "length f = PageSize"
  obtains d' where "write_op oid (int i) f d = (Inr (), d')" "inv d'" "read_op d' oid (int i) g = Inr f \<or> length g \<noteq> PageSize"
proof -
  obtain d' where d: "write_op oid (int i) f d = (Inr (), d')" "inv d'" "is_open d' = is_open d"
      "pages_of d' = (pages_of d)(oid := (pages_of d oid)[i := f])"
    using write_law [OF assms] by blast
  have "read_op d' oid (int i) g = Inr f" if "length g = PageSize"
    using read_law [of d' oid i g] d assms that by simp
  then show thesis using that d by blast
qed

lemma fresh_page_is_zero:
  assumes "inv d" "is_open d oid" "length (pages_of d oid) + 1 < 2 ^ 31" "length g = PageSize"
  obtains d' where "alloc_op oid (int 1) d = (Inr (int (length (pages_of d oid))), d')" "inv d'" "is_open d' oid"
    "read_op d' oid (int (length (pages_of d oid))) g = Inr (replicate PageSize 0)"
proof -
  obtain d' where d: "alloc_op oid (int 1) d = (Inr (int (length (pages_of d oid))), d')" "inv d'" "is_open d' = is_open d"
      "pages_of d' = (pages_of d)(oid := pages_of d oid @ replicate 1 (replicate PageSize 0))"
    using alloc_law [OF assms(1,2), of 1] assms(3) by auto
  then have "read_op d' oid (int (length (pages_of d oid))) g = Inr (replicate PageSize 0)"
    using read_law [of d' oid "length (pages_of d oid)" g] assms by simp
  then show thesis using that d assms(2) by simp
qed

end

interpretation dsm: paged_files disk_ok file_pages opened GetDBFile ReadPage WritePage AllocatePage
  by unfold_locales (simp_all only: GetDBFile_ok ReadPage_ok WritePage_ok AllocatePage_ok)

section \<open>Properties of the table files\<close>

text \<open>
  C36: A table file is an array of pages.  On a healthy manager with an open file, reading
  page \<open>i\<close> returns it; writing replaces that page, leaves the others and the length of the
  file; allocating appends zeroed pages and returns the index of the first; and a page
  number at or past the end is an error for reads and writes, with nothing changed.
\<close>

theorem table_file_is_page_array:
  assumes "disk_ok dsm" "opened dsm oid" "length frame = PageSize" "i < 2 ^ 31"
    "0 < k" "length (file_pages dsm oid) + k < 2 ^ 31"
  shows "(if i < length (file_pages dsm oid)
      then ReadPage dsm oid (int i) frame = Inr (file_pages dsm oid ! i) \<and>
        (\<exists>dsm'. WritePage oid (int i) frame dsm = (Inr (), dsm') \<and> disk_ok dsm' \<and>
           file_pages dsm' = (file_pages dsm)(oid := (file_pages dsm oid)[i := frame]))
      else (\<exists>e. ReadPage dsm oid (int i) frame = Inl e) \<and> (\<exists>e. WritePage oid (int i) frame dsm = (Inl e, dsm))) \<and>
    (\<exists>dsm'. AllocatePage oid (int k) dsm = (Inr (int (length (file_pages dsm oid))), dsm') \<and> disk_ok dsm' \<and>
       file_pages dsm' = (file_pages dsm)(oid := file_pages dsm oid @ replicate k (replicate PageSize 0)))"
proof -
  have "\<exists>dsm'. AllocatePage oid (int k) dsm = (Inr (int (length (file_pages dsm oid))), dsm') \<and> disk_ok dsm' \<and>
       file_pages dsm' = (file_pages dsm)(oid := file_pages dsm oid @ replicate k (replicate PageSize 0))"
    using AllocatePage_ok [OF assms(1,2,5,6)] by blast
  moreover have "i < length (file_pages dsm oid) \<Longrightarrow> \<exists>dsm'. WritePage oid (int i) frame dsm = (Inr (), dsm') \<and> disk_ok dsm' \<and>
           file_pages dsm' = (file_pages dsm)(oid := (file_pages dsm oid)[i := frame])"
    using WritePage_ok [OF assms(1,2) _ assms(3)] by blast
  ultimately show ?thesis
    using ReadPage_ok [OF assms(1,2) _ assms(3), of i] page_out_of_bounds [OF assms(1,2) _ _ assms(3), of "int i"] assms(4)
    by auto
qed

definition demo_files :: DiskDBFileManager where
  "demo_files = \<lparr>disk = [1 \<mapsto> replicate PageSize 7], fileCache = [1 \<mapsto> 1], os_err = (\<lambda>_. None)\<rparr>"

lemma demo_files_ok: "disk_ok demo_files" "opened demo_files 1" "length (file_pages demo_files 1) = 1"
proof -
  have "length (replicate PageSize 7) = 1 * PageSize" "(1::nat) < 2 ^ 31" "(1 :: 32 word) = of_nat 1" by simp_all
  then show "disk_ok demo_files"
    unfolding disk_ok_def demo_files_def by (auto simp: PageSize_def)
qed (simp_all add: demo_files_def opened_def length_file_pages content_of_def PageSize_def)

lemma table_file_is_page_array_witness:
  "\<exists>dsm'. AllocatePage 1 2 demo_files = (Inr 1, dsm') \<and> disk_ok dsm' \<and> length (file_pages dsm' 1) = 3"
  using table_file_is_page_array [OF demo_files_ok(1,2), of "replicate PageSize 0" 0 2] demo_files_ok(3)
  by auto

end
