(* ===== verification/Tuples.thy ===== *)
theory Tuples
  imports Common_Types
begin

text \<open>
  \<^verbatim>\<open>storage/tuple.go\<close>: the physical row layout (\<open>RawTupleDesc\<close>) and the logical
  tuple that joins stored columns with computed ones.  The theorems say that the layout
  gives each column its own bytes, and that materialising or merging tuples keeps every
  column value.
\<close>

section \<open>Row descriptors\<close>

type_synonym RawTuple = "byte list"

record RawTupleDesc =
  rd_fields :: "gtype list"
  rd_offsets :: "nat list"
  rd_bytes :: nat

definition RawTupleDesc_NumColumns :: "RawTupleDesc \<Rightarrow> nat" where
  "RawTupleDesc_NumColumns d = length (rd_fields d)"

definition BytesPerTuple :: "RawTupleDesc \<Rightarrow> nat" where
  "BytesPerTuple d = rd_bytes d"

definition nth_checked :: "'a list \<Rightarrow> nat \<Rightarrow> 'a res" where
  "nth_checked xs i = (if i < length xs then Inr (xs ! i) else Inl (Panic ''index out of range''))"

definition from_checked :: "nat \<Rightarrow> 'a list \<Rightarrow> 'a list res" where
  "from_checked off t =
     (if off \<le> length t then Inr (drop off t) else Inl (Panic ''slice bounds out of range''))"

definition GetFieldType :: "RawTupleDesc \<Rightarrow> nat \<Rightarrow> gtype res" where
  "GetFieldType d i = nth_checked (rd_fields d) i"

definition GetFieldOffset :: "RawTupleDesc \<Rightarrow> nat \<Rightarrow> nat res" where
  "GetFieldOffset d i = nth_checked (rd_offsets d) i"

definition RawTupleDesc_GetValue :: "RawTupleDesc \<Rightarrow> RawTuple \<Rightarrow> nat \<Rightarrow> Value res" where
  "RawTupleDesc_GetValue d t i =
     bindR (nth_checked (rd_fields d) i) (\<lambda>ty.
     bindR (nth_checked (rd_offsets d) i) (\<lambda>off.
     bindR (from_checked off t) (AsValue ty)))"

definition RawTupleDesc_SetValue :: "RawTupleDesc \<Rightarrow> RawTuple \<Rightarrow> nat \<Rightarrow> Value \<Rightarrow> RawTuple res" where
  "RawTupleDesc_SetValue d t i v =
     bindR (nth_checked (rd_fields d) i) (\<lambda>ty.
     bindR (Assert (val_t v = ty) ''type mismatch'') (\<lambda>_.
     bindR (nth_checked (rd_offsets d) i) (\<lambda>off.
     bindR (from_checked off t) (\<lambda>sub.
     bindR (Value_WriteTo v sub) (\<lambda>sub'. Inr (take off t @ sub'))))))"

fun layout_loop :: "gtype list \<Rightarrow> nat \<Rightarrow> (nat list \<times> nat) res" where
  "layout_loop [] sz = Inr ([], sz)"
| "layout_loop (f # fs) sz =
     bindR (case f of
              IntType \<Rightarrow> Inr (sz + IntSize)
            | StringType \<Rightarrow> Inr (sz + StringLength)
            | DefaultType \<Rightarrow> Inl (Panic ''unknown field type''))
       (\<lambda>sz'. bindR (layout_loop fs sz') (\<lambda>(offs, total). Inr (sz # offs, total)))"

definition NewRawTupleDesc :: "gtype list \<Rightarrow> RawTupleDesc res" where
  "NewRawTupleDesc flds =
     bindR (layout_loop flds 0) (\<lambda>(offs, sz).
     bindR (Assert (AlignedTo8 (int sz))
              ''tuple numBits should always be aligned to 8 bytes in our system'') (\<lambda>_.
     bindR (Assert (sz \<le> PageSize - 32) ''tuple numBits should never exceed page numBits'') (\<lambda>_.
     Inr \<lparr>rd_fields = flds, rd_offsets = offs, rd_bytes = sz\<rparr>)))"

section \<open>Tuples\<close>

text \<open>
  A nil slice of extra values is \<open>None\<close>: \<^verbatim>\<open>MergeTuples\<close> tells it apart from an
  empty one.
\<close>

record Tuple =
  tp_raw :: RawTuple
  tp_desc :: "RawTupleDesc option"
  tp_extra :: "Value list option"
  tp_rid :: RecordID

definition extra_list :: "Tuple \<Rightarrow> Value list" where
  "extra_list t = (case tp_extra t of None \<Rightarrow> [] | Some vs \<Rightarrow> vs)"

definition FromRawTuple :: "RawTuple \<Rightarrow> RawTupleDesc \<Rightarrow> RecordID \<Rightarrow> Tuple" where
  "FromRawTuple raw d rid = \<lparr>tp_raw = raw, tp_desc = Some d, tp_extra = None, tp_rid = rid\<rparr>"

definition FromValues :: "Value list option \<Rightarrow> Tuple" where
  "FromValues vs = \<lparr>tp_raw = [], tp_desc = None, tp_extra = vs, tp_rid = zeroRID\<rparr>"

definition EmptyTuple :: Tuple where
  "EmptyTuple = FromValues None"

text \<open>\<^verbatim>\<open>append\<close> of nothing to a nil slice stays nil.\<close>

definition Extend :: "Tuple \<Rightarrow> Value list \<Rightarrow> Tuple" where
  "Extend t newValues =
     t\<lparr>tp_extra := (case tp_extra t of
          None \<Rightarrow> if newValues = [] then None else Some newValues
        | Some vs \<Rightarrow> Some (vs @ newValues))\<rparr>"

definition Tuple_IsNil :: "Tuple \<Rightarrow> bool" where
  "Tuple_IsNil t \<longleftrightarrow> tp_desc t = None \<and> tp_extra t = None"

definition physCols :: "Tuple \<Rightarrow> nat" where
  "physCols t = (case tp_desc t of None \<Rightarrow> 0 | Some d \<Rightarrow> RawTupleDesc_NumColumns d)"

definition NumColumns :: "Tuple \<Rightarrow> nat" where
  "NumColumns t = (case tp_desc t of
     None \<Rightarrow> length (extra_list t)
   | Some d \<Rightarrow> length (extra_list t) + RawTupleDesc_NumColumns d)"

definition Tuple_GetValue :: "Tuple \<Rightarrow> nat \<Rightarrow> Value res" where
  "Tuple_GetValue t i =
     (case tp_desc t of
        Some d \<Rightarrow> (if i < RawTupleDesc_NumColumns d then RawTupleDesc_GetValue d (tp_raw t) i
                   else nth_checked (extra_list t) (i - RawTupleDesc_NumColumns d))
      | None \<Rightarrow> nth_checked (extra_list t) i)"

text \<open>The loop of \<^verbatim>\<open>WriteToBuffer\<close> over the computed columns \<open>i, i+1, \<dots>\<close>.\<close>

fun write_values :: "RawTupleDesc \<Rightarrow> nat \<Rightarrow> Value list \<Rightarrow> RawTuple \<Rightarrow> RawTuple res" where
  "write_values d i [] buf = Inr buf"
| "write_values d i (v # vs) buf =
     bindR (RawTupleDesc_SetValue d buf i v) (write_values d (Suc i) vs)"

definition WriteToBuffer :: "Tuple \<Rightarrow> RawTuple \<Rightarrow> RawTupleDesc \<Rightarrow> Tuple res" where
  "WriteToBuffer t buf d =
     bindR (Assert (length buf \<ge> BytesPerTuple d) ''buffer too small'') (\<lambda>_.
     bindR (Assert (NumColumns t = RawTupleDesc_NumColumns d) ''tuple descriptor mismatch'') (\<lambda>_.
     let (n, buf1) = (case tp_desc t of
            None \<Rightarrow> (0, buf)
          | Some rd \<Rightarrow> (RawTupleDesc_NumColumns rd, go_copy buf (tp_raw t)))
     in bindR (write_values d n (extra_list t) buf1) (\<lambda>buf2.
        Inr (FromRawTuple buf2 d (tp_rid t)))))"

definition get_values :: "Tuple \<Rightarrow> Value list res" where
  "get_values t = mapR (Tuple_GetValue t) [0..<NumColumns t]"

definition MergeTuples :: "RawTuple \<Rightarrow> RawTupleDesc \<Rightarrow> Tuple \<Rightarrow> Tuple \<Rightarrow> Tuple res" where
  "MergeTuples buf d left right =
     bindR (Assert (length buf \<ge> BytesPerTuple d) ''buffer too small'') (\<lambda>_.
     bindR (Assert (NumColumns left + NumColumns right = RawTupleDesc_NumColumns d)
              ''tuple descriptor mismatch'') (\<lambda>_.
     bindR (if tp_extra left = None \<and> tp_extra right = None then
              (let b1 = go_copy buf (tp_raw left)
               in bindR (from_checked (length (tp_raw left)) b1) (\<lambda>sub.
                  Inr (take (length (tp_raw left)) b1 @ go_copy sub (tp_raw right))))
            else
              bindR (get_values left) (\<lambda>lvs.
              bindR (write_values d 0 lvs buf) (\<lambda>b1.
              bindR (get_values right) (\<lambda>rvs.
              write_values d (NumColumns left) rvs b1))))
       (\<lambda>b. Inr (FromRawTuple b d zeroRID))))"

definition DeepCopy :: "Tuple \<Rightarrow> RawTupleDesc \<Rightarrow> Tuple res" where
  "DeepCopy t d =
     bindR (Assert (NumColumns t = RawTupleDesc_NumColumns d) ''tuple descriptor mismatch'') (\<lambda>_.
     bindR (WriteToBuffer t (replicate (BytesPerTuple d) 0) d) (\<lambda>w.
     Inr (FromRawTuple (tp_raw w) d (tp_rid t))))"

fun equals_loop :: "Tuple \<Rightarrow> Tuple \<Rightarrow> nat list \<Rightarrow> bool res" where
  "equals_loop t u [] = Inr True"
| "equals_loop t u (i # is) =
     bindR (Tuple_GetValue t i) (\<lambda>v1.
     bindR (Tuple_GetValue u i) (\<lambda>v2.
     if val_t v1 \<noteq> val_t v2 then Inr False
     else bindR (Value_Compare v1 v2) (\<lambda>c. if c \<noteq> 0 then Inr False else equals_loop t u is)))"

definition Tuple_Equals :: "Tuple \<Rightarrow> Tuple \<Rightarrow> bool res" where
  "Tuple_Equals t u =
     (if NumColumns t \<noteq> NumColumns u then Inr False else equals_loop t u [0..<NumColumns t])"

fun compare_loop :: "Tuple \<Rightarrow> Tuple \<Rightarrow> nat list \<Rightarrow> int res" where
  "compare_loop t u [] = Inr 0"
| "compare_loop t u (i # is) =
     bindR (Tuple_GetValue t i) (\<lambda>v1.
     bindR (Tuple_GetValue u i) (\<lambda>v2.
     bindR (Value_Compare v1 v2) (\<lambda>c. if c \<noteq> 0 then Inr c else compare_loop t u is)))"

definition Tuple_Compare :: "Tuple \<Rightarrow> Tuple \<Rightarrow> int res" where
  "Tuple_Compare t u =
     (let n1 = NumColumns t; n2 = NumColumns u; minLen = (if n1 > n2 then n2 else n1)
      in bindR (compare_loop t u [0..<minLen]) (\<lambda>c.
         if c \<noteq> 0 then Inr c
         else if n1 < n2 then Inr (- 1)
         else if n1 > n2 then Inr 1
         else Inr 0))"

section \<open>The layout of a row\<close>

definition total_size :: "gtype list \<Rightarrow> nat" where
  "total_size fs = sum_list (map type_size fs)"

definition wf_desc :: "RawTupleDesc \<Rightarrow> bool" where
  "wf_desc d \<longleftrightarrow> DefaultType \<notin> set (rd_fields d) \<and> rd_bytes d = total_size (rd_fields d) \<and>
     rd_offsets d = map (\<lambda>i. total_size (take i (rd_fields d))) [0..<length (rd_fields d)]"

lemma wf_desc_type: "wf_desc d \<Longrightarrow> i < length (rd_fields d) \<Longrightarrow> rd_fields d ! i \<noteq> DefaultType"
  by (metis nth_mem wf_desc_def)

lemma total_size_append [simp]: "total_size (xs @ ys) = total_size xs + total_size ys"
  by (simp add: total_size_def)

lemma total_size_Cons [simp]: "total_size (x # xs) = type_size x + total_size xs"
  by (simp add: total_size_def)

lemma total_size_Nil [simp]: "total_size [] = 0"
  by (simp add: total_size_def)

lemma layout_loop_eq:
  assumes "DefaultType \<notin> set fs"
  shows "layout_loop fs sz =
    Inr (map (\<lambda>i. sz + total_size (take i fs)) [0..<length fs], sz + total_size fs)"
  using assms
proof (induction fs arbitrary: sz)
  case (Cons f fs)
  then have "layout_loop (f # fs) sz =
      Inr (sz # map (\<lambda>i. sz + type_size f + total_size (take i fs)) [0..<length fs],
           sz + type_size f + total_size fs)"
    by (cases f) (auto simp: type_size_def)
  moreover have "[0..<length (f # fs)] = 0 # map Suc [0..<length fs]"
    by (simp add: upt_conv_Cons map_Suc_upt del: upt_Suc)
  ultimately show ?case by (simp add: add.assoc)
qed simp

lemma layout_loop_fails: "DefaultType \<in> set fs \<Longrightarrow> layout_loop fs sz = Inl (Panic ''unknown field type'')"
  by (induction fs arbitrary: sz) (auto split: gtype.splits)

lemma type_size_dvd: "8 dvd type_size t"
  by (cases t) (auto simp: type_size_def size_defs)

lemma total_size_dvd: "8 dvd total_size fs"
  by (induction fs) (auto simp: type_size_dvd)

lemma AlignedTo8_dvd: "8 dvd n \<Longrightarrow> AlignedTo8 (int n)"
  by (auto simp: AlignedTo8_def smod_mod_positive elim!: dvdE)

lemma NewRawTupleDesc_eq:
  assumes "DefaultType \<notin> set fs" "total_size fs \<le> PageSize - 32"
  shows "\<exists>d. NewRawTupleDesc fs = Inr d \<and> wf_desc d \<and> rd_fields d = fs"
  using assms by (simp add: NewRawTupleDesc_def layout_loop_eq AlignedTo8_dvd [OF total_size_dvd] wf_desc_def)

lemma NewRawTupleDesc_wf:
  assumes "NewRawTupleDesc fs = Inr d"
  shows "wf_desc d \<and> rd_fields d = fs \<and> rd_bytes d \<le> PageSize - 32"
proof -
  have "DefaultType \<notin> set fs" using assms layout_loop_fails by (fastforce simp: NewRawTupleDesc_def)
  then show ?thesis using assms
    by (auto simp: NewRawTupleDesc_def layout_loop_eq wf_desc_def Assert_def split: if_splits)
qed

lemma column_fits:
  assumes "i < length fs"
  shows "total_size (take i fs) + type_size (fs ! i) \<le> total_size fs"
proof -
  have "fs = take i fs @ fs ! i # drop (Suc i) fs" using assms by (simp add: id_take_nth_drop)
  then have "total_size fs = total_size (take i fs) + type_size (fs ! i) + total_size (drop (Suc i) fs)"
    by (metis total_size_append total_size_Cons add.assoc)
  then show ?thesis by simp
qed

lemma column_before:
  assumes "i < j" "j \<le> length fs"
  shows "total_size (take i fs) + type_size (fs ! i) \<le> total_size (take j fs)"
proof -
  have "total_size (take i (take j fs)) + type_size (take j fs ! i) \<le> total_size (take j fs)"
    using assms by (intro column_fits) simp
  then show ?thesis using assms by (simp add: min_def)
qed

section \<open>Reading and writing columns\<close>

lemma realLen_loop_append:
  "i + k \<le> length a \<Longrightarrow> realLen_loop (a @ b) i k = realLen_loop a i k"
  by (induction k arbitrary: i) (auto simp: nth_append)

lemma realLen_loop_bound: "realLen_loop s i k \<le> i + k"
proof (induction k arbitrary: i)
  case (Suc k)
  then show ?case using Suc [of "Suc i"] by simp
qed simp

lemma AsValue_append:
  assumes "length a = type_size t" "t \<noteq> DefaultType"
  shows "AsValue t (a @ b) = AsValue t a"
proof (cases t)
  case StringType
  then have "length a = 32" using assms by (simp add: type_size_def StringLength_def)
  then show ?thesis
    using StringType realLen_loop_append [of 0 32 a b] realLen_loop_bound [of a 0 32]
    by (auto simp: AsValue_def slice_checked_def slice_append_left StringLength_def Let_def)
qed (use assms in \<open>auto simp: AsValue_def slice_checked_def slice_append_left type_size_def IntSize_def\<close>)

lemma RawTupleDesc_GetValue_eq:
  assumes "wf_desc d" "i < length (rd_fields d)" "rd_bytes d \<le> length t"
  shows "RawTupleDesc_GetValue d t i =
    AsValue (rd_fields d ! i)
      (slice (total_size (take i (rd_fields d))) (type_size (rd_fields d ! i)) t)"
proof -
  let ?o = "total_size (take i (rd_fields d))" and ?ty = "rd_fields d ! i"
  have f: "?o + type_size ?ty \<le> length t"
    using column_fits [OF assms(2)] assms by (simp add: wf_desc_def)
  then have "drop ?o t = slice ?o (type_size ?ty) t @ drop (?o + type_size ?ty) t"
    by (metis append_take_drop_id drop_drop slice_def add.commute)
  moreover have "?ty \<noteq> DefaultType" by (rule wf_desc_type [OF assms(1,2)])
  ultimately have "AsValue ?ty (drop ?o t) = AsValue ?ty (slice ?o (type_size ?ty) t)"
    using f by (metis AsValue_append length_slice)
  then show ?thesis using assms f
    by (simp add: RawTupleDesc_GetValue_def nth_checked_def from_checked_def wf_desc_def)
qed

lemma RawTupleDesc_GetValue_total:
  assumes "wf_desc d" "i < length (rd_fields d)" "rd_bytes d \<le> length t"
  obtains v where "RawTupleDesc_GetValue d t i = Inr v" "val_t v = rd_fields d ! i" "value_wf v"
proof -
  have f: "total_size (take i (rd_fields d)) + type_size (rd_fields d ! i) \<le> length t"
    using column_fits [OF assms(2)] assms by (simp add: wf_desc_def)
  have nd: "rd_fields d ! i \<noteq> DefaultType" by (rule wf_desc_type [OF assms(1,2)])
  obtain v where "RawTupleDesc_GetValue d t i = Inr v"
    using RawTupleDesc_GetValue_eq [OF assms] AsValue_total [OF nd] f by fastforce
  then show thesis
    using that RawTupleDesc_GetValue_eq [OF assms] AsValue_type AsValue_wf [OF _ nd] by metis
qed

lemma RawTupleDesc_SetValue_eq:
  assumes "wf_desc d" "i < length (rd_fields d)" "rd_bytes d \<le> length t"
    "value_wf v" "val_t v = rd_fields d ! i"
  shows "RawTupleDesc_SetValue d t i v =
    Inr (put_at (total_size (take i (rd_fields d))) (value_bytes v) t)"
proof -
  let ?o = "total_size (take i (rd_fields d))"
  have f: "?o + type_size (val_t v) \<le> length t"
    using column_fits [OF assms(2)] assms by (simp add: wf_desc_def)
  then have "Value_WriteTo v (drop ?o t) = Inr (put_at 0 (value_bytes v) (drop ?o t))"
    using assms by (intro Value_WriteTo_bytes) auto
  then show ?thesis using assms f
    by (simp add: RawTupleDesc_SetValue_def nth_checked_def from_checked_def wf_desc_def put_at_def
        length_value_bytes add.commute)
qed

text \<open>The laws of a row: reading a column gives what was last written there.\<close>

lemma SetValue_GetValue:
  assumes "wf_desc d" "i < length (rd_fields d)" "rd_bytes d \<le> length t"
    "value_wf v" "storable v" "val_t v = rd_fields d ! i"
  obtains t' w where "RawTupleDesc_SetValue d t i v = Inr t'" "length t' = length t"
    "RawTupleDesc_GetValue d t' i = Inr w" "value_eq v w"
    "\<And>j. j < length (rd_fields d) \<Longrightarrow> j \<noteq> i \<Longrightarrow>
       RawTupleDesc_GetValue d t' j = RawTupleDesc_GetValue d t j"
proof -
  let ?fs = "rd_fields d"
  let ?t' = "put_at (total_size (take i ?fs)) (value_bytes v) t"
  have lv: "length (value_bytes v) = type_size (?fs ! i)"
    using assms by (simp add: length_value_bytes)
  have f: "total_size (take i ?fs) + length (value_bytes v) \<le> length t"
    using column_fits [OF assms(2)] assms lv by (simp add: wf_desc_def)
  then have len: "length ?t' = length t" by simp
  have gi: "RawTupleDesc_GetValue d ?t' i = AsValue (val_t v) (value_bytes v)"
    using assms len f lv by (simp add: RawTupleDesc_GetValue_eq)
  obtain w where w: "RawTupleDesc_GetValue d ?t' i = Inr w" "value_eq v w"
    using AsValue_bytes [OF assms(5), of "[]"] gi by auto
  have oth: "RawTupleDesc_GetValue d ?t' j = RawTupleDesc_GetValue d t j"
    if j: "j < length ?fs" "j \<noteq> i" for j
  proof -
    have "total_size (take j ?fs) + type_size (?fs ! j) \<le> total_size (take i ?fs) \<or>
          total_size (take i ?fs) + type_size (?fs ! i) \<le> total_size (take j ?fs)"
      using column_before [of j i ?fs] column_before [of i j ?fs] j assms(2) by (cases "j < i") auto
    moreover have "total_size (take j ?fs) + type_size (?fs ! j) \<le> length t"
      using column_fits [OF j(1)] assms by (simp add: wf_desc_def)
    ultimately show ?thesis using assms j len f lv
      by (simp add: RawTupleDesc_GetValue_eq slice_put_at_other)
  qed
  show thesis
    using that [OF _ len w oth] RawTupleDesc_SetValue_eq [OF assms(1-4,6)] by blast
qed

section \<open>The columns of a tuple\<close>

lemma value_eq_refl [simp]: "value_eq v v"
  by (simp add: value_eq_def)

lemma value_eq_sym: "value_eq v w \<Longrightarrow> value_eq w v"
  by (auto simp: value_eq_def)

lemma value_eq_trans: "value_eq u v \<Longrightarrow> value_eq v w \<Longrightarrow> value_eq u w"
  by (auto simp: value_eq_def)

lemma value_eq_type: "value_eq v w \<Longrightarrow> val_t v = val_t w"
  by (simp add: value_eq_def)

text \<open>
  \<open>tuple_has t vs\<close>: the tuple has exactly the columns \<open>vs\<close>, read one by one
  through \<^verbatim>\<open>GetValue\<close>.  This is the abstract view of a tuple that the operators
  work with.
\<close>

definition tuple_has :: "Tuple \<Rightarrow> Value list \<Rightarrow> bool" where
  "tuple_has t vs \<longleftrightarrow> NumColumns t = length vs \<and>
     (\<forall>i < length vs. \<exists>w. Tuple_GetValue t i = Inr w \<and> value_eq (vs ! i) w)"

definition row_has :: "RawTupleDesc \<Rightarrow> RawTuple \<Rightarrow> nat \<Rightarrow> Value list \<Rightarrow> bool" where
  "row_has d raw k vs \<longleftrightarrow> k + length vs \<le> length (rd_fields d) \<and>
     (\<forall>i < length vs. \<exists>w. RawTupleDesc_GetValue d raw (k + i) = Inr w \<and> value_eq (vs ! i) w)"

text \<open>
  A well-formed tuple: its stored part matches its descriptor, its computed values can
  be stored.
\<close>

definition tuple_ok :: "Tuple \<Rightarrow> bool" where
  "tuple_ok t \<longleftrightarrow>
     (case tp_desc t of None \<Rightarrow> tp_raw t = []
      | Some d \<Rightarrow> wf_desc d \<and> length (tp_raw t) = rd_bytes d) \<and>
     (\<forall>v \<in> set (extra_list t). value_wf v \<and> storable v)"

definition tuple_types :: "Tuple \<Rightarrow> gtype list" where
  "tuple_types t =
     (case tp_desc t of None \<Rightarrow> [] | Some d \<Rightarrow> rd_fields d) @ map val_t (extra_list t)"

lemma NumColumns_types: "NumColumns t = length (tuple_types t)"
  by (auto simp: NumColumns_def tuple_types_def RawTupleDesc_NumColumns_def split: option.splits)

lemma FromRawTuple_has:
  "tuple_has (FromRawTuple raw d rid) vs \<longleftrightarrow> row_has d raw 0 vs \<and> length vs = length (rd_fields d)"
  by (auto simp: tuple_has_def row_has_def FromRawTuple_def NumColumns_def extra_list_def
      RawTupleDesc_NumColumns_def Tuple_GetValue_def)

lemma FromValues_has: "tuple_has (FromValues (Some vs)) vs"
  by (simp add: tuple_has_def FromValues_def NumColumns_def extra_list_def Tuple_GetValue_def
      nth_checked_def)

lemma realLen_loop_nonzero: "i \<le> j \<Longrightarrow> j < realLen_loop s i k \<Longrightarrow> s ! j \<noteq> 0"
proof (induction k arbitrary: i)
  case (Suc k)
  then show ?case using Suc.IH [of "Suc i"] by (cases "i = j") (auto split: if_splits)
qed simp

lemma AsValue_storable:
  assumes "AsValue t s = Inr v" "t \<noteq> DefaultType"
  shows "storable v"
proof (cases t)
  case IntType
  then show ?thesis using assms
    by (auto simp: AsValue_def slice_checked_def Let_def zeroValue_def storable_def split: if_splits)
next
  case StringType
  show ?thesis
  proof (cases "val_null v")
    case False
    let ?r = "realLen_loop s 0 StringLength"
    have "0 \<notin> set (take ?r s)"
      using realLen_loop_nonzero [of 0 _ s StringLength] by (auto simp: in_set_conv_nth)
    moreover have "?r \<le> StringLength" using realLen_loop_bound [of s 0 StringLength] by simp
    moreover have "slice 0 1 s ! 0 = hd (take ?r s)" if "?r \<noteq> 0" "s \<noteq> []"
      using that by (cases s) (auto simp: slice_def)
    ultimately show ?thesis using assms False StringType
      by (auto simp: AsValue_def slice_checked_def Let_def zeroValue_def storable_def Assert_def
          split: if_splits)
  qed (use assms AsValue_type [OF assms(1)] in \<open>auto simp: storable_def split: gtype.splits\<close>)
qed (use assms in simp)

lemma write_values_row:
  assumes "wf_desc d" "rd_bytes d \<le> length buf" "k + length vs \<le> length (rd_fields d)"
    "\<forall>i < length vs. value_wf (vs ! i) \<and> storable (vs ! i) \<and> val_t (vs ! i) = rd_fields d ! (k + i)"
  shows "\<exists>buf'. write_values d k vs buf = Inr buf' \<and> length buf' = length buf \<and>
    row_has d buf' k vs \<and>
    (\<forall>j < length (rd_fields d). j < k \<or> k + length vs \<le> j \<longrightarrow>
       RawTupleDesc_GetValue d buf' j = RawTupleDesc_GetValue d buf j)"
  using assms
proof (induction vs arbitrary: k buf)
  case Nil
  then show ?case by (simp add: row_has_def)
next
  case (Cons v vs)
  have v: "value_wf v" "storable v" "val_t v = rd_fields d ! k"
    and vs: "\<forall>i < length vs. value_wf (vs ! i) \<and> storable (vs ! i) \<and>
      val_t (vs ! i) = rd_fields d ! (Suc k + i)"
    using Cons.prems(4) by (auto simp: nth_Cons split: nat.splits)
  have k: "k < length (rd_fields d)" using Cons.prems(3) by simp
  obtain b1 w where b1: "RawTupleDesc_SetValue d buf k v = Inr b1" "length b1 = length buf"
      "RawTupleDesc_GetValue d b1 k = Inr w" "value_eq v w"
    and o1: "\<And>j. j < length (rd_fields d) \<Longrightarrow> j \<noteq> k \<Longrightarrow>
       RawTupleDesc_GetValue d b1 j = RawTupleDesc_GetValue d buf j"
    using SetValue_GetValue [OF Cons.prems(1) k Cons.prems(2) v] by blast
  obtain b2 where b2: "write_values d (Suc k) vs b1 = Inr b2" "length b2 = length b1"
      "row_has d b2 (Suc k) vs"
    and o2: "\<And>j. j < length (rd_fields d) \<Longrightarrow> j < Suc k \<or> Suc k + length vs \<le> j \<Longrightarrow>
       RawTupleDesc_GetValue d b2 j = RawTupleDesc_GetValue d b1 j"
    using Cons.IH [OF Cons.prems(1) _ _ vs, of b1] Cons.prems(2,3) b1(2) by auto
  have "\<exists>w. RawTupleDesc_GetValue d b2 (k + i) = Inr w \<and> value_eq ((v # vs) ! i) w"
    if "i < length (v # vs)" for i
  proof (cases i)
    case 0
    then show ?thesis using o2 [of k] k b1 by auto
  next
    case (Suc i')
    then show ?thesis using b2(3) that by (auto simp: row_has_def)
  qed
  then have "row_has d b2 k (v # vs)" using Cons.prems(3) by (simp add: row_has_def)
  moreover have "\<forall>j < length (rd_fields d). j < k \<or> k + length (v # vs) \<le> j \<longrightarrow>
      RawTupleDesc_GetValue d b2 j = RawTupleDesc_GetValue d buf j"
    using o1 o2 by (metis Suc_le_eq add_Suc_right add_Suc le_add1 le_less_trans length_Cons less_SucI less_irrefl)
  ultimately show ?case using b1 b2 by auto
qed

lemma row_embed:
  assumes "wf_desc d" "wf_desc rd" "rd_fields d = pre @ rd_fields rd @ post"
    "length raw = rd_bytes rd" "length a = total_size pre"
    "rd_bytes d \<le> length (a @ raw @ c)" "j < length (rd_fields rd)"
  shows "RawTupleDesc_GetValue d (a @ raw @ c) (length pre + j) = RawTupleDesc_GetValue rd raw j"
proof -
  have "slice (total_size pre + total_size (take j (rd_fields rd))) (type_size (rd_fields rd ! j)) (a @ raw @ c) =
      slice (total_size (take j (rd_fields rd))) (type_size (rd_fields rd ! j)) raw"
    using column_fits [OF assms(7)] assms by (simp add: slice_def wf_desc_def)
  then show ?thesis using assms
    by (simp add: RawTupleDesc_GetValue_eq nth_append)
qed

lemma tuple_ok_columns:
  assumes "tuple_ok t" "i < NumColumns t"
  obtains v where "Tuple_GetValue t i = Inr v" "val_t v = tuple_types t ! i" "value_wf v" "storable v"
proof (cases "tp_desc t")
  case None
  then show thesis using assms that [of "extra_list t ! i"]
    by (auto simp: tuple_ok_def Tuple_GetValue_def NumColumns_def nth_checked_def tuple_types_def)
next
  case (Some d)
  show thesis
  proof (cases "i < length (rd_fields d)")
    case True
    have d: "wf_desc d" "rd_bytes d \<le> length (tp_raw t)" using assms Some by (auto simp: tuple_ok_def)
    obtain v where v: "RawTupleDesc_GetValue d (tp_raw t) i = Inr v" "val_t v = rd_fields d ! i" "value_wf v"
      using RawTupleDesc_GetValue_total [OF d(1) True d(2)] by blast
    have "storable v"
      using v(1) wf_desc_type [OF d(1) True] AsValue_storable
      unfolding RawTupleDesc_GetValue_eq [OF d(1) True d(2)] by blast
    then show thesis using that [of v] v Some True
      by (simp add: Tuple_GetValue_def RawTupleDesc_NumColumns_def tuple_types_def nth_append)
  next
    case False
    then show thesis using assms Some that [of "extra_list t ! (i - length (rd_fields d))"]
      by (auto simp: tuple_ok_def Tuple_GetValue_def NumColumns_def nth_checked_def tuple_types_def
          RawTupleDesc_NumColumns_def nth_append)
  qed
qed

lemma get_values_ok:
  assumes "tuple_ok t"
  obtains vs where "get_values t = Inr vs" "tuple_has t vs" "map val_t vs = tuple_types t"
    "\<forall>v \<in> set vs. value_wf v \<and> storable v"
proof -
  define g where "g i = (case Tuple_GetValue t i of Inr v \<Rightarrow> v)" for i
  have g: "Tuple_GetValue t i = Inr (g i)" "val_t (g i) = tuple_types t ! i" "value_wf (g i)" "storable (g i)"
    if "i < NumColumns t" for i
  proof -
    obtain v where "Tuple_GetValue t i = Inr v" "val_t v = tuple_types t ! i" "value_wf v" "storable v"
      by (rule tuple_ok_columns [OF assms \<open>i < NumColumns t\<close>])
    then show "Tuple_GetValue t i = Inr (g i)" "val_t (g i) = tuple_types t ! i" "value_wf (g i)"
      "storable (g i)"
      by (simp_all add: g_def)
  qed
  let ?vs = "map g [0..<NumColumns t]"
  have "get_values t = Inr ?vs" unfolding get_values_def by (rule mapR_total) (simp add: g)
  moreover have "tuple_has t ?vs" using g by (auto simp: tuple_has_def)
  moreover have "map val_t ?vs = tuple_types t"
    by (rule nth_equalityI) (auto simp: g NumColumns_types)
  moreover have "\<forall>v \<in> set ?vs. value_wf v \<and> storable v" using g by auto
  ultimately show thesis using that by blast
qed

lemma WriteToBuffer_ok:
  assumes "tuple_ok t" "wf_desc d" "rd_fields d = tuple_types t" "rd_bytes d \<le> length buf" "tuple_has t vs"
  obtains buf' where "WriteToBuffer t buf d = Inr (FromRawTuple buf' d (tp_rid t))"
    "length buf' = length buf" "row_has d buf' 0 vs"
proof -
  let ?n = "physCols t" and ?b1 = "case tp_desc t of None \<Rightarrow> buf | Some rd \<Rightarrow> go_copy buf (tp_raw t)"
  have len1: "length ?b1 = length buf" by (simp split: option.splits)
  have n: "?n + length (extra_list t) = length (rd_fields d)" "length vs = length (rd_fields d)"
    using assms by (auto simp: physCols_def tuple_types_def RawTupleDesc_NumColumns_def tuple_has_def
        NumColumns_def split: option.splits)
  have ext: "\<forall>i < length (extra_list t). value_wf (extra_list t ! i) \<and> storable (extra_list t ! i) \<and>
      val_t (extra_list t ! i) = rd_fields d ! (?n + i)"
    using assms(1,3) by (auto simp: tuple_ok_def tuple_types_def physCols_def
        RawTupleDesc_NumColumns_def nth_append split: option.splits)
  obtain b2 where b2: "write_values d ?n (extra_list t) ?b1 = Inr b2" "length b2 = length ?b1"
      "row_has d b2 ?n (extra_list t)"
    and keep: "\<And>j. j < ?n \<Longrightarrow> RawTupleDesc_GetValue d b2 j = RawTupleDesc_GetValue d ?b1 j"
    using write_values_row [OF assms(2) _ _ ext, of ?b1] len1 assms(4) n(1) by auto
  have "\<exists>w. RawTupleDesc_GetValue d b2 i = Inr w \<and> value_eq (vs ! i) w" if i: "i < length vs" for i
  proof (cases "i < ?n")
    case True
    then obtain rd where rd: "tp_desc t = Some rd" "i < length (rd_fields rd)" "?n = length (rd_fields rd)"
      by (auto simp: physCols_def RawTupleDesc_NumColumns_def split: option.splits)
    have wf: "wf_desc rd" "length (tp_raw t) = rd_bytes rd" "rd_fields d = [] @ rd_fields rd @ map val_t (extra_list t)"
      using assms rd by (auto simp: tuple_ok_def tuple_types_def)
    have "total_size (rd_fields rd) \<le> rd_bytes d" using wf(3) assms(2) by (simp add: wf_desc_def)
    then have "?b1 = [] @ tp_raw t @ drop (length (tp_raw t)) buf"
      using rd wf assms(4) by (simp add: go_copy_put_at put_at_def wf_desc_def)
    then have "RawTupleDesc_GetValue d ?b1 i = Tuple_GetValue t i"
      using row_embed [OF assms(2) wf(1,3,2), of "[]" "drop (length (tp_raw t)) buf" i] rd len1 assms(4)
      by (simp add: Tuple_GetValue_def RawTupleDesc_NumColumns_def)
    then show ?thesis using keep [OF True] assms(5) i by (simp add: tuple_has_def)
  next
    case False
    then obtain e where e: "i = ?n + e" "e < length (extra_list t)"
      using n i by (metis add_less_cancel_left le_Suc_ex not_less)
    have "Tuple_GetValue t i = Inr (extra_list t ! e)"
      using e by (auto simp: Tuple_GetValue_def physCols_def nth_checked_def split: option.splits)
    then have "value_eq (vs ! i) (extra_list t ! e)" using assms(5) i by (auto simp: tuple_has_def)
    then show ?thesis using b2(3) e value_eq_trans by (fastforce simp: row_has_def)
  qed
  then have "row_has d b2 0 vs" using n by (simp add: row_has_def)
  moreover have "WriteToBuffer t buf d = Inr (FromRawTuple b2 d (tp_rid t))"
    using assms n b2(1)
    by (auto simp: WriteToBuffer_def BytesPerTuple_def NumColumns_types RawTupleDesc_NumColumns_def
        physCols_def split: option.splits)
  ultimately show thesis using that b2(2) len1 by simp
qed

lemma DeepCopy_ok:
  assumes "tuple_ok t" and "NewRawTupleDesc (tuple_types t) = Inr d" and "tuple_has t vs"
  shows "\<exists>u. DeepCopy t d = Inr u \<and> tuple_has u vs \<and> tuple_ok u \<and> tp_extra u = None \<and>
    tp_rid u = tp_rid t \<and> tuple_types u = tuple_types t"
proof -
  have d: "wf_desc d" "rd_fields d = tuple_types t" using NewRawTupleDesc_wf [OF assms(2)] by auto
  obtain b where b: "WriteToBuffer t (replicate (BytesPerTuple d) 0) d = Inr (FromRawTuple b d (tp_rid t))"
    "length b = rd_bytes d" "row_has d b 0 vs"
    using WriteToBuffer_ok [OF assms(1) d _ assms(3), of "replicate (BytesPerTuple d) 0"]
    by (auto simp: BytesPerTuple_def)
  have "length vs = length (rd_fields d)"
    using assms(3) d by (simp add: tuple_has_def NumColumns_types)
  then have "tuple_has (FromRawTuple b d (tp_rid t)) vs" using b by (simp add: FromRawTuple_has)
  then show ?thesis using b d
    by (auto simp: DeepCopy_def NumColumns_types RawTupleDesc_NumColumns_def FromRawTuple_def
        tuple_ok_def extra_list_def tuple_types_def)
qed

text \<open>
  C38: Materialising a tuple.  For a well-formed tuple and the descriptor of its column
  types, \<^verbatim>\<open>DeepCopy\<close> succeeds with a purely physical tuple of the same record
  identifier that has the same columns, stored and computed ones alike.
\<close>

theorem DeepCopy_keeps_columns:
  assumes "tuple_ok t" and "NewRawTupleDesc (tuple_types t) = Inr d" and "tuple_has t vs"
  shows "\<exists>u. DeepCopy t d = Inr u \<and> tuple_has u vs \<and> tuple_ok u \<and> tp_extra u = None \<and>
    tp_rid u = tp_rid t \<and> tuple_types u = tuple_types t"
  using assms by (rule DeepCopy_ok)

text \<open>A stored integer column followed by a computed one, for the witnesses.\<close>

definition sample_desc :: RawTupleDesc where
  "sample_desc = \<lparr>rd_fields = [IntType], rd_offsets = [0], rd_bytes = 8\<rparr>"

definition sample_desc2 :: RawTupleDesc where
  "sample_desc2 = \<lparr>rd_fields = [IntType, IntType], rd_offsets = [0, 8], rd_bytes = 16\<rparr>"

definition sample_stored :: Tuple where
  "sample_stored = FromRawTuple (le_put 8 (7 :: 64 word)) sample_desc zeroRID"

definition sample_tuple :: Tuple where
  "sample_tuple = Extend sample_stored [NewIntValue 5]"

lemma sample_desc_new:
  "NewRawTupleDesc [IntType] = Inr sample_desc" "NewRawTupleDesc [IntType, IntType] = Inr sample_desc2"
  by code_simp+

lemma sample_stored_ok: "tuple_ok sample_stored" "tuple_types sample_stored = [IntType]"
  using NewRawTupleDesc_wf [OF sample_desc_new(1)]
  by (auto simp: sample_stored_def tuple_ok_def FromRawTuple_def extra_list_def tuple_types_def
      sample_desc_def)

lemma sample_tuple_ok: "tuple_ok sample_tuple" "tuple_types sample_tuple = [IntType, IntType]"
  using sample_stored_ok
  by (auto simp: sample_tuple_def sample_stored_def tuple_ok_def Extend_def FromRawTuple_def
      extra_list_def tuple_types_def value_wf_def storable_def NewIntValue_def zeroValue_def
      MinInt64_def)

lemma sample_stored_has: "tuple_has sample_stored [NewIntValue 7]"
proof -
  have "NumColumns sample_stored = 1" "Tuple_GetValue sample_stored 0 = Inr (NewIntValue 7)"
    by code_simp+
  then show ?thesis by (simp add: tuple_has_def)
qed

lemma sample_tuple_has: "tuple_has sample_tuple [NewIntValue 7, NewIntValue 5]"
proof -
  have "NumColumns sample_tuple = 2" "Tuple_GetValue sample_tuple 0 = Inr (NewIntValue 7)"
    "Tuple_GetValue sample_tuple 1 = Inr (NewIntValue 5)"
    by code_simp+
  then show ?thesis by (simp add: tuple_has_def less_Suc_eq)
qed

lemma DeepCopy_keeps_columns_witness:
  "tuple_ok sample_tuple \<and> NewRawTupleDesc (tuple_types sample_tuple) = Inr sample_desc2 \<and>
   (\<exists>u. DeepCopy sample_tuple sample_desc2 = Inr u \<and> tuple_has u [NewIntValue 7, NewIntValue 5])"
  using DeepCopy_keeps_columns [of sample_tuple sample_desc2 "[NewIntValue 7, NewIntValue 5]"]
    sample_tuple_ok sample_tuple_has sample_desc_new by auto

lemma MergeTuples_fast:
  assumes "tuple_ok l" "tuple_ok r" "wf_desc d" "rd_fields d = tuple_types l @ tuple_types r"
    "rd_bytes d \<le> length buf" "tuple_has l lvs" "tuple_has r rvs"
    "tp_extra l = None" "tp_extra r = None"
  obtains b where "MergeTuples buf d l r = Inr (FromRawTuple b d zeroRID)" "row_has d b 0 (lvs @ rvs)"
    "length b = length buf"
proof -
  have raw: "length (tp_raw x) = total_size (tuple_types x)"
    "i < length (tuple_types x) \<Longrightarrow> \<exists>rd. tp_desc x = Some rd \<and> wf_desc rd \<and> rd_fields rd = tuple_types x \<and>
       length (tp_raw x) = rd_bytes rd \<and> Tuple_GetValue x i = RawTupleDesc_GetValue rd (tp_raw x) i"
    if "tuple_ok x" "tp_extra x = None" for x i
    using that by (auto simp: tuple_ok_def tuple_types_def wf_desc_def extra_list_def Tuple_GetValue_def
        RawTupleDesc_NumColumns_def split: option.splits)
  let ?b = "tp_raw l @ tp_raw r @ drop (length (tp_raw l) + length (tp_raw r)) buf"
  have fit: "length (tp_raw l) + length (tp_raw r) \<le> length buf"
    using raw(1) [OF assms(1,8)] raw(1) [OF assms(2,9)] assms(3-5) by (simp add: wf_desc_def)
  have cols: "NumColumns l + NumColumns r = RawTupleDesc_NumColumns d"
    using assms by (simp add: NumColumns_types RawTupleDesc_NumColumns_def)
  have "MergeTuples buf d l r = Inr (FromRawTuple ?b d zeroRID)"
    using assms fit cols
    by (simp add: MergeTuples_def BytesPerTuple_def from_checked_def go_copy_put_at put_at_def add.commute)
  moreover have "\<exists>w. RawTupleDesc_GetValue d ?b i = Inr w \<and> value_eq ((lvs @ rvs) ! i) w"
    if i: "i < length (lvs @ rvs)" for i
  proof (cases "i < length lvs")
    case True
    then have "i < length (tuple_types l)" using assms(6) by (simp add: tuple_has_def NumColumns_types)
    then obtain rd where rd: "wf_desc rd" "rd_fields rd = tuple_types l" "length (tp_raw l) = rd_bytes rd"
        "Tuple_GetValue l i = RawTupleDesc_GetValue rd (tp_raw l) i"
      using raw(2) [OF assms(1,8)] by blast
    have "RawTupleDesc_GetValue d ?b i = Tuple_GetValue l i"
      using row_embed [OF assms(3) rd(1), of "[]" "tuple_types r" "tp_raw l" "[]"
          "tp_raw r @ drop (length (tp_raw l) + length (tp_raw r)) buf" i]
        rd assms(4,5) fit \<open>i < length (tuple_types l)\<close> by simp
    then show ?thesis using assms(6) True by (simp add: tuple_has_def nth_append)
  next
    case False
    then obtain j where j: "i = length lvs + j" "j < length rvs" using i by (metis add_less_cancel_left le_Suc_ex length_append not_less)
    then have jl: "j < length (tuple_types r)" "length lvs = length (tuple_types l)"
      using assms(6,7) by (auto simp: tuple_has_def NumColumns_types)
    then obtain rd where rd: "wf_desc rd" "rd_fields rd = tuple_types r" "length (tp_raw r) = rd_bytes rd"
        "Tuple_GetValue r j = RawTupleDesc_GetValue rd (tp_raw r) j"
      using raw(2) [OF assms(2,9)] by blast
    have "RawTupleDesc_GetValue d ?b i = Tuple_GetValue r j"
      using row_embed [OF assms(3) rd(1), of "tuple_types l" "[]" "tp_raw r" "tp_raw l"
          "drop (length (tp_raw l) + length (tp_raw r)) buf" j]
        rd assms(4,5) fit jl j raw(1) [OF assms(1,8)] by simp
    then show ?thesis using assms(7) j by (auto simp: tuple_has_def nth_append)
  qed
  moreover have "length (lvs @ rvs) = length (rd_fields d)"
    using assms by (simp add: tuple_has_def NumColumns_types)
  ultimately show thesis using that [of ?b] fit by (simp add: row_has_def)
qed

lemma MergeTuples_slow:
  assumes "tuple_ok l" "tuple_ok r" "wf_desc d" "rd_fields d = tuple_types l @ tuple_types r"
    "rd_bytes d \<le> length buf" "tuple_has l lvs" "tuple_has r rvs"
    "tp_extra l \<noteq> None \<or> tp_extra r \<noteq> None"
  obtains b where "MergeTuples buf d l r = Inr (FromRawTuple b d zeroRID)" "row_has d b 0 (lvs @ rvs)"
    "length b = length buf"
proof -
  obtain ls where ls: "get_values l = Inr ls" "tuple_has l ls" "map val_t ls = tuple_types l"
    "\<forall>v \<in> set ls. value_wf v \<and> storable v" by (rule get_values_ok [OF assms(1)])
  obtain rs where rs: "get_values r = Inr rs" "tuple_has r rs" "map val_t rs = tuple_types r"
    "\<forall>v \<in> set rs. value_wf v \<and> storable v" by (rule get_values_ok [OF assms(2)])
  have len: "length ls = length (tuple_types l)" "length rs = length (tuple_types r)"
    using ls(3) rs(3) by (metis length_map)+
  have tl: "val_t (ls ! i) = tuple_types l ! i" if "i < length ls" for i
    using ls(3) that by (metis nth_map)
  have tr: "val_t (rs ! i) = tuple_types r ! i" if "i < length rs" for i
    using rs(3) that by (metis nth_map)
  obtain b1 where b1: "write_values d 0 ls buf = Inr b1" "length b1 = length buf" "row_has d b1 0 ls"
    using write_values_row [OF assms(3,5), of 0 ls] ls(4) tl len assms(4) by (auto simp: nth_append)
  obtain b2 where b2: "write_values d (length ls) rs b1 = Inr b2" "length b2 = length b1"
      "row_has d b2 (length ls) rs"
    and keep: "\<And>j. j < length ls \<Longrightarrow> RawTupleDesc_GetValue d b2 j = RawTupleDesc_GetValue d b1 j"
    using write_values_row [OF assms(3), of b1 "length ls" rs] rs(4) tr len assms(4,5) b1(2)
    by (auto simp: nth_append)
  have cols: "NumColumns l + NumColumns r = RawTupleDesc_NumColumns d" "NumColumns l = length ls"
    using assms len by (simp_all add: NumColumns_types RawTupleDesc_NumColumns_def)
  have "MergeTuples buf d l r = Inr (FromRawTuple b2 d zeroRID)"
    using assms(5,8) cols ls(1) rs(1) b1(1) b2(1) by (auto simp: MergeTuples_def BytesPerTuple_def)
  moreover have eq: "length vs = length us \<and> (\<forall>i < length us. value_eq (vs ! i) (us ! i))"
    if "tuple_has x us" "tuple_has x vs" for x us vs
    using that value_eq_sym value_eq_trans unfolding tuple_has_def by (metis Inr_inject)
  have "\<exists>w. RawTupleDesc_GetValue d b2 i = Inr w \<and> value_eq ((lvs @ rvs) ! i) w"
    if i: "i < length (lvs @ rvs)" for i
  proof (cases "i < length lvs")
    case True
    then have "i < length ls" "value_eq (lvs ! i) (ls ! i)" using eq [OF ls(2) assms(6)] by auto
    then show ?thesis using b1(3) keep [of i] True value_eq_trans
      by (fastforce simp: row_has_def nth_append)
  next
    case False
    then obtain j where j: "i = length lvs + j" "j < length rvs" using i by (metis add_less_cancel_left le_Suc_ex length_append not_less)
    then have "value_eq (rvs ! j) (rs ! j)" "j < length rs" "i = length ls + j"
      using eq [OF rs(2) assms(7)] eq [OF ls(2) assms(6)] by auto
    then show ?thesis using b2(3) j value_eq_trans by (fastforce simp: row_has_def nth_append)
  qed
  moreover have "length (lvs @ rvs) = length (rd_fields d)"
    using assms by (simp add: tuple_has_def NumColumns_types)
  ultimately show thesis using that [of b2] b1(2) b2(2) by (simp add: row_has_def)
qed

text \<open>
  Merging tuples.  On both of its paths (stitching the raw bytes, and re-encoding
  column by column) \<^verbatim>\<open>MergeTuples\<close> succeeds and produces a tuple whose columns
  are those of the left tuple followed by those of the right one.
\<close>

theorem MergeTuples_columns:
  assumes "tuple_ok l" and "tuple_ok r"
    and "NewRawTupleDesc (tuple_types l @ tuple_types r) = Inr d"
    and "BytesPerTuple d \<le> length buf" and "tuple_has l lvs" and "tuple_has r rvs"
  shows "\<exists>m. MergeTuples buf d l r = Inr m \<and> tuple_has m (lvs @ rvs) \<and>
    tp_extra m = None \<and> tuple_types m = tuple_types l @ tuple_types r \<and> length (tp_raw m) = length buf"
proof -
  have d: "wf_desc d" "rd_fields d = tuple_types l @ tuple_types r" "rd_bytes d \<le> length buf"
    using NewRawTupleDesc_wf [OF assms(3)] assms(4) by (auto simp: BytesPerTuple_def)
  obtain b where b: "MergeTuples buf d l r = Inr (FromRawTuple b d zeroRID)"
    "row_has d b 0 (lvs @ rvs)" "length b = length buf"
  proof (cases "tp_extra l = None \<and> tp_extra r = None")
    case True
    then show thesis using MergeTuples_fast [OF assms(1,2) d assms(5,6)] that by blast
  next
    case False
    then show thesis using MergeTuples_slow [OF assms(1,2) d assms(5,6)] that by blast
  qed
  have "length (lvs @ rvs) = length (rd_fields d)"
    using assms(5,6) d(2) by (simp add: tuple_has_def NumColumns_types)
  then have "tuple_has (FromRawTuple b d zeroRID) (lvs @ rvs)" using b by (simp add: FromRawTuple_has)
  then show ?thesis using b d
    by (auto simp: FromRawTuple_def tuple_types_def extra_list_def)
qed

lemma MergeTuples_columns_witness:
  "\<exists>m. MergeTuples (replicate 16 0) sample_desc2 sample_stored (FromValues (Some [NewIntValue 5])) = Inr m \<and>
     tuple_has m [NewIntValue 7, NewIntValue 5]"
proof -
  have r: "tuple_ok (FromValues (Some [NewIntValue 5]))" "tuple_types (FromValues (Some [NewIntValue 5])) = [IntType]"
    by (simp_all add: tuple_ok_def FromValues_def extra_list_def value_wf_def storable_def
        NewIntValue_def zeroValue_def MinInt64_def tuple_types_def)
  show ?thesis
    using MergeTuples_columns [OF sample_stored_ok(1) r(1), of sample_desc2 "replicate 16 0"]
      FromValues_has [of "[NewIntValue 5]"] sample_stored_has sample_desc_new sample_stored_ok(2) r(2)
    by (fastforce simp: BytesPerTuple_def sample_desc2_def)
qed

section \<open>Comparing tuples\<close>

definition same_tuple :: "Tuple \<Rightarrow> Tuple \<Rightarrow> bool" where
  "same_tuple t u \<longleftrightarrow> tuple_ok t \<and> tuple_ok u \<and> tuple_types t = tuple_types u"

lemma compare_loop_lex:
  "\<forall>i \<in> set is. Tuple_GetValue t i = Inr (f i) \<and> Tuple_GetValue u i = Inr (g i) \<Longrightarrow>
     compare_loop t u is = lex_cmp Value_Compare (map f is) (map g is)"
proof (induction "is")
  case (Cons i "is")
  then show ?case by (cases "Value_Compare (f i) (g i)") auto
qed simp

lemma equals_loop_lex:
  "\<forall>i \<in> set is. Tuple_GetValue t i = Inr (f i) \<and> Tuple_GetValue u i = Inr (g i) \<and>
      same_type (f i) (g i) \<Longrightarrow>
     \<exists>c. lex_cmp Value_Compare (map f is) (map g is) = Inr c \<and> equals_loop t u is = Inr (c = 0)"
proof (induction "is")
  case (Cons i "is")
  obtain c where "Value_Compare (f i) (g i) = Inr c"
    using vcmp.cmp_range [of "f i" "g i"] Cons.prems by auto
  moreover obtain c' where "lex_cmp Value_Compare (map f is) (map g is) = Inr c'"
    "equals_loop t u is = Inr (c' = 0)"
    using Cons by auto
  ultimately show ?case using Cons.prems by (auto simp: same_type_def)
qed simp

lemma mapR_get_values:
  assumes "get_values t = Inr vs" "i < NumColumns t"
  shows "Tuple_GetValue t i = Inr (vs ! i)" "length vs = NumColumns t"
proof -
  have "list_all2 (\<lambda>i v. Tuple_GetValue t i = Inr v) [0..<NumColumns t] vs"
    using assms(1) by (simp add: get_values_def mapR_Inr_iff)
  then show "Tuple_GetValue t i = Inr (vs ! i)" "length vs = NumColumns t"
    using assms(2) by (auto simp: list_all2_conv_all_nth)
qed

text \<open>The columns of a tuple as a list.\<close>

definition columns :: "Tuple \<Rightarrow> Value list" where
  "columns t = (case get_values t of Inr vs \<Rightarrow> vs | Inl _ \<Rightarrow> [])"

lemma columns_ok:
  assumes "tuple_ok t"
  shows "get_values t = Inr (columns t)" "tuple_has t (columns t)" "map val_t (columns t) = tuple_types t"
    "\<forall>v \<in> set (columns t). value_wf v \<and> storable v" "length (columns t) = NumColumns t"
proof -
  obtain vs where vs: "get_values t = Inr vs" "tuple_has t vs" "map val_t vs = tuple_types t"
    "\<forall>v \<in> set vs. value_wf v \<and> storable v"
    by (rule get_values_ok [OF assms])
  then have "columns t = vs" by (simp add: columns_def)
  with vs show "get_values t = Inr (columns t)" "tuple_has t (columns t)"
    "map val_t (columns t) = tuple_types t" "\<forall>v \<in> set (columns t). value_wf v \<and> storable v"
    "length (columns t) = NumColumns t"
    by (auto simp: tuple_has_def)
qed

lemma columns_same_type:
  assumes "same_tuple t u"
  shows "list_all2 same_type (columns t) (columns u)"
proof (rule list_all2_all_nthI)
  have ok: "tuple_ok t" "tuple_ok u" "tuple_types t = tuple_types u" using assms by (auto simp: same_tuple_def)
  show len: "length (columns t) = length (columns u)"
    using columns_ok(5) ok by (simp add: NumColumns_types)
  fix i assume i: "i < length (columns t)"
  then have "val_t (columns t ! i) = val_t (columns u ! i)"
    using columns_ok(3) ok len by (metis nth_map)
  moreover have "val_t (columns t ! i) \<noteq> DefaultType"
    using columns_ok(4) [OF ok(1)] i by (auto simp: value_wf_def)
  ultimately show "same_type (columns t ! i) (columns u ! i)" by (simp add: same_type_def)
qed

lemma Tuple_Compare_lex:
  assumes "same_tuple t u"
  shows "Tuple_Compare t u = lex_cmp Value_Compare (columns t) (columns u)"
    "\<exists>c. Tuple_Compare t u = Inr c \<and> Tuple_Equals t u = Inr (c = 0)"
proof -
  let ?n = "NumColumns t" and ?vs = "columns t" and ?us = "columns u"
  have ok: "tuple_ok t" "tuple_ok u" "tuple_types t = tuple_types u" using assms by (auto simp: same_tuple_def)
  have n: "NumColumns u = ?n" "length ?vs = ?n" "length ?us = ?n"
    using columns_ok(5) ok by (simp_all add: NumColumns_types)
  have get: "\<forall>i \<in> set [0..<?n]. Tuple_GetValue t i = Inr (?vs ! i) \<and> Tuple_GetValue u i = Inr (?us ! i) \<and>
      same_type (?vs ! i) (?us ! i)"
    using mapR_get_values(1) [OF columns_ok(1) [OF ok(1)]] mapR_get_values(1) [OF columns_ok(1) [OF ok(2)]]
      columns_same_type [OF assms] n
    by (auto simp: list_all2_conv_all_nth)
  have mv: "map ((!) ?vs) [0..<?n] = ?vs" "map ((!) ?us) [0..<?n] = ?us"
    using n by (metis map_nth)+
  have cl: "compare_loop t u [0..<?n] = lex_cmp Value_Compare ?vs ?us"
    using compare_loop_lex [of "[0..<?n]" t "(!) ?vs" u "(!) ?us"] get mv by auto
  obtain c where c: "lex_cmp Value_Compare ?vs ?us = Inr c" "equals_loop t u [0..<?n] = Inr (c = 0)"
    using equals_loop_lex [OF get] mv by auto
  show "Tuple_Compare t u = lex_cmp Value_Compare ?vs ?us"
    using cl c n by (simp add: Tuple_Compare_def Let_def)
  then show "\<exists>c. Tuple_Compare t u = Inr c \<and> Tuple_Equals t u = Inr (c = 0)"
    using c n by (simp add: Tuple_Equals_def)
qed

interpretation tcmp: three_way same_tuple Tuple_Compare
proof
  show ty: "same_tuple y x" if "same_tuple x y" for x y using that by (auto simp: same_tuple_def)
  show tr: "same_tuple x z" if "same_tuple x y" "same_tuple y z" for x y z
    using that by (auto simp: same_tuple_def)
  show "\<exists>c \<in> {- 1, 0, 1}. Tuple_Compare x y = Inr c" if xy: "same_tuple x y" for x y
    using vlex.cmp_range [OF columns_same_type [OF xy]] by (simp add: Tuple_Compare_lex(1) [OF xy])
  show "Tuple_Compare y x = Inr (- c)" if xy: "same_tuple x y" "Tuple_Compare x y = Inr c" for x y c
    using vlex.cmp_antisym [OF columns_same_type [OF xy(1)], of c] xy(2)
    by (simp add: Tuple_Compare_lex(1) [OF xy(1)] Tuple_Compare_lex(1) [OF ty [OF xy(1)]])
  show "\<exists>e. Tuple_Compare x z = Inr e \<and> e \<le> 0 \<and> (e = 0 \<longleftrightarrow> c = 0 \<and> d = 0)"
    if xyz: "same_tuple x y" "same_tuple y z" "Tuple_Compare x y = Inr c" "Tuple_Compare y z = Inr d"
      "c \<le> 0" "d \<le> 0" for x y z c d
    using vlex.cmp_trans [OF columns_same_type [OF xyz(1)] columns_same_type [OF xyz(2)], of c d] xyz
    by (simp add: Tuple_Compare_lex(1) tr [OF xyz(1,2)])
qed

text \<open>
  Comparing tuples.  On well-formed tuples of the same column types
  \<^verbatim>\<open>Compare\<close> never fails, is antisymmetric and transitive, and answers \<open>0\<close>
  exactly when \<^verbatim>\<open>Equals\<close> answers true.
\<close>

theorem Tuple_Compare_total_order:
  assumes "same_tuple t u" and "same_tuple u w"
  shows "\<exists>c d e. Tuple_Compare t u = Inr c \<and> Tuple_Compare u t = Inr (- c) \<and>
    Tuple_Compare u w = Inr d \<and> Tuple_Compare t w = Inr e \<and>
    (c \<le> 0 \<and> d \<le> 0 \<longrightarrow> e \<le> 0) \<and> Tuple_Equals t u = Inr (c = 0)"
proof -
  obtain c where c: "Tuple_Compare t u = Inr c" "Tuple_Equals t u = Inr (c = 0)"
    using Tuple_Compare_lex(2) [OF assms(1)] by blast
  obtain d where d: "Tuple_Compare u w = Inr d" using tcmp.cmp_range [OF assms(2)] by blast
  obtain e where e: "Tuple_Compare t w = Inr e"
    using tcmp.cmp_range [OF tcmp.same_trans [OF assms]] by blast
  have "c \<le> 0 \<and> d \<le> 0 \<longrightarrow> e \<le> 0" using tcmp.cmp_trans [OF assms c(1) d] e by auto
  then show ?thesis using c d e tcmp.cmp_antisym [OF assms(1) c(1)] by blast
qed

lemma Tuple_Compare_total_order_witness:
  "same_tuple sample_tuple sample_tuple \<and>
   (\<exists>c. Tuple_Compare sample_tuple sample_tuple = Inr c \<and> Tuple_Equals sample_tuple sample_tuple = Inr (c = 0))"
  using Tuple_Compare_total_order [of sample_tuple sample_tuple sample_tuple] sample_tuple_ok
  by (auto simp: same_tuple_def)

end
