(* ===== verification/Log_Record.thy ===== *)
theory Log_Record
  imports Tuples
begin

text \<open>
  \<^verbatim>\<open>storage/log_record.go\<close> and the record types of \<^verbatim>\<open>storage/wal.go\<close>: the
  byte layout of write-ahead log records, their constructors and accessors, the checksum
  and the verification that the log iterator applies.  \<^verbatim>\<open>hash/crc32\<close> is the
  standard library's IEEE checksum, written out bit by bit.  A slice expression past the
  length of a buffer is a panic: the buffers the code passes have no spare capacity that
  it relies on.
\<close>

section \<open>Record types\<close>

type_synonym LogRecordType = "16 word"

definition InvalidLogRecord :: LogRecordType where "InvalidLogRecord = 0"
definition LogBeginTransaction :: LogRecordType where "LogBeginTransaction = 1"
definition LogCommit :: LogRecordType where "LogCommit = 2"
definition LogAbort :: LogRecordType where "LogAbort = 3"
definition LogInsert :: LogRecordType where "LogInsert = 4"
definition LogUpdate :: LogRecordType where "LogUpdate = 5"
definition LogDelete :: LogRecordType where "LogDelete = 6"
definition LogBeginCheckpoint :: LogRecordType where "LogBeginCheckpoint = 7"
definition LogEndCheckpoint :: LogRecordType where "LogEndCheckpoint = 8"
definition LogInsertCLR :: LogRecordType where "LogInsertCLR = 9"
definition LogUpdateCLR :: LogRecordType where "LogUpdateCLR = 10"
definition LogDeleteCLR :: LogRecordType where "LogDeleteCLR = 11"

lemmas log_types = InvalidLogRecord_def LogBeginTransaction_def LogCommit_def LogAbort_def LogInsert_def
  LogUpdate_def LogDelete_def LogBeginCheckpoint_def LogEndCheckpoint_def LogInsertCLR_def
  LogUpdateCLR_def LogDeleteCLR_def

section \<open>The checksum\<close>

definition crc_step :: "32 word \<Rightarrow> 32 word" where
  "crc_step c = (if bit c 0 then drop_bit 1 c XOR 0xEDB88320 else drop_bit 1 c)"

definition crc_byte :: "32 word \<Rightarrow> byte \<Rightarrow> 32 word" where
  "crc_byte c b = (crc_step ^^ 8) (c XOR ucast b)"

definition ChecksumIEEE :: "byte list \<Rightarrow> 32 word" where
  "ChecksumIEEE bs = NOT (foldl crc_byte (NOT 0) bs)"

section \<open>Records and their accessors\<close>

record LogRecord =
  lr_data :: "byte list"

definition logRecordHeaderSize :: nat where "logRecordHeaderSize = 8"
definition offsetSize :: nat where "offsetSize = 0"
definition offsetChecksum :: nat where "offsetChecksum = 2"
definition offsetType :: nat where "offsetType = 6"
definition offsetTxnID :: nat where "offsetTxnID = 8"
definition offsetRID :: nat where "offsetRID = 16"
definition offsetAfterImage :: nat where "offsetAfterImage = 28"
definition offsetCheckpointData :: nat where "offsetCheckpointData = 8"

lemmas log_offsets = logRecordHeaderSize_def offsetSize_def offsetChecksum_def offsetType_def
  offsetTxnID_def offsetRID_def offsetAfterImage_def offsetCheckpointData_def RecordIDSize_def

definition LogRecord_IsNil :: "LogRecord \<Rightarrow> bool" where
  "LogRecord_IsNil r \<longleftrightarrow> lr_data r = []"

definition LogRecord_Size :: "LogRecord \<Rightarrow> nat" where
  "LogRecord_Size r = length (lr_data r)"

definition LogRecord_TxnID :: "LogRecord \<Rightarrow> TransactionID res" where
  "LogRecord_TxnID r = bindR (slice_checked offsetTxnID 8 (lr_data r)) (\<lambda>b. Inr (le_get b))"

definition RecordType :: "LogRecord \<Rightarrow> LogRecordType res" where
  "RecordType r = bindR (slice_checked offsetType 2 (lr_data r)) (\<lambda>b. Inr (le_get b))"

definition has_rid :: "LogRecordType \<Rightarrow> bool" where
  "has_rid t \<longleftrightarrow> t = LogInsertCLR \<or> t = LogDeleteCLR \<or> t = LogDelete \<or> t = LogUpdate \<or>
     t = LogUpdateCLR \<or> t = LogInsert"

definition LogRecord_RID :: "LogRecord \<Rightarrow> RecordID res" where
  "LogRecord_RID r =
     bindR (RecordType r) (\<lambda>t.
     bindR (Assert (has_rid t) ''log type does not support RID()'') (\<lambda>_.
     bindR (from_checked offsetRID (lr_data r)) RecordID_LoadFrom))"

text \<open>The image size is computed on signed integers; Go's division truncates.\<close>

definition image_size :: "LogRecord \<Rightarrow> int" where
  "image_size r = (int (length (lr_data r)) - int offsetAfterImage) sdiv 2"

definition BeforeImage :: "LogRecord \<Rightarrow> RawTuple res" where
  "BeforeImage r =
     bindR (RecordType r) (\<lambda>t.
     bindR (Assert (t = LogUpdate) ''log type does not support BeforeImage()'') (\<lambda>_.
     from_checked (nat (int offsetAfterImage + image_size r)) (lr_data r)))"

definition AfterImage :: "LogRecord \<Rightarrow> RawTuple res" where
  "AfterImage r =
     bindR (RecordType r) (\<lambda>t.
     bindR (Assert (t = LogUpdate \<or> t = LogUpdateCLR \<or> t = LogInsert)
              ''log type does not support AfterImage()'') (\<lambda>_.
     if t = LogUpdate
     then (if image_size r < 0 then Inl (Panic ''slice bounds out of range'')
           else slice_checked offsetAfterImage (nat (image_size r)) (lr_data r))
     else from_checked offsetAfterImage (lr_data r)))"

definition IsCLR :: "LogRecord \<Rightarrow> bool res" where
  "IsCLR r = bindR (RecordType r) (\<lambda>t. Inr (t = LogInsertCLR \<or> t = LogUpdateCLR \<or> t = LogDeleteCLR))"

definition CheckpointData :: "LogRecord \<Rightarrow> byte list res" where
  "CheckpointData r =
     bindR (RecordType r) (\<lambda>t.
     bindR (Assert (t = LogEndCheckpoint)
              ''CheckpointData() can only be called on CheckpointEnd records'') (\<lambda>_.
     from_checked offsetCheckpointData (lr_data r)))"

section \<open>Writing and verifying\<close>

definition WriteToLog :: "LogRecord \<Rightarrow> byte list \<Rightarrow> byte list res" where
  "WriteToLog r buffer =
     bindR (Assert (length buffer \<ge> LogRecord_Size r)
              ''buffer allocated must be large enough fo the record'') (\<lambda>_.
     let b0 = go_copy buffer (lr_data r)
     in bindR (put_checked offsetSize (le_put 2 (of_nat (LogRecord_Size r) :: 16 word)) b0) (\<lambda>b1.
        bindR (from_checked offsetType b1) (\<lambda>tail.
        put_checked offsetChecksum (le_put 4 (ChecksumIEEE tail)) b1)))"

definition LogRecord_Equal :: "LogRecord \<Rightarrow> LogRecord \<Rightarrow> bool res" where
  "LogRecord_Equal r other =
     (if LogRecord_Size r \<noteq> LogRecord_Size other then Inr False
      else bindR (WriteToLog r (replicate (LogRecord_Size r) 0)) (\<lambda>rBuf.
           bindR (WriteToLog other (replicate (LogRecord_Size other) 0)) (\<lambda>otherBuf.
           Inr (rBuf = otherBuf))))"

definition AsLogRecord :: "byte list \<Rightarrow> LogRecord" where
  "AsLogRecord buf = \<lparr>lr_data = buf\<rparr>"

definition ErrCorruptedLogRecord :: fault where
  "ErrCorruptedLogRecord = OtherError ''log record corrupted: checksum mismatch''"

text \<open>The size that each record type must have; unknown types are not restricted.\<close>

definition type_size_ok :: "LogRecordType \<Rightarrow> 16 word \<Rightarrow> bool" where
  "type_size_ok t sz =
     (if t = LogBeginTransaction \<or> t = LogCommit \<or> t = LogAbort then sz = 16
      else if t = LogInsert then 28 \<le> sz
      else if t = LogUpdate then 28 \<le> sz \<and> (sz - 28) mod 2 = 0
      else if t = LogDelete then sz = 28
      else if t = LogBeginCheckpoint then sz = 8
      else if t = LogEndCheckpoint then 8 \<le> sz
      else if t = LogInsertCLR \<or> t = LogDeleteCLR then sz = 28
      else if t = LogUpdateCLR then 28 \<le> sz
      else True)"

definition AsVerifiedLogRecord :: "byte list \<Rightarrow> LogRecord res" where
  "AsVerifiedLogRecord data =
     (if length data < logRecordHeaderSize then Inl ErrCorruptedLogRecord
      else let size = le_get (slice offsetSize 2 data) :: 16 word
           in if size < 8 \<or> size \<noteq> of_nat (length data) then Inl ErrCorruptedLogRecord
              else if le_get (slice offsetChecksum 4 data) \<noteq> ChecksumIEEE (drop offsetType data)
              then Inl ErrCorruptedLogRecord
              else if \<not> type_size_ok (le_get (slice offsetType 2 data)) size
              then Inl ErrCorruptedLogRecord
              else Inr (AsLogRecord data))"

definition CreateCopy :: "byte list \<Rightarrow> LogRecord \<Rightarrow> LogRecord res" where
  "CreateCopy buf src =
     bindR (Assert (length buf \<ge> LogRecord_Size src) ''buffer too small'') (\<lambda>_.
     Inr \<lparr>lr_data = take (LogRecord_Size src) (go_copy buf (lr_data src))\<rparr>)"

section \<open>Constructors\<close>

definition BeginTransactionRecordSize :: nat where "BeginTransactionRecordSize = logRecordHeaderSize + 8"
definition CommitRecordSize :: nat where "CommitRecordSize = logRecordHeaderSize + 8"
definition AbortRecordSize :: nat where "AbortRecordSize = logRecordHeaderSize + 8"

definition InsertRecordSize :: "RawTuple \<Rightarrow> nat" where
  "InsertRecordSize row = logRecordHeaderSize + 8 + RecordIDSize + length row"

definition InsertCLRSize :: nat where "InsertCLRSize = logRecordHeaderSize + 8 + RecordIDSize"
definition DeleteRecordSize :: nat where "DeleteRecordSize = logRecordHeaderSize + 8 + RecordIDSize"
definition DeleteCLRSize :: nat where "DeleteCLRSize = logRecordHeaderSize + 8 + RecordIDSize"

definition UpdateRecordSize :: "RawTuple \<Rightarrow> RawTuple \<Rightarrow> nat res" where
  "UpdateRecordSize before after =
     bindR (Assert (length before = length after) ''before and after tuples must be the same size'') (\<lambda>_.
     Inr (logRecordHeaderSize + 8 + RecordIDSize + length before + length after))"

definition UpdateCLRSize :: "LogRecord \<Rightarrow> nat res" where
  "UpdateCLRSize updateRecord =
     bindR (BeforeImage updateRecord) (\<lambda>before.
     Inr (logRecordHeaderSize + 8 + RecordIDSize + length before))"

definition BeginCheckpointRecordSize :: nat where "BeginCheckpointRecordSize = logRecordHeaderSize"

definition EndCheckpointRecordSize :: "nat \<Rightarrow> nat" where
  "EndCheckpointRecordSize payloadSize = logRecordHeaderSize + payloadSize"

lemmas record_sizes = BeginTransactionRecordSize_def CommitRecordSize_def AbortRecordSize_def
  InsertRecordSize_def InsertCLRSize_def DeleteRecordSize_def DeleteCLRSize_def
  BeginCheckpointRecordSize_def EndCheckpointRecordSize_def

text \<open>The stores that the constructors are made of.\<close>

definition put_type :: "LogRecordType \<Rightarrow> byte list \<Rightarrow> byte list res" where
  "put_type t b = put_checked offsetType (le_put 2 t) b"

definition put_txn :: "TransactionID \<Rightarrow> byte list \<Rightarrow> byte list res" where
  "put_txn txn b = put_checked offsetTxnID (le_put 8 txn) b"

definition put_rid :: "RecordID \<Rightarrow> byte list \<Rightarrow> byte list res" where
  "put_rid rid b = write_from offsetRID (RecordID_WriteTo rid) b"

definition as_record :: "byte list res \<Rightarrow> LogRecord res" where
  "as_record r = bindR r (\<lambda>b. Inr \<lparr>lr_data = b\<rparr>)"

definition NewBeginTransactionRecord :: "byte list \<Rightarrow> TransactionID \<Rightarrow> LogRecord res" where
  "NewBeginTransactionRecord buf txn =
     as_record (bindR (slice_checked 0 BeginTransactionRecordSize buf) (\<lambda>b.
                bindR (put_type LogBeginTransaction b) (put_txn txn)))"

definition NewCommitRecord :: "byte list \<Rightarrow> TransactionID \<Rightarrow> LogRecord res" where
  "NewCommitRecord buf txn =
     as_record (bindR (slice_checked 0 CommitRecordSize buf) (\<lambda>b.
                bindR (put_type LogCommit b) (put_txn txn)))"

definition NewAbortRecord :: "byte list \<Rightarrow> TransactionID \<Rightarrow> LogRecord res" where
  "NewAbortRecord buf txn =
     as_record (bindR (slice_checked 0 AbortRecordSize buf) (\<lambda>b.
                bindR (put_type LogAbort b) (put_txn txn)))"

definition NewInsertRecord :: "byte list \<Rightarrow> TransactionID \<Rightarrow> RecordID \<Rightarrow> RawTuple \<Rightarrow> LogRecord res" where
  "NewInsertRecord buf txn rid row =
     as_record (bindR (slice_checked 0 (InsertRecordSize row) buf) (\<lambda>b.
                bindR (put_type LogInsert b) (\<lambda>b.
                bindR (put_txn txn b) (\<lambda>b.
                bindR (put_rid rid b) (copy_checked offsetAfterImage row)))))"

definition NewInsertCLR :: "byte list \<Rightarrow> LogRecord \<Rightarrow> LogRecord res" where
  "NewInsertCLR buf insertRecord =
     as_record (bindR (slice_checked 0 InsertCLRSize buf) (\<lambda>b.
                bindR (put_type LogInsertCLR b) (\<lambda>b.
                bindR (slice_checked offsetTxnID (offsetAfterImage - offsetTxnID) (lr_data insertRecord)) (\<lambda>src.
                copy_checked offsetTxnID src b))))"

definition NewDeleteRecord :: "byte list \<Rightarrow> TransactionID \<Rightarrow> RecordID \<Rightarrow> LogRecord res" where
  "NewDeleteRecord buf txn rid =
     as_record (bindR (slice_checked 0 DeleteRecordSize buf) (\<lambda>b.
                bindR (put_type LogDelete b) (\<lambda>b.
                bindR (put_txn txn b) (put_rid rid))))"

definition NewDeleteCLR :: "byte list \<Rightarrow> LogRecord \<Rightarrow> LogRecord res" where
  "NewDeleteCLR buf deleteRecord =
     as_record (bindR (slice_checked 0 DeleteCLRSize buf) (\<lambda>b.
                put_type LogDeleteCLR (go_copy b (lr_data deleteRecord))))"

definition NewUpdateRecord ::
  "byte list \<Rightarrow> TransactionID \<Rightarrow> RecordID \<Rightarrow> RawTuple \<Rightarrow> RawTuple \<Rightarrow> LogRecord res" where
  "NewUpdateRecord buf txn rid before after =
     as_record (bindR (UpdateRecordSize before after) (\<lambda>size.
                bindR (slice_checked 0 size buf) (\<lambda>b.
                bindR (put_type LogUpdate b) (\<lambda>b.
                bindR (put_txn txn b) (\<lambda>b.
                bindR (put_rid rid b) (\<lambda>b.
                bindR (copy_checked offsetAfterImage after b) (\<lambda>b.
                copy_checked (offsetAfterImage + length after) before b)))))))"

definition NewUpdateCLR :: "byte list \<Rightarrow> LogRecord \<Rightarrow> LogRecord res" where
  "NewUpdateCLR buf updateRecord =
     as_record (bindR (BeforeImage updateRecord) (\<lambda>before.
                bindR (UpdateCLRSize updateRecord) (\<lambda>size.
                bindR (slice_checked 0 size buf) (\<lambda>b.
                bindR (put_type LogUpdateCLR b) (\<lambda>b.
                bindR (slice_checked offsetTxnID (offsetAfterImage - offsetTxnID) (lr_data updateRecord)) (\<lambda>src.
                bindR (copy_checked offsetTxnID src b) (\<lambda>b.
                copy_checked offsetAfterImage before b)))))))"

definition NewBeginCheckpointRecord :: "byte list \<Rightarrow> LogRecord res" where
  "NewBeginCheckpointRecord buf =
     as_record (bindR (slice_checked 0 BeginCheckpointRecordSize buf) (put_type LogBeginCheckpoint))"

definition NewEndCheckpointRecord :: "byte list \<Rightarrow> nat \<Rightarrow> LogRecord res" where
  "NewEndCheckpointRecord buf payloadSize =
     as_record (bindR (slice_checked 0 (EndCheckpointRecordSize payloadSize) buf) (put_type LogEndCheckpoint))"

section \<open>The abstract log\<close>

text \<open>What a record says, independent of its bytes.\<close>

datatype log_entry =
    BeginE TransactionID
  | CommitE TransactionID
  | AbortE TransactionID
  | InsertE TransactionID RecordID RawTuple
  | UpdateE TransactionID RecordID RawTuple RawTuple
  | DeleteE TransactionID RecordID
  | InsertClrE TransactionID RecordID
  | UpdateClrE TransactionID RecordID RawTuple
  | DeleteClrE TransactionID RecordID
  | BeginCkptE
  | EndCkptE "byte list"

text \<open>The bytes from the type field on.\<close>

fun entry_bytes :: "log_entry \<Rightarrow> byte list" where
  "entry_bytes (BeginE t) = le_put 2 LogBeginTransaction @ le_put 8 t"
| "entry_bytes (CommitE t) = le_put 2 LogCommit @ le_put 8 t"
| "entry_bytes (AbortE t) = le_put 2 LogAbort @ le_put 8 t"
| "entry_bytes (InsertE t rid row) = le_put 2 LogInsert @ le_put 8 t @ rid_bytes rid @ row"
| "entry_bytes (UpdateE t rid before after) =
     le_put 2 LogUpdate @ le_put 8 t @ rid_bytes rid @ after @ before"
| "entry_bytes (DeleteE t rid) = le_put 2 LogDelete @ le_put 8 t @ rid_bytes rid"
| "entry_bytes (InsertClrE t rid) = le_put 2 LogInsertCLR @ le_put 8 t @ rid_bytes rid"
| "entry_bytes (UpdateClrE t rid after) = le_put 2 LogUpdateCLR @ le_put 8 t @ rid_bytes rid @ after"
| "entry_bytes (DeleteClrE t rid) = le_put 2 LogDeleteCLR @ le_put 8 t @ rid_bytes rid"
| "entry_bytes BeginCkptE = le_put 2 LogBeginCheckpoint"
| "entry_bytes (EndCkptE payload) = le_put 2 LogEndCheckpoint @ payload"

fun wf_entry :: "log_entry \<Rightarrow> bool" where
  "wf_entry (UpdateE t rid before after) = (length before = length after)"
| "wf_entry _ = True"

definition is_entry :: "LogRecord \<Rightarrow> log_entry \<Rightarrow> bool" where
  "is_entry r e \<longleftrightarrow> wf_entry e \<and> (\<exists>h. length h = 6 \<and> lr_data r = h @ entry_bytes e)"

text \<open>Reading a record back through the accessors, the way the log's readers do.\<close>

definition entry_of :: "LogRecord \<Rightarrow> log_entry res" where
  "entry_of r =
     bindR (RecordType r) (\<lambda>t.
     if t = LogBeginCheckpoint then Inr BeginCkptE
     else if t = LogEndCheckpoint then bindR (CheckpointData r) (\<lambda>p. Inr (EndCkptE p))
     else bindR (LogRecord_TxnID r) (\<lambda>txn.
       if t = LogBeginTransaction then Inr (BeginE txn)
       else if t = LogCommit then Inr (CommitE txn)
       else if t = LogAbort then Inr (AbortE txn)
       else bindR (LogRecord_RID r) (\<lambda>rid.
         if t = LogInsert then bindR (AfterImage r) (\<lambda>row. Inr (InsertE txn rid row))
         else if t = LogUpdate
           then bindR (BeforeImage r) (\<lambda>b. bindR (AfterImage r) (\<lambda>a. Inr (UpdateE txn rid b a)))
         else if t = LogDelete then Inr (DeleteE txn rid)
         else if t = LogInsertCLR then Inr (InsertClrE txn rid)
         else if t = LogUpdateCLR then bindR (AfterImage r) (\<lambda>a. Inr (UpdateClrE txn rid a))
         else Inr (DeleteClrE txn rid))))"

lemma log_record_reads:
  assumes "length h = 6"
  shows "RecordType \<lparr>lr_data = h @ le_put 2 t @ rest\<rparr> = Inr t"
    and "LogRecord_TxnID \<lparr>lr_data = h @ le_put 2 t @ le_put 8 txn @ rest\<rparr> = Inr txn"
    and "has_rid t \<Longrightarrow>
      LogRecord_RID \<lparr>lr_data = h @ le_put 2 t @ le_put 8 txn @ rid_bytes rid @ rest\<rparr> = Inr rid"
    and "t = LogInsert \<or> t = LogUpdateCLR \<Longrightarrow>
      AfterImage \<lparr>lr_data = h @ le_put 2 t @ le_put 8 txn @ rid_bytes rid @ rest\<rparr> = Inr rest"
    and "t = LogEndCheckpoint \<Longrightarrow> CheckpointData \<lparr>lr_data = h @ le_put 2 t @ rest\<rparr> = Inr rest"
  using assms
  by (auto simp: RecordType_def LogRecord_TxnID_def LogRecord_RID_def AfterImage_def CheckpointData_def
      slice_checked_def from_checked_def log_offsets slice_append_right RecordID_LoadFrom_bytes
      has_rid_def slice_def log_types)

lemma log_record_reads_end:
  assumes "length h = 6"
  shows "RecordType \<lparr>lr_data = h @ le_put 2 t\<rparr> = Inr t"
    and "LogRecord_TxnID \<lparr>lr_data = h @ le_put 2 t @ le_put 8 txn\<rparr> = Inr txn"
    and "has_rid t \<Longrightarrow> LogRecord_RID \<lparr>lr_data = h @ le_put 2 t @ le_put 8 txn @ rid_bytes rid\<rparr> = Inr rid"
  using log_record_reads(1) [OF assms, of t "[]"] log_record_reads(2) [OF assms, of t txn "[]"]
    log_record_reads(3) [OF assms, of t txn rid "[]"]
  by simp_all

lemma update_record_reads:
  assumes "length h = 6" "length before = length after"
    "r = \<lparr>lr_data = h @ le_put 2 LogUpdate @ le_put 8 txn @ rid_bytes rid @ after @ before\<rparr>"
  shows "BeforeImage r = Inr before" "AfterImage r = Inr after"
proof -
  have "image_size r = int (length after)"
    using assms by (auto simp: image_size_def log_offsets signed_divide_int_def sgn_if)
  then show "BeforeImage r = Inr before" "AfterImage r = Inr after"
    using assms
    by (simp_all add: BeforeImage_def AfterImage_def log_record_reads from_checked_def slice_checked_def
        log_offsets slice_def nat_add_distrib)
qed

lemma entry_of_is_entry:
  assumes "is_entry r e"
  shows "entry_of r = Inr e"
proof -
  obtain h where h: "length h = 6" "r = \<lparr>lr_data = h @ entry_bytes e\<rparr>" "wf_entry e"
    using assms by (cases r) (auto simp: is_entry_def)
  show ?thesis
    using h by (cases e) (auto simp: entry_of_def log_record_reads log_record_reads_end
        update_record_reads has_rid_def log_types split: if_splits)
qed

section \<open>Constructors build the records they name\<close>

lemma split_front: "n \<le> length buf \<Longrightarrow> \<exists>a b. buf = a @ b \<and> length a = n"
  by (metis append_take_drop_id length_take min_absorb2)

text \<open>A buffer of the right size, split at the offsets of the record fields.\<close>

lemma split_buffer:
  assumes "length (buf :: byte list) = 28 + n"
  obtains h t x y z where "buf = h @ t @ x @ y @ z" "length h = 6" "length t = 2"
    "length x = 8" "length y = 12" "length z = n"
proof -
  obtain h r1 where 1: "buf = h @ r1" "length h = 6" using split_front [of 6 buf] assms by auto
  obtain t r2 where 2: "r1 = t @ r2" "length t = 2" using split_front [of 2 r1] assms 1 by auto
  obtain x r3 where 3: "r2 = x @ r3" "length x = 8" using split_front [of 8 r2] assms 1 2 by auto
  obtain y z where 4: "r3 = y @ z" "length y = 12" using split_front [of 12 r3] assms 1 2 3 by auto
  show thesis using that [of h t x y z] assms 1 2 3 4 by simp
qed

lemma split_small_buffer:
  assumes "length (buf :: byte list) = 16"
  obtains h t x where "buf = h @ t @ x" "length h = 6" "length t = 2" "length x = 8"
proof -
  obtain h r1 where 1: "buf = h @ r1" "length h = 6" using split_front [of 6 buf] assms by auto
  obtain t x where 2: "r1 = t @ x" "length t = 2" using split_front [of 2 r1] assms 1 by auto
  show thesis using that [of h t x] assms 1 2 by simp
qed

lemma put_fields:
  assumes "length h = 6" "length t = 2"
  shows "put_type ty (h @ t @ rest) = Inr (h @ le_put 2 ty @ rest)"
    and "put_type ty (h @ t) = Inr (h @ le_put 2 ty)"
    and "length x = 8 \<Longrightarrow> put_txn txn (h @ t @ x @ rest) = Inr (h @ t @ le_put 8 txn @ rest)"
    and "length x = 8 \<Longrightarrow> put_txn txn (h @ t @ x) = Inr (h @ t @ le_put 8 txn)"
    and "length x = 8 \<Longrightarrow> length y = 12 \<Longrightarrow>
      put_rid rid (h @ t @ x @ y @ rest) = Inr (h @ t @ x @ rid_bytes rid @ rest)"
    and "length x = 8 \<Longrightarrow> length y = 12 \<Longrightarrow> put_rid rid (h @ t @ x @ y) = Inr (h @ t @ x @ rid_bytes rid)"
  using assms put_at_append [of "length (h @ t)" "h @ t"]
  by (simp_all add: put_type_def put_txn_def put_rid_def put_checked_def write_from_def log_offsets
      put_at_def RecordID_WriteTo_bytes)

lemma copy_image:
  assumes "length h = 6" "length t = 2" "length x = 8" "length y = 12"
  shows "length z = length img \<Longrightarrow> copy_checked 28 img (h @ t @ x @ y @ z) = Inr (h @ t @ x @ y @ img)"
    and "length z = length img \<Longrightarrow> copy_checked 28 img (h @ t @ x @ y @ z @ w) = Inr (h @ t @ x @ y @ img @ w)"
    and "length w = length img \<Longrightarrow>
      copy_checked (28 + length z) img (h @ t @ x @ y @ z @ w) = Inr (h @ t @ x @ y @ z @ img)"
  using assms by (simp_all add: copy_checked_def go_copy_def)

lemma is_entryI: "length h = 6 \<Longrightarrow> wf_entry e \<Longrightarrow> is_entry \<lparr>lr_data = h @ entry_bytes e\<rparr> e"
  by (auto simp: is_entry_def)

lemma NewTxnRecords:
  assumes "length buf = 16"
  shows "\<exists>r. NewBeginTransactionRecord buf txn = Inr r \<and> is_entry r (BeginE txn)"
    and "\<exists>r. NewCommitRecord buf txn = Inr r \<and> is_entry r (CommitE txn)"
    and "\<exists>r. NewAbortRecord buf txn = Inr r \<and> is_entry r (AbortE txn)"
  by (rule split_small_buffer [OF assms],
      use assms in \<open>auto simp: NewBeginTransactionRecord_def NewCommitRecord_def NewAbortRecord_def
        as_record_def record_sizes log_offsets slice_checked_def put_fields is_entry_def\<close>)+

lemma NewInsertRecord_entry:
  assumes "length buf = InsertRecordSize row"
  shows "\<exists>r. NewInsertRecord buf txn rid row = Inr r \<and> is_entry r (InsertE txn rid row)"
  by (rule split_buffer [of buf "length row"],
      use assms in \<open>auto simp: NewInsertRecord_def as_record_def record_sizes log_offsets
        slice_checked_def put_fields copy_image is_entry_def\<close>)

lemma NewDeleteRecord_entry:
  assumes "length buf = DeleteRecordSize"
  shows "\<exists>r. NewDeleteRecord buf txn rid = Inr r \<and> is_entry r (DeleteE txn rid)"
  by (rule split_buffer [of buf 0],
      use assms in \<open>auto simp: NewDeleteRecord_def as_record_def record_sizes log_offsets
        slice_checked_def put_fields is_entry_def\<close>)

lemma NewUpdateRecord_entry:
  assumes "length before = length after" "length buf = 28 + length before + length after"
  shows "\<exists>r. NewUpdateRecord buf txn rid before after = Inr r \<and> is_entry r (UpdateE txn rid before after)"
proof (rule split_buffer [of buf "length after + length before"])
  show "length buf = 28 + (length after + length before)" using assms by simp
next
  fix h t x y z
  assume b: "buf = h @ t @ x @ y @ z" "length h = 6" "length t = 2" "length x = 8" "length y = 12"
    "length z = length after + length before"
  obtain z1 z2 where z: "z = z1 @ z2" "length z1 = length after"
    using split_front [of "length after" z] b by auto
  show ?thesis
    using b z assms copy_image(3) [of h _ _ _ z2 before after]
    by (auto simp: NewUpdateRecord_def UpdateRecordSize_def as_record_def log_offsets slice_checked_def
        put_fields copy_image is_entry_def)
qed

lemma NewInsertCLR_entry:
  assumes "length buf = InsertCLRSize" "is_entry r (InsertE txn rid row)"
  shows "\<exists>c. NewInsertCLR buf r = Inr c \<and> is_entry c (InsertClrE txn rid)"
proof -
  obtain h' where h': "length h' = 6" "lr_data r = h' @ entry_bytes (InsertE txn rid row)"
    using assms(2) by (auto simp: is_entry_def)
  then have src: "slice 8 20 (lr_data r) = le_put 8 txn @ rid_bytes rid" by (simp add: slice_def)
  show ?thesis
    by (rule split_buffer [of buf 0])
      (use assms(1) h' src in \<open>auto simp: NewInsertCLR_def as_record_def record_sizes log_offsets
        slice_checked_def put_fields is_entry_def copy_checked_def go_copy_def\<close>)
qed

lemma NewDeleteCLR_entry:
  assumes "length buf = DeleteCLRSize" "is_entry r (DeleteE txn rid)"
  shows "\<exists>c. NewDeleteCLR buf r = Inr c \<and> is_entry c (DeleteClrE txn rid)"
  using assms
  by (auto simp: NewDeleteCLR_def as_record_def record_sizes log_offsets slice_checked_def put_fields
      is_entry_def)

lemma NewUpdateCLR_entry:
  assumes "length buf = 28 + length before" "is_entry r (UpdateE txn rid before after)"
  shows "UpdateCLRSize r = Inr (28 + length before)"
    and "\<exists>c. NewUpdateCLR buf r = Inr c \<and> is_entry c (UpdateClrE txn rid before)"
proof -
  obtain h' where h': "length h' = 6" "length before = length after"
    "r = \<lparr>lr_data = h' @ le_put 2 LogUpdate @ le_put 8 txn @ rid_bytes rid @ after @ before\<rparr>"
    using assms(2) by (cases r) (auto simp: is_entry_def)
  note bi = update_record_reads(1) [OF h']
  then show sz: "UpdateCLRSize r = Inr (28 + length before)" by (simp add: UpdateCLRSize_def log_offsets)
  have src: "slice 8 20 (lr_data r) = le_put 8 txn @ rid_bytes rid" "28 \<le> length (lr_data r)"
    using h' by (simp_all add: slice_def)
  show "\<exists>c. NewUpdateCLR buf r = Inr c \<and> is_entry c (UpdateClrE txn rid before)"
    by (rule split_buffer [OF assms(1)])
      (use assms(1) src bi sz in \<open>auto simp: NewUpdateCLR_def as_record_def log_offsets
        slice_checked_def put_fields is_entry_def copy_checked_def go_copy_def\<close>)
qed

lemma NewCheckpointRecords:
  shows "length buf = 8 \<Longrightarrow> \<exists>r. NewBeginCheckpointRecord buf = Inr r \<and> is_entry r BeginCkptE"
    and "length buf = 8 + n \<Longrightarrow>
      \<exists>r. NewEndCheckpointRecord buf n = Inr r \<and> is_entry r (EndCkptE (drop 8 buf))"
proof -
  show "\<exists>r. NewBeginCheckpointRecord buf = Inr r \<and> is_entry r BeginCkptE" if "length buf = 8"
    using that by (auto simp: NewBeginCheckpointRecord_def as_record_def record_sizes log_offsets
        slice_checked_def put_type_def put_checked_def put_at_def is_entry_def)
  show "\<exists>r. NewEndCheckpointRecord buf n = Inr r \<and> is_entry r (EndCkptE (drop 8 buf))"
    if "length buf = 8 + n"
    using that by (auto simp: NewEndCheckpointRecord_def as_record_def record_sizes log_offsets
        slice_checked_def put_type_def put_checked_def put_at_def is_entry_def)
qed

section \<open>Written records verify\<close>

lemma WriteToLog_bytes:
  assumes "length buf = length (lr_data r)" "8 \<le> length buf"
  shows "WriteToLog r buf = Inr (le_put 2 (of_nat (length buf) :: 16 word) @
    le_put 4 (ChecksumIEEE (drop 6 (lr_data r))) @ drop 6 (lr_data r))"
proof -
  obtain s r1 where 1: "lr_data r = s @ r1" "length s = 2" using split_front [of 2 "lr_data r"] assms by auto
  obtain c r2 where 2: "r1 = c @ r2" "length c = 4" using split_front [of 4 r1] assms 1 by auto
  show ?thesis
    using assms 1 2
    by (simp add: WriteToLog_def LogRecord_Size_def put_checked_def from_checked_def log_offsets
        put_at_def Let_def)
qed

lemma verified_bytes:
  assumes "length h = 2" "length c = 4" "8 \<le> length h + length c + length rest"
  shows "AsVerifiedLogRecord (h @ c @ rest) =
    (if 8 \<le> (le_get h :: 16 word) \<and> le_get h = (of_nat (6 + length rest) :: 16 word) \<and>
        le_get c = ChecksumIEEE rest \<and> type_size_ok (le_get (take 2 rest)) (le_get h)
     then Inr \<lparr>lr_data = h @ c @ rest\<rparr> else Inl ErrCorruptedLogRecord)"
  using assms
  by (auto simp: AsVerifiedLogRecord_def AsLogRecord_def log_offsets slice_def not_less Let_def add.assoc)

lemma word16_of_nat_le:
  "n < 65536 \<Longrightarrow> 28 \<le> n \<Longrightarrow> (28 :: 16 word) \<le> of_nat n"
  "n < 65536 \<Longrightarrow> 8 \<le> n \<Longrightarrow> (8 :: 16 word) \<le> of_nat n"
  by (simp_all add: word_le_nat_alt unat_of_nat)

fun entry_type :: "log_entry \<Rightarrow> LogRecordType" where
  "entry_type (BeginE _) = LogBeginTransaction"
| "entry_type (CommitE _) = LogCommit"
| "entry_type (AbortE _) = LogAbort"
| "entry_type (InsertE _ _ _) = LogInsert"
| "entry_type (UpdateE _ _ _ _) = LogUpdate"
| "entry_type (DeleteE _ _) = LogDelete"
| "entry_type (InsertClrE _ _) = LogInsertCLR"
| "entry_type (UpdateClrE _ _ _) = LogUpdateCLR"
| "entry_type (DeleteClrE _ _) = LogDeleteCLR"
| "entry_type BeginCkptE = LogBeginCheckpoint"
| "entry_type (EndCkptE _) = LogEndCheckpoint"

lemma take_entry_bytes: "take 2 (entry_bytes e) = le_put 2 (entry_type e)"
  by (cases e) simp_all

lemma type_size_ok_entry:
  assumes "wf_entry e" "n = 6 + length (entry_bytes e)" "n < 65536"
  shows "type_size_ok (le_get (take 2 (entry_bytes e))) (of_nat n)"
proof -
  have "type_size_ok (entry_type e) (of_nat n)"
  proof (cases e)
    case (UpdateE t rid before after)
    then have n: "n = 28 + 2 * length after" using assms by simp
    have "(of_nat n - 28 :: 16 word) = of_nat (length after) * 2" by (simp add: n)
    then have "(of_nat n - 28 :: 16 word) mod 2 = 0" by (simp add: mod_2_eq_odd)
    then show ?thesis
      using word16_of_nat_le(1) [OF assms(3)] n by (simp only: UpdateE type_size_ok_def entry_type.simps log_types) simp
  qed (use assms word16_of_nat_le [OF assms(3)] in \<open>auto simp: type_size_ok_def log_types\<close>)
  then show ?thesis by (simp add: take_entry_bytes)
qed

lemma written_record_verifies:
  assumes "is_entry r e" "LogRecord_Size r < 65536" "length buf = LogRecord_Size r"
  obtains b where "WriteToLog r buf = Inr b" "length b = LogRecord_Size r"
    "AsVerifiedLogRecord b = Inr \<lparr>lr_data = b\<rparr>" "is_entry \<lparr>lr_data = b\<rparr> e"
    "le_get (take 2 b) = (of_nat (length b) :: 16 word)"
proof -
  obtain h where h: "length h = 6" "lr_data r = h @ entry_bytes e" "wf_entry e"
    using assms by (auto simp: is_entry_def)
  have n: "LogRecord_Size r = 6 + length (entry_bytes e)" using h by (simp add: LogRecord_Size_def)
  have two: "2 \<le> length (entry_bytes e)" by (cases e) auto
  let ?b = "le_put 2 (of_nat (length buf) :: 16 word) @
    le_put 4 (ChecksumIEEE (entry_bytes e)) @ entry_bytes e"
  have "WriteToLog r buf = Inr ?b"
    using WriteToLog_bytes [of buf r] assms(3) h n two by (simp add: LogRecord_Size_def)
  moreover have "AsVerifiedLogRecord ?b = Inr \<lparr>lr_data = ?b\<rparr>"
    using type_size_ok_entry [OF h(3) refl] word16_of_nat_le(2) [of "length buf"] assms(2,3) n two
    by (simp add: verified_bytes del: of_nat_add of_nat_numeral)
  moreover have "is_entry \<lparr>lr_data = ?b\<rparr> e"
    unfolding is_entry_def using h(3)
    by (auto intro!: exI [of _ "le_put 2 (of_nat (length buf) :: 16 word) @
      le_put 4 (ChecksumIEEE (entry_bytes e))"])
  moreover have "length ?b = LogRecord_Size r" using n by simp
  ultimately show thesis using that [of ?b] assms(3) n by simp
qed

section \<open>What the checksum detects\<close>

lemma xor_right_cancel: "(x :: 32 word) XOR c = y XOR c \<Longrightarrow> x = y"
  by (metis bit.xor_left_self xor.commute)

lemma crc_step_inj: "crc_step x = crc_step y \<Longrightarrow> x = y"
proof -
  assume e: "crc_step x = crc_step y"
  have top: "bit (crc_step w) 31 = bit w 0" for w
    by (auto simp: crc_step_def bit_simps dest: bit_imp_le_length)
  then have b0: "bit x 0 = bit y 0" using e by metis
  then have d: "drop_bit 1 x = drop_bit 1 y"
    using e by (auto simp: crc_step_def split: if_splits dest: xor_right_cancel)
  show "x = y"
  proof (rule bit_word_eqI)
    fix n
    assume "n < LENGTH(32)"
    show "bit x n = bit y n"
    proof (cases n)
      case (Suc m)
      have "bit (drop_bit 1 x) m = bit (drop_bit 1 y) m" using d by simp
      then show ?thesis using Suc by (simp add: bit_drop_bit_eq)
    qed (use b0 in simp)
  qed
qed

lemma crc_step_pow_inj: "(crc_step ^^ n) x = (crc_step ^^ n) y \<Longrightarrow> x = y"
  by (induction n arbitrary: x y) (auto simp: funpow_swap1 dest: crc_step_inj)

lemma ucast_xor_cancel: "(c XOR ucast (a :: byte) :: 32 word) = c XOR ucast b \<Longrightarrow> a = b"
proof (rule bit_word_eqI)
  fix n
  assume e: "(c XOR ucast a :: 32 word) = c XOR ucast b" and "n < LENGTH(8)"
  then have "bit (c XOR ucast a :: 32 word) n = bit (c XOR ucast b :: 32 word) n" by simp
  then show "bit a n = bit b n" using \<open>n < LENGTH(8)\<close> by (auto simp: bit_simps)
qed

lemma crc_byte_inj:
  "crc_byte c a = crc_byte c b \<Longrightarrow> a = b" "crc_byte c a = crc_byte d a \<Longrightarrow> c = d"
  by (auto simp: crc_byte_def dest!: crc_step_pow_inj dest: ucast_xor_cancel xor_right_cancel)

lemma foldl_crc_inj: "foldl crc_byte c bs = foldl crc_byte d bs \<Longrightarrow> c = d"
  by (induction bs arbitrary: c d) (auto dest: crc_byte_inj)

lemma not_inj32: "NOT (x :: 32 word) = NOT y \<longleftrightarrow> x = y"
  by (metis bit.double_compl)

lemma ChecksumIEEE_byte:
  assumes "ChecksumIEEE (xs @ a # ys) = ChecksumIEEE (xs @ b # ys)"
  shows "a = b"
  using assms by (auto simp: ChecksumIEEE_def not_inj32 dest: foldl_crc_inj crc_byte_inj)

section \<open>Properties of log records\<close>

text \<open>
  C14: Log record round trip.  A record of any kind that is shorter than 64 KiB, written
  with \<^verbatim>\<open>WriteToLog\<close> into a buffer of exactly its size, as both log managers and the
  transaction's buffer do, is accepted by \<^verbatim>\<open>AsVerifiedLogRecord\<close>, and the accessors of
  the accepted record return the kind, transaction, record identifier and images that were
  logged.
\<close>

theorem log_record_roundtrip:
  assumes "is_entry r e" "LogRecord_Size r < 65536" "length buf = LogRecord_Size r"
  shows "\<exists>r'. bindR (WriteToLog r buf) AsVerifiedLogRecord = Inr r' \<and> entry_of r' = Inr e \<and>
    LogRecord_Size r' = LogRecord_Size r"
  by (rule written_record_verifies [OF assms])
    (auto simp: LogRecord_Size_def entry_of_is_entry)

lemma log_record_roundtrip_witness:
  "\<exists>r r'. NewInsertRecord (replicate 30 0) 7 (RecordID (PageID 1 2) 3) [4, 5] = Inr r \<and>
     bindR (WriteToLog r (replicate 30 0)) AsVerifiedLogRecord = Inr r' \<and>
     entry_of r' = Inr (InsertE 7 (RecordID (PageID 1 2) 3) [4, 5])"
proof -
  obtain r where r: "NewInsertRecord (replicate 30 0) 7 (RecordID (PageID 1 2) 3) [4, 5] = Inr r"
      "is_entry r (InsertE 7 (RecordID (PageID 1 2) 3) [4, 5])"
    using NewInsertRecord_entry [of "replicate 30 0" "[4, 5]"]
    by (auto simp: InsertRecordSize_def log_offsets)
  then have "LogRecord_Size r = 30" by (auto simp: is_entry_def LogRecord_Size_def)
  then show ?thesis using log_record_roundtrip [OF r(2), of "replicate 30 0"] r(1) by auto
qed

text \<open>
  Both bounds matter.  \<^verbatim>\<open>WriteToLog\<close> also takes a longer buffer, but then the checksum
  covers the bytes behind the record: with one more byte, the record that is cut out of the
  buffer is accepted for at most one of the 256 values of that byte.  And the size field of a
  record of 64 KiB or more holds the remainder of its size only.
\<close>

lemma longer_buffer_bytes:
  assumes "length xs = length (lr_data r)" "8 \<le> length xs" "WriteToLog r (xs @ [x]) = Inr b" "AsVerifiedLogRecord (take (length xs) b) = Inr r'"
  shows "ChecksumIEEE (drop 6 (lr_data r) @ [x]) = ChecksumIEEE (drop 6 (lr_data r))"
proof -
  have b: "b = le_put 2 (of_nat (length xs) :: 16 word) @ le_put 4 (ChecksumIEEE (drop 6 (lr_data r) @ [x])) @ drop 6 (lr_data r) @ [x]"
  proof -
    obtain s r1 where 1: "lr_data r = s @ r1" "length s = 2" using split_front [of 2 "lr_data r"] assms by auto
    obtain c r2 where 2: "r1 = c @ r2" "length c = 4" using split_front [of 4 r1] assms 1 by auto
    show ?thesis
      using assms 1 2 by (simp add: WriteToLog_def go_copy_def put_checked_def from_checked_def put_at_def LogRecord_Size_def log_offsets Let_def)
  qed
  show ?thesis using assms(1,2,4) by (auto simp: b verified_bytes split: if_splits)
qed

lemma longer_buffer_rejected:
  assumes "length xs = length (lr_data r)" "8 \<le> length xs" "WriteToLog r (xs @ [x]) = Inr b" "WriteToLog r (xs @ [y]) = Inr b'"
    "AsVerifiedLogRecord (take (length xs) b) = Inr r1" "AsVerifiedLogRecord (take (length xs) b') = Inr r2"
  shows "x = y"
proof (rule ChecksumIEEE_byte)
  show "ChecksumIEEE (drop 6 (lr_data r) @ x # []) = ChecksumIEEE (drop 6 (lr_data r) @ y # [])"
    using longer_buffer_bytes [OF assms(1,2,3,5)] longer_buffer_bytes [OF assms(1,2,4,6)] by simp
qed

lemma long_record_size_wraps:
  assumes "8 \<le> LogRecord_Size r" "WriteToLog r (replicate (LogRecord_Size r) 0) = Inr b"
  shows "unat (le_get (slice offsetSize 2 b) :: 16 word) = LogRecord_Size r mod 65536"
  using assms WriteToLog_bytes [of "replicate (LogRecord_Size r) 0" r]
  by (auto simp: slice_def unat_of_nat log_offsets LogRecord_Size_def)

text \<open>
  Every operation record has a compensation record.  From a logged insert, delete or
  update the matching CLR constructor builds, in a buffer of the size its size function
  gives, a record for the same transaction and slot; the update's CLR carries the before
  image as its after image.
\<close>

theorem clr_constructors:
  "(is_entry r (InsertE txn rid row) \<and> length buf = InsertCLRSize \<longrightarrow>
     (\<exists>c. NewInsertCLR buf r = Inr c \<and> entry_of c = Inr (InsertClrE txn rid))) \<and>
   (is_entry r (DeleteE txn rid) \<and> length buf = DeleteCLRSize \<longrightarrow>
     (\<exists>c. NewDeleteCLR buf r = Inr c \<and> entry_of c = Inr (DeleteClrE txn rid))) \<and>
   (is_entry r (UpdateE txn rid before after) \<and> UpdateCLRSize r = Inr (length buf) \<longrightarrow>
     (\<exists>c. NewUpdateCLR buf r = Inr c \<and> entry_of c = Inr (UpdateClrE txn rid before)))"
proof (intro conjI impI; elim conjE)
  show "\<exists>c. NewInsertCLR buf r = Inr c \<and> entry_of c = Inr (InsertClrE txn rid)"
    if "is_entry r (InsertE txn rid row)" "length buf = InsertCLRSize"
    using that NewInsertCLR_entry entry_of_is_entry by blast
  show "\<exists>c. NewDeleteCLR buf r = Inr c \<and> entry_of c = Inr (DeleteClrE txn rid)"
    if "is_entry r (DeleteE txn rid)" "length buf = DeleteCLRSize"
    using that NewDeleteCLR_entry entry_of_is_entry by blast
  assume u: "is_entry r (UpdateE txn rid before after)" "UpdateCLRSize r = Inr (length buf)"
  then have "length buf = 28 + length before"
    using NewUpdateCLR_entry(1) [of "replicate (28 + length before) 0" before r txn rid after] by simp
  then show "\<exists>c. NewUpdateCLR buf r = Inr c \<and> entry_of c = Inr (UpdateClrE txn rid before)"
    using NewUpdateCLR_entry(2) u(1) entry_of_is_entry by blast
qed

lemma clr_constructors_witness:
  "\<exists>r c. NewDeleteRecord (replicate 28 0) 7 (RecordID (PageID 1 2) 3) = Inr r \<and>
     NewDeleteCLR (replicate 28 0) r = Inr c \<and> entry_of c = Inr (DeleteClrE 7 (RecordID (PageID 1 2) 3))"
proof -
  obtain r where "NewDeleteRecord (replicate 28 0) 7 (RecordID (PageID 1 2) 3) = Inr r"
      "is_entry r (DeleteE 7 (RecordID (PageID 1 2) 3))"
    using NewDeleteRecord_entry [of "replicate 28 0"] by (auto simp: record_sizes log_offsets)
  then show ?thesis using clr_constructors [of r 7 _ _ "replicate 28 0"]
    by (auto simp: record_sizes log_offsets)
qed

text \<open>
  C15: Single-byte corruption is detected.  If \<^verbatim>\<open>AsVerifiedLogRecord\<close> accepts
  some bytes, it rejects the same bytes with any one byte replaced by another value,
  wherever that byte lies (size, checksum, type or payload).
\<close>

theorem single_byte_corruption_detected:
  assumes "AsVerifiedLogRecord b = Inr r" "i < length b" "x \<noteq> b ! i"
  shows "AsVerifiedLogRecord (b[i := x]) = Inl ErrCorruptedLogRecord"
proof -
  have l8: "8 \<le> length b" using assms(1) by (auto simp: AsVerifiedLogRecord_def log_offsets split: if_splits)
  obtain s r1 where 1: "b = s @ r1" "length s = 2" using split_front [of 2 b] l8 by auto
  obtain c q where 2: "r1 = c @ q" "length c = 4" using split_front [of 4 r1] l8 1 by auto
  have ok: "le_get s = (of_nat (6 + length q) :: 16 word)" "le_get c = ChecksumIEEE q"
    using assms(1) 1 2 l8 by (simp_all add: verified_bytes split: if_splits)
  consider (size) "i < 2" | (checksum) "2 \<le> i" "i < 6" | (payload) "6 \<le> i" by linarith
  then show ?thesis
  proof cases
    case size
    have "le_get (s[i := x]) \<noteq> (le_get s :: 16 word)"
    proof
      assume "le_get (s[i := x]) = (le_get s :: 16 word)"
      then have "s[i := x] = s" using 1 by (intro le_get_inj [where 'a = 16]) simp_all
      then have "s ! i = x" using size 1 by (metis nth_list_update_eq)
      then show False using size 1 assms(3) by (simp add: nth_append)
    qed
    then show ?thesis using size 1 2 ok l8 by (simp add: verified_bytes list_update_append)
  next
    case checksum
    have "le_get (c[i - 2 := x]) \<noteq> (le_get c :: 32 word)"
    proof
      assume "le_get (c[i - 2 := x]) = (le_get c :: 32 word)"
      then have "c[i - 2 := x] = c" using 2 by (intro le_get_inj [where 'a = 32]) simp_all
      moreover have "i - 2 < length c" using checksum 2 by simp
      ultimately have "c ! (i - 2) = x" by (metis nth_list_update_eq)
      then show False using checksum 1 2 assms(3) by (simp add: nth_append split: if_splits)
    qed
    moreover have "i - 2 < 4" using checksum by simp
    then have "b[i := x] = s @ c[i - 2 := x] @ q" using checksum 1 2 by (simp add: list_update_append)
    ultimately show ?thesis using 1 2 ok l8 by (simp add: verified_bytes)
  next
    case payload
    let ?k = "i - 6"
    have k: "?k < length q" "b ! i = q ! ?k" using payload 1 2 assms(2) by (auto simp: nth_append)
    have "ChecksumIEEE (q[?k := x]) \<noteq> ChecksumIEEE q"
      using ChecksumIEEE_byte [of "take ?k q" x "drop (Suc ?k) q" "q ! ?k"] k assms(3)
      by (auto simp: upd_conv_take_nth_drop id_take_nth_drop [symmetric])
    moreover have "\<not> i - 2 < 4" using payload by simp
    then have "b[i := x] = s @ c @ q[?k := x]" using payload 1 2 by (simp add: list_update_append)
    ultimately show ?thesis using 1 2 ok l8 by (simp add: verified_bytes)
  qed
qed

lemma single_byte_corruption_detected_witness:
  "\<exists>b. bindR (NewCommitRecord (replicate 16 0) 9) (\<lambda>r. WriteToLog r (replicate 16 0)) = Inr b \<and>
     AsVerifiedLogRecord (b[8 := b ! 8 + 1]) = Inl ErrCorruptedLogRecord"
proof -
  obtain r where r: "NewCommitRecord (replicate 16 0) 9 = Inr r" "is_entry r (CommitE 9)"
    using NewTxnRecords(2) [of "replicate 16 0" 9] by auto
  then have n: "LogRecord_Size r = 16" by (auto simp: is_entry_def LogRecord_Size_def)
  show ?thesis
    by (rule written_record_verifies [OF r(2), of "replicate 16 0"])
      (use r n single_byte_corruption_detected [of _ _ 8] in \<open>auto\<close>)
qed

end
