(* ===== verification/Log_Manager.thy ===== *)
theory Log_Manager
  imports Log_Record
begin

text \<open>
  The write-ahead log: \<^verbatim>\<open>logging/double_buffer_log.go\<close> (two in-memory buffers and a
  background flusher), \<^verbatim>\<open>logging/log_file_iterator.go\<close> (the reader that recovery
  uses) and the in-memory manager of \<^verbatim>\<open>logging/test_log_manager.go\<close>.  Log sequence
  numbers are byte offsets; they are unbounded integers here where the code has
  \<^verbatim>\<open>int64\<close>: the model is that of a log that does not reach \<open>2^63\<close> bytes.  The write of
  the back buffer and the increase of the flushed position, which the code does one after the
  other, are one step; in between a caller would see the older, smaller flushed position.
  The locale \<open>write_ahead_log\<close> is the contract both managers give their clients.
\<close>

section \<open>Reading a log file\<close>

record LogFileIterator =
  it_currentLSN :: int
  it_recordStartLSN :: int
  it_reader :: "byte list"
  it_record :: LogRecord
  it_err :: "fault option"

definition NewLogFileIterator :: "byte list \<Rightarrow> nat \<Rightarrow> LogFileIterator" where
  "NewLogFileIterator file startLSN =
     \<lparr>it_currentLSN = int startLSN, it_recordStartLSN = int startLSN,
      it_reader = drop startLSN file, it_record = \<lparr>lr_data = []\<rparr>, it_err = None\<rparr>"

text \<open>
  \<^verbatim>\<open>Peek\<close> needs two bytes; \<^verbatim>\<open>io.ReadFull\<close> consumes what is left when the
  record is cut short.
\<close>

definition LogFileIterator_Next :: "LogFileIterator \<Rightarrow> bool \<times> LogFileIterator" where
  "LogFileIterator_Next it =
     (if it_err it \<noteq> None then (False, it)
      else if length (it_reader it) < 2 then (False, it)
      else let size = unat (le_get (take 2 (it_reader it)) :: 16 word);
               data = take size (it_reader it);
               it1 = it\<lparr>it_reader := drop size (it_reader it)\<rparr>
           in if length data < size then (False, it1)
              else case AsVerifiedLogRecord data of
                     Inl e \<Rightarrow> (False, it1\<lparr>it_record := \<lparr>lr_data = []\<rparr>\<rparr>)
                   | Inr r \<Rightarrow> (True, it1\<lparr>it_record := r, it_recordStartLSN := it_currentLSN it,
                                       it_currentLSN := it_currentLSN it + int size\<rparr>))"

lemma Next_consumes:
  assumes "LogFileIterator_Next it = (True, it')"
  shows "length (it_reader it') < length (it_reader it)"
proof -
  have "8 \<le> unat (le_get (take 2 (it_reader it)) :: 16 word)"
    if "AsVerifiedLogRecord (take (unat (le_get (take 2 (it_reader it)) :: 16 word)) (it_reader it)) = Inr r" for r
    using that by (auto simp: AsVerifiedLogRecord_def log_offsets Let_def not_less split: if_splits)
  then show ?thesis
    using assms by (fastforce simp: LogFileIterator_Next_def Let_def split: if_splits sum.splits)
qed

text \<open>The loop \<^verbatim>\<open>for iter.Next()\<close>, with the position and record of each turn.\<close>

function log_scan :: "LogFileIterator \<Rightarrow> (int \<times> LogRecord) list" where
  "log_scan it =
     (let (more_left, it') = LogFileIterator_Next it
      in if more_left then (it_recordStartLSN it', it_record it') # log_scan it' else [])"
  by pat_completeness auto
termination
proof (relation "measure (\<lambda>it. length (it_reader it))")
  fix it p x y
  assume "p = LogFileIterator_Next it" "(x, y) = p" "x"
  then have "LogFileIterator_Next it = (True, y)" by simp
  then show "(y, it) \<in> measure (\<lambda>it. length (it_reader it))" by (simp add: Next_consumes)
qed simp

declare log_scan.simps [simp del]

section \<open>The double-buffered manager\<close>

definition logBufferSize :: nat where "logBufferSize = 2 ^ 20"

text \<open>
  The manager with its file.  \<open>freed\<close> says that \<^verbatim>\<open>Close\<close> has set the buffers to
  nil, \<open>stopped\<close> that the flusher has ended.
\<close>

record DoubleBufferLogManager =
  lm_front :: "byte list"
  lm_back :: "byte list"
  lm_lsn :: int
  flushedLSN :: int
  waiterCount :: nat
  lm_closed :: bool
  flushCh :: bool
  log_file :: "byte list"
  stopped :: bool
  freed :: bool

definition NewDoubleBufferLogManager :: "byte list \<Rightarrow> DoubleBufferLogManager" where
  "NewDoubleBufferLogManager file =
     \<lparr>lm_front = [], lm_back = [], lm_lsn = int (length file), flushedLSN = int (length file),
      waiterCount = 0, lm_closed = False, flushCh = False, log_file = file, stopped = False,
      freed = False\<rparr>"

definition append_check :: "DoubleBufferLogManager \<Rightarrow> unit res" where
  "append_check lm = (if lm_closed lm then Inl (GoDBError LogClosedError) else Inr ())"

definition append_enter :: "DoubleBufferLogManager \<Rightarrow> DoubleBufferLogManager" where
  "append_enter lm = lm\<lparr>waiterCount := waiterCount lm + 1\<rparr>"

definition append_blocked :: "DoubleBufferLogManager \<Rightarrow> LogRecord \<Rightarrow> bool" where
  "append_blocked lm r \<longleftrightarrow> length (lm_front lm) + LogRecord_Size r \<ge> logBufferSize"

definition append_signal :: "DoubleBufferLogManager \<Rightarrow> DoubleBufferLogManager" where
  "append_signal lm = lm\<lparr>flushCh := True\<rparr>"

text \<open>
  The critical section once there is room.  The bytes the grown slice exposes are
  overwritten by the record, so their old content does not matter.
\<close>

definition append_write :: "DoubleBufferLogManager \<Rightarrow> LogRecord \<Rightarrow> (int \<times> DoubleBufferLogManager) res" where
  "append_write lm r =
     (if freed lm \<and> LogRecord_Size r > 0 then Inl (Panic ''slice bounds out of range'')
      else bindR (WriteToLog r (replicate (LogRecord_Size r) 0)) (\<lambda>b.
        Inr (lm_lsn lm, lm\<lparr>lm_lsn := lm_lsn lm + int (LogRecord_Size r), lm_front := lm_front lm @ b,
                           waiterCount := waiterCount lm - 1\<rparr>)))"

text \<open>An append that meets no contention and finds room.\<close>

definition DBLM_Append :: "DoubleBufferLogManager \<Rightarrow> LogRecord \<Rightarrow> (int \<times> DoubleBufferLogManager) res" where
  "DBLM_Append lm r =
     bindR (append_check lm) (\<lambda>_. append_write (append_enter lm) r)"

text \<open>One pass of the waiting loop: \<open>None\<close> while the caller has to sleep.\<close>

definition wait_pass :: "DoubleBufferLogManager \<Rightarrow> int \<Rightarrow> unit res option" where
  "wait_pass lm lsn =
     (if lsn > flushedLSN lm then (if lm_closed lm then Some (Inl (GoDBError LogClosedError)) else None)
      else Some (Inr ()))"

definition DBLM_WaitUntilFlushed :: "DoubleBufferLogManager \<Rightarrow> int \<Rightarrow> unit res option" where
  "DBLM_WaitUntilFlushed lm lsn =
     (if lm_closed lm then Some (Inl (GoDBError LogClosedError)) else wait_pass lm lsn)"

definition DBLM_FlushedUntil :: "DoubleBufferLogManager \<Rightarrow> int" where
  "DBLM_FlushedUntil lm = flushedLSN lm"

definition flusher_swap :: "DoubleBufferLogManager \<Rightarrow> DoubleBufferLogManager" where
  "flusher_swap lm =
     (if lm_front lm \<noteq> [] \<and> lm_back lm = []
      then lm\<lparr>lm_front := lm_back lm, lm_back := lm_front lm, flushCh := False\<rparr> else lm\<lparr>flushCh := False\<rparr>)"

text \<open>\<open>ok\<close>: whether the file system takes the write; a failure is a failed assertion.\<close>

definition flusher_write :: "bool \<Rightarrow> DoubleBufferLogManager \<Rightarrow> DoubleBufferLogManager res" where
  "flusher_write ok lm =
     (if lm_back lm = [] then Inr lm
      else if \<not> ok then Inl (Panic ''Failed to flush log records in back buffer to log file'')
      else Inr (lm\<lparr>log_file := log_file lm @ lm_back lm, lm_back := [],
                   flushedLSN := flushedLSN lm + int (length (lm_back lm))\<rparr>))"

definition flusher_may_stop :: "DoubleBufferLogManager \<Rightarrow> bool" where
  "flusher_may_stop lm \<longleftrightarrow> lm_closed lm \<and> waiterCount lm = 0 \<and> lm_front lm = [] \<and> lm_back lm = []"

definition DBLM_Close :: "DoubleBufferLogManager \<Rightarrow> DoubleBufferLogManager res" where
  "DBLM_Close lm =
     (if lm_closed lm then Inl (GoDBError LogClosedError) else Inr (lm\<lparr>lm_closed := True\<rparr>))"

definition close_cleanup :: "DoubleBufferLogManager \<Rightarrow> DoubleBufferLogManager" where
  "close_cleanup lm = lm\<lparr>lm_front := [], lm_back := [], freed := True\<rparr>"

definition DBLM_Iterator :: "DoubleBufferLogManager \<Rightarrow> nat \<Rightarrow> LogFileIterator" where
  "DBLM_Iterator lm startLSN = NewLogFileIterator (log_file lm) startLSN"

text \<open>
  The interleavings.  A state pairs the manager with the records whose
  \<^verbatim>\<open>Append\<close> has passed the closed check (\<open>checked\<close>) or is counted as a waiter
  (\<open>waiting\<close>), and with the history of completed appends.
\<close>

record log_state =
  mgr :: DoubleBufferLogManager
  checked :: "LogRecord list"
  waiting :: "LogRecord list"
  history :: "(int \<times> LogRecord) list"

inductive log_step :: "log_state \<Rightarrow> log_state \<Rightarrow> bool" where
  l_check: "append_check (mgr s) = Inr () \<Longrightarrow> log_step s (s\<lparr>checked := r # checked s\<rparr>)"
| l_enter: "r \<in> set (checked s) \<Longrightarrow>
    log_step s (s\<lparr>mgr := append_enter (mgr s), checked := remove1 r (checked s), waiting := r # waiting s\<rparr>)"
| l_signal: "r \<in> set (waiting s) \<Longrightarrow> append_blocked (mgr s) r \<Longrightarrow>
    log_step s (s\<lparr>mgr := append_signal (mgr s)\<rparr>)"
| l_write: "r \<in> set (waiting s) \<Longrightarrow> \<not> append_blocked (mgr s) r \<Longrightarrow> append_write (mgr s) r = Inr (l, m) \<Longrightarrow>
    log_step s (s\<lparr>mgr := m, waiting := remove1 r (waiting s), history := history s @ [(l, r)]\<rparr>)"
| l_swap: "\<not> stopped (mgr s) \<Longrightarrow> log_step s (s\<lparr>mgr := flusher_swap (mgr s)\<rparr>)"
| l_flush: "\<not> stopped (mgr s) \<Longrightarrow> flusher_write True (mgr s) = Inr m \<Longrightarrow> log_step s (s\<lparr>mgr := m\<rparr>)"
| l_stop: "flusher_may_stop (mgr s) \<Longrightarrow> log_step s (s\<lparr>mgr := (mgr s)\<lparr>stopped := True\<rparr>\<rparr>)"
| l_close: "DBLM_Close (mgr s) = Inr m \<Longrightarrow> log_step s (s\<lparr>mgr := m\<rparr>)"
| l_cleanup: "lm_closed (mgr s) \<Longrightarrow> stopped (mgr s) \<Longrightarrow> log_step s (s\<lparr>mgr := close_cleanup (mgr s)\<rparr>)"

inductive log_reach :: "byte list \<Rightarrow> log_state \<Rightarrow> bool" for f0 where
  l_start: "log_reach f0 \<lparr>mgr = NewDoubleBufferLogManager f0, checked = [], waiting = [], history = []\<rparr>"
| l_step: "log_reach f0 s \<Longrightarrow> log_step s t \<Longrightarrow> log_reach f0 t"

section \<open>The in-memory manager\<close>

record MemoryLogManager =
  mm_buffer :: "byte list"
  mm_offsets :: "nat list"
  flushedUntil :: int
  flushOnAppend :: bool
  appendCountdown :: int
  appendCountdownErr :: fault

definition NewMemoryLogManager :: "fault \<Rightarrow> MemoryLogManager" where
  "NewMemoryLogManager e =
     \<lparr>mm_buffer = [], mm_offsets = [], flushedUntil = 0, flushOnAppend = False,
      appendCountdown = - 1, appendCountdownErr = e\<rparr>"

definition Memory_Append :: "MemoryLogManager \<Rightarrow> LogRecord \<Rightarrow> (int \<times> MemoryLogManager) res" where
  "Memory_Append m r =
     (if appendCountdown m = 0 then Inl (appendCountdownErr m)
      else let m1 = (if appendCountdown m \<ge> 0 then m\<lparr>appendCountdown := appendCountdown m - 1\<rparr> else m);
               lsn = length (mm_buffer m)
           in bindR (WriteToLog r (replicate (LogRecord_Size r) 0)) (\<lambda>b.
              Inr (int lsn,
                   m1\<lparr>mm_buffer := mm_buffer m @ b, mm_offsets := mm_offsets m @ [lsn],
                      flushedUntil := (if flushOnAppend m then int (lsn + LogRecord_Size r)
                                       else flushedUntil m)\<rparr>)))"

definition Memory_WaitUntilFlushed :: "MemoryLogManager \<Rightarrow> int \<Rightarrow> bool" where
  "Memory_WaitUntilFlushed m lsn \<longleftrightarrow> lsn < flushedUntil m"

definition SetFlushedLSN :: "MemoryLogManager \<Rightarrow> int \<Rightarrow> MemoryLogManager" where
  "SetFlushedLSN m lsn = (if lsn \<le> flushedUntil m then m else m\<lparr>flushedUntil := lsn\<rparr>)"

definition Tail :: "MemoryLogManager \<Rightarrow> int" where
  "Tail m = int (length (mm_buffer m))"

definition SetAppendErrorAfterN :: "MemoryLogManager \<Rightarrow> int \<Rightarrow> fault \<Rightarrow> MemoryLogManager" where
  "SetAppendErrorAfterN m n e = m\<lparr>appendCountdown := n, appendCountdownErr := e\<rparr>"

definition GetRecord :: "MemoryLogManager \<Rightarrow> nat \<Rightarrow> LogRecord res" where
  "GetRecord m i =
     bindR (nth_checked (mm_offsets m) i) (\<lambda>off.
     bindR (from_checked off (mm_buffer m)) (\<lambda>buf.
     bindR (slice_checked 0 2 buf) (\<lambda>h.
     bindR (slice_checked 0 (unat (le_get h :: 16 word)) buf) (\<lambda>d. Inr (AsLogRecord d)))))"

section \<open>The iterator returns what was logged\<close>

definition record_bytes :: "LogRecord \<Rightarrow> byte list" where
  "record_bytes r = (case WriteToLog r (replicate (LogRecord_Size r) 0) of Inl _ \<Rightarrow> [] | Inr b \<Rightarrow> b)"

definition loggable :: "LogRecord \<Rightarrow> bool" where
  "loggable r \<longleftrightarrow> (\<exists>e. is_entry r e) \<and> LogRecord_Size r < 65536"

lemma record_bytes:
  assumes "loggable r" "is_entry r e"
  shows "WriteToLog r (replicate (LogRecord_Size r) 0) = Inr (record_bytes r)"
    "length (record_bytes r) = LogRecord_Size r"
    "AsVerifiedLogRecord (record_bytes r) = Inr \<lparr>lr_data = record_bytes r\<rparr>"
    "is_entry \<lparr>lr_data = record_bytes r\<rparr> e"
    "le_get (take 2 (record_bytes r)) = (of_nat (length (record_bytes r)) :: 16 word)"
proof -
  have "LogRecord_Size r < 65536" using assms by (simp add: loggable_def)
  then obtain b where b: "WriteToLog r (replicate (LogRecord_Size r) 0) = Inr b" "length b = LogRecord_Size r"
    "AsVerifiedLogRecord b = Inr \<lparr>lr_data = b\<rparr>" "is_entry \<lparr>lr_data = b\<rparr> e"
    "le_get (take 2 b) = (of_nat (length b) :: 16 word)"
    using written_record_verifies [OF assms(2), of "replicate (LogRecord_Size r) 0"] by auto
  then have "record_bytes r = b" by (simp add: record_bytes_def)
  then show "WriteToLog r (replicate (LogRecord_Size r) 0) = Inr (record_bytes r)"
    "length (record_bytes r) = LogRecord_Size r"
    "AsVerifiedLogRecord (record_bytes r) = Inr \<lparr>lr_data = record_bytes r\<rparr>"
    "is_entry \<lparr>lr_data = record_bytes r\<rparr> e"
    "le_get (take 2 (record_bytes r)) = (of_nat (length (record_bytes r)) :: 16 word)"
    using b by simp_all
qed

lemma record_bytes_size:
  assumes "loggable r"
  shows "unat (le_get (take 2 (record_bytes r)) :: 16 word) = length (record_bytes r)"
    "8 \<le> length (record_bytes r)" "AsVerifiedLogRecord (record_bytes r) = Inr \<lparr>lr_data = record_bytes r\<rparr>"
proof -
  obtain e where e: "is_entry r e" using assms by (auto simp: loggable_def)
  note rb = record_bytes [OF assms e]
  show "AsVerifiedLogRecord (record_bytes r) = Inr \<lparr>lr_data = record_bytes r\<rparr>" by (rule rb)
  show "unat (le_get (take 2 (record_bytes r)) :: 16 word) = length (record_bytes r)"
    using rb(2,5) assms by (simp add: loggable_def unat_of_nat)
  show "8 \<le> length (record_bytes r)"
    using rb(3) by (auto simp: AsVerifiedLogRecord_def log_offsets not_less split: if_splits)
qed

text \<open>The expected result, and the records that lie wholly within the first \<open>k\<close> bytes.\<close>

fun expect :: "int \<Rightarrow> LogRecord list \<Rightarrow> (int \<times> LogRecord) list" where
  "expect n [] = []"
| "expect n (r # rs) = (n, \<lparr>lr_data = record_bytes r\<rparr>) # expect (n + int (length (record_bytes r))) rs"

fun whole :: "nat \<Rightarrow> LogRecord list \<Rightarrow> LogRecord list" where
  "whole k [] = []"
| "whole k (r # rs) =
     (if length (record_bytes r) \<le> k then r # whole (k - length (record_bytes r)) rs else [])"

lemma whole_all: "length (concat (map record_bytes rs)) \<le> k \<Longrightarrow> whole k rs = rs"
  by (induction rs arbitrary: k) auto

lemma Next_whole:
  assumes "loggable r" "it_reader it = record_bytes r @ rest" "it_err it = None"
  shows "LogFileIterator_Next it =
    (True, it\<lparr>it_reader := rest, it_record := \<lparr>lr_data = record_bytes r\<rparr>,
              it_recordStartLSN := it_currentLSN it,
              it_currentLSN := it_currentLSN it + int (length (record_bytes r))\<rparr>)"
  using record_bytes_size [OF assms(1)] assms(2,3)
  by (simp add: LogFileIterator_Next_def Let_def)

lemma Next_torn:
  assumes "loggable r" "it_reader it = take k (record_bytes r)" "k < length (record_bytes r)"
  shows "fst (LogFileIterator_Next it) = False"
proof -
  have "take 2 (take k (record_bytes r)) = take 2 (record_bytes r)" if "2 \<le> k"
    using that by (simp add: min_def)
  then show ?thesis
    using record_bytes_size [OF assms(1)] assms(2,3)
    by (auto simp: LogFileIterator_Next_def Let_def)
qed

lemma log_scan_prefix:
  assumes "\<forall>r \<in> set rs. loggable r" "it_reader it = take k (concat (map record_bytes rs))" "it_err it = None"
  shows "log_scan it = expect (it_currentLSN it) (whole k rs)"
  using assms
proof (induction rs arbitrary: it k)
  case Nil
  then show ?case by (simp add: log_scan.simps LogFileIterator_Next_def)
next
  case (Cons r rs)
  have r: "loggable r" using Cons.prems by simp
  show ?case
  proof (cases "length (record_bytes r) \<le> k")
    case True
    then have "it_reader it = record_bytes r @ take (k - length (record_bytes r)) (concat (map record_bytes rs))"
      using Cons.prems by simp
    then show ?thesis
      using Cons.IH [of "snd (LogFileIterator_Next it)" "k - length (record_bytes r)"] Cons.prems True
        Next_whole [OF r]
      by (subst log_scan.simps) (simp add: Let_def)
  next
    case False
    then have "it_reader it = take k (record_bytes r)" using Cons.prems by simp
    then have "fst (LogFileIterator_Next it) = False" using Next_torn [OF r] False by simp
    then show ?thesis using False by (subst log_scan.simps) (simp add: case_prod_beta Let_def)
  qed
qed

section \<open>No append is lost or reordered\<close>

lemma WriteToLog_length: "WriteToLog r buf = Inr b \<Longrightarrow> length b = length buf"
  by (auto simp: WriteToLog_def put_checked_def from_checked_def Let_def split: if_splits)

lemma append_write_bytes:
  assumes "append_write lm r = Inr (l, m)"
  shows "l = lm_lsn lm" "\<not> freed lm"
    "m = lm\<lparr>lm_lsn := lm_lsn lm + int (length (record_bytes r)), lm_front := lm_front lm @ record_bytes r,
            waiterCount := waiterCount lm - 1\<rparr>"
proof -
  obtain b where b: "WriteToLog r (replicate (LogRecord_Size r) 0) = Inr b" "l = lm_lsn lm"
      "m = lm\<lparr>lm_lsn := lm_lsn lm + int (LogRecord_Size r), lm_front := lm_front lm @ b,
            waiterCount := waiterCount lm - 1\<rparr>" "\<not> (freed lm \<and> LogRecord_Size r > 0)"
    using assms by (auto simp: append_write_def split: if_splits)
  have "LogRecord_Size r > 0"
    using b(1) by (auto simp: WriteToLog_def put_checked_def Let_def split: if_splits)
  then show "\<not> freed lm" using b(4) by simp
  show "l = lm_lsn lm" "m = lm\<lparr>lm_lsn := lm_lsn lm + int (length (record_bytes r)),
      lm_front := lm_front lm @ record_bytes r, waiterCount := waiterCount lm - 1\<rparr>"
    using b WriteToLog_length [OF b(1)] by (simp_all add: record_bytes_def)
qed

fun lsns_ok :: "int \<Rightarrow> (int \<times> LogRecord) list \<Rightarrow> bool" where
  "lsns_ok n [] = True"
| "lsns_ok n ((l, r) # h) = (l = n \<and> lsns_ok (n + int (length (record_bytes r))) h)"

definition logged :: "(int \<times> LogRecord) list \<Rightarrow> byte list" where
  "logged h = concat (map (\<lambda>(l, r). record_bytes r) h)"

lemma logged_snoc [simp]: "logged (h @ [(l, r)]) = logged h @ record_bytes r"
  by (simp add: logged_def)

lemma lsns_ok_snoc: "lsns_ok n (h @ [(l, r)]) \<longleftrightarrow> lsns_ok n h \<and> l = n + int (length (logged h))"
  by (induction h arbitrary: n) (auto simp: logged_def)

definition log_inv :: "byte list \<Rightarrow> log_state \<Rightarrow> bool" where
  "log_inv f0 s \<longleftrightarrow>
     (let m = mgr s; all = f0 @ logged (history s)
      in (if freed m then lm_back m = [] \<and> lm_front m = [] \<and> (\<exists>rest. log_file m @ rest = all)
          else log_file m @ lm_back m @ lm_front m = all) \<and>
         flushedLSN m = int (length (log_file m)) \<and> lm_lsn m = int (length all) \<and>
         lsns_ok (int (length f0)) (history s))"

lemma log_inv_step: "log_step s t \<Longrightarrow> log_inv f0 s \<Longrightarrow> log_inv f0 t"
proof (induction rule: log_step.induct)
  case (l_write r s l m)
  then show ?case
    using append_write_bytes [OF l_write(3)]
    by (auto simp: log_inv_def lsns_ok_snoc Let_def)
next
  case (l_flush s m)
  then show ?case by (auto simp: log_inv_def flusher_write_def Let_def split: if_splits)
next
  case (l_cleanup s)
  then show ?case by (auto simp: log_inv_def close_cleanup_def Let_def split: if_splits)
qed (auto simp: log_inv_def append_enter_def append_signal_def flusher_swap_def flusher_may_stop_def
    DBLM_Close_def close_cleanup_def Let_def split: if_splits)

lemma log_inv_reach: "log_reach f0 s \<Longrightarrow> log_inv f0 s"
proof (induction rule: log_reach.induct)
  case l_start
  show ?case by (simp add: log_inv_def NewDoubleBufferLogManager_def logged_def)
qed (rule log_inv_step)

lemma lsns_ok_middle: "lsns_ok n (h1 @ (l, r) # h2) \<Longrightarrow> l = n + int (length (logged h1))"
proof (induction h1 arbitrary: n)
  case (Cons a h1)
  obtain l' r' where a: "a = (l', r')" by (cases a)
  then have "l = n + int (length (record_bytes r')) + int (length (logged h1))" using Cons by simp
  then show ?case by (simp add: a logged_def)
qed (simp add: logged_def)

text \<open>
  C12: The log keeps every append, in order.  Along every interleaving of appends, buffer
  swaps, flushes and \<^verbatim>\<open>Close\<close>, the log file is a prefix of the old file
  followed by the records in the order their appends returned, each at the byte offset
  that \<^verbatim>\<open>Append\<close> returned as its LSN; \<^verbatim>\<open>flushedLSN\<close> is the length of the
  file; and until the buffers are released the file and the two buffers together hold
  all of them.
\<close>

theorem log_keeps_appends:
  assumes "log_reach f0 s"
  shows "(\<exists>rest. log_file (mgr s) @ rest = f0 @ logged (history s)) \<and>
    flushedLSN (mgr s) = int (length (log_file (mgr s))) \<and>
    lsns_ok (int (length f0)) (history s) \<and>
    (\<not> freed (mgr s) \<longrightarrow>
       log_file (mgr s) @ lm_back (mgr s) @ lm_front (mgr s) = f0 @ logged (history s))"
  using log_inv_reach [OF assms] by (auto simp: log_inv_def Let_def split: if_splits)

text \<open>A concrete run: one commit record is appended.\<close>

definition commit_record :: LogRecord where
  "commit_record = \<lparr>lr_data = [0, 0, 0, 0, 0, 0, 2, 0, 9, 0, 0, 0, 0, 0, 0, 0]\<rparr>"

lemma commit_record_new: "NewCommitRecord (replicate 16 0) 9 = Inr commit_record"
  by code_simp

lemma commit_record_entry: "is_entry commit_record (CommitE 9)" "loggable commit_record"
    "LogRecord_Size commit_record = 16"
proof -
  show e: "is_entry commit_record (CommitE 9)"
    using NewTxnRecords(2) [of "replicate 16 0" 9] commit_record_new by auto
  show "LogRecord_Size commit_record = 16" by (simp add: LogRecord_Size_def commit_record_def)
  then show "loggable commit_record" using e by (auto simp: loggable_def)
qed

definition after_append :: log_state where
  "after_append = \<lparr>mgr = (NewDoubleBufferLogManager [])\<lparr>lm_front := record_bytes commit_record, lm_lsn := 16\<rparr>,
     checked = [], waiting = [], history = [(0, commit_record)]\<rparr>"

lemma after_append_reach: "log_reach [] after_append"
proof -
  let ?s0 = "\<lparr>mgr = NewDoubleBufferLogManager [], checked = [], waiting = [], history = []\<rparr>"
  let ?s1 = "?s0\<lparr>checked := [commit_record]\<rparr>"
  let ?s2 = "?s1\<lparr>mgr := append_enter (mgr ?s1), checked := [], waiting := [commit_record]\<rparr>"
  note rb = record_bytes [OF commit_record_entry(2,1)]
  have "log_reach [] ?s1"
    by (rule l_step [OF l_start]) (use l_check [of ?s0 commit_record] in
        \<open>simp add: append_check_def NewDoubleBufferLogManager_def\<close>)
  then have r2: "log_reach [] ?s2"
    by (rule l_step) (use l_enter [of commit_record ?s1] in simp)
  have "append_write (mgr ?s2) commit_record = Inr (0, mgr after_append)"
    using rb by (simp add: append_write_def append_enter_def after_append_def
        NewDoubleBufferLogManager_def commit_record_entry)
  then have "log_step ?s2 after_append"
    using l_write [of commit_record ?s2 0 "mgr after_append"]
    by (simp add: append_blocked_def append_enter_def NewDoubleBufferLogManager_def logBufferSize_def
        commit_record_entry after_append_def)
  then show ?thesis by (rule l_step [OF r2])
qed

lemma log_keeps_appends_witness:
  "log_reach [] after_append \<and>
   log_file (mgr after_append) @ lm_back (mgr after_append) @ lm_front (mgr after_append) =
     logged [(0, commit_record)]"
  using log_keeps_appends [OF after_append_reach] after_append_reach
  by (simp add: after_append_def NewDoubleBufferLogManager_def)

lemma append_eq_take: "a @ rest = b @ c \<Longrightarrow> length b \<le> length a \<Longrightarrow> take (length b) a = b"
  by (metis append_eq_append_conv_if append_eq_conv_conj take_append take_all_iff)

text \<open>
  Waiting covers everything logged before.  When the waiting loop lets a caller go
  for the LSN of a completed append, every byte of the records appended before that one
  is in the log file.
\<close>

theorem wait_covers_earlier_records:
  assumes "log_reach f0 s" "history s = h1 @ (l, r) # h2" "wait_pass (mgr s) l = Some (Inr ())"
  shows "l = int (length (f0 @ logged h1)) \<and> take (nat l) (log_file (mgr s)) = f0 @ logged h1"
proof -
  let ?m = "mgr s"
  have i: "\<exists>rest. log_file ?m @ rest = f0 @ logged (history s)"
      "flushedLSN ?m = int (length (log_file ?m))" "lsns_ok (int (length f0)) (history s)"
    using log_inv_reach [OF assms(1)] by (auto simp: log_inv_def Let_def split: if_splits)
  have l: "l = int (length (f0 @ logged h1))" using lsns_ok_middle i(3) assms(2) by fastforce
  have "l \<le> int (length (log_file ?m))" using assms(3) i(2) by (auto simp: wait_pass_def split: if_splits)
  moreover have "f0 @ logged (history s) = (f0 @ logged h1) @ logged ((l, r) # h2)"
    using assms(2) by (simp add: logged_def)
  ultimately show ?thesis using i(1) l append_eq_take [of "log_file ?m" _ "f0 @ logged h1"]
    by (metis nat_int of_nat_le_iff)
qed

lemma wait_covers_earlier_records_witness:
  "log_reach [] after_append \<and> wait_pass (mgr after_append) 0 = Some (Inr ()) \<and>
   take 0 (log_file (mgr after_append)) = logged []"
  using wait_covers_earlier_records [OF after_append_reach, of "[]" 0 commit_record "[]"] after_append_reach
  by (simp add: after_append_def NewDoubleBufferLogManager_def wait_pass_def)

text \<open>
  Waiting does not cover the record itself.  There is a run in which a commit
  record has been appended, \<^verbatim>\<open>WaitUntilFlushed\<close> for its LSN returns without
  error at once, and nothing of the record is in the log file: a crash at this point
  loses a commit that the caller was told is durable.
\<close>

theorem wait_returns_before_record_is_durable:
  "\<exists>s l. log_reach [] s \<and> history s = [(l, commit_record)] \<and>
     DBLM_WaitUntilFlushed (mgr s) l = Some (Inr ()) \<and> log_file (mgr s) = []"
  by (rule exI [of _ after_append], rule exI [of _ 0])
    (use after_append_reach in \<open>simp add: after_append_def DBLM_WaitUntilFlushed_def wait_pass_def
      NewDoubleBufferLogManager_def\<close>)

text \<open>
  C13: Reading the log after a crash.  Whatever byte prefix of the logged records
  survives, the iterator started at the first of them returns exactly the records that
  survive whole, in order, each with its LSN, and stops before the torn one.
\<close>

theorem log_iterator_after_crash:
  assumes "\<forall>r \<in> set rs. loggable r"
  shows "log_scan (NewLogFileIterator (old @ take k (concat (map record_bytes rs))) (length old)) =
    expect (int (length old)) (whole k rs)"
  using assms log_scan_prefix [of rs "NewLogFileIterator (old @ take k (concat (map record_bytes rs))) (length old)" k]
  by (simp add: NewLogFileIterator_def)

lemma log_iterator_after_crash_witness:
  "log_scan (NewLogFileIterator (take 31 (record_bytes commit_record @ record_bytes commit_record)) 0) =
     [(0, \<lparr>lr_data = record_bytes commit_record\<rparr>)]"
  using log_iterator_after_crash [of "[commit_record, commit_record]" "[]" 31] commit_record_entry
    record_bytes(2) [OF commit_record_entry(2,1)]
  by simp

section \<open>The log as an interface\<close>

text \<open>
  What the clients of \<^verbatim>\<open>storage.LogManager\<close> rely on: an append returns the
  current end of the log and adds the record's bytes there.
\<close>

locale write_ahead_log =
  fixes inv :: "'m \<Rightarrow> bool" and contents :: "'m \<Rightarrow> byte list"
    and append_rec :: "'m \<Rightarrow> LogRecord \<Rightarrow> (int \<times> 'm) res"
  assumes append_law: "inv m \<Longrightarrow> loggable r \<Longrightarrow> append_rec m r = Inr (l, m') \<Longrightarrow>
      inv m' \<and> l = int (length (contents m)) \<and> contents m' = contents m @ record_bytes r"
begin

fun append_list :: "'m \<Rightarrow> LogRecord list \<Rightarrow> (int list \<times> 'm) res" where
  "append_list m [] = Inr ([], m)"
| "append_list m (r # rs) =
     bindR (append_rec m r) (\<lambda>(l, m1). bindR (append_list m1 rs) (\<lambda>(ls, m2). Inr (l # ls, m2)))"

lemma append_list_contents:
  assumes "inv m" "\<forall>r \<in> set rs. loggable r" "append_list m rs = Inr (ls, m')"
  shows "inv m' \<and> contents m' = contents m @ concat (map record_bytes rs) \<and>
    zip ls (map (\<lambda>r. \<lparr>lr_data = record_bytes r\<rparr>) rs) = expect (int (length (contents m))) rs"
  using assms
proof (induction rs arbitrary: m ls)
  case (Cons r rs)
  obtain l m1 ls1 where s: "append_rec m r = Inr (l, m1)" "append_list m1 rs = Inr (ls1, m')" "ls = l # ls1"
    using Cons.prems(3) by auto
  then have "inv m1 \<and> l = int (length (contents m)) \<and> contents m1 = contents m @ record_bytes r"
    using append_law [of m r l m1] Cons.prems by auto
  then show ?case using Cons.IH [of m1 ls1] Cons.prems s by simp
qed simp

lemma appended_records_scan:
  assumes "inv m" "\<forall>r \<in> set rs. loggable r" "append_list m rs = Inr (ls, m')"
  shows "log_scan (NewLogFileIterator (contents m') (length (contents m))) =
    zip ls (map (\<lambda>r. \<lparr>lr_data = record_bytes r\<rparr>) rs)"
proof -
  let ?it = "NewLogFileIterator (contents m') (length (contents m))"
  have c: "contents m' = contents m @ concat (map record_bytes rs)"
    "zip ls (map (\<lambda>r. \<lparr>lr_data = record_bytes r\<rparr>) rs) = expect (int (length (contents m))) rs"
    using append_list_contents [OF assms] by auto
  have "log_scan ?it = expect (it_currentLSN ?it) (whole (length (concat (map record_bytes rs))) rs)"
    using assms(2) c(1) by (intro log_scan_prefix) (simp_all add: NewLogFileIterator_def)
  then show ?thesis using c by (simp add: whole_all NewLogFileIterator_def)
qed

end

interpretation dblm: write_ahead_log
  "\<lambda>m. \<not> freed m \<and> lm_lsn m = int (length (log_file m @ lm_back m @ lm_front m))"
  "\<lambda>m. log_file m @ lm_back m @ lm_front m" DBLM_Append
proof
  fix m r l m'
  assume "\<not> freed m \<and> lm_lsn m = int (length (log_file m @ lm_back m @ lm_front m))"
    "DBLM_Append m r = Inr (l, m')"
  then show "(\<not> freed m' \<and> lm_lsn m' = int (length (log_file m' @ lm_back m' @ lm_front m'))) \<and>
      l = int (length (log_file m @ lm_back m @ lm_front m)) \<and>
      log_file m' @ lm_back m' @ lm_front m' = (log_file m @ lm_back m @ lm_front m) @ record_bytes r"
    using append_write_bytes [of "append_enter m" r l m']
    by (auto simp: DBLM_Append_def append_enter_def)
qed

interpretation mlm: write_ahead_log "\<lambda>m. True" mm_buffer Memory_Append
proof
  fix m r l m'
  assume a: "Memory_Append m r = Inr (l, m')" and r: "loggable r"
  obtain e where e: "is_entry r e" using r by (auto simp: loggable_def)
  show "True \<and> l = int (length (mm_buffer m)) \<and> mm_buffer m' = mm_buffer m @ record_bytes r"
    using a record_bytes(1) [OF r e] by (auto simp: Memory_Append_def Let_def split: if_splits)
qed

end
