(* ===== verification/Bitmap.thy ===== *)
theory Bitmap
  imports Common_Types
begin

text \<open>
  \<^verbatim>\<open>storage/bitmap.go\<close>: a bitmap over 64-bit words, with word-wise scanning
  for a free bit.  \<open>FindFirstZero\<close> is shown equal to a bit-by-bit cyclic search.
\<close>

section \<open>The bitmap and its operations\<close>

record Bitmap =
  words :: "64 word list"
  numBits :: nat

text \<open>
  \<^verbatim>\<open>AsBitmap\<close> reinterprets the bytes as 64-bit words of a little-endian
  machine.  Taking the address of the first byte of an empty slice panics.
\<close>

definition decode_words :: "byte list \<Rightarrow> nat \<Rightarrow> 64 word list" where
  "decode_words data n = map (\<lambda>i. le_get (slice (8 * i) 8 data)) [0..<n]"

definition AsBitmap :: "byte list \<Rightarrow> nat \<Rightarrow> Bitmap res" where
  "AsBitmap data nBits =
     bindR (Assert (AlignedTo8 (int (length data))) ''Bitmap bytes length must be aligned to 8'') (\<lambda>_.
     let numWords = (nBits + 63) div 64
     in bindR (Assert (length data \<ge> numWords * 8) ''bitmap buffer too small'') (\<lambda>_.
        if data = [] then Inl (Panic ''index out of range'')
        else Inr \<lparr>words = decode_words data numWords, numBits = nBits\<rparr>))"

definition SetBit :: "Bitmap \<Rightarrow> int \<Rightarrow> bool \<Rightarrow> (bool \<times> Bitmap) res" where
  "SetBit b i on =
     bindR (Assert (i \<ge> 0) ''i cant be negative'') (\<lambda>_.
     bindR (Assert (i < int (numBits b)) ''i is larger than or equal to numBits'') (\<lambda>_.
     let wordIdx = nat i div 64; bitPos = nat i mod 64; mask = push_bit bitPos (1 :: 64 word)
     in if wordIdx \<ge> length (words b) then Inl (Panic ''index out of range'')
        else let w = words b ! wordIdx;
                 prevVal = (w AND mask \<noteq> 0);
                 w' = (if on then w OR mask else w AND NOT mask)
             in Inr (prevVal, b\<lparr>words := (words b)[wordIdx := w']\<rparr>)))"

definition LoadBit :: "Bitmap \<Rightarrow> int \<Rightarrow> bool res" where
  "LoadBit b i =
     bindR (Assert (i \<ge> 0) ''i cant be negative'') (\<lambda>_.
     bindR (Assert (i < int (numBits b)) ''i is larger than or equal to numBits'') (\<lambda>_.
     let wordIdx = nat i div 64; bitPos = nat i mod 64; mask = push_bit bitPos (1 :: 64 word)
     in if wordIdx \<ge> length (words b) then Inl (Panic ''index out of range'')
        else Inr (words b ! wordIdx AND mask \<noteq> 0)))"

text \<open>
  The inner loop of both phases: test bits \<open>j, j+1, \<dots>\<close> of word \<open>w\<close>, \<open>k\<close> of them,
  and stop at the end of the bitmap.
\<close>

fun scan_bits :: "Bitmap \<Rightarrow> nat \<Rightarrow> nat \<Rightarrow> nat \<Rightarrow> nat option" where
  "scan_bits b w j 0 = None"
| "scan_bits b w j (Suc k) =
     (let bitIdx = w * 64 + j
      in if bitIdx \<ge> numBits b then None
         else if words b ! w AND push_bit j 1 = 0 then Some bitIdx
         else scan_bits b w (Suc j) k)"

text \<open>
  The outer loop over \<open>n\<close> words from \<open>w\<close> on: full words are skipped, the others are
  scanned from \<open>lo w\<close> up to \<open>hi w\<close>.
\<close>

fun scan_words :: "Bitmap \<Rightarrow> (nat \<Rightarrow> nat) \<Rightarrow> (nat \<Rightarrow> nat) \<Rightarrow> nat \<Rightarrow> nat \<Rightarrow> nat option" where
  "scan_words b lo hi w 0 = None"
| "scan_words b lo hi w (Suc n) =
     (if words b ! w = NOT 0 then scan_words b lo hi (Suc w) n
      else case scan_bits b w (lo w) (hi w - lo w) of
             Some i \<Rightarrow> Some i
           | None \<Rightarrow> scan_words b lo hi (Suc w) n)"

definition FindFirstZero :: "Bitmap \<Rightarrow> int \<Rightarrow> int res" where
  "FindFirstZero b startHint =
     (if numBits b = 0 then Inr (- 1)
      else bindR (Assert (startHint \<ge> 0 \<and> startHint < int (numBits b)) ''invalid startHint'') (\<lambda>_.
        let startWord = nat startHint div 64; startBit = nat startHint mod 64
        in case scan_words b (\<lambda>w. if w = startWord then startBit else 0) (\<lambda>w. 64)
                  startWord (length (words b) - startWord) of
             Some i \<Rightarrow> Inr (int i)
           | None \<Rightarrow>
               (if startWord \<ge> length (words b) then Inl (Panic ''index out of range'')
                else case scan_words b (\<lambda>w. 0) (\<lambda>w. if w = startWord then startBit else 64)
                       0 (Suc startWord) of
                  Some i \<Rightarrow> Inr (int i)
                | None \<Rightarrow> Inr (- 1))))"

section \<open>Bits of a bitmap\<close>

definition wf_bitmap :: "Bitmap \<Rightarrow> bool" where
  "wf_bitmap b \<longleftrightarrow> length (words b) = (numBits b + 63) div 64"

definition bm_bit :: "Bitmap \<Rightarrow> nat \<Rightarrow> bool" where
  "bm_bit b i \<longleftrightarrow> bit (words b ! (i div 64)) (i mod 64)"

lemma wf_bitmap_index: "wf_bitmap b \<Longrightarrow> i < numBits b \<Longrightarrow> i div 64 < length (words b)"
  unfolding wf_bitmap_def by linarith

lemma LoadBit_eq:
  assumes "wf_bitmap b" "i < numBits b"
  shows "LoadBit b (int i) = Inr (bm_bit b i)"
  using assms wf_bitmap_index [OF assms]
  by (simp add: LoadBit_def bm_bit_def and_exp_eq_0_iff_not_bit Let_def)

lemma SetBit_eq:
  assumes "wf_bitmap b" "i < numBits b"
  obtains b' where "SetBit b (int i) on = Inr (bm_bit b i, b')" "wf_bitmap b'" "numBits b' = numBits b"
    "\<And>j. bm_bit b' j = (if j = i then on else bm_bit b j)"
proof -
  let ?m = "push_bit (i mod 64) (1 :: 64 word)" and ?w = "words b ! (i div 64)"
  let ?w' = "if on then ?w OR ?m else ?w AND NOT ?m"
  let ?b' = "b\<lparr>words := (words b)[i div 64 := ?w']\<rparr>"
  note ix = wf_bitmap_index [OF assms]
  have "SetBit b (int i) on = Inr (bm_bit b i, ?b')"
    using assms ix by (simp add: SetBit_def bm_bit_def and_exp_eq_0_iff_not_bit Let_def)
  moreover have "bm_bit ?b' j = (if j = i then on else bm_bit b j)" for j
  proof (cases "j div 64 = i div 64")
    case True
    then have "j = i \<longleftrightarrow> j mod 64 = i mod 64" by (metis div_mult_mod_eq)
    then show ?thesis using True ix by (auto simp: bm_bit_def bit_simps)
  next
    case False
    then show ?thesis using ix by (auto simp: bm_bit_def)
  qed
  ultimately show thesis using that [of ?b'] assms by (simp add: wf_bitmap_def)
qed

section \<open>Finding a free bit\<close>

text \<open>The specification: the first clear bit at or after the hint, then before it.\<close>

definition first_zero_spec :: "Bitmap \<Rightarrow> nat \<Rightarrow> int" where
  "first_zero_spec b start =
     (case find (\<lambda>i. \<not> bm_bit b i) ([start..<numBits b] @ [0..<start]) of
        None \<Rightarrow> - 1 | Some i \<Rightarrow> int i)"

lemma scan_bits_find:
  "j + k \<le> 64 \<Longrightarrow>
     scan_bits b w j k = find (\<lambda>i. \<not> bm_bit b i) [w * 64 + j..<min (w * 64 + j + k) (numBits b)]"
proof (induction k arbitrary: j)
  case (Suc k)
  let ?i = "w * 64 + j"
  have "?i div 64 = w" "?i mod 64 = j" using Suc.prems by auto
  then have bit: "bm_bit b ?i \<longleftrightarrow> \<not> (words b ! w AND 2 ^ j = 0)"
    by (simp add: bm_bit_def and_exp_eq_0_iff_not_bit)
  show ?case
  proof (cases "?i < numBits b")
    case True
    then have "[?i..<min (?i + Suc k) (numBits b)] = ?i # [Suc ?i..<min (?i + Suc k) (numBits b)]"
      by (simp add: upt_conv_Cons)
    then show ?thesis using Suc True bit by (simp add: Let_def)
  qed (simp add: Let_def)
qed simp

lemma full_word_find:
  assumes "words b ! w = NOT 0" "w * 64 \<le> lo" "hi \<le> (w + 1) * 64"
  shows "find (\<lambda>i. \<not> bm_bit b i) [lo..<hi] = None"
proof -
  have "bm_bit b i" if "lo \<le> i" "i < hi" for i
  proof -
    have "i div 64 = w" using that assms by (simp add: div_nat_eqI)
    then show ?thesis using assms(1) by (simp add: bm_bit_def bit_simps)
  qed
  then show ?thesis by (simp add: find_None_iff)
qed

lemma scan_words_from:
  assumes "\<And>v. v > w \<Longrightarrow> lo v = 0" "lo w \<le> 64"
  shows "scan_words b lo (\<lambda>_. 64) w n =
    find (\<lambda>i. \<not> bm_bit b i) [w * 64 + lo w..<min ((w + n) * 64) (numBits b)]"
  using assms
proof (induction n arbitrary: w)
  case (Suc n)
  let ?P = "\<lambda>i. \<not> bm_bit b i" and ?lo = "w * 64 + lo w" and ?m = "min ((w + 1) * 64) (numBits b)"
    and ?e = "min ((w + Suc n) * 64) (numBits b)"
  have rest: "scan_words b lo (\<lambda>_. 64) (Suc w) n = find ?P [Suc w * 64..<?e]"
    using Suc.IH [of "Suc w"] Suc.prems by simp
  have here: "scan_bits b w (lo w) (64 - lo w) = find ?P [?lo..<?m]"
    using scan_bits_find [of "lo w" "64 - lo w" b w] Suc.prems by (simp add: add.commute)
  have "find ?P [?lo..<?e] = (case find ?P [?lo..<?m] of None \<Rightarrow> find ?P [Suc w * 64..<?e] | Some x \<Rightarrow> Some x)"
  proof (cases "(w + 1) * 64 \<le> numBits b")
    case True
    then show ?thesis using find_upt_split [of ?lo "Suc w * 64" ?e ?P] Suc.prems by (simp add: min_def)
  qed (auto split: option.splits)
  moreover have "words b ! w = NOT 0 \<Longrightarrow> find ?P [?lo..<?m] = None"
    by (rule full_word_find) auto
  ultimately show ?case using rest here by (auto split: option.splits)
qed simp

lemma scan_words_upto:
  assumes "h \<le> 64" "\<And>v. v < w + n \<Longrightarrow> hi v = 64" "hi (w + n) = h"
  shows "scan_words b (\<lambda>_. 0) hi w (Suc n) =
    find (\<lambda>i. \<not> bm_bit b i) [w * 64..<min ((w + n) * 64 + h) (numBits b)]"
  using assms
proof (induction n arbitrary: w)
  case 0
  have "words b ! w = NOT 0 \<Longrightarrow>
      find (\<lambda>i. \<not> bm_bit b i) [w * 64..<min (w * 64 + h) (numBits b)] = None"
    using 0 by (intro full_word_find) auto
  then show ?case using 0 scan_bits_find [of 0 h b w] by (auto split: option.splits)
next
  case (Suc n)
  let ?P = "\<lambda>i. \<not> bm_bit b i" and ?m = "min ((w + 1) * 64) (numBits b)"
    and ?e = "min ((w + Suc n) * 64 + h) (numBits b)"
  have rest: "scan_words b (\<lambda>_. 0) hi (Suc w) (Suc n) = find ?P [Suc w * 64..<?e]"
    using Suc.IH [of "Suc w"] Suc.prems by simp
  have here: "scan_bits b w 0 (hi w - 0) = find ?P [w * 64..<?m]"
    using scan_bits_find [of 0 64 b w] Suc.prems by (simp add: add.commute)
  have "find ?P [w * 64..<?e] = (case find ?P [w * 64..<?m] of None \<Rightarrow> find ?P [Suc w * 64..<?e] | Some x \<Rightarrow> Some x)"
  proof (cases "(w + 1) * 64 \<le> numBits b")
    case True
    then show ?thesis using find_upt_split [of "w * 64" "Suc w * 64" ?e ?P] by (simp add: min_def)
  qed (auto split: option.splits)
  moreover have "words b ! w = NOT 0 \<Longrightarrow> find ?P [w * 64..<?m] = None"
    by (rule full_word_find) auto
  ultimately show ?case
    unfolding scan_words.simps(2) [of b _ hi w "Suc n"] here rest by (auto split: option.splits)
qed

lemma FindFirstZero_spec:
  assumes "wf_bitmap b" and "start < numBits b"
  shows "FindFirstZero b (int start) = Inr (first_zero_spec b start) \<and>
    (first_zero_spec b start = - 1 \<longleftrightarrow> (\<forall>i < numBits b. bm_bit b i))"
proof
  let ?P = "\<lambda>i. \<not> bm_bit b i" and ?w = "start div 64" and ?s = "start mod 64"
  have len: "?w < length (words b)" by (rule wf_bitmap_index [OF assms])
  have "?w + (length (words b) - ?w) = (numBits b + 63) div 64"
    using len assms(1) by (simp add: wf_bitmap_def)
  moreover have "numBits b \<le> (numBits b + 63) div 64 * 64" by linarith
  ultimately have full: "(?w + (length (words b) - ?w)) * 64 \<ge> numBits b" by simp
  have p1: "scan_words b (\<lambda>w. if w = ?w then ?s else 0) (\<lambda>w. 64) ?w (length (words b) - ?w) =
      find ?P [start..<numBits b]"
    using full by (subst scan_words_from) (auto simp: min_def)
  have p2: "scan_words b (\<lambda>w. 0) (\<lambda>w. if w = ?w then ?s else 64) 0 (Suc ?w) = find ?P [0..<start]"
    using assms(2) by (subst scan_words_upto [where h = ?s]) (auto simp: min_def)
  show "FindFirstZero b (int start) = Inr (first_zero_spec b start)"
    using assms len
    by (simp add: FindFirstZero_def p1 p2 first_zero_spec_def find_append Let_def
        del: scan_words.simps split: option.splits)
  have "first_zero_spec b start = - 1 \<longleftrightarrow> find ?P ([start..<numBits b] @ [0..<start]) = None"
    by (auto simp: first_zero_spec_def split: option.splits)
  also have "\<dots> \<longleftrightarrow> (\<forall>i \<in> {0..<start} \<union> {start..<numBits b}. bm_bit b i)"
    unfolding find_None_iff set_append set_upt by blast
  also have "{0..<start} \<union> {start..<numBits b} = {0..<numBits b}"
    using assms(2) by (intro ivl_disj_un_two) auto
  finally show "first_zero_spec b start = - 1 \<longleftrightarrow> (\<forall>i < numBits b. bm_bit b i)" by (simp add: Ball_def)
qed

text \<open>
  C39: Word-wise search for a free slot.  On a well-formed bitmap \<^verbatim>\<open>FindFirstZero\<close>
  never fails and equals the bit-by-bit cyclic search from the hint; it returns
  \<open>-1\<close> exactly when every bit is set.
\<close>

theorem FindFirstZero_correct:
  assumes "wf_bitmap b" and "start < numBits b"
  shows "FindFirstZero b (int start) = Inr (first_zero_spec b start) \<and>
    (first_zero_spec b start = - 1 \<longleftrightarrow> (\<forall>i < numBits b. bm_bit b i))"
  by (rule FindFirstZero_spec [OF assms])

lemma FindFirstZero_correct_witness:
  "wf_bitmap \<lparr>words = [NOT 0, 5], numBits = 70\<rparr> \<and>
   FindFirstZero \<lparr>words = [NOT 0, 5], numBits = 70\<rparr> (int 3) =
     Inr (first_zero_spec \<lparr>words = [NOT 0, 5], numBits = 70\<rparr> 3)"
  using FindFirstZero_correct [of "\<lparr>words = [NOT 0, 5], numBits = 70\<rparr>" 3]
  by (simp add: wf_bitmap_def)

end
