(* ===== verification/Heap_Page.thy ===== *)
theory Heap_Page
  imports Bitmap Tuples
begin

text \<open>
  \<^verbatim>\<open>storage/page.go\<close> and \<^verbatim>\<open>storage/heap_page.go\<close>: the page frame, its log
  sequence number, and the slotted heap page that is laid over the frame's bytes
  (header, allocation bitmap, deleted bitmap, rows).  The bitmaps of a heap page are
  views of the frame's bytes: a write through one of them changes the page.
\<close>

section \<open>Page frames\<close>

text \<open>A bitmap that aliases the bytes of a frame from \<open>bm_base\<close> on.\<close>

record BitmapView =
  bm_base :: nat
  bm_numBits :: nat

record PageFrame =
  Bytes :: "byte list"
  cached :: bool
  rowSize :: nat
  numSlots :: nat
  numUsed :: int
  bitMapSize :: nat
  padding :: nat
  dataStart :: nat
  startHint :: int
  allocBitmap :: BitmapView
  deletedBitmap :: BitmapView
  pageId :: PageID
  refCount :: int
  isDirty :: bool
  inOld :: bool
  recLSN :: "64 word"

type_synonym LSN = "64 word"

definition pageOffsetLSN :: nat where "pageOffsetLSN = 0"

text \<open>
  The code swaps bytes on a big-endian machine, so the stored form is little-endian
  everywhere.
\<close>

definition frame_LSN :: "PageFrame \<Rightarrow> LSN" where
  "frame_LSN frame = le_get (slice pageOffsetLSN 8 (Bytes frame))"

text \<open>
  The compare-and-swap loop, seen as one atomic step: the comparison is on unsigned
  values, and the first LSN recorded since the recovery LSN was zero becomes the
  recovery LSN.
\<close>

definition MonotonicallyUpdateLSN :: "PageFrame \<Rightarrow> LSN \<Rightarrow> PageFrame" where
  "MonotonicallyUpdateLSN frame lsn =
     (if lsn \<le> frame_LSN frame then frame
      else frame\<lparr>Bytes := put_at pageOffsetLSN (le_put 8 lsn) (Bytes frame),
                 recLSN := (if recLSN frame = 0 then lsn else recLSN frame)\<rparr>)"

section \<open>Heap pages\<close>

definition PageOffsetRowSize :: nat where "PageOffsetRowSize = 8"
definition PageOffsetNumSlots :: nat where "PageOffsetNumSlots = 10"
definition PageOffsetNumUsed :: nat where "PageOffsetNumUsed = 12"
definition PageOffsetPadding :: nat where "PageOffsetPadding = 14"
definition HeaderSize :: nat where "HeaderSize = 16"
definition HeapPageMagic :: "16 word" where "HeapPageMagic = 0x8888"

lemmas offset_defs = pageOffsetLSN_def PageOffsetRowSize_def PageOffsetNumSlots_def
  PageOffsetNumUsed_def PageOffsetPadding_def HeaderSize_def

definition SetNumUsed :: "PageFrame \<Rightarrow> int \<Rightarrow> PageFrame" where
  "SetNumUsed hp n =
     hp\<lparr>Bytes := put_at PageOffsetNumUsed (le_put 2 (of_int n :: 16 word)) (Bytes hp), numUsed := n\<rparr>"

definition IsInitializedHeapPage :: "PageFrame \<Rightarrow> bool" where
  "IsInitializedHeapPage frame \<longleftrightarrow> le_get (slice PageOffsetPadding 2 (Bytes frame)) = HeapPageMagic"

definition bitmap_bytes :: "nat \<Rightarrow> nat" where
  "bitmap_bytes n = (n + 63) div 64 * 8"

text \<open>The start of the deleted bitmap, with its alignment padding.\<close>

definition deleted_offset :: "nat \<Rightarrow> nat" where
  "deleted_offset n =
     (let off = HeaderSize + bitmap_bytes n
      in if off mod 8 \<noteq> 0 then off + (8 - off mod 8) else off)"

text \<open>The loop that shrinks the slot count until the bitmaps and the rows fit.\<close>

function slot_loop :: "nat \<Rightarrow> nat \<Rightarrow> nat" where
  "slot_loop rs n =
     (let usable = PageSize - deleted_offset n - bitmap_bytes n;
          calculated = usable div rs
      in if calculated \<ge> n \<or> calculated = 0 then calculated else slot_loop rs calculated)"
  by pat_completeness auto
termination
  by (relation "measure snd") (auto simp: Let_def)

declare slot_loop.simps [simp del]

definition InitializeHeapPage :: "RawTupleDesc \<Rightarrow> PageFrame \<Rightarrow> PageFrame res" where
  "InitializeHeapPage d frame =
     (if le_get (slice PageOffsetPadding 2 (Bytes frame)) = HeapPageMagic then Inr frame
      else
        let b0 = replicate (length (Bytes frame)) 0;
            rs = BytesPerTuple d;
            b1 = put_at PageOffsetRowSize (le_put 2 (of_nat rs :: 16 word)) b0
        in if rs = 0 then Inl (Panic ''integer divide by zero'')
           else let n = slot_loop rs ((PageSize - HeaderSize) div rs);
                    b2 = put_at PageOffsetNumSlots (le_put 2 (of_nat n :: 16 word)) b1;
                    b3 = put_at PageOffsetPadding (le_put 2 HeapPageMagic) b2
                in Inr (frame\<lparr>Bytes := b3\<rparr>))"

definition AsHeapPage :: "PageFrame \<Rightarrow> PageFrame res" where
  "AsHeapPage frame =
     (if cached frame then Inr frame
      else
        let rs = unat (le_get (slice PageOffsetRowSize 2 (Bytes frame)) :: 16 word);
            n = unat (le_get (slice PageOffsetNumSlots 2 (Bytes frame)) :: 16 word);
            used = uint (le_get (slice PageOffsetNumUsed 2 (Bytes frame)) :: 16 word);
            bb = bitmap_bytes n;
            off0 = HeaderSize + bb;
            pad = (if off0 mod 8 \<noteq> 0 then 8 - off0 mod 8 else 0);
            off = off0 + pad
        in bindR (slice_checked HeaderSize bb (Bytes frame)) (\<lambda>ab.
           bindR (AsBitmap ab n) (\<lambda>_.
           bindR (slice_checked off bb (Bytes frame)) (\<lambda>db.
           bindR (AsBitmap db n) (\<lambda>_.
           Inr (frame\<lparr>cached := True, rowSize := rs, numSlots := n, numUsed := used,
                      bitMapSize := bb, padding := pad, dataStart := off + bb, startHint := 0,
                      allocBitmap := \<lparr>bm_base = HeaderSize, bm_numBits = n\<rparr>,
                      deletedBitmap := \<lparr>bm_base = off, bm_numBits = n\<rparr>\<rparr>))))))"

text \<open>Reading and writing through a view.\<close>

definition bm_view :: "byte list \<Rightarrow> BitmapView \<Rightarrow> Bitmap" where
  "bm_view bs v =
     (let nw = (bm_numBits v + 63) div 64
      in \<lparr>words = decode_words (slice (bm_base v) (8 * nw) bs) nw, numBits = bm_numBits v\<rparr>)"

definition bm_store :: "byte list \<Rightarrow> BitmapView \<Rightarrow> Bitmap \<Rightarrow> byte list" where
  "bm_store bs v b = put_at (bm_base v) (concat (map (le_put 8) (words b))) bs"

definition rid_slot :: "RecordID \<Rightarrow> int" where
  "rid_slot rid = sint (Slot rid)"

definition FindFreeSlot :: "PageFrame \<Rightarrow> (int \<times> PageFrame) res" where
  "FindFreeSlot hp =
     bindR (FindFirstZero (bm_view (Bytes hp) (allocBitmap hp)) (startHint hp)) (\<lambda>i.
     if numSlots hp = 0 then Inl (Panic ''integer divide by zero'')
     else Inr (i, hp\<lparr>startHint := (i + 1) smod int (numSlots hp)\<rparr>))"

definition IsAllocated :: "PageFrame \<Rightarrow> RecordID \<Rightarrow> bool res" where
  "IsAllocated hp rid = LoadBit (bm_view (Bytes hp) (allocBitmap hp)) (rid_slot rid)"

definition IsDeleted :: "PageFrame \<Rightarrow> RecordID \<Rightarrow> bool res" where
  "IsDeleted hp rid = LoadBit (bm_view (Bytes hp) (deletedBitmap hp)) (rid_slot rid)"

definition MarkDeleted :: "PageFrame \<Rightarrow> RecordID \<Rightarrow> bool \<Rightarrow> PageFrame res" where
  "MarkDeleted hp rid deleted =
     bindR (SetBit (bm_view (Bytes hp) (deletedBitmap hp)) (rid_slot rid) deleted) (\<lambda>(_, bm).
     let wordIdx = nat (rid_slot rid sdiv 64);
         word = words bm ! wordIdx;
         delOffset = HeaderSize + bitMapSize hp + padding hp;
         b1 = bm_store (Bytes hp) (deletedBitmap hp) bm
     in bindR (put_checked (delOffset + wordIdx * 8) (le_put 8 word) b1) (\<lambda>b2.
        Inr (hp\<lparr>Bytes := b2\<rparr>)))"

definition MarkAllocated :: "PageFrame \<Rightarrow> RecordID \<Rightarrow> bool \<Rightarrow> PageFrame res" where
  "MarkAllocated hp rid allocated =
     bindR (SetBit (bm_view (Bytes hp) (allocBitmap hp)) (rid_slot rid) allocated) (\<lambda>(_, bm).
     let wordIdx = nat (rid_slot rid sdiv 64);
         word = words bm ! wordIdx;
         b1 = bm_store (Bytes hp) (allocBitmap hp) bm
     in bindR (put_checked (HeaderSize + wordIdx * 8) (le_put 8 word) b1) (\<lambda>b2.
        if allocated then Inr (SetNumUsed (hp\<lparr>Bytes := b2\<rparr>) (numUsed hp + 1))
        else MarkDeleted (SetNumUsed (hp\<lparr>Bytes := b2\<rparr>) (numUsed hp - 1)) rid False))"

definition AccessTuple :: "PageFrame \<Rightarrow> RecordID \<Rightarrow> RawTuple res" where
  "AccessTuple hp rid =
     (let start = int (dataStart hp) + rid_slot rid * int (rowSize hp); fin = start + int (rowSize hp)
      in if 0 \<le> start \<and> fin \<le> int (length (Bytes hp))
         then Inr (slice (nat start) (rowSize hp) (Bytes hp))
         else Inl (Panic ''slice bounds out of range''))"

text \<open>\<^verbatim>\<open>copy(heapPage.AccessTuple(rid), row)\<close>: the slice aliases the page.\<close>

definition CopyIntoTuple :: "PageFrame \<Rightarrow> RecordID \<Rightarrow> RawTuple \<Rightarrow> PageFrame res" where
  "CopyIntoTuple hp rid row =
     bindR (AccessTuple hp rid) (\<lambda>tup.
     Inr (hp\<lparr>Bytes := put_at (nat (int (dataStart hp) + rid_slot rid * int (rowSize hp)))
                             (go_copy tup row) (Bytes hp)\<rparr>))"

section \<open>Every row size gets a layout that fits\<close>

lemma deleted_offset_eq [simp]: "deleted_offset n = 16 + bitmap_bytes n"
  by (simp add: deleted_offset_def HeaderSize_def bitmap_bytes_def Let_def)

lemma bitmap_bytes_small: "0 < n \<Longrightarrow> n \<le> 64 \<Longrightarrow> bitmap_bytes n = 8"
  by (simp add: bitmap_bytes_def)

lemma div_le_63: "8 \<le> k \<Longrightarrow> m \<le> 510 \<Longrightarrow> m div k \<le> (63 :: nat)"
  using div_le_mono2 [of 8 k m] by linarith

lemma slot_loop_fix:
  assumes "(4080 - 2 * bitmap_bytes n) div rs = n"
  shows "slot_loop rs n = n"
  using assms by (subst slot_loop.simps) (simp add: Let_def PageSize_def mult_2)

lemma slot_loop_step:
  assumes "(4080 - 2 * bitmap_bytes n) div rs = m" "m < n" "0 < m"
  shows "slot_loop rs n = slot_loop rs m"
  using assms by (subst slot_loop.simps) (simp add: Let_def PageSize_def mult_2)

definition slots_for :: "nat \<Rightarrow> nat" where
  "slots_for rs = slot_loop rs ((PageSize - HeaderSize) div rs)"

lemma slots_for_one_word:
  assumes "8 \<le> k" "k \<le> 508"
  shows "slots_for (8 * k) = 508 div k"
proof -
  have q: "0 < 508 div k" "508 div k \<le> 63" "510 div k \<le> 63" "508 div k \<le> 510 div k"
    using assms by (auto simp: div_greater_zero_iff div_le_mono div_le_63)
  have d: "(4080 - 2 * bitmap_bytes n) div (8 * k) = 508 div k" if "0 < n" "n \<le> 64" for n
    using that by (simp add: bitmap_bytes_small div_mult2_eq)
  have "4080 div (8 * k) = 510 div k" by (simp add: div_mult2_eq)
  then show ?thesis
    using q d [of "510 div k"] d [of "508 div k"]
      slot_loop_step [of "510 div k" "8 * k" "508 div k"] slot_loop_fix [of "508 div k" "8 * k"]
    by (cases "508 div k = 510 div k") (simp_all add: slots_for_def PageSize_def HeaderSize_def)
qed

lemma slots_for_small:
  "slots_for 8 = 494" "slots_for 16 = 251" "slots_for 24 = 168" "slots_for 32 = 126"
  "slots_for 40 = 101" "slots_for 48 = 84" "slots_for 56 = 72"
  by (simp_all add: slots_for_def PageSize_def HeaderSize_def bitmap_bytes_def slot_loop_step
      slot_loop_fix)

definition layout_end :: "nat \<Rightarrow> nat \<Rightarrow> nat" where
  "layout_end rs n = 16 + 2 * bitmap_bytes n + n * rs"

lemma slots_for_fits:
  assumes "8 dvd rs" "0 < rs" "rs \<le> 4064"
  shows "0 < slots_for rs \<and> slots_for rs \<le> 494 \<and> layout_end rs (slots_for rs) \<le> 4096 \<and>
    4096 < layout_end rs (Suc (slots_for rs))"
proof -
  obtain k where rs: "rs = 8 * k" using assms by auto
  show ?thesis
  proof (cases "8 \<le> k")
    case True
    have k: "k \<le> 508" using assms rs by simp
    have q: "0 < 508 div k" "508 div k \<le> 63"
      using True k by (auto simp: div_greater_zero_iff div_le_63)
    define n where "n = 508 div k"
    have n: "n * k \<le> 508" "508 < Suc n * k"
      using True by (auto simp: n_def dividend_less_times_div algebra_simps)
    have "layout_end rs n = 32 + 8 * (n * k)" "layout_end rs (Suc n) = 32 + 8 * (Suc n * k)"
      using q by (simp_all add: rs layout_end_def bitmap_bytes_small n_def)
    moreover have "slots_for rs = n" by (simp add: rs n_def slots_for_one_word [OF True k])
    ultimately show ?thesis using n q by (simp add: n_def)
  next
    case False
    then have "k \<in> {1, 2, 3, 4, 5, 6, 7}" using assms rs by auto
    then show ?thesis
      by (auto simp: rs slots_for_small layout_end_def bitmap_bytes_def)
  qed
qed

section \<open>Bitmaps that alias the page\<close>

lemma sdiv_nat_64: "nat (int i sdiv 64) = i div 64"
  by (simp add: signed_divide_int_def nat_div_distrib)

abbreviation view_words :: "BitmapView \<Rightarrow> nat" where
  "view_words v \<equiv> (bm_numBits v + 63) div 64"

lemma slice_concat_words:
  "i < length ws \<Longrightarrow> slice (8 * i) 8 (concat (map (le_put 8) ws)) = le_put 8 (ws ! i)"
proof (induction ws arbitrary: i)
  case (Cons w ws)
  then show ?case by (cases i) (simp_all add: slice_append_left slice_append_right)
qed simp

lemma length_concat_words [simp]: "length (concat (map (le_put 8) ws)) = 8 * length ws"
  by (induction ws) simp_all

lemma wf_bm_view [simp]: "wf_bitmap (bm_view bs v)" "numBits (bm_view bs v) = bm_numBits v"
  by (simp_all add: wf_bitmap_def bm_view_def decode_words_def Let_def)

lemma bm_view_cong: "slice (bm_base v) (8 * view_words v) bs = slice (bm_base v) (8 * view_words v) bs' \<Longrightarrow>
    bm_view bs v = bm_view bs' v"
  by (simp add: bm_view_def)

lemma bm_view_store:
  assumes "bm_base v + 8 * view_words v \<le> length bs" "wf_bitmap b" "numBits b = bm_numBits v"
  shows "bm_view (bm_store bs v b) v = b"
proof -
  have "length (words b) = view_words v" using assms by (simp add: wf_bitmap_def)
  then show ?thesis
    using assms(1,3)
    by (auto simp: bm_view_def bm_store_def decode_words_def slice_concat_words Let_def
        intro!: Bitmap.equality nth_equalityI)
qed

text \<open>
  Setting a bit through a view, followed by the code's explicit write of the word to
  the page, changes that bit and nothing outside the bitmap's bytes.
\<close>

lemma set_view_bit:
  assumes fit: "bm_base v + 8 * view_words v \<le> length bs" and i: "i < bm_numBits v"
  obtains bm bs' where
    "SetBit (bm_view bs v) (int i) on = Inr (bm_bit (bm_view bs v) i, bm)"
    "put_checked (bm_base v + i div 64 * 8) (le_put 8 (words bm ! (i div 64))) (bm_store bs v bm) = Inr bs'"
    "length bs' = length bs"
    "\<And>j. bm_bit (bm_view bs' v) j = (if j = i then on else bm_bit (bm_view bs v) j)"
    "\<And>p n. p + n \<le> length bs \<Longrightarrow> p + n \<le> bm_base v \<or> bm_base v + 8 * view_words v \<le> p \<Longrightarrow>
       slice p n bs' = slice p n bs"
proof -
  obtain bm where bm: "SetBit (bm_view bs v) (int i) on = Inr (bm_bit (bm_view bs v) i, bm)"
      "wf_bitmap bm" "numBits bm = bm_numBits v"
      "\<And>j. bm_bit bm j = (if j = i then on else bm_bit (bm_view bs v) j)"
    using SetBit_eq [of "bm_view bs v" i on] i by auto
  let ?bs' = "bm_store bs v bm" and ?k = "i div 64"
  have len: "length (words bm) = view_words v" using bm by (simp add: wf_bitmap_def)
  have k: "?k < length (words bm)" using i len by linarith
  have l: "length ?bs' = length bs" using fit len by (simp add: bm_store_def)
  have "slice (bm_base v + ?k * 8) 8 ?bs' = slice (8 * ?k) 8 (concat (map (le_put 8) (words bm)))"
    using fit k len by (intro nth_equalityI) (auto simp: bm_store_def nth_slice nth_put_at algebra_simps)
  then have w: "slice (bm_base v + ?k * 8) 8 ?bs' = le_put 8 (words bm ! ?k)"
    using slice_concat_words [OF k] by simp
  have "bm_base v + ?k * 8 + 8 \<le> length ?bs'" using fit k len l by linarith
  then have "put_checked (bm_base v + ?k * 8) (le_put 8 (words bm ! ?k)) ?bs' = Inr ?bs'"
    using put_at_same_bytes [of "bm_base v + ?k * 8" 8 ?bs'] by (simp add: put_checked_def w)
  moreover have "bm_view ?bs' v = bm" by (rule bm_view_store [OF fit bm(2,3)])
  moreover have "slice p n ?bs' = slice p n bs"
    if "p + n \<le> length bs" "p + n \<le> bm_base v \<or> bm_base v + 8 * view_words v \<le> p" for p n
    using that fit len by (simp add: bm_store_def slice_put_at_other)
  ultimately show thesis using that [OF bm(1)] bm(4) l by simp
qed

section \<open>The well-formed heap page and what it stores\<close>

record slot =
  s_alloc :: bool
  s_del :: bool
  s_row :: RawTuple

definition hp_slots :: "PageFrame \<Rightarrow> slot list" where
  "hp_slots hp =
     map (\<lambda>i. \<lparr>s_alloc = bm_bit (bm_view (Bytes hp) (allocBitmap hp)) i,
               s_del = bm_bit (bm_view (Bytes hp) (deletedBitmap hp)) i,
               s_row = slice (dataStart hp + i * rowSize hp) (rowSize hp) (Bytes hp)\<rparr>)
       [0..<numSlots hp]"

definition wf_bytes :: "nat \<Rightarrow> nat \<Rightarrow> byte list \<Rightarrow> bool" where
  "wf_bytes rs n bs \<longleftrightarrow> length bs = PageSize \<and>
     unat (le_get (slice PageOffsetRowSize 2 bs) :: 16 word) = rs \<and>
     unat (le_get (slice PageOffsetNumSlots 2 bs) :: 16 word) = n \<and>
     le_get (slice PageOffsetPadding 2 bs) = HeapPageMagic"

definition wf_heap_page :: "PageFrame \<Rightarrow> bool" where
  "wf_heap_page hp \<longleftrightarrow> cached hp \<and> wf_bytes (rowSize hp) (numSlots hp) (Bytes hp) \<and>
     0 < numSlots hp \<and> layout_end (rowSize hp) (numSlots hp) \<le> PageSize \<and>
     bitMapSize hp = bitmap_bytes (numSlots hp) \<and> padding hp = 0 \<and>
     dataStart hp = 16 + 2 * bitmap_bytes (numSlots hp) \<and>
     allocBitmap hp = \<lparr>bm_base = 16, bm_numBits = numSlots hp\<rparr> \<and>
     deletedBitmap hp = \<lparr>bm_base = 16 + bitmap_bytes (numSlots hp), bm_numBits = numSlots hp\<rparr> \<and>
     0 \<le> startHint hp \<and> startHint hp < int (numSlots hp)"

definition used_ok :: "PageFrame \<Rightarrow> bool" where
  "used_ok hp \<longleftrightarrow> numUsed hp = int (length (filter s_alloc (hp_slots hp))) \<and>
     numUsed hp = uint (le_get (slice PageOffsetNumUsed 2 (Bytes hp)) :: 16 word)"

lemma length_hp_slots [simp]: "length (hp_slots hp) = numSlots hp"
  by (simp add: hp_slots_def)

lemma nth_hp_slots: "i < numSlots hp \<Longrightarrow> hp_slots hp ! i =
    \<lparr>s_alloc = bm_bit (bm_view (Bytes hp) (allocBitmap hp)) i,
     s_del = bm_bit (bm_view (Bytes hp) (deletedBitmap hp)) i,
     s_row = slice (dataStart hp + i * rowSize hp) (rowSize hp) (Bytes hp)\<rparr>"
  by (simp add: hp_slots_def)

lemma row_fits:
  assumes "wf_heap_page hp" "i < numSlots hp"
  shows "dataStart hp + i * rowSize hp + rowSize hp \<le> length (Bytes hp)"
proof -
  have "Suc i * rowSize hp \<le> numSlots hp * rowSize hp" using assms(2) by (intro mult_le_mono1) simp
  then show ?thesis using assms(1) by (simp add: wf_heap_page_def wf_bytes_def layout_end_def)
qed

lemma rows_disjoint: "i \<noteq> j \<Longrightarrow> a + i * r + r \<le> a + j * r \<or> a + j * r + r \<le> a + i * (r :: nat)"
  using mult_le_mono1 [of "Suc i" j r] mult_le_mono1 [of "Suc j" i r] by (cases "i < j") auto

lemma wf_bytes_cong:
  assumes "wf_bytes rs n bs" "length bs' = length bs" "slice 8 2 bs' = slice 8 2 bs"
    "slice 10 2 bs' = slice 10 2 bs" "slice 14 2 bs' = slice 14 2 bs"
  shows "wf_bytes rs n bs'"
  using assms by (simp add: wf_bytes_def offset_defs)

lemma wf_heap_page_bytes:
  assumes "wf_heap_page hp" "length bs' = length (Bytes hp)" "slice 8 2 bs' = slice 8 2 (Bytes hp)"
    "slice 10 2 bs' = slice 10 2 (Bytes hp)" "slice 14 2 bs' = slice 14 2 (Bytes hp)"
  shows "wf_heap_page (hp\<lparr>Bytes := bs'\<rparr>)" "wf_heap_page (hp\<lparr>Bytes := bs', numUsed := u\<rparr>)"
  using assms by (auto simp: wf_heap_page_def elim: wf_bytes_cong)

lemma page_length: "wf_heap_page hp \<Longrightarrow> length (Bytes hp) = 4096"
  by (simp add: wf_heap_page_def wf_bytes_def PageSize_def)

lemma view_bytes: "view_words \<lparr>bm_base = b, bm_numBits = n\<rparr> * 8 = bitmap_bytes n"
  by (simp add: bitmap_bytes_def)

lemma views_fit:
  assumes "wf_heap_page hp"
  shows "bm_base (allocBitmap hp) + 8 * view_words (allocBitmap hp) \<le> length (Bytes hp)"
    and "bm_base (deletedBitmap hp) + 8 * view_words (deletedBitmap hp) \<le> length (Bytes hp)"
  using assms by (auto simp: wf_heap_page_def wf_bytes_def layout_end_def bitmap_bytes_def PageSize_def)

lemma AccessTuple_spec:
  assumes "wf_heap_page hp" "rid_slot rid = int i" "i < numSlots hp"
  shows "AccessTuple hp rid = Inr (s_row (hp_slots hp ! i))"
proof -
  have "int (dataStart hp) + int i * int (rowSize hp) = int (dataStart hp + i * rowSize hp)" by simp
  then show ?thesis
    using row_fits [OF assms(1,3)] assms
    by (auto simp: AccessTuple_def nth_hp_slots Let_def simp flip: of_nat_mult of_nat_add)
qed

lemma IsAllocated_spec:
  assumes "wf_heap_page hp" "rid_slot rid = int i" "i < numSlots hp"
  shows "IsAllocated hp rid = Inr (s_alloc (hp_slots hp ! i))"
  using assms LoadBit_eq [of "bm_view (Bytes hp) (allocBitmap hp)" i]
  by (simp add: IsAllocated_def nth_hp_slots wf_heap_page_def)

lemma IsDeleted_spec:
  assumes "wf_heap_page hp" "rid_slot rid = int i" "i < numSlots hp"
  shows "IsDeleted hp rid = Inr (s_del (hp_slots hp ! i))"
  using assms LoadBit_eq [of "bm_view (Bytes hp) (deletedBitmap hp)" i]
  by (simp add: IsDeleted_def nth_hp_slots wf_heap_page_def)

text \<open>
  Each operation's effect on the stored slots.  \<open>same_header\<close> collects what every one
  of them leaves alone: the length, the header fields other than the use count, and
  the page's log sequence number.
\<close>

definition same_header :: "PageFrame \<Rightarrow> PageFrame \<Rightarrow> bool" where
  "same_header hp hp' \<longleftrightarrow> frame_LSN hp' = frame_LSN hp \<and> recLSN hp' = recLSN hp \<and>
     pageId hp' = pageId hp \<and> numSlots hp' = numSlots hp \<and> rowSize hp' = rowSize hp"

lemma same_header_trans: "same_header a b \<Longrightarrow> same_header b c \<Longrightarrow> same_header a c"
  by (simp add: same_header_def)

lemma hp_slots_eqI:
  assumes "length ss = numSlots hp"
    "\<And>j. j < numSlots hp \<Longrightarrow> bm_bit (bm_view (Bytes hp) (allocBitmap hp)) j = s_alloc (ss ! j)"
    "\<And>j. j < numSlots hp \<Longrightarrow> bm_bit (bm_view (Bytes hp) (deletedBitmap hp)) j = s_del (ss ! j)"
    "\<And>j. j < numSlots hp \<Longrightarrow> slice (dataStart hp + j * rowSize hp) (rowSize hp) (Bytes hp) = s_row (ss ! j)"
  shows "hp_slots hp = ss"
  using assms by (intro nth_equalityI) (auto simp: nth_hp_slots)

lemma MarkDeleted_spec:
  assumes wf: "wf_heap_page hp" and rid: "rid_slot rid = int i" and i: "i < numSlots hp"
  obtains hp' where "MarkDeleted hp rid on = Inr hp'" "wf_heap_page hp'" "same_header hp hp'"
    "hp_slots hp' = (hp_slots hp)[i := (hp_slots hp ! i)\<lparr>s_del := on\<rparr>]" "numUsed hp' = numUsed hp"
    "slice PageOffsetNumUsed 2 (Bytes hp') = slice PageOffsetNumUsed 2 (Bytes hp)"
proof -
  let ?v = "deletedBitmap hp" and ?n = "numSlots hp"
  have v: "?v = \<lparr>bm_base = 16 + bitmap_bytes ?n, bm_numBits = ?n\<rparr>"
    "allocBitmap hp = \<lparr>bm_base = 16, bm_numBits = ?n\<rparr>" "dataStart hp = 16 + 2 * bitmap_bytes ?n"
    "bitMapSize hp = bitmap_bytes ?n" "padding hp = 0"
    using wf by (auto simp: wf_heap_page_def)
  have e: "bm_base ?v + 8 * view_words ?v = dataStart hp" by (simp add: v bitmap_bytes_def)
  obtain bm bs' where b: "SetBit (bm_view (Bytes hp) ?v) (int i) on = Inr (bm_bit (bm_view (Bytes hp) ?v) i, bm)"
      "put_checked (bm_base ?v + i div 64 * 8) (le_put 8 (words bm ! (i div 64))) (bm_store (Bytes hp) ?v bm) = Inr bs'"
      "length bs' = length (Bytes hp)"
      "\<And>j. bm_bit (bm_view bs' ?v) j = (if j = i then on else bm_bit (bm_view (Bytes hp) ?v) j)"
      "\<And>p n. p + n \<le> length (Bytes hp) \<Longrightarrow> p + n \<le> bm_base ?v \<or> bm_base ?v + 8 * view_words ?v \<le> p \<Longrightarrow>
         slice p n bs' = slice p n (Bytes hp)"
    by (rule set_view_bit [OF views_fit(2) [OF wf]]) (use i v in auto)
  have lo: "slice p n bs' = slice p n (Bytes hp)" if "p + n \<le> 16 + bitmap_bytes ?n" for p n
    using b(5) [of p n] that views_fit(2) [OF wf] by (simp add: v)
  have "bm_view bs' (allocBitmap hp) = bm_view (Bytes hp) (allocBitmap hp)"
    by (rule bm_view_cong, rule lo) (simp add: v bitmap_bytes_def)
  moreover have "slice (dataStart hp + j * rowSize hp) (rowSize hp) bs' =
      slice (dataStart hp + j * rowSize hp) (rowSize hp) (Bytes hp)" if "j < ?n" for j
    using row_fits [OF wf that] by (intro b(5)) (simp_all only: e le_add1 simp_thms)
  ultimately have "hp_slots (hp\<lparr>Bytes := bs'\<rparr>) = (hp_slots hp)[i := (hp_slots hp ! i)\<lparr>s_del := on\<rparr>]"
    using b(4) i by (intro hp_slots_eqI) (auto simp: nth_list_update nth_hp_slots)
  moreover have "MarkDeleted hp rid on = Inr (hp\<lparr>Bytes := bs'\<rparr>)"
    using b(1,2) by (simp add: MarkDeleted_def rid v HeaderSize_def sdiv_nat_64 Let_def)
  moreover have "wf_heap_page (hp\<lparr>Bytes := bs'\<rparr>)"
    using wf b(3) lo by (intro wf_heap_page_bytes) simp_all
  ultimately show thesis
    using that [of "hp\<lparr>Bytes := bs'\<rparr>"] lo by (simp add: same_header_def frame_LSN_def offset_defs)
qed

text \<open>The allocation bit and the use count, before the deleted bit is cleared.\<close>

lemma set_alloc_spec:
  assumes wf: "wf_heap_page hp" and rid: "rid_slot rid = int i" and i: "i < numSlots hp"
  obtains bm bs' hp' where
    "SetBit (bm_view (Bytes hp) (allocBitmap hp)) (rid_slot rid) on = Inr (s_alloc (hp_slots hp ! i), bm)"
    "put_checked (HeaderSize + i div 64 * 8) (le_put 8 (words bm ! (i div 64)))
       (bm_store (Bytes hp) (allocBitmap hp) bm) = Inr bs'"
    "hp' = SetNumUsed (hp\<lparr>Bytes := bs'\<rparr>) u" "wf_heap_page hp'" "same_header hp hp'"
    "hp_slots hp' = (hp_slots hp)[i := (hp_slots hp ! i)\<lparr>s_alloc := on\<rparr>]" "numUsed hp' = u"
    "le_get (slice PageOffsetNumUsed 2 (Bytes hp')) = (of_int u :: 16 word)"
proof -
  let ?v = "allocBitmap hp" and ?n = "numSlots hp"
  have v: "deletedBitmap hp = \<lparr>bm_base = 16 + bitmap_bytes ?n, bm_numBits = ?n\<rparr>"
    "?v = \<lparr>bm_base = 16, bm_numBits = ?n\<rparr>" "dataStart hp = 16 + 2 * bitmap_bytes ?n"
    using wf by (auto simp: wf_heap_page_def)
  obtain bm bs' where b: "SetBit (bm_view (Bytes hp) ?v) (int i) on = Inr (bm_bit (bm_view (Bytes hp) ?v) i, bm)"
      "put_checked (bm_base ?v + i div 64 * 8) (le_put 8 (words bm ! (i div 64))) (bm_store (Bytes hp) ?v bm) = Inr bs'"
      "length bs' = length (Bytes hp)"
      "\<And>j. bm_bit (bm_view bs' ?v) j = (if j = i then on else bm_bit (bm_view (Bytes hp) ?v) j)"
      "\<And>p n. p + n \<le> length (Bytes hp) \<Longrightarrow> p + n \<le> bm_base ?v \<or> bm_base ?v + 8 * view_words ?v \<le> p \<Longrightarrow>
         slice p n bs' = slice p n (Bytes hp)"
    by (rule set_view_bit [OF views_fit(1) [OF wf]]) (use i v in auto)
  define bs2 where "bs2 = put_at PageOffsetNumUsed (le_put 2 (of_int u :: 16 word)) bs'"
  have len: "length bs' = 4096" using b(3) page_length [OF wf] by simp
  have keep: "slice p n bs2 = slice p n bs'" if "p + n \<le> 12 \<or> 14 \<le> p" "p + n \<le> 4096" for p n
    unfolding bs2_def using that len by (intro slice_put_at_other) (auto simp: offset_defs)
  have lo: "slice p n bs2 = slice p n (Bytes hp)" if "p + n \<le> 12 \<or> 14 \<le> p \<and> p + n \<le> 16" for p n
    using keep [of p n] b(5) [of p n] that len b(3) by (auto simp: v)
  have hi: "slice p n bs2 = slice p n (Bytes hp)" if "16 + bitmap_bytes ?n \<le> p" "p + n \<le> 4096" for p n
    using keep [of p n] b(5) [of p n] that len b(3) by (auto simp: v bitmap_bytes_def)
  let ?hp = "SetNumUsed (hp\<lparr>Bytes := bs'\<rparr>) u"
  have hp: "?hp = hp\<lparr>Bytes := bs2, numUsed := u\<rparr>" by (simp add: SetNumUsed_def bs2_def)
  have "bm_view bs2 ?v = bm_view bs' ?v"
    by (rule bm_view_cong, rule keep) (use views_fit(1) [OF wf] page_length [OF wf] v in auto)
  moreover have "bm_view bs2 (deletedBitmap hp) = bm_view (Bytes hp) (deletedBitmap hp)"
    by (rule bm_view_cong, rule hi) (use views_fit(2) [OF wf] page_length [OF wf] v in auto)
  moreover have "slice (dataStart hp + j * rowSize hp) (rowSize hp) bs2 =
      slice (dataStart hp + j * rowSize hp) (rowSize hp) (Bytes hp)" if "j < ?n" for j
    using row_fits [OF wf that] page_length [OF wf] by (intro hi) (simp_all add: v)
  ultimately have "hp_slots ?hp = (hp_slots hp)[i := (hp_slots hp ! i)\<lparr>s_alloc := on\<rparr>]"
    unfolding hp using b(4) i by (intro hp_slots_eqI) (auto simp: nth_list_update nth_hp_slots)
  moreover have "wf_heap_page ?hp"
    unfolding hp using wf b(3) len lo by (intro wf_heap_page_bytes) (auto simp: bs2_def offset_defs)
  moreover have "same_header hp ?hp"
    unfolding hp using lo by (simp add: same_header_def frame_LSN_def offset_defs)
  moreover have "le_get (slice PageOffsetNumUsed 2 (Bytes ?hp)) = (of_int u :: 16 word)"
    using len by (simp add: hp bs2_def offset_defs)
  moreover have "numUsed ?hp = u" by (simp add: SetNumUsed_def)
  ultimately show thesis
    using that [of bm bs' ?hp] b(1,2) i by (simp add: v HeaderSize_def rid nth_hp_slots)
qed

lemma MarkAllocated_spec:
  assumes wf: "wf_heap_page hp" and rid: "rid_slot rid = int i" and i: "i < numSlots hp"
  obtains hp' where "MarkAllocated hp rid on = Inr hp'" "wf_heap_page hp'" "same_header hp hp'"
    "hp_slots hp' = (hp_slots hp)[i := (hp_slots hp ! i)
       \<lparr>s_alloc := on, s_del := (on \<and> s_del (hp_slots hp ! i))\<rparr>]"
    "numUsed hp' = numUsed hp + (if on then 1 else - 1)"
    "le_get (slice PageOffsetNumUsed 2 (Bytes hp')) = (of_int (numUsed hp') :: 16 word)"
proof -
  obtain bm bs' hp' where a:
      "SetBit (bm_view (Bytes hp) (allocBitmap hp)) (rid_slot rid) on = Inr (s_alloc (hp_slots hp ! i), bm)"
      "put_checked (HeaderSize + i div 64 * 8) (le_put 8 (words bm ! (i div 64)))
         (bm_store (Bytes hp) (allocBitmap hp) bm) = Inr bs'"
      "hp' = SetNumUsed (hp\<lparr>Bytes := bs'\<rparr>) (numUsed hp + (if on then 1 else - 1))"
      "wf_heap_page hp'" "same_header hp hp'"
      "hp_slots hp' = (hp_slots hp)[i := (hp_slots hp ! i)\<lparr>s_alloc := on\<rparr>]"
      "numUsed hp' = numUsed hp + (if on then 1 else - 1)"
      "le_get (slice PageOffsetNumUsed 2 (Bytes hp')) =
         (of_int (numUsed hp + (if on then 1 else - 1)) :: 16 word)"
    by (rule set_alloc_spec [OF assms])
  have i': "i < numSlots hp'" using a(5) i by (simp add: same_header_def)
  have m: "MarkAllocated hp rid on = (if on then Inr hp' else MarkDeleted hp' rid False)"
    using a(1,2,3) by (simp add: MarkAllocated_def rid sdiv_nat_64 Let_def)
  show thesis
  proof (cases on)
    case True
    then show ?thesis using that [of hp'] a m i by simp
  next
    case False
    obtain hp2 where d: "MarkDeleted hp' rid False = Inr hp2" "wf_heap_page hp2" "same_header hp' hp2"
      "hp_slots hp2 = (hp_slots hp')[i := (hp_slots hp' ! i)\<lparr>s_del := False\<rparr>]" "numUsed hp2 = numUsed hp'"
      "slice PageOffsetNumUsed 2 (Bytes hp2) = slice PageOffsetNumUsed 2 (Bytes hp')"
      by (rule MarkDeleted_spec [OF a(4) rid i'])
    then show ?thesis using that [of hp2] False a m i same_header_trans [OF a(5) d(3)] by simp
  qed
qed

lemma CopyIntoTuple_spec:
  assumes wf: "wf_heap_page hp" and rid: "rid_slot rid = int i" and i: "i < numSlots hp"
    and row: "length row = rowSize hp"
  obtains hp' where "CopyIntoTuple hp rid row = Inr hp'" "wf_heap_page hp'" "same_header hp hp'"
    "hp_slots hp' = (hp_slots hp)[i := (hp_slots hp ! i)\<lparr>s_row := row\<rparr>]" "numUsed hp' = numUsed hp"
    "slice PageOffsetNumUsed 2 (Bytes hp') = slice PageOffsetNumUsed 2 (Bytes hp)"
proof -
  let ?p = "dataStart hp + i * rowSize hp"
  note fit = row_fits [OF wf i]
  have v: "deletedBitmap hp = \<lparr>bm_base = 16 + bitmap_bytes (numSlots hp), bm_numBits = numSlots hp\<rparr>"
    "allocBitmap hp = \<lparr>bm_base = 16, bm_numBits = numSlots hp\<rparr>"
    "dataStart hp = 16 + 2 * bitmap_bytes (numSlots hp)"
    using wf by (auto simp: wf_heap_page_def)
  define bs' where "bs' = put_at ?p row (Bytes hp)"
  have lo: "slice p n bs' = slice p n (Bytes hp)" if "p + n \<le> dataStart hp" for p n
    unfolding bs'_def using that fit row by (intro slice_put_at_other) auto
  have n: "nat (int (dataStart hp) + int i * int (rowSize hp)) = ?p"
    by (simp flip: of_nat_mult of_nat_add)
  have row_i: "length (s_row (hp_slots hp ! i)) = rowSize hp" using fit i by (simp add: nth_hp_slots)
  then have "CopyIntoTuple hp rid row = Inr (hp\<lparr>Bytes := bs'\<rparr>)"
    using row by (simp add: CopyIntoTuple_def AccessTuple_spec [OF wf rid i] rid n bs'_def)
  moreover have va: "bm_view bs' (allocBitmap hp) = bm_view (Bytes hp) (allocBitmap hp)"
    "bm_view bs' (deletedBitmap hp) = bm_view (Bytes hp) (deletedBitmap hp)"
    by (rule bm_view_cong, rule lo, simp add: v bitmap_bytes_def)+
  moreover have sl: "slice (dataStart hp + j * rowSize hp) (rowSize hp) bs' =
      (if j = i then row else slice (dataStart hp + j * rowSize hp) (rowSize hp) (Bytes hp))"
    if "j < numSlots hp" for j
    using rows_disjoint [of i j "dataStart hp" "rowSize hp"] fit row row_fits [OF wf that]
    by (auto simp: bs'_def intro!: slice_put_at_other)
  then have "hp_slots (hp\<lparr>Bytes := bs'\<rparr>) = (hp_slots hp)[i := (hp_slots hp ! i)\<lparr>s_row := row\<rparr>]"
    using i va by (intro hp_slots_eqI) (auto simp: nth_list_update nth_hp_slots)
  moreover have "wf_heap_page (hp\<lparr>Bytes := bs'\<rparr>)"
    using wf fit row lo by (intro wf_heap_page_bytes) (simp_all add: bs'_def v)
  moreover have "slice 0 8 bs' = slice 0 8 (Bytes hp)" "slice 12 2 bs' = slice 12 2 (Bytes hp)"
    by (rule lo, simp add: v)+
  ultimately show thesis
    using that [of "hp\<lparr>Bytes := bs'\<rparr>"] by (simp add: same_header_def frame_LSN_def offset_defs)
qed

lemma FindFreeSlot_spec:
  assumes wf: "wf_heap_page hp"
  obtains hp' k where "FindFreeSlot hp = Inr (k, hp')" "wf_heap_page hp'" "same_header hp hp'"
    "hp_slots hp' = hp_slots hp" "Bytes hp' = Bytes hp" "numUsed hp' = numUsed hp"
    "k = - 1 \<Longrightarrow> \<forall>s \<in> set (hp_slots hp). s_alloc s"
    "k \<noteq> - 1 \<Longrightarrow> 0 \<le> k \<and> k < int (numSlots hp) \<and> \<not> s_alloc (hp_slots hp ! nat k)"
proof -
  let ?b = "bm_view (Bytes hp) (allocBitmap hp)" and ?st = "nat (startHint hp)" and ?n = "numSlots hp"
  have v: "bm_numBits (allocBitmap hp) = ?n" "0 < ?n" "0 \<le> startHint hp" "startHint hp < int ?n"
    using wf by (auto simp: wf_heap_page_def)
  then have st: "?st < numBits ?b" "int ?st = startHint hp" by auto
  define k where "k = first_zero_spec ?b ?st"
  have f: "FindFirstZero ?b (startHint hp) = Inr k" "k = - 1 \<longleftrightarrow> (\<forall>i < ?n. bm_bit ?b i)"
    using FindFirstZero_spec [of ?b ?st] st v by (simp_all add: k_def)
  have k: "k = - 1 \<or> 0 \<le> k \<and> k < int ?n \<and> \<not> bm_bit ?b (nat k)"
    using st v by (auto simp: k_def first_zero_spec_def dest!: find_SomeD split: option.splits)
  let ?hp = "hp\<lparr>startHint := (k + 1) smod int ?n\<rparr>"
  have "0 \<le> (k + 1) smod int ?n \<and> (k + 1) smod int ?n < int ?n"
    using k v by (auto simp: signed_modulo_int_def)
  then have "wf_heap_page ?hp" using wf by (simp add: wf_heap_page_def)
  moreover have "hp_slots ?hp = hp_slots hp" by (simp add: hp_slots_def)
  moreover have "FindFreeSlot hp = Inr (k, ?hp)" using f v by (simp add: FindFreeSlot_def)
  moreover have "same_header hp ?hp" by (simp add: same_header_def frame_LSN_def)
  moreover have "\<forall>s \<in> set (hp_slots hp). s_alloc s" if "k = - 1"
    using that f(2) by (auto simp: hp_slots_def)
  ultimately show thesis using that [of k ?hp] k by (auto simp: nth_hp_slots nat_less_iff)
qed

lemma MonotonicallyUpdateLSN_spec:
  assumes wf: "wf_heap_page hp"
  shows "wf_heap_page (MonotonicallyUpdateLSN hp lsn)"
    "hp_slots (MonotonicallyUpdateLSN hp lsn) = hp_slots hp"
    "frame_LSN (MonotonicallyUpdateLSN hp lsn) = max (frame_LSN hp) lsn"
    "slice PageOffsetNumUsed 2 (Bytes (MonotonicallyUpdateLSN hp lsn)) = slice PageOffsetNumUsed 2 (Bytes hp)"
    "numUsed (MonotonicallyUpdateLSN hp lsn) = numUsed hp"
proof -
  let ?bs = "put_at 0 (le_put 8 lsn) (Bytes hp)"
  have len: "length (Bytes hp) = 4096" by (rule page_length [OF wf])
  have hi: "slice p n ?bs = slice p n (Bytes hp)" if "8 \<le> p" "p + n \<le> 4096" for p n
    using that len by (intro slice_put_at_other) auto
  have v: "deletedBitmap hp = \<lparr>bm_base = 16 + bitmap_bytes (numSlots hp), bm_numBits = numSlots hp\<rparr>"
    "allocBitmap hp = \<lparr>bm_base = 16, bm_numBits = numSlots hp\<rparr>"
    "dataStart hp = 16 + 2 * bitmap_bytes (numSlots hp)"
    using wf by (auto simp: wf_heap_page_def)
  have va: "bm_view ?bs (allocBitmap hp) = bm_view (Bytes hp) (allocBitmap hp)"
    by (rule bm_view_cong, rule hi) (use views_fit(1) [OF wf] len v in auto)
  have vd: "bm_view ?bs (deletedBitmap hp) = bm_view (Bytes hp) (deletedBitmap hp)"
    by (rule bm_view_cong, rule hi) (use views_fit(2) [OF wf] len v in auto)
  have "slice (dataStart hp + j * rowSize hp) (rowSize hp) ?bs =
      slice (dataStart hp + j * rowSize hp) (rowSize hp) (Bytes hp)" if "j < numSlots hp" for j
    using row_fits [OF wf that] len by (intro hi) (simp_all add: v)
  then have sl: "hp_slots (hp\<lparr>Bytes := ?bs, recLSN := r\<rparr>) = hp_slots hp" for r
    using va vd by (intro hp_slots_eqI) (auto simp: nth_hp_slots)
  have w: "wf_heap_page (hp\<lparr>Bytes := ?bs, recLSN := r\<rparr>)" for r
    using wf_heap_page_bytes(1) [OF wf, of ?bs] hi len by (simp add: wf_heap_page_def)
  show "wf_heap_page (MonotonicallyUpdateLSN hp lsn)"
    "hp_slots (MonotonicallyUpdateLSN hp lsn) = hp_slots hp"
    "frame_LSN (MonotonicallyUpdateLSN hp lsn) = max (frame_LSN hp) lsn"
    "slice PageOffsetNumUsed 2 (Bytes (MonotonicallyUpdateLSN hp lsn)) = slice PageOffsetNumUsed 2 (Bytes hp)"
    "numUsed (MonotonicallyUpdateLSN hp lsn) = numUsed hp"
    using wf w sl hi len
    by (auto simp: MonotonicallyUpdateLSN_def frame_LSN_def offset_defs max_def)
qed

section \<open>A fresh heap page\<close>

lemma le_get_zeros [simp]: "le_get (replicate n 0) = 0"
  by (induction n) auto

lemma slice_replicate [simp]: "p + n \<le> m \<Longrightarrow> slice p n (replicate m x) = replicate n x"
  by (simp add: slice_def)

lemma init_heap_page_lemma:
  assumes d: "wf_desc d" "0 < rd_bytes d" "rd_bytes d \<le> PageSize - 32"
    and f: "length (Bytes frame) = PageSize" "\<not> cached frame" "\<not> IsInitializedHeapPage frame"
  obtains hp where "bindR (InitializeHeapPage d frame) AsHeapPage = Inr hp" "wf_heap_page hp"
    "rowSize hp = rd_bytes d" "numSlots hp = slots_for (rd_bytes d)" "numUsed hp = 0"
    "\<forall>s \<in> set (hp_slots hp). \<not> s_alloc s \<and> \<not> s_del s" "used_ok hp" "frame_LSN hp = 0"
proof -
  let ?rs = "rd_bytes d"
  let ?n = "slots_for ?rs"
  have dv: "8 dvd ?rs" using d(1) total_size_dvd by (simp add: wf_desc_def)
  have n: "0 < ?n" "?n \<le> 494" "layout_end ?rs ?n \<le> 4096"
    using slots_for_fits [OF dv d(2)] d(3) by (auto simp: PageSize_def)
  define b1 :: "byte list" where "b1 = put_at 8 (le_put 2 (of_nat ?rs :: 16 word)) (replicate 4096 0)"
  define b2 where "b2 = put_at 10 (le_put 2 (of_nat ?n :: 16 word)) b1"
  define bs where "bs = put_at 14 (le_put 2 HeapPageMagic) b2"
  have len: "length b1 = 4096" "length b2 = 4096" "length bs = 4096"
    by (simp_all add: b1_def b2_def bs_def)
  have z: "slice p m bs = replicate m 0" if "p + m \<le> 8 \<or> 12 \<le> p \<and> p + m \<le> 14 \<or> 16 \<le> p \<and> p + m \<le> 4096" for p m
    using that len by (auto simp: bs_def b2_def b1_def slice_put_at_other)
  have hd: "slice 8 2 bs = le_put 2 (of_nat ?rs :: 16 word)" "slice 10 2 bs = le_put 2 (of_nat ?n :: 16 word)"
    "slice 14 2 bs = le_put 2 HeapPageMagic"
    using len by (simp_all add: bs_def b2_def b1_def slice_put_at_other)
  have un: "unat (of_nat ?rs :: 16 word) = ?rs" "unat (of_nat ?n :: 16 word) = ?n"
    using d(3) n by (auto simp: PageSize_def unat_of_nat)
  have init: "InitializeHeapPage d frame = Inr (frame\<lparr>Bytes := bs\<rparr>)"
    using f d(2)
    by (simp add: InitializeHeapPage_def IsInitializedHeapPage_def BytesPerTuple_def bs_def b2_def
        b1_def slots_for_def offset_defs PageSize_def Let_def)
  have bb: "16 + bitmap_bytes ?n + bitmap_bytes ?n \<le> 4096" "bitmap_bytes ?n mod 8 = 0" "0 < bitmap_bytes ?n"
    using n by (auto simp: layout_end_def bitmap_bytes_def)
  have as: "\<exists>bm. AsBitmap (slice p (bitmap_bytes ?n) bs) ?n = Inr bm" if "p + bitmap_bytes ?n \<le> 4096" for p
  proof -
    have l: "length (slice p (bitmap_bytes ?n) bs) = bitmap_bytes ?n" using that len by simp
    then have "slice p (bitmap_bytes ?n) bs \<noteq> []" using bb(3) by (metis less_numeral_extra(3) list.size(3))
    moreover have "AlignedTo8 (int (bitmap_bytes ?n))" by (rule AlignedTo8_dvd) (use bb in presburger)
    ultimately show ?thesis using l by (simp add: AsBitmap_def Let_def) (simp add: bitmap_bytes_def)
  qed
  define hp where "hp = frame\<lparr>Bytes := bs, cached := True, rowSize := ?rs, numSlots := ?n, numUsed := 0,
      bitMapSize := bitmap_bytes ?n, padding := 0, dataStart := 16 + bitmap_bytes ?n + bitmap_bytes ?n,
      startHint := 0, allocBitmap := \<lparr>bm_base = 16, bm_numBits = ?n\<rparr>,
      deletedBitmap := \<lparr>bm_base = 16 + bitmap_bytes ?n, bm_numBits = ?n\<rparr>\<rparr>"
  have "AsHeapPage (frame\<lparr>Bytes := bs\<rparr>) = Inr hp"
    using f(2) as [of 16] as [of "16 + bitmap_bytes ?n"] bb hd un z [of 12 2] len
    by (auto simp: AsHeapPage_def slice_checked_def offset_defs hp_def Let_def mod_add_eq)
  then have r: "bindR (InitializeHeapPage d frame) AsHeapPage = Inr hp" by (simp add: init)
  have wf: "wf_heap_page hp"
    using len hd un n by (simp add: wf_heap_page_def wf_bytes_def hp_def offset_defs PageSize_def)
  have "bm_bit (bm_view bs v) i = False" if "16 \<le> bm_base v" "bm_base v + 8 * view_words v \<le> 4096"
      "i < bm_numBits v" for v i
  proof -
    have "i div 64 < view_words v" using that(3) by linarith
    then have "8 * (i div 64) + 8 \<le> 8 * view_words v" by linarith
    then show ?thesis
      using that z [of "bm_base v" "8 * view_words v"]
      by (simp add: bm_view_def bm_bit_def decode_words_def Let_def)
  qed
  then have free: "\<forall>s \<in> set (hp_slots hp). \<not> s_alloc s \<and> \<not> s_del s"
    using bb by (auto simp: hp_slots_def hp_def bitmap_bytes_def)
  then have "filter s_alloc (hp_slots hp) = []" by (simp add: filter_empty_conv)
  then have "used_ok hp" using z [of 12 2] by (simp add: used_ok_def hp_def offset_defs)
  moreover have "frame_LSN hp = 0" using z [of 0 8] by (simp add: frame_LSN_def hp_def offset_defs)
  ultimately show thesis using that [OF r wf] free by (simp add: hp_def)
qed

section \<open>The slotted page as an interface\<close>

text \<open>
  The table heap, transaction rollback and recovery change pages only through marking
  slots and writing rows.  The locale states what they rely on: each operation succeeds
  on a valid page and an existing slot, keeps the page valid, and changes that slot only.
\<close>

definition visible :: "slot \<Rightarrow> bool" where
  "visible s \<longleftrightarrow> s_alloc s \<and> \<not> s_del s"

locale slotted_page =
  fixes inv :: "'p \<Rightarrow> bool" and slots :: "'p \<Rightarrow> slot list" and row_len :: "'p \<Rightarrow> nat"
    and mark_alloc :: "'p \<Rightarrow> RecordID \<Rightarrow> bool \<Rightarrow> 'p res"
    and mark_del :: "'p \<Rightarrow> RecordID \<Rightarrow> bool \<Rightarrow> 'p res"
    and write_row :: "'p \<Rightarrow> RecordID \<Rightarrow> RawTuple \<Rightarrow> 'p res"
  assumes alloc_law: "inv p \<Longrightarrow> rid_slot rid = int i \<Longrightarrow> i < length (slots p) \<Longrightarrow>
      \<exists>q. mark_alloc p rid on = Inr q \<and> inv q \<and> row_len q = row_len p \<and>
        slots q = (slots p)[i := (slots p ! i)\<lparr>s_alloc := on, s_del := (on \<and> s_del (slots p ! i))\<rparr>]"
    and del_law: "inv p \<Longrightarrow> rid_slot rid = int i \<Longrightarrow> i < length (slots p) \<Longrightarrow>
      \<exists>q. mark_del p rid on = Inr q \<and> inv q \<and> row_len q = row_len p \<and>
        slots q = (slots p)[i := (slots p ! i)\<lparr>s_del := on\<rparr>]"
    and row_law: "inv p \<Longrightarrow> rid_slot rid = int i \<Longrightarrow> i < length (slots p) \<Longrightarrow> length row = row_len p \<Longrightarrow>
      \<exists>q. write_row p rid row = Inr q \<and> inv q \<and> row_len q = row_len p \<and>
        slots q = (slots p)[i := (slots p ! i)\<lparr>s_row := row\<rparr>]"
begin

lemma insert_law:
  assumes "inv p" "rid_slot rid = int i" "i < length (slots p)" "length row = row_len p"
  shows "\<exists>q. bindR (mark_alloc p rid True) (\<lambda>p'. write_row p' rid row) = Inr q \<and> inv q \<and>
    row_len q = row_len p \<and> slots q = (slots p)[i := (slots p ! i)\<lparr>s_alloc := True, s_row := row\<rparr>]"
proof -
  obtain p1 where p1: "mark_alloc p rid True = Inr p1" "inv p1" "row_len p1 = row_len p"
    "slots p1 = (slots p)[i := (slots p ! i)\<lparr>s_alloc := True\<rparr>]"
    using alloc_law [OF assms(1-3), of True] by auto
  then show ?thesis using row_law [OF p1(2) assms(2), of row] assms(3,4) by auto
qed

text \<open>Undoing each action brings the visible rows back.\<close>

lemma undo_insert_law:
  assumes "inv p" "rid_slot rid = int i" "i < length (slots p)" "length row = row_len p"
    "\<not> visible (slots p ! i)"
  shows "\<exists>q r. bindR (mark_alloc p rid True) (\<lambda>p'. write_row p' rid row) = Inr q \<and>
    mark_del q rid True = Inr r \<and> inv r \<and> length (slots r) = length (slots p) \<and>
    (\<forall>j < length (slots p). visible (slots r ! j) = visible (slots p ! j) \<and>
       (visible (slots p ! j) \<longrightarrow> slots r ! j = slots p ! j))"
proof -
  obtain q where q: "bindR (mark_alloc p rid True) (\<lambda>p'. write_row p' rid row) = Inr q" "inv q"
      "slots q = (slots p)[i := (slots p ! i)\<lparr>s_alloc := True, s_row := row\<rparr>]"
    using insert_law [OF assms(1-4)] by (elim exE conjE) (rule that)
  obtain r where r: "mark_del q rid True = Inr r" "inv r"
      "slots r = (slots p)[i := (slots p ! i)\<lparr>s_alloc := True, s_row := row, s_del := True\<rparr>]"
    using del_law [OF q(2) assms(2), of True] q(3) assms(3) by auto
  have "visible (slots r ! j) = visible (slots p ! j) \<and>
      (visible (slots p ! j) \<longrightarrow> slots r ! j = slots p ! j)" for j
    using r(3) assms(3,5) by (cases "j = i") (auto simp: visible_def)
  with q(1) r show ?thesis by (intro exI [of _ q] exI [of _ r]) simp
qed

lemma undo_delete_law:
  assumes "inv p" "rid_slot rid = int i" "i < length (slots p)" "\<not> s_del (slots p ! i)"
  shows "\<exists>q r. mark_del p rid True = Inr q \<and> mark_del q rid False = Inr r \<and> inv r \<and> slots r = slots p"
proof -
  obtain q where q: "mark_del p rid True = Inr q" "inv q"
      "slots q = (slots p)[i := (slots p ! i)\<lparr>s_del := True\<rparr>]"
    using del_law [OF assms(1-3), of True] by blast
  moreover have "(slots p ! i)\<lparr>s_del := False\<rparr> = slots p ! i" using assms(4) by (cases "slots p ! i") simp
  ultimately show ?thesis
    using del_law [OF q(2) assms(2), of False] assms(3) by auto
qed

lemma undo_update_law:
  assumes "inv p" "rid_slot rid = int i" "i < length (slots p)" "length row = row_len p"
    "length (s_row (slots p ! i)) = row_len p"
  shows "\<exists>q r. write_row p rid row = Inr q \<and> write_row q rid (s_row (slots p ! i)) = Inr r \<and>
    inv r \<and> slots r = slots p"
proof -
  obtain q where q: "write_row p rid row = Inr q" "inv q" "row_len q = row_len p"
      "slots q = (slots p)[i := (slots p ! i)\<lparr>s_row := row\<rparr>]"
    using row_law [OF assms(1-4)] by blast
  then show ?thesis
    using row_law [OF q(2) assms(2), of "s_row (slots p ! i)"] assms(3,5) by auto
qed

end

interpretation hp: slotted_page wf_heap_page hp_slots rowSize MarkAllocated MarkDeleted CopyIntoTuple
proof
  show "\<exists>q. MarkAllocated p rid on = Inr q \<and> wf_heap_page q \<and> rowSize q = rowSize p \<and>
      hp_slots q = (hp_slots p)[i := (hp_slots p ! i)\<lparr>s_alloc := on, s_del := (on \<and> s_del (hp_slots p ! i))\<rparr>]"
    if "wf_heap_page p" "rid_slot rid = int i" "i < length (hp_slots p)" for p rid i on
    by (rule MarkAllocated_spec [OF that(1,2), of on]) (use that in \<open>auto simp: same_header_def\<close>)
  show "\<exists>q. MarkDeleted p rid on = Inr q \<and> wf_heap_page q \<and> rowSize q = rowSize p \<and>
      hp_slots q = (hp_slots p)[i := (hp_slots p ! i)\<lparr>s_del := on\<rparr>]"
    if "wf_heap_page p" "rid_slot rid = int i" "i < length (hp_slots p)" for p rid i on
    by (rule MarkDeleted_spec [OF that(1,2), of on]) (use that in \<open>auto simp: same_header_def\<close>)
  show "\<exists>q. CopyIntoTuple p rid row = Inr q \<and> wf_heap_page q \<and> rowSize q = rowSize p \<and>
      hp_slots q = (hp_slots p)[i := (hp_slots p ! i)\<lparr>s_row := row\<rparr>]"
    if "wf_heap_page p" "rid_slot rid = int i" "i < length (hp_slots p)" "length row = rowSize p"
    for p rid i row
    by (rule CopyIntoTuple_spec [OF that(1,2), of row]) (use that in \<open>auto simp: same_header_def\<close>)
qed

section \<open>Properties of heap pages\<close>

lemma slots_bound: "wf_heap_page hp \<Longrightarrow> numSlots hp \<le> 16320"
  by (simp add: wf_heap_page_def layout_end_def bitmap_bytes_def PageSize_def) linarith

lemma length_filter_update:
  assumes "i < length xs"
  shows "int (length (filter P (xs[i := y]))) =
    int (length (filter P xs)) + (if P y then 1 else 0) - (if P (xs ! i) then 1 else 0)"
proof -
  have "xs = take i xs @ xs ! i # drop (Suc i) xs" using assms by (rule id_take_nth_drop)
  then have "length (filter P xs) = length (filter P (take i xs @ xs ! i # drop (Suc i) xs))" by simp
  then show ?thesis using assms by (simp add: upd_conv_take_nth_drop)
qed

lemma used_ok_MarkAllocated:
  assumes wf: "wf_heap_page hp'" and i: "i < numSlots hp'" and n: "numSlots hp' = numSlots hp"
    and s: "hp_slots hp' = (hp_slots hp)[i := (hp_slots hp ! i)\<lparr>s_alloc := on, s_del := d\<rparr>]"
    and u: "numUsed hp' = numUsed hp + (if on then 1 else - 1)"
      "le_get (slice PageOffsetNumUsed 2 (Bytes hp')) = (of_int (numUsed hp') :: 16 word)"
    and ok: "used_ok hp" "s_alloc (hp_slots hp ! i) \<noteq> on"
  shows "used_ok hp'"
proof -
  have "numUsed hp' = int (length (filter s_alloc (hp_slots hp')))"
    using ok u(1) i n by (simp add: s length_filter_update used_ok_def)
  moreover have "length (filter s_alloc (hp_slots hp')) \<le> 16320"
    using slots_bound [OF wf] length_filter_le [of s_alloc "hp_slots hp'"] by simp
  ultimately show ?thesis using u(2) by (simp add: used_ok_def unsigned_of_nat take_bit_eq_mod)
qed

definition blank_frame :: PageFrame where
  "blank_frame = \<lparr>Bytes = replicate PageSize 0, cached = False, rowSize = 0, numSlots = 0, numUsed = 0,
     bitMapSize = 0, padding = 0, dataStart = 0, startHint = 0,
     allocBitmap = \<lparr>bm_base = 0, bm_numBits = 0\<rparr>, deletedBitmap = \<lparr>bm_base = 0, bm_numBits = 0\<rparr>,
     pageId = PageID 0 0, refCount = 0, isDirty = False, inOld = False, recLSN = 0\<rparr>"

lemma blank_frame_fresh: "length (Bytes blank_frame) = PageSize" "\<not> cached blank_frame"
  "\<not> IsInitializedHeapPage blank_frame"
  by (simp_all add: blank_frame_def IsInitializedHeapPage_def offset_defs PageSize_def HeapPageMagic_def)

lemma sample_desc_fits: "wf_desc sample_desc" "0 < rd_bytes sample_desc" "rd_bytes sample_desc \<le> PageSize - 32"
  using NewRawTupleDesc_wf [OF sample_desc_new(1)] by (auto simp: sample_desc_def)

lemma sample_page:
  obtains hp where "bindR (InitializeHeapPage sample_desc blank_frame) AsHeapPage = Inr hp"
    "wf_heap_page hp" "rowSize hp = 8" "numSlots hp = 494" "numUsed hp = 0"
    "\<forall>s \<in> set (hp_slots hp). \<not> s_alloc s \<and> \<not> s_del s" "used_ok hp" "frame_LSN hp = 0"
proof (rule init_heap_page_lemma [OF sample_desc_fits blank_frame_fresh])
qed (use that in \<open>simp add: sample_desc_def slots_for_small\<close>)

text \<open>
  Layout of a fresh heap page.  For every row descriptor that \<^verbatim>\<open>NewRawTupleDesc\<close>
  accepts with at least one column, initialising an empty frame and viewing it as a heap
  page succeeds; the header, the two bitmaps and all the rows fit into the page, one more
  row would not fit, all slots are free and the use count is zero.
\<close>

theorem heap_page_init:
  assumes "NewRawTupleDesc fs = Inr d" "fs \<noteq> []" "length (Bytes frame) = PageSize" "\<not> cached frame"
    "\<not> IsInitializedHeapPage frame"
  shows "\<exists>hp. bindR (InitializeHeapPage d frame) AsHeapPage = Inr hp \<and> wf_heap_page hp \<and> used_ok hp \<and>
    rowSize hp = BytesPerTuple d \<and> 0 < numSlots hp \<and>
    layout_end (rowSize hp) (numSlots hp) \<le> PageSize \<and>
    PageSize < layout_end (rowSize hp) (Suc (numSlots hp)) \<and>
    (\<forall>s \<in> set (hp_slots hp). \<not> s_alloc s \<and> \<not> s_del s)"
proof -
  have d: "wf_desc d" "rd_fields d = fs" "rd_bytes d \<le> PageSize - 32"
    using NewRawTupleDesc_wf [OF assms(1)] by auto
  moreover obtain f rest where "fs = f # rest" using assms(2) by (cases fs) auto
  ultimately have pos: "0 < rd_bytes d"
    by (cases f) (auto simp: wf_desc_def type_size_def IntSize_def StringLength_def)
  have "8 dvd rd_bytes d" using d(1) total_size_dvd by (simp add: wf_desc_def)
  then have "PageSize < layout_end (rd_bytes d) (Suc (slots_for (rd_bytes d)))"
    using slots_for_fits pos d(3) by (simp add: PageSize_def)
  then show ?thesis
    using init_heap_page_lemma [OF d(1) pos d(3) assms(3-5)] unfolding BytesPerTuple_def
    by (metis wf_heap_page_def)
qed

lemma heap_page_init_witness:
  "\<exists>hp. bindR (InitializeHeapPage sample_desc blank_frame) AsHeapPage = Inr hp \<and> wf_heap_page hp"
  using heap_page_init [of "[IntType]" sample_desc blank_frame] sample_desc_new(1) blank_frame_fresh by auto

text \<open>
  C28: Allocation marking refines the per-slot view.  On a valid page whose use count is
  right, \<^verbatim>\<open>MarkAllocated\<close> of an existing slot that changes its state succeeds,
  changes that slot only, clears the deleted mark when it frees the slot, keeps the
  page valid, its log sequence number, and the use count equal (in memory and in the
  stored header) to the number of allocated slots.
\<close>

theorem MarkAllocated_refines:
  assumes "wf_heap_page hp" "used_ok hp" "rid_slot rid = int i" "i < numSlots hp"
    "s_alloc (hp_slots hp ! i) \<noteq> on"
  shows "\<exists>hp'. MarkAllocated hp rid on = Inr hp' \<and> wf_heap_page hp' \<and> used_ok hp' \<and>
    frame_LSN hp' = frame_LSN hp \<and>
    hp_slots hp' = (hp_slots hp)[i := (hp_slots hp ! i)
      \<lparr>s_alloc := on, s_del := (on \<and> s_del (hp_slots hp ! i))\<rparr>]"
proof -
  obtain hp' where h: "MarkAllocated hp rid on = Inr hp'" "wf_heap_page hp'" "same_header hp hp'"
    "hp_slots hp' = (hp_slots hp)[i := (hp_slots hp ! i)
       \<lparr>s_alloc := on, s_del := (on \<and> s_del (hp_slots hp ! i))\<rparr>]"
    "numUsed hp' = numUsed hp + (if on then 1 else - 1)"
    "le_get (slice PageOffsetNumUsed 2 (Bytes hp')) = (of_int (numUsed hp') :: 16 word)"
    by (rule MarkAllocated_spec [OF assms(1,3,4)])
  moreover have "used_ok hp'"
    using h assms by (intro used_ok_MarkAllocated [OF h(2) _ _ h(4-6)]) (auto simp: same_header_def)
  ultimately show ?thesis by (auto simp: same_header_def)
qed

lemma MarkAllocated_refines_witness:
  "\<exists>hp. bindR (bindR (InitializeHeapPage sample_desc blank_frame) AsHeapPage)
      (\<lambda>hp. MarkAllocated hp (RecordID (PageID 0 0) 3) True) = Inr hp \<and> used_ok hp \<and>
    s_alloc (hp_slots hp ! 3)"
proof (rule sample_page)
  fix hp
  assume "bindR (InitializeHeapPage sample_desc blank_frame) AsHeapPage = Inr hp"
    "wf_heap_page hp" "rowSize hp = 8" "numSlots hp = 494" "numUsed hp = 0"
    "\<forall>s \<in> set (hp_slots hp). \<not> s_alloc s \<and> \<not> s_del s" "used_ok hp" "frame_LSN hp = 0"
  then show ?thesis
    using MarkAllocated_refines [of hp "RecordID (PageID 0 0) 3" 3 True]
    by (auto simp: rid_slot_def)
qed

text \<open>
  Free-slot search on a page.  On a valid page \<^verbatim>\<open>FindFreeSlot\<close> returns \<open>-1\<close>
  exactly when every slot is allocated, and otherwise a slot of the page that is not
  allocated; the page stays valid (the next start hint is in range) with the same slots.
\<close>

theorem FindFreeSlot_correct:
  assumes "wf_heap_page hp"
  shows "\<exists>k hp'. FindFreeSlot hp = Inr (k, hp') \<and> wf_heap_page hp' \<and> hp_slots hp' = hp_slots hp \<and>
    (k = - 1 \<longleftrightarrow> (\<forall>s \<in> set (hp_slots hp). s_alloc s)) \<and>
    (k \<noteq> - 1 \<longrightarrow> 0 \<le> k \<and> k < int (numSlots hp) \<and> \<not> s_alloc (hp_slots hp ! nat k))"
proof (rule FindFreeSlot_spec [OF assms])
  fix k hp'
  assume h: "FindFreeSlot hp = Inr (k, hp')" "wf_heap_page hp'" "hp_slots hp' = hp_slots hp"
    "k = - 1 \<Longrightarrow> \<forall>s \<in> set (hp_slots hp). s_alloc s"
    "k \<noteq> - 1 \<Longrightarrow> 0 \<le> k \<and> k < int (numSlots hp) \<and> \<not> s_alloc (hp_slots hp ! nat k)"
  have "k = - 1" if "\<forall>s \<in> set (hp_slots hp). s_alloc s"
    using that h(5) by (metis length_hp_slots nat_less_iff nth_mem)
  then show ?thesis using h by blast
qed

lemma FindFreeSlot_correct_witness:
  "\<exists>k hp. bindR (bindR (InitializeHeapPage sample_desc blank_frame) AsHeapPage) FindFreeSlot = Inr (k, hp) \<and>
    0 \<le> k \<and> k < 494"
proof (rule sample_page)
  fix hp
  assume h: "bindR (InitializeHeapPage sample_desc blank_frame) AsHeapPage = Inr hp"
    "wf_heap_page hp" "numSlots hp = 494" "\<forall>s \<in> set (hp_slots hp). \<not> s_alloc s \<and> \<not> s_del s"
  have "hp_slots hp \<noteq> []" using h(3) by (auto simp: hp_slots_def)
  then have "\<not> (\<forall>s \<in> set (hp_slots hp). s_alloc s)" using h(4) by (metis list.set_intros(1) neq_Nil_conv)
  then show ?thesis using FindFreeSlot_correct [OF h(2)] h(1,3) by auto
qed

end
