(* ===== verification/Log_Interface.thy ===== *)
theory Log_Interface
  imports Log_Manager Heap_Page
begin

text \<open>
  The interface \<^verbatim>\<open>storage.LogManager\<close> of \<^verbatim>\<open>storage/wal.go\<close>, through which the
  buffer pool, the transaction manager, the table heaps and recovery use the log: a record
  of its methods over the implementation's state.  \<^verbatim>\<open>Iterator\<close> is given by the records
  the iterator delivers, with their sequence numbers, and the error it ends with.
\<close>

record 'l LogManager =
  Append :: "LogRecord \<Rightarrow> 'l \<Rightarrow> LSN res \<times> 'l"
  WaitUntilFlushed :: "LSN \<Rightarrow> 'l \<Rightarrow> unit res \<times> 'l"
  Iterator :: "'l \<Rightarrow> LSN \<Rightarrow> ((LSN \<times> LogRecord) list \<times> fault option) res"
  FlushedUntil :: "'l \<Rightarrow> LSN"

definition NoopLogManager :: "unit LogManager" where
  "NoopLogManager = \<lparr>Append = (\<lambda>r l. (Inr 0, l)), WaitUntilFlushed = (\<lambda>lsn l. (Inr (), l)),
     Iterator = (\<lambda>l lsn. Inl (Panic ''nil pointer dereference'')), FlushedUntil = (\<lambda>l. 2 ^ 63 - 1)\<rparr>"

text \<open>
  The in-memory log manager behind this interface, with \<^verbatim>\<open>PeriodicWALFlusher\<close> running:
  the flusher advances the flushed position to the tail, so that a wait for a position
  before the tail ends, and a wait for one at or past the tail never does.  The iterator
  walks the buffer by the records' size fields.  Growing the buffer past the largest slice
  length is a panic of the run-time.
\<close>

definition flusher_tick :: "MemoryLogManager \<Rightarrow> MemoryLogManager" where
  "flusher_tick m = SetFlushedLSN m (Tail m)"

definition wait_flushed :: "LSN \<Rightarrow> MemoryLogManager \<Rightarrow> unit res \<times> MemoryLogManager" where
  "wait_flushed lsn m =
     (if Memory_WaitUntilFlushed m (sint lsn) then (Inr (), m)
      else if Memory_WaitUntilFlushed (flusher_tick m) (sint lsn) then (Inr (), flusher_tick m)
      else (Inl Spins, flusher_tick m))"

text \<open>
  \<^verbatim>\<open>MemoryLogIterator\<close>: every record is cut out by the size field at its start.  A size
  that reaches past the end is a slice panic; a size of zero never advances.
\<close>

function memory_scan :: "byte list \<Rightarrow> nat \<Rightarrow> (int \<times> LogRecord) list \<times> fault option" where
  "memory_scan buffer off =
     (if length buffer \<le> off then ([], None)
      else if length buffer < off + 2 then ([], Some (Panic ''index out of range''))
      else let n = unat (le_get (slice off 2 buffer) :: 16 word)
           in if length buffer < off + n then ([], Some (Panic ''slice bounds out of range''))
              else if n = 0 then ([], Some Spins)
              else let (rs, e) = memory_scan buffer (off + n)
                   in ((int off, AsLogRecord (slice off n buffer)) # rs, e))"
  by auto
termination by (relation "measure (\<lambda>(buffer, off). length buffer - off)") auto

declare memory_scan.simps [simp del]

definition memory_log :: "MemoryLogManager LogManager" where
  "memory_log =
     \<lparr>Append = (\<lambda>r m. case Memory_Append m r of
          Inl e \<Rightarrow> (Inl e, m)
        | Inr (lsn, m') \<Rightarrow> if length (mm_buffer m') < 2 ^ 63 then (Inr (of_int lsn), m')
                           else (Inl (Panic ''growslice: len out of range''), m)),
      WaitUntilFlushed = wait_flushed,
      Iterator = (\<lambda>m lsn. Inr (if sint lsn < 0 then ([], Some (Panic ''slice bounds out of range''))
        else let (rs, e) = memory_scan (mm_buffer m) (nat (sint lsn)) in (map (\<lambda>(k, r). (of_int k, r)) rs, e))),
      FlushedUntil = (\<lambda>m. of_int (flushedUntil m))\<rparr>"

section \<open>The double-buffered log behind the interface\<close>

text \<open>
  The log of the running system, as a single caller meets it: \<open>flush_buffers\<close> is two rounds of the
  flusher, after which both buffers are in the file.  A caller that finds no room, or waits for
  a position that is not flushed, sleeps until the flusher has emptied the buffers; it sleeps
  forever when that does not help.  No file has \<open>2^63\<close> bytes: an append that would reach them
  ends in the flusher's failed assertion.
\<close>

definition flusher_round :: "DoubleBufferLogManager \<Rightarrow> DoubleBufferLogManager" where
  "flusher_round lm = (case flusher_write True (flusher_swap lm) of Inl e \<Rightarrow> lm | Inr m \<Rightarrow> m)"

definition flush_buffers :: "DoubleBufferLogManager \<Rightarrow> DoubleBufferLogManager" where
  "flush_buffers lm = flusher_round (flusher_round lm)"

definition room_for :: "LogRecord \<Rightarrow> DoubleBufferLogManager \<Rightarrow> DoubleBufferLogManager" where
  "room_for r lm = (if append_blocked lm r then flush_buffers (append_signal lm) else lm)"

definition buffered_append :: "LogRecord \<Rightarrow> DoubleBufferLogManager \<Rightarrow> LSN res \<times> DoubleBufferLogManager" where
  "buffered_append r lm =
     stepS (append_check lm) lm (\<lambda>_.
       let lm1 = room_for r (append_enter lm)
       in if append_blocked lm1 r then (Inl Spins, lm)
          else if 2 ^ 63 \<le> lm_lsn lm + int (LogRecord_Size r)
          then (Inl (Panic ''Failed to flush log records in back buffer to log file''), lm)
          else case append_write lm1 r of Inl e \<Rightarrow> (Inl e, lm) | Inr (lsn, m) \<Rightarrow> (Inr (of_int lsn), m))"

definition buffered_wait :: "LSN \<Rightarrow> DoubleBufferLogManager \<Rightarrow> unit res \<times> DoubleBufferLogManager" where
  "buffered_wait lsn lm =
     (case DBLM_WaitUntilFlushed lm (sint lsn) of
        Some r \<Rightarrow> (r, lm)
      | None \<Rightarrow> (case wait_pass (flush_buffers lm) (sint lsn) of Some r \<Rightarrow> (r, flush_buffers lm) | None \<Rightarrow> (Inl Spins, flush_buffers lm)))"

definition double_buffer_log :: "DoubleBufferLogManager LogManager" where
  "double_buffer_log =
     \<lparr>Append = buffered_append,
      WaitUntilFlushed = buffered_wait,
      Iterator = (\<lambda>lm lsn. if sint lsn < 0 then Inl (OtherError ''seek: invalid argument'')
        else Inr (map (\<lambda>(k, r). (of_int k, r)) (log_scan (DBLM_Iterator lm (nat (sint lsn)))), None)),
      FlushedUntil = (\<lambda>lm. of_int (DBLM_FlushedUntil lm))\<rparr>"

section \<open>What the clients rely on\<close>

text \<open>
  Appending hands out sequence numbers in order and keeps the history of records; a wait
  that returns without an error covers its sequence number and loses nothing; a failed
  append leaves the history alone.  Reading the log back is a contract of its own: the
  records of the buffers are not in the file yet, so the double-buffered log delivers its whole
  history only when both buffers are empty, as they are when recovery reads it.
\<close>

definition waits :: "'l LogManager \<Rightarrow> 'l \<Rightarrow> LSN \<Rightarrow> bool" where
  "waits L l lsn \<longleftrightarrow> fst (WaitUntilFlushed L lsn l) \<noteq> Inl Spins"

definition delivers :: "(LSN \<times> LogRecord) list \<Rightarrow> (LSN \<times> log_entry) list \<Rightarrow> bool" where
  "delivers recs es \<longleftrightarrow> list_all2 (\<lambda>(k, r) (k', e). k = k' \<and> is_entry r e) recs es"

locale log_service =
  fixes L :: "'l LogManager" and linv :: "'l \<Rightarrow> bool" and history :: "'l \<Rightarrow> (LSN \<times> log_entry) list"
  assumes append_law: "linv l \<Longrightarrow> is_entry r e \<Longrightarrow> LogRecord_Size r < 65536 \<Longrightarrow> Append L r l = (Inr lsn, l') \<Longrightarrow>
      linv l' \<and> history l' = history l @ [(lsn, e)] \<and> (\<forall>(k, _) \<in> set (history l). sint k < sint lsn) \<and>
      sint (FlushedUntil L l) \<le> sint (FlushedUntil L l') \<and> 0 \<le> sint lsn \<and>
      waits L l' lsn \<and> (\<forall>k. waits L l k \<longrightarrow> waits L l' k)"
    and append_fail_law: "linv l \<Longrightarrow> Append L r l = (Inl f, l') \<Longrightarrow> l' = l"
    and wait_law: "linv l \<Longrightarrow> WaitUntilFlushed L lsn l = (res, l') \<Longrightarrow>
      linv l' \<and> history l' = history l \<and> sint (FlushedUntil L l) \<le> sint (FlushedUntil L l') \<and>
      (res = Inr () \<longrightarrow> sint lsn \<le> sint (FlushedUntil L l')) \<and> (\<forall>k. waits L l k \<longrightarrow> waits L l' k)"
begin

lemma history_grows:
  assumes "linv l" "is_entry r e" "LogRecord_Size r < 65536" "Append L r l = (res, l')"
  shows "linv l' \<and> (\<exists>es. history l' = history l @ es \<and> snd ` set es \<subseteq> {e})"
  using append_law [OF assms(1-3)] append_fail_law [OF assms(1)] assms by (cases res) force+

end

locale log_reader = log_service +
  fixes readable :: "'l \<Rightarrow> bool"
  assumes iterator_law: "linv l \<Longrightarrow> readable l \<Longrightarrow> lsn = 0 \<or> lsn \<in> fst ` set (history l) \<Longrightarrow>
      \<exists>recs. Iterator L l lsn = Inr (recs, None) \<and> delivers recs (filter (\<lambda>(k, _). sint lsn \<le> sint k) (history l))"

section \<open>The in-memory log provides the service\<close>

definition entry_at :: "int \<times> LogRecord \<Rightarrow> LSN \<times> log_entry" where
  "entry_at p = (of_int (fst p), case entry_of (snd p) of Inr e \<Rightarrow> e | Inl _ \<Rightarrow> BeginCkptE)"

definition log_entries :: "byte list \<Rightarrow> (LSN \<times> log_entry) list" where
  "log_entries b = map entry_at (fst (memory_scan b 0))"

definition memory_history :: "MemoryLogManager \<Rightarrow> (LSN \<times> log_entry) list" where
  "memory_history m = log_entries (mm_buffer m)"

definition log_bytes :: "byte list \<Rightarrow> bool" where
  "log_bytes b \<longleftrightarrow> (\<exists>rs. (\<forall>r \<in> set rs. loggable r) \<and> b = concat (map record_bytes rs)) \<and> length b < 2 ^ 63"

definition memory_inv :: "MemoryLogManager \<Rightarrow> bool" where
  "memory_inv m \<longleftrightarrow> (\<exists>rs. (\<forall>r \<in> set rs. loggable r) \<and> mm_buffer m = concat (map record_bytes rs)) \<and>
     length (mm_buffer m) < 2 ^ 63 \<and> 0 \<le> flushedUntil m \<and> flushedUntil m < 2 ^ 63 \<and>
     (flushOnAppend m \<longrightarrow> flushedUntil m \<le> int (length (mm_buffer m)))"

lemma expect_append: "expect n (rs @ rs') = expect n rs @ expect (n + int (length (concat (map record_bytes rs)))) rs'"
  by (induction rs arbitrary: n) (auto simp: algebra_simps)

lemma expect_bounds:
  assumes "\<forall>r \<in> set rs. loggable r" "(k, r) \<in> set (expect n rs)"
  shows "n \<le> k \<and> k < n + int (length (concat (map record_bytes rs)))"
  using assms
proof (induction rs arbitrary: n)
  case (Cons r' rs)
  have p: "8 \<le> length (record_bytes r')" using record_bytes_size(2) [of r'] Cons.prems(1) by simp
  show ?case
  proof (cases "(k, r) \<in> set (expect (n + int (length (record_bytes r'))) rs)")
    case True
    then show ?thesis using Cons.IH [OF _ True] Cons.prems(1) by simp
  next
    case False
    then have "k = n" using Cons.prems(2) by simp
    then show ?thesis using p by simp
  qed
qed simp

lemma scan_from:
  assumes "\<forall>r \<in> set rs. loggable r"
  shows "memory_scan (pre @ concat (map record_bytes rs)) (length pre) = (expect (int (length pre)) rs, None)"
  using assms
proof (induction rs arbitrary: pre)
  case (Cons r rs)
  have b: "unat (le_get (take 2 (record_bytes r)) :: 16 word) = length (record_bytes r)" "8 \<le> length (record_bytes r)"
    using record_bytes_size [of r] Cons.prems by simp_all
  have s: "slice (length pre) n (pre @ record_bytes r @ concat (map record_bytes rs)) = take n (record_bytes r)"
    if "n \<le> length (record_bytes r)" for n
    using that by (simp add: slice_def)
  have "record_bytes r \<noteq> []" using b(2) by auto
  then show ?case
    using Cons.IH [of "pre @ record_bytes r"] Cons.prems b s [of 2] s [of "length (record_bytes r)"]
    by (subst memory_scan.simps) (simp add: AsLogRecord_def Let_def)
qed (simp add: memory_scan.simps)

lemmas scan_all = scan_from [where pre = "[]", simplified]

lemma sint_int64: "0 \<le> k \<Longrightarrow> k < 2 ^ 63 \<Longrightarrow> sint (of_int k :: LSN) = k"
  by (simp add: signed_of_int signed_take_bit_int_eq_self)

lemma memory_waits:
  assumes "memory_inv m"
  shows "waits memory_log m k \<longleftrightarrow> sint k < max (flushedUntil m) (int (length (mm_buffer m)))"
  by (auto simp: waits_def memory_log_def wait_flushed_def Memory_WaitUntilFlushed_def flusher_tick_def SetFlushedLSN_def
      Tail_def)

lemma memory_wait:
  assumes "memory_inv m" "wait_flushed lsn m = (res, m')"
  shows "memory_inv m'" "mm_buffer m' = mm_buffer m" "flushedUntil m \<le> flushedUntil m'"
    "res = Inr () \<Longrightarrow> sint lsn < flushedUntil m'"
    "max (flushedUntil m') (int (length (mm_buffer m'))) = max (flushedUntil m) (int (length (mm_buffer m)))"
  using assms by (auto simp: wait_flushed_def flusher_tick_def SetFlushedLSN_def Tail_def Memory_WaitUntilFlushed_def
      memory_inv_def split: if_splits)

lemma expect_split:
  assumes "(k, r) \<in> set (expect n rs)" "\<forall>r \<in> set rs. loggable r"
  obtains rs1 rs2 where "rs = rs1 @ rs2" "k = n + int (length (concat (map record_bytes rs1)))"
  using assms
proof (induction rs arbitrary: n thesis)
  case (Cons r' rs)
  show ?case
  proof (cases "(k, r) \<in> set (expect (n + int (length (record_bytes r'))) rs)")
    case True
    then obtain rs1 rs2 where "rs = rs1 @ rs2"
        "k = n + int (length (record_bytes r')) + int (length (concat (map record_bytes rs1)))"
      using Cons.IH [of "n + int (length (record_bytes r'))"] Cons.prems(3) by auto
    then show ?thesis using Cons.prems(1) [of "r' # rs1" rs2] by simp
  next
    case False
    then show ?thesis using Cons.prems(1) [of "[]" "r' # rs"] Cons.prems(2) by simp
  qed
qed simp

lemma log_suffix:
  assumes b: "log_bytes b" and lsn: "lsn = 0 \<or> lsn \<in> fst ` set (log_entries b)"
  obtains rs1 rs2 where "\<forall>r \<in> set rs2. loggable r" "b = concat (map record_bytes (rs1 @ rs2))" "sint lsn = int (length (concat (map record_bytes rs1)))"
    "delivers (map (\<lambda>(k, r). (of_int k, r)) (expect (sint lsn) rs2)) (filter (\<lambda>(k, _). sint lsn \<le> sint k) (log_entries b))"
proof -
  obtain rs where rs: "\<forall>r \<in> set rs. loggable r" "b = concat (map record_bytes rs)" "length b < 2 ^ 63"
    using b by (auto simp: log_bytes_def)
  have h: "log_entries b = map entry_at (expect 0 rs)" by (simp add: log_entries_def rs(2) scan_all [OF rs(1)])
  obtain rs1 rs2 where s: "rs = rs1 @ rs2" "lsn = of_int (int (length (concat (map record_bytes rs1))))"
  proof (cases "lsn = 0")
    case False
    then obtain k r where "(k, r) \<in> set (expect 0 rs)" "lsn = of_int k" using lsn by (auto simp: h entry_at_def)
    then show ?thesis using expect_split [of k r 0 rs] rs(1) that by (metis add_0)
  qed (use that [of "[]" rs] in simp)
  let ?n = "length (concat (map record_bytes rs1))"
  have n: "?n < 2 ^ 63" "sint lsn = int ?n" using rs(2,3) s sint_int64 [of "int ?n"] by auto
  have b: "sint (of_int k :: LSN) = k" if "(k, r) \<in> set (expect 0 rs)" for k r
    using expect_bounds [OF rs(1) that] rs(2,3) by (intro sint_int64) auto
  have 1: "\<not> sint lsn \<le> sint (of_int k :: LSN)" if "(k, r) \<in> set (expect 0 rs1)" for k r
    using expect_bounds [OF _ that] b [of k r] that rs(1) by (simp add: s(1) expect_append n(2))
  have 2: "sint lsn \<le> sint (of_int k :: LSN)" if "(k, r) \<in> set (expect (int ?n) rs2)" for k r
    using expect_bounds [OF _ that] b [of k r] that rs(1) by (simp add: s(1) expect_append n(2))
  have f: "filter (\<lambda>(k, _). sint lsn \<le> sint k) (log_entries b) = map entry_at (expect (int ?n) rs2)"
  proof -
    have "filter (\<lambda>x. sint lsn \<le> sint (of_int (fst x) :: LSN)) (expect 0 rs1) = []"
      "filter (\<lambda>x. sint lsn \<le> sint (of_int (fst x) :: LSN)) (expect (int ?n) rs2) = expect (int ?n) rs2"
      using 1 2 by (force simp: filter_empty_conv filter_id_conv)+
    then show ?thesis by (simp add: h s(1) expect_append entry_at_def filter_map o_def case_prod_unfold)
  qed
  have e: "delivers (map (\<lambda>(k, r). (of_int k, r)) (expect j rs')) (map entry_at (expect j rs'))"
    if "\<forall>r \<in> set rs'. loggable r" for j rs'
    using that
  proof (induction rs' arbitrary: j)
    case (Cons r rs')
    then obtain x where "is_entry r x" by (auto simp: loggable_def)
    then have "is_entry \<lparr>lr_data = record_bytes r\<rparr> x" using record_bytes(4) [of r x] Cons.prems by simp
    then show ?case using Cons by (simp add: delivers_def entry_at_def entry_of_is_entry)
  qed (simp add: delivers_def)
  show thesis
    by (rule that [of rs2 rs1]) (use rs s n f e [of rs2] in auto)
qed

lemma memory_iterator:
  assumes "memory_inv m" "lsn = 0 \<or> lsn \<in> fst ` set (memory_history m)"
  shows "\<exists>recs. Iterator memory_log m lsn = Inr (recs, None) \<and>
    delivers recs (filter (\<lambda>(k, _). sint lsn \<le> sint k) (memory_history m))"
proof -
  have b: "log_bytes (mm_buffer m)" "lsn = 0 \<or> lsn \<in> fst ` set (log_entries (mm_buffer m))"
    using assms by (auto simp: memory_inv_def log_bytes_def memory_history_def)
  obtain rs1 rs2 where r: "\<forall>r \<in> set rs2. loggable r" "mm_buffer m = concat (map record_bytes (rs1 @ rs2))"
      "sint lsn = int (length (concat (map record_bytes rs1)))"
      "delivers (map (\<lambda>(k, r). (of_int k, r)) (expect (sint lsn) rs2)) (filter (\<lambda>(k, _). sint lsn \<le> sint k) (log_entries (mm_buffer m)))"
    by (rule log_suffix [OF b])
  have "memory_scan (mm_buffer m) (nat (sint lsn)) = (expect (sint lsn) rs2, None)"
    using scan_from [OF r(1), of "concat (map record_bytes rs1)"] r(2,3) by simp
  then show ?thesis using r(3,4) by (simp add: memory_log_def memory_history_def)
qed

text \<open>Adding a record's bytes adds its entry, at the end of what was there.\<close>

lemma log_entries_snoc:
  assumes "log_bytes b" "is_entry r e" "LogRecord_Size r < 65536"
  shows "log_entries (b @ record_bytes r) = log_entries b @ [(of_int (int (length b)), e)]"
    "length (b @ record_bytes r) < 2 ^ 63 \<Longrightarrow> log_bytes (b @ record_bytes r)"
    "(k, x) \<in> set (log_entries b) \<Longrightarrow> sint k < int (length b)"
proof -
  obtain rs where rs: "\<forall>r \<in> set rs. loggable r" "b = concat (map record_bytes rs)" "length b < 2 ^ 63"
    using assms(1) by (auto simp: log_bytes_def)
  have l: "loggable r" using assms(2,3) by (auto simp: loggable_def)
  have h: "log_entries b = map entry_at (expect 0 rs)" by (simp add: log_entries_def rs(2) scan_all [OF rs(1)])
  have "log_entries (b @ record_bytes r) = map entry_at (expect 0 (rs @ [r]))"
    using scan_all [of "rs @ [r]"] rs l by (simp add: log_entries_def)
  then show "log_entries (b @ record_bytes r) = log_entries b @ [(of_int (int (length b)), e)]"
    using record_bytes(4) [OF l assms(2)] unfolding h by (simp add: expect_append rs(2) entry_at_def entry_of_is_entry)
  show "log_bytes (b @ record_bytes r)" if "length (b @ record_bytes r) < 2 ^ 63"
    unfolding log_bytes_def using rs(1,2) l that by (auto intro!: exI [of _ "rs @ [r]"])
  show "sint k < int (length b)" if m: "(k, x) \<in> set (log_entries b)"
  proof -
    obtain j y where j: "(j, y) \<in> set (expect 0 rs)" "k = of_int j" using m unfolding h entry_at_def by auto
    then have "0 \<le> j" "j < int (length b)" using expect_bounds [OF rs(1) j(1)] rs(2) by simp_all
    then show ?thesis using rs(3) sint_int64 [of j] by (simp add: j(2))
  qed
qed

interpretation mem: log_reader memory_log memory_inv memory_history "\<lambda>_. True"
proof
  fix m :: MemoryLogManager and r e lsn m'
  assume inv: "memory_inv m" and e: "is_entry r e" "LogRecord_Size r < 65536"
    and a: "Append memory_log r m = (Inr lsn, m')"
  have l: "loggable r" using e by (auto simp: loggable_def)
  let ?n = "length (mm_buffer m)"
  have b: "mm_buffer m' = mm_buffer m @ record_bytes r" "lsn = of_int (int ?n)" "length (mm_buffer m') < 2 ^ 63"
      "flushedUntil m' = (if flushOnAppend m then int (?n + LogRecord_Size r) else flushedUntil m)"
      "flushOnAppend m' = flushOnAppend m"
    using a record_bytes(1) [OF l e(1)]
    by (auto simp: memory_log_def Memory_Append_def Let_def split: sum.splits if_splits)
  have size: "LogRecord_Size r = length (record_bytes r)" using record_bytes(2) [OF l e(1)] by simp
  have fu: "flushedUntil m < 2 ^ 63" "0 \<le> flushedUntil m" "?n < 2 ^ 63" "log_bytes (mm_buffer m)"
    using inv by (auto simp: memory_inv_def log_bytes_def)
  note snoc = log_entries_snoc [OF fu(4) e]
  have h': "memory_history m' = memory_history m @ [(lsn, e)]" using snoc(1) b(1,2) by (simp add: memory_history_def)
  have "log_bytes (mm_buffer m')" using snoc(2) b(1,3) by simp
  then have "memory_inv m'" using b size fu by (simp add: memory_inv_def log_bytes_def)
  moreover have "sint k < sint lsn" if "(k, x) \<in> set (memory_history m)" for k x
    using snoc(3) [of k x] that fu(3) sint_int64 [of "int ?n"] by (simp add: b(2) memory_history_def)
  moreover have fm: "flushedUntil m \<le> flushedUntil m'" using b(4) inv by (auto simp: memory_inv_def)
  then have "sint (FlushedUntil memory_log m) \<le> sint (FlushedUntil memory_log m')"
    using sint_int64 [of "flushedUntil m"] sint_int64 [of "flushedUntil m'"] fu calculation
    by (simp add: memory_log_def memory_inv_def)
  moreover have "0 \<le> sint lsn" using fu(3) sint_int64 [of "int ?n"] by (simp add: b(2))
  moreover have "waits memory_log m' lsn" "waits memory_log m k \<Longrightarrow> waits memory_log m' k" for k
    using memory_waits [OF inv] memory_waits [OF calculation(1)] b(1) size fu(3) sint_int64 [of "int ?n"] fm e
      record_bytes_size(2) [OF l]
    by (auto simp: b(2))
  ultimately show "memory_inv m' \<and> memory_history m' = memory_history m @ [(lsn, e)] \<and>
      (\<forall>(k, _) \<in> set (memory_history m). sint k < sint lsn) \<and>
      sint (FlushedUntil memory_log m) \<le> sint (FlushedUntil memory_log m') \<and> 0 \<le> sint lsn \<and>
      waits memory_log m' lsn \<and> (\<forall>k. waits memory_log m k \<longrightarrow> waits memory_log m' k)"
    using h' by auto
next
  show "m' = m" if "memory_inv m" "Append memory_log r m = (Inl f, m')" for m r f m'
    using that by (auto simp: memory_log_def split: sum.splits prod.splits if_splits)
  show "memory_inv m' \<and> memory_history m' = memory_history m \<and>
      sint (FlushedUntil memory_log m) \<le> sint (FlushedUntil memory_log m') \<and>
      (res = Inr () \<longrightarrow> sint lsn \<le> sint (FlushedUntil memory_log m')) \<and>
      (\<forall>k. waits memory_log m k \<longrightarrow> waits memory_log m' k)"
    if inv: "memory_inv m" and w: "WaitUntilFlushed memory_log lsn m = (res, m')" for m lsn res m'
  proof -
    have w': "wait_flushed lsn m = (res, m')" using w by (simp add: memory_log_def)
    note mw = memory_wait [OF inv w']
    have "sint (of_int (flushedUntil x) :: LSN) = flushedUntil x" if "memory_inv x" for x
      using that by (intro sint_int64) (simp_all add: memory_inv_def)
    then show ?thesis
      using mw memory_waits [OF inv] memory_waits [OF mw(1)] inv
      by (auto simp: memory_history_def memory_log_def)
  qed
  show "\<exists>recs. Iterator memory_log m lsn = Inr (recs, None) \<and>
      delivers recs (filter (\<lambda>(k, _). sint lsn \<le> sint k) (memory_history m))"
    if "memory_inv m" "lsn = 0 \<or> lsn \<in> fst ` set (memory_history m)" for m lsn
    using that by (rule memory_iterator)
qed

section \<open>The double-buffered log provides the service\<close>

definition log_contents :: "DoubleBufferLogManager \<Rightarrow> byte list" where
  "log_contents lm = log_file lm @ lm_back lm @ lm_front lm"

definition buffered_inv :: "DoubleBufferLogManager \<Rightarrow> bool" where
  "buffered_inv lm \<longleftrightarrow> log_bytes (log_contents lm) \<and> lm_lsn lm = int (length (log_contents lm)) \<and>
     flushedLSN lm = int (length (log_file lm)) \<and> \<not> freed lm \<and> \<not> stopped lm"

definition buffered_history :: "DoubleBufferLogManager \<Rightarrow> (LSN \<times> log_entry) list" where
  "buffered_history lm = log_entries (log_contents lm)"

definition buffers_empty :: "DoubleBufferLogManager \<Rightarrow> bool" where
  "buffers_empty lm \<longleftrightarrow> lm_back lm = [] \<and> lm_front lm = []"

text \<open>A manager that is opened on a file of whole records holds their history, with nothing buffered.\<close>

lemma new_log_ok:
  assumes "log_bytes file"
  shows "buffered_inv (NewDoubleBufferLogManager file)" "buffers_empty (NewDoubleBufferLogManager file)"
    "buffered_history (NewDoubleBufferLogManager file) = log_entries file"
  using assms by (simp_all add: buffered_inv_def buffers_empty_def buffered_history_def log_contents_def NewDoubleBufferLogManager_def)

lemma flushed_buffers_eq:
  "\<exists>ch. flush_buffers lm = lm\<lparr>log_file := log_contents lm, lm_back := [], lm_front := [], flushCh := ch,
     flushedLSN := flushedLSN lm + int (length (lm_back lm) + length (lm_front lm))\<rparr>"
  by (cases "lm_front lm"; cases "lm_back lm"; cases lm)
    (auto simp: flush_buffers_def flusher_round_def flusher_swap_def flusher_write_def log_contents_def)

lemma flushed_buffers_fields [simp]:
  "log_contents (flush_buffers lm) = log_contents lm" "log_file (flush_buffers lm) = log_contents lm" "lm_back (flush_buffers lm) = []" "lm_front (flush_buffers lm) = []"
  "lm_lsn (flush_buffers lm) = lm_lsn lm" "lm_closed (flush_buffers lm) = lm_closed lm" "freed (flush_buffers lm) = freed lm" "stopped (flush_buffers lm) = stopped lm"
  "flushedLSN (flush_buffers lm) = flushedLSN lm + int (length (lm_back lm) + length (lm_front lm))"
  using flushed_buffers_eq [of lm] by (auto simp: log_contents_def)

lemma flushed_buffers_inv: "buffered_inv lm \<Longrightarrow> buffered_inv (flush_buffers lm)" "buffered_history (flush_buffers lm) = buffered_history lm"
  "buffered_inv lm \<Longrightarrow> flushedLSN (flush_buffers lm) = int (length (log_contents lm))"
  by (auto simp: buffered_inv_def buffered_history_def log_contents_def)

lemma buffered_flushed:
  assumes "buffered_inv lm"
  shows "sint (FlushedUntil double_buffer_log lm) = int (length (log_file lm))" "length (log_file lm) \<le> length (log_contents lm)"
    "length (log_contents lm) < 2 ^ 63"
proof -
  show "length (log_contents lm) < 2 ^ 63" "length (log_file lm) \<le> length (log_contents lm)"
    using assms by (auto simp: buffered_inv_def log_bytes_def log_contents_def)
  then show "sint (FlushedUntil double_buffer_log lm) = int (length (log_file lm))"
    using assms sint_int64 [of "int (length (log_file lm))"] by (simp add: double_buffer_log_def DBLM_FlushedUntil_def buffered_inv_def)
qed

lemma buffered_waits:
  assumes "buffered_inv lm"
  shows "waits double_buffer_log lm k \<longleftrightarrow> lm_closed lm \<or> sint k \<le> int (length (log_contents lm))"
  using buffered_flushed(2) [OF assms] flushed_buffers_inv(3) [OF assms] assms
  by (auto simp: waits_def double_buffer_log_def buffered_wait_def DBLM_WaitUntilFlushed_def wait_pass_def buffered_inv_def)

lemma buffered_append_ok:
  assumes inv: "buffered_inv lm" and a: "buffered_append r lm = (Inr lsn, lm')"
  shows "log_contents lm' = log_contents lm @ record_bytes r" "lsn = of_int (int (length (log_contents lm)))" "\<not> lm_closed lm'" "\<not> lm_closed lm"
    "lm_lsn lm' = int (length (log_contents lm'))" "flushedLSN lm' = int (length (log_file lm'))" "\<not> freed lm'" "\<not> stopped lm'"
    "length (log_file lm) \<le> length (log_file lm')" "length (log_contents lm) + LogRecord_Size r < 2 ^ 63"
proof -
  let ?lm1 = "room_for r (append_enter lm)"
  have c: "\<not> lm_closed lm" "append_write ?lm1 r = Inr (lm_lsn ?lm1, lm')" "lsn = of_int (lm_lsn ?lm1)" "lm_lsn lm + int (LogRecord_Size r) < 2 ^ 63"
    using a append_write_bytes(1) by (auto simp: buffered_append_def append_check_def Let_def split: if_splits sum.splits)
  have en: "buffered_inv (append_signal (append_enter lm))" "log_contents (append_signal (append_enter lm)) = log_contents lm"
    using inv by (simp_all add: buffered_inv_def append_enter_def append_signal_def log_contents_def)
  have 1: "log_contents ?lm1 = log_contents lm" "lm_lsn ?lm1 = lm_lsn lm" "lm_closed ?lm1 = lm_closed lm" "freed ?lm1 = freed lm" "stopped ?lm1 = stopped lm"
      "flushedLSN ?lm1 = int (length (log_file ?lm1))" "length (log_file lm) \<le> length (log_file ?lm1)"
    using en inv flushed_buffers_inv(3) [OF en(1)] buffered_flushed(2) [OF inv]
    by (auto simp: room_for_def append_enter_def append_signal_def log_contents_def buffered_inv_def)
  note w = append_write_bytes [OF c(2)]
  have lc: "log_contents lm' = log_contents lm @ record_bytes r" using w(3) 1(1) by (simp add: log_contents_def)
  show "log_contents lm' = log_contents lm @ record_bytes r" "lsn = of_int (int (length (log_contents lm)))" "\<not> lm_closed lm'" "\<not> lm_closed lm"
    "lm_lsn lm' = int (length (log_contents lm'))" "flushedLSN lm' = int (length (log_file lm'))" "\<not> freed lm'" "\<not> stopped lm'"
    "length (log_file lm) \<le> length (log_file lm')" "length (log_contents lm) + LogRecord_Size r < 2 ^ 63"
    using 1 w(3) c(1,3,4) inv lc by (auto simp: buffered_inv_def)
qed

interpretation dbl: log_reader double_buffer_log buffered_inv buffered_history buffers_empty
proof
  fix lm :: DoubleBufferLogManager and r e lsn lm'
  assume inv: "buffered_inv lm" and e: "is_entry r e" "LogRecord_Size r < 65536" and a: "Append double_buffer_log r lm = (Inr lsn, lm')"
  have a': "buffered_append r lm = (Inr lsn, lm')" using a by (simp add: double_buffer_log_def)
  note o = buffered_append_ok [OF inv a']
  have b: "log_bytes (log_contents lm)" using inv by (simp add: buffered_inv_def)
  note snoc = log_entries_snoc [OF b e]
  have "loggable r" using e by (auto simp: loggable_def)
  then have "LogRecord_Size r = length (record_bytes r)" using record_bytes(2) e(1) by simp
  then have "log_bytes (log_contents lm')" using snoc(2) o(1,10) by simp
  then have inv': "buffered_inv lm'" using o(5-8) by (simp add: buffered_inv_def)
  have l: "sint lsn = int (length (log_contents lm))" using sint_int64 [of "int (length (log_contents lm))"] o(2) buffered_flushed(3) [OF inv] by simp
  show "buffered_inv lm' \<and> buffered_history lm' = buffered_history lm @ [(lsn, e)] \<and> (\<forall>(k, _) \<in> set (buffered_history lm). sint k < sint lsn) \<and>
      sint (FlushedUntil double_buffer_log lm) \<le> sint (FlushedUntil double_buffer_log lm') \<and> 0 \<le> sint lsn \<and>
      waits double_buffer_log lm' lsn \<and> (\<forall>k. waits double_buffer_log lm k \<longrightarrow> waits double_buffer_log lm' k)"
    using inv' snoc(1,3) l o(1-4,9) buffered_flushed(1) [OF inv] buffered_flushed(1) [OF inv'] buffered_waits [OF inv] buffered_waits [OF inv']
    by (auto simp: buffered_history_def)
next
  show "lm' = lm" if "buffered_inv lm" "Append double_buffer_log r lm = (Inl f, lm')" for lm r f lm'
    using that by (auto simp: double_buffer_log_def buffered_append_def append_check_def Let_def split: if_splits sum.splits prod.splits)
  show "buffered_inv lm' \<and> buffered_history lm' = buffered_history lm \<and>
      sint (FlushedUntil double_buffer_log lm) \<le> sint (FlushedUntil double_buffer_log lm') \<and>
      (res = Inr () \<longrightarrow> sint lsn \<le> sint (FlushedUntil double_buffer_log lm')) \<and>
      (\<forall>k. waits double_buffer_log lm k \<longrightarrow> waits double_buffer_log lm' k)"
    if inv: "buffered_inv lm" and w: "WaitUntilFlushed double_buffer_log lsn lm = (res, lm')" for lm lsn res lm'
  proof -
    have "lm' = lm \<or> lm' = flush_buffers lm" "res = Inr () \<Longrightarrow> sint lsn \<le> flushedLSN lm'"
      using w by (auto simp: double_buffer_log_def buffered_wait_def DBLM_WaitUntilFlushed_def wait_pass_def split: if_splits option.splits)
    then show ?thesis
      using inv flushed_buffers_inv [of lm] buffered_flushed [OF inv] buffered_flushed(1) [OF flushed_buffers_inv(1) [OF inv]]
        buffered_waits [OF inv] buffered_waits [OF flushed_buffers_inv(1) [OF inv]]
      by (auto simp: buffered_inv_def)
  qed
  show "\<exists>recs. Iterator double_buffer_log lm lsn = Inr (recs, None) \<and> delivers recs (filter (\<lambda>(k, _). sint lsn \<le> sint k) (buffered_history lm))"
    if inv: "buffered_inv lm" and d: "buffers_empty lm" and lsn: "lsn = 0 \<or> lsn \<in> fst ` set (buffered_history lm)" for lm lsn
  proof -
    have f: "log_file lm = log_contents lm" using d by (simp add: buffers_empty_def log_contents_def)
    have b: "log_bytes (log_contents lm)" "lsn = 0 \<or> lsn \<in> fst ` set (log_entries (log_contents lm))"
      using inv lsn by (simp_all add: buffered_inv_def buffered_history_def)
    obtain rs1 rs2 where r: "\<forall>r \<in> set rs2. loggable r" "log_contents lm = concat (map record_bytes (rs1 @ rs2))"
        "sint lsn = int (length (concat (map record_bytes rs1)))"
        "delivers (map (\<lambda>(k, r). (of_int k, r)) (expect (sint lsn) rs2)) (filter (\<lambda>(k, _). sint lsn \<le> sint k) (log_entries (log_contents lm)))"
      by (rule log_suffix [OF b])
    let ?k = "length (concat (map record_bytes rs2))"
    have "log_scan (DBLM_Iterator lm (nat (sint lsn))) = expect (sint lsn) (whole ?k rs2)"
      using log_scan_prefix [OF r(1), of "DBLM_Iterator lm (nat (sint lsn))" ?k] r(2,3) f by (simp add: DBLM_Iterator_def NewLogFileIterator_def)
    then show ?thesis using r(3,4) whole_all [of rs2 ?k] by (simp add: double_buffer_log_def buffered_history_def)
  qed
qed

end
