(* ===== verification/Buffer_Pool.thy ===== *)
theory Buffer_Pool
  imports Disk_Storage Log_Interface
begin

text \<open>
  The buffer pool (\<^verbatim>\<open>storage/buffer_pool.go\<close>).  A shard keeps a young and an old
  list of frames (most recent first), the map from page to frame, the set of pages some
  thread is moving in or out (\<^verbatim>\<open>pageLock\<close>) and the number of frames in neither list
  (\<^verbatim>\<open>numBaking\<close>).  Frames are objects, so the model has a store of frames and the
  lists hold addresses.  A call is one step here; the busy waits of \<^verbatim>\<open>GetPage\<close> are
  the outcome \<open>Spins\<close>.  Page latches protect the bytes of a frame among threads and have
  no effect on a single call.

  The shared result is that the pool is transparent: \<open>pool_view\<close> maps every page that
  exists to its current bytes, and the calls change it only where the caller did.
\<close>

section \<open>State\<close>

record BufferPoolShard =
  pages :: "PageID \<rightharpoonup> nat"
  pageLock :: "PageID set"
  bs_numPages :: nat
  numBaking :: nat
  youngList :: "nat list"
  oldList :: "nat list"

record BufferPool =
  storageManager :: DiskDBFileManager
  shards :: "BufferPoolShard list"
  frames :: "nat \<Rightarrow> PageFrame"
  nextFrame :: nat

definition NUMSHARD :: nat where "NUMSHARD = 64"

definition NewBufferPoolShard :: "nat \<Rightarrow> BufferPoolShard" where
  "NewBufferPoolShard n = \<lparr>pages = Map.empty, pageLock = {}, bs_numPages = n, numBaking = 0,
     youngList = [], oldList = []\<rparr>"

definition zero_frame :: PageFrame where
  "zero_frame = \<lparr>Bytes = replicate PageSize 0, cached = False, rowSize = 0, numSlots = 0, numUsed = 0,
     bitMapSize = 0, padding = 0, dataStart = 0, startHint = 0,
     allocBitmap = \<lparr>bm_base = 0, bm_numBits = 0\<rparr>, deletedBitmap = \<lparr>bm_base = 0, bm_numBits = 0\<rparr>,
     pageId = PageID 0 0, refCount = 0, isDirty = False, inOld = False, recLSN = 0\<rparr>"

definition NewBufferPool :: "nat \<Rightarrow> DiskDBFileManager \<Rightarrow> BufferPool res" where
  "NewBufferPool n sm =
     bindR (Assert (n > 0) ''numPages needs to larger than 0'') (\<lambda>_.
     let numShards = max 1 (min NUMSHARD (n div 4));
         pagesPerShard = n div numShards;
         remainderPages = n mod numShards
     in Inr \<lparr>storageManager = sm,
             shards = map (\<lambda>i. NewBufferPoolShard (if i < remainderPages then pagesPerShard + 1 else pagesPerShard))
                        [0..<numShards],
             frames = (\<lambda>_. zero_frame), nextFrame = 0\<rparr>)"

section \<open>Placing a page\<close>

text \<open>\<^verbatim>\<open>fmt.Sprintf("Page(%d, %d)")\<close>, as bytes; the object id is unsigned, the page number signed.\<close>

fun digits :: "nat \<Rightarrow> byte list" where
  "digits n = (if n < 10 then [of_nat (48 + n)] else digits (n div 10) @ [of_nat (48 + n mod 10)])"

definition decimal :: "int \<Rightarrow> byte list" where
  "decimal i = (if i < 0 then 45 # digits (nat (- i)) else digits (nat i))"

definition PageID_String :: "PageID \<Rightarrow> byte list" where
  "PageID_String p = [80, 97, 103, 101, 40] @ decimal (uint (Oid p)) @ [44, 32] @ decimal (sint (PageNum p)) @ [41]"

definition shardIdx :: "BufferPool \<Rightarrow> PageID \<Rightarrow> nat" where
  "shardIdx bp pid = unat (Hash (PageID_String pid)) mod length (shards bp)"

definition upd_shard :: "nat \<Rightarrow> (BufferPoolShard \<Rightarrow> BufferPoolShard) \<Rightarrow> BufferPool \<Rightarrow> BufferPool" where
  "upd_shard i f bp = bp\<lparr>shards := (shards bp)[i := f (shards bp ! i)]\<rparr>"

definition upd_frame :: "nat \<Rightarrow> (PageFrame \<Rightarrow> PageFrame) \<Rightarrow> BufferPool \<Rightarrow> BufferPool" where
  "upd_frame a f bp = bp\<lparr>frames := (frames bp)(a := f (frames bp a))\<rparr>"

section \<open>A shard's operations\<close>

definition getPageFromPool :: "nat \<Rightarrow> PageID \<Rightarrow> BufferPool \<Rightarrow> (nat \<times> BufferPool) option" where
  "getPageFromPool i pid bp =
     (let sh = shards bp ! i
      in case pages sh pid of
           None \<Rightarrow> None
         | Some a \<Rightarrow>
             let pf = frames bp a
             in Some (a, if inOld pf
                then upd_frame a (\<lambda>f. f\<lparr>refCount := refCount f + 1, inOld := False\<rparr>)
                       (upd_shard i (\<lambda>s. s\<lparr>oldList := remove1 a (oldList s), youngList := a # youngList s,
                                          pages := (pages s)(pid \<mapsto> a)\<rparr>) bp)
                else upd_frame a (\<lambda>f. f\<lparr>refCount := refCount f + 1\<rparr>)
                       (upd_shard i (\<lambda>s. s\<lparr>youngList := a # remove1 a (youngList s)\<rparr>) bp)))"

text \<open>An unpinned frame whose page no thread is moving; the lists are searched from the back.\<close>

definition evictable :: "BufferPool \<Rightarrow> BufferPoolShard \<Rightarrow> nat \<Rightarrow> bool" where
  "evictable bp sh a \<longleftrightarrow> refCount (frames bp a) = 0 \<and> pageId (frames bp a) \<notin> pageLock sh"

definition findVictim :: "BufferPool \<Rightarrow> BufferPoolShard \<Rightarrow> nat option" where
  "findVictim bp sh =
     (case find (evictable bp sh) (rev (oldList sh)) of
        Some a \<Rightarrow> Some a
      | None \<Rightarrow> find (evictable bp sh) (rev (youngList sh)))"

definition evictPage :: "nat \<Rightarrow> BufferPool \<Rightarrow> (nat \<times> BufferPool) option" where
  "evictPage i bp =
     (let sh = shards bp ! i
      in if length (oldList sh) + length (youngList sh) + numBaking sh < bs_numPages sh
         then let a = nextFrame bp;
                  pf = zero_frame\<lparr>refCount := 1, inOld := True, pageId := PageID InvalidObjectID 0\<rparr>
              in Some (a, upd_shard i (\<lambda>s. s\<lparr>numBaking := numBaking s + 1\<rparr>)
                            (bp\<lparr>frames := (frames bp)(a := pf), nextFrame := a + 1\<rparr>))
         else case findVictim bp sh of
                None \<Rightarrow> None
              | Some a \<Rightarrow>
                  let pf = frames bp a
                  in Some (a, upd_frame a (\<lambda>f. f\<lparr>refCount := 1, cached := False\<rparr>)
                       (upd_shard i (\<lambda>s. s\<lparr>pages := (pages s)(pageId pf := None),
                                          pageLock := insert (pageId pf) (pageLock s),
                                          youngList := (if \<not> inOld pf then remove1 a (youngList s) else youngList s),
                                          oldList := (if inOld pf then remove1 a (oldList s) else oldList s),
                                          numBaking := numBaking s + 1\<rparr>) bp)))"

definition rollbackEviction :: "nat \<Rightarrow> nat \<Rightarrow> BufferPool \<Rightarrow> BufferPool" where
  "rollbackEviction i a bp =
     (let pf = frames bp a
      in upd_frame a (\<lambda>f. f\<lparr>refCount := 0\<rparr>)
           (upd_shard i (\<lambda>s.
              let s1 = (if inOld pf then s\<lparr>oldList := a # oldList s\<rparr> else s\<lparr>youngList := a # youngList s\<rparr>);
                  s2 = (if Oid (pageId pf) \<noteq> InvalidObjectID
                        then s1\<lparr>pages := (pages s1)(pageId pf \<mapsto> a), pageLock := pageLock s1 - {pageId pf}\<rparr> else s1)
              in if numBaking s2 > 0 then s2\<lparr>numBaking := numBaking s2 - 1\<rparr> else s2) bp))"

section \<open>The pool's operations\<close>

definition unlock_page :: "nat \<Rightarrow> PageID \<Rightarrow> BufferPool \<Rightarrow> BufferPool" where
  "unlock_page i pid bp = upd_shard i (\<lambda>s. s\<lparr>pageLock := pageLock s - {pid}\<rparr>) bp"

definition set_disk :: "DiskDBFileManager \<Rightarrow> BufferPool \<Rightarrow> BufferPool" where
  "set_disk d bp = bp\<lparr>storageManager := d\<rparr>"

text \<open>
  Writing the victim back.  The error of the wait for the log is not looked at; a wait
  that does not end keeps the call from ending.
\<close>

definition flush_victim :: "'l LogManager \<Rightarrow> nat \<Rightarrow> nat \<Rightarrow> 'l \<times> BufferPool \<Rightarrow> unit res \<times> ('l \<times> BufferPool)" where
  "flush_victim L i a st =
     (let l = fst st; bp = snd st; victim = frames bp a
      in if Oid (pageId victim) \<noteq> InvalidObjectID \<and> isDirty victim
         then let (r, d) = GetDBFile (Oid (pageId victim)) (storageManager bp); bp1 = set_disk d bp
              in case r of
                   Inl e \<Rightarrow> (Inl e, l, rollbackEviction i a bp1)
                 | Inr _ \<Rightarrow>
                     let (ws, l') = WaitUntilFlushed L (frame_LSN victim) l;
                         (w, d') = WritePage (Oid (pageId victim)) (sint (PageNum (pageId victim))) (Bytes victim) d
                     in if ws = Inl Spins then (Inl Spins, l', bp1)
                        else case w of
                          Inl e \<Rightarrow> (Inl e, l', rollbackEviction i a (set_disk d' bp1))
                        | Inr _ \<Rightarrow> (Inr (), l', unlock_page i (pageId victim)
                                      (upd_frame a (\<lambda>f. f\<lparr>isDirty := False\<rparr>) (set_disk d' bp1)))
         else if Oid (pageId victim) \<noteq> InvalidObjectID
         then (Inr (), l, unlock_page i (pageId victim) bp)
         else (Inr (), l, bp))"

definition load_page :: "nat \<Rightarrow> nat \<Rightarrow> PageID \<Rightarrow> 'l \<times> BufferPool \<Rightarrow> nat res \<times> ('l \<times> BufferPool)" where
  "load_page i a pid st =
     (let l = fst st;
          bp = upd_frame a (\<lambda>f. f\<lparr>pageId := pid\<rparr>) (snd st);
          (r, d) = GetDBFile (Oid pid) (storageManager bp);
          bp1 = set_disk d bp
      in case r of
           Inl e \<Rightarrow> (Inl e, l, rollbackEviction i a bp1)
         | Inr _ \<Rightarrow>
             case ReadPage d (Oid pid) (sint (PageNum pid)) (Bytes (frames bp1 a)) of
               Inl e \<Rightarrow> (Inl e, l, rollbackEviction i a bp1)
             | Inr b \<Rightarrow>
                 (Inr a, l, upd_shard i (\<lambda>s. s\<lparr>oldList := a # oldList s, pages := (pages s)(pid \<mapsto> a),
                                              numBaking := numBaking s - 1\<rparr>)
                    (upd_frame a (\<lambda>f. f\<lparr>Bytes := b, inOld := True, isDirty := False\<rparr>) bp1)))"

definition GetPage :: "'l LogManager \<Rightarrow> PageID \<Rightarrow> 'l \<times> BufferPool \<Rightarrow> nat res \<times> ('l \<times> BufferPool)" where
  "GetPage L pid st =
     (let l = fst st; bp = snd st; i = shardIdx bp pid
      in if pid \<in> pageLock (shards bp ! i) then (Inl Spins, st)
         else let bp1 = upd_shard i (\<lambda>s. s\<lparr>pageLock := insert pid (pageLock s)\<rparr>) bp;
                  unlock = (\<lambda>(r, l, b). (r, l, if r = Inl Spins then b else unlock_page i pid b))
              in case getPageFromPool i pid bp1 of
                   Some (a, bp2) \<Rightarrow> unlock (Inr a, l, bp2)
                 | None \<Rightarrow>
                     case evictPage i bp1 of
                       None \<Rightarrow> (Inl Spins, l, bp1)
                     | Some (a, bp2) \<Rightarrow>
                         unlock (bindS (flush_victim L i a (l, bp2)) (\<lambda>_ st'. load_page i a pid st')))"

definition UnpinPage :: "nat \<Rightarrow> bool \<Rightarrow> BufferPool \<Rightarrow> BufferPool res" where
  "UnpinPage a setDirty bp =
     (if refCount (frames bp a) \<le> 0 then Inl (Panic ''Unpinning a page with refCount <= 0'')
      else Inr (upd_frame a (\<lambda>f. f\<lparr>isDirty := (isDirty f \<or> setDirty), refCount := refCount f - 1\<rparr>) bp))"

definition flushable :: "LSN \<Rightarrow> BufferPool \<Rightarrow> nat \<Rightarrow> bool" where
  "flushable until bp a \<longleftrightarrow> sint (frame_LSN (frames bp a)) < sint until \<and> isDirty (frames bp a)"

definition dirtyPages :: "LSN \<Rightarrow> BufferPool \<Rightarrow> nat list" where
  "dirtyPages until bp =
     concat (map (\<lambda>sh. filter (flushable until bp) (oldList sh) @ filter (flushable until bp) (youngList sh)) (shards bp))"

fun flush_loop :: "nat list \<Rightarrow> BufferPool \<Rightarrow> unit res \<times> BufferPool" where
  "flush_loop [] bp = (Inr (), bp)"
| "flush_loop (a # as) bp =
     (let pf = frames bp a; (r, d) = GetDBFile (Oid (pageId pf)) (storageManager bp)
      in case r of
           Inl e \<Rightarrow> (Inl e, set_disk d bp)
         | Inr _ \<Rightarrow>
             let (w, d') = WritePage (Oid (pageId pf)) (sint (PageNum (pageId pf))) (Bytes pf) d
             in case w of
                  Inl e \<Rightarrow> (Inl e, set_disk d' bp)
                | Inr _ \<Rightarrow> flush_loop as (upd_frame a (\<lambda>f. f\<lparr>isDirty := False\<rparr>) (set_disk d' bp)))"

definition FlushAllPages :: "'l LogManager \<Rightarrow> 'l \<times> BufferPool \<Rightarrow> unit res \<times> BufferPool" where
  "FlushAllPages L st = flush_loop (dirtyPages (FlushedUntil L (fst st)) (snd st)) (snd st)"

text \<open>The snapshot is a map; its association list follows the shards.\<close>

definition GetDirtyPageTableSnapshot :: "BufferPool \<Rightarrow> (PageID \<times> LSN) list" where
  "GetDirtyPageTableSnapshot bp =
     map (\<lambda>a. (pageId (frames bp a), recLSN (frames bp a)))
       (filter (\<lambda>a. isDirty (frames bp a) \<and> (\<exists>sh \<in> set (shards bp). pages sh (pageId (frames bp a)) = Some a))
          (concat (map (\<lambda>sh. oldList sh @ youngList sh) (shards bp))))"

section \<open>The invariant and the contents of the pool\<close>

definition on_disk :: "DiskDBFileManager \<Rightarrow> PageID \<Rightarrow> bool" where
  "on_disk d pid \<longleftrightarrow> Oid pid \<noteq> InvalidObjectID \<and> 0 \<le> sint (PageNum pid) \<and>
     sint (PageNum pid) < int (length (file_pages d (Oid pid)))"

definition disk_page :: "DiskDBFileManager \<Rightarrow> PageID \<Rightarrow> byte list" where
  "disk_page d pid = file_pages d (Oid pid) ! nat (sint (PageNum pid))"

definition frame_ok :: "DiskDBFileManager \<Rightarrow> PageFrame \<Rightarrow> bool" where
  "frame_ok d f \<longleftrightarrow> length (Bytes f) = PageSize \<and> 0 \<le> refCount f \<and> on_disk d (pageId f) \<and>
     (isDirty f \<or> Bytes f = disk_page d (pageId f)) \<and> (cached f \<longrightarrow> wf_heap_page f)"

definition shard_frames :: "BufferPoolShard \<Rightarrow> nat list" where
  "shard_frames sh = oldList sh @ youngList sh"

text \<open>
  The invariant of a shard, with the pages locked and the number of frames out of the
  lists as parameters: nothing and zero between calls.
\<close>

definition listed_ok :: "(nat \<Rightarrow> PageFrame) \<Rightarrow> DiskDBFileManager \<Rightarrow> (PageID \<Rightarrow> nat) \<Rightarrow> nat \<Rightarrow> nat \<Rightarrow> BufferPoolShard \<Rightarrow> nat \<Rightarrow> bool" where
  "listed_ok fr d idx nf i sh a \<longleftrightarrow> a < nf \<and> frame_ok d (fr a) \<and> pages sh (pageId (fr a)) = Some a \<and>
     inOld (fr a) = (a \<in> set (oldList sh)) \<and> idx (pageId (fr a)) = i"

definition shard_ok :: "(nat \<Rightarrow> PageFrame) \<Rightarrow> DiskDBFileManager \<Rightarrow> (PageID \<Rightarrow> nat) \<Rightarrow> nat \<Rightarrow> PageID set \<Rightarrow> nat \<Rightarrow> nat \<Rightarrow> BufferPoolShard \<Rightarrow> bool" where
  "shard_ok fr d idx nf P k i sh \<longleftrightarrow> pageLock sh = P \<and> numBaking sh = k \<and> 0 < bs_numPages sh \<and>
     length (shard_frames sh) + k \<le> bs_numPages sh \<and> distinct (shard_frames sh) \<and>
     (\<forall>a \<in> set (shard_frames sh). listed_ok fr d idx nf i sh a) \<and>
     (\<forall>pid a. pages sh pid = Some a \<longrightarrow> a \<in> set (shard_frames sh) \<and> pageId (fr a) = pid)"

definition place :: "nat \<Rightarrow> PageID \<Rightarrow> nat" where
  "place n pid = unat (Hash (PageID_String pid)) mod n"

definition pool_ok :: "BufferPool \<Rightarrow> bool" where
  "pool_ok bp \<longleftrightarrow> disk_ok (storageManager bp) \<and> shards bp \<noteq> [] \<and>
     (\<forall>i < length (shards bp). shard_ok (frames bp) (storageManager bp) (place (length (shards bp)))
        (nextFrame bp) {} 0 i (shards bp ! i))"

definition locate :: "BufferPool \<Rightarrow> PageID \<Rightarrow> nat option" where
  "locate bp pid = pages (shards bp ! shardIdx bp pid) pid"

definition pool_view :: "BufferPool \<Rightarrow> PageID \<Rightarrow> byte list option" where
  "pool_view bp pid =
     (if on_disk (storageManager bp) pid
      then Some (case locate bp pid of Some a \<Rightarrow> Bytes (frames bp a) | None \<Rightarrow> disk_page (storageManager bp) pid)
      else None)"

text \<open>A call for a page does not spin: it is cached, or there is room, or a frame is unpinned.\<close>

definition available :: "BufferPool \<Rightarrow> PageID \<Rightarrow> bool" where
  "available bp pid \<longleftrightarrow> (let sh = shards bp ! shardIdx bp pid
     in locate bp pid \<noteq> None \<or> length (shard_frames sh) < bs_numPages sh \<or>
        (\<exists>a \<in> set (shard_frames sh). refCount (frames bp a) = 0))"

definition quiet :: "BufferPool \<Rightarrow> bool" where
  "quiet bp \<longleftrightarrow> (\<forall>sh \<in> set (shards bp). \<forall>a \<in> set (shard_frames sh). refCount (frames bp a) = 0)"

text \<open>
  The log can be waited for: no dirty page carries a sequence number beyond what the log
  will flush.
\<close>

definition page_LSN :: "byte list \<Rightarrow> LSN" where
  "page_LSN b = le_get (slice pageOffsetLSN 8 b)"

definition lsns_ok :: "'l LogManager \<Rightarrow> 'l \<Rightarrow> BufferPool \<Rightarrow> bool" where
  "lsns_ok L l bp \<longleftrightarrow> (\<forall>pid b. pool_view bp pid = Some b \<longrightarrow> waits L l (page_LSN b))"

lemma frame_LSN_page: "frame_LSN f = page_LSN (Bytes f)"
  by (simp add: frame_LSN_def page_LSN_def)

lemma shardIdx_place: "shardIdx bp pid = place (length (shards bp)) pid"
  by (simp add: shardIdx_def place_def)

lemma shardIdx_less: "shards bp \<noteq> [] \<Longrightarrow> shardIdx bp pid < length (shards bp)"
  by (simp add: shardIdx_def)

lemma pool_shard: "pool_ok bp \<Longrightarrow> i < length (shards bp) \<Longrightarrow>
    shard_ok (frames bp) (storageManager bp) (place (length (shards bp))) (nextFrame bp) {} 0 i (shards bp ! i)"
  by (simp add: pool_ok_def)

lemma pool_idx: "pool_ok bp \<Longrightarrow> shardIdx bp pid < length (shards bp)"
  by (simp add: pool_ok_def shardIdx_less)

lemma shard_okD:
  assumes "shard_ok fr d idx nf P k i sh"
  shows "pageLock sh = P" "numBaking sh = k" "0 < bs_numPages sh" "length (shard_frames sh) + k \<le> bs_numPages sh"
    "distinct (shard_frames sh)" "\<And>a. a \<in> set (shard_frames sh) \<Longrightarrow> listed_ok fr d idx nf i sh a"
    "\<And>pid a. pages sh pid = Some a \<Longrightarrow> a \<in> set (shard_frames sh) \<and> pageId (fr a) = pid"
  using assms by (simp_all add: shard_ok_def)

text \<open>A shard sees only its own frames and their pages on disk.\<close>

lemma shard_ok_cong:
  assumes "shard_ok fr d idx nf P k i sh" "\<And>a. a \<in> set (shard_frames sh) \<Longrightarrow> fr' a = fr a" "nf \<le> nf'"
    "\<And>a. a \<in> set (shard_frames sh) \<Longrightarrow> frame_ok d' (fr a)"
  shows "shard_ok fr' d' idx nf' P k i sh"
  using assms unfolding shard_ok_def listed_ok_def by (metis order_less_le_trans)

lemma frames_apart:
  assumes "pool_ok bp" "i < length (shards bp)" "j < length (shards bp)" "i \<noteq> j"
    "a \<in> set (shard_frames (shards bp ! i))" "b \<in> set (shard_frames (shards bp ! j))"
  shows "a \<noteq> b" "pageId (frames bp a) \<noteq> pageId (frames bp b)"
proof -
  have "place (length (shards bp)) (pageId (frames bp a)) = i" "place (length (shards bp)) (pageId (frames bp b)) = j"
    using shard_okD(6) [OF pool_shard [OF assms(1,2)] assms(5)] shard_okD(6) [OF pool_shard [OF assms(1,3)] assms(6)]
    by (simp_all add: listed_ok_def)
  then show "a \<noteq> b" "pageId (frames bp a) \<noteq> pageId (frames bp b)" using assms(4) by auto
qed

lemma same_page_same_frame:
  assumes "shard_ok fr d idx nf P k i sh" "a \<in> set (shard_frames sh)" "b \<in> set (shard_frames sh)"
    "pageId (fr a) = pageId (fr b)"
  shows "a = b"
  using shard_okD(6) [OF assms(1,2)] shard_okD(6) [OF assms(1,3)] assms(4) by (simp add: listed_ok_def)

text \<open>Replacing one shard and one frame; the other shards do not notice.\<close>

lemma pool_ok_update:
  assumes ok: "pool_ok bp" and i: "i < length (shards bp)"
    and sh: "shard_ok fr' d' (place (length (shards bp))) nf' {} 0 i sh'"
    and fr: "\<And>j b. j < length (shards bp) \<Longrightarrow> j \<noteq> i \<Longrightarrow> b \<in> set (shard_frames (shards bp ! j)) \<Longrightarrow>
      fr' b = frames bp b \<and> frame_ok d' (frames bp b)"
    and rest: "nextFrame bp \<le> nf'" "disk_ok d'"
  shows "pool_ok \<lparr>storageManager = d', shards = (shards bp)[i := sh'], frames = fr', nextFrame = nf'\<rparr>"
proof -
  have "shard_ok fr' d' (place (length (shards bp))) nf' {} 0 j ((shards bp)[i := sh'] ! j)"
    if "j < length (shards bp)" for j
  proof (cases "j = i")
    case False
    then show ?thesis
      using shard_ok_cong [OF pool_shard [OF ok that]] fr [OF that] rest(1) by simp
  qed (use sh i in simp)
  then show ?thesis using ok rest(2) by (simp add: pool_ok_def)
qed

section \<open>A page that is cached\<close>

lemma wf_heap_page_pool_fields [simp]:
  "wf_heap_page (f\<lparr>refCount := r\<rparr>) = wf_heap_page f" "wf_heap_page (f\<lparr>inOld := b\<rparr>) = wf_heap_page f"
  "wf_heap_page (f\<lparr>isDirty := b\<rparr>) = wf_heap_page f" "wf_heap_page (f\<lparr>pageId := pid\<rparr>) = wf_heap_page f"
  "wf_heap_page (f\<lparr>recLSN := n\<rparr>) = wf_heap_page f"
  by (simp_all add: wf_heap_page_def)

definition front_of :: "nat \<Rightarrow> BufferPoolShard \<Rightarrow> BufferPoolShard" where
  "front_of a sh = sh\<lparr>oldList := remove1 a (oldList sh), youngList := a # remove1 a (youngList sh)\<rparr>"

lemma GetPage_hit:
  assumes ok: "pool_ok bp" and hit: "locate bp pid = Some a"
  shows "GetPage L pid (l, bp) = (Inr a, l, \<lparr>storageManager = storageManager bp,
      shards = (shards bp)[shardIdx bp pid := front_of a (shards bp ! shardIdx bp pid)],
      frames = (frames bp)(a := (frames bp a)\<lparr>refCount := refCount (frames bp a) + 1, inOld := False\<rparr>),
      nextFrame = nextFrame bp\<rparr>)"
proof -
  let ?i = "shardIdx bp pid" and ?sh = "shards bp ! shardIdx bp pid"
  note i = pool_idx [OF ok, of pid]
  note D = shard_okD [OF pool_shard [OF ok i]]
  have a: "a \<in> set (shard_frames ?sh)" "pages ?sh pid = Some a" using hit D(7) [of pid a] by (auto simp: locate_def)
  have old: "inOld (frames bp a) = (a \<in> set (oldList ?sh))" using D(6) [OF a(1)] by (simp add: listed_ok_def)
  have r: "a \<in> set (oldList ?sh) \<Longrightarrow> remove1 a (youngList ?sh) = youngList ?sh"
      "a \<notin> set (oldList ?sh) \<Longrightarrow> remove1 a (oldList ?sh) = oldList ?sh"
    using D(5) by (auto simp: shard_frames_def intro!: remove1_idem)
  show ?thesis
    using D(1) a(2) old r i
    by (cases bp, cases "?sh") (auto simp: GetPage_def getPageFromPool_def upd_shard_def upd_frame_def unlock_page_def
        front_of_def Let_def map_upd_triv)
qed

lemma front_of_ok:
  assumes ok: "shard_ok fr d idx nf {} 0 i sh" and a: "a \<in> set (shard_frames sh)"
  shows "shard_ok (fr(a := (fr a)\<lparr>refCount := refCount (fr a) + 1, inOld := False\<rparr>)) d idx nf {} 0 i (front_of a sh)"
proof -
  note D = shard_okD [OF ok]
  have s: "set (shard_frames (front_of a sh)) = set (shard_frames sh)" "distinct (shard_frames (front_of a sh))"
      "length (shard_frames (front_of a sh)) = length (shard_frames sh)"
      "set (oldList (front_of a sh)) = set (oldList sh) - {a}"
    using D(5) a by (auto simp: shard_frames_def front_of_def length_remove1 Suc_diff_le
        dest: length_pos_if_in_set)
  have "listed_ok (fr(a := (fr a)\<lparr>refCount := refCount (fr a) + 1, inOld := False\<rparr>)) d idx nf i (front_of a sh) b"
    if "b \<in> set (shard_frames sh)" for b
    using D(6) [OF that] unfolding listed_ok_def s(4)
    by (cases "b = a") (simp_all add: frame_ok_def front_of_def)
  moreover have "pageLock (front_of a sh) = {}" "numBaking (front_of a sh) = 0" "pages (front_of a sh) = pages sh"
      "bs_numPages (front_of a sh) = bs_numPages sh"
    using D(1,2) by (simp_all add: front_of_def)
  moreover have "pageId ((fr(a := (fr a)\<lparr>refCount := refCount (fr a) + 1, inOld := False\<rparr>)) b) = pageId (fr b)" for b
    by simp
  ultimately show ?thesis
    unfolding shard_ok_def s(1) using s(2,3) D(3,4,7) by simp
qed

section \<open>Pages on disk\<close>

lemma open_file:
  assumes "disk_ok d"
  obtains d' where "GetDBFile oid d = (Inr (), d')" "disk_ok d'" "opened d' oid" "file_pages d' = file_pages d"
  using dsm.open_law [OF assms, of oid] by blast

lemma on_disk_cong: "file_pages d' = file_pages d \<Longrightarrow> on_disk d' = on_disk d \<and> disk_page d' = disk_page d"
  by (auto simp: on_disk_def disk_page_def fun_eq_iff)

lemma page_eqI: "Oid p = Oid q \<Longrightarrow> sint (PageNum p) = sint (PageNum q) \<Longrightarrow> p = q"
  by (cases p; cases q) simp

lemma on_disk_num:
  assumes "on_disk d pid"
  obtains k where "sint (PageNum pid) = int k"
  using assms nonneg_int_cases unfolding on_disk_def by blast

lemma read_disk_page:
  assumes "disk_ok d" "opened d (Oid pid)" "on_disk d pid" "length b = PageSize"
  shows "ReadPage d (Oid pid) (sint (PageNum pid)) b = Inr (disk_page d pid)"
proof -
  obtain k where k: "sint (PageNum pid) = int k" by (rule on_disk_num [OF assms(3)])
  then show ?thesis
    using dsm.read_law [OF assms(1,2), of k b] assms(3,4) by (simp add: on_disk_def disk_page_def)
qed

lemma disk_page_length:
  assumes "on_disk d pid"
  shows "length (disk_page d pid) = PageSize"
proof -
  obtain k where k: "sint (PageNum pid) = int k" by (rule on_disk_num [OF assms])
  let ?c = "content_of d (Oid pid)"
  have "k < length ?c div PageSize" using assms k by (simp add: on_disk_def length_file_pages)
  then have "Suc k * PageSize \<le> length ?c div PageSize * PageSize" by (intro mult_le_mono1) simp
  then have "k * PageSize + PageSize \<le> length ?c"
    using order_trans [OF _ div_times_less_eq_dividend [of "length ?c" PageSize]] by simp
  then show ?thesis
    using assms k by (simp add: disk_page_def file_pages_def page_range_def on_disk_def length_file_pages)
qed

lemma write_disk_page:
  assumes "disk_ok d" "opened d (Oid pid)" "on_disk d pid" "length b = PageSize"
  obtains d' where "WritePage (Oid pid) (sint (PageNum pid)) b d = (Inr (), d')" "disk_ok d'"
    "on_disk d' = on_disk d" "\<And>q. on_disk d q \<Longrightarrow> disk_page d' q = (if q = pid then b else disk_page d q)"
proof -
  obtain k where k: "sint (PageNum pid) = int k" by (rule on_disk_num [OF assms(3)])
  then have kl: "k < length (file_pages d (Oid pid))" using assms(3) by (simp add: on_disk_def)
  obtain d' where d: "WritePage (Oid pid) (int k) b d = (Inr (), d')" "disk_ok d'"
      "file_pages d' = (file_pages d)(Oid pid := (file_pages d (Oid pid))[k := b])"
    using dsm.write_law [OF assms(1,2) kl assms(4)] by blast
  have "on_disk d' = on_disk d" using d(3) by (auto simp: on_disk_def fun_eq_iff)
  moreover have "disk_page d' q = (if q = pid then b else disk_page d q)" if q: "on_disk d q" for q
  proof (cases "Oid q = Oid pid")
    case True
    obtain j where j: "sint (PageNum q) = int j" by (rule on_disk_num [OF q])
    have "q = pid \<longleftrightarrow> j = k" using page_eqI [of q pid] True j k by auto
    then show ?thesis using True d(3) kl j k by (simp add: disk_page_def nth_list_update)
  next
    case False
    then show ?thesis using d(3) by (auto simp: disk_page_def)
  qed
  ultimately show thesis using that d k by simp
qed

section \<open>Taking a frame out of a shard and putting one in\<close>

definition drop_frame :: "nat \<Rightarrow> PageID \<Rightarrow> BufferPoolShard \<Rightarrow> BufferPoolShard" where
  "drop_frame a pid sh = sh\<lparr>pages := (pages sh)(pid := None), youngList := remove1 a (youngList sh),
     oldList := remove1 a (oldList sh)\<rparr>"

definition push_frame :: "nat \<Rightarrow> PageID \<Rightarrow> BufferPoolShard \<Rightarrow> BufferPoolShard" where
  "push_frame a pid sh = sh\<lparr>oldList := a # oldList sh, pages := (pages sh)(pid \<mapsto> a)\<rparr>"

lemma drop_frame_ok:
  assumes ok: "shard_ok fr d idx nf {} 0 i sh" and a: "a \<in> set (shard_frames sh)"
  shows "shard_ok fr d idx nf {} 0 i (drop_frame a (pageId (fr a)) sh)"
    "set (shard_frames (drop_frame a (pageId (fr a)) sh)) = set (shard_frames sh) - {a}"
    "length (shard_frames (drop_frame a (pageId (fr a)) sh)) < bs_numPages sh"
proof -
  note D = shard_okD [OF ok]
  let ?s = "drop_frame a (pageId (fr a)) sh"
  show set: "set (shard_frames ?s) = set (shard_frames sh) - {a}"
    using D(5) by (auto simp: shard_frames_def drop_frame_def)
  have "length (shard_frames ?s) < length (shard_frames sh)" "distinct (shard_frames ?s)"
      "set (oldList ?s) = set (oldList sh) - {a}"
    using D(5) a by (auto simp: shard_frames_def drop_frame_def length_remove1 dest: length_pos_if_in_set)
  moreover have "listed_ok fr d idx nf i ?s b" if "b \<in> set (shard_frames sh) - {a}" for b
  proof -
    have b: "b \<in> set (shard_frames sh)" "b \<noteq> a" using that by auto
    then have "pageId (fr b) \<noteq> pageId (fr a)" using same_page_same_frame [OF ok b(1) a] by blast
    then show ?thesis using D(6) [OF b(1)] b(2) calculation(3) by (simp add: listed_ok_def) (simp add: drop_frame_def)
  qed
  moreover have "c \<in> set (shard_frames sh) - {a} \<and> pageId (fr c) = pid" if "pages ?s pid = Some c" for pid c
    using that D(7) [of pid c] by (auto simp: drop_frame_def split: if_splits)
  moreover have "pageLock ?s = {}" "numBaking ?s = 0" "bs_numPages ?s = bs_numPages sh"
    using D(1,2) by (simp_all add: drop_frame_def)
  ultimately show "shard_ok fr d idx nf {} 0 i ?s" "length (shard_frames ?s) < bs_numPages sh"
    unfolding shard_ok_def set using D(3,4) by auto
qed

lemma push_frame_ok:
  assumes ok: "shard_ok fr d idx nf {} 0 i sh" and room: "length (shard_frames sh) < bs_numPages sh"
    and new: "a \<notin> set (shard_frames sh)" "pages sh pid = None" "idx pid = i"
    and f: "frame_ok d f" "pageId f = pid" "inOld f" and nf: "a < nf'" "nf \<le> nf'"
  shows "shard_ok (fr(a := f)) d idx nf' {} 0 i (push_frame a pid sh)"
proof -
  note D = shard_okD [OF ok]
  let ?s = "push_frame a pid sh"
  have s: "shard_frames ?s = a # shard_frames sh" by (simp add: shard_frames_def push_frame_def)
  have "listed_ok (fr(a := f)) d idx nf' i ?s b" if b: "b \<in> set (shard_frames sh)" for b
  proof -
    have "pageId (fr b) \<noteq> pid" "b \<noteq> a" using D(6) [OF b] new b by (auto simp: listed_ok_def)
    then show ?thesis using D(6) [OF b] nf by (auto simp: listed_ok_def push_frame_def)
  qed
  moreover have "listed_ok (fr(a := f)) d idx nf' i ?s a"
    using f nf new(3) by (simp add: listed_ok_def push_frame_def)
  moreover have "(c = a \<or> c \<in> set (shard_frames sh)) \<and> pageId ((fr(a := f)) c) = q" if "pages ?s q = Some c" for q c
    using that D(7) [of q c] f(2) new(1) by (auto simp: push_frame_def split: if_splits)
  ultimately show ?thesis
    unfolding shard_ok_def s using D(1-5) room new(1) by (auto simp: push_frame_def)
qed

section \<open>A page that has to be loaded\<close>

text \<open>The state between the eviction and the load: the frame is in no list.\<close>

definition baking :: "nat \<Rightarrow> PageID \<Rightarrow> BufferPoolShard \<Rightarrow> BufferPoolShard" where
  "baking k pid sh = sh\<lparr>pageLock := {pid}, numBaking := k\<rparr>"

lemma load_page_ok:
  assumes ok: "pool_ok bp" and pid: "on_disk (storageManager bp) pid" and i: "i = shardIdx bp pid"
    and room: "length (shard_frames (shards bp ! i)) < bs_numPages (shards bp ! i)"
    and miss: "pages (shards bp ! i) pid = None"
    and a: "\<And>j. j < length (shards bp) \<Longrightarrow> a \<notin> set (shard_frames (shards bp ! j))" "a < nf'" "nextFrame bp \<le> nf'"
    and f: "length (Bytes f) = PageSize" "refCount f = 1" "\<not> cached f"
  obtains d' f' bp' where "load_page i a pid (l, \<lparr>storageManager = storageManager bp,
      shards = (shards bp)[i := baking 1 pid (shards bp ! i)], frames = (frames bp)(a := f), nextFrame = nf'\<rparr>) = (Inr a, l, bp')"
    "unlock_page i pid bp' = \<lparr>storageManager = d', shards = (shards bp)[i := push_frame a pid (shards bp ! i)],
       frames = (frames bp)(a := f'), nextFrame = nf'\<rparr>"
    "disk_ok d'" "file_pages d' = file_pages (storageManager bp)"
    "f' = f\<lparr>pageId := pid, Bytes := disk_page (storageManager bp) pid, inOld := True, isDirty := False\<rparr>"
    "pool_ok \<lparr>storageManager = d', shards = (shards bp)[i := push_frame a pid (shards bp ! i)],
       frames = (frames bp)(a := f'), nextFrame = nf'\<rparr>"
proof -
  let ?d = "storageManager bp" and ?sh = "shards bp ! i"
  let ?f = "f\<lparr>pageId := pid, Bytes := disk_page ?d pid, inOld := True, isDirty := False\<rparr>"
  have i': "i < length (shards bp)" using pool_idx [OF ok] i by simp
  note S = pool_shard [OF ok i']
  obtain d' where d: "GetDBFile (Oid pid) ?d = (Inr (), d')" "disk_ok d'" "opened d' (Oid pid)" "file_pages d' = file_pages ?d"
    using ok open_file [of ?d] by (auto simp: pool_ok_def)
  have dd: "on_disk d' = on_disk ?d" "disk_page d' = disk_page ?d" using on_disk_cong [OF d(4)] by simp_all
  have fo: "frame_ok d' = frame_ok ?d" by (simp add: frame_ok_def fun_eq_iff dd)
  have r: "ReadPage d' (Oid pid) (sint (PageNum pid)) (Bytes f) = Inr (disk_page ?d pid)"
    using read_disk_page [OF d(2,3), of "Bytes f"] pid f(1) by (simp add: dd)
  let ?bp = "\<lparr>storageManager = d', shards = (shards bp)[i := (push_frame a pid ?sh)\<lparr>pageLock := {pid}\<rparr>],
       frames = (frames bp)(a := ?f), nextFrame = nf'\<rparr>"
  have "load_page i a pid (l, \<lparr>storageManager = ?d, shards = (shards bp)[i := baking 1 pid ?sh],
       frames = (frames bp)(a := f), nextFrame = nf'\<rparr>) = (Inr a, l, ?bp)"
    using d(1) r i' shard_okD(2) [OF S]
    by (cases ?sh) (simp add: load_page_def upd_frame_def upd_shard_def set_disk_def Let_def baking_def push_frame_def)
  moreover have "unlock_page i pid ?bp = \<lparr>storageManager = d', shards = (shards bp)[i := push_frame a pid ?sh],
       frames = (frames bp)(a := ?f), nextFrame = nf'\<rparr>"
    using i' shard_okD(1) [OF S] by (cases ?sh) (simp add: unlock_page_def upd_shard_def push_frame_def)
  moreover have "pool_ok \<lparr>storageManager = d', shards = (shards bp)[i := push_frame a pid ?sh],
       frames = (frames bp)(a := ?f), nextFrame = nf'\<rparr>"
  proof (rule pool_ok_update [OF ok i'])
    have S': "shard_ok (frames bp) d' (place (length (shards bp))) (nextFrame bp) {} 0 i ?sh"
      by (rule shard_ok_cong [OF S]) (use shard_okD(6) [OF S] fo in \<open>auto simp: listed_ok_def\<close>)
    show "shard_ok ((frames bp)(a := ?f)) d' (place (length (shards bp))) nf' {} 0 i (push_frame a pid ?sh)"
      by (rule push_frame_ok [OF S' room])
        (use a i' miss i pid f disk_page_length [OF pid] in \<open>simp_all add: shardIdx_place frame_ok_def dd\<close>)
    show "((frames bp)(a := ?f)) b = frames bp b \<and> frame_ok d' (frames bp b)"
      if "j < length (shards bp)" "j \<noteq> i" "b \<in> set (shard_frames (shards bp ! j))" for j b
      using a(1) [OF that(1)] that(3) shard_okD(6) [OF pool_shard [OF ok that(1)] that(3)] fo
      by (auto simp: listed_ok_def)
  qed (use a(3) d(2) in simp_all)
  ultimately show thesis using that d(2,4) by blast
qed

lemma GetPage_miss_eq:
  assumes "locate bp pid = None" "pageLock (shards bp ! shardIdx bp pid) = {}" "pool_ok bp"
  shows "GetPage L pid (l, bp) =
    (let i = shardIdx bp pid; bp1 = upd_shard i (\<lambda>s. s\<lparr>pageLock := {pid}\<rparr>) bp
     in case evictPage i bp1 of
          None \<Rightarrow> (Inl Spins, l, bp1)
        | Some (a, bp2) \<Rightarrow> (\<lambda>(r, l, b). (r, l, if r = Inl Spins then b else unlock_page i pid b))
            (bindS (flush_victim L i a (l, bp2)) (\<lambda>_ st'. load_page i a pid st')))"
proof -
  have "getPageFromPool (shardIdx bp pid) pid (upd_shard (shardIdx bp pid) (\<lambda>s. s\<lparr>pageLock := {pid}\<rparr>) bp) = None"
    using assms pool_idx [OF assms(3), of pid] by (simp add: getPageFromPool_def upd_shard_def locate_def)
  moreover have "upd_shard (shardIdx bp pid) (\<lambda>s. s\<lparr>pageLock := insert pid (pageLock s)\<rparr>) bp =
      upd_shard (shardIdx bp pid) (\<lambda>s. s\<lparr>pageLock := {pid}\<rparr>) bp"
    using assms(2) by (simp add: upd_shard_def)
  ultimately show ?thesis using assms(2) by (simp add: GetPage_def Let_def)
qed

text \<open>A fresh frame while the shard has room.\<close>

lemma evict_fresh:
  assumes ok: "pool_ok bp" and i: "i = shardIdx bp pid"
    and room: "length (shard_frames (shards bp ! i)) < bs_numPages (shards bp ! i)"
  shows "\<exists>f. evictPage i (upd_shard i (\<lambda>s. s\<lparr>pageLock := {pid}\<rparr>) bp) =
      Some (nextFrame bp, \<lparr>storageManager = storageManager bp, shards = (shards bp)[i := baking 1 pid (shards bp ! i)],
        frames = (frames bp)(nextFrame bp := f), nextFrame = nextFrame bp + 1\<rparr>) \<and>
    length (Bytes f) = PageSize \<and> refCount f = 1 \<and> \<not> cached f \<and> Oid (pageId f) = InvalidObjectID"
proof -
  have i': "i < length (shards bp)" using pool_idx [OF ok] i by simp
  note D = shard_okD [OF pool_shard [OF ok i']]
  show ?thesis
    using i' room D(2)
    by (cases bp) (auto simp: evictPage_def upd_shard_def Let_def baking_def shard_frames_def zero_frame_def InvalidObjectID_def)
qed

lemma findVictim_alt: "findVictim bp sh = find (evictable bp sh) (rev (oldList sh) @ rev (youngList sh))"
  by (simp add: findVictim_def find_append)

lemma findVictim_ok:
  assumes ok: "shard_ok (frames bp) d idx nf {} 0 i sh" and miss: "pages sh pid = None"
    and free: "\<exists>a \<in> set (shard_frames sh). refCount (frames bp a) = 0"
  obtains a where "findVictim bp (sh\<lparr>pageLock := {pid}\<rparr>) = Some a" "a \<in> set (shard_frames sh)" "refCount (frames bp a) = 0"
proof -
  have e: "evictable bp (sh\<lparr>pageLock := {pid}\<rparr>) a \<longleftrightarrow> refCount (frames bp a) = 0" if "a \<in> set (shard_frames sh)" for a
    using shard_okD(6) [OF ok that] miss by (auto simp: evictable_def listed_ok_def)
  have "findVictim bp (sh\<lparr>pageLock := {pid}\<rparr>) \<noteq> None"
    using free e unfolding findVictim_alt find_None_iff by (auto simp: shard_frames_def)
  then obtain a where a: "findVictim bp (sh\<lparr>pageLock := {pid}\<rparr>) = Some a" by blast
  then have "a \<in> set (shard_frames sh)" "evictable bp (sh\<lparr>pageLock := {pid}\<rparr>) a"
    unfolding findVictim_alt by (auto simp: shard_frames_def dest: find_SomeD)
  then show thesis using that a e by blast
qed

lemma evict_victim:
  assumes ok: "pool_ok bp" and i: "i = shardIdx bp pid"
    and full: "\<not> length (shard_frames (shards bp ! i)) < bs_numPages (shards bp ! i)"
    and miss: "pages (shards bp ! i) pid = None"
    and free: "\<exists>a \<in> set (shard_frames (shards bp ! i)). refCount (frames bp a) = 0"
  obtains a where "a \<in> set (shard_frames (shards bp ! i))" "refCount (frames bp a) = 0"
    "evictPage i (upd_shard i (\<lambda>s. s\<lparr>pageLock := {pid}\<rparr>) bp) =
      Some (a, \<lparr>storageManager = storageManager bp,
        shards = (shards bp)[i := (drop_frame a (pageId (frames bp a)) (shards bp ! i))
           \<lparr>pageLock := {pageId (frames bp a), pid}, numBaking := 1\<rparr>],
        frames = (frames bp)(a := (frames bp a)\<lparr>refCount := 1, cached := False\<rparr>), nextFrame = nextFrame bp\<rparr>)"
proof -
  let ?sh = "shards bp ! i" and ?bp1 = "upd_shard i (\<lambda>s. s\<lparr>pageLock := {pid}\<rparr>) bp"
  have i': "i < length (shards bp)" using pool_idx [OF ok] i by simp
  note S = pool_shard [OF ok i']
  note D = shard_okD [OF S]
  obtain a where a: "findVictim bp (?sh\<lparr>pageLock := {pid}\<rparr>) = Some a" "a \<in> set (shard_frames ?sh)"
      "refCount (frames bp a) = 0"
    by (rule findVictim_ok [OF S miss free])
  have "evictable ?bp1 = evictable bp" by (auto simp: evictable_def upd_shard_def fun_eq_iff)
  then have fv: "findVictim ?bp1 (?sh\<lparr>pageLock := {pid}\<rparr>) = Some a" using a(1) by (simp add: findVictim_alt)
  have old: "inOld (frames bp a) = (a \<in> set (oldList ?sh))" using D(6) [OF a(2)] by (simp add: listed_ok_def)
  have r: "a \<in> set (oldList ?sh) \<Longrightarrow> remove1 a (youngList ?sh) = youngList ?sh"
      "a \<notin> set (oldList ?sh) \<Longrightarrow> remove1 a (oldList ?sh) = oldList ?sh"
    using D(5) by (auto simp: shard_frames_def intro!: remove1_idem)
  have "\<not> length (oldList ?sh) + length (youngList ?sh) < bs_numPages ?sh" using full by (simp add: shard_frames_def)
  then show thesis
    using that [OF a(2,3)] fv i' D(2) old r
    by (cases bp; cases ?sh) (auto simp: evictPage_def upd_shard_def upd_frame_def Let_def drop_frame_def)
qed

text \<open>The pool without the victim, its page written back.\<close>

lemma flush_victim_ok:
  assumes ok: "pool_ok bp" and i: "i < length (shards bp)" and a: "a \<in> set (shard_frames (shards bp ! i))"
    and pid: "pages (shards bp ! i) pid = None" and w: "isDirty (frames bp a) \<Longrightarrow> waits L l (frame_LSN (frames bp a))"
  defines "v \<equiv> frames bp a"
  obtains l' d' f where "flush_victim L i a (l, \<lparr>storageManager = storageManager bp,
        shards = (shards bp)[i := (drop_frame a (pageId v) (shards bp ! i))\<lparr>pageLock := {pageId v, pid}, numBaking := 1\<rparr>],
        frames = (frames bp)(a := v\<lparr>refCount := 1, cached := False\<rparr>), nextFrame = nextFrame bp\<rparr>) =
      (Inr (), l', \<lparr>storageManager = d', shards = (shards bp)[i := baking 1 pid (drop_frame a (pageId v) (shards bp ! i))],
        frames = (frames bp)(a := f), nextFrame = nextFrame bp\<rparr>)"
    "f = v\<lparr>refCount := 1, cached := False, isDirty := False\<rparr>" "l' = (if isDirty v then snd (WaitUntilFlushed L (frame_LSN v) l) else l)"
    "disk_ok d'" "on_disk d' = on_disk (storageManager bp)"
    "\<And>q. on_disk (storageManager bp) q \<Longrightarrow>
       disk_page d' q = (if q = pageId v then Bytes v else disk_page (storageManager bp) q)"
proof -
  let ?d = "storageManager bp" and ?s = "drop_frame a (pageId v) (shards bp ! i)"
  note A = shard_okD(6) [OF pool_shard [OF ok i] a]
  have v: "frame_ok ?d v" "pages (shards bp ! i) (pageId v) = Some a" using A by (simp_all add: listed_ok_def v_def)
  then have ne: "pageId v \<noteq> pid" "Oid (pageId v) \<noteq> InvalidObjectID" "length (Bytes v) = PageSize"
    using pid by (auto simp: frame_ok_def on_disk_def)
  have unlock: "(?s\<lparr>pageLock := {pageId v, pid}, numBaking := 1\<rparr>)\<lparr>pageLock := {pageId v, pid} - {pageId v}\<rparr> = baking 1 pid ?s"
    using ne(1) by (simp add: baking_def insert_Diff_if)
  show thesis
  proof (cases "isDirty v")
    case True
    obtain d1 where d1: "GetDBFile (Oid (pageId v)) ?d = (Inr (), d1)" "disk_ok d1" "opened d1 (Oid (pageId v))"
        "file_pages d1 = file_pages ?d"
      using ok open_file [of ?d] by (auto simp: pool_ok_def)
    have e: "on_disk d1 = on_disk ?d" "disk_page d1 = disk_page ?d" using on_disk_cong [OF d1(4)] by simp_all
    obtain d' where d': "WritePage (Oid (pageId v)) (sint (PageNum (pageId v))) (Bytes v) d1 = (Inr (), d')"
        "disk_ok d'" "on_disk d' = on_disk d1"
        "\<And>q. on_disk d1 q \<Longrightarrow> disk_page d' q = (if q = pageId v then Bytes v else disk_page d1 q)"
      using v(1) ne(3) by (auto simp: frame_ok_def e intro: write_disk_page [OF d1(2,3), of "Bytes v"])
    show ?thesis
      by (rule that [of "snd (WaitUntilFlushed L (frame_LSN v) l)" d'])
        (use True d1(1) d' ne i unlock e w [unfolded waits_def, folded v_def, OF True] in
          \<open>auto simp: flush_victim_def upd_frame_def upd_shard_def
          unlock_page_def set_disk_def Let_def frame_LSN_def split: prod.split\<close>)
  next
    case False
    show ?thesis
      by (rule that [of l ?d])
        (use False ne i unlock ok v in \<open>auto simp: flush_victim_def upd_frame_def upd_shard_def
          unlock_page_def Let_def pool_ok_def frame_ok_def\<close>)
  qed
qed

lemma pool_without_victim:
  assumes ok: "pool_ok bp" and i: "i < length (shards bp)" and a: "a \<in> set (shard_frames (shards bp ! i))"
    and d: "disk_ok d'" "on_disk d' = on_disk (storageManager bp)"
    "\<And>q. on_disk (storageManager bp) q \<Longrightarrow>
       disk_page d' q = (if q = pageId (frames bp a) then Bytes (frames bp a) else disk_page (storageManager bp) q)"
  shows "pool_ok \<lparr>storageManager = d', shards = (shards bp)[i := drop_frame a (pageId (frames bp a)) (shards bp ! i)],
      frames = frames bp, nextFrame = nextFrame bp\<rparr>"
proof -
  let ?s = "drop_frame a (pageId (frames bp a)) (shards bp ! i)"
  note S = pool_shard [OF ok i]
  note dr = drop_frame_ok [OF S a]
  have f: "frame_ok d' (frames bp b)" if "frame_ok (storageManager bp) (frames bp b)" "pageId (frames bp b) \<noteq> pageId (frames bp a)" for b
    using that d(2,3) by (auto simp: frame_ok_def)
  show ?thesis
  proof (rule pool_ok_update [OF ok i])
    show "shard_ok (frames bp) d' (place (length (shards bp))) (nextFrame bp) {} 0 i ?s"
    proof (rule shard_ok_cong [OF dr(1)])
      fix b
      assume "b \<in> set (shard_frames ?s)"
      then have b: "b \<in> set (shard_frames (shards bp ! i))" "b \<noteq> a" using dr(2) by auto
      then show "frame_ok d' (frames bp b)"
        using f [of b] shard_okD(6) [OF S b(1)] same_page_same_frame [OF S b(1) a] by (auto simp: listed_ok_def)
    qed simp_all
    show "frames bp b = frames bp b \<and> frame_ok d' (frames bp b)"
      if "j < length (shards bp)" "j \<noteq> i" "b \<in> set (shard_frames (shards bp ! j))" for j b
      using f [of b] shard_okD(6) [OF pool_shard [OF ok that(1)] that(3)] frames_apart(2) [OF ok that(1) i that(2,3) a]
      by (simp add: listed_ok_def)
  qed (use d(1) in simp_all)
qed

text \<open>
  What a successful call leaves: the page is cached in frame \<open>a\<close>, no page's contents have
  changed, and every other frame that is still listed is as it was; a pinned frame stays.
\<close>

definition got :: "BufferPool \<Rightarrow> PageID \<Rightarrow> nat \<Rightarrow> BufferPool \<Rightarrow> bool" where
  "got bp pid a bp' \<longleftrightarrow> pool_ok bp' \<and> locate bp' pid = Some a \<and>
     refCount (frames bp' a) = (case locate bp pid of None \<Rightarrow> 1 | Some _ \<Rightarrow> refCount (frames bp a) + 1) \<and>
     pool_view bp' = pool_view bp \<and> length (shards bp') = length (shards bp) \<and>
     on_disk (storageManager bp') = on_disk (storageManager bp) \<and>
     (\<forall>j < length (shards bp). \<forall>b \<in> set (shard_frames (shards bp' ! j)). b \<noteq> a \<longrightarrow>
        b \<in> set (shard_frames (shards bp ! j)) \<and> frames bp' b = frames bp b) \<and>
     (\<forall>q b. locate bp q = Some b \<longrightarrow> refCount (frames bp b) \<noteq> 0 \<longrightarrow> locate bp' q = Some b)"

text \<open>Either nothing was written to disk, or one page was, after waiting for its log record.\<close>

definition synced :: "'l LogManager \<Rightarrow> 'l \<Rightarrow> DiskDBFileManager \<Rightarrow> 'l \<Rightarrow> DiskDBFileManager \<Rightarrow> bool" where
  "synced L l d l' d' \<longleftrightarrow>
     l' = l \<and> (\<forall>q. on_disk d q \<longrightarrow> disk_page d' q = disk_page d q) \<or>
     (\<exists>v. waits L l (frame_LSN v) \<and> l' = snd (WaitUntilFlushed L (frame_LSN v) l) \<and>
        (\<forall>q. on_disk d q \<longrightarrow> disk_page d' q = (if q = pageId v then Bytes v else disk_page d q)))"

lemma got_loaded:
  assumes "pool_ok bp'" "bp' = \<lparr>storageManager = d', shards = (shards bp)[shardIdx bp pid := push_frame a pid sh'],
      frames = (frames bp)(a := f), nextFrame = nf\<rparr>"
    "pages sh' = (if old then (pages (shards bp ! shardIdx bp pid))(pageId (frames bp a) := None) else pages (shards bp ! shardIdx bp pid))"
    "set (shard_frames sh') = set (shard_frames (shards bp ! shardIdx bp pid)) - {a}"
    "pool_ok bp" "locate bp pid = None" "on_disk (storageManager bp) pid"
    "on_disk d' = on_disk (storageManager bp)" "Bytes f = disk_page (storageManager bp) pid" "refCount f = 1"
    "\<And>q. on_disk (storageManager bp) q \<Longrightarrow> disk_page d' q =
       (if old \<and> q = pageId (frames bp a) then Bytes (frames bp a) else disk_page (storageManager bp) q)"
    "old \<Longrightarrow> refCount (frames bp a) = 0 \<and> locate bp (pageId (frames bp a)) = Some a \<and> shardIdx bp (pageId (frames bp a)) = shardIdx bp pid"
    "\<not> old \<Longrightarrow> (\<forall>j < length (shards bp). a \<notin> set (shard_frames (shards bp ! j)))"
  shows "got bp pid a bp'"
proof -
  let ?i = "shardIdx bp pid"
  have i: "?i < length (shards bp)" by (rule pool_idx [OF assms(5)])
  have idx: "shardIdx bp' q = shardIdx bp q" for q by (simp add: shardIdx_def assms(2))
  have loc: "locate bp' q = (if q = pid then Some a
      else if old \<and> q = pageId (frames bp a) then None else locate bp q)" for q
  proof -
    have sh: "shards bp' = (shards bp)[?i := push_frame a pid sh']" by (simp add: assms(2))
    have pg: "pages (push_frame a pid sh') = (pages sh')(pid \<mapsto> a)" by (simp add: push_frame_def)
    show ?thesis
      using i assms(12) unfolding locate_def idx sh
      by (cases "shardIdx bp q = ?i") (auto simp: pg assms(3))
  qed
  have other: "b \<noteq> a" if "locate bp q = Some b" "q \<noteq> pageId (frames bp a) \<or> \<not> old" for q b
  proof -
    have "b \<in> set (shard_frames (shards bp ! shardIdx bp q))" "pageId (frames bp b) = q"
      using shard_okD(7) [OF pool_shard [OF assms(5) pool_idx [OF assms(5)]]] that(1) by (auto simp: locate_def)
    then show ?thesis using that(2) assms(13) pool_idx [OF assms(5), of q] by blast
  qed
  have view: "pool_view bp' q = pool_view bp q" for q
  proof (cases "on_disk (storageManager bp) q")
    case True
    have ne: "old \<Longrightarrow> pageId (frames bp a) \<noteq> pid" using assms(6,12) by auto
    show ?thesis
      using True loc [of q] other [of q] assms(6,8,9,11,12) ne
      by (auto simp: pool_view_def assms(2) split: option.splits)
  next
    case False
    then show ?thesis using assms(8) by (simp add: pool_view_def assms(2))
  qed
  have pin: "locate bp' q = Some b" if "locate bp q = Some b" "refCount (frames bp b) \<noteq> 0" for q b
    using that loc [of q] assms(6,12) by auto
  have rest: "b \<in> set (shard_frames (shards bp ! j)) \<and> frames bp' b = frames bp b"
    if "j < length (shards bp)" "b \<in> set (shard_frames (shards bp' ! j))" "b \<noteq> a" for j b
    using that i assms(4) by (auto simp: assms(2) nth_list_update push_frame_def shard_frames_def split: if_splits)
  show ?thesis
    unfolding got_def using assms(1,6,8,10) loc [of pid] view pin rest by (auto simp: assms(2))
qed

lemma got_hit:
  assumes ok: "pool_ok bp" and hit: "locate bp pid = Some a"
  shows "got bp pid a \<lparr>storageManager = storageManager bp,
      shards = (shards bp)[shardIdx bp pid := front_of a (shards bp ! shardIdx bp pid)],
      frames = (frames bp)(a := (frames bp a)\<lparr>refCount := refCount (frames bp a) + 1, inOld := False\<rparr>),
      nextFrame = nextFrame bp\<rparr>"
    (is "got bp pid a ?bp")
proof -
  let ?i = "shardIdx bp pid" and ?sh = "shards bp ! shardIdx bp pid"
  have i: "?i < length (shards bp)" by (rule pool_idx [OF ok])
  note S = pool_shard [OF ok i]
  have a: "a \<in> set (shard_frames ?sh)" using shard_okD(7) [OF S, of pid a] hit by (simp add: locate_def)
  have "pool_ok ?bp"
  proof (rule pool_ok_update [OF ok i front_of_ok [OF S a]])
    show "((frames bp)(a := (frames bp a)\<lparr>refCount := refCount (frames bp a) + 1, inOld := False\<rparr>)) b = frames bp b \<and>
        frame_ok (storageManager bp) (frames bp b)"
      if "j < length (shards bp)" "j \<noteq> ?i" "b \<in> set (shard_frames (shards bp ! j))" for j b
      using shard_okD(6) [OF pool_shard [OF ok that(1)] that(3)] frames_apart(1) [OF ok that(1) i that(2,3) a]
      by (simp add: listed_ok_def)
  qed (use ok in \<open>simp_all add: pool_ok_def\<close>)
  moreover have idx: "shardIdx ?bp q = shardIdx bp q" for q by (simp add: shardIdx_def)
  moreover have loc: "locate ?bp q = locate bp q" for q
    using i unfolding locate_def idx
    by (cases "shardIdx bp q = ?i") (simp_all, simp add: front_of_def)
  moreover have "pool_view ?bp q = pool_view bp q" for q
    unfolding pool_view_def loc by (auto split: option.splits)
  moreover have "set (shard_frames (front_of a ?sh)) = set (shard_frames ?sh)"
    using shard_okD(5) [OF S] a by (auto simp: shard_frames_def front_of_def)
  ultimately show ?thesis
    using hit i unfolding got_def by (auto simp: nth_list_update fun_eq_iff split: if_splits)
qed

lemma GetPage_ok:
  assumes ok: "pool_ok bp" and pid: "on_disk (storageManager bp) pid" and av: "available bp pid" and w: "lsns_ok L l bp"
  shows "\<exists>a l' bp'. GetPage L pid (l, bp) = (Inr a, l', bp') \<and> got bp pid a bp' \<and>
    synced L l (storageManager bp) l' (storageManager bp')"
proof -
  let ?i = "shardIdx bp pid" and ?sh = "shards bp ! shardIdx bp pid"
  have i: "?i < length (shards bp)" by (rule pool_idx [OF ok])
  note S = pool_shard [OF ok i]
  show ?thesis
  proof (cases "locate bp pid")
    case (Some a)
    then show ?thesis using GetPage_hit [OF ok Some, of L l] got_hit [OF ok Some] by (auto simp: synced_def)
  next
    case None
    then have miss: "pages ?sh pid = None" by (simp add: locate_def)
    note eq = GetPage_miss_eq [OF None shard_okD(1) [OF S] ok, of L l, unfolded Let_def]
    show ?thesis
    proof (cases "length (shard_frames ?sh) < bs_numPages ?sh")
      case True
      obtain f where f: "evictPage ?i (upd_shard ?i (\<lambda>s. s\<lparr>pageLock := {pid}\<rparr>) bp) =
          Some (nextFrame bp, \<lparr>storageManager = storageManager bp, shards = (shards bp)[?i := baking 1 pid ?sh],
            frames = (frames bp)(nextFrame bp := f), nextFrame = nextFrame bp + 1\<rparr>)"
          "length (Bytes f) = PageSize" "refCount f = 1" "\<not> cached f" "Oid (pageId f) = InvalidObjectID"
        using evict_fresh [OF ok refl True] by blast
      have fresh: "nextFrame bp \<notin> set (shard_frames (shards bp ! j))" if "j < length (shards bp)" for j
        using shard_okD(6) [OF pool_shard [OF ok that]] by (auto simp: listed_ok_def)
      obtain d' f' bp' where ld: "load_page ?i (nextFrame bp) pid (l, \<lparr>storageManager = storageManager bp,
          shards = (shards bp)[?i := baking 1 pid ?sh], frames = (frames bp)(nextFrame bp := f),
          nextFrame = nextFrame bp + 1\<rparr>) = (Inr (nextFrame bp), l, bp')"
        "unlock_page ?i pid bp' = \<lparr>storageManager = d', shards = (shards bp)[?i := push_frame (nextFrame bp) pid ?sh],
           frames = (frames bp)(nextFrame bp := f'), nextFrame = nextFrame bp + 1\<rparr>"
        "disk_ok d'" "file_pages d' = file_pages (storageManager bp)"
        "f' = f\<lparr>pageId := pid, Bytes := disk_page (storageManager bp) pid, inOld := True, isDirty := False\<rparr>"
        "pool_ok \<lparr>storageManager = d', shards = (shards bp)[?i := push_frame (nextFrame bp) pid ?sh],
           frames = (frames bp)(nextFrame bp := f'), nextFrame = nextFrame bp + 1\<rparr>"
        by (rule load_page_ok [OF ok pid refl True miss fresh, of "nextFrame bp + 1" f]) (use f in auto)
      have "got bp pid (nextFrame bp) (unlock_page ?i pid bp')"
        by (rule got_loaded [where old = False and sh' = ?sh, OF _ ld(2)])
          (use ld fresh i ok None pid f(3) on_disk_cong [OF ld(4)] in auto)
      moreover have "synced L l (storageManager bp) l (storageManager (unlock_page ?i pid bp'))"
        using on_disk_cong [OF ld(4)] by (simp add: ld(2) synced_def)
      ultimately show ?thesis
        using eq f(1,5) ld(1) by (simp add: flush_victim_def Let_def)
    next
      case False
      then have free: "\<exists>a \<in> set (shard_frames ?sh). refCount (frames bp a) = 0"
        using av None by (simp add: available_def Let_def)
      obtain a where a: "a \<in> set (shard_frames ?sh)" "refCount (frames bp a) = 0"
          "evictPage ?i (upd_shard ?i (\<lambda>s. s\<lparr>pageLock := {pid}\<rparr>) bp) =
            Some (a, \<lparr>storageManager = storageManager bp,
              shards = (shards bp)[?i := (drop_frame a (pageId (frames bp a)) ?sh)
                 \<lparr>pageLock := {pageId (frames bp a), pid}, numBaking := 1\<rparr>],
              frames = (frames bp)(a := (frames bp a)\<lparr>refCount := 1, cached := False\<rparr>), nextFrame = nextFrame bp\<rparr>)"
        by (rule evict_victim [OF ok refl False miss free])
      let ?v = "frames bp a" and ?s = "drop_frame a (pageId (frames bp a)) ?sh"
      have wv: "waits L l (frame_LSN ?v)"
      proof -
        have L: "listed_ok (frames bp) (storageManager bp) (place (length (shards bp))) (nextFrame bp) ?i ?sh a"
          by (rule shard_okD(6) [OF S a(1)])
        then have "locate bp (pageId ?v) = Some a" by (simp add: locate_def listed_ok_def shardIdx_place)
        then have "pool_view bp (pageId ?v) = Some (Bytes ?v)"
          using L by (simp add: pool_view_def listed_ok_def frame_ok_def)
        then show ?thesis using w by (simp add: lsns_ok_def frame_LSN_page)
      qed
      obtain l' d1 f where fl: "flush_victim L ?i a (l, \<lparr>storageManager = storageManager bp,
            shards = (shards bp)[?i := ?s\<lparr>pageLock := {pageId ?v, pid}, numBaking := 1\<rparr>],
            frames = (frames bp)(a := ?v\<lparr>refCount := 1, cached := False\<rparr>), nextFrame = nextFrame bp\<rparr>) =
          (Inr (), l', \<lparr>storageManager = d1, shards = (shards bp)[?i := baking 1 pid ?s],
            frames = (frames bp)(a := f), nextFrame = nextFrame bp\<rparr>)"
        "f = ?v\<lparr>refCount := 1, cached := False, isDirty := False\<rparr>"
        "l' = (if isDirty ?v then snd (WaitUntilFlushed L (frame_LSN ?v) l) else l)"
        "disk_ok d1" "on_disk d1 = on_disk (storageManager bp)"
        "\<And>q. on_disk (storageManager bp) q \<Longrightarrow>
           disk_page d1 q = (if q = pageId ?v then Bytes ?v else disk_page (storageManager bp) q)"
        by (rule flush_victim_ok [where L = L and l = l, OF ok i a(1) miss wv]) (rule that)
      let ?bp1 = "\<lparr>storageManager = d1, shards = (shards bp)[?i := ?s], frames = frames bp, nextFrame = nextFrame bp\<rparr>"
      note ok1 = pool_without_victim [OF ok i a(1) fl(4-6)]
      note dr = drop_frame_ok [OF S a(1)]
      have A: "listed_ok (frames bp) (storageManager bp) (place (length (shards bp))) (nextFrame bp) ?i ?sh a"
        by (rule shard_okD(6) [OF S a(1)])
      have out: "a \<notin> set (shard_frames (shards ?bp1 ! j))" if "j < length (shards ?bp1)" for j
        using that dr(2) frames_apart(1) [OF ok i _ _ a(1), of j a] i by (cases "j = ?i") auto
      have idx: "shardIdx ?bp1 pid = ?i" by (simp add: shardIdx_def)
      have nv: "pageId ?v \<noteq> pid" using A miss by (auto simp: listed_ok_def)
      obtain d' f' bp' where ld: "load_page ?i a pid (l', \<lparr>storageManager = storageManager ?bp1,
          shards = (shards ?bp1)[?i := baking 1 pid (shards ?bp1 ! ?i)], frames = (frames ?bp1)(a := f),
          nextFrame = nextFrame bp\<rparr>) = (Inr a, l', bp')"
        "unlock_page ?i pid bp' = \<lparr>storageManager = d', shards = (shards ?bp1)[?i := push_frame a pid (shards ?bp1 ! ?i)],
           frames = (frames ?bp1)(a := f'), nextFrame = nextFrame bp\<rparr>"
        "disk_ok d'" "file_pages d' = file_pages (storageManager ?bp1)"
        "f' = f\<lparr>pageId := pid, Bytes := disk_page (storageManager ?bp1) pid, inOld := True, isDirty := False\<rparr>"
        "pool_ok \<lparr>storageManager = d', shards = (shards ?bp1)[?i := push_frame a pid (shards ?bp1 ! ?i)],
           frames = (frames ?bp1)(a := f'), nextFrame = nextFrame bp\<rparr>"
        by (rule load_page_ok [OF ok1, of pid ?i a "nextFrame bp" f])
          (use pid fl i dr(3) miss out A idx in \<open>auto simp: listed_ok_def frame_ok_def drop_frame_def\<close>)
      have "got bp pid a (unlock_page ?i pid bp')"
        by (rule got_loaded [where old = True and sh' = ?s and f = f' and d' = d' and nf = "nextFrame bp"])
          (use ld fl dr(2) i ok None pid a(2) A nv on_disk_cong [OF ld(4)] in
            \<open>auto simp: drop_frame_def locate_def listed_ok_def shardIdx_place\<close>)
      moreover have "synced L l (storageManager bp) l' (storageManager (unlock_page ?i pid bp'))"
        using on_disk_cong [OF ld(4)] fl(3,6) A wv by (auto simp: ld(2) synced_def listed_ok_def frame_ok_def)
      ultimately show ?thesis
        using eq a(3) fl(1) ld(1) i by auto
    qed
  qed
qed

section \<open>Visiting a page\<close>

text \<open>What a caller may do to a pinned frame before it unpins it.\<close>

definition edit_ok :: "PageFrame \<Rightarrow> PageFrame \<Rightarrow> bool \<Rightarrow> bool" where
  "edit_ok f g dirty \<longleftrightarrow> pageId g = pageId f \<and> inOld g = inOld f \<and> refCount g = refCount f \<and> isDirty g = isDirty f \<and>
     length (Bytes g) = PageSize \<and> (cached g \<longrightarrow> wf_heap_page g) \<and> (dirty \<or> Bytes g = Bytes f)"

definition put_frame :: "nat \<Rightarrow> PageFrame \<Rightarrow> BufferPool \<Rightarrow> BufferPool" where
  "put_frame a g bp = upd_frame a (\<lambda>_. g) bp"

lemma pool_ok_edit:
  assumes ok: "pool_ok bp" and a: "locate bp pid = Some a"
    and g: "frame_ok (storageManager bp) g" "pageId g = pageId (frames bp a)" "inOld g = inOld (frames bp a)"
  shows "pool_ok (put_frame a g bp)" "locate (put_frame a g bp) = locate bp"
proof -
  let ?i = "shardIdx bp pid"
  have i: "?i < length (shards bp)" by (rule pool_idx [OF ok])
  note S = pool_shard [OF ok i]
  have a': "a \<in> set (shard_frames (shards bp ! ?i))" using shard_okD(7) [OF S, of pid a] a by (simp add: locate_def)
  have e: "put_frame a g bp = \<lparr>storageManager = storageManager bp, shards = (shards bp)[?i := shards bp ! ?i],
      frames = (frames bp)(a := g), nextFrame = nextFrame bp\<rparr>"
    by (simp add: put_frame_def upd_frame_def)
  have "listed_ok ((frames bp)(a := g)) (storageManager bp) (place (length (shards bp))) (nextFrame bp) ?i (shards bp ! ?i) b"
    if "b \<in> set (shard_frames (shards bp ! ?i))" for b
    using shard_okD(6) [OF S that] g by (cases "b = a") (simp_all add: listed_ok_def)
  then have "shard_ok ((frames bp)(a := g)) (storageManager bp) (place (length (shards bp))) (nextFrame bp) {} 0 ?i (shards bp ! ?i)"
    using S g(2) by (auto simp: shard_ok_def)
  then show "pool_ok (put_frame a g bp)"
    unfolding e
  proof (rule pool_ok_update [OF ok i])
    show "((frames bp)(a := g)) b = frames bp b \<and> frame_ok (storageManager bp) (frames bp b)"
      if "j < length (shards bp)" "j \<noteq> ?i" "b \<in> set (shard_frames (shards bp ! j))" for j b
      using shard_okD(6) [OF pool_shard [OF ok that(1)] that(3)] frames_apart(1) [OF ok that(1) i that(2,3) a']
      by (simp add: listed_ok_def)
  qed (use ok in \<open>simp_all add: pool_ok_def\<close>)
  show "locate (put_frame a g bp) = locate bp"
    by (simp add: locate_def fun_eq_iff put_frame_def upd_frame_def shardIdx_def)
qed

lemma located:
  assumes "pool_ok bp" "locate bp pid = Some a"
  shows "pageId (frames bp a) = pid" "frame_ok (storageManager bp) (frames bp a)"
    "a \<in> set (shard_frames (shards bp ! shardIdx bp pid))"
proof -
  note S = pool_shard [OF assms(1) pool_idx [OF assms(1), of pid]]
  show p: "pageId (frames bp a) = pid" "a \<in> set (shard_frames (shards bp ! shardIdx bp pid))"
    using shard_okD(7) [OF pool_shard [OF assms(1) pool_idx [OF assms(1), of pid]], of pid a] assms(2)
    by (auto simp: locate_def)
  show "frame_ok (storageManager bp) (frames bp a)" using shard_okD(6) [OF S p(2)] by (simp add: listed_ok_def)
qed

lemma locate_inj:
  assumes "pool_ok bp" "locate bp p = Some a" "locate bp q = Some a"
  shows "p = q"
  using located(1) [OF assms(1,2)] located(1) [OF assms(1,3)] by simp

lemma UnpinPage_ok:
  assumes ok: "pool_ok bp" and a: "locate bp pid = Some a" and pin: "0 < refCount (frames bp a)"
    and g: "edit_ok (frames bp a) g dirty"
  obtains bp' where "UnpinPage a dirty (put_frame a g bp) = Inr bp'" "pool_ok bp'" "locate bp' = locate bp"
    "pool_view bp' = (pool_view bp)(pid \<mapsto> Bytes g)" "storageManager bp' = storageManager bp" "shards bp' = shards bp"
    "frames bp' = (frames bp)(a := g\<lparr>isDirty := (isDirty g \<or> dirty), refCount := refCount g - 1\<rparr>)"
proof -
  let ?g = "g\<lparr>isDirty := (isDirty g \<or> dirty), refCount := refCount g - 1\<rparr>"
  note f = located [OF ok a]
  have u: "UnpinPage a dirty (put_frame a g bp) = Inr (put_frame a ?g bp)"
    using pin g by (simp add: UnpinPage_def put_frame_def upd_frame_def edit_ok_def)
  have "frame_ok (storageManager bp) ?g"
    using f pin g by (auto simp: frame_ok_def edit_ok_def)
  then have p: "pool_ok (put_frame a ?g bp)" "locate (put_frame a ?g bp) = locate bp"
    using pool_ok_edit [OF ok a, of ?g] g by (simp_all add: edit_ok_def)
  have "pool_view (put_frame a ?g bp) q = ((pool_view bp)(pid \<mapsto> Bytes g)) q" for q
    using f a locate_inj [OF ok a, of q]
    unfolding pool_view_def p(2)
    by (cases "locate bp q") (auto simp: put_frame_def upd_frame_def frame_ok_def)
  then have "pool_view (put_frame a ?g bp) = (pool_view bp)(pid \<mapsto> Bytes g)" by blast
  then show thesis using that [OF u p] by (simp add: put_frame_def upd_frame_def)
qed

lemma quiet_available:
  assumes "pool_ok bp" "quiet bp"
  shows "available bp pid"
proof -
  let ?sh = "shards bp ! shardIdx bp pid"
  have i: "shardIdx bp pid < length (shards bp)" by (rule pool_idx [OF assms(1)])
  have "0 < bs_numPages ?sh" using shard_okD(3) [OF pool_shard [OF assms(1) i]] .
  moreover have "\<forall>a \<in> set (shard_frames ?sh). refCount (frames bp a) = 0"
    using assms(2) nth_mem [OF i] unfolding quiet_def by blast
  ultimately show ?thesis
    by (cases "shard_frames ?sh") (auto simp: available_def Let_def)
qed

lemma visit_page:
  assumes ok: "pool_ok bp" "quiet bp" and v: "pool_view bp pid = Some b" and w: "lsns_ok L l bp"
  shows "\<exists>a l' bp'. GetPage L pid (l, bp) = (Inr a, l', bp') \<and> pageId (frames bp' a) = pid \<and> Bytes (frames bp' a) = b \<and>
    synced L l (storageManager bp) l' (storageManager bp') \<and> length b = PageSize \<and>
    (cached (frames bp' a) \<longrightarrow> wf_heap_page (frames bp' a)) \<and> on_disk (storageManager bp') = on_disk (storageManager bp) \<and>
    (\<forall>g dirty. edit_ok (frames bp' a) g dirty \<longrightarrow> (\<exists>bp''. UnpinPage a dirty (put_frame a g bp') = Inr bp'' \<and>
       pool_ok bp'' \<and> quiet bp'' \<and> storageManager bp'' = storageManager bp' \<and>
       pool_view bp'' = (pool_view bp)(pid \<mapsto> Bytes g)))"
proof -
  have pid: "on_disk (storageManager bp) pid" using v by (auto simp: pool_view_def split: if_splits)
  obtain a l' bp' where g: "GetPage L pid (l, bp) = (Inr a, l', bp')" "got bp pid a bp'"
      "synced L l (storageManager bp) l' (storageManager bp')"
    using GetPage_ok [OF ok(1) pid quiet_available [OF ok] w] by blast
  have ok': "pool_ok bp'" "locate bp' pid = Some a" "pool_view bp' = pool_view bp"
      "on_disk (storageManager bp') = on_disk (storageManager bp)" "length (shards bp') = length (shards bp)"
    using g(2) by (simp_all add: got_def)
  note f = located [OF ok'(1,2)]
  have rc: "refCount (frames bp' a) = 1"
  proof (cases "locate bp pid")
    case (Some c)
    then have "c = a" using v g(2) located(1) [OF ok(1) Some] \<comment> \<open>a hit keeps its frame\<close>
      GetPage_hit [OF ok(1) Some, of L l] g(1) by simp
    then have "refCount (frames bp a) = 0"
      using located(3) [OF ok(1) Some] ok(2) pool_idx [OF ok(1), of pid] by (auto simp: quiet_def)
    then show ?thesis using g(2) Some by (simp add: got_def)
  qed (use g(2) in \<open>simp add: got_def\<close>)
  have "Bytes (frames bp' a) = b"
  proof -
    have "pool_view bp' pid = Some (Bytes (frames bp' a))"
      using f(2) ok'(2) pid ok'(4) by (simp add: pool_view_def)
    then show ?thesis using v ok'(3) by simp
  qed
  moreover have "\<exists>bp''. UnpinPage a dirty (put_frame a h bp') = Inr bp'' \<and>
       pool_ok bp'' \<and> quiet bp'' \<and> storageManager bp'' = storageManager bp' \<and>
       pool_view bp'' = (pool_view bp)(pid \<mapsto> Bytes h)"
    if h: "edit_ok (frames bp' a) h dirty" for h dirty
  proof -
    obtain bp'' where u: "UnpinPage a dirty (put_frame a h bp') = Inr bp''" "pool_ok bp''"
        "pool_view bp'' = (pool_view bp')(pid \<mapsto> Bytes h)" "shards bp'' = shards bp'"
        "storageManager bp'' = storageManager bp'"
        "frames bp'' = (frames bp')(a := h\<lparr>isDirty := (isDirty h \<or> dirty), refCount := refCount h - 1\<rparr>)"
      by (rule UnpinPage_ok [OF ok'(1,2) _ h]) (use rc in auto)
    have "refCount (frames bp'' c) = 0" if sh: "sh \<in> set (shards bp'')" "c \<in> set (shard_frames sh)" for sh c
    proof (cases "c = a")
      case True
      then show ?thesis using u(6) h rc by (simp add: edit_ok_def)
    next
      case False
      obtain j where j: "j < length (shards bp)" "sh = shards bp' ! j"
        using sh(1) u(4) ok'(5) by (metis in_set_conv_nth)
      then have "c \<in> set (shard_frames (shards bp ! j))" "frames bp' c = frames bp c"
        using g(2) sh(2) False by (auto simp: got_def)
      then show ?thesis using ok(2) j(1) u(6) False by (auto simp: quiet_def)
    qed
    then show ?thesis using u ok'(3) by (auto simp: quiet_def)
  qed
  ultimately show ?thesis using g(1,3) f ok'(4) by (auto simp: frame_ok_def)
qed

section \<open>Flushing\<close>

lemma flush_one:
  assumes ok: "pool_ok bp" and a: "locate bp pid = Some a"
  obtains d1 d' where "GetDBFile (Oid pid) (storageManager bp) = (Inr (), d1)"
    "WritePage (Oid pid) (sint (PageNum pid)) (Bytes (frames bp a)) d1 = (Inr (), d')"
    "on_disk d' = on_disk (storageManager bp)"
    "\<And>q. on_disk (storageManager bp) q \<Longrightarrow> disk_page d' q = (if q = pid then Bytes (frames bp a) else disk_page (storageManager bp) q)"
    "pool_ok (upd_frame a (\<lambda>f. f\<lparr>isDirty := False\<rparr>) (set_disk d' bp))"
proof -
  let ?d = "storageManager bp"
  note f = located [OF ok a]
  have fo: "on_disk ?d pid" "length (Bytes (frames bp a)) = PageSize" using f(1,2) by (auto simp: frame_ok_def)
  obtain d1 where d1: "GetDBFile (Oid pid) ?d = (Inr (), d1)" "disk_ok d1" "opened d1 (Oid pid)" "file_pages d1 = file_pages ?d"
    using ok open_file [of ?d] by (auto simp: pool_ok_def)
  have e: "on_disk d1 = on_disk ?d" "disk_page d1 = disk_page ?d" using on_disk_cong [OF d1(4)] by simp_all
  obtain d' where d': "WritePage (Oid pid) (sint (PageNum pid)) (Bytes (frames bp a)) d1 = (Inr (), d')"
      "disk_ok d'" "on_disk d' = on_disk d1"
      "\<And>q. on_disk d1 q \<Longrightarrow> disk_page d' q = (if q = pid then Bytes (frames bp a) else disk_page d1 q)"
    by (rule write_disk_page [OF d1(2,3), of "Bytes (frames bp a)"]) (use fo e in auto)
  have keep: "frame_ok d' (frames bp b)" if "frame_ok ?d (frames bp b)" "pageId (frames bp b) \<noteq> pid" for b
    using that d'(3,4) e by (auto simp: frame_ok_def)
  have i: "shardIdx bp pid < length (shards bp)" by (rule pool_idx [OF ok])
  let ?fr = "(frames bp)(a := (frames bp a)\<lparr>isDirty := False\<rparr>)"
  have S: "shard_ok ?fr d' (place (length (shards bp))) (nextFrame bp) {} 0 j (shards bp ! j)" if j: "j < length (shards bp)" for j
  proof -
    note S = pool_shard [OF ok j]
    have "listed_ok ?fr d' (place (length (shards bp))) (nextFrame bp) j (shards bp ! j) b"
      if b: "b \<in> set (shard_frames (shards bp ! j))" for b
    proof (cases "b = a")
      case True
      have "frame_ok d' ((frames bp a)\<lparr>isDirty := False\<rparr>)"
        using f fo d'(3,4) e by (simp add: frame_ok_def)
      then show ?thesis using shard_okD(6) [OF S b] True by (simp add: listed_ok_def)
    next
      case False
      have L: "listed_ok (frames bp) ?d (place (length (shards bp))) (nextFrame bp) j (shards bp ! j) b"
        by (rule shard_okD(6) [OF S b])
      have "pageId (frames bp b) \<noteq> pid"
      proof
        assume "pageId (frames bp b) = pid"
        then have "locate bp pid = Some b" using L by (simp add: locate_def listed_ok_def shardIdx_place)
        then show False using a False by simp
      qed
      then show ?thesis using L keep False by (simp add: listed_ok_def)
    qed
    then show ?thesis using S by (auto simp: shard_ok_def)
  qed
  have "pool_ok (upd_frame a (\<lambda>f. f\<lparr>isDirty := False\<rparr>) (set_disk d' bp))"
    using S d'(2) ok by (auto simp: pool_ok_def upd_frame_def set_disk_def)
  then show thesis using that d1(1) d'(1,3,4) e by auto
qed

lemma flush_loop_ok:
  assumes "pool_ok bp" "\<forall>a \<in> set as. locate bp (pageId (frames bp a)) = Some a"
  shows "\<exists>bp'. flush_loop as bp = (Inr (), bp') \<and> pool_ok bp' \<and> pool_view bp' = pool_view bp \<and> shards bp' = shards bp \<and>
    frames bp' = (\<lambda>a. if a \<in> set as then (frames bp a)\<lparr>isDirty := False\<rparr> else frames bp a) \<and>
    on_disk (storageManager bp') = on_disk (storageManager bp) \<and>
    (\<forall>q. on_disk (storageManager bp) q \<longrightarrow> disk_page (storageManager bp') q =
       (if \<exists>a \<in> set as. locate bp q = Some a then Bytes (frames bp (the (locate bp q))) else disk_page (storageManager bp) q))"
  using assms
proof (induction as arbitrary: bp)
  case Nil
  then show ?case by simp
next
  case (Cons a as)
  let ?pid = "pageId (frames bp a)"
  have a: "locate bp ?pid = Some a" using Cons.prems(2) by simp
  obtain d1 d' where d: "GetDBFile (Oid ?pid) (storageManager bp) = (Inr (), d1)"
      "WritePage (Oid ?pid) (sint (PageNum ?pid)) (Bytes (frames bp a)) d1 = (Inr (), d')"
      "on_disk d' = on_disk (storageManager bp)"
      "\<And>q. on_disk (storageManager bp) q \<Longrightarrow> disk_page d' q = (if q = ?pid then Bytes (frames bp a) else disk_page (storageManager bp) q)"
      "pool_ok (upd_frame a (\<lambda>f. f\<lparr>isDirty := False\<rparr>) (set_disk d' bp))"
    using flush_one [OF Cons.prems(1) a] by blast
  let ?bp = "upd_frame a (\<lambda>f. f\<lparr>isDirty := False\<rparr>) (set_disk d' bp)"
  have s: "flush_loop (a # as) bp = flush_loop as ?bp" using d(1,2) by simp
  have loc: "locate ?bp = locate bp"
    by (simp add: locate_def fun_eq_iff upd_frame_def set_disk_def shardIdx_def)
  have fr: "frames ?bp b = (if b = a then (frames bp a)\<lparr>isDirty := False\<rparr> else frames bp b)" for b
    by (simp add: upd_frame_def set_disk_def)
  have st: "storageManager ?bp = d'" "shards ?bp = shards bp" by (simp_all add: upd_frame_def set_disk_def)
  have "\<forall>b \<in> set as. locate ?bp (pageId (frames ?bp b)) = Some b"
    using Cons.prems(2) by (auto simp: loc fr)
  from Cons.IH [OF d(5) this] obtain bp' where b: "flush_loop as ?bp = (Inr (), bp')" "pool_ok bp'"
      "pool_view bp' = pool_view ?bp" "shards bp' = shards bp"
      "frames bp' = (\<lambda>b. if b \<in> set as then (frames ?bp b)\<lparr>isDirty := False\<rparr> else frames ?bp b)"
      "on_disk (storageManager bp') = on_disk d'"
      "\<And>q. on_disk d' q \<Longrightarrow> disk_page (storageManager bp') q =
         (if \<exists>a \<in> set as. locate ?bp q = Some a then Bytes (frames ?bp (the (locate ?bp q))) else disk_page d' q)"
    unfolding st by blast
  have "pool_view ?bp q = pool_view bp q" for q
    using a d(3,4) locate_inj [OF Cons.prems(1) a, of q]
    unfolding pool_view_def loc st by (cases "locate bp q") (auto simp: fr)
  moreover have "disk_page (storageManager bp') q = (if \<exists>c \<in> set (a # as). locate bp q = Some c
      then Bytes (frames bp (the (locate bp q))) else disk_page (storageManager bp) q)"
    if "on_disk (storageManager bp) q" for q
    using b(7) [of q] d(3) d(4) [OF that] that a locate_inj [OF Cons.prems(1) a, of q] unfolding loc
    by (cases "locate bp q") (auto simp: fr)
  moreover have "frames bp' = (\<lambda>b. if b \<in> set (a # as) then (frames bp b)\<lparr>isDirty := False\<rparr> else frames bp b)"
    using b(5) by (auto simp: fr fun_eq_iff)
  ultimately show ?case using s b(1-4,6) d(3) by auto
qed

lemma listed_located:
  assumes "pool_ok bp" "sh \<in> set (shards bp)" "a \<in> set (shard_frames sh)"
  shows "locate bp (pageId (frames bp a)) = Some a"
proof -
  obtain j where j: "j < length (shards bp)" "sh = shards bp ! j" using assms(2) by (metis in_set_conv_nth)
  then show ?thesis
    using shard_okD(6) [OF pool_shard [OF assms(1) j(1)], of a] assms(3)
    by (simp add: listed_ok_def locate_def shardIdx_place)
qed

lemma dirtyPages_listed:
  assumes "pool_ok bp" "a \<in> set (dirtyPages n bp)"
  shows "locate bp (pageId (frames bp a)) = Some a" "flushable n bp a"
proof -
  obtain sh where "sh \<in> set (shards bp)" "a \<in> set (shard_frames sh)" "flushable n bp a"
    using assms(2) by (auto simp: dirtyPages_def shard_frames_def)
  then show "locate bp (pageId (frames bp a)) = Some a" "flushable n bp a" using listed_located [OF assms(1)] by blast+
qed

lemma FlushAllPages_ok:
  assumes "pool_ok bp"
  shows "\<exists>bp'. FlushAllPages L (l, bp) = (Inr (), bp') \<and> pool_ok bp' \<and> pool_view bp' = pool_view bp \<and>
    on_disk (storageManager bp') = on_disk (storageManager bp) \<and>
    (\<forall>q. on_disk (storageManager bp) q \<longrightarrow>
       disk_page (storageManager bp') q = disk_page (storageManager bp) q \<or>
       pool_view bp q = Some (disk_page (storageManager bp') q) \<and>
         (\<exists>a. locate bp q = Some a \<and> flushable (FlushedUntil L l) bp a)) \<and>
    (\<forall>sh \<in> set (shards bp'). \<forall>a \<in> set (shard_frames sh). \<not> flushable (FlushedUntil L l) bp' a)"
proof -
  let ?as = "dirtyPages (FlushedUntil L l) bp"
  obtain bp' where b: "flush_loop ?as bp = (Inr (), bp')" "pool_ok bp'" "pool_view bp' = pool_view bp" "shards bp' = shards bp"
      "frames bp' = (\<lambda>a. if a \<in> set ?as then (frames bp a)\<lparr>isDirty := False\<rparr> else frames bp a)"
      "on_disk (storageManager bp') = on_disk (storageManager bp)"
      "\<And>q. on_disk (storageManager bp) q \<Longrightarrow> disk_page (storageManager bp') q =
         (if \<exists>a \<in> set ?as. locate bp q = Some a then Bytes (frames bp (the (locate bp q))) else disk_page (storageManager bp) q)"
    using flush_loop_ok [OF assms, of ?as] dirtyPages_listed(1) [OF assms] by blast
  have clean: "\<not> flushable (FlushedUntil L l) bp' a" if "sh \<in> set (shards bp')" "a \<in> set (shard_frames sh)" for sh a
    using that b(4,5) by (auto simp: flushable_def dirtyPages_def shard_frames_def frame_LSN_def)
  have "disk_page (storageManager bp') q = disk_page (storageManager bp) q \<or>
       pool_view bp q = Some (disk_page (storageManager bp') q) \<and>
         (\<exists>a. locate bp q = Some a \<and> flushable (FlushedUntil L l) bp a)"
    if q: "on_disk (storageManager bp) q" for q
    using b(7) [OF q] dirtyPages_listed(2) [OF assms] q by (auto simp: pool_view_def)
  then show ?thesis using b clean by (auto simp: FlushAllPages_def)
qed

lemma alloc_view:
  assumes ok: "pool_ok bp" "quiet bp" and o': "opened (storageManager bp) oid" "oid \<noteq> InvalidObjectID"
    and n: "length (file_pages (storageManager bp) oid) = n" "n + 1 < 2 ^ 31"
  obtains d' where "AllocatePage oid 1 (storageManager bp) = (Inr (int n), d')" "pool_ok (set_disk d' bp)" "quiet (set_disk d' bp)"
    "opened d' = opened (storageManager bp)" "length (file_pages d' oid) = n + 1"
    "pool_view (set_disk d' bp) = (pool_view bp)(PageID oid (of_nat n) \<mapsto> replicate PageSize 0)"
proof -
  let ?d = "storageManager bp" and ?pid = "PageID oid (of_nat n)"
  obtain d' where d: "AllocatePage oid (int 1) ?d = (Inr (int n), d')" "disk_ok d'" "opened d' = opened ?d"
      "file_pages d' = (file_pages ?d)(oid := file_pages ?d oid @ [replicate PageSize 0])"
    using dsm.alloc_law [OF _ o'(1), of 1] ok(1) n by (auto simp: pool_ok_def)
  have sn: "sint (of_nat n :: 32 word) = int n" by (rule sint_small) (use n(2) in simp)
  have on: "on_disk d' q \<longleftrightarrow> on_disk ?d q \<or> q = ?pid" for q
  proof (cases "Oid q = oid")
    case True
    then have "q = ?pid \<longleftrightarrow> sint (PageNum q) = int n" using page_eqI [of q ?pid] sn by (metis PageID.sel)
    then show ?thesis using True d(4) n(1) o'(2) sn by (auto simp: on_disk_def)
  qed (use d(4) in \<open>auto simp: on_disk_def\<close>)
  have pg: "disk_page d' q = (if q = ?pid then replicate PageSize 0 else disk_page ?d q)" if "on_disk d' q" for q
  proof (cases "Oid q = oid \<and> q \<noteq> ?pid")
    case True
    then have "on_disk ?d q" using that on by blast
    then have "nat (sint (PageNum q)) < n" using True n(1) by (simp add: on_disk_def nat_less_iff)
    then show ?thesis using True d(4) n(1) by (simp add: disk_page_def nth_append)
  next
    case False
    then consider "q = ?pid" | "Oid q \<noteq> oid" by blast
    then show ?thesis
    proof cases
      case 1
      then show ?thesis using n(1) sn by (simp add: disk_page_def d(4) nth_append)
    next
      case 2
      then have "q \<noteq> ?pid" by auto
      then show ?thesis using 2 by (simp add: disk_page_def d(4))
    qed
  qed
  have new: "\<not> on_disk ?d ?pid" using n(1) sn by (simp add: on_disk_def)
  have fo: "frame_ok ?d f \<Longrightarrow> frame_ok d' f" for f
    using on pg new by (auto simp: frame_ok_def)
  have "shard_ok (frames bp) d' (place (length (shards bp))) (nextFrame bp) {} 0 j (shards bp ! j)"
    if "j < length (shards bp)" for j
    by (rule shard_ok_cong [OF pool_shard [OF ok(1) that]])
      (use shard_okD(6) [OF pool_shard [OF ok(1) that]] fo in \<open>simp_all add: listed_ok_def\<close>)
  then have "pool_ok (set_disk d' bp)" using ok(1) d(2) by (simp add: pool_ok_def set_disk_def)
  moreover have "quiet (set_disk d' bp)" using ok(2) by (simp add: quiet_def set_disk_def)
  moreover have loc: "locate (set_disk d' bp) = locate bp"
    by (simp add: locate_def fun_eq_iff set_disk_def shardIdx_def)
  moreover have "locate bp ?pid = None"
    using located [OF ok(1), of ?pid] new by (cases "locate bp ?pid") (auto simp: frame_ok_def)
  then have "pool_view (set_disk d' bp) q = ((pool_view bp)(?pid \<mapsto> replicate PageSize 0)) q" for q
    using on [of q] pg [of q] new unfolding pool_view_def loc
    by (cases "locate bp q") (auto simp: set_disk_def)
  then have "pool_view (set_disk d' bp) = (pool_view bp)(?pid \<mapsto> replicate PageSize 0)" by blast
  ultimately show thesis using that [of d'] d n(1) by simp
qed

section \<open>The pool as an interface\<close>

text \<open>
  What the layers above rely on: a page that exists can be visited when the log can be
  waited for, the visitor sees its bytes, and after the visit the pool holds exactly the
  visitor's bytes for that page.
\<close>

locale page_cache =
  fixes cinv :: "'c \<Rightarrow> bool" and ready :: "'l \<Rightarrow> 'c \<Rightarrow> bool" and contents :: "'c \<Rightarrow> PageID \<Rightarrow> byte list option"
    and get_op :: "PageID \<Rightarrow> 'l \<times> 'c \<Rightarrow> nat res \<times> ('l \<times> 'c)"
    and frame_of :: "'c \<Rightarrow> nat \<Rightarrow> PageFrame" and put_op :: "nat \<Rightarrow> PageFrame \<Rightarrow> 'c \<Rightarrow> 'c"
    and unpin_op :: "nat \<Rightarrow> bool \<Rightarrow> 'c \<Rightarrow> 'c res"
  assumes visit_law: "cinv c \<Longrightarrow> ready l c \<Longrightarrow> contents c pid = Some b \<Longrightarrow>
      \<exists>a l' c'. get_op pid (l, c) = (Inr a, l', c') \<and> pageId (frame_of c' a) = pid \<and> Bytes (frame_of c' a) = b \<and>
        length b = PageSize \<and> (cached (frame_of c' a) \<longrightarrow> wf_heap_page (frame_of c' a)) \<and>
        (\<forall>g dirty. edit_ok (frame_of c' a) g dirty \<longrightarrow>
           (\<exists>c''. unpin_op a dirty (put_op a g c') = Inr c'' \<and> cinv c'' \<and> contents c'' = (contents c)(pid \<mapsto> Bytes g)))"
begin

lemma read_only_visit:
  assumes "cinv c" "ready l c" "contents c pid = Some b"
  obtains a l' c' c'' where "get_op pid (l, c) = (Inr a, l', c')" "Bytes (frame_of c' a) = b"
    "unpin_op a False (put_op a (frame_of c' a) c') = Inr c''" "cinv c''" "contents c'' = contents c"
proof -
  obtain a l' c' where v: "get_op pid (l, c) = (Inr a, l', c')" "Bytes (frame_of c' a) = b" "length b = PageSize"
      "cached (frame_of c' a) \<longrightarrow> wf_heap_page (frame_of c' a)"
      "\<And>g dirty. edit_ok (frame_of c' a) g dirty \<Longrightarrow>
         \<exists>c''. unpin_op a dirty (put_op a g c') = Inr c'' \<and> cinv c'' \<and> contents c'' = (contents c)(pid \<mapsto> Bytes g)"
    using visit_law [OF assms] by blast
  have "edit_ok (frame_of c' a) (frame_of c' a) False" using v by (simp add: edit_ok_def)
  then obtain c'' where "unpin_op a False (put_op a (frame_of c' a) c') = Inr c''" "cinv c''"
      "contents c'' = (contents c)(pid \<mapsto> b)"
    using v(2,5) by blast
  then show thesis using that [OF v(1,2)] assms(3) by (simp add: fun_upd_idem)
qed

end

interpretation pool: page_cache "\<lambda>bp. pool_ok bp \<and> quiet bp" "lsns_ok L" pool_view "GetPage L" frames put_frame UnpinPage
proof
  show "\<exists>a l' c'. GetPage L pid (l, c) = (Inr a, l', c') \<and> pageId (frames c' a) = pid \<and> Bytes (frames c' a) = b \<and>
        length b = PageSize \<and> (cached (frames c' a) \<longrightarrow> wf_heap_page (frames c' a)) \<and>
        (\<forall>g dirty. edit_ok (frames c' a) g dirty \<longrightarrow>
           (\<exists>c''. UnpinPage a dirty (put_frame a g c') = Inr c'' \<and> (pool_ok c'' \<and> quiet c'') \<and>
              pool_view c'' = (pool_view c)(pid \<mapsto> Bytes g)))"
    if "pool_ok c \<and> quiet c" "lsns_ok L l c" "pool_view c pid = Some b" for c pid b l
    using visit_page [of c pid b L l] that by blast
qed

section \<open>Properties of the buffer pool\<close>

text \<open>
  C30: The pool is transparent.  Whenever a page exists on disk, the call does not have to
  wait for a frame and the log can be waited for, \<^verbatim>\<open>GetPage\<close> returns a pinned frame that holds exactly the current
  contents of that page, whether it was cached, loaded into a fresh frame, or loaded in
  the place of a victim that was written back first; the contents of every other page are
  unchanged, and a frame that some caller has pinned stays where it is.
\<close>

theorem GetPage_transparent:
  assumes "pool_ok bp" "on_disk (storageManager bp) pid" "available bp pid" "lsns_ok L l bp"
  shows "\<exists>a l' bp'. GetPage L pid (l, bp) = (Inr a, l', bp') \<and> pool_ok bp' \<and> pageId (frames bp' a) = pid \<and>
    0 < refCount (frames bp' a) \<and> pool_view bp' = pool_view bp \<and> pool_view bp pid = Some (Bytes (frames bp' a)) \<and>
    (\<forall>q b. locate bp q = Some b \<longrightarrow> refCount (frames bp b) \<noteq> 0 \<longrightarrow> locate bp' q = Some b)"
proof -
  obtain a l' bp' where g: "GetPage L pid (l, bp) = (Inr a, l', bp')" "got bp pid a bp'"
    using GetPage_ok [OF assms] by blast
  then have loc: "pool_ok bp'" "locate bp' pid = Some a" by (simp_all add: got_def)
  note f = located [OF loc]
  have "0 < refCount (frames bp' a)"
  proof (cases "locate bp pid")
    case (Some c)
    then have "c = a" using GetPage_hit [OF assms(1) Some, of L l] g(1) by simp
    then show ?thesis using g(2) Some located(2) [OF assms(1) Some] by (simp add: got_def frame_ok_def)
  qed (use g(2) in \<open>simp add: got_def\<close>)
  moreover have "pool_view bp pid = Some (Bytes (frames bp' a))"
    using g(2) f(2) loc(2) f(1) by (metis got_def frame_ok_def option.simps(5) pool_view_def)
  ultimately show ?thesis using g f by (auto simp: got_def)
qed

lemma NewBufferPool_ok:
  assumes "0 < n" "disk_ok sm"
  shows "\<exists>bp. NewBufferPool n sm = Inr bp \<and> pool_ok bp \<and> quiet bp \<and> storageManager bp = sm"
proof -
  have "0 < max 1 (min NUMSHARD (n div 4))" "max 1 (min NUMSHARD (n div 4)) \<le> n" using assms(1) by auto
  then have "0 < n div max 1 (min NUMSHARD (n div 4))" by (simp add: div_greater_zero_iff)
  then show ?thesis
    using assms by (auto simp: NewBufferPool_def Let_def pool_ok_def shard_ok_def NewBufferPoolShard_def
        shard_frames_def quiet_def)
qed

lemma GetPage_transparent_witness:
  "\<exists>bp a bp'. NewBufferPool 1 demo_files = Inr bp \<and> GetPage NoopLogManager (PageID 1 0) ((), bp) = (Inr a, (), bp') \<and>
     pool_view bp (PageID 1 0) = Some (Bytes (frames bp' a))"
proof -
  obtain bp where b: "NewBufferPool 1 demo_files = Inr bp" "pool_ok bp" "quiet bp" "storageManager bp = demo_files"
    using NewBufferPool_ok [OF _ demo_files_ok(1), of 1] by auto
  have "on_disk (storageManager bp) (PageID 1 0)"
    using demo_files_ok(3) by (simp add: b(4) on_disk_def InvalidObjectID_def)
  from GetPage_transparent [OF b(2) this quiet_available [OF b(2,3)], of NoopLogManager "()"]
  show ?thesis using b(1) by (auto simp: lsns_ok_def waits_def NoopLogManager_def)
qed

text \<open>
  C37: Capacity.  A pool for \<open>n > 0\<close> pages has between one and 64 shards, every shard has
  room for at least one page, and the shards together have room for exactly \<open>n\<close> pages.
\<close>

theorem NewBufferPool_capacity:
  assumes "0 < n"
  shows "\<exists>bp. NewBufferPool n sm = Inr bp \<and> 1 \<le> length (shards bp) \<and> length (shards bp) \<le> 64 \<and>
    (\<forall>sh \<in> set (shards bp). 1 \<le> bs_numPages sh) \<and> sum_list (map bs_numPages (shards bp)) = n"
proof -
  define k where "k = max 1 (min NUMSHARD (n div 4))"
  have k: "0 < k" "k \<le> n" "k \<le> 64" using assms by (auto simp: k_def NUMSHARD_def)
  let ?f = "\<lambda>i. if i < n mod k then n div k + 1 else n div k"
  have m: "sum_list (map (\<lambda>i. if i < r then q + 1 else q) [0..<m]) = m * q + min m r" for m r q :: nat
    by (induction m) auto
  have "sum_list (map ?f [0..<k]) = n"
    using m [of "n mod k" "n div k" k] mod_less_divisor [OF k(1), of n] by (simp add: min_def)
  moreover have "\<forall>i. 1 \<le> ?f i" using k by (simp add: Suc_le_eq div_greater_zero_iff)
  moreover have "NewBufferPool n sm = Inr \<lparr>storageManager = sm, shards = map (\<lambda>i. NewBufferPoolShard (?f i)) [0..<k],
      frames = (\<lambda>_. zero_frame), nextFrame = 0\<rparr>"
    using assms by (simp add: NewBufferPool_def k_def Let_def)
  ultimately show ?thesis using k by (simp add: NewBufferPoolShard_def comp_def)
qed

lemma NewBufferPool_capacity_witness:
  "\<exists>bp. NewBufferPool 1000 demo_files = Inr bp \<and> sum_list (map bs_numPages (shards bp)) = 1000"
  using NewBufferPool_capacity [of 1000 demo_files] by auto

definition wal_rule :: "'l LogManager \<Rightarrow> 'l \<Rightarrow> DiskDBFileManager \<Rightarrow> bool" where
  "wal_rule L l d \<longleftrightarrow> (\<forall>pid. on_disk d pid \<longrightarrow>
     sint (le_get (slice 0 8 (disk_page d pid)) :: LSN) \<le> sint (FlushedUntil L l))"

text \<open>
  C31: The write-ahead rule.  Let the log keep its contract and be open, so that a wait that
  ends has no error, let the pool be healthy and the sequence number of every page be one that
  can be waited for, and let the wanted page exist and be cached or find a free frame or an unpinned one.
  If every page on disk carries a sequence number up to which the log has been flushed, then
  this still holds after \<^verbatim>\<open>GetPage\<close> has evicted and written a dirty page, and after
  \<^verbatim>\<open>FlushAllPages\<close>.  (\<^verbatim>\<open>GetPage\<close> does not look at the error of the wait, so the log
  has to be open.)
\<close>

theorem write_ahead_rule:
  assumes log: "log_service L linv hist" "linv l" and up: "\<And>lsn. waits L l lsn \<Longrightarrow> fst (WaitUntilFlushed L lsn l) = Inr ()"
    and ok: "pool_ok bp" "on_disk (storageManager bp) pid" "available bp pid" "lsns_ok L l bp" and wal: "wal_rule L l (storageManager bp)"
  shows "(\<exists>a l' bp'. GetPage L pid (l, bp) = (Inr a, l', bp') \<and> wal_rule L l' (storageManager bp')) \<and>
    (\<exists>bp'. FlushAllPages L (l, bp) = (Inr (), bp') \<and> wal_rule L l (storageManager bp'))"
proof
  obtain a l' bp' where g: "GetPage L pid (l, bp) = (Inr a, l', bp')" "got bp pid a bp'"
      "synced L l (storageManager bp) l' (storageManager bp')"
    using GetPage_ok [OF ok] by blast
  have "on_disk (storageManager bp') = on_disk (storageManager bp)" using g(2) by (simp add: got_def)
  moreover have "sint (le_get (slice 0 8 (disk_page (storageManager bp') q)) :: LSN) \<le> sint (FlushedUntil L l')"
    if q: "on_disk (storageManager bp) q" for q
    using g(3) unfolding synced_def
  proof (elim disjE exE conjE)
    fix v
    assume v: "waits L l (frame_LSN v)" "l' = snd (WaitUntilFlushed L (frame_LSN v) l)" "\<forall>q. on_disk (storageManager bp) q \<longrightarrow>
        disk_page (storageManager bp') q = (if q = pageId v then Bytes v else disk_page (storageManager bp) q)"
    have "WaitUntilFlushed L (frame_LSN v) l = (Inr (), l')" using up [OF v(1)] v(2) by (simp add: prod_eq_iff)
    from log_service.wait_law [OF log this]
    have w: "sint (FlushedUntil L l) \<le> sint (FlushedUntil L l')" "sint (frame_LSN v) \<le> sint (FlushedUntil L l')" by simp_all
    show ?thesis
      using v(3) q w wal by (cases "q = pageId v") (auto simp: frame_LSN_def pageOffsetLSN_def wal_rule_def intro: order_trans)
  qed (use wal q in \<open>simp add: wal_rule_def\<close>)
  ultimately have "wal_rule L l' (storageManager bp')" by (simp add: wal_rule_def)
  then show "\<exists>a l' bp'. GetPage L pid (l, bp) = (Inr a, l', bp') \<and> wal_rule L l' (storageManager bp')" using g(1) by blast
  obtain b where b: "FlushAllPages L (l, bp) = (Inr (), b)" "on_disk (storageManager b) = on_disk (storageManager bp)"
      "\<And>q. on_disk (storageManager bp) q \<Longrightarrow> disk_page (storageManager b) q = disk_page (storageManager bp) q \<or>
         pool_view bp q = Some (disk_page (storageManager b) q) \<and>
         (\<exists>a. locate bp q = Some a \<and> flushable (FlushedUntil L l) bp a)"
    using FlushAllPages_ok [OF ok(1), of L l] by blast
  have "sint (le_get (slice 0 8 (disk_page (storageManager b) q)) :: LSN) \<le> sint (FlushedUntil L l)"
    if "on_disk (storageManager bp) q" for q
    using b(3) [OF that] wal that
    by (auto simp: wal_rule_def flushable_def frame_LSN_def pageOffsetLSN_def pool_view_def)
  then show "\<exists>bp'. FlushAllPages L (l, bp) = (Inr (), bp') \<and> wal_rule L l (storageManager bp')"
    using b(1,2) by (auto simp: wal_rule_def)
qed

text \<open>
  A log of two records of which nothing is flushed, a file of two empty pages, and a pool of one
  frame that holds the first page, changed by the second record: reading the second page writes
  the first one and flushes the log.
\<close>

definition unflushed_log :: MemoryLogManager where
  "unflushed_log = (NewMemoryLogManager Spins)\<lparr>mm_buffer := record_bytes commit_record @ record_bytes commit_record\<rparr>"

definition changed_page :: "byte list" where
  "changed_page = le_put 8 (16 :: LSN) @ replicate (PageSize - 8) 0"

definition two_pages :: DiskDBFileManager where
  "two_pages = \<lparr>disk = [1 \<mapsto> replicate (2 * PageSize) 0], fileCache = [1 \<mapsto> 2], os_err = (\<lambda>_. None)\<rparr>"

definition changed_frame :: PageFrame where
  "changed_frame = zero_frame\<lparr>inOld := True, pageId := PageID 1 0, Bytes := changed_page, isDirty := True\<rparr>"

definition changed_pool :: BufferPool where
  "changed_pool = \<lparr>storageManager = two_pages, shards = [NewBufferPoolShard 1\<lparr>oldList := [0], pages := [PageID 1 0 \<mapsto> 0]\<rparr>],
     frames = (\<lambda>_. zero_frame)(0 := changed_frame), nextFrame = 1\<rparr>"

lemma unflushed_log_ok:
  "memory_inv unflushed_log" "flushedUntil unflushed_log = 0" "waits memory_log unflushed_log k \<longleftrightarrow> sint k < 32"
  "waits memory_log unflushed_log k \<Longrightarrow> fst (WaitUntilFlushed memory_log k unflushed_log) = Inr ()"
proof -
  have l: "length (record_bytes commit_record) = 16" using record_bytes(2) [OF commit_record_entry(2,1)] commit_record_entry(3) by simp
  show inv: "memory_inv unflushed_log"
    using commit_record_entry(2) l by (auto simp: memory_inv_def unflushed_log_def NewMemoryLogManager_def intro!: exI [of _ "[commit_record, commit_record]"])
  show "flushedUntil unflushed_log = 0" by (simp add: unflushed_log_def NewMemoryLogManager_def)
  show "waits memory_log unflushed_log k \<longleftrightarrow> sint k < 32" using memory_waits [OF inv, of k] l by (simp add: unflushed_log_def NewMemoryLogManager_def)
  show "waits memory_log unflushed_log k \<Longrightarrow> fst (WaitUntilFlushed memory_log k unflushed_log) = Inr ()"
    by (auto simp: waits_def memory_log_def wait_flushed_def split: if_splits)
qed

lemma changed_pool_ok:
  "pool_ok changed_pool" "quiet changed_pool" "on_disk two_pages (PageID 1 1)" "lsns_ok memory_log unflushed_log changed_pool"
  "wal_rule memory_log unflushed_log two_pages"
proof -
  have len: "length changed_page = PageSize" by (simp add: changed_page_def PageSize_def)
  have fp: "file_pages two_pages oid = (if oid = 1 then [replicate PageSize 0, replicate PageSize 0] else [])" for oid
    by (simp add: file_pages_def content_of_def two_pages_def PageSize_def page_range_def slice_def numeral_2_eq_2)
  have od: "on_disk two_pages pid \<longleftrightarrow> Oid pid = 1 \<and> 0 \<le> sint (PageNum pid) \<and> sint (PageNum pid) < 2" for pid
    by (auto simp: on_disk_def fp InvalidObjectID_def)
  have dp: "disk_page two_pages pid = replicate PageSize 0" if "on_disk two_pages pid" for pid
    using that by (auto simp: od disk_page_def fp nth_Cons')
  have z: "le_get (replicate n 0) = (0 :: LSN)" for n by (induction n) simp_all
  have lsn: "page_LSN (replicate PageSize 0) = 0" "page_LSN changed_page = 16"
    using z by (simp_all add: page_LSN_def slice_def changed_page_def PageSize_def pageOffsetLSN_def)
  show "on_disk two_pages (PageID 1 1)" by (simp add: od)
  have "disk_ok two_pages"
    unfolding disk_ok_def two_pages_def by (auto simp: PageSize_def intro!: exI [of _ 2])
  then show "pool_ok changed_pool"
    using len by (auto simp: pool_ok_def shard_ok_def shard_frames_def listed_ok_def frame_ok_def place_def changed_pool_def changed_frame_def zero_frame_def NewBufferPoolShard_def od)
  show "quiet changed_pool"
    by (simp add: quiet_def changed_pool_def changed_frame_def zero_frame_def NewBufferPoolShard_def shard_frames_def)
  have "page_LSN b \<in> {0, 16}" if "pool_view changed_pool pid = Some b" for pid b
    using that lsn dp by (auto simp: pool_view_def changed_pool_def locate_def changed_frame_def NewBufferPoolShard_def shardIdx_def split: if_splits)
  then show "lsns_ok memory_log unflushed_log changed_pool"
    unfolding lsns_ok_def unflushed_log_ok(3) by fastforce
  show "wal_rule memory_log unflushed_log two_pages"
    using dp lsn(1) unflushed_log_ok(2) by (auto simp: wal_rule_def memory_log_def page_LSN_def pageOffsetLSN_def)
qed

lemma write_ahead_rule_witness:
  "\<exists>a l' bp'. GetPage memory_log (PageID 1 1) (unflushed_log, changed_pool) = (Inr a, l', bp') \<and> wal_rule memory_log l' (storageManager bp') \<and>
     flushedUntil l' = 32 \<and> disk_page (storageManager bp') (PageID 1 0) = changed_page"
proof -
  note ok = changed_pool_ok
  have sm: "storageManager changed_pool = two_pages" by (simp add: changed_pool_def)
  from write_ahead_rule [OF mem.log_service_axioms unflushed_log_ok(1,4) ok(1) _ quiet_available [OF ok(1,2)] ok(4), of "PageID 1 1"] ok(3,5)
  obtain a l' bp' where g: "GetPage memory_log (PageID 1 1) (unflushed_log, changed_pool) = (Inr a, l', bp')" "wal_rule memory_log l' (storageManager bp')"
    unfolding sm by auto
  have o: "opened two_pages 1" "file_pages two_pages 1 = [replicate PageSize 0, replicate PageSize 0]" "disk_ok two_pages"
    using ok(1) by (simp_all add: opened_def two_pages_def file_pages_def content_of_def PageSize_def page_range_def slice_def numeral_2_eq_2 pool_ok_def sm [unfolded two_pages_def])
  obtain d where d: "WritePage 1 0 changed_page two_pages = (Inr (), d)" "disk_ok d" "opened d 1" "file_pages d 1 = [changed_page, replicate PageSize 0]"
    using WritePage_ok [OF o(3,1), of 0 changed_page] o by (auto simp: changed_page_def PageSize_def)
  have op: "GetDBFile 1 two_pages = (Inr (), two_pages)" "GetDBFile 1 d = (Inr (), d)" using o(1) d(3) by (auto simp: GetDBFile_def opened_def)
  have rd: "ReadPage d 1 1 changed_page = Inr (replicate PageSize 0)" using ReadPage_ok [OF d(2,3), of 1 changed_page] d(4) by (simp add: changed_page_def PageSize_def)
  have w: "WaitUntilFlushed memory_log (frame_LSN changed_frame) unflushed_log = (Inr (), unflushed_log\<lparr>flushedUntil := 32\<rparr>)"
  proof -
    have "length (record_bytes commit_record) = 16" using record_bytes(2) [OF commit_record_entry(2,1)] commit_record_entry(3) by simp
    moreover have "frame_LSN changed_frame = 16" by (simp add: frame_LSN_def changed_frame_def changed_page_def pageOffsetLSN_def slice_def)
    ultimately show ?thesis
      by (simp add: memory_log_def wait_flushed_def Memory_WaitUntilFlushed_def flusher_tick_def SetFlushedLSN_def Tail_def unflushed_log_def NewMemoryLogManager_def)
  qed
  have "\<exists>l' bp'. GetPage memory_log (PageID 1 1) (unflushed_log, changed_pool) = (Inr 0, unflushed_log\<lparr>flushedUntil := 32\<rparr>, bp') \<and> storageManager bp' = d"
    using op rd d(1) w
    by (simp add: GetPage_def shardIdx_def upd_shard_def getPageFromPool_def evictPage_def findVictim_def evictable_def frame_LSN_def
        NewBufferPoolShard_def Let_def flush_victim_def load_page_def upd_frame_def set_disk_def unlock_page_def changed_pool_def changed_frame_def zero_frame_def
        InvalidObjectID_def insert_Diff_if)
  then show ?thesis using g d(4) by (auto simp: disk_page_def)
qed

text \<open>
  A failed load is remembered as a hit.  \<^verbatim>\<open>rollbackEviction\<close> files the frame under
  the page that could not be read, with the bytes of the page that was evicted.  On a pool
  of one frame that has held page 0 of a one-page file, asking for page 5 of that file is
  an error, and asking for it again succeeds and returns the bytes of page 0.
\<close>

theorem failed_load_poisons_cache:
  "\<exists>bp bp1 bp2 bp3 bp4 e. NewBufferPool 1 demo_files = Inr bp \<and>
     GetPage NoopLogManager (PageID 1 0) ((), bp) = (Inr 0, (), bp1) \<and> UnpinPage 0 False bp1 = Inr bp2 \<and>
     GetPage NoopLogManager (PageID 1 5) ((), bp2) = (Inl e, (), bp3) \<and>
     GetPage NoopLogManager (PageID 1 5) ((), bp3) = (Inr 0, (), bp4) \<and>
     Bytes (frames bp4 0) = disk_page demo_files (PageID 1 0) \<and> \<not> on_disk demo_files (PageID 1 5)"
proof -
  let ?b = "replicate PageSize 7"
  have nb: "NewBufferPool 1 demo_files = Inr \<lparr>storageManager = demo_files, shards = [NewBufferPoolShard 1],
      frames = (\<lambda>_. zero_frame), nextFrame = 0\<rparr>"
    by (simp add: NewBufferPool_def Let_def)
  have rd: "ReadPage demo_files 1 0 b = Inr ?b" "\<exists>e. ReadPage demo_files 1 5 b = Inl e" if "length b = PageSize" for b
    using that by (simp_all add: ReadPage_def demo_files_def handle_pages_def content_of_def PageSize_def slice_def)
  have dp: "disk_page demo_files (PageID 1 0) = ?b"
    by (simp add: disk_page_def file_pages_def page_range_def demo_files_def content_of_def slice_def PageSize_def)
  have op: "GetDBFile 1 demo_files = (Inr (), demo_files)" by (simp add: GetDBFile_def demo_files_def)
  define f where "f = zero_frame\<lparr>refCount := 1, inOld := True, pageId := PageID 1 0, Bytes := ?b, isDirty := False\<rparr>"
  define sh where "sh = NewBufferPoolShard 1\<lparr>oldList := [0], pages := [PageID 1 0 \<mapsto> 0]\<rparr>"
  define bp1 where "bp1 = \<lparr>storageManager = demo_files, shards = [sh], frames = (\<lambda>_. zero_frame)(0 := f), nextFrame = 1\<rparr>"
  have 1: "GetPage NoopLogManager (PageID 1 0) ((), \<lparr>storageManager = demo_files, shards = [NewBufferPoolShard 1],
      frames = (\<lambda>_. zero_frame), nextFrame = 0\<rparr>) = (Inr 0, (), bp1)"
    using rd(1) [of "replicate PageSize 0"] op
    by (simp add: GetPage_def shardIdx_def upd_shard_def getPageFromPool_def evictPage_def NewBufferPoolShard_def Let_def
        flush_victim_def load_page_def upd_frame_def set_disk_def unlock_page_def bp1_def sh_def f_def zero_frame_def
        InvalidObjectID_def)
  define bp2 where "bp2 = bp1\<lparr>frames := (\<lambda>_. zero_frame)(0 := f\<lparr>refCount := 0\<rparr>)\<rparr>"
  have 2: "UnpinPage 0 False bp1 = Inr bp2"
    by (simp add: UnpinPage_def bp1_def bp2_def f_def upd_frame_def zero_frame_def)
  obtain e where e: "ReadPage demo_files 1 5 ?b = Inl e" using rd(2) [of ?b] by auto
  define bp3 where "bp3 = \<lparr>storageManager = demo_files, shards = [NewBufferPoolShard 1\<lparr>oldList := [0], pages := [PageID 1 5 \<mapsto> 0]\<rparr>],
      frames = (\<lambda>_. zero_frame)(0 := f\<lparr>refCount := 0, pageId := PageID 1 5\<rparr>), nextFrame = 1\<rparr>"
  have 3: "GetPage NoopLogManager (PageID 1 5) ((), bp2) = (Inl e, (), bp3)"
    using e op
    by (simp add: GetPage_def shardIdx_def upd_shard_def getPageFromPool_def evictPage_def findVictim_def evictable_def
        NewBufferPoolShard_def Let_def flush_victim_def load_page_def upd_frame_def set_disk_def unlock_page_def
        rollbackEviction_def bp1_def bp2_def bp3_def sh_def f_def zero_frame_def InvalidObjectID_def insert_Diff_if)
  have "\<exists>bp4. GetPage NoopLogManager (PageID 1 5) ((), bp3) = (Inr 0, (), bp4) \<and> Bytes (frames bp4 0) = ?b"
    by (simp add: GetPage_def shardIdx_def upd_shard_def getPageFromPool_def NewBufferPoolShard_def Let_def
        upd_frame_def unlock_page_def bp3_def f_def)
  then show ?thesis
    using nb 1 2 3 dp demo_files_ok(3) by (auto simp: on_disk_def)
qed

end
