(* ===== verification/Page_Edit.thy ===== *)
theory Page_Edit
  imports Buffer_Pool
begin

text \<open>
  Editing a heap page through the buffer pool: the pattern \<^verbatim>\<open>GetPage\<close>, latch,
  \<^verbatim>\<open>AsHeapPage\<close>, change the page, \<^verbatim>\<open>MonotonicallyUpdateLSN\<close>, unlatch,
  \<^verbatim>\<open>UnpinPage(pf, true)\<close> that rollback, the table heap and recovery share, and its
  effect on the slots of the page.
\<close>

section \<open>The pattern\<close>

definition edit_page :: "'l LogManager \<Rightarrow> PageID \<Rightarrow> (PageFrame \<Rightarrow> PageFrame res) \<Rightarrow> 'l \<times> BufferPool \<Rightarrow>
    unit res \<times> ('l \<times> BufferPool)" where
  "edit_page L pid f st =
     bindS (GetPage L pid st) (\<lambda>a (l, bp).
       stepS (bindR (f (frames bp a)) (\<lambda>g. UnpinPage a True (put_frame a g bp))) (l, bp) (\<lambda>bp'. (Inr (), l, bp')))"

definition mark_deleted :: "RecordID \<Rightarrow> bool \<Rightarrow> LSN \<Rightarrow> PageFrame \<Rightarrow> PageFrame res" where
  "mark_deleted rid on lsn pf =
     bindR (AsHeapPage pf) (\<lambda>hp. bindR (MarkDeleted hp rid on) (\<lambda>hp'. Inr (MonotonicallyUpdateLSN hp' lsn)))"

definition write_tuple :: "RecordID \<Rightarrow> RawTuple \<Rightarrow> LSN \<Rightarrow> PageFrame \<Rightarrow> PageFrame res" where
  "write_tuple rid row lsn pf =
     bindR (AsHeapPage pf) (\<lambda>hp. bindR (CopyIntoTuple hp rid row) (\<lambda>hp'. Inr (MonotonicallyUpdateLSN hp' lsn)))"

section \<open>The slots of a page's bytes\<close>

definition row_size :: "byte list \<Rightarrow> nat" where
  "row_size b = unat (le_get (slice PageOffsetRowSize 2 b) :: 16 word)"

definition num_slots :: "byte list \<Rightarrow> nat" where
  "num_slots b = unat (le_get (slice PageOffsetNumSlots 2 b) :: 16 word)"

definition heap_bytes_ok :: "byte list \<Rightarrow> bool" where
  "heap_bytes_ok b \<longleftrightarrow> wf_bytes (row_size b) (num_slots b) b \<and> 0 < num_slots b \<and>
     layout_end (row_size b) (num_slots b) \<le> PageSize"

definition slots_of :: "byte list \<Rightarrow> slot list" where
  "slots_of b =
     (let n = num_slots b; bb = bitmap_bytes n
      in map (\<lambda>i. \<lparr>s_alloc = bm_bit (bm_view b \<lparr>bm_base = 16, bm_numBits = n\<rparr>) i,
                  s_del = bm_bit (bm_view b \<lparr>bm_base = 16 + bb, bm_numBits = n\<rparr>) i,
                  s_row = slice (16 + 2 * bb + i * row_size b) (row_size b) b\<rparr>) [0..<n])"

lemma length_slots_of [simp]: "length (slots_of b) = num_slots b"
  by (simp add: slots_of_def Let_def)

lemma slots_row_length:
  assumes "heap_bytes_ok b" "i < num_slots b"
  shows "length (s_row (slots_of b ! i)) = row_size b"
proof -
  have "Suc i * row_size b \<le> num_slots b * row_size b" using assms(2) by (intro mult_le_mono1) simp
  then show ?thesis
    using assms by (simp add: slots_of_def Let_def heap_bytes_ok_def wf_bytes_def layout_end_def)
qed

lemma wf_page_bytes:
  assumes "wf_heap_page hp"
  shows "heap_bytes_ok (Bytes hp)" "hp_slots hp = slots_of (Bytes hp)" "rowSize hp = row_size (Bytes hp)"
    "numSlots hp = num_slots (Bytes hp)" "length (Bytes hp) = PageSize"
proof -
  show rs: "rowSize hp = row_size (Bytes hp)" "numSlots hp = num_slots (Bytes hp)" "length (Bytes hp) = PageSize"
    using assms by (simp_all add: wf_heap_page_def wf_bytes_def row_size_def num_slots_def)
  show "heap_bytes_ok (Bytes hp)"
    using assms rs(1,2) by (simp add: wf_heap_page_def heap_bytes_ok_def)
  show "hp_slots hp = slots_of (Bytes hp)"
    using assms rs(1,2) by (simp add: wf_heap_page_def hp_slots_def slots_of_def Let_def)
qed

definition same_pool_fields :: "PageFrame \<Rightarrow> PageFrame \<Rightarrow> bool" where
  "same_pool_fields f g \<longleftrightarrow> pageId g = pageId f \<and> refCount g = refCount f \<and> isDirty g = isDirty f \<and> inOld g = inOld f"

lemma same_pool_fields_trans: "same_pool_fields f g \<Longrightarrow> same_pool_fields g h \<Longrightarrow> same_pool_fields f h"
  by (simp add: same_pool_fields_def)

lemma op_pool_fields:
  "MarkDeleted hp rid on = Inr hp' \<Longrightarrow> same_pool_fields hp hp'"
  "MarkAllocated hp rid on = Inr hp' \<Longrightarrow> same_pool_fields hp hp'"
  "CopyIntoTuple hp rid row = Inr hp' \<Longrightarrow> same_pool_fields hp hp'"
  "FindFreeSlot hp = Inr (k, hp') \<Longrightarrow> same_pool_fields hp hp'"
  "InitializeHeapPage d hp = Inr hp' \<Longrightarrow> same_pool_fields hp hp'"
  "AsHeapPage hp = Inr hp' \<Longrightarrow> same_pool_fields hp hp'"
  "same_pool_fields hp (MonotonicallyUpdateLSN hp lsn)"
proof -
  have d: "same_pool_fields hp hp'" if "MarkDeleted hp rid on = Inr hp'" for hp hp' on
    using that by (auto simp: MarkDeleted_def same_pool_fields_def Let_def split: prod.splits)
  then show "MarkDeleted hp rid on = Inr hp' \<Longrightarrow> same_pool_fields hp hp'" .
  have d': "same_pool_fields hp hp'"
    if "MarkDeleted (hp\<lparr>Bytes := b, numUsed := n\<rparr>) rid False = Inr hp'" for n b
    using d [OF that] by (simp add: same_pool_fields_def)
  show "MarkAllocated hp rid on = Inr hp' \<Longrightarrow> same_pool_fields hp hp'"
    by (auto simp: MarkAllocated_def SetNumUsed_def Let_def same_pool_fields_def split: prod.splits if_splits
        dest!: d' [unfolded same_pool_fields_def])
qed (auto simp: CopyIntoTuple_def FindFreeSlot_def InitializeHeapPage_def AsHeapPage_def MonotonicallyUpdateLSN_def
    same_pool_fields_def Let_def split: if_splits)

lemma AsHeapPage_ok:
  assumes "heap_bytes_ok (Bytes pf)" "cached pf \<longrightarrow> wf_heap_page pf"
  obtains hp where "AsHeapPage pf = Inr hp" "wf_heap_page hp" "Bytes hp = Bytes pf" "frame_LSN hp = frame_LSN pf"
    "same_pool_fields pf hp"
proof (cases "cached pf")
  case True
  then show thesis using that [of pf] assms(2) by (simp add: AsHeapPage_def same_pool_fields_def)
next
  case False
  let ?n = "num_slots (Bytes pf)" and ?rs = "row_size (Bytes pf)"
  have len: "length (Bytes pf) = 4096" "16 + 2 * bitmap_bytes ?n \<le> 4096"
    using assms(1) by (simp_all add: heap_bytes_ok_def wf_bytes_def layout_end_def PageSize_def)
  have pad: "(16 + bitmap_bytes ?n) mod 8 = 0" by (simp add: bitmap_bytes_def)
  have n: "0 < ?n" using assms(1) by (simp add: heap_bytes_ok_def)
  have bb: "8 dvd bitmap_bytes ?n" "0 < bitmap_bytes ?n" "(?n + 63) div 64 * 8 \<le> bitmap_bytes ?n"
    using n by (auto simp: bitmap_bytes_def div_greater_zero_iff)
  have bm: "\<exists>b. AsBitmap x ?n = Inr b" if "length x = bitmap_bytes ?n" for x
    using that bb AlignedTo8_dvd [OF bb(1)] by (auto simp: AsBitmap_def)
  let ?hp = "pf\<lparr>cached := True, rowSize := ?rs, numSlots := ?n,
      numUsed := uint (le_get (slice PageOffsetNumUsed 2 (Bytes pf)) :: 16 word),
      bitMapSize := bitmap_bytes ?n, padding := 0, dataStart := 16 + 2 * bitmap_bytes ?n, startHint := 0,
      allocBitmap := \<lparr>bm_base = 16, bm_numBits = ?n\<rparr>,
      deletedBitmap := \<lparr>bm_base = 16 + bitmap_bytes ?n, bm_numBits = ?n\<rparr>\<rparr>"
  obtain b1 b2 where "AsBitmap (slice 16 (bitmap_bytes ?n) (Bytes pf)) ?n = Inr b1"
      "AsBitmap (slice (16 + bitmap_bytes ?n) (bitmap_bytes ?n) (Bytes pf)) ?n = Inr b2"
    using bm [of "slice 16 (bitmap_bytes ?n) (Bytes pf)"] bm [of "slice (16 + bitmap_bytes ?n) (bitmap_bytes ?n) (Bytes pf)"] len
    by auto
  then have "AsHeapPage pf = Inr ?hp"
    using False len pad
    by (simp add: AsHeapPage_def num_slots_def row_size_def HeaderSize_def slice_checked_def Let_def)
  moreover have "wf_heap_page ?hp"
    using assms(1) by (simp add: wf_heap_page_def heap_bytes_ok_def)
  ultimately show thesis using that [of ?hp] by (simp add: same_pool_fields_def frame_LSN_def)
qed

section \<open>Effect of the edits on the slots\<close>

lemma mark_deleted_ok:
  assumes "heap_bytes_ok (Bytes pf)" "cached pf \<longrightarrow> wf_heap_page pf" "rid_slot rid = int i" "i < num_slots (Bytes pf)"
  obtains g where "mark_deleted rid on lsn pf = Inr g" "wf_heap_page g" "same_pool_fields pf g"
    "slots_of (Bytes g) = (slots_of (Bytes pf))[i := (slots_of (Bytes pf) ! i)\<lparr>s_del := on\<rparr>]"
    "row_size (Bytes g) = row_size (Bytes pf)" "frame_LSN g = max (frame_LSN pf) lsn"
proof -
  obtain hp where hp: "AsHeapPage pf = Inr hp" "wf_heap_page hp" "Bytes hp = Bytes pf" "frame_LSN hp = frame_LSN pf"
      "same_pool_fields pf hp"
    by (rule AsHeapPage_ok [OF assms(1,2)])
  note w = wf_page_bytes [OF hp(2), unfolded hp(3)]
  have i: "i < numSlots hp" using assms(4) w(4) by simp
  obtain h where h: "MarkDeleted hp rid on = Inr h" "wf_heap_page h" "same_header hp h"
      "hp_slots h = (hp_slots hp)[i := (hp_slots hp ! i)\<lparr>s_del := on\<rparr>]"
    by (rule MarkDeleted_spec [OF hp(2) assms(3) i])
  note m = MonotonicallyUpdateLSN_spec [OF h(2), of lsn]
  let ?g = "MonotonicallyUpdateLSN h lsn"
  have "rowSize ?g = rowSize h" by (simp add: MonotonicallyUpdateLSN_def)
  then show thesis
    using that [of ?g] m hp h w wf_page_bytes [OF m(1)] wf_page_bytes(2,3) [OF h(2)]
      same_pool_fields_trans [OF hp(5) same_pool_fields_trans [OF op_pool_fields(1) [OF h(1)] op_pool_fields(7)]]
    by (simp add: mark_deleted_def same_header_def)
qed

lemma write_tuple_ok:
  assumes "heap_bytes_ok (Bytes pf)" "cached pf \<longrightarrow> wf_heap_page pf" "rid_slot rid = int i" "i < num_slots (Bytes pf)"
    "length row = row_size (Bytes pf)"
  obtains g where "write_tuple rid row lsn pf = Inr g" "wf_heap_page g" "same_pool_fields pf g"
    "slots_of (Bytes g) = (slots_of (Bytes pf))[i := (slots_of (Bytes pf) ! i)\<lparr>s_row := row\<rparr>]"
    "row_size (Bytes g) = row_size (Bytes pf)" "frame_LSN g = max (frame_LSN pf) lsn"
proof -
  obtain hp where hp: "AsHeapPage pf = Inr hp" "wf_heap_page hp" "Bytes hp = Bytes pf" "frame_LSN hp = frame_LSN pf"
      "same_pool_fields pf hp"
    by (rule AsHeapPage_ok [OF assms(1,2)])
  note w = wf_page_bytes [OF hp(2), unfolded hp(3)]
  have i: "i < numSlots hp" "length row = rowSize hp" using assms(4,5) w(3,4) by simp_all
  obtain h where h: "CopyIntoTuple hp rid row = Inr h" "wf_heap_page h" "same_header hp h"
      "hp_slots h = (hp_slots hp)[i := (hp_slots hp ! i)\<lparr>s_row := row\<rparr>]"
    by (rule CopyIntoTuple_spec [OF hp(2) assms(3) i])
  note m = MonotonicallyUpdateLSN_spec [OF h(2), of lsn]
  let ?g = "MonotonicallyUpdateLSN h lsn"
  have "rowSize ?g = rowSize h" by (simp add: MonotonicallyUpdateLSN_def)
  then show thesis
    using that [of ?g] m hp h w wf_page_bytes [OF m(1)] wf_page_bytes(2,3) [OF h(2)]
      same_pool_fields_trans [OF hp(5) same_pool_fields_trans [OF op_pool_fields(3) [OF h(1)] op_pool_fields(7)]]
    by (simp add: write_tuple_def same_header_def)
qed

text \<open>An edit through the pool changes the contents of its page as the edit does, and no other page.\<close>

lemma edit_page_ok:
  assumes "pool_ok bp" "quiet bp" "pool_view bp pid = Some b" "lsns_ok L l bp"
    and f: "\<And>pf. Bytes pf = b \<Longrightarrow> cached pf \<longrightarrow> wf_heap_page pf \<Longrightarrow>
      \<exists>g. f pf = Inr g \<and> wf_heap_page g \<and> same_pool_fields pf g \<and> P (Bytes g)"
  obtains l' bp' b' where "edit_page L pid f (l, bp) = (Inr (), l', bp')" "pool_ok bp'" "quiet bp'"
    "pool_view bp' = (pool_view bp)(pid \<mapsto> b')" "P b'" "l' = l \<or> (\<exists>lsn. l' = snd (WaitUntilFlushed L lsn l))"
    "on_disk (storageManager bp') = on_disk (storageManager bp)"
proof -
  obtain a l' bp1 where v: "GetPage L pid (l, bp) = (Inr a, l', bp1)" "Bytes (frames bp1 a) = b"
      "synced L l (storageManager bp) l' (storageManager bp1)"
      "cached (frames bp1 a) \<longrightarrow> wf_heap_page (frames bp1 a)" "on_disk (storageManager bp1) = on_disk (storageManager bp)"
      "\<And>g dirty. edit_ok (frames bp1 a) g dirty \<Longrightarrow> \<exists>bp''. UnpinPage a dirty (put_frame a g bp1) = Inr bp'' \<and>
         pool_ok bp'' \<and> quiet bp'' \<and> storageManager bp'' = storageManager bp1 \<and>
         pool_view bp'' = (pool_view bp)(pid \<mapsto> Bytes g)"
    using visit_page [OF assms(1-4)] by blast
  obtain g where g: "f (frames bp1 a) = Inr g" "wf_heap_page g" "same_pool_fields (frames bp1 a) g" "P (Bytes g)"
    using f [OF v(2,4)] by blast
  have "edit_ok (frames bp1 a) g True"
    using g wf_page_bytes(5) [OF g(2)] by (simp add: edit_ok_def same_pool_fields_def)
  then obtain bp' where "UnpinPage a True (put_frame a g bp1) = Inr bp'" "pool_ok bp'" "quiet bp'"
      "storageManager bp' = storageManager bp1" "pool_view bp' = (pool_view bp)(pid \<mapsto> Bytes g)"
    using v(6) by blast
  then show thesis
    using that [of l' bp' "Bytes g"] v g by (auto simp: edit_page_def synced_def)
qed

section \<open>The slots of the database\<close>

text \<open>
  The heap pages of the database as the buffer pool sees them.  A record id names a slot
  of one of them.
\<close>

definition page_slots :: "BufferPool \<Rightarrow> PageID \<Rightarrow> slot list option" where
  "page_slots bp pid =
     (case pool_view bp pid of
        Some b \<Rightarrow> if heap_bytes_ok b then Some (slots_of b) else None
      | None \<Rightarrow> None)"

definition slot_no :: "RecordID \<Rightarrow> nat" where
  "slot_no rid = nat (rid_slot rid)"

definition rid_ok :: "(PageID \<Rightarrow> slot list option) \<Rightarrow> RecordID \<Rightarrow> bool" where
  "rid_ok S rid \<longleftrightarrow> 0 \<le> rid_slot rid \<and> (\<exists>ss. S (ridPage rid) = Some ss \<and> slot_no rid < length ss)"

definition slot_at :: "(PageID \<Rightarrow> slot list option) \<Rightarrow> RecordID \<Rightarrow> slot" where
  "slot_at S rid = the (S (ridPage rid)) ! slot_no rid"

definition upd_slot :: "RecordID \<Rightarrow> (slot \<Rightarrow> slot) \<Rightarrow> (PageID \<Rightarrow> slot list option) \<Rightarrow> (PageID \<Rightarrow> slot list option)" where
  "upd_slot rid f S =
     (case S (ridPage rid) of
        None \<Rightarrow> S
      | Some ss \<Rightarrow> S(ridPage rid \<mapsto> ss[slot_no rid := f (ss ! slot_no rid)]))"

lemma upd_slot_rid_ok [simp]: "rid_ok (upd_slot rid f S) r \<longleftrightarrow> rid_ok S r"
  by (auto simp: rid_ok_def upd_slot_def split: option.splits)

lemma rid_inj:
  assumes "0 \<le> rid_slot a" "0 \<le> rid_slot b" "ridPage a = ridPage b" "slot_no a = slot_no b"
  shows "a = b"
proof -
  have "sint (Slot a) = sint (Slot b)" using assms(1,2,4) by (simp add: slot_no_def rid_slot_def eq_nat_nat_iff)
  then have "Slot a = Slot b" by (metis signed_word_eqI)
  then show ?thesis using assms(3) by (simp add: RecordID.expand)
qed

lemma slot_at_upd:
  assumes "rid_ok S a" "rid_ok S b"
  shows "slot_at (upd_slot a f S) b = (if a = b then f (slot_at S b) else slot_at S b)"
  using assms rid_inj [of a b]
  by (auto simp: rid_ok_def slot_at_def upd_slot_def nth_list_update)

lemma upd_slot_twice: "upd_slot rid f (upd_slot rid g S) = upd_slot rid (f \<circ> g) S"
proof (cases "S (ridPage rid)")
  case (Some ss)
  then show ?thesis
    by (cases "slot_no rid < length ss") (simp_all add: upd_slot_def list_update_beyond)
qed (simp add: upd_slot_def)

lemma upd_slot_id:
  assumes "rid_ok S rid" "f (slot_at S rid) = slot_at S rid"
  shows "upd_slot rid f S = S"
  using assms by (auto simp: rid_ok_def slot_at_def upd_slot_def fun_upd_idem_iff)

lemma page_row_small:
  assumes "rid_ok (page_slots bp) rid"
  shows "length (s_row (slot_at (page_slots bp) rid)) \<le> PageSize"
proof -
  obtain b where b: "page_slots bp (ridPage rid) = Some (slots_of b)" "heap_bytes_ok b" "slot_no rid < num_slots b"
    using assms by (auto simp: rid_ok_def page_slots_def split: option.splits if_splits)
  have "row_size b \<le> num_slots b * row_size b" using b(3) by (cases "num_slots b") auto
  also have "\<dots> \<le> PageSize" using b(2) by (simp add: heap_bytes_ok_def layout_end_def)
  finally show ?thesis using slots_row_length [OF b(2,3)] b(1) by (simp add: slot_at_def)
qed

definition store_ok :: "'l LogManager \<Rightarrow> ('l \<Rightarrow> bool) \<Rightarrow> 'l \<Rightarrow> BufferPool \<Rightarrow> bool" where
  "store_ok L linv l bp \<longleftrightarrow> linv l \<and> pool_ok bp \<and> quiet bp \<and> lsns_ok L l bp"

definition log_kept :: "'l LogManager \<Rightarrow> ('l \<Rightarrow> (LSN \<times> log_entry) list) \<Rightarrow> 'l \<Rightarrow> 'l \<Rightarrow> bool" where
  "log_kept L hist l l' \<longleftrightarrow> hist l' = hist l \<and> (\<forall>k. waits L l k \<longrightarrow> waits L l' k) \<and>
     sint (FlushedUntil L l) \<le> sint (FlushedUntil L l')"

context log_service
begin

lemma lsns_kept: "log_kept L history l l' \<Longrightarrow> lsns_ok L l bp \<Longrightarrow> lsns_ok L l' bp"
  by (simp add: log_kept_def lsns_ok_def)

text \<open>An edit of one heap page, through the pool and under the log's contract.\<close>

lemma edit_heap_page:
  assumes ok: "store_ok L linv l bp" and v: "pool_view bp pid = Some b"
    and f: "\<And>pf. Bytes pf = b \<Longrightarrow> cached pf \<longrightarrow> wf_heap_page pf \<Longrightarrow>
      \<exists>g. f pf = Inr g \<and> wf_heap_page g \<and> same_pool_fields pf g \<and> waits L l (page_LSN (Bytes g)) \<and> P (Bytes g)"
  obtains l' bp' b' where "edit_page L pid f (l, bp) = (Inr (), l', bp')" "store_ok L linv l' bp'"
    "pool_view bp' = (pool_view bp)(pid \<mapsto> b')" "P b'" "log_kept L history l l'"
    "on_disk (storageManager bp') = on_disk (storageManager bp)"
proof -
  obtain l' bp' b' where e: "edit_page L pid f (l, bp) = (Inr (), l', bp')" "pool_ok bp'" "quiet bp'"
      "pool_view bp' = (pool_view bp)(pid \<mapsto> b')" "waits L l (page_LSN b') \<and> P b'"
      "l' = l \<or> (\<exists>lsn. l' = snd (WaitUntilFlushed L lsn l))"
      "on_disk (storageManager bp') = on_disk (storageManager bp)"
    using edit_page_ok [of bp pid b L l f "\<lambda>b'. waits L l (page_LSN b') \<and> P b'"] ok v f
    by (metis store_ok_def)
  have "linv l" using ok by (simp add: store_ok_def)
  then have k: "linv l' \<and> log_kept L history l l'"
    using e(6) wait_law [OF \<open>linv l\<close>] by (fastforce simp: log_kept_def prod_eq_iff)
  then have "lsns_ok L l' bp'"
    using ok e(4,5) by (auto simp: lsns_ok_def store_ok_def log_kept_def)
  then show thesis using that [of l' bp' b'] e k by (simp add: store_ok_def)
qed

lemma edit_slot:
  assumes ok: "store_ok L linv l bp" "rid_ok (page_slots bp) rid" "waits L l lsn"
    and f: "\<And>pf. heap_bytes_ok (Bytes pf) \<Longrightarrow> cached pf \<longrightarrow> wf_heap_page pf \<Longrightarrow> rid_slot rid = int (slot_no rid) \<Longrightarrow>
        slot_no rid < num_slots (Bytes pf) \<Longrightarrow> page_slots bp (ridPage rid) = Some (slots_of (Bytes pf)) \<Longrightarrow>
      \<exists>g. f pf = Inr g \<and> wf_heap_page g \<and> same_pool_fields pf g \<and>
        slots_of (Bytes g) = (slots_of (Bytes pf))[slot_no rid := h (slots_of (Bytes pf) ! slot_no rid)] \<and>
        frame_LSN g = max (frame_LSN pf) lsn"
  obtains l' bp' where "edit_page L (ridPage rid) f (l, bp) = (Inr (), l', bp')" "store_ok L linv l' bp'"
    "page_slots bp' = upd_slot rid h (page_slots bp)" "log_kept L history l l'"
    "on_disk (storageManager bp') = on_disk (storageManager bp)"
proof -
  obtain b where b: "pool_view bp (ridPage rid) = Some b" "heap_bytes_ok b" "0 \<le> rid_slot rid" "slot_no rid < num_slots b"
      "page_slots bp (ridPage rid) = Some (slots_of b)"
    using ok(2) by (auto simp: rid_ok_def page_slots_def split: option.splits if_splits)
  have s: "rid_slot rid = int (slot_no rid)" using b(3) by (simp add: slot_no_def)
  have w: "waits L l (page_LSN b)" using ok(1) b(1) by (simp add: store_ok_def lsns_ok_def)
  let ?P = "\<lambda>b'. heap_bytes_ok b' \<and> slots_of b' = (slots_of b)[slot_no rid := h (slots_of b ! slot_no rid)]"
  have e: "\<exists>g. f pf = Inr g \<and> wf_heap_page g \<and> same_pool_fields pf g \<and> waits L l (page_LSN (Bytes g)) \<and> ?P (Bytes g)"
    if pf: "Bytes pf = b" "cached pf \<longrightarrow> wf_heap_page pf" for pf
  proof -
    obtain g where g: "f pf = Inr g" "wf_heap_page g" "same_pool_fields pf g"
        "slots_of (Bytes g) = (slots_of b)[slot_no rid := h (slots_of b ! slot_no rid)]"
        "frame_LSN g = max (frame_LSN pf) lsn"
      using f [of pf] pf b s by auto
    then show ?thesis
      using wf_page_bytes(1) [OF g(2)] w ok(3) pf(1) by (auto simp: frame_LSN_page max_def)
  qed
  obtain l' bp' b' where r: "edit_page L (ridPage rid) f (l, bp) = (Inr (), l', bp')" "store_ok L linv l' bp'"
      "pool_view bp' = (pool_view bp)(ridPage rid \<mapsto> b')" "?P b'" "log_kept L history l l'"
      "on_disk (storageManager bp') = on_disk (storageManager bp)"
    by (rule edit_heap_page [OF ok(1) b(1), of f ?P]) (use e in blast)+
  have "page_slots bp' = upd_slot rid h (page_slots bp)"
    using r(3,4) b by (auto simp: page_slots_def upd_slot_def fun_eq_iff)
  then show thesis using that r by blast
qed

lemma edit_mark_deleted:
  assumes "store_ok L linv l bp" "rid_ok (page_slots bp) rid" "waits L l lsn"
  obtains l' bp' where "edit_page L (ridPage rid) (mark_deleted rid on lsn) (l, bp) = (Inr (), l', bp')"
    "store_ok L linv l' bp'" "page_slots bp' = upd_slot rid (\<lambda>s. s\<lparr>s_del := on\<rparr>) (page_slots bp)"
    "log_kept L history l l'" "on_disk (storageManager bp') = on_disk (storageManager bp)"
proof (rule edit_slot [OF assms, of "mark_deleted rid on lsn" "\<lambda>s. s\<lparr>s_del := on\<rparr>"])
  fix pf
  assume "heap_bytes_ok (Bytes pf)" "cached pf \<longrightarrow> wf_heap_page pf" "rid_slot rid = int (slot_no rid)"
    "slot_no rid < num_slots (Bytes pf)"
  from mark_deleted_ok [OF this, of on lsn]
  show "\<exists>g. mark_deleted rid on lsn pf = Inr g \<and> wf_heap_page g \<and> same_pool_fields pf g \<and>
      slots_of (Bytes g) = (slots_of (Bytes pf))[slot_no rid := (slots_of (Bytes pf) ! slot_no rid)\<lparr>s_del := on\<rparr>] \<and>
      frame_LSN g = max (frame_LSN pf) lsn" by blast
qed (rule that)

lemma edit_write_tuple:
  assumes "store_ok L linv l bp" "rid_ok (page_slots bp) rid" "waits L l lsn"
    and row: "length row = length (s_row (slot_at (page_slots bp) rid))"
  obtains l' bp' where "edit_page L (ridPage rid) (write_tuple rid row lsn) (l, bp) = (Inr (), l', bp')"
    "store_ok L linv l' bp'" "page_slots bp' = upd_slot rid (\<lambda>s. s\<lparr>s_row := row\<rparr>) (page_slots bp)"
    "log_kept L history l l'" "on_disk (storageManager bp') = on_disk (storageManager bp)"
proof (rule edit_slot [OF assms(1-3), of "write_tuple rid row lsn" "\<lambda>s. s\<lparr>s_row := row\<rparr>"])
  fix pf
  assume a: "heap_bytes_ok (Bytes pf)" "cached pf \<longrightarrow> wf_heap_page pf" "rid_slot rid = int (slot_no rid)"
    "slot_no rid < num_slots (Bytes pf)"
    and "page_slots bp (ridPage rid) = Some (slots_of (Bytes pf))"
  then have "length row = row_size (Bytes pf)" using row slots_row_length [OF a(1,4)] by (simp add: slot_at_def)
  from write_tuple_ok [OF a this, of lsn]
  show "\<exists>g. write_tuple rid row lsn pf = Inr g \<and> wf_heap_page g \<and> same_pool_fields pf g \<and>
      slots_of (Bytes g) = (slots_of (Bytes pf))[slot_no rid := (slots_of (Bytes pf) ! slot_no rid)\<lparr>s_row := row\<rparr>] \<and>
      frame_LSN g = max (frame_LSN pf) lsn" by blast
qed (rule that)

lemma append_store:
  assumes "store_ok L linv l bp" "is_entry r e" "LogRecord_Size r < 65536" "Append L r l = (Inr lsn, l')"
  shows "store_ok L linv l' bp" "history l' = history l @ [(lsn, e)]" "waits L l' lsn"
    "\<And>k. waits L l k \<Longrightarrow> waits L l' k" "sint (FlushedUntil L l) \<le> sint (FlushedUntil L l')"
  using append_law [OF _ assms(2-4)] assms(1) by (auto simp: store_ok_def lsns_ok_def)

end

end
