(* ===== verification/Slot_History.thy ===== *)
theory Slot_History
  imports Page_Edit
begin

text \<open>
  What the records of the log mean for the slots of the database, the specification that
  rollback and recovery are measured against.  Every data record changes one slot; the
  compensation of a record is itself a record; a slot is visible when it is allocated and
  not marked deleted.  The main fact is that replaying the compensations of a
  transaction's records in reverse order takes its changes out of the visible rows and
  leaves those of the others.
\<close>

section \<open>Effects of entries\<close>

fun entry_rid :: "log_entry \<Rightarrow> RecordID option" where
  "entry_rid (InsertE _ rid _) = Some rid"
| "entry_rid (UpdateE _ rid _ _) = Some rid"
| "entry_rid (DeleteE _ rid) = Some rid"
| "entry_rid (InsertClrE _ rid) = Some rid"
| "entry_rid (UpdateClrE _ rid _) = Some rid"
| "entry_rid (DeleteClrE _ rid) = Some rid"
| "entry_rid _ = None"

fun entry_txn :: "log_entry \<Rightarrow> TransactionID option" where
  "entry_txn (BeginE t) = Some t"
| "entry_txn (CommitE t) = Some t"
| "entry_txn (AbortE t) = Some t"
| "entry_txn (InsertE t _ _) = Some t"
| "entry_txn (UpdateE t _ _ _) = Some t"
| "entry_txn (DeleteE t _) = Some t"
| "entry_txn (InsertClrE t _) = Some t"
| "entry_txn (UpdateClrE t _ _) = Some t"
| "entry_txn (DeleteClrE t _) = Some t"
| "entry_txn _ = None"

fun slot_do :: "log_entry \<Rightarrow> slot \<Rightarrow> slot" where
  "slot_do (InsertE _ _ row) s = s\<lparr>s_alloc := True, s_row := row\<rparr>"
| "slot_do (UpdateE _ _ _ after) s = s\<lparr>s_row := after\<rparr>"
| "slot_do (DeleteE _ _) s = s\<lparr>s_del := True\<rparr>"
| "slot_do (InsertClrE _ _) s = s\<lparr>s_del := True\<rparr>"
| "slot_do (UpdateClrE _ _ row) s = s\<lparr>s_row := row\<rparr>"
| "slot_do (DeleteClrE _ _) s = s\<lparr>s_del := False\<rparr>"
| "slot_do _ s = s"

lemma slot_do_clr:
  "slot_do (InsertClrE t rid) = (\<lambda>s. s\<lparr>s_del := True\<rparr>)"
  "slot_do (DeleteClrE t rid) = (\<lambda>s. s\<lparr>s_del := False\<rparr>)"
  "slot_do (UpdateClrE t rid row) = (\<lambda>s. s\<lparr>s_row := row\<rparr>)"
  by (simp_all add: fun_eq_iff)

type_synonym slots = "PageID \<Rightarrow> slot list option"

definition do_entry :: "log_entry \<Rightarrow> slots \<Rightarrow> slots" where
  "do_entry e S = (case entry_rid e of None \<Rightarrow> S | Some rid \<Rightarrow> upd_slot rid (slot_do e) S)"

fun clr_of :: "log_entry \<Rightarrow> log_entry list" where
  "clr_of (InsertE t rid _) = [InsertClrE t rid]"
| "clr_of (DeleteE t rid) = [DeleteClrE t rid]"
| "clr_of (UpdateE t rid before _) = [UpdateClrE t rid before]"
| "clr_of _ = []"

definition compensation :: "log_entry list \<Rightarrow> log_entry list" where
  "compensation es = concat (map clr_of (rev es))"

definition vis :: "slot \<Rightarrow> RawTuple option" where
  "vis s = (if s_alloc s \<and> \<not> s_del s then Some (s_row s) else None)"

definition rows :: "slots \<Rightarrow> RecordID \<Rightarrow> RawTuple option" where
  "rows S rid = (if rid_ok S rid then vis (slot_at S rid) else None)"

section \<open>One slot at a time\<close>

definition touch :: "RecordID \<Rightarrow> log_entry list \<Rightarrow> log_entry list" where
  "touch rid es = filter (\<lambda>e. entry_rid e = Some rid) es"

definition rids_ok :: "slots \<Rightarrow> log_entry list \<Rightarrow> bool" where
  "rids_ok S es \<longleftrightarrow> (\<forall>e \<in> set es. \<forall>rid. entry_rid e = Some rid \<longrightarrow> rid_ok S rid)"

lemma do_entry_rid_ok [simp]: "rid_ok (do_entry e S) r \<longleftrightarrow> rid_ok S r"
  by (simp add: do_entry_def split: option.splits)

lemma fold_rid_ok [simp]: "rid_ok (fold do_entry es S) r \<longleftrightarrow> rid_ok S r"
  by (induction es arbitrary: S) auto

lemma slot_at_do:
  assumes "\<forall>r. entry_rid e = Some r \<longrightarrow> rid_ok S r" "rid_ok S rid"
  shows "slot_at (do_entry e S) rid = (if entry_rid e = Some rid then slot_do e (slot_at S rid) else slot_at S rid)"
  using assms by (auto simp: do_entry_def slot_at_upd split: option.splits)

lemma slot_at_fold:
  assumes "rids_ok S es" "rid_ok S rid"
  shows "slot_at (fold do_entry es S) rid = fold slot_do (touch rid es) (slot_at S rid)"
  using assms
proof (induction es arbitrary: S)
  case (Cons e es)
  then show ?case using Cons.IH [of "do_entry e S"] slot_at_do [of e S rid] by (auto simp: rids_ok_def touch_def)
qed (simp add: touch_def)

lemma rows_fold:
  "rids_ok S es \<Longrightarrow> rows (fold do_entry es S) rid =
     (if rid_ok S rid then vis (fold slot_do (touch rid es) (slot_at S rid)) else None)"
  by (simp add: rows_def slot_at_fold)

lemma rows_do_entry:
  assumes "entry_rid e = Some rid" "rid_ok S rid"
  shows "rows (do_entry e S) = (rows S)(rid := vis (slot_do e (slot_at S rid)))"
  using assms slot_at_do [of e S] by (auto simp: rows_def fun_eq_iff)

lemma touch_append [simp]: "touch rid (xs @ ys) = touch rid xs @ touch rid ys"
  by (simp add: touch_def)

lemma touch_compensation: "touch rid (compensation es) = compensation (touch rid es)"
proof (induction es)
  case (Cons e es)
  have "touch rid (clr_of e) = (if entry_rid e = Some rid then clr_of e else [])"
    by (cases e) (auto simp: touch_def)
  moreover have "clr_of e = []" if "entry_rid e = None" using that by (cases e) auto
  ultimately show ?case using Cons by (simp add: compensation_def) (simp add: touch_def)
qed (simp add: compensation_def touch_def)

section \<open>Histories that fit the slots\<close>

fun applies :: "log_entry \<Rightarrow> slot \<Rightarrow> bool" where
  "applies (InsertE _ _ row) s \<longleftrightarrow> \<not> s_alloc s \<and> \<not> s_del s \<and> length row = length (s_row s)"
| "applies (DeleteE _ _) s \<longleftrightarrow> s_alloc s \<and> \<not> s_del s"
| "applies (UpdateE _ _ before after) s \<longleftrightarrow> s_alloc s \<and> \<not> s_del s \<and> s_row s = before \<and> length after = length before"
| "applies _ s \<longleftrightarrow> False"

fun chain :: "log_entry list \<Rightarrow> slot \<Rightarrow> bool" where
  "chain [] s \<longleftrightarrow> True"
| "chain (e # es) s \<longleftrightarrow> applies e s \<and> chain es (slot_do e s)"

lemma chain_snoc: "chain (es @ [e]) s \<longleftrightarrow> chain es s \<and> applies e (fold slot_do es s)"
  by (induction es arbitrary: s) auto

lemma chain_allocates: "chain es s \<Longrightarrow> es \<noteq> [] \<Longrightarrow> s_alloc (fold slot_do es s)"
proof (induction es rule: rev_induct)
  case (snoc e es)
  then show ?case by (cases e) (auto simp: chain_snoc)
qed simp

lemma compensation_snoc: "compensation (es @ [e]) = clr_of e @ compensation es"
  by (simp add: compensation_def)

lemma undo_chain:
  assumes "chain es s"
  shows "vis (fold slot_do (compensation es) (fold slot_do es s)) = vis s"
  using assms
proof (induction es rule: rev_induct)
  case (snoc e es)
  let ?u = "fold slot_do es s"
  have c: "chain es s" "applies e ?u" using snoc.prems by (simp_all add: chain_snoc)
  show ?case
  proof (cases "\<exists>t rid row. e = InsertE t rid row")
    case True
    then have "\<not> s_alloc ?u" using c(2) by auto
    then have "es = []" using chain_allocates [OF c(1)] by blast
    then show ?thesis using True c(2) by (auto simp: compensation_def vis_def)
  next
    case False
    then have "fold slot_do (clr_of e) (slot_do e ?u) = ?u" using c(2) by (cases e) auto
    then show ?thesis using snoc.IH c(1) by (simp add: compensation_snoc)
  qed
qed (simp add: compensation_def)

lemma chain_row_length:
  "chain es s \<Longrightarrow> length (s_row (fold slot_do es s)) = length (s_row s)"
proof (induction es arbitrary: s)
  case (Cons e es)
  have "length (s_row (slot_do e s)) = length (s_row s)" using Cons.prems by (cases e) auto
  then show ?case using Cons by simp
qed simp

section \<open>Taking one transaction out of a history\<close>

definition own :: "TransactionID \<Rightarrow> log_entry list \<Rightarrow> log_entry list" where
  "own t hs = filter (\<lambda>e. entry_txn e = Some t) hs"

definition others :: "TransactionID \<Rightarrow> log_entry list \<Rightarrow> log_entry list" where
  "others t hs = filter (\<lambda>e. entry_txn e \<noteq> Some t) hs"

text \<open>
  What two-phase locking gives a running transaction: its entries fit the slots, and no
  other transaction touches its slots.
\<close>

definition isolated :: "TransactionID \<Rightarrow> log_entry list \<Rightarrow> slots \<Rightarrow> bool" where
  "isolated t hs S \<longleftrightarrow> rids_ok S hs \<and> (\<forall>rid. rid_ok S rid \<longrightarrow> chain (touch rid (own t hs)) (slot_at S rid)) \<and>
     (\<forall>e \<in> set (own t hs). \<forall>e' \<in> set (others t hs). entry_rid e \<noteq> None \<longrightarrow> entry_rid e \<noteq> entry_rid e')"

lemma touch_own_or_others:
  assumes "isolated t hs S"
  shows "touch rid hs = touch rid (own t hs) \<and> touch rid (others t hs) = [] \<or>
    touch rid hs = touch rid (others t hs) \<and> touch rid (own t hs) = []"
proof (cases "touch rid (own t hs) = []")
  case True
  then show ?thesis
    by (auto simp: touch_def own_def others_def filter_empty_conv intro!: filter_cong)
next
  case False
  then obtain e where "e \<in> set (own t hs)" "entry_rid e = Some rid" by (auto simp: touch_def filter_empty_conv)
  then have o': "touch rid (others t hs) = []"
    using assms by (auto simp: isolated_def touch_def filter_empty_conv) (metis option.distinct(1))
  then have "touch rid hs = touch rid (own t hs)"
    by (auto simp: touch_def own_def others_def filter_empty_conv intro!: filter_cong)
  then show ?thesis using o' by blast
qed

lemma rids_ok_subset: "rids_ok S es \<Longrightarrow> set es' \<subseteq> set es \<Longrightarrow> rids_ok S es'"
  by (auto simp: rids_ok_def)

lemma rids_ok_append [simp]: "rids_ok S (xs @ ys) \<longleftrightarrow> rids_ok S xs \<and> rids_ok S ys"
  by (auto simp: rids_ok_def)

lemma rids_ok_compensation: "rids_ok S es \<Longrightarrow> rids_ok S (compensation es)"
proof (induction es)
  case (Cons e es)
  have "rids_ok S (clr_of e)" using Cons.prems by (cases e) (auto simp: rids_ok_def)
  then show ?case using Cons by (simp add: compensation_def) (simp add: rids_ok_def)
qed (simp add: compensation_def rids_ok_def)

theorem rollback_rows:
  assumes "isolated t hs S"
  shows "rows (fold do_entry (compensation (own t hs)) (fold do_entry hs S)) = rows (fold do_entry (others t hs) S)"
proof
  fix rid
  let ?c = "compensation (own t hs)"
  have ok: "rids_ok S hs" using assms by (simp add: isolated_def)
  have ok': "rids_ok S (own t hs)" "rids_ok S (others t hs)"
    using rids_ok_subset [OF ok] by (auto simp: own_def others_def)
  have "rids_ok S (hs @ ?c)" using ok rids_ok_compensation [OF ok'(1)] by simp
  then have l: "rows (fold do_entry ?c (fold do_entry hs S)) rid =
      (if rid_ok S rid then vis (fold slot_do (touch rid hs @ compensation (touch rid (own t hs))) (slot_at S rid)) else None)"
    using rows_fold [of S "hs @ ?c" rid] by (simp add: touch_compensation)
  show "rows (fold do_entry ?c (fold do_entry hs S)) rid = rows (fold do_entry (others t hs) S) rid"
  proof (cases "rid_ok S rid")
    case True
    then have "chain (touch rid (own t hs)) (slot_at S rid)" using assms by (simp add: isolated_def)
    from undo_chain [OF this] show ?thesis
      using touch_own_or_others [OF assms, of rid] True l
      by (auto simp: rows_fold [OF ok'(2)] compensation_def)
  qed (use l in \<open>simp add: rows_fold [OF ok'(2)]\<close>)
qed

section \<open>Faults of the log\<close>

text \<open>A failed append, or a wait that ends with an error.\<close>

definition log_failure :: "'l LogManager \<Rightarrow> ('l \<Rightarrow> bool) \<Rightarrow> fault \<Rightarrow> bool" where
  "log_failure L linv f \<longleftrightarrow> (\<exists>r l. linv l \<and> fst (Append L r l) = Inl f) \<or>
     f \<noteq> Spins \<and> (\<exists>k l. linv l \<and> fst (WaitUntilFlushed L k l) = Inl f)"

end
