(* ===== verification/Txn_Context.thy ===== *)
theory Txn_Context
  imports Lock_Manager Log_Record
begin

text \<open>
  The running state of one transaction (\<^verbatim>\<open>transaction/transaction_context.go\<close>,
  \<^verbatim>\<open>transaction/index_task.go\<close>): the buffer of its log records, used as the undo
  stack, the locks it believes it holds, and the index tasks deferred to its end.

  The record buffer is modelled with its backing array, so that bytes left over from
  popped or reset records are still there when space is reserved again.  The locale
  \<open>undo_stack\<close> states what rollback and recovery rely on, and the buffer is its
  instance.
\<close>

section \<open>The record buffer\<close>

record logRecordBuffer =
  lb_mem :: "byte list"     \<comment> \<open>the backing array, up to its capacity\<close>
  lb_len :: nat             \<comment> \<open>\<^verbatim>\<open>len(s.buffer)\<close>\<close>
  lb_offsets :: "nat list"

definition newLogRecordBuffer :: logRecordBuffer where
  "newLogRecordBuffer = \<lparr>lb_mem = replicate 64 0, lb_len = 0, lb_offsets = []\<rparr>"

text \<open>
  \<^verbatim>\<open>slices.Grow(s, n)\<close> makes room for \<open>n\<close> more bytes: it keeps the whole backing
  array and appends zeros where the capacity is too small.  (The run-time may round the
  capacity up; the extra bytes are zeros as well, so the contents do not depend on it.)
\<close>

definition Grow :: "logRecordBuffer \<Rightarrow> nat \<Rightarrow> logRecordBuffer" where
  "Grow s n = s\<lparr>lb_mem := lb_mem s @ replicate (n - (length (lb_mem s) - lb_len s)) 0\<rparr>"

definition allocate :: "logRecordBuffer \<Rightarrow> nat \<Rightarrow> logRecordBuffer \<times> byte list" where
  "allocate s totalSize =
     (let bufLen = lb_len s;
          s1 = Grow s (lb_len s + totalSize);
          s2 = s1\<lparr>lb_len := bufLen + totalSize, lb_offsets := lb_offsets s1 @ [bufLen]\<rparr>
      in (s2, slice bufLen totalSize (lb_mem s2)))"

definition buffer_len :: "logRecordBuffer \<Rightarrow> nat" where
  "buffer_len s = length (lb_offsets s)"

definition buffer_get :: "logRecordBuffer \<Rightarrow> nat \<Rightarrow> LogRecord res" where
  "buffer_get s i =
     bindR (Assert (i < length (lb_offsets s)) ''index out of bounds'') (\<lambda>_.
       let start = lb_offsets s ! i;
           stop = (if i + 1 < length (lb_offsets s) then lb_offsets s ! (i + 1) else lb_len s)
       in if start \<le> stop
          then bindR (slice_checked start (stop - start) (lb_mem s)) (\<lambda>b. Inr (AsLogRecord b))
          else Inl (Panic ''slice bounds out of range''))"

definition buffer_pop :: "logRecordBuffer \<Rightarrow> logRecordBuffer res" where
  "buffer_pop s =
     (if lb_offsets s = [] then Inl (Panic ''index out of range'')
      else Inr (s\<lparr>lb_len := last (lb_offsets s), lb_offsets := butlast (lb_offsets s)\<rparr>))"

definition buffer_reset :: "logRecordBuffer \<Rightarrow> logRecordBuffer" where
  "buffer_reset s = s\<lparr>lb_len := 0, lb_offsets := []\<rparr>"

text \<open>
  The slice that \<^verbatim>\<open>allocate\<close> returns aliases the buffer: what a constructor or
  \<^verbatim>\<open>WriteToLog\<close> puts there is put into the backing array.
\<close>

definition fill_last :: "byte list \<Rightarrow> logRecordBuffer \<Rightarrow> logRecordBuffer" where
  "fill_last b s = s\<lparr>lb_mem := put_at (last (lb_offsets s)) b (lb_mem s)\<rparr>"

definition new_record :: "nat \<Rightarrow> (byte list \<Rightarrow> LogRecord res) \<Rightarrow> logRecordBuffer \<Rightarrow>
    (LogRecord \<times> logRecordBuffer) res" where
  "new_record n mk s =
     (let (s1, buf) = allocate s n
      in bindR (mk buf) (\<lambda>r. Inr (r, fill_last (lr_data r) s1)))"

section \<open>The undo stack\<close>

text \<open>
  What the buffer promises: it is a stack of records.  Reserving space and building a
  record in it pushes that record and leaves the others unchanged, whatever the reserved
  bytes held before; reading an index returns that record; popping removes the newest.
\<close>

locale undo_stack =
  fixes inv :: "'s \<Rightarrow> bool" and recs :: "'s \<Rightarrow> LogRecord list"
    and push :: "nat \<Rightarrow> (byte list \<Rightarrow> LogRecord res) \<Rightarrow> 's \<Rightarrow> (LogRecord \<times> 's) res"
    and size_op :: "'s \<Rightarrow> nat" and get_op :: "'s \<Rightarrow> nat \<Rightarrow> LogRecord res"
    and pop_op :: "'s \<Rightarrow> 's res" and reset_op :: "'s \<Rightarrow> 's"
  assumes push_law: "inv s \<Longrightarrow> (\<And>buf. length buf = n \<Longrightarrow> \<exists>r. mk buf = Inr r \<and> length (lr_data r) = n \<and> P r) \<Longrightarrow>
      \<exists>r s'. push n mk s = Inr (r, s') \<and> inv s' \<and> recs s' = recs s @ [r] \<and> P r"
    and size_law: "inv s \<Longrightarrow> size_op s = length (recs s)"
    and get_law: "inv s \<Longrightarrow> get_op s i =
      (if i < length (recs s) then Inr (recs s ! i) else Inl (Panic ''index out of bounds''))"
    and pop_law: "inv s \<Longrightarrow> recs s \<noteq> [] \<Longrightarrow> \<exists>s'. pop_op s = Inr s' \<and> inv s' \<and> recs s' = butlast (recs s)"
    and reset_law: "inv s \<Longrightarrow> inv (reset_op s) \<and> recs (reset_op s) = []"
begin

lemma push_pop:
  assumes "inv s" "\<And>buf. length buf = n \<Longrightarrow> \<exists>r. mk buf = Inr r \<and> length (lr_data r) = n"
  obtains r s1 s2 where "push n mk s = Inr (r, s1)" "pop_op s1 = Inr s2" "inv s2" "recs s2 = recs s"
proof -
  obtain r s1 where p: "push n mk s = Inr (r, s1)" "inv s1" "recs s1 = recs s @ [r]"
    using push_law [OF assms(1), of n mk "\<lambda>_. True"] assms(2) by auto
  then obtain s2 where "pop_op s1 = Inr s2" "inv s2" "recs s2 = recs s"
    using pop_law [of s1] by auto
  then show thesis using that p by blast
qed

end

definition rec_slices :: "byte list \<Rightarrow> nat list \<Rightarrow> LogRecord list" where
  "rec_slices mem offs =
     map (\<lambda>i. \<lparr>lr_data = slice (offs ! i) (offs ! (i + 1) - offs ! i) mem\<rparr>) [0..<length offs - 1]"

definition buffer_recs :: "logRecordBuffer \<Rightarrow> LogRecord list" where
  "buffer_recs s = rec_slices (lb_mem s) (lb_offsets s @ [lb_len s])"

definition buffer_inv :: "logRecordBuffer \<Rightarrow> bool" where
  "buffer_inv s \<longleftrightarrow> sorted (lb_offsets s @ [lb_len s]) \<and> lb_len s \<le> length (lb_mem s)"

lemma rec_slices_snoc:
  "rec_slices mem ((offs @ [a]) @ [b]) = rec_slices mem (offs @ [a]) @ [\<lparr>lr_data = slice a (b - a) mem\<rparr>]"
proof -
  have e: "[0..<Suc (length offs)] = [0..<length offs] @ [length offs]" by simp
  show ?thesis by (simp add: rec_slices_def e nth_append)
qed

lemma rec_slices_cong:
  assumes "sorted (offs @ [a])" "a \<le> length mem" "a \<le> length mem'" "take a mem' = take a mem"
  shows "rec_slices mem' (offs @ [a]) = rec_slices mem (offs @ [a])"
proof -
  let ?o = "offs @ [a]"
  have "slice (?o ! i) (?o ! (i + 1) - ?o ! i) mem' = slice (?o ! i) (?o ! (i + 1) - ?o ! i) mem"
    if "i < length offs" for i
  proof -
    have "?o ! i \<le> ?o ! (i + 1)" by (rule sorted_nth_mono [OF assms(1)]) (use that in auto)
    moreover have "?o ! (i + 1) \<le> ?o ! length offs"
      by (rule sorted_nth_mono [OF assms(1)]) (use that in auto)
    ultimately have b: "?o ! i + (?o ! (i + 1) - ?o ! i) \<le> a" by simp
    have "slice o1 n mem' = slice o1 n mem" if "o1 + n \<le> a" for o1 n
    proof -
      have "slice o1 n m = take n (drop o1 (take a m))" for m :: "byte list"
        using that by (simp add: slice_def drop_take)
      then show ?thesis using assms(4) by metis
    qed
    then show ?thesis using b by blast
  qed
  then show ?thesis by (simp add: rec_slices_def)
qed

lemma length_buffer_recs: "length (buffer_recs s) = length (lb_offsets s)"
  by (simp add: buffer_recs_def rec_slices_def)

lemma buffer_get_recs:
  assumes "buffer_inv s"
  shows "buffer_get s i =
    (if i < length (buffer_recs s) then Inr (buffer_recs s ! i) else Inl (Panic ''index out of bounds''))"
proof (cases "i < length (lb_offsets s)")
  case True
  let ?o = "lb_offsets s @ [lb_len s]"
  have s: "sorted ?o" "lb_len s \<le> length (lb_mem s)" using assms by (simp_all add: buffer_inv_def)
  have stop: "(if i + 1 < length (lb_offsets s) then lb_offsets s ! (i + 1) else lb_len s) = ?o ! (i + 1)"
    "lb_offsets s ! i = ?o ! i"
    using True by (auto simp: nth_append)
  have le: "?o ! i \<le> ?o ! (i + 1)" by (rule sorted_nth_mono [OF s(1)]) (use True in auto)
  have "?o ! (i + 1) \<le> ?o ! length (lb_offsets s)" by (rule sorted_nth_mono [OF s(1)]) (use True in auto)
  then have "?o ! (i + 1) \<le> length (lb_mem s)" using s(2) by simp
  then have "buffer_get s i = Inr \<lparr>lr_data = slice (?o ! i) (?o ! (i + 1) - ?o ! i) (lb_mem s)\<rparr>"
    unfolding buffer_get_def stop using True le
    by (simp add: Let_def slice_checked_def AsLogRecord_def)
  then show ?thesis using True by (simp add: length_buffer_recs) (simp add: buffer_recs_def rec_slices_def)
next
  case False
  then show ?thesis by (simp add: buffer_get_def length_buffer_recs)
qed

lemma new_record_pushes:
  assumes inv: "buffer_inv s"
    and mk: "\<And>buf. length buf = n \<Longrightarrow> \<exists>r. mk buf = Inr r \<and> length (lr_data r) = n \<and> P r"
  shows "\<exists>r s'. new_record n mk s = Inr (r, s') \<and> buffer_inv s' \<and> buffer_recs s' = buffer_recs s @ [r] \<and> P r"
proof -
  let ?m = "lb_mem (Grow s (lb_len s + n))"
  have s: "sorted (lb_offsets s @ [lb_len s])" "lb_len s \<le> length (lb_mem s)"
    using inv by (simp_all add: buffer_inv_def)
  have m: "lb_len s + n \<le> length ?m" "take (lb_len s) ?m = take (lb_len s) (lb_mem s)"
    using s(2) by (auto simp: Grow_def)
  obtain r where r: "mk (slice (lb_len s) n ?m) = Inr r" "length (lr_data r) = n" "P r"
    using mk m(1) by (metis length_slice)
  let ?s' = "\<lparr>lb_mem = put_at (lb_len s) (lr_data r) ?m, lb_len = lb_len s + n,
      lb_offsets = lb_offsets s @ [lb_len s]\<rparr>"
  have new: "new_record n mk s = Inr (r, ?s')"
    using r(1) by (simp add: new_record_def allocate_def fill_last_def Let_def Grow_def)
  have "rec_slices (lb_mem ?s') (lb_offsets s @ [lb_len s]) = rec_slices (lb_mem s) (lb_offsets s @ [lb_len s])"
    by (rule rec_slices_cong [OF s]) (use m r(2) s(2) in \<open>auto simp: put_at_def\<close>)
  moreover have "slice (lb_len s) n (lb_mem ?s') = lr_data r" using m(1) r(2) by simp
  ultimately have "buffer_recs ?s' = buffer_recs s @ [r]"
    unfolding buffer_recs_def by (simp add: rec_slices_snoc [simplified])
  moreover have "buffer_inv ?s'" using s m(1) r(2) by (auto simp: buffer_inv_def sorted_append)
  ultimately show ?thesis using new r(3) by blast
qed

lemma buffer_pop_recs:
  assumes "buffer_inv s" "buffer_recs s \<noteq> []"
  shows "\<exists>s'. buffer_pop s = Inr s' \<and> buffer_inv s' \<and> buffer_recs s' = butlast (buffer_recs s)"
proof -
  have ne: "lb_offsets s \<noteq> []" using assms(2) length_buffer_recs [of s] by auto
  then obtain offs a where o: "lb_offsets s = offs @ [a]" by (metis append_butlast_last_id)
  have "buffer_inv (s\<lparr>lb_len := a, lb_offsets := offs\<rparr>)"
    using assms(1) o by (auto simp: buffer_inv_def sorted_append)
  moreover have "buffer_recs (s\<lparr>lb_len := a, lb_offsets := offs\<rparr>) = butlast (buffer_recs s)"
    unfolding buffer_recs_def o rec_slices_snoc by simp
  ultimately show ?thesis using o by (simp add: buffer_pop_def)
qed

lemma buffer_reset_recs: "buffer_inv s \<Longrightarrow> buffer_inv (buffer_reset s) \<and> buffer_recs (buffer_reset s) = []"
  by (simp add: buffer_reset_def buffer_inv_def buffer_recs_def rec_slices_def)

interpretation lrb: undo_stack buffer_inv buffer_recs new_record buffer_len buffer_get buffer_pop buffer_reset
  by unfold_locales
    (simp_all only: length_buffer_recs buffer_len_def buffer_get_recs buffer_pop_recs new_record_pushes
      buffer_reset_recs, erule (1) buffer_pop_recs)

lemma newLogRecordBuffer_inv: "buffer_inv newLogRecordBuffer" "buffer_recs newLogRecordBuffer = []"
  by (simp_all add: newLogRecordBuffer_def buffer_inv_def buffer_recs_def rec_slices_def)


section \<open>Index tasks\<close>

text \<open>
  The callback of a task is a method of an index object; the model keeps a reference to
  the object (its number in the catalog of indexes) and the manager applies the operation.
\<close>

datatype IndexOpType = IndexOpUndoInsert | IndexOpDelete

record IndexTask =
  Target :: nat
  Type :: IndexOpType
  task_Key :: RawTuple
  task_RID :: RecordID

section \<open>The transaction context\<close>

record TransactionContext =
  ctx_id :: TransactionID
  logRecords :: logRecordBuffer
  heldLocks :: "(DBLockTag \<times> DBLockMode) list"   \<comment> \<open>a Go map; the order is its iteration order\<close>
  abortActions :: "IndexTask list"
  commitActions :: "IndexTask list"

definition AddAbortTask :: "IndexTask \<Rightarrow> TransactionContext \<Rightarrow> TransactionContext" where
  "AddAbortTask task txn = txn\<lparr>abortActions := abortActions txn @ [task]\<rparr>"

definition AddCommitTask :: "IndexTask \<Rightarrow> TransactionContext \<Rightarrow> TransactionContext" where
  "AddCommitTask task txn = txn\<lparr>commitActions := commitActions txn @ [task]\<rparr>"

text \<open>A shared lock joined with the intention to write is \<^verbatim>\<open>SIX\<close>.\<close>

definition upgrade_mode :: "DBLockMode \<Rightarrow> DBLockMode \<Rightarrow> DBLockMode" where
  "upgrade_mode heldMode mode =
     (if heldMode = LockModeS \<and> mode = LockModeIX \<or> mode = LockModeS \<and> heldMode = LockModeIX
      then LockModeSIX else mode)"

text \<open>
  \<open>Acquired\<close> is a return without an error; \<open>Waiting m\<close> is a call suspended inside
  \<^verbatim>\<open>lm.Lock\<close> with the requested mode \<open>m\<close>, which \<open>AcquireLock_return\<close> completes
  when the lock manager delivers its message.
\<close>

datatype acquire_outcome = Acquired | Waiting DBLockMode

definition AcquireLock :: "LockManager \<Rightarrow> TransactionContext \<Rightarrow> DBLockTag \<Rightarrow> DBLockMode \<Rightarrow>
    (acquire_outcome \<times> TransactionContext \<times> LockManager) res" where
  "AcquireLock lm txn tag mode =
     (let loaded = map_of (heldLocks txn) tag
      in if (case loaded of Some heldMode \<Rightarrow> IsLockModeCovered heldMode mode | None \<Rightarrow> False)
         then Inr (Acquired, txn, lm)
         else let mode' = (case loaded of Some heldMode \<Rightarrow> upgrade_mode heldMode mode | None \<Rightarrow> mode)
              in bindR (Lock lm (ctx_id txn) tag mode') (\<lambda>(res, lm').
                 case res of
                   Granted \<Rightarrow> Inr (Acquired, txn\<lparr>heldLocks := AList.update tag mode' (heldLocks txn)\<rparr>, lm')
                 | Blocked \<Rightarrow> Inr (Waiting mode', txn, lm')))"

definition AcquireLock_return :: "LockManager \<Rightarrow> TransactionContext \<Rightarrow> DBLockTag \<Rightarrow> DBLockMode \<Rightarrow> 32 word \<Rightarrow>
    fault option \<Rightarrow> fault option \<times> TransactionContext \<times> LockManager" where
  "AcquireLock_return lm txn tag mode' backOff0 err =
     (let lm' = Lock_return lm (ctx_id txn) backOff0 err
      in case err of
           Some e \<Rightarrow> (Some e, txn, lm')
         | None \<Rightarrow> (None, txn\<lparr>heldLocks := AList.update tag mode' (heldLocks txn)\<rparr>, lm'))"

definition HeldLock :: "TransactionContext \<Rightarrow> DBLockTag \<Rightarrow> DBLockMode \<times> bool" where
  "HeldLock txn tag = (case map_of (heldLocks txn) tag of None \<Rightarrow> (LockModeS, False) | Some mode \<Rightarrow> (mode, True))"

text \<open>
  The returned error of \<^verbatim>\<open>Unlock\<close> is ignored; its deferred clean-up has run.  A panic
  is not ignored.
\<close>

definition release_one :: "TransactionID \<Rightarrow> DBLockTag \<Rightarrow> LockManager \<Rightarrow> LockManager res" where
  "release_one tid tag lm =
     (case Unlock lm tid tag of
        Inr lm' \<Rightarrow> Inr lm'
      | Inl (Panic m) \<Rightarrow> Inl (Panic m)
      | Inl _ \<Rightarrow> Inr (delInactiveTCB lm tid))"

definition ReleaseAllLocks :: "LockManager \<Rightarrow> TransactionContext \<Rightarrow> LockManager res" where
  "ReleaseAllLocks lm txn =
     (let tags = map fst (heldLocks txn)
      in bindR (foldR (release_one (ctx_id txn)) (filter (\<lambda>tag. \<not> IsTableTag tag) tags) lm)
           (foldR (release_one (ctx_id txn)) (filter IsTableTag tags)))"

definition Reset :: "TransactionID \<Rightarrow> TransactionContext \<Rightarrow> TransactionContext" where
  "Reset tid txn = txn\<lparr>logRecords := buffer_reset (logRecords txn), ctx_id := tid, heldLocks := [],
     abortActions := [], commitActions := []\<rparr>"

definition NewTestTransactionContext :: "TransactionID \<Rightarrow> TransactionContext" where
  "NewTestTransactionContext tid = \<lparr>ctx_id = tid, logRecords = newLogRecordBuffer, heldLocks = [],
     abortActions = [], commitActions = []\<rparr>"

section \<open>Records built in the context's buffer\<close>

definition txn_new :: "nat \<Rightarrow> (byte list \<Rightarrow> LogRecord res) \<Rightarrow> TransactionContext \<Rightarrow>
    (LogRecord \<times> TransactionContext) res" where
  "txn_new n mk txn = bindR (new_record n mk (logRecords txn)) (\<lambda>(r, s). Inr (r, txn\<lparr>logRecords := s\<rparr>))"

definition txn_NewBeginTransactionRecord :: "TransactionContext \<Rightarrow> (LogRecord \<times> TransactionContext) res" where
  "txn_NewBeginTransactionRecord txn =
     txn_new BeginTransactionRecordSize (\<lambda>buf. NewBeginTransactionRecord buf (ctx_id txn)) txn"

definition txn_NewCommitRecord :: "TransactionContext \<Rightarrow> (LogRecord \<times> TransactionContext) res" where
  "txn_NewCommitRecord txn = txn_new CommitRecordSize (\<lambda>buf. NewCommitRecord buf (ctx_id txn)) txn"

definition txn_NewAbortRecord :: "TransactionContext \<Rightarrow> (LogRecord \<times> TransactionContext) res" where
  "txn_NewAbortRecord txn = txn_new AbortRecordSize (\<lambda>buf. NewAbortRecord buf (ctx_id txn)) txn"

definition txn_NewInsertCLR :: "LogRecord \<Rightarrow> TransactionContext \<Rightarrow> (LogRecord \<times> TransactionContext) res" where
  "txn_NewInsertCLR insertRecord txn = txn_new InsertCLRSize (\<lambda>buf. NewInsertCLR buf insertRecord) txn"

definition txn_NewInsertRecord :: "RecordID \<Rightarrow> RawTuple \<Rightarrow> TransactionContext \<Rightarrow>
    (LogRecord \<times> TransactionContext) res" where
  "txn_NewInsertRecord rid row txn =
     txn_new (InsertRecordSize row) (\<lambda>buf. NewInsertRecord buf (ctx_id txn) rid row) txn"

definition txn_NewDeleteCLR :: "LogRecord \<Rightarrow> TransactionContext \<Rightarrow> (LogRecord \<times> TransactionContext) res" where
  "txn_NewDeleteCLR deleteRecord txn = txn_new DeleteCLRSize (\<lambda>buf. NewDeleteCLR buf deleteRecord) txn"

definition txn_NewDeleteRecord :: "RecordID \<Rightarrow> TransactionContext \<Rightarrow> (LogRecord \<times> TransactionContext) res" where
  "txn_NewDeleteRecord rid txn = txn_new DeleteRecordSize (\<lambda>buf. NewDeleteRecord buf (ctx_id txn) rid) txn"

definition txn_NewUpdateCLR :: "LogRecord \<Rightarrow> TransactionContext \<Rightarrow> (LogRecord \<times> TransactionContext) res" where
  "txn_NewUpdateCLR updateRecord txn =
     bindR (UpdateCLRSize updateRecord) (\<lambda>n. txn_new n (\<lambda>buf. NewUpdateCLR buf updateRecord) txn)"

definition txn_NewUpdateRecord :: "RecordID \<Rightarrow> RawTuple \<Rightarrow> RawTuple \<Rightarrow> TransactionContext \<Rightarrow>
    (LogRecord \<times> TransactionContext) res" where
  "txn_NewUpdateRecord rid before after txn =
     bindR (UpdateRecordSize before after) (\<lambda>n.
       txn_new n (\<lambda>buf. NewUpdateRecord buf (ctx_id txn) rid before after) txn)"

definition BufferRecordForRecovery :: "LogRecord \<Rightarrow> TransactionContext \<Rightarrow> TransactionContext res" where
  "BufferRecordForRecovery r txn =
     bindR (RecordType r) (\<lambda>t.
     if t = LogInsertCLR \<or> t = LogDeleteCLR \<or> t = LogUpdateCLR
     then bindR (Assert (buffer_len (logRecords txn) > 0)
                  ''Failed to pop a log record from the buffer because the size of log <= 0'') (\<lambda>_.
          bindR (buffer_pop (logRecords txn)) (\<lambda>s. Inr (txn\<lparr>logRecords := s\<rparr>)))
     else bindR (txn_new (LogRecord_Size r) (\<lambda>buf. bindR (WriteToLog r buf) (\<lambda>b. Inr (AsLogRecord b))) txn)
            (\<lambda>(_, txn'). Inr txn'))"

section \<open>Records pushed by a transaction\<close>

definition ctx_log :: "TransactionContext \<Rightarrow> log_entry list \<Rightarrow> bool" where
  "ctx_log txn es \<longleftrightarrow> buffer_inv (logRecords txn) \<and> list_all2 is_entry (buffer_recs (logRecords txn)) es"

lemma set_logRecords_inj [simp]: "txn\<lparr>logRecords := a\<rparr> = txn\<lparr>logRecords := b\<rparr> \<longleftrightarrow> a = b"
  by (cases txn) simp

lemma is_entry_length: "is_entry r e \<Longrightarrow> length (lr_data r) = 6 + length (entry_bytes e)"
  by (auto simp: is_entry_def)

lemma txn_new_pushes:
  assumes "ctx_log txn es" "n = 6 + length (entry_bytes e)"
    and mk: "\<And>buf. length buf = n \<Longrightarrow> \<exists>r. mk buf = Inr r \<and> is_entry r e"
  shows "\<exists>r s. txn_new n mk txn = Inr (r, txn\<lparr>logRecords := s\<rparr>) \<and> is_entry r e \<and>
    ctx_log (txn\<lparr>logRecords := s\<rparr>) (es @ [e])"
proof -
  have "buffer_inv (logRecords txn)" using assms(1) by (simp add: ctx_log_def)
  then have "\<exists>r s'. new_record n mk (logRecords txn) = Inr (r, s') \<and> buffer_inv s' \<and>
      buffer_recs s' = buffer_recs (logRecords txn) @ [r] \<and> is_entry r e"
    by (rule lrb.push_law) (use mk assms(2) is_entry_length in metis)
  then show ?thesis
    using assms(1) by (auto simp: txn_new_def ctx_log_def list_all2_appendI)
qed

lemmas entry_sizes = record_sizes log_offsets

lemma txn_records:
  assumes "ctx_log txn es"
  shows "\<exists>r s. txn_NewBeginTransactionRecord txn = Inr (r, txn\<lparr>logRecords := s\<rparr>) \<and> is_entry r (BeginE (ctx_id txn)) \<and>
      ctx_log (txn\<lparr>logRecords := s\<rparr>) (es @ [BeginE (ctx_id txn)])"
    and "\<exists>r s. txn_NewCommitRecord txn = Inr (r, txn\<lparr>logRecords := s\<rparr>) \<and> is_entry r (CommitE (ctx_id txn)) \<and>
      ctx_log (txn\<lparr>logRecords := s\<rparr>) (es @ [CommitE (ctx_id txn)])"
    and "\<exists>r s. txn_NewAbortRecord txn = Inr (r, txn\<lparr>logRecords := s\<rparr>) \<and> is_entry r (AbortE (ctx_id txn)) \<and>
      ctx_log (txn\<lparr>logRecords := s\<rparr>) (es @ [AbortE (ctx_id txn)])"
    and "\<exists>r s. txn_NewInsertRecord rid row txn = Inr (r, txn\<lparr>logRecords := s\<rparr>) \<and>
      is_entry r (InsertE (ctx_id txn) rid row) \<and> ctx_log (txn\<lparr>logRecords := s\<rparr>) (es @ [InsertE (ctx_id txn) rid row])"
    and "\<exists>r s. txn_NewDeleteRecord rid txn = Inr (r, txn\<lparr>logRecords := s\<rparr>) \<and>
      is_entry r (DeleteE (ctx_id txn) rid) \<and> ctx_log (txn\<lparr>logRecords := s\<rparr>) (es @ [DeleteE (ctx_id txn) rid])"
  unfolding txn_NewBeginTransactionRecord_def txn_NewCommitRecord_def txn_NewAbortRecord_def
    txn_NewInsertRecord_def txn_NewDeleteRecord_def
  by (rule txn_new_pushes [OF assms];
      use NewTxnRecords NewInsertRecord_entry NewDeleteRecord_entry in \<open>simp add: entry_sizes\<close>)+

lemma txn_update_record:
  assumes "ctx_log txn es" "length before = length after"
  shows "\<exists>r s. txn_NewUpdateRecord rid before after txn = Inr (r, txn\<lparr>logRecords := s\<rparr>) \<and>
      is_entry r (UpdateE (ctx_id txn) rid before after) \<and>
      ctx_log (txn\<lparr>logRecords := s\<rparr>) (es @ [UpdateE (ctx_id txn) rid before after])"
proof -
  have "UpdateRecordSize before after = Inr (28 + length before + length after)"
    using assms(2) by (simp add: UpdateRecordSize_def log_offsets)
  then show ?thesis
    unfolding txn_NewUpdateRecord_def
    using txn_new_pushes [OF assms(1), of "28 + length before + length after"] NewUpdateRecord_entry [OF assms(2)]
    by simp
qed

lemma txn_clrs:
  assumes "ctx_log txn es"
  shows "is_entry r (InsertE t rid row) \<Longrightarrow> \<exists>c s. txn_NewInsertCLR r txn = Inr (c, txn\<lparr>logRecords := s\<rparr>) \<and>
      is_entry c (InsertClrE t rid) \<and> ctx_log (txn\<lparr>logRecords := s\<rparr>) (es @ [InsertClrE t rid])"
    and "is_entry r (DeleteE t rid) \<Longrightarrow> \<exists>c s. txn_NewDeleteCLR r txn = Inr (c, txn\<lparr>logRecords := s\<rparr>) \<and>
      is_entry c (DeleteClrE t rid) \<and> ctx_log (txn\<lparr>logRecords := s\<rparr>) (es @ [DeleteClrE t rid])"
    and "is_entry r (UpdateE t rid before after) \<Longrightarrow> \<exists>c s. txn_NewUpdateCLR r txn = Inr (c, txn\<lparr>logRecords := s\<rparr>) \<and>
      is_entry c (UpdateClrE t rid before) \<and> ctx_log (txn\<lparr>logRecords := s\<rparr>) (es @ [UpdateClrE t rid before])"
proof -
  show "\<exists>c s. txn_NewInsertCLR r txn = Inr (c, txn\<lparr>logRecords := s\<rparr>) \<and>
      is_entry c (InsertClrE t rid) \<and> ctx_log (txn\<lparr>logRecords := s\<rparr>) (es @ [InsertClrE t rid])"
    if "is_entry r (InsertE t rid row)"
    unfolding txn_NewInsertCLR_def
    by (rule txn_new_pushes [OF assms]) (use that NewInsertCLR_entry in \<open>auto simp: entry_sizes\<close>)
  show "\<exists>c s. txn_NewDeleteCLR r txn = Inr (c, txn\<lparr>logRecords := s\<rparr>) \<and>
      is_entry c (DeleteClrE t rid) \<and> ctx_log (txn\<lparr>logRecords := s\<rparr>) (es @ [DeleteClrE t rid])"
    if "is_entry r (DeleteE t rid)"
    unfolding txn_NewDeleteCLR_def
    by (rule txn_new_pushes [OF assms]) (use that NewDeleteCLR_entry in \<open>auto simp: entry_sizes\<close>)
  show "\<exists>c s. txn_NewUpdateCLR r txn = Inr (c, txn\<lparr>logRecords := s\<rparr>) \<and>
      is_entry c (UpdateClrE t rid before) \<and> ctx_log (txn\<lparr>logRecords := s\<rparr>) (es @ [UpdateClrE t rid before])"
    if u: "is_entry r (UpdateE t rid before after)"
  proof -
    have "UpdateCLRSize r = Inr (28 + length before)"
      using NewUpdateCLR_entry(1) [of "replicate (28 + length before) 0" before r] u by simp
    then show ?thesis
      unfolding txn_NewUpdateCLR_def
      using txn_new_pushes [OF assms, of "28 + length before" "UpdateClrE t rid before"] NewUpdateCLR_entry(2) u
      by simp
  qed
qed

section \<open>Rebuilding the undo stack\<close>

text \<open>The undo stack as a function of the logged history: a compensation record undoes the newest entry.\<close>

fun is_clr :: "log_entry \<Rightarrow> bool" where
  "is_clr (InsertClrE _ _) = True"
| "is_clr (DeleteClrE _ _) = True"
| "is_clr (UpdateClrE _ _ _) = True"
| "is_clr _ = False"

fun undo_history :: "log_entry list \<Rightarrow> log_entry list \<Rightarrow> log_entry list option" where
  "undo_history st [] = Some st"
| "undo_history st (e # es) =
     (if is_clr e then if st = [] then None else undo_history (butlast st) es
      else undo_history (st @ [e]) es)"

text \<open>Which compensation record belongs to which change.\<close>

fun undoes :: "log_entry \<Rightarrow> log_entry \<Rightarrow> bool" where
  "undoes (InsertClrE t rid) (InsertE t' rid' row) \<longleftrightarrow> t = t' \<and> rid = rid'"
| "undoes (DeleteClrE t rid) (DeleteE t' rid') \<longleftrightarrow> t = t' \<and> rid = rid'"
| "undoes (UpdateClrE t rid row) (UpdateE t' rid' before after) \<longleftrightarrow> t = t' \<and> rid = rid' \<and> row = before"
| "undoes _ _ \<longleftrightarrow> False"

lemma undoes_clr: "undoes c e \<Longrightarrow> is_clr c"
  by (cases c; cases e) simp_all

lemma undo_history_changes: "\<forall>e \<in> set es. \<not> is_clr e \<Longrightarrow> undo_history st (es @ cs) = undo_history (st @ es) cs"
  by (induction es arbitrary: st) simp_all

lemma undo_history_clrs: "list_all2 undoes cs (rev es) \<Longrightarrow> undo_history (st @ es) cs = Some st"
proof (induction cs arbitrary: es)
  case (Cons c cs)
  then obtain e es' where e: "rev es = e # es'" "undoes c e" "list_all2 undoes cs es'" by (auto simp: list_all2_Cons1)
  then have "es = rev es' @ [e]" by (metis rev.simps(2) rev_rev_ident)
  then show ?case using Cons.IH [of "rev es'"] e undoes_clr by (simp add: butlast_append)
qed simp

lemma entry_RecordType: "is_entry r e \<Longrightarrow> RecordType r = Inr (entry_type e)"
  by (cases r, cases e) (auto simp: is_entry_def log_record_reads log_record_reads_end)

lemma WriteToLog_entry:
  assumes "is_entry r e" "length buf = LogRecord_Size r"
  shows "\<exists>b. WriteToLog r buf = Inr b \<and> is_entry \<lparr>lr_data = b\<rparr> e"
proof -
  obtain h where h: "length h = 6" "lr_data r = h @ entry_bytes e" "wf_entry e"
    using assms(1) by (auto simp: is_entry_def)
  have "8 \<le> length (lr_data r)" using h by (cases e) auto
  then have "WriteToLog r buf = Inr (le_put 2 (of_nat (length buf) :: 16 word) @
      le_put 4 (ChecksumIEEE (drop 6 (lr_data r))) @ drop 6 (lr_data r))"
    using assms(2) by (intro WriteToLog_bytes) (simp_all add: LogRecord_Size_def)
  then show ?thesis
    using h is_entryI [of "le_put 2 (of_nat (length buf) :: 16 word) @ le_put 4 (ChecksumIEEE (drop 6 (lr_data r)))" e]
    by auto
qed

lemma BufferRecordForRecovery_entry:
  assumes "ctx_log txn st" "is_entry r e"
  shows "if is_clr e \<and> st = [] then \<exists>m. BufferRecordForRecovery r txn = Inl (Panic m)
    else \<exists>s. BufferRecordForRecovery r txn = Inr (txn\<lparr>logRecords := s\<rparr>) \<and>
      ctx_log (txn\<lparr>logRecords := s\<rparr>) (if is_clr e then butlast st else st @ [e])"
proof -
  have b: "buffer_inv (logRecords txn)" "list_all2 is_entry (buffer_recs (logRecords txn)) st"
    using assms(1) by (simp_all add: ctx_log_def)
  have t: "entry_type e = LogInsertCLR \<or> entry_type e = LogDeleteCLR \<or> entry_type e = LogUpdateCLR \<longleftrightarrow> is_clr e"
    by (cases e) (simp_all add: log_types)
  have len: "buffer_len (logRecords txn) = length st"
    using lrb.size_law [OF b(1)] b(2) by (simp add: list_all2_lengthD)
  show ?thesis
  proof (cases "is_clr e")
    case True
    show ?thesis
    proof (cases "st = []")
      case False
      then have "buffer_recs (logRecords txn) \<noteq> []" using b(2) by auto
      then obtain s where s: "buffer_pop (logRecords txn) = Inr s" "buffer_inv s"
          "buffer_recs s = butlast (buffer_recs (logRecords txn))"
        using lrb.pop_law [OF b(1)] by auto
      have "list_all2 is_entry (buffer_recs s) (butlast st)"
        using b(2) unfolding s(3) butlast_conv_take by (simp add: list_all2_lengthD [OF b(2)])
      then show ?thesis
        using True False s len
        by (simp add: BufferRecordForRecovery_def entry_RecordType [OF assms(2)] t ctx_log_def)
    qed (use True len in \<open>simp add: BufferRecordForRecovery_def entry_RecordType [OF assms(2)] t\<close>)
  next
    case False
    have "\<exists>c s. txn_new (LogRecord_Size r) (\<lambda>buf. bindR (WriteToLog r buf) (\<lambda>b. Inr (AsLogRecord b))) txn =
        Inr (c, txn\<lparr>logRecords := s\<rparr>) \<and> is_entry c e \<and> ctx_log (txn\<lparr>logRecords := s\<rparr>) (st @ [e])"
      by (rule txn_new_pushes [OF assms(1)])
        (use WriteToLog_entry [OF assms(2)] is_entry_length [OF assms(2)] in
          \<open>force simp: LogRecord_Size_def AsLogRecord_def\<close>)+
    then show ?thesis
      using False by (auto simp: BufferRecordForRecovery_def entry_RecordType [OF assms(2)] t)
  qed
qed

lemma rebuild_undo:
  assumes "list_all2 is_entry rs es" "ctx_log txn st"
  shows "case undo_history st es of
     Some st' \<Rightarrow> \<exists>s. foldR BufferRecordForRecovery rs txn = Inr (txn\<lparr>logRecords := s\<rparr>) \<and> ctx_log (txn\<lparr>logRecords := s\<rparr>) st'
   | None \<Rightarrow> \<exists>m. foldR BufferRecordForRecovery rs txn = Inl (Panic m)"
  using assms
proof (induction rs es arbitrary: txn st rule: list_all2_induct)
  case Nil
  then show ?case by (auto intro: exI [of _ "logRecords txn"])
next
  case (Cons r rs e es)
  show ?case
  proof (cases "is_clr e \<and> st = []")
    case True
    then show ?thesis using BufferRecordForRecovery_entry [OF Cons.prems Cons.hyps(1)] by auto
  next
    case False
    then obtain s where s: "BufferRecordForRecovery r txn = Inr (txn\<lparr>logRecords := s\<rparr>)"
        "ctx_log (txn\<lparr>logRecords := s\<rparr>) (if is_clr e then butlast st else st @ [e])"
      using BufferRecordForRecovery_entry [OF Cons.prems Cons.hyps(1)] by auto
    have "undo_history st (e # es) = undo_history (if is_clr e then butlast st else st @ [e]) es"
      using False by auto
    then show ?thesis using Cons.IH [OF s(2)] s(1)
      by (cases "undo_history (if is_clr e then butlast st else st @ [e]) es") (simp_all del: undo_history.simps)
  qed
qed

section \<open>Locks of a transaction\<close>

text \<open>The context's table of held locks agrees with the lock manager.\<close>

definition ctx_locks :: "LockManager \<Rightarrow> TransactionContext \<Rightarrow> bool" where
  "ctx_locks lm txn \<longleftrightarrow> distinct (map fst (heldLocks txn)) \<and>
     (\<forall>tag. map_of (heldLocks txn) tag = hold lm (ctx_id txn) tag)"

lemma upgrade_covers:
  "IsLockModeCovered (upgrade_mode h m) m" "IsLockModeCovered (upgrade_mode h m) h \<or> IsLockModeCovered h m"
  "\<not> IsLockModeCovered h m \<Longrightarrow> \<not> IsLockModeCovered h (upgrade_mode h m)" "IsLockModeCovered h h"
  by (cases h; cases m; simp add: upgrade_mode_def IsLockModeCovered_def)+

lemma AcquireLock_step:
  assumes inv: "lm_inv lm" "waiting_for lm (ctx_id txn) = None" and ok: "ctx_locks lm txn"
  shows "\<exists>res txn' lm'. AcquireLock lm txn tag mode = Inr (res, txn', lm') \<and> lm_inv lm' \<and>
    (case res of
       Acquired \<Rightarrow> ctx_locks lm' txn' \<and> waiting_for lm' (ctx_id txn') = None \<and> ctx_id txn' = ctx_id txn \<and>
         (\<exists>k. map_of (heldLocks txn') tag = Some k \<and> IsLockModeCovered k mode \<and>
            (\<forall>h. map_of (heldLocks txn) tag = Some h \<longrightarrow> IsLockModeCovered k h)) \<and>
         (\<forall>g. g \<noteq> tag \<longrightarrow> map_of (heldLocks txn') g = map_of (heldLocks txn) g)
     | Waiting m \<Rightarrow> txn' = txn)"
proof -
  let ?h = "map_of (heldLocks txn) tag"
  have h: "hold lm (ctx_id txn) g = map_of (heldLocks txn) g" for g
    using ok by (simp add: ctx_locks_def)
  show ?thesis
  proof (cases "\<exists>m. ?h = Some m \<and> IsLockModeCovered m mode")
    case True
    then obtain m where m: "?h = Some m" "IsLockModeCovered m mode" by blast
    then have "AcquireLock lm txn tag mode = Inr (Acquired, txn, lm)" by (simp add: AcquireLock_def)
    then show ?thesis using assms m upgrade_covers(4) by simp
  next
    case False
    let ?m = "case ?h of Some heldMode \<Rightarrow> upgrade_mode heldMode mode | None \<Rightarrow> mode"
    have nc: "\<not> (case ?h of Some heldMode \<Rightarrow> IsLockModeCovered heldMode mode | None \<Rightarrow> False)"
      using False by (auto split: option.splits)
    obtain out lm' where l: "Lock lm (ctx_id txn) tag ?m = Inr (out, lm')" "lm_inv lm'"
      using Lock_inv [OF inv] by blast
    show ?thesis
    proof (cases out)
      case Blocked
      then show ?thesis using l nc by (simp add: AcquireLock_def Let_def)
    next
      case Granted
      let ?txn = "txn\<lparr>heldLocks := AList.update tag ?m (heldLocks txn)\<rparr>"
      have "hold lm' (ctx_id txn) g = (if g = tag then Some ?m else map_of (heldLocks txn) g)"
        "waiting_for lm' (ctx_id txn) = None" for g
        using lms.lock_law [OF inv l(1) [unfolded Granted], of g] False
        by (auto simp: h upgrade_covers(3) split: option.splits)
      then have "ctx_locks lm' ?txn" "waiting_for lm' (ctx_id txn) = None"
        using ok by (auto simp: ctx_locks_def update_conv distinct_update)
      moreover have "IsLockModeCovered ?m mode" "\<forall>h. ?h = Some h \<longrightarrow> IsLockModeCovered ?m h"
        using False upgrade_covers(2) by (auto simp: upgrade_covers(1,4) split: option.splits)
      ultimately show ?thesis
        using l Granted nc by (auto simp: AcquireLock_def Let_def update_conv)
    qed
  qed
qed

lemma release_all:
  assumes "lm_inv lm" "waiting_for lm t = None" "distinct gs" "\<forall>g \<in> set gs. hold lm t g \<noteq> None"
  shows "\<exists>lm'. foldR (release_one t) gs lm = Inr lm' \<and> lm_inv lm' \<and> waiting_for lm' t = None \<and>
    (\<forall>g. hold lm' t g = (if g \<in> set gs then None else hold lm t g))"
proof -
  have "foldR (\<lambda>g l. Unlock l t g) gs l = Inr l' \<Longrightarrow> foldR (release_one t) gs l = Inr l'" for l l'
    by (induction gs arbitrary: l) (auto simp: release_one_def)
  then show ?thesis using lms.release_list [OF assms] by blast
qed

lemma ReleaseAllLocks_none:
  assumes "lm_inv lm" "waiting_for lm (ctx_id txn) = None" "ctx_locks lm txn"
  shows "\<exists>lm'. ReleaseAllLocks lm txn = Inr lm' \<and> lm_inv lm' \<and> waiting_for lm' (ctx_id txn) = None \<and>
    (\<forall>tag. hold lm' (ctx_id txn) tag = None)"
proof -
  let ?tags = "map fst (heldLocks txn)" and ?t = "ctx_id txn"
  have d: "distinct ?tags" "\<And>g. hold lm ?t g \<noteq> None \<longleftrightarrow> g \<in> set ?tags"
    using assms(3) by (auto simp: ctx_locks_def) (metis map_of_eq_None_iff image_eqI fst_conv option.distinct(1) set_map weak_map_of_SomeI)+
  obtain lm1 where 1: "foldR (release_one ?t) (filter (\<lambda>g. \<not> IsTableTag g) ?tags) lm = Inr lm1" "lm_inv lm1"
      "waiting_for lm1 ?t = None"
      "\<And>g. hold lm1 ?t g = (if g \<in> set (filter (\<lambda>g. \<not> IsTableTag g) ?tags) then None else hold lm ?t g)"
    using release_all [OF assms(1,2), of "filter (\<lambda>g. \<not> IsTableTag g) ?tags"] d by auto
  obtain lm2 where 2: "foldR (release_one ?t) (filter IsTableTag ?tags) lm1 = Inr lm2" "lm_inv lm2"
      "waiting_for lm2 ?t = None"
      "\<And>g. hold lm2 ?t g = (if g \<in> set (filter IsTableTag ?tags) then None else hold lm1 ?t g)"
    using release_all [OF 1(2,3), of "filter IsTableTag ?tags"] d 1(4) by auto
  have "hold lm2 ?t g = None" for g
    using 1(4) [of g] 2(4) [of g] d(2) [of g] by (cases "hold lm ?t g") auto
  then show ?thesis using 1(1) 2 by (simp add: ReleaseAllLocks_def Let_def)
qed

section \<open>Properties of the transaction context\<close>

text \<open>
  C33: Lock upgrades.  When the context's table agrees with a reachable lock manager and
  the transaction is not waiting, \<^verbatim>\<open>AcquireLock\<close> does not panic; when it returns, the
  recorded mode of the resource covers both the requested mode and the mode held before
  (so \<^verbatim>\<open>S\<close> with \<^verbatim>\<open>IX\<close> becomes \<^verbatim>\<open>SIX\<close>), the other resources are
  unchanged, and the table still agrees with the lock manager; when it blocks, the table
  is unchanged.
\<close>

theorem AcquireLock_covers:
  assumes "lock_reach lm" "waiting_for lm (ctx_id txn) = None" "ctx_locks lm txn"
  shows "\<exists>res txn' lm'. AcquireLock lm txn tag mode = Inr (res, txn', lm') \<and>
    (case res of
       Acquired \<Rightarrow> ctx_locks lm' txn' \<and>
         (\<exists>k. HeldLock txn' tag = (k, True) \<and> IsLockModeCovered k mode \<and>
            (snd (HeldLock txn tag) \<longrightarrow> IsLockModeCovered k (fst (HeldLock txn tag)))) \<and>
         (\<forall>g. g \<noteq> tag \<longrightarrow> HeldLock txn' g = HeldLock txn g)
     | Waiting m \<Rightarrow> txn' = txn)"
proof -
  obtain res txn' lm' where "AcquireLock lm txn tag mode = Inr (res, txn', lm')"
    and "case res of
       Acquired \<Rightarrow> ctx_locks lm' txn' \<and> waiting_for lm' (ctx_id txn') = None \<and> ctx_id txn' = ctx_id txn \<and>
         (\<exists>k. map_of (heldLocks txn') tag = Some k \<and> IsLockModeCovered k mode \<and>
            (\<forall>h. map_of (heldLocks txn) tag = Some h \<longrightarrow> IsLockModeCovered k h)) \<and>
         (\<forall>g. g \<noteq> tag \<longrightarrow> map_of (heldLocks txn') g = map_of (heldLocks txn) g)
     | Waiting m \<Rightarrow> txn' = txn"
    using AcquireLock_step [OF lock_reach_inv [OF assms(1)] assms(2,3)] by blast
  then show ?thesis
    by (cases res) (auto simp: HeldLock_def split: option.splits)
qed

definition reader_ctx :: TransactionContext where
  "reader_ctx = (NewTestTransactionContext 1)\<lparr>heldLocks := [(demo_tag, LockModeS)]\<rparr>"

lemma reader_ctx_ok:
  obtains lm where "demo_locks = Inr lm" "lock_reach lm" "waiting_for lm (ctx_id reader_ctx) = None"
    "ctx_locks lm reader_ctx"
proof (rule demo_locks_reach)
  fix lm
  assume a: "demo_locks = Inr lm" "lock_reach lm"
    "lockRegistry lm demo_tag = Some \<lparr>holders = [(1, LockModeS), (2, LockModeS)],
       waiters = [\<lparr>lr_tid = 3, lr_tag = demo_tag, lr_mode = LockModeX\<rparr>]\<rparr>" "waiting_for lm 1 = None"
    "\<And>g. g \<noteq> demo_tag \<Longrightarrow> lockRegistry lm g = None"
  have "ctx_locks lm reader_ctx"
    using a(3,5) by (auto simp: ctx_locks_def reader_ctx_def NewTestTransactionContext_def hold_def held_mode_def)
  then show thesis using that a by (simp add: reader_ctx_def NewTestTransactionContext_def)
qed

lemma AcquireLock_covers_witness:
  "\<exists>lm res txn' lm'. demo_locks = Inr lm \<and> AcquireLock lm reader_ctx demo_tag LockModeIX = Inr (res, txn', lm')"
proof (rule reader_ctx_ok)
  fix lm
  assume "demo_locks = Inr lm" "lock_reach lm" "waiting_for lm (ctx_id reader_ctx) = None" "ctx_locks lm reader_ctx"
  then show ?thesis using AcquireLock_covers [of lm reader_ctx demo_tag LockModeIX] by blast
qed

text \<open>
  Releasing everything at the end.  When the context's table agrees with a reachable
  lock manager and the transaction is not waiting, \<^verbatim>\<open>ReleaseAllLocks\<close> completes without
  a panic, whatever the iteration order of the table, and afterwards the transaction holds
  no resource at all.
\<close>

theorem ReleaseAllLocks_releases:
  assumes "lock_reach lm" "waiting_for lm (ctx_id txn) = None" "ctx_locks lm txn"
  shows "\<exists>lm'. ReleaseAllLocks lm txn = Inr lm' \<and> held lm' (ctx_id txn) = {}"
  using ReleaseAllLocks_none [OF lock_reach_inv [OF assms(1)] assms(2,3)] held_hold by blast

lemma ReleaseAllLocks_releases_witness:
  "\<exists>lm lm'. demo_locks = Inr lm \<and> ReleaseAllLocks lm reader_ctx = Inr lm' \<and> held lm' 1 = {}"
proof (rule reader_ctx_ok)
  fix lm
  assume "demo_locks = Inr lm" "lock_reach lm" "waiting_for lm (ctx_id reader_ctx) = None" "ctx_locks lm reader_ctx"
  then show ?thesis
    using ReleaseAllLocks_releases [of lm reader_ctx]
    by (auto simp: reader_ctx_def NewTestTransactionContext_def)
qed

text \<open>
  C32: Rebuilding the undo log.  Let the logged history of a transaction be its records, the
  newest of which have been undone: each of the compensation records at the end of the history
  belongs to the newest change that the ones before it have left.  (Rollback writes exactly such
  histories.)  Then feeding the history to \<^verbatim>\<open>BufferRecordForRecovery\<close> succeeds and leaves, in
  order, exactly the records that are not undone.
\<close>

theorem BufferRecordForRecovery_rebuilds:
  assumes rs: "list_all2 is_entry rs (left @ undone @ clrs)" and txn: "ctx_log txn []"
    and changes: "\<forall>e \<in> set left \<union> set undone. \<not> is_clr e" and clrs: "list_all2 undoes clrs (rev undone)"
  shows "\<exists>txn'. foldR BufferRecordForRecovery rs txn = Inr txn' \<and> ctx_log txn' left"
proof -
  have "undo_history [] (left @ undone @ clrs) = Some left"
    using undo_history_changes [of "left @ undone" "[]" clrs] undo_history_clrs [OF clrs, of left] changes by auto
  then show ?thesis using rebuild_undo [OF rs txn] by auto
qed

definition demo_rid :: RecordID where
  "demo_rid = RecordID (PageID 1 0) 0"

definition plain_record :: "log_entry \<Rightarrow> LogRecord" where
  "plain_record e = \<lparr>lr_data = replicate 6 0 @ entry_bytes e\<rparr>"

definition demo_history :: "log_entry list" where
  "demo_history = [BeginE 7, DeleteE 7 demo_rid, InsertE 7 (RecordID (PageID 1 0) 1) [1, 2], UpdateE 7 demo_rid [1] [2],
     UpdateClrE 7 demo_rid [1], InsertClrE 7 (RecordID (PageID 1 0) 1)]"

lemma BufferRecordForRecovery_rebuilds_witness:
  "\<exists>txn'. foldR BufferRecordForRecovery (map plain_record demo_history) (NewTestTransactionContext 7) = Inr txn' \<and>
     ctx_log txn' [BeginE 7, DeleteE 7 demo_rid]"
proof -
  let ?left = "[BeginE 7, DeleteE 7 demo_rid]" and ?undone = "[InsertE 7 (RecordID (PageID 1 0) 1) [1, 2], UpdateE 7 demo_rid [1] [2]]"
  let ?clrs = "[UpdateClrE 7 demo_rid [1], InsertClrE 7 (RecordID (PageID 1 0) 1)]"
  have "list_all2 is_entry (map plain_record demo_history) (?left @ ?undone @ ?clrs)"
    using is_entryI [of "replicate 6 0"]
    by (simp add: demo_history_def plain_record_def del: entry_bytes.simps)
  moreover have "ctx_log (NewTestTransactionContext 7) []"
    by (simp add: ctx_log_def NewTestTransactionContext_def newLogRecordBuffer_inv)
  ultimately show ?thesis
    using BufferRecordForRecovery_rebuilds [of "map plain_record demo_history" ?left ?undone ?clrs "NewTestTransactionContext 7"] by simp
qed

end
