(* ===== verification/Demo_Store.thy ===== *)
theory Demo_Store
  imports Slot_History Txn_Context
begin

text \<open>
  A database of one table file with one heap page of eight-byte rows, whose first slot
  holds a row, over a log with one record.  The witnesses of the transactional properties
  run on it.
\<close>

definition demo_row :: RawTuple where
  "demo_row = [1, 2, 3, 4, 5, 6, 7, 8]"

lemma one_page_pool:
  assumes "length b = PageSize"
  obtains bp where "pool_ok bp" "quiet bp" "pool_view bp = [PageID 1 0 \<mapsto> b]"
    "storageManager bp = NewDiskStorageManager [1 \<mapsto> b]"
proof -
  let ?d = "NewDiskStorageManager [1 \<mapsto> b]"
  have "length b = 1 * PageSize" "(1::nat) < 2 ^ 31" using assms by simp_all
  then have d: "disk_ok ?d" unfolding disk_ok_def NewDiskStorageManager_def by auto
  obtain bp where bp: "NewBufferPool 1 ?d = Inr bp" "pool_ok bp" "quiet bp" "storageManager bp = ?d"
    using NewBufferPool_ok [OF _ d, of 1] by auto
  have loc: "locate bp pid = None" for pid
    using bp(1) by (auto simp: NewBufferPool_def Let_def locate_def shardIdx_def NewBufferPoolShard_def)
  have fp: "file_pages ?d oid = (if oid = 1 then [b] else [])" for oid
    using assms by (simp add: file_pages_def content_of_def NewDiskStorageManager_def PageSize_def page_range_def slice_def)
  have "on_disk ?d pid \<longleftrightarrow> pid = PageID 1 0" for pid
  proof (cases pid)
    case (PageID oid n)
    have "sint n = 0 \<longleftrightarrow> n = 0" by (metis signed_0 signed_word_eqI)
    then show ?thesis by (auto simp: on_disk_def fp PageID InvalidObjectID_def)
  qed
  then have "pool_view bp = [PageID 1 0 \<mapsto> b]"
    by (auto simp: pool_view_def bp(4) loc disk_page_def fp fun_eq_iff)
  then show thesis using that bp by blast
qed

lemma demo_page:
  obtains ss b where "length b = PageSize" "heap_bytes_ok b" "page_LSN b = 0" "length ss = 494"
    "ss ! 0 = \<lparr>s_alloc = False, s_del = False, s_row = s_row (ss ! 0)\<rparr>" "length (s_row (ss ! 0)) = 8"
    "\<forall>s \<in> set ss. \<not> s_alloc s" "slots_of b = ss[0 := \<lparr>s_alloc = True, s_del = False, s_row = demo_row\<rparr>]"
proof -
  obtain hp where h: "wf_heap_page hp" "rowSize hp = 8" "numSlots hp = 494"
      "\<forall>s \<in> set (hp_slots hp). \<not> s_alloc s \<and> \<not> s_del s" "frame_LSN hp = 0"
    by (rule sample_page) (rule that)
  have slot: "rid_slot demo_rid = int 0" "0 < numSlots hp" by (simp_all add: demo_rid_def rid_slot_def h(3))
  obtain h1 where h1: "MarkAllocated hp demo_rid True = Inr h1" "wf_heap_page h1" "same_header hp h1"
      "hp_slots h1 = (hp_slots hp)[0 := (hp_slots hp ! 0)\<lparr>s_alloc := True, s_del := (True \<and> s_del (hp_slots hp ! 0))\<rparr>]"
    by (rule MarkAllocated_spec [OF h(1) slot, of True])
  have s1: "0 < numSlots h1" "length demo_row = rowSize h1" using h1(3) h by (simp_all add: same_header_def demo_row_def)
  obtain h2 where h2: "wf_heap_page h2" "same_header h1 h2" "hp_slots h2 = (hp_slots h1)[0 := (hp_slots h1 ! 0)\<lparr>s_row := demo_row\<rparr>]"
    by (rule CopyIntoTuple_spec [OF h1(2) slot(1) s1])
  note w = wf_page_bytes [OF h2(1)] wf_page_bytes [OF h(1)]
  have len: "length (hp_slots hp) = 494" using w(7,9) h(3) by simp
  then have "hp_slots hp ! 0 \<in> set (hp_slots hp)" by simp
  then have s0: "\<not> s_alloc (hp_slots hp ! 0)" "\<not> s_del (hp_slots hp ! 0)" using h(4) by auto
  have "slots_of (Bytes h2) = (hp_slots hp)[0 := \<lparr>s_alloc = True, s_del = False, s_row = demo_row\<rparr>]"
    using h1(4) h2(3) w(2) s0 len by (cases "hp_slots hp ! 0") simp
  moreover have "length (s_row (hp_slots hp ! 0)) = 8"
    using slots_row_length [OF w(6), of 0] w(7-9) h by simp
  moreover have "page_LSN (Bytes h2) = 0" using h(5) h1(3) h2(2) by (simp add: same_header_def frame_LSN_page)
  ultimately show thesis
    using that [of "Bytes h2" "hp_slots hp"] w len s0 h(4) by (cases "hp_slots hp ! 0") simp
qed

lemma demo_log:
  obtains m where "memory_inv m" "waits memory_log m 0"
proof -
  let ?r = "plain_record (BeginE 7)"
  have r: "loggable ?r"
    using is_entryI [of "replicate 6 0" "BeginE 7"]
    by (auto simp: loggable_def plain_record_def LogRecord_Size_def)
  let ?m = "(NewMemoryLogManager Spins)\<lparr>mm_buffer := record_bytes ?r\<rparr>"
  have l: "length (record_bytes ?r) < 65536" "8 \<le> length (record_bytes ?r)"
    using r record_bytes(2) [OF r] record_bytes_size(2) [OF r] by (auto simp: loggable_def)
  have inv: "memory_inv ?m"
    using r l by (auto simp: memory_inv_def NewMemoryLogManager_def intro!: exI [of _ "[?r]"])
  have "record_bytes ?r \<noteq> []" using l(2) by auto
  then show thesis using that [OF inv] memory_waits [OF inv, of 0] by (simp add: NewMemoryLogManager_def)
qed

definition demo_slots :: "slot list \<Rightarrow> slots" where
  "demo_slots ss = [PageID 1 0 \<mapsto> ss]"

lemma demo_database:
  obtains m bp S where "store_ok memory_log memory_inv m bp" "rid_ok S demo_rid"
    "page_slots bp = do_entry (InsertE 7 demo_rid demo_row) S" "applies (InsertE 7 demo_rid demo_row) (slot_at S demo_rid)"
proof -
  obtain ss b where b: "length b = PageSize" "heap_bytes_ok b" "page_LSN b = 0" "length ss = 494"
      "ss ! 0 = \<lparr>s_alloc = False, s_del = False, s_row = s_row (ss ! 0)\<rparr>" "length (s_row (ss ! 0)) = 8"
      "slots_of b = ss[0 := \<lparr>s_alloc = True, s_del = False, s_row = demo_row\<rparr>]"
    by (rule demo_page) (rule that)
  obtain bp where bp: "pool_ok bp" "quiet bp" "pool_view bp = [PageID 1 0 \<mapsto> b]" by (rule one_page_pool [OF b(1)])
  obtain m where m: "memory_inv m" "waits memory_log m 0" by (rule demo_log)
  have "store_ok memory_log memory_inv m bp" using bp b(3) m by (simp add: store_ok_def lsns_ok_def)
  moreover have S: "rid_ok (demo_slots ss) demo_rid" "slot_at (demo_slots ss) demo_rid = ss ! 0"
    using b(4) by (auto simp: rid_ok_def demo_slots_def demo_rid_def rid_slot_def slot_no_def slot_at_def)
  moreover have "page_slots bp = do_entry (InsertE 7 demo_rid demo_row) (demo_slots ss)"
    using bp(3) b(2,7)
    by (auto simp: page_slots_def do_entry_def upd_slot_def demo_slots_def demo_rid_def slot_no_def rid_slot_def fun_eq_iff)
      (subst b(5), simp)
  moreover have "applies (InsertE 7 demo_rid demo_row) (slot_at (demo_slots ss) demo_rid)"
    unfolding S(2) by (subst b(5)) (use b(6) in \<open>simp add: demo_row_def\<close>)
  ultimately show thesis using that by blast
qed

lemma isolated_single:
  assumes "rid_ok S demo_rid" "applies (InsertE 7 demo_rid demo_row) (slot_at S demo_rid)"
  shows "isolated 7 [BeginE 7, InsertE 7 demo_rid demo_row] S"
  using assms by (auto simp: isolated_def rids_ok_def own_def others_def touch_def)

end
