(* ===== verification/Txn_Manager.thy ===== *)
theory Txn_Manager
  imports Demo_Store "HOL-Library.Multiset"
begin

text \<open>
  The transaction manager (\<^verbatim>\<open>transaction/transaction_manager.go\<close>): beginning,
  committing and rolling back transactions over the log, the buffer pool and the lock
  manager.  The log manager is any implementation \<open>L\<close> of the interface; its state is a
  field of the manager.  The in-memory indexes that transactions schedule tasks for are
  behind the parameter \<open>invoke\<close>, the interface \<^verbatim>\<open>IndexCallback\<close>.
\<close>

section \<open>State\<close>

record ('l, 'i) TransactionManager =
  activeTxns :: "(TransactionID \<times> LSN) list"
  logState :: 'l
  bufferPool :: BufferPool
  lockManager :: LockManager
  nextTxnID :: "64 word"
  txnPool :: "TransactionContext list"
  indexes :: 'i

definition NewTransactionManager :: "'l \<Rightarrow> BufferPool \<Rightarrow> LockManager \<Rightarrow> 'i \<Rightarrow> ('l, 'i) TransactionManager" where
  "NewTransactionManager l bp lm ix = \<lparr>activeTxns = [], logState = l, bufferPool = bp, lockManager = lm,
     nextTxnID = 0, txnPool = [], indexes = ix\<rparr>"

text \<open>
  \<^verbatim>\<open>sync.Pool.Get\<close> returns any pooled context, or calls \<^verbatim>\<open>New\<close>; which one is the
  argument \<open>pick\<close>.
\<close>

definition pool_New :: "('l, 'i) TransactionManager \<Rightarrow> TransactionContext \<times> ('l, 'i) TransactionManager" where
  "pool_New tm = (\<lparr>ctx_id = nextTxnID tm + 1, logRecords = newLogRecordBuffer, heldLocks = [],
     abortActions = [], commitActions = []\<rparr>, tm\<lparr>nextTxnID := nextTxnID tm + 1\<rparr>)"

definition pool_Get :: "nat option \<Rightarrow> ('l, 'i) TransactionManager \<Rightarrow> TransactionContext \<times> ('l, 'i) TransactionManager" where
  "pool_Get pick tm =
     (case pick of
        None \<Rightarrow> pool_New tm
      | Some i \<Rightarrow> if i < length (txnPool tm)
                 then (txnPool tm ! i, tm\<lparr>txnPool := take i (txnPool tm) @ drop (Suc i) (txnPool tm)\<rparr>)
                 else pool_New tm)"

section \<open>Operations\<close>

text \<open>A call works on the context of its transaction and on the manager.\<close>

definition append_record :: "'l LogManager \<Rightarrow> LogRecord \<Rightarrow> TransactionContext \<times> ('l, 'i) TransactionManager \<Rightarrow>
    LSN res \<times> (TransactionContext \<times> ('l, 'i) TransactionManager)" where
  "append_record L r st = (let (res, l) = Append L r (logState (snd st)) in (res, fst st, (snd st)\<lparr>logState := l\<rparr>))"

definition wait_log :: "'l LogManager \<Rightarrow> LSN \<Rightarrow> TransactionContext \<times> ('l, 'i) TransactionManager \<Rightarrow>
    unit res \<times> (TransactionContext \<times> ('l, 'i) TransactionManager)" where
  "wait_log L lsn st =
     (let (res, l) = WaitUntilFlushed L lsn (logState (snd st)) in (res, fst st, (snd st)\<lparr>logState := l\<rparr>))"

definition Begin :: "nat option \<Rightarrow> 'l LogManager \<Rightarrow> ('l, 'i) TransactionManager \<Rightarrow>
    TransactionContext res \<times> ('l, 'i) TransactionManager" where
  "Begin pick L tm =
     (let (txn, tm1) = pool_Get pick tm
      in stepS (txn_NewBeginTransactionRecord txn) tm1 (\<lambda>(r, txn1).
         case append_record L r (txn1, tm1) of
           (Inl e, _, tm2) \<Rightarrow> (Inl e, tm2)
         | (Inr lsn, _, tm2) \<Rightarrow>
             (Inr txn1, tm2\<lparr>activeTxns := AList.update (ctx_id txn1) lsn (activeTxns tm2)\<rparr>)))"

text \<open>The common end of \<^verbatim>\<open>Commit\<close> and \<^verbatim>\<open>Abort\<close>: leave the active table, release the locks, recycle.\<close>

definition end_txn :: "TransactionContext \<times> ('l, 'i) TransactionManager \<Rightarrow>
    unit res \<times> (TransactionContext \<times> ('l, 'i) TransactionManager)" where
  "end_txn st =
     (let txn = fst st; tm = (snd st)\<lparr>activeTxns := AList.delete (ctx_id (fst st)) (activeTxns (snd st))\<rparr>
      in stepS (ReleaseAllLocks (lockManager tm) txn) (txn, tm) (\<lambda>lm.
         let txn' = Reset (nextTxnID tm + 1) txn
         in (Inr (), txn', tm\<lparr>lockManager := lm, nextTxnID := nextTxnID tm + 1, txnPool := txnPool tm @ [txn']\<rparr>)))"

definition Commit :: "(IndexTask \<Rightarrow> 'i \<Rightarrow> 'i res) \<Rightarrow> 'l LogManager \<Rightarrow> TransactionContext \<times> ('l, 'i) TransactionManager \<Rightarrow>
    unit res \<times> (TransactionContext \<times> ('l, 'i) TransactionManager)" where
  "Commit invoke L st =
     stepS (foldR invoke (commitActions (fst st)) (indexes (snd st))) st (\<lambda>ix.
     let tm = (snd st)\<lparr>indexes := ix\<rparr>
     in stepS (txn_NewCommitRecord (fst st)) (fst st, tm) (\<lambda>(r, txn).
        bindS (append_record L r (txn, tm)) (\<lambda>lsn st1.
        bindS (wait_log L lsn st1) (\<lambda>_ st2. end_txn st2))))"

definition on_page :: "'l LogManager \<Rightarrow> RecordID \<Rightarrow> (PageFrame \<Rightarrow> PageFrame res) \<Rightarrow>
    TransactionContext \<times> ('l, 'i) TransactionManager \<Rightarrow> unit res \<times> (TransactionContext \<times> ('l, 'i) TransactionManager)" where
  "on_page L rid f st =
     (let (res, l, bp) = edit_page L (ridPage rid) f (logState (snd st), bufferPool (snd st))
      in (res, fst st, (snd st)\<lparr>logState := l, bufferPool := bp\<rparr>))"

definition undo_record :: "'l LogManager \<Rightarrow> nat \<Rightarrow> TransactionContext \<times> ('l, 'i) TransactionManager \<Rightarrow>
    unit res \<times> (TransactionContext \<times> ('l, 'i) TransactionManager)" where
  "undo_record L i st =
     stepS (buffer_get (logRecords (fst st)) i) st (\<lambda>record.
     stepS (RecordType record) st (\<lambda>t.
       if t = LogInsert
       then stepS (txn_NewInsertCLR record (fst st)) st (\<lambda>(clr, txn).
            bindS (append_record L clr (txn, snd st)) (\<lambda>lsn st1.
            stepS (LogRecord_RID clr) st1 (\<lambda>rid. on_page L rid (mark_deleted rid True lsn) st1)))
       else if t = LogDelete
       then stepS (txn_NewDeleteCLR record (fst st)) st (\<lambda>(clr, txn).
            bindS (append_record L clr (txn, snd st)) (\<lambda>lsn st1.
            stepS (LogRecord_RID clr) st1 (\<lambda>rid. on_page L rid (mark_deleted rid False lsn) st1)))
       else if t = LogUpdate
       then stepS (txn_NewUpdateCLR record (fst st)) st (\<lambda>(clr, txn).
            bindS (append_record L clr (txn, snd st)) (\<lambda>lsn st1.
            stepS (LogRecord_RID clr) st1 (\<lambda>rid.
            stepS (AfterImage clr) st1 (\<lambda>afterImage. on_page L rid (write_tuple rid afterImage lsn) st1))))
       else (Inr (), st)))"

fun undo_loop :: "'l LogManager \<Rightarrow> nat \<Rightarrow> TransactionContext \<times> ('l, 'i) TransactionManager \<Rightarrow>
    unit res \<times> (TransactionContext \<times> ('l, 'i) TransactionManager)" where
  "undo_loop L 0 st = (Inr (), st)"
| "undo_loop L (Suc i) st = bindS (undo_record L i st) (\<lambda>_ st1. undo_loop L i st1)"

definition Abort :: "(IndexTask \<Rightarrow> 'i \<Rightarrow> 'i res) \<Rightarrow> 'l LogManager \<Rightarrow> TransactionContext \<times> ('l, 'i) TransactionManager \<Rightarrow>
    unit res \<times> (TransactionContext \<times> ('l, 'i) TransactionManager)" where
  "Abort invoke L st =
     stepS (foldR invoke (rev (abortActions (fst st))) (indexes (snd st))) st (\<lambda>ix.
     bindS (undo_loop L (buffer_len (logRecords (fst st))) (fst st, (snd st)\<lparr>indexes := ix\<rparr>)) (\<lambda>_ st1.
     stepS (txn_NewAbortRecord (fst st1)) st1 (\<lambda>(r, txn).
     bindS (append_record L r (txn, snd st1)) (\<lambda>lsn st2.
     bindS (wait_log L lsn st2) (\<lambda>_ st3. end_txn st3)))))"

definition RestartTransactionForRecovery :: "nat option \<Rightarrow> TransactionID \<Rightarrow> ('l, 'i) TransactionManager \<Rightarrow>
    TransactionContext \<times> ('l, 'i) TransactionManager" where
  "RestartTransactionForRecovery pick txnId tm =
     (let (txn, tm1) = pool_Get pick tm in (txn\<lparr>ctx_id := txnId\<rparr>, tm1))"

definition SetNextTxnId :: "64 word \<Rightarrow> ('l, 'i) TransactionManager \<Rightarrow> ('l, 'i) TransactionManager" where
  "SetNextTxnId txnId tm = tm\<lparr>nextTxnID := txnId + 1\<rparr>"

record ATTEntry =
  ATT_ID :: TransactionID
  StartLSN :: LSN

definition ATTEntrySize :: nat where "ATTEntrySize = 16"

definition GetActiveTransactionsSnapshot :: "('l, 'i) TransactionManager \<Rightarrow> ATTEntry list" where
  "GetActiveTransactionsSnapshot tm = map (\<lambda>(i, lsn). \<lparr>ATT_ID = i, StartLSN = lsn\<rparr>) (activeTxns tm)"

section \<open>Undoing one record\<close>

lemma entry_RID:
  assumes "is_entry r e" "entry_rid e = Some rid"
  shows "LogRecord_RID r = Inr rid"
  using assms
  by (cases r, cases e) (auto simp: is_entry_def log_record_reads log_record_reads_end has_rid_def log_types)

lemma entry_AfterImage: "is_entry r (UpdateClrE t rid row) \<Longrightarrow> AfterImage r = Inr row"
  by (cases r) (auto simp: is_entry_def log_record_reads)

definition entry_ok :: "slots \<Rightarrow> log_entry \<Rightarrow> bool" where
  "entry_ok S e \<longleftrightarrow> (\<forall>rid. entry_rid e = Some rid \<longrightarrow> rid_ok S rid) \<and>
     (\<forall>t rid b a. e = UpdateE t rid b a \<longrightarrow> length b = length (s_row (slot_at S rid)) \<and> length b \<le> PageSize)"

text \<open>
  The records \<open>cs\<close> have been appended to the context's buffer and to the log, and the
  slots have changed as they say; nothing else has changed.
\<close>

definition logged :: "'l LogManager \<Rightarrow> ('l \<Rightarrow> bool) \<Rightarrow> ('l \<Rightarrow> (LSN \<times> log_entry) list) \<Rightarrow> log_entry list \<Rightarrow> log_entry list \<Rightarrow>
    TransactionContext \<times> ('l, 'i) TransactionManager \<Rightarrow> TransactionContext \<times> ('l, 'i) TransactionManager \<Rightarrow> bool" where
  "logged L linv hist es cs st st' \<longleftrightarrow>
     (\<exists>s l bp. st' = ((fst st)\<lparr>logRecords := s\<rparr>, (snd st)\<lparr>logState := l, bufferPool := bp\<rparr>) \<and>
        store_ok L linv l bp \<and> ctx_log ((fst st)\<lparr>logRecords := s\<rparr>) (es @ cs) \<and>
        page_slots bp = fold do_entry cs (page_slots (bufferPool (snd st))) \<and>
        map snd (hist l) = map snd (hist (logState (snd st))) @ cs)"

lemma set_store_inj [simp]: "tm\<lparr>logState := a, bufferPool := b\<rparr> = tm\<lparr>logState := c, bufferPool := d\<rparr> \<longleftrightarrow> a = c \<and> b = d"
  by (cases tm) simp

definition outcome :: "'l LogManager \<Rightarrow> ('l \<Rightarrow> bool) \<Rightarrow> ('l \<Rightarrow> (LSN \<times> log_entry) list) \<Rightarrow> log_entry list \<Rightarrow> log_entry list \<Rightarrow>
    TransactionContext \<times> ('l, 'i) TransactionManager \<Rightarrow> unit res \<times> (TransactionContext \<times> ('l, 'i) TransactionManager) \<Rightarrow> bool" where
  "outcome L linv hist es cs st r \<longleftrightarrow>
     (case r of (Inl f, _) \<Rightarrow> log_failure L linv f | (Inr _, st') \<Rightarrow> logged L linv hist es cs st st')"

lemma outcome_simps [simp]:
  "outcome L linv hist es cs st (Inl f, st') \<longleftrightarrow> log_failure L linv f"
  "outcome L linv hist es cs st (Inr u, st') \<longleftrightarrow> logged L linv hist es cs st st'"
  by (simp_all add: outcome_def)

lemma logged_trans:
  assumes "logged L linv hist es cs st st1" "logged L linv hist (es @ cs) ds st1 st2"
  shows "logged L linv hist es (cs @ ds) st st2"
  using assms by (cases st) (auto simp: logged_def)

lemma entry_ok_clr:
  assumes e: "entry_ok S e" and e': "entry_ok S e'"
  shows "entry_ok (fold do_entry (clr_of e) S) e'"
proof -
  have "length (s_row (slot_at (fold do_entry (clr_of e) S) rid)) = length (s_row (slot_at S rid))" if "rid_ok S rid" for rid
    using e that by (cases e) (auto simp: entry_ok_def slot_at_do)
  then show ?thesis using e' unfolding entry_ok_def by (cases e') auto
qed

context log_service
begin

lemma append_and_edit:
  assumes ok: "store_ok L linv (logState tm) (bufferPool tm)" and c: "is_entry c e" "LogRecord_Size c < 65536"
    and ctx: "ctx_log (txn\<lparr>logRecords := s\<rparr>) (es @ [e])"
    and edit: "\<And>l lsn. store_ok L linv l (bufferPool tm) \<Longrightarrow> waits L l lsn \<Longrightarrow>
      \<exists>l' bp'. k lsn (txn\<lparr>logRecords := s\<rparr>, tm\<lparr>logState := l\<rparr>) =
           (Inr (), txn\<lparr>logRecords := s\<rparr>, tm\<lparr>logState := l', bufferPool := bp'\<rparr>) \<and>
        store_ok L linv l' bp' \<and> page_slots bp' = do_entry e (page_slots (bufferPool tm)) \<and> log_kept L history l l'"
  shows "outcome L linv history es [e] (txn, tm) (bindS (append_record L c (txn\<lparr>logRecords := s\<rparr>, tm)) k)"
proof -
  obtain res l where a: "Append L c (logState tm) = (res, l)" by fastforce
  have linv: "linv (logState tm)" using ok by (simp add: store_ok_def)
  show ?thesis
  proof (cases res)
    case (Inl f)
    then show ?thesis using a linv by (auto simp: append_record_def log_failure_def intro!: exI [of _ c] exI [of _ "logState tm"])
  next
    case (Inr lsn)
    note as = append_store [OF ok c a [unfolded Inr]]
    obtain l' bp' where "k lsn (txn\<lparr>logRecords := s\<rparr>, tm\<lparr>logState := l\<rparr>) =
           (Inr (), txn\<lparr>logRecords := s\<rparr>, tm\<lparr>logState := l', bufferPool := bp'\<rparr>)"
        "store_ok L linv l' bp'" "page_slots bp' = do_entry e (page_slots (bufferPool tm))" "log_kept L history l l'"
      using edit [OF as(1,3)] by blast
    then show ?thesis
      using a Inr as(2) ctx by (auto simp: append_record_def logged_def log_kept_def)
  qed
qed

lemma on_page_mark:
  assumes "store_ok L linv l bp" "rid_ok (page_slots bp) rid" "waits L l lsn"
  shows "\<exists>l' bp'. on_page L rid (mark_deleted rid on lsn) (txn, tm\<lparr>logState := l, bufferPool := bp\<rparr>) =
      (Inr (), txn, tm\<lparr>logState := l', bufferPool := bp'\<rparr>) \<and> store_ok L linv l' bp' \<and>
    page_slots bp' = upd_slot rid (\<lambda>s. s\<lparr>s_del := on\<rparr>) (page_slots bp) \<and> log_kept L history l l'"
  by (rule edit_mark_deleted [OF assms, of on]) (auto simp: on_page_def)

lemma on_page_write:
  assumes "store_ok L linv l bp" "rid_ok (page_slots bp) rid" "waits L l lsn"
    "length row = length (s_row (slot_at (page_slots bp) rid))"
  shows "\<exists>l' bp'. on_page L rid (write_tuple rid row lsn) (txn, tm\<lparr>logState := l, bufferPool := bp\<rparr>) =
      (Inr (), txn, tm\<lparr>logState := l', bufferPool := bp'\<rparr>) \<and> store_ok L linv l' bp' \<and>
    page_slots bp' = upd_slot rid (\<lambda>s. s\<lparr>s_row := row\<rparr>) (page_slots bp) \<and> log_kept L history l l'"
  by (rule edit_write_tuple [OF assms]) (auto simp: on_page_def)

lemma undo_record_ok:
  assumes ok: "store_ok L linv (logState tm) (bufferPool tm)" and ctx: "ctx_log txn es" "i < length es"
    and e: "entry_ok (page_slots (bufferPool tm)) (es ! i)"
  shows "outcome L linv history es (clr_of (es ! i)) (txn, tm) (undo_record L i (txn, tm))"
proof -
  have b: "buffer_inv (logRecords txn)" "list_all2 is_entry (buffer_recs (logRecords txn)) es"
    using ctx(1) by (simp_all add: ctx_log_def)
  define r where "r = buffer_recs (logRecords txn) ! i"
  have len: "length (buffer_recs (logRecords txn)) = length es" by (rule list_all2_lengthD [OF b(2)])
  have r: "buffer_get (logRecords txn) i = Inr r" "is_entry r (es ! i)"
    using lrb.get_law [OF b(1), of i] ctx(2) len list_all2_nthD2 [OF b(2) ctx(2)] by (simp_all add: r_def)
  note rt = entry_RecordType [OF r(2)]
  let ?tm = "tm\<lparr>logState := logState tm, bufferPool := bufferPool tm\<rparr>"
  have mark: "\<exists>l' bp'. on_page L rid (mark_deleted rid on lsn) (txn', tm\<lparr>logState := l\<rparr>) =
      (Inr (), txn', tm\<lparr>logState := l', bufferPool := bp'\<rparr>) \<and> store_ok L linv l' bp' \<and>
      page_slots bp' = upd_slot rid (\<lambda>s. s\<lparr>s_del := on\<rparr>) (page_slots (bufferPool tm)) \<and> log_kept L history l l'"
    if "store_ok L linv l (bufferPool tm)" "waits L l lsn" "rid_ok (page_slots (bufferPool tm)) rid" for l lsn rid on txn'
    using on_page_mark [OF that(1,3,2), of on txn' tm] by simp
  have clr_size: "LogRecord_Size c < 65536" if "is_entry c e'" "length (entry_bytes e') < 60000" for c e'
    using is_entry_length [OF that(1)] that(2) by (simp add: LogRecord_Size_def)
  show ?thesis
  proof (cases "es ! i")
    case (InsertE t rid row)
    obtain c s where c: "txn_NewInsertCLR r txn = Inr (c, txn\<lparr>logRecords := s\<rparr>)" "is_entry c (InsertClrE t rid)"
        "ctx_log (txn\<lparr>logRecords := s\<rparr>) (es @ [InsertClrE t rid])"
      using txn_clrs(1) [OF ctx(1)] r(2) InsertE by metis
    show ?thesis
      using append_and_edit [OF ok c(2) clr_size [OF c(2)] c(3),
          of "\<lambda>lsn st1. stepS (LogRecord_RID c) st1 (\<lambda>rid. on_page L rid (mark_deleted rid True lsn) st1)"]
        mark e entry_RID [OF c(2)] c(1) r(1) rt
      by (simp add: undo_record_def InsertE entry_ok_def log_types do_entry_def slot_do_clr)
  next
    case (DeleteE t rid)
    obtain c s where c: "txn_NewDeleteCLR r txn = Inr (c, txn\<lparr>logRecords := s\<rparr>)" "is_entry c (DeleteClrE t rid)"
        "ctx_log (txn\<lparr>logRecords := s\<rparr>) (es @ [DeleteClrE t rid])"
      using txn_clrs(2) [OF ctx(1)] r(2) DeleteE by metis
    show ?thesis
      using append_and_edit [OF ok c(2) clr_size [OF c(2)] c(3),
          of "\<lambda>lsn st1. stepS (LogRecord_RID c) st1 (\<lambda>rid. on_page L rid (mark_deleted rid False lsn) st1)"]
        mark e entry_RID [OF c(2)] c(1) r(1) rt
      by (simp add: undo_record_def DeleteE entry_ok_def log_types do_entry_def slot_do_clr)
  next
    case (UpdateE t rid before after)
    obtain c s where c: "txn_NewUpdateCLR r txn = Inr (c, txn\<lparr>logRecords := s\<rparr>)" "is_entry c (UpdateClrE t rid before)"
        "ctx_log (txn\<lparr>logRecords := s\<rparr>) (es @ [UpdateClrE t rid before])"
      using txn_clrs(3) [OF ctx(1)] r(2) UpdateE by metis
    have w: "\<exists>l' bp'. on_page L rid (write_tuple rid before lsn) (txn', tm\<lparr>logState := l\<rparr>) =
        (Inr (), txn', tm\<lparr>logState := l', bufferPool := bp'\<rparr>) \<and> store_ok L linv l' bp' \<and>
        page_slots bp' = upd_slot rid (\<lambda>s. s\<lparr>s_row := before\<rparr>) (page_slots (bufferPool tm)) \<and> log_kept L history l l'"
      if "store_ok L linv l (bufferPool tm)" "waits L l lsn" for l lsn txn'
      using on_page_write [OF that(1) _ that(2), of rid before txn' tm] e UpdateE by (simp add: entry_ok_def)
    show ?thesis
      using append_and_edit [OF ok c(2) clr_size [OF c(2)] c(3),
          of "\<lambda>lsn st1. stepS (LogRecord_RID c) st1 (\<lambda>rid. stepS (AfterImage c) st1
                (\<lambda>afterImage. on_page L rid (write_tuple rid afterImage lsn) st1))"]
        w e entry_RID [OF c(2)] entry_AfterImage [OF c(2)] c(1) r(1) rt
      by (simp add: undo_record_def UpdateE entry_ok_def log_types do_entry_def slot_do_clr PageSize_def)
  qed (use r(1) rt ok ctx(1) in \<open>auto simp: undo_record_def logged_def log_types
        intro!: exI [of _ "logRecords txn"] exI [of _ "logState tm"] exI [of _ "bufferPool tm"]\<close>)
qed

lemma undo_loop_ok:
  assumes "n \<le> length es" "store_ok L linv (logState tm) (bufferPool tm)" "ctx_log txn (es @ cs)"
    "\<forall>e \<in> set es. entry_ok (page_slots (bufferPool tm)) e"
  shows "outcome L linv history (es @ cs) (compensation (take n es)) (txn, tm) (undo_loop L n (txn, tm))"
  using assms
proof (induction n arbitrary: txn tm cs)
  case 0
  then show ?case
    by (auto simp: compensation_def logged_def intro!: exI [of _ "logRecords txn"] exI [of _ "logState tm"] exI [of _ "bufferPool tm"])
next
  case (Suc n)
  have n: "n < length es" "(es @ cs) ! n = es ! n" using Suc.prems(1) by (simp_all add: nth_append)
  have u: "outcome L linv history (es @ cs) (clr_of (es ! n)) (txn, tm) (undo_record L n (txn, tm))"
    using undo_record_ok [OF Suc.prems(2,3), of n] n Suc.prems(4) by simp
  obtain res txn1 tm1 where r: "undo_record L n (txn, tm) = (res, txn1, tm1)" by (cases "undo_record L n (txn, tm)")
  have split: "compensation (take (Suc n) es) = clr_of (es ! n) @ compensation (take n es)"
    using n by (simp add: take_Suc_conv_app_nth compensation_snoc)
  show ?case
  proof (cases res)
    case (Inr x)
    have l: "logged L linv history (es @ cs) (clr_of (es ! n)) (txn, tm) (txn1, tm1)" using u r Inr by simp
    then have "store_ok L linv (logState tm1) (bufferPool tm1)" "ctx_log txn1 (es @ cs @ clr_of (es ! n))"
        "page_slots (bufferPool tm1) = fold do_entry (clr_of (es ! n)) (page_slots (bufferPool tm))"
      by (auto simp: logged_def)
    then have "outcome L linv history (es @ cs @ clr_of (es ! n)) (compensation (take n es)) (txn1, tm1) (undo_loop L n (txn1, tm1))"
      using Suc.IH [of tm1 txn1 "cs @ clr_of (es ! n)"] Suc.prems(1,4) entry_ok_clr n(1) by simp
    then show ?thesis
      using logged_trans [OF l] r Inr by (auto simp: outcome_def split split: prod.splits sum.splits)
  qed (use u r in simp)
qed

text \<open>The end of a transaction: its last record, the wait for it, and the release of its locks.\<close>

lemma last_record:
  assumes ok: "store_ok L linv (logState tm) (bufferPool tm)" and r: "is_entry r e" "LogRecord_Size r < 65536"
    and locks: "lm_inv (lockManager tm)" "waiting_for (lockManager tm) (ctx_id txn) = None" "ctx_locks (lockManager tm) txn"
  shows "case bindS (append_record L r (txn, tm)) (\<lambda>lsn st1. bindS (wait_log L lsn st1) (\<lambda>_ st2. end_txn st2)) of
      (Inl f, _) \<Rightarrow> log_failure L linv f
    | (Inr _, txn', tm') \<Rightarrow> store_ok L linv (logState tm') (bufferPool tm') \<and> bufferPool tm' = bufferPool tm \<and>
        (\<exists>lsn. history (logState tm') = history (logState tm) @ [(lsn, e)] \<and>
           sint lsn \<le> sint (FlushedUntil L (logState tm'))) \<and>
        activeTxns tm' = AList.delete (ctx_id txn) (activeTxns tm) \<and> indexes tm' = indexes tm \<and>
        lm_inv (lockManager tm') \<and> (\<forall>tag. hold (lockManager tm') (ctx_id txn) tag = None) \<and>
        nextTxnID tm' = nextTxnID tm + 1 \<and> txn' = Reset (nextTxnID tm + 1) txn \<and> txnPool tm' = txnPool tm @ [txn']"
proof -
  have linv: "linv (logState tm)" using ok by (simp add: store_ok_def)
  obtain res l where a: "Append L r (logState tm) = (res, l)" by fastforce
  show ?thesis
  proof (cases res)
    case (Inl f)
    then show ?thesis using a linv by (auto simp: append_record_def log_failure_def intro!: exI [of _ r] exI [of _ "logState tm"])
  next
    case (Inr lsn)
    note as = append_store [OF ok r a [unfolded Inr]]
    obtain w l2 where w: "WaitUntilFlushed L lsn l = (w, l2)" by fastforce
    have l: "linv l" using as(1) by (simp add: store_ok_def)
    note wl = wait_law [OF l w]
    have ok2: "store_ok L linv l2 (bufferPool tm)" using as(1) wl by (auto simp: store_ok_def lsns_ok_def)
    show ?thesis
    proof (cases w)
      case (Inl f)
      have "f \<noteq> Spins" using as(3) w Inl by (simp add: waits_def)
      then show ?thesis
        using a Inr w Inl l
        by (auto simp: append_record_def wait_log_def log_failure_def intro!: exI [of _ lsn] exI [of _ l])
    next
      case (Inr u)
      obtain lm' where "ReleaseAllLocks (lockManager tm) txn = Inr lm'" "lm_inv lm'" "\<forall>tag. hold lm' (ctx_id txn) tag = None"
        using ReleaseAllLocks_none [OF locks] by blast
      then show ?thesis
        using a \<open>res = Inr lsn\<close> w Inr ok2 wl as(2)
        by (simp add: append_record_def wait_log_def end_txn_def Let_def)
    qed
  qed
qed

end

section \<open>Rolling back a running transaction\<close>

lemma chain_update:
  assumes "chain es s" "UpdateE t rid b a \<in> set es"
  shows "length b = length (s_row s)"
  using assms
proof (induction es arbitrary: s)
  case (Cons e es)
  have "length (s_row (slot_do e s)) = length (s_row s)" using Cons.prems(1) by (cases e) auto
  then show ?case using Cons by auto
qed simp

lemma isolated_entries:
  assumes iso: "isolated t hs S" and S: "page_slots bp = fold do_entry hs S" and e: "e \<in> set (own t hs)"
  shows "entry_ok (page_slots bp) e"
proof -
  have ok: "rids_ok S hs" using iso by (simp add: isolated_def)
  have r: "rid_ok S rid" if "entry_rid e = Some rid" for rid
    using ok e that by (auto simp: rids_ok_def own_def)
  have "length b = length (s_row (slot_at (page_slots bp) rid)) \<and> length b \<le> PageSize" if u: "e = UpdateE t' rid b a" for t' rid b a
  proof -
    have rid: "rid_ok S rid" using r u by simp
    have mem: "e \<in> set (touch rid (own t hs))" using e u by (simp add: touch_def)
    then have "touch rid hs = touch rid (own t hs)" using touch_own_or_others [OF iso, of rid] by auto
    moreover have c: "chain (touch rid (own t hs)) (slot_at S rid)" using iso rid by (simp add: isolated_def)
    ultimately have "length (s_row (slot_at (page_slots bp) rid)) = length (s_row (slot_at S rid))"
      using chain_row_length [OF c] by (simp add: S slot_at_fold [OF ok rid])
    moreover have "length b = length (s_row (slot_at S rid))" using chain_update [OF c, of t' rid b a] mem u by simp
    moreover have "rid_ok (page_slots bp) rid" using rid by (simp add: S)
    ultimately show ?thesis using page_row_small by metis
  qed
  then show ?thesis using r by (auto simp: entry_ok_def S)
qed

lemma run_tasks:
  assumes "\<And>task ix. task \<in> set tasks \<Longrightarrow> \<exists>ix'. invoke task ix = Inr ix'"
  shows "\<exists>ix'. foldR invoke tasks ix = Inr ix'"
  using assms
proof (induction tasks arbitrary: ix)
  case (Cons task tasks)
  obtain ix1 where "invoke task ix = Inr ix1" using Cons.prems [of task ix] by auto
  then show ?case using Cons.IH [of ix1] Cons.prems by simp
qed simp

lemma end_record_size:
  assumes "is_entry r (CommitE t) \<or> is_entry r (AbortE t)"
  shows "LogRecord_Size r < 65536"
  using assms is_entry_length [of r] by (fastforce simp: LogRecord_Size_def)

text \<open>A transaction that has inserted the row of the demo database.\<close>

definition demo_tm :: "MemoryLogManager \<Rightarrow> BufferPool \<Rightarrow> (MemoryLogManager, unit) TransactionManager" where
  "demo_tm m bp = NewTransactionManager m bp NewLockManager ()"

lemma demo_txn:
  obtains txn where "ctx_id txn = 7" "abortActions txn = []" "commitActions txn = []" "ctx_locks NewLockManager txn"
    "ctx_log txn [BeginE 7, InsertE 7 demo_rid demo_row]"
proof -
  let ?es = "[BeginE 7, InsertE 7 demo_rid demo_row]" and ?txn = "NewTestTransactionContext 7"
  have "list_all2 is_entry (map plain_record ?es) ?es"
    using is_entryI [of "replicate 6 0"] by (simp add: plain_record_def del: entry_bytes.simps)
  moreover have "ctx_log ?txn []"
    by (simp add: ctx_log_def NewTestTransactionContext_def newLogRecordBuffer_inv)
  ultimately obtain s where "ctx_log (?txn\<lparr>logRecords := s\<rparr>) ?es"
    using rebuild_undo [of "map plain_record ?es" ?es ?txn "[]"] by auto
  then show thesis
    using that [of "?txn\<lparr>logRecords := s\<rparr>"]
    by (simp add: NewTestTransactionContext_def ctx_locks_def hold_def held_mode_def NewLockManager_def)
qed

section \<open>Properties of the transaction manager\<close>

text \<open>
  C1: Rollback.  Let the slots of the database be the replay of a logged history on an
  earlier state, in which the records of the transaction are those of its undo buffer, fit
  the slots they change, and share no slot with the records of other transactions.  Then,
  when the transaction waits for no lock, \<^verbatim>\<open>Abort\<close> fails only with a fault of the log; when
  it returns, the visible rows are those of the replay of the other transactions' records
  alone, the log has grown by one compensation record per change, newest change first, and the
  abort record, up to whose sequence number (the position of its first byte) the log says it
  has been flushed; the index tasks, none of which may fail, have run in reverse order; the
  transaction is not active and holds no lock.
\<close>

theorem Abort_rolls_back:
  assumes log: "log_service L linv hist" and ok: "store_ok L linv (logState tm) (bufferPool tm)"
    and hs: "page_slots (bufferPool tm) = fold do_entry hs S" "isolated (ctx_id txn) hs S"
      "ctx_log txn (own (ctx_id txn) hs)"
    and locks: "lock_reach (lockManager tm)" "waiting_for (lockManager tm) (ctx_id txn) = None" "ctx_locks (lockManager tm) txn"
    and tasks: "\<And>task ix. task \<in> set (abortActions txn) \<Longrightarrow> \<exists>ix'. invoke task ix = Inr ix'"
  shows "case Abort invoke L (txn, tm) of
      (Inl f, _) \<Rightarrow> log_failure L linv f
    | (Inr _, txn', tm') \<Rightarrow>
        rows (page_slots (bufferPool tm')) = rows (fold do_entry (others (ctx_id txn) hs) S) \<and>
        map snd (hist (logState tm')) =
          map snd (hist (logState tm)) @ compensation (own (ctx_id txn) hs) @ [AbortE (ctx_id txn)] \<and>
        sint (fst (last (hist (logState tm')))) \<le> sint (FlushedUntil L (logState tm')) \<and>
        foldR invoke (rev (abortActions txn)) (indexes tm) = Inr (indexes tm') \<and>
        map_of (activeTxns tm') (ctx_id txn) = None \<and> (\<forall>tag. hold (lockManager tm') (ctx_id txn) tag = None)"
proof -
  let ?t = "ctx_id txn"
  let ?es = "own ?t hs"
  obtain ix where ix: "foldR invoke (rev (abortActions txn)) (indexes tm) = Inr ix"
    using run_tasks [of "rev (abortActions txn)" invoke "indexes tm"] tasks by auto
  have len: "buffer_len (logRecords txn) = length ?es"
    using hs(3) lrb.size_law by (auto simp: ctx_log_def list_all2_lengthD)
  obtain res txn1 tm1 where u: "undo_loop L (length ?es) (txn, tm\<lparr>indexes := ix\<rparr>) = (res, txn1, tm1)"
    by (cases "undo_loop L (length ?es) (txn, tm\<lparr>indexes := ix\<rparr>)")
  have o': "outcome L linv hist (?es @ []) (compensation ?es) (txn, tm\<lparr>indexes := ix\<rparr>) (res, txn1, tm1)"
    using log_service.undo_loop_ok [OF log, of "length ?es" ?es "tm\<lparr>indexes := ix\<rparr>" txn "[]"] ok hs(3)
      isolated_entries [OF hs(2,1)] u by simp
  show ?thesis
  proof (cases res)
    case (Inl f)
    then show ?thesis using o' u ix len by (simp add: Abort_def)
  next
    case (Inr x)
    have lg: "logged L linv hist (?es @ []) (compensation ?es) (txn, tm\<lparr>indexes := ix\<rparr>) (txn1, tm1)" using o' Inr by simp
    then obtain s l bp where g: "txn1 = txn\<lparr>logRecords := s\<rparr>" "tm1 = tm\<lparr>indexes := ix, logState := l, bufferPool := bp\<rparr>"
        "store_ok L linv l bp" "ctx_log txn1 (?es @ compensation ?es)"
        "page_slots bp = fold do_entry (compensation ?es) (fold do_entry hs S)"
        "map snd (hist l) = map snd (hist (logState tm)) @ compensation ?es"
      using hs(1) by (auto simp: logged_def)
    obtain r s2 where r: "txn_NewAbortRecord txn1 = Inr (r, txn1\<lparr>logRecords := s2\<rparr>)" "is_entry r (AbortE ?t)"
      using txn_records(3) [OF g(4)] g(1) by auto
    have lk: "lm_inv (lockManager tm1)" "waiting_for (lockManager tm1) (ctx_id (txn1\<lparr>logRecords := s2\<rparr>)) = None"
        "ctx_locks (lockManager tm1) (txn1\<lparr>logRecords := s2\<rparr>)"
      using locks lock_reach_inv by (simp_all add: g(1,2) ctx_locks_def)
    have ok1: "store_ok L linv (logState tm1) (bufferPool tm1)" using g(2,3) by simp
    note lr = log_service.last_record [OF log ok1 r(2) end_record_size [OF disjI2 [OF r(2)]] lk]
    have "Abort invoke L (txn, tm) = bindS (append_record L r (txn1\<lparr>logRecords := s2\<rparr>, tm1))
        (\<lambda>lsn st1. bindS (wait_log L lsn st1) (\<lambda>_ st2. end_txn st2))"
      using u Inr ix len r(1) by (simp add: Abort_def)
    then show ?thesis
      using lr g rollback_rows [OF hs(2)] ix by (auto simp: delete_conv' split: prod.splits sum.splits)
  qed
qed

lemma Abort_rolls_back_witness:
  "\<exists>m bp txn. rows (page_slots bp) demo_rid = Some demo_row \<and>
     (case Abort (\<lambda>_. Inr) memory_log (txn, demo_tm m bp) of
        (Inl f, _) \<Rightarrow> log_failure memory_log memory_inv f
      | (Inr _, txn', tm') \<Rightarrow> rows (page_slots (bufferPool tm')) demo_rid = None)"
proof -
  obtain m bp S where d: "store_ok memory_log memory_inv m bp" "rid_ok S demo_rid"
      "page_slots bp = do_entry (InsertE 7 demo_rid demo_row) S" "applies (InsertE 7 demo_rid demo_row) (slot_at S demo_rid)"
    by (rule demo_database)
  obtain txn where t: "ctx_id txn = 7" "abortActions txn = []" "ctx_locks NewLockManager txn"
      "ctx_log txn [BeginE 7, InsertE 7 demo_rid demo_row]"
    by (rule demo_txn)
  let ?hs = "[BeginE 7, InsertE 7 demo_rid demo_row]"
  have h: "page_slots bp = fold do_entry ?hs S" "own 7 ?hs = ?hs" "others 7 ?hs = []"
    using d(3) by (simp_all add: own_def others_def do_entry_def)
  have vis: "rows (page_slots bp) demo_rid = Some demo_row" "rows S demo_rid = None"
    using d(2,4) slot_at_do [of "InsertE 7 demo_rid demo_row" S demo_rid] by (simp_all add: d(3) rows_def vis_def)
  from Abort_rolls_back [of memory_log memory_inv memory_history "demo_tm m bp" ?hs S txn "\<lambda>_. Inr",
      OF mem.log_service_axioms]
  show ?thesis
    using d(1) h t isolated_single [OF d(2,4)] lock_reach.lr_start vis
    by (intro exI [of _ m] exI [of _ bp] exI [of _ txn])
      (auto simp: demo_tm_def NewTransactionManager_def waiting_for_def NewLockManager_def split: prod.splits sum.splits)
qed

text \<open>
  C2: Commit.  \<^verbatim>\<open>Commit\<close> fails only with a fault of the log; when it returns, the
  commit record is the last record of the log and the log has been flushed up to its
  sequence number, the slots of the database are unchanged, the index tasks have run in
  order, the transaction is not active and holds no lock, and its context is back in the
  pool under a new id.  No index task may fail, and the transaction waits for no lock.
\<close>

theorem Commit_durable:
  assumes log: "log_service L linv hist" and ok: "store_ok L linv (logState tm) (bufferPool tm)" and ctx: "ctx_log txn es"
    and locks: "lock_reach (lockManager tm)" "waiting_for (lockManager tm) (ctx_id txn) = None" "ctx_locks (lockManager tm) txn"
    and tasks: "\<And>task ix. task \<in> set (commitActions txn) \<Longrightarrow> \<exists>ix'. invoke task ix = Inr ix'"
  shows "case Commit invoke L (txn, tm) of
      (Inl f, _) \<Rightarrow> log_failure L linv f
    | (Inr _, txn', tm') \<Rightarrow>
        (\<exists>lsn. hist (logState tm') = hist (logState tm) @ [(lsn, CommitE (ctx_id txn))] \<and>
           sint lsn \<le> sint (FlushedUntil L (logState tm'))) \<and>
        page_slots (bufferPool tm') = page_slots (bufferPool tm) \<and>
        foldR invoke (commitActions txn) (indexes tm) = Inr (indexes tm') \<and>
        map_of (activeTxns tm') (ctx_id txn) = None \<and> (\<forall>tag. hold (lockManager tm') (ctx_id txn) tag = None) \<and>
        ctx_id txn' = nextTxnID tm + 1 \<and> ctx_log txn' [] \<and> heldLocks txn' = [] \<and> txn' \<in> set (txnPool tm')"
proof -
  let ?t = "ctx_id txn"
  obtain ix where ix: "foldR invoke (commitActions txn) (indexes tm) = Inr ix"
    using run_tasks [of "commitActions txn" invoke "indexes tm"] tasks by auto
  obtain r s where r: "txn_NewCommitRecord txn = Inr (r, txn\<lparr>logRecords := s\<rparr>)" "is_entry r (CommitE ?t)"
      "ctx_log (txn\<lparr>logRecords := s\<rparr>) (es @ [CommitE ?t])"
    using txn_records(2) [OF ctx] by auto
  let ?txn = "txn\<lparr>logRecords := s\<rparr>" and ?tm = "tm\<lparr>indexes := ix\<rparr>"
  have lk: "lm_inv (lockManager ?tm)" "waiting_for (lockManager ?tm) (ctx_id ?txn) = None" "ctx_locks (lockManager ?tm) ?txn"
    using locks lock_reach_inv by (simp_all add: ctx_locks_def)
  have ok': "store_ok L linv (logState ?tm) (bufferPool ?tm)" using ok by simp
  note lr = log_service.last_record [OF log ok' r(2) end_record_size [OF disjI1 [OF r(2)]] lk]
  have "ctx_log (Reset k ?txn) []" for k
    using r(3) lrb.reset_law by (auto simp: Reset_def ctx_log_def)
  moreover have "Commit invoke L (txn, tm) = bindS (append_record L r (?txn, ?tm))
      (\<lambda>lsn st1. bindS (wait_log L lsn st1) (\<lambda>_ st2. end_txn st2))"
    using ix r(1) by (simp add: Commit_def)
  ultimately show ?thesis
    using lr ix by (auto simp: delete_conv' Reset_def split: prod.splits sum.splits)
qed

lemma Commit_durable_witness:
  "\<exists>m bp txn. case Commit (\<lambda>_. Inr) memory_log (txn, demo_tm m bp) of
        (Inl f, _) \<Rightarrow> log_failure memory_log memory_inv f
      | (Inr _, txn', tm') \<Rightarrow> snd (last (memory_history (logState tm'))) = CommitE 7 \<and> page_slots (bufferPool tm') = page_slots bp"
proof -
  obtain m bp where d: "store_ok memory_log memory_inv m bp" by (rule demo_database)
  obtain txn where t: "ctx_id txn = 7" "commitActions txn = []" "ctx_locks NewLockManager txn"
      "ctx_log txn [BeginE 7, InsertE 7 demo_rid demo_row]"
    by (rule demo_txn)
  from Commit_durable [of memory_log memory_inv memory_history "demo_tm m bp" txn _ "\<lambda>_. Inr", OF mem.log_service_axioms _ t(4)]
  show ?thesis
    using d t lock_reach.lr_start
    by (intro exI [of _ m] exI [of _ bp] exI [of _ txn])
      (auto simp: demo_tm_def NewTransactionManager_def waiting_for_def NewLockManager_def split: prod.splits sum.splits)
qed

section \<open>Transaction ids\<close>

text \<open>
  Runs of the manager with the contexts its clients hold.  Between calls a client changes
  its context and the other parts of the state, but not the id, the pool or the counter.
  The counter does not wrap.
\<close>

inductive tm_run :: "'l LogManager \<Rightarrow> (IndexTask \<Rightarrow> 'i \<Rightarrow> 'i res) \<Rightarrow> TransactionContext list \<Rightarrow> ('l, 'i) TransactionManager \<Rightarrow> bool"
  for L invoke where
  fresh: "tm_run L invoke [] (NewTransactionManager l bp lm ix)"
| begin_ok: "tm_run L invoke live tm \<Longrightarrow> nextTxnID tm \<noteq> - 1 \<Longrightarrow> Begin pick L tm = (Inr txn, tm') \<Longrightarrow> tm_run L invoke (txn # live) tm'"
| begin_error: "tm_run L invoke live tm \<Longrightarrow> nextTxnID tm \<noteq> - 1 \<Longrightarrow> Begin pick L tm = (Inl e, tm') \<Longrightarrow> tm_run L invoke live tm'"
| work: "tm_run L invoke live tm \<Longrightarrow> i < length live \<Longrightarrow> ctx_id txn = ctx_id (live ! i) \<Longrightarrow> txnPool tm' = txnPool tm \<Longrightarrow>
    nextTxnID tm' = nextTxnID tm \<Longrightarrow> tm_run L invoke (live[i := txn]) tm'"
| finish: "tm_run L invoke live tm \<Longrightarrow> nextTxnID tm \<noteq> - 1 \<Longrightarrow> i < length live \<Longrightarrow> op \<in> {Commit invoke L, Abort invoke L} \<Longrightarrow>
    op (live ! i, tm) = (Inr (), txn', tm') \<Longrightarrow> tm_run L invoke (take i live @ drop (Suc i) live) tm'"
| finish_error: "tm_run L invoke live tm \<Longrightarrow> i < length live \<Longrightarrow> op \<in> {Commit invoke L, Abort invoke L} \<Longrightarrow>
    op (live ! i, tm) = (Inl e, txn', tm') \<Longrightarrow> tm_run L invoke (live[i := txn']) tm'"

definition same_ids :: "TransactionContext \<times> ('l, 'i) TransactionManager \<Rightarrow> TransactionContext \<times> ('l, 'i) TransactionManager \<Rightarrow> bool" where
  "same_ids st st' \<longleftrightarrow> ctx_id (fst st') = ctx_id (fst st) \<and> txnPool (snd st') = txnPool (snd st) \<and>
     nextTxnID (snd st') = nextTxnID (snd st)"

lemma same_ids_trans: "same_ids a b \<Longrightarrow> same_ids b c \<Longrightarrow> same_ids a c"
  by (simp add: same_ids_def)

lemma same_ids_bind:
  assumes "same_ids st (snd m)" "\<And>x st1. same_ids st st1 \<Longrightarrow> same_ids st (snd (f x st1))"
  shows "same_ids st (snd (bindS m f))"
  using assms by (cases m; cases "fst m") auto

lemma same_ids_step:
  assumes "same_ids st st1" "\<And>x. r = Inr x \<Longrightarrow> same_ids st (snd (f x))"
  shows "same_ids st (snd (stepS r st1 f))"
  using assms by (cases r) auto

lemma same_ids_ops:
  assumes "same_ids st st1"
  shows "same_ids st (snd (append_record L r st1))" "same_ids st (snd (wait_log L lsn st1))"
    "same_ids st (snd (on_page L rid f st1))"
  using assms by (simp_all add: append_record_def wait_log_def on_page_def same_ids_def split: prod.splits)

lemma txn_new_id: "txn_new n mk txn = Inr (r, txn') \<Longrightarrow> ctx_id txn' = ctx_id txn"
  by (auto simp: txn_new_def)

lemma same_ids_records:
  "txn_NewInsertCLR rec txn = Inr (r, txn') \<Longrightarrow> ctx_id txn' = ctx_id txn"
  "txn_NewDeleteCLR rec txn = Inr (r, txn') \<Longrightarrow> ctx_id txn' = ctx_id txn"
  "txn_NewUpdateCLR rec txn = Inr (r, txn') \<Longrightarrow> ctx_id txn' = ctx_id txn"
  "txn_NewCommitRecord txn = Inr (r, txn') \<Longrightarrow> ctx_id txn' = ctx_id txn"
  "txn_NewAbortRecord txn = Inr (r, txn') \<Longrightarrow> ctx_id txn' = ctx_id txn"
  "txn_NewBeginTransactionRecord txn = Inr (r, txn') \<Longrightarrow> ctx_id txn' = ctx_id txn"
  by (auto simp: txn_NewInsertCLR_def txn_NewDeleteCLR_def txn_NewUpdateCLR_def txn_NewCommitRecord_def
      txn_NewAbortRecord_def txn_NewBeginTransactionRecord_def dest: txn_new_id)

lemma same_ids_undo: "same_ids st st1 \<Longrightarrow> same_ids st (snd (undo_record L i st1))"
  unfolding undo_record_def
  by (auto intro!: same_ids_step same_ids_bind same_ids_ops split: prod.splits)
    (auto simp: same_ids_def dest: same_ids_records)

lemma same_ids_undo_loop: "same_ids st st1 \<Longrightarrow> same_ids st (snd (undo_loop L n st1))"
  by (induction n arbitrary: st1) (auto intro!: same_ids_bind same_ids_undo)

definition ends :: "TransactionContext \<times> ('l, 'i) TransactionManager \<Rightarrow>
    unit res \<times> (TransactionContext \<times> ('l, 'i) TransactionManager) \<Rightarrow> bool" where
  "ends st r \<longleftrightarrow>
     (case r of
        (Inl e, st') \<Rightarrow> same_ids st st'
      | (Inr _, txn', tm') \<Rightarrow> ctx_id txn' = nextTxnID (snd st) + 1 \<and> nextTxnID tm' = nextTxnID (snd st) + 1 \<and>
          txnPool tm' = txnPool (snd st) @ [txn'])"

lemma ends_step: "same_ids st st1 \<Longrightarrow> (\<And>x. r = Inr x \<Longrightarrow> ends st (f x)) \<Longrightarrow> ends st (stepS r st1 f)"
  by (cases r) (auto simp: ends_def)

lemma ends_bind: "same_ids st (snd m) \<Longrightarrow> (\<And>x st1. same_ids st st1 \<Longrightarrow> ends st (f x st1)) \<Longrightarrow> ends st (bindS m f)"
  by (cases m; cases "fst m") (auto simp: ends_def)

lemma ends_end: "same_ids st st1 \<Longrightarrow> ends st (end_txn st1)"
  unfolding end_txn_def Let_def
  by (rule ends_step) (auto simp: same_ids_def ends_def Reset_def)

lemma ends_ops: "op \<in> {Commit invoke L, Abort invoke L} \<Longrightarrow> ends st (op st)"
proof (elim insertE emptyE)
  have refl: "same_ids st st" by (simp add: same_ids_def)
  have tail: "ends st (bindS (append_record L r (txn, tm)) (\<lambda>lsn st1. bindS (wait_log L lsn st1) (\<lambda>_ st2. end_txn st2)))"
    if "same_ids st (txn, tm)" for r txn tm
    by (intro ends_bind ends_end same_ids_ops that)
  show "ends st (op st)" if "op = Commit invoke L"
    unfolding that Commit_def Let_def
    by (intro ends_step refl; clarsimp simp: same_ids_def intro!: tail dest!: same_ids_records)
  show "ends st (op st)" if "op = Abort invoke L"
    unfolding that Abort_def
    by (intro ends_step ends_bind refl same_ids_undo_loop; clarsimp simp: same_ids_def intro!: tail dest!: same_ids_records)
qed

lemma pool_Get_ids:
  assumes "pool_Get pick tm = (txn, tm1)"
  obtains (pooled) i where "i < length (txnPool tm)" "txn = txnPool tm ! i"
      "txnPool tm1 = take i (txnPool tm) @ drop (Suc i) (txnPool tm)" "nextTxnID tm1 = nextTxnID tm"
    | (fresh) "ctx_id txn = nextTxnID tm + 1" "txnPool tm1 = txnPool tm" "nextTxnID tm1 = nextTxnID tm + 1"
  using assms by (auto simp: pool_Get_def pool_New_def split: option.splits if_splits)

definition fresh_ids :: "TransactionID list \<Rightarrow> 64 word \<Rightarrow> bool" where
  "fresh_ids ids n \<longleftrightarrow> distinct ids \<and> (\<forall>i \<in> set ids. 0 < i \<and> i \<le> n)"

lemma fresh_ids_cong: "mset ids = mset ids' \<Longrightarrow> fresh_ids ids n \<longleftrightarrow> fresh_ids ids' n"
  using mset_eq_setD [of ids ids'] mset_eq_imp_distinct_iff [of ids ids'] by (auto simp: fresh_ids_def)

lemma fresh_ids_less:
  assumes "mset ids' \<subseteq># mset ids" "fresh_ids ids n"
  shows "fresh_ids ids' n"
proof -
  obtain xs where "mset ids = mset (ids' @ xs)"
    using assms(1) ex_mset by (metis mset_append subset_mset.le_iff_add)
  then have "fresh_ids (ids' @ xs) n" using fresh_ids_cong assms(2) by metis
  then show ?thesis by (simp add: fresh_ids_def)
qed

lemma fresh_ids_next:
  assumes "fresh_ids ids n" "n \<noteq> - 1"
  shows "fresh_ids ((n + 1) # ids) (n + 1)"
proof -
  have "1 + n \<noteq> 0" using assms(2) by (metis add.inverse_unique)
  then have "unat (n + 1) = Suc (unat n)" using unatSuc [of n] by (simp add: add.commute)
  then have "n < n + 1" "0 < n + 1" by (simp_all add: word_less_nat_alt)
  then show ?thesis using assms(1) by (auto simp: fresh_ids_def)
qed

definition all_ids :: "TransactionContext list \<Rightarrow> ('l, 'i) TransactionManager \<Rightarrow> TransactionID list" where
  "all_ids live tm = map ctx_id live @ map ctx_id (txnPool tm)"

lemma mset_remove_nth: "i < length xs \<Longrightarrow> mset xs = add_mset (xs ! i) (mset (take i xs @ drop (Suc i) xs))"
  using id_take_nth_drop [of i xs] by (metis mset_append mset.simps(2) union_mset_add_mset_right)

lemma Begin_ids:
  assumes "fresh_ids (all_ids live tm) (nextTxnID tm)" "nextTxnID tm \<noteq> - 1" "Begin pick L tm = (res, tm')"
  shows "fresh_ids (all_ids (case res of Inl _ \<Rightarrow> live | Inr txn \<Rightarrow> txn # live) tm') (nextTxnID tm')"
proof -
  obtain txn tm1 where g: "pool_Get pick tm = (txn, tm1)" by fastforce
  have f: "fresh_ids (ctx_id txn # all_ids live tm1) (nextTxnID tm1)"
    using g
  proof (cases rule: pool_Get_ids)
    case (pooled i)
    then have "mset (ctx_id txn # all_ids live tm1) = mset (all_ids live tm)"
      using arg_cong [OF mset_remove_nth [OF pooled(1)], of "image_mset ctx_id"] by (simp add: all_ids_def)
    then show ?thesis using assms(1) fresh_ids_cong pooled(4) by metis
  next
    case fresh
    then show ?thesis using fresh_ids_next [OF assms(1,2)] by (simp add: all_ids_def)
  qed
  have f': "fresh_ids (all_ids live tm1) (nextTxnID tm1)" by (rule fresh_ids_less [OF _ f]) simp
  show ?thesis
    using assms(3) g f f' same_ids_ops(1) [of "(txn', tm1)" "(txn', tm1)" L for txn']
    by (auto simp: Begin_def all_ids_def stepS_def append_record_def same_ids_def
        split: sum.splits prod.splits dest: same_ids_records(6))
qed

text \<open>
  C3: Transaction ids.  In every run of the manager, whichever contexts the pool hands
  out, the transactions that clients hold have pairwise different ids, none of them the
  invalid id zero, as long as the counter has not wrapped around.  (A run is made of begins,
  commits, aborts and the work of clients; recovery, which sets the counter, comes before it.)
\<close>

theorem txn_ids_unique:
  assumes "tm_run L invoke live tm"
  shows "distinct (map ctx_id live) \<and> InvalidTransactionID \<notin> set (map ctx_id live)"
proof -
  have "fresh_ids (all_ids live tm) (nextTxnID tm)"
    using assms
  proof (induction rule: tm_run.induct)
    case (fresh l bp lm ix)
    then show ?case by (simp add: fresh_ids_def all_ids_def NewTransactionManager_def)
  next
    case (begin_ok live tm pick txn tm')
    then show ?case using Begin_ids [of live tm pick L "Inr txn" tm'] by simp
  next
    case (begin_error live tm pick e tm')
    then show ?case using Begin_ids [of live tm pick L "Inl e" tm'] by simp
  next
    case (work live tm i txn tm')
    then show ?case by (simp add: all_ids_def map_update list_update_same_conv [THEN iffD2])
  next
    case (finish live tm i op txn' tm')
    have e: "ctx_id txn' = nextTxnID tm + 1" "nextTxnID tm' = nextTxnID tm + 1" "txnPool tm' = txnPool tm @ [txn']"
      using ends_ops [of op invoke L "(live ! i, tm)"] finish by (auto simp: ends_def)
    have "mset (map ctx_id live) = add_mset (ctx_id (live ! i)) (mset (map ctx_id (take i live @ drop (Suc i) live)))"
      using arg_cong [OF mset_remove_nth [OF finish(3)], of "image_mset ctx_id"] by simp
    then have "mset (all_ids (take i live @ drop (Suc i) live) tm') \<subseteq># mset ((nextTxnID tm + 1) # all_ids live tm)"
      using e by (simp add: all_ids_def subset_mset.add_increasing2 subset_mset.le_iff_add)
    then show ?case using fresh_ids_less fresh_ids_next [OF finish.IH finish(2)] e(2) by metis
  next
    case (finish_error live tm i op e txn' tm')
    then have "same_ids (live ! i, tm) (txn', tm')"
      using ends_ops [of op invoke L "(live ! i, tm)"] by (auto simp: ends_def)
    then show ?case
      using finish_error.IH finish_error(2) by (simp add: same_ids_def all_ids_def map_update list_update_same_conv [THEN iffD2])
  qed
  then show ?thesis by (auto simp: fresh_ids_def all_ids_def InvalidTransactionID_def)
qed

lemma txn_ids_unique_witness:
  "\<exists>t1 t2 tm. tm_run NoopLogManager (\<lambda>_. Inr) [t2, t1] (tm :: (unit, unit) TransactionManager) \<and> ctx_id t1 \<noteq> ctx_id t2"
proof -
  obtain bp where "pool_ok bp" by (rule one_page_pool [of "replicate PageSize 0"]) simp_all
  let ?tm0 = "NewTransactionManager () bp NewLockManager () :: (unit, unit) TransactionManager"
  have b: "\<exists>txn. Begin None NoopLogManager tm = (Inr txn, tm\<lparr>nextTxnID := nextTxnID tm + 1,
        activeTxns := AList.update (nextTxnID tm + 1) 0 (activeTxns tm)\<rparr>)" for tm :: "(unit, unit) TransactionManager"
  proof -
    let ?t = "fst (pool_New tm)"
    have "ctx_log ?t []" by (simp add: pool_New_def ctx_log_def newLogRecordBuffer_inv)
    from txn_records(1) [OF this] obtain r s where
        r: "txn_NewBeginTransactionRecord ?t = Inr (r, ?t\<lparr>logRecords := s\<rparr>)" by auto
    then show ?thesis
      by (simp add: Begin_def pool_Get_def pool_New_def append_record_def NoopLogManager_def)
  qed
  let ?tm1 = "?tm0\<lparr>nextTxnID := 1, activeTxns := AList.update 1 0 []\<rparr>"
  obtain t1 where t1: "Begin None NoopLogManager ?tm0 = (Inr t1, ?tm1)"
    using b [of ?tm0] by (auto simp: NewTransactionManager_def)
  obtain t2 tm2 where t2: "Begin None NoopLogManager ?tm1 = (Inr t2, tm2)" using b [of ?tm1] by auto
  have "tm_run NoopLogManager (\<lambda>_. Inr) [t1] ?tm1"
    by (rule tm_run.begin_ok [OF tm_run.fresh _ t1]) (simp add: NewTransactionManager_def)
  then have run: "tm_run NoopLogManager (\<lambda>_. Inr) [t2, t1] tm2"
    by (rule tm_run.begin_ok [OF _ _ t2]) simp
  have "ctx_id t1 \<noteq> ctx_id t2" using txn_ids_unique [OF run] by auto
  then show ?thesis using run by blast
qed

end
