(* ===== verification/Checkpoint.thy ===== *)
theory Checkpoint
  imports Txn_Manager
begin

text \<open>
  Fuzzy checkpoints (\<^verbatim>\<open>recovery/checkpoint_manager.go\<close>) and the way recovery reads them
  back (the branch for checkpoint records in \<^verbatim>\<open>recovery/recovery_manager.go\<close>).  The master
  record file is its bytes; whether writing and syncing it fails is part of the state.  The
  goroutine that calls \<^verbatim>\<open>Checkpoint\<close> periodically and the background flusher of
  \<^verbatim>\<open>recovery/background_flusher.go\<close> are the loop bodies \<open>checkpointer_tick\<close> and \<open>flusher_pass\<close>.
\<close>

section \<open>State\<close>

record CheckpointManager =
  cm_file :: "byte list"
  cm_write_fails :: bool
  cm_sync_fails :: bool
  cm_truncationLSN :: LSN

definition NewCheckpointManager :: "byte list \<Rightarrow> CheckpointManager" where
  "NewCheckpointManager contents =
     \<lparr>cm_file = contents, cm_write_fails = False, cm_sync_fails = False, cm_truncationLSN = 0\<rparr>"

section \<open>Writing a checkpoint\<close>

text \<open>The smaller of two sequence numbers, compared as signed integers.\<close>

definition earlier :: "LSN \<Rightarrow> LSN \<Rightarrow> LSN" where
  "earlier t lsn = (if sint t > sint lsn then lsn else t)"

fun att_loop :: "nat \<Rightarrow> ATTEntry list \<Rightarrow> byte list \<times> LSN \<Rightarrow> (byte list \<times> LSN) res" where
  "att_loop i [] st = Inr st"
| "att_loop i (entry # att) (buf, truncationLSN) =
     (let base = logRecordHeaderSize + 4 + i * ATTEntrySize
      in bindR (put_checked base (le_put 8 (ATT_ID entry)) buf) (\<lambda>b1.
         bindR (put_checked (base + 8) (le_put 8 (StartLSN entry)) b1) (\<lambda>b2.
         att_loop (i + 1) att (b2, earlier truncationLSN (StartLSN entry)))))"

definition dpKVSize :: nat where "dpKVSize = PageIDSize + 8"

fun dpt_loop :: "nat \<Rightarrow> nat \<Rightarrow> (PageID \<times> LSN) list \<Rightarrow> byte list \<times> LSN \<Rightarrow> (byte list \<times> LSN) res" where
  "dpt_loop totalATTSize i [] st = Inr st"
| "dpt_loop totalATTSize i ((pageID, lsn) # dpt) (buf, truncationLSN) =
     (let base = logRecordHeaderSize + totalATTSize + 4 + i * dpKVSize
      in bindR (write_from base (PageID_WriteTo pageID) buf) (\<lambda>b1.
         bindR (put_checked (base + PageIDSize) (le_put 8 lsn) b1) (\<lambda>b2.
         dpt_loop totalATTSize (i + 1) dpt (b2, earlier truncationLSN lsn))))"

definition end_checkpoint :: "ATTEntry list \<Rightarrow> (PageID \<times> LSN) list \<Rightarrow> LSN \<Rightarrow> (LogRecord \<times> LSN) res" where
  "end_checkpoint att dpt beginLSN =
     (let numAT = length att; numDP = length dpt;
          totalATTSize = 4 + ATTEntrySize * numAT;
          payLoadSize = totalATTSize + (4 + dpKVSize * numDP);
          buf = replicate (EndCheckpointRecordSize payLoadSize) 0
      in bindR (put_checked logRecordHeaderSize (le_put 4 (of_nat numAT :: 32 word)) buf) (\<lambda>b1.
         bindR (att_loop 0 att (b1, beginLSN)) (\<lambda>(b2, t2).
         bindR (put_checked (logRecordHeaderSize + totalATTSize) (le_put 4 (of_nat numDP :: 32 word)) b2) (\<lambda>b3.
         bindR (dpt_loop totalATTSize 0 dpt (b3, t2)) (\<lambda>(b4, t4).
         bindR (NewEndCheckpointRecord b4 payLoadSize) (\<lambda>r. Inr (r, t4)))))))"

type_synonym ('l, 'i) ckpt = "CheckpointManager \<times> ('l, 'i) TransactionManager"

definition ckpt_append :: "'l LogManager \<Rightarrow> LogRecord \<Rightarrow> ('l, 'i) ckpt \<Rightarrow> LSN res \<times> ('l, 'i) ckpt" where
  "ckpt_append L r st = (let (res, l) = Append L r (logState (snd st)) in (res, fst st, (snd st)\<lparr>logState := l\<rparr>))"

text \<open>The error that \<^verbatim>\<open>WaitUntilFlushed\<close> returns is dropped; a panic or a wait without end is not.\<close>

definition ckpt_wait :: "'l LogManager \<Rightarrow> LSN \<Rightarrow> ('l, 'i) ckpt \<Rightarrow> unit res \<times> ('l, 'i) ckpt" where
  "ckpt_wait L lsn st =
     (let (res, l) = WaitUntilFlushed L lsn (logState (snd st)); st' = (fst st, (snd st)\<lparr>logState := l\<rparr>)
      in case res of
           Inl Spins \<Rightarrow> (Inl Spins, st')
         | Inl (Panic m) \<Rightarrow> (Inl (Panic m), st')
         | _ \<Rightarrow> (Inr (), st'))"

definition write_master :: "LSN \<Rightarrow> ('l, 'i) ckpt \<Rightarrow> unit res \<times> ('l, 'i) ckpt" where
  "write_master truncationLSN st =
     (let cm = fst st; buf = le_put 8 truncationLSN
      in stepS (Assert (\<not> cm_write_fails cm) ''Failed to update master record'') st (\<lambda>_.
         let cm1 = cm\<lparr>cm_file := buf @ drop 8 (cm_file cm)\<rparr>
         in stepS (Assert (\<not> cm_sync_fails cm) ''Failed to update master record'') (cm1, snd st) (\<lambda>_.
            (Inr (), cm1\<lparr>cm_truncationLSN := truncationLSN\<rparr>, snd st))))"

text \<open>\<open>ord\<close> is the order in which ranging over the dirty page table visits its entries.\<close>

definition Checkpoint :: "((PageID \<times> LSN) list \<Rightarrow> (PageID \<times> LSN) list) \<Rightarrow> 'l LogManager \<Rightarrow> ('l, 'i) ckpt \<Rightarrow> LSN res \<times> ('l, 'i) ckpt" where
  "Checkpoint ord L st =
     stepS (NewBeginCheckpointRecord (replicate 8 0)) st (\<lambda>r.
     bindS (ckpt_append L r st) (\<lambda>beginLSN st1.
     let dpt = ord (GetDirtyPageTableSnapshot (bufferPool (snd st1)));
         att = GetActiveTransactionsSnapshot (snd st1)
     in stepS (end_checkpoint att dpt beginLSN) st1 (\<lambda>(r', truncationLSN).
        bindS (ckpt_append L r' st1) (\<lambda>endLSN st2.
        bindS (ckpt_wait L endLSN st2) (\<lambda>_ st3.
        bindS (write_master truncationLSN st3) (\<lambda>_ st4. (Inr truncationLSN, st4)))))))"

definition TruncationLSN :: "CheckpointManager \<Rightarrow> LSN" where
  "TruncationLSN cm = cm_truncationLSN cm"

text \<open>One pass of the background loops; errors are only printed.\<close>

definition swallow :: "'a res \<times> 's \<Rightarrow> unit res \<times> 's" where
  "swallow r = (case r of (Inl Spins, s) \<Rightarrow> (Inl Spins, s) | (Inl (Panic m), s) \<Rightarrow> (Inl (Panic m), s) | (_, s) \<Rightarrow> (Inr (), s))"

definition checkpointer_tick :: "((PageID \<times> LSN) list \<Rightarrow> (PageID \<times> LSN) list) \<Rightarrow> 'l LogManager \<Rightarrow> ('l, 'i) ckpt \<Rightarrow> unit res \<times> ('l, 'i) ckpt" where
  "checkpointer_tick ord L st = swallow (Checkpoint ord L st)"

definition flusher_pass :: "'l LogManager \<Rightarrow> 'l \<times> BufferPool \<Rightarrow> unit res \<times> BufferPool" where
  "flusher_pass L st = swallow (FlushAllPages L st)"

section \<open>Reading a checkpoint\<close>

record analysis =
  dpt_of :: "(PageID \<times> LSN) list"
  att_of :: "(TransactionID \<times> LSN) list"
  inactiveTransaction :: "TransactionID list"
  largestTxn :: "64 word"

definition from_word :: "32 word \<Rightarrow> byte list \<Rightarrow> byte list res" where
  "from_word base data = (if 0 \<le> sint base then from_checked (nat (sint base)) data else Inl (Panic ''slice bounds out of range''))"

definition load32 :: "32 word \<Rightarrow> byte list \<Rightarrow> 32 word res" where
  "load32 base data = bindR (from_word base data) (\<lambda>d. bindR (slice_checked 0 4 d) (\<lambda>b. Inr (le_get b)))"

definition load64 :: "32 word \<Rightarrow> byte list \<Rightarrow> 64 word res" where
  "load64 base data = bindR (from_word base data) (\<lambda>d. bindR (slice_checked 0 8 d) (\<lambda>b. Inr (le_get b)))"

definition see_txn :: "TransactionID \<Rightarrow> analysis \<Rightarrow> analysis" where
  "see_txn t an = (if t > largestTxn an then an\<lparr>largestTxn := t\<rparr> else an)"

definition ckpt_txn :: "TransactionID \<Rightarrow> LSN \<Rightarrow> analysis \<Rightarrow> analysis" where
  "ckpt_txn t lsn an =
     see_txn t (if t \<in> set (inactiveTransaction an) then an else an\<lparr>att_of := AList.update t lsn (att_of an)\<rparr>)"

definition ckpt_att :: "byte list \<Rightarrow> nat \<Rightarrow> analysis \<Rightarrow> analysis res" where
  "ckpt_att data i an =
     (let base = 4 + of_nat i * of_nat ATTEntrySize :: 32 word
      in bindR (load64 base data) (\<lambda>txnID.
         if txnID \<in> set (inactiveTransaction an) then Inr (see_txn txnID an)
         else bindR (load64 (base + 8) data) (\<lambda>lsn. Inr (ckpt_txn txnID lsn an))))"

definition page_dirty :: "PageID \<Rightarrow> LSN \<Rightarrow> analysis \<Rightarrow> analysis" where
  "page_dirty pid lsn an = (if map_of (dpt_of an) pid = None then an\<lparr>dpt_of := AList.update pid lsn (dpt_of an)\<rparr> else an)"

definition ckpt_dpt :: "byte list \<Rightarrow> 32 word \<Rightarrow> nat \<Rightarrow> analysis \<Rightarrow> analysis res" where
  "ckpt_dpt data totalATTSize i an =
     (let base = totalATTSize + 4 + of_nat i * of_nat dpKVSize
      in bindR (from_word base data) (\<lambda>d.
         bindR (PageID_LoadFrom d) (\<lambda>pageID.
         if map_of (dpt_of an) pageID \<noteq> None then Inr an
         else bindR (load64 (base + of_nat PageIDSize) data) (\<lambda>lsn. Inr (page_dirty pageID lsn an)))))"

definition ckpt_record :: "byte list \<Rightarrow> analysis \<Rightarrow> analysis res" where
  "ckpt_record data an =
     bindR (load32 0 data) (\<lambda>numAT.
     bindR (foldR (ckpt_att data) [0..<nat (sint numAT)] an) (\<lambda>an1.
     let totalATTSize = 4 + of_nat ATTEntrySize * numAT
     in bindR (load32 totalATTSize data) (\<lambda>numDP. foldR (ckpt_dpt data totalATTSize) [0..<nat (sint numDP)] an1)))"

section \<open>The bytes of a checkpoint\<close>

definition att_bytes :: "ATTEntry \<Rightarrow> byte list" where
  "att_bytes e = le_put 8 (ATT_ID e) @ le_put 8 (StartLSN e)"

definition dp_bytes :: "PageID \<times> LSN \<Rightarrow> byte list" where
  "dp_bytes e = le_put 4 (Oid (fst e)) @ le_put 4 (PageNum (fst e)) @ le_put 8 (snd e)"

definition ckpt_payload :: "ATTEntry list \<Rightarrow> (PageID \<times> LSN) list \<Rightarrow> byte list" where
  "ckpt_payload att dpt = le_put 4 (of_nat (length att) :: 32 word) @ concat (map att_bytes att) @
     le_put 4 (of_nat (length dpt) :: 32 word) @ concat (map dp_bytes dpt)"

lemma entry_lengths [simp]: "length (att_bytes e) = 16" "length (dp_bytes p) = 16"
  "length (concat (map att_bytes att)) = 16 * length att" "length (concat (map dp_bytes dpt)) = 16 * length dpt"
proof -
  show 1: "length (att_bytes e) = 16" "length (dp_bytes p) = 16" for e p by (simp_all add: att_bytes_def dp_bytes_def)
  show "length (concat (map att_bytes att)) = 16 * length att" "length (concat (map dp_bytes dpt)) = 16 * length dpt"
    using 1 by (induction att) (simp_all, induction dpt, simp_all)
qed

lemma att_loop_ok:
  assumes "length pre = 12 + 16 * i" "length old = 16 * length att"
  shows "att_loop i att (pre @ old @ rest, t) =
    Inr (pre @ concat (map att_bytes att) @ rest, fold (\<lambda>e t. earlier t (StartLSN e)) att t)"
  using assms
proof (induction att arbitrary: i pre old t)
  case (Cons e att)
  obtain a b old' where o': "old = a @ b @ old'" "length a = 8" "length b = 8" "length old' = 16 * length att"
  proof
    show "old = take 8 old @ take 8 (drop 8 old) @ drop 16 old" by (metis append_take_drop_id drop_drop numeral_Bit0)
  qed (use Cons.prems(2) in simp_all)
  have p1: "put_checked (length pre) (le_put 8 (ATT_ID e)) (pre @ old @ rest) = Inr (pre @ le_put 8 (ATT_ID e) @ b @ old' @ rest)"
    by (simp add: put_checked_def put_at_def o')
  have p2: "put_checked (length pre + 8) (le_put 8 (StartLSN e)) (pre @ le_put 8 (ATT_ID e) @ b @ old' @ rest) =
      Inr (pre @ att_bytes e @ old' @ rest)"
    by (simp add: put_checked_def put_at_def o' att_bytes_def)
  have base: "logRecordHeaderSize + 4 + i * ATTEntrySize = length pre"
    using Cons.prems(1) by (simp add: logRecordHeaderSize_def ATTEntrySize_def)
  show ?case
    using Cons.IH [of "pre @ att_bytes e" "i + 1" old' "earlier t (StartLSN e)"] Cons.prems(1) o'(4) p1 p2
    by (simp add: base Let_def)
qed simp

lemma dpt_loop_ok:
  assumes "length pre = 12 + n + 16 * i" "length old = 16 * length dpt"
  shows "dpt_loop n i dpt (pre @ old, t) = Inr (pre @ concat (map dp_bytes dpt), fold (\<lambda>e t. earlier t (snd e)) dpt t)"
  using assms
proof (induction dpt arbitrary: i pre old t)
  case (Cons e dpt)
  obtain a b old' where o': "old = a @ b @ old'" "length a = 8" "length b = 8" "length old' = 16 * length dpt"
  proof
    show "old = take 8 old @ take 8 (drop 8 old) @ drop 16 old" by (metis append_take_drop_id drop_drop numeral_Bit0)
  qed (use Cons.prems(2) in simp_all)
  obtain pid lsn where e: "e = (pid, lsn)" by fastforce
  have p1: "write_from (length pre) (PageID_WriteTo pid) (pre @ old) = Inr (pre @ le_put 4 (Oid pid) @ le_put 4 (PageNum pid) @ b @ old')"
    by (simp add: write_from_def PageID_WriteTo_def PageIDSize_def put_checked_def put_at_def o')
  have p2: "put_checked (length pre + PageIDSize) (le_put 8 lsn) (pre @ le_put 4 (Oid pid) @ le_put 4 (PageNum pid) @ b @ old') =
      Inr (pre @ dp_bytes e @ old')"
    by (simp add: put_checked_def put_at_def o' dp_bytes_def e PageIDSize_def)
  have base: "logRecordHeaderSize + n + 4 + i * dpKVSize = length pre"
    using Cons.prems(1) by (simp add: logRecordHeaderSize_def dpKVSize_def PageIDSize_def)
  show ?case
    using Cons.IH [of "pre @ dp_bytes e" "i + 1" old' "earlier t lsn"] Cons.prems(1) o'(4) p1 p2
    by (simp add: base Let_def e)
qed simp

lemma end_checkpoint_ok:
  obtains r where "end_checkpoint att dpt b = Inr (r, fold (\<lambda>e t. earlier t (snd e)) dpt (fold (\<lambda>e t. earlier t (StartLSN e)) att b))"
    "is_entry r (EndCkptE (ckpt_payload att dpt))" "LogRecord_Size r = 16 + 16 * length att + 16 * length dpt"
proof -
  let ?n = "length att" and ?m = "length dpt" and ?t = "fold (\<lambda>e t. earlier t (StartLSN e)) att b"
  let ?N = "le_put 4 (of_nat ?n :: 32 word)" and ?M = "le_put 4 (of_nat ?m :: 32 word)"
  let ?z = "\<lambda>k. replicate k (0 :: byte)" and ?A = "concat (map att_bytes att)" and ?D = "concat (map dp_bytes dpt)"
  have z: "?z (16 + 16 * ?n + 16 * ?m) = ?z 8 @ ?z 4 @ ?z (16 * ?n) @ ?z 4 @ ?z (16 * ?m)"
    by (simp flip: replicate_add)
  have 1: "put_checked 8 ?N (?z (16 + 16 * ?n + 16 * ?m)) = Inr (?z 8 @ ?N @ ?z (16 * ?n) @ ?z 4 @ ?z (16 * ?m))"
    unfolding z by (simp add: put_checked_def put_at_def)
  have 2: "att_loop 0 att (?z 8 @ ?N @ ?z (16 * ?n) @ ?z 4 @ ?z (16 * ?m), b) = Inr (?z 8 @ ?N @ ?A @ ?z 4 @ ?z (16 * ?m), ?t)"
    using att_loop_ok [of "?z 8 @ ?N" 0 "?z (16 * ?n)" att "?z 4 @ ?z (16 * ?m)" b] by simp
  have 3: "put_checked (12 + 16 * ?n) ?M (?z 8 @ ?N @ ?A @ ?z 4 @ ?z (16 * ?m)) = Inr (?z 8 @ ?N @ ?A @ ?M @ ?z (16 * ?m))"
    by (simp add: put_checked_def put_at_def)
  have 4: "dpt_loop (4 + 16 * ?n) 0 dpt (?z 8 @ ?N @ ?A @ ?M @ ?z (16 * ?m), ?t) =
      Inr (?z 8 @ ckpt_payload att dpt, fold (\<lambda>e t. earlier t (snd e)) dpt ?t)"
    using dpt_loop_ok [of "?z 8 @ ?N @ ?A @ ?M" "4 + 16 * ?n" 0 "?z (16 * ?m)" dpt ?t] by (simp add: ckpt_payload_def)
  let ?b = "?z 8 @ ckpt_payload att dpt"
  have l: "length ?b = 8 + (8 + 16 * ?n + 16 * ?m)" by (simp add: ckpt_payload_def)
  obtain r where r: "NewEndCheckpointRecord ?b (8 + 16 * ?n + 16 * ?m) = Inr r" "is_entry r (EndCkptE (drop 8 ?b))"
    using NewCheckpointRecords(2) [OF l] by blast
  have "LogRecord_Size r = 16 + 16 * ?n + 16 * ?m"
    using is_entry_length [OF r(2)] by (simp add: LogRecord_Size_def ckpt_payload_def)
  moreover have "end_checkpoint att dpt b = Inr (r, fold (\<lambda>e t. earlier t (snd e)) dpt ?t)"
    using 1 2 3 4 r(1) by (simp add: end_checkpoint_def Let_def EndCheckpointRecordSize_def logRecordHeaderSize_def ATTEntrySize_def
        dpKVSize_def PageIDSize_def add.assoc)
  ultimately show thesis using that r(2) by simp
qed

section \<open>Recovery reads what the checkpoint wrote\<close>

lemma foldR_index:
  assumes "\<And>i s. i < length xs \<Longrightarrow> f i s = Inr (g (xs ! i) s)"
  shows "foldR f [0..<length xs] s = Inr (fold g xs s)"
  using assms
proof (induction xs arbitrary: s rule: rev_induct)
  case (snoc x xs)
  have "foldR f [0..<length xs] s = Inr (fold g xs s)"
    by (rule snoc.IH) (use snoc.prems in \<open>simp add: nth_append\<close>)
  then show ?case using snoc.prems [of "length xs"] by (simp add: foldR_append)
qed simp

lemma word32_offset:
  assumes "n < 2 ^ 31"
  shows "sint (of_nat n :: 32 word) = int n" "from_word (of_nat n) data = from_checked n data"
  using assms by (simp_all add: from_word_def sint_small)

lemma concat_block:
  assumes "\<And>x. length (f x) = 16" "i < length xs"
  shows "concat (map f xs) = concat (map f (take i xs)) @ f (xs ! i) @ concat (map f (drop (Suc i) xs))"
    "length (concat (map f (take i xs))) = 16 * i"
proof -
  show "concat (map f xs) = concat (map f (take i xs)) @ f (xs ! i) @ concat (map f (drop (Suc i) xs))"
    using id_take_nth_drop [OF assms(2)] by (metis concat.simps(2) concat_append list.simps(9) map_append)
  have "length (concat (map f ys)) = 16 * length ys" for ys using assms(1) by (induction ys) simp_all
  then show "length (concat (map f (take i xs))) = 16 * i" using assms(2) by simp
qed

lemma load_at:
  assumes "length pre = n" "n < 2 ^ 31"
  shows "load32 (of_nat n) (pre @ le_put 4 w @ rest) = Inr w" "load64 (of_nat n) (pre @ le_put 8 v @ rest) = Inr v"
    "from_word (of_nat n) (pre @ rest) = Inr rest"
  using assms by (simp_all add: load32_def load64_def word32_offset(2) from_checked_def slice_checked_def slice_def)

lemma ckpt_record_payload:
  assumes small: "8 + 16 * length att + 16 * length dpt < 2 ^ 31"
  shows "ckpt_record (ckpt_payload att dpt) an =
    Inr (fold (\<lambda>(p, lsn). page_dirty p lsn) dpt (fold (\<lambda>e. ckpt_txn (ATT_ID e) (StartLSN e)) att an))"
proof -
  let ?n = "length att" and ?m = "length dpt" and ?data = "ckpt_payload att dpt"
  let ?N = "le_put 4 (of_nat ?n :: 32 word)" and ?M = "le_put 4 (of_nat ?m :: 32 word)"
  let ?A = "concat (map att_bytes att)" and ?D = "concat (map dp_bytes dpt)"
  have n: "load32 0 ?data = Inr (of_nat ?n)" using load_at(1) [of "[]" 0 "of_nat ?n"] by (simp add: ckpt_payload_def)
  have m: "load32 (of_nat (4 + 16 * ?n)) ?data = Inr (of_nat ?m)"
    using load_at(1) [of "?N @ ?A" "4 + 16 * ?n" "of_nat ?m" ?D] small by (simp add: ckpt_payload_def)
  have att: "ckpt_att ?data i an = Inr (ckpt_txn (ATT_ID (att ! i)) (StartLSN (att ! i)) an)" if i: "i < ?n" for i an
  proof -
    note c = concat_block [of att_bytes i att, OF entry_lengths(1) i]
    let ?pre = "?N @ concat (map att_bytes (take i att))"
    let ?rest = "concat (map att_bytes (drop (Suc i) att)) @ ?M @ ?D"
    have d: "?data = ?pre @ le_put 8 (ATT_ID (att ! i)) @ le_put 8 (StartLSN (att ! i)) @ ?rest"
      by (simp add: ckpt_payload_def c(1)) (simp add: att_bytes_def)
    have b: "length ?pre = 4 + 16 * i" "4 + 16 * i + 8 < 2 ^ 31" using c(2) i small by simp_all
    have "load64 (of_nat (4 + 16 * i)) ?data = Inr (ATT_ID (att ! i))"
      unfolding d by (rule load_at(2)) (use b in simp_all)
    moreover have "load64 (of_nat (4 + 16 * i + 8)) ?data = Inr (StartLSN (att ! i))"
      using load_at(2) [of "?pre @ le_put 8 (ATT_ID (att ! i))" "4 + 16 * i + 8"] b unfolding d by simp
    ultimately show ?thesis
      by (simp add: ckpt_att_def ATTEntrySize_def ckpt_txn_def Let_def mult.commute add.assoc)
  qed
  have dp: "ckpt_dpt ?data (of_nat (4 + 16 * ?n)) i an = Inr ((\<lambda>(p, lsn). page_dirty p lsn) (dpt ! i) an)" if i: "i < ?m" for i an
  proof -
    note c = concat_block [of dp_bytes i dpt, OF entry_lengths(2) i]
    obtain p lsn where e: "dpt ! i = (p, lsn)" by fastforce
    let ?pre = "?N @ ?A @ ?M @ concat (map dp_bytes (take i dpt))" and ?rest = "concat (map dp_bytes (drop (Suc i) dpt))"
    have d: "?data = ?pre @ (le_put 4 (Oid p) @ le_put 4 (PageNum p)) @ le_put 8 lsn @ ?rest"
      by (simp add: ckpt_payload_def c(1)) (simp add: dp_bytes_def e)
    have b: "length ?pre = 8 + 16 * ?n + 16 * i" "8 + 16 * ?n + 16 * i + 8 < 2 ^ 31" using c(2) i small by simp_all
    have "from_word (of_nat (8 + 16 * ?n + 16 * i)) ?data = Inr ((le_put 4 (Oid p) @ le_put 4 (PageNum p)) @ le_put 8 lsn @ ?rest)"
      unfolding d by (rule load_at(3)) (use b in simp_all)
    moreover have "PageID_LoadFrom ((le_put 4 (Oid p) @ le_put 4 (PageNum p)) @ le_put 8 lsn @ ?rest) = Inr p"
      by (cases p) (simp add: PageID_LoadFrom_def PageIDSize_def slice_def)
    moreover have "load64 (of_nat (8 + 16 * ?n + 16 * i + 8)) ?data = Inr lsn"
      using load_at(2) [of "?pre @ le_put 4 (Oid p) @ le_put 4 (PageNum p)" "8 + 16 * ?n + 16 * i + 8"] b unfolding d by simp
    ultimately show ?thesis
      by (simp add: ckpt_dpt_def dpKVSize_def PageIDSize_def page_dirty_def e Let_def mult.commute add.assoc add.left_commute)
  qed
  have s: "nat (sint (of_nat ?n :: 32 word)) = ?n" "nat (sint (of_nat ?m :: 32 word)) = ?m"
    using word32_offset(1) [of ?n] word32_offset(1) [of ?m] small by simp_all
  have t: "4 + of_nat ATTEntrySize * of_nat ?n = (of_nat (4 + 16 * ?n) :: 32 word)" by (simp add: ATTEntrySize_def)
  have "foldR (ckpt_att ?data) [0..<?n] an = Inr (fold (\<lambda>e. ckpt_txn (ATT_ID e) (StartLSN e)) att an)"
    by (rule foldR_index) (rule att)
  then show ?thesis
    unfolding ckpt_record_def n bindR_Inr s(1) t Let_def m s(2) by simp (rule foldR_index, rule dp [simplified])
qed

definition no_analysis :: analysis where
  "no_analysis = \<lparr>dpt_of = [], att_of = [], inactiveTransaction = [], largestTxn = 0\<rparr>"

lemma ckpt_txn_fold:
  assumes "distinct (map ATT_ID att)"
  shows "map_of (att_of (fold (\<lambda>e. ckpt_txn (ATT_ID e) (StartLSN e)) att an)) =
      (\<lambda>t. if t \<in> ATT_ID ` set att \<and> t \<notin> set (inactiveTransaction an) then map_of (map (\<lambda>e. (ATT_ID e, StartLSN e)) att) t
           else map_of (att_of an) t)"
    "dpt_of (fold (\<lambda>e. ckpt_txn (ATT_ID e) (StartLSN e)) att an) = dpt_of an"
    "inactiveTransaction (fold (\<lambda>e. ckpt_txn (ATT_ID e) (StartLSN e)) att an) = inactiveTransaction an"
proof -
  have c: "dpt_of (ckpt_txn t lsn an) = dpt_of an" "inactiveTransaction (ckpt_txn t lsn an) = inactiveTransaction an"
      "map_of (att_of (ckpt_txn t lsn an)) = (if t \<in> set (inactiveTransaction an) then map_of (att_of an) else (map_of (att_of an))(t \<mapsto> lsn))"
    for t lsn an by (simp_all add: ckpt_txn_def see_txn_def update_conv')
  show i: "inactiveTransaction (fold (\<lambda>e. ckpt_txn (ATT_ID e) (StartLSN e)) att an) = inactiveTransaction an" for an
    by (induction att arbitrary: an) (simp_all add: c)
  show "dpt_of (fold (\<lambda>e. ckpt_txn (ATT_ID e) (StartLSN e)) att an) = dpt_of an"
    by (induction att arbitrary: an) (simp_all add: c)
  show "map_of (att_of (fold (\<lambda>e. ckpt_txn (ATT_ID e) (StartLSN e)) att an)) =
      (\<lambda>t. if t \<in> ATT_ID ` set att \<and> t \<notin> set (inactiveTransaction an) then map_of (map (\<lambda>e. (ATT_ID e, StartLSN e)) att) t
           else map_of (att_of an) t)"
    using assms
  proof (induction att arbitrary: an)
    case (Cons e att)
    then show ?case by (auto simp: c fun_eq_iff)
  qed simp
qed

lemma page_dirty_fold:
  "map_of (dpt_of (fold (\<lambda>(p, lsn). page_dirty p lsn) dpt an)) = map_of dpt ++ map_of (dpt_of an)"
  "att_of (fold (\<lambda>(p, lsn). page_dirty p lsn) dpt an) = att_of an"
proof -
  have c: "map_of (dpt_of (page_dirty p lsn an)) = [p \<mapsto> lsn] ++ map_of (dpt_of an)" "att_of (page_dirty p lsn an) = att_of an" for p lsn an
    by (auto simp: page_dirty_def update_conv' fun_eq_iff map_add_def split: option.splits)
  show "att_of (fold (\<lambda>(p, lsn). page_dirty p lsn) dpt an) = att_of an"
    by (induction dpt arbitrary: an) (simp_all add: c case_prod_unfold)
  show "map_of (dpt_of (fold (\<lambda>(p, lsn). page_dirty p lsn) dpt an)) = map_of dpt ++ map_of (dpt_of an)"
    by (induction dpt arbitrary: an) (auto simp: c case_prod_unfold fun_eq_iff map_add_def split: option.splits)
qed

lemma earlier_fold:
  "fold (\<lambda>e t. earlier t (f e)) xs t \<in> insert t (f ` set xs)"
  "\<forall>k \<in> insert t (f ` set xs). sint (fold (\<lambda>e t. earlier t (f e)) xs t) \<le> sint k"
proof (induction xs arbitrary: t)
  case (Cons x xs)
  { case 1 show ?case using Cons.IH(1) [of "earlier t (f x)"] by (auto simp: earlier_def split: if_splits) }
  { case 2 show ?case using Cons.IH(2) [of "earlier t (f x)"] by (auto simp: earlier_def split: if_splits) }
qed simp_all

section \<open>Properties\<close>

text \<open>
  Everything a checkpoint does.  The master record file gets the truncation position, which is
  not always the begin record's position that \<^verbatim>\<open>lab4.md\<close> and the comment of
  \<^verbatim>\<open>MasterRecordFileName\<close> promise.
\<close>

lemma checkpoint_effects:
  assumes L: "log_service L linv hist" and inv: "linv (logState tm)"
    and ord: "\<And>xs. mset (ord xs) = mset xs" and d: "distinct (map fst (activeTxns tm))" "distinct (map fst (GetDirtyPageTableSnapshot (bufferPool tm)))"
    and small: "length (activeTxns tm) + length (GetDirtyPageTableSnapshot (bufferPool tm)) < 4095"
    and ck: "Checkpoint ord L (cm, tm) = (Inr t, cm', tm')"
  shows "\<exists>b e p an. hist (logState tm') = hist (logState tm) @ [(b, BeginCkptE), (e, EndCkptE p)] \<and>
    ckpt_record p no_analysis = Inr an \<and> map_of (att_of an) = map_of (activeTxns tm) \<and>
    map_of (dpt_of an) = map_of (GetDirtyPageTableSnapshot (bufferPool tm)) \<and>
    le_get (take 8 (cm_file cm')) = t \<and> TruncationLSN cm' = t \<and>
    t \<in> {b} \<union> snd ` set (activeTxns tm) \<union> snd ` set (GetDirtyPageTableSnapshot (bufferPool tm)) \<and>
    (\<forall>k \<in> {b} \<union> snd ` set (activeTxns tm) \<union> snd ` set (GetDirtyPageTableSnapshot (bufferPool tm)). sint t \<le> sint k)"
proof -
  let ?dpt = "ord (GetDirtyPageTableSnapshot (bufferPool tm))" and ?att = "GetActiveTransactionsSnapshot tm"
  let ?snap = "GetDirtyPageTableSnapshot (bufferPool tm)"
  have "mset (map fst ?dpt) = mset (map fst ?snap)" using ord [of ?snap] by (metis mset_map)
  then have dd: "distinct (map fst ?dpt)" using d(2) mset_eq_imp_distinct_iff by blast
  have dm: "set ?dpt = set ?snap" "length ?dpt = length ?snap" using ord [of ?snap] mset_eq_setD mset_eq_length by blast+
  then have dm: "set ?dpt = set ?snap" "length ?dpt = length ?snap" "map_of ?dpt = map_of ?snap"
    using map_of_inject_set [OF dd d(2)] by simp_all
  obtain r0 where r0: "NewBeginCheckpointRecord (replicate 8 0) = Inr r0" "is_entry r0 BeginCkptE"
    using NewCheckpointRecords(1) [of "replicate 8 0"] by auto
  have s0: "LogRecord_Size r0 < 65536" using is_entry_length [OF r0(2)] by (simp add: LogRecord_Size_def)
  obtain b l1 where a1: "Append L r0 (logState tm) = (Inr b, l1)"
    using ck r0(1) by (cases "fst (Append L r0 (logState tm))") (auto simp: Checkpoint_def ckpt_append_def Let_def prod_eq_iff split: prod.splits)
  obtain r where r: "end_checkpoint ?att ?dpt b = Inr (r, fold (\<lambda>e t. earlier t (snd e)) ?dpt (fold (\<lambda>e t. earlier t (StartLSN e)) ?att b))"
      "is_entry r (EndCkptE (ckpt_payload ?att ?dpt))" "LogRecord_Size r = 16 + 16 * length ?att + 16 * length ?dpt"
    by (rule end_checkpoint_ok)
  let ?t = "fold (\<lambda>e t. earlier t (snd e)) ?dpt (fold (\<lambda>e t. earlier t (StartLSN e)) ?att b)"
  have la: "length ?att = length (activeTxns tm)" by (simp add: GetActiveTransactionsSnapshot_def)
  have s1: "LogRecord_Size r < 65536" using r(3) small dm(2) la by simp
  let ?tm1 = "tm\<lparr>logState := l1\<rparr>"
  obtain e l2 where a2: "Append L r l1 = (Inr e, l2)"
    using ck r0(1) a1 r(1)
    by (cases "fst (Append L r l1)") (auto simp: Checkpoint_def ckpt_append_def Let_def GetActiveTransactionsSnapshot_def prod_eq_iff split: prod.splits)
  obtain res l3 where w: "WaitUntilFlushed L e l2 = (res, l3)" by fastforce
  note h1 = log_service.append_law [OF L inv r0(2) s0 a1]
  note h2 = log_service.append_law [OF L conjunct1 [OF h1] r(2) s1 a2]
  note h3 = log_service.wait_law [OF L conjunct1 [OF h2] w]
  have rest: "bindS (ckpt_wait L e (cm, tm\<lparr>logState := l2\<rparr>)) (\<lambda>_ st3. bindS (write_master ?t st3) (\<lambda>_ st4. (Inr ?t, st4))) = (Inr t, cm', tm')"
    using ck r0(1) a1 r(1) a2 by (simp add: Checkpoint_def ckpt_append_def GetActiveTransactionsSnapshot_def)
  then have "ckpt_wait L e (cm, tm\<lparr>logState := l2\<rparr>) = (Inr (), cm, tm\<lparr>logState := l3\<rparr>)"
    by (auto simp: ckpt_wait_def w Let_def split: sum.splits fault.splits)
  then have fin: "t = ?t" "tm' = tm\<lparr>logState := l3\<rparr>" "cm_truncationLSN cm' = t" "cm_file cm' = le_put 8 t @ drop 8 (cm_file cm)"
    using rest by (auto simp: write_master_def Let_def stepS_def bindS_def Assert_def split: if_splits)
  have hist: "hist (logState tm') = hist (logState tm) @ [(b, BeginCkptE), (e, EndCkptE (ckpt_payload ?att ?dpt))]"
    using h1 h2 h3 fin(2) by simp
  let ?an = "fold (\<lambda>(p, lsn). page_dirty p lsn) ?dpt (fold (\<lambda>e. ckpt_txn (ATT_ID e) (StartLSN e)) ?att no_analysis)"
  have p: "ckpt_record (ckpt_payload ?att ?dpt) no_analysis = Inr ?an"
    by (rule ckpt_record_payload) (use small la dm(2) in simp)
  have ids: "map ATT_ID ?att = map fst (activeTxns tm)" "map (\<lambda>e. (ATT_ID e, StartLSN e)) ?att = activeTxns tm"
    by (simp_all add: GetActiveTransactionsSnapshot_def comp_def case_prod_unfold)
  have ia: "ATT_ID ` set ?att = fst ` set (activeTxns tm)" using ids(1) by (metis set_map)
  have "map_of (att_of ?an) x = map_of (activeTxns tm) x" for x
    using ckpt_txn_fold(1) [of ?att no_analysis] d(1) map_of_eq_None_iff [of "activeTxns tm" x]
    unfolding page_dirty_fold(2) ids ia by (cases "x \<in> fst ` set (activeTxns tm)") (simp_all add: no_analysis_def)
  then have "map_of (att_of ?an) = map_of (activeTxns tm)" by (rule ext)
  moreover have "map_of (dpt_of ?an) = map_of (GetDirtyPageTableSnapshot (bufferPool tm))"
    using ckpt_txn_fold(2) [of ?att no_analysis] d(1) ids by (simp add: page_dirty_fold(1) no_analysis_def dm(3))
  moreover have st: "StartLSN ` set ?att = snd ` set (activeTxns tm)" by (force simp: GetActiveTransactionsSnapshot_def)
  have either: "x \<in> insert y D \<Longrightarrow> y \<in> insert z A \<Longrightarrow> x \<in> {z} \<union> A \<union> D" for x y z :: LSN and A D by auto
  have "?t \<in> {b} \<union> snd ` set (activeTxns tm) \<union> snd ` set (GetDirtyPageTableSnapshot (bufferPool tm))"
    using earlier_fold(1) [of snd ?dpt "fold (\<lambda>e t. earlier t (StartLSN e)) ?att b"] earlier_fold(1) [of StartLSN ?att b]
    unfolding dm(1) st by (rule either)
  moreover have "\<forall>k \<in> {b} \<union> snd ` set (activeTxns tm) \<union> snd ` set (GetDirtyPageTableSnapshot (bufferPool tm)). sint ?t \<le> sint k"
    using earlier_fold(2) [of "fold (\<lambda>e t. earlier t (StartLSN e)) ?att b" snd ?dpt] earlier_fold(2) [of b StartLSN ?att] dm(1) st
    by (force intro: order_trans)
  ultimately show ?thesis using hist p fin by (auto simp: TruncationLSN_def)
qed

text \<open>
  C6: Checkpoints.  Let the log keep its contract, let the transactions and the dirty pages have
  one entry each, and let the end record be shorter than 64 KiB (a longer one gets a wrong size
  field).  Then a checkpoint that returns has appended exactly a begin and an end record;
  recovery decodes the end record to the active transactions with their start positions and the
  dirty pages with their recovery positions; the truncation position that it returns and keeps
  is the smallest of the begin record's position, the start positions and the recovery
  positions; and the position in the master record file is not after the begin record's, so
  that an analysis from there reads both records.  (The documentation asks for the begin
  record's position itself, see \<open>checkpoint_effects\<close> for what the code stores.)
\<close>

theorem checkpoint_recorded:
  assumes L: "log_service L linv hist" and inv: "linv (logState tm)"
    and ord: "\<And>xs. mset (ord xs) = mset xs" and d: "distinct (map fst (activeTxns tm))" "distinct (map fst (GetDirtyPageTableSnapshot (bufferPool tm)))"
    and small: "16 + 16 * (length (activeTxns tm) + length (GetDirtyPageTableSnapshot (bufferPool tm))) < 65536"
    and ck: "Checkpoint ord L (cm, tm) = (Inr t, cm', tm')"
  shows "\<exists>b e p an. hist (logState tm') = hist (logState tm) @ [(b, BeginCkptE), (e, EndCkptE p)] \<and>
    ckpt_record p no_analysis = Inr an \<and> map_of (att_of an) = map_of (activeTxns tm) \<and>
    map_of (dpt_of an) = map_of (GetDirtyPageTableSnapshot (bufferPool tm)) \<and> TruncationLSN cm' = t \<and>
    t \<in> {b} \<union> snd ` set (activeTxns tm) \<union> snd ` set (GetDirtyPageTableSnapshot (bufferPool tm)) \<and>
    (\<forall>k \<in> {b} \<union> snd ` set (activeTxns tm) \<union> snd ` set (GetDirtyPageTableSnapshot (bufferPool tm)). sint t \<le> sint k) \<and>
    sint (le_get (take 8 (cm_file cm')) :: LSN) \<le> sint b"
proof -
  have "length (activeTxns tm) + length (GetDirtyPageTableSnapshot (bufferPool tm)) < 4095" using small by simp
  from checkpoint_effects [OF L inv ord d this ck] obtain b e p an
    where h: "hist (logState tm') = hist (logState tm) @ [(b, BeginCkptE), (e, EndCkptE p)]"
        "ckpt_record p no_analysis = Inr an" "map_of (att_of an) = map_of (activeTxns tm)"
        "map_of (dpt_of an) = map_of (GetDirtyPageTableSnapshot (bufferPool tm))"
      and m: "le_get (take 8 (cm_file cm')) = t" and t: "TruncationLSN cm' = t"
        "t \<in> {b} \<union> snd ` set (activeTxns tm) \<union> snd ` set (GetDirtyPageTableSnapshot (bufferPool tm))"
        "\<forall>k \<in> {b} \<union> snd ` set (activeTxns tm) \<union> snd ` set (GetDirtyPageTableSnapshot (bufferPool tm)). sint t \<le> sint k"
    by (elim exE conjE)
  have "sint (le_get (take 8 (cm_file cm')) :: LSN) \<le> sint b" unfolding m by (rule bspec [OF t(3)]) simp
  with h t show ?thesis by (intro exI conjI)
qed

text \<open>An empty in-memory log and pool with one active transaction.\<close>

lemma memory_append:
  assumes "is_entry r e" "LogRecord_Size r < 65536" "appendCountdown m < 0" "length (mm_buffer m) + LogRecord_Size r < 2 ^ 63"
  obtains m' where "Append memory_log r m = (Inr (of_nat (length (mm_buffer m))), m')" "appendCountdown m' < 0"
    "length (mm_buffer m') = length (mm_buffer m) + LogRecord_Size r" "flushOnAppend m' = flushOnAppend m"
proof -
  have l: "loggable r" using assms by (auto simp: loggable_def)
  note rb = record_bytes [OF l assms(1)]
  show thesis using assms(3,4) that rb(1,2) by (auto simp: memory_log_def Memory_Append_def Let_def)
qed

lemma memory_wait_returns:
  assumes "sint lsn < int (length (mm_buffer m))"
  shows "fst (WaitUntilFlushed memory_log lsn m) = Inr ()"
  using assms by (simp add: memory_log_def wait_flushed_def Memory_WaitUntilFlushed_def flusher_tick_def SetFlushedLSN_def Tail_def)

definition demo_ckpt :: "BufferPool \<Rightarrow> (MemoryLogManager, unit) ckpt" where
  "demo_ckpt bp = (NewCheckpointManager [], (NewTransactionManager (NewMemoryLogManager Spins) bp NewLockManager ())\<lparr>activeTxns := [(7, 0)]\<rparr>)"

lemma demo_ckpt_returns:
  assumes "GetDirtyPageTableSnapshot bp = []"
  obtains t cm' tm' where "Checkpoint id memory_log (demo_ckpt bp) = (Inr t, cm', tm')"
proof -
  let ?m = "NewMemoryLogManager Spins" and ?tm = "snd (demo_ckpt bp)"
  obtain r0 where r0: "NewBeginCheckpointRecord (replicate 8 0) = Inr r0" "is_entry r0 BeginCkptE"
    using NewCheckpointRecords(1) [of "replicate 8 0"] by auto
  have s0: "LogRecord_Size r0 = 8" using is_entry_length [OF r0(2)] by (simp add: LogRecord_Size_def)
  obtain m1 where m1: "Append memory_log r0 ?m = (Inr 0, m1)" "appendCountdown m1 < 0" "length (mm_buffer m1) = 8"
    by (rule memory_append [OF r0(2), of ?m]) (use s0 in \<open>auto simp: NewMemoryLogManager_def\<close>)
  obtain r t where r: "end_checkpoint [\<lparr>ATT_ID = 7, StartLSN = 0\<rparr>] [] 0 = Inr (r, t)" "is_entry r (EndCkptE (ckpt_payload [\<lparr>ATT_ID = 7, StartLSN = 0\<rparr>] []))"
      "LogRecord_Size r = 32"
    by (rule end_checkpoint_ok [of "[\<lparr>ATT_ID = 7, StartLSN = 0\<rparr>]" "[]" 0]) simp
  obtain m2 where m2: "Append memory_log r m1 = (Inr 8, m2)" "length (mm_buffer m2) = 40"
    by (rule memory_append [OF r(2), of m1]) (use r(3) m1(2,3) in auto)
  obtain m3 where m3: "WaitUntilFlushed memory_log 8 m2 = (Inr (), m3)"
  proof -
    have "sint (8 :: LSN) = 8" by simp
    then have "fst (WaitUntilFlushed memory_log 8 m2) = Inr ()" using memory_wait_returns [of 8 m2] m2(2) by simp
    then show ?thesis using that by (metis prod.collapse)
  qed
  have "Checkpoint id memory_log (demo_ckpt bp) = (Inr t, (fst (demo_ckpt bp))\<lparr>cm_file := le_put 8 t, cm_truncationLSN := t\<rparr>, ?tm\<lparr>logState := m3\<rparr>)"
    using r0(1) m1(1) r(1) m2(1) m3 assms
    by (simp add: Checkpoint_def demo_ckpt_def NewCheckpointManager_def NewTransactionManager_def ckpt_append_def GetActiveTransactionsSnapshot_def
        ckpt_wait_def write_master_def)
  then show thesis using that by blast
qed

theorem checkpoint_recorded_witness:
  "\<exists>bp t cm' tm' b e p an. Checkpoint id memory_log (demo_ckpt bp) = (Inr t, cm', tm') \<and>
    memory_history (logState tm') = memory_history (NewMemoryLogManager Spins) @ [(b, BeginCkptE), (e, EndCkptE p)] \<and>
    ckpt_record p no_analysis = Inr an \<and> map_of (att_of an) = [7 \<mapsto> 0] \<and> TruncationLSN cm' = t"
proof -
  obtain bp where "NewBufferPool 1 (NewDiskStorageManager Map.empty) = Inr bp" by (simp add: NewBufferPool_def)
  then have bp: "GetDirtyPageTableSnapshot bp = []"
    by (auto simp: NewBufferPool_def GetDirtyPageTableSnapshot_def NewBufferPoolShard_def)
  obtain t cm' tm' where c: "Checkpoint id memory_log (demo_ckpt bp) = (Inr t, cm', tm')" by (rule demo_ckpt_returns [OF bp])
  let ?tm = "snd (demo_ckpt bp)"
  have t: "activeTxns ?tm = [(7, 0)]" "bufferPool ?tm = bp" "logState ?tm = NewMemoryLogManager Spins"
    by (simp_all add: demo_ckpt_def NewTransactionManager_def)
  have "memory_inv (NewMemoryLogManager Spins)" by (auto simp: memory_inv_def NewMemoryLogManager_def intro!: exI [of _ "[]"])
  with checkpoint_recorded [OF mem.log_service_axioms, of ?tm id "fst (demo_ckpt bp)" t cm' tm'] c t bp
  obtain b e p an where "memory_history (logState tm') = memory_history (NewMemoryLogManager Spins) @ [(b, BeginCkptE), (e, EndCkptE p)]"
      "ckpt_record p no_analysis = Inr an" "map_of (att_of an) = [7 \<mapsto> 0]" "TruncationLSN cm' = t"
    by auto
  then show ?thesis using c by blast
qed

end
