(* ===== verification/Table_Heap.thy ===== *)
theory Table_Heap
  imports Demo_Store
begin

text \<open>
  Table heaps (\<^verbatim>\<open>execution/table_heap.go\<close>): inserting, deleting, reading and updating
  the rows of a table through the buffer pool, the log and the locks, reclaiming deleted
  slots, and scanning.  A call works on an environment: the transaction's context, if it
  has one, the state of the log, the buffer pool and the lock manager.  A lock request
  that has to wait does not return; like a busy wait it has the outcome \<open>Spins\<close>.
\<close>

section \<open>State\<close>

record TableHeap =
  th_oid :: ObjectID
  tableTag :: DBLockTag
  th_desc :: RawTupleDesc

record 'l Env =
  env_txn :: "TransactionContext option"
  env_log :: 'l
  env_pool :: BufferPool
  env_locks :: LockManager

definition NewTableHeap :: "ObjectID \<Rightarrow> gtype list \<Rightarrow> TableHeap res" where
  "NewTableHeap oid cols =
     bindR (NewRawTupleDesc cols) (\<lambda>d. Inr \<lparr>th_oid = oid, tableTag = NewTableLockTag oid, th_desc = d\<rparr>)"

definition demo_heap :: TableHeap where
  "demo_heap = \<lparr>th_oid = 1, tableTag = NewTableLockTag 1, th_desc = sample_desc\<rparr>"

definition ErrTupleDeleted :: fault where
  "ErrTupleDeleted = OtherError ''tuple has been deleted''"

section \<open>Steps of a call\<close>

definition acquire :: "DBLockTag \<Rightarrow> DBLockMode \<Rightarrow> 'l Env \<Rightarrow> unit res \<times> 'l Env" where
  "acquire tag mode env =
     (case env_txn env of
        None \<Rightarrow> (Inr (), env)
      | Some txn \<Rightarrow>
          case AcquireLock (env_locks env) txn tag mode of
            Inl e \<Rightarrow> (Inl e, env)
          | Inr (res, txn', lm') \<Rightarrow>
              ((case res of Acquired \<Rightarrow> Inr () | Waiting _ \<Rightarrow> Inl Spins),
               env\<lparr>env_txn := Some txn', env_locks := lm'\<rparr>))"

definition get_page :: "'l LogManager \<Rightarrow> PageID \<Rightarrow> 'l Env \<Rightarrow> nat res \<times> 'l Env" where
  "get_page L pid env =
     (let (r, l, bp) = GetPage L pid (env_log env, env_pool env) in (r, env\<lparr>env_log := l, env_pool := bp\<rparr>))"

definition on_frame :: "nat \<Rightarrow> (PageFrame \<Rightarrow> PageFrame res) \<Rightarrow> 'l Env \<Rightarrow> unit res \<times> 'l Env" where
  "on_frame a f env =
     stepS (f (frames (env_pool env) a)) env (\<lambda>g. (Inr (), env\<lparr>env_pool := put_frame a g (env_pool env)\<rparr>))"

definition frame_at :: "nat \<Rightarrow> 'l Env \<Rightarrow> PageFrame" where
  "frame_at a env = frames (env_pool env) a"

definition unpin :: "nat \<Rightarrow> bool \<Rightarrow> 'l Env \<Rightarrow> unit res \<times> 'l Env" where
  "unpin a setDirty env =
     stepS (UnpinPage a setDirty (env_pool env)) env (\<lambda>bp. (Inr (), env\<lparr>env_pool := bp\<rparr>))"

text \<open>Append a record of the transaction; without a transaction nothing is logged.\<close>

definition log_change :: "'l LogManager \<Rightarrow> (TransactionContext \<Rightarrow> (LogRecord \<times> TransactionContext) res) \<Rightarrow> 'l Env \<Rightarrow>
    LSN res \<times> 'l Env" where
  "log_change L mk env =
     (case env_txn env of
        None \<Rightarrow> (Inr 0, env)
      | Some txn \<Rightarrow>
          stepS (mk txn) env (\<lambda>(r, txn').
            let (res, l) = Append L r (env_log env)
            in (res, env\<lparr>env_txn := Some txn', env_log := l\<rparr>)))"

definition advance_LSN :: "nat \<Rightarrow> LSN \<Rightarrow> 'l Env \<Rightarrow> unit res \<times> 'l Env" where
  "advance_LSN a lsn env =
     (if env_txn env = None then (Inr (), env)
      else on_frame a (\<lambda>pf. Inr (MonotonicallyUpdateLSN pf lsn)) env)"

text \<open>
  Leaving with an error after the page has been pinned; a panic or a call that does not
  return leaves the page pinned.
\<close>

definition give_up :: "nat \<Rightarrow> bool \<Rightarrow> fault \<Rightarrow> 'l Env \<Rightarrow> 'b res \<times> 'l Env" where
  "give_up a dirty e env =
     (case e of
        Panic m \<Rightarrow> (Inl e, env)
      | Spins \<Rightarrow> (Inl e, env)
      | _ \<Rightarrow> bindS (unpin a dirty env) (\<lambda>_ env1. (Inl e, env1)))"

section \<open>Operations on rows\<close>

definition DeleteTuple :: "'l LogManager \<Rightarrow> TableHeap \<Rightarrow> RecordID \<Rightarrow> 'l Env \<Rightarrow> unit res \<times> 'l Env" where
  "DeleteTuple L th rid env0 =
     bindS (acquire (tableTag th) LockModeIX env0) (\<lambda>_ env1.
     bindS (acquire (NewTupleLockTag rid) LockModeX env1) (\<lambda>_ env2.
     bindS (get_page L (ridPage rid) env2) (\<lambda>a env3.
     bindS (on_frame a AsHeapPage env3) (\<lambda>_ env4.
     stepS (IsDeleted (frame_at a env4) rid) env4 (\<lambda>deleted.
     if deleted then give_up a False ErrTupleDeleted env4
     else case log_change L (txn_NewDeleteRecord rid) env4 of
            (Inl e, env5) \<Rightarrow> give_up a False e env5
          | (Inr lsn, env5) \<Rightarrow>
              bindS (on_frame a (\<lambda>hp. MarkDeleted hp rid True) env5) (\<lambda>_ env6.
              bindS (advance_LSN a lsn env6) (\<lambda>_ env7. unpin a True env7)))))))"

text \<open>The caller's buffer is filled as far as it goes.\<close>

definition ReadTuple :: "'l LogManager \<Rightarrow> TableHeap \<Rightarrow> RecordID \<Rightarrow> byte list \<Rightarrow> bool \<Rightarrow> 'l Env \<Rightarrow> byte list res \<times> 'l Env" where
  "ReadTuple L th rid buffer forUpdate env0 =
     bindS (acquire (tableTag th) (if forUpdate then LockModeIX else LockModeIS) env0) (\<lambda>_ env1.
     bindS (acquire (NewTupleLockTag rid) (if forUpdate then LockModeX else LockModeS) env1) (\<lambda>_ env2.
     bindS (get_page L (ridPage rid) env2) (\<lambda>a env3.
     bindS (on_frame a AsHeapPage env3) (\<lambda>_ env4.
     stepS (IsDeleted (frame_at a env4) rid) env4 (\<lambda>deleted.
     if deleted then give_up a False ErrTupleDeleted env4
     else stepS (AccessTuple (frame_at a env4) rid) env4 (\<lambda>tup.
          bindS (unpin a False env4) (\<lambda>_ env5. (Inr (go_copy buffer tup), env5))))))))"

definition UpdateTuple :: "'l LogManager \<Rightarrow> TableHeap \<Rightarrow> RecordID \<Rightarrow> RawTuple \<Rightarrow> 'l Env \<Rightarrow> unit res \<times> 'l Env" where
  "UpdateTuple L th rid updatedTuple env0 =
     bindS (acquire (tableTag th) LockModeIX env0) (\<lambda>_ env1.
     bindS (acquire (NewTupleLockTag rid) LockModeX env1) (\<lambda>_ env2.
     bindS (get_page L (ridPage rid) env2) (\<lambda>a env3.
     bindS (on_frame a AsHeapPage env3) (\<lambda>_ env4.
     stepS (IsDeleted (frame_at a env4) rid) env4 (\<lambda>deleted.
     if deleted then give_up a False ErrTupleDeleted env4
     else stepS (AccessTuple (frame_at a env4) rid) env4 (\<lambda>tup.
          case log_change L (txn_NewUpdateRecord rid tup updatedTuple) env4 of
            (Inl e, env5) \<Rightarrow> give_up a False e env5
          | (Inr lsn, env5) \<Rightarrow>
              bindS (on_frame a (\<lambda>hp. CopyIntoTuple hp rid updatedTuple) env5) (\<lambda>_ env6.
              bindS (advance_LSN a lsn env6) (\<lambda>_ env7. unpin a True env7))))))))"

text \<open>
  Insertion looks for a free slot on the last page and moves on to the next page, which
  it allocates when the file ends there.  The loop has fuel; a fresh page always has a
  free slot, so two passes are enough when no other thread fills pages.
\<close>

definition num_pages :: "ObjectID \<Rightarrow> 'l Env \<Rightarrow> int" where
  "num_pages oid env = NumPages (storageManager (env_pool env)) oid"

definition extend_file :: "ObjectID \<Rightarrow> 32 word \<Rightarrow> nat \<Rightarrow> 'l Env \<Rightarrow> nat res \<times> 'l Env" where
  "extend_file oid pageNum newPageCount env =
     (if sint pageNum = num_pages oid env
      then if newPageCount > 1 then (Inl (Panic ''Should allocate at most 1 page''), env)
           else let (r, d) = AllocatePage oid 1 (storageManager (env_pool env));
                    env1 = env\<lparr>env_pool := set_disk d (env_pool env)\<rparr>
                in (case r of Inl e \<Rightarrow> (Inl e, env1) | Inr _ \<Rightarrow> (Inr (newPageCount + 1), env1))
      else (Inr newPageCount, env))"

definition insert_step :: "'l LogManager \<Rightarrow> TableHeap \<Rightarrow> RawTuple \<Rightarrow> (32 word \<Rightarrow> nat \<Rightarrow> 'l Env \<Rightarrow> RecordID res \<times> 'l Env) \<Rightarrow>
    32 word \<Rightarrow> nat \<Rightarrow> 'l Env \<Rightarrow> RecordID res \<times> 'l Env" where
  "insert_step L th row continue pageNum newPageCount env =
     bindS (extend_file (th_oid th) pageNum newPageCount env) (\<lambda>count env1.
     bindS (get_page L (PageID (th_oid th) pageNum) env1) (\<lambda>a env2.
     let inited = IsInitializedHeapPage (frame_at a env2)
     in bindS (if inited then (Inr (), env2) else on_frame a (InitializeHeapPage (th_desc th)) env2) (\<lambda>_ env3.
        bindS (on_frame a AsHeapPage env3) (\<lambda>_ env4.
        stepS (FindFreeSlot (frame_at a env4)) env4 (\<lambda>(slot, hp).
        let env5 = env4\<lparr>env_pool := put_frame a hp (env_pool env4)\<rparr>
        in if slot = - 1
           then bindS (unpin a (\<not> inited) env5) (\<lambda>_ env6. continue (pageNum + 1) count env6)
           else let rid = RecordID (PageID (th_oid th) pageNum) (of_int slot)
                in case acquire (NewTupleLockTag rid) LockModeX env5 of
                     (Inl e, env6) \<Rightarrow> give_up a (\<not> inited) e env6
                   | (Inr _, env6) \<Rightarrow>
                       case log_change L (txn_NewInsertRecord rid row) env6 of
                         (Inl e, env7) \<Rightarrow> give_up a (\<not> inited) e env7
                       | (Inr lsn, env7) \<Rightarrow>
                           bindS (on_frame a (\<lambda>hp. MarkAllocated hp rid True) env7) (\<lambda>_ env8.
                           bindS (on_frame a (\<lambda>hp. CopyIntoTuple hp rid row) env8) (\<lambda>_ env9.
                           bindS (advance_LSN a lsn env9) (\<lambda>_ env10.
                           bindS (unpin a True env10) (\<lambda>_ env11. (Inr rid, env11))))))))))"

primrec insert_loop :: "'l LogManager \<Rightarrow> TableHeap \<Rightarrow> RawTuple \<Rightarrow> nat \<Rightarrow> 32 word \<Rightarrow> nat \<Rightarrow> 'l Env \<Rightarrow> RecordID res \<times> 'l Env" where
  "insert_loop L th row 0 = (\<lambda>pageNum count env. (Inl Spins, env))"
| "insert_loop L th row (Suc n) = insert_step L th row (insert_loop L th row n)"

definition InsertTuple :: "'l LogManager \<Rightarrow> TableHeap \<Rightarrow> nat \<Rightarrow> RawTuple \<Rightarrow> 'l Env \<Rightarrow> RecordID res \<times> 'l Env" where
  "InsertTuple L th fuel row env0 =
     (let (r, d) = GetDBFile (th_oid th) (storageManager (env_pool env0));
          env = env0\<lparr>env_pool := set_disk d (env_pool env0)\<rparr>
      in case r of
           Inl e \<Rightarrow> (Inl e, env)
         | Inr _ \<Rightarrow>
             let numPages = num_pages (th_oid th) env;
                 pageNum = (if numPages = 0 then 0 else of_int (numPages - 1))
             in bindS (acquire (tableTag th) LockModeIX env) (\<lambda>_ env1. insert_loop L th row fuel pageNum 0 env1))"

section \<open>Reclaiming slots\<close>

primrec vacuum_loop :: "LockManager \<Rightarrow> PageID \<Rightarrow> nat list \<Rightarrow> PageFrame \<Rightarrow> PageFrame res" where
  "vacuum_loop lm pid [] hp = Inr hp"
| "vacuum_loop lm pid (i # is) hp =
     (let rid = RecordID pid (of_nat i)
      in bindR (IsDeleted hp rid) (\<lambda>deleted.
         if deleted \<and> \<not> LockHeld lm (NewTupleLockTag rid)
         then bindR (MarkAllocated hp rid False) (vacuum_loop lm pid is)
         else vacuum_loop lm pid is hp))"

definition VacuumPage :: "'l LogManager \<Rightarrow> PageID \<Rightarrow> 'l Env \<Rightarrow> unit res \<times> 'l Env" where
  "VacuumPage L pid env0 =
     bindS (get_page L pid env0) (\<lambda>a env1.
     bindS (on_frame a AsHeapPage env1) (\<lambda>_ env2.
     bindS (on_frame a (\<lambda>hp. vacuum_loop (env_locks env2) pid [0..<numSlots hp] hp) env2) (\<lambda>_ env3.
     unpin a True env3)))"

section \<open>Scanning\<close>

record TableHeapIterator =
  it_rid :: RecordID
  it_page :: "nat option"
  it_tuple :: RawTuple
  it_numPages :: int
  it_open :: bool
  it_mode :: DBLockMode
  it_error :: "fault option"

text \<open>A page that is not initialised yet is waited for.\<close>

definition open_page :: "'l LogManager \<Rightarrow> PageID \<Rightarrow> 'l Env \<Rightarrow> nat res \<times> 'l Env" where
  "open_page L pid env =
     bindS (get_page L pid env) (\<lambda>a env1.
     if \<not> IsInitializedHeapPage (frame_at a env1) then (Inl Spins, env1)
     else bindS (on_frame a AsHeapPage env1) (\<lambda>_ env2. (Inr a, env2)))"

definition TableHeap_Iterator :: "'l LogManager \<Rightarrow> TableHeap \<Rightarrow> DBLockMode \<Rightarrow> 'l Env \<Rightarrow> TableHeapIterator res \<times> 'l Env" where
  "TableHeap_Iterator L th mode env0 =
     stepS (Assert (mode = LockModeS \<or> mode = LockModeSIX \<or> mode = LockModeX) ''Invalid lock mode for table heap iterator'') env0 (\<lambda>_.
     let pid = PageID (th_oid th) 0;
         it = \<lparr>it_rid = RecordID pid (- 1), it_page = None, it_tuple = [], it_numPages = - 1, it_open = False,
               it_mode = mode, it_error = None\<rparr>;
         (r, d) = GetDBFile (th_oid th) (storageManager (env_pool env0));
         env = env0\<lparr>env_pool := set_disk d (env_pool env0)\<rparr>
     in case r of
          Inl e \<Rightarrow> (Inl e, env)
        | Inr _ \<Rightarrow>
            let numPages = num_pages (th_oid th) env
            in if numPages = 0 then (Inr it, env)
               else bindS (acquire (tableTag th) mode env) (\<lambda>_ env1.
                    bindS (open_page L pid env1) (\<lambda>a env2.
                    (Inr (it\<lparr>it_numPages := numPages, it_page := Some a, it_open := True\<rparr>), env2))))"

definition it_IsNil :: "TableHeapIterator \<Rightarrow> bool" where
  "it_IsNil it \<longleftrightarrow> Oid (ridPage (it_rid it)) = InvalidObjectID"

text \<open>The first live slot of the page at or after a given one.\<close>

primrec find_live :: "PageFrame \<Rightarrow> PageID \<Rightarrow> nat list \<Rightarrow> nat option res" where
  "find_live hp pid [] = Inr None"
| "find_live hp pid (i # is) =
     bindR (IsAllocated hp (RecordID pid (of_nat i))) (\<lambda>alloc.
     if \<not> alloc then find_live hp pid is
     else bindR (IsDeleted hp (RecordID pid (of_nat i))) (\<lambda>deleted.
          if deleted then find_live hp pid is else Inr (Some i)))"

text \<open>
  The loop of \<^verbatim>\<open>Next\<close>, with the number of pages that may still be opened as a bound: a
  page is searched from slot \<open>j\<close> (\<open>Some j\<close>) or, when it has just been opened (\<open>None\<close>), from its
  first slot, which is looked at before the number of slots is; when the page has no live slot,
  it is unpinned and the next page is opened.
\<close>

definition slots_from :: "nat option \<Rightarrow> nat \<Rightarrow> nat list" where
  "slots_from from n = (case from of None \<Rightarrow> 0 # [1..<n] | Some j \<Rightarrow> [j..<n])"

definition slot_after :: "nat option \<Rightarrow> nat \<Rightarrow> nat" where
  "slot_after from n = (case from of None \<Rightarrow> max 1 n | Some j \<Rightarrow> max j n)"

lemma fresh_page_slots: "0 < n \<Longrightarrow> slots_from None n = slots_from (Some 0) n" "0 < n \<Longrightarrow> slot_after None n = slot_after (Some 0) n"
  by (simp_all add: slots_from_def slot_after_def upt_conv_Cons)

definition next_step :: "'l LogManager \<Rightarrow> (nat \<Rightarrow> nat option \<Rightarrow> TableHeapIterator \<Rightarrow> 'l Env \<Rightarrow> (bool \<times> TableHeapIterator) res \<times> 'l Env) \<Rightarrow>
    nat \<Rightarrow> nat option \<Rightarrow> TableHeapIterator \<Rightarrow> 'l Env \<Rightarrow> (bool \<times> TableHeapIterator) res \<times> 'l Env" where
  "next_step L continue a from it env =
     (let hp = frame_at a env; pid = ridPage (it_rid it)
      in stepS (find_live hp pid (slots_from from (numSlots hp))) env (\<lambda>found.
         case found of
           Some i \<Rightarrow>
             stepS (AccessTuple hp (RecordID pid (of_nat i))) env (\<lambda>tup.
               (Inr (True, it\<lparr>it_rid := RecordID pid (of_nat i), it_tuple := tup, it_page := Some a\<rparr>), env))
         | None \<Rightarrow>
             bindS (unpin a (it_mode it \<noteq> LockModeS) env) (\<lambda>_ env1.
             let it1 = it\<lparr>it_page := None\<rparr>
             in if sint (PageNum pid + 1) \<ge> it_numPages it
                then (Inr (False, it1\<lparr>it_rid := RecordID pid (of_nat (slot_after from (numSlots hp)))\<rparr>), env1)
                else let pid' = PageID (Oid pid) (PageNum pid + 1); it2 = it1\<lparr>it_rid := RecordID pid' 0\<rparr>
                     in case open_page L pid' env1 of
                          (Inl e, env2) \<Rightarrow>
                            (case e of
                               Panic m \<Rightarrow> (Inl e, env2)
                             | Spins \<Rightarrow> (Inl e, env2)
                             | _ \<Rightarrow> (Inr (False, it2\<lparr>it_error := Some e\<rparr>), env2))
                        | (Inr a', env2) \<Rightarrow> continue a' None it2 env2)))"

primrec next_loop :: "'l LogManager \<Rightarrow> nat \<Rightarrow> nat \<Rightarrow> nat option \<Rightarrow> TableHeapIterator \<Rightarrow> 'l Env \<Rightarrow> (bool \<times> TableHeapIterator) res \<times> 'l Env" where
  "next_loop L 0 = next_step L (\<lambda>a from it env. (Inl Spins, env))"
| "next_loop L (Suc bound) = next_step L (next_loop L bound)"

definition it_Next :: "'l LogManager \<Rightarrow> TableHeapIterator \<Rightarrow> 'l Env \<Rightarrow> (bool \<times> TableHeapIterator) res \<times> 'l Env" where
  "it_Next L it env =
     (if it_IsNil it \<or> it_error it \<noteq> None \<or> \<not> it_open it then (Inr (False, it), env)
      else case it_page it of
             None \<Rightarrow> (Inr (False, it), env)
           | Some a \<Rightarrow> next_loop L (nat (it_numPages it)) a (Some (nat (rid_slot (it_rid it) + 1))) it env)"

definition CurrentTuple :: "TableHeapIterator \<Rightarrow> RawTuple" where
  "CurrentTuple it = it_tuple it"

definition CurrentRID :: "TableHeapIterator \<Rightarrow> RecordID" where
  "CurrentRID it = it_rid it"

definition it_Close :: "TableHeapIterator \<Rightarrow> 'l Env \<Rightarrow> TableHeapIterator res \<times> 'l Env" where
  "it_Close it env =
     (if it_IsNil it then (Inl (OtherError ''Table heap iterator is not initialized''), env)
      else if \<not> it_open it then (Inr it, env)
      else case it_page it of
             None \<Rightarrow> (Inr (it\<lparr>it_open := False\<rparr>), env)
           | Some a \<Rightarrow> bindS (unpin a (it_mode it \<noteq> LockModeS) env) (\<lambda>_ env1.
                         (Inr (it\<lparr>it_open := False, it_page := None\<rparr>), env1)))"

section \<open>A call's view of one page\<close>

lemma put_frame_simps [simp]:
  "frames (put_frame a g bp) a = g" "put_frame a g (put_frame a h bp) = put_frame a g bp"
  "storageManager (put_frame a g bp) = storageManager bp"
  by (simp_all add: put_frame_def upd_frame_def)

definition env_ok :: "'l LogManager \<Rightarrow> ('l \<Rightarrow> bool) \<Rightarrow> 'l Env \<Rightarrow> TransactionContext \<Rightarrow> log_entry list \<Rightarrow> bool" where
  "env_ok L linv env txn es \<longleftrightarrow> store_ok L linv (env_log env) (env_pool env) \<and> env_txn env = Some txn \<and> ctx_log txn es \<and>
     lm_inv (env_locks env) \<and> waiting_for (env_locks env) (ctx_id txn) = None \<and> ctx_locks (env_locks env) txn"

definition covered :: "TransactionContext \<Rightarrow> DBLockTag \<Rightarrow> DBLockMode \<Rightarrow> bool" where
  "covered txn tag mode \<longleftrightarrow> (\<exists>k. map_of (heldLocks txn) tag = Some k \<and> IsLockModeCovered k mode)"

lemma covered_trans: "IsLockModeCovered k h \<Longrightarrow> IsLockModeCovered h m \<Longrightarrow> IsLockModeCovered k m"
  by (cases k; cases h; cases m) (simp_all add: IsLockModeCovered_def)

lemma AcquireLock_keeps:
  assumes "AcquireLock lm txn tag mode = Inr (res, txn', lm')"
  shows "logRecords txn' = logRecords txn" "ctx_id txn' = ctx_id txn"
  using assms by (auto simp: AcquireLock_def Let_def bindR_eq_Inr split: if_splits prod.splits lock_outcome.splits)
    (metis lock_outcome.exhaust)+

lemma Lock_blocked:
  assumes "Lock lm tid tag mode = Inr (Blocked, lm')"
  shows "waiting_for lm' tid \<noteq> None"
  using assms by (auto simp: Lock_def lock_request_def Let_def bindR_eq_Inr waiting_for_def set_tcb_def set_lcb_def
      split: if_splits prod.splits lock_outcome.splits)

lemma acquire_ok:
  assumes "env_ok L linv env txn es"
  obtains (waiting) env' where "acquire tag mode env = (Inl Spins, env')" "env_pool env' = env_pool env" "env_log env' = env_log env"
      "waiting_for (env_locks env') (ctx_id txn) \<noteq> None"
    | (granted) txn' lm' where "acquire tag mode env = (Inr (), env\<lparr>env_txn := Some txn', env_locks := lm'\<rparr>)"
      "env_ok L linv (env\<lparr>env_txn := Some txn', env_locks := lm'\<rparr>) txn' es" "ctx_id txn' = ctx_id txn" "covered txn' tag mode"
      "\<And>g m. covered txn g m \<Longrightarrow> covered txn' g m"
proof -
  have e: "lm_inv (env_locks env)" "waiting_for (env_locks env) (ctx_id txn) = None" "ctx_locks (env_locks env) txn"
      "env_txn env = Some txn"
    using assms by (simp_all add: env_ok_def)
  obtain res txn' lm' where a: "AcquireLock (env_locks env) txn tag mode = Inr (res, txn', lm')" "lm_inv lm'"
    "case res of
       Acquired \<Rightarrow> ctx_locks lm' txn' \<and> waiting_for lm' (ctx_id txn') = None \<and> ctx_id txn' = ctx_id txn \<and>
         (\<exists>k. map_of (heldLocks txn') tag = Some k \<and> IsLockModeCovered k mode \<and>
            (\<forall>h. map_of (heldLocks txn) tag = Some h \<longrightarrow> IsLockModeCovered k h)) \<and>
         (\<forall>g. g \<noteq> tag \<longrightarrow> map_of (heldLocks txn') g = map_of (heldLocks txn) g)
     | Waiting m \<Rightarrow> txn' = txn"
    using AcquireLock_step [OF e(1-3), of tag mode] by blast
  note k = AcquireLock_keeps [OF a(1)]
  show thesis
  proof (cases res)
    case (Waiting m)
    then have "waiting_for lm' (ctx_id txn) \<noteq> None"
      using a(1) by (auto simp: AcquireLock_def Let_def bindR_eq_Inr dest!: Lock_blocked split: if_splits lock_outcome.splits)
        (metis lock_outcome.exhaust)
    then show thesis using Waiting waiting a(1) e(4) by (simp add: acquire_def)
  next
    case Acquired
    have "covered txn' g m" if "covered txn g m" for g m
      using that a(3) Acquired covered_trans by (cases "g = tag") (auto simp: covered_def)
    moreover have "ctx_log txn' es" using assms k by (simp add: env_ok_def ctx_log_def)
    ultimately show thesis
      using granted [of lm' txn'] a Acquired e(4) assms by (auto simp: acquire_def env_ok_def covered_def)
  qed
qed

definition returned :: "fault \<Rightarrow> bool" where
  "returned f \<longleftrightarrow> f \<noteq> Spins \<and> (\<forall>m. f \<noteq> Panic m)"

text \<open>
  What an operation on the row \<open>rid\<close> that logs the entry \<open>e\<close> does.  When it succeeds, the
  row was not deleted, the entry is the last of the log and of the undo buffer, the slots
  have changed as the entry says, and the transaction holds the row exclusively.  When it
  fails, nothing has been logged, and when it returns the failure, no slot has changed; it
  fails only because it waits for a lock, the row is deleted, or the log fails.
\<close>

definition row_op :: "'l LogManager \<Rightarrow> ('l \<Rightarrow> bool) \<Rightarrow> ('l \<Rightarrow> (LSN \<times> log_entry) list) \<Rightarrow> 'l Env \<Rightarrow> TransactionContext \<Rightarrow>
    log_entry list \<Rightarrow> RecordID \<Rightarrow> log_entry \<Rightarrow> unit res \<times> 'l Env \<Rightarrow> bool" where
  "row_op L linv hist env txn es rid e r \<longleftrightarrow>
     (case r of
        (Inl f, env') \<Rightarrow>
          hist (env_log env') = hist (env_log env) \<and> (returned f \<longrightarrow> page_slots (env_pool env') = page_slots (env_pool env)) \<and>
          (f = Spins \<and> waiting_for (env_locks env') (ctx_id txn) \<noteq> None \<or> f = ErrTupleDeleted \<and> s_del (slot_at (page_slots (env_pool env)) rid) \<or> log_failure L linv f)
      | (Inr _, env') \<Rightarrow>
          (\<exists>txn'. env_ok L linv env' txn' (es @ [e]) \<and> ctx_id txn' = ctx_id txn \<and> covered txn' (NewTupleLockTag rid) LockModeX) \<and>
          page_slots (env_pool env') = do_entry e (page_slots (env_pool env)) \<and>
          map snd (hist (env_log env')) = map snd (hist (env_log env)) @ [e] \<and>
          \<not> s_del (slot_at (page_slots (env_pool env)) rid))"

lemma row_op_cong:
  assumes "env_log env' = env_log env" "env_pool env' = env_pool env" "ctx_id txn' = ctx_id txn"
  shows "row_op L linv hist env' txn' es rid e r = row_op L linv hist env txn es rid e r"
  using assms by (cases r; cases "fst r") (simp_all add: row_op_def)

text \<open>
  The common course of \<^verbatim>\<open>DeleteTuple\<close> and \<^verbatim>\<open>UpdateTuple\<close> once the page is open: check the
  deleted mark, read what the record needs, log the change, change the page, advance its
  sequence number, unpin.
\<close>

definition change_row :: "'l LogManager \<Rightarrow> RecordID \<Rightarrow> (PageFrame \<Rightarrow> RawTuple res) \<Rightarrow>
    (RawTuple \<Rightarrow> TransactionContext \<Rightarrow> (LogRecord \<times> TransactionContext) res) \<Rightarrow> (PageFrame \<Rightarrow> PageFrame res) \<Rightarrow> nat \<Rightarrow> 'l Env \<Rightarrow>
    unit res \<times> 'l Env" where
  "change_row L rid read mk change a env4 =
     stepS (IsDeleted (frame_at a env4) rid) env4 (\<lambda>deleted.
     if deleted then give_up a False ErrTupleDeleted env4
     else stepS (read (frame_at a env4)) env4 (\<lambda>tup.
          case log_change L (mk tup) env4 of
            (Inl e, env5) \<Rightarrow> give_up a False e env5
          | (Inr lsn, env5) \<Rightarrow>
              bindS (on_frame a change env5) (\<lambda>_ env6.
              bindS (advance_LSN a lsn env6) (\<lambda>_ env7. unpin a True env7))))"

lemma DeleteTuple_change:
  "DeleteTuple L th rid env0 =
     bindS (acquire (tableTag th) LockModeIX env0) (\<lambda>_ env1.
     bindS (acquire (NewTupleLockTag rid) LockModeX env1) (\<lambda>_ env2.
     bindS (get_page L (ridPage rid) env2) (\<lambda>a env3. bindS (on_frame a AsHeapPage env3) (\<lambda>_ env4.
       change_row L rid (\<lambda>_. Inr []) (\<lambda>_. txn_NewDeleteRecord rid) (\<lambda>hp. MarkDeleted hp rid True) a env4))))"
  by (simp add: DeleteTuple_def change_row_def cong: if_cong)

lemma UpdateTuple_change:
  "UpdateTuple L th rid row env0 =
     bindS (acquire (tableTag th) LockModeIX env0) (\<lambda>_ env1.
     bindS (acquire (NewTupleLockTag rid) LockModeX env1) (\<lambda>_ env2.
     bindS (get_page L (ridPage rid) env2) (\<lambda>a env3. bindS (on_frame a AsHeapPage env3) (\<lambda>_ env4.
       change_row L rid (\<lambda>hp. AccessTuple hp rid) (\<lambda>tup. txn_NewUpdateRecord rid tup row)
         (\<lambda>hp. CopyIntoTuple hp rid row) a env4))))"
  by (simp add: UpdateTuple_def change_row_def)

text \<open>
  The frame \<open>a\<close> is pinned with the heap page \<open>hp\<close> in it: whatever valid page takes its
  place, unpinning succeeds and leaves that page in the database.
\<close>

definition closes :: "'l LogManager \<Rightarrow> ('l \<Rightarrow> bool) \<Rightarrow> 'l \<Rightarrow> BufferPool \<Rightarrow> nat \<Rightarrow> PageFrame \<Rightarrow> slots \<Rightarrow> PageID \<Rightarrow> bool" where
  "closes L linv l1 bp1 a hp S pid \<longleftrightarrow> (\<forall>g dirty l2. wf_heap_page g \<longrightarrow> same_pool_fields hp g \<longrightarrow> dirty \<or> Bytes g = Bytes hp \<longrightarrow>
     linv l2 \<longrightarrow> (\<forall>k. waits L l1 k \<longrightarrow> waits L l2 k) \<longrightarrow> waits L l2 (frame_LSN g) \<longrightarrow>
     (\<exists>bp2. UnpinPage a dirty (put_frame a g bp1) = Inr bp2 \<and> store_ok L linv l2 bp2 \<and> page_slots bp2 = S(pid \<mapsto> hp_slots g)))"

lemma closesD:
  assumes "closes L linv l1 bp1 a hp S pid" "wf_heap_page g" "same_pool_fields hp g" "dirty \<or> Bytes g = Bytes hp" "linv l2"
    "\<And>k. waits L l1 k \<Longrightarrow> waits L l2 k" "waits L l2 (frame_LSN g)"
  obtains bp2 where "UnpinPage a dirty (put_frame a g bp1) = Inr bp2" "store_ok L linv l2 bp2" "page_slots bp2 = S(pid \<mapsto> hp_slots g)"
  using assms unfolding closes_def by blast

lemma closes_view:
  assumes "closes L linv l1 bp1 a pf S pid" "same_pool_fields pf hp" "Bytes hp = Bytes pf"
  shows "closes L linv l1 bp1 a hp S pid"
  using assms same_pool_fields_trans [OF assms(2)] unfolding closes_def by metis

context log_service
begin

lemma raw_session:
  assumes ok: "store_ok L linv (env_log env) (env_pool env)" and b: "pool_view (env_pool env) pid = Some b"
  obtains a l1 bp1 where "get_page L pid env = (Inr a, env\<lparr>env_log := l1, env_pool := bp1\<rparr>)"
    "Bytes (frames bp1 a) = b" "length b = PageSize" "cached (frames bp1 a) \<longrightarrow> wf_heap_page (frames bp1 a)" "linv l1"
    "log_kept L history (env_log env) l1" "waits L l1 (page_LSN b)"
    "on_disk (storageManager bp1) = on_disk (storageManager (env_pool env))"
    "closes L linv l1 bp1 a (frames bp1 a) (page_slots (env_pool env)) pid"
proof -
  let ?bp = "env_pool env" and ?l = "env_log env"
  have o': "pool_ok ?bp" "quiet ?bp" "lsns_ok L ?l ?bp" "linv ?l" using ok by (simp_all add: store_ok_def)
  obtain a l1 bp1 where v: "GetPage L pid (?l, ?bp) = (Inr a, l1, bp1)" "Bytes (frames bp1 a) = b" "length b = PageSize"
      "synced L ?l (storageManager ?bp) l1 (storageManager bp1)" "cached (frames bp1 a) \<longrightarrow> wf_heap_page (frames bp1 a)"
      "on_disk (storageManager bp1) = on_disk (storageManager ?bp)"
      "\<And>g dirty. edit_ok (frames bp1 a) g dirty \<Longrightarrow> \<exists>bp''. UnpinPage a dirty (put_frame a g bp1) = Inr bp'' \<and>
         pool_ok bp'' \<and> quiet bp'' \<and> pool_view bp'' = (pool_view ?bp)(pid \<mapsto> Bytes g)"
    using visit_page [OF o'(1,2) b o'(3)] by blast
  have "l1 = ?l \<or> (\<exists>lsn. l1 = snd (WaitUntilFlushed L lsn ?l))" using v(4) by (auto simp: synced_def)
  then have k: "linv l1" "log_kept L history ?l l1"
    using wait_law [OF o'(4)] o'(4) by (fastforce simp: log_kept_def prod_eq_iff)+
  have lsns: "lsns_ok L l1 ?bp" using o'(3) k(2) by (simp add: lsns_ok_def log_kept_def)
  have "waits L l1 (page_LSN b)" using lsns b by (simp add: lsns_ok_def)
  moreover have "\<exists>bp2. UnpinPage a dirty (put_frame a g bp1) = Inr bp2 \<and> store_ok L linv l2 bp2 \<and>
         page_slots bp2 = (page_slots ?bp)(pid \<mapsto> hp_slots g)"
    if g: "wf_heap_page g" "same_pool_fields (frames bp1 a) g" "dirty \<or> Bytes g = Bytes (frames bp1 a)" "linv l2"
      "\<And>k. waits L l1 k \<Longrightarrow> waits L l2 k" "waits L l2 (frame_LSN g)" for g dirty l2
  proof -
    note wg = wf_page_bytes [OF g(1)]
    have "edit_ok (frames bp1 a) g dirty"
      using g(1-3) v(2) wg(5) by (auto simp: edit_ok_def same_pool_fields_def)
    then obtain bp2 where u: "UnpinPage a dirty (put_frame a g bp1) = Inr bp2" "pool_ok bp2" "quiet bp2"
        "pool_view bp2 = (pool_view ?bp)(pid \<mapsto> Bytes g)"
      using v(7) by blast
    have "lsns_ok L l2 bp2" using lsns g(5,6) u(4) by (auto simp: lsns_ok_def frame_LSN_page)
    moreover have "page_slots bp2 = (page_slots ?bp)(pid \<mapsto> hp_slots g)"
      using u(4) wg(1,2) by (auto simp: page_slots_def)
    ultimately show ?thesis using u g(4) by (simp add: store_ok_def)
  qed
  then have "closes L linv l1 bp1 a (frames bp1 a) (page_slots ?bp) pid" by (simp add: closes_def)
  ultimately show thesis
    using that [of a bp1 l1] v k by (simp add: get_page_def)
qed

lemma page_session:
  assumes ok: "store_ok L linv (env_log env) (env_pool env)" and s: "page_slots (env_pool env) pid = Some ss"
  obtains a l1 bp1 hp where "get_page L pid env = (Inr a, env\<lparr>env_log := l1, env_pool := bp1\<rparr>)"
    "AsHeapPage (frames bp1 a) = Inr hp" "wf_heap_page hp" "hp_slots hp = ss" "linv l1" "log_kept L history (env_log env) l1"
    "waits L l1 (frame_LSN hp)"
    "closes L linv l1 bp1 a hp (page_slots (env_pool env)) pid"
proof -
  obtain b where b: "pool_view (env_pool env) pid = Some b" "heap_bytes_ok b" "ss = slots_of b"
    using s by (auto simp: page_slots_def split: option.splits if_splits)
  obtain a l1 bp1 where v: "get_page L pid env = (Inr a, env\<lparr>env_log := l1, env_pool := bp1\<rparr>)"
      "Bytes (frames bp1 a) = b" "cached (frames bp1 a) \<longrightarrow> wf_heap_page (frames bp1 a)" "linv l1"
      "log_kept L history (env_log env) l1" "waits L l1 (page_LSN b)"
    and close: "closes L linv l1 bp1 a (frames bp1 a) (page_slots (env_pool env)) pid"
    by (rule raw_session [OF ok b(1)])
  obtain hp where hp: "AsHeapPage (frames bp1 a) = Inr hp" "wf_heap_page hp" "Bytes hp = b" "frame_LSN hp = frame_LSN (frames bp1 a)"
      "same_pool_fields (frames bp1 a) hp"
    using AsHeapPage_ok [of "frames bp1 a"] b(2) v(2,3) by metis
  show thesis
    using that [OF v(1) hp(1,2) _ v(4,5) _ closes_view [OF close hp(5)]] v(2,6) hp(3) wf_page_bytes(2) [OF hp(2)] b(3)
    by (simp add: frame_LSN_page)
qed

text \<open>Logging a change of the page, and the page that the change leaves.\<close>

lemma log_change_ok:
  assumes ok: "env_ok L linv env txn es" and l1: "linv l1" "log_kept L history (env_log env) l1"
    and mk: "mk txn = Inr (r, txn\<lparr>logRecords := s\<rparr>)" "is_entry r e" "ctx_log (txn\<lparr>logRecords := s\<rparr>) (es @ [e])"
      "length (entry_bytes e) < 60000"
  obtains (failed) f where "log_change L mk (env\<lparr>env_log := l1, env_pool := bp\<rparr>) =
        (Inl f, env\<lparr>env_txn := Some (txn\<lparr>logRecords := s\<rparr>), env_log := l1, env_pool := bp\<rparr>)" "log_failure L linv f"
    | (appended) lsn l2 where "log_change L mk (env\<lparr>env_log := l1, env_pool := bp\<rparr>) =
        (Inr lsn, env\<lparr>env_txn := Some (txn\<lparr>logRecords := s\<rparr>), env_log := l2, env_pool := bp\<rparr>)" "linv l2"
      "\<And>k. waits L l1 k \<Longrightarrow> waits L l2 k" "waits L l2 lsn" "map snd (history l2) = map snd (history (env_log env)) @ [e]"
proof -
  have size: "LogRecord_Size r < 65536" using is_entry_length [OF mk(2)] mk(4) by (simp add: LogRecord_Size_def)
  have t: "env_txn env = Some txn" using ok by (simp add: env_ok_def)
  obtain res l2 where a: "Append L r l1 = (res, l2)" by fastforce
  show thesis
  proof (cases res)
    case (Inl f)
    then have "l2 = l1" "log_failure L linv f" using append_fail_law [OF l1(1)] a l1(1) by (auto simp: log_failure_def intro!: exI [of _ r] exI [of _ l1])
    then show thesis using failed a Inl t mk(1) by (simp add: log_change_def)
  next
    case (Inr lsn)
    then show thesis
      using appended [of lsn l2] append_law [OF l1(1) mk(2) size] a t mk(1) l1(2) by (simp add: log_change_def log_kept_def)
  qed
qed

lemma give_up_session:
  assumes "UnpinPage a dirty (put_frame a hp bp1) = Inr bp2"
  shows "\<exists>env'. give_up a dirty f (env\<lparr>env_pool := put_frame a hp bp1\<rparr>) = (Inl f, env') \<and> env_log env' = env_log env \<and>
    (returned f \<longrightarrow> env_pool env' = bp2)"
  using assms by (cases f) (auto simp: give_up_def unpin_def returned_def)

lemma change_row_ok:
  assumes ok: "env_ok L linv env txn es" and rid: "rid_ok (page_slots (env_pool env)) rid"
    and x: "covered txn (NewTupleLockTag rid) LockModeX"
    and read: "\<And>hp. wf_heap_page hp \<Longrightarrow> rid_slot rid = int (slot_no rid) \<Longrightarrow> slot_no rid < numSlots hp \<Longrightarrow>
      page_slots (env_pool env) (ridPage rid) = Some (hp_slots hp) \<Longrightarrow> read hp = Inr tup"
    and mk: "\<exists>r s. mk tup txn = Inr (r, txn\<lparr>logRecords := s\<rparr>) \<and> is_entry r e \<and> ctx_log (txn\<lparr>logRecords := s\<rparr>) (es @ [e])"
    and e: "entry_rid e = Some rid" "length (entry_bytes e) < 60000"
    and change: "\<And>hp. wf_heap_page hp \<Longrightarrow> rid_slot rid = int (slot_no rid) \<Longrightarrow> slot_no rid < numSlots hp \<Longrightarrow>
      page_slots (env_pool env) (ridPage rid) = Some (hp_slots hp) \<Longrightarrow>
      \<exists>g. change hp = Inr g \<and> wf_heap_page g \<and> same_header hp g \<and> same_pool_fields hp g \<and>
        hp_slots g = (hp_slots hp)[slot_no rid := slot_do e (hp_slots hp ! slot_no rid)]"
  shows "row_op L linv history env txn es rid e
    (bindS (get_page L (ridPage rid) env) (\<lambda>a env3. bindS (on_frame a AsHeapPage env3) (\<lambda>_ env4. change_row L rid read mk change a env4)))"
proof -
  let ?S = "page_slots (env_pool env)"
  have "rid_slot rid = int (slot_no rid)" using rid by (simp add: rid_ok_def slot_no_def)
  moreover obtain ss where "?S (ridPage rid) = Some ss" "slot_no rid < length ss" using rid by (auto simp: rid_ok_def)
  ultimately have ss: "?S (ridPage rid) = Some ss" "slot_no rid < length ss" "rid_slot rid = int (slot_no rid)" by auto
  have store: "store_ok L linv (env_log env) (env_pool env)" "env_txn env = Some txn" using ok by (simp_all add: env_ok_def)
  obtain a l1 bp1 hp where p: "get_page L (ridPage rid) env = (Inr a, env\<lparr>env_log := l1, env_pool := bp1\<rparr>)"
    "AsHeapPage (frames bp1 a) = Inr hp" "wf_heap_page hp" "hp_slots hp = ss" "linv l1" "log_kept L history (env_log env) l1"
    "waits L l1 (frame_LSN hp)"
    and close: "closes L linv l1 bp1 a hp ?S (ridPage rid)"
    by (rule page_session [OF store(1) ss(1)]) (rule that)
  have i: "slot_no rid < numSlots hp" using ss(2) p(4) length_hp_slots [of hp] by simp
  have at: "slot_at ?S rid = hp_slots hp ! slot_no rid" by (simp add: slot_at_def ss(1) p(4))
  obtain bp0 where bp0: "UnpinPage a False (put_frame a hp bp1) = Inr bp0" "page_slots bp0 = ?S"
    by (rule closesD [OF close p(3) _ _ p(5) _ p(7), of False]) (use p(4) ss(1) in \<open>auto simp: same_pool_fields_def fun_upd_idem\<close>)
  let ?e4 = "env\<lparr>env_log := l1, env_pool := put_frame a hp bp1\<rparr>"
  have h1: "history l1 = history (env_log env)" using p(6) by (simp add: log_kept_def)
  have start: "bindS (get_page L (ridPage rid) env) (\<lambda>a env3. bindS (on_frame a AsHeapPage env3) (\<lambda>_ env4. change_row L rid read mk change a env4)) =
      change_row L rid read mk change a ?e4"
    by (simp add: p(1,2) on_frame_def)
  have del: "IsDeleted hp rid = Inr (s_del (hp_slots hp ! slot_no rid))" by (rule IsDeleted_spec [OF p(3) ss(3) i])
  show ?thesis
  proof (cases "s_del (hp_slots hp ! slot_no rid)")
    case True
    obtain env' where "give_up a False ErrTupleDeleted ?e4 = (Inl ErrTupleDeleted :: unit res, env' :: 'l Env)"
        "env_log env' = l1" "env_pool env' = bp0"
      using give_up_session [OF bp0(1), of ErrTupleDeleted "env\<lparr>env_log := l1\<rparr>"]
      by (auto simp: ErrTupleDeleted_def returned_def)
    then show ?thesis
      using True del at h1 bp0(2) unfolding start by (simp add: change_row_def frame_at_def row_op_def)
  next
    case False
    have acc: "read hp = Inr tup" using read [OF p(3) ss(3) i] ss(1) p(4) by simp
    obtain r s where r: "mk tup txn = Inr (r, txn\<lparr>logRecords := s\<rparr>)" "is_entry r e" "ctx_log (txn\<lparr>logRecords := s\<rparr>) (es @ [e])"
      using mk by auto
    show ?thesis
    proof (rule log_change_ok [where mk = "mk tup" and bp = "put_frame a hp bp1", OF ok p(5,6) r e(2)])
      fix f
      assume f: "log_change L (mk tup) ?e4 = (Inl f, env\<lparr>env_txn := Some (txn\<lparr>logRecords := s\<rparr>), env_log := l1, env_pool := put_frame a hp bp1\<rparr>)" "log_failure L linv f"
      obtain env' where "give_up a False f (env\<lparr>env_txn := Some (txn\<lparr>logRecords := s\<rparr>), env_log := l1, env_pool := put_frame a hp bp1\<rparr>) = (Inl f :: unit res, env' :: 'l Env)"
          "env_log env' = l1" "returned f \<longrightarrow> env_pool env' = bp0"
        using give_up_session [OF bp0(1), of f "env\<lparr>env_txn := Some (txn\<lparr>logRecords := s\<rparr>), env_log := l1\<rparr>"] by auto
      then show ?thesis
        using False del acc f h1 bp0(2) unfolding start by (auto simp: change_row_def frame_at_def row_op_def)
    next
      fix lsn l2
      assume l: "log_change L (mk tup) ?e4 = (Inr lsn, env\<lparr>env_txn := Some (txn\<lparr>logRecords := s\<rparr>), env_log := l2,
            env_pool := put_frame a hp bp1\<rparr>)" "linv l2"
        "\<And>k. waits L l1 k \<Longrightarrow> waits L l2 k" "waits L l2 lsn" "map snd (history l2) = map snd (history (env_log env)) @ [e]"
      obtain g where g: "change hp = Inr g" "wf_heap_page g" "same_header hp g" "same_pool_fields hp g"
          "hp_slots g = (hp_slots hp)[slot_no rid := slot_do e (hp_slots hp ! slot_no rid)]"
        using change [OF p(3) ss(3) i] ss(1) p(4) by auto
      let ?g = "MonotonicallyUpdateLSN g lsn"
      note m = MonotonicallyUpdateLSN_spec [OF g(2), of lsn]
      have w: "waits L l2 (frame_LSN ?g)"
        using m(3) l(3,4) p(7) g(3) by (simp add: same_header_def max_def)
      obtain bp2 where bp2: "UnpinPage a True (put_frame a ?g bp1) = Inr bp2" "store_ok L linv l2 bp2"
          "page_slots bp2 = ?S(ridPage rid \<mapsto> hp_slots g)"
        by (rule closesD [OF close m(1) same_pool_fields_trans [OF g(4) op_pool_fields(7)] _ l(2,3) w, of True]) (use m(2) in auto)
      have "?S(ridPage rid \<mapsto> hp_slots g) = do_entry e ?S"
        using ss(1) p(4) g(5) e(1) by (simp add: do_entry_def upd_slot_def)
      then show ?thesis
        using False del acc l(1,5) g(1) bp2 at ok r(3) x unfolding start
        by (auto simp: change_row_def frame_at_def row_op_def on_frame_def advance_LSN_def unpin_def env_ok_def ctx_locks_def covered_def)
    qed
  qed
qed

lemma under_locks:
  assumes ok: "env_ok L linv env txn es"
    and k: "\<And>txn' lm'. env_ok L linv (env\<lparr>env_txn := Some txn', env_locks := lm'\<rparr>) txn' es \<Longrightarrow> ctx_id txn' = ctx_id txn \<Longrightarrow>
      covered txn' (NewTupleLockTag rid) LockModeX \<Longrightarrow>
      row_op L linv history (env\<lparr>env_txn := Some txn', env_locks := lm'\<rparr>) txn' es rid e (k (env\<lparr>env_txn := Some txn', env_locks := lm'\<rparr>))"
  shows "row_op L linv history env txn es rid e
    (bindS (acquire tag LockModeIX env) (\<lambda>_ env1. bindS (acquire (NewTupleLockTag rid) LockModeX env1) (\<lambda>_ env2. k env2)))"
proof (rule acquire_ok [OF ok, of tag LockModeIX])
  fix env'
  assume "acquire tag LockModeIX env = (Inl Spins, env')" "env_pool env' = env_pool env" "env_log env' = env_log env"
    "waiting_for (env_locks env') (ctx_id txn) \<noteq> None"
  then show ?thesis by (simp add: row_op_def)
next
  fix txn1 lm1
  let ?e1 = "env\<lparr>env_txn := Some txn1, env_locks := lm1\<rparr>"
  assume 1: "acquire tag LockModeIX env = (Inr (), ?e1)" "env_ok L linv ?e1 txn1 es" "ctx_id txn1 = ctx_id txn"
  show ?thesis
  proof (rule acquire_ok [OF 1(2), of "NewTupleLockTag rid" LockModeX])
    fix env'
    assume "acquire (NewTupleLockTag rid) LockModeX ?e1 = (Inl Spins, env')" "env_pool env' = env_pool ?e1" "env_log env' = env_log ?e1"
      "waiting_for (env_locks env') (ctx_id txn1) \<noteq> None"
    then show ?thesis using 1(1,3) by (simp add: row_op_def)
  next
    fix txn2 lm2
    assume 2: "acquire (NewTupleLockTag rid) LockModeX ?e1 = (Inr (), ?e1\<lparr>env_txn := Some txn2, env_locks := lm2\<rparr>)"
      "env_ok L linv (?e1\<lparr>env_txn := Some txn2, env_locks := lm2\<rparr>) txn2 es" "ctx_id txn2 = ctx_id txn1"
      "covered txn2 (NewTupleLockTag rid) LockModeX"
    let ?e2 = "env\<lparr>env_txn := Some txn2, env_locks := lm2\<rparr>"
    have "row_op L linv history ?e2 txn2 es rid e (k ?e2)" by (rule k) (use 1 2 in simp_all)
    then have "row_op L linv history env txn es rid e (k ?e2)"
      using row_op_cong [of ?e2 env txn2 txn] 1(3) 2(3) by simp
    then show ?thesis using 1(1) 2(1) by simp
  qed
qed

lemma DeleteTuple_ok:
  assumes ok: "env_ok L linv env txn es" and rid: "rid_ok (page_slots (env_pool env)) rid"
  shows "row_op L linv history env txn es rid (DeleteE (ctx_id txn) rid) (DeleteTuple L th rid env)"
  unfolding DeleteTuple_change
proof (rule under_locks [OF ok])
  fix txn' lm'
  let ?env = "env\<lparr>env_txn := Some txn', env_locks := lm'\<rparr>"
  assume e: "env_ok L linv ?env txn' es" "ctx_id txn' = ctx_id txn" "covered txn' (NewTupleLockTag rid) LockModeX"
  have "ctx_log txn' es" using e(1) by (simp add: env_ok_def)
  note r = txn_records(5) [OF this, of rid]
  show "row_op L linv history ?env txn' es rid (DeleteE (ctx_id txn) rid)
    (bindS (get_page L (ridPage rid) ?env) (\<lambda>a env3. bindS (on_frame a AsHeapPage env3) (\<lambda>_ env4.
       change_row L rid (\<lambda>_. Inr []) (\<lambda>_. txn_NewDeleteRecord rid) (\<lambda>hp. MarkDeleted hp rid True) a env4)))"
  proof (rule change_row_ok [OF e(1) _ e(3), of _ "[]"])
    fix hp
    assume "wf_heap_page hp" "rid_slot rid = int (slot_no rid)" "slot_no rid < numSlots hp"
    from MarkDeleted_spec [OF this, of True]
    obtain g where g: "MarkDeleted hp rid True = Inr g" "wf_heap_page g" "same_header hp g"
        "hp_slots g = (hp_slots hp)[slot_no rid := (hp_slots hp ! slot_no rid)\<lparr>s_del := True\<rparr>]" .
    then show "\<exists>g. MarkDeleted hp rid True = Inr g \<and> wf_heap_page g \<and> same_header hp g \<and> same_pool_fields hp g \<and>
        hp_slots g = (hp_slots hp)[slot_no rid := slot_do (DeleteE (ctx_id txn) rid) (hp_slots hp ! slot_no rid)]"
      using op_pool_fields(1) by auto
  qed (use r rid e(2) in auto)
qed

lemma UpdateTuple_ok:
  assumes ok: "env_ok L linv env txn es" and rid: "rid_ok (page_slots (env_pool env)) rid"
    and row: "length row = length (s_row (slot_at (page_slots (env_pool env)) rid))"
  shows "row_op L linv history env txn es rid
    (UpdateE (ctx_id txn) rid (s_row (slot_at (page_slots (env_pool env)) rid)) row) (UpdateTuple L th rid row env)"
    (is "row_op L linv history env txn es rid ?e _")
  unfolding UpdateTuple_change
proof (rule under_locks [OF ok])
  fix txn' lm'
  let ?env = "env\<lparr>env_txn := Some txn', env_locks := lm'\<rparr>" and ?old = "s_row (slot_at (page_slots (env_pool env)) rid)"
  assume e: "env_ok L linv ?env txn' es" "ctx_id txn' = ctx_id txn" "covered txn' (NewTupleLockTag rid) LockModeX"
  have "ctx_log txn' es" using e(1) by (simp add: env_ok_def)
  note r = txn_update_record [OF this row [symmetric], of rid]
  show "row_op L linv history ?env txn' es rid ?e
    (bindS (get_page L (ridPage rid) ?env) (\<lambda>a env3. bindS (on_frame a AsHeapPage env3) (\<lambda>_ env4.
       change_row L rid (\<lambda>hp. AccessTuple hp rid) (\<lambda>tup. txn_NewUpdateRecord rid tup row) (\<lambda>hp. CopyIntoTuple hp rid row) a env4)))"
  proof (rule change_row_ok [OF e(1) _ e(3), of _ ?old])
    fix hp
    assume h: "wf_heap_page hp" "rid_slot rid = int (slot_no rid)" "slot_no rid < numSlots hp"
      and S: "page_slots (env_pool ?env) (ridPage rid) = Some (hp_slots hp)"
    then have old: "?old = s_row (hp_slots hp ! slot_no rid)" by (simp add: slot_at_def)
    then show "AccessTuple hp rid = Inr ?old" using AccessTuple_spec [OF h] by simp
    have "length row = rowSize hp"
      using row old slots_row_length [OF wf_page_bytes(1) [OF h(1)], of "slot_no rid"] wf_page_bytes [OF h(1)] h(3) by simp
    from CopyIntoTuple_spec [OF h this]
    obtain g where g: "CopyIntoTuple hp rid row = Inr g" "wf_heap_page g" "same_header hp g"
        "hp_slots g = (hp_slots hp)[slot_no rid := (hp_slots hp ! slot_no rid)\<lparr>s_row := row\<rparr>]" .
    then show "\<exists>g. CopyIntoTuple hp rid row = Inr g \<and> wf_heap_page g \<and> same_header hp g \<and> same_pool_fields hp g \<and>
        hp_slots g = (hp_slots hp)[slot_no rid := slot_do ?e (hp_slots hp ! slot_no rid)]"
      using op_pool_fields(3) by auto
  next
    show "length (entry_bytes ?e) < 60000" using row page_row_small [OF rid] by (simp add: PageSize_def)
  qed (use r rid e(2) in auto)
qed

end

section \<open>Properties of deletion and update\<close>

text \<open>
  C7: Deleting and updating a row.  On a healthy database with a transaction that is not
  waiting for a lock, \<^verbatim>\<open>DeleteTuple\<close> and \<^verbatim>\<open>UpdateTuple\<close> of an existing slot either
  succeed, or wait for a lock, or return \<^verbatim>\<open>ErrTupleDeleted\<close> for a deleted row, or fail
  with a fault of the log; a failure leaves the log, and when it is returned every slot, as
  they were.  On success the change is the last record of the log and of the transaction's
  undo buffer, the transaction holds the row exclusively, no page stays pinned, and the
  visible rows of the database are those before without the deleted row, or with the new
  contents of the updated one.
\<close>

theorem row_changes:
  assumes log: "log_service L linv hist" and ok: "env_ok L linv env txn es" "rid_ok (page_slots (env_pool env)) rid"
    and row: "length row = length (s_row (slot_at (page_slots (env_pool env)) rid))"
  shows "row_op L linv hist env txn es rid (DeleteE (ctx_id txn) rid) (DeleteTuple L th rid env) \<and>
    row_op L linv hist env txn es rid (UpdateE (ctx_id txn) rid (s_row (slot_at (page_slots (env_pool env)) rid)) row)
      (UpdateTuple L th rid row env) \<and>
    (\<forall>env'. DeleteTuple L th rid env = (Inr (), env') \<longrightarrow>
       rows (page_slots (env_pool env')) = (rows (page_slots (env_pool env)))(rid := None)) \<and>
    (\<forall>env' before. rows (page_slots (env_pool env)) rid = Some before \<longrightarrow> UpdateTuple L th rid row env = (Inr (), env') \<longrightarrow>
       rows (page_slots (env_pool env')) = (rows (page_slots (env_pool env)))(rid \<mapsto> row))"
proof -
  let ?S = "page_slots (env_pool env)"
  note d = log_service.DeleteTuple_ok [OF log ok, of th] and u = log_service.UpdateTuple_ok [OF log ok row, of th]
  have "rows (page_slots (env_pool env')) = (rows ?S)(rid := None)" if "DeleteTuple L th rid env = (Inr (), env')" for env'
    using d that rows_do_entry [OF _ ok(2)] by (simp add: row_op_def vis_def)
  moreover have "rows (page_slots (env_pool env')) = (rows ?S)(rid \<mapsto> row)"
    if "rows ?S rid = Some before" "UpdateTuple L th rid row env = (Inr (), env')" for env' before
    using u that rows_do_entry [OF _ ok(2)] by (simp add: row_op_def vis_def rows_def split: if_splits)
  ultimately show ?thesis using d u by blast
qed

definition demo_env :: "'l \<Rightarrow> BufferPool \<Rightarrow> 'l Env" where
  "demo_env m bp = \<lparr>env_txn = Some (NewTestTransactionContext 7), env_log = m, env_pool = bp, env_locks = NewLockManager\<rparr>"

lemma demo_env_ok:
  assumes "store_ok L linv m bp"
  shows "env_ok L linv (demo_env m bp) (NewTestTransactionContext 7) []"
  using assms lock_reach_inv [OF lock_reach.lr_start]
  by (simp add: env_ok_def demo_env_def ctx_log_def newLogRecordBuffer_inv NewTestTransactionContext_def ctx_locks_def
      waiting_for_def NewLockManager_def hold_def)

lemma row_changes_witness:
  "\<exists>m bp. rows (page_slots bp) demo_rid = Some demo_row \<and>
     (\<forall>env'. DeleteTuple memory_log demo_heap demo_rid (demo_env m bp) = (Inr (), env') \<longrightarrow>
        rows (page_slots (env_pool env')) demo_rid = None)"
proof -
  obtain m bp S where d: "store_ok memory_log memory_inv m bp" "rid_ok S demo_rid"
      "page_slots bp = do_entry (InsertE 7 demo_rid demo_row) S" "applies (InsertE 7 demo_rid demo_row) (slot_at S demo_rid)"
    by (rule demo_database)
  have s: "slot_at (page_slots bp) demo_rid = slot_do (InsertE 7 demo_rid demo_row) (slot_at S demo_rid)"
    using d(2) slot_at_do [of "InsertE 7 demo_rid demo_row" S demo_rid] by (simp add: d(3))
  then have "rows (page_slots bp) demo_rid = Some demo_row" using d(2-4) by (simp add: rows_def vis_def)
  then show ?thesis
    using row_changes [OF mem.log_service_axioms demo_env_ok [OF d(1)], of demo_rid demo_row demo_heap] d(2,3) s
    by (intro exI [of _ m] exI [of _ bp]) (auto simp: demo_env_def)
qed

end
