(* ===== verification/Heap_Insert.thy ===== *)
theory Heap_Insert
  imports Table_Heap
begin

text \<open>
  Insertion into a table heap (\<^verbatim>\<open>InsertTuple\<close> of \<^verbatim>\<open>execution/table_heap.go\<close>): the search
  for a free slot, growing the file by one page, and the effect of an insertion on the
  rows, the log and the locks.  Two passes of the loop are enough.
\<close>

section \<open>Files across visits\<close>

lemma UnpinPage_disk: "UnpinPage a dirty bp = Inr bp' \<Longrightarrow> storageManager bp' = storageManager bp"
  by (auto simp: UnpinPage_def upd_frame_def split: if_splits)

lemma GetDBFile_opens: "opened d o' \<Longrightarrow> opened (snd (GetDBFile oid d)) o'"
  by (auto simp: GetDBFile_def opened_def Let_def split: option.splits)

lemma WritePage_opens: "opened (snd (WritePage oid n b d)) = opened d"
  by (auto simp: WritePage_def opened_def fun_eq_iff Let_def split: option.splits)

lemma moves_keep_disk:
  "storageManager (upd_shard i f bp) = storageManager bp" "storageManager (upd_frame a g bp) = storageManager bp"
  "storageManager (unlock_page i pid bp) = storageManager bp" "storageManager (rollbackEviction i a bp) = storageManager bp"
  "evictPage i bp = Some (b, bp') \<Longrightarrow> storageManager bp' = storageManager bp"
  "getPageFromPool i pid bp = Some (b, bp') \<Longrightarrow> storageManager bp' = storageManager bp"
  by (auto simp: upd_shard_def upd_frame_def unlock_page_def rollbackEviction_def evictPage_def getPageFromPool_def Let_def
      split: if_splits option.splits)

lemma flush_victim_opens:
  assumes "opened (storageManager bp) oid" "flush_victim L i a (l, bp) = (r, l', bp')"
  shows "opened (storageManager bp') oid"
  using assms GetDBFile_opens [OF assms(1)] WritePage_opens
  by (auto simp: flush_victim_def moves_keep_disk set_disk_def Let_def split: if_splits prod.splits sum.splits)
    (metis snd_conv)+

lemma load_page_opens:
  assumes "opened (storageManager bp) oid" "load_page i a pid (l, bp) = (r, l', bp')"
  shows "opened (storageManager bp') oid"
  using assms GetDBFile_opens [OF assms(1)]
  by (auto simp: load_page_def moves_keep_disk set_disk_def Let_def split: prod.splits sum.splits) (metis snd_conv)+

lemma get_page_opens:
  assumes "opened (storageManager (env_pool env)) oid" "get_page L pid env = (r, env')"
  shows "opened (storageManager (env_pool env')) oid"
proof -
  obtain r' l' bp' where g: "GetPage L pid (env_log env, env_pool env) = (r', l', bp')" "env_pool env' = bp'"
    using assms(2) by (auto simp: get_page_def split: prod.splits)
  have "opened (storageManager bp') oid"
    using g(1) assms(1)
    by (auto simp: GetPage_def Let_def bindS_def moves_keep_disk split: if_splits option.splits prod.splits sum.splits
        dest!: flush_victim_opens [rotated] load_page_opens [rotated] moves_keep_disk(5,6))
  then show ?thesis using g(2) by simp
qed

lemma num_pages_ok:
  assumes "pool_ok (env_pool env)" "opened (storageManager (env_pool env)) oid"
  shows "num_pages oid env = int (length (file_pages (storageManager (env_pool env)) oid))"
proof -
  have "disk_ok (storageManager (env_pool env))" using assms(1) by (simp add: pool_ok_def)
  from disk_ok_content [OF this, of oid] show ?thesis
    using assms(2) sint_small by (metis NumPages_def num_pages_def)
qed

lemma on_disk_length:
  assumes "disk_ok d" "disk_ok d'" "on_disk d' = on_disk d" "oid \<noteq> InvalidObjectID"
  shows "length (file_pages d' oid) = length (file_pages d oid)"
proof -
  have len: "length (file_pages x oid) < 2 ^ 31" if "disk_ok x" for x using disk_ok_content [OF that] by metis
  have on: "on_disk x (PageID oid (of_nat i)) \<longleftrightarrow> i < length (file_pages x oid)" if "i < 2 ^ 31" for x i
    using sint_small [OF that] assms(4) by (simp add: on_disk_def)
  have "length (file_pages y oid) \<le> length (file_pages x oid)" if "disk_ok x" "on_disk y = on_disk x" for x y
    using on [OF len [OF that(1)], of x] on [OF len [OF that(1)], of y] that(2) by simp
  then show ?thesis using assms by (metis le_antisym)
qed

lemma same_files:
  assumes "pool_ok bp" "disk_ok d'" "file_pages d' = file_pages (storageManager bp)"
  shows "pool_ok (set_disk d' bp)" "quiet (set_disk d' bp) = quiet bp" "pool_view (set_disk d' bp) = pool_view bp"
    "storageManager (set_disk d' bp) = d'"
proof -
  note c = on_disk_cong [OF assms(3)]
  have "frame_ok d' f = frame_ok (storageManager bp) f" for f using c by (simp add: frame_ok_def)
  then show "pool_ok (set_disk d' bp)"
    using assms(1,2) by (simp add: pool_ok_def set_disk_def shard_ok_def listed_ok_def)
  show "quiet (set_disk d' bp) = quiet bp" "storageManager (set_disk d' bp) = d'" by (simp_all add: quiet_def set_disk_def)
  show "pool_view (set_disk d' bp) = pool_view bp"
    using c by (simp add: pool_view_def set_disk_def locate_def shardIdx_def fun_eq_iff split: option.splits)
qed

section \<open>Pages that rows can be put on\<close>

text \<open>
  A free slot carries no deleted mark; a page that is not initialised holds no slots.  A
  table heap may have grown by a page of free slots.
\<close>

definition tidy :: "slot list \<Rightarrow> bool" where
  "tidy ss \<longleftrightarrow> (\<forall>s \<in> set ss. s_alloc s \<or> \<not> s_del s)"

definition insertable :: "nat \<Rightarrow> byte list \<Rightarrow> bool" where
  "insertable n b \<longleftrightarrow> (le_get (slice PageOffsetPadding 2 b) = HeapPageMagic \<longrightarrow>
     heap_bytes_ok b \<and> row_size b = n \<and> tidy (slots_of b))"

definition grown :: "slots \<Rightarrow> slots \<Rightarrow> bool" where
  "grown S S0 \<longleftrightarrow> S0 = S \<or> (\<exists>pid ss. S pid = None \<and> (\<forall>s \<in> set ss. \<not> s_alloc s \<and> \<not> s_del s) \<and> S0 = S(pid \<mapsto> ss))"

lemma grown_rows:
  assumes "grown S S0"
  shows "rows S0 = rows S"
proof -
  have "rows (S(pid \<mapsto> ss)) rid = rows S rid" if "S pid = None" "\<forall>s \<in> set ss. \<not> s_alloc s \<and> \<not> s_del s" for pid ss rid
    using that by (auto simp: rows_def rid_ok_def slot_at_def vis_def)
  then show ?thesis using assms by (auto simp: grown_def)
qed

lemma acquire_frame:
  "acquire tag mode (env\<lparr>env_log := l, env_pool := bp\<rparr>) =
     (fst (acquire tag mode env), (snd (acquire tag mode env))\<lparr>env_log := l, env_pool := bp\<rparr>)"
  by (cases env) (auto simp: acquire_def split: option.splits sum.splits prod.splits)

text \<open>The part of a pass of the loop after the page has been opened.\<close>

definition place_row :: "'l LogManager \<Rightarrow> ObjectID \<Rightarrow> RawTuple \<Rightarrow> (32 word \<Rightarrow> nat \<Rightarrow> 'l Env \<Rightarrow> RecordID res \<times> 'l Env) \<Rightarrow>
    32 word \<Rightarrow> nat \<Rightarrow> bool \<Rightarrow> nat \<Rightarrow> 'l Env \<Rightarrow> RecordID res \<times> 'l Env" where
  "place_row L oid row continue pageNum count inited a env4 =
     stepS (FindFreeSlot (frame_at a env4)) env4 (\<lambda>(slot, hp).
        let env5 = env4\<lparr>env_pool := put_frame a hp (env_pool env4)\<rparr>
        in if slot = - 1
           then bindS (unpin a (\<not> inited) env5) (\<lambda>_ env6. continue (pageNum + 1) count env6)
           else let rid = RecordID (PageID oid pageNum) (of_int slot)
                in case acquire (NewTupleLockTag rid) LockModeX env5 of
                     (Inl e, env6) \<Rightarrow> give_up a (\<not> inited) e env6
                   | (Inr _, env6) \<Rightarrow>
                       case log_change L (txn_NewInsertRecord rid row) env6 of
                         (Inl e, env7) \<Rightarrow> give_up a (\<not> inited) e env7
                       | (Inr lsn, env7) \<Rightarrow>
                           bindS (on_frame a (\<lambda>hp. MarkAllocated hp rid True) env7) (\<lambda>_ env8.
                           bindS (on_frame a (\<lambda>hp. CopyIntoTuple hp rid row) env8) (\<lambda>_ env9.
                           bindS (advance_LSN a lsn env9) (\<lambda>_ env10.
                           bindS (unpin a True env10) (\<lambda>_ env11. (Inr rid, env11))))))"

lemma insert_step_place:
  "insert_step L th row continue pageNum newPageCount env =
     bindS (extend_file (th_oid th) pageNum newPageCount env) (\<lambda>count env1.
     bindS (get_page L (PageID (th_oid th) pageNum) env1) (\<lambda>a env2.
     bindS (if IsInitializedHeapPage (frame_at a env2) then (Inr (), env2)
            else on_frame a (InitializeHeapPage (th_desc th)) env2) (\<lambda>_ env3.
     bindS (on_frame a AsHeapPage env3) (\<lambda>_ env4.
       place_row L (th_oid th) row continue pageNum count (IsInitializedHeapPage (frame_at a env2)) a env4))))"
  by (simp add: insert_step_def place_row_def Let_def)

text \<open>
  What an insertion does.  When it succeeds, it has put the row into a slot of the table
  that was free, logged the insertion, and holds the slot exclusively.  It fails only because
  it waits for a lock or the log fails, and then nothing has been logged.
\<close>

definition insert_op :: "'l LogManager \<Rightarrow> ('l \<Rightarrow> bool) \<Rightarrow> ('l \<Rightarrow> (LSN \<times> log_entry) list) \<Rightarrow> 'l Env \<Rightarrow> TransactionContext \<Rightarrow>
    log_entry list \<Rightarrow> ObjectID \<Rightarrow> RawTuple \<Rightarrow> RecordID res \<times> 'l Env \<Rightarrow> bool" where
  "insert_op L linv hist env txn es oid row r \<longleftrightarrow>
     (case r of
        (Inl f, env') \<Rightarrow>
          hist (env_log env') = hist (env_log env) \<and> (returned f \<longrightarrow> grown (page_slots (env_pool env)) (page_slots (env_pool env'))) \<and>
          (f = Spins \<and> waiting_for (env_locks env') (ctx_id txn) \<noteq> None \<or> log_failure L linv f)
      | (Inr rid, env') \<Rightarrow>
          (\<exists>txn'. env_ok L linv env' txn' (es @ [InsertE (ctx_id txn) rid row]) \<and> ctx_id txn' = ctx_id txn \<and>
             covered txn' (NewTupleLockTag rid) LockModeX) \<and>
          Oid (ridPage rid) = oid \<and>
          (\<exists>S0. grown (page_slots (env_pool env)) S0 \<and> rid_ok S0 rid \<and> applies (InsertE (ctx_id txn) rid row) (slot_at S0 rid) \<and>
             page_slots (env_pool env') = do_entry (InsertE (ctx_id txn) rid row) S0) \<and>
          map snd (hist (env_log env')) = map snd (hist (env_log env)) @ [InsertE (ctx_id txn) rid row])"

lemma insert_op_cong:
  assumes "insert_op L linv hist env' txn' es oid row r" "hist (env_log env') = hist (env_log env)"
    "page_slots (env_pool env') = page_slots (env_pool env)" "ctx_id txn' = ctx_id txn"
  shows "insert_op L linv hist env txn es oid row r"
  using assms by (cases r; cases "fst r") (simp_all add: insert_op_def)

lemma new_row:
  assumes wf: "wf_heap_page hp" and i: "rid_slot rid = int i" "i < numSlots hp" "length row = rowSize hp"
  obtains h2 h3 where "MarkAllocated hp rid True = Inr h2" "CopyIntoTuple h2 rid row = Inr h3"
    "wf_heap_page (MonotonicallyUpdateLSN h3 lsn)" "same_pool_fields hp (MonotonicallyUpdateLSN h3 lsn)"
    "frame_LSN (MonotonicallyUpdateLSN h3 lsn) = max (frame_LSN hp) lsn"
    "hp_slots (MonotonicallyUpdateLSN h3 lsn) = (hp_slots hp)[i := slot_do (InsertE t rid row) (hp_slots hp ! i)]"
proof -
  obtain h2 where h2: "MarkAllocated hp rid True = Inr h2" "wf_heap_page h2" "same_header hp h2"
      "hp_slots h2 = (hp_slots hp)[i := (hp_slots hp ! i)\<lparr>s_alloc := True, s_del := (True \<and> s_del (hp_slots hp ! i))\<rparr>]"
    by (rule MarkAllocated_spec [OF wf i(1,2), of True])
  have i2: "i < numSlots h2" "length row = rowSize h2" using h2(3) i by (simp_all add: same_header_def)
  obtain h3 where h3: "CopyIntoTuple h2 rid row = Inr h3" "wf_heap_page h3" "same_header h2 h3"
      "hp_slots h3 = (hp_slots h2)[i := (hp_slots h2 ! i)\<lparr>s_row := row\<rparr>]"
    by (rule CopyIntoTuple_spec [OF h2(2) i(1) i2])
  note m = MonotonicallyUpdateLSN_spec [OF h3(2), of lsn]
  have "same_pool_fields hp (MonotonicallyUpdateLSN h3 lsn)"
    using same_pool_fields_trans op_pool_fields(2) [OF h2(1)] op_pool_fields(3) [OF h3(1)] op_pool_fields(7) by blast
  moreover have "i < length (hp_slots hp)" using i(2) by simp
  ultimately show thesis
    using that [OF h2(1) h3(1) m(1)] m(2,3) h2(3,4) h3(3,4) by (simp add: same_header_def)
qed

context log_service
begin

lemma open_for_insert:
  assumes ok: "store_ok L linv (env_log env) (env_pool env)" and v: "pool_view (env_pool env) pid = Some b"
    and ins: "insertable (rd_bytes d) b" and d: "wf_desc d" "0 < rd_bytes d" "rd_bytes d \<le> PageSize - 32"
    and w0: "waits L (env_log env) 0"
  obtains a l1 bp1 hp where "get_page L pid env = (Inr a, env\<lparr>env_log := l1, env_pool := bp1\<rparr>)"
    "\<And>(k :: 'l Env \<Rightarrow> 'b res \<times> 'l Env). bindS (if IsInitializedHeapPage (frames bp1 a) then (Inr (), env\<lparr>env_log := l1, env_pool := bp1\<rparr>)
        else on_frame a (InitializeHeapPage d) (env\<lparr>env_log := l1, env_pool := bp1\<rparr>))
       (\<lambda>_ env3. bindS (on_frame a AsHeapPage env3) (\<lambda>_ env4. k env4)) = k (env\<lparr>env_log := l1, env_pool := put_frame a hp bp1\<rparr>)"
    "wf_heap_page hp" "rowSize hp = rd_bytes d" "tidy (hp_slots hp)" "linv l1" "log_kept L history (env_log env) l1"
    "waits L l1 (frame_LSN hp)"
    "if IsInitializedHeapPage (frames bp1 a) then page_slots (env_pool env) pid = Some (hp_slots hp)
     else page_slots (env_pool env) pid = None \<and> (\<forall>s \<in> set (hp_slots hp). \<not> s_alloc s \<and> \<not> s_del s)"
    "IsInitializedHeapPage (frames bp1 a) = (le_get (slice PageOffsetPadding 2 b) = HeapPageMagic)"
    "closes L linv l1 bp1 a (frames bp1 a) (page_slots (env_pool env)) pid" "same_pool_fields (frames bp1 a) hp"
    "\<not> IsInitializedHeapPage (frames bp1 a) \<or> Bytes hp = Bytes (frames bp1 a)"
    "on_disk (storageManager bp1) = on_disk (storageManager (env_pool env))"
proof -
  let ?S = "page_slots (env_pool env)"
  obtain a l1 bp1 where r: "get_page L pid env = (Inr a, env\<lparr>env_log := l1, env_pool := bp1\<rparr>)"
    "Bytes (frames bp1 a) = b" "length b = PageSize" "cached (frames bp1 a) \<longrightarrow> wf_heap_page (frames bp1 a)" "linv l1"
    "log_kept L history (env_log env) l1" "waits L l1 (page_LSN b)"
    "on_disk (storageManager bp1) = on_disk (storageManager (env_pool env))"
    "closes L linv l1 bp1 a (frames bp1 a) (page_slots (env_pool env)) pid"
    by (rule raw_session [OF ok v])
  let ?pf = "frames bp1 a"
  have i: "IsInitializedHeapPage ?pf = (le_get (slice PageOffsetPadding 2 b) = HeapPageMagic)"
    by (simp add: IsInitializedHeapPage_def r(2))
  show thesis
  proof (cases "IsInitializedHeapPage ?pf")
    case True
    then have ok: "heap_bytes_ok b" "row_size b = rd_bytes d" "tidy (slots_of b)" using ins i by (simp_all add: insertable_def)
    obtain hp where hp: "AsHeapPage ?pf = Inr hp" "wf_heap_page hp" "Bytes hp = Bytes ?pf" "frame_LSN hp = frame_LSN ?pf"
        "same_pool_fields ?pf hp"
      by (rule AsHeapPage_ok [of ?pf]) (use ok(1) r(2,4) in auto)
    have s: "hp_slots hp = slots_of b" "rowSize hp = row_size b" using wf_page_bytes [OF hp(2)] hp(3) r(2) by simp_all
    then have "?S pid = Some (hp_slots hp)" using v ok(1) by (simp add: page_slots_def)
    then show thesis
      using that [OF r(1) _ hp(2) _ _ r(5,6) _ _ i r(9) hp(5)] True hp r(2,7,8) ok(2,3) s
      by (simp add: on_frame_def frame_LSN_page)
  next
    case False
    then have nc: "\<not> cached ?pf" using r(4) by (auto simp: wf_heap_page_def wf_bytes_def IsInitializedHeapPage_def)
    obtain hp where h: "bindR (InitializeHeapPage d ?pf) AsHeapPage = Inr hp" "wf_heap_page hp" "rowSize hp = rd_bytes d"
        "\<forall>s \<in> set (hp_slots hp). \<not> s_alloc s \<and> \<not> s_del s" "frame_LSN hp = 0"
      by (rule init_heap_page_lemma [OF d, of ?pf]) (use r(2,3) False nc in auto)
    then obtain pf' where pf: "InitializeHeapPage d ?pf = Inr pf'" "AsHeapPage pf' = Inr hp" by (auto simp: bindR_eq_Inr)
    have fields: "same_pool_fields ?pf hp" using same_pool_fields_trans op_pool_fields(5) [OF pf(1)] op_pool_fields(6) [OF pf(2)] by blast
    have "?S pid = None" using False i v by (simp add: page_slots_def heap_bytes_ok_def wf_bytes_def)
    moreover have "tidy (hp_slots hp)" using h(4) by (simp add: tidy_def)
    moreover have "waits L l1 0" using w0 r(6) by (simp add: log_kept_def)
    ultimately show thesis
      using that [OF r(1) _ h(2,3) _ r(5,6) _ _ i r(9) fields] False pf h(4,5) r(8) by (simp add: on_frame_def)
  qed
qed

lemma place_row_ok:
  assumes ok: "env_ok L linv env txn es" and pid: "pid = PageID oid pageNum"
    and hp: "wf_heap_page hp" "rowSize hp = length row" "tidy (hp_slots hp)" "length row \<le> PageSize"
    and l1: "linv l1" "log_kept L history (env_log env) l1" "waits L l1 (frame_LSN hp)"
    and g: "grown (page_slots (env_pool env)) ((page_slots (env_pool env))(pid \<mapsto> hp_slots hp))"
    and close: "closes L linv l1 bp1 a pf (page_slots (env_pool env)) pid" "same_pool_fields pf hp" "\<not> inited \<or> Bytes hp = Bytes pf"
  obtains (full) bp2 where "\<forall>s \<in> set (hp_slots hp). s_alloc s" "store_ok L linv l1 bp2" "storageManager bp2 = storageManager bp1"
      "page_slots bp2 = (page_slots (env_pool env))(pid \<mapsto> hp_slots hp)"
      "place_row L oid row continue pageNum count inited a (env\<lparr>env_log := l1, env_pool := put_frame a hp bp1\<rparr>) =
        continue (pageNum + 1) count (env\<lparr>env_log := l1, env_pool := bp2\<rparr>)"
    | (placed) "insert_op L linv history env txn es oid row
        (place_row L oid row continue pageNum count inited a (env\<lparr>env_log := l1, env_pool := put_frame a hp bp1\<rparr>))"
proof -
  let ?S = "page_slots (env_pool env)" and ?e4 = "env\<lparr>env_log := l1, env_pool := put_frame a hp bp1\<rparr>"
  obtain slot h1 where f: "FindFreeSlot hp = Inr (slot, h1)" "wf_heap_page h1" "same_header hp h1"
    "hp_slots h1 = hp_slots hp" "Bytes h1 = Bytes hp" "slot = - 1 \<Longrightarrow> \<forall>s \<in> set (hp_slots hp). s_alloc s"
    "slot \<noteq> - 1 \<Longrightarrow> 0 \<le> slot \<and> slot < int (numSlots hp) \<and> \<not> s_alloc (hp_slots hp ! nat slot)"
    by (rule FindFreeSlot_spec [OF hp(1)]) (rule that)
  have h1: "same_pool_fields pf h1" using same_pool_fields_trans [OF close(2) op_pool_fields(4) [OF f(1)]] .
  have w1: "waits L l1 (frame_LSN h1)" using l1(3) f(3) by (simp add: same_header_def)
  obtain bp2 where bp2: "UnpinPage a (\<not> inited) (put_frame a h1 bp1) = Inr bp2" "store_ok L linv l1 bp2"
      "page_slots bp2 = ?S(pid \<mapsto> hp_slots hp)"
    by (rule closesD [OF close(1) f(2) h1 _ l1(1) _ w1, of "\<not> inited"]) (use close(3) f(4,5) in auto)
  have d2: "storageManager bp2 = storageManager bp1" using UnpinPage_disk [OF bp2(1)] by simp
  show thesis
  proof (cases "slot = - 1")
    case True
    then show thesis
      using full [OF f(6) bp2(2) d2 bp2(3)] f(1) bp2(1) by (simp add: place_row_def frame_at_def unpin_def)
  next
    case False
    let ?rid = "RecordID pid (of_int slot)" and ?e = "\<lambda>rid. InsertE (ctx_id txn) rid row"
    have sl: "0 \<le> slot" "slot < int (numSlots hp)" "\<not> s_alloc (hp_slots hp ! nat slot)" using f(7) False by auto
    have small: "nat slot < 2 ^ 31" using sl(1,2) slots_bound [OF hp(1)] by simp
    have rs: "rid_slot ?rid = int (nat slot)" "slot_no ?rid = nat slot"
      using sint_small [OF small] sl(1) by (simp_all add: rid_slot_def slot_no_def)
    let ?S0 = "?S(pid \<mapsto> hp_slots hp)"
    have rid: "rid_ok ?S0 ?rid" "slot_at ?S0 ?rid = hp_slots hp ! nat slot"
      using rs sl by (auto simp: rid_ok_def slot_at_def)
    have row: "length (s_row (hp_slots hp ! nat slot)) = length row"
      using slots_row_length [OF wf_page_bytes(1) [OF hp(1)], of "nat slot"] wf_page_bytes [OF hp(1)] hp(2) sl by simp
    have app: "applies (?e ?rid) (slot_at ?S0 ?rid)"
      using hp(3) sl row unfolding rid(2) by (auto simp: tidy_def nat_less_iff)
    have rest: "place_row L oid row continue pageNum count inited a ?e4 =
        (case acquire (NewTupleLockTag ?rid) LockModeX (env\<lparr>env_log := l1, env_pool := put_frame a h1 bp1\<rparr>) of
           (Inl e, env6) \<Rightarrow> give_up a (\<not> inited) e env6
         | (Inr _, env6) \<Rightarrow>
             case log_change L (txn_NewInsertRecord ?rid row) env6 of
               (Inl e, env7) \<Rightarrow> give_up a (\<not> inited) e env7
             | (Inr lsn, env7) \<Rightarrow>
                 bindS (on_frame a (\<lambda>hp. MarkAllocated hp ?rid True) env7) (\<lambda>_ env8.
                 bindS (on_frame a (\<lambda>hp. CopyIntoTuple hp ?rid row) env8) (\<lambda>_ env9.
                 bindS (advance_LSN a lsn env9) (\<lambda>_ env10.
                 bindS (unpin a True env10) (\<lambda>_ env11. (Inr ?rid, env11))))))"
      unfolding pid using False f(1) by (simp add: place_row_def frame_at_def Let_def)
    have h: "history l1 = history (env_log env)" using l1(2) by (simp add: log_kept_def)
    show thesis
    proof (rule acquire_ok [OF ok, of "NewTupleLockTag ?rid" LockModeX])
      fix env'
      assume "acquire (NewTupleLockTag ?rid) LockModeX env = (Inl Spins, env')" "waiting_for (env_locks env') (ctx_id txn) \<noteq> None"
      then show thesis
        using placed unfolding rest by (simp add: acquire_frame give_up_def insert_op_def h returned_def)
    next
      fix txn' lm'
      let ?env = "env\<lparr>env_txn := Some txn', env_locks := lm'\<rparr>"
      assume q: "acquire (NewTupleLockTag ?rid) LockModeX env = (Inr (), ?env)" "env_ok L linv ?env txn' es"
        "ctx_id txn' = ctx_id txn" "covered txn' (NewTupleLockTag ?rid) LockModeX"
      have "ctx_log txn' es" using q(2) by (simp add: env_ok_def)
      from txn_records(4) [OF this, of ?rid row] obtain r s where r: "txn_NewInsertRecord ?rid row txn' = Inr (r, txn'\<lparr>logRecords := s\<rparr>)"
          "is_entry r (?e ?rid)" "ctx_log (txn'\<lparr>logRecords := s\<rparr>) (es @ [?e ?rid])"
        using q(3) by auto
      have l1': "log_kept L history (env_log ?env) l1" using l1(2) by simp
      have small: "length (entry_bytes (?e ?rid)) < 60000" using hp(4) by (simp add: PageSize_def)
      show thesis
      proof (rule log_change_ok [where mk = "txn_NewInsertRecord ?rid row" and bp = "put_frame a h1 bp1", OF q(2) l1(1) l1' r small])
        fix e
        assume e: "log_change L (txn_NewInsertRecord ?rid row) (?env\<lparr>env_log := l1, env_pool := put_frame a h1 bp1\<rparr>) =
          (Inl e, ?env\<lparr>env_txn := Some (txn'\<lparr>logRecords := s\<rparr>), env_log := l1, env_pool := put_frame a h1 bp1\<rparr>)" "log_failure L linv e"
        obtain env' where "give_up a (\<not> inited) e (?env\<lparr>env_txn := Some (txn'\<lparr>logRecords := s\<rparr>), env_log := l1, env_pool := put_frame a h1 bp1\<rparr>) =
            (Inl e :: RecordID res, env' :: 'l Env)" "env_log env' = l1" "returned e \<longrightarrow> env_pool env' = bp2"
          using give_up_session [OF bp2(1), of e "?env\<lparr>env_txn := Some (txn'\<lparr>logRecords := s\<rparr>), env_log := l1\<rparr>"] by auto
        then show thesis
          using placed q(1) e h g bp2(3) unfolding rest by (simp add: acquire_frame insert_op_def)
      next
        fix lsn l2
        assume l: "log_change L (txn_NewInsertRecord ?rid row) (?env\<lparr>env_log := l1, env_pool := put_frame a h1 bp1\<rparr>) =
            (Inr lsn, ?env\<lparr>env_txn := Some (txn'\<lparr>logRecords := s\<rparr>), env_log := l2, env_pool := put_frame a h1 bp1\<rparr>)" "linv l2"
          "\<And>k. waits L l1 k \<Longrightarrow> waits L l2 k" "waits L l2 lsn" "map snd (history l2) = map snd (history (env_log ?env)) @ [?e ?rid]"
        have i: "nat slot < numSlots h1" "length row = rowSize h1" using sl f(3) hp(2) by (simp_all add: same_header_def nat_less_iff)
        obtain h2 h3 where n: "MarkAllocated h1 ?rid True = Inr h2" "CopyIntoTuple h2 ?rid row = Inr h3"
            "wf_heap_page (MonotonicallyUpdateLSN h3 lsn)" "same_pool_fields h1 (MonotonicallyUpdateLSN h3 lsn)"
            "frame_LSN (MonotonicallyUpdateLSN h3 lsn) = max (frame_LSN h1) lsn"
            "hp_slots (MonotonicallyUpdateLSN h3 lsn) = (hp_slots h1)[nat slot := slot_do (?e ?rid) (hp_slots h1 ! nat slot)]"
          by (rule new_row [OF f(2) rs(1) i])
        have w: "waits L l2 (frame_LSN (MonotonicallyUpdateLSN h3 lsn))" using n(5) l(3,4) w1 by (simp add: max_def)
        obtain bp3 where bp3: "UnpinPage a True (put_frame a (MonotonicallyUpdateLSN h3 lsn) bp1) = Inr bp3" "store_ok L linv l2 bp3"
            "page_slots bp3 = ?S(pid \<mapsto> hp_slots (MonotonicallyUpdateLSN h3 lsn))"
          by (rule closesD [OF close(1) n(3) same_pool_fields_trans [OF h1 n(4)] _ l(2,3) w, of True]) auto
        have "page_slots bp3 = do_entry (?e ?rid) ?S0"
          using bp3(3) rs(2) n(6) f(4) by (simp add: do_entry_def upd_slot_def)
        then show thesis
          using placed q l(1,5) n(1,2) bp3 r(3) app rid(1) g pid unfolding rest
          by (auto simp: acquire_frame insert_op_def on_frame_def advance_LSN_def unpin_def env_ok_def ctx_locks_def covered_def)
      qed
    qed
  qed
qed

lemma on_opened_page:
  assumes ok: "env_ok L linv env txn es" and v: "pool_view (env_pool env) (PageID oid pageNum) = Some b"
    and th: "th_oid th = oid" "wf_desc (th_desc th)" "0 < length row" "rd_bytes (th_desc th) = length row" "length row \<le> PageSize - 32"
    and ins: "insertable (length row) b" and w0: "waits L (env_log env) 0" and e: "extend_file oid pageNum count0 env0 = (Inr count, env)"
  obtains (full) l1 bp2 ss where "page_slots (env_pool env) (PageID oid pageNum) = Some ss" "linv l1" "log_kept L history (env_log env) l1"
      "store_ok L linv l1 bp2" "page_slots bp2 = page_slots (env_pool env)"
      "on_disk (storageManager bp2) = on_disk (storageManager (env_pool env))"
      "\<And>x. opened (storageManager (env_pool env)) x \<Longrightarrow> opened (storageManager bp2) x"
      "insert_step L th row continue pageNum count0 env0 = continue (pageNum + 1) count (env\<lparr>env_log := l1, env_pool := bp2\<rparr>)"
    | (placed) "insert_op L linv history env txn es oid row (insert_step L th row continue pageNum count0 env0)"
proof -
  let ?S = "page_slots (env_pool env)" and ?pid = "PageID oid pageNum"
  have st: "store_ok L linv (env_log env) (env_pool env)" using ok by (simp add: env_ok_def)
  have d: "insertable (rd_bytes (th_desc th)) b" "0 < rd_bytes (th_desc th)" "rd_bytes (th_desc th) \<le> PageSize - 32"
    using ins th by simp_all
  obtain a l1 bp1 hp where h: "get_page L ?pid env = (Inr a, env\<lparr>env_log := l1, env_pool := bp1\<rparr>)"
    "\<And>(k :: 'l Env \<Rightarrow> RecordID res \<times> 'l Env). bindS (if IsInitializedHeapPage (frames bp1 a) then (Inr (), env\<lparr>env_log := l1, env_pool := bp1\<rparr>)
        else on_frame a (InitializeHeapPage (th_desc th)) (env\<lparr>env_log := l1, env_pool := bp1\<rparr>))
       (\<lambda>_ env3. bindS (on_frame a AsHeapPage env3) (\<lambda>_ env4. k env4)) = k (env\<lparr>env_log := l1, env_pool := put_frame a hp bp1\<rparr>)"
    "wf_heap_page hp" "rowSize hp = rd_bytes (th_desc th)" "tidy (hp_slots hp)" "linv l1" "log_kept L history (env_log env) l1"
    "waits L l1 (frame_LSN hp)"
    "if IsInitializedHeapPage (frames bp1 a) then ?S ?pid = Some (hp_slots hp)
     else ?S ?pid = None \<and> (\<forall>s \<in> set (hp_slots hp). \<not> s_alloc s \<and> \<not> s_del s)"
    "closes L linv l1 bp1 a (frames bp1 a) ?S ?pid" "same_pool_fields (frames bp1 a) hp"
    "\<not> IsInitializedHeapPage (frames bp1 a) \<or> Bytes hp = Bytes (frames bp1 a)"
    "on_disk (storageManager bp1) = on_disk (storageManager (env_pool env))"
    by (rule open_for_insert [OF st v d(1) th(2) d(2,3) w0]) (rule that)
  let ?i = "IsInitializedHeapPage (frames bp1 a)"
  have step: "insert_step L th row continue pageNum count0 env0 =
      place_row L oid row continue pageNum count ?i a (env\<lparr>env_log := l1, env_pool := put_frame a hp bp1\<rparr>)"
    using h(2) by (simp add: insert_step_place th(1) e h(1) frame_at_def)
  have g: "grown ?S (?S(?pid \<mapsto> hp_slots hp))" using h(9) by (auto simp: grown_def fun_upd_idem split: if_splits)
  have row: "rowSize hp = length row" "length row \<le> PageSize" using th h(4) by simp_all
  show thesis
  proof (rule place_row_ok [OF ok refl h(3) row(1) h(5) row(2) h(6-8) g h(10-12), of continue count])
    fix bp2
    assume b: "\<forall>s \<in> set (hp_slots hp). s_alloc s" "store_ok L linv l1 bp2" "storageManager bp2 = storageManager bp1"
      "page_slots bp2 = ?S(?pid \<mapsto> hp_slots hp)"
      "place_row L oid row continue pageNum count ?i a (env\<lparr>env_log := l1, env_pool := put_frame a hp bp1\<rparr>) =
        continue (pageNum + 1) count (env\<lparr>env_log := l1, env_pool := bp2\<rparr>)"
    have "hp_slots hp \<noteq> []" using h(3) by (metis length_greater_0_conv length_hp_slots wf_heap_page_def)
    then have "?i" using h(9) b(1) by (metis list.set_intros(1) neq_Nil_conv)
    then have "?S ?pid = Some (hp_slots hp)" using h(9) by simp
    then show thesis
      using full [of "hp_slots hp" l1 bp2] h(6,7,13) b get_page_opens [OF _ h(1)] step by (simp add: fun_upd_idem)
  qed (use placed step in simp)
qed

text \<open>The file ends at the page: it grows, and the fresh page takes the row.\<close>

lemma on_new_page:
  assumes ok: "env_ok L linv env txn es" and th: "th_oid th = oid" "oid \<noteq> InvalidObjectID" "wf_desc (th_desc th)" "0 < length row"
      "rd_bytes (th_desc th) = length row" "length row \<le> PageSize - 32"
    and w0: "waits L (env_log env) 0" and n: "opened (storageManager (env_pool env)) oid"
      "length (file_pages (storageManager (env_pool env)) oid) = n" "n + 1 < 2 ^ 31"
  shows "insert_op L linv history env txn es oid row (insert_step L th row continue (of_nat n) 0 env)"
proof -
  let ?S = "page_slots (env_pool env)" and ?pid = "PageID oid (of_nat n)"
  have st: "pool_ok (env_pool env)" "quiet (env_pool env)" "lsns_ok L (env_log env) (env_pool env)"
    using ok by (simp_all add: env_ok_def store_ok_def)
  obtain d' where d: "AllocatePage oid 1 (storageManager (env_pool env)) = (Inr (int n), d')" "pool_ok (set_disk d' (env_pool env))"
      "quiet (set_disk d' (env_pool env))" "pool_view (set_disk d' (env_pool env)) = (pool_view (env_pool env))(?pid \<mapsto> replicate PageSize 0)"
    by (rule alloc_view [OF st(1,2) n(1) th(2) n(2,3)]) (rule that)
  let ?env = "env\<lparr>env_pool := set_disk d' (env_pool env)\<rparr>"
  have z: "le_get (slice PageOffsetPadding 2 (replicate PageSize (0 :: byte))) \<noteq> HeapPageMagic"
      "page_LSN (replicate PageSize 0) = 0"
    by (simp_all add: offset_defs PageSize_def HeapPageMagic_def page_LSN_def)
  have "\<not> on_disk (storageManager (env_pool env)) ?pid" using n(2) sint_small [of n] n(3) by (simp add: on_disk_def)
  then have "pool_view (env_pool env) ?pid = None" by (simp add: pool_view_def)
  then have S: "page_slots (env_pool ?env) = ?S" "?S ?pid = None"
    using d(4) z(1) by (auto simp: page_slots_def fun_eq_iff heap_bytes_ok_def wf_bytes_def)
  have ok': "env_ok L linv ?env txn es"
    using ok d(2-4) st(3) w0 z(2) by (auto simp: env_ok_def store_ok_def lsns_ok_def)
  have "sint (of_nat n :: 32 word) = int n" by (rule sint_small) (use n(3) in simp)
  then have e: "extend_file oid (of_nat n) 0 env = (Inr 1, ?env)"
    using num_pages_ok [OF st(1) n(1)] n(2) d(1) by (simp add: extend_file_def Let_def)
  have v: "pool_view (env_pool ?env) ?pid = Some (replicate PageSize 0)" using d(4) by simp
  have ins: "insertable (length row) (replicate PageSize 0)" using z(1) by (simp add: insertable_def)
  have w: "waits L (env_log ?env) 0" using w0 by simp
  show ?thesis
  proof (rule on_opened_page [OF ok' v th(1,3-6) ins w e, of continue])
    fix ss
    assume "page_slots (env_pool ?env) ?pid = Some ss"
    then show ?thesis using S by simp
  next
    assume "insert_op L linv history ?env txn es oid row (insert_step L th row continue (of_nat n) 0 env)"
    from insert_op_cong [OF this _ S(1)] show ?thesis by simp
  qed
qed

lemma insert_loop_ok:
  assumes ok: "env_ok L linv env txn es" and th: "th_oid th = oid" "oid \<noteq> InvalidObjectID" "wf_desc (th_desc th)" "0 < length row"
      "rd_bytes (th_desc th) = length row" "length row \<le> PageSize - 32"
    and w0: "waits L (env_log env) 0" and n: "opened (storageManager (env_pool env)) oid"
      "length (file_pages (storageManager (env_pool env)) oid) = n" "n + 1 < 2 ^ 31"
    and ins: "\<And>b. 0 < n \<Longrightarrow> pool_view (env_pool env) (PageID oid (of_nat (n - 1))) = Some b \<Longrightarrow> insertable (length row) b"
  shows "insert_op L linv history env txn es oid row (insert_loop L th row (Suc (Suc fuel)) (of_nat (n - 1)) 0 env)"
proof (cases "n = 0")
  case True
  then show ?thesis using on_new_page [OF ok th w0 n(1), of 0] n(2) by simp
next
  case False
  let ?bp = "env_pool env" and ?pid = "PageID oid (of_nat (n - 1))"
  have st: "pool_ok ?bp" "disk_ok (storageManager ?bp)" using ok by (simp_all add: env_ok_def store_ok_def pool_ok_def)
  have sn: "sint (of_nat (n - 1) :: 32 word) = int (n - 1)" by (rule sint_small) (use n(3) in simp)
  then have "on_disk (storageManager ?bp) ?pid" using n(2) False th(2) by (simp add: on_disk_def)
  then obtain b where b: "pool_view ?bp ?pid = Some b" by (auto simp: pool_view_def)
  have e: "extend_file oid (of_nat (n - 1)) 0 env = (Inr 0, env)"
    using num_pages_ok [OF st(1) n(1)] n(2) sn False by (simp add: extend_file_def)
  have next_page: "of_nat (n - 1) + 1 = (of_nat n :: 32 word)" using False by (cases n) (simp_all add: add.commute)
  show ?thesis
  proof (rule on_opened_page [OF ok b th(1,3-6) ins [OF _ b] w0 e, of "insert_loop L th row (Suc fuel)"])
    fix l1 bp2
    let ?env = "env\<lparr>env_log := l1, env_pool := bp2\<rparr>"
    assume f: "linv l1" "log_kept L history (env_log env) l1" "store_ok L linv l1 bp2" "page_slots bp2 = page_slots ?bp"
      "on_disk (storageManager bp2) = on_disk (storageManager ?bp)"
      "\<And>x. opened (storageManager ?bp) x \<Longrightarrow> opened (storageManager bp2) x"
      "insert_step L th row (insert_loop L th row (Suc fuel)) (of_nat (n - 1)) 0 env = insert_loop L th row (Suc fuel) (of_nat (n - 1) + 1) 0 ?env"
    have "disk_ok (storageManager bp2)" using f(3) by (simp add: store_ok_def pool_ok_def)
    then have len: "length (file_pages (storageManager bp2) oid) = n"
      using on_disk_length [OF st(2) _ f(5) th(2)] n(2) by simp
    have "env_ok L linv ?env txn es" using ok f(3) by (simp add: env_ok_def)
    then have "insert_op L linv history ?env txn es oid row (insert_step L th row (insert_loop L th row fuel) (of_nat n) 0 ?env)"
      by (rule on_new_page) (use th w0 f(2,6) n(1,3) len in \<open>simp_all add: log_kept_def\<close>)
    from insert_op_cong [OF this, of env txn] show ?thesis using f(2,4,7) next_page by (simp add: log_kept_def)
  qed (use False in simp_all)
qed

lemma InsertTuple_ok:
  assumes ok: "env_ok L linv env txn es" and th: "th_oid th = oid" "oid \<noteq> InvalidObjectID" "wf_desc (th_desc th)" "0 < length row"
      "rd_bytes (th_desc th) = length row" "length row \<le> PageSize - 32"
    and w0: "waits L (env_log env) 0" and n: "length (file_pages (storageManager (env_pool env)) oid) = n" "n + 1 < 2 ^ 31"
    and ins: "\<And>b. 0 < n \<Longrightarrow> pool_view (env_pool env) (PageID oid (of_nat (n - 1))) = Some b \<Longrightarrow> insertable (length row) b"
    and fuel: "2 \<le> fuel"
  shows "insert_op L linv history env txn es oid row (InsertTuple L th fuel row env)"
proof -
  let ?bp = "env_pool env"
  have st: "pool_ok ?bp" "disk_ok (storageManager ?bp)" using ok by (simp_all add: env_ok_def store_ok_def pool_ok_def)
  obtain d' where d: "GetDBFile oid (storageManager ?bp) = (Inr (), d')" "disk_ok d'" "opened d' oid" "file_pages d' = file_pages (storageManager ?bp)"
    by (rule open_file [OF st(2)])
  note sf = same_files [OF st(1) d(2,4)]
  let ?env = "env\<lparr>env_pool := set_disk d' ?bp\<rparr>"
  have ok': "env_ok L linv ?env txn es" using ok sf by (simp add: env_ok_def store_ok_def lsns_ok_def)
  have S: "page_slots (env_pool ?env) = page_slots ?bp" using sf(3) by (simp add: page_slots_def fun_eq_iff)
  have np: "num_pages oid ?env = int n" using num_pages_ok [of ?env oid] sf d(3,4) n(1) by simp
  have pn: "(if int n = 0 then 0 else of_int (int n - 1)) = (of_nat (n - 1) :: 32 word)" by (cases n) simp_all
  obtain f where f: "fuel = Suc (Suc f)" using fuel by (metis add_2_eq_Suc le_Suc_ex)
  have I: "InsertTuple L th fuel row env =
      bindS (acquire (tableTag th) LockModeIX ?env) (\<lambda>_ env1. insert_loop L th row (Suc (Suc f)) (of_nat (n - 1)) 0 env1)"
    using d(1) np pn by (simp add: InsertTuple_def th(1) f Let_def del: insert_loop.simps)
  show ?thesis
  proof (rule acquire_ok [OF ok', of "tableTag th" LockModeIX])
    fix env'
    assume "acquire (tableTag th) LockModeIX ?env = (Inl Spins, env')" "env_pool env' = env_pool ?env" "env_log env' = env_log ?env"
      "waiting_for (env_locks env') (ctx_id txn) \<noteq> None"
    then show ?thesis using I S by (simp add: insert_op_def returned_def)
  next
    fix txn' lm'
    let ?env1 = "?env\<lparr>env_txn := Some txn', env_locks := lm'\<rparr>"
    assume q: "acquire (tableTag th) LockModeIX ?env = (Inr (), ?env1)" "env_ok L linv ?env1 txn' es" "ctx_id txn' = ctx_id txn"
    have "insert_op L linv history ?env1 txn' es oid row (insert_loop L th row (Suc (Suc f)) (of_nat (n - 1)) 0 ?env1)"
      by (rule insert_loop_ok [OF q(2) th]) (use w0 sf d(3,4) n ins in simp_all)
    from insert_op_cong [OF this, of env txn] show ?thesis using I q(1,3) S by simp
  qed
qed

end

section \<open>Properties of insertion\<close>

text \<open>
  C8: Inserting a row.  On a healthy database, for a table heap over a descriptor with at
  least one column, a transaction that is not waiting for a lock, a last page that is not
  initialised or a valid heap page of the table without marks on free slots, a file that can
  grow by a page, a row of the descriptor's length, and a log whose position 0, the sequence
  number of a new page, can be waited for, \<^verbatim>\<open>InsertTuple\<close> needs at most two passes of its loop.  Either it
  returns the id of a slot of the table where no row was visible; the rows of the database
  are then those before and the new one, the insertion is the last record of the log and of
  the undo buffer, and the transaction holds the slot exclusively.  Or it waits for a lock,
  or fails with a fault of the log; then nothing has been logged, and no row has changed
  when the failure is returned.
\<close>

theorem InsertTuple_inserts:
  assumes log: "log_service L linv hist" and ok: "env_ok L linv env txn es" and th: "NewTableHeap oid cols = Inr th" "cols \<noteq> []"
      "oid \<noteq> InvalidObjectID" "length row = BytesPerTuple (th_desc th)"
    and tbl: "waits L (env_log env) 0" "length (file_pages (storageManager (env_pool env)) oid) = n" "n + 1 < 2 ^ 31"
      "\<And>b. 0 < n \<Longrightarrow> pool_view (env_pool env) (PageID oid (of_nat (n - 1))) = Some b \<Longrightarrow> insertable (length row) b"
    and fuel: "2 \<le> fuel"
  shows "case InsertTuple L th fuel row env of
      (Inl f, env') \<Rightarrow>
        hist (env_log env') = hist (env_log env) \<and>
        (returned f \<longrightarrow> rows (page_slots (env_pool env')) = rows (page_slots (env_pool env))) \<and>
        (f = Spins \<and> waiting_for (env_locks env') (ctx_id txn) \<noteq> None \<or> log_failure L linv f)
    | (Inr rid, env') \<Rightarrow>
        (\<exists>txn'. env_ok L linv env' txn' (es @ [InsertE (ctx_id txn) rid row]) \<and> ctx_id txn' = ctx_id txn \<and>
           covered txn' (NewTupleLockTag rid) LockModeX) \<and>
        Oid (ridPage rid) = oid \<and> rows (page_slots (env_pool env)) rid = None \<and>
        rows (page_slots (env_pool env')) = (rows (page_slots (env_pool env)))(rid \<mapsto> row) \<and>
        map snd (hist (env_log env')) = map snd (hist (env_log env)) @ [InsertE (ctx_id txn) rid row]"
proof -
  obtain d where d: "NewRawTupleDesc cols = Inr d" "th_oid th = oid" "th_desc th = d"
    using th(1) by (auto simp: NewTableHeap_def bindR_eq_Inr)
  have w: "wf_desc d" "rd_fields d = cols" "rd_bytes d \<le> PageSize - 32" using NewRawTupleDesc_wf [OF d(1)] by auto
  moreover obtain c cs where "cols = c # cs" using th(2) by (cases cols) auto
  ultimately have pos: "0 < rd_bytes d" by (cases c) (auto simp: wf_desc_def type_size_def IntSize_def StringLength_def)
  have "insert_op L linv hist env txn es oid row (InsertTuple L th fuel row env)"
    by (rule log_service.InsertTuple_ok [OF log ok d(2) th(3) _ _ _ _ tbl fuel])
      (use d(3) w pos th(4) in \<open>auto simp: BytesPerTuple_def\<close>)
  moreover have "rows S rid = None \<and> rows (do_entry (InsertE t rid row) S0) = (rows S)(rid \<mapsto> row)"
    if "grown S S0" "rid_ok S0 rid" "applies (InsertE t rid row) (slot_at S0 rid)" for S S0 rid t
    using that grown_rows [OF that(1)] rows_do_entry [of "InsertE t rid row" rid S0] by (auto simp: vis_def) (metis rows_def vis_def)
  ultimately show ?thesis
    using grown_rows by (auto simp: insert_op_def split: prod.splits sum.splits)
qed

lemma InsertTuple_inserts_witness:
  "\<exists>m bp. rows (page_slots bp) = Map.empty \<and>
     (\<forall>rid env'. InsertTuple memory_log demo_heap 2 demo_row (demo_env m bp) = (Inr rid, env') \<longrightarrow>
        rows (page_slots (env_pool env')) = [rid \<mapsto> demo_row])"
proof -
  let ?d = "NewDiskStorageManager Map.empty"
  have d: "disk_ok ?d" "file_pages ?d = (\<lambda>_. [])"
    by (auto simp: disk_ok_def NewDiskStorageManager_def file_pages_def content_of_def)
  obtain bp where bp: "NewBufferPool 1 ?d = Inr bp" "pool_ok bp" "quiet bp" "storageManager bp = ?d"
    using NewBufferPool_ok [OF _ d(1), of 1] by auto
  have v: "pool_view bp = Map.empty" by (simp add: pool_view_def bp(4) on_disk_def d(2) fun_eq_iff)
  then have r: "page_slots bp = Map.empty" "rows (page_slots bp) = Map.empty"
    by (auto simp: page_slots_def rows_def rid_ok_def fun_eq_iff)
  obtain m where m: "memory_inv m" "waits memory_log m 0" by (rule demo_log)
  have "store_ok memory_log memory_inv m bp" using bp m v by (simp add: store_ok_def lsns_ok_def)
  note ok = demo_env_ok [OF this]
  have h: "NewTableHeap 1 [IntType] = Inr demo_heap" using sample_desc_new(1) by (simp add: NewTableHeap_def demo_heap_def)
  from InsertTuple_inserts [OF mem.log_service_axioms ok h, of demo_row 0 2] show ?thesis
    using m(2) bp(4) d(2) r
    by (intro exI [of _ m] exI [of _ bp])
      (auto simp: InvalidObjectID_def demo_env_def demo_row_def demo_heap_def BytesPerTuple_def sample_desc_def split: prod.splits sum.splits)
qed

end
