(* ===== verification/Heap_Scan.thy ===== *)
theory Heap_Scan
  imports Heap_Insert
begin

text \<open>
  Scanning a table heap: the sequential scan executor
  (\<^verbatim>\<open>execution/seq_scan_executor.go\<close>) over the table heap's iterator, with the proof that a
  scan returns exactly the visible rows of the table, in the order of pages and slots.
\<close>

section \<open>The sequential scan executor\<close>

record SeqScanExecutor =
  ss_heap :: TableHeap
  ss_mode :: DBLockMode
  ss_it :: TableHeapIterator

definition SeqScan_Init :: "'l LogManager \<Rightarrow> TableHeap \<Rightarrow> DBLockMode \<Rightarrow> 'l Env \<Rightarrow> SeqScanExecutor res \<times> 'l Env" where
  "SeqScan_Init L th mode env =
     bindS (TableHeap_Iterator L th mode env) (\<lambda>it env1. (Inr \<lparr>ss_heap = th, ss_mode = mode, ss_it = it\<rparr>, env1))"

definition SeqScan_Next :: "'l LogManager \<Rightarrow> SeqScanExecutor \<Rightarrow> 'l Env \<Rightarrow> (bool \<times> SeqScanExecutor) res \<times> 'l Env" where
  "SeqScan_Next L e env = bindS (it_Next L (ss_it e) env) (\<lambda>(more, it) env1. (Inr (more, e\<lparr>ss_it := it\<rparr>), env1))"

definition SeqScan_Current :: "SeqScanExecutor \<Rightarrow> Tuple" where
  "SeqScan_Current e = FromRawTuple (CurrentTuple (ss_it e)) (th_desc (ss_heap e)) (CurrentRID (ss_it e))"

definition SeqScan_Error :: "SeqScanExecutor \<Rightarrow> fault option" where
  "SeqScan_Error e = it_error (ss_it e)"

definition SeqScan_Close :: "SeqScanExecutor \<Rightarrow> 'l Env \<Rightarrow> SeqScanExecutor res \<times> 'l Env" where
  "SeqScan_Close e env = bindS (it_Close (ss_it e) env) (\<lambda>it env1. (Inr (e\<lparr>ss_it := it\<rparr>), env1))"

text \<open>The loop of the executors' callers: \<^verbatim>\<open>for exec.Next() { ... exec.Current() ... }\<close>.\<close>

primrec SeqScan_drain :: "'l LogManager \<Rightarrow> nat \<Rightarrow> SeqScanExecutor \<Rightarrow> 'l Env \<Rightarrow> (Tuple list \<times> SeqScanExecutor) res \<times> 'l Env" where
  "SeqScan_drain L 0 = (\<lambda>e env. (Inl Spins, env))"
| "SeqScan_drain L (Suc n) = (\<lambda>e env.
     bindS (SeqScan_Next L e env) (\<lambda>(more, e1) env1.
       if \<not> more then (Inr ([], e1), env1)
       else bindS (SeqScan_drain L n e1 env1) (\<lambda>(ts, e2) env2. (Inr (SeqScan_Current e1 # ts, e2), env2))))"

section \<open>The rows of a table in order\<close>

definition page_no :: "ObjectID \<Rightarrow> nat \<Rightarrow> PageID" where
  "page_no oid k = PageID oid (of_nat k)"

definition live_of :: "PageID \<Rightarrow> nat \<Rightarrow> slot list \<Rightarrow> (RecordID \<times> RawTuple) list" where
  "live_of pid from ss =
     map (\<lambda>i. (RecordID pid (of_nat i), s_row (ss ! i))) (filter (\<lambda>i. s_alloc (ss ! i) \<and> \<not> s_del (ss ! i)) [from..<length ss])"

definition table_rows :: "slots \<Rightarrow> ObjectID \<Rightarrow> nat \<Rightarrow> nat \<Rightarrow> (RecordID \<times> RawTuple) list" where
  "table_rows S oid k n = concat (map (\<lambda>k. live_of (page_no oid k) 0 (the (S (page_no oid k)))) [k..<n])"

lemma table_rows_step:
  "k < n \<Longrightarrow> table_rows S oid k n = live_of (page_no oid k) 0 (the (S (page_no oid k))) @ table_rows S oid (Suc k) n"
  "table_rows S oid n n = []"
  by (simp_all add: table_rows_def upt_conv_Cons)

lemma of_nat_slot:
  assumes "wf_heap_page hp" "i < numSlots hp"
  shows "rid_slot (RecordID pid (of_nat i)) = int i"
  using sint_small [of i] slots_bound [OF assms(1)] assms(2) by (simp add: rid_slot_def)

lemma find_live_spec:
  assumes wf: "wf_heap_page hp" and "\<forall>i \<in> set is. i < numSlots hp"
  shows "find_live hp pid is =
    Inr (case filter (\<lambda>i. s_alloc (hp_slots hp ! i) \<and> \<not> s_del (hp_slots hp ! i)) is of [] \<Rightarrow> None | i # _ \<Rightarrow> Some i)"
  using assms(2)
proof (induction "is")
  case (Cons i "is")
  then have "i < numSlots hp" by simp
  note IsAllocated_spec [OF wf of_nat_slot [OF wf this] this, of pid] IsDeleted_spec [OF wf of_nat_slot [OF wf this] this, of pid]
  then show ?case using Cons by simp
qed simp

text \<open>The first live slot at or after \<open>from\<close> splits the rest of the page's rows.\<close>

lemma live_of_split:
  "case filter (\<lambda>i. s_alloc (ss ! i) \<and> \<not> s_del (ss ! i)) [j..<length ss] of
     [] \<Rightarrow> live_of pid j ss = []
   | i # _ \<Rightarrow> j \<le> i \<and> i < length ss \<and> live_of pid j ss = (RecordID pid (of_nat i), s_row (ss ! i)) # live_of pid (Suc i) ss"
proof -
  let ?P = "\<lambda>i. s_alloc (ss ! i) \<and> \<not> s_del (ss ! i)"
  have *: "j \<le> i \<and> i < length ss \<and> r = filter ?P [Suc i..<length ss]" if "filter ?P [j..<length ss] = i # r" for i r
    using that
  proof (induction "length ss - j" arbitrary: j)
    case (Suc d)
    then have "j < length ss" by linarith
    then have u: "[j..<length ss] = j # [Suc j..<length ss]" by (rule upt_conv_Cons)
    show ?case
    proof (cases "?P j")
      case False
      then have "filter ?P [Suc j..<length ss] = i # r" using Suc.prems u by (auto split: if_splits)
      moreover have "d = length ss - Suc j" using Suc.hyps(2) by simp
      ultimately show ?thesis using Suc.hyps(1) by fastforce
    qed (use Suc.prems u \<open>j < length ss\<close> in auto)
  qed simp
  show ?thesis
  proof (cases "filter ?P [j..<length ss]")
    case (Cons i r)
    show ?thesis using * [OF Cons] unfolding Cons by (simp add: live_of_def Cons)
  qed (simp add: live_of_def)
qed

section \<open>The iterator\<close>

text \<open>
  An open iterator stands on a pinned page of the table; the rows it has still to return
  are those after its slot and those of the later pages.  When it has left the last page,
  nothing is pinned.
\<close>

definition it_on :: "'l LogManager \<Rightarrow> ('l \<Rightarrow> bool) \<Rightarrow> slots \<Rightarrow> ObjectID \<Rightarrow> 'l \<Rightarrow> BufferPool \<Rightarrow> nat \<Rightarrow> nat \<Rightarrow> bool" where
  "it_on L linv S oid l bp k a \<longleftrightarrow> linv l \<and> wf_heap_page (frames bp a) \<and> waits L l (frame_LSN (frames bp a)) \<and>
     S (page_no oid k) = Some (hp_slots (frames bp a)) \<and> closes L linv l bp a (frames bp a) S (page_no oid k)"

definition it_inv :: "'l LogManager \<Rightarrow> ('l \<Rightarrow> bool) \<Rightarrow> slots \<Rightarrow> ObjectID \<Rightarrow> nat \<Rightarrow> TableHeapIterator \<Rightarrow> 'l \<Rightarrow> BufferPool \<Rightarrow>
    (RecordID \<times> RawTuple) list \<Rightarrow> bool" where
  "it_inv L linv S oid n it l bp rest \<longleftrightarrow> it_error it = None \<and> Oid (ridPage (it_rid it)) = oid \<and>
     (case it_page it of
        None \<Rightarrow> rest = [] \<and> store_ok L linv l bp \<and> page_slots bp = S
      | Some a \<Rightarrow> it_open it \<and> it_numPages it = int n \<and>
          (\<exists>k from. k < n \<and> rid_slot (it_rid it) + 1 = int from \<and> ridPage (it_rid it) = page_no oid k \<and>
             it_on L linv S oid l bp k a \<and>
             rest = live_of (page_no oid k) from (hp_slots (frames bp a)) @ table_rows S oid (Suc k) n))"

lemma page_no_next:
  assumes "Suc k < 2 ^ 31"
  shows "page_no oid k = PageID oid (of_nat k)" "PageID (Oid (page_no oid k)) (PageNum (page_no oid k) + 1) = page_no oid (Suc k)"
    "sint (PageNum (page_no oid k) + 1) = int (Suc k)" "Oid (page_no oid k) = oid"
  using sint_small [OF assms] by (simp_all add: page_no_def add.commute)

context log_service
begin

lemma open_page_ok:
  assumes "store_ok L linv (env_log env) (env_pool env)" "page_slots (env_pool env) = S" "S (page_no oid k) \<noteq> None"
  obtains a l1 bp1 where "open_page L (page_no oid k) env = (Inr a, env\<lparr>env_log := l1, env_pool := bp1\<rparr>)"
    "it_on L linv S oid l1 bp1 k a" "log_kept L history (env_log env) l1"
proof -
  obtain ss where ss: "page_slots (env_pool env) (page_no oid k) = Some ss" using assms by auto
  then obtain b where b: "pool_view (env_pool env) (page_no oid k) = Some b" "heap_bytes_ok b"
    by (auto simp: page_slots_def split: option.splits if_splits)
  obtain a l1 bp1 hp where p: "get_page L (page_no oid k) env = (Inr a, env\<lparr>env_log := l1, env_pool := bp1\<rparr>)"
    "AsHeapPage (frames bp1 a) = Inr hp" "wf_heap_page hp" "hp_slots hp = ss" "linv l1" "log_kept L history (env_log env) l1"
    "waits L l1 (frame_LSN hp)" "closes L linv l1 bp1 a hp S (page_no oid k)"
    by (rule page_session [OF assms(1) ss]) (use assms(2) that in auto)
  have "Bytes hp = Bytes (frames bp1 a)" using p(2) by (auto simp: AsHeapPage_def Let_def bindR_eq_Inr split: if_splits)
  then have "IsInitializedHeapPage (frames bp1 a)"
    using p(3) by (simp add: IsInitializedHeapPage_def wf_heap_page_def wf_bytes_def)
  moreover have "closes L linv l1 (put_frame a hp bp1) a hp S (page_no oid k)" using p(8) by (simp add: closes_def)
  ultimately show thesis
    using that [of a "put_frame a hp bp1" l1] p ss assms(2) by (simp add: open_page_def frame_at_def on_frame_def it_on_def)
qed

lemma leave_page:
  assumes "it_on L linv S oid l bp k a"
  obtains bp' where "UnpinPage a dirty bp = Inr bp'" "store_ok L linv l bp'" "page_slots bp' = S"
proof -
  have i: "wf_heap_page (frames bp a)" "S (page_no oid k) = Some (hp_slots (frames bp a))" "linv l" "waits L l (frame_LSN (frames bp a))"
      "closes L linv l bp a (frames bp a) S (page_no oid k)"
    using assms by (simp_all add: it_on_def)
  have "put_frame a (frames bp a) bp = bp" by (simp add: put_frame_def upd_frame_def)
  moreover obtain bp' where "UnpinPage a dirty (put_frame a (frames bp a) bp) = Inr bp'" "store_ok L linv l bp'"
      "page_slots bp' = S(page_no oid k \<mapsto> hp_slots (frames bp a))"
    by (rule closesD [OF i(5,1) _ _ i(3) _ i(4), of dirty]) (simp_all add: same_pool_fields_def)
  ultimately show thesis using that i(2) by (simp add: fun_upd_idem)
qed

text \<open>What a call of \<^verbatim>\<open>Next\<close> gives when \<open>rest\<close> is still to come.\<close>

definition advances :: "slots \<Rightarrow> ObjectID \<Rightarrow> nat \<Rightarrow> (RecordID \<times> RawTuple) list \<Rightarrow> 'l Env \<Rightarrow> (bool \<times> TableHeapIterator) res \<times> 'l Env \<Rightarrow> bool" where
  "advances S oid n rest env r \<longleftrightarrow> (\<exists>it l bp. r = (Inr (rest \<noteq> [], it), env\<lparr>env_log := l, env_pool := bp\<rparr>) \<and>
     it_inv L linv S oid n it l bp (tl rest) \<and> log_kept L history (env_log env) l \<and>
     (rest \<noteq> [] \<longrightarrow> CurrentRID it = fst (hd rest) \<and> CurrentTuple it = snd (hd rest)))"

lemma log_kept_trans: "log_kept L history l l1 \<Longrightarrow> log_kept L history l1 l2 \<Longrightarrow> log_kept L history l l2"
  by (auto simp: log_kept_def)

lemma next_step_ok:
  assumes on: "it_on L linv S oid (env_log env) (env_pool env) k a" and k: "k < n" "n < 2 ^ 31"
    and it: "it_error it = None" "it_open it" "it_numPages it = int n" "ridPage (it_rid it) = page_no oid k"
    and S: "\<forall>j < n. S (page_no oid j) \<noteq> None"
    and more: "\<And>l bp a' it'. Suc k < n \<Longrightarrow> it_on L linv S oid l bp (Suc k) a' \<Longrightarrow> ridPage (it_rid it') = page_no oid (Suc k) \<Longrightarrow>
      it_error it' = None \<Longrightarrow> it_open it' \<Longrightarrow> it_numPages it' = int n \<Longrightarrow> it_mode it' = it_mode it \<Longrightarrow>
      advances S oid n (table_rows S oid (Suc k) n) (env\<lparr>env_log := l, env_pool := bp\<rparr>) (continue a' None it' (env\<lparr>env_log := l, env_pool := bp\<rparr>))"
  shows "advances S oid n (live_of (page_no oid k) j (hp_slots (frames (env_pool env) a)) @ table_rows S oid (Suc k) n) env
    (next_step L continue a (Some j) it env)"
proof -
  let ?hp = "frames (env_pool env) a" and ?pid = "page_no oid k"
  let ?live = "filter (\<lambda>i. s_alloc (hp_slots ?hp ! i) \<and> \<not> s_del (hp_slots ?hp ! i)) [j..<length (hp_slots ?hp)]"
  have wf: "wf_heap_page ?hp" using on by (simp add: it_on_def)
  have f: "find_live ?hp ?pid (slots_from (Some j) (numSlots ?hp)) = Inr (case ?live of [] \<Rightarrow> None | i # _ \<Rightarrow> Some i)"
    using find_live_spec [OF wf, of "[j..<numSlots ?hp]" ?pid] by (simp add: slots_from_def)
  note sp = live_of_split [where ss = "hp_slots ?hp" and pid = ?pid and j = j] and pn = page_no_next [of k oid]
  have refl: "log_kept L history l l" for l by (simp add: log_kept_def)
  show ?thesis
  proof (cases ?live)
    case (Cons i r)
    then have i: "i < numSlots ?hp" "live_of ?pid j (hp_slots ?hp) = (RecordID ?pid (of_nat i), s_row (hp_slots ?hp ! i)) # live_of ?pid (Suc i) (hp_slots ?hp)"
      using sp by simp_all
    let ?it = "it\<lparr>it_rid := RecordID ?pid (of_nat i), it_tuple := s_row (hp_slots ?hp ! i), it_page := Some a\<rparr>"
    have s: "rid_slot (RecordID ?pid (of_nat i)) = int i" by (rule of_nat_slot [OF wf i(1)])
    have "next_step L continue a (Some j) it env = (Inr (True, ?it), env)"
      using f Cons AccessTuple_spec [OF wf s i(1)] it(4) by (simp add: next_step_def frame_at_def Let_def)
    moreover have "it_inv L linv S oid n ?it (env_log env) (env_pool env)
        (live_of ?pid (Suc i) (hp_slots ?hp) @ table_rows S oid (Suc k) n)"
    proof -
      have "\<exists>k' j'. k' < n \<and> rid_slot (it_rid ?it) + 1 = int j' \<and> ridPage (it_rid ?it) = page_no oid k' \<and>
          it_on L linv S oid (env_log env) (env_pool env) k' a \<and>
          live_of ?pid (Suc i) (hp_slots ?hp) @ table_rows S oid (Suc k) n =
          live_of (page_no oid k') j' (hp_slots ?hp) @ table_rows S oid (Suc k') n"
        by (rule exI [of _ k], rule exI [of _ "Suc i"]) (use on k(1) s in simp)
      then show ?thesis using it by (simp add: it_inv_def page_no_def)
    qed
    ultimately show ?thesis
      using i(2) refl by (auto simp: advances_def CurrentRID_def CurrentTuple_def intro!: exI [of _ "env_log env"] exI [of _ "env_pool env"])
  next
    case Nil
    then have none: "live_of ?pid j (hp_slots ?hp) = []" using sp by simp
    obtain bp' where u: "UnpinPage a (it_mode it \<noteq> LockModeS) (env_pool env) = Inr bp'" "store_ok L linv (env_log env) bp'" "page_slots bp' = S"
      by (rule leave_page [OF on])
    let ?env1 = "env\<lparr>env_pool := bp'\<rparr>"
    show ?thesis
    proof (cases "Suc k < n")
      case False
      then have "k + 1 = n" using k(1) by simp
      then have "sint (PageNum ?pid + 1) \<ge> it_numPages it" "table_rows S oid (Suc k) n = []"
        using it(3) page_no_next(3) [of k oid] k(2) sint_small [of n] table_rows_step(2) [of S oid n]
        by (auto simp: page_no_def add.commute)
      then show ?thesis
        using f Nil u none it refl
        by (auto simp: next_step_def frame_at_def Let_def unpin_def advances_def it_inv_def page_no_def
            intro!: exI [of _ "env_log env"] exI [of _ bp'])
    next
      case True
      then have n: "Suc k < 2 ^ 31" using k(2) by simp
      have st: "store_ok L linv (env_log ?env1) (env_pool ?env1)" "page_slots (env_pool ?env1) = S" "S (page_no oid (Suc k)) \<noteq> None"
        using u True S by simp_all
      obtain a' l1 bp1 where o': "open_page L (page_no oid (Suc k)) ?env1 = (Inr a', ?env1\<lparr>env_log := l1, env_pool := bp1\<rparr>)"
          "it_on L linv S oid l1 bp1 (Suc k) a'" "log_kept L history (env_log ?env1) l1"
        by (rule open_page_ok [OF st])
      let ?it = "it\<lparr>it_page := None, it_rid := RecordID (page_no oid (Suc k)) 0\<rparr>" and ?env2 = "env\<lparr>env_log := l1, env_pool := bp1\<rparr>"
      have "\<not> sint (PageNum ?pid + 1) \<ge> it_numPages it" using pn(3) [OF n] it(3) True by simp
      then have "next_step L continue a (Some j) it env = continue a' None ?it ?env2"
        using f Nil u(1) it(4) o'(1) pn(2) [OF n] by (simp add: next_step_def frame_at_def Let_def unpin_def)
      moreover have "advances S oid n (table_rows S oid (Suc k) n) ?env2 (continue a' None ?it ?env2)"
        by (rule more [OF True o'(2)]) (use it in simp_all)
      moreover have "advances S oid n rest env r" if "advances S oid n rest ?env2 r" for rest r
        using that log_kept_trans [of "env_log env" l1] o'(3) by (auto simp: advances_def)
      ultimately show ?thesis using none by simp
    qed
  qed
qed

lemma next_loop_fresh:
  assumes "0 < numSlots (frame_at a env)"
  shows "next_loop L bound a None it env = next_loop L bound a (Some 0) it env"
proof -
  have "next_step L continue a None it env = next_step L continue a (Some 0) it env" for continue
    unfolding next_step_def Let_def fresh_page_slots [OF assms] by (rule refl)
  then show ?thesis by (cases bound) simp_all
qed

lemma next_loop_ok:
  assumes "it_on L linv S oid (env_log env) (env_pool env) k a" "k < n" "n < 2 ^ 31"
    "it_error it = None" "it_open it" "it_numPages it = int n" "ridPage (it_rid it) = page_no oid k"
    "\<forall>j < n. S (page_no oid j) \<noteq> None" "n \<le> k + Suc bound"
  shows "advances S oid n (live_of (page_no oid k) j (hp_slots (frames (env_pool env) a)) @ table_rows S oid (Suc k) n) env
    (next_loop L bound a (Some j) it env)"
  using assms
proof (induction bound arbitrary: k a j it env)
  case 0
  show ?case unfolding next_loop.simps by (rule next_step_ok [OF 0(1-8)]) (use 0(9) in simp)
next
  case (Suc bound)
  show ?case
    unfolding next_loop.simps
  proof (rule next_step_ok [OF Suc.prems(1-8)])
    fix l bp a' and it' :: TableHeapIterator
    let ?env = "env\<lparr>env_log := l, env_pool := bp\<rparr>"
    assume a: "Suc k < n" "it_on L linv S oid l bp (Suc k) a'" "ridPage (it_rid it') = page_no oid (Suc k)"
      "it_error it' = None" "it_open it'" "it_numPages it' = int n"
    have "advances S oid n (live_of (page_no oid (Suc k)) 0 (hp_slots (frames (env_pool ?env) a')) @ table_rows S oid (Suc (Suc k)) n) ?env
        (next_loop L bound a' (Some 0) it' ?env)"
      by (rule Suc.IH) (use a Suc.prems in simp_all)
    moreover have "S (page_no oid (Suc k)) = Some (hp_slots (frames bp a'))" using a(2) by (simp add: it_on_def)
    moreover have "0 < numSlots (frame_at a' ?env)" using a(2) by (simp add: it_on_def wf_heap_page_def frame_at_def)
    ultimately show "advances S oid n (table_rows S oid (Suc k) n) ?env (next_loop L bound a' None it' ?env)"
      using table_rows_step(1) [OF a(1), of S oid] next_loop_fresh by simp
  qed
qed

lemma it_Next_ok:
  assumes inv: "it_inv L linv S oid n it (env_log env) (env_pool env) rest" and n: "n < 2 ^ 31" "oid \<noteq> InvalidObjectID"
    and S: "\<forall>j < n. S (page_no oid j) \<noteq> None"
  shows "advances S oid n rest env (it_Next L it env)"
proof (cases "it_page it")
  case None
  then have "it_Next L it env = (Inr (False, it), env)" by (simp add: it_Next_def)
  then show ?thesis using inv None by (auto simp: advances_def it_inv_def log_kept_def intro!: exI [of _ "env_log env"] exI [of _ "env_pool env"])
next
  case (Some a)
  then obtain k j where k: "it_error it = None" "Oid (ridPage (it_rid it)) = oid" "it_open it" "it_numPages it = int n" "k < n"
      "rid_slot (it_rid it) + 1 = int j" "ridPage (it_rid it) = page_no oid k" "it_on L linv S oid (env_log env) (env_pool env) k a"
      "rest = live_of (page_no oid k) j (hp_slots (frames (env_pool env) a)) @ table_rows S oid (Suc k) n"
    using inv by (auto simp: it_inv_def)
  have "it_Next L it env = next_loop L n a (Some j) it env" using Some k n(2) by (simp add: it_Next_def it_IsNil_def)
  then show ?thesis using next_loop_ok [OF k(8,5) n(1) k(1,3,4,7) S, of n j] k(9) by simp
qed

lemma drain_ok:
  assumes "it_inv L linv S oid n (ss_it e) (env_log env) (env_pool env) rest" "n < 2 ^ 31" "oid \<noteq> InvalidObjectID"
    "\<forall>j < n. S (page_no oid j) \<noteq> None" "length rest < fuel"
  shows "\<exists>it l bp. SeqScan_drain L fuel e env =
      (Inr (map (\<lambda>(rid, row). FromRawTuple row (th_desc (ss_heap e)) rid) rest, e\<lparr>ss_it := it\<rparr>), env\<lparr>env_log := l, env_pool := bp\<rparr>) \<and>
    it_inv L linv S oid n it l bp [] \<and> log_kept L history (env_log env) l"
  using assms
proof (induction fuel arbitrary: e env rest)
  case (Suc fuel)
  obtain it l bp where a: "it_Next L (ss_it e) env = (Inr (rest \<noteq> [], it), env\<lparr>env_log := l, env_pool := bp\<rparr>)"
     "it_inv L linv S oid n it l bp (tl rest)" "log_kept L history (env_log env) l"
     "rest \<noteq> [] \<longrightarrow> CurrentRID it = fst (hd rest) \<and> CurrentTuple it = snd (hd rest)"
    using it_Next_ok [OF Suc.prems(1-4)] by (auto simp: advances_def)
  show ?case
  proof (cases rest)
    case Nil
    then show ?thesis using a by (auto simp: SeqScan_Next_def)
  next
    case (Cons r rs)
    let ?e = "e\<lparr>ss_it := it\<rparr>" and ?env = "env\<lparr>env_log := l, env_pool := bp\<rparr>"
    have "it_inv L linv S oid n (ss_it ?e) (env_log ?env) (env_pool ?env) rs" "length rs < fuel" using a(2) Cons Suc.prems(5) by simp_all
    from Suc.IH [OF this(1) Suc.prems(2-4) this(2)] obtain it2 l2 bp2 where
        d: "SeqScan_drain L fuel ?e ?env = (Inr (map (\<lambda>(rid, row). FromRawTuple row (th_desc (ss_heap ?e)) rid) rs, ?e\<lparr>ss_it := it2\<rparr>),
          ?env\<lparr>env_log := l2, env_pool := bp2\<rparr>)" "it_inv L linv S oid n it2 l2 bp2 []" "log_kept L history (env_log ?env) l2"
      by blast
    have "SeqScan_Current ?e = (\<lambda>(rid, row). FromRawTuple row (th_desc (ss_heap e)) rid) r"
      using a(4) Cons by (simp add: SeqScan_Current_def case_prod_unfold)
    then have "SeqScan_drain L (Suc fuel) e env =
        (Inr (map (\<lambda>(rid, row). FromRawTuple row (th_desc (ss_heap e)) rid) rest, e\<lparr>ss_it := it2\<rparr>), env\<lparr>env_log := l2, env_pool := bp2\<rparr>)"
      using a(1) d(1) Cons by (simp add: SeqScan_Next_def)
    then show ?thesis using d(2,3) log_kept_trans [OF a(3)] by auto
  qed
qed simp

lemma SeqScan_Init_ok:
  assumes ok: "env_ok L linv env txn es" and th: "th_oid th = oid" "oid \<noteq> InvalidObjectID" "mode \<in> {LockModeS, LockModeSIX, LockModeX}"
    and n: "length (file_pages (storageManager (env_pool env)) oid) = n" and S: "page_slots (env_pool env) = S"
      "\<forall>j < n. S (page_no oid j) \<noteq> None"
  obtains (waiting) env' where "SeqScan_Init L th mode env = (Inl Spins, env')" "waiting_for (env_locks env') (ctx_id txn) \<noteq> None"
    | (ready) e env' txn' where "SeqScan_Init L th mode env = (Inr e, env')" "ss_heap e = th"
      "it_inv L linv S oid n (ss_it e) (env_log env') (env_pool env') (table_rows S oid 0 n)" "log_kept L history (env_log env) (env_log env')"
      "env_txn env' = Some txn'" "ctx_log txn' es" "lm_inv (env_locks env')" "waiting_for (env_locks env') (ctx_id txn') = None"
      "ctx_locks (env_locks env') txn'" "n = 0 \<or> covered txn' (tableTag th) mode"
proof -
  let ?bp = "env_pool env"
  have st: "pool_ok ?bp" "disk_ok (storageManager ?bp)" using ok by (simp_all add: env_ok_def store_ok_def pool_ok_def)
  obtain d' where d: "GetDBFile oid (storageManager ?bp) = (Inr (), d')" "disk_ok d'" "opened d' oid" "file_pages d' = file_pages (storageManager ?bp)"
    by (rule open_file [OF st(2)])
  note sf = same_files [OF st(1) d(2,4)]
  let ?env = "env\<lparr>env_pool := set_disk d' ?bp\<rparr>"
  have ok': "env_ok L linv ?env txn es" using ok sf by (simp add: env_ok_def store_ok_def lsns_ok_def)
  have S': "page_slots (env_pool ?env) = S" using sf(3) S(1) by (auto simp: page_slots_def fun_eq_iff)
  have np: "num_pages oid ?env = int n" using num_pages_ok [of ?env oid] sf d(3,4) n(1) by simp
  let ?it = "\<lparr>it_rid = RecordID (page_no oid 0) (- 1), it_page = None, it_tuple = [], it_numPages = - 1, it_open = False,
      it_mode = mode, it_error = None\<rparr>"
  have I: "TableHeap_Iterator L th mode env = (if n = 0 then (Inr ?it, ?env)
      else bindS (acquire (tableTag th) mode ?env) (\<lambda>_ env1. bindS (open_page L (page_no oid 0) env1) (\<lambda>a env2.
        (Inr (?it\<lparr>it_numPages := int n, it_page := Some a, it_open := True\<rparr>), env2))))"
    using th(3) d(1) np by (auto simp: TableHeap_Iterator_def th(1) page_no_def Let_def)
  have E: "env_txn ?env = Some txn" "ctx_log txn es" "lm_inv (env_locks ?env)" "waiting_for (env_locks ?env) (ctx_id txn) = None"
      "ctx_locks (env_locks ?env) txn" "store_ok L linv (env_log ?env) (env_pool ?env)"
    using ok' by (simp_all add: env_ok_def)
  show thesis
  proof (cases "n = 0")
    case True
    have "it_inv L linv S oid 0 ?it (env_log ?env) (env_pool ?env) (table_rows S oid 0 0)"
      using E(6) S' by (simp add: it_inv_def table_rows_def page_no_def)
    then show thesis using ready [of "\<lparr>ss_heap = th, ss_mode = mode, ss_it = ?it\<rparr>" ?env txn] I True E by (simp add: SeqScan_Init_def log_kept_def)
  next
    case False
    show thesis
    proof (rule acquire_ok [OF ok', of "tableTag th" mode])
      fix env'
      assume "acquire (tableTag th) mode ?env = (Inl Spins, env')" "waiting_for (env_locks env') (ctx_id txn) \<noteq> None"
      then show thesis using waiting I False by (simp add: SeqScan_Init_def)
    next
      fix txn' lm'
      let ?env1 = "?env\<lparr>env_txn := Some txn', env_locks := lm'\<rparr>"
      assume q: "acquire (tableTag th) mode ?env = (Inr (), ?env1)" "env_ok L linv ?env1 txn' es" "covered txn' (tableTag th) mode"
      have o1: "store_ok L linv (env_log ?env1) (env_pool ?env1)" "page_slots (env_pool ?env1) = S" "S (page_no oid 0) \<noteq> None"
        using E(6) S' S(2) False by simp_all
      obtain a l1 bp1 where o': "open_page L (page_no oid 0) ?env1 = (Inr a, ?env1\<lparr>env_log := l1, env_pool := bp1\<rparr>)"
          "it_on L linv S oid l1 bp1 0 a" "log_kept L history (env_log ?env1) l1"
        by (rule open_page_ok [OF o1])
      let ?it1 = "?it\<lparr>it_numPages := int n, it_page := Some a, it_open := True\<rparr>"
      have "S (page_no oid 0) = Some (hp_slots (frames bp1 a))" using o'(2) by (simp add: it_on_def)
      then have "table_rows S oid 0 n = live_of (page_no oid 0) 0 (hp_slots (frames bp1 a)) @ table_rows S oid (Suc 0) n"
        using table_rows_step(1) [of 0 n S oid] False by simp
      moreover have "rid_slot (it_rid ?it1) + 1 = int 0" by (simp add: rid_slot_def)
      ultimately have "it_inv L linv S oid n ?it1 l1 bp1 (table_rows S oid 0 n)"
        using o'(2) False unfolding it_inv_def by (auto simp: page_no_def)
      then show thesis
        using ready [of "\<lparr>ss_heap = th, ss_mode = mode, ss_it = ?it1\<rparr>" "?env1\<lparr>env_log := l1, env_pool := bp1\<rparr>" txn'] I False q o'
        by (simp add: SeqScan_Init_def env_ok_def)
    qed
  qed
qed

lemma SeqScan_Close_ok:
  assumes "it_inv L linv S oid n (ss_it e) (env_log env) (env_pool env) rest" "oid \<noteq> InvalidObjectID"
  obtains it bp where "SeqScan_Close e env = (Inr (e\<lparr>ss_it := it\<rparr>), env\<lparr>env_pool := bp\<rparr>)" "store_ok L linv (env_log env) bp" "page_slots bp = S"
proof (cases "it_page (ss_it e)")
  case None
  then show thesis
    using that [of "if it_open (ss_it e) then (ss_it e)\<lparr>it_open := False\<rparr> else ss_it e" "env_pool env"] assms
    by (simp add: it_inv_def SeqScan_Close_def it_Close_def it_IsNil_def)
next
  case (Some a)
  then obtain k where k: "it_on L linv S oid (env_log env) (env_pool env) k a" "it_open (ss_it e)" "Oid (ridPage (it_rid (ss_it e))) = oid"
    using assms(1) by (auto simp: it_inv_def)
  obtain bp' where "UnpinPage a (it_mode (ss_it e) \<noteq> LockModeS) (env_pool env) = Inr bp'" "store_ok L linv (env_log env) bp'" "page_slots bp' = S"
    by (rule leave_page [OF k(1)])
  then show thesis
    using that [of "(ss_it e)\<lparr>it_open := False, it_page := None\<rparr>" bp'] assms(2) Some k(2,3)
    by (simp add: SeqScan_Close_def it_Close_def it_IsNil_def unpin_def)
qed

end

section \<open>The list of rows against the rows of the database\<close>

lemma page_no_inj: "j < 2 ^ 31 \<Longrightarrow> k < 2 ^ 31 \<Longrightarrow> page_no oid j = page_no oid k \<longleftrightarrow> j = k"
  using sint_small by (metis PageID.inject of_nat_eq_iff page_no_def)

lemma slot_rid:
  assumes "i < 2 ^ 31"
  shows "rid_slot (RecordID pid (of_nat i)) = int i" "slot_no (RecordID pid (of_nat i)) = i"
  using sint_small [OF assms] by (simp_all add: rid_slot_def slot_no_def)

lemma live_of_set:
  assumes "length ss < 2 ^ 31"
  shows "(rid, row) \<in> set (live_of pid 0 ss) \<longleftrightarrow> ridPage rid = pid \<and> 0 \<le> rid_slot rid \<and> slot_no rid < length ss \<and> vis (ss ! slot_no rid) = Some row"
proof -
  have "(\<exists>i. rid = RecordID pid (of_nat i) \<and> i < length ss \<and> P i) \<longleftrightarrow> ridPage rid = pid \<and> 0 \<le> rid_slot rid \<and> slot_no rid < length ss \<and> P (slot_no rid)" for P
    using slot_rid [of _ pid] assms rid_inj [of rid "RecordID pid (of_nat (slot_no rid))"] by auto
  from this [of "\<lambda>i. vis (ss ! i) = Some row"] show ?thesis
    by (auto simp: live_of_def vis_def image_iff split: if_splits)
qed

lemma live_of_distinct:
  assumes "length ss < 2 ^ 31"
  shows "distinct (map fst (live_of pid 0 ss))"
proof -
  have "inj_on (\<lambda>i. RecordID pid (of_nat i)) {i. i < length ss}"
    by (rule inj_onI) (use slot_rid(2) [of _ pid] assms in \<open>metis dual_order.strict_trans mem_Collect_eq\<close>)
  then show ?thesis by (simp add: live_of_def comp_def distinct_map) (auto intro: inj_on_subset)
qed

lemma table_rows_set:
  assumes "\<forall>j < n. \<exists>ss. S (page_no oid j) = Some ss \<and> length ss < 2 ^ 31" "n \<le> 2 ^ 31"
    "\<And>pid ss. Oid pid = oid \<Longrightarrow> S pid = Some ss \<Longrightarrow> \<exists>j < n. pid = page_no oid j"
  shows "set (table_rows S oid 0 n) = {(rid, row). Oid (ridPage rid) = oid \<and> rows S rid = Some row}"
    "distinct (map fst (table_rows S oid 0 n))"
proof -
  have live: "(rid, row) \<in> set (live_of (page_no oid j) 0 (the (S (page_no oid j)))) \<longleftrightarrow> ridPage rid = page_no oid j \<and> rows S rid = Some row"
    if "j < n" for j rid row
    using assms(1) that live_of_set [of "the (S (page_no oid j))" rid row "page_no oid j"]
    by (auto simp: rows_def rid_ok_def slot_at_def split: if_splits)
  have dom: "\<exists>j < n. ridPage rid = page_no oid j" if "Oid (ridPage rid) = oid" "rows S rid = Some row" for rid row
    using that assms(3) by (auto simp: rows_def rid_ok_def split: if_splits)
  have "(rid, row) \<in> set (table_rows S oid 0 n) \<longleftrightarrow> Oid (ridPage rid) = oid \<and> rows S rid = Some row" for rid row
  proof -
    have "(rid, row) \<in> set (table_rows S oid 0 n) \<longleftrightarrow> (\<exists>j < n. ridPage rid = page_no oid j \<and> rows S rid = Some row)"
      using live by (auto simp: table_rows_def)
    moreover have "Oid (page_no oid j) = oid" for j by (simp add: page_no_def)
    ultimately show ?thesis using dom [of rid row] by metis
  qed
  then show "set (table_rows S oid 0 n) = {(rid, row). Oid (ridPage rid) = oid \<and> rows S rid = Some row}" by auto
  have "distinct (map fst (table_rows S oid k n))" if "k \<le> n" for k
    using that
  proof (induction rule: inc_induct)
    case (step k)
    let ?A = "live_of (page_no oid k) 0 (the (S (page_no oid k)))" and ?B = "table_rows S oid (Suc k) n"
    have "fst x \<noteq> fst y" if x: "x \<in> set ?A" and y: "y \<in> set ?B" for x y
    proof -
      have "ridPage (fst x) = page_no oid k" using x by (auto simp: live_of_def)
      moreover obtain j where "k < j" "j < n" "ridPage (fst y) = page_no oid j"
        using y by (auto simp: table_rows_def live_of_def Suc_le_eq)
      ultimately show ?thesis using assms(2) page_no_inj [of j k oid] by auto
    qed
    then have "set (map fst ?A) \<inter> set (map fst ?B) = {}" by fastforce
    moreover have "distinct (map fst ?A)" using live_of_distinct assms(1) step.hyps(2) by force
    ultimately show ?case using step.IH table_rows_step(1) [OF step.hyps(2), of S oid] by simp
  qed (simp add: table_rows_def)
  then show "distinct (map fst (table_rows S oid 0 n))" by simp
qed

lemma live_of_single:
  assumes "ss \<noteq> []" "\<forall>s \<in> set ss. \<not> s_alloc s" "s_alloc s" "\<not> s_del s"
  shows "live_of pid 0 (ss[0 := s]) = [(RecordID pid 0, s_row s)]"
proof -
  have "[0..<length ss] = 0 # [Suc 0..<length ss]" by (rule upt_conv_Cons) (use assms(1) in simp)
  moreover have "filter (\<lambda>i. s_alloc (ss[0 := s] ! i) \<and> \<not> s_del (ss[0 := s] ! i)) [Suc 0..<length ss] = []"
    using assms(2) by (auto simp: filter_empty_conv)
  ultimately show ?thesis using assms by (simp add: live_of_def)
qed

text \<open>The table of the demonstration database.\<close>

lemma demo_table:
  obtains m bp where "store_ok memory_log memory_inv m bp" "length (file_pages (storageManager bp) 1) = 1"
    "page_slots bp (page_no 1 0) \<noteq> None" "table_rows (page_slots bp) 1 0 1 = [(demo_rid, demo_row)]"
proof -
  obtain ss b where b: "length b = PageSize" "heap_bytes_ok b" "page_LSN b = 0" "length ss = 494" "\<forall>s \<in> set ss. \<not> s_alloc s"
      "slots_of b = ss[0 := \<lparr>s_alloc = True, s_del = False, s_row = demo_row\<rparr>]"
    by (rule demo_page) (rule that)
  obtain bp where bp: "pool_ok bp" "quiet bp" "pool_view bp = [PageID 1 0 \<mapsto> b]" "storageManager bp = NewDiskStorageManager [1 \<mapsto> b]"
    by (rule one_page_pool [OF b(1)])
  obtain m where m: "memory_inv m" "waits memory_log m 0" by (rule demo_log)
  have "length (file_pages (storageManager bp) 1) = 1"
    using b(1) by (simp add: bp(4) file_pages_def content_of_def NewDiskStorageManager_def PageSize_def)
  moreover have S: "page_slots bp (page_no 1 0) = Some (slots_of b)" using bp(3) b(2) by (simp add: page_slots_def page_no_def)
  moreover have "ss \<noteq> []" using b(4) by auto
  then have "table_rows (page_slots bp) 1 0 1 = [(demo_rid, demo_row)]"
    using S live_of_single [OF _ b(5), of "\<lparr>s_alloc = True, s_del = False, s_row = demo_row\<rparr>"] b(6)
    by (simp add: table_rows_def demo_rid_def page_no_def)
  ultimately show thesis using that [of m bp] bp m b(3) by (simp add: store_ok_def lsns_ok_def)
qed

section \<open>Properties of scans\<close>

text \<open>
  C9: A sequential scan returns the table.  On a healthy database whose pages of the table
  are valid heap pages, opening a scan either waits for the table lock or succeeds, with the
  lock in the requested mode unless the table has no page (then no lock is taken, which the
  documentation of \<^verbatim>\<open>Iterator\<close> does not say); reading it to the end, with more calls than
  there are rows, ends without an error and yields every visible row of the table exactly once,
  with its record id, in the order of pages and slots; closing it leaves no page pinned, every
  slot and the log's records as they were.
\<close>

theorem seq_scan_returns_rows:
  assumes log: "log_service L linv hist" and ok: "env_ok L linv env txn es" and th: "th_oid th = oid" "oid \<noteq> InvalidObjectID"
      "mode \<in> {LockModeS, LockModeSIX, LockModeX}"
    and n: "length (file_pages (storageManager (env_pool env)) oid) = n"
      "\<forall>j < n. page_slots (env_pool env) (page_no oid j) \<noteq> None"
    and fuel: "length (table_rows (page_slots (env_pool env)) oid 0 n) < fuel"
  shows "(case SeqScan_Init L th mode env of
      (Inl f, env') \<Rightarrow> f = Spins \<and> waiting_for (env_locks env') (ctx_id txn) \<noteq> None
    | (Inr e, env1) \<Rightarrow>
        (\<exists>e2 env2 e3 env3 txn'. SeqScan_drain L fuel e env1 =
             (Inr (map (\<lambda>(rid, row). FromRawTuple row (th_desc th) rid) (table_rows (page_slots (env_pool env)) oid 0 n), e2), env2) \<and>
           SeqScan_Error e2 = None \<and> SeqScan_Close e2 env2 = (Inr e3, env3) \<and> env_ok L linv env3 txn' es \<and>
           page_slots (env_pool env3) = page_slots (env_pool env) \<and> hist (env_log env3) = hist (env_log env) \<and>
           (n = 0 \<or> covered txn' (tableTag th) mode))) \<and>
    set (table_rows (page_slots (env_pool env)) oid 0 n) =
      {(rid, row). Oid (ridPage rid) = oid \<and> rows (page_slots (env_pool env)) rid = Some row} \<and>
    distinct (map fst (table_rows (page_slots (env_pool env)) oid 0 n))"
proof -
  let ?S = "page_slots (env_pool env)"
  have "disk_ok (storageManager (env_pool env))" using ok by (simp add: env_ok_def store_ok_def pool_ok_def)
  then have n31: "n < 2 ^ 31" using disk_ok_content n(1) by metis
  have len: "length ss < 2 ^ 31" if "?S pid = Some ss" for pid ss
  proof -
    obtain b where "ss = slots_of b" using \<open>?S pid = Some ss\<close> by (auto simp: page_slots_def split: option.splits if_splits)
    moreover have "num_slots b < 2 ^ 16"
      using unsigned_less [where ?'a = nat and w = "le_get (slice PageOffsetNumSlots 2 b) :: 16 word"] by (simp add: num_slots_def)
    ultimately show ?thesis by simp
  qed
  have dom: "\<exists>j < n. pid = page_no oid j" if "Oid pid = oid" "?S pid = Some ss" for pid ss
  proof -
    have "on_disk (storageManager (env_pool env)) pid" using that(2) by (auto simp: page_slots_def pool_view_def split: option.splits if_splits)
    then have "0 \<le> sint (PageNum pid)" "nat (sint (PageNum pid)) < n" using that(1) n(1) by (auto simp: on_disk_def nat_less_iff)
    moreover have "page_no oid (nat (sint (PageNum pid))) = pid"
      by (rule page_eqI) (use that(1) calculation sint_small [of "nat (sint (PageNum pid))"] n31 in \<open>simp_all add: page_no_def\<close>)
    ultimately show ?thesis by metis
  qed
  have "\<forall>j < n. \<exists>ss. ?S (page_no oid j) = Some ss \<and> length ss < 2 ^ 31" using n(2) len by blast
  note t = table_rows_set [OF this less_imp_le [OF n31] dom]
  show ?thesis
  proof (rule log_service.SeqScan_Init_ok [OF log ok th n(1) refl n(2)])
    fix env'
    assume "SeqScan_Init L th mode env = (Inl Spins, env')" "waiting_for (env_locks env') (ctx_id txn) \<noteq> None"
    then show ?thesis using t by simp
  next
    fix e env1 txn'
    assume e: "SeqScan_Init L th mode env = (Inr e, env1)" "ss_heap e = th"
      "it_inv L linv ?S oid n (ss_it e) (env_log env1) (env_pool env1) (table_rows ?S oid 0 n)" "log_kept L hist (env_log env) (env_log env1)"
      "env_txn env1 = Some txn'" "ctx_log txn' es" "lm_inv (env_locks env1)" "waiting_for (env_locks env1) (ctx_id txn') = None"
      "ctx_locks (env_locks env1) txn'" "n = 0 \<or> covered txn' (tableTag th) mode"
    obtain it l bp where d: "SeqScan_drain L fuel e env1 =
        (Inr (map (\<lambda>(rid, row). FromRawTuple row (th_desc th) rid) (table_rows ?S oid 0 n), e\<lparr>ss_it := it\<rparr>), env1\<lparr>env_log := l, env_pool := bp\<rparr>)"
        "it_inv L linv ?S oid n it l bp []" "log_kept L hist (env_log env1) l"
      using log_service.drain_ok [OF log e(3) n31 th(2) n(2) fuel] e(2) by blast
    let ?env2 = "env1\<lparr>env_log := l, env_pool := bp\<rparr>"
    obtain it' bp' where c: "SeqScan_Close (e\<lparr>ss_it := it\<rparr>) ?env2 = (Inr (e\<lparr>ss_it := it\<rparr>\<lparr>ss_it := it'\<rparr>), ?env2\<lparr>env_pool := bp'\<rparr>)"
        "store_ok L linv (env_log ?env2) bp'" "page_slots bp' = ?S"
      by (rule log_service.SeqScan_Close_ok [OF log, of ?S oid n "e\<lparr>ss_it := it\<rparr>" ?env2 "[]"]) (use d(2) th(2) in auto)
    have "env_ok L linv (?env2\<lparr>env_pool := bp'\<rparr>) txn' es" using e(5-9) c(2) by (simp add: env_ok_def)
    moreover have "SeqScan_Error (e\<lparr>ss_it := it\<rparr>) = None" using d(2) by (simp add: SeqScan_Error_def it_inv_def)
    moreover have "hist l = hist (env_log env)" using d(3) e(4) by (simp add: log_kept_def)
    ultimately show ?thesis using e(1,10) d(1) c t by simp blast
  qed
qed

lemma seq_scan_returns_rows_witness:
  "\<exists>m bp. set (table_rows (page_slots bp) 1 0 1) = {(demo_rid, demo_row)} \<and>
     (case SeqScan_Init memory_log demo_heap LockModeS (demo_env m bp) of
        (Inl f, env') \<Rightarrow> f = Spins
      | (Inr e, env1) \<Rightarrow> \<exists>e2 env2. SeqScan_drain memory_log 2 e env1 = (Inr ([FromRawTuple demo_row sample_desc demo_rid], e2), env2))"
proof -
  obtain m bp where m: "store_ok memory_log memory_inv m bp" "length (file_pages (storageManager bp) 1) = 1"
      "page_slots bp (page_no 1 0) \<noteq> None" "table_rows (page_slots bp) 1 0 1 = [(demo_rid, demo_row)]"
    by (rule demo_table)
  from seq_scan_returns_rows [OF mem.log_service_axioms demo_env_ok [OF m(1)], of demo_heap 1 LockModeS 1 2] show ?thesis
    using m(2-4)
    by (intro exI [of _ m] exI [of _ bp]) (auto simp: demo_env_def demo_heap_def InvalidObjectID_def split: prod.splits sum.splits)
qed

end
