(* ===== verification/Catalog.thy ===== *)
theory Catalog
  imports Common_Types "HOL-Library.Multiset"
begin

text \<open>
  The catalog (\<^verbatim>\<open>catalog/catalog.go\<close>): table and index definitions, the lookup maps over
  them, and their persistence as one JSON text.  Tables are shared by pointer between the
  list and the maps; a pointer is the table's position in the list.  The JSON codec of the
  standard library is the pair of parameters \<open>marshal\<close> and \<open>unmarshal\<close>; the interface
  \<^verbatim>\<open>PersistenceProvider\<close> is a record of its methods.
\<close>

section \<open>Data\<close>

record Column =
  col_Name :: string
  col_Type :: gtype

record IndexDef =
  ix_Oid :: ObjectID
  ix_TableOid :: ObjectID
  ix_Name :: string
  ix_Type :: string
  ix_KeySchema :: "string list"

record Table =
  tb_Oid :: ObjectID
  tb_Name :: string
  tb_Columns :: "Column list"
  tb_Indexes :: "IndexDef list"

record catalogState =
  NextId :: "32 word"
  Tables :: "Table list"

record ('p, 'j) PersistenceProvider =
  LoadCatalogState :: "'p \<Rightarrow> 'j res"
  SaveCatalogState :: "'j \<Rightarrow> 'p \<Rightarrow> unit res \<times> 'p"

record 'p Catalog =
  cat_state :: catalogState
  tableMap :: "string \<rightharpoonup> nat"
  columnMap :: "string \<Rightarrow> nat list"
  persistenceProvider :: 'p

definition ErrNotExist :: fault where
  "ErrNotExist = OtherError ''file does not exist''"

section \<open>Lookup maps\<close>

definition register_columns :: "nat \<Rightarrow> Column list \<Rightarrow> (string \<Rightarrow> nat list) \<Rightarrow> (string \<Rightarrow> nat list)" where
  "register_columns i cols cm = fold (\<lambda>f m. m(col_Name f := m (col_Name f) @ [i])) cols cm"

definition register :: "nat \<times> Table \<Rightarrow> (string \<rightharpoonup> nat) \<times> (string \<Rightarrow> nat list) \<Rightarrow> (string \<rightharpoonup> nat) \<times> (string \<Rightarrow> nat list)" where
  "register it maps =
     ((fst maps)(tb_Name (snd it) \<mapsto> fst it), register_columns (fst it) (tb_Columns (snd it)) (snd maps))"

definition fromJSON :: "('j \<Rightarrow> catalogState res) \<Rightarrow> 'j \<Rightarrow> 'p Catalog \<Rightarrow> 'p Catalog res" where
  "fromJSON unmarshal jsonData c =
     bindR (unmarshal jsonData) (\<lambda>s.
       let (tm, cm) = fold register (enumerate 0 (Tables s)) (tableMap c, columnMap c)
       in Inr (c\<lparr>cat_state := s, tableMap := tm, columnMap := cm\<rparr>))"

section \<open>Operations\<close>

definition NewCatalog :: "('j \<Rightarrow> catalogState res) \<Rightarrow> ('p, 'j) PersistenceProvider \<Rightarrow> 'p \<Rightarrow> 'p Catalog res" where
  "NewCatalog unmarshal P p =
     (let result = \<lparr>cat_state = \<lparr>NextId = 0, Tables = []\<rparr>, tableMap = Map.empty, columnMap = (\<lambda>_. []), persistenceProvider = p\<rparr>
      in case LoadCatalogState P p of
           Inl e \<Rightarrow> if e = ErrNotExist then Inr result else Inl e
         | Inr jsonData \<Rightarrow>
             (case fromJSON unmarshal jsonData result of
                Inl (Panic m) \<Rightarrow> Inl (Panic m)
              | Inl _ \<Rightarrow> Inl (OtherError ''failed to parse catalog state'')
              | Inr c \<Rightarrow> Inr c))"

text \<open>Saving the state; an error of the provider is returned after the change.\<close>

definition save :: "(catalogState \<Rightarrow> 'j res) \<Rightarrow> ('p, 'j) PersistenceProvider \<Rightarrow> 'r \<Rightarrow> 'p Catalog \<Rightarrow> 'r res \<times> 'p Catalog" where
  "save marshal P r c =
     stepS (marshal (cat_state c)) c (\<lambda>jsonData.
       let (res, p) = SaveCatalogState P jsonData (persistenceProvider c)
       in (bindR res (\<lambda>_. Inr r), c\<lparr>persistenceProvider := p\<rparr>))"

definition AddTable :: "(catalogState \<Rightarrow> 'j res) \<Rightarrow> ('p, 'j) PersistenceProvider \<Rightarrow> string \<Rightarrow> Column list \<Rightarrow> 'p Catalog \<Rightarrow>
    Table res \<times> 'p Catalog" where
  "AddTable marshal P tableName columns c =
     (if tableMap c tableName \<noteq> None then (Inl (GoDBError DuplicateObjectError), c)
      else let s = cat_state c;
               t = \<lparr>tb_Oid = NextId s + 1, tb_Name = tableName, tb_Columns = columns, tb_Indexes = []\<rparr>;
               (tm, cm) = register (length (Tables s), t) (tableMap c, columnMap c)
           in save marshal P t
                (c\<lparr>cat_state := \<lparr>NextId = NextId s + 1, Tables = Tables s @ [t]\<rparr>, tableMap := tm, columnMap := cm\<rparr>))"

definition GetTableMetadata :: "string \<Rightarrow> 'p Catalog \<Rightarrow> nat res" where
  "GetTableMetadata tableName c =
     (case tableMap c tableName of None \<Rightarrow> Inl (GoDBError NoSuchObjectError) | Some i \<Rightarrow> Inr i)"

definition GetTableByOid :: "ObjectID \<Rightarrow> 'p Catalog \<Rightarrow> Table res" where
  "GetTableByOid tableOid c =
     (case find (\<lambda>t. tb_Oid t = tableOid) (Tables (cat_state c)) of
        None \<Rightarrow> Inl (GoDBError NoSuchObjectError) | Some t \<Rightarrow> Inr t)"

definition GetIndexByOid :: "ObjectID \<Rightarrow> 'p Catalog \<Rightarrow> IndexDef res" where
  "GetIndexByOid indexOid c =
     (case find (\<lambda>i. ix_Oid i = indexOid) (concat (map tb_Indexes (Tables (cat_state c)))) of
        None \<Rightarrow> Inl (GoDBError NoSuchObjectError) | Some i \<Rightarrow> Inr i)"

definition FindTablesWithColumnName :: "string \<Rightarrow> 'p Catalog \<Rightarrow> nat list" where
  "FindTablesWithColumnName columnName c = columnMap c columnName"

definition AddIndex :: "(catalogState \<Rightarrow> 'j res) \<Rightarrow> ('p, 'j) PersistenceProvider \<Rightarrow> string \<Rightarrow> string \<Rightarrow> string \<Rightarrow> string list \<Rightarrow>
    'p Catalog \<Rightarrow> IndexDef res \<times> 'p Catalog" where
  "AddIndex marshal P indexName tableName indexType columnNames c =
     stepS (GetTableMetadata tableName c) c (\<lambda>i.
       let s = cat_state c; table = Tables s ! i
       in if list_ex (\<lambda>idx. ix_Name idx = indexName) (tb_Indexes table) then (Inl (GoDBError DuplicateObjectError), c)
          else if \<not> list_all (\<lambda>n. n \<in> set (map col_Name (tb_Columns table))) columnNames then (Inl (GoDBError NoSuchObjectError), c)
          else let idx = \<lparr>ix_Oid = NextId s + 1, ix_TableOid = tb_Oid table, ix_Name = indexName, ix_Type = indexType,
                          ix_KeySchema = columnNames\<rparr>;
                   table' = table\<lparr>tb_Indexes := tb_Indexes table @ [idx]\<rparr>
               in save marshal P idx (c\<lparr>cat_state := \<lparr>NextId = NextId s + 1, Tables = (Tables s)[i := table']\<rparr>\<rparr>))"

section \<open>Providers\<close>

definition NullPersistenceProvider :: "(unit, 'j) PersistenceProvider" where
  "NullPersistenceProvider = \<lparr>LoadCatalogState = (\<lambda>_. Inl ErrNotExist), SaveCatalogState = (\<lambda>_ p. (Inr (), p))\<rparr>"

text \<open>
  The provider on disk, over a file system of files and directories.  A file can be
  written only into a directory, and a file cannot be renamed over a directory.
\<close>

datatype 'j fs_node = File 'j | Directory

type_synonym 'j fs = "string \<rightharpoonup> 'j fs_node"

definition Join :: "string \<Rightarrow> string \<Rightarrow> string" where
  "Join dir name = dir @ ''/'' @ name"

definition os_ReadFile :: "string \<Rightarrow> 'j fs \<Rightarrow> 'j res" where
  "os_ReadFile path fs =
     (case fs path of
        Some (File c) \<Rightarrow> Inr c
      | Some Directory \<Rightarrow> Inl (OtherError ''is a directory'')
      | None \<Rightarrow> Inl ErrNotExist)"

definition os_WriteFile :: "string \<Rightarrow> string \<Rightarrow> 'j \<Rightarrow> 'j fs \<Rightarrow> unit res \<times> 'j fs" where
  "os_WriteFile dir name c fs =
     (case fs dir of
        None \<Rightarrow> (Inl ErrNotExist, fs)
      | Some (File _) \<Rightarrow> (Inl (OtherError ''not a directory''), fs)
      | Some Directory \<Rightarrow>
          if fs (Join dir name) = Some Directory then (Inl (OtherError ''is a directory''), fs)
          else (Inr (), fs(Join dir name \<mapsto> File c)))"

definition os_Rename :: "string \<Rightarrow> string \<Rightarrow> 'j fs \<Rightarrow> unit res \<times> 'j fs" where
  "os_Rename old new fs =
     (case (fs old, fs new) of
        (None, _) \<Rightarrow> (Inl ErrNotExist, fs)
      | (Some n, Some Directory) \<Rightarrow> (Inl (OtherError ''file exists''), fs)
      | (Some n, _) \<Rightarrow> (Inr (), (fs(old := None))(new \<mapsto> n)))"

definition Disk_LoadCatalogState :: "string \<Rightarrow> 'j fs \<Rightarrow> 'j res" where
  "Disk_LoadCatalogState path fs = os_ReadFile path fs"

definition Disk_SaveCatalogState :: "string \<Rightarrow> 'j \<Rightarrow> 'j fs \<Rightarrow> unit res \<times> 'j fs" where
  "Disk_SaveCatalogState path jsonData fs =
     bindS (os_WriteFile path ''.tmp'' jsonData fs) (\<lambda>_ fs1. os_Rename (Join path ''.tmp'') path fs1)"

definition NewDiskCatalogManager :: "string \<Rightarrow> ('j fs, 'j) PersistenceProvider" where
  "NewDiskCatalogManager path =
     \<lparr>LoadCatalogState = Disk_LoadCatalogState path, SaveCatalogState = Disk_SaveCatalogState path\<rparr>"

section \<open>The invariant\<close>

text \<open>
  The lookup maps are those of the tables, table names are unique, and every object id is
  positive, at most the last one handed out, and used once.
\<close>

definition maps_of :: "Table list \<Rightarrow> (string \<rightharpoonup> nat) \<times> (string \<Rightarrow> nat list)" where
  "maps_of ts = fold register (enumerate 0 ts) (Map.empty, \<lambda>_. [])"

definition oids :: "Table list \<Rightarrow> ObjectID list" where
  "oids ts = map tb_Oid ts @ concat (map (\<lambda>t. map ix_Oid (tb_Indexes t)) ts)"

definition catalog_ok :: "'p Catalog \<Rightarrow> bool" where
  "catalog_ok c \<longleftrightarrow> (tableMap c, columnMap c) = maps_of (Tables (cat_state c)) \<and>
     distinct (map tb_Name (Tables (cat_state c))) \<and> distinct (oids (Tables (cat_state c))) \<and>
     (\<forall>o' \<in> set (oids (Tables (cat_state c))). 0 < o' \<and> o' \<le> NextId (cat_state c))"

lemma maps_of_snoc: "maps_of (ts @ [t]) = register (length ts, t) (maps_of ts)"
  by (simp add: maps_of_def enumerate_append_eq)

lemma maps_of_cong:
  assumes "map (\<lambda>t. (tb_Name t, tb_Columns t)) ts = map (\<lambda>t. (tb_Name t, tb_Columns t)) us"
  shows "maps_of ts = maps_of us"
  using assms
proof (induction ts arbitrary: us rule: rev_induct)
  case (snoc t ts)
  then obtain u us' where u: "us = us' @ [u]" "map (\<lambda>t. (tb_Name t, tb_Columns t)) ts = map (\<lambda>t. (tb_Name t, tb_Columns t)) us'"
      "tb_Name t = tb_Name u" "tb_Columns t = tb_Columns u"
    by (cases us rule: rev_cases) auto
  have "length ts = length us'" using map_eq_imp_length_eq [OF u(2)] .
  then show ?case using snoc.IH [OF u(2)] u by (simp add: maps_of_snoc register_def)
qed (simp add: maps_of_def)

lemma register_columns_set: "set (register_columns i cols cm n) = set (cm n) \<union> (if n \<in> col_Name ` set cols then {i} else {})"
  by (induction cols arbitrary: cm) (auto simp: register_columns_def)

lemma maps_of_lookup:
  assumes "distinct (map tb_Name ts)"
  shows "fst (maps_of ts) n = Some i \<longleftrightarrow> i < length ts \<and> tb_Name (ts ! i) = n"
    "set (snd (maps_of ts) col) = {i. i < length ts \<and> col \<in> col_Name ` set (tb_Columns (ts ! i))}"
  using assms
proof (induction ts rule: rev_induct)
  case (snoc t ts)
  {
    case 1
    then have "distinct (map tb_Name ts)" "tb_Name t \<notin> tb_Name ` set ts" by auto
    then show ?case using snoc.IH(1) by (auto simp: maps_of_snoc register_def nth_append less_Suc_eq) (metis image_eqI nth_mem)
  next
    case 2
    then show ?case using snoc.IH(2) by (auto simp: maps_of_snoc register_def register_columns_set nth_append less_Suc_eq)
  }
qed (auto simp: maps_of_def)

lemma catalog_lookup:
  assumes "catalog_ok c"
  shows "tableMap c n = Some i \<longleftrightarrow> i < length (Tables (cat_state c)) \<and> tb_Name (Tables (cat_state c) ! i) = n"
    "set (columnMap c col) = {i. i < length (Tables (cat_state c)) \<and> col \<in> col_Name ` set (tb_Columns (Tables (cat_state c) ! i))}"
  using assms maps_of_lookup [of "Tables (cat_state c)"] by (auto simp: catalog_ok_def dest!: sym [of "(_, _)"])

lemma GetTableMetadata_Inr: "GetTableMetadata n c = Inr i \<longleftrightarrow> tableMap c n = Some i"
  by (simp add: GetTableMetadata_def split: option.splits)

lemma save_state:
  "cat_state (snd (save marshal P r c)) = cat_state c" "catalog_ok (snd (save marshal P r c)) = catalog_ok c"
  "fst (save marshal P r c) = Inr r' \<Longrightarrow> r' = r"
  by (auto simp: save_def stepS_def catalog_ok_def bindR_eq_Inr split: sum.splits prod.splits)

lemma next_id:
  assumes "(n :: 32 word) \<noteq> - 1"
  shows "n < n + 1" "0 < n + 1" "o' \<le> n \<Longrightarrow> o' \<le> n + 1" "o' \<le> n \<Longrightarrow> o' \<noteq> n + 1"
proof -
  show l: "n < n + 1" using assms by (simp flip: not_le add: inc_less_eq_self_iff_eq)
  then show "0 < n + 1" by (metis word_gt_0 word_not_simps(1))
  show "o' \<le> n \<Longrightarrow> o' \<le> n + 1" "o' \<le> n \<Longrightarrow> o' \<noteq> n + 1" using l by auto
qed

lemma oids_new:
  assumes "mset os' = add_mset (n + 1) (mset os)" "distinct os" "\<forall>o' \<in> set os. 0 < o' \<and> o' \<le> n" "(n :: 32 word) \<noteq> - 1"
  shows "distinct os' \<and> (\<forall>o' \<in> set os'. 0 < o' \<and> o' \<le> n + 1)"
proof -
  have m: "mset os' = mset ((n + 1) # os)" using assms(1) by simp
  show ?thesis
    using mset_eq_imp_distinct_iff [OF m] mset_eq_setD [OF m] assms(2,3) next_id [OF assms(4)] by auto
qed

lemma AddTable_ok:
  assumes ok: "catalog_ok c" and n: "NextId (cat_state c) \<noteq> - 1" and new: "tableMap c name = None"
  obtains t where "cat_state (snd (AddTable marshal P name cols c)) = \<lparr>NextId = NextId (cat_state c) + 1, Tables = Tables (cat_state c) @ [t]\<rparr>"
    "t = \<lparr>tb_Oid = NextId (cat_state c) + 1, tb_Name = name, tb_Columns = cols, tb_Indexes = []\<rparr>"
    "catalog_ok (snd (AddTable marshal P name cols c))"
proof -
  let ?s = "cat_state c" and ?t = "\<lparr>tb_Oid = NextId (cat_state c) + 1, tb_Name = name, tb_Columns = cols, tb_Indexes = []\<rparr>"
  let ?m = "register (length (Tables ?s), ?t) (tableMap c, columnMap c)"
  let ?c = "c\<lparr>cat_state := \<lparr>NextId = NextId ?s + 1, Tables = Tables ?s @ [?t]\<rparr>, tableMap := fst ?m, columnMap := snd ?m\<rparr>"
  have a: "AddTable marshal P name cols c = save marshal P ?t ?c"
    using new by (simp add: AddTable_def Let_def case_prod_unfold)
  have "name \<notin> tb_Name ` set (Tables ?s)"
    using new catalog_lookup(1) [OF ok, of name] by (metis image_iff in_set_conv_nth option.distinct(1))
  moreover have "mset (oids (Tables ?s @ [?t])) = add_mset (NextId ?s + 1) (mset (oids (Tables ?s)))" by (simp add: oids_def)
  from oids_new [OF this _ _ n] have "distinct (oids (Tables ?s @ [?t])) \<and> (\<forall>o' \<in> set (oids (Tables ?s @ [?t])). 0 < o' \<and> o' \<le> NextId ?s + 1)"
    using ok by (simp add: catalog_ok_def)
  ultimately have "catalog_ok ?c" using ok by (simp add: catalog_ok_def maps_of_snoc)
  then show thesis using that [OF _ refl] a save_state(1,2) [of marshal P ?t ?c] by simp
qed

lemma oids_split:
  "mset (oids (xs @ t\<lparr>tb_Indexes := tb_Indexes t @ [idx]\<rparr> # ys)) = add_mset (ix_Oid idx) (mset (oids (xs @ t # ys)))"
  by (simp add: oids_def)

lemma oids_add_index:
  assumes "i < length ts"
  shows "mset (oids (ts[i := (ts ! i)\<lparr>tb_Indexes := tb_Indexes (ts ! i) @ [idx]\<rparr>])) = add_mset (ix_Oid idx) (mset (oids ts))"
proof -
  have "ts = take i ts @ ts ! i # drop (Suc i) ts" using assms by (simp add: id_take_nth_drop)
  moreover have "ts[i := x] = take i ts @ x # drop (Suc i) ts" for x using assms by (rule upd_conv_take_nth_drop)
  ultimately show ?thesis using oids_split [of "take i ts" "ts ! i" idx "drop (Suc i) ts"] by simp
qed

lemma AddIndex_ok:
  assumes ok: "catalog_ok c" and n: "NextId (cat_state c) \<noteq> - 1"
  shows "catalog_ok (snd (AddIndex marshal P name tbl ty cols c))"
proof (cases "tableMap c tbl")
  case None
  then show ?thesis using ok by (simp add: AddIndex_def GetTableMetadata_def)
next
  case (Some i)
  let ?s = "cat_state c" and ?t = "Tables (cat_state c) ! i"
  let ?idx = "\<lparr>ix_Oid = NextId ?s + 1, ix_TableOid = tb_Oid ?t, ix_Name = name, ix_Type = ty, ix_KeySchema = cols\<rparr>"
  let ?ts = "(Tables ?s)[i := ?t\<lparr>tb_Indexes := tb_Indexes ?t @ [?idx]\<rparr>]"
  let ?c = "c\<lparr>cat_state := \<lparr>NextId = NextId ?s + 1, Tables = ?ts\<rparr>\<rparr>"
  have i: "i < length (Tables ?s)" using catalog_lookup(1) [OF ok] Some by simp
  have "map tb_Name ?ts = map tb_Name (Tables ?s)"
    using i by (simp add: map_update) (metis list_update_id map_update nth_map)
  moreover have "maps_of ?ts = maps_of (Tables ?s)"
    by (rule maps_of_cong) (use i in \<open>simp add: map_update list_update_same_conv\<close>)
  moreover have "distinct (oids ?ts) \<and> (\<forall>o' \<in> set (oids ?ts). 0 < o' \<and> o' \<le> NextId ?s + 1)"
    using oids_new [OF _ _ _ n, of "oids ?ts" "oids (Tables ?s)"] oids_add_index [OF i, of ?idx] ok by (simp add: catalog_ok_def)
  ultimately have "catalog_ok ?c" using ok by (simp add: catalog_ok_def)
  then show ?thesis
    using ok Some save_state(2) [of marshal P ?idx ?c] by (simp add: AddIndex_def GetTableMetadata_def Let_def)
qed

section \<open>Properties of the catalog\<close>

text \<open>What one call does on a consistent catalog.\<close>

lemma catalog_steps:
  assumes "catalog_ok c" "NextId (cat_state c) \<noteq> - 1"
  shows "catalog_ok (snd (AddTable marshal P name cols c)) \<and> catalog_ok (snd (AddIndex marshal P iname name ty keys c)) \<and>
    (\<forall>n i. GetTableMetadata n c = Inr i \<longleftrightarrow> i < length (Tables (cat_state c)) \<and> tb_Name (Tables (cat_state c) ! i) = n) \<and>
    (\<forall>col. set (FindTablesWithColumnName col c) =
       {i. i < length (Tables (cat_state c)) \<and> col \<in> col_Name ` set (tb_Columns (Tables (cat_state c) ! i))}) \<and>
    (case AddTable marshal P name cols c of
       (Inl e, c') \<Rightarrow> True
     | (Inr t, c') \<Rightarrow> GetTableMetadata name c' = Inr (length (Tables (cat_state c))) \<and> GetTableByOid (tb_Oid t) c' = Inr t \<and>
         Tables (cat_state c') = Tables (cat_state c) @ [t] \<and> tb_Name t = name \<and> tb_Columns t = cols \<and>
         tb_Oid t \<notin> set (oids (Tables (cat_state c))))"
proof (cases "tableMap c name")
  case None
  obtain t where t: "cat_state (snd (AddTable marshal P name cols c)) = \<lparr>NextId = NextId (cat_state c) + 1, Tables = Tables (cat_state c) @ [t]\<rparr>"
      "t = \<lparr>tb_Oid = NextId (cat_state c) + 1, tb_Name = name, tb_Columns = cols, tb_Indexes = []\<rparr>"
      "catalog_ok (snd (AddTable marshal P name cols c))"
    by (rule AddTable_ok [OF assms None])
  have new: "tb_Oid t \<notin> set (oids (Tables (cat_state c)))"
    using assms next_id(4) [OF assms(2)] by (auto simp: t(2) catalog_ok_def)
  then have "find (\<lambda>u. tb_Oid u = tb_Oid t) (Tables (cat_state c)) = None"
    by (auto simp: find_None_iff oids_def) (metis image_eqI)
  then have f: "find (\<lambda>u. tb_Oid u = tb_Oid t) (Tables (cat_state c) @ [t]) = Some t" by (simp add: find_append)
  have "fst (AddTable marshal P name cols c) = Inr t' \<Longrightarrow> t' = t" for t'
    using None save_state(3) [of marshal P t _ t'] by (auto simp: AddTable_def t(2) Let_def case_prod_unfold)
  then show ?thesis
    using t new f AddIndex_ok [OF assms] catalog_lookup [OF assms(1)] catalog_lookup(1) [OF t(3), of name "length (Tables (cat_state c))"]
    by (simp add: GetTableMetadata_Inr GetTableByOid_def FindTablesWithColumnName_def split: prod.splits sum.splits) auto
next
  case (Some i)
  then have "AddTable marshal P name cols c = (Inl (GoDBError DuplicateObjectError), c)" by (simp add: AddTable_def)
  then show ?thesis
    using assms AddIndex_ok [OF assms] catalog_lookup [OF assms(1)] by (simp add: GetTableMetadata_Inr FindTablesWithColumnName_def)
qed

text \<open>
  The catalogs of a program: one that is opened where nothing was saved, what the operations
  make of it, and one that is opened from the text that was saved of such a catalog, when the
  JSON codec reads back what it wrote.  (A text that was edited by hand is not checked, see
  \<^verbatim>\<open>fromJSON\<close>.)
\<close>

inductive catalog_reach :: "(catalogState \<Rightarrow> 'j res) \<Rightarrow> ('j \<Rightarrow> catalogState res) \<Rightarrow> ('p, 'j) PersistenceProvider \<Rightarrow> 'p Catalog \<Rightarrow> bool"
  for marshal unmarshal P where
  cr_fresh: "LoadCatalogState P p = Inl ErrNotExist \<Longrightarrow> NewCatalog unmarshal P p = Inr c \<Longrightarrow> catalog_reach marshal unmarshal P c"
| cr_table: "catalog_reach marshal unmarshal P c \<Longrightarrow> NextId (cat_state c) \<noteq> - 1 \<Longrightarrow>
    catalog_reach marshal unmarshal P (snd (AddTable marshal P name cols c))"
| cr_index: "catalog_reach marshal unmarshal P c \<Longrightarrow> NextId (cat_state c) \<noteq> - 1 \<Longrightarrow>
    catalog_reach marshal unmarshal P (snd (AddIndex marshal P iname name ty keys c))"
| cr_reopen: "catalog_reach marshal unmarshal P c \<Longrightarrow> marshal (cat_state c) = Inr json \<Longrightarrow> unmarshal json = Inr (cat_state c) \<Longrightarrow>
    LoadCatalogState P p = Inr json \<Longrightarrow> NewCatalog unmarshal P p = Inr c' \<Longrightarrow> catalog_reach marshal unmarshal P c'"

lemma reopen_ok:
  assumes "catalog_ok c" "unmarshal json = Inr (cat_state c)" "LoadCatalogState P p = Inr json"
  shows "NewCatalog unmarshal P p = Inr (c\<lparr>persistenceProvider := p\<rparr>)"
  using assms by (auto simp: NewCatalog_def fromJSON_def catalog_ok_def maps_of_def Let_def split: prod.splits)

lemma catalog_reach_ok: "catalog_reach marshal unmarshal P c \<Longrightarrow> catalog_ok c"
proof (induction rule: catalog_reach.induct)
  case (cr_fresh p c)
  then show ?case by (auto simp: NewCatalog_def catalog_ok_def maps_of_def oids_def)
next
  case (cr_table c name cols)
  then show ?case using catalog_steps [where c = c and marshal = marshal and P = P and name = name and cols = cols] by blast
next
  case (cr_index c iname name ty keys)
  then show ?case using catalog_steps [where c = c and marshal = marshal and P = P and name = name and iname = iname and ty = ty and keys = keys] by blast
next
  case (cr_reopen c json p c')
  then show ?case using reopen_ok [of c unmarshal json P p] by (auto simp: catalog_ok_def)
qed

text \<open>
  C35: The catalog stays consistent.  In every catalog that is opened where nothing was saved,
  changed by adding tables and indexes while there are object ids left, whether a call succeeds,
  is refused or cannot be saved, and reopened from its saved text when the JSON codec reads back
  what it wrote: the lookup by name finds exactly the tables of the list, the lookup by column
  exactly the tables with that column, names of tables are unique, and every object id is
  positive and used once.  A table that is added is found under its name and its object id.
\<close>

theorem catalog_consistent:
  assumes "catalog_reach marshal unmarshal P c"
  shows "(\<forall>n i. GetTableMetadata n c = Inr i \<longleftrightarrow> i < length (Tables (cat_state c)) \<and> tb_Name (Tables (cat_state c) ! i) = n) \<and>
    (\<forall>col. set (FindTablesWithColumnName col c) =
       {i. i < length (Tables (cat_state c)) \<and> col \<in> col_Name ` set (tb_Columns (Tables (cat_state c) ! i))}) \<and>
    distinct (map tb_Name (Tables (cat_state c))) \<and> distinct (oids (Tables (cat_state c))) \<and> 0 \<notin> set (oids (Tables (cat_state c))) \<and>
    (NextId (cat_state c) \<noteq> - 1 \<longrightarrow>
      (case AddTable marshal P name cols c of
         (Inl e, c') \<Rightarrow> True
       | (Inr t, c') \<Rightarrow> GetTableMetadata name c' = Inr (length (Tables (cat_state c))) \<and> GetTableByOid (tb_Oid t) c' = Inr t \<and>
           Tables (cat_state c') = Tables (cat_state c) @ [t] \<and> tb_Name t = name \<and> tb_Columns t = cols \<and>
           tb_Oid t \<notin> set (oids (Tables (cat_state c)))))"
proof -
  note ok = catalog_reach_ok [OF assms]
  have 1: "distinct (map tb_Name (Tables (cat_state c)))" "distinct (oids (Tables (cat_state c)))" "0 \<notin> set (oids (Tables (cat_state c)))"
    using ok by (auto simp: catalog_ok_def)
  have 2: "\<forall>n i. GetTableMetadata n c = Inr i \<longleftrightarrow> i < length (Tables (cat_state c)) \<and> tb_Name (Tables (cat_state c) ! i) = n"
      "\<forall>col. set (FindTablesWithColumnName col c) =
         {i. i < length (Tables (cat_state c)) \<and> col \<in> col_Name ` set (tb_Columns (Tables (cat_state c) ! i))}"
    using catalog_lookup [OF ok] by (simp_all add: GetTableMetadata_Inr FindTablesWithColumnName_def)
  show ?thesis
    by (intro conjI impI 1 2, frule catalog_steps [OF ok], elim conjE, assumption)
qed

definition empty_catalog :: "unit Catalog" where
  "empty_catalog = \<lparr>cat_state = \<lparr>NextId = 0, Tables = []\<rparr>, tableMap = Map.empty, columnMap = (\<lambda>_. []), persistenceProvider = ()\<rparr>"

lemma catalog_consistent_witness:
  "NewCatalog (Inr :: catalogState \<Rightarrow> catalogState res) NullPersistenceProvider () = Inr empty_catalog \<and>
   (\<exists>t c'. AddTable Inr NullPersistenceProvider ''t'' [\<lparr>col_Name = ''x'', col_Type = IntType\<rparr>] empty_catalog = (Inr t, c') \<and>
      GetTableMetadata ''t'' c' = Inr 0 \<and> GetTableByOid (tb_Oid t) c' = Inr t)"
proof -
  let ?P = "NullPersistenceProvider :: (unit, catalogState) PersistenceProvider" and ?cols = "[\<lparr>col_Name = ''x'', col_Type = IntType\<rparr>]"
  have new: "LoadCatalogState ?P () = Inl ErrNotExist" "NewCatalog Inr ?P () = Inr empty_catalog"
    by (simp_all add: NewCatalog_def NullPersistenceProvider_def empty_catalog_def)
  have "NextId (cat_state empty_catalog) \<noteq> - 1" "Tables (cat_state empty_catalog) = []" by (simp_all add: empty_catalog_def)
  moreover have "\<exists>t c'. AddTable Inr ?P ''t'' ?cols empty_catalog = (Inr t, c')"
    by (simp add: AddTable_def save_def NullPersistenceProvider_def empty_catalog_def Let_def case_prod_unfold)
  ultimately show ?thesis
    using catalog_consistent [OF cr_fresh [OF new, of Inr], of "''t''" ?cols] new(2) by auto
qed

text \<open>
  Reloading the catalog.  When the JSON codec reads back what it wrote, a catalog that
  is opened from the text of a consistent catalog is that catalog: the same tables, indexes
  and next object id, and the same lookup maps.
\<close>

theorem catalog_reload:
  assumes "catalog_ok c" "marshal (cat_state c) = Inr json" "unmarshal json = Inr (cat_state c)" "LoadCatalogState P p = Inr json"
  shows "NewCatalog unmarshal P p = Inr (c\<lparr>persistenceProvider := p\<rparr>)"
  using assms(1,3,4) by (rule reopen_ok)

lemma catalog_reload_witness:
  "NewCatalog (Inr :: catalogState \<Rightarrow> catalogState res)
     \<lparr>LoadCatalogState = Inr, SaveCatalogState = (\<lambda>j _. (Inr (), j))\<rparr> (cat_state empty_catalog) =
   Inr \<lparr>cat_state = \<lparr>NextId = 0, Tables = []\<rparr>, tableMap = Map.empty, columnMap = (\<lambda>_. []), persistenceProvider = cat_state empty_catalog\<rparr>"
proof -
  let ?c = "\<lparr>cat_state = \<lparr>NextId = 0, Tables = []\<rparr>, tableMap = Map.empty, columnMap = (\<lambda>_. []), persistenceProvider = cat_state empty_catalog\<rparr>"
  have "catalog_ok ?c" by (simp add: catalog_ok_def maps_of_def oids_def)
  from catalog_reload [OF this, of Inr "cat_state ?c" Inr "\<lparr>LoadCatalogState = Inr, SaveCatalogState = (\<lambda>j _. (Inr (), j))\<rparr>" "cat_state empty_catalog"]
  show ?thesis by (simp add: empty_catalog_def)
qed

text \<open>
  The catalog is never saved to disk.  \<^verbatim>\<open>DiskCatalogManager.SaveCatalogState\<close> writes a
  temporary file below the catalog's own path and renames it to that path: whatever the path
  names, the call returns an error and the path keeps what it named.
\<close>

theorem disk_catalog_never_saved:
  "\<exists>e fs'. Disk_SaveCatalogState path jsonData fs = (Inl e, fs') \<and> fs' path = fs path"
proof -
  have "Join path ''.tmp'' \<noteq> path" by (simp add: Join_def)
  then show ?thesis
    by (auto simp: Disk_SaveCatalogState_def os_WriteFile_def os_Rename_def split: option.splits fs_node.splits)
qed

end
