(* ===== verification/Index_Key.thy ===== *)
theory Index_Key
  imports Txn_Context
begin

text \<open>
  Index keys and the interface of indexes (\<^verbatim>\<open>indexing/key.go\<close>, \<^verbatim>\<open>indexing/index.go\<close>).  A
  key is the bytes of the projected columns with their schema; schemas are compared as
  values.  The locale \<open>entry_index\<close> is the contract that the executors and recovery rely on:
  an index is a set of pairs of key bytes and record ids.
\<close>

section \<open>Keys\<close>

record Key =
  key_raw :: RawTuple
  key_schema :: "RawTupleDesc option"

definition NilKey :: Key where
  "NilKey = \<lparr>key_raw = [], key_schema = None\<rparr>"

definition NewKey :: "RawTuple \<Rightarrow> RawTupleDesc option \<Rightarrow> Key" where
  "NewKey tuple schema = \<lparr>key_raw = tuple, key_schema = schema\<rparr>"

definition Key_IsNil :: "Key \<Rightarrow> bool" where
  "Key_IsNil k \<longleftrightarrow> key_schema k = None"

definition Key_Hash :: "Key \<Rightarrow> 64 word" where
  "Key_Hash k = (if Key_IsNil k then 0 else Hash (key_raw k))"

text \<open>
  The code compares the pointers to the schemas.  A schema is a value here, so two equal
  schemas at different addresses, which the code tells apart, are the same.
\<close>

definition Key_Equals :: "Key \<Rightarrow> Key \<Rightarrow> bool" where
  "Key_Equals k other \<longleftrightarrow> key_schema k = key_schema other \<and> key_raw k = key_raw other"

fun key_compare_loop :: "RawTupleDesc \<Rightarrow> RawTuple \<Rightarrow> RawTuple \<Rightarrow> nat list \<Rightarrow> int res" where
  "key_compare_loop d s t [] = Inr 0"
| "key_compare_loop d s t (i # is) =
     bindR (RawTupleDesc_GetValue d s i) (\<lambda>v1.
     bindR (RawTupleDesc_GetValue d t i) (\<lambda>v2.
     bindR (Value_Compare v1 v2) (\<lambda>c. if c \<noteq> 0 then Inr c else key_compare_loop d s t is)))"

definition Key_Compare :: "Key \<Rightarrow> Key \<Rightarrow> int res" where
  "Key_Compare k other =
     bindR (Assert (key_schema k = key_schema other) ''cannot compare keys of different schemas'') (\<lambda>_.
     case key_schema k of
       None \<Rightarrow> Inl (Panic ''nil pointer dereference'')
     | Some d \<Rightarrow> key_compare_loop d (key_raw k) (key_raw other) [0..<RawTupleDesc_NumColumns d])"

definition Key_DeepCopy :: "Key \<Rightarrow> Key" where
  "Key_DeepCopy k = (if Key_IsNil k then NilKey else \<lparr>key_raw = key_raw k, key_schema = key_schema k\<rparr>)"

section \<open>Metadata\<close>

datatype ScanDirection = ScanDirectionForward | ScanDirectionBackward

record IndexMetadata =
  KeySchema :: RawTupleDesc
  ProjectionList :: "nat list"

definition KeySize :: "IndexMetadata \<Rightarrow> nat" where
  "KeySize md = BytesPerTuple (KeySchema md)"

definition AsKey :: "IndexMetadata \<Rightarrow> RawTuple \<Rightarrow> Key res" where
  "AsKey md raw =
     bindR (slice_checked 0 (BytesPerTuple (KeySchema md)) raw) (\<lambda>b. Inr \<lparr>key_raw = b, key_schema = Some (KeySchema md)\<rparr>)"

section \<open>Comparison is a total order on the keys of a schema\<close>

definition key_of :: "IndexMetadata \<Rightarrow> Key \<Rightarrow> bool" where
  "key_of md k \<longleftrightarrow> key_schema k = Some (KeySchema md) \<and> length (key_raw k) = BytesPerTuple (KeySchema md)"

lemma AsKey_key_of:
  assumes "BytesPerTuple (KeySchema md) \<le> length raw"
  shows "AsKey md raw = Inr \<lparr>key_raw = take (BytesPerTuple (KeySchema md)) raw, key_schema = Some (KeySchema md)\<rparr>"
  using assms by (simp add: AsKey_def slice_checked_def slice_def)

lemma Key_DeepCopy_id: "key_of md k \<Longrightarrow> Key_DeepCopy k = k"
  by (simp add: Key_DeepCopy_def key_of_def Key_IsNil_def)

definition same_key :: "Key \<Rightarrow> Key \<Rightarrow> bool" where
  "same_key k j \<longleftrightarrow> (\<exists>md. wf_desc (KeySchema md) \<and> key_of md k \<and> key_of md j)"

definition key_values :: "Key \<Rightarrow> Value list" where
  "key_values k = (case key_schema k of None \<Rightarrow> []
     | Some d \<Rightarrow> map (\<lambda>i. projr (RawTupleDesc_GetValue d (key_raw k) i)) [0..<RawTupleDesc_NumColumns d])"

lemma key_compare_loop_lex:
  assumes "\<forall>i \<in> set is. RawTupleDesc_GetValue d s i = Inr (v i) \<and> RawTupleDesc_GetValue d t i = Inr (w i)"
  shows "key_compare_loop d s t is = lex_cmp Value_Compare (map v is) (map w is)"
  using assms by (induction "is") (auto cong: if_cong)

lemma Key_Compare_lex:
  assumes "same_key k j"
  shows "Key_Compare k j = lex_cmp Value_Compare (key_values k) (key_values j)" "list_all2 same_type (key_values k) (key_values j)"
proof -
  obtain md where md: "wf_desc (KeySchema md)" "key_of md k" "key_of md j" using assms by (auto simp: same_key_def)
  let ?d = "KeySchema md" and ?n = "length (rd_fields (KeySchema md))"
  have get: "\<exists>v. RawTupleDesc_GetValue ?d (key_raw q) i = Inr v \<and> val_t v = rd_fields ?d ! i \<and> val_t v \<noteq> DefaultType"
    if "key_of md q" "i < ?n" for q i
    using RawTupleDesc_GetValue_total [OF md(1) that(2), of "key_raw q"] that(1)
    by (metis BytesPerTuple_def key_of_def order_refl value_wf_def)
  have kv: "key_values q = map (\<lambda>i. projr (RawTupleDesc_GetValue ?d (key_raw q) i)) [0..<?n]" if "key_of md q" for q
    using that by (simp add: key_values_def key_of_def RawTupleDesc_NumColumns_def)
  show "list_all2 same_type (key_values k) (key_values j)"
    using get [OF md(2)] get [OF md(3)] unfolding kv [OF md(2)] kv [OF md(3)]
    by (auto simp: list_all2_conv_all_nth same_type_def) (metis projr_def sum.case(2) sum.sel(2))+
  have "\<forall>i \<in> set [0..<?n]. RawTupleDesc_GetValue ?d (key_raw k) i = Inr (projr (RawTupleDesc_GetValue ?d (key_raw k) i)) \<and>
      RawTupleDesc_GetValue ?d (key_raw j) i = Inr (projr (RawTupleDesc_GetValue ?d (key_raw j) i))"
    using get [OF md(2)] get [OF md(3)] by fastforce
  from key_compare_loop_lex [OF this] show "Key_Compare k j = lex_cmp Value_Compare (key_values k) (key_values j)"
    using md(2,3) unfolding kv [OF md(2)] kv [OF md(3)] by (simp add: Key_Compare_def key_of_def RawTupleDesc_NumColumns_def)
qed

lemma same_key_equiv: "same_key x y \<Longrightarrow> same_key y x" "same_key x y \<Longrightarrow> same_key y z \<Longrightarrow> same_key x z"
  by (auto simp: same_key_def key_of_def)

interpretation kcmp: three_way same_key Key_Compare
proof
  show "same_key y x" if "same_key x y" for x y using that by (rule same_key_equiv)
  show "same_key x z" if "same_key x y" "same_key y z" for x y z using that by (rule same_key_equiv)
  show "\<exists>c \<in> {- 1, 0, 1}. Key_Compare x y = Inr c" if xy: "same_key x y" for x y
    using vlex.cmp_range [OF Key_Compare_lex(2) [OF xy]] by (simp add: Key_Compare_lex(1) [OF xy])
  show "Key_Compare y x = Inr (- c)" if xy: "same_key x y" "Key_Compare x y = Inr c" for x y c
    using vlex.cmp_antisym [OF Key_Compare_lex(2) [OF xy(1)], of c] xy(2)
    by (simp add: Key_Compare_lex(1) [OF xy(1)] Key_Compare_lex(1) [OF same_key_equiv(1) [OF xy(1)]])
  show "\<exists>e. Key_Compare x z = Inr e \<and> e \<le> 0 \<and> (e = 0 \<longleftrightarrow> c = 0 \<and> d = 0)"
    if xyz: "same_key x y" "same_key y z" "Key_Compare x y = Inr c" "Key_Compare y z = Inr d" "c \<le> 0" "d \<le> 0" for x y z c d
    using vlex.cmp_trans [OF Key_Compare_lex(2) [OF xyz(1)] Key_Compare_lex(2) [OF xyz(2)], of c d] xyz
    by (simp add: Key_Compare_lex(1) same_key_equiv(2) [OF xyz(1,2)])
qed

text \<open>A schema of one integer column, for the witnesses: its keys are equal when they compare equal.\<close>

definition int_md :: IndexMetadata where
  "int_md = \<lparr>KeySchema = sample_desc, ProjectionList = [0]\<rparr>"

definition int_key :: "64 word \<Rightarrow> Key" where
  "int_key w = \<lparr>key_raw = le_put 8 w, key_schema = Some sample_desc\<rparr>"

lemma int_key_of: "key_of int_md (int_key w)"
  by (simp add: key_of_def int_md_def int_key_def sample_desc_def BytesPerTuple_def)

lemma int_key_inj [simp]: "int_key v = int_key w \<longleftrightarrow> v = w" "key_raw (int_key v) = key_raw (int_key w) \<longleftrightarrow> v = w"
proof -
  have "le_get (le_put 8 x) = x" for x :: "64 word" by simp
  then have "le_put 8 v = le_put 8 w \<longleftrightarrow> v = w" by metis
  then show "int_key v = int_key w \<longleftrightarrow> v = w" "key_raw (int_key v) = key_raw (int_key w) \<longleftrightarrow> v = w"
    by (simp_all add: int_key_def)
qed

section \<open>The contract of an index\<close>

text \<open>
  What the clients of \<^verbatim>\<open>Index\<close> rely on, for keys in \<open>K\<close> and record ids in \<open>R\<close>: inserting
  an entry that is not there adds it, deleting one outside a transaction removes it, a
  lookup returns the record ids of its key, each once, and none of them panics.
\<close>

datatype index_op = Put Key RecordID | Remove Key RecordID

definition spec_op :: "(RawTuple \<times> RecordID) set \<Rightarrow> index_op \<Rightarrow> (RawTuple \<times> RecordID) set" where
  "spec_op es op = (case op of Put k rid \<Rightarrow> insert (key_raw k, rid) es | Remove k rid \<Rightarrow> es - {(key_raw k, rid)})"

text \<open>The calls a client may make: keys and record ids in range, no entry inserted twice.\<close>

fun legal_ops :: "Key set \<Rightarrow> RecordID set \<Rightarrow> (RawTuple \<times> RecordID) set \<Rightarrow> index_op list \<Rightarrow> bool" where
  "legal_ops K R es [] = True"
| "legal_ops K R es (op # ops) =
     ((case op of Put k rid \<Rightarrow> k \<in> K \<and> rid \<in> R \<and> (key_raw k, rid) \<notin> es | Remove k rid \<Rightarrow> k \<in> K \<and> rid \<in> R) \<and>
      legal_ops K R (spec_op es op) ops)"

definition run_op :: "(Key \<Rightarrow> RecordID \<Rightarrow> TransactionContext option \<Rightarrow> 'x \<Rightarrow> (TransactionContext option \<times> 'x) res) \<Rightarrow>
    (Key \<Rightarrow> RecordID \<Rightarrow> TransactionContext option \<Rightarrow> 'x \<Rightarrow> (TransactionContext option \<times> 'x) res) \<Rightarrow> index_op \<Rightarrow> 'x \<Rightarrow> 'x res" where
  "run_op ins del op x =
     bindR (case op of Put k rid \<Rightarrow> ins k rid None x | Remove k rid \<Rightarrow> del k rid None x) (\<lambda>(_, x'). Inr x')"

locale entry_index =
  fixes inv :: "'x \<Rightarrow> bool" and entries :: "'x \<Rightarrow> (RawTuple \<times> RecordID) set" and K :: "Key set" and R :: "RecordID set"
    and ins :: "Key \<Rightarrow> RecordID \<Rightarrow> TransactionContext option \<Rightarrow> 'x \<Rightarrow> (TransactionContext option \<times> 'x) res"
    and del :: "Key \<Rightarrow> RecordID \<Rightarrow> TransactionContext option \<Rightarrow> 'x \<Rightarrow> (TransactionContext option \<times> 'x) res"
    and scan :: "Key \<Rightarrow> RecordID list \<Rightarrow> 'x \<Rightarrow> RecordID list res"
  assumes insert_law: "inv x \<Longrightarrow> k \<in> K \<Longrightarrow> rid \<in> R \<Longrightarrow> (key_raw k, rid) \<notin> entries x \<Longrightarrow>
      \<exists>txn' x'. ins k rid txn x = Inr (txn', x') \<and> inv x' \<and> entries x' = insert (key_raw k, rid) (entries x) \<and>
        (txn = None \<longrightarrow> txn' = None)"
    and delete_law: "inv x \<Longrightarrow> k \<in> K \<Longrightarrow> rid \<in> R \<Longrightarrow>
      \<exists>x'. del k rid None x = Inr (None, x') \<and> inv x' \<and> entries x' = entries x - {(key_raw k, rid)}"
    and scan_law: "inv x \<Longrightarrow> k \<in> K \<Longrightarrow>
      \<exists>rids. scan k out x = Inr (out @ rids) \<and> distinct rids \<and> set rids = {rid. (key_raw k, rid) \<in> entries x}"
begin

text \<open>An inserted entry is found; undoing the insertion gives back the entries before.\<close>

lemma insert_then_scan:
  assumes "inv x" "k \<in> K" "rid \<in> R" "(key_raw k, rid) \<notin> entries x"
  obtains txn' x' rids where "ins k rid txn x = Inr (txn', x')" "inv x'" "scan k [] x' = Inr rids"
    "set rids = insert rid {r. (key_raw k, r) \<in> entries x}"
proof -
  obtain txn' x' where i: "ins k rid txn x = Inr (txn', x')" "inv x'" "entries x' = insert (key_raw k, rid) (entries x)"
    using insert_law [OF assms] by blast
  then show thesis using scan_law [OF i(2) assms(2), of "[]"] that by auto
qed

lemma undo_insert:
  assumes "inv x" "k \<in> K" "rid \<in> R" "(key_raw k, rid) \<notin> entries x"
  obtains txn' x' x'' where "ins k rid txn x = Inr (txn', x')" "del k rid None x' = Inr (None, x'')" "inv x''" "entries x'' = entries x"
proof -
  obtain txn' x' where i: "ins k rid txn x = Inr (txn', x')" "inv x'" "entries x' = insert (key_raw k, rid) (entries x)"
    using insert_law [OF assms] by blast
  then show thesis using delete_law [OF i(2) assms(2,3)] assms(4) that by auto
qed

text \<open>Every legal sequence of calls succeeds and follows the set of entries.\<close>

lemma ops_refine:
  assumes "inv x" "legal_ops K R (entries x) ops"
  obtains x' where "foldR (run_op ins del) ops x = Inr x'" "inv x'" "entries x' = foldl spec_op (entries x) ops"
  using assms
proof (induction ops arbitrary: x thesis)
  case (Cons op ops)
  have "\<exists>x1. run_op ins del op x = Inr x1 \<and> inv x1 \<and> entries x1 = spec_op (entries x) op"
  proof (cases op)
    case (Put k rid)
    then show ?thesis using insert_law [of x k rid None] Cons.prems by (auto simp: run_op_def spec_op_def)
  next
    case (Remove k rid)
    then show ?thesis using delete_law [of x k rid] Cons.prems by (auto simp: run_op_def spec_op_def)
  qed
  then obtain x1 where x1: "run_op ins del op x = Inr x1" "inv x1" "entries x1 = spec_op (entries x) op" by blast
  moreover have "legal_ops K R (entries x1) ops" using Cons.prems(3) x1(3) by simp
  ultimately obtain x' where "foldR (run_op ins del) ops x1 = Inr x'" "inv x'" "entries x' = foldl spec_op (entries x1) ops"
    using Cons.IH [of x1] by blast
  then show ?case using Cons.prems(1) x1 by simp
qed simp

lemma ops_then_scan:
  assumes "inv x" "legal_ops K R (entries x) ops" "k \<in> K"
  shows "\<exists>x' rids. foldR (run_op ins del) ops x = Inr x' \<and> scan k out x' = Inr (out @ rids) \<and> distinct rids \<and>
    set rids = {rid. (key_raw k, rid) \<in> foldl spec_op (entries x) ops}"
  using ops_refine [OF assms(1,2)] scan_law [OF _ assms(3)] by metis

text \<open>Building an index from a list of entries.\<close>

lemma build:
  assumes "inv x" "\<forall>(k, rid) \<in> set es. k \<in> K \<and> rid \<in> R \<and> (key_raw k, rid) \<notin> entries x" "distinct (map snd es)"
  obtains x' where "foldR (\<lambda>(k, rid) x. bindR (ins k rid None x) (\<lambda>(_, x'). Inr x')) es x = Inr x'" "inv x'"
    "entries x' = entries x \<union> (\<lambda>(k, rid). (key_raw k, rid)) ` set es"
  using assms
proof (induction es arbitrary: x thesis)
  case (Cons e es)
  obtain k rid where e: "e = (k, rid)" by fastforce
  obtain x1 where x1: "ins k rid None x = Inr (None, x1)" "inv x1" "entries x1 = insert (key_raw k, rid) (entries x)"
    using insert_law [of x k rid None] Cons.prems e by auto
  have "\<forall>(k, rid) \<in> set es. k \<in> K \<and> rid \<in> R \<and> (key_raw k, rid) \<notin> entries x1"
    using Cons.prems(3,4) e x1(3) by (auto simp: image_iff)
  then obtain x' where "foldR (\<lambda>(k, rid) x. bindR (ins k rid None x) (\<lambda>(_, x'). Inr x')) es x1 = Inr x'" "inv x'"
      "entries x' = entries x1 \<union> (\<lambda>(k, rid). (key_raw k, rid)) ` set es"
    using Cons.IH [of x1] x1(2) Cons.prems(4) by auto
  then show ?case using Cons.prems(1) x1 e by simp
qed simp

end

end
