(* ===== verification/Mem_Hash_Index.thy ===== *)
theory Mem_Hash_Index
  imports Index_Key
begin

text \<open>
  The hash index (\<^verbatim>\<open>indexing/mem_hash_index.go\<close>): a concurrent map from the key bytes to a
  bucket of record ids.  The map of the package \<^verbatim>\<open>xsync\<close> is a parameter, a record of the
  methods the index calls; the locale \<open>concurrent_map\<close> has what the index relies on.
  Buckets are shared by pointer: the map holds addresses into a store of buckets.
\<close>

section \<open>State\<close>

record 'm MapOf =
  NewMapOf :: 'm
  map_Load :: "'m \<Rightarrow> byte list \<Rightarrow> nat option"
  map_LoadOrStore :: "'m \<Rightarrow> byte list \<Rightarrow> nat \<Rightarrow> nat \<times> 'm"
  map_Delete :: "'m \<Rightarrow> byte list \<Rightarrow> 'm"

record bucket =
  bkt_key :: RawTuple
  bkt_rids :: "RecordID list"
  bkt_removed :: bool

record 'm MemHashIndex =
  hi_map :: 'm
  hi_buckets :: "nat \<Rightarrow> bucket"
  hi_next :: nat
  hi_metadata :: IndexMetadata

definition NewMemHashIndex :: "'m MapOf \<Rightarrow> RawTupleDesc \<Rightarrow> nat list \<Rightarrow> 'm MemHashIndex" where
  "NewMemHashIndex M schema projectionList =
     \<lparr>hi_map = NewMapOf M, hi_buckets = (\<lambda>_. \<lparr>bkt_key = [], bkt_rids = [], bkt_removed = False\<rparr>), hi_next = 0,
      hi_metadata = \<lparr>KeySchema = schema, ProjectionList = projectionList\<rparr>\<rparr>"

section \<open>Operations\<close>

text \<open>
  A removed bucket that is still in the map makes the retry loop spin.  \<open>self\<close> is the
  index's address in the tasks it schedules.
\<close>

definition Hash_InsertEntry :: "'m MapOf \<Rightarrow> nat \<Rightarrow> Key \<Rightarrow> RecordID \<Rightarrow> TransactionContext option \<Rightarrow> 'm MemHashIndex \<Rightarrow>
    (TransactionContext option \<times> 'm MemHashIndex) res" where
  "Hash_InsertEntry M self key rid txn ix =
     bindR (Assert (key_schema key = Some (KeySchema (hi_metadata ix))) ''Key schema mismatch'') (\<lambda>_.
     let (b, ix1) =
       (case map_Load M (hi_map ix) (key_raw key) of
          Some b \<Rightarrow> (b, ix)
        | None \<Rightarrow>
            let n = hi_next ix; (actual, m) = map_LoadOrStore M (hi_map ix) (key_raw key) n
            in (actual, ix\<lparr>hi_map := m, hi_next := n + 1,
                          hi_buckets := (hi_buckets ix)(n := \<lparr>bkt_key = key_raw key, bkt_rids = [], bkt_removed = False\<rparr>)\<rparr>));
         bkt = hi_buckets ix1 b
     in if bkt_removed bkt then Inl Spins
        else Inr (map_option (AddAbortTask \<lparr>Target = self, Type = IndexOpUndoInsert, task_Key = bkt_key bkt, task_RID = rid\<rparr>) txn,
                  ix1\<lparr>hi_buckets := (hi_buckets ix1)(b := bkt\<lparr>bkt_rids := bkt_rids bkt @ [rid]\<rparr>)\<rparr>))"

text \<open>
  The loop over the bucket when it deletes at once.  It ranges over the slice as it was at
  the start, of which \<open>n\<close> elements are still in the bucket, and goes on after a match.
\<close>

fun delete_loop :: "RecordID \<Rightarrow> nat list \<Rightarrow> RecordID list \<Rightarrow> nat \<Rightarrow> bool \<Rightarrow> (RecordID list \<times> nat \<times> bool) res" where
  "delete_loop rid [] arr n gone = Inr (arr, n, gone)"
| "delete_loop rid (i # is) arr n gone =
     (if arr ! i = rid
      then if n = 0 then Inl (Panic ''index out of range [-1]'')
           else if i \<ge> n then Inl (Panic ''index out of range'')
           else delete_loop rid is (arr[i := arr ! (n - 1)]) (n - 1) (gone \<or> n - 1 = 0)
      else delete_loop rid is arr n gone)"

definition Hash_DeleteEntry :: "'m MapOf \<Rightarrow> nat \<Rightarrow> Key \<Rightarrow> RecordID \<Rightarrow> TransactionContext option \<Rightarrow> 'm MemHashIndex \<Rightarrow>
    (TransactionContext option \<times> 'm MemHashIndex) res" where
  "Hash_DeleteEntry M self key rid txn ix =
     bindR (Assert (key_schema key = Some (KeySchema (hi_metadata ix))) ''Key schema mismatch'') (\<lambda>_.
     case map_Load M (hi_map ix) (key_raw key) of
       None \<Rightarrow> Inr (txn, ix)
     | Some b \<Rightarrow>
         let bkt = hi_buckets ix b
         in case txn of
              Some t \<Rightarrow> Inr (Some (AddCommitTask \<lparr>Target = self, Type = IndexOpDelete, task_Key = bkt_key bkt, task_RID = rid\<rparr> t), ix)
            | None \<Rightarrow>
                bindR (delete_loop rid [0..<length (bkt_rids bkt)] (bkt_rids bkt) (length (bkt_rids bkt)) False) (\<lambda>(arr, n, gone).
                Inr (None, ix\<lparr>hi_map := (if gone then map_Delete M (hi_map ix) (key_raw key) else hi_map ix),
                              hi_buckets := (hi_buckets ix)(b := bkt\<lparr>bkt_rids := take n arr, bkt_removed := (bkt_removed bkt \<or> gone)\<rparr>)\<rparr>)))"

definition Hash_ScanKey :: "'m MapOf \<Rightarrow> Key \<Rightarrow> RecordID list \<Rightarrow> 'm MemHashIndex \<Rightarrow> RecordID list res" where
  "Hash_ScanKey M key out ix =
     bindR (Assert (key_schema key = Some (KeySchema (hi_metadata ix))) ''Key schema mismatch'') (\<lambda>_.
     case map_Load M (hi_map ix) (key_raw key) of
       None \<Rightarrow> Inr out
     | Some b \<Rightarrow> if bkt_removed (hi_buckets ix b) then Inl Spins else Inr (out @ bkt_rids (hi_buckets ix b)))"

definition Hash_Scan :: "Key \<Rightarrow> ScanDirection \<Rightarrow> 'm MemHashIndex \<Rightarrow> unit res" where
  "Hash_Scan start direction ix = Inl (OtherError ''range scans not supported for hash indexes'')"

definition Hash_Invoke :: "'m MapOf \<Rightarrow> nat \<Rightarrow> IndexOpType \<Rightarrow> RawTuple \<Rightarrow> RecordID \<Rightarrow> 'm MemHashIndex \<Rightarrow> 'm MemHashIndex res" where
  "Hash_Invoke M self opType key rid ix =
     bindR (AsKey (hi_metadata ix) key) (\<lambda>k. bindR (Hash_DeleteEntry M self k rid None ix) (\<lambda>(_, ix'). Inr ix'))"

section \<open>The invariant\<close>

definition hash_entries :: "'m MapOf \<Rightarrow> 'm MemHashIndex \<Rightarrow> (RawTuple \<times> RecordID) set" where
  "hash_entries M ix = {(k, rid). \<exists>b. map_Load M (hi_map ix) k = Some b \<and> rid \<in> set (bkt_rids (hi_buckets ix b))}"

definition hash_inv :: "'m MapOf \<Rightarrow> IndexMetadata \<Rightarrow> 'm MemHashIndex \<Rightarrow> bool" where
  "hash_inv M md ix \<longleftrightarrow> hi_metadata ix = md \<and> (\<forall>k b. map_Load M (hi_map ix) k = Some b \<longrightarrow> b < hi_next ix \<and>
     bkt_key (hi_buckets ix b) = k \<and> \<not> bkt_removed (hi_buckets ix b) \<and> distinct (bkt_rids (hi_buckets ix b)))"

lemma hash_entries_iff:
  "(k, r) \<in> hash_entries M ix \<longleftrightarrow> (case map_Load M (hi_map ix) k of None \<Rightarrow> False | Some b \<Rightarrow> r \<in> set (bkt_rids (hi_buckets ix b)))"
  by (auto simp: hash_entries_def split: option.splits)

lemma bucket_update:
  assumes inv: "hash_inv M md ix" and b: "map_Load M (hi_map ix) k = Some b" and d: "distinct rs"
  defines "ix' \<equiv> ix\<lparr>hi_buckets := (hi_buckets ix)(b := (hi_buckets ix b)\<lparr>bkt_rids := rs\<rparr>)\<rparr>"
  shows "hash_inv M md ix'" "(k', r) \<in> hash_entries M ix' \<longleftrightarrow> (if k' = k then r \<in> set rs else (k', r) \<in> hash_entries M ix)"
proof -
  have i: "hi_metadata ix = md" "map_Load M (hi_map ix) q = Some c \<Longrightarrow> c < hi_next ix \<and> bkt_key (hi_buckets ix c) = q \<and>
      \<not> bkt_removed (hi_buckets ix c) \<and> distinct (bkt_rids (hi_buckets ix c))" for q c
    using inv by (auto simp: hash_inv_def)
  have "k' \<noteq> k \<Longrightarrow> map_Load M (hi_map ix) k' \<noteq> Some b" using i(2) [of k' b] i(2) [OF b] by auto
  then show "(k', r) \<in> hash_entries M ix' \<longleftrightarrow> (if k' = k then r \<in> set rs else (k', r) \<in> hash_entries M ix)"
    using b by (cases "k' = k"; cases "map_Load M (hi_map ix) k'") (auto simp: hash_entries_iff ix'_def)
  show "hash_inv M md ix'"
    unfolding hash_inv_def
  proof (intro conjI allI impI)
    show "hi_metadata ix' = md" using i(1) by (simp add: ix'_def)
    fix q c
    assume "map_Load M (hi_map ix') q = Some c"
    from i(2) [of q c] this d show "c < hi_next ix'" "bkt_key (hi_buckets ix' c) = q" "\<not> bkt_removed (hi_buckets ix' c)" "distinct (bkt_rids (hi_buckets ix' c))"
      by (auto simp: ix'_def)
  qed
qed

lemma delete_loop_absent:
  assumes "\<forall>i \<in> set is. arr ! i \<noteq> rid"
  shows "delete_loop rid is arr n gone = Inr (arr, n, gone)"
  using assms by (induction "is") auto

lemma delete_loop_spec:
  assumes "distinct rids"
  obtains arr n gone where "delete_loop rid [0..<length rids] rids (length rids) False = Inr (arr, n, gone)"
    "set (take n arr) = set rids - {rid}" "distinct (take n arr)" "gone \<longrightarrow> take n arr = []"
proof (cases "rid \<in> set rids")
  case False
  then have "delete_loop rid [0..<length rids] rids (length rids) False = Inr (rids, length rids, False)"
    by (intro delete_loop_absent) auto
  then show thesis using that [of rids "length rids" False] assms False by simp
next
  case True
  then obtain i where i: "i < length rids" "rids ! i = rid" by (auto simp: in_set_conv_nth)
  have u: "[0..<length rids] = [0..<i] @ i # [Suc i..<length rids]"
    using i(1) upt_add_eq_append [of 0 i "length rids - i"] by (simp add: upt_conv_Cons)
  have "delete_loop rid (xs @ ys) arr n g = delete_loop rid ys arr n g" if "\<forall>j \<in> set xs. arr ! j \<noteq> rid" for xs ys arr n g
    using that by (induction xs) auto
  moreover have "\<forall>j \<in> set [0..<i]. rids ! j \<noteq> rid" using i nth_eq_iff_index_eq [OF assms] by auto
  ultimately have skip: "delete_loop rid ([0..<i] @ ys) rids n g = delete_loop rid ys rids n g" for ys n g by blast
  let ?arr = "rids[i := rids ! (length rids - 1)]"
  have rest: "?arr ! j \<noteq> rid" if "j \<in> set [Suc i..<length rids]" for j
    using that i assms nth_eq_iff_index_eq [OF assms] by (auto simp: nth_list_update)
  then have d: "delete_loop rid [0..<length rids] rids (length rids) False = Inr (?arr, length rids - 1, length rids - 1 = 0)"
    using i delete_loop_absent [of "[Suc i..<length rids]" ?arr rid] by (cases "rids = []") (simp_all add: u skip)
  obtain ys z where r: "rids = ys @ [z]" using i(1) by (cases rids rule: rev_cases) auto
  have t: "take (length rids - 1) ?arr = ys[i := z]" by (simp add: r list_update_append list_update_beyond)
  have "set (ys[i := z]) = set rids - {rid} \<and> distinct (ys[i := z])"
  proof (cases "i < length ys")
    case True
    then have "ys ! i = rid" using i by (simp add: r nth_append)
    then show ?thesis using True assms set_update_distinct [of ys i z] distinct_list_update [of ys z i] by (auto simp: r)
  next
    case False
    then have "rid = z" "ys[i := z] = ys" using i by (auto simp: r nth_append less_Suc_eq list_update_beyond)
    then show ?thesis using assms by (auto simp: r)
  qed
  then show thesis using that [OF d] t by (auto simp: r)
qed

locale concurrent_map =
  fixes M :: "'m MapOf"
  assumes new_law: "map_Load M (NewMapOf M) = Map.empty"
    and store_law: "map_Load M m k = None \<Longrightarrow>
      \<exists>m'. map_LoadOrStore M m k v = (v, m') \<and> map_Load M m' = (map_Load M m)(k \<mapsto> v)"
    and remove_law: "map_Load M (map_Delete M m k) = (map_Load M m)(k := None)"
begin

lemma hash_insert:
  assumes "hash_inv M md ix" "key_schema k = Some (KeySchema md)" "(key_raw k, rid) \<notin> hash_entries M ix"
  shows "\<exists>txn' ix'. Hash_InsertEntry M self k rid txn ix = Inr (txn', ix') \<and> hash_inv M md ix' \<and>
    hash_entries M ix' = insert (key_raw k, rid) (hash_entries M ix) \<and> (txn = None \<longrightarrow> txn' = None)"
proof (cases "map_Load M (hi_map ix) (key_raw k)")
  case None
  obtain m' where m: "map_LoadOrStore M (hi_map ix) (key_raw k) (hi_next ix) = (hi_next ix, m')"
      "map_Load M m' = (map_Load M (hi_map ix))(key_raw k \<mapsto> hi_next ix)"
    using store_law [OF None] by blast
  have fresh: "map_Load M (hi_map ix) k' \<noteq> Some (hi_next ix)" for k' using assms(1) by (auto simp: hash_inv_def)
  let ?b = "\<lparr>bkt_key = key_raw k, bkt_rids = [], bkt_removed = False\<rparr>"
  let ?ix = "ix\<lparr>hi_map := m', hi_next := hi_next ix + 1, hi_buckets := (hi_buckets ix)(hi_next ix := ?b\<lparr>bkt_rids := [rid]\<rparr>)\<rparr>"
  have "Hash_InsertEntry M self k rid txn ix =
      Inr (map_option (AddAbortTask \<lparr>Target = self, Type = IndexOpUndoInsert, task_Key = key_raw k, task_RID = rid\<rparr>) txn, ?ix)"
    using assms(1,2) None m(1) by (simp add: Hash_InsertEntry_def hash_inv_def Let_def)
  moreover have "hash_inv M md ?ix"
    unfolding hash_inv_def
  proof (intro conjI allI impI)
    fix k' b
    assume l: "map_Load M (hi_map ?ix) k' = Some b"
    have "b < hi_next ?ix \<and> bkt_key (hi_buckets ?ix b) = k' \<and> \<not> bkt_removed (hi_buckets ?ix b) \<and> distinct (bkt_rids (hi_buckets ?ix b))"
    proof (cases "k' = key_raw k")
      case True
      then show ?thesis using l m(2) by simp
    next
      case False
      then have o': "map_Load M (hi_map ix) k' = Some b" using l m(2) by simp
      then have "b \<noteq> hi_next ix" using fresh by blast
      moreover have "b < hi_next ix \<and> bkt_key (hi_buckets ix b) = k' \<and> \<not> bkt_removed (hi_buckets ix b) \<and> distinct (bkt_rids (hi_buckets ix b))"
        using assms(1) o' unfolding hash_inv_def by blast
      ultimately show ?thesis by simp
    qed
    then show "b < hi_next ?ix" "bkt_key (hi_buckets ?ix b) = k'" "\<not> bkt_removed (hi_buckets ?ix b)" "distinct (bkt_rids (hi_buckets ?ix b))"
      by blast+
  qed (use assms(1) in \<open>simp add: hash_inv_def\<close>)
  moreover have "(k', r) \<in> hash_entries M ?ix \<longleftrightarrow> (k', r) \<in> insert (key_raw k, rid) (hash_entries M ix)" for k' r
    using m(2) None fresh [of k'] by (cases "k' = key_raw k"; cases "map_Load M (hi_map ix) k'") (simp_all add: hash_entries_iff)
  ultimately show ?thesis by auto
next
  case (Some b)
  then have b: "b < hi_next ix" "bkt_key (hi_buckets ix b) = key_raw k" "\<not> bkt_removed (hi_buckets ix b)"
      "rid \<notin> set (bkt_rids (hi_buckets ix b))"
    using assms by (auto simp: hash_inv_def hash_entries_def)
  have rs: "distinct (bkt_rids (hi_buckets ix b) @ [rid])" using b(4) assms(1) Some by (auto simp: hash_inv_def)
  have "Hash_InsertEntry M self k rid txn ix =
      Inr (map_option (AddAbortTask \<lparr>Target = self, Type = IndexOpUndoInsert, task_Key = key_raw k, task_RID = rid\<rparr>) txn,
           ix\<lparr>hi_buckets := (hi_buckets ix)(b := (hi_buckets ix b)\<lparr>bkt_rids := bkt_rids (hi_buckets ix b) @ [rid]\<rparr>)\<rparr>)"
    using assms(1,2) Some b by (simp add: Hash_InsertEntry_def hash_inv_def Let_def)
  moreover note u = bucket_update [OF assms(1) Some rs]
  moreover have "(k', r) \<in> insert (key_raw k, rid) (hash_entries M ix) \<longleftrightarrow>
      (if k' = key_raw k then r \<in> set (bkt_rids (hi_buckets ix b) @ [rid]) else (k', r) \<in> hash_entries M ix)" for k' r
    using Some by (auto simp: hash_entries_iff)
  ultimately show ?thesis by (intro exI conjI) (assumption | rule set_eqI | auto)+
qed

lemma hash_delete:
  assumes "hash_inv M md ix" "key_schema k = Some (KeySchema md)"
  shows "\<exists>ix'. Hash_DeleteEntry M self k rid None ix = Inr (None, ix') \<and> hash_inv M md ix' \<and>
    hash_entries M ix' = hash_entries M ix - {(key_raw k, rid)}"
proof (cases "map_Load M (hi_map ix) (key_raw k)")
  case None
  then show ?thesis using assms by (auto simp: Hash_DeleteEntry_def hash_inv_def hash_entries_def)
next
  case (Some b)
  then have b: "b < hi_next ix" "bkt_key (hi_buckets ix b) = key_raw k" "\<not> bkt_removed (hi_buckets ix b)"
      "distinct (bkt_rids (hi_buckets ix b))"
    using assms by (auto simp: hash_inv_def)
  have own: "k' = key_raw k" if "map_Load M (hi_map ix) k' = Some b" for k' using that assms(1) b(2) by (auto simp: hash_inv_def)
  obtain arr n gone where d: "delete_loop rid [0..<length (bkt_rids (hi_buckets ix b))] (bkt_rids (hi_buckets ix b))
        (length (bkt_rids (hi_buckets ix b))) False = Inr (arr, n, gone)"
      "set (take n arr) = set (bkt_rids (hi_buckets ix b)) - {rid}" "distinct (take n arr)" "gone \<longrightarrow> take n arr = []"
    by (rule delete_loop_spec [OF b(4)])
  let ?ix = "ix\<lparr>hi_map := (if gone then map_Delete M (hi_map ix) (key_raw k) else hi_map ix),
      hi_buckets := (hi_buckets ix)(b := (hi_buckets ix b)\<lparr>bkt_rids := take n arr, bkt_removed := (bkt_removed (hi_buckets ix b) \<or> gone)\<rparr>)\<rparr>"
  have "Hash_DeleteEntry M self k rid None ix = Inr (None, ?ix)"
    using assms Some d(1) by (simp add: Hash_DeleteEntry_def hash_inv_def Let_def)
  moreover have "hash_inv M md ?ix"
    using assms(1) d(3) b own remove_law by (auto simp: hash_inv_def split: if_splits)
  moreover have "(k', r) \<in> hash_entries M ?ix \<longleftrightarrow> (k', r) \<in> hash_entries M ix - {(key_raw k, rid)}" for k' r
  proof (cases "k' = key_raw k")
    case True
    then show ?thesis using d(2,4) Some remove_law by (cases gone) (auto simp: hash_entries_iff)
  next
    case False
    then have "map_Load M (hi_map ix) k' \<noteq> Some b" using own by blast
    then show ?thesis using False remove_law by (cases "map_Load M (hi_map ix) k'"; cases gone) (simp_all add: hash_entries_iff)
  qed
  ultimately show ?thesis by auto
qed

lemma hash_scan:
  assumes "hash_inv M md ix" "key_schema k = Some (KeySchema md)"
  shows "\<exists>rids. Hash_ScanKey M k out ix = Inr (out @ rids) \<and> distinct rids \<and> set rids = {rid. (key_raw k, rid) \<in> hash_entries M ix}"
  using assms by (auto simp: Hash_ScanKey_def hash_inv_def hash_entries_def split: option.splits)

lemma new_index: "hash_inv M md (NewMemHashIndex M (KeySchema md) (ProjectionList md))"
  "hash_entries M (NewMemHashIndex M (KeySchema md) (ProjectionList md)) = {}"
  by (simp_all add: NewMemHashIndex_def hash_inv_def hash_entries_def new_law)

end

sublocale concurrent_map \<subseteq> hash: entry_index "hash_inv M md" "hash_entries M" "{k. key_schema k = Some (KeySchema md)}" UNIV
  "Hash_InsertEntry M self" "Hash_DeleteEntry M self" "Hash_ScanKey M"
  using hash_insert hash_delete hash_scan by unfold_locales auto

context concurrent_map
begin

lemma ops_lookup:
  fixes md :: IndexMetadata
  assumes "legal_ops {j. key_schema j = Some (KeySchema md)} UNIV {} ops" "key_schema k = Some (KeySchema md)"
  shows "\<exists>ix rids. foldR (run_op (Hash_InsertEntry M self) (Hash_DeleteEntry M self)) ops
      (NewMemHashIndex M (KeySchema md) (ProjectionList md)) = Inr ix \<and>
    Hash_ScanKey M k [] ix = Inr rids \<and> distinct rids \<and> set rids = {rid. (key_raw k, rid) \<in> foldl spec_op {} ops}"
  using hash.ops_then_scan [OF new_index(1) [of md], where ops = ops and k = k and self = self and out = "[]"] assms by (simp add: new_index(2))

end

text \<open>A map of the standard library has these laws.\<close>

definition plain_map :: "(byte list \<rightharpoonup> nat) MapOf" where
  "plain_map = \<lparr>NewMapOf = Map.empty, map_Load = (\<lambda>m k. m k),
     map_LoadOrStore = (\<lambda>m k v. case m k of Some w \<Rightarrow> (w, m) | None \<Rightarrow> (v, m(k \<mapsto> v))),
     map_Delete = (\<lambda>m k. m(k := None))\<rparr>"

interpretation plain: concurrent_map plain_map
  by unfold_locales (auto simp: plain_map_def)

section \<open>Properties\<close>

text \<open>
  The hash index refines a set of entries.  Any sequence of insertions of new entries and
  of deletions, on an index made by \<^verbatim>\<open>NewMemHashIndex\<close>, succeeds, and a lookup then returns
  each record id stored under its key exactly once.
\<close>

theorem hash_index_refines:
  fixes md :: IndexMetadata
  assumes "concurrent_map M" "legal_ops {j. key_schema j = Some (KeySchema md)} UNIV {} ops" "key_schema k = Some (KeySchema md)"
  shows "\<exists>ix rids. foldR (run_op (Hash_InsertEntry M self) (Hash_DeleteEntry M self)) ops
      (NewMemHashIndex M (KeySchema md) (ProjectionList md)) = Inr ix \<and>
    Hash_ScanKey M k [] ix = Inr rids \<and> distinct rids \<and> set rids = {rid. (key_raw k, rid) \<in> foldl spec_op {} ops}"
  using assms(2,3) by (rule concurrent_map.ops_lookup [OF assms(1)])

theorem hash_index_refines_witness:
  "\<exists>ix rids. foldR (run_op (Hash_InsertEntry plain_map 0) (Hash_DeleteEntry plain_map 0))
      [Put (int_key 5) (RecordID (PageID 1 0) 0), Put (int_key 5) (RecordID (PageID 1 0) 1), Remove (int_key 5) (RecordID (PageID 1 0) 0)]
      (NewMemHashIndex plain_map (KeySchema int_md) (ProjectionList int_md)) = Inr ix \<and>
    Hash_ScanKey plain_map (int_key 5) [] ix = Inr rids \<and> set rids = {RecordID (PageID 1 0) 1}"
proof -
  have ks: "key_schema (int_key w) = Some (KeySchema int_md)" for w using int_key_of by (simp add: key_of_def)
  have "legal_ops {j. key_schema j = Some (KeySchema int_md)} UNIV {}
      [Put (int_key 5) (RecordID (PageID 1 0) 0), Put (int_key 5) (RecordID (PageID 1 0) 1), Remove (int_key 5) (RecordID (PageID 1 0) 0)]"
    by (simp add: spec_op_def ks)
  from hash_index_refines [OF plain.concurrent_map_axioms this ks, of 0 5]
  show ?thesis by (auto simp: spec_op_def)
qed

text \<open>
  Inserting the same entry twice breaks the hash index: the loop of \<^verbatim>\<open>DeleteEntry\<close> goes on
  over the old slice after it has removed an element, and finds the record id a second time
  behind the shortened bucket, where the assignment panics.
\<close>

theorem hash_delete_duplicate_panics:
  "(case foldR (run_op (Hash_InsertEntry plain_map 0) (Hash_DeleteEntry plain_map 0))
       [Put (int_key 5) zeroRID, Put (int_key 5) zeroRID, Remove (int_key 5) zeroRID]
       (NewMemHashIndex plain_map (KeySchema int_md) (ProjectionList int_md)) of
      Inl e \<Rightarrow> Some e | Inr _ \<Rightarrow> None) = Some (Panic ''index out of range'')"
  by code_simp

end
