(* ===== verification/Mem_BTree_Index.thy ===== *)
theory Mem_BTree_Index
  imports Index_Key
begin

text \<open>
  The ordered index (\<^verbatim>\<open>indexing/mem_btree_index.go\<close>) over the generic B-tree of the package
  \<^verbatim>\<open>tidwall/btree\<close>.  The tree is a parameter, a record of the methods the index calls;
  \<open>bt_Ascend\<close> gives the items its callback is offered, in order, as long as it returns true.
  The locale \<open>ordered_tree\<close> has what the index relies on, for an order function that is a
  strict linear order on the items in use: the tree is a sorted sequence of items and an
  iterator is a position in it.
\<close>

section \<open>State\<close>

record btreeItem =
  bi_key :: Key
  bi_rid :: RecordID

record ('t, 'i) BTreeG =
  NewBTreeG :: "(btreeItem \<Rightarrow> btreeItem \<Rightarrow> bool) \<Rightarrow> 't"
  bt_Set :: "btreeItem \<Rightarrow> 't \<Rightarrow> 't"
  bt_Delete :: "btreeItem \<Rightarrow> 't \<Rightarrow> 't"
  bt_Get :: "btreeItem \<Rightarrow> 't \<Rightarrow> btreeItem option"
  bt_Ascend :: "btreeItem \<Rightarrow> 't \<Rightarrow> btreeItem list"
  bt_Iter :: "'t \<Rightarrow> 'i"
  iter_Seek :: "btreeItem \<Rightarrow> 'i \<Rightarrow> bool \<times> 'i"
  iter_First :: "'i \<Rightarrow> bool \<times> 'i"
  iter_Last :: "'i \<Rightarrow> bool \<times> 'i"
  iter_Next :: "'i \<Rightarrow> bool \<times> 'i"
  iter_Prev :: "'i \<Rightarrow> bool \<times> 'i"
  iter_Item :: "'i \<Rightarrow> btreeItem"

record 't MemBTreeIndex =
  bt_tree :: 't
  bt_metadata :: IndexMetadata

text \<open>
  The order of the items.  Comparing keys of one schema does not panic, and the operations
  check the schema before they reach the tree; the order function therefore has no value for
  a panic, and says false where the code would panic.
\<close>

definition rid_less :: "RecordID \<Rightarrow> RecordID \<Rightarrow> bool" where
  "rid_less a b =
     (if Oid (ridPage a) \<noteq> Oid (ridPage b) then Oid (ridPage a) < Oid (ridPage b)
      else if PageNum (ridPage a) \<noteq> PageNum (ridPage b) then sint (PageNum (ridPage a)) < sint (PageNum (ridPage b))
      else sint (Slot a) < sint (Slot b))"

definition item_less :: "btreeItem \<Rightarrow> btreeItem \<Rightarrow> bool" where
  "item_less a b =
     (case Key_Compare (bi_key a) (bi_key b) of
        Inl _ \<Rightarrow> False
      | Inr c \<Rightarrow> if c \<noteq> 0 then c < 0 else rid_less (bi_rid a) (bi_rid b))"

definition NewMemBTreeIndex :: "('t, 'i) BTreeG \<Rightarrow> RawTupleDesc \<Rightarrow> nat list \<Rightarrow> 't MemBTreeIndex" where
  "NewMemBTreeIndex B schema projectionList =
     \<lparr>bt_tree = NewBTreeG B item_less, bt_metadata = \<lparr>KeySchema = schema, ProjectionList = projectionList\<rparr>\<rparr>"

section \<open>Operations\<close>

definition BTree_InsertEntry :: "('t, 'i) BTreeG \<Rightarrow> nat \<Rightarrow> Key \<Rightarrow> RecordID \<Rightarrow> TransactionContext option \<Rightarrow> 't MemBTreeIndex \<Rightarrow>
    (TransactionContext option \<times> 't MemBTreeIndex) res" where
  "BTree_InsertEntry B self key rid txn ix =
     bindR (Assert (key_schema key = Some (KeySchema (bt_metadata ix))) ''Key schema mismatch'') (\<lambda>_.
     let keyCopy = Key_DeepCopy key; item = \<lparr>bi_key = keyCopy, bi_rid = rid\<rparr>
     in Inr (map_option (AddAbortTask \<lparr>Target = self, Type = IndexOpUndoInsert, task_Key = key_raw keyCopy, task_RID = rid\<rparr>) txn,
             ix\<lparr>bt_tree := bt_Set B item (bt_tree ix)\<rparr>))"

definition BTree_DeleteEntry :: "('t, 'i) BTreeG \<Rightarrow> nat \<Rightarrow> Key \<Rightarrow> RecordID \<Rightarrow> TransactionContext option \<Rightarrow> 't MemBTreeIndex \<Rightarrow>
    (TransactionContext option \<times> 't MemBTreeIndex) res" where
  "BTree_DeleteEntry B self key rid txn ix =
     bindR (Assert (key_schema key = Some (KeySchema (bt_metadata ix))) ''Key schema mismatch'') (\<lambda>_.
     let item = \<lparr>bi_key = key, bi_rid = rid\<rparr>
     in case txn of
          None \<Rightarrow> Inr (None, ix\<lparr>bt_tree := bt_Delete B item (bt_tree ix)\<rparr>)
        | Some t \<Rightarrow>
            case bt_Get B item (bt_tree ix) of
              None \<Rightarrow> Inr (txn, ix)
            | Some stored \<Rightarrow>
                Inr (Some (AddCommitTask \<lparr>Target = self, Type = IndexOpDelete, task_Key = key_raw (bi_key stored), task_RID = rid\<rparr> t), ix))"

definition BTree_ScanKey :: "('t, 'i) BTreeG \<Rightarrow> Key \<Rightarrow> RecordID list \<Rightarrow> 't MemBTreeIndex \<Rightarrow> RecordID list res" where
  "BTree_ScanKey B key out ix =
     bindR (Assert (key_schema key = Some (KeySchema (bt_metadata ix))) ''Key schema mismatch'') (\<lambda>_.
     let pivot = \<lparr>bi_key = key, bi_rid = zeroRID\<rparr>
     in Inr (out @ map bi_rid (takeWhile (\<lambda>i. Key_Equals (bi_key i) key) (bt_Ascend B pivot (bt_tree ix)))))"

definition BTree_Invoke :: "('t, 'i) BTreeG \<Rightarrow> nat \<Rightarrow> IndexOpType \<Rightarrow> RawTuple \<Rightarrow> RecordID \<Rightarrow> 't MemBTreeIndex \<Rightarrow> 't MemBTreeIndex res" where
  "BTree_Invoke B self opType key rid ix =
     bindR (AsKey (bt_metadata ix) key) (\<lambda>k. bindR (BTree_DeleteEntry B self k rid None ix) (\<lambda>(_, ix'). Inr ix'))"

section \<open>Range scans\<close>

text \<open>The iterator runs over a copy of the tree, which later changes do not affect.\<close>

record 'i MemBTreeIndexIterator =
  bit_iter :: 'i
  bit_direction :: ScanDirection
  bit_firstCall :: bool
  bit_hasMore :: bool

definition BTree_Scan :: "('t, 'i) BTreeG \<Rightarrow> Key \<Rightarrow> ScanDirection \<Rightarrow> 't MemBTreeIndex \<Rightarrow> 'i MemBTreeIndexIterator res" where
  "BTree_Scan B start direction ix =
     bindR (Assert (Key_IsNil start \<or> key_schema start = Some (KeySchema (bt_metadata ix))) ''Key schema mismatch'') (\<lambda>_.
     let iter = bt_Iter B (bt_tree ix);
         pivot = \<lparr>bi_key = start, bi_rid = zeroRID\<rparr>
     in bindR (case direction of
          ScanDirectionForward \<Rightarrow> Inr (if \<not> Key_IsNil start then iter_Seek B pivot iter else iter_First B iter)
        | ScanDirectionBackward \<Rightarrow>
            if Key_IsNil start then Inr (iter_Last B iter)
            else let (found, iter') = iter_Seek B pivot iter
                 in if \<not> found then Inr (iter_Last B iter')
                    else bindR (Key_Compare (bi_key (iter_Item B iter')) start)
                           (\<lambda>c. Inr (if c > 0 then iter_Prev B iter' else (True, iter'))))
        (\<lambda>(more, iter'). Inr \<lparr>bit_iter = iter', bit_direction = direction, bit_firstCall = True, bit_hasMore = more\<rparr>))"

definition BTree_it_Next :: "('t, 'i) BTreeG \<Rightarrow> 'i MemBTreeIndexIterator \<Rightarrow> bool \<times> 'i MemBTreeIndexIterator" where
  "BTree_it_Next B it =
     (if bit_firstCall it then (bit_hasMore it, it\<lparr>bit_firstCall := False\<rparr>)
      else if \<not> bit_hasMore it then (False, it)
      else let (more, iter') = (case bit_direction it of
                 ScanDirectionForward \<Rightarrow> iter_Next B (bit_iter it)
               | ScanDirectionBackward \<Rightarrow> iter_Prev B (bit_iter it))
           in (more, it\<lparr>bit_iter := iter', bit_hasMore := more\<rparr>))"

definition BTree_it_Key :: "('t, 'i) BTreeG \<Rightarrow> 'i MemBTreeIndexIterator \<Rightarrow> Key" where
  "BTree_it_Key B it = bi_key (iter_Item B (bit_iter it))"

definition BTree_it_Value :: "('t, 'i) BTreeG \<Rightarrow> 'i MemBTreeIndexIterator \<Rightarrow> RecordID" where
  "BTree_it_Value B it = bi_rid (iter_Item B (bit_iter it))"

text \<open>The entries that a reader of the iterator sees in at most \<open>n\<close> calls.\<close>

primrec BTree_drain :: "('t, 'i) BTreeG \<Rightarrow> nat \<Rightarrow> 'i MemBTreeIndexIterator \<Rightarrow> (RawTuple \<times> RecordID) list" where
  "BTree_drain B 0 it = []"
| "BTree_drain B (Suc n) it =
     (let (more, it') = BTree_it_Next B it
      in if more then (key_raw (BTree_it_Key B it'), BTree_it_Value B it') # BTree_drain B n it' else [])"

section \<open>The order of the items\<close>

lemma rid_less_order: "\<not> rid_less a a" "rid_less a b \<Longrightarrow> rid_less b c \<Longrightarrow> rid_less a c" "a \<noteq> b \<Longrightarrow> rid_less a b \<or> rid_less b a"
proof -
  show "\<not> rid_less a a" by (simp add: rid_less_def)
  show "rid_less a b \<Longrightarrow> rid_less b c \<Longrightarrow> rid_less a c" by (auto simp: rid_less_def split: if_splits)
  assume "a \<noteq> b"
  then have "Oid (ridPage a) \<noteq> Oid (ridPage b) \<or> PageNum (ridPage a) \<noteq> PageNum (ridPage b) \<or> Slot a \<noteq> Slot b"
    by (metis PageID.expand RecordID.expand)
  moreover have "x \<noteq> y \<Longrightarrow> sint x < sint y \<or> sint y < sint x" for x y :: "32 word"
    by (metis linorder_neqE signed_word_eqI)
  ultimately show "rid_less a b \<or> rid_less b a" by (metis linorder_neqE rid_less_def)
qed

text \<open>
  Keys that have the same values have the same bytes: what the code gets by writing values
  into key buffers.
\<close>

definition key_space :: "IndexMetadata \<Rightarrow> Key set \<Rightarrow> bool" where
  "key_space md K \<longleftrightarrow> wf_desc (KeySchema md) \<and> (\<forall>k \<in> K. key_of md k \<and> (\<forall>j \<in> K. Key_Compare k j = Inr 0 \<longrightarrow> k = j))"

definition items_of :: "Key set \<Rightarrow> btreeItem set" where
  "items_of K = {i. bi_key i \<in> K}"

lemma item_less_order:
  assumes "key_space md K" "a \<in> items_of K" "b \<in> items_of K"
  shows "\<not> item_less a a" "c \<in> items_of K \<Longrightarrow> item_less a b \<Longrightarrow> item_less b c \<Longrightarrow> item_less a c" "a \<noteq> b \<Longrightarrow> item_less a b \<or> item_less b a"
proof -
  have s: "same_key (bi_key x) (bi_key y)" if "x \<in> items_of K" "y \<in> items_of K" for x y
    using assms(1) that by (auto simp: key_space_def items_of_def same_key_def)
  obtain c where c: "Key_Compare (bi_key a) (bi_key b) = Inr c" "Key_Compare (bi_key b) (bi_key a) = Inr (- c)"
    using kcmp.cmp_range [OF s [OF assms(2,3)]] kcmp.cmp_antisym [OF s [OF assms(2,3)]] by blast
  show "\<not> item_less a a" using kcmp.cmp_self [OF s [OF assms(2,2)]] rid_less_order(1) by (simp add: item_less_def)
  show "item_less a b \<or> item_less b a" if "a \<noteq> b"
  proof (cases "c = 0")
    case True
    then have "bi_key a = bi_key b" using c(1) assms by (auto simp: key_space_def items_of_def)
    then have "bi_rid a \<noteq> bi_rid b" using that by (cases a; cases b) simp
    then show ?thesis using c True rid_less_order(3) by (simp add: item_less_def)
  qed (use c in \<open>auto simp: item_less_def\<close>)
  show "item_less a d" if d: "d \<in> items_of K" "item_less a b" "item_less b d" for d
  proof -
    obtain e where e: "Key_Compare (bi_key b) (bi_key d) = Inr e" using kcmp.cmp_range [OF s [OF assms(3) d(1)]] by blast
    have le: "c \<le> 0" "e \<le> 0" using d(2,3) c(1) e by (auto simp: item_less_def split: if_splits)
    obtain f where "Key_Compare (bi_key a) (bi_key d) = Inr f" "f \<le> 0" "f = 0 \<longleftrightarrow> c = 0 \<and> e = 0"
      using kcmp.cmp_trans [OF s [OF assms(2,3)] s [OF assms(3) d(1)] c(1) e le] by blast
    then show ?thesis using d(2,3) c(1) e rid_less_order(2) by (auto simp: item_less_def split: if_splits)
  qed
qed

section \<open>Point lookups\<close>

definition valid_rid :: "RecordID \<Rightarrow> bool" where
  "valid_rid rid \<longleftrightarrow> \<not> rid_less rid zeroRID"

definition item_entry :: "btreeItem \<Rightarrow> RawTuple \<times> RecordID" where
  "item_entry i = (key_raw (bi_key i), bi_rid i)"

lemma key_space_eq:
  assumes "key_space md K" "k \<in> K" "j \<in> K"
  shows "same_key k j" "Key_Equals k j \<longleftrightarrow> k = j" "key_raw k = key_raw j \<longleftrightarrow> k = j" "Key_Compare k j = Inr 0 \<longleftrightarrow> k = j" "\<not> Key_IsNil k"
    "key_schema k = Some (KeySchema md)" "Key_DeepCopy k = k"
proof -
  have ko: "key_of md k" "key_of md j" "wf_desc (KeySchema md)" using assms by (auto simp: key_space_def)
  then show s: "same_key k j" "key_schema k = Some (KeySchema md)" "\<not> Key_IsNil k" "Key_DeepCopy k = k"
    by (auto simp: same_key_def key_of_def Key_IsNil_def intro: Key_DeepCopy_id)
  show "key_raw k = key_raw j \<longleftrightarrow> k = j" using ko by (auto simp: key_of_def)
  then show "Key_Equals k j \<longleftrightarrow> k = j" using ko by (auto simp: key_of_def Key_Equals_def)
  show "Key_Compare k j = Inr 0 \<longleftrightarrow> k = j" using assms kcmp.cmp_self [of k] s(1) by (auto simp: key_space_def)
qed

text \<open>The items at or after the pivot of a key are those whose key is not smaller.\<close>

lemma pivot_cut:
  assumes "key_space md K" "i \<in> items_of K" "k \<in> K" "valid_rid (bi_rid i)" "Key_Compare (bi_key i) k = Inr c"
  shows "item_less i \<lparr>bi_key = k, bi_rid = zeroRID\<rparr> \<longleftrightarrow> c < 0"
  using assms by (auto simp: item_less_def valid_rid_def)

lemma takeWhile_key:
  assumes ks: "key_space md K" and k: "k \<in> K"
    and xs: "sorted_wrt item_less xs" "set xs \<subseteq> items_of K" "\<forall>i \<in> set xs. \<exists>c \<ge> 0. Key_Compare (bi_key i) k = Inr c"
  shows "takeWhile (\<lambda>i. Key_Equals (bi_key i) k) xs = filter (\<lambda>i. bi_key i = k) xs"
  using xs
proof (induction xs)
  case (Cons x xs)
  have x: "bi_key x \<in> K" using Cons.prems(2) by (auto simp: items_of_def)
  show ?case
  proof (cases "bi_key x = k")
    case False
    then obtain c where "Key_Compare (bi_key x) k = Inr c" "c > 0"
      using Cons.prems(3) key_space_eq(4) [OF ks x k] by (metis list.set_intros(1) order_le_less)
    then have "bi_key y \<noteq> k" if "y \<in> set xs" for y
      using Cons.prems(1) that by (auto simp: item_less_def)
    then show ?thesis using False key_space_eq(2) [OF ks x k] by (simp add: filter_empty_conv)
  qed (use Cons key_space_eq(2) [OF ks x k] in auto)
qed simp

lemma sorted_items_distinct:
  assumes "key_space md K" "sorted_wrt item_less xs" "set xs \<subseteq> items_of K"
  shows "distinct xs"
  using assms(2,3) by (induction xs) (auto dest: item_less_order(1) [OF assms(1)])

lemma drop_prefix:
  assumes "sorted_wrt (\<lambda>x y. P y \<longrightarrow> P x) xs"
  shows "drop (length (filter P xs)) xs = filter (\<lambda>x. \<not> P x) xs"
  using assms
proof (induction xs)
  case (Cons x xs)
  show ?case
  proof (cases "P x")
    case False
    then have "\<forall>y \<in> set xs. \<not> P y" using Cons.prems by auto
    then show ?thesis using False by simp
  qed (use Cons in simp)
qed simp

section \<open>The contract of the tree\<close>

text \<open>
  \<open>ok\<close> holds of the trees made with this order whose items have keys in \<open>K\<close>; \<open>items\<close> is the
  sequence a tree holds, \<open>seq\<close> and \<open>pos\<close> are an iterator's sequence and position in it.
\<close>

locale ordered_tree =
  fixes B :: "('t, 'i) BTreeG" and md :: IndexMetadata and K :: "Key set"
    and ok :: "'t \<Rightarrow> bool" and items :: "'t \<Rightarrow> btreeItem list" and seq :: "'i \<Rightarrow> btreeItem list" and pos :: "'i \<Rightarrow> nat"
  assumes keys: "key_space md K"
    and new_law: "ok (NewBTreeG B item_less)" "items (NewBTreeG B item_less) = []"
    and sorted_law: "ok t \<Longrightarrow> sorted_wrt item_less (items t) \<and> set (items t) \<subseteq> items_of K"
    and set_law: "ok t \<Longrightarrow> i \<in> items_of K \<Longrightarrow> ok (bt_Set B i t) \<and> set (items (bt_Set B i t)) = insert i (set (items t))"
    and remove_law: "ok t \<Longrightarrow> i \<in> items_of K \<Longrightarrow> ok (bt_Delete B i t) \<and> set (items (bt_Delete B i t)) = set (items t) - {i}"
    and get_law: "ok t \<Longrightarrow> i \<in> items_of K \<Longrightarrow> bt_Get B i t = (if i \<in> set (items t) then Some i else None)"
    and ascend_law: "ok t \<Longrightarrow> i \<in> items_of K \<Longrightarrow> bt_Ascend B i t = filter (\<lambda>j. \<not> item_less j i) (items t)"
    and iter_law: "ok t \<Longrightarrow> seq (bt_Iter B t) = items t"
    and seek_law: "ok t \<Longrightarrow> i \<in> items_of K \<Longrightarrow> \<exists>it'. seq it' = items t \<and>
      pos it' = length (filter (\<lambda>j. item_less j i) (items t)) \<and> iter_Seek B i (bt_Iter B t) = (pos it' < length (items t), it')"
    and first_law: "\<exists>it'. iter_First B it = (seq it \<noteq> [], it') \<and> seq it' = seq it \<and> pos it' = 0"
    and last_law: "\<exists>it'. iter_Last B it = (seq it \<noteq> [], it') \<and> seq it' = seq it \<and> pos it' = length (seq it) - 1"
    and next_law: "\<exists>it'. iter_Next B it = (Suc (pos it) < length (seq it), it') \<and> seq it' = seq it \<and>
      (Suc (pos it) < length (seq it) \<longrightarrow> pos it' = Suc (pos it))"
    and prev_law: "\<exists>it'. iter_Prev B it = (0 < pos it, it') \<and> seq it' = seq it \<and> (0 < pos it \<longrightarrow> pos it' = pos it - 1)"
    and item_law: "pos it < length (seq it) \<Longrightarrow> iter_Item B it = seq it ! pos it"
begin

definition tree_inv :: "'t MemBTreeIndex \<Rightarrow> bool" where
  "tree_inv ix \<longleftrightarrow> bt_metadata ix = md \<and> ok (bt_tree ix) \<and> (\<forall>i \<in> set (items (bt_tree ix)). valid_rid (bi_rid i))"

definition tree_entries :: "'t MemBTreeIndex \<Rightarrow> (RawTuple \<times> RecordID) set" where
  "tree_entries ix = item_entry ` set (items (bt_tree ix))"

lemma entry_iff:
  assumes "tree_inv ix" "k \<in> K"
  shows "(key_raw k, rid) \<in> tree_entries ix \<longleftrightarrow> \<lparr>bi_key = k, bi_rid = rid\<rparr> \<in> set (items (bt_tree ix))"
proof -
  have "i = \<lparr>bi_key = k, bi_rid = rid\<rparr>" if "i \<in> set (items (bt_tree ix))" "key_raw (bi_key i) = key_raw k" "bi_rid i = rid" for i
  proof -
    have "bi_key i \<in> K" using that(1) sorted_law assms(1) by (auto simp: tree_inv_def items_of_def)
    then show ?thesis using key_space_eq(3) [OF keys _ assms(2)] that(2,3) by (cases i) auto
  qed
  then show ?thesis by (force simp: tree_entries_def item_entry_def)
qed

lemma tree_insert:
  assumes "tree_inv ix" "k \<in> K" "valid_rid rid"
  shows "\<exists>txn' ix'. BTree_InsertEntry B self k rid txn ix = Inr (txn', ix') \<and> tree_inv ix' \<and>
    tree_entries ix' = insert (key_raw k, rid) (tree_entries ix) \<and> (txn = None \<longrightarrow> txn' = None)"
  using assms set_law [of "bt_tree ix" "\<lparr>bi_key = k, bi_rid = rid\<rparr>"] key_space_eq(6,7) [OF keys assms(2,2)]
  by (auto simp: BTree_InsertEntry_def tree_inv_def tree_entries_def items_of_def item_entry_def)

lemma tree_delete:
  assumes "tree_inv ix" "k \<in> K"
  shows "\<exists>ix'. BTree_DeleteEntry B self k rid None ix = Inr (None, ix') \<and> tree_inv ix' \<and>
    tree_entries ix' = tree_entries ix - {(key_raw k, rid)}"
proof -
  let ?i = "\<lparr>bi_key = k, bi_rid = rid\<rparr>" and ?ix = "ix\<lparr>bt_tree := bt_Delete B \<lparr>bi_key = k, bi_rid = rid\<rparr> (bt_tree ix)\<rparr>"
  have d: "ok (bt_tree ?ix)" "set (items (bt_tree ?ix)) = set (items (bt_tree ix)) - {?i}"
    using remove_law [of "bt_tree ix" ?i] assms by (auto simp: tree_inv_def items_of_def)
  then have inv: "tree_inv ?ix" using assms(1) by (auto simp: tree_inv_def)
  have "item_entry j \<noteq> (key_raw k, rid)" if "j \<in> set (items (bt_tree ix))" "j \<noteq> ?i" for j
  proof
    assume e: "item_entry j = (key_raw k, rid)"
    have "bi_key j \<in> K" using that(1) sorted_law assms(1) by (auto simp: tree_inv_def items_of_def)
    then show False using key_space_eq(3) [OF keys _ assms(2)] that(2) e by (cases j) (auto simp: item_entry_def)
  qed
  then have "tree_entries ?ix = tree_entries ix - {(key_raw k, rid)}"
    unfolding tree_entries_def d(2) by (auto simp: item_entry_def)
  moreover have "BTree_DeleteEntry B self k rid None ix = Inr (None, ?ix)"
    using assms key_space_eq(6) [OF keys assms(2,2)] by (simp add: BTree_DeleteEntry_def tree_inv_def)
  ultimately show ?thesis using inv by blast
qed

lemma pivot_filter:
  assumes "tree_inv ix" "k \<in> K"
  shows "\<forall>i \<in> set (items (bt_tree ix)). \<exists>c. Key_Compare (bi_key i) k = Inr c \<and>
    (item_less i \<lparr>bi_key = k, bi_rid = zeroRID\<rparr> \<longleftrightarrow> c < 0) \<and> (c = 0 \<longleftrightarrow> bi_key i = k)"
proof
  fix i assume i: "i \<in> set (items (bt_tree ix))"
  then have ik: "bi_key i \<in> K" "i \<in> items_of K" using sorted_law assms(1) by (auto simp: tree_inv_def items_of_def)
  obtain c where c: "Key_Compare (bi_key i) k = Inr c" using kcmp.cmp_range [OF key_space_eq(1) [OF keys ik(1) assms(2)]] by blast
  show "\<exists>c. Key_Compare (bi_key i) k = Inr c \<and> (item_less i \<lparr>bi_key = k, bi_rid = zeroRID\<rparr> \<longleftrightarrow> c < 0) \<and> (c = 0 \<longleftrightarrow> bi_key i = k)"
    using c pivot_cut [OF keys ik(2) assms(2) _ c] key_space_eq(4) [OF keys ik(1) assms(2)] assms(1) i by (auto simp: tree_inv_def)
qed

lemma tree_scan:
  assumes "tree_inv ix" "k \<in> K"
  shows "\<exists>rids. BTree_ScanKey B k out ix = Inr (out @ rids) \<and> distinct rids \<and> set rids = {rid. (key_raw k, rid) \<in> tree_entries ix}"
proof -
  let ?xs = "items (bt_tree ix)" and ?p = "\<lparr>bi_key = k, bi_rid = zeroRID\<rparr>"
  have s: "sorted_wrt item_less ?xs" "set ?xs \<subseteq> items_of K" using sorted_law assms(1) by (auto simp: tree_inv_def)
  let ?ys = "filter (\<lambda>j. \<not> item_less j ?p) ?xs"
  note pf = pivot_filter [OF assms]
  have "sorted_wrt item_less ?ys" "set ?ys \<subseteq> items_of K" using s by (auto intro: sorted_wrt_filter)
  moreover have "\<forall>i \<in> set ?ys. \<exists>c \<ge> 0. Key_Compare (bi_key i) k = Inr c" using pf by fastforce
  ultimately have "takeWhile (\<lambda>i. Key_Equals (bi_key i) k) ?ys = filter (\<lambda>i. bi_key i = k) ?ys"
    by (rule takeWhile_key [OF keys assms(2)])
  also have "\<dots> = filter (\<lambda>i. bi_key i = k) ?xs" using pf by (auto intro!: filter_cong)
  finally have "BTree_ScanKey B k out ix = Inr (out @ map bi_rid (filter (\<lambda>i. bi_key i = k) ?xs))"
    using assms ascend_law [of "bt_tree ix" ?p] key_space_eq(6) [OF keys assms(2,2)]
    by (simp add: BTree_ScanKey_def tree_inv_def items_of_def Let_def)
  moreover have "distinct (map bi_rid (filter (\<lambda>i. bi_key i = k) ?xs))"
    using sorted_items_distinct [OF keys s] by (auto simp: distinct_map inj_on_def)
  moreover have "rid \<in> set (map bi_rid (filter (\<lambda>i. bi_key i = k) ?xs)) \<longleftrightarrow> (key_raw k, rid) \<in> tree_entries ix" for rid
  proof -
    have "\<lparr>bi_key = k, bi_rid = rid\<rparr> = i \<longleftrightarrow> bi_key i = k \<and> bi_rid i = rid" for i by (cases i) auto
    then have "\<lparr>bi_key = k, bi_rid = rid\<rparr> \<in> set ?xs \<longleftrightarrow> (\<exists>i \<in> set ?xs. bi_key i = k \<and> bi_rid i = rid)" by metis
    then show ?thesis unfolding entry_iff [OF assms] by auto
  qed
  ultimately show ?thesis by blast
qed

text \<open>What a range scan returns, from the position the iterator starts at.\<close>

lemma drain_forward:
  assumes "bit_direction it = ScanDirectionForward" "\<not> bit_firstCall it" "bit_hasMore it"
  shows "BTree_drain B n it = map item_entry (take n (drop (Suc (pos (bit_iter it))) (seq (bit_iter it))))"
  using assms
proof (induction n arbitrary: it)
  case (Suc n)
  obtain i' where i: "iter_Next B (bit_iter it) = (Suc (pos (bit_iter it)) < length (seq (bit_iter it)), i')"
      "seq i' = seq (bit_iter it)" "Suc (pos (bit_iter it)) < length (seq (bit_iter it)) \<longrightarrow> pos i' = Suc (pos (bit_iter it))"
    using next_law [of "bit_iter it"] by blast
  have u: "BTree_it_Next B it = (Suc (pos (bit_iter it)) < length (seq (bit_iter it)),
      it\<lparr>bit_iter := i', bit_hasMore := Suc (pos (bit_iter it)) < length (seq (bit_iter it))\<rparr>)"
    using Suc.prems i(1) by (simp add: BTree_it_Next_def)
  show ?case
  proof (cases "Suc (pos (bit_iter it)) < length (seq (bit_iter it))")
    case True
    then have "drop (Suc (pos (bit_iter it))) (seq (bit_iter it)) =
        seq i' ! pos i' # drop (Suc (pos i')) (seq i')" using i by (simp add: Cons_nth_drop_Suc)
    then show ?thesis using True u i Suc.prems item_law [of i'] Suc.IH [of "it\<lparr>bit_iter := i', bit_hasMore := True\<rparr>"]
      by (simp add: BTree_it_Key_def BTree_it_Value_def item_entry_def)
  qed (simp add: u)
qed simp

lemma drain_start:
  assumes "bit_firstCall it" "bit_hasMore it" "pos (bit_iter it) < length (seq (bit_iter it))"
  shows "BTree_drain B (Suc n) it = item_entry (seq (bit_iter it) ! pos (bit_iter it)) # BTree_drain B n (it\<lparr>bit_firstCall := False\<rparr>)"
  using assms item_law by (simp add: BTree_it_Next_def BTree_it_Key_def BTree_it_Value_def item_entry_def)

lemma drain_forward_start:
  assumes "bit_direction it = ScanDirectionForward" "bit_firstCall it" "bit_hasMore it \<longleftrightarrow> pos (bit_iter it) < length (seq (bit_iter it))"
  shows "BTree_drain B n it = map item_entry (take n (drop (pos (bit_iter it)) (seq (bit_iter it))))"
proof (cases n)
  case (Suc m)
  show ?thesis
  proof (cases "bit_hasMore it")
    case True
    then show ?thesis using assms drain_start [of it m] drain_forward [of "it\<lparr>bit_firstCall := False\<rparr>" m] Suc
      by (simp add: Cons_nth_drop_Suc [symmetric])
  qed (use assms Suc in \<open>simp add: BTree_it_Next_def\<close>)
qed simp

lemma tree_range:
  assumes "tree_inv ix" "k \<in> K"
  shows "\<exists>it. BTree_Scan B k ScanDirectionForward ix = Inr it \<and>
    BTree_drain B n it = take n (map item_entry (filter (\<lambda>i. \<exists>c \<ge> 0. Key_Compare (bi_key i) k = Inr c) (items (bt_tree ix))))"
proof -
  let ?xs = "items (bt_tree ix)" and ?p = "\<lparr>bi_key = k, bi_rid = zeroRID\<rparr>"
  have okt: "ok (bt_tree ix)" and pk: "?p \<in> items_of K" using assms by (auto simp: tree_inv_def items_of_def)
  have s: "sorted_wrt item_less ?xs" "set ?xs \<subseteq> items_of K" using sorted_law okt by auto
  obtain i' where i': "seq i' = ?xs" "pos i' = length (filter (\<lambda>j. item_less j ?p) ?xs)"
      "iter_Seek B ?p (bt_Iter B (bt_tree ix)) = (pos i' < length ?xs, i')" using seek_law [OF okt pk] by blast
  let ?it = "\<lparr>bit_iter = i', bit_direction = ScanDirectionForward, bit_firstCall = True, bit_hasMore = pos i' < length ?xs\<rparr>"
  have "BTree_Scan B k ScanDirectionForward ix = Inr ?it"
    using assms i'(3) key_space_eq(5,6) [OF keys assms(2,2)] by (simp add: BTree_Scan_def tree_inv_def)
  moreover have "sorted_wrt (\<lambda>x y. item_less y ?p \<longrightarrow> item_less x ?p) ?xs"
    using s item_less_order(2) [OF keys _ _ pk] by (auto intro!: sorted_wrt_mono_rel [OF _ s(1)])
  then have "drop (pos i') ?xs = filter (\<lambda>j. \<not> item_less j ?p) ?xs" unfolding i'(2) by (rule drop_prefix)
  moreover have "filter (\<lambda>j. \<not> item_less j ?p) ?xs = filter (\<lambda>i. \<exists>c \<ge> 0. Key_Compare (bi_key i) k = Inr c) ?xs"
    using pivot_filter [OF assms] by (intro filter_cong) fastforce+
  ultimately show ?thesis using drain_forward_start [of ?it n] i'(1) by (simp add: take_map)
qed

lemma new_index: "tree_inv (NewMemBTreeIndex B (KeySchema md) (ProjectionList md))"
  "tree_entries (NewMemBTreeIndex B (KeySchema md) (ProjectionList md)) = {}"
  by (simp_all add: NewMemBTreeIndex_def tree_inv_def tree_entries_def new_law)

end

sublocale ordered_tree \<subseteq> tree: entry_index tree_inv tree_entries K "{rid. valid_rid rid}"
  "BTree_InsertEntry B self" "BTree_DeleteEntry B self" "BTree_ScanKey B"
  using tree_insert tree_delete tree_scan by unfold_locales auto

context ordered_tree
begin

lemma ops_lookup:
  assumes "legal_ops K {rid. valid_rid rid} {} ops" "k \<in> K"
  shows "\<exists>ix rids. foldR (run_op (BTree_InsertEntry B self) (BTree_DeleteEntry B self)) ops
      (NewMemBTreeIndex B (KeySchema md) (ProjectionList md)) = Inr ix \<and>
    BTree_ScanKey B k [] ix = Inr rids \<and> distinct rids \<and> set rids = {rid. (key_raw k, rid) \<in> foldl spec_op {} ops}"
  using tree.ops_then_scan [OF new_index(1), of ops k self "[]"] assms by (simp add: new_index(2))

lemma card_spec: "finite (foldl spec_op es ops)" "card (foldl spec_op es ops) \<le> card es + length ops" if "finite es" for es
proof -
  have s: "finite (spec_op e op) \<and> card (spec_op e op) \<le> Suc (card e)" if "finite e" for e op
    using that by (auto simp: spec_op_def card_insert_if card_Diff_singleton_if le_diff_conv split: index_op.splits)
  have "finite (foldl spec_op es ops) \<and> card (foldl spec_op es ops) \<le> card es + length ops" using that
  proof (induction ops arbitrary: es)
    case (Cons op ops)
    then have "finite (spec_op es op)" "card (spec_op es op) \<le> Suc (card es)" using s by auto
    then show ?case using Cons.IH [of "spec_op es op"] by simp
  qed simp
  then show "finite (foldl spec_op es ops)" "card (foldl spec_op es ops) \<le> card es + length ops" by auto
qed

lemma ops_range:
  assumes "legal_ops K {rid. valid_rid rid} {} ops" "k \<in> K" "length ops \<le> n"
  shows "\<exists>ix it es. foldR (run_op (BTree_InsertEntry B self) (BTree_DeleteEntry B self)) ops
      (NewMemBTreeIndex B (KeySchema md) (ProjectionList md)) = Inr ix \<and>
    BTree_Scan B k ScanDirectionForward ix = Inr it \<and> BTree_drain B n it = es \<and> distinct es \<and>
    set es = {e \<in> foldl spec_op {} ops. \<exists>c \<ge> 0. Key_Compare (NewKey (fst e) (Some (KeySchema md))) k = Inr c} \<and>
    sorted_wrt (\<lambda>e e'. \<exists>c \<le> 0. Key_Compare (NewKey (fst e) (Some (KeySchema md))) (NewKey (fst e') (Some (KeySchema md))) = Inr c) es"
proof -
  obtain ix where ix: "foldR (run_op (BTree_InsertEntry B self) (BTree_DeleteEntry B self)) ops
      (NewMemBTreeIndex B (KeySchema md) (ProjectionList md)) = Inr ix" "tree_inv ix" "tree_entries ix = foldl spec_op {} ops"
    using tree.ops_refine [OF new_index(1), of ops self] assms(1) by (auto simp: new_index(2))
  let ?xs = "items (bt_tree ix)" and ?P = "\<lambda>i. \<exists>c \<ge> 0. Key_Compare (bi_key i) k = Inr c"
  have s: "sorted_wrt item_less ?xs" "set ?xs \<subseteq> items_of K" using sorted_law ix(2) by (auto simp: tree_inv_def)
  have key: "NewKey (fst (item_entry i)) (Some (KeySchema md)) = bi_key i" if "i \<in> set ?xs" for i
    using that s(2) key_space_eq(6) [OF keys, of "bi_key i" "bi_key i"] by (auto simp: item_entry_def NewKey_def items_of_def)
  have inj: "inj_on item_entry (set ?xs)"
    using key by (intro inj_onI) (metis btreeItem.equality item_entry_def old.unit.exhaust snd_conv)
  have d: "distinct ?xs" by (rule sorted_items_distinct [OF keys s])
  have "length ?xs = card (tree_entries ix)"
    using distinct_card [OF d] card_image [OF inj] by (simp add: tree_entries_def)
  then have n: "length ?xs \<le> n" using card_spec(2) [of "{}" ops] assms(3) by (simp add: ix(3))
  obtain it where it: "BTree_Scan B k ScanDirectionForward ix = Inr it"
      "BTree_drain B n it = take n (map item_entry (filter ?P ?xs))" using tree_range [OF ix(2) assms(2)] by blast
  let ?es = "map item_entry (filter ?P ?xs)"
  have "length (filter ?P ?xs) \<le> n" using n length_filter_le order_trans by blast
  then have drained: "BTree_drain B n it = ?es" using it(2) by simp
  moreover have "distinct ?es" using d inj by (auto simp: distinct_map inj_on_def)
  moreover have "set ?es = {e \<in> foldl spec_op {} ops. \<exists>c \<ge> 0. Key_Compare (NewKey (fst e) (Some (KeySchema md))) k = Inr c}"
    using key by (auto simp: ix(3) [symmetric] tree_entries_def)
  moreover have "\<exists>c \<le> 0. Key_Compare (bi_key x) (bi_key y) = Inr c" if "item_less x y" for x y
    using that by (auto simp: item_less_def split: sum.splits if_splits)
  then have "sorted_wrt (\<lambda>e e'. \<exists>c \<le> 0. Key_Compare (NewKey (fst e) (Some (KeySchema md))) (NewKey (fst e') (Some (KeySchema md))) = Inr c) ?es"
    using key by (auto simp: sorted_wrt_map intro!: sorted_wrt_mono_rel [OF _ sorted_wrt_filter [OF s(1)]])
  ultimately show ?thesis using ix(1) it(1) by (intro exI [of _ ix] exI [of _ it] exI [of _ ?es] conjI)
qed

end

section \<open>A tree that has the contract\<close>

text \<open>The tree as a sorted list with its order, and an iterator as a list with a position.\<close>

type_synonym item_order = "btreeItem \<Rightarrow> btreeItem \<Rightarrow> bool"

definition list_tree :: "(item_order \<times> btreeItem list, btreeItem list \<times> nat \<times> item_order) BTreeG" where
  "list_tree =
     \<lparr>NewBTreeG = (\<lambda>less. (less, [])),
      bt_Set = (\<lambda>i (less, xs). (less, filter (\<lambda>j. less j i) xs @ i # filter (less i) xs)),
      bt_Delete = (\<lambda>i (less, xs). (less, filter (\<lambda>j. less j i \<or> less i j) xs)),
      bt_Get = (\<lambda>i (less, xs). find (\<lambda>j. \<not> less j i \<and> \<not> less i j) xs),
      bt_Ascend = (\<lambda>i (less, xs). filter (\<lambda>j. \<not> less j i) xs),
      bt_Iter = (\<lambda>(less, xs). (xs, 0, less)),
      iter_Seek = (\<lambda>i (xs, _, less). let n = length (filter (\<lambda>j. less j i) xs) in (n < length xs, (xs, n, less))),
      iter_First = (\<lambda>(xs, _, less). (xs \<noteq> [], (xs, 0, less))),
      iter_Last = (\<lambda>(xs, _, less). (xs \<noteq> [], (xs, length xs - 1, less))),
      iter_Next = (\<lambda>(xs, p, less). (Suc p < length xs, (xs, Suc p, less))),
      iter_Prev = (\<lambda>(xs, p, less). (0 < p, (xs, p - 1, less))),
      iter_Item = (\<lambda>(xs, p, _). xs ! p)\<rparr>"

definition list_ok :: "Key set \<Rightarrow> item_order \<times> btreeItem list \<Rightarrow> bool" where
  "list_ok K t \<longleftrightarrow> fst t = item_less \<and> sorted_wrt item_less (snd t) \<and> set (snd t) \<subseteq> items_of K"

locale key_world =
  fixes md :: IndexMetadata and K :: "Key set"
  assumes key_world: "key_space md K"

sublocale key_world \<subseteq> listed: ordered_tree list_tree md K "list_ok K" snd fst "\<lambda>it. fst (snd it)"
proof
  fix t i
  assume t: "list_ok K t" and i: "i \<in> items_of K"
  obtain xs where t': "t = (item_less, xs)" "sorted_wrt item_less xs" "set xs \<subseteq> items_of K" using t by (cases t) (auto simp: list_ok_def)
  have neq: "item_less j i \<or> item_less i j \<longleftrightarrow> j \<noteq> i" if "j \<in> set xs" for j
    using item_less_order(1,3) [OF key_world, of j i] that i t'(3) by auto
  have e: "set (snd (bt_Set list_tree i t)) = insert i (set (snd t))" using neq by (auto simp: list_tree_def t'(1))
  have "item_less a b" if "a \<in> set xs" "b \<in> set xs" "item_less a i" "item_less i b" for a b
    using item_less_order(2) [OF key_world, of a i b] that i t'(3) by blast
  then have "sorted_wrt item_less (snd (bt_Set list_tree i t))"
    by (auto simp: list_tree_def t'(1) sorted_wrt_append intro: sorted_wrt_filter t'(2))
  then show "list_ok K (bt_Set list_tree i t) \<and> set (snd (bt_Set list_tree i t)) = insert i (set (snd t))"
    using e i t'(3) by (auto simp: list_ok_def t'(1)) (simp add: list_tree_def)
  have d: "snd (bt_Delete list_tree i t) = filter (\<lambda>j. j \<noteq> i) xs" using neq by (auto simp: list_tree_def t'(1) intro!: filter_cong)
  then show "list_ok K (bt_Delete list_tree i t) \<and> set (snd (bt_Delete list_tree i t)) = set (snd t) - {i}"
    using t' by (auto simp: list_ok_def intro: sorted_wrt_filter) (simp add: list_tree_def)
  have "find (\<lambda>j. \<not> item_less j i \<and> \<not> item_less i j) ys = (if i \<in> set ys then Some i else None)" if "set ys \<subseteq> set xs" for ys
    using that neq by (induction ys) auto
  then show "bt_Get list_tree i t = (if i \<in> set (snd t) then Some i else None)" by (simp add: list_tree_def t'(1))
  show "bt_Ascend list_tree i t = filter (\<lambda>j. \<not> item_less j i) (snd t)" by (simp add: list_tree_def t'(1))
  show "\<exists>it'. fst it' = snd t \<and> fst (snd it') = length (filter (\<lambda>j. item_less j i) (snd t)) \<and>
      iter_Seek list_tree i (bt_Iter list_tree t) = (fst (snd it') < length (snd t), it')"
    by (simp add: list_tree_def t'(1) Let_def)
qed (auto simp: key_world list_tree_def list_ok_def split: prod.splits)

lemma int_key_values: "key_values (int_key w) = [(zeroValue IntType)\<lparr>val_int := w, val_null := (w = MinInt64)\<rparr>]"
  by (simp add: key_values_def int_key_def sample_desc_def RawTupleDesc_NumColumns_def RawTupleDesc_GetValue_def nth_checked_def
      from_checked_def AsValue_def slice_checked_def slice_def)

lemma int_keys_space: "key_space int_md (range int_key)"
proof -
  have wf: "wf_desc sample_desc" by code_simp
  then have s: "same_key (int_key v) (int_key w)" for v w unfolding same_key_def using int_key_of by (metis IndexMetadata.simps(1) int_md_def)
  have "v = w" if "Key_Compare (int_key v) (int_key w) = Inr 0" for v w
    using that signed_word_eqI [of v w] unfolding Key_Compare_lex(1) [OF s]
    by (auto simp: int_key_values Value_Compare_def zeroValue_def Assert_def split: if_splits)
  then show ?thesis using wf int_key_of by (auto simp: key_space_def int_md_def)
qed

interpretation ints: key_world int_md "range int_key"
  using int_keys_space by unfold_locales

section \<open>Properties\<close>

text \<open>
  C34: The ordered index refines a set of entries.  Over a tree that keeps its contract, any
  sequence of insertions of new entries and of deletions outside a transaction, on an index made by \<^verbatim>\<open>NewMemBTreeIndex\<close>, succeeds, and a lookup then
  returns each record id stored under its key exactly once.
\<close>

theorem btree_index_refines:
  assumes "ordered_tree B md K ok items seq pos" "legal_ops K {rid. valid_rid rid} {} ops" "k \<in> K"
  shows "\<exists>ix rids. foldR (run_op (BTree_InsertEntry B self) (BTree_DeleteEntry B self)) ops
      (NewMemBTreeIndex B (KeySchema md) (ProjectionList md)) = Inr ix \<and>
    BTree_ScanKey B k [] ix = Inr rids \<and> distinct rids \<and> set rids = {rid. (key_raw k, rid) \<in> foldl spec_op {} ops}"
  using assms(2,3) by (rule ordered_tree.ops_lookup [OF assms(1)])

definition tree_rid :: "32 word \<Rightarrow> RecordID" where
  "tree_rid n = RecordID (PageID 1 0) n"

lemma tree_rid_valid: "valid_rid (tree_rid n)"
  by (simp add: valid_rid_def rid_less_def tree_rid_def zeroRID_def)

theorem btree_index_refines_witness:
  "\<exists>ix rids. foldR (run_op (BTree_InsertEntry list_tree 0) (BTree_DeleteEntry list_tree 0))
      [Put (int_key 5) (tree_rid 0), Put (int_key 5) (tree_rid 1), Remove (int_key 5) (tree_rid 0)]
      (NewMemBTreeIndex list_tree (KeySchema int_md) (ProjectionList int_md)) = Inr ix \<and>
    BTree_ScanKey list_tree (int_key 5) [] ix = Inr rids \<and> set rids = {tree_rid 1}"
proof -
  have "legal_ops (range int_key) {rid. valid_rid rid} {}
      [Put (int_key 5) (tree_rid 0), Put (int_key 5) (tree_rid 1), Remove (int_key 5) (tree_rid 0)]"
    using tree_rid_valid by (simp add: spec_op_def) (simp add: tree_rid_def)
  from btree_index_refines [OF ints.listed.ordered_tree_axioms this, of "int_key 5" 0]
  show ?thesis by (auto simp: spec_op_def tree_rid_def)
qed

text \<open>
  A forward range scan returns the entries whose key is at least the starting key, each
  once, in the order of their keys.
\<close>

theorem btree_range_scan:
  assumes "ordered_tree B md K ok items seq pos" "legal_ops K {rid. valid_rid rid} {} ops" "k \<in> K" "length ops \<le> n"
  shows "\<exists>ix it es. foldR (run_op (BTree_InsertEntry B self) (BTree_DeleteEntry B self)) ops
      (NewMemBTreeIndex B (KeySchema md) (ProjectionList md)) = Inr ix \<and>
    BTree_Scan B k ScanDirectionForward ix = Inr it \<and> BTree_drain B n it = es \<and> distinct es \<and>
    set es = {e \<in> foldl spec_op {} ops. \<exists>c \<ge> 0. Key_Compare (NewKey (fst e) (Some (KeySchema md))) k = Inr c} \<and>
    sorted_wrt (\<lambda>e e'. \<exists>c \<le> 0. Key_Compare (NewKey (fst e) (Some (KeySchema md))) (NewKey (fst e') (Some (KeySchema md))) = Inr c) es"
  using assms(2-4) by (rule ordered_tree.ops_range [OF assms(1)])

theorem btree_range_scan_witness:
  "\<exists>ix it es. foldR (run_op (BTree_InsertEntry list_tree 0) (BTree_DeleteEntry list_tree 0))
      [Put (int_key 5) (tree_rid 0), Put (int_key 5) (tree_rid 1)]
      (NewMemBTreeIndex list_tree (KeySchema int_md) (ProjectionList int_md)) = Inr ix \<and>
    BTree_Scan list_tree (int_key 5) ScanDirectionForward ix = Inr it \<and> BTree_drain list_tree 2 it = es \<and> distinct es"
proof -
  have "legal_ops (range int_key) {rid. valid_rid rid} {} [Put (int_key 5) (tree_rid 0), Put (int_key 5) (tree_rid 1)]"
    using tree_rid_valid by (simp add: spec_op_def) (simp add: tree_rid_def)
  from btree_range_scan [OF ints.listed.ordered_tree_axioms this, of "int_key 5" 2 0] show ?thesis by auto
qed

text \<open>
  A backward scan from a key that has several entries starts at the first of them, not at
  the last entry whose key is at most the starting key: with record ids 0 and 1 under key 5,
  the scan backward from key 5 returns only record id 0.
\<close>

theorem btree_backward_scan_misses_entries:
  "(case foldR (run_op (BTree_InsertEntry list_tree 0) (BTree_DeleteEntry list_tree 0))
      [Put (int_key 5) (tree_rid 0), Put (int_key 5) (tree_rid 1)]
      (NewMemBTreeIndex list_tree (KeySchema int_md) (ProjectionList int_md)) of
     Inl e \<Rightarrow> Inl e
   | Inr ix \<Rightarrow> bindR (BTree_Scan list_tree (int_key 5) ScanDirectionBackward ix) (\<lambda>it.
       bindR (BTree_ScanKey list_tree (int_key 5) [] ix) (\<lambda>rids. Inr (BTree_drain list_tree 3 it, rids)))) =
   Inr ([(key_raw (int_key 5), tree_rid 0)], [tree_rid 0, tree_rid 1])"
  by code_simp

end
