(* ===== verification/Index_Manager.thy ===== *)
theory Index_Manager
  imports Catalog Mem_Hash_Index Mem_BTree_Index
begin

text \<open>
  The index manager (\<^verbatim>\<open>indexing/index_manager.go\<close>): one empty index structure for every
  index of the catalog.  The interface \<^verbatim>\<open>Index\<close> is the sum of its two implementations, its
  methods dispatch on it.
\<close>

section \<open>State\<close>

datatype ('m, 't) Index = HashIndex "'m MemHashIndex" | BTreeIndex "'t MemBTreeIndex"

fun Metadata :: "('m, 't) Index \<Rightarrow> IndexMetadata" where
  "Metadata (HashIndex h) = hi_metadata h"
| "Metadata (BTreeIndex b) = bt_metadata b"

fun Index_InsertEntry :: "'m MapOf \<Rightarrow> ('t, 'i) BTreeG \<Rightarrow> nat \<Rightarrow> Key \<Rightarrow> RecordID \<Rightarrow> TransactionContext option \<Rightarrow> ('m, 't) Index \<Rightarrow>
    (TransactionContext option \<times> ('m, 't) Index) res" where
  "Index_InsertEntry M B self key rid txn (HashIndex h) =
     bindR (Hash_InsertEntry M self key rid txn h) (\<lambda>(txn', h'). Inr (txn', HashIndex h'))"
| "Index_InsertEntry M B self key rid txn (BTreeIndex b) =
     bindR (BTree_InsertEntry B self key rid txn b) (\<lambda>(txn', b'). Inr (txn', BTreeIndex b'))"

fun Index_DeleteEntry :: "'m MapOf \<Rightarrow> ('t, 'i) BTreeG \<Rightarrow> nat \<Rightarrow> Key \<Rightarrow> RecordID \<Rightarrow> TransactionContext option \<Rightarrow> ('m, 't) Index \<Rightarrow>
    (TransactionContext option \<times> ('m, 't) Index) res" where
  "Index_DeleteEntry M B self key rid txn (HashIndex h) =
     bindR (Hash_DeleteEntry M self key rid txn h) (\<lambda>(txn', h'). Inr (txn', HashIndex h'))"
| "Index_DeleteEntry M B self key rid txn (BTreeIndex b) =
     bindR (BTree_DeleteEntry B self key rid txn b) (\<lambda>(txn', b'). Inr (txn', BTreeIndex b'))"

fun Index_ScanKey :: "'m MapOf \<Rightarrow> ('t, 'i) BTreeG \<Rightarrow> Key \<Rightarrow> RecordID list \<Rightarrow> ('m, 't) Index \<Rightarrow> RecordID list res" where
  "Index_ScanKey M B key out (HashIndex h) = Hash_ScanKey M key out h"
| "Index_ScanKey M B key out (BTreeIndex b) = BTree_ScanKey B key out b"

type_synonym ('m, 't) IndexManager = "ObjectID \<rightharpoonup> ('m, 't) Index"

section \<open>Operations\<close>

definition nameMap :: "Column list \<Rightarrow> string \<rightharpoonup> nat" where
  "nameMap cols = fold (\<lambda>(i, col) m. m(col_Name col \<mapsto> i)) (enumerate 0 cols) Map.empty"

definition key_indices :: "Table \<Rightarrow> string list \<Rightarrow> nat list res" where
  "key_indices table names =
     mapR (\<lambda>name. case nameMap (tb_Columns table) name of
        None \<Rightarrow> Inl (OtherError ''column in index definition does not exist in table'')
      | Some idx \<Rightarrow> Inr idx) names"

definition new_index :: "'m MapOf \<Rightarrow> ('t, 'i) BTreeG \<Rightarrow> Table \<Rightarrow> IndexDef \<Rightarrow> ('m, 't) Index res" where
  "new_index M B table i =
     bindR (key_indices table (ix_KeySchema i)) (\<lambda>indices.
     bindR (NewRawTupleDesc (map (\<lambda>colIdx. col_Type (tb_Columns table ! colIdx)) indices)) (\<lambda>keySchema.
     if ix_Type i = ''hash'' then Inr (HashIndex (NewMemHashIndex M keySchema indices))
     else if ix_Type i = ''btree'' then Inr (BTreeIndex (NewMemBTreeIndex B keySchema indices))
     else Inl (OtherError ''unsupported index type'')))"

definition NewIndexManager :: "'m MapOf \<Rightarrow> ('t, 'i) BTreeG \<Rightarrow> 'p Catalog \<Rightarrow> ('m, 't) IndexManager res" where
  "NewIndexManager M B c =
     foldR (\<lambda>table im. foldR (\<lambda>i im. bindR (new_index M B table i) (\<lambda>idx. Inr (im(ix_Oid i \<mapsto> idx)))) (tb_Indexes table) im)
       (Tables (cat_state c)) Map.empty"

definition GetIndex :: "ObjectID \<Rightarrow> ('m, 't) IndexManager \<Rightarrow> ('m, 't) Index res" where
  "GetIndex oid im = (case im oid of Some idx \<Rightarrow> Inr idx | None \<Rightarrow> Inl (OtherError ''object not found''))"

section \<open>Every index of the catalog gets its structure\<close>

lemma nameMap_snoc: "nameMap (cols @ [c]) = (nameMap cols)(col_Name c \<mapsto> length cols)"
  by (simp add: nameMap_def enumerate_append_eq)

lemma nameMap_lookup:
  "nameMap cols n = Some i \<Longrightarrow> i < length cols \<and> col_Name (cols ! i) = n"
  "nameMap cols n = None \<longleftrightarrow> n \<notin> col_Name ` set cols"
proof (induction cols rule: rev_induct)
  case (snoc c cols)
  { case 1 then show ?case using snoc.IH(1) by (fastforce simp: nameMap_snoc nth_append split: if_splits) }
  { case 2 then show ?case using snoc.IH(2) by (auto simp: nameMap_snoc) }
qed (auto simp: nameMap_def)

text \<open>Which definitions \<^verbatim>\<open>NewIndexManager\<close> accepts.\<close>

definition index_def_ok :: "Table \<Rightarrow> IndexDef \<Rightarrow> bool" where
  "index_def_ok t i \<longleftrightarrow> set (ix_KeySchema i) \<subseteq> col_Name ` set (tb_Columns t) \<and> (\<forall>c \<in> set (tb_Columns t). col_Type c \<noteq> DefaultType) \<and>
     StringLength * length (ix_KeySchema i) \<le> PageSize - 32 \<and> ix_Type i \<in> {''hash'', ''btree''}"

text \<open>The structure belongs to the definition: its columns have the names of the definition, and its key schema has their types.\<close>

definition index_matches :: "Table \<Rightarrow> IndexDef \<Rightarrow> ('m, 't) Index \<Rightarrow> bool" where
  "index_matches t i ix \<longleftrightarrow>
     list_all2 (\<lambda>n p. p < length (tb_Columns t) \<and> col_Name (tb_Columns t ! p) = n) (ix_KeySchema i) (ProjectionList (Metadata ix)) \<and>
     NewRawTupleDesc (map (\<lambda>p. col_Type (tb_Columns t ! p)) (ProjectionList (Metadata ix))) = Inr (KeySchema (Metadata ix)) \<and>
     (case ix of HashIndex _ \<Rightarrow> ix_Type i = ''hash'' | BTreeIndex _ \<Rightarrow> ix_Type i = ''btree'')"

lemma key_indices_ok:
  assumes "set ns \<subseteq> col_Name ` set (tb_Columns t)"
  obtains ps where "key_indices t ns = Inr ps" "list_all2 (\<lambda>n p. p < length (tb_Columns t) \<and> col_Name (tb_Columns t ! p) = n) ns ps"
  using assms
proof (induction ns arbitrary: thesis)
  case (Cons n ns)
  obtain ps where ps: "key_indices t ns = Inr ps" "list_all2 (\<lambda>n p. p < length (tb_Columns t) \<and> col_Name (tb_Columns t ! p) = n) ns ps"
    using Cons.IH Cons.prems(2) by auto
  obtain p where p: "nameMap (tb_Columns t) n = Some p" using nameMap_lookup(2) [of "tb_Columns t" n] Cons.prems(2) by auto
  then show ?case using Cons.prems(1) [of "p # ps"] ps nameMap_lookup(1) [OF p] by (simp add: key_indices_def)
qed (simp add: key_indices_def)

lemma new_index_ok:
  assumes "index_def_ok t i"
  obtains ix where "new_index M B t i = Inr ix" "index_matches t i ix"
proof -
  obtain ps where ps: "key_indices t (ix_KeySchema i) = Inr ps"
      "list_all2 (\<lambda>n p. p < length (tb_Columns t) \<and> col_Name (tb_Columns t ! p) = n) (ix_KeySchema i) ps"
    using assms by (auto simp: index_def_ok_def elim: key_indices_ok)
  have "DefaultType \<notin> set (map (\<lambda>p. col_Type (tb_Columns t ! p)) ps)"
    using ps(2) assms by (auto simp: index_def_ok_def list_all2_conv_all_nth in_set_conv_nth) (metis nth_mem)+
  moreover have "total_size fs \<le> StringLength * length fs" for fs
    by (induction fs) (auto simp: type_size_def StringLength_def IntSize_def split: gtype.splits)
  then have "total_size (map (\<lambda>p. col_Type (tb_Columns t ! p)) ps) \<le> PageSize - 32"
    using assms list_all2_lengthD [OF ps(2)] by (metis index_def_ok_def length_map order_trans)
  ultimately obtain d where d: "NewRawTupleDesc (map (\<lambda>p. col_Type (tb_Columns t ! p)) ps) = Inr d" using NewRawTupleDesc_eq by blast
  consider "ix_Type i = ''hash''" | "ix_Type i = ''btree''" using assms by (auto simp: index_def_ok_def)
  then show thesis
    by cases (use that [of "HashIndex (NewMemHashIndex M d ps)"] that [of "BTreeIndex (NewMemBTreeIndex B d ps)"] ps d in
      \<open>simp_all add: new_index_def index_matches_def NewMemHashIndex_def NewMemBTreeIndex_def comp_def\<close>)
qed

lemma foldR_indexes:
  assumes "\<forall>(t, i) \<in> set ds. index_def_ok t i" "distinct (map (ix_Oid \<circ> snd) ds)" "\<forall>(t, i) \<in> set ds. im (ix_Oid i) = None"
  obtains im' where "foldR (\<lambda>(t, i) im. bindR (new_index M B t i) (\<lambda>idx. Inr (im(ix_Oid i \<mapsto> idx)))) ds im = Inr im'"
    "\<forall>(t, i) \<in> set ds. \<exists>ix. im' (ix_Oid i) = Some ix \<and> index_matches t i ix"
    "\<forall>oid. oid \<notin> (ix_Oid \<circ> snd) ` set ds \<longrightarrow> im' oid = im oid"
  using assms
proof (induction ds arbitrary: im thesis)
  case (Cons d ds)
  obtain t i where d: "d = (t, i)" by fastforce
  obtain ix where ix: "new_index M B t i = Inr ix" "index_matches t i ix" using new_index_ok [of t i M B] Cons.prems(2) d by auto
  have rest: "\<forall>(u, j) \<in> set ds. index_def_ok u j" "distinct (map (ix_Oid \<circ> snd) ds)" "\<forall>(u, j) \<in> set ds. (im(ix_Oid i \<mapsto> ix)) (ix_Oid j) = None" using Cons.prems(2-4) d by (auto simp: image_iff comp_def)
  obtain im' where im': "foldR (\<lambda>(t, i) im. bindR (new_index M B t i) (\<lambda>idx. Inr (im(ix_Oid i \<mapsto> idx)))) ds (im(ix_Oid i \<mapsto> ix)) = Inr im'"
      "\<forall>(t, i) \<in> set ds. \<exists>ix. im' (ix_Oid i) = Some ix \<and> index_matches t i ix"
      "\<forall>oid. oid \<notin> (ix_Oid \<circ> snd) ` set ds \<longrightarrow> im' oid = (im(ix_Oid i \<mapsto> ix)) oid"
    by (rule Cons.IH [OF _ rest])
  have f: "foldR (\<lambda>(t, i) im. bindR (new_index M B t i) (\<lambda>idx. Inr (im(ix_Oid i \<mapsto> idx)))) (d # ds) im = Inr im'"
    using im'(1) by (simp add: d ix(1))
  have "im' (ix_Oid i) = Some ix" using im'(3) Cons.prems(3) d by auto
  then show ?case using im'(2,3) ix d by (intro Cons.prems(1) [OF f]) auto
next
  case Nil
  show ?case by (rule Nil.prems(1) [of im]) simp_all
qed

definition index_defs :: "Table list \<Rightarrow> (Table \<times> IndexDef) list" where
  "index_defs ts = concat (map (\<lambda>t. map (Pair t) (tb_Indexes t)) ts)"

lemma foldR_nested:
  "foldR (\<lambda>t im. foldR (\<lambda>i im. f t i im) (tb_Indexes t) im) ts im = foldR (\<lambda>(t, i). f t i) (index_defs ts) im"
proof -
  have pair: "foldR (\<lambda>(t, i). f t i) (map (Pair t) is) s = foldR (f t) is s" for t "is" s
    by (induction "is" arbitrary: s) (auto simp: bindR_def split: sum.splits)
  show ?thesis by (induction ts arbitrary: im) (auto simp: index_defs_def foldR_append pair bindR_def split: sum.splits)
qed

section \<open>Properties\<close>

text \<open>
  For a consistent catalog whose index definitions name existing, typed columns and a known
  kind of index, the index manager is built, and looking up the object id of any index of any
  table returns a structure of the right kind whose columns have the names and the types the
  definition gives.
\<close>

theorem index_manager_complete:
  assumes "catalog_ok c" "\<forall>t \<in> set (Tables (cat_state c)). \<forall>i \<in> set (tb_Indexes t). index_def_ok t i"
  shows "\<exists>im. NewIndexManager M B c = Inr im \<and>
    (\<forall>t \<in> set (Tables (cat_state c)). \<forall>i \<in> set (tb_Indexes t). \<exists>ix. GetIndex (ix_Oid i) im = Inr ix \<and> index_matches t i ix)"
proof -
  let ?ds = "index_defs (Tables (cat_state c))"
  have "map (ix_Oid \<circ> snd) ?ds = concat (map (\<lambda>t. map ix_Oid (tb_Indexes t)) (Tables (cat_state c)))"
    by (simp add: index_defs_def map_concat comp_def)
  then have di: "distinct (map (ix_Oid \<circ> snd) ?ds)" using assms(1) by (simp add: catalog_ok_def oids_def)
  have ok: "\<forall>(t, i) \<in> set ?ds. index_def_ok t i" using assms(2) by (auto simp: index_defs_def)
  obtain im where im: "foldR (\<lambda>(t, i) im. bindR (new_index M B t i) (\<lambda>idx. Inr (im(ix_Oid i \<mapsto> idx)))) ?ds Map.empty = Inr im"
      "\<forall>(t, i) \<in> set ?ds. \<exists>ix. im (ix_Oid i) = Some ix \<and> index_matches t i ix"
    by (rule foldR_indexes [OF ok di, of Map.empty M B]) (simp, rule that)
  have "NewIndexManager M B c = Inr im" using im(1) by (simp add: NewIndexManager_def foldR_nested)
  moreover have "\<exists>ix. GetIndex (ix_Oid i) im = Inr ix \<and> index_matches t i ix"
    if "t \<in> set (Tables (cat_state c))" "i \<in> set (tb_Indexes t)" for t i
    using im(2) that by (force simp: index_defs_def GetIndex_def)
  ultimately show ?thesis by blast
qed

definition demo_catalog :: "unit Catalog" where
  "demo_catalog =
     (let c = projr (NewCatalog (\<lambda>_ :: unit. Inl (OtherError ''no codec'')) NullPersistenceProvider ());
          c1 = snd (AddTable (\<lambda>_. Inr ()) NullPersistenceProvider ''t'' [\<lparr>col_Name = ''a'', col_Type = IntType\<rparr>, \<lparr>col_Name = ''b'', col_Type = StringType\<rparr>] c)
      in snd (AddIndex (\<lambda>_. Inr ()) NullPersistenceProvider ''i'' ''t'' ''btree'' [''b''] c1))"

theorem index_manager_complete_witness:
  "\<exists>im ix. NewIndexManager plain_map list_tree demo_catalog = Inr im \<and> GetIndex 2 im = Inr ix \<and> ProjectionList (Metadata ix) = [1]"
proof -
  let ?cols = "[\<lparr>col_Name = ''a'', col_Type = IntType\<rparr>, \<lparr>col_Name = ''b'', col_Type = StringType\<rparr>]"
  let ?i = "\<lparr>ix_Oid = 2, ix_TableOid = 1, ix_Name = ''i'', ix_Type = ''btree'', ix_KeySchema = [''b'']\<rparr>"
  let ?t = "\<lparr>tb_Oid = 1, tb_Name = ''t'', tb_Columns = ?cols, tb_Indexes = [?i]\<rparr>"
  have t: "Tables (cat_state demo_catalog) = [?t]" by code_simp
  have "tableMap demo_catalog = [''t'' \<mapsto> 0]" "columnMap demo_catalog = (\<lambda>_. [])(''a'' := [0], ''b'' := [0])" "NextId (cat_state demo_catalog) = 2"
    by (simp_all add: demo_catalog_def NewCatalog_def NullPersistenceProvider_def AddTable_def AddIndex_def register_def
        register_columns_def save_def stepS_def GetTableMetadata_def Let_def)
  then have "catalog_ok demo_catalog" by (simp add: catalog_ok_def t maps_of_def register_def register_columns_def oids_def fun_upd_twist)
  moreover have "index_def_ok ?t ?i" by (simp add: index_def_ok_def StringLength_def PageSize_def)
  ultimately obtain im ix where "NewIndexManager plain_map list_tree demo_catalog = Inr im" "GetIndex 2 im = Inr ix" "index_matches ?t ?i ix"
    using index_manager_complete [of demo_catalog plain_map list_tree] by (auto simp: t)
  moreover have "ProjectionList (Metadata ix) = [1]"
  proof -
    obtain p where "ProjectionList (Metadata ix) = [p]" "p < 2" "col_Name (?cols ! p) = ''b''"
      using calculation(3) by (auto simp: index_matches_def list_all2_Cons1)
    then show ?thesis by (cases p) auto
  qed
  ultimately show ?thesis by blast
qed

end
