(* ===== verification/Recovery.thy ===== *)
theory Recovery
  imports Checkpoint Heap_Scan Index_Manager
begin

text \<open>
  Crash recovery (\<^verbatim>\<open>recovery/recovery_manager.go\<close>, \<^verbatim>\<open>recovery/no_log_recovery.go\<close>) and the
  table manager it asks for schemas (\<^verbatim>\<open>execution/table_manager.go\<close>): analysis, redo and undo
  over the records the log iterator delivers, then the indexes rebuilt from the tables.
  Ranging over a Go map visits the entries in an unspecified order; the orders are the
  arguments \<open>ord\<close>.
\<close>

section \<open>Table manager\<close>

type_synonym TableManager = "ObjectID \<rightharpoonup> TableHeap"

definition NewTableManager :: "'p Catalog \<Rightarrow> TableManager res" where
  "NewTableManager c =
     foldR (\<lambda>tableDef tm. bindR (NewTableHeap (tb_Oid tableDef) (map col_Type (tb_Columns tableDef)))
              (\<lambda>heap. Inr (tm(tb_Oid tableDef \<mapsto> heap)))) (Tables (cat_state c)) Map.empty"

definition GetTable :: "TableManager \<Rightarrow> ObjectID \<Rightarrow> TableHeap res" where
  "GetTable tm oid = (case tm oid of Some heap \<Rightarrow> Inr heap | None \<Rightarrow> Inl (OtherError ''object not found''))"

section \<open>Analysis\<close>

text \<open>
  The master record: the file's bytes if it can be opened.  A file of fewer than eight bytes
  makes \<^verbatim>\<open>ReadAt\<close> return an error.
\<close>

datatype master_file = Opened "byte list" | NotExist | OpenFails fault

definition read_master :: "master_file \<Rightarrow> LSN res" where
  "read_master f =
     (case f of
        Opened bytes \<Rightarrow> if length bytes < 8 then Inl (OtherError ''EOF'') else Inr (le_get (take 8 bytes))
      | NotExist \<Rightarrow> Inr 0
      | OpenFails e \<Rightarrow> Inl e)"

definition analyze :: "LSN \<times> LogRecord \<Rightarrow> analysis \<Rightarrow> analysis res" where
  "analyze lr an =
     (let record = snd lr
      in bindR (RecordType record) (\<lambda>recordType.
         if recordType = LogCommit \<or> recordType = LogAbort
         then bindR (LogRecord_TxnID record) (\<lambda>t.
                Inr (see_txn t (an\<lparr>inactiveTransaction := t # inactiveTransaction an, att_of := AList.delete t (att_of an)\<rparr>)))
         else if recordType = LogBeginTransaction
         then bindR (LogRecord_TxnID record) (\<lambda>t. Inr (ckpt_txn t (fst lr) an))
         else if has_rid recordType
         then bindR (LogRecord_RID record) (\<lambda>rid.
              bindR (LogRecord_TxnID record) (\<lambda>t. Inr (see_txn t (page_dirty (ridPage rid) (fst lr) an))))
         else if recordType = LogEndCheckpoint
         then bindR (CheckpointData record) (\<lambda>data. ckpt_record data an)
         else Inr an))"

text \<open>A loop over the records of an iterator; the iterator's error is looked at after it.\<close>

definition over_log :: "'l LogManager \<Rightarrow> 'l \<Rightarrow> LSN \<Rightarrow> (LSN \<times> LogRecord \<Rightarrow> 's \<Rightarrow> unit res \<times> 's) \<Rightarrow> 's \<Rightarrow> unit res \<times> 's" where
  "over_log L l lsn f s =
     stepS (Iterator L l lsn) s (\<lambda>(recs, err).
     bindS (fold (\<lambda>r st. bindS st (\<lambda>_ s'. f r s')) recs (Inr (), s)) (\<lambda>_ s'.
       case err of None \<Rightarrow> (Inr (), s') | Some e \<Rightarrow> (Inl e, s')))"

definition Analysis :: "'l LogManager \<Rightarrow> 'l \<Rightarrow> LSN \<Rightarrow> unit res \<times> analysis" where
  "Analysis L l lsn = over_log L l lsn (\<lambda>r an. stepS (analyze r an) an (\<lambda>an'. (Inr (), an'))) no_analysis"

section \<open>Redo\<close>

definition redo_page :: "TableManager \<Rightarrow> RecordID \<Rightarrow> LogRecordType \<Rightarrow> LogRecord \<Rightarrow> LSN \<Rightarrow> PageFrame \<Rightarrow> PageFrame res" where
  "redo_page tables rid recordType record lsn pf =
     bindR (if IsInitializedHeapPage pf then Inr pf
            else bindR (GetTable tables (Oid (ridPage rid))) (\<lambda>heap. InitializeHeapPage (th_desc heap) pf)) (\<lambda>pf1.
     bindR (AsHeapPage pf1) (\<lambda>hp.
     bindR (if recordType = LogInsert
            then bindR (MarkAllocated hp rid True) (\<lambda>hp1. bindR (AfterImage record) (\<lambda>row. CopyIntoTuple hp1 rid row))
            else if recordType = LogUpdate \<or> recordType = LogUpdateCLR
            then bindR (AfterImage record) (\<lambda>row. CopyIntoTuple hp rid row)
            else if recordType = LogDelete \<or> recordType = LogInsertCLR then MarkDeleted hp rid True
            else MarkDeleted hp rid False) (\<lambda>hp2. Inr (MonotonicallyUpdateLSN hp2 lsn))))"

definition redo_record :: "TableManager \<Rightarrow> (PageID \<times> LSN) list \<Rightarrow> 'l LogManager \<Rightarrow> LSN \<times> LogRecord \<Rightarrow>
    'l \<times> BufferPool \<Rightarrow> unit res \<times> ('l \<times> BufferPool)" where
  "redo_record tables dpt L lr st =
     (let lsn = fst lr; record = snd lr
      in stepS (RecordType record) st (\<lambda>recordType.
         if \<not> has_rid recordType then (Inr (), st)
         else stepS (LogRecord_RID record) st (\<lambda>rid.
           case map_of dpt (ridPage rid) of
             None \<Rightarrow> (Inr (), st)
           | Some pageRecLSN \<Rightarrow>
               if sint pageRecLSN > sint lsn then (Inr (), st)
               else bindS (GetPage L (ridPage rid) st) (\<lambda>a (l, bp).
                    if sint (frame_LSN (frames bp a)) \<ge> sint lsn
                    then stepS (UnpinPage a False bp) (l, bp) (\<lambda>bp'. (Inr (), l, bp'))
                    else stepS (bindR (redo_page tables rid recordType record lsn (frames bp a))
                                  (\<lambda>g. UnpinPage a True (put_frame a g bp))) (l, bp) (\<lambda>bp'. (Inr (), l, bp'))))))"

definition smallest_recLSN :: "LSN \<Rightarrow> (PageID \<times> LSN) list \<Rightarrow> LSN" where
  "smallest_recLSN lsn dpt = fold (\<lambda>(_, rl) s. if sint rl < sint s then rl else s) dpt lsn"

section \<open>Undo\<close>

text \<open>The start position is compared with the smallest recovery position, not with the smallest start so far.\<close>

definition undo_start :: "LSN \<Rightarrow> LSN \<Rightarrow> (TransactionID \<times> LSN) list \<Rightarrow> LSN" where
  "undo_start checkpointLSN smallestRecLSN att =
     fold (\<lambda>(_, sl) s. if sint sl < sint smallestRecLSN then sl else s) att checkpointLSN"

type_synonym contexts = "(TransactionID \<times> TransactionContext) list"

definition restart_all :: "(TransactionID \<Rightarrow> nat option) \<Rightarrow> TransactionID list \<Rightarrow> ('l, 'i) TransactionManager \<Rightarrow>
    contexts \<times> ('l, 'i) TransactionManager" where
  "restart_all pick ids tm =
     fold (\<lambda>i (ctxs, tm). let (txn, tm') = RestartTransactionForRecovery (pick i) i tm in (AList.update i txn ctxs, tm'))
       ids ([], tm)"

definition rebuffer :: "LSN \<times> LogRecord \<Rightarrow> contexts \<Rightarrow> contexts res" where
  "rebuffer lr ctxs =
     bindR (RecordType (snd lr)) (\<lambda>recordType.
     if \<not> has_rid recordType then Inr ctxs
     else bindR (LogRecord_TxnID (snd lr)) (\<lambda>t.
          case map_of ctxs t of
            None \<Rightarrow> Inr ctxs
          | Some txn \<Rightarrow> bindR (BufferRecordForRecovery (snd lr) txn) (\<lambda>txn'. Inr (AList.update t txn' ctxs))))"

text \<open>The error that \<^verbatim>\<open>Abort\<close> returns is dropped.\<close>

definition abort_all :: "(IndexTask \<Rightarrow> 'i \<Rightarrow> 'i res) \<Rightarrow> 'l LogManager \<Rightarrow> TransactionContext list \<Rightarrow> ('l, 'i) TransactionManager \<Rightarrow>
    unit res \<times> ('l, 'i) TransactionManager" where
  "abort_all invoke L txns tm =
     fold (\<lambda>txn st. bindS st (\<lambda>_ tm. let (r, _, tm') = Abort invoke L (txn, tm) in swallow (r, tm'))) txns (Inr (), tm)"

section \<open>Rebuilding the indexes\<close>

definition project_key :: "RawTupleDesc \<Rightarrow> IndexMetadata \<Rightarrow> RawTuple \<Rightarrow> RawTuple \<Rightarrow> RawTuple res" where
  "project_key d md tupleBytes keyBuffer =
     foldR (\<lambda>(k, colIdx) buf. bindR (RawTupleDesc_GetValue d tupleBytes colIdx) (\<lambda>val. RawTupleDesc_SetValue (KeySchema md) buf k val))
       (enumerate 0 (ProjectionList md)) keyBuffer"

text \<open>One row into every index of its table; an index is named by its object id, with its key buffer.\<close>

definition index_row :: "'m MapOf \<Rightarrow> ('t, 'i) BTreeG \<Rightarrow> RawTupleDesc \<Rightarrow> RawTuple \<Rightarrow> RecordID \<Rightarrow> (ObjectID \<times> RawTuple) list \<Rightarrow>
    ('m, 't) IndexManager \<Rightarrow> ((ObjectID \<times> RawTuple) list \<times> ('m, 't) IndexManager) res" where
  "index_row M B d tupleBytes rid actives im =
     foldR (\<lambda>(oid, buf) (bufs, im).
       bindR (GetIndex oid im) (\<lambda>index.
       bindR (project_key d (Metadata index) tupleBytes buf) (\<lambda>buf'.
       bindR (AsKey (Metadata index) buf') (\<lambda>key.
       bindR (Index_InsertEntry M B (unat oid) key rid None index) (\<lambda>(_, index').
       Inr (bufs @ [(oid, buf')], im(oid \<mapsto> index'))))))) actives ([], im)"

primrec rebuild_loop :: "'m MapOf \<Rightarrow> ('t, 'i) BTreeG \<Rightarrow> 'l LogManager \<Rightarrow> RawTupleDesc \<Rightarrow> nat \<Rightarrow> TableHeapIterator \<Rightarrow>
    (ObjectID \<times> RawTuple) list \<Rightarrow> 'l Env \<times> ('m, 't) IndexManager \<Rightarrow> TableHeapIterator res \<times> ('l Env \<times> ('m, 't) IndexManager)" where
  "rebuild_loop M B L d 0 = (\<lambda>it actives st. (Inl Spins, st))"
| "rebuild_loop M B L d (Suc n) = (\<lambda>it actives (env, im).
     case it_Next L it env of
       (Inl e, env1) \<Rightarrow> (Inl e, env1, im)
     | (Inr (found, it1), env1) \<Rightarrow>
         if \<not> found then (Inr it1, env1, im)
         else case index_row M B d (CurrentTuple it1) (CurrentRID it1) actives im of
                Inl e \<Rightarrow> (Inl e, snd (it_Close it1 env1), im)
              | Inr (actives', im') \<Rightarrow> rebuild_loop M B L d n it1 actives' (env1, im'))"

definition key_buffers :: "('m, 't) IndexManager \<Rightarrow> IndexDef list \<Rightarrow> (ObjectID \<times> RawTuple) list res" where
  "key_buffers im defs =
     mapR (\<lambda>i. bindR (GetIndex (ix_Oid i) im) (\<lambda>idx. Inr (ix_Oid i, replicate (BytesPerTuple (KeySchema (Metadata idx))) 0))) defs"

definition rebuild_table :: "'m MapOf \<Rightarrow> ('t, 'i) BTreeG \<Rightarrow> 'l LogManager \<Rightarrow> TableManager \<Rightarrow> nat \<Rightarrow> Table \<Rightarrow>
    'l Env \<times> ('m, 't) IndexManager \<Rightarrow> unit res \<times> ('l Env \<times> ('m, 't) IndexManager)" where
  "rebuild_table M B L tables fuel tableDef st =
     (if tb_Indexes tableDef = [] then (Inr (), st)
      else stepS (GetTable tables (tb_Oid tableDef)) st (\<lambda>heap.
           stepS (key_buffers (snd st) (tb_Indexes tableDef)) st (\<lambda>actives.
           let (r, env) = TableHeap_Iterator L heap LockModeS (fst st)
           in stepS r (env, snd st) (\<lambda>it.
              bindS (rebuild_loop M B L (th_desc heap) fuel it actives (env, snd st)) (\<lambda>it' (env', im').
              let (r, env'') = swallow (it_Close it' env')
              in stepS r (env'', im') (\<lambda>_. case it_error it' of None \<Rightarrow> (Inr (), env'', im') | Some e \<Rightarrow> (Inl e, env'', im')))))))"

definition rebuildIndexes :: "'m MapOf \<Rightarrow> ('t, 'i) BTreeG \<Rightarrow> 'l LogManager \<Rightarrow> 'p Catalog \<Rightarrow> TableManager \<Rightarrow> nat \<Rightarrow>
    'l Env \<times> ('m, 't) IndexManager \<Rightarrow> unit res \<times> ('l Env \<times> ('m, 't) IndexManager)" where
  "rebuildIndexes M B L c tables fuel st =
     fold (\<lambda>tableDef st. bindS st (\<lambda>_ s. rebuild_table M B L tables fuel tableDef s)) (Tables (cat_state c)) (Inr (), st)"

text \<open>The transaction manager's state as the environment of a scan without a transaction.\<close>

definition scan_env :: "('l, 'i) TransactionManager \<Rightarrow> 'l Env" where
  "scan_env tm = \<lparr>env_txn = None, env_log = logState tm, env_pool = bufferPool tm, env_locks = lockManager tm\<rparr>"

definition rebuild_all :: "'m MapOf \<Rightarrow> ('t, 'i) BTreeG \<Rightarrow> 'l LogManager \<Rightarrow> 'p Catalog \<Rightarrow> TableManager \<Rightarrow> nat \<Rightarrow>
    ('l, ('m, 't) IndexManager) TransactionManager \<Rightarrow> unit res \<times> ('l, ('m, 't) IndexManager) TransactionManager" where
  "rebuild_all M B L c tables fuel tm =
     (let (r, env, im) = rebuildIndexes M B L c tables fuel (scan_env tm, indexes tm)
      in (r, tm\<lparr>logState := env_log env, bufferPool := env_pool env, lockManager := env_locks env, indexes := im\<rparr>))"

section \<open>Recovery\<close>

record 'p RecoveryManager =
  rm_master :: master_file
  rm_catalog :: "'p Catalog"
  rm_tables :: TableManager

definition redo_all :: "TableManager \<Rightarrow> (PageID \<times> LSN) list \<Rightarrow> 'l LogManager \<Rightarrow> LSN \<Rightarrow> ('l, 'i) TransactionManager \<Rightarrow>
    unit res \<times> ('l, 'i) TransactionManager" where
  "redo_all tables dpt L lsn tm =
     (let (r, l, bp) = over_log L (logState tm) lsn (redo_record tables dpt L) (logState tm, bufferPool tm)
      in (r, tm\<lparr>logState := l, bufferPool := bp\<rparr>))"

definition rebuffer_all :: "'l LogManager \<Rightarrow> 'l \<Rightarrow> LSN \<Rightarrow> contexts \<Rightarrow> unit res \<times> contexts" where
  "rebuffer_all L l lsn ctxs = over_log L l lsn (\<lambda>r cs. stepS (rebuffer r cs) cs (\<lambda>cs'. (Inr (), cs'))) ctxs"

text \<open>The first three phases, on the transaction manager.\<close>

definition Restore :: "((TransactionID \<times> LSN) list \<Rightarrow> (TransactionID \<times> LSN) list) \<Rightarrow> (contexts \<Rightarrow> contexts) \<Rightarrow>
    (TransactionID \<Rightarrow> nat option) \<Rightarrow> (IndexTask \<Rightarrow> 'i \<Rightarrow> 'i res) \<Rightarrow> 'l LogManager \<Rightarrow> master_file \<Rightarrow> TableManager \<Rightarrow>
    ('l, 'i) TransactionManager \<Rightarrow> unit res \<times> ('l, 'i) TransactionManager" where
  "Restore ord ord' pick invoke L master tables tm =
     stepS (read_master master) tm (\<lambda>checkpointLSN.
     case Analysis L (logState tm) checkpointLSN of
       (Inl e, _) \<Rightarrow> (Inl e, tm)
     | (Inr _, an) \<Rightarrow>
         let tm1 = SetNextTxnId (largestTxn an) tm;
             smallestRecLSN = smallest_recLSN checkpointLSN (dpt_of an);
             (ctxs, tm2) = restart_all pick (map fst (ord (att_of an))) tm1
         in stepS (Iterator L (logState tm) smallestRecLSN) tm1 (\<lambda>_.
            bindS (redo_all tables (dpt_of an) L smallestRecLSN tm2) (\<lambda>_ tm3.
            case rebuffer_all L (logState tm3) (undo_start checkpointLSN smallestRecLSN (ord (att_of an))) ctxs of
              (Inl e, _) \<Rightarrow> (Inl e, tm3)
            | (Inr _, ctxs') \<Rightarrow> abort_all invoke L (map snd (ord' ctxs')) tm3)))"

definition Recover :: "((TransactionID \<times> LSN) list \<Rightarrow> (TransactionID \<times> LSN) list) \<Rightarrow> (contexts \<Rightarrow> contexts) \<Rightarrow>
    (TransactionID \<Rightarrow> nat option) \<Rightarrow> (IndexTask \<Rightarrow> ('m, 't) IndexManager \<Rightarrow> ('m, 't) IndexManager res) \<Rightarrow> 'm MapOf \<Rightarrow> ('t, 'i) BTreeG \<Rightarrow>
    'l LogManager \<Rightarrow> nat \<Rightarrow> 'p RecoveryManager \<Rightarrow> ('l, ('m, 't) IndexManager) TransactionManager \<Rightarrow>
    unit res \<times> ('l, ('m, 't) IndexManager) TransactionManager" where
  "Recover ord ord' pick invoke M B L fuel rm tm =
     bindS (Restore ord ord' pick invoke L (rm_master rm) (rm_tables rm) tm) (\<lambda>_ tm1.
       rebuild_all M B L (rm_catalog rm) (rm_tables rm) fuel tm1)"

text \<open>The recovery manager without a log only rebuilds the indexes.\<close>

definition NoLog_Recover :: "'m MapOf \<Rightarrow> ('t, 'i) BTreeG \<Rightarrow> 'l LogManager \<Rightarrow> nat \<Rightarrow> 'p RecoveryManager \<Rightarrow>
    ('l, ('m, 't) IndexManager) TransactionManager \<Rightarrow> unit res \<times> ('l, ('m, 't) IndexManager) TransactionManager" where
  "NoLog_Recover M B L fuel rm tm = rebuild_all M B L (rm_catalog rm) (rm_tables rm) fuel tm"

end
