(* ===== verification/Recovery_Redo.thy ===== *)
theory Recovery_Redo
  imports Recovery
begin

text \<open>
  Redo repeats history: from the pages that a crash leaves, each current up to its own
  sequence number, the redo phase reaches the state in which every record of the log has
  been applied.
\<close>

section \<open>Reading entries\<close>

lemma entry_reads:
  assumes "is_entry r e"
  shows "entry_txn e = Some t \<Longrightarrow> LogRecord_TxnID r = Inr t" "has_rid (entry_type e) \<longleftrightarrow> entry_rid e \<noteq> None"
    "e = EndCkptE p \<Longrightarrow> CheckpointData r = Inr p"
proof -
  obtain h where h: "length h = 6" "lr_data r = h @ entry_bytes e" using assms by (auto simp: is_entry_def)
  then have r: "r = \<lparr>lr_data = h @ entry_bytes e\<rparr>" by simp
  show "entry_txn e = Some t \<Longrightarrow> LogRecord_TxnID r = Inr t"
    using log_record_reads(2) [OF h(1)] log_record_reads_end(2) [OF h(1)] by (cases e) (simp_all add: r)
  show "has_rid (entry_type e) \<longleftrightarrow> entry_rid e \<noteq> None" by (cases e) (simp_all add: has_rid_def log_types)
  show "e = EndCkptE p \<Longrightarrow> CheckpointData r = Inr p" using log_record_reads(5) [OF h(1)] by (simp add: r)
qed

fun entry_row :: "log_entry \<Rightarrow> RawTuple option" where
  "entry_row (InsertE _ _ row) = Some row"
| "entry_row (UpdateE _ _ _ row) = Some row"
| "entry_row (UpdateClrE _ _ row) = Some row"
| "entry_row _ = None"

lemma entry_after:
  assumes "is_entry r e" "entry_row e = Some row"
  shows "AfterImage r = Inr row"
proof -
  have "entry_of r = Inr e" using assms(1) by (rule entry_of_is_entry)
  then show ?thesis using assms entry_RecordType [OF assms(1)]
    by (cases e) (auto simp: entry_of_def log_types split: if_splits)
qed

section \<open>The slots of a page that may not be initialised\<close>

definition init_bytes :: "RawTupleDesc \<Rightarrow> byte list" where
  "init_bytes d = Bytes (projr (InitializeHeapPage d blank_frame))"

definition has_magic :: "byte list \<Rightarrow> bool" where
  "has_magic b \<longleftrightarrow> le_get (slice PageOffsetPadding 2 b) = HeapPageMagic"

definition page_at :: "TableManager \<Rightarrow> PageID \<Rightarrow> byte list \<Rightarrow> slot list option" where
  "page_at tables pid b =
     (if has_magic b then if heap_bytes_ok b then Some (slots_of b) else None
      else map_option (\<lambda>th. slots_of (init_bytes (th_desc th))) (tables (Oid pid)))"

definition tables_ok :: "TableManager \<Rightarrow> bool" where
  "tables_ok tables \<longleftrightarrow> (\<forall>oid th. tables oid = Some th \<longrightarrow>
     wf_desc (th_desc th) \<and> 0 < rd_bytes (th_desc th) \<and> rd_bytes (th_desc th) \<le> PageSize - 32)"

lemma heap_bytes_magic: "heap_bytes_ok b \<Longrightarrow> has_magic b"
  by (simp add: heap_bytes_ok_def wf_bytes_def has_magic_def)

lemma init_frame:
  assumes "wf_desc d" "0 < rd_bytes d" "rd_bytes d \<le> PageSize - 32"
    and f: "length (Bytes pf) = PageSize" "\<not> cached pf" "\<not> has_magic (Bytes pf)"
  obtains hp where "bindR (InitializeHeapPage d pf) AsHeapPage = Inr hp" "wf_heap_page hp" "hp_slots hp = slots_of (init_bytes d)"
    "frame_LSN hp = 0" "same_pool_fields pf hp" "\<forall>s \<in> set (hp_slots hp). \<not> s_alloc s \<and> \<not> s_del s"
proof -
  have nm: "\<not> IsInitializedHeapPage pf" using f(3) by (simp add: IsInitializedHeapPage_def has_magic_def)
  obtain hp where h: "bindR (InitializeHeapPage d pf) AsHeapPage = Inr hp" "wf_heap_page hp" "frame_LSN hp = 0"
      "\<forall>s \<in> set (hp_slots hp). \<not> s_alloc s \<and> \<not> s_del s"
    by (rule init_heap_page_lemma [OF assms(1-3) f(1,2) nm])
  then obtain pf' where pf: "InitializeHeapPage d pf = Inr pf'" "AsHeapPage pf' = Inr hp" by (auto simp: bindR_eq_Inr)
  have "Bytes pf' = init_bytes d"
    using pf(1) nm f(1) blank_frame_fresh
    by (auto simp: InitializeHeapPage_def IsInitializedHeapPage_def init_bytes_def Let_def split: if_splits)
  moreover have "Bytes hp = Bytes pf'" using pf(2) by (auto simp: AsHeapPage_def Let_def split: if_splits)
  ultimately have "hp_slots hp = slots_of (init_bytes d)" using wf_page_bytes(2) [OF h(2)] by simp
  moreover have "same_pool_fields pf hp" using same_pool_fields_trans op_pool_fields(5) [OF pf(1)] op_pool_fields(6) [OF pf(2)] by blast
  ultimately show thesis using that [OF h(1,2) _ h(3) _ h(4)] by simp
qed

lemma redo_view:
  assumes pf: "length (Bytes pf) = PageSize" "cached pf \<longrightarrow> wf_heap_page pf" and t: "tables_ok tables"
    and ss: "page_at tables pid (Bytes pf) = Some ss" "\<not> has_magic (Bytes pf) \<longrightarrow> page_LSN (Bytes pf) = 0"
  obtains hp where "bindR (if IsInitializedHeapPage pf then Inr pf
      else bindR (GetTable tables (Oid pid)) (\<lambda>heap. InitializeHeapPage (th_desc heap) pf)) AsHeapPage = Inr hp"
    "wf_heap_page hp" "hp_slots hp = ss" "frame_LSN hp = page_LSN (Bytes pf)" "same_pool_fields pf hp"
proof (cases "has_magic (Bytes pf)")
  case True
  then have ok: "heap_bytes_ok (Bytes pf)" "ss = slots_of (Bytes pf)" using ss(1) by (auto simp: page_at_def split: if_splits)
  obtain hp where hp: "AsHeapPage pf = Inr hp" "wf_heap_page hp" "Bytes hp = Bytes pf" "frame_LSN hp = frame_LSN pf" "same_pool_fields pf hp"
    by (rule AsHeapPage_ok [OF ok(1) pf(2)])
  have "IsInitializedHeapPage pf" using True by (simp add: IsInitializedHeapPage_def has_magic_def)
  moreover have "hp_slots hp = ss" using wf_page_bytes(2) [OF hp(2)] hp(3) ok(2) by simp
  ultimately show thesis using that hp by (simp add: frame_LSN_page)
next
  case False
  then obtain th where th: "tables (Oid pid) = Some th" "ss = slots_of (init_bytes (th_desc th))"
    using ss(1) by (auto simp: page_at_def)
  have nc: "\<not> cached pf" using pf(2) False by (auto simp: wf_heap_page_def wf_bytes_def has_magic_def)
  obtain hp where h: "bindR (InitializeHeapPage (th_desc th) pf) AsHeapPage = Inr hp" "wf_heap_page hp"
      "hp_slots hp = slots_of (init_bytes (th_desc th))" "frame_LSN hp = 0" "same_pool_fields pf hp"
    by (rule init_frame [of "th_desc th" pf]) (use t th(1) pf(1) nc False in \<open>auto simp: tables_ok_def\<close>)
  have "\<not> IsInitializedHeapPage pf" using False by (simp add: IsInitializedHeapPage_def has_magic_def)
  then show thesis using that h th ss(2) False by (simp add: GetTable_def)
qed

lemma redo_page_ok:
  assumes e: "is_entry r e" "entry_rid e = Some rid"
    and pf: "length (Bytes pf) = PageSize" "cached pf \<longrightarrow> wf_heap_page pf" and t: "tables_ok tables"
    and ss: "page_at tables (ridPage rid) (Bytes pf) = Some ss" "\<not> has_magic (Bytes pf) \<longrightarrow> page_LSN (Bytes pf) = 0"
    and slot: "rid_slot rid = int i" "i < length ss" "\<And>row. entry_row e = Some row \<Longrightarrow> length row = length (s_row (ss ! i))"
  obtains g where "redo_page tables rid (entry_type e) r lsn pf = Inr g" "wf_heap_page g" "same_pool_fields pf g"
    "slots_of (Bytes g) = ss[i := slot_do e (ss ! i)]" "frame_LSN g = max (page_LSN (Bytes pf)) lsn"
proof -
  obtain hp where hp: "bindR (if IsInitializedHeapPage pf then Inr pf
      else bindR (GetTable tables (Oid (ridPage rid))) (\<lambda>heap. InitializeHeapPage (th_desc heap) pf)) AsHeapPage = Inr hp"
    "wf_heap_page hp" "hp_slots hp = ss" "frame_LSN hp = page_LSN (Bytes pf)" "same_pool_fields pf hp"
    by (rule redo_view [OF pf t ss])
  note w = wf_page_bytes [OF hp(2)]
  have i: "i < numSlots hp" using slot(2) hp(3) by (metis length_hp_slots)
  have rs: "length row = rowSize hp" if "entry_row e = Some row" for row
    using slot(3) [OF that] slots_row_length [OF w(1), of i] w(2,3) hp(3) slot(2) by simp
  let ?body = "if entry_type e = LogInsert
      then bindR (MarkAllocated hp rid True) (\<lambda>hp1. bindR (AfterImage r) (\<lambda>row. CopyIntoTuple hp1 rid row))
      else if entry_type e = LogUpdate \<or> entry_type e = LogUpdateCLR then bindR (AfterImage r) (\<lambda>row. CopyIntoTuple hp rid row)
      else if entry_type e = LogDelete \<or> entry_type e = LogInsertCLR then MarkDeleted hp rid True else MarkDeleted hp rid False"
  have del: "\<exists>h. MarkDeleted hp rid on = Inr h \<and> wf_heap_page h \<and> hp_slots h = ss[i := (ss ! i)\<lparr>s_del := on\<rparr>] \<and>
      frame_LSN h = frame_LSN hp \<and> same_pool_fields hp h" for on
    by (rule MarkDeleted_spec [OF hp(2) slot(1) i, of on]) (use hp(3) op_pool_fields(1) in \<open>auto simp: same_header_def\<close>)
  have cp: "\<exists>h. CopyIntoTuple hp rid row = Inr h \<and> wf_heap_page h \<and> hp_slots h = ss[i := (ss ! i)\<lparr>s_row := row\<rparr>] \<and>
      frame_LSN h = frame_LSN hp \<and> same_pool_fields hp h" if "entry_row e = Some row" for row
    by (rule CopyIntoTuple_spec [OF hp(2) slot(1) i rs [OF that]]) (use hp(3) op_pool_fields(3) in \<open>auto simp: same_header_def\<close>)
  have ins: "\<exists>h. bindR (MarkAllocated hp rid True) (\<lambda>hp1. CopyIntoTuple hp1 rid row) = Inr h \<and> wf_heap_page h \<and>
      hp_slots h = ss[i := (ss ! i)\<lparr>s_alloc := True, s_row := row\<rparr>] \<and> frame_LSN h = frame_LSN hp \<and> same_pool_fields hp h"
    if "entry_row e = Some row" for row
  proof -
    obtain h2 where h2: "MarkAllocated hp rid True = Inr h2" "wf_heap_page h2" "same_header hp h2"
        "hp_slots h2 = (hp_slots hp)[i := (hp_slots hp ! i)\<lparr>s_alloc := True, s_del := (True \<and> s_del (hp_slots hp ! i))\<rparr>]"
      by (rule MarkAllocated_spec [OF hp(2) slot(1) i, of True])
    have i2: "i < numSlots h2" "length row = rowSize h2" using h2(3) i rs [OF that] by (simp_all add: same_header_def)
    obtain h3 where h3: "CopyIntoTuple h2 rid row = Inr h3" "wf_heap_page h3" "same_header h2 h3"
        "hp_slots h3 = (hp_slots h2)[i := (hp_slots h2 ! i)\<lparr>s_row := row\<rparr>]"
      by (rule CopyIntoTuple_spec [OF h2(2) slot(1) i2])
    then show ?thesis
      using h2 hp(3) slot(2) same_pool_fields_trans [OF op_pool_fields(2) [OF h2(1)] op_pool_fields(3) [OF h3(1)]]
      by (auto simp: same_header_def)
  qed
  have "\<exists>h. ?body = Inr h \<and> wf_heap_page h \<and> hp_slots h = ss[i := slot_do e (ss ! i)] \<and> frame_LSN h = frame_LSN hp \<and> same_pool_fields hp h"
    using entry_after [OF e(1)] e(2) del [of True] del [of False] cp ins by (cases e) (simp_all add: log_types)
  then obtain h where h: "?body = Inr h" "wf_heap_page h" "hp_slots h = ss[i := slot_do e (ss ! i)]" "frame_LSN h = frame_LSN hp"
      "same_pool_fields hp h" by blast
  note m = MonotonicallyUpdateLSN_spec [OF h(2), of lsn]
  have "redo_page tables rid (entry_type e) r lsn pf = Inr (MonotonicallyUpdateLSN h lsn)"
    using hp(1) h(1) by (elim bindR_eq_InrE) (simp add: redo_page_def)
  moreover have "same_pool_fields pf (MonotonicallyUpdateLSN h lsn)"
    using same_pool_fields_trans [OF hp(5) same_pool_fields_trans [OF h(5) op_pool_fields(7)]] .
  ultimately show thesis using that m wf_page_bytes(2) [OF m(1)] hp(4) h(3,4) by simp
qed

section \<open>The state a crash leaves\<close>

definition on_page_of :: "PageID \<Rightarrow> log_entry \<Rightarrow> bool" where
  "on_page_of pid e \<longleftrightarrow> (\<exists>rid. entry_rid e = Some rid \<and> ridPage rid = pid)"

text \<open>A record fits the slots: it names one of them, and its row has the length of the slot.\<close>

definition fits :: "slots \<Rightarrow> log_entry \<Rightarrow> bool" where
  "fits S e \<longleftrightarrow> (\<forall>rid. entry_rid e = Some rid \<longrightarrow> rid_ok S rid \<and>
     (\<forall>row. entry_row e = Some row \<longrightarrow> length row = length (s_row (slot_at S rid))))"

lemma slot_do_row_length:
  assumes "\<And>row. entry_row e = Some row \<Longrightarrow> length row = length (s_row s)"
  shows "length (s_row (slot_do e s)) = length (s_row s)"
  using assms by (cases e) simp_all

lemma fits_do:
  assumes "fits S e" "fits S e'"
  shows "fits (do_entry e S) e'"
  unfolding fits_def
proof (intro allI impI conjI)
  fix rid
  assume rid: "entry_rid e' = Some rid"
  then show "rid_ok (do_entry e S) rid" using assms(2) by (simp add: fits_def)
  fix row
  assume row: "entry_row e' = Some row"
  have "length (s_row (slot_at (do_entry e S) rid)) = length (s_row (slot_at S rid))"
    using slot_at_do [of e S rid] assms rid slot_do_row_length [of e "slot_at S rid"] by (auto simp: fits_def)
  then show "length row = length (s_row (slot_at (do_entry e S) rid))" using assms(2) rid row by (simp add: fits_def)
qed

lemma fits_fold: "\<forall>e \<in> set es. fits S e \<Longrightarrow> fits S e' \<Longrightarrow> fits (fold do_entry es S) e'"
proof (induction es arbitrary: S)
  case (Cons e es)
  then show ?case using fits_do by (metis fold_simps(2) list.set_intros(1,2))
qed simp

text \<open>
  Every page of the store is current up to its own sequence number: it holds the replay, on
  the slots \<open>S\<close> at the start of the log, of the records up to that number.  A page that was
  never initialised holds none.
\<close>

definition upto :: "LSN \<Rightarrow> (LSN \<times> log_entry) list \<Rightarrow> log_entry list" where
  "upto k hs = map snd (filter (\<lambda>(j, _). sint j \<le> sint k) hs)"

definition page_current :: "TableManager \<Rightarrow> (LSN \<times> log_entry) list \<Rightarrow> slots \<Rightarrow> PageID \<Rightarrow> byte list \<Rightarrow> bool" where
  "page_current tables hs S pid b \<longleftrightarrow> 0 \<le> sint (page_LSN b) \<and> (\<not> has_magic b \<longrightarrow> page_LSN b = 0) \<and>
     page_at tables pid b = fold do_entry (upto (page_LSN b) hs) S pid"

definition pool_current :: "TableManager \<Rightarrow> (LSN \<times> log_entry) list \<Rightarrow> slots \<Rightarrow> BufferPool \<Rightarrow> bool" where
  "pool_current tables hs S bp \<longleftrightarrow>
     (\<forall>pid. case pool_view bp pid of None \<Rightarrow> S pid = None | Some b \<Rightarrow> page_current tables hs S pid b)"

text \<open>The log: positions grow, data records come after position 0, and all of them fit.\<close>

definition log_fits :: "(LSN \<times> log_entry) list \<Rightarrow> slots \<Rightarrow> bool" where
  "log_fits hs S \<longleftrightarrow> sorted_wrt (\<lambda>(j, _) (k, _). sint j < sint k) hs \<and>
     (\<forall>(k, e) \<in> set hs. fits S e \<and> 0 \<le> sint k \<and> (entry_rid e \<noteq> None \<longrightarrow> 0 < sint k))"

lemma do_entry_page: "\<not> on_page_of pid e \<Longrightarrow> do_entry e S pid = S pid"
  by (auto simp: do_entry_def on_page_of_def upd_slot_def split: option.splits)

lemma fold_page_cong: "S pid = S' pid \<Longrightarrow> fold do_entry es S pid = fold do_entry (filter (on_page_of pid) es) S' pid"
proof (induction es arbitrary: S S')
  case (Cons e es)
  show ?case
  proof (cases "on_page_of pid e")
    case True
    then obtain rid where rid: "entry_rid e = Some rid" "ridPage rid = pid" by (auto simp: on_page_of_def)
    have "do_entry e S pid = do_entry e S' pid"
      by (cases "S' pid") (simp_all add: do_entry_def upd_slot_def rid Cons.prems)
    from Cons.IH [of "do_entry e S" "do_entry e S'"] this show ?thesis using True by simp
  next
    case False
    then have "do_entry e S pid = S' pid" using do_entry_page [of pid e S] Cons.prems by simp
    from Cons.IH [of "do_entry e S" S'] this show ?thesis using False by simp
  qed
qed simp

text \<open>Moving a page from its number to that of a later record, when no other record of the page lies between.\<close>

lemma upto_next:
  assumes l: "log_fits hs S" and ke: "(k, e) \<in> set hs" "on_page_of pid e" "sint p < sint k"
    and none: "\<And>j e'. (j, e') \<in> set hs \<Longrightarrow> on_page_of pid e' \<Longrightarrow> sint j < sint k \<Longrightarrow> sint j \<le> sint p"
  shows "filter (on_page_of pid) (upto k hs) = filter (on_page_of pid) (upto p hs) @ [e]"
proof -
  obtain as bs where hs: "hs = as @ (k, e) # bs" using ke(1) by (meson split_list)
  have so: "\<And>j e'. (j, e') \<in> set as \<Longrightarrow> sint j < sint k" "\<And>j e'. (j, e') \<in> set bs \<Longrightarrow> sint k < sint j"
    using l by (auto simp: log_fits_def hs sorted_wrt_append)
  have a: "filter (\<lambda>(j, _). sint j \<le> sint k) as = as" "filter (\<lambda>(j, _). sint j \<le> sint k) bs = []"
      "filter (\<lambda>(j, _). sint j \<le> sint p) bs = []"
    using so ke(3) by (fastforce simp: filter_id_conv filter_empty_conv)+
  have u: "filter (on_page_of pid) (map snd (filter (\<lambda>(j, _). sint j \<le> sint p) as)) = filter (on_page_of pid) (map snd as)"
  proof -
    have "sint (fst x) \<le> sint p" if "x \<in> set as" "on_page_of pid (snd x)" for x
      using none [of "fst x" "snd x"] so(1) [of "fst x" "snd x"] that by (simp add: hs)
    then have "\<forall>x \<in> set as. on_page_of pid (snd x) \<longrightarrow> sint (fst x) \<le> sint p" by blast
    then show ?thesis by (induction as) auto
  qed
  show ?thesis using a u ke(2,3) by (simp add: upto_def hs)
qed

section \<open>Redoing one record\<close>

lemma uint_LSN:
  assumes "0 \<le> sint (a :: LSN)"
  shows "uint a = sint a"
proof -
  have "sint a < 2 ^ 63" using sint_lt [of a] by simp
  then have "take_bit 64 (sint a) = sint a" using assms by (simp add: take_bit_int_eq_self)
  then show ?thesis using uint_word_of_int_eq [of "sint a", where 'a = 64] by simp
qed

lemma max_LSN:
  assumes "0 \<le> sint (a :: LSN)" "sint a < sint b"
  shows "max a b = b"
proof -
  have "uint a = sint a" "uint b = sint b" using assms by (simp_all add: uint_LSN)
  then show ?thesis using assms(2) by (simp add: max_def word_le_def)
qed

lemma log_fits_entry:
  assumes "log_fits hs S" "(k, e) \<in> set hs"
  shows "fits S e" "0 \<le> sint k" "entry_rid e \<noteq> None \<Longrightarrow> 0 < sint k" "\<forall>e' \<in> set (upto p hs). fits S e'"
  using assms by (auto simp: log_fits_def upto_def)

definition later :: "BufferPool \<Rightarrow> BufferPool \<Rightarrow> bool" where
  "later bp bp' \<longleftrightarrow> (\<forall>pid. case pool_view bp pid of None \<Rightarrow> pool_view bp' pid = None
     | Some b \<Rightarrow> \<exists>b'. pool_view bp' pid = Some b' \<and> sint (page_LSN b) \<le> sint (page_LSN b'))"

lemma later_refl: "later bp bp"
  by (auto simp: later_def split: option.splits)

text \<open>Every page has the records \<open>es\<close>.\<close>

definition seen :: "(LSN \<times> log_entry) list \<Rightarrow> BufferPool \<Rightarrow> bool" where
  "seen es bp \<longleftrightarrow> (\<forall>(j, e) \<in> set es. \<forall>pid b. on_page_of pid e \<longrightarrow> pool_view bp pid = Some b \<longrightarrow> sint j \<le> sint (page_LSN b))"

text \<open>What the dirty page table must say about the records that are to be redone.\<close>

definition dpt_covers :: "(PageID \<times> LSN) list \<Rightarrow> (LSN \<times> log_entry) list \<Rightarrow> BufferPool \<Rightarrow> bool" where
  "dpt_covers dpt es bp \<longleftrightarrow> (\<forall>(k, e) \<in> set es. \<forall>rid b. entry_rid e = Some rid \<longrightarrow> pool_view bp (ridPage rid) = Some b \<longrightarrow>
     sint (page_LSN b) < sint k \<longrightarrow> (\<exists>rl. map_of dpt (ridPage rid) = Some rl \<and> sint rl \<le> sint k))"

context log_service
begin

lemma redo_page_step:
  assumes ok: "store_ok L linv l bp" and t: "tables_ok tables" and lf: "log_fits hs S" and cur: "pool_current tables hs S bp"
    and e: "is_entry r e" "(k, e) \<in> set hs" "entry_rid e = Some rid" and w: "waits L l k"
    and b: "pool_view bp (ridPage rid) = Some b" "sint (page_LSN b) < sint k"
    and prev: "\<And>j e'. (j, e') \<in> set hs \<Longrightarrow> on_page_of (ridPage rid) e' \<Longrightarrow> sint j < sint k \<Longrightarrow> sint j \<le> sint (page_LSN b)"
    and dpt: "map_of dpt (ridPage rid) = Some rl" "sint rl \<le> sint k"
  obtains l' bp' where "redo_record tables dpt L (k, r) (l, bp) = (Inr (), l', bp')" "store_ok L linv l' bp'" "log_kept L history l l'"
    "pool_current tables hs S bp'" "later bp bp'" "\<And>b'. pool_view bp' (ridPage rid) = Some b' \<Longrightarrow> page_LSN b' = k"
proof -
  let ?pid = "ridPage rid" and ?p = "page_LSN b"
  have pc: "0 \<le> sint ?p" "\<not> has_magic b \<longrightarrow> ?p = 0" "page_at tables ?pid b = fold do_entry (upto ?p hs) S ?pid"
    using cur b(1) by (auto simp: pool_current_def page_current_def split: option.splits dest: spec [of _ ?pid])
  note en = log_fits_entry [OF lf e(2)]
  have fe: "fits (fold do_entry (upto ?p hs) S) e" by (rule fits_fold [OF en(4,1)])
  then obtain ss where ss: "page_at tables ?pid b = Some ss" "slot_no rid < length ss" "0 \<le> rid_slot rid"
      "fold do_entry (upto ?p hs) S ?pid = Some ss"
    using e(3) pc(3) unfolding fits_def rid_ok_def by fastforce
  have row: "length row = length (s_row (ss ! slot_no rid))" if "entry_row e = Some row" for row
    using fe e(3) that ss(4) by (simp add: fits_def slot_at_def)
  have sl: "rid_slot rid = int (slot_no rid)" using ss(3) by (simp add: slot_no_def)
  have st: "pool_ok bp" "quiet bp" "lsns_ok L l bp" "linv l" using ok by (simp_all add: store_ok_def)
  obtain a l1 bp1 where v: "GetPage L ?pid (l, bp) = (Inr a, l1, bp1)" "Bytes (frames bp1 a) = b" "length b = PageSize"
      "synced L l (storageManager bp) l1 (storageManager bp1)" "cached (frames bp1 a) \<longrightarrow> wf_heap_page (frames bp1 a)"
      "\<And>g dirty. edit_ok (frames bp1 a) g dirty \<Longrightarrow> \<exists>bp''. UnpinPage a dirty (put_frame a g bp1) = Inr bp'' \<and>
         pool_ok bp'' \<and> quiet bp'' \<and> storageManager bp'' = storageManager bp1 \<and> pool_view bp'' = (pool_view bp)(?pid \<mapsto> Bytes g)"
    using visit_page [OF st(1,2) b(1) st(3)] by blast
  obtain g where g: "redo_page tables rid (entry_type e) r k (frames bp1 a) = Inr g" "wf_heap_page g" "same_pool_fields (frames bp1 a) g"
      "slots_of (Bytes g) = ss[slot_no rid := slot_do e (ss ! slot_no rid)]" "frame_LSN g = max ?p k"
    by (rule redo_page_ok [OF e(1,3), of "frames bp1 a" tables ss "slot_no rid" k]) (use v(2,3,5) t ss(1,2) pc(2) sl row in auto)
  have lg: "page_LSN (Bytes g) = k" using g(5) max_LSN [OF pc(1) b(2)] by (simp add: frame_LSN_page)
  have "edit_ok (frames bp1 a) g True"
    using g(2,3) wf_page_bytes(5) [OF g(2)] by (simp add: edit_ok_def same_pool_fields_def)
  then obtain bp2 where bp2: "UnpinPage a True (put_frame a g bp1) = Inr bp2" "pool_ok bp2" "quiet bp2"
      "pool_view bp2 = (pool_view bp)(?pid \<mapsto> Bytes g)" using v(6) by blast
  have kl: "linv l1 \<and> log_kept L history l l1"
    using v(4) wait_law [OF st(4)] st(4) by (fastforce simp: synced_def log_kept_def prod_eq_iff)
  have "store_ok L linv l1 bp2"
    using bp2 kl st(3) w lg by (auto simp: store_ok_def lsns_ok_def log_kept_def)
  moreover have "redo_record tables dpt L (k, r) (l, bp) = (Inr (), l1, bp2)"
    using entry_RecordType [OF e(1)] entry_reads(2) [OF e(1)] entry_RID [OF e(1,3)] e(3) dpt v(1,2) b(2) g(1) bp2(1)
    by (simp add: redo_record_def frame_LSN_page)
  moreover have "page_current tables hs S ?pid (Bytes g)"
  proof -
    have op: "on_page_of ?pid e" using e(3) by (simp add: on_page_of_def)
    have "fold do_entry (upto k hs) S ?pid = do_entry e (fold do_entry (upto ?p hs) S) ?pid"
      using fold_page_cong [of S ?pid S "upto k hs"] fold_page_cong [of S ?pid S "upto ?p hs @ [e]"] op
        upto_next [OF lf e(2) op b(2) prev] by simp
    also have "\<dots> = Some (ss[slot_no rid := slot_do e (ss ! slot_no rid)])" using e(3) ss(4) by (simp add: do_entry_def upd_slot_def)
    finally have "page_at tables ?pid (Bytes g) = fold do_entry (upto k hs) S ?pid"
      using heap_bytes_magic [OF wf_page_bytes(1) [OF g(2)]] wf_page_bytes(1) [OF g(2)] g(4) by (simp add: page_at_def)
    then show ?thesis using en(2) heap_bytes_magic [OF wf_page_bytes(1) [OF g(2)]] by (simp add: page_current_def lg)
  qed
  then have "pool_current tables hs S bp2" using cur bp2(4) by (simp add: pool_current_def)
  moreover have "later bp bp2" using bp2(4) b lg by (auto simp: later_def split: option.splits)
  ultimately show thesis using that kl bp2(4) lg by simp
qed

text \<open>A record that the page already has, or that recovery need not look at, changes no page.\<close>

lemma redo_skip:
  assumes ok: "store_ok L linv l bp" and e: "is_entry r e"
    and b: "\<And>rid. entry_rid e = Some rid \<Longrightarrow> \<exists>b. pool_view bp (ridPage rid) = Some b \<and> sint k \<le> sint (page_LSN b)"
  obtains l' bp' where "redo_record tables dpt L (k, r) (l, bp) = (Inr (), l', bp')" "store_ok L linv l' bp'" "log_kept L history l l'"
    "pool_view bp' = pool_view bp"
proof (cases "\<exists>rid rl. entry_rid e = Some rid \<and> map_of dpt (ridPage rid) = Some rl \<and> sint rl \<le> sint k")
  case False
  then have "redo_record tables dpt L (k, r) (l, bp) = (Inr (), l, bp)"
    using entry_RecordType [OF e] entry_reads(2) [OF e] entry_RID [OF e]
    by (cases "entry_rid e") (auto simp: redo_record_def not_le split: option.splits)
  then show thesis using that ok by (simp add: log_kept_def)
next
  case True
  then obtain rid rl where r: "entry_rid e = Some rid" "map_of dpt (ridPage rid) = Some rl" "sint rl \<le> sint k" by blast
  let ?pid = "ridPage rid"
  obtain b where b: "pool_view bp ?pid = Some b" "sint k \<le> sint (page_LSN b)" using assms(3) [OF r(1)] by blast
  have st: "pool_ok bp" "quiet bp" "lsns_ok L l bp" "linv l" using ok by (simp_all add: store_ok_def)
  obtain a l1 bp1 where v: "GetPage L ?pid (l, bp) = (Inr a, l1, bp1)" "pageId (frames bp1 a) = ?pid" "Bytes (frames bp1 a) = b" "length b = PageSize"
      "synced L l (storageManager bp) l1 (storageManager bp1)" "cached (frames bp1 a) \<longrightarrow> wf_heap_page (frames bp1 a)"
      "\<And>g dirty. edit_ok (frames bp1 a) g dirty \<Longrightarrow> \<exists>bp''. UnpinPage a dirty (put_frame a g bp1) = Inr bp'' \<and>
         pool_ok bp'' \<and> quiet bp'' \<and> storageManager bp'' = storageManager bp1 \<and> pool_view bp'' = (pool_view bp)(?pid \<mapsto> Bytes g)"
    using visit_page [OF st(1,2) b(1) st(3)] by blast
  have "edit_ok (frames bp1 a) (frames bp1 a) False" using v(3,4,6) by (simp add: edit_ok_def)
  moreover have "put_frame a (frames bp1 a) bp1 = bp1" by (simp add: put_frame_def upd_frame_def)
  ultimately obtain bp2 where bp2: "UnpinPage a False bp1 = Inr bp2" "pool_ok bp2" "quiet bp2" "pool_view bp2 = pool_view bp"
    using v(7) [of "frames bp1 a" False] b(1) v(3) by (auto simp: fun_upd_idem)
  have kl: "linv l1 \<and> log_kept L history l l1"
    using v(5) wait_law [OF st(4)] st(4) by (fastforce simp: synced_def log_kept_def prod_eq_iff)
  have "redo_record tables dpt L (k, r) (l, bp) = (Inr (), l1, bp2)"
    using entry_RecordType [OF e] entry_reads(2) [OF e] entry_RID [OF e r(1)] r v(1,3) b(2) bp2(1)
    by (simp add: redo_record_def frame_LSN_page)
  moreover have "store_ok L linv l1 bp2" using bp2 kl st(3) by (auto simp: store_ok_def lsns_ok_def log_kept_def)
  ultimately show thesis using that kl bp2(4) by blast
qed

lemma laterD: "later bp bp' \<Longrightarrow> pool_view bp' pid = Some b' \<Longrightarrow> \<exists>b. pool_view bp pid = Some b \<and> sint (page_LSN b) \<le> sint (page_LSN b')"
  unfolding later_def by (auto split: option.splits dest!: spec [of _ pid])

lemma seen_later: "seen es bp \<Longrightarrow> later bp bp' \<Longrightarrow> seen es bp'"
  unfolding seen_def using laterD [of bp bp'] order_trans by (fastforce dest: laterD)

lemma redo_record_ok:
  assumes ok: "store_ok L linv l bp" and t: "tables_ok tables" and lf: "log_fits (pre @ (k, e) # post) S"
    and cur: "pool_current tables (pre @ (k, e) # post) S bp" and r: "is_entry r e" "waits L l k" "seen pre bp"
    and dpt: "\<And>rid b. entry_rid e = Some rid \<Longrightarrow> pool_view bp (ridPage rid) = Some b \<Longrightarrow> sint (page_LSN b) < sint k \<Longrightarrow>
      \<exists>rl. map_of dpt (ridPage rid) = Some rl \<and> sint rl \<le> sint k"
  obtains l' bp' where "redo_record tables dpt L (k, r) (l, bp) = (Inr (), l', bp')" "store_ok L linv l' bp'" "log_kept L history l l'"
    "pool_current tables (pre @ (k, e) # post) S bp'" "later bp bp'" "seen (pre @ [(k, e)]) bp'"
proof (cases "\<exists>rid b. entry_rid e = Some rid \<and> pool_view bp (ridPage rid) = Some b \<and> sint (page_LSN b) < sint k")
  case True
  then obtain rid b where b: "entry_rid e = Some rid" "pool_view bp (ridPage rid) = Some b" "sint (page_LSN b) < sint k" by blast
  obtain rl where rl: "map_of dpt (ridPage rid) = Some rl" "sint rl \<le> sint k" using dpt [OF b] by blast
  have "(j, e') \<in> set pre" if "(j, e') \<in> set (pre @ (k, e) # post)" "sint j < sint k" for j e'
    using that lf by (auto simp: log_fits_def sorted_wrt_append)
  then have prev: "sint j \<le> sint (page_LSN b)"
    if "(j, e') \<in> set (pre @ (k, e) # post)" "on_page_of (ridPage rid) e'" "sint j < sint k" for j e'
    using that r(3) b(2) unfolding seen_def by fast
  have ke: "(k, e) \<in> set (pre @ (k, e) # post)" by simp
  obtain l' bp' where s: "redo_record tables dpt L (k, r) (l, bp) = (Inr (), l', bp')" "store_ok L linv l' bp'" "log_kept L history l l'"
      "pool_current tables (pre @ (k, e) # post) S bp'" "later bp bp'" "\<And>b'. pool_view bp' (ridPage rid) = Some b' \<Longrightarrow> page_LSN b' = k"
    by (rule redo_page_step [OF ok t lf cur r(1) ke b(1) r(2) b(2,3) _ rl]) (erule (2) prev, rule that)
  have "seen [(k, e)] bp'" using s(6) b(1) by (auto simp: seen_def on_page_of_def)
  then have "seen (pre @ [(k, e)]) bp'" using seen_later [OF r(3) s(5)] by (auto simp: seen_def)
  then show thesis using that s by blast
next
  case False
  have "fits S e" using lf by (simp add: log_fits_def)
  then have "\<exists>b. pool_view bp (ridPage rid) = Some b \<and> sint k \<le> sint (page_LSN b)" if rid: "entry_rid e = Some rid" for rid
  proof (cases "pool_view bp (ridPage rid)")
    case None
    then have "S (ridPage rid) = None" using cur by (auto simp: pool_current_def split: option.splits dest: spec [of _ "ridPage rid"])
    then show ?thesis using \<open>fits S e\<close> rid by (simp add: fits_def rid_ok_def)
  qed (use False rid in \<open>auto simp: not_less\<close>)
  note here = this
  obtain l' bp' where s: "redo_record tables dpt L (k, r) (l, bp) = (Inr (), l', bp')" "store_ok L linv l' bp'" "log_kept L history l l'"
      "pool_view bp' = pool_view bp"
    by (rule redo_skip [OF ok r(1) here])
  have "seen [(k, e)] bp" using here by (fastforce simp: seen_def on_page_of_def)
  then have "seen (pre @ [(k, e)]) bp'" using r(3) s(4) by (auto simp: seen_def)
  moreover have "pool_current tables (pre @ (k, e) # post) S bp'" using cur s(4) by (simp add: pool_current_def)
  moreover have "later bp bp'" using s(4) by (auto simp: later_def split: option.splits)
  ultimately show thesis using that s by blast
qed

lemma dpt_covers_later: "dpt_covers dpt es bp \<Longrightarrow> later bp bp' \<Longrightarrow> dpt_covers dpt es bp'"
  unfolding dpt_covers_def
proof (intro ballI, clarify)
  fix k e rid b'
  assume a: "\<forall>(k, e) \<in> set es. \<forall>rid b. entry_rid e = Some rid \<longrightarrow> pool_view bp (ridPage rid) = Some b \<longrightarrow>
     sint (page_LSN b) < sint k \<longrightarrow> (\<exists>rl. map_of dpt (ridPage rid) = Some rl \<and> sint rl \<le> sint k)"
    and l: "later bp bp'" and k: "(k, e) \<in> set es" "entry_rid e = Some rid" "pool_view bp' (ridPage rid) = Some b'" "sint (page_LSN b') < sint k"
  obtain b where "pool_view bp (ridPage rid) = Some b" "sint (page_LSN b) \<le> sint (page_LSN b')" using laterD [OF l k(3)] by blast
  then show "\<exists>rl. map_of dpt (ridPage rid) = Some rl \<and> sint rl \<le> sint k" using a k by fastforce
qed

lemma redo_fold:
  assumes "store_ok L linv l bp" "tables_ok tables" "log_fits (pre @ es) S" "pool_current tables (pre @ es) S bp"
    "delivers recs es" "\<forall>(k, _) \<in> set es. waits L l k" "seen pre bp" "dpt_covers dpt es bp"
  obtains l' bp' where "fold (\<lambda>r st. bindS st (\<lambda>_ s'. redo_record tables dpt L r s')) recs (Inr (), l, bp) = (Inr (), l', bp')"
    "store_ok L linv l' bp'" "log_kept L history l l'" "pool_current tables (pre @ es) S bp'" "seen (pre @ es) bp'" "later bp bp'"
  using assms
proof (induction es arbitrary: pre recs l bp thesis)
  case Nil
  then have "recs = []" by (simp add: delivers_def)
  then show ?case using Nil.prems(1) [of l bp] Nil.prems later_refl by (simp add: log_kept_def)
next
  case (Cons x es)
  obtain k e where x: "x = (k, e)" by fastforce
  obtain r recs' where r: "recs = (k, r) # recs'" "is_entry r e" "delivers recs' es"
    using Cons.prems(6) by (auto simp: delivers_def x list_all2_Cons2)
  have w: "waits L l k" using Cons.prems(7) x by simp
  have d: "\<exists>rl. map_of dpt (ridPage rid) = Some rl \<and> sint rl \<le> sint k"
    if "entry_rid e = Some rid" "pool_view bp (ridPage rid) = Some b" "sint (page_LSN b) < sint k" for rid b
    using Cons.prems(9) that x unfolding dpt_covers_def by fastforce
  obtain l1 bp1 where s: "redo_record tables dpt L (k, r) (l, bp) = (Inr (), l1, bp1)" "store_ok L linv l1 bp1" "log_kept L history l l1"
      "pool_current tables (pre @ (k, e) # es) S bp1" "later bp bp1" "seen (pre @ [(k, e)]) bp1"
    by (rule redo_record_ok [OF Cons.prems(2,3) Cons.prems(4,5) [unfolded x] r(2) w Cons.prems(8)]) (erule (2) d, rule that)
  have c: "log_fits ((pre @ [x]) @ es) S" "pool_current tables ((pre @ [x]) @ es) S bp1" "seen (pre @ [x]) bp1"
    using Cons.prems(4) s(4,6) x by simp_all
  have w1: "\<forall>(k, _) \<in> set es. waits L l1 k" using Cons.prems(7) s(3) by (auto simp: log_kept_def)
  have d1: "dpt_covers dpt es bp1"
    using dpt_covers_later [OF Cons.prems(9) s(5)] by (simp add: dpt_covers_def)
  obtain l2 bp2 where f: "fold (\<lambda>r st. bindS st (\<lambda>_ s'. redo_record tables dpt L r s')) recs' (Inr (), l1, bp1) = (Inr (), l2, bp2)"
      "store_ok L linv l2 bp2" "log_kept L history l1 l2" "pool_current tables ((pre @ [x]) @ es) S bp2" "seen ((pre @ [x]) @ es) bp2" "later bp1 bp2"
    by (rule Cons.IH [OF _ s(2) Cons.prems(3) c(1,2) r(3) w1 c(3) d1])
  have "later bp bp2" unfolding later_def
  proof (intro allI)
    fix pid
    show "case pool_view bp pid of None \<Rightarrow> pool_view bp2 pid = None
        | Some b \<Rightarrow> \<exists>b'. pool_view bp2 pid = Some b' \<and> sint (page_LSN b) \<le> sint (page_LSN b')"
      using s(5) f(6) unfolding later_def by (auto split: option.splits dest!: spec [of _ pid])
  qed
  then show ?case using Cons.prems(1) [of l2 bp2] f s(1,3) by (simp add: r(1) log_kept_def)
qed

text \<open>The end of redo: every page has every record.\<close>

lemma seen_all:
  assumes "pool_current tables hs S bp" "seen hs bp" "pool_view bp pid = Some b"
  shows "page_at tables pid b = fold do_entry (map snd hs) S pid"
proof -
  have "sint (fst x) \<le> sint (page_LSN b)" if "x \<in> set hs" "on_page_of pid (snd x)" for x
    using assms(2,3) that unfolding seen_def by fastforce
  then have "\<forall>x \<in> set hs. on_page_of pid (snd x) \<longrightarrow> sint (fst x) \<le> sint (page_LSN b)" by blast
  then have "filter (on_page_of pid) (upto (page_LSN b) hs) = filter (on_page_of pid) (map snd hs)"
    unfolding upto_def by (induction hs) auto
  then show ?thesis
    using assms(1,3) fold_page_cong [of S pid S "upto (page_LSN b) hs"] fold_page_cong [of S pid S "map snd hs"]
    by (auto simp: pool_current_def page_current_def split: option.splits dest!: spec [of _ pid])
qed

end

end
