(* ===== verification/Recovery_Phases.thy ===== *)
theory Recovery_Phases
  imports Recovery_Redo
begin

text \<open>
  The phases of crash recovery against the history of the log: analysis finds the
  transactions that never ended and a recovery position for every page with records, and
  redo, run with what analysis found, brings every page to the state at the end of the log.
\<close>

section \<open>Analysis on the entries of the log\<close>

text \<open>
  A checkpoint record holds the two tables that \<open>Checkpoint\<close> wrote, whose recovery positions
  are positions of the log, or 0, before the record.
\<close>

definition ckpt_sane :: "(LSN \<times> log_entry) list \<Rightarrow> LSN \<times> log_entry \<Rightarrow> bool" where
  "ckpt_sane hs x \<longleftrightarrow> (\<forall>p. snd x = EndCkptE p \<longrightarrow>
     (\<exists>att dpt. p = ckpt_payload att dpt \<and> 8 + 16 * length att + 16 * length dpt < 2 ^ 31 \<and>
       (\<forall>rl \<in> snd ` set dpt. (rl = 0 \<or> rl \<in> fst ` set hs) \<and> sint rl \<le> sint (fst x))))"

fun analyzed :: "LSN \<times> log_entry \<Rightarrow> analysis \<Rightarrow> analysis" where
  "analyzed (k, CommitE t) an = see_txn t (an\<lparr>inactiveTransaction := t # inactiveTransaction an, att_of := AList.delete t (att_of an)\<rparr>)"
| "analyzed (k, AbortE t) an = see_txn t (an\<lparr>inactiveTransaction := t # inactiveTransaction an, att_of := AList.delete t (att_of an)\<rparr>)"
| "analyzed (k, BeginE t) an = ckpt_txn t k an"
| "analyzed (k, EndCkptE p) an = projr (ckpt_record p an)"
| "analyzed (k, e) an = (case (entry_rid e, entry_txn e) of (Some rid, Some t) \<Rightarrow> see_txn t (page_dirty (ridPage rid) k an) | _ \<Rightarrow> an)"

lemma analyze_entry:
  assumes "is_entry r e" "ckpt_sane hs (k, e)"
  shows "analyze (k, r) an = Inr (analyzed (k, e) an)"
proof -
  note rd = entry_RecordType [OF assms(1)] entry_reads [OF assms(1)] entry_RID [OF assms(1)]
  have "\<exists>an'. ckpt_record p an = Inr an'" if "e = EndCkptE p" for p
    using assms(2) that ckpt_record_payload by (fastforce simp: ckpt_sane_def)
  then show ?thesis using rd by (cases e) (auto simp: analyze_def log_types has_rid_def Let_def)
qed

lemma Analysis_fold:
  assumes "Iterator L l lsn = Inr (recs, None)" "delivers recs es" "\<forall>x \<in> set es. ckpt_sane hs x"
  shows "Analysis L l lsn = (Inr (), fold analyzed es no_analysis)"
proof -
  have "fold (\<lambda>r st. bindS st (\<lambda>_ s'. stepS (analyze r s') s' (\<lambda>an'. (Inr (), an')))) recs (Inr (), an) = (Inr (), fold analyzed es an)" for an
    using assms(2,3)
  proof (induction es arbitrary: recs an)
    case (Cons x es)
    obtain k e where x: "x = (k, e)" by fastforce
    obtain r recs' where "recs = (k, r) # recs'" "is_entry r e" "delivers recs' es"
      using Cons.prems(1) by (auto simp: delivers_def x list_all2_Cons2)
    then show ?case using Cons analyze_entry [of r e hs k] by (simp add: x)
  qed (simp add: delivers_def)
  then show ?thesis using assms(1) by (simp add: Analysis_def over_log_def)
qed

text \<open>The transactions that began, or that a checkpoint lists as active, and those that ended.\<close>

fun begins :: "log_entry \<Rightarrow> TransactionID set" where
  "begins (BeginE t) = {t}"
| "begins (EndCkptE p) = {t. \<exists>att dpt. p = ckpt_payload att dpt \<and> t \<in> ATT_ID ` set att}"
| "begins _ = {}"

definition begun :: "(LSN \<times> log_entry) list \<Rightarrow> TransactionID set" where
  "begun es = (\<Union>x \<in> set es. begins (snd x))"

definition ended :: "(LSN \<times> log_entry) list \<Rightarrow> TransactionID set" where
  "ended es = {t. \<exists>k. (k, CommitE t) \<in> set es \<or> (k, AbortE t) \<in> set es}"

lemma see_txn_fields [simp]:
  "dpt_of (see_txn t an) = dpt_of an" "att_of (see_txn t an) = att_of an" "inactiveTransaction (see_txn t an) = inactiveTransaction an"
  "largestTxn (see_txn t an) = max (largestTxn an) t"
  by (auto simp: see_txn_def max_def)

lemma page_dirty_fields [simp]:
  "att_of (page_dirty p k an) = att_of an" "inactiveTransaction (page_dirty p k an) = inactiveTransaction an"
  "largestTxn (page_dirty p k an) = largestTxn an"
  by (simp_all add: page_dirty_def)

lemma ckpt_txn_fields [simp]:
  "dpt_of (ckpt_txn t k an) = dpt_of an" "inactiveTransaction (ckpt_txn t k an) = inactiveTransaction an"
  "largestTxn (ckpt_txn t k an) = max (largestTxn an) t"
  "fst ` set (att_of (ckpt_txn t k an)) = (if t \<in> set (inactiveTransaction an) then {} else {t}) \<union> fst ` set (att_of an)"
  "distinct (map fst (att_of an)) \<Longrightarrow> distinct (map fst (att_of (ckpt_txn t k an)))"
proof -
  have "fst ` set (AList.update t k xs) = insert t (fst ` set xs)" for xs :: "(TransactionID \<times> LSN) list"
    using dom_update [of t k xs] by (metis dom_map_of_conv_image_fst insert_is_Un)
  then show "fst ` set (att_of (ckpt_txn t k an)) = (if t \<in> set (inactiveTransaction an) then {} else {t}) \<union> fst ` set (att_of an)"
    by (simp add: ckpt_txn_def)
qed (simp_all add: ckpt_txn_def distinct_update)

text \<open>What a checkpoint record adds to the tables.\<close>

lemma ckpt_fold:
  fixes att dpt an
  defines "an' \<equiv> fold (\<lambda>(p, lsn). page_dirty p lsn) dpt (fold (\<lambda>e. ckpt_txn (ATT_ID e) (StartLSN e)) att an)"
  shows "map_of (dpt_of an') = map_of dpt ++ map_of (dpt_of an)" "inactiveTransaction an' = inactiveTransaction an"
    "largestTxn an \<le> largestTxn an' \<and> (\<forall>t \<in> ATT_ID ` set att. t \<le> largestTxn an')"
    "fst ` set (att_of an') = (ATT_ID ` set att - set (inactiveTransaction an)) \<union> fst ` set (att_of an)"
    "distinct (map fst (att_of an)) \<Longrightarrow> distinct (map fst (att_of an'))"
proof -
  let ?f = "\<lambda>an. fold (\<lambda>e. ckpt_txn (ATT_ID e) (StartLSN e)) att an"
  have d: "inactiveTransaction (fold (\<lambda>(p, lsn). page_dirty p lsn) dpt b) = inactiveTransaction b"
      "largestTxn (fold (\<lambda>(p, lsn). page_dirty p lsn) dpt b) = largestTxn b" for b
    by (induction dpt arbitrary: b) (simp_all add: case_prod_unfold)
  have a: "inactiveTransaction (?f an) = inactiveTransaction an \<and> dpt_of (?f an) = dpt_of an \<and>
      fst ` set (att_of (?f an)) = (ATT_ID ` set att - set (inactiveTransaction an)) \<union> fst ` set (att_of an) \<and>
      (distinct (map fst (att_of an)) \<longrightarrow> distinct (map fst (att_of (?f an)))) \<and>
      largestTxn an \<le> largestTxn (?f an) \<and> (\<forall>t \<in> ATT_ID ` set att. t \<le> largestTxn (?f an))" for an
  proof (induction att arbitrary: an)
    case (Cons e att)
    note ih = Cons.IH [of "ckpt_txn (ATT_ID e) (StartLSN e) an"]
    have "largestTxn (ckpt_txn (ATT_ID e) (StartLSN e) an) \<le> largestTxn (fold (\<lambda>e. ckpt_txn (ATT_ID e) (StartLSN e)) att (ckpt_txn (ATT_ID e) (StartLSN e) an))"
      using ih by blast
    then have "largestTxn an \<le> largestTxn (fold (\<lambda>e. ckpt_txn (ATT_ID e) (StartLSN e)) (e # att) an)"
      "ATT_ID e \<le> largestTxn (fold (\<lambda>e. ckpt_txn (ATT_ID e) (StartLSN e)) (e # att) an)" by simp_all
    with ih show ?case by (intro conjI) (simp_all, blast)
  qed simp
  show "map_of (dpt_of an') = map_of dpt ++ map_of (dpt_of an)" "inactiveTransaction an' = inactiveTransaction an"
    "largestTxn an \<le> largestTxn an' \<and> (\<forall>t \<in> ATT_ID ` set att. t \<le> largestTxn an')"
    "fst ` set (att_of an') = (ATT_ID ` set att - set (inactiveTransaction an)) \<union> fst ` set (att_of an)"
    "distinct (map fst (att_of an)) \<Longrightarrow> distinct (map fst (att_of an'))"
    using a [of an] by (simp_all add: an'_def d page_dirty_fold)
qed


text \<open>The tables after analysis, as an invariant of its loop over a prefix of the log.\<close>

definition analysis_ok :: "(LSN \<times> log_entry) list \<Rightarrow> (LSN \<times> log_entry) list \<Rightarrow> analysis \<Rightarrow> bool" where
  "analysis_ok hs es an \<longleftrightarrow>
     set (inactiveTransaction an) = ended es \<and> distinct (map fst (att_of an)) \<and>
     fst ` set (att_of an) = begun es - ended es \<and>
     (\<forall>t \<in> begun es \<union> {t. \<exists>x \<in> set es. entry_txn (snd x) = Some t}. t \<le> largestTxn an) \<and>
     (\<forall>x \<in> set es. \<forall>rid. entry_rid (snd x) = Some rid \<longrightarrow>
        (\<exists>rl. map_of (dpt_of an) (ridPage rid) = Some rl \<and> sint rl \<le> sint (fst x))) \<and>
     (\<forall>pid rl. map_of (dpt_of an) pid = Some rl \<longrightarrow> (rl = 0 \<or> rl \<in> fst ` set hs) \<and> (\<exists>x \<in> set es. sint rl \<le> sint (fst x)))"

lemma analysis_okD:
  assumes "analysis_ok hs es an"
  shows "fst ` set (att_of an) = begun es - ended es" "x \<in> set es \<Longrightarrow> entry_txn (snd x) = Some t \<Longrightarrow> t \<le> largestTxn an"
    "x \<in> set es \<Longrightarrow> entry_rid (snd x) = Some rid \<Longrightarrow> \<exists>rl. map_of (dpt_of an) (ridPage rid) = Some rl \<and> sint rl \<le> sint (fst x)"
    "map_of (dpt_of an) pid = Some rl \<Longrightarrow> rl = 0 \<or> rl \<in> fst ` set hs"
  using assms unfolding analysis_ok_def by auto

lemma payload_att:
  assumes "ckpt_payload att dpt = ckpt_payload att' dpt'" "8 + 16 * length att + 16 * length dpt < 2 ^ 31"
  shows "ATT_ID ` set att = ATT_ID ` set att'"
proof -
  have l: "length (ckpt_payload a d) = 8 + 16 * length a + 16 * length d" for a d by (simp add: ckpt_payload_def)
  have s': "8 + 16 * length att' + 16 * length dpt' < 2 ^ 31" using assms l by metis
  have "fst ` set (att_of (projr (ckpt_record (ckpt_payload att dpt) no_analysis))) = ATT_ID ` set att"
    "fst ` set (att_of (projr (ckpt_record (ckpt_payload att' dpt') no_analysis))) = ATT_ID ` set att'"
    using ckpt_fold(4) [where an = no_analysis]
    by (simp_all add: ckpt_record_payload [OF assms(2)] ckpt_record_payload [OF s'] no_analysis_def)
  then show ?thesis using assms(1) by simp
qed

lemma begun_ended_snoc:
  "ended (es @ [(k, e)]) = ended es \<union> (case e of CommitE t \<Rightarrow> {t} | AbortE t \<Rightarrow> {t} | _ \<Rightarrow> {})"
  "(\<And>p. e \<noteq> EndCkptE p) \<Longrightarrow> begun (es @ [(k, e)]) = begun es \<union> (case e of BeginE t \<Rightarrow> {t} | _ \<Rightarrow> {})"
  "8 + 16 * length att + 16 * length dpt < 2 ^ 31 \<Longrightarrow>
    begun (es @ [(k, EndCkptE (ckpt_payload att dpt))]) = begun es \<union> ATT_ID ` set att"
proof -
  show "ended (es @ [(k, e)]) = ended es \<union> (case e of CommitE t \<Rightarrow> {t} | AbortE t \<Rightarrow> {t} | _ \<Rightarrow> {})"
    by (cases e) (auto simp: ended_def)
  show "begun (es @ [(k, e)]) = begun es \<union> (case e of BeginE t \<Rightarrow> {t} | _ \<Rightarrow> {})" if "\<And>p. e \<noteq> EndCkptE p"
    using that by (cases e) (auto simp: begun_def)
  assume s: "8 + 16 * length att + 16 * length dpt < 2 ^ 31"
  have "ATT_ID y \<in> ATT_ID ` set att" if "ckpt_payload att' dpt' = ckpt_payload att dpt" "y \<in> set att'" for y att' dpt'
    using payload_att [OF that(1) [symmetric] s] that(2) by simp
  then have "begun [(k, EndCkptE (ckpt_payload att dpt))] = ATT_ID ` set att" by (auto simp: begun_def)
  moreover have "begun (es @ [x]) = begun es \<union> begun [x]" for x by (auto simp: begun_def)
  ultimately show "begun (es @ [(k, EndCkptE (ckpt_payload att dpt))]) = begun es \<union> ATT_ID ` set att" by simp
qed

lemma analysis_data:
  assumes ok: "analysis_ok hs es an" and e: "entry_rid e = Some rid" "entry_txn e = Some t" and k: "k \<in> fst ` set hs"
    and so: "\<forall>x \<in> set es. sint (fst x) < sint k"
  shows "analysis_ok hs (es @ [(k, e)]) (see_txn t (page_dirty (ridPage rid) k an))"
proof -
  have be: "begun (es @ [(k, e)]) = begun es" "ended (es @ [(k, e)]) = ended es"
    using begun_ended_snoc(1) [of es k e] begun_ended_snoc(2) [of e es k] e(1) by (cases e; simp)+
  have d: "map_of (dpt_of (page_dirty (ridPage rid) k an)) = [ridPage rid \<mapsto> k] ++ map_of (dpt_of an)"
    by (auto simp: page_dirty_def update_conv' fun_eq_iff map_add_def split: option.splits)
  have dp: "\<exists>rl. ([ridPage rid \<mapsto> k] ++ map_of (dpt_of an)) (ridPage rid') = Some rl \<and> sint rl \<le> sint (fst x)"
    if "x \<in> set (es @ [(k, e)])" "entry_rid (snd x) = Some rid'" for x rid'
  proof (cases "x \<in> set es")
    case True
    then show ?thesis using ok that(2) by (fastforce simp: analysis_ok_def map_add_def)
  next
    case False
    then have x: "x = (k, e)" "rid' = rid" using that e(1) by auto
    show ?thesis
    proof (cases "map_of (dpt_of an) (ridPage rid)")
      case (Some rl)
      then obtain y where "y \<in> set es" "sint rl \<le> sint (fst y)" using ok unfolding analysis_ok_def by blast
      then show ?thesis using so x Some by (force simp: map_add_def)
    qed (simp add: x map_add_def)
  qed
  have r: "(rl = 0 \<or> rl \<in> fst ` set hs) \<and> (\<exists>x \<in> set (es @ [(k, e)]). sint rl \<le> sint (fst x))"
    if "([ridPage rid \<mapsto> k] ++ map_of (dpt_of an)) pid = Some rl" for pid rl
  proof (cases "map_of (dpt_of an) pid = Some rl")
    case True
    then have "(rl = 0 \<or> rl \<in> fst ` set hs) \<and> (\<exists>x \<in> set es. sint rl \<le> sint (fst x))" using ok unfolding analysis_ok_def by blast
    then show ?thesis by auto
  qed (use that k in \<open>auto simp: map_add_def split: option.splits if_splits\<close>)
  show ?thesis
    using ok dp r e(2) unfolding analysis_ok_def be see_txn_fields page_dirty_fields d
    by (auto simp: le_max_iff_disj)
qed

lemma analysis_ckpt:
  assumes ok: "analysis_ok hs es an" and c: "ckpt_sane hs (k, EndCkptE p)"
  shows "analysis_ok hs (es @ [(k, EndCkptE p)]) (projr (ckpt_record p an))"
proof -
  obtain att dpt where p: "p = ckpt_payload att dpt" "8 + 16 * length att + 16 * length dpt < 2 ^ 31"
      "\<forall>rl \<in> snd ` set dpt. (rl = 0 \<or> rl \<in> fst ` set hs) \<and> sint rl \<le> sint k"
    using c by (auto simp: ckpt_sane_def)
  let ?an = "fold (\<lambda>(p, lsn). page_dirty p lsn) dpt (fold (\<lambda>e. ckpt_txn (ATT_ID e) (StartLSN e)) att an)"
  have an: "projr (ckpt_record p an) = ?an" by (simp add: p(1) ckpt_record_payload [OF p(2)])
  note f = ckpt_fold [where dpt = dpt and att = att and an = an]
  have be: "begun (es @ [(k, EndCkptE p)]) = begun es \<union> ATT_ID ` set att" "ended (es @ [(k, EndCkptE p)]) = ended es"
    using begun_ended_snoc(1) [of es k "EndCkptE p"] begun_ended_snoc(3) [OF p(2)] by (simp_all add: p(1))
  have 1: "t \<le> largestTxn ?an" if "t \<in> begun es \<union> ATT_ID ` set att \<union> {t. \<exists>x \<in> set es. entry_txn (snd x) = Some t}" for t
  proof (cases "t \<in> ATT_ID ` set att")
    case False
    then have "t \<in> begun es \<union> {t. \<exists>x \<in> set es. entry_txn (snd x) = Some t}" using that by auto
    then have "t \<le> largestTxn an" using ok unfolding analysis_ok_def by (elim conjE) (drule (1) bspec)
    then show ?thesis using f(3) by (meson order_trans)
  qed (use f(3) in blast)
  have 2: "\<exists>rl. (map_of dpt ++ map_of (dpt_of an)) (ridPage rid) = Some rl \<and> sint rl \<le> sint (fst x)"
    if "x \<in> set es" "entry_rid (snd x) = Some rid" for x rid
    using that ok by (fastforce simp: analysis_ok_def map_add_def)
  have 3: "(rl = 0 \<or> rl \<in> fst ` set hs) \<and> (\<exists>x \<in> set (es @ [(k, EndCkptE p)]). sint rl \<le> sint (fst x))"
    if "(map_of dpt ++ map_of (dpt_of an)) pid = Some rl" for pid rl
  proof (cases "map_of (dpt_of an) pid = Some rl")
    case True
    then have "(rl = 0 \<or> rl \<in> fst ` set hs) \<and> (\<exists>x \<in> set es. sint rl \<le> sint (fst x))" using ok unfolding analysis_ok_def by blast
    then show ?thesis by auto
  next
    case False
    then have "(pid, rl) \<in> set dpt" using that by (auto simp: map_add_def dest: map_of_SomeD split: option.splits)
    then show ?thesis using p(3) by force
  qed
  show ?thesis
    using ok 1 2 3 f(5) unfolding an analysis_ok_def be f(1,2,4) by (auto simp: )
qed

lemma analysis_step:
  assumes ok: "analysis_ok hs es an" and c: "ckpt_sane hs (k, e)" and k: "k \<in> fst ` set hs" and so: "\<forall>x \<in> set es. sint (fst x) < sint k"
  shows "analysis_ok hs (es @ [(k, e)]) (analyzed (k, e) an)"
proof -
  have ds: "distinct (map fst (AList.delete t xs))" "fst ` set (AList.delete t xs) = fst ` set xs - {t}"
    if "distinct (map fst xs)" for t and xs :: "(TransactionID \<times> LSN) list"
    using that by (simp_all add: distinct_delete) (force simp: AList.delete_eq)
  show ?thesis
  proof (cases e)
    case (BeginE t)
    have "begun (es @ [(k, e)]) = insert t (begun es)" "ended (es @ [(k, e)]) = ended es"
      using begun_ended_snoc(1) [of es k e] begun_ended_snoc(2) [of e es k] by (simp_all add: BeginE)
    then show ?thesis using ok by (auto simp: analysis_ok_def BeginE le_max_iff_disj)
  next
    case (CommitE t)
    have "begun (es @ [(k, e)]) = begun es" "ended (es @ [(k, e)]) = insert t (ended es)"
      using begun_ended_snoc(1) [of es k e] begun_ended_snoc(2) [of e es k] by (simp_all add: CommitE)
    then show ?thesis using ok ds by (auto simp: analysis_ok_def CommitE le_max_iff_disj)
  next
    case (AbortE t)
    have "begun (es @ [(k, e)]) = begun es" "ended (es @ [(k, e)]) = insert t (ended es)"
      using begun_ended_snoc(1) [of es k e] begun_ended_snoc(2) [of e es k] by (simp_all add: AbortE)
    then show ?thesis using ok ds by (auto simp: analysis_ok_def AbortE le_max_iff_disj)
  next
    case BeginCkptE
    have "begun (es @ [(k, e)]) = begun es" "ended (es @ [(k, e)]) = ended es"
      using begun_ended_snoc(1) [of es k e] begun_ended_snoc(2) [of e es k] by (simp_all add: BeginCkptE)
    then show ?thesis using ok by (auto simp: analysis_ok_def BeginCkptE)
  next
    case (EndCkptE p)
    then show ?thesis using analysis_ckpt [OF ok] c by simp
  qed (use analysis_data [OF ok _ _ k so] in simp_all)
qed

lemma analysis_fold:
  assumes "sorted_wrt (\<lambda>(j, _) (k, _). sint j < sint k) es" "set es \<subseteq> set hs" "\<forall>x \<in> set es. ckpt_sane hs x"
  shows "analysis_ok hs es (fold analyzed es no_analysis)"
  using assms
proof (induction es rule: rev_induct)
  case Nil
  show ?case by (simp add: analysis_ok_def no_analysis_def begun_def ended_def)
next
  case (snoc x es)
  obtain k e where x: "x = (k, e)" by fastforce
  have "analysis_ok hs es (fold analyzed es no_analysis)" using snoc by (simp add: sorted_wrt_append)
  moreover have "\<forall>x \<in> set es. sint (fst x) < sint k" using snoc.prems(1) x by (auto simp: sorted_wrt_append)
  ultimately show ?case using analysis_step [of hs es _ k e] snoc.prems by (force simp: x)
qed


section \<open>Redo from the position that analysis found\<close>

lemma smallest_recLSN_le: "sint (smallest_recLSN c dpt) \<le> sint c"
  "smallest_recLSN c dpt \<in> insert c (snd ` set dpt)"
proof -
  have "sint (smallest_recLSN c dpt) \<le> sint c \<and> smallest_recLSN c dpt \<in> insert c (snd ` set dpt)"
    unfolding smallest_recLSN_def
  proof (induction dpt arbitrary: c)
    case (Cons x dpt)
    show ?case
    proof (cases "sint (snd x) < sint c")
      case True
      then show ?thesis using Cons.IH [of "snd x"] by (simp add: case_prod_unfold)
    qed (use Cons.IH [of c] in \<open>auto simp: case_prod_unfold\<close>)
  qed simp
  then show "sint (smallest_recLSN c dpt) \<le> sint c" "smallest_recLSN c dpt \<in> insert c (snd ` set dpt)" by auto
qed

lemma split_at:
  assumes "sorted_wrt (\<lambda>(j, _) (k, _). sint j < sint k) hs"
  shows "hs = filter (\<lambda>(k, _). sint k < s) hs @ filter (\<lambda>(k, _). s \<le> sint k) hs"
  using assms
proof (induction hs)
  case (Cons x hs)
  show ?case
  proof (cases "sint (fst x) < s")
    case False
    then have "\<forall>y \<in> set hs. s \<le> sint (fst y)" using Cons.prems by fastforce
    then have "filter (\<lambda>(k, _). sint k < s) hs = []" "filter (\<lambda>(k, _). s \<le> sint k) hs = hs"
      by (auto simp: filter_empty_conv filter_id_conv case_prod_unfold not_less)
    then show ?thesis using False by (simp add: case_prod_unfold)
  qed (use Cons in \<open>auto simp: case_prod_unfold\<close>)
qed simp

lemma dpt_distinct: "distinct (map fst (dpt_of (fold analyzed es no_analysis)))" if "\<forall>x \<in> set es. ckpt_sane hs x"
proof -
  have pd: "distinct (map fst (dpt_of an)) \<Longrightarrow> distinct (map fst (dpt_of (page_dirty p k an)))" for p k an
    by (simp add: page_dirty_def distinct_update)
  have pf: "distinct (map fst (dpt_of an)) \<Longrightarrow> distinct (map fst (dpt_of (fold (\<lambda>(p, lsn). page_dirty p lsn) ds an)))" for ds an
    by (induction ds arbitrary: an) (simp_all add: case_prod_unfold pd)
  have tf: "dpt_of (fold (\<lambda>e. ckpt_txn (ATT_ID e) (StartLSN e)) att an) = dpt_of an" for att an
    by (induction att arbitrary: an) simp_all
  have st: "distinct (map fst (dpt_of (analyzed x an)))" if "distinct (map fst (dpt_of an))" "ckpt_sane hs x" for x an
  proof (cases x)
    case (Pair k e)
    show ?thesis
      using that pd
      by (cases e) (auto simp: Pair ckpt_sane_def ckpt_record_payload pf tf)
  qed
  have "distinct (map fst (dpt_of an)) \<Longrightarrow> distinct (map fst (dpt_of (fold analyzed es an)))" for an
    using \<open>\<forall>x \<in> set es. ckpt_sane hs x\<close> st by (induction es arbitrary: an) auto
  then show ?thesis by (simp add: no_analysis_def)
qed

lemma dpt_covers_analysis:
  assumes "analysis_ok hs es an" "seen old bp" "\<forall>x \<in> set new. x \<in> set old \<or> x \<in> set es"
  shows "dpt_covers (dpt_of an) new bp"
  unfolding dpt_covers_def
proof (intro ballI, clarify)
  fix k e rid b
  assume x: "(k, e) \<in> set new" "entry_rid e = Some rid" "pool_view bp (ridPage rid) = Some b" "sint (page_LSN b) < sint k"
  have "(k, e) \<notin> set old"
    using assms(2) x unfolding seen_def on_page_of_def by fastforce
  then have "(k, e) \<in> set es" using assms(3) x(1) by blast
  then show "\<exists>rl. map_of (dpt_of an) (ridPage rid) = Some rl \<and> sint rl \<le> sint k"
    using assms(1) x(2) unfolding analysis_ok_def by fastforce
qed

section \<open>Properties\<close>

text \<open>
  C5: Analysis finds the losers.  On a log that delivers its history, with growing sequence
  numbers and with checkpoint records as a checkpoint writes them (every recovery position in
  them is zero or the position of a record, and not after the checkpoint record), over the records from the master record's position on: analysis
  succeeds; its transaction table holds exactly the transactions that have a begin record, or an
  entry in a checkpoint record, and no commit or abort record; its largest transaction id is at
  least every id that occurs; its dirty page table has, for every record that changes a page, an
  entry of the page whose recovery position is not after the record; and every recovery
  position is zero or the position of a record.
\<close>

theorem analysis_finds_losers:
  assumes L: "log_reader L linv hist readable" and l: "linv l" "readable l" "lsn = 0 \<or> lsn \<in> fst ` set (hist l)"
    and so: "sorted_wrt (\<lambda>(j, _) (k, _). sint j < sint k) (hist l)"
    and es: "es = filter (\<lambda>(k, _). sint lsn \<le> sint k) (hist l)" and ck: "\<forall>x \<in> set es. ckpt_sane (hist l) x"
  shows "\<exists>an. Analysis L l lsn = (Inr (), an) \<and> dom (map_of (att_of an)) = begun es - ended es \<and>
    (\<forall>x \<in> set es. \<forall>t. entry_txn (snd x) = Some t \<longrightarrow> t \<le> largestTxn an) \<and>
    (\<forall>x \<in> set es. \<forall>rid. entry_rid (snd x) = Some rid \<longrightarrow>
       (\<exists>rl. map_of (dpt_of an) (ridPage rid) = Some rl \<and> sint rl \<le> sint (fst x))) \<and>
    (\<forall>pid rl. map_of (dpt_of an) pid = Some rl \<longrightarrow> rl = 0 \<or> rl \<in> fst ` set (hist l))"
proof -
  obtain recs where "Iterator L l lsn = Inr (recs, None)" "delivers recs es"
    using log_reader.iterator_law [OF L l] by (auto simp: es)
  then have a: "Analysis L l lsn = (Inr (), fold analyzed es no_analysis)" by (rule Analysis_fold [OF _ _ ck])
  have "analysis_ok (hist l) es (fold analyzed es no_analysis)"
    by (rule analysis_fold) (use so ck in \<open>auto simp: es sorted_wrt_filter\<close>)
  note d = analysis_okD [OF this]
  show ?thesis
    by (intro exI [of _ "fold analyzed es no_analysis"] conjI ballI allI impI a)
      (simp_all add: dom_map_of_conv_image_fst d)
qed

text \<open>
  C4: Redo repeats history.  Let the log deliver its history, whose sequence numbers grow, whose
  changes fit the slots that they change and whose checkpoint records a checkpoint has written;
  let every position of it be one that can be waited for, and the rows of every table fit into a
  page.  When every page that the crash left is current up to its own sequence number, and no
  page lacks a record from before the master record's position, redo with the tables and the
  start position that analysis computes succeeds and brings every page to the replay of the
  whole log; nothing is appended to the log.
\<close>

theorem redo_repeats_history:
  assumes L: "log_reader L linv hist readable" and ok: "store_ok L linv (logState tm) (bufferPool tm)" "readable (logState tm)" and t: "tables_ok tables"
    and hs: "hs = hist (logState tm)" "log_fits hs S" "pool_current tables hs S (bufferPool tm)" "\<forall>(k, _) \<in> set hs. waits L (logState tm) k"
    and c: "c = 0 \<or> c \<in> fst ` set hs" "\<forall>x \<in> set hs. ckpt_sane hs x" "seen (filter (\<lambda>(k, _). sint k < sint c) hs) (bufferPool tm)"
    and an: "Analysis L (logState tm) c = (res, an)"
  shows "res = Inr () \<and> (\<exists>tm'. redo_all tables (dpt_of an) L (smallest_recLSN c (dpt_of an)) tm = (Inr (), tm') \<and>
    store_ok L linv (logState tm') (bufferPool tm') \<and> hist (logState tm') = hs \<and>
    dom (pool_view (bufferPool tm')) = dom (pool_view (bufferPool tm)) \<and>
    (\<forall>pid b. pool_view (bufferPool tm') pid = Some b \<longrightarrow> page_at tables pid b = fold do_entry (map snd hs) S pid))"
proof -
  let ?es = "filter (\<lambda>(k, _). sint c \<le> sint k) hs" and ?s = "smallest_recLSN c (dpt_of an)"
  note S = log_reader.axioms(1) [OF L]
  have inv: "linv (logState tm)" using ok(1) by (simp add: store_ok_def)
  have so: "sorted_wrt (\<lambda>(j, _) (k, _). sint j < sint k) hs" using hs(2) by (simp add: log_fits_def)
  obtain recs0 where "Iterator L (logState tm) c = Inr (recs0, None)" "delivers recs0 ?es"
    using log_reader.iterator_law [OF L inv ok(2)] c(1) hs(1) by blast
  then have a: "Analysis L (logState tm) c = (Inr (), fold analyzed ?es no_analysis)"
    by (rule Analysis_fold [of _ _ _ _ _ hs]) (use c(2) in simp)
  have aok: "analysis_ok hs ?es an" using analysis_fold [of ?es hs] so c(2) a an by (simp add: sorted_wrt_filter)
  have an': "an = fold analyzed ?es no_analysis" using a an by simp
  have "distinct (map fst (dpt_of an))" unfolding an' by (rule dpt_distinct [of _ hs]) (use c(2) in simp)
  then have mo: "map_of (dpt_of an) pid = Some rl" if "(pid, rl) \<in> set (dpt_of an)" for pid rl using that by (rule map_of_is_SomeI)
  have rl: "rl = 0 \<or> rl \<in> fst ` set hs" if "rl \<in> snd ` set (dpt_of an)" for rl
    using that analysis_okD(4) [OF aok mo] by fastforce
  have s: "?s = 0 \<or> ?s \<in> fst ` set hs" "sint ?s \<le> sint c"
    using smallest_recLSN_le [of c "dpt_of an"] c(1) rl by auto
  let ?pre = "filter (\<lambda>(k, _). sint k < sint ?s) hs" and ?post = "filter (\<lambda>(k, _). sint ?s \<le> sint k) hs"
  have sp: "?pre @ ?post = hs" using split_at [OF so, of "sint ?s"] by simp
  obtain recs where recs: "Iterator L (logState tm) ?s = Inr (recs, None)" "delivers recs ?post"
    using log_reader.iterator_law [OF L inv ok(2)] s(1) hs(1) by blast
  have pre: "seen ?pre (bufferPool tm)" using c(3) s(2) by (fastforce simp: seen_def)
  have cov: "dpt_covers (dpt_of an) ?post (bufferPool tm)"
    by (rule dpt_covers_analysis [OF aok c(3)]) (auto simp: not_le)
  have w: "\<forall>(k, _) \<in> set ?post. waits L (logState tm) k" using hs(4) by auto
  obtain l' bp' where r: "fold (\<lambda>r st. bindS st (\<lambda>_ s'. redo_record tables (dpt_of an) L r s')) recs (Inr (), logState tm, bufferPool tm) = (Inr (), l', bp')"
      "store_ok L linv l' bp'" "log_kept L hist (logState tm) l'" "pool_current tables hs S bp'" "seen hs bp'"
      "later (bufferPool tm) bp'"
    by (rule log_service.redo_fold [OF S ok(1) t _ _ recs(2) w pre cov]) (unfold sp, rule hs(2), rule hs(3), rule that)
  have "redo_all tables (dpt_of an) L ?s tm = (Inr (), tm\<lparr>logState := l', bufferPool := bp'\<rparr>)"
    using recs(1) r(1) by (simp add: redo_all_def over_log_def)
  moreover have "hist l' = hs" using r(3) hs(1) by (simp add: log_kept_def)
  moreover have "page_at tables pid b = fold do_entry (map snd hs) S pid" if "pool_view bp' pid = Some b" for pid b
    by (rule log_service.seen_all [OF S r(4,5) that])
  moreover have "pool_view bp' pid = None \<longleftrightarrow> pool_view (bufferPool tm) pid = None" for pid
    using r(6) by (auto simp: later_def split: option.splits dest!: spec [of _ pid])
  then have "dom (pool_view bp') = dom (pool_view (bufferPool tm))" unfolding dom_def by simp
  ultimately show ?thesis using a an r(2) by simp
qed


text \<open>A log with an insertion that never reached the page.\<close>

lemma unflushed_insert:
  obtains m bp S where "store_ok memory_log memory_inv m bp" "memory_history m = [(0, BeginE 7), (16, InsertE 7 demo_rid demo_row)]"
    "log_fits (memory_history m) S" "pool_current Map.empty (memory_history m) S bp" "\<forall>(k, _) \<in> set (memory_history m). waits memory_log m k"
    "pool_view bp (PageID 1 0) \<noteq> None"
proof -
  obtain hp where h: "wf_heap_page hp" "rowSize hp = 8" "numSlots hp = 494" "frame_LSN hp = 0" by (rule sample_page) (rule that)
  note w = wf_page_bytes [OF h(1)]
  let ?b = "Bytes hp" and ?r1 = "plain_record (BeginE 7)" and ?r2 = "plain_record (InsertE 7 demo_rid demo_row)"
  let ?S = "demo_slots (slots_of ?b)" and ?hs = "[(0, BeginE 7), (16, InsertE 7 demo_rid demo_row)] :: (LSN \<times> log_entry) list"
  have lb: "length ?b = PageSize" "heap_bytes_ok ?b" "page_LSN ?b = 0" using w h(4) by (simp_all add: frame_LSN_page)
  obtain bp where bp: "pool_ok bp" "quiet bp" "pool_view bp = [PageID 1 0 \<mapsto> ?b]" by (rule one_page_pool [OF lb(1)])
  have e: "is_entry ?r1 (BeginE 7)" "is_entry ?r2 (InsertE 7 demo_rid demo_row)"
    unfolding plain_record_def by (rule is_entryI; simp add: demo_row_def)+
  then have lo: "loggable ?r1" "loggable ?r2" "LogRecord_Size ?r1 = 16" "LogRecord_Size ?r2 < 100"
    using is_entry_length [OF e(1)] is_entry_length [OF e(2)] by (auto simp: loggable_def LogRecord_Size_def demo_row_def RecordIDSize_def)
  note rb1 = record_bytes [OF lo(1) e(1)] and rb2 = record_bytes [OF lo(2) e(2)]
  let ?m = "(NewMemoryLogManager Spins)\<lparr>mm_buffer := record_bytes ?r1 @ record_bytes ?r2\<rparr>"
  have inv: "memory_inv ?m"
    using lo rb1(2) rb2(2) by (auto simp: memory_inv_def NewMemoryLogManager_def intro!: exI [of _ "[?r1, ?r2]"])
  have hist: "memory_history ?m = ?hs"
    using scan_all [of "[?r1, ?r2]"] lo rb1(2,4) rb2(4) by (simp add: memory_history_def log_entries_def entry_at_def entry_of_is_entry)
  have wt: "waits memory_log ?m k" if "sint k \<le> 16" for k
    using memory_waits [OF inv, of k] that rb1(2) rb2(2) lo record_bytes_size(2) [OF lo(2)] by (simp add: NewMemoryLogManager_def)
  have "store_ok memory_log memory_inv ?m bp" using bp lb(3) inv wt [of 0] by (simp add: store_ok_def lsns_ok_def)
  moreover
  have ss: "length (slots_of ?b) = 494" "length (s_row (slots_of ?b ! 0)) = 8"
    using w h slots_row_length [OF w(1), of 0] by simp_all
  then have "slots_of ?b \<noteq> []" by (metis list.size(3) zero_neq_numeral)
  then have "log_fits (memory_history ?m) ?S" using ss
    unfolding hist by (simp add: log_fits_def fits_def rid_ok_def demo_slots_def demo_rid_def rid_slot_def slot_no_def slot_at_def demo_row_def)
  moreover have "pool_current Map.empty (memory_history ?m) ?S bp"
    using lb heap_bytes_magic [OF lb(2)]
    unfolding hist by (auto simp: pool_current_def page_current_def bp(3) demo_slots_def upto_def page_at_def do_entry_def)
  moreover have "\<forall>(k, _) \<in> set (memory_history ?m). waits memory_log ?m k" using wt by (simp add: hist)
  ultimately show thesis using that [of ?m bp ?S] hist bp(3) by simp
qed

theorem analysis_finds_losers_witness:
  "\<exists>m an. memory_history m = [(0, BeginE 7), (16, InsertE 7 demo_rid demo_row)] \<and>
     Analysis memory_log m 0 = (Inr (), an) \<and> dom (map_of (att_of an)) = {7}"
proof -
  obtain m bp S where m: "store_ok memory_log memory_inv m bp" "memory_history m = [(0, BeginE 7), (16, InsertE 7 demo_rid demo_row)]"
    by (rule unflushed_insert) (rule that)
  have "memory_inv m" using m(1) by (simp add: store_ok_def)
  with analysis_finds_losers [OF mem.log_reader_axioms, of m 0 "memory_history m"]
  obtain an where "Analysis memory_log m 0 = (Inr (), an)" "dom (map_of (att_of an)) = begun (memory_history m) - ended (memory_history m)"
    by (auto simp: m(2) ckpt_sane_def)
  then show ?thesis using m(2) by (auto simp: begun_def ended_def)
qed

theorem redo_repeats_history_witness:
  "\<exists>tm an tm' b S. Analysis memory_log (logState tm) 0 = (Inr (), an) \<and>
     redo_all Map.empty (dpt_of an) memory_log (smallest_recLSN 0 (dpt_of an)) (tm :: (MemoryLogManager, unit) TransactionManager) = (Inr (), tm') \<and>
     pool_view (bufferPool tm') (PageID 1 0) = Some b \<and>
     page_at Map.empty (PageID 1 0) b = do_entry (InsertE 7 demo_rid demo_row) S (PageID 1 0)"
proof -
  obtain m bp S where m: "store_ok memory_log memory_inv m bp" "memory_history m = [(0, BeginE 7), (16, InsertE 7 demo_rid demo_row)]"
      "log_fits (memory_history m) S" "pool_current Map.empty (memory_history m) S bp" "\<forall>(k, _) \<in> set (memory_history m). waits memory_log m k"
      "pool_view bp (PageID 1 0) \<noteq> None"
    by (rule unflushed_insert) (rule that)
  let ?tm = "NewTransactionManager m bp NewLockManager ()"
  obtain res an where a: "Analysis memory_log m 0 = (res, an)" by fastforce
  have t: "logState ?tm = m" "bufferPool ?tm = bp" by (simp_all add: NewTransactionManager_def)
  have ok: "tables_ok Map.empty" "\<forall>x \<in> set (memory_history m). ckpt_sane (memory_history m) x"
    "seen (filter (\<lambda>(k, _). sint k < sint (0 :: LSN)) (memory_history m)) bp"
    by (simp_all add: tables_ok_def m(2) ckpt_sane_def seen_def)
  obtain tm' where r: "res = Inr ()" "redo_all Map.empty (dpt_of an) memory_log (smallest_recLSN 0 (dpt_of an)) ?tm = (Inr (), tm')"
      "dom (pool_view (bufferPool tm')) = dom (pool_view bp)"
      "\<And>pid b. pool_view (bufferPool tm') pid = Some b \<Longrightarrow> page_at Map.empty pid b = fold do_entry (map snd (memory_history m)) S pid"
    using redo_repeats_history [OF mem.log_reader_axioms, of ?tm Map.empty "memory_history m" S 0 res an] m a ok unfolding t by auto
  then obtain b where b: "pool_view (bufferPool tm') (PageID 1 0) = Some b" using m(6) by blast
  have "page_at Map.empty (PageID 1 0) b = do_entry (InsertE 7 demo_rid demo_row) (do_entry (BeginE 7) S) (PageID 1 0)"
    using r(4) [OF b] by (simp add: m(2))
  with a r(1,2) b show ?thesis
    by (intro exI [of _ ?tm] exI [of _ an] exI [of _ tm'] exI [of _ b] exI [of _ "do_entry (BeginE 7) S"]) (simp add: t(1))
qed

end
