(* ===== verification/Expr.thy ===== *)
theory Expr
  imports Tuples
begin

text \<open>
  Expressions of query plans (\<^verbatim>\<open>planner/expr.go\<close>) and the logical columns they refer to
  (\<^verbatim>\<open>planner/logical_plan_types.go\<close>): evaluation on a tuple with SQL's three-valued logic,
  splitting and merging of conjunctions, and \<^verbatim>\<open>LIKE\<close> through the regular expressions of
  Go's library.
\<close>

section \<open>Logical columns\<close>

text \<open>
  Pointers to table references and columns are values; nil is \<open>None\<close>.  Comparing pointers
  first changes nothing: equal pointers have equal fields.
\<close>

record TableRef =
  tr_alias :: string
  refID :: "64 word"

definition TableRef_Equals :: "TableRef option \<Rightarrow> TableRef option \<Rightarrow> bool" where
  "TableRef_Equals t other =
     (case (t, other) of
        (None, None) \<Rightarrow> True
      | (Some a, Some b) \<Rightarrow> refID a = refID b \<or> (refID a = 0 \<or> refID b = 0) \<and> tr_alias a = tr_alias b
      | _ \<Rightarrow> False)"

record LogicalColumn =
  cname :: string
  ctype :: gtype
  origin :: "TableRef option"

text \<open>\<^verbatim>\<open>strings.EqualFold\<close> on ASCII names.\<close>

definition fold_char :: "char \<Rightarrow> nat" where
  "fold_char c = (let n = of_char c in if 65 \<le> n \<and> n \<le> 90 then n + 32 else n)"

definition EqualFold :: "string \<Rightarrow> string \<Rightarrow> bool" where
  "EqualFold s t \<longleftrightarrow> map fold_char s = map fold_char t"

definition LogicalColumn_Equals :: "LogicalColumn \<Rightarrow> LogicalColumn \<Rightarrow> bool" where
  "LogicalColumn_Equals c other =
     (if \<not> EqualFold (cname c) (cname other) \<or> ctype c \<noteq> ctype other then False
      else TableRef_Equals (origin c) (origin other))"

type_synonym LogicalSchema = "LogicalColumn list"

definition Schema_Contains :: "LogicalSchema \<Rightarrow> LogicalColumn \<Rightarrow> bool" where
  "Schema_Contains s target \<longleftrightarrow> list_ex (\<lambda>col. LogicalColumn_Equals col target) s"

definition Schema_Equals :: "LogicalSchema \<Rightarrow> LogicalSchema \<Rightarrow> bool" where
  "Schema_Equals s other \<longleftrightarrow> length s = length other \<and> list_all (Schema_Contains other) s \<and> list_all (Schema_Contains s) other"

definition Schema_Covers :: "LogicalSchema \<Rightarrow> LogicalSchema \<Rightarrow> bool" where
  "Schema_Covers s cols \<longleftrightarrow> list_all (Schema_Contains s) cols"

definition LogicalColumn_String :: "LogicalColumn \<Rightarrow> string" where
  "LogicalColumn_String c =
     (case origin c of
        Some t \<Rightarrow> if tr_alias t \<noteq> [] then tr_alias t @ ''.'' @ cname c else cname c
      | None \<Rightarrow> cname c)"

section \<open>Patterns\<close>

text \<open>
  Go's strings are bytes.  Converting one to runes decodes UTF-8; a byte that starts no
  valid sequence becomes the replacement character.
\<close>

definition RuneError :: nat where "RuneError = 0xFFFD"

definition cont :: "byte \<Rightarrow> byte \<Rightarrow> byte \<Rightarrow> bool" where
  "cont lo hi b \<longleftrightarrow> lo \<le> b \<and> b \<le> hi"

definition second_range :: "byte \<Rightarrow> byte \<times> byte" where
  "second_range b = (if b = 0xE0 then (0xA0, 0xBF) else if b = 0xED then (0x80, 0x9F)
     else if b = 0xF0 then (0x90, 0xBF) else if b = 0xF4 then (0x80, 0x8F) else (0x80, 0xBF))"

definition low6 :: "byte \<Rightarrow> nat" where "low6 b = unat (b AND 0x3F)"

fun runes :: "byte list \<Rightarrow> nat list" where
  "runes [] = []"
| "runes (b0 # bs) =
     (let (lo, hi) = second_range b0
      in if b0 < 0x80 then unat b0 # runes bs
         else case bs of
           b1 # bs1 \<Rightarrow>
             if 0xC2 \<le> b0 \<and> b0 \<le> 0xDF \<and> cont lo hi b1
             then (unat (b0 AND 0x1F) * 64 + low6 b1) # runes bs1
             else (case bs1 of
               b2 # bs2 \<Rightarrow>
                 if 0xE0 \<le> b0 \<and> b0 \<le> 0xEF \<and> cont lo hi b1 \<and> cont 0x80 0xBF b2
                 then (unat (b0 AND 0x0F) * 4096 + low6 b1 * 64 + low6 b2) # runes bs2
                 else (case bs2 of
                   b3 # bs3 \<Rightarrow>
                     if 0xF0 \<le> b0 \<and> b0 \<le> 0xF4 \<and> cont lo hi b1 \<and> cont 0x80 0xBF b2 \<and> cont 0x80 0xBF b3
                     then (unat (b0 AND 0x07) * 262144 + low6 b1 * 4096 + low6 b2 * 64 + low6 b3) # runes bs3
                     else RuneError # runes bs
                 | [] \<Rightarrow> RuneError # runes bs)
             | [] \<Rightarrow> RuneError # runes bs)
         | [] \<Rightarrow> [RuneError])"

text \<open>\<^verbatim>\<open>regexp.QuoteMeta\<close> of one rune: the characters \<^verbatim>\<open>\.+*?()|[]{}^$\<close> get a backslash.\<close>

definition rune :: "char \<Rightarrow> nat" where "rune c = of_char c"

definition meta_runes :: "nat list" where
  "meta_runes = map rune [CHR 0x5C, CHR ''.'', CHR ''+'', CHR ''*'', CHR ''?'', CHR ''('', CHR '')'', CHR ''|'', CHR 0x5B, CHR 0x5D,
     CHR 0x7B, CHR 0x7D, CHR ''^'', CHR ''$'']"

definition backslash :: nat where "backslash = 0x5C"

definition QuoteMeta :: "nat \<Rightarrow> nat list" where
  "QuoteMeta c = (if c \<in> set meta_runes then [backslash, c] else [c])"

text \<open>The loop of \<^verbatim>\<open>sqlLikeToRegexPattern\<close>: an escaped wildcard is literal.\<close>

fun like_loop :: "nat list \<Rightarrow> nat list" where
  "like_loop [] = []"
| "like_loop (c # cs) =
     (if c = backslash
      then (case cs of
              next # cs' \<Rightarrow> if next = rune CHR ''%'' \<or> next = rune CHR ''_'' then QuoteMeta next @ like_loop cs'
                            else QuoteMeta c @ like_loop cs
            | [] \<Rightarrow> QuoteMeta c)
      else if c = rune CHR ''%'' then [rune CHR ''.'', rune CHR ''*''] @ like_loop cs
      else if c = rune CHR ''_'' then [rune CHR ''.''] @ like_loop cs
      else QuoteMeta c @ like_loop cs)"

definition sqlLikeToRegexPattern :: "byte list \<Rightarrow> nat list" where
  "sqlLikeToRegexPattern pattern = rune CHR ''^'' # like_loop (runes pattern) @ [rune CHR ''$'']"

text \<open>
  The part of Go's regular expressions that these patterns use: literal characters, the dot,
  which does not match a newline, and the starred dot, between the two anchors.
\<close>

datatype rx = RxLit nat | RxDot | RxDots

fun rx_items :: "nat list \<Rightarrow> rx list option" where
  "rx_items [] = None"
| "rx_items (c # cs) =
     (if c = rune CHR ''$'' then (if cs = [] then Some [] else None)
      else if c = backslash then
        (case cs of
           d # cs' \<Rightarrow> if d \<in> set meta_runes then map_option ((#) (RxLit d)) (rx_items cs') else None
         | [] \<Rightarrow> None)
      else if c = rune CHR ''.'' then
        (case cs of
           d # cs' \<Rightarrow> if d = rune CHR ''*'' then map_option ((#) RxDots) (rx_items cs') else map_option ((#) RxDot) (rx_items cs)
         | [] \<Rightarrow> None)
      else if c \<in> set meta_runes then None
      else map_option ((#) (RxLit c)) (rx_items cs))"

definition regexp_Compile :: "nat list \<Rightarrow> rx list option" where
  "regexp_Compile p = (case p of c # cs \<Rightarrow> if c = rune CHR ''^'' then rx_items cs else None | [] \<Rightarrow> None)"

definition newline :: nat where "newline = 10"

fun rx_match :: "rx list \<Rightarrow> nat list \<Rightarrow> bool" where
  "rx_match [] s = (s = [])"
| "rx_match (RxLit c # r) s = (case s of d # s' \<Rightarrow> d = c \<and> rx_match r s' | [] \<Rightarrow> False)"
| "rx_match (RxDot # r) s = (case s of d # s' \<Rightarrow> d \<noteq> newline \<and> rx_match r s' | [] \<Rightarrow> False)"
| "rx_match (RxDots # r) s = (rx_match r s \<or> (case s of d # s' \<Rightarrow> d \<noteq> newline \<and> rx_match (RxDots # r) s' | [] \<Rightarrow> False))"

definition MatchString :: "rx list \<Rightarrow> byte list \<Rightarrow> bool" where
  "MatchString re target = rx_match re (runes target)"

section \<open>Expressions\<close>

datatype ComparisonType = Equal | NotEqual | GreaterThan | LessThan | GreaterThanOrEqual | LessThanOrEqual
datatype BinaryLogicType = And | Or
datatype NullCheckType = IsNull | IsNotNull
datatype ArithmeticType = Add | Sub | Mult | Div | Mod

datatype Expr =
    BoundValueExpr nat gtype string
  | ConstantValueExpr Value
  | ComparisonExpression Expr Expr ComparisonType
  | BinaryLogicExpression Expr Expr BinaryLogicType
  | NegationExpression Expr
  | NullCheckExpression Expr NullCheckType
  | ArithmeticExpression Expr Expr ArithmeticType
  | StringConcatExpression Expr Expr
  | LikeExpression Expr Expr "rx list option"
  | LogicalColumnExpr LogicalColumn

definition ExprIsTrue :: "Value \<Rightarrow> bool" where
  "ExprIsTrue v \<longleftrightarrow> val_t v = IntType \<and> \<not> val_null v \<and> val_int v \<noteq> 0"

definition ExprIsFalse :: "Value \<Rightarrow> bool" where
  "ExprIsFalse v \<longleftrightarrow> val_t v = IntType \<and> \<not> val_null v \<and> val_int v = 0"

definition bool_value :: "bool \<Rightarrow> Value" where
  "bool_value b = NewIntValue (if b then 1 else 0)"

fun compare_result :: "ComparisonType \<Rightarrow> int \<Rightarrow> bool" where
  "compare_result Equal c = (c = 0)"
| "compare_result NotEqual c = (c \<noteq> 0)"
| "compare_result GreaterThan c = (c > 0)"
| "compare_result LessThan c = (c < 0)"
| "compare_result GreaterThanOrEqual c = (c \<ge> 0)"
| "compare_result LessThanOrEqual c = (c \<le> 0)"

fun logic_result :: "BinaryLogicType \<Rightarrow> Value \<Rightarrow> Value \<Rightarrow> Value" where
  "logic_result And val1 val2 =
     (if ExprIsTrue val1 \<and> ExprIsTrue val2 then NewIntValue 1
      else if ExprIsFalse val1 \<or> ExprIsFalse val2 then NewIntValue 0 else NewNullInt)"
| "logic_result Or val1 val2 =
     (if ExprIsTrue val1 \<or> ExprIsTrue val2 then NewIntValue 1
      else if ExprIsFalse val1 \<and> ExprIsFalse val2 then NewIntValue 0 else NewNullInt)"

text \<open>Division truncates towards zero and wraps around on the one quotient that does not fit.\<close>

fun arith_result :: "ArithmeticType \<Rightarrow> 64 word \<Rightarrow> 64 word \<Rightarrow> Value" where
  "arith_result Add v1 v2 = NewIntValue (v1 + v2)"
| "arith_result Sub v1 v2 = NewIntValue (v1 - v2)"
| "arith_result Mult v1 v2 = NewIntValue (v1 * v2)"
| "arith_result Div v1 v2 = (if v2 = 0 then NewNullInt else NewIntValue (word_of_int (sint v1 sdiv sint v2)))"
| "arith_result Mod v1 v2 = (if v2 = 0 then NewNullInt else NewIntValue (word_of_int (sint v1 smod sint v2)))"

text \<open>What each kind of expression does with the values of its operands.\<close>

definition Comparison_Eval :: "ComparisonType \<Rightarrow> Value \<Rightarrow> Value \<Rightarrow> Value res" where
  "Comparison_Eval compType val1 val2 =
     (if val_null val1 \<or> val_null val2 then Inr NewNullInt
      else bindR (Value_Compare val1 val2) (\<lambda>cmp. Inr (bool_value (compare_result compType cmp))))"

definition Negation_Eval :: "Value \<Rightarrow> Value res" where
  "Negation_Eval val =
     (if val_null val then Inr NewNullInt else if ExprIsTrue val then Inr (NewIntValue 0) else Inr (NewIntValue 1))"

definition NullCheck_Eval :: "NullCheckType \<Rightarrow> Value \<Rightarrow> Value res" where
  "NullCheck_Eval checkType val = Inr (bool_value (case checkType of IsNull \<Rightarrow> val_null val | IsNotNull \<Rightarrow> \<not> val_null val))"

definition Arithmetic_Eval :: "ArithmeticType \<Rightarrow> Value \<Rightarrow> Value \<Rightarrow> Value res" where
  "Arithmetic_Eval op val1 val2 =
     (if val_null val1 \<or> val_null val2 then Inr NewNullInt
      else bindR (IntValue val1) (\<lambda>v1. bindR (IntValue val2) (\<lambda>v2. Inr (arith_result op v1 v2))))"

definition StringConcat_Eval :: "Value \<Rightarrow> Value \<Rightarrow> Value res" where
  "StringConcat_Eval val1 val2 =
     (if val_null val1 \<or> val_null val2 then Inr NewNullString
      else bindR (StringValue val1) (\<lambda>s1. bindR (StringValue val2) (\<lambda>s2. NewStringValue (s1 @ s2))))"

text \<open>The pattern is evaluated only when it was not compiled beforehand.\<close>

definition Like_Eval :: "rx list option \<Rightarrow> Value \<Rightarrow> Value res \<Rightarrow> Value res" where
  "Like_Eval cachedRegex val right =
     (if val_null val then Inr NewNullInt
      else bindR (StringValue val) (\<lambda>target.
      case cachedRegex of
        Some re \<Rightarrow> Inr (bool_value (MatchString re target))
      | None \<Rightarrow>
          bindR right (\<lambda>patternVal.
          if val_null patternVal then Inr NewNullInt
          else bindR (StringValue patternVal) (\<lambda>p.
            case regexp_Compile (sqlLikeToRegexPattern p) of
              None \<Rightarrow> Inr (NewIntValue 0)
            | Some re \<Rightarrow> Inr (bool_value (MatchString re target))))))"

lemmas Eval_defs [simp] = Comparison_Eval_def Negation_Eval_def NullCheck_Eval_def Arithmetic_Eval_def StringConcat_Eval_def Like_Eval_def

primrec Eval :: "Expr \<Rightarrow> Tuple \<Rightarrow> Value res" where
  "Eval (BoundValueExpr fieldOffset ty name) t = Tuple_GetValue t fieldOffset"
| "Eval (ConstantValueExpr val) t = Inr val"
| "Eval (ComparisonExpression left right compType) t =
     bindR (Eval left t) (\<lambda>val1. bindR (Eval right t) (\<lambda>val2. Comparison_Eval compType val1 val2))"
| "Eval (BinaryLogicExpression left right logicType) t =
     bindR (Eval left t) (\<lambda>val1. bindR (Eval right t) (\<lambda>val2. Inr (logic_result logicType val1 val2)))"
| "Eval (NegationExpression child) t = bindR (Eval child t) Negation_Eval"
| "Eval (NullCheckExpression child checkType) t = bindR (Eval child t) (NullCheck_Eval checkType)"
| "Eval (ArithmeticExpression left right op) t =
     bindR (Eval left t) (\<lambda>val1. bindR (Eval right t) (\<lambda>val2. Arithmetic_Eval op val1 val2))"
| "Eval (StringConcatExpression left right) t =
     bindR (Eval left t) (\<lambda>val1. bindR (Eval right t) (\<lambda>val2. StringConcat_Eval val1 val2))"
| "Eval (LikeExpression left right cachedRegex) t = bindR (Eval left t) (\<lambda>val. Like_Eval cachedRegex val (Eval right t))"
| "Eval (LogicalColumnExpr c) t = Inl (Panic ''Error: Attempted to Eval() a LogicalColumn.'')"

fun OutputType :: "Expr \<Rightarrow> gtype" where
  "OutputType (BoundValueExpr _ ty _) = ty"
| "OutputType (ConstantValueExpr val) = val_t val"
| "OutputType (StringConcatExpression _ _) = StringType"
| "OutputType (LogicalColumnExpr c) = ctype c"
| "OutputType _ = IntType"

fun GetReferencedColumns :: "Expr \<Rightarrow> LogicalColumn list res" where
  "GetReferencedColumns (BoundValueExpr _ _ _) =
     Inl (Panic ''Error: Attempted to call GetReferencedColumns on a BoundValueExpr.'')"
| "GetReferencedColumns (ConstantValueExpr _) = Inr []"
| "GetReferencedColumns (ComparisonExpression left right _) =
     bindR (GetReferencedColumns left) (\<lambda>l. bindR (GetReferencedColumns right) (\<lambda>r. Inr (l @ r)))"
| "GetReferencedColumns (BinaryLogicExpression left right _) =
     bindR (GetReferencedColumns left) (\<lambda>l. bindR (GetReferencedColumns right) (\<lambda>r. Inr (l @ r)))"
| "GetReferencedColumns (NegationExpression child) = GetReferencedColumns child"
| "GetReferencedColumns (NullCheckExpression _ _) = Inr []"
| "GetReferencedColumns (ArithmeticExpression left right _) =
     bindR (GetReferencedColumns left) (\<lambda>l. bindR (GetReferencedColumns right) (\<lambda>r. Inr (l @ r)))"
| "GetReferencedColumns (StringConcatExpression _ _) = Inr []"
| "GetReferencedColumns (LikeExpression left right _) =
     bindR (GetReferencedColumns left) (\<lambda>l. bindR (GetReferencedColumns right) (\<lambda>r. Inr (l @ r)))"
| "GetReferencedColumns (LogicalColumnExpr c) = Inr [c]"

definition CoversExpr :: "LogicalSchema \<Rightarrow> Expr \<Rightarrow> bool res" where
  "CoversExpr s expr = bindR (GetReferencedColumns expr) (\<lambda>cols. Inr (list_all (Schema_Contains s) cols))"

definition NewColumnValueExpression :: "nat \<Rightarrow> gtype list \<Rightarrow> string \<Rightarrow> Expr res" where
  "NewColumnValueExpression fieldOffset tupleSchema name =
     bindR (nth_checked tupleSchema fieldOffset) (\<lambda>ty. Inr (BoundValueExpr fieldOffset ty name))"

definition NewLikeExpression :: "Expr \<Rightarrow> Expr \<Rightarrow> Expr res" where
  "NewLikeExpression left right =
     (case right of
        ConstantValueExpr patternVal \<Rightarrow>
          if val_null patternVal then Inr (LikeExpression left right None)
          else bindR (StringValue patternVal) (\<lambda>p. Inr (LikeExpression left right (regexp_Compile (sqlLikeToRegexPattern p))))
      | _ \<Rightarrow> Inr (LikeExpression left right None))"

fun SplitPredicate :: "Expr \<Rightarrow> Expr list" where
  "SplitPredicate (BinaryLogicExpression left right And) = SplitPredicate left @ SplitPredicate right"
| "SplitPredicate expr = [expr]"

definition MergePredicates :: "Expr list \<Rightarrow> Expr option" where
  "MergePredicates exprs =
     (case exprs of [] \<Rightarrow> None | e # es \<Rightarrow> Some (fold (\<lambda>x root. BinaryLogicExpression root x And) es e))"

definition sqlOpToComparisonType :: "string \<Rightarrow> ComparisonType res" where
  "sqlOpToComparisonType op =
     (if op = ''='' then Inr Equal else if op = ''!='' then Inr NotEqual else if op = ''>'' then Inr GreaterThan
      else if op = ''<'' then Inr LessThan else if op = ''>='' then Inr GreaterThanOrEqual
      else if op = ''<='' then Inr LessThanOrEqual else Inl (OtherError ''unsupported comparison operator''))"


section \<open>Three-valued logic\<close>

definition truth :: "Value \<Rightarrow> bool option" where
  "truth v = (if ExprIsTrue v then Some True else if ExprIsFalse v then Some False else None)"

definition kand :: "bool option \<Rightarrow> bool option \<Rightarrow> bool option" where
  "kand a b = (if a = Some False \<or> b = Some False then Some False else if a = None \<or> b = None then None else Some True)"

definition kor :: "bool option \<Rightarrow> bool option \<Rightarrow> bool option" where
  "kor a b = (if a = Some True \<or> b = Some True then Some True else if a = None \<or> b = None then None else Some False)"

lemma truth_values [simp]: "truth (NewIntValue n) = Some (n \<noteq> 0)" "truth NewNullInt = None" "truth (bool_value b) = Some b"
  by (simp_all add: truth_def ExprIsTrue_def ExprIsFalse_def NewIntValue_def NewNullInt_def zeroValue_def bool_value_def)

lemma truth_logic: "truth (logic_result And a b) = kand (truth a) (truth b)" "truth (logic_result Or a b) = kor (truth a) (truth b)"
  by (auto simp: truth_def kand_def kor_def ExprIsTrue_def ExprIsFalse_def NewIntValue_def NewNullInt_def zeroValue_def)

lemma truth_iff: "truth v = Some True \<longleftrightarrow> ExprIsTrue v" "truth v = Some False \<longleftrightarrow> ExprIsFalse v"
  by (auto simp: truth_def ExprIsTrue_def ExprIsFalse_def)

lemma kand_assoc: "kand (kand a b) c = kand a (kand b c)"
  by (simp add: kand_def)

lemma kand_unit [simp]: "kand (Some True) b = b" "kand b (Some True) = b"
  by (auto simp: kand_def)

lemma kand_True: "kand a b = Some True \<longleftrightarrow> a = Some True \<and> b = Some True"
  by (auto simp: kand_def)

text \<open>The truth value of an expression, and that of a list of them.\<close>

definition eval_truth :: "Tuple \<Rightarrow> Expr \<Rightarrow> bool option res" where
  "eval_truth t e = bindR (Eval e t) (\<lambda>v. Inr (truth v))"

definition all_truth :: "Tuple \<Rightarrow> Expr list \<Rightarrow> bool option res" where
  "all_truth t es = bindR (mapR (eval_truth t) es) (\<lambda>bs. Inr (fold (\<lambda>b a. kand a b) bs (Some True)))"

lemma fold_kand: "fold (\<lambda>b a. kand a b) bs x = kand x (fold (\<lambda>b a. kand a b) bs (Some True))"
proof (induction bs arbitrary: x)
  case (Cons b bs)
  show ?case using Cons.IH [of "kand x b"] Cons.IH [of b] by (simp add: kand_assoc)
qed simp

lemma eval_and: "eval_truth t (BinaryLogicExpression a b And) = bindR (eval_truth t a) (\<lambda>x. bindR (eval_truth t b) (\<lambda>y. Inr (kand x y)))"
  by (cases "Eval a t"; cases "Eval b t") (simp_all add: eval_truth_def truth_logic del: logic_result.simps)

lemma all_truth_append: "all_truth t (es @ fs) = bindR (all_truth t es) (\<lambda>x. bindR (all_truth t fs) (\<lambda>y. Inr (kand x y)))"
proof (induction es)
  case Nil
  show ?case by (cases "mapR (eval_truth t) fs") (simp_all add: all_truth_def)
next
  case (Cons e es)
  have f: "fold (\<lambda>b a. kand a b) bs b = kand b (fold (\<lambda>b a. kand a b) bs (Some True))" for b bs by (rule fold_kand)
  show ?case
    using Cons
    by (cases "eval_truth t e"; cases "mapR (eval_truth t) es"; cases "mapR (eval_truth t) fs"; cases "mapR (eval_truth t) (es @ fs)")
      (simp_all add: all_truth_def f [of _ "projr (eval_truth t e)", simplified] kand_assoc, metis fold_kand kand_assoc)
qed

lemma split_truth: "all_truth t (SplitPredicate e) = eval_truth t e"
proof (induction e rule: SplitPredicate.induct)
  case (1 left right)
  then show ?case by (simp add: all_truth_append eval_and)
qed (simp_all add: all_truth_def eval_truth_def bindR_def split: sum.splits)

lemma merge_truth: "eval_truth t (fold (\<lambda>x root. BinaryLogicExpression root x And) es e) = all_truth t (e # es)"
proof (induction es rule: rev_induct)
  case Nil
  show ?case by (simp add: all_truth_def bindR_def split: sum.splits)
next
  case (snoc x es)
  have "all_truth t [x] = eval_truth t x" by (simp add: all_truth_def bindR_def split: sum.splits)
  then show ?case using snoc all_truth_append [of t "e # es" "[x]"] by (simp add: eval_and)
qed

lemma SplitPredicate_Cons: "SplitPredicate e \<noteq> []"
  by (induction e rule: SplitPredicate.induct) simp_all

lemma all_truth_True:
  "all_truth t es = Inr (Some True) \<longleftrightarrow> (\<forall>e \<in> set es. eval_truth t e = Inr (Some True))"
proof (induction es)
  case (Cons e es)
  have "all_truth t [e] = eval_truth t e" by (simp add: all_truth_def bindR_def split: sum.splits)
  then have "all_truth t (e # es) = bindR (eval_truth t e) (\<lambda>x. bindR (all_truth t es) (\<lambda>y. Inr (kand x y)))"
    using all_truth_append [of t "[e]" es] by simp
  then show ?case using Cons.IH by (cases "eval_truth t e"; cases "all_truth t es") (auto simp: kand_True)
qed (simp add: all_truth_def)

section \<open>Types\<close>

definition columns_typed :: "Tuple \<Rightarrow> gtype list \<Rightarrow> bool" where
  "columns_typed t ts \<longleftrightarrow> DefaultType \<notin> set ts \<and> (\<forall>i < length ts. \<exists>v. Tuple_GetValue t i = Inr v \<and> val_t v = ts ! i)"

primrec well_typed :: "gtype list \<Rightarrow> Expr \<Rightarrow> bool" where
  "well_typed ts (BoundValueExpr i ty _) = (i < length ts \<and> ts ! i = ty)"
| "well_typed ts (ConstantValueExpr v) = (val_t v \<noteq> DefaultType)"
| "well_typed ts (ComparisonExpression l r _) = (well_typed ts l \<and> well_typed ts r \<and> OutputType l = OutputType r)"
| "well_typed ts (BinaryLogicExpression l r _) = (well_typed ts l \<and> well_typed ts r)"
| "well_typed ts (NegationExpression e) = well_typed ts e"
| "well_typed ts (NullCheckExpression e _) = well_typed ts e"
| "well_typed ts (ArithmeticExpression l r _) =
     (well_typed ts l \<and> well_typed ts r \<and> OutputType l = IntType \<and> OutputType r = IntType)"
| "well_typed ts (StringConcatExpression l r) =
     (well_typed ts l \<and> well_typed ts r \<and> OutputType l = StringType \<and> OutputType r = StringType)"
| "well_typed ts (LikeExpression l r _) =
     (well_typed ts l \<and> well_typed ts r \<and> OutputType l = StringType \<and> OutputType r = StringType)"
| "well_typed ts (LogicalColumnExpr _) = False"

definition returns :: "gtype \<Rightarrow> Value res \<Rightarrow> bool" where
  "returns ty r \<longleftrightarrow> (\<exists>v. r = Inr v \<and> val_t v = ty) \<or> r = Inl (Panic ''string too long'')"

lemma returns_bind:
  assumes "returns ty r" "\<And>v. val_t v = ty \<Longrightarrow> returns ty' (f v)"
  shows "returns ty' (bindR r f)"
  using assms(1) assms(2) unfolding returns_def by (elim disjE exE conjE) (simp_all add: bindR_def)

lemma returns_bind2:
  assumes "returns ty1 r1" "returns ty2 r2" "\<And>v w. val_t v = ty1 \<Longrightarrow> val_t w = ty2 \<Longrightarrow> returns ty (f v w)"
  shows "returns ty (bindR r1 (\<lambda>v. bindR r2 (f v)))"
  by (rule returns_bind [OF assms(1)], rule returns_bind [OF assms(2)], rule assms(3))

lemma returns_values [simp]: "returns IntType (Inr (NewIntValue n))" "returns IntType (Inr NewNullInt)" "returns IntType (Inr (bool_value b))"
    "returns StringType (Inr NewNullString)" "returns StringType (NewStringValue s)"
    "returns IntType (Inr (logic_result op v w))" "returns IntType (Inr (arith_result aop n m))"
  by (simp_all add: returns_def NewIntValue_def NewNullInt_def NewNullString_def bool_value_def NewStringValue_def zeroValue_def)
    ((cases op; simp add: NewIntValue_def NewNullInt_def zeroValue_def), (cases aop; simp add: NewIntValue_def NewNullInt_def zeroValue_def))

lemma output_not_default: "well_typed ts e \<Longrightarrow> DefaultType \<notin> set ts \<Longrightarrow> OutputType e \<noteq> DefaultType"
  by (induction e) (auto simp: in_set_conv_nth)

lemma returns_compare:
  assumes "val_t v = val_t w" "val_t v \<noteq> DefaultType" "\<And>c. returns IntType (f c)"
  shows "returns IntType (bindR (Value_Compare v w) f)"
  using assms by (cases "val_t v") (simp_all add: Value_Compare_def)


section \<open>What a pattern matches\<close>

text \<open>The runes that the pattern's wildcards stand for, and the pattern as regular expression items.\<close>

fun sql_like :: "nat list \<Rightarrow> nat list \<Rightarrow> bool" where
  "sql_like [] s = (s = [])"
| "sql_like (c # cs) s =
     (if c = rune CHR ''%'' then list_ex (\<lambda>n. newline \<notin> set (take n s) \<and> sql_like cs (drop n s)) [0..<Suc (length s)]
      else if c = rune CHR ''_'' then s \<noteq> [] \<and> hd s \<noteq> newline \<and> sql_like cs (tl s)
      else if c = backslash \<and> cs \<noteq> [] \<and> (hd cs = rune CHR ''%'' \<or> hd cs = rune CHR ''_'')
      then s \<noteq> [] \<and> hd s = hd cs \<and> sql_like (tl cs) (tl s)
      else s \<noteq> [] \<and> hd s = c \<and> sql_like cs (tl s))"

fun like_rx :: "nat list \<Rightarrow> rx list" where
  "like_rx [] = []"
| "like_rx (c # cs) =
     (if c = rune CHR ''%'' then RxDots # like_rx cs
      else if c = rune CHR ''_'' then RxDot # like_rx cs
      else if c = backslash \<and> cs \<noteq> [] \<and> (hd cs = rune CHR ''%'' \<or> hd cs = rune CHR ''_'') then RxLit (hd cs) # like_rx (tl cs)
      else RxLit c # like_rx cs)"

lemmas rune_values = rune_def backslash_def meta_runes_def newline_def

lemma rx_items_quote: "rx_items (QuoteMeta c @ cs) = map_option ((#) (RxLit c)) (rx_items cs)"
  by (cases "c \<in> set meta_runes") (auto simp: QuoteMeta_def rune_values)

lemma rx_items_dot:
  assumes "cs \<noteq> []" "hd cs \<noteq> rune CHR ''*''"
  shows "rx_items (rune CHR ''.'' # cs) = map_option ((#) RxDot) (rx_items cs)"
  using assms by (cases cs) (simp_all add: rune_values)

lemma like_loop_hd: "hd (like_loop cs @ [rune CHR ''$'']) \<noteq> rune CHR ''*''"
  by (cases cs rule: like_loop.cases) (auto simp: QuoteMeta_def rune_values split: list.splits)

lemma rx_items_like: "rx_items (like_loop cs @ [rune CHR ''$'']) = Some (like_rx cs)"
proof (induction cs rule: like_loop.induct)
  case 1
  show ?case by simp
next
  case (2 c cs)
  let ?d = "[rune CHR ''$'']"
  have dots: "rx_items (rune CHR ''.'' # rune CHR ''*'' # xs) = map_option ((#) RxDots) (rx_items xs)" for xs
    by (simp add: rune_values)
  have dot: "rx_items (rune CHR ''.'' # like_loop cs @ ?d) = map_option ((#) RxDot) (rx_items (like_loop cs @ ?d))"
    by (rule rx_items_dot) (use like_loop_hd in auto)
  have ne: "backslash \<noteq> rune CHR ''%''" "backslash \<noteq> rune CHR ''_''" "rune CHR ''%'' \<noteq> rune CHR ''_''" by (simp_all add: rune_values)
  show ?case
  proof (cases "c = backslash")
    case True
    show ?thesis
    proof (cases cs)
      case Nil
      then show ?thesis using True rx_items_quote [of backslash ?d] ne by (simp add: rune_values)
    next
      case (Cons x cs')
      then show ?thesis using True "2.IH"(1) [OF True Cons] "2.IH"(2) [OF True Cons] ne by (auto simp: rx_items_quote simp del: rx_items.simps)
    qed
  next
    case False
    then show ?thesis using "2.IH"(3-5) ne by (auto simp: rx_items_quote dots dot simp del: rx_items.simps)
  qed
qed

lemma rx_dots: "rx_match (RxDots # r) s \<longleftrightarrow> (\<exists>n \<le> length s. newline \<notin> set (take n s) \<and> rx_match r (drop n s))"
proof (induction s)
  case (Cons d s)
  have "(\<exists>n \<le> length (d # s). newline \<notin> set (take n (d # s)) \<and> rx_match r (drop n (d # s))) \<longleftrightarrow>
      rx_match r (d # s) \<or> d \<noteq> newline \<and> (\<exists>n \<le> length s. newline \<notin> set (take n s) \<and> rx_match r (drop n s))" (is "?L \<longleftrightarrow> ?R")
  proof
    assume ?L
    then obtain n where "n \<le> length (d # s)" "newline \<notin> set (take n (d # s))" "rx_match r (drop n (d # s))" by blast
    then show ?R by (cases n) auto
  next
    assume ?R
    then show ?L by (metis (no_types, lifting) Suc_le_mono drop_0 drop_Suc_Cons length_Cons list.set_intros(1) set_ConsD take_0 take_Suc_Cons le0 empty_iff list.set(1))
  qed
  then show ?case using Cons.IH by simp
qed simp

lemma like_rx_match: "rx_match (like_rx p) s \<longleftrightarrow> sql_like p s"
proof (induction p arbitrary: s rule: like_rx.induct)
  case (2 c cs)
  have h: "(case s of d # s' \<Rightarrow> P d s' | [] \<Rightarrow> False) \<longleftrightarrow> s \<noteq> [] \<and> P (hd s) (tl s)" for P :: "nat \<Rightarrow> nat list \<Rightarrow> bool" by (cases s) simp_all
  consider (pc) "c = rune CHR ''%''" | (us) "c = rune CHR ''_''" "c \<noteq> rune CHR ''%''"
    | (esc) "c \<noteq> rune CHR ''%''" "c \<noteq> rune CHR ''_''" "c = backslash \<and> cs \<noteq> [] \<and> (hd cs = rune CHR ''%'' \<or> hd cs = rune CHR ''_'')"
    | (lit) "c \<noteq> rune CHR ''%''" "c \<noteq> rune CHR ''_''" "\<not> (c = backslash \<and> cs \<noteq> [] \<and> (hd cs = rune CHR ''%'' \<or> hd cs = rune CHR ''_''))"
    by blast
  then show ?case
  proof cases
    case pc
    have "list_ex P [0..<Suc (length s)] \<longleftrightarrow> (\<exists>n \<le> length s. P n)" for P by (auto simp: list_ex_iff less_Suc_eq_le simp del: upt_Suc)
    then show ?thesis using "2.IH"(1) [OF pc] rx_dots [of "like_rx cs" s] pc by (simp del: rx_match.simps upt_Suc)
  next
    case us
    then show ?thesis using "2.IH"(2) [OF us(2,1)] by (simp add: h)
  next
    case esc
    then show ?thesis using "2.IH"(3) [OF esc] by (auto simp: h)
  next
    case lit
    then show ?thesis using "2.IH"(4) [OF lit] by (auto simp: h)
  qed
qed simp


section \<open>Properties\<close>

text \<open>
  C23: Expressions are type sound.  On a tuple with columns of the given types, a well-typed
  expression evaluates to a value of its output type; the only run-time panic it can cause
  is that of a concatenation longer than a string column.
\<close>

theorem expr_type_sound:
  assumes "well_typed ts e" "columns_typed t ts"
  shows "(\<exists>v. Eval e t = Inr v \<and> val_t v = OutputType e) \<or> Eval e t = Inl (Panic ''string too long'')"
proof -
  have d: "OutputType x \<noteq> DefaultType" if "well_typed ts x" for x
    using output_not_default [OF that] assms(2) by (simp add: columns_typed_def)
  have "returns (OutputType e) (Eval e t)" using assms(1)
  proof (induction e)
    case (BoundValueExpr i ty n)
    then show ?case using assms(2) by (auto simp: returns_def columns_typed_def)
  next
    case (ComparisonExpression l r c)
    then show ?case using d [of r] by (auto intro!: returns_bind2 [of "OutputType l" _ "OutputType r"] returns_compare)
  next
    case (BinaryLogicExpression l r op)
    then show ?case by (auto intro!: returns_bind2 [of "OutputType l" _ "OutputType r"] simp del: logic_result.simps)
  next
    case (NegationExpression x)
    then show ?case by (auto intro!: returns_bind [of "OutputType x"])
  next
    case (NullCheckExpression x c)
    then show ?case by (auto intro!: returns_bind [of "OutputType x"])
  next
    case (ArithmeticExpression l r op)
    then show ?case by (auto intro!: returns_bind2 [of IntType _ IntType] simp: IntValue_def simp del: arith_result.simps)
  next
    case (StringConcatExpression l r)
    then show ?case by (auto intro!: returns_bind2 [of StringType _ StringType] simp: StringValue_def)
  next
    case (LikeExpression l r c)
    then show ?case by (auto intro!: returns_bind [of StringType] simp: StringValue_def split: option.splits)
  qed (simp_all add: returns_def)
  then show ?thesis by (simp add: returns_def)
qed

theorem expr_type_sound_witness:
  "\<exists>v. Eval (ComparisonExpression (BoundValueExpr 0 IntType ''a'') (ConstantValueExpr (NewIntValue 3)) LessThan)
       (FromValues (Some [NewIntValue 2])) = Inr v \<and> val_t v = IntType"
  using expr_type_sound [of "[IntType]" "ComparisonExpression (BoundValueExpr 0 IntType ''a'') (ConstantValueExpr (NewIntValue 3)) LessThan"
      "FromValues (Some [NewIntValue 2])"]
  by (simp add: columns_typed_def FromValues_def Tuple_GetValue_def extra_list_def nth_checked_def NewIntValue_def zeroValue_def Value_Compare_def)

text \<open>
  Splitting a conjunction.  Splitting a predicate into its conjuncts and merging them
  again keeps its truth value on every tuple, panics included, and the predicate is true
  exactly where all the conjuncts are.
\<close>

theorem split_merge_predicate:
  "\<exists>m. MergePredicates (SplitPredicate e) = Some m \<and> eval_truth t m = eval_truth t e \<and>
    ((\<exists>v. Eval e t = Inr v \<and> ExprIsTrue v) = list_all (\<lambda>c. \<exists>w. Eval c t = Inr w \<and> ExprIsTrue w) (SplitPredicate e))"
proof -
  obtain c cs where cs: "SplitPredicate e = c # cs" using SplitPredicate_Cons by (meson neq_Nil_conv)
  have "(\<exists>v. Eval x t = Inr v \<and> ExprIsTrue v) \<longleftrightarrow> eval_truth t x = Inr (Some True)" for x
    by (cases "Eval x t") (auto simp: eval_truth_def truth_iff)
  moreover have "eval_truth t e = Inr (Some True) \<longleftrightarrow> (\<forall>x \<in> set (SplitPredicate e). eval_truth t x = Inr (Some True))"
    using all_truth_True [of t "SplitPredicate e"] by (simp add: split_truth)
  ultimately show ?thesis
    using merge_truth [of t cs c] split_truth [of t e] by (simp add: MergePredicates_def cs list_all_iff)
qed

text \<open>
  C24: \<^verbatim>\<open>LIKE\<close>.  A pattern matches through the generated regular expression exactly the
  strings that SQL's wildcards describe, up to the dot not matching newlines, and a pattern
  compiled once in advance gives the same answers as one compiled for every tuple.
\<close>

theorem like_matches:
  assumes "Eval left t = Inr v" "val_t v = StringType" "\<not> val_null v" "val_t p = StringType" "\<not> val_null p"
  shows "\<exists>e. NewLikeExpression left (ConstantValueExpr p) = Inr e \<and>
    Eval e t = Inr (bool_value (sql_like (runes (val_str p)) (runes (val_str v)))) \<and>
    Eval (LikeExpression left (ConstantValueExpr p) None) t = Eval e t"
proof -
  have "regexp_Compile (sqlLikeToRegexPattern (val_str p)) = Some (like_rx (runes (val_str p)))"
    using rx_items_like by (simp add: regexp_Compile_def sqlLikeToRegexPattern_def)
  then show ?thesis
    using assms by (simp add: NewLikeExpression_def StringValue_def MatchString_def like_rx_match)
qed

theorem like_matches_witness:
  "\<exists>e. NewLikeExpression (ConstantValueExpr ((zeroValue StringType)\<lparr>val_str := [97, 98, 99]\<rparr>))
      (ConstantValueExpr ((zeroValue StringType)\<lparr>val_str := [97, 37]\<rparr>)) = Inr e \<and>
    Eval e EmptyTuple = Inr (bool_value True)"
  using like_matches [of "ConstantValueExpr ((zeroValue StringType)\<lparr>val_str := [97, 98, 99]\<rparr>)" EmptyTuple
      "(zeroValue StringType)\<lparr>val_str := [97, 98, 99]\<rparr>" "(zeroValue StringType)\<lparr>val_str := [97, 37]\<rparr>"]
  by (simp add: zeroValue_def second_range_def rune_values) blast

end
