(* ===== verification/Executor.thy ===== *)
theory Executor
  imports Expr
begin

text \<open>
  The interface of query operators (\<^verbatim>\<open>execution/executor.go\<close>) and the operators that hold no
  rows back: \<^verbatim>\<open>ValuesExecutor\<close>, \<^verbatim>\<open>FilterExecutor\<close>, \<^verbatim>\<open>ProjectionExecutor\<close> and
  \<^verbatim>\<open>LimitExecutor\<close>.  A plan's operators share the world \<open>'w\<close> (the transaction, the pool, the
  log and the locks) and keep their own state \<open>'s\<close>.
\<close>

section \<open>The interface\<close>

text \<open>
  \<open>ex_Schema\<close> is the plan node's output schema.  The strings in a raw tuple are views into the
  operator's row buffer, which the next row overwrites: \<open>ex_Reread s v\<close> is what a value that was
  taken from an earlier row reads in the state \<open>s\<close>.
\<close>

record ('w, 's) Executor =
  ex_Schema :: "gtype list"
  ex_Init :: "'w \<Rightarrow> 's \<Rightarrow> unit res \<times> ('w \<times> 's)"
  ex_Next :: "'w \<Rightarrow> 's \<Rightarrow> bool res \<times> ('w \<times> 's)"
  ex_Current :: "'s \<Rightarrow> Tuple res"
  ex_Error :: "'s \<Rightarrow> fault option"
  ex_Close :: "'w \<Rightarrow> 's \<Rightarrow> unit res \<times> ('w \<times> 's)"
  ex_Reread :: "'s \<Rightarrow> Value \<Rightarrow> Value"

text \<open>
  The loop \<^verbatim>\<open>for child.Next()\<close> with a body that sees the current tuple; it need not end, which
  is the value \<open>None\<close>.
\<close>

partial_function (option) over_rows :: "('w, 's) Executor \<Rightarrow> (Tuple \<Rightarrow> 'a \<Rightarrow> 'a res) \<Rightarrow> 'w \<Rightarrow> 's \<Rightarrow> 'a \<Rightarrow>
    ('a res \<times> ('w \<times> 's)) option" where
  "over_rows E f w s acc =
     (let n = ex_Next E w s
      in case fst n of
           Inl e \<Rightarrow> Some (Inl e, snd n)
         | Inr found \<Rightarrow>
             if \<not> found then Some (Inr acc, snd n)
             else (case bindR (ex_Current E (snd (snd n))) (\<lambda>t. f t acc) of
                     Inl e \<Rightarrow> Some (Inl e, snd n)
                   | Inr acc' \<Rightarrow> over_rows E f (fst (snd n)) (snd (snd n)) acc'))"

definition settle :: "'w \<times> 's \<Rightarrow> ('a res \<times> ('w \<times> 's)) option \<Rightarrow> 'a res \<times> ('w \<times> 's)" where
  "settle st r = (case r of None \<Rightarrow> (Inl Spins, st) | Some x \<Rightarrow> x)"

section \<open>Values\<close>

record ValuesExecutor =
  cursor :: nat
  currentValues :: "Value list"

definition set_checked :: "nat \<Rightarrow> 'a \<Rightarrow> 'a list \<Rightarrow> 'a list res" where
  "set_checked i v xs = (if i < length xs then Inr (xs[i := v]) else Inl (Panic ''index out of range''))"

definition values_row :: "Expr list \<Rightarrow> Value list \<Rightarrow> Value list res" where
  "values_row exprs vals =
     foldR (\<lambda>(i, expr) vs. bindR (Eval expr EmptyTuple) (\<lambda>v. set_checked i v vs)) (enumerate 0 exprs) vals"

definition NewValuesExecutor :: ValuesExecutor where
  "NewValuesExecutor = \<lparr>cursor = 0, currentValues = []\<rparr>"

definition Values_Next :: "Expr list list \<Rightarrow> 'w \<Rightarrow> ValuesExecutor \<Rightarrow> bool res \<times> ('w \<times> ValuesExecutor)" where
  "Values_Next vals w e =
     (if cursor e \<ge> length vals then (Inr False, w, e)
      else case values_row (vals ! cursor e) (currentValues e) of
             Inl f \<Rightarrow> (Inl f, w, e)
           | Inr vs \<Rightarrow> (Inr True, w, e\<lparr>currentValues := vs, cursor := cursor e + 1\<rparr>))"

text \<open>The values are constants, which own their strings.\<close>

definition ValuesExec :: "Expr list list \<Rightarrow> gtype list \<Rightarrow> ('w, ValuesExecutor) Executor" where
  "ValuesExec vals schema =
     \<lparr>ex_Schema = schema,
      ex_Init = (\<lambda>w e. (Inr (), w, e\<lparr>cursor := 0, currentValues := replicate (length schema) (zeroValue DefaultType)\<rparr>)),
      ex_Next = Values_Next vals,
      ex_Current = (\<lambda>e. Inr (FromValues (Some (currentValues e)))),
      ex_Error = (\<lambda>e. None),
      ex_Close = (\<lambda>w e. (Inr (), w, e)),
      ex_Reread = (\<lambda>e v. v)\<rparr>"

section \<open>Filter\<close>

text \<open>A predicate that is null makes \<^verbatim>\<open>IntValue\<close> panic.\<close>

definition selects :: "Expr \<Rightarrow> Tuple \<Rightarrow> bool res" where
  "selects predicate t = bindR (bindR (Eval predicate t) IntValue) (\<lambda>n. Inr (n = 1))"

partial_function (option) filter_loop :: "Expr \<Rightarrow> ('w, 's) Executor \<Rightarrow> 'w \<Rightarrow> 's \<Rightarrow> (bool res \<times> ('w \<times> 's)) option" where
  "filter_loop predicate child w s =
     (let n = ex_Next child w s
      in case fst n of
           Inl e \<Rightarrow> Some (Inl e, snd n)
         | Inr ret \<Rightarrow>
             if \<not> ret then Some (Inr False, snd n)
             else (case bindR (ex_Current child (snd (snd n))) (selects predicate) of
                     Inl e \<Rightarrow> Some (Inl e, snd n)
                   | Inr sel \<Rightarrow> if sel then Some (Inr True, snd n) else filter_loop predicate child (fst (snd n)) (snd (snd n))))"

definition FilterExec :: "Expr \<Rightarrow> ('w, 's) Executor \<Rightarrow> ('w, 's) Executor" where
  "FilterExec predicate child =
     child\<lparr>ex_Next := (\<lambda>w s. settle (w, s) (filter_loop predicate child w s))\<rparr>"

section \<open>Projection\<close>

definition project :: "Expr list \<Rightarrow> Tuple \<Rightarrow> Tuple res" where
  "project exprs t = bindR (mapR (\<lambda>expr. Eval expr t) exprs) (\<lambda>vals. Inr (Extend (FromValues None) vals))"

definition ProjectionExec :: "Expr list \<Rightarrow> gtype list \<Rightarrow> ('w, 's) Executor \<Rightarrow> ('w, 's) Executor" where
  "ProjectionExec exprs schema child =
     child\<lparr>ex_Schema := schema,
           ex_Current := (\<lambda>s. bindR (mapR (\<lambda>expr. bindR (ex_Current child s) (Eval expr)) exprs) (\<lambda>vals. Inr (Extend (FromValues None) vals)))\<rparr>"

section \<open>Limit\<close>

record 's LimitExecutor =
  limit_child :: 's
  numTupReturned :: int

definition LimitExec :: "int \<Rightarrow> ('w, 's) Executor \<Rightarrow> ('w, 's LimitExecutor) Executor" where
  "LimitExec limit child =
     \<lparr>ex_Schema = ex_Schema child,
      ex_Init = (\<lambda>w e. let (r, w', c) = ex_Init child w (limit_child e)
                       in case r of
                            Inl f \<Rightarrow> (Inl f, w', e\<lparr>limit_child := c\<rparr>)
                          | Inr _ \<Rightarrow> (Inr (), w', e\<lparr>limit_child := c, numTupReturned := 0\<rparr>)),
      ex_Next = (\<lambda>w e. if numTupReturned e \<ge> limit then (Inr False, w, e)
                       else let (r, w', c) = ex_Next child w (limit_child e)
                            in (r, w', e\<lparr>numTupReturned := numTupReturned e + 1, limit_child := c\<rparr>)),
      ex_Current = (\<lambda>e. ex_Current child (limit_child e)),
      ex_Error = (\<lambda>e. ex_Error child (limit_child e)),
      ex_Close = (\<lambda>w e. let (r, w', c) = ex_Close child w (limit_child e) in (r, w', e\<lparr>limit_child := c\<rparr>)),
      ex_Reread = (\<lambda>e. ex_Reread child (limit_child e))\<rparr>"


section \<open>What the consumer of an operator relies on\<close>

text \<open>
  Once initialised, a row source delivers the tuples of a list one after the other and then
  ends without an error; what else happens to the world in between keeps \<open>inv\<close>.  Nothing is
  promised of a call of \<^verbatim>\<open>Next\<close> after the end.
\<close>

text \<open>The rows of the operators of this theory, given those of the child.\<close>

definition filtered :: "Expr \<Rightarrow> ('s \<Rightarrow> Tuple list \<Rightarrow> bool) \<Rightarrow> 's \<Rightarrow> Tuple list \<Rightarrow> bool" where
  "filtered p R s us \<longleftrightarrow> (\<exists>ts. R s ts \<and> (\<forall>t \<in> set ts. \<exists>b. selects p t = Inr b) \<and> us = filter (\<lambda>t. selects p t = Inr True) ts)"

definition projected :: "Expr list \<Rightarrow> ('s \<Rightarrow> Tuple list \<Rightarrow> bool) \<Rightarrow> 's \<Rightarrow> Tuple list \<Rightarrow> bool" where
  "projected exprs R s us \<longleftrightarrow> (\<exists>ts. R s ts \<and> mapR (project exprs) ts = Inr us)"

definition limited :: "int \<Rightarrow> ('s \<Rightarrow> Tuple list \<Rightarrow> bool) \<Rightarrow> 's LimitExecutor \<Rightarrow> Tuple list \<Rightarrow> bool" where
  "limited lim R e us \<longleftrightarrow> (\<exists>ts. R (limit_child e) ts \<and> us = take (nat (lim - numTupReturned e)) ts)"

definition limit_ready :: "int \<Rightarrow> ('s \<Rightarrow> Tuple list \<Rightarrow> bool) \<Rightarrow> 's LimitExecutor \<Rightarrow> Tuple list \<Rightarrow> bool" where
  "limit_ready lim R e us \<longleftrightarrow> (\<exists>ts. R (limit_child e) ts \<and> us = take (nat lim) ts)"

locale row_source =
  fixes E :: "('w, 's) Executor" and inv :: "'w \<Rightarrow> bool" and ready :: "'s \<Rightarrow> Tuple list \<Rightarrow> bool" and rows :: "'s \<Rightarrow> Tuple list \<Rightarrow> bool"
  assumes init_law: "inv w \<Longrightarrow> ready s ts \<Longrightarrow> \<exists>w' s'. ex_Init E w s = (Inr (), w', s') \<and> inv w' \<and> rows s' ts"
    and next_law: "inv w \<Longrightarrow> rows s (t # ts) \<Longrightarrow>
      \<exists>w' s'. ex_Next E w s = (Inr True, w', s') \<and> inv w' \<and> rows s' ts \<and> ex_Current E s' = Inr t"
    and end_law: "inv w \<Longrightarrow> rows s [] \<Longrightarrow>
      \<exists>w' s'. ex_Next E w s = (Inr False, w', s') \<and> inv w' \<and> ex_Error E s' = None"
    and error_law: "rows s ts \<Longrightarrow> ex_Error E s = None"
begin

lemma over_rows_fold:
  assumes "inv w" "rows s ts" "foldR f ts acc = Inr acc'"
  shows "\<exists>w' s'. over_rows E f w s acc = Some (Inr acc', w', s') \<and> inv w' \<and> ex_Error E s' = None"
  using assms
proof (induction ts arbitrary: w s acc)
  case Nil
  then show ?case using end_law [of w s] by (subst over_rows.simps) auto
next
  case (Cons t ts)
  obtain w1 s1 where n: "ex_Next E w s = (Inr True, w1, s1)" "inv w1" "rows s1 ts" "ex_Current E s1 = Inr t"
    using next_law [OF Cons.prems(1,2)] by blast
  obtain a where "f t acc = Inr a" "foldR f ts a = Inr acc'" using Cons.prems(3) by (auto simp: bindR_eq_Inr)
  then show ?case using Cons.IH [OF n(2,3)] n by (subst over_rows.simps) simp
qed

lemma over_rows_fails:
  assumes "inv w" "rows s ts" "foldR f ts acc = Inl e"
  shows "\<exists>w' s'. over_rows E f w s acc = Some (Inl e, w', s') \<and> inv w'"
  using assms
proof (induction ts arbitrary: w s acc)
  case (Cons t ts)
  obtain w1 s1 where n: "ex_Next E w s = (Inr True, w1, s1)" "inv w1" "rows s1 ts" "ex_Current E s1 = Inr t"
    using next_law [OF Cons.prems(1,2)] by blast
  show ?case
  proof (cases "f t acc")
    case (Inl e')
    then show ?thesis using Cons.prems(3) n by (subst over_rows.simps) simp
  next
    case (Inr a)
    then show ?thesis using Cons.IH [OF n(2,3), of a] Cons.prems(3) n by (subst over_rows.simps) simp
  qed
qed simp

text \<open>The operators of this theory over a row source.\<close>

lemma filter_loop_skip:
  assumes "inv w" "rows s ts" "\<forall>t \<in> set ts. \<exists>b. selects p t = Inr b"
  shows "case filter (\<lambda>t. selects p t = Inr True) ts of
      [] \<Rightarrow> \<exists>w' s'. filter_loop p E w s = Some (Inr False, w', s') \<and> inv w' \<and> ex_Error E s' = None
    | u # us \<Rightarrow> \<exists>w' s' ts'. filter_loop p E w s = Some (Inr True, w', s') \<and> inv w' \<and> rows s' ts' \<and> ex_Current E s' = Inr u \<and>
        (\<forall>t \<in> set ts'. \<exists>b. selects p t = Inr b) \<and> us = filter (\<lambda>t. selects p t = Inr True) ts'"
  using assms
proof (induction ts arbitrary: w s)
  case Nil
  then show ?case using end_law [of w s] by (subst filter_loop.simps) auto
next
  case (Cons t ts)
  obtain w1 s1 where n: "ex_Next E w s = (Inr True, w1, s1)" "inv w1" "rows s1 ts" "ex_Current E s1 = Inr t"
    using next_law [OF Cons.prems(1,2)] by blast
  obtain b where b: "selects p t = Inr b" using Cons.prems(3) by auto
  show ?case
  proof (cases b)
    case True
    then show ?thesis using n b Cons.prems(3) by (subst filter_loop.simps) auto
  next
    case False
    then have l: "filter_loop p E w s = filter_loop p E w1 s1" using n b by (subst filter_loop.simps) simp
    show ?thesis unfolding l using Cons.IH [OF n(2,3)] Cons.prems(3) b False by simp
  qed
qed

lemma filter_source: "row_source (FilterExec p E) inv (filtered p ready) (filtered p rows)"
proof
  show "\<exists>w' s'. ex_Init (FilterExec p E) w s = (Inr (), w', s') \<and> inv w' \<and> filtered p rows s' us"
    if "inv w" "filtered p ready s us" for w s us
    using that init_law [of w s] by (fastforce simp: filtered_def FilterExec_def)
  show "\<exists>w' s'. ex_Next (FilterExec p E) w s = (Inr True, w', s') \<and> inv w' \<and> filtered p rows s' us \<and> ex_Current (FilterExec p E) s' = Inr u"
    if a: "inv w" "filtered p rows s (u # us)" for w s u us
  proof -
    obtain ts where "rows s ts" "\<forall>t \<in> set ts. \<exists>b. selects p t = Inr b" "u # us = filter (\<lambda>t. selects p t = Inr True) ts"
      using a(2) by (auto simp: filtered_def)
    then show ?thesis using filter_loop_skip [OF a(1)] by (fastforce simp: FilterExec_def settle_def filtered_def split: list.splits)
  qed
  show "\<exists>w' s'. ex_Next (FilterExec p E) w s = (Inr False, w', s') \<and> inv w' \<and> ex_Error (FilterExec p E) s' = None"
    if a: "inv w" "filtered p rows s []" for w s
  proof -
    obtain ts where "rows s ts" "\<forall>t \<in> set ts. \<exists>b. selects p t = Inr b" "[] = filter (\<lambda>t. selects p t = Inr True) ts"
      using a(2) by (auto simp: filtered_def)
    then show ?thesis using filter_loop_skip [OF a(1)] by (fastforce simp: FilterExec_def settle_def filtered_def split: list.splits)
  qed
  show "ex_Error (FilterExec p E) s = None" if "filtered p rows s us" for s us
    using that error_law by (auto simp: filtered_def FilterExec_def)
qed

lemma limit_source: "row_source (LimitExec lim E) inv (limit_ready lim ready) (limited lim rows)"
proof
  show "\<exists>w' s'. ex_Init (LimitExec lim E) w s = (Inr (), w', s') \<and> inv w' \<and> limited lim rows s' us"
    if "inv w" "limit_ready lim ready s us" for w s us
    using that init_law [of w "limit_child s"] by (fastforce simp: limit_ready_def limited_def LimitExec_def)
  show "\<exists>w' s'. ex_Next (LimitExec lim E) w s = (Inr True, w', s') \<and> inv w' \<and> limited lim rows s' us \<and> ex_Current (LimitExec lim E) s' = Inr u"
    if a: "inv w" "limited lim rows s (u # us)" for w s u us
  proof -
    obtain ts0 where ts0: "rows (limit_child s) ts0" "u # us = take (nat (lim - numTupReturned s)) ts0" using a(2) by (auto simp: limited_def)
    then have n: "numTupReturned s < lim" by (cases "numTupReturned s < lim") simp_all
    then have k: "nat (lim - numTupReturned s) = Suc (nat (lim - (numTupReturned s + 1)))" by simp
    obtain ts where ts: "rows (limit_child s) (u # ts)" "us = take (nat (lim - (numTupReturned s + 1))) ts"
      using ts0 unfolding k by (cases ts0) simp_all
    then show ?thesis using next_law [OF a(1) ts(1)] n by (fastforce simp: LimitExec_def limited_def)
  qed
  show "\<exists>w' s'. ex_Next (LimitExec lim E) w s = (Inr False, w', s') \<and> inv w' \<and> ex_Error (LimitExec lim E) s' = None"
    if a: "inv w" "limited lim rows s []" for w s
  proof (cases "numTupReturned s < lim")
    case True
    then have "rows (limit_child s) []" using a(2) by (auto simp: limited_def)
    then show ?thesis using end_law [OF a(1)] True by (fastforce simp: LimitExec_def limited_def)
  qed (use a error_law in \<open>auto simp: LimitExec_def limited_def\<close>)
  show "ex_Error (LimitExec lim E) s = None" if "limited lim rows s us" for s us
    using that error_law by (auto simp: limited_def LimitExec_def)
qed

lemma projection_source: "row_source (ProjectionExec exprs schema E) inv (projected exprs ready) (projected exprs rows)"
proof
  show "\<exists>w' s'. ex_Init (ProjectionExec exprs schema E) w s = (Inr (), w', s') \<and> inv w' \<and> projected exprs rows s' us"
    if "inv w" "projected exprs ready s us" for w s us
    using that init_law [of w s] by (fastforce simp: projected_def ProjectionExec_def)
  show "\<exists>w' s'. ex_Next (ProjectionExec exprs schema E) w s = (Inr True, w', s') \<and> inv w' \<and> projected exprs rows s' us \<and>
      ex_Current (ProjectionExec exprs schema E) s' = Inr u"
    if a: "inv w" "projected exprs rows s (u # us)" for w s u us
  proof -
    obtain ts0 where ts0: "rows s ts0" "mapR (project exprs) ts0 = Inr (u # us)" using a(2) by (auto simp: projected_def)
    then obtain t ts where ts: "rows s (t # ts)" "project exprs t = Inr u" "mapR (project exprs) ts = Inr us"
      by (cases ts0) (auto simp: bindR_eq_Inr)
    then show ?thesis using next_law [OF a(1) ts(1)] by (fastforce simp: ProjectionExec_def projected_def project_def)
  qed
  show "\<exists>w' s'. ex_Next (ProjectionExec exprs schema E) w s = (Inr False, w', s') \<and> inv w' \<and> ex_Error (ProjectionExec exprs schema E) s' = None"
    if a: "inv w" "projected exprs rows s []" for w s
  proof -
    obtain ts0 where "rows s ts0" "mapR (project exprs) ts0 = Inr []" using a(2) by (auto simp: projected_def)
    then have "rows s []" by (cases ts0) (auto simp: bindR_eq_Inr)
    then show ?thesis using end_law [OF a(1)] by (fastforce simp: ProjectionExec_def projected_def)
  qed
  show "ex_Error (ProjectionExec exprs schema E) s = None" if "projected exprs rows s us" for s us
    using that error_law by (auto simp: projected_def ProjectionExec_def)
qed

end


section \<open>Running a query\<close>

text \<open>The shell's loop: the values of every row, or the error at the end; the plan is closed on every way out.\<close>

definition run_query :: "('w, 's) Executor \<Rightarrow> 'w \<Rightarrow> 's \<Rightarrow> Value list list res \<times> ('w \<times> 's)" where
  "run_query E w s =
     (case ex_Init E w s of
        (Inl e, st) \<Rightarrow> (Inl e, st)
      | (Inr _, w1, s1) \<Rightarrow>
          let (r, w2, s2) = settle (w1, s1) (over_rows E (\<lambda>t out. bindR (get_values t) (\<lambda>vs. Inr (out @ [vs]))) w1 s1 []);
              r' = bindR r (\<lambda>out. case ex_Error E s2 of Some e \<Rightarrow> Inl e | None \<Rightarrow> Inr out)
          in (r', snd (ex_Close E w2 s2)))"

lemma collect_rows: "mapR g ts = Inr vss \<Longrightarrow> foldR (\<lambda>t out. bindR (g t) (\<lambda>vs. Inr (out @ [vs]))) ts out = Inr (out @ vss)"
  by (induction ts arbitrary: out vss) (auto simp: bindR_eq_Inr)

context row_source
begin

lemma run_query_rows:
  assumes "inv w" "ready s ts" "mapR get_values ts = Inr vss"
  shows "fst (run_query E w s) = Inr vss"
proof -
  obtain w1 s1 where i: "ex_Init E w s = (Inr (), w1, s1)" "inv w1" "rows s1 ts" using init_law [OF assms(1,2)] by blast
  have "foldR (\<lambda>t out. bindR (get_values t) (\<lambda>vs. Inr (out @ [vs]))) ts [] = Inr vss"
    using collect_rows [OF assms(3), of "[]"] by simp
  from over_rows_fold [OF i(2,3) this] obtain w2 s2
    where o': "over_rows E (\<lambda>t out. bindR (get_values t) (\<lambda>vs. Inr (out @ [vs]))) w1 s1 [] = Some (Inr vss, w2, s2)" "ex_Error E s2 = None" by blast
  then show ?thesis using i(1) o'(2) by (simp add: run_query_def settle_def)
qed

end

section \<open>The rows of a values node\<close>

definition const_row :: "Expr list \<Rightarrow> Tuple res" where
  "const_row exprs = bindR (mapR (\<lambda>x. Eval x EmptyTuple) exprs) (\<lambda>vs. Inr (FromValues (Some vs)))"

definition values_ready :: "Expr list list \<Rightarrow> gtype list \<Rightarrow> ValuesExecutor \<Rightarrow> Tuple list \<Rightarrow> bool" where
  "values_ready vals schema e ts \<longleftrightarrow> (\<forall>r \<in> set vals. length r = length schema) \<and> mapR const_row vals = Inr ts"

definition values_rows :: "Expr list list \<Rightarrow> gtype list \<Rightarrow> ValuesExecutor \<Rightarrow> Tuple list \<Rightarrow> bool" where
  "values_rows vals schema e ts \<longleftrightarrow> (\<forall>r \<in> set vals. length r = length schema) \<and> length (currentValues e) = length schema \<and>
     mapR const_row (drop (cursor e) vals) = Inr ts"

lemma values_row_all:
  assumes "mapR (\<lambda>x. Eval x EmptyTuple) exprs = Inr vs" "length old = length exprs"
  shows "values_row exprs old = Inr vs"
proof -
  have "foldR (\<lambda>(i, expr) vs. bindR (Eval expr EmptyTuple) (\<lambda>v. set_checked i v vs)) (enumerate (length pre) es) (pre @ rest) = Inr (pre @ ws)"
    if "mapR (\<lambda>x. Eval x EmptyTuple) es = Inr ws" "length rest = length es" for pre es ws rest
    using that
  proof (induction es arbitrary: pre ws rest)
    case (Cons x es)
    obtain v ws' where v: "Eval x EmptyTuple = Inr v" "mapR (\<lambda>x. Eval x EmptyTuple) es = Inr ws'" "ws = v # ws'"
      using Cons.prems(1) by (auto simp: bindR_eq_Inr)
    obtain r rest' where r: "rest = r # rest'" "length rest' = length es" using Cons.prems(2) by (cases rest) auto
    show ?case using Cons.IH [OF v(2) r(2), of "pre @ [v]"] v r by (simp add: set_checked_def)
  qed simp
  from this [of exprs vs old "[]"] show ?thesis using assms by (simp add: values_row_def)
qed

lemma mapR_length: "mapR f xs = Inr ys \<Longrightarrow> length ys = length xs"
  by (induction xs arbitrary: ys) (auto simp: bindR_eq_Inr)

interpretation vals: row_source "ValuesExec vals schema" "\<lambda>_. True" "values_ready vals schema" "values_rows vals schema" for vals schema
proof
  show "\<exists>w' s'. ex_Init (ValuesExec vals schema) w s = (Inr (), w', s') \<and> True \<and> values_rows vals schema s' ts"
    if "values_ready vals schema s ts" for w s ts
    using that by (simp add: ValuesExec_def values_ready_def values_rows_def)
  show "\<exists>w' s'. ex_Next (ValuesExec vals schema) w s = (Inr True, w', s') \<and> True \<and> values_rows vals schema s' ts \<and>
      ex_Current (ValuesExec vals schema) s' = Inr t"
    if a: "values_rows vals schema s (t # ts)" for w s t ts
  proof -
    have c: "cursor s < length vals" using a by (cases "cursor s < length vals") (simp_all add: values_rows_def)
    then have d: "drop (cursor s) vals = vals ! cursor s # drop (Suc (cursor s)) vals" by (simp add: Cons_nth_drop_Suc)
    then obtain vs where vs: "mapR (\<lambda>x. Eval x EmptyTuple) (vals ! cursor s) = Inr vs" "t = FromValues (Some vs)"
        "mapR const_row (drop (Suc (cursor s)) vals) = Inr ts"
      using a by (auto simp: values_rows_def const_row_def bindR_eq_Inr)
    have "length (currentValues s) = length (vals ! cursor s)" using a c by (simp add: values_rows_def)
    then have "values_row (vals ! cursor s) (currentValues s) = Inr vs" by (rule values_row_all [OF vs(1)])
    moreover have "length vs = length schema" using mapR_length [OF vs(1)] a c by (simp add: values_rows_def)
    ultimately show ?thesis using a c vs by (simp add: ValuesExec_def Values_Next_def values_rows_def)
  qed
  show "\<exists>w' s'. ex_Next (ValuesExec vals schema) w s = (Inr False, w', s') \<and> True \<and> ex_Error (ValuesExec vals schema) s' = None"
    if a: "values_rows vals schema s []" for w s
  proof -
    have "length vals \<le> cursor s" using a mapR_length [of const_row "drop (cursor s) vals" "[]"] by (simp add: values_rows_def)
    then show ?thesis using a by (simp add: ValuesExec_def Values_Next_def)
  qed
  show "ex_Error (ValuesExec vals schema) s = None" for s by (simp add: ValuesExec_def)
qed

lemma get_values_Extend: "get_values (Extend (FromValues None) vs) = Inr vs"
proof -
  have "mapR f [0..<length vs] = Inr vs" if "\<And>i. i < length vs \<Longrightarrow> f i = Inr (vs ! i)" for f
    using that
  proof (induction vs rule: rev_induct)
    case (snoc v vs)
    have "mapR f [0..<length vs] = Inr vs" by (rule snoc.IH) (use snoc.prems in \<open>simp add: nth_append\<close>)
    moreover have "mapR f (xs @ [i]) = bindR (mapR f xs) (\<lambda>ys. bindR (f i) (\<lambda>y. Inr (ys @ [y])))" for xs i
      by (induction xs) (auto simp: bindR_def split: sum.splits)
    ultimately show ?case using snoc.prems [of "length vs"] by simp
  qed simp
  then show ?thesis
    by (cases vs) (simp_all add: get_values_def NumColumns_def Tuple_GetValue_def Extend_def FromValues_def extra_list_def nth_checked_def)
qed

section \<open>Properties\<close>

text \<open>
  C22: A query's pipeline.  Over any source of rows on which the predicate is never null, the
  plan that filters, projects and limits returns the values of the projected expressions on
  the first rows that the predicate selects, in the source's order, and no others.
\<close>

theorem query_pipeline:
  assumes src: "row_source E W ready rows" and w: "W w" and ts: "ready s ts" and pred: "\<forall>t \<in> set ts. \<exists>b. selects p t = Inr b"
    and vss: "mapR (\<lambda>t. mapR (\<lambda>x. Eval x t) xs) (filter (\<lambda>t. selects p t = Inr True) ts) = Inr vss"
  shows "fst (run_query (LimitExec n (ProjectionExec xs schema (FilterExec p E))) w \<lparr>limit_child = s, numTupReturned = k\<rparr>) = Inr (take (nat n) vss)"
proof -
  let ?us = "map (\<lambda>vs. Extend (FromValues None) vs) vss"
  have us: "mapR (project xs) us' = Inr (map (\<lambda>vs. Extend (FromValues None) vs) vss')"
    if "mapR (\<lambda>t. mapR (\<lambda>x. Eval x t) xs) us' = Inr vss'" for us' vss'
    using that by (induction us' arbitrary: vss') (auto simp: bindR_eq_Inr project_def)
  have gvs: "mapR get_values (map (\<lambda>vs. Extend (FromValues None) vs) vss') = Inr vss'" for vss' by (induction vss') (simp_all add: get_values_Extend)
  let ?E = "LimitExec n (ProjectionExec xs schema (FilterExec p E))"
  have src': "row_source ?E W (limit_ready n (projected xs (filtered p ready))) (limited n (projected xs (filtered p rows)))"
    by (rule row_source.limit_source, rule row_source.projection_source, rule row_source.filter_source [OF src])
  have rd: "limit_ready n (projected xs (filtered p ready)) \<lparr>limit_child = s, numTupReturned = k\<rparr> (take (nat n) ?us)"
    unfolding limit_ready_def projected_def filtered_def using ts pred us [OF vss] by (simp only: LimitExecutor.simps) blast
  have "mapR get_values (take (nat n) ?us) = Inr (take (nat n) vss)" unfolding take_map by (rule gvs)
  then show ?thesis by (rule row_source.run_query_rows [OF src' w rd])
qed

definition demo_values :: "Expr list list" where
  "demo_values = map (\<lambda>n. [ConstantValueExpr (NewIntValue n)]) [1, 2, 3, 4]"

theorem query_pipeline_witness:
  "fst (run_query (LimitExec 2 (ProjectionExec [ArithmeticExpression (BoundValueExpr 0 IntType ''a'') (ConstantValueExpr (NewIntValue 10)) Add] [IntType]
      (FilterExec (ComparisonExpression (BoundValueExpr 0 IntType ''a'') (ConstantValueExpr (NewIntValue 1)) GreaterThan) (ValuesExec demo_values [IntType]))))
      () \<lparr>limit_child = NewValuesExecutor, numTupReturned = 0\<rparr>) = Inr [[NewIntValue 12], [NewIntValue 13]]"
proof -
  let ?p = "ComparisonExpression (BoundValueExpr 0 IntType ''a'') (ConstantValueExpr (NewIntValue 1)) GreaterThan"
  let ?x = "ArithmeticExpression (BoundValueExpr 0 IntType ''a'') (ConstantValueExpr (NewIntValue 10)) Add"
  let ?ts = "map (\<lambda>n. FromValues (Some [NewIntValue n])) [1, 2, 3, 4]"
  have r: "values_ready demo_values [IntType] NewValuesExecutor ?ts" by (simp add: values_ready_def demo_values_def const_row_def)
  note d = selects_def Tuple_GetValue_def FromValues_def extra_list_def nth_checked_def NewIntValue_def zeroValue_def Value_Compare_def bool_value_def IntValue_def
  have s: "\<forall>t \<in> set ?ts. \<exists>b. selects ?p t = Inr b" by (auto simp: d)
  have v: "mapR (\<lambda>t. mapR (\<lambda>x. Eval x t) [?x]) (filter (\<lambda>t. selects ?p t = Inr True) ?ts) =
      Inr [[NewIntValue 12], [NewIntValue 13], [NewIntValue 14]]" by (simp add: d)
  show ?thesis using query_pipeline [OF vals.row_source_axioms _ r s v, where w = "()" and n = 2] by simp
qed

end
