(* ===== verification/Index_Access.thy ===== *)
theory Index_Access
  imports Heap_Scan Index_Manager Executor
begin

text \<open>
  Reading a table through an index: \<^verbatim>\<open>execution/index_lookup_executor.go\<close> and
  \<^verbatim>\<open>execution/index_scan_executor.go\<close>.  An index may hold entries of rows that have been
  deleted or changed since; the operators read every row that an entry names and skip it when
  it is deleted or has another key by now.
\<close>

section \<open>State\<close>

text \<open>The world that operators on tables share; an index is named by its object id.\<close>

record ('l, 'm, 't) World =
  w_env :: "'l Env"
  w_indexes :: "('m, 't) IndexManager"

record IndexLookupExecutor =
  il_rids :: "RecordID list"
  il_err :: "fault option"
  il_tuple :: Tuple
  il_cursor :: nat
  il_buf :: RawTuple

definition NewIndexLookupExecutor :: "TableHeap \<Rightarrow> IndexLookupExecutor" where
  "NewIndexLookupExecutor th =
     \<lparr>il_rids = [], il_err = None, il_tuple = EmptyTuple, il_cursor = 0, il_buf = replicate (BytesPerTuple (th_desc th)) 0\<rparr>"

record 'i IndexScanExecutor =
  is_scanIt :: "'i MemBTreeIndexIterator option"
  is_buf :: RawTuple
  is_tup :: Tuple
  is_err :: "fault option"

definition NewIndexScanExecutor :: "'i IndexScanExecutor" where
  "NewIndexScanExecutor = \<lparr>is_scanIt = None, is_buf = [], is_tup = EmptyTuple, is_err = None\<rparr>"

lemma returned_cases [simp, code]:
  "returned Spins = False" "returned (Panic m) = False" "returned (GoDBError c) = True" "returned (OtherError m) = True"
  by (simp_all add: returned_def)

section \<open>The key of a row\<close>

definition key_for :: "IndexMetadata \<Rightarrow> Tuple \<Rightarrow> Key res" where
  "key_for md tuple =
     bindR (mapR (\<lambda>i. bindR (nth_checked (ProjectionList md) i) (\<lambda>col. Tuple_GetValue tuple col)) [0..<RawTupleDesc_NumColumns (KeySchema md)]) (\<lambda>vals.
     bindR (WriteToBuffer (Extend (FromValues None) vals) (replicate (BytesPerTuple (KeySchema md)) 0) (KeySchema md)) (\<lambda>k.
     AsKey md (tp_raw k)))"

text \<open>The messages of a skipped entry name the transaction, which must not be nil.\<close>

definition trace_txn :: "'l Env \<Rightarrow> unit res" where
  "trace_txn env = (if env_txn env = None then Inl (Panic ''nil pointer dereference'') else Inr ())"

section \<open>Point lookups\<close>

definition Lookup_Init :: "'m MapOf \<Rightarrow> ('t, 'i) BTreeG \<Rightarrow> ObjectID \<Rightarrow> Key \<Rightarrow> ('l, 'm, 't) World \<Rightarrow> IndexLookupExecutor \<Rightarrow>
    unit res \<times> (('l, 'm, 't) World \<times> IndexLookupExecutor)" where
  "Lookup_Init M B ix key w e =
     stepS (GetIndex ix (w_indexes w)) (w, e) (\<lambda>index.
     case Index_ScanKey M B key (il_rids e) index of
       Inl f \<Rightarrow> (Inl f, w, if returned f then e\<lparr>il_err := Some f\<rparr> else e)
     | Inr rids \<Rightarrow> (Inr (), w, e\<lparr>il_rids := rids, il_err := None\<rparr>))"

fun lookup_loop :: "'l LogManager \<Rightarrow> TableHeap \<Rightarrow> IndexMetadata \<Rightarrow> Key \<Rightarrow> bool \<Rightarrow> RecordID list \<Rightarrow> ('l, 'm, 't) World \<Rightarrow> IndexLookupExecutor \<Rightarrow>
    bool res \<times> (('l, 'm, 't) World \<times> IndexLookupExecutor)" where
  "lookup_loop L th md key forUpdate [] w e = (Inr False, w, e)"
| "lookup_loop L th md key forUpdate (rid # rids) w e =
     (case ReadTuple L th rid (il_buf e) forUpdate (w_env w) of
        (Inl f, env1) \<Rightarrow>
          let w1 = w\<lparr>w_env := env1\<rparr>; e1 = e\<lparr>il_cursor := il_cursor e + 1\<rparr>
          in if f = ErrTupleDeleted
             then (case trace_txn env1 of
                     Inl g \<Rightarrow> (Inl g, w1, e1\<lparr>il_err := Some f\<rparr>)
                   | Inr _ \<Rightarrow> lookup_loop L th md key forUpdate rids w1 (e1\<lparr>il_err := None\<rparr>))
             else if returned f then (Inr False, w1, e1\<lparr>il_err := Some f\<rparr>) else (Inl f, w1, e)
      | (Inr buf, env1) \<Rightarrow>
          let w1 = w\<lparr>w_env := env1\<rparr>; t = FromRawTuple buf (th_desc th) rid;
              e1 = e\<lparr>il_cursor := il_cursor e + 1, il_err := None, il_buf := buf, il_tuple := t\<rparr>
          in (case key_for md t of
                Inl f \<Rightarrow> (Inl f, w1, e1)
              | Inr k \<Rightarrow>
                  if \<not> Key_Equals k key
                  then (case trace_txn env1 of
                          Inl g \<Rightarrow> (Inl g, w1, e1)
                        | Inr _ \<Rightarrow> lookup_loop L th md key forUpdate rids w1 e1)
                  else (Inr True, w1, e1)))"

definition Lookup_Next :: "'l LogManager \<Rightarrow> TableHeap \<Rightarrow> ObjectID \<Rightarrow> Key \<Rightarrow> bool \<Rightarrow> ('l, 'm, 't) World \<Rightarrow> IndexLookupExecutor \<Rightarrow>
    bool res \<times> (('l, 'm, 't) World \<times> IndexLookupExecutor)" where
  "Lookup_Next L th ix key forUpdate w e =
     (if il_err e \<noteq> None \<or> il_cursor e \<ge> length (il_rids e) then (Inr False, w, e)
      else stepS (GetIndex ix (w_indexes w)) (w, e) (\<lambda>index.
           lookup_loop L th (Metadata index) key forUpdate (drop (il_cursor e) (il_rids e)) w e))"

text \<open>\<open>view\<close> is what a string taken from an earlier row reads in the buffer.\<close>

definition IndexLookupExec :: "(IndexLookupExecutor \<Rightarrow> Value \<Rightarrow> Value) \<Rightarrow> 'm MapOf \<Rightarrow> ('t, 'i) BTreeG \<Rightarrow> 'l LogManager \<Rightarrow> TableHeap \<Rightarrow> ObjectID \<Rightarrow> Key \<Rightarrow>
    bool \<Rightarrow> gtype list \<Rightarrow> (('l, 'm, 't) World, IndexLookupExecutor) Executor" where
  "IndexLookupExec view M B L th ix key forUpdate schema =
     \<lparr>ex_Schema = schema,
      ex_Init = Lookup_Init M B ix key,
      ex_Next = Lookup_Next L th ix key forUpdate,
      ex_Current = (\<lambda>e. Inr (il_tuple e)),
      ex_Error = il_err,
      ex_Close = (\<lambda>w e. (Inr (), w, e\<lparr>il_buf := [], il_rids := []\<rparr>)),
      ex_Reread = view\<rparr>"

section \<open>Range scans\<close>

fun Index_Scan :: "('t, 'i) BTreeG \<Rightarrow> Key \<Rightarrow> ScanDirection \<Rightarrow> ('m, 't) Index \<Rightarrow> 'i MemBTreeIndexIterator res" where
  "Index_Scan B start dir (HashIndex h) = bindR (Hash_Scan start dir h) (\<lambda>_. Inl (Panic ''nil pointer dereference''))"
| "Index_Scan B start dir (BTreeIndex b) = BTree_Scan B start dir b"

definition Scan_Init :: "('t, 'i) BTreeG \<Rightarrow> TableHeap \<Rightarrow> ObjectID \<Rightarrow> Key \<Rightarrow> ScanDirection \<Rightarrow> ('l, 'm, 't) World \<Rightarrow> 'i IndexScanExecutor \<Rightarrow>
    unit res \<times> (('l, 'm, 't) World \<times> 'i IndexScanExecutor)" where
  "Scan_Init B th ix start dir w e =
     stepS (GetIndex ix (w_indexes w)) (w, e) (\<lambda>index.
     case Index_Scan B start dir index of
       Inl f \<Rightarrow> (Inl f, w, if returned f then e\<lparr>is_err := Some f\<rparr> else e)
     | Inr it \<Rightarrow> (Inr (), w, e\<lparr>is_scanIt := Some it, is_buf := replicate (BytesPerTuple (th_desc th)) 0\<rparr>))"

partial_function (option) scan_loop :: "('t, 'i) BTreeG \<Rightarrow> 'l LogManager \<Rightarrow> TableHeap \<Rightarrow> IndexMetadata \<Rightarrow> bool \<Rightarrow> 'i MemBTreeIndexIterator \<Rightarrow>
    ('l, 'm, 't) World \<Rightarrow> 'i IndexScanExecutor \<Rightarrow> (bool res \<times> (('l, 'm, 't) World \<times> 'i IndexScanExecutor)) option" where
  "scan_loop B L th md forUpdate it0 w e0 =
     (let n = BTree_it_Next B it0; it = snd n; e = e0\<lparr>is_scanIt := Some it\<rparr>
      in if \<not> fst n then Some (Inr False, w, e)
         else let rid = BTree_it_Value B it; r = ReadTuple L th rid (is_buf e) forUpdate (w_env w); w1 = w\<lparr>w_env := snd r\<rparr>
         in case fst r of
              Inl f \<Rightarrow>
                if f = ErrTupleDeleted then scan_loop B L th md forUpdate it w1 (e\<lparr>is_err := Some f\<rparr>)
                else if returned f then Some (Inr False, w1, e\<lparr>is_err := Some f\<rparr>) else Some (Inl f, w1, e)
            | Inr buf \<Rightarrow>
                let e1 = e\<lparr>is_err := None, is_buf := buf, is_tup := FromRawTuple buf (th_desc th) rid\<rparr>
                in (case key_for md (is_tup e1) of
                      Inl f \<Rightarrow> Some (Inl f, w1, e1)
                    | Inr k \<Rightarrow> if \<not> Key_Equals k (BTree_it_Key B it) then scan_loop B L th md forUpdate it w1 e1 else Some (Inr True, w1, e1)))"

definition Scan_Next :: "('t, 'i) BTreeG \<Rightarrow> 'l LogManager \<Rightarrow> TableHeap \<Rightarrow> ObjectID \<Rightarrow> bool \<Rightarrow> ('l, 'm, 't) World \<Rightarrow> 'i IndexScanExecutor \<Rightarrow>
    bool res \<times> (('l, 'm, 't) World \<times> 'i IndexScanExecutor)" where
  "Scan_Next B L th ix forUpdate w e =
     (case is_scanIt e of
        None \<Rightarrow> (Inl (Panic ''nil pointer dereference''), w, e)
      | Some it \<Rightarrow>
          stepS (GetIndex ix (w_indexes w)) (w, e) (\<lambda>index. settle (w, e) (scan_loop B L th (Metadata index) forUpdate it w e)))"

text \<open>Neither the error nor the closing of a tree's iterator ever reports anything.\<close>

definition IndexScanExec :: "('i IndexScanExecutor \<Rightarrow> Value \<Rightarrow> Value) \<Rightarrow> ('t, 'i) BTreeG \<Rightarrow> 'l LogManager \<Rightarrow> TableHeap \<Rightarrow> ObjectID \<Rightarrow> Key \<Rightarrow> ScanDirection \<Rightarrow>
    bool \<Rightarrow> gtype list \<Rightarrow> (('l, 'm, 't) World, 'i IndexScanExecutor) Executor" where
  "IndexScanExec view B L th ix start dir forUpdate schema =
     \<lparr>ex_Schema = schema,
      ex_Init = Scan_Init B th ix start dir,
      ex_Next = Scan_Next B L th ix forUpdate,
      ex_Current = (\<lambda>e. Inr (is_tup e)),
      ex_Error = is_err,
      ex_Close = (\<lambda>w e. case is_scanIt e of None \<Rightarrow> (Inl (Panic ''nil pointer dereference''), w, e\<lparr>is_buf := []\<rparr>)
                        | Some _ \<Rightarrow> (Inr (), w, e\<lparr>is_buf := []\<rparr>)),
      ex_Reread = view\<rparr>"

section \<open>Reading a row\<close>

text \<open>
  Reading a row of a healthy database waits for a lock, finds the row deleted, or returns it;
  it changes no row and logs nothing.
\<close>

definition read_op :: "'l LogManager \<Rightarrow> ('l \<Rightarrow> bool) \<Rightarrow> ('l \<Rightarrow> (LSN \<times> log_entry) list) \<Rightarrow> 'l Env \<Rightarrow> TransactionContext \<Rightarrow> log_entry list \<Rightarrow>
    RecordID \<Rightarrow> byte list \<Rightarrow> byte list res \<times> 'l Env \<Rightarrow> bool" where
  "read_op L linv hist env txn es rid buf r \<longleftrightarrow>
     (case r of (res, env') \<Rightarrow>
        hist (env_log env') = hist (env_log env) \<and>
        (res = Inl Spins \<and> waiting_for (env_locks env') (ctx_id txn) \<noteq> None \<and> page_slots (env_pool env') = page_slots (env_pool env) \<or>
         (\<exists>txn'. env_ok L linv env' txn' es \<and> ctx_id txn' = ctx_id txn) \<and> page_slots (env_pool env') = page_slots (env_pool env) \<and>
         res = (if s_del (slot_at (page_slots (env_pool env)) rid) then Inl ErrTupleDeleted
                else Inr (go_copy buf (s_row (slot_at (page_slots (env_pool env)) rid))))))"

lemma read_op_cong:
  assumes "env_log env' = env_log env" "env_pool env' = env_pool env" "ctx_id txn' = ctx_id txn"
  shows "read_op L linv hist env' txn' es rid buf r = read_op L linv hist env txn es rid buf r"
  using assms by (cases r) (simp add: read_op_def)

context log_service
begin

lemma read_page_ok:
  assumes ok: "env_ok L linv env txn es" and rid: "rid_ok (page_slots (env_pool env)) rid"
  shows "read_op L linv history env txn es rid buf
    (bindS (get_page L (ridPage rid) env) (\<lambda>a env3. bindS (on_frame a AsHeapPage env3) (\<lambda>_ env4.
     stepS (IsDeleted (frame_at a env4) rid) env4 (\<lambda>deleted.
     if deleted then give_up a False ErrTupleDeleted env4
     else stepS (AccessTuple (frame_at a env4) rid) env4 (\<lambda>tup.
          bindS (unpin a False env4) (\<lambda>_ env5. (Inr (go_copy buf tup), env5)))))))"
proof -
  let ?S = "page_slots (env_pool env)"
  have "rid_slot rid = int (slot_no rid)" using rid by (simp add: rid_ok_def slot_no_def)
  moreover obtain ss where "?S (ridPage rid) = Some ss" "slot_no rid < length ss" using rid by (auto simp: rid_ok_def)
  ultimately have ss: "?S (ridPage rid) = Some ss" "slot_no rid < length ss" "rid_slot rid = int (slot_no rid)" by auto
  have store: "store_ok L linv (env_log env) (env_pool env)" using ok by (simp add: env_ok_def)
  obtain a l1 bp1 hp where p: "get_page L (ridPage rid) env = (Inr a, env\<lparr>env_log := l1, env_pool := bp1\<rparr>)"
    "AsHeapPage (frames bp1 a) = Inr hp" "wf_heap_page hp" "hp_slots hp = ss" "linv l1" "log_kept L history (env_log env) l1"
    "waits L l1 (frame_LSN hp)"
    and close: "closes L linv l1 bp1 a hp ?S (ridPage rid)"
    by (rule page_session [OF store ss(1)]) (rule that)
  have i: "slot_no rid < numSlots hp" using ss(2) p(4) length_hp_slots [of hp] by simp
  have at: "slot_at ?S rid = hp_slots hp ! slot_no rid" by (simp add: slot_at_def ss(1) p(4))
  obtain bp0 where bp0: "UnpinPage a False (put_frame a hp bp1) = Inr bp0" "page_slots bp0 = ?S" "store_ok L linv l1 bp0"
    by (rule closesD [OF close p(3) _ _ p(5) _ p(7), of False]) (use p(4) ss(1) in \<open>auto simp: same_pool_fields_def fun_upd_idem\<close>)
  have h1: "history l1 = history (env_log env)" using p(6) by (simp add: log_kept_def)
  have del: "IsDeleted hp rid = Inr (s_del (hp_slots hp ! slot_no rid))" by (rule IsDeleted_spec [OF p(3) ss(3) i])
  have acc: "AccessTuple hp rid = Inr (s_row (hp_slots hp ! slot_no rid))" by (rule AccessTuple_spec [OF p(3) ss(3) i])
  have ok': "env_ok L linv (env\<lparr>env_log := l1, env_pool := bp0\<rparr>) txn es" using ok bp0(3) by (simp add: env_ok_def)
  have g: "give_up a False ErrTupleDeleted (env\<lparr>env_log := l1, env_pool := put_frame a hp bp1\<rparr>) = (Inl ErrTupleDeleted, env\<lparr>env_log := l1, env_pool := bp0\<rparr>)"
    using bp0(1) by (simp add: give_up_def ErrTupleDeleted_def unpin_def)
  show ?thesis using ok' bp0(1,2) at h1 by (auto simp: p(1,2) on_frame_def frame_at_def del acc g unpin_def read_op_def)
qed

lemma ReadTuple_ok:
  assumes ok: "env_ok L linv env txn es" and rid: "rid_ok (page_slots (env_pool env)) rid"
  shows "read_op L linv history env txn es rid buf (ReadTuple L th rid buf forUpdate env)"
proof (rule acquire_ok [OF ok, of "tableTag th" "if forUpdate then LockModeIX else LockModeIS"])
  fix env'
  assume "acquire (tableTag th) (if forUpdate then LockModeIX else LockModeIS) env = (Inl Spins, env')" "env_pool env' = env_pool env" "env_log env' = env_log env"
    "waiting_for (env_locks env') (ctx_id txn) \<noteq> None"
  then show ?thesis by (simp add: read_op_def ReadTuple_def)
next
  fix txn1 lm1
  let ?e1 = "env\<lparr>env_txn := Some txn1, env_locks := lm1\<rparr>"
  assume 1: "acquire (tableTag th) (if forUpdate then LockModeIX else LockModeIS) env = (Inr (), ?e1)" "env_ok L linv ?e1 txn1 es" "ctx_id txn1 = ctx_id txn"
  show ?thesis
  proof (rule acquire_ok [OF 1(2), of "NewTupleLockTag rid" "if forUpdate then LockModeX else LockModeS"])
    fix env'
    assume "acquire (NewTupleLockTag rid) (if forUpdate then LockModeX else LockModeS) ?e1 = (Inl Spins, env')" "env_pool env' = env_pool ?e1" "env_log env' = env_log ?e1"
      "waiting_for (env_locks env') (ctx_id txn1) \<noteq> None"
    then show ?thesis using 1(1,3) by (simp add: read_op_def ReadTuple_def)
  next
    fix txn2 lm2
    let ?e2 = "env\<lparr>env_txn := Some txn2, env_locks := lm2\<rparr>"
    assume 2: "acquire (NewTupleLockTag rid) (if forUpdate then LockModeX else LockModeS) ?e1 = (Inr (), ?e1\<lparr>env_txn := Some txn2, env_locks := lm2\<rparr>)"
      "env_ok L linv (?e1\<lparr>env_txn := Some txn2, env_locks := lm2\<rparr>) txn2 es" "ctx_id txn2 = ctx_id txn1"
    have "env_ok L linv ?e2 txn2 es" using 2(2) by simp
    from read_page_ok [OF this, of rid buf] show ?thesis
      using rid 1(1,3) 2(1,3) read_op_cong [of ?e2 env txn2 txn] by (simp add: ReadTuple_def cong: if_cong)
  qed
qed

end

section \<open>The key of a row of the table\<close>

text \<open>The index is over columns of the table.\<close>

definition index_fits :: "IndexMetadata \<Rightarrow> RawTupleDesc \<Rightarrow> bool" where
  "index_fits md d \<longleftrightarrow> wf_desc (KeySchema md) \<and> wf_desc d \<and> length (ProjectionList md) = length (rd_fields (KeySchema md)) \<and>
     (\<forall>i < length (ProjectionList md). ProjectionList md ! i < length (rd_fields d) \<and> rd_fields (KeySchema md) ! i = rd_fields d ! (ProjectionList md ! i))"

lemma key_for_ok:
  assumes "tuple_ok t" "tuple_types t = rd_fields d" "index_fits md d"
  obtains k where "key_for md t = Inr k" "key_of md k"
proof -
  let ?ks = "KeySchema md" and ?pl = "ProjectionList md" and ?vs = "columns t"
  have f: "wf_desc ?ks" "length ?pl = length (rd_fields ?ks)" "\<And>i. i < length ?pl \<Longrightarrow> ?pl ! i < length (rd_fields d) \<and> rd_fields ?ks ! i = rd_fields d ! (?pl ! i)"
    using assms(3) by (simp_all add: index_fits_def)
  note c = columns_ok [OF assms(1)]
  have n: "NumColumns t = length (rd_fields d)" "length ?vs = length (rd_fields d)" using c(3,5) assms(2) by (metis length_map)+
  let ?vals = "map (\<lambda>i. ?vs ! (?pl ! i)) [0..<RawTupleDesc_NumColumns ?ks]"
  have "bindR (nth_checked ?pl i) (\<lambda>col. Tuple_GetValue t col) = Inr (?vs ! (?pl ! i))" if "i \<in> set [0..<RawTupleDesc_NumColumns ?ks]" for i
    using that f(2) f(3) [of i] mapR_get_values(1) [OF c(1)] n(1) by (simp add: nth_checked_def RawTupleDesc_NumColumns_def)
  then have v: "mapR (\<lambda>i. bindR (nth_checked ?pl i) (\<lambda>col. Tuple_GetValue t col)) [0..<RawTupleDesc_NumColumns ?ks] = Inr ?vals" by (rule mapR_total)
  let ?k = "Extend (FromValues None) ?vals"
  have "map val_t ?vals = rd_fields ?ks"
  proof (rule nth_equalityI)
    show "map val_t ?vals ! i = rd_fields ?ks ! i" if "i < length (map val_t ?vals)" for i
      using that f(2) f(3) [of i] n(2) c(3) assms(2) nth_map [of "?pl ! i" ?vs val_t] by (simp add: RawTupleDesc_NumColumns_def)
  qed (simp add: RawTupleDesc_NumColumns_def)
  moreover have "value_wf u \<and> storable u" if "u \<in> set ?vals" for u
    using that c(4) f(2,3) n(2) by (auto simp: RawTupleDesc_NumColumns_def)
  moreover have "extra_list ?k = ?vals" "tp_desc ?k = None" "tp_raw ?k = []" by (simp_all add: Extend_def FromValues_def extra_list_def)
  ultimately have ok: "tuple_ok ?k" "rd_fields ?ks = tuple_types ?k" by (simp_all add: tuple_ok_def tuple_types_def del: set_map)
  obtain buf where b: "WriteToBuffer ?k (replicate (BytesPerTuple ?ks) 0) ?ks = Inr (FromRawTuple buf ?ks (tp_rid ?k))" "length buf = BytesPerTuple ?ks"
    by (rule WriteToBuffer_ok [OF ok(1) f(1) ok(2) _ columns_ok(2) [OF ok(1)], of "replicate (BytesPerTuple ?ks) 0"]) (simp_all add: BytesPerTuple_def)
  then have "key_for md t = AsKey md buf" using v by (simp add: key_for_def FromRawTuple_def)
  then show thesis using that b(2) by (auto simp: AsKey_def slice_checked_def key_of_def slice_def)
qed

lemma Key_Equals_eq: "Key_Equals k k' \<longleftrightarrow> k = k'"
  by (auto simp: Key_Equals_def)

section \<open>What a lookup delivers\<close>

definition entry_row :: "TableHeap \<Rightarrow> slots \<Rightarrow> RecordID \<Rightarrow> Tuple" where
  "entry_row th S rid = FromRawTuple (s_row (slot_at S rid)) (th_desc th) rid"

definition entry_hit :: "IndexMetadata \<Rightarrow> TableHeap \<Rightarrow> Key \<Rightarrow> slots \<Rightarrow> RecordID \<Rightarrow> bool" where
  "entry_hit md th key S rid \<longleftrightarrow> \<not> s_del (slot_at S rid) \<and> key_for md (entry_row th S rid) = Inr key"

definition entry_ok :: "TableHeap \<Rightarrow> slots \<Rightarrow> RecordID \<Rightarrow> bool" where
  "entry_ok th S rid \<longleftrightarrow> rid_ok S rid \<and> length (s_row (slot_at S rid)) = BytesPerTuple (th_desc th)"

text \<open>A healthy database with the slots \<open>S\<close>, the history \<open>H\<close> and the indexes \<open>im\<close>, and a transaction that does not wait.\<close>

definition world_ok :: "'l LogManager \<Rightarrow> ('l \<Rightarrow> bool) \<Rightarrow> ('l \<Rightarrow> (LSN \<times> log_entry) list) \<Rightarrow> TransactionID \<Rightarrow> log_entry list \<Rightarrow> slots \<Rightarrow>
    (LSN \<times> log_entry) list \<Rightarrow> ('m, 't) IndexManager \<Rightarrow> ('l, 'm, 't) World \<Rightarrow> bool" where
  "world_ok L linv hist tid es S H im w \<longleftrightarrow> (\<exists>txn. env_ok L linv (w_env w) txn es \<and> ctx_id txn = tid) \<and>
     page_slots (env_pool (w_env w)) = S \<and> hist (env_log (w_env w)) = H \<and> w_indexes w = im"

definition lookup_at :: "TableHeap \<Rightarrow> IndexLookupExecutor \<Rightarrow> RecordID list \<Rightarrow> bool" where
  "lookup_at th e rids \<longleftrightarrow> il_err e = None \<and> drop (il_cursor e) (il_rids e) = rids \<and> length (il_buf e) = BytesPerTuple (th_desc th)"

text \<open>Waiting for a lock leaves rows and log as they are.\<close>

definition waits_in :: "TransactionID \<Rightarrow> slots \<Rightarrow> ('l \<Rightarrow> (LSN \<times> log_entry) list) \<Rightarrow> (LSN \<times> log_entry) list \<Rightarrow> ('l, 'm, 't) World \<Rightarrow> bool" where
  "waits_in tid S hist H w \<longleftrightarrow> waiting_for (env_locks (w_env w)) tid \<noteq> None \<and> page_slots (env_pool (w_env w)) = S \<and> hist (env_log (w_env w)) = H"

lemma lookup_at_next:
  assumes "lookup_at th e (rid # rids)"
  shows "lookup_at th (e\<lparr>il_cursor := il_cursor e + 1, il_err := None\<rparr>) rids"
    "length b = BytesPerTuple (th_desc th) \<Longrightarrow> lookup_at th (e\<lparr>il_cursor := il_cursor e + 1, il_err := None, il_buf := b, il_tuple := t\<rparr>) rids"
  using assms by (auto simp: lookup_at_def) (metis drop_Suc tl_drop list.sel(3))+

context log_service
begin

lemma world_read:
  assumes w: "world_ok L linv history tid es S H im w" and rid: "entry_ok th S rid" and buf: "length buf = BytesPerTuple (th_desc th)"
  obtains (waiting) env' where "ReadTuple L th rid buf forUpdate (w_env w) = (Inl Spins, env')" "waits_in tid S history H (w\<lparr>w_env := env'\<rparr>)"
  | (deleted) env' where "ReadTuple L th rid buf forUpdate (w_env w) = (Inl ErrTupleDeleted, env')" "s_del (slot_at S rid)"
      "world_ok L linv history tid es S H im (w\<lparr>w_env := env'\<rparr>)" "trace_txn env' = Inr ()"
  | (found) env' where "ReadTuple L th rid buf forUpdate (w_env w) = (Inr (s_row (slot_at S rid)), env')" "\<not> s_del (slot_at S rid)"
      "world_ok L linv history tid es S H im (w\<lparr>w_env := env'\<rparr>)" "trace_txn env' = Inr ()"
proof -
  obtain txn where t: "env_ok L linv (w_env w) txn es" "ctx_id txn = tid" and S: "page_slots (env_pool (w_env w)) = S" "history (env_log (w_env w)) = H" "w_indexes w = im"
    using w by (auto simp: world_ok_def)
  have r: "rid_ok (page_slots (env_pool (w_env w))) rid" using rid S(1) by (simp add: entry_ok_def)
  obtain res env' where x: "ReadTuple L th rid buf forUpdate (w_env w) = (res, env')" by fastforce
  have cp: "go_copy buf (s_row (slot_at S rid)) = s_row (slot_at S rid)" using rid buf by (simp add: entry_ok_def go_copy_put_at put_at_def)
  have "read_op L linv history (w_env w) txn es rid buf (res, env')" using ReadTuple_ok [OF t(1) r, of buf th forUpdate] x by simp
  then consider "res = Inl Spins" "waits_in tid S history H (w\<lparr>w_env := env'\<rparr>)"
    | txn' where "env_ok L linv env' txn' es" "ctx_id txn' = tid" "world_ok L linv history tid es S H im (w\<lparr>w_env := env'\<rparr>)"
        "res = (if s_del (slot_at S rid) then Inl ErrTupleDeleted else Inr (s_row (slot_at S rid)))"
    unfolding read_op_def prod.case S(1,2) t(2) cp waits_in_def world_ok_def by (auto simp: S(3))
  then show thesis
  proof cases
    case 2
    then have "trace_txn env' = Inr ()" by (simp add: trace_txn_def env_ok_def)
    then show thesis using 2 deleted found x by (cases "s_del (slot_at S rid)") simp_all
  qed (use waiting x in simp)
qed

lemma lookup_loop_ok:
  assumes "world_ok L linv history tid es S H im w" "lookup_at th e rids" "\<forall>rid \<in> set rids. entry_ok th S rid" and fits: "index_fits md (th_desc th)"
  shows "\<exists>res w' e'. lookup_loop L th md key forUpdate rids w e = (res, w', e') \<and>
    (res = Inl Spins \<and> waits_in tid S history H w' \<or>
     world_ok L linv history tid es S H im w' \<and>
     (case dropWhile (\<lambda>rid. \<not> entry_hit md th key S rid) rids of
        [] \<Rightarrow> res = Inr False \<and> lookup_at th e' []
      | rid # rest \<Rightarrow> res = Inr True \<and> lookup_at th e' rest \<and> il_tuple e' = entry_row th S rid))"
  using assms(1-3)
proof (induction rids arbitrary: w e)
  case (Cons rid rids)
  have rid: "entry_ok th S rid" and b: "length (il_buf e) = BytesPerTuple (th_desc th)" using Cons.prems(2,3) by (simp_all add: lookup_at_def)
  have d: "wf_desc (th_desc th)" using fits by (simp add: index_fits_def)
  show ?case
  proof (rule world_read [OF Cons.prems(1) rid b, of forUpdate])
    fix env' assume "ReadTuple L th rid (il_buf e) forUpdate (w_env w) = (Inl Spins, env')" "waits_in tid S history H (w\<lparr>w_env := env'\<rparr>)"
    then show ?thesis by (simp add: ErrTupleDeleted_def)
  next
    fix env' assume r: "ReadTuple L th rid (il_buf e) forUpdate (w_env w) = (Inl ErrTupleDeleted, env')" "s_del (slot_at S rid)"
      "world_ok L linv history tid es S H im (w\<lparr>w_env := env'\<rparr>)" "trace_txn env' = Inr ()"
    have "\<not> entry_hit md th key S rid" using r(2) by (simp add: entry_hit_def)
    then show ?thesis using Cons.IH [OF r(3) lookup_at_next(1) [OF Cons.prems(2)]] Cons.prems(3) r(1,4) by simp
  next
    fix env' assume r: "ReadTuple L th rid (il_buf e) forUpdate (w_env w) = (Inr (s_row (slot_at S rid)), env')" "\<not> s_del (slot_at S rid)"
      "world_ok L linv history tid es S H im (w\<lparr>w_env := env'\<rparr>)" "trace_txn env' = Inr ()"
    have l: "length (s_row (slot_at S rid)) = BytesPerTuple (th_desc th)" using rid by (simp add: entry_ok_def)
    have "tuple_ok (entry_row th S rid)" "tuple_types (entry_row th S rid) = rd_fields (th_desc th)"
      using l d by (simp_all add: entry_row_def tuple_ok_def FromRawTuple_def extra_list_def BytesPerTuple_def tuple_types_def)
    then obtain k where k: "key_for md (entry_row th S rid) = Inr k" by (rule key_for_ok [OF _ _ fits])
    note at = lookup_at_next(2) [OF Cons.prems(2) l, of "entry_row th S rid"]
    show ?thesis
    proof (cases "k = key")
      case True
      then have "entry_hit md th key S rid" using r(2) k by (simp add: entry_hit_def)
      then show ?thesis using r(1,3) k True at by (simp add: Key_Equals_eq entry_row_def)
    next
      case False
      then have "\<not> entry_hit md th key S rid" using k by (simp add: entry_hit_def)
      then show ?thesis using Cons.IH [OF r(3) at] Cons.prems(3) r(1,4) k False by (simp add: Key_Equals_eq entry_row_def)
    qed
  qed
qed simp

lemma filter_dropWhile_first: "filter P xs = (case dropWhile (\<lambda>x. \<not> P x) xs of [] \<Rightarrow> [] | x # ys \<Rightarrow> x # filter P ys)"
  by (induction xs) auto

lemma lookup_rows:
  assumes "world_ok L linv history tid es S H im w" "lookup_at th e rids" "\<forall>rid \<in> set rids. entry_ok th S rid" and fits: "index_fits md (th_desc th)"
    and ix: "im ix = Some index" "Metadata index = md"
    and "foldR f (map (entry_row th S) (filter (entry_hit md th key S) rids)) acc = Inr acc'"
  shows "\<exists>res w' e'. over_rows (IndexLookupExec view M B L th ix key forUpdate schema) f w e acc = Some (res, w', e') \<and>
    (res = Inl Spins \<and> waits_in tid S history H w' \<or> res = Inr acc' \<and> world_ok L linv history tid es S H im w' \<and> lookup_at th e' [])"
  using assms(1-3,7)
proof (induction "length rids" arbitrary: rids w e acc rule: less_induct)
  case less
  let ?E = "IndexLookupExec view M B L th ix key forUpdate schema"
  have x: "ex_Next ?E = Lookup_Next L th ix key forUpdate" "ex_Current ?E = (\<lambda>e. Inr (il_tuple e))" by (simp_all add: IndexLookupExec_def)
  show ?case
  proof (cases "rids = []")
    case True
    then have "Lookup_Next L th ix key forUpdate w e = (Inr False, w, e)" using less.prems(2) by (simp add: Lookup_Next_def lookup_at_def)
    then show ?thesis using True less.prems x by (subst over_rows.simps) simp
  next
    case False
    have "il_err e = None" "drop (il_cursor e) (il_rids e) = rids" "w_indexes w = im" using less.prems(1,2) by (simp_all add: lookup_at_def world_ok_def)
    then have n: "Lookup_Next L th ix key forUpdate w e = lookup_loop L th md key forUpdate rids w e" using False ix by (auto simp: Lookup_Next_def GetIndex_def)
    obtain res w1 e1 where l: "lookup_loop L th md key forUpdate rids w e = (res, w1, e1)"
      "res = Inl Spins \<and> waits_in tid S history H w1 \<or> world_ok L linv history tid es S H im w1 \<and>
        (case dropWhile (\<lambda>rid. \<not> entry_hit md th key S rid) rids of [] \<Rightarrow> res = Inr False \<and> lookup_at th e1 []
         | rid # rest \<Rightarrow> res = Inr True \<and> lookup_at th e1 rest \<and> il_tuple e1 = entry_row th S rid)"
      using lookup_loop_ok [OF less.prems(1-3) fits, of key forUpdate] by blast
    note f = less.prems(4) [unfolded filter_dropWhile_first [of "entry_hit md th key S" rids]]
    show ?thesis
    proof (cases "dropWhile (\<lambda>rid. \<not> entry_hit md th key S rid) rids")
      case Nil
      have "acc' = acc" using f Nil by simp
      have "res = Inl Spins \<and> waits_in tid S history H w1 \<or> res = Inr False \<and> world_ok L linv history tid es S H im w1 \<and> lookup_at th e1 []"
        using l(2) Nil by auto
      then show ?thesis
      proof
        assume "res = Inl Spins \<and> waits_in tid S history H w1"
        then show ?thesis using l(1) n x by (subst over_rows.simps) simp
      next
        assume "res = Inr False \<and> world_ok L linv history tid es S H im w1 \<and> lookup_at th e1 []"
        then show ?thesis using l(1) n x \<open>acc' = acc\<close> by (subst over_rows.simps) simp
      qed
    next
      case (Cons rid rest)
      then have sub: "length rest < length rids" "set rest \<subseteq> set rids"
        using length_dropWhile_le [of "\<lambda>rid. \<not> entry_hit md th key S rid" rids] set_dropWhileD [of _ "\<lambda>rid. \<not> entry_hit md th key S rid" rids] by fastforce+
      obtain a where a: "f (entry_row th S rid) acc = Inr a" "foldR f (map (entry_row th S) (filter (entry_hit md th key S) rest)) a = Inr acc'"
        using f Cons by (auto simp: bindR_eq_Inr)
      show ?thesis
      proof (cases "res = Inl Spins")
        case True
        then show ?thesis using l n Cons x by (subst over_rows.simps) auto
      next
        case False
        then have l2: "world_ok L linv history tid es S H im w1" "res = Inr True" "lookup_at th e1 rest" "il_tuple e1 = entry_row th S rid" using l(2) Cons by auto
        have ih: "\<exists>res w' e'. over_rows ?E f w1 e1 a = Some (res, w', e') \<and>
            (res = Inl Spins \<and> waits_in tid S history H w' \<or> res = Inr acc' \<and> world_ok L linv history tid es S H im w' \<and> lookup_at th e' [])"
          by (rule less.hyps [OF sub(1) l2(1,3)]) (use less.prems(3) sub(2) a(2) in auto)
        have "over_rows ?E f w e acc = over_rows ?E f w1 e1 a" using l(1) n l2(2,4) a(1) x by (subst over_rows.simps) simp
        then show ?thesis using ih by simp
      qed
    qed
  qed
qed

end

section \<open>Properties\<close>

text \<open>
  The entries of the index under a key cover the table: they name slots of the table, none
  twice and none that was freed, and every row with the key has one.  Rows that are deleted or
  have another key by now may still have entries.
\<close>

definition index_covers :: "IndexMetadata \<Rightarrow> TableHeap \<Rightarrow> Key \<Rightarrow> slots \<Rightarrow> RecordID list \<Rightarrow> bool" where
  "index_covers md th key S rids \<longleftrightarrow> distinct rids \<and>
     (\<forall>rid \<in> set rids. entry_ok th S rid \<and> Oid (ridPage rid) = th_oid th \<and> (s_alloc (slot_at S rid) \<or> s_del (slot_at S rid))) \<and>
     (\<forall>rid row. rows S rid = Some row \<longrightarrow> Oid (ridPage rid) = th_oid th \<longrightarrow> key_for md (FromRawTuple row (th_desc th) rid) = Inr key \<longrightarrow> rid \<in> set rids)"

definition key_rows :: "IndexMetadata \<Rightarrow> TableHeap \<Rightarrow> Key \<Rightarrow> slots \<Rightarrow> RecordID set" where
  "key_rows md th key S = {rid. Oid (ridPage rid) = th_oid th \<and> (\<exists>row. rows S rid = Some row \<and> key_for md (FromRawTuple row (th_desc th) rid) = Inr key)}"

lemma covers_hits:
  assumes c: "index_covers md th key S rids"
  shows "\<And>rid. rid \<in> set rids \<Longrightarrow> \<not> s_del (slot_at S rid) \<Longrightarrow> rows S rid = Some (s_row (slot_at S rid))"
    "set (filter (entry_hit md th key S) rids) = key_rows md th key S" "distinct rids" "\<forall>rid \<in> set rids. entry_ok th S rid"
proof -
  have e: "entry_ok th S rid" "Oid (ridPage rid) = th_oid th" "s_alloc (slot_at S rid) \<or> s_del (slot_at S rid)" if "rid \<in> set rids" for rid
    using that c unfolding index_covers_def by blast+
  show row: "rows S rid = Some (s_row (slot_at S rid))" if "rid \<in> set rids" "\<not> s_del (slot_at S rid)" for rid
    using that e [OF that(1)] by (simp add: rows_def vis_def entry_ok_def)
  have all: "rid \<in> set rids" "entry_row th S rid = FromRawTuple row (th_desc th) rid" "\<not> s_del (slot_at S rid)"
    if "rows S rid = Some row" "Oid (ridPage rid) = th_oid th" "key_for md (FromRawTuple row (th_desc th) rid) = Inr key" for rid row
  proof -
    show "rid \<in> set rids" using that c unfolding index_covers_def by blast
    show "entry_row th S rid = FromRawTuple row (th_desc th) rid" "\<not> s_del (slot_at S rid)"
      using that(1) by (auto simp: rows_def vis_def entry_row_def split: if_splits)
  qed
  show "set (filter (entry_hit md th key S) rids) = key_rows md th key S"
  proof (intro set_eqI iffI)
    fix rid assume "rid \<in> key_rows md th key S"
    then obtain row where r: "rows S rid = Some row" "Oid (ridPage rid) = th_oid th" "key_for md (FromRawTuple row (th_desc th) rid) = Inr key"
      by (auto simp: key_rows_def)
    show "rid \<in> set (filter (entry_hit md th key S) rids)" using all [OF r] r(3) by (simp add: entry_hit_def)
  qed (use row e in \<open>simp add: entry_hit_def entry_row_def key_rows_def\<close>)
  show "distinct rids" "\<forall>rid \<in> set rids. entry_ok th S rid" using c e unfolding index_covers_def by blast+
qed

text \<open>
  C11: Point lookups through an index.  Let the database be healthy, let the keys of the index
  be made of columns of the table, and let the entries that the index returns for a key be
  distinct, name slots of the table that hold or held rows, and name every visible row of the
  table with that key; they may also name deleted rows and rows with another key.  Then running
  a lookup of the key either waits for a lock or returns the values of exactly the visible rows
  of the table that have the key, each once.  No row is changed and nothing is logged.
\<close>

theorem index_lookup_rows:
  assumes log: "log_service L linv hist" and ok: "env_ok L linv (w_env w) txn es"
    and ix: "w_indexes w ix = Some index" "index_fits (Metadata index) (th_desc th)" "Index_ScanKey M B key [] index = Inr rids"
      "index_covers (Metadata index) th key (page_slots (env_pool (w_env w))) rids"
  shows "case run_query (IndexLookupExec view M B L th ix key forUpdate schema) w (NewIndexLookupExecutor th) of
      (Inl f, w', e') \<Rightarrow> f = Spins \<and> waiting_for (env_locks (w_env w')) (ctx_id txn) \<noteq> None
    | (Inr vss, w', e') \<Rightarrow>
        (\<exists>hits. distinct hits \<and>
           set hits = key_rows (Metadata index) th key (page_slots (env_pool (w_env w))) \<and>
           vss = map (\<lambda>rid. columns (FromRawTuple (the (rows (page_slots (env_pool (w_env w))) rid)) (th_desc th) rid)) hits) \<and>
        page_slots (env_pool (w_env w')) = page_slots (env_pool (w_env w)) \<and> hist (env_log (w_env w')) = hist (env_log (w_env w))"
proof -
  let ?S = "page_slots (env_pool (w_env w))" and ?md = "Metadata index" and ?E = "IndexLookupExec view M B L th ix key forUpdate schema"
  let ?hits = "filter (entry_hit ?md th key ?S) rids"
  have W: "world_ok L linv hist (ctx_id txn) es ?S (hist (env_log (w_env w))) (w_indexes w) w" using ok by (auto simp: world_ok_def)
  note c = covers_hits [OF ix(4)]
  have d: "wf_desc (th_desc th)" using ix(2) by (simp add: index_fits_def)
  have "get_values (entry_row th ?S rid) = Inr (columns (entry_row th ?S rid))" if "rid \<in> set ?hits" for rid
    using that c(4) d by (intro columns_ok(1)) (auto simp: entry_row_def entry_ok_def tuple_ok_def FromRawTuple_def extra_list_def BytesPerTuple_def)
  then have "mapR get_values (map (entry_row th ?S) ?hits) = Inr (map columns (map (entry_row th ?S) ?hits))" by (intro mapR_total) auto
  note f = collect_rows [OF this, of "[]", unfolded append_Nil]
  let ?e = "(NewIndexLookupExecutor th)\<lparr>il_rids := rids, il_err := None\<rparr>"
  have at: "lookup_at th ?e rids" by (simp add: lookup_at_def NewIndexLookupExecutor_def)
  obtain res w' e' where o: "over_rows ?E (\<lambda>t out. bindR (get_values t) (\<lambda>vs. Inr (out @ [vs]))) w ?e [] = Some (res, w', e')"
      "res = Inl Spins \<and> waits_in (ctx_id txn) ?S hist (hist (env_log (w_env w))) w' \<or>
       res = Inr (map columns (map (entry_row th ?S) ?hits)) \<and> world_ok L linv hist (ctx_id txn) es ?S (hist (env_log (w_env w))) (w_indexes w) w' \<and> lookup_at th e' []"
    using log_service.lookup_rows [OF log W at c(4) ix(2,1) refl f] by blast
  have i: "Lookup_Init M B ix key w (NewIndexLookupExecutor th) = (Inr (), w, ?e)"
    using ix(1,3) by (simp add: Lookup_Init_def GetIndex_def NewIndexLookupExecutor_def)
  have cols: "map columns (map (entry_row th ?S) ?hits) = map (\<lambda>rid. columns (FromRawTuple (the (rows ?S rid)) (th_desc th) rid)) ?hits"
    using c(1) by (simp add: entry_row_def entry_hit_def)
  show ?thesis
    using o(2)
  proof
    assume r: "res = Inl Spins \<and> waits_in (ctx_id txn) ?S hist (hist (env_log (w_env w))) w'"
    then show ?thesis using i o(1) by (simp add: run_query_def settle_def IndexLookupExec_def waits_in_def)
  next
    assume r: "res = Inr (map columns (map (entry_row th ?S) ?hits)) \<and> world_ok L linv hist (ctx_id txn) es ?S (hist (env_log (w_env w))) (w_indexes w) w' \<and> lookup_at th e' []"
    then have "run_query ?E w (NewIndexLookupExecutor th) = (Inr (map columns (map (entry_row th ?S) ?hits)), w', e'\<lparr>il_buf := [], il_rids := []\<rparr>)"
      using i o(1) by (simp add: run_query_def settle_def IndexLookupExec_def lookup_at_def)
    then show ?thesis using r c(2,3) cols by (auto simp: world_ok_def intro!: exI [of _ ?hits])
  qed
qed

lemma demo_single_row:
  obtains m bp where "store_ok memory_log memory_inv m bp" "rows (page_slots bp) = [demo_rid \<mapsto> demo_row]"
    "rid_ok (page_slots bp) demo_rid" "slot_at (page_slots bp) demo_rid = \<lparr>s_alloc = True, s_del = False, s_row = demo_row\<rparr>"
proof -
  obtain ss b where b: "length b = PageSize" "heap_bytes_ok b" "page_LSN b = 0" "length ss = 494" "\<forall>s \<in> set ss. \<not> s_alloc s"
      "slots_of b = ss[0 := \<lparr>s_alloc = True, s_del = False, s_row = demo_row\<rparr>]"
    by (rule demo_page) (rule that)
  obtain bp where bp: "pool_ok bp" "quiet bp" "pool_view bp = [PageID 1 0 \<mapsto> b]" by (rule one_page_pool [OF b(1)])
  obtain m where m: "memory_inv m" "waits memory_log m 0" by (rule demo_log)
  let ?ss = "ss[0 := \<lparr>s_alloc = True, s_del = False, s_row = demo_row\<rparr>]"
  have S: "page_slots bp = [PageID 1 0 \<mapsto> ?ss]" using bp(3) b(2,6) by (auto simp: page_slots_def fun_eq_iff)
  have ne: "ss \<noteq> []" using b(4) by auto
  have live: "live_of (PageID 1 0) 0 ?ss = [(demo_rid, demo_row)]"
    using live_of_single [OF ne b(5), of "\<lparr>s_alloc = True, s_del = False, s_row = demo_row\<rparr>"] by (simp add: demo_rid_def)
  have "rows (page_slots bp) rid = Some row \<longleftrightarrow> (rid, row) \<in> set (live_of (PageID 1 0) 0 ?ss)" for rid row
    using live_of_set [of ?ss rid row "PageID 1 0"] b(4) by (auto simp: S rows_def rid_ok_def slot_at_def split: if_splits)
  then have iff: "rows (page_slots bp) rid = Some row \<longleftrightarrow> rid = demo_rid \<and> row = demo_row" for rid row unfolding live by simp
  have "rows (page_slots bp) rid = [demo_rid \<mapsto> demo_row] rid" for rid using iff [of rid] by (cases "rows (page_slots bp) rid") auto
  then have r: "rows (page_slots bp) = [demo_rid \<mapsto> demo_row]" by (rule ext)
  have "rid_ok (page_slots bp) demo_rid" "slot_at (page_slots bp) demo_rid = \<lparr>s_alloc = True, s_del = False, s_row = demo_row\<rparr>"
    using b(4) by (auto simp: S rid_ok_def demo_rid_def rid_slot_def slot_no_def slot_at_def)
  then show thesis using that [of m bp] r bp b(3) m by (simp add: store_ok_def lsns_ok_def)
qed

definition demo_key :: Key where
  "demo_key = \<lparr>key_raw = demo_row, key_schema = Some sample_desc\<rparr>"

definition demo_index :: "(byte list \<rightharpoonup> nat, item_order \<times> btreeItem list) Index" where
  "demo_index = HashIndex (projr (bindR (Hash_InsertEntry plain_map 0 demo_key demo_rid None (NewMemHashIndex plain_map sample_desc [0])) (\<lambda>(_, ix). Inr ix)))"

lemma demo_index_facts:
  "key_for (Metadata demo_index) (FromRawTuple demo_row sample_desc demo_rid) = Inr demo_key"
  "Index_ScanKey plain_map B demo_key [] demo_index = Inr [demo_rid]" "index_fits (Metadata demo_index) sample_desc"
proof -
  have md: "Metadata demo_index = \<lparr>KeySchema = sample_desc, ProjectionList = [0]\<rparr>"
    by (simp add: demo_index_def Hash_InsertEntry_def NewMemHashIndex_def demo_key_def plain_map_def Let_def)
  show "index_fits (Metadata demo_index) sample_desc" using sample_desc_fits(1) by (simp add: md index_fits_def sample_desc_def)
  show "Index_ScanKey plain_map B demo_key [] demo_index = Inr [demo_rid]"
    by (simp add: demo_index_def Hash_InsertEntry_def NewMemHashIndex_def demo_key_def plain_map_def Let_def Hash_ScanKey_def)
  let ?n = "le_get demo_row :: 64 word" and ?d = "\<lparr>rd_fields = [IntType], rd_offsets = [0], rd_bytes = 8\<rparr>"
  have l: "length demo_row = 8" by (simp add: demo_row_def)
  have p: "le_put 8 ?n = demo_row" by (rule le_put_get) (simp_all add: l)
  let ?v = "(zeroValue IntType)\<lparr>val_int := ?n, val_null := (?n = MinInt64)\<rparr>"
  have g: "RawTupleDesc_GetValue ?d demo_row 0 = Inr ?v"
    using l by (simp add: RawTupleDesc_GetValue_def nth_checked_def from_checked_def AsValue_def slice_checked_def slice_def Let_def)
  have w: "Value_WriteTo ?v (replicate 8 0) = Inr demo_row"
    using l p by (cases "?n = MinInt64") (simp_all add: Value_WriteTo_def zeroValue_def put_checked_def SizeInBytes_def size_defs put_at_def)
  have t: "val_t ?v = IntType" by (simp add: zeroValue_def)
  show "key_for (Metadata demo_index) (FromRawTuple demo_row sample_desc demo_rid) = Inr demo_key"
    unfolding md
    using g w t l by (simp add: key_for_def sample_desc_def RawTupleDesc_NumColumns_def nth_checked_def Tuple_GetValue_def FromRawTuple_def FromValues_def Extend_def extra_list_def
        WriteToBuffer_def BytesPerTuple_def NumColumns_def RawTupleDesc_SetValue_def from_checked_def AsKey_def slice_checked_def slice_def demo_key_def)
qed

lemma demo_index_covers:
  assumes "rows S = [demo_rid \<mapsto> demo_row]" "rid_ok S demo_rid" "slot_at S demo_rid = \<lparr>s_alloc = True, s_del = False, s_row = demo_row\<rparr>"
  shows "index_covers (Metadata demo_index) demo_heap demo_key S [demo_rid]"
proof -
  have h: "th_desc demo_heap = sample_desc" "th_oid demo_heap = 1" "Oid (ridPage demo_rid) = 1" by (simp_all add: demo_heap_def demo_rid_def)
  show ?thesis using assms h by (auto simp: index_covers_def entry_ok_def BytesPerTuple_def sample_desc_def demo_row_def split: if_splits)
qed

lemma demo_index_hits:
  assumes "rows S = [demo_rid \<mapsto> demo_row]" "distinct hits" "set hits = key_rows (Metadata demo_index) demo_heap demo_key S"
  shows "hits = [demo_rid]"
proof -
  have h: "th_desc demo_heap = sample_desc" "th_oid demo_heap = 1" "Oid (ridPage demo_rid) = 1" by (simp_all add: demo_heap_def demo_rid_def)
  have "set hits = {demo_rid}" unfolding assms(3) key_rows_def assms(1) using h demo_index_facts(1) by (auto split: if_splits)
  moreover from this have "length hits = 1" using distinct_card [OF assms(2)] by simp
  ultimately show ?thesis by (cases hits) auto
qed

theorem index_lookup_rows_witness:
  "\<exists>m bp. rows (page_slots bp) = [demo_rid \<mapsto> demo_row] \<and>
     (case run_query (IndexLookupExec (\<lambda>e v. v) plain_map list_tree memory_log demo_heap 9 demo_key False [IntType])
         \<lparr>w_env = demo_env m bp, w_indexes = [9 \<mapsto> demo_index]\<rparr> (NewIndexLookupExecutor demo_heap) of
        (Inl f, w', e') \<Rightarrow> f = Spins
      | (Inr vss, w', e') \<Rightarrow> vss = [columns (FromRawTuple demo_row sample_desc demo_rid)])"
proof -
  obtain m bp where m: "store_ok memory_log memory_inv m bp" "rows (page_slots bp) = [demo_rid \<mapsto> demo_row]"
    "rid_ok (page_slots bp) demo_rid" "slot_at (page_slots bp) demo_rid = \<lparr>s_alloc = True, s_del = False, s_row = demo_row\<rparr>"
    by (rule demo_single_row)
  let ?w = "\<lparr>w_env = demo_env m bp, w_indexes = [9 \<mapsto> demo_index]\<rparr> :: (_, _, _) World"
  have pool: "env_pool (w_env ?w) = bp" by (simp add: demo_env_def)
  have h: "th_desc demo_heap = sample_desc" by (simp add: demo_heap_def)
  have cov: "index_covers (Metadata demo_index) demo_heap demo_key (page_slots (env_pool (w_env ?w))) [demo_rid]"
    unfolding pool by (rule demo_index_covers [OF m(2-4)])
  have hits: "hits = [demo_rid]" if "distinct hits" "set hits = key_rows (Metadata demo_index) demo_heap demo_key (page_slots (env_pool (w_env ?w)))" for hits
    by (rule demo_index_hits [OF m(2) that(1)]) (use that(2) in \<open>simp only: pool\<close>)
  have ok: "env_ok memory_log memory_inv (w_env ?w) (NewTestTransactionContext 7) []" using demo_env_ok [OF m(1)] by simp
  have ix: "w_indexes ?w 9 = Some demo_index" "index_fits (Metadata demo_index) (th_desc demo_heap)" using demo_index_facts(3) h(1) by simp_all
  note q = index_lookup_rows [OF mem.log_service_axioms ok ix demo_index_facts(2) cov, where B = list_tree and view = "\<lambda>e v. v" and forUpdate = False and schema = "[IntType]"]
  have "case run_query (IndexLookupExec (\<lambda>e v. v) plain_map list_tree memory_log demo_heap 9 demo_key False [IntType]) ?w (NewIndexLookupExecutor demo_heap) of
        (Inl f, w', e') \<Rightarrow> f = Spins
      | (Inr vss, w', e') \<Rightarrow> vss = [columns (FromRawTuple demo_row sample_desc demo_rid)]"
    (is "case ?r of (Inl f, w', e') \<Rightarrow> f = Spins | (Inr vss, w', e') \<Rightarrow> vss = ?vss")
  proof (cases "fst ?r")
    case (Inl f)
    then show ?thesis using q by (auto split: prod.splits)
  next
    case (Inr vss)
    then obtain w' e' where r: "?r = (Inr vss, w', e')" by (metis prod.collapse)
    have "\<exists>hits. hits = [demo_rid] \<and> vss = map (\<lambda>rid. columns (FromRawTuple (the (rows (page_slots (env_pool (w_env ?w))) rid)) (th_desc demo_heap) rid)) hits"
      using q [unfolded r prod.case sum.case] hits by blast
    then have "vss = ?vss" unfolding pool m(2) h(1) by simp
    then show ?thesis using Inr by (auto split: prod.splits)
  qed
  with m(2) show ?thesis by (intro exI [of _ m] exI [of _ bp] conjI)
qed

text \<open>
  A range scan forgets to clear the error of a stale entry: when the last entry names a deleted
  row, the scan ends with an error.
\<close>

lemma stale_last_entry_fails:
  assumes "is_scanIt e = Some it" "w_indexes w ix = Some index" "BTree_it_Next B it = (True, it1)" "BTree_it_Next B it1 = (False, it2)"
    "ReadTuple L th (BTree_it_Value B it1) (is_buf e) forUpdate (w_env w) = (Inl ErrTupleDeleted, env')"
  shows "\<exists>e'. ex_Next (IndexScanExec view B L th ix start dir forUpdate schema) w e = (Inr False, w\<lparr>w_env := env'\<rparr>, e') \<and>
    ex_Error (IndexScanExec view B L th ix start dir forUpdate schema) e' = Some ErrTupleDeleted"
proof -
  let ?md = "Metadata index" and ?e1 = "e\<lparr>is_scanIt := Some it1, is_err := Some ErrTupleDeleted\<rparr>"
  have "scan_loop B L th ?md forUpdate it w e = scan_loop B L th ?md forUpdate it1 (w\<lparr>w_env := env'\<rparr>) ?e1"
    using assms(3,5) by (subst scan_loop.simps) (simp add: Let_def)
  also have "\<dots> = Some (Inr False, w\<lparr>w_env := env'\<rparr>, ?e1\<lparr>is_scanIt := Some it2\<rparr>)" using assms(4) by (subst scan_loop.simps) (simp add: Let_def)
  finally show ?thesis using assms(1,2) by (simp add: IndexScanExec_def Scan_Next_def GetIndex_def settle_def)
qed

end
