(* ===== verification/Modify_Table.thy ===== *)
theory Modify_Table
  imports Index_Access
begin

text \<open>
  The operators that change a table: \<^verbatim>\<open>execution/insert_executor.go\<close>,
  \<^verbatim>\<open>execution/delete_executor.go\<close> and \<^verbatim>\<open>execution/update_executor.go\<close>.  Each consumes its
  child, changes the table heap and the indexes of the table, and delivers one row with the
  number of rows it changed.
\<close>

section \<open>Index entries of a row\<close>

definition set_index :: "ObjectID \<Rightarrow> TransactionContext option \<times> ('m, 't) Index \<Rightarrow> ('l, 'm, 't) World \<Rightarrow> ('l, 'm, 't) World" where
  "set_index ix r w = w\<lparr>w_env := (w_env w)\<lparr>env_txn := fst r\<rparr>, w_indexes := (w_indexes w)(ix \<mapsto> snd r)\<rparr>"

text \<open>The loop over the indexes of the table, given what is done to one of them.\<close>

primrec each_index :: "(('m, 't) Index \<Rightarrow> nat \<Rightarrow> TransactionContext option \<Rightarrow> (TransactionContext option \<times> ('m, 't) Index) res) \<Rightarrow> ObjectID list \<Rightarrow>
    ('l, 'm, 't) World \<Rightarrow> unit res \<times> ('l, 'm, 't) World" where
  "each_index f [] w = (Inr (), w)"
| "each_index f (ix # ixs) w =
     stepS (GetIndex ix (w_indexes w)) w (\<lambda>index.
     stepS (f index (unat ix) (env_txn (w_env w))) w (\<lambda>r. each_index f ixs (set_index ix r w)))"

definition insert_entry :: "'m MapOf \<Rightarrow> ('t, 'i) BTreeG \<Rightarrow> Tuple \<Rightarrow> RecordID \<Rightarrow> ('m, 't) Index \<Rightarrow> nat \<Rightarrow> TransactionContext option \<Rightarrow>
    (TransactionContext option \<times> ('m, 't) Index) res" where
  "insert_entry M B tuple rid index self txn =
     bindR (key_for (Metadata index) tuple) (\<lambda>key. Index_InsertEntry M B self key rid txn index)"

definition delete_entry :: "'m MapOf \<Rightarrow> ('t, 'i) BTreeG \<Rightarrow> Tuple \<Rightarrow> RecordID \<Rightarrow> ('m, 't) Index \<Rightarrow> nat \<Rightarrow> TransactionContext option \<Rightarrow>
    (TransactionContext option \<times> ('m, 't) Index) res" where
  "delete_entry M B tuple rid index self txn =
     bindR (key_for (Metadata index) tuple) (\<lambda>key. Index_DeleteEntry M B self key rid txn index)"

definition move_entry :: "'m MapOf \<Rightarrow> ('t, 'i) BTreeG \<Rightarrow> Tuple \<Rightarrow> Tuple \<Rightarrow> RecordID \<Rightarrow> ('m, 't) Index \<Rightarrow> nat \<Rightarrow> TransactionContext option \<Rightarrow>
    (TransactionContext option \<times> ('m, 't) Index) res" where
  "move_entry M B tuple updatedTuple rid index self txn =
     bindR (key_for (Metadata index) tuple) (\<lambda>key.
     bindR (key_for (Metadata index) updatedTuple) (\<lambda>upKey.
     if Key_Equals key upKey then Inr (txn, index)
     else bindR (Index_DeleteEntry M B self key rid txn index) (\<lambda>(txn1, index1).
          Index_InsertEntry M B self upKey rid txn1 index1)))"

section \<open>One row\<close>

text \<open>\<open>fuel\<close> bounds the passes of the insertion loop.\<close>

definition insert_row :: "'m MapOf \<Rightarrow> ('t, 'i) BTreeG \<Rightarrow> 'l LogManager \<Rightarrow> TableHeap \<Rightarrow> ObjectID list \<Rightarrow> nat \<Rightarrow> Tuple \<Rightarrow> ('l, 'm, 't) World \<Rightarrow>
    unit res \<times> ('l, 'm, 't) World" where
  "insert_row M B L th ixs fuel t w =
     stepS (WriteToBuffer t (replicate (BytesPerTuple (th_desc th)) 0) (th_desc th)) w (\<lambda>row.
     let (r, env) = InsertTuple L th fuel (tp_raw row) (w_env w); w1 = w\<lparr>w_env := env\<rparr>
     in stepS r w1 (\<lambda>rid. each_index (insert_entry M B (FromRawTuple (tp_raw row) (th_desc th) rid) rid) ixs w1))"

definition delete_row :: "'m MapOf \<Rightarrow> ('t, 'i) BTreeG \<Rightarrow> 'l LogManager \<Rightarrow> TableHeap \<Rightarrow> ObjectID list \<Rightarrow> Tuple \<Rightarrow> ('l, 'm, 't) World \<Rightarrow>
    unit res \<times> ('l, 'm, 't) World" where
  "delete_row M B L th ixs t w =
     (let (r, env) = DeleteTuple L th (tp_rid t) (w_env w); w1 = w\<lparr>w_env := env\<rparr>
      in stepS r w1 (\<lambda>_. each_index (delete_entry M B t (tp_rid t)) ixs w1))"

definition updated_tuple :: "Expr list \<Rightarrow> Tuple \<Rightarrow> Tuple res" where
  "updated_tuple exprs t = bindR (mapR (\<lambda>x. Eval x t) exprs) (\<lambda>vals. Inr (Extend (FromValues None) vals))"

definition update_row :: "'m MapOf \<Rightarrow> ('t, 'i) BTreeG \<Rightarrow> 'l LogManager \<Rightarrow> TableHeap \<Rightarrow> ObjectID list \<Rightarrow> Expr list \<Rightarrow> Tuple \<Rightarrow> ('l, 'm, 't) World \<Rightarrow>
    unit res \<times> ('l, 'm, 't) World" where
  "update_row M B L th ixs exprs t w =
     stepS (updated_tuple exprs t) w (\<lambda>u.
     stepS (WriteToBuffer u (replicate (BytesPerTuple (th_desc th)) 0) (th_desc th)) w (\<lambda>row.
     let (r, env) = UpdateTuple L th (tp_rid t) (tp_raw row) (w_env w); w1 = w\<lparr>w_env := env\<rparr>
     in stepS r w1 (\<lambda>_. each_index (move_entry M B t u (tp_rid t)) ixs w1)))"

section \<open>The operators\<close>

record 's InsertExecutor =
  in_child :: 's
  insertedCount :: "64 word"
  insertDone :: bool
  in_err :: "fault option"

definition NewInsertExecutor :: "'s \<Rightarrow> 's InsertExecutor" where
  "NewInsertExecutor child = \<lparr>in_child = child, insertedCount = 0, insertDone = False, in_err = None\<rparr>"

text \<open>Inserting into an index overwrites the error with nil.\<close>

partial_function (option) insert_rows :: "bool \<Rightarrow> ('w, 's) Executor \<Rightarrow> (Tuple \<Rightarrow> 'w \<Rightarrow> unit res \<times> 'w) \<Rightarrow> 'w \<Rightarrow> 's InsertExecutor \<Rightarrow>
    (bool res \<times> ('w \<times> 's InsertExecutor)) option" where
  "insert_rows clears child step w e =
     (let n = ex_Next child w (in_child e); w1 = fst (snd n); e1 = e\<lparr>in_child := snd (snd n)\<rparr>
      in case fst n of
           Inl f \<Rightarrow> Some (Inl f, w1, e1)
         | Inr ret \<Rightarrow>
             if \<not> ret then Some (Inr True, w1, e1\<lparr>insertDone := True\<rparr>)
             else (case ex_Current child (in_child e1) of
                     Inl f \<Rightarrow> Some (Inl f, w1, e1)
                   | Inr t \<Rightarrow>
                       let r = step t w1
                       in (case fst r of
                             Inl f \<Rightarrow> Some (if returned f then (Inr False, snd r, e1\<lparr>in_err := Some f\<rparr>) else (Inl f, snd r, e1))
                           | Inr _ \<Rightarrow> insert_rows clears child step (snd r) (e1\<lparr>in_err := (if clears then None else in_err e1), insertedCount := insertedCount e1 + 1\<rparr>))))"

text \<open>\<^verbatim>\<open>Error\<close> has its condition the wrong way round.\<close>

definition InsertExec :: "'m MapOf \<Rightarrow> ('t, 'i) BTreeG \<Rightarrow> 'l LogManager \<Rightarrow> TableHeap \<Rightarrow> ObjectID list \<Rightarrow> nat \<Rightarrow> (('l, 'm, 't) World, 's) Executor \<Rightarrow>
    (('l, 'm, 't) World, 's InsertExecutor) Executor" where
  "InsertExec M B L th ixs fuel child =
     \<lparr>ex_Schema = [IntType],
      ex_Init = (\<lambda>w e. let (r, w', c) = ex_Init child w (in_child e) in (r, w', e\<lparr>in_child := c\<rparr>)),
      ex_Next = (\<lambda>w e. if insertDone e then (Inr False, w, e)
                       else settle (w, e) (insert_rows (ixs \<noteq> []) child (insert_row M B L th ixs fuel) w e)),
      ex_Current = (\<lambda>e. Inr (FromValues (Some [NewIntValue (insertedCount e)]))),
      ex_Error = (\<lambda>e. if in_err e \<noteq> None then ex_Error child (in_child e) else in_err e),
      ex_Close = (\<lambda>w e. let (r, w', c) = ex_Close child w (in_child e) in (r, w', e\<lparr>in_child := c\<rparr>)),
      ex_Reread = (\<lambda>e v. v)\<rparr>"

record 's DeleteExecutor =
  de_child :: 's
  deletedCount :: "64 word"
  deleteDone :: bool
  de_err :: "fault option"

definition NewDeleteExecutor :: "'s \<Rightarrow> 's DeleteExecutor" where
  "NewDeleteExecutor child = \<lparr>de_child = child, deletedCount = 0, deleteDone = False, de_err = None\<rparr>"

text \<open>The loop over the collected rows, which stops at the first error.\<close>

primrec each_row :: "(Tuple \<Rightarrow> 'w \<Rightarrow> unit res \<times> 'w) \<Rightarrow> Tuple list \<Rightarrow> 'w \<Rightarrow> (unit res \<times> nat) \<times> 'w" where
  "each_row step [] w = ((Inr (), 0), w)"
| "each_row step (t # ts) w =
     (case step t w of
        (Inl f, w1) \<Rightarrow> ((Inl f, 0), w1)
      | (Inr _, w1) \<Rightarrow> let r = each_row step ts w1 in ((fst (fst r), Suc (snd (fst r))), snd r))"

text \<open>
  The rows are collected without a copy: \<open>late s t\<close> is what the row \<open>t\<close>, delivered earlier,
  reads when the child has reached the state \<open>s\<close>.
\<close>

definition Delete_Next :: "('s \<Rightarrow> Tuple \<Rightarrow> Tuple) \<Rightarrow> ('w, 's) Executor \<Rightarrow> (Tuple \<Rightarrow> 'w \<Rightarrow> unit res \<times> 'w) \<Rightarrow> 'w \<Rightarrow> 's DeleteExecutor \<Rightarrow>
    bool res \<times> ('w \<times> 's DeleteExecutor)" where
  "Delete_Next late child step w e =
     (if deleteDone e then (Inr False, w, e)
      else case settle (w, de_child e) (over_rows child (\<lambda>t ts. Inr (ts @ [t])) w (de_child e) []) of
             (Inl f, w1, c1) \<Rightarrow> (Inl f, w1, e\<lparr>de_child := c1\<rparr>)
           | (Inr ts, w1, c1) \<Rightarrow>
               let ((r, n), w2) = each_row step (map (late c1) ts) w1;
                   e1 = e\<lparr>de_child := c1, deletedCount := deletedCount e + of_nat n\<rparr>
               in (case r of
                     Inl f \<Rightarrow> if returned f then (Inr False, w2, e1\<lparr>de_err := Some f\<rparr>) else (Inl f, w2, e1)
                   | Inr _ \<Rightarrow> (Inr True, w2, e1\<lparr>de_err := (if ts = [] then de_err e else None), deleteDone := True\<rparr>)))"

definition DeleteExec :: "('s \<Rightarrow> Tuple \<Rightarrow> Tuple) \<Rightarrow> 'm MapOf \<Rightarrow> ('t, 'i) BTreeG \<Rightarrow> 'l LogManager \<Rightarrow> TableHeap \<Rightarrow> ObjectID list \<Rightarrow> (('l, 'm, 't) World, 's) Executor \<Rightarrow>
    (('l, 'm, 't) World, 's DeleteExecutor) Executor" where
  "DeleteExec late M B L th ixs child =
     \<lparr>ex_Schema = [IntType],
      ex_Init = (\<lambda>w e. let (r, w', c) = ex_Init child w (de_child e) in (r, w', e\<lparr>de_child := c\<rparr>)),
      ex_Next = Delete_Next late child (delete_row M B L th ixs),
      ex_Current = (\<lambda>e. Inr (FromValues (Some [NewIntValue (deletedCount e)]))),
      ex_Error = (\<lambda>e. if de_err e = None then ex_Error child (de_child e) else de_err e),
      ex_Close = (\<lambda>w e. let (r, w', c) = ex_Close child w (de_child e) in (r, w', e\<lparr>de_child := c\<rparr>)),
      ex_Reread = (\<lambda>e v. v)\<rparr>"

record 's UpdateExecutor =
  up_child :: 's
  updatedCount :: "64 word"
  updateDone :: bool
  up_err :: "fault option"

definition NewUpdateExecutor :: "'s \<Rightarrow> 's UpdateExecutor" where
  "NewUpdateExecutor child = \<lparr>up_child = child, updatedCount = 0, updateDone = False, up_err = None\<rparr>"

definition Update_Next :: "('w, 's) Executor \<Rightarrow> (Tuple \<Rightarrow> 'w \<Rightarrow> unit res \<times> 'w) \<Rightarrow> 'w \<Rightarrow> 's UpdateExecutor \<Rightarrow> bool res \<times> ('w \<times> 's UpdateExecutor)" where
  "Update_Next child step w e =
     (if updateDone e then (Inr False, w, e)
      else stepS (NewRawTupleDesc (ex_Schema child)) (w, e) (\<lambda>childDesc.
           case settle (w, up_child e) (over_rows child (\<lambda>t ts. bindR (DeepCopy t childDesc) (\<lambda>c. Inr (ts @ [c]))) w (up_child e) []) of
             (Inl f, w1, c1) \<Rightarrow> (Inl f, w1, e\<lparr>up_child := c1\<rparr>)
           | (Inr ts, w1, c1) \<Rightarrow>
               let ((r, n), w2) = each_row step ts w1;
                   e1 = e\<lparr>up_child := c1, updatedCount := updatedCount e + of_nat n\<rparr>
               in (case r of
                     Inl f \<Rightarrow> if returned f then (Inr False, w2, e1\<lparr>up_err := Some f\<rparr>) else (Inl f, w2, e1)
                   | Inr _ \<Rightarrow> (Inr True, w2, e1\<lparr>up_err := (if ts = [] then up_err e else None), updateDone := True\<rparr>))))"

definition UpdateExec :: "'m MapOf \<Rightarrow> ('t, 'i) BTreeG \<Rightarrow> 'l LogManager \<Rightarrow> TableHeap \<Rightarrow> ObjectID list \<Rightarrow> Expr list \<Rightarrow> (('l, 'm, 't) World, 's) Executor \<Rightarrow>
    (('l, 'm, 't) World, 's UpdateExecutor) Executor" where
  "UpdateExec M B L th ixs exprs child =
     \<lparr>ex_Schema = [IntType],
      ex_Init = (\<lambda>w e. let (r, w', c) = ex_Init child w (up_child e)
                       in (r, w', e\<lparr>up_child := c, up_err := (case r of Inl f \<Rightarrow> Some f | Inr _ \<Rightarrow> None)\<rparr>)),
      ex_Next = Update_Next child (update_row M B L th ixs exprs),
      ex_Current = (\<lambda>e. Inr (FromValues (Some [NewIntValue (updatedCount e)]))),
      ex_Error = (\<lambda>e. if up_err e = None then ex_Error child (up_child e) else up_err e),
      ex_Close = (\<lambda>w e. let (r, w', c) = ex_Close child w (up_child e) in (r, w', e\<lparr>up_child := c\<rparr>)),
      ex_Reread = (\<lambda>e v. v)\<rparr>"

section \<open>Deleting rows\<close>

definition index_keyed :: "('m, 't) IndexManager \<Rightarrow> ObjectID list \<Rightarrow> Tuple \<Rightarrow> bool" where
  "index_keyed im ixs t \<longleftrightarrow> (\<forall>ix \<in> set ixs. \<exists>index k. im ix = Some index \<and> key_for (Metadata index) t = Inr k \<and> key_schema k = Some (KeySchema (Metadata index)))"

text \<open>Within a transaction deleting an entry only schedules its deletion for the commit.\<close>

lemma Index_DeleteEntry_defers:
  assumes "key_schema key = Some (KeySchema (Metadata index))"
  obtains tasks where "Index_DeleteEntry M B self key rid (Some txn) index = Inr (Some (txn\<lparr>commitActions := commitActions txn @ tasks\<rparr>), index)"
proof (cases index)
  case (HashIndex h)
  show thesis
  proof (cases "map_Load M (hi_map h) (key_raw key)")
    case None
    then show thesis using assms HashIndex that [of "[]"] by (simp add: Hash_DeleteEntry_def)
  next
    case (Some b)
    then show thesis using assms HashIndex that by (auto simp: Hash_DeleteEntry_def Let_def AddCommitTask_def)
  qed
next
  case (BTreeIndex b)
  show thesis
  proof (cases "bt_Get B \<lparr>bi_key = key, bi_rid = rid\<rparr> (bt_tree b)")
    case None
    then show thesis using assms BTreeIndex that [of "[]"] by (simp add: BTree_DeleteEntry_def)
  next
    case (Some stored)
    then show thesis using assms BTreeIndex that by (auto simp: BTree_DeleteEntry_def Let_def AddCommitTask_def)
  qed
qed

lemma env_ok_tasks: "env_ok L linv env txn es \<Longrightarrow> env_ok L linv (env\<lparr>env_txn := Some (txn\<lparr>commitActions := cs\<rparr>)\<rparr>) (txn\<lparr>commitActions := cs\<rparr>) es"
  by (simp add: env_ok_def ctx_log_def ctx_locks_def)

lemma delete_entries_ok:
  assumes "world_ok L linv hist tid es S H im w" "index_keyed im ixs t"
  shows "\<exists>w'. each_index (delete_entry M B t rid) ixs w = (Inr (), w') \<and> world_ok L linv hist tid es S H im w'"
  using assms
proof (induction ixs arbitrary: w)
  case (Cons ix ixs)
  obtain txn where txn: "env_ok L linv (w_env w) txn es" "ctx_id txn = tid" using Cons.prems(1) by (auto simp: world_ok_def)
  obtain index k where k: "im ix = Some index" "key_for (Metadata index) t = Inr k" "key_schema k = Some (KeySchema (Metadata index))"
    using Cons.prems(2) by (auto simp: index_keyed_def)
  obtain tasks where d: "Index_DeleteEntry M B (unat ix) k rid (Some txn) index = Inr (Some (txn\<lparr>commitActions := commitActions txn @ tasks\<rparr>), index)"
    by (rule Index_DeleteEntry_defers [OF k(3)])
  let ?txn = "txn\<lparr>commitActions := commitActions txn @ tasks\<rparr>"
  let ?w = "set_index ix (Some ?txn, index) w"
  have im: "w_indexes w = im" "env_txn (w_env w) = Some txn" using Cons.prems(1) txn(1) by (simp_all add: world_ok_def env_ok_def)
  have "w_indexes ?w = im" using im(1) k(1) by (auto simp: set_index_def)
  then have "world_ok L linv hist tid es S H im ?w" using Cons.prems(1) env_ok_tasks [OF txn(1)] txn(2) by (auto simp: world_ok_def set_index_def intro!: exI [of _ ?txn])
  from Cons.IH [OF this] Cons.prems(2) show ?case using im k d by (simp add: index_keyed_def GetIndex_def delete_entry_def)
qed simp

text \<open>How a step that changes the row \<open>rid\<close> as the entry \<open>e\<close> says may come out.\<close>

definition step_ok :: "'l LogManager \<Rightarrow> ('l \<Rightarrow> bool) \<Rightarrow> ('l \<Rightarrow> (LSN \<times> log_entry) list) \<Rightarrow> TransactionID \<Rightarrow> log_entry list \<Rightarrow> slots \<Rightarrow>
    (LSN \<times> log_entry) list \<Rightarrow> ('m, 't) IndexManager \<Rightarrow> unit res \<times> ('l, 'm, 't) World \<Rightarrow> log_entry list \<Rightarrow> bool" where
  "step_ok L linv hist tid es S H im r new \<longleftrightarrow>
     (case r of
        (Inl f, w') \<Rightarrow> f = Spins \<and> waiting_for (env_locks (w_env w')) tid \<noteq> None \<or> log_failure L linv f
      | (Inr _, w') \<Rightarrow> \<exists>H'. world_ok L linv hist tid (es @ new) (fold do_entry new S) H' im w' \<and> map snd H' = map snd H @ new)"

context log_service
begin

lemma delete_row_ok:
  assumes w: "world_ok L linv history tid es S H im w" and rid: "rid_ok S (tp_rid t)" "\<not> s_del (slot_at S (tp_rid t))" and ix: "index_keyed im ixs t"
  shows "step_ok L linv history tid es S H im (delete_row M B L th ixs t w) [DeleteE tid (tp_rid t)]"
proof -
  obtain txn where txn: "env_ok L linv (w_env w) txn es" "ctx_id txn = tid" and S: "page_slots (env_pool (w_env w)) = S" "history (env_log (w_env w)) = H" "w_indexes w = im"
    using w by (auto simp: world_ok_def)
  obtain r env where d: "DeleteTuple L th (tp_rid t) (w_env w) = (r, env)" by fastforce
  have op: "row_op L linv history (w_env w) txn es (tp_rid t) (DeleteE tid (tp_rid t)) (r, env)"
    using DeleteTuple_ok [OF txn(1), of "tp_rid t" th] rid(1) S(1) d txn(2) by simp
  show ?thesis
  proof (cases r)
    case (Inl f)
    then show ?thesis using op d S(1) txn(2) rid(2) by (auto simp: delete_row_def row_op_def step_ok_def)
  next
    case (Inr u)
    have W: "world_ok L linv history tid (es @ [DeleteE tid (tp_rid t)]) (do_entry (DeleteE tid (tp_rid t)) S) (history (env_log env)) im (w\<lparr>w_env := env\<rparr>)"
      "map snd (history (env_log env)) = map snd H @ [DeleteE tid (tp_rid t)]"
      using op Inr S txn(2) by (auto simp: row_op_def world_ok_def)
    obtain w' where "each_index (delete_entry M B t (tp_rid t)) ixs (w\<lparr>w_env := env\<rparr>) = (Inr (), w')"
        "world_ok L linv history tid (es @ [DeleteE tid (tp_rid t)]) (do_entry (DeleteE tid (tp_rid t)) S) (history (env_log env)) im w'"
      using delete_entries_ok [OF W(1) ix, of M B "tp_rid t"] by blast
    then show ?thesis using W(2) d Inr by (auto simp: delete_row_def step_ok_def)
  qed
qed

text \<open>Deleting one row leaves the others as they are.\<close>

lemma delete_rows_ok:
  assumes "world_ok L linv history tid es S H im w" "distinct (map tp_rid ts)"
    "\<forall>t \<in> set ts. rid_ok S (tp_rid t) \<and> \<not> s_del (slot_at S (tp_rid t)) \<and> index_keyed im ixs t"
  shows "\<exists>r n w'. each_row (delete_row M B L th ixs) ts w = ((r, n), w') \<and>
    step_ok L linv history tid es S H im (r, w') (map (\<lambda>t. DeleteE tid (tp_rid t)) ts) \<and> (r = Inr () \<longrightarrow> n = length ts)"
  using assms
proof (induction ts arbitrary: es S H w)
  case Nil
  then show ?case by (auto simp: step_ok_def)
next
  case (Cons t ts)
  let ?e = "DeleteE tid (tp_rid t)"
  have t: "rid_ok S (tp_rid t)" "\<not> s_del (slot_at S (tp_rid t))" "index_keyed im ixs t" using Cons.prems(3) by simp_all
  obtain r w1 where d: "delete_row M B L th ixs t w = (r, w1)" by fastforce
  note ok = delete_row_ok [OF Cons.prems(1) t, of M B th, unfolded d]
  show ?case
  proof (cases r)
    case (Inl f)
    then show ?thesis using d ok by (simp add: step_ok_def)
  next
    case (Inr u)
    then obtain H1 where H1: "world_ok L linv history tid (es @ [?e]) (do_entry ?e S) H1 im w1" "map snd H1 = map snd H @ [?e]"
      using ok by (auto simp: step_ok_def)
    have "rid_ok (do_entry ?e S) (tp_rid u) \<and> \<not> s_del (slot_at (do_entry ?e S) (tp_rid u)) \<and> index_keyed im ixs u" if "u \<in> set ts" for u
    proof -
      have u: "rid_ok S (tp_rid u)" "\<not> s_del (slot_at S (tp_rid u))" "index_keyed im ixs u" "tp_rid u \<noteq> tp_rid t"
        using that Cons.prems(2,3) by (auto simp: image_iff)
      then show ?thesis using slot_at_do [of ?e S "tp_rid u"] t(1) by auto
    qed
    from Cons.IH [OF H1(1)] this Cons.prems(2)
    obtain r' n w' where i: "each_row (delete_row M B L th ixs) ts w1 = ((r', n), w')"
        "step_ok L linv history tid (es @ [?e]) (do_entry ?e S) H1 im (r', w') (map (\<lambda>t. DeleteE tid (tp_rid t)) ts)" "r' = Inr () \<longrightarrow> n = length ts" by auto
    have "step_ok L linv history tid es S H im (r', w') (map (\<lambda>t. DeleteE tid (tp_rid t)) (t # ts))"
      using i(2) H1(2) by (auto simp: step_ok_def split: sum.splits)
    then show ?thesis using d Inr i(1,3) by simp
  qed
qed

end

lemma rows_deleted:
  assumes "\<forall>rid \<in> set rids. rid_ok S rid"
  shows "rows (fold do_entry (map (DeleteE tid) rids) S) = (rows S) |` (- set rids)"
  using assms
proof (induction rids arbitrary: S)
  case (Cons rid rids)
  have r: "rows (do_entry (DeleteE tid rid) S) = (rows S)(rid := None)" using rows_do_entry [of "DeleteE tid rid" rid S] Cons.prems by (simp add: vis_def)
  have "\<forall>r \<in> set rids. rid_ok (do_entry (DeleteE tid rid) S) r" using Cons.prems by simp
  from Cons.IH [OF this] show ?case unfolding r by (auto simp: restrict_map_def fun_eq_iff)
qed (simp add: restrict_map_def fun_eq_iff)

section \<open>Deleting by key\<close>

text \<open>A lookup reads every row into the same buffer, so all its rows read the last one.\<close>

definition lookup_late :: "IndexLookupExecutor \<Rightarrow> Tuple \<Rightarrow> Tuple" where
  "lookup_late e t = t\<lparr>tp_raw := il_buf e\<rparr>"

lemma late_keyed:
  assumes "length (il_buf e) = BytesPerTuple (th_desc th)" "\<forall>ix \<in> set ixs. \<exists>index. im ix = Some index \<and> index_fits (Metadata index) (th_desc th)"
  shows "index_keyed im ixs (lookup_late e (entry_row th S rid))"
  unfolding index_keyed_def
proof
  fix ix assume "ix \<in> set ixs"
  then obtain index where i: "im ix = Some index" "index_fits (Metadata index) (th_desc th)" using assms(2) by blast
  have "tuple_ok (lookup_late e (entry_row th S rid))" "tuple_types (lookup_late e (entry_row th S rid)) = rd_fields (th_desc th)"
    using assms(1) i(2) by (simp_all add: lookup_late_def entry_row_def tuple_ok_def FromRawTuple_def extra_list_def BytesPerTuple_def tuple_types_def index_fits_def)
  then obtain k where "key_for (Metadata index) (lookup_late e (entry_row th S rid)) = Inr k" "key_of (Metadata index) k" by (rule key_for_ok [OF _ _ i(2)])
  then show "\<exists>index k. im ix = Some index \<and> key_for (Metadata index) (lookup_late e (entry_row th S rid)) = Inr k \<and> key_schema k = Some (KeySchema (Metadata index))"
    using i(1) by (auto simp: key_of_def)
qed

lemma count_values: "get_values (FromValues (Some [v])) = Inr [v]"
  by (simp add: get_values_def NumColumns_def FromValues_def extra_list_def Tuple_GetValue_def nth_checked_def)

text \<open>Running an operator that delivers its count once and then ends.\<close>

lemma run_count:
  assumes "ex_Init E w s = (Inr (), w1, s1)"
  shows "ex_Next E w1 s1 = (Inl f, w2, s2) \<Longrightarrow> run_query E w s = (Inl f, snd (ex_Close E w2 s2))"
    "ex_Next E w1 s1 = (Inr False, w2, s2) \<Longrightarrow> ex_Error E s2 = Some f \<Longrightarrow> run_query E w s = (Inl f, snd (ex_Close E w2 s2))"
    "ex_Next E w1 s1 = (Inr True, w2, s2) \<Longrightarrow> ex_Current E s2 = Inr (FromValues (Some [v])) \<Longrightarrow> ex_Next E w2 s2 = (Inr False, w2, s2) \<Longrightarrow>
      ex_Error E s2 = None \<Longrightarrow> run_query E w s = (Inr [[v]], snd (ex_Close E w2 s2))"
proof -
  show "run_query E w s = (Inl f, snd (ex_Close E w2 s2))" if "ex_Next E w1 s1 = (Inl f, w2, s2)"
    using assms that by (simp add: run_query_def settle_def over_rows.simps)
  show "run_query E w s = (Inl f, snd (ex_Close E w2 s2))" if "ex_Next E w1 s1 = (Inr False, w2, s2)" "ex_Error E s2 = Some f"
    using assms that by (simp add: run_query_def settle_def over_rows.simps)
  let ?f = "\<lambda>t out. bindR (get_values t) (\<lambda>vs. Inr (out @ [vs]))"
  show "run_query E w s = (Inr [[v]], snd (ex_Close E w2 s2))"
    if n: "ex_Next E w1 s1 = (Inr True, w2, s2)" "ex_Current E s2 = Inr (FromValues (Some [v]))" "ex_Next E w2 s2 = (Inr False, w2, s2)" "ex_Error E s2 = None"
  proof -
    have "over_rows E ?f w2 s2 [[v]] = Some (Inr [[v]], w2, s2)" using n(3) by (subst over_rows.simps) simp
    then have "over_rows E ?f w1 s1 [] = Some (Inr [[v]], w2, s2)" using n(1,2) by (subst over_rows.simps) (simp add: count_values)
    then show ?thesis using assms n(4) by (simp add: run_query_def settle_def)
  qed
qed

text \<open>Running a deletion, by how its child and the loop over the collected rows come out.\<close>

lemma run_delete:
  fixes C :: "(('l, 'm, 't) World, 's) Executor"
  assumes init: "ex_Init C w s = (Inr (), w0, c)"
    and rows: "over_rows C (\<lambda>t ts. Inr (ts @ [t])) w0 c [] = Some (res, w1, c1)"
    and close: "\<And>w c. fst (snd (ex_Close C w c)) = w"
  shows "res = Inl f \<Longrightarrow> \<exists>e'. run_query (DeleteExec late M B L th ixs C) w (NewDeleteExecutor s) = (Inl f, w1, e')"
    "res = Inr ts \<Longrightarrow> each_row (delete_row M B L th ixs) (map (late c1) ts) w1 = ((Inl f, n), w2) \<Longrightarrow>
      \<exists>e'. run_query (DeleteExec late M B L th ixs C) w (NewDeleteExecutor s) = (Inl f, w2, e')"
    "res = Inr ts \<Longrightarrow> each_row (delete_row M B L th ixs) (map (late c1) ts) w1 = ((Inr (), n), w2) \<Longrightarrow> ex_Error C c1 = None \<Longrightarrow>
      \<exists>e'. run_query (DeleteExec late M B L th ixs C) w (NewDeleteExecutor s) = (Inr [[NewIntValue (of_nat n)]], w2, e')"
proof -
  let ?E = "DeleteExec late M B L th ixs C" and ?e = "NewDeleteExecutor c"
  let ?q = "run_query ?E w (NewDeleteExecutor s)"
  have i: "ex_Init ?E w (NewDeleteExecutor s) = (Inr (), w0, ?e)" using init by (simp add: DeleteExec_def NewDeleteExecutor_def)
  have x: "ex_Next ?E = Delete_Next late C (delete_row M B L th ixs)" "\<And>e f. de_err e = Some f \<Longrightarrow> ex_Error ?E e = Some f"
      "\<And>e. de_err e = None \<Longrightarrow> ex_Error ?E e = ex_Error C (de_child e)"
      "\<And>e. ex_Current ?E e = Inr (FromValues (Some [NewIntValue (deletedCount e)]))"
    by (simp_all add: DeleteExec_def)
  have closed: "\<exists>e'. snd (ex_Close ?E w e) = (w, e')" for w e
    using close [of w "de_child e"] by (auto simp: DeleteExec_def split: prod.splits)
  note run = run_count [OF i]
  show "\<exists>e'. ?q = (Inl f, w1, e')" if "res = Inl f"
  proof -
    have "ex_Next ?E w0 ?e = (Inl f, w1, ?e\<lparr>de_child := c1\<rparr>)"
      using rows that by (simp add: x(1) Delete_Next_def settle_def NewDeleteExecutor_def)
    from run(1) [OF this] closed [of w1 "?e\<lparr>de_child := c1\<rparr>"] show ?thesis by auto
  qed
  show "\<exists>e'. ?q = (Inl f, w2, e')" if r: "res = Inr ts" "each_row (delete_row M B L th ixs) (map (late c1) ts) w1 = ((Inl f, n), w2)"
  proof (cases "returned f")
    case True
    let ?e1 = "?e\<lparr>de_child := c1, deletedCount := of_nat n, de_err := Some f\<rparr>"
    have n: "ex_Next ?E w0 ?e = (Inr False, w2, ?e1)"
      using rows r True by (simp add: x(1) Delete_Next_def settle_def NewDeleteExecutor_def)
    have "ex_Error ?E ?e1 = Some f" by (rule x(2)) simp
    from run(2) [OF n this] closed [of w2 ?e1] show ?thesis by auto
  next
    case False
    then have "ex_Next ?E w0 ?e = (Inl f, w2, ?e\<lparr>de_child := c1, deletedCount := of_nat n\<rparr>)"
      using rows r by (simp add: x(1) Delete_Next_def settle_def NewDeleteExecutor_def)
    from run(1) [OF this] closed [of w2 "?e\<lparr>de_child := c1, deletedCount := of_nat n\<rparr>"] show ?thesis by auto
  qed
  show "\<exists>e'. ?q = (Inr [[NewIntValue (of_nat n)]], w2, e')"
    if r: "res = Inr ts" "each_row (delete_row M B L th ixs) (map (late c1) ts) w1 = ((Inr (), n), w2)" "ex_Error C c1 = None"
  proof -
    let ?e2 = "?e\<lparr>de_child := c1, deletedCount := of_nat n, deleteDone := True\<rparr>"
    have "ex_Next ?E w0 ?e = (Inr True, w2, ?e2)" "ex_Next ?E w2 ?e2 = (Inr False, w2, ?e2)" "ex_Error ?E ?e2 = None"
        "ex_Current ?E ?e2 = Inr (FromValues (Some [NewIntValue (of_nat n)]))"
      using rows r x by (auto simp: Delete_Next_def settle_def NewDeleteExecutor_def)
    from run(3) [OF this(1,4,2,3)] closed [of w2 ?e2] show ?thesis by auto
  qed
qed

text \<open>
  C10: Deleting by key.  Let the database be healthy, let the keys of all indexes of the table
  be made of its columns, and let the entries that the index returns for a key be distinct,
  name slots of the table that hold or held rows, and name every visible row of the table with
  that key.  Then running a deletion over a lookup of the key waits for a lock, fails with a
  fault of the log, or deletes exactly the visible rows of the table that have the key: the
  rows of the database are those before without them, every deletion is logged once, and the
  result is their number.  Nothing is claimed of the index entries, whose deletion is left to
  the commit.
\<close>

theorem delete_by_key:
  assumes log: "log_service L linv hist" and ok: "env_ok L linv (w_env w) txn es"
    and ix: "w_indexes w ix = Some index" "index_fits (Metadata index) (th_desc th)" "Index_ScanKey M B key [] index = Inr rids"
      "index_covers (Metadata index) th key (page_slots (env_pool (w_env w))) rids"
    and ixs: "\<forall>ix \<in> set ixs. \<exists>index. w_indexes w ix = Some index \<and> index_fits (Metadata index) (th_desc th)"
  shows "case run_query (DeleteExec lookup_late M B L th ixs (IndexLookupExec view M B L th ix key forUpdate schema)) w
        (NewDeleteExecutor (NewIndexLookupExecutor th)) of
      (Inl f, w', e') \<Rightarrow> f = Spins \<and> waiting_for (env_locks (w_env w')) (ctx_id txn) \<noteq> None \<or> log_failure L linv f
    | (Inr vss, w', e') \<Rightarrow>
        (\<exists>hits. distinct hits \<and> set hits = key_rows (Metadata index) th key (page_slots (env_pool (w_env w))) \<and>
           vss = [[NewIntValue (of_nat (length hits))]] \<and>
           rows (page_slots (env_pool (w_env w'))) = rows (page_slots (env_pool (w_env w))) |` (- set hits) \<and>
           map snd (hist (env_log (w_env w'))) = map snd (hist (env_log (w_env w))) @ map (DeleteE (ctx_id txn)) hits)"
proof -
  let ?S = "page_slots (env_pool (w_env w))" and ?H = "hist (env_log (w_env w))" and ?tid = "ctx_id txn" and ?md = "Metadata index"
  let ?C = "IndexLookupExec view M B L th ix key forUpdate schema" and ?hits = "filter (entry_hit (Metadata index) th key (page_slots (env_pool (w_env w)))) rids"
  let ?c = "(NewIndexLookupExecutor th)\<lparr>il_rids := rids, il_err := None\<rparr>"
  note c = covers_hits [OF ix(4)]
  have W: "world_ok L linv hist ?tid es ?S ?H (w_indexes w) w" using ok by (auto simp: world_ok_def)
  have at: "lookup_at th ?c rids" by (simp add: lookup_at_def NewIndexLookupExecutor_def)
  have fold: "foldR (\<lambda>t ts. Inr (ts @ [t])) us acc = (Inr (acc @ us) :: Tuple list res)" for us acc by (induction us arbitrary: acc) simp_all
  obtain res w1 c1 where o: "over_rows ?C (\<lambda>t ts. Inr (ts @ [t])) w ?c [] = Some (res, w1, c1)"
      "res = Inl Spins \<and> waits_in ?tid ?S hist ?H w1 \<or> res = Inr (map (entry_row th ?S) ?hits) \<and> world_ok L linv hist ?tid es ?S ?H (w_indexes w) w1 \<and> lookup_at th c1 []"
    using log_service.lookup_rows [OF log W at c(4) ix(2,1) refl, of "\<lambda>t ts. Inr (ts @ [t])" key "[]" "map (entry_row th ?S) ?hits"] fold [of _ "[]"] by (metis append_Nil)
  have i: "ex_Init ?C w (NewIndexLookupExecutor th) = (Inr (), w, ?c)"
    using ix(1,3) by (simp add: IndexLookupExec_def Lookup_Init_def GetIndex_def NewIndexLookupExecutor_def)
  have close: "fst (snd (ex_Close ?C w c)) = w" for w c by (simp add: IndexLookupExec_def)
  note run = run_delete [OF i o(1) close, where late = lookup_late and M = M and B = B and L = L and th = th and ixs = ixs]
  show ?thesis
    using o(2)
  proof (elim disjE conjE)
    assume "res = Inl Spins" "waits_in ?tid ?S hist ?H w1"
    with run(1) show ?thesis by (force simp: waits_in_def)
  next
    assume r: "res = Inr (map (entry_row th ?S) ?hits)" "world_ok L linv hist ?tid es ?S ?H (w_indexes w) w1" "lookup_at th c1 []"
    let ?ts = "map (lookup_late c1) (map (entry_row th ?S) ?hits)"
    have rid: "map tp_rid ?ts = ?hits" "map (\<lambda>t. DeleteE ?tid (tp_rid t)) ?ts = map (DeleteE ?tid) ?hits"
      by (simp_all add: lookup_late_def entry_row_def FromRawTuple_def comp_def)
    have "length (il_buf c1) = BytesPerTuple (th_desc th)" using r(3) by (simp add: lookup_at_def)
    note keyed = late_keyed [OF this ixs]
    have "\<forall>t \<in> set ?ts. rid_ok ?S (tp_rid t) \<and> \<not> s_del (slot_at ?S (tp_rid t)) \<and> index_keyed (w_indexes w) ixs t"
      using c(4) keyed by (auto simp: lookup_late_def [of c1] entry_row_def FromRawTuple_def entry_hit_def entry_ok_def)
    moreover have "distinct (map tp_rid ?ts)" unfolding rid using c(3) by simp
    ultimately obtain q n w2 where d: "each_row (delete_row M B L th ixs) ?ts w1 = ((q, n), w2)"
        "step_ok L linv hist ?tid es ?S ?H (w_indexes w) (q, w2) (map (DeleteE ?tid) ?hits)" "q = Inr () \<longrightarrow> n = length ?hits"
      using log_service.delete_rows_ok [OF log r(2), of ?ts ixs M B th] unfolding rid(2) by (metis length_map)
    show ?thesis
    proof (cases q)
      case (Inl f)
      from run(2) [OF r(1) d(1) [unfolded Inl]] d(2) Inl show ?thesis by (fastforce simp: step_ok_def)
    next
      case (Inr u)
      obtain H' where H': "world_ok L linv hist ?tid (es @ map (DeleteE ?tid) ?hits) (fold do_entry (map (DeleteE ?tid) ?hits) ?S) H' (w_indexes w) w2"
          "map snd H' = map snd ?H @ map (DeleteE ?tid) ?hits"
        using d(2) Inr by (auto simp: step_ok_def)
      have fin: "rows (page_slots (env_pool (w_env w2))) = rows ?S |` (- set ?hits)" "map snd (hist (env_log (w_env w2))) = map snd ?H @ map (DeleteE ?tid) ?hits"
        using H' rows_deleted [of ?hits ?S ?tid] c(4) by (auto simp: world_ok_def entry_ok_def)
      have "ex_Error ?C c1 = None" using r(3) by (simp add: IndexLookupExec_def lookup_at_def)
      from run(3) [OF r(1) _ this] d(1,3) Inr obtain e' where "run_query (DeleteExec lookup_late M B L th ixs ?C) w (NewDeleteExecutor (NewIndexLookupExecutor th)) =
          (Inr [[NewIntValue (of_nat (length ?hits))]], w2, e')" by auto
      then show ?thesis using fin c(2,3) by (auto intro!: exI [of _ ?hits])
    qed
  qed
qed

theorem delete_by_key_witness:
  "\<exists>m bp. rows (page_slots bp) = [demo_rid \<mapsto> demo_row] \<and>
     (case run_query (DeleteExec lookup_late plain_map list_tree memory_log demo_heap [9]
           (IndexLookupExec (\<lambda>e v. v) plain_map list_tree memory_log demo_heap 9 demo_key True [IntType]))
         \<lparr>w_env = demo_env m bp, w_indexes = [9 \<mapsto> demo_index]\<rparr> (NewDeleteExecutor (NewIndexLookupExecutor demo_heap)) of
        (Inl f, w', e') \<Rightarrow> f = Spins \<and> waiting_for (env_locks (w_env w')) 7 \<noteq> None \<or> log_failure memory_log memory_inv f
      | (Inr vss, w', e') \<Rightarrow> vss = [[NewIntValue 1]] \<and> rows (page_slots (env_pool (w_env w'))) = Map.empty)"
proof -
  obtain m bp where m: "store_ok memory_log memory_inv m bp" "rows (page_slots bp) = [demo_rid \<mapsto> demo_row]"
    "rid_ok (page_slots bp) demo_rid" "slot_at (page_slots bp) demo_rid = \<lparr>s_alloc = True, s_del = False, s_row = demo_row\<rparr>"
    by (rule demo_single_row)
  let ?w = "\<lparr>w_env = demo_env m bp, w_indexes = [9 \<mapsto> demo_index]\<rparr> :: (_, _, _) World"
  have pool: "env_pool (w_env ?w) = bp" by (simp add: demo_env_def)
  have id: "ctx_id (NewTestTransactionContext 7) = 7" by (simp add: NewTestTransactionContext_def)
  have ok: "env_ok memory_log memory_inv (w_env ?w) (NewTestTransactionContext 7) []" using demo_env_ok [OF m(1)] by simp
  note cov = demo_index_covers [OF m(2-4)] and hits = demo_index_hits [OF m(2)]
  have ix: "w_indexes ?w 9 = Some demo_index" "index_fits (Metadata demo_index) (th_desc demo_heap)"
      "\<forall>ix \<in> set [9]. \<exists>index. w_indexes ?w ix = Some index \<and> index_fits (Metadata index) (th_desc demo_heap)"
    using demo_index_facts(3) by (simp_all add: demo_heap_def)
  note q = delete_by_key [OF mem.log_service_axioms ok ix(1,2) demo_index_facts(2) _ ix(3), unfolded pool id, OF cov,
      where B = list_tree and view = "\<lambda>e v. v" and forUpdate = True and schema = "[IntType]"]
  let ?r = "run_query (DeleteExec lookup_late plain_map list_tree memory_log demo_heap [9]
      (IndexLookupExec (\<lambda>e v. v) plain_map list_tree memory_log demo_heap 9 demo_key True [IntType])) ?w (NewDeleteExecutor (NewIndexLookupExecutor demo_heap))"
  have "case ?r of
        (Inl f, w', e') \<Rightarrow> f = Spins \<and> waiting_for (env_locks (w_env w')) 7 \<noteq> None \<or> log_failure memory_log memory_inv f
      | (Inr vss, w', e') \<Rightarrow> vss = [[NewIntValue 1]] \<and> rows (page_slots (env_pool (w_env w'))) = Map.empty"
  proof (cases "fst ?r")
    case (Inl f)
    then show ?thesis using q by (auto split: prod.splits)
  next
    case (Inr vss)
    then obtain w' e' where r: "?r = (Inr vss, w', e')" by (metis prod.collapse)
    have "\<exists>hits. hits = [demo_rid] \<and> vss = [[NewIntValue (of_nat (length hits))]] \<and> rows (page_slots (env_pool (w_env w'))) = rows (page_slots bp) |` (- set hits)"
      using q [unfolded r prod.case sum.case] hits by blast
    then have "vss = [[NewIntValue 1]]" "rows (page_slots (env_pool (w_env w'))) = Map.empty" using m(2) by auto
    then show ?thesis using r by simp
  qed
  with m(2) show ?thesis by (intro exI [of _ m] exI [of _ bp] conjI)
qed

end
