(* ===== verification/Sort_Executor.thy ===== *)
theory Sort_Executor
  imports Executor "HOL-Library.Multiset"
begin

text \<open>
  \<^verbatim>\<open>execution/sort_executor.go\<close>: the sorting operator, which reads its child to the end when it
  is initialised.  \<^verbatim>\<open>slices.SortFunc\<close> is the argument \<open>sorter\<close>; what it promises is \<open>sorts\<close>.
\<close>

section \<open>State\<close>

datatype SortDirection = SortOrderAscending | SortOrderDescending

record OrderByClause =
  ob_Expr :: Expr
  ob_Direction :: SortDirection

record TupleWithOrdKey =
  tk_tuple :: Tuple
  tk_keys :: "Value list"

record 's SortExecutor =
  sort_child :: 's
  sort_err :: "fault option"
  sort_tuples :: "TupleWithOrdKey list"
  sort_tIdx :: int

definition NewSortExecutor :: "'s \<Rightarrow> 's SortExecutor" where
  "NewSortExecutor child = \<lparr>sort_child = child, sort_err = None, sort_tuples = [], sort_tIdx = 0\<rparr>"

section \<open>Operations\<close>

type_synonym 'a sorter = "('a \<Rightarrow> 'a \<Rightarrow> int res) \<Rightarrow> 'a list \<Rightarrow> 'a list res"

fun key_compare :: "SortDirection list \<Rightarrow> Value list \<Rightarrow> Value list \<Rightarrow> int res" where
  "key_compare [] _ _ = Inr 0"
| "key_compare (d # ds) (a # as) (b # bs) =
     bindR (Value_Compare a b) (\<lambda>ret.
       if ret \<noteq> 0 then Inr (if d = SortOrderDescending then - 1 * ret else ret) else key_compare ds as bs)"
| "key_compare _ _ _ = Inl (Panic ''index out of range'')"

definition sortFunc :: "OrderByClause list \<Rightarrow> TupleWithOrdKey \<Rightarrow> TupleWithOrdKey \<Rightarrow> int res" where
  "sortFunc orderBy a b = key_compare (map ob_Direction orderBy) (tk_keys a) (tk_keys b)"

definition keyed_row :: "RawTupleDesc \<Rightarrow> OrderByClause list \<Rightarrow> Tuple \<Rightarrow> TupleWithOrdKey res" where
  "keyed_row desc orderBy t =
     bindR (DeepCopy t desc) (\<lambda>c. bindR (mapR (\<lambda>ord. Eval (ob_Expr ord) t) orderBy) (\<lambda>ks. Inr \<lparr>tk_tuple = c, tk_keys = ks\<rparr>))"

text \<open>The tuples are copies, the keys are not: they are read again when they are compared.\<close>

definition Sort_Init :: "TupleWithOrdKey sorter \<Rightarrow> OrderByClause list \<Rightarrow> ('w, 's) Executor \<Rightarrow> 'w \<Rightarrow> 's SortExecutor \<Rightarrow>
    unit res \<times> ('w \<times> 's SortExecutor)" where
  "Sort_Init sorter orderBy child w e =
     (case ex_Init child w (sort_child e) of
        (Inl f, w1, c1) \<Rightarrow> (Inl f, w1, e\<lparr>sort_child := c1, sort_err := Some f\<rparr>)
      | (Inr _, w1, c1) \<Rightarrow>
          let e1 = e\<lparr>sort_child := c1, sort_err := None, sort_tuples := [], sort_tIdx := - 1\<rparr>
          in case NewRawTupleDesc (ex_Schema child) of
               Inl f \<Rightarrow> (Inl f, w1, e1)
             | Inr desc \<Rightarrow>
                 (case settle (w1, c1) (over_rows child (\<lambda>t acc. bindR (keyed_row desc orderBy t) (\<lambda>k. Inr (acc @ [k]))) w1 c1 []) of
                    (Inl f, w2, c2) \<Rightarrow> (Inl f, w2, e1\<lparr>sort_child := c2\<rparr>)
                  | (Inr ts, w2, c2) \<Rightarrow>
                      (case sorter (sortFunc orderBy) (map (\<lambda>k. k\<lparr>tk_keys := map (ex_Reread child c2) (tk_keys k)\<rparr>) ts) of
                         Inl f \<Rightarrow> (Inl f, w2, e1\<lparr>sort_child := c2\<rparr>)
                       | Inr ys \<Rightarrow> (Inr (), w2, e1\<lparr>sort_child := c2, sort_tuples := ys\<rparr>))))"

definition int_index :: "'a list \<Rightarrow> int \<Rightarrow> 'a res" where
  "int_index xs i = (if 0 \<le> i \<and> nat i < length xs then Inr (xs ! nat i) else Inl (Panic ''index out of range''))"

definition SortExec :: "TupleWithOrdKey sorter \<Rightarrow> OrderByClause list \<Rightarrow> ('w, 's) Executor \<Rightarrow> ('w, 's SortExecutor) Executor" where
  "SortExec sorter orderBy child =
     \<lparr>ex_Schema = ex_Schema child,
      ex_Init = Sort_Init sorter orderBy child,
      ex_Next = (\<lambda>w e. if sort_tIdx e + 1 \<ge> int (length (sort_tuples e)) then (Inr False, w, e)
                       else (Inr True, w, e\<lparr>sort_tIdx := sort_tIdx e + 1\<rparr>)),
      ex_Current = (\<lambda>e. bindR (int_index (sort_tuples e) (sort_tIdx e)) (\<lambda>k. Inr (tk_tuple k))),
      ex_Error = sort_err,
      ex_Close = (\<lambda>w e. let (r, w', c) = ex_Close child w (sort_child e) in (r, w', e\<lparr>sort_child := c\<rparr>)),
      ex_Reread = (\<lambda>e v. v)\<rparr>"

section \<open>Sorting\<close>

definition sorts :: "'a sorter \<Rightarrow> bool" where
  "sorts sorter \<longleftrightarrow> (\<forall>same cmp xs. three_way same cmp \<longrightarrow> (\<forall>x \<in> set xs. \<forall>y \<in> set xs. same x y) \<longrightarrow>
     (\<exists>ys. sorter cmp xs = Inr ys \<and> mset ys = mset xs \<and> sorted_wrt (\<lambda>a b. \<exists>c \<le> 0. cmp a b = Inr c) ys))"

lemma sortsD:
  assumes "sorts sorter" "three_way same cmp" "\<forall>x \<in> set xs. \<forall>y \<in> set xs. same x y"
  obtains ys where "sorter cmp xs = Inr ys" "mset ys = mset xs" "sorted_wrt (\<lambda>a b. \<exists>c \<le> 0. cmp a b = Inr c) ys"
proof -
  have "\<exists>ys. sorter cmp xs = Inr ys \<and> mset ys = mset xs \<and> sorted_wrt (\<lambda>a b. \<exists>c \<le> 0. cmp a b = Inr c) ys"
    using assms(1) [unfolded sorts_def, rule_format, OF assms(2)] assms(3) by simp
  then show thesis using that by blast
qed

text \<open>Insertion sort is such a sorter.\<close>

fun insert_by :: "('a \<Rightarrow> 'a \<Rightarrow> int res) \<Rightarrow> 'a \<Rightarrow> 'a list \<Rightarrow> 'a list res" where
  "insert_by cmp x [] = Inr [x]"
| "insert_by cmp x (y # ys) = bindR (cmp x y) (\<lambda>c. if c \<le> 0 then Inr (x # y # ys) else bindR (insert_by cmp x ys) (\<lambda>zs. Inr (y # zs)))"

definition insertion_sort :: "'a sorter" where
  "insertion_sort cmp xs = foldR (\<lambda>x ys. insert_by cmp x ys) xs []"

context three_way
begin

definition le :: "'a \<Rightarrow> 'a \<Rightarrow> bool" where
  "le a b \<longleftrightarrow> (\<exists>c \<le> 0. cmp a b = Inr c)"

lemma le_trans: "same x y \<Longrightarrow> same y z \<Longrightarrow> le x y \<Longrightarrow> le y z \<Longrightarrow> le x z"
  using cmp_trans unfolding le_def by blast

lemma pull_back: "three_way (\<lambda>a b. same (f a) (f b)) (\<lambda>a b. cmp (f a) (f b))"
proof
  show "same (f y) (f x)" if "same (f x) (f y)" for x y using that by (rule same_sym)
  show "same (f x) (f z)" if "same (f x) (f y)" "same (f y) (f z)" for x y z using that by (rule same_trans)
  show "\<exists>c \<in> {- 1, 0, 1}. cmp (f x) (f y) = Inr c" if "same (f x) (f y)" for x y using that by (rule cmp_range)
  show "cmp (f y) (f x) = Inr (- c)" if "same (f x) (f y)" "cmp (f x) (f y) = Inr c" for x y c using that by (rule cmp_antisym)
  show "\<exists>e. cmp (f x) (f z) = Inr e \<and> e \<le> 0 \<and> (e = 0 \<longleftrightarrow> c = 0 \<and> d = 0)"
    if "same (f x) (f y)" "same (f y) (f z)" "cmp (f x) (f y) = Inr c" "cmp (f y) (f z) = Inr d" "c \<le> 0" "d \<le> 0" for x y z c d
    using that by (rule cmp_trans)
qed

lemma insert_by_ok:
  assumes "sorted_wrt le ys" "\<forall>y \<in> set ys. \<forall>z \<in> set (x # ys). same y z" "same x x"
  shows "\<exists>zs. insert_by cmp x ys = Inr zs \<and> mset zs = add_mset x (mset ys) \<and> sorted_wrt le zs"
  using assms
proof (induction ys)
  case (Cons y ys)
  have xy: "same x y" "same y x" using Cons.prems same_sym by auto
  obtain c where c: "cmp x y = Inr c" using cmp_range [OF xy(1)] by blast
  show ?case
  proof (cases "c \<le> 0")
    case True
    then have "le x y" using c by (auto simp: le_def)
    then have "le x z" if "z \<in> set ys" for z using that Cons.prems(1,2) le_trans [OF xy(1), of z] by simp
    then show ?thesis using True c Cons.prems \<open>le x y\<close> by simp
  next
    case False
    obtain zs where zs: "insert_by cmp x ys = Inr zs" "mset zs = add_mset x (mset ys)" "sorted_wrt le zs"
      using Cons.IH Cons.prems by auto
    have "le y x" using cmp_antisym [OF xy(1) c] False by (auto simp: le_def)
    moreover have "set zs = insert x (set ys)" using zs(2) by (metis set_mset_add_mset_insert set_mset_mset)
    ultimately show ?thesis using False c zs Cons.prems by simp
  qed
qed simp

lemma insertion_sort_ok:
  assumes "\<forall>x \<in> set xs. \<forall>y \<in> set xs. same x y"
  shows "\<exists>ys. insertion_sort cmp xs = Inr ys \<and> mset ys = mset xs \<and> sorted_wrt le ys"
proof -
  have "\<exists>zs. foldR (\<lambda>x ys. insert_by cmp x ys) us ys = Inr zs \<and> mset zs = mset us + mset ys \<and> sorted_wrt le zs"
    if "sorted_wrt le ys" "set us \<union> set ys \<subseteq> set xs" for us ys
    using that
  proof (induction us arbitrary: ys)
    case (Cons u us)
    have "\<forall>y \<in> set ys. \<forall>z \<in> set (u # ys). same y z" "same u u" using Cons.prems(2) assms by auto
    then obtain zs where zs: "insert_by cmp u ys = Inr zs" "mset zs = add_mset u (mset ys)" "sorted_wrt le zs"
      using insert_by_ok [OF Cons.prems(1)] by blast
    have "set zs = insert u (set ys)" using zs(2) by (metis set_mset_add_mset_insert set_mset_mset)
    then obtain vs where "foldR (\<lambda>x ys. insert_by cmp x ys) us zs = Inr vs" "mset vs = mset us + mset zs" "sorted_wrt le vs"
      using Cons.IH [OF zs(3)] Cons.prems(2) by auto
    then show ?case using zs by simp
  qed simp
  from this [of "[]" xs] show ?thesis by (simp add: insertion_sort_def)
qed

end

lemma insertion_sort_sorts: "sorts insertion_sort"
  unfolding sorts_def
proof (intro allI impI)
  fix same :: "'a \<Rightarrow> 'a \<Rightarrow> bool" and cmp xs
  assume t: "three_way same cmp" and xs: "\<forall>x \<in> set xs. \<forall>y \<in> set xs. same x y"
  have "three_way.le cmp = (\<lambda>a b. \<exists>c \<le> 0. cmp a b = Inr c)" using three_way.le_def [OF t] by (intro ext) blast
  then show "\<exists>ys. insertion_sort cmp xs = Inr ys \<and> mset ys = mset xs \<and> sorted_wrt (\<lambda>a b. \<exists>c \<le> 0. cmp a b = Inr c) ys"
    using three_way.insertion_sort_ok [OF t xs] by simp
qed

section \<open>The order of the keys\<close>

text \<open>Rows whose keys have the same types, one for every clause.\<close>

definition same_keys :: "OrderByClause list \<Rightarrow> TupleWithOrdKey \<Rightarrow> TupleWithOrdKey \<Rightarrow> bool" where
  "same_keys orderBy a b \<longleftrightarrow> length (tk_keys a) = length orderBy \<and> list_all2 same_type (tk_keys a) (tk_keys b)"

lemma key_compare_three_way:
  "three_way (\<lambda>as bs. length as = length ds \<and> list_all2 same_type as bs) (key_compare ds)"
proof (induction ds)
  case Nil
  show ?case by unfold_locales (auto simp: list_all2_conv_all_nth)
next
  case (Cons d ds)
  let ?S = "\<lambda>ds as bs. length as = length ds \<and> list_all2 same_type as bs"
  have ex: "\<exists>a as' b bs'. as = a # as' \<and> bs = b # bs' \<and> same_type a b \<and> ?S ds as' bs'" if "?S (d # ds) as bs" for as bs
    using that by (cases as; cases bs) auto
  show ?case
  proof
    show "?S (d # ds) bs as" if "?S (d # ds) as bs" for as bs
      using that vlex.same_sym by (metis list_all2_lengthD)
    show "?S (d # ds) as cs" if "?S (d # ds) as bs" "?S (d # ds) bs cs" for as bs cs
      using that vlex.same_trans by blast
    show "\<exists>c \<in> {- 1, 0, 1}. key_compare (d # ds) as bs = Inr c" if s: "?S (d # ds) as bs" for as bs
    proof -
      obtain a as' b bs' where e: "as = a # as'" "bs = b # bs'" "same_type a b" "?S ds as' bs'" using ex [OF s] by blast
      then show ?thesis using vcmp.cmp_range [OF e(3)] three_way.cmp_range [OF Cons.IH e(4)] by (auto split: if_splits)
    qed
    show "key_compare (d # ds) bs as = Inr (- c)" if s: "?S (d # ds) as bs" "key_compare (d # ds) as bs = Inr c" for as bs c
    proof -
      obtain a as' b bs' where e: "as = a # as'" "bs = b # bs'" "same_type a b" "?S ds as' bs'" using ex [OF s(1)] by blast
      obtain x where x: "Value_Compare a b = Inr x" "Value_Compare b a = Inr (- x)" using vcmp.cmp_range [OF e(3)] vcmp.cmp_antisym [OF e(3)] by blast
      show ?thesis using s(2) x three_way.cmp_antisym [OF Cons.IH e(4), of c] by (auto simp: e(1,2) split: if_splits)
    qed
    show "\<exists>e. key_compare (d # ds) as cs = Inr e \<and> e \<le> 0 \<and> (e = 0 \<longleftrightarrow> c = 0 \<and> c' = 0)"
      if t: "?S (d # ds) as bs" "?S (d # ds) bs cs" "key_compare (d # ds) as bs = Inr c" "key_compare (d # ds) bs cs = Inr c'" "c \<le> 0" "c' \<le> 0"
      for as bs cs c c'
    proof -
      obtain a as' b bs' where e: "as = a # as'" "bs = b # bs'" "same_type a b" "?S ds as' bs'" using ex [OF t(1)] by blast
      obtain g cs' where f: "cs = g # cs'" "same_type b g" "?S ds bs' cs'" using ex [OF t(2)] e by blast
      obtain x y where x: "Value_Compare a b = Inr x" "Value_Compare b g = Inr y" using vcmp.cmp_range e(3) f(2) by meson
      have ag: "same_type a g" using vcmp.same_trans e(3) f(2) by blast
      show ?thesis
      proof (cases "x = 0 \<and> y = 0")
        case True
        then have "Value_Compare a g = Inr 0" using vcmp.cmp_zero_trans e(3) f(2) x by blast
        then show ?thesis using three_way.cmp_trans [OF Cons.IH e(4) f(3), of c c'] t(3-6) x True by (simp add: e f)
      next
        case False
        have "\<exists>z. Value_Compare a g = Inr z \<and> z \<noteq> 0 \<and> (if d = SortOrderDescending then - z else z) \<le> 0"
        proof (cases "d = SortOrderDescending")
          case True
          then have "x \<ge> 0" "y \<ge> 0" using t(3-6) x by (auto simp: e f split: if_splits)
          then obtain z where "Value_Compare g a = Inr z" "z \<le> 0" "z = 0 \<longleftrightarrow> y = 0 \<and> x = 0"
            using vcmp.cmp_trans [of g b a "- y" "- x"] vcmp.cmp_antisym [OF e(3) x(1)] vcmp.cmp_antisym [OF f(2) x(2)] e(3) f(2) vcmp.same_sym by auto
          then show ?thesis using True False vcmp.cmp_antisym [OF vcmp.same_sym [OF ag]] by fastforce
        next
          case asc: False
          then have "x \<le> 0" "y \<le> 0" using t(3-6) x by (auto simp: e f split: if_splits)
          then show ?thesis using vcmp.cmp_trans [OF e(3) f(2) x] False asc by auto
        qed
        then show ?thesis using t(3-6) x False by (auto simp: e f split: if_splits)
      qed
    qed
  qed
qed

interpretation okey: three_way "same_keys orderBy" "sortFunc orderBy" for orderBy
  using three_way.pull_back [OF key_compare_three_way [of "map ob_Direction orderBy"], of tk_keys]
  by (simp add: same_keys_def [abs_def] sortFunc_def [abs_def])


section \<open>The rows of a sort\<close>

text \<open>An operator that keeps its rows in a slice and counts up an index has those behind the index still to deliver.\<close>

definition cursor_rows :: "'a list \<Rightarrow> int \<Rightarrow> 'a list \<Rightarrow> bool" where
  "cursor_rows xs i us \<longleftrightarrow> - 1 \<le> i \<and> us = drop (nat (i + 1)) xs"

lemma cursor_start [simp]: "cursor_rows xs (- 1) us \<longleftrightarrow> us = xs"
  by (simp add: cursor_rows_def)

lemma cursor_next:
  assumes "cursor_rows xs i (u # us)"
  shows "\<not> i + 1 \<ge> int (length xs)" "int_index xs (i + 1) = Inr u" "cursor_rows xs (i + 1) us"
proof -
  have n: "nat (i + 1) < length xs" "- 1 \<le> i" using assms by (auto simp: cursor_rows_def intro: ccontr)
  then have d: "drop (nat (i + 1)) xs = xs ! nat (i + 1) # drop (Suc (nat (i + 1))) xs" by (simp add: Cons_nth_drop_Suc)
  have "nat (i + 1 + 1) = Suc (nat (i + 1))" using n(2) by linarith
  then show "\<not> i + 1 \<ge> int (length xs)" "int_index xs (i + 1) = Inr u" "cursor_rows xs (i + 1) us"
    using assms d n by (auto simp: cursor_rows_def int_index_def)
qed

lemma cursor_end: "cursor_rows xs i [] \<Longrightarrow> i + 1 \<ge> int (length xs)"
  by (auto simp: cursor_rows_def)

definition sort_rows :: "'s SortExecutor \<Rightarrow> Tuple list \<Rightarrow> bool" where
  "sort_rows e us \<longleftrightarrow> sort_err e = None \<and> (\<exists>ks. cursor_rows (sort_tuples e) (sort_tIdx e) ks \<and> us = map tk_tuple ks)"

text \<open>
  What the order of a sort can rest on: every row is copied and has keys of the same types,
  and the keys read the same when they are compared as when they were taken.
\<close>

definition sortable :: "('w, 's) Executor \<Rightarrow> OrderByClause list \<Rightarrow> Tuple list \<Rightarrow> TupleWithOrdKey list \<Rightarrow> bool" where
  "sortable child orderBy ts ks \<longleftrightarrow>
     (\<exists>desc. NewRawTupleDesc (ex_Schema child) = Inr desc \<and> mapR (keyed_row desc orderBy) ts = Inr ks) \<and>
     (\<forall>a \<in> set ks. \<forall>b \<in> set ks. same_keys orderBy a b) \<and>
     (\<forall>k \<in> set ks. \<forall>v \<in> set (tk_keys k). \<forall>s. ex_Reread child s v = v)"

definition sort_ready :: "TupleWithOrdKey sorter \<Rightarrow> OrderByClause list \<Rightarrow> ('w, 's) Executor \<Rightarrow> ('s \<Rightarrow> Tuple list \<Rightarrow> bool) \<Rightarrow>
    's SortExecutor \<Rightarrow> Tuple list \<Rightarrow> bool" where
  "sort_ready sorter orderBy child R e us \<longleftrightarrow> (\<exists>ts ks ys. R (sort_child e) ts \<and> sortable child orderBy ts ks \<and>
     sorter (sortFunc orderBy) ks = Inr ys \<and> us = map tk_tuple ys)"

context row_source
begin

lemma sort_init:
  assumes "inv w" "ready (sort_child e) ts" "sortable E orderBy ts ks" "sorter (sortFunc orderBy) ks = Inr ys"
  shows "\<exists>w' e'. Sort_Init sorter orderBy E w e = (Inr (), w', e') \<and> inv w' \<and> sort_rows e' (map tk_tuple ys)"
proof -
  obtain w1 c1 where i: "ex_Init E w (sort_child e) = (Inr (), w1, c1)" "inv w1" "rows c1 ts" using init_law [OF assms(1,2)] by blast
  obtain desc where d: "NewRawTupleDesc (ex_Schema E) = Inr desc" "mapR (keyed_row desc orderBy) ts = Inr ks"
    using assms(3) by (auto simp: sortable_def)
  have "foldR (\<lambda>t acc. bindR (keyed_row desc orderBy t) (\<lambda>k. Inr (acc @ [k]))) ts [] = Inr ks"
    using collect_rows [OF d(2), of "[]"] by simp
  from over_rows_fold [OF i(2,3) this] obtain w2 c2
    where o': "over_rows E (\<lambda>t acc. bindR (keyed_row desc orderBy t) (\<lambda>k. Inr (acc @ [k]))) w1 c1 [] = Some (Inr ks, w2, c2)" "inv w2" by blast
  have "map (ex_Reread E c2) (tk_keys k) = tk_keys k" if "k \<in> set ks" for k
    using assms(3) that by (simp add: sortable_def map_idI)
  then have "map (\<lambda>k. k\<lparr>tk_keys := map (ex_Reread E c2) (tk_keys k)\<rparr>) ks = ks" by (intro map_idI) simp
  then show ?thesis using i(1) d(1) o' assms(4) by (simp add: Sort_Init_def settle_def sort_rows_def)
qed

lemma sort_source: "row_source (SortExec sorter orderBy E) inv (sort_ready sorter orderBy E ready) sort_rows"
proof
  show "\<exists>w' s'. ex_Init (SortExec sorter orderBy E) w s = (Inr (), w', s') \<and> inv w' \<and> sort_rows s' us"
    if "inv w" "sort_ready sorter orderBy E ready s us" for w s us
    using that sort_init [of w s] by (auto simp: sort_ready_def SortExec_def)
  show "\<exists>w' s'. ex_Next (SortExec sorter orderBy E) w s = (Inr True, w', s') \<and> inv w' \<and> sort_rows s' us \<and>
      ex_Current (SortExec sorter orderBy E) s' = Inr u"
    if a: "inv w" "sort_rows s (u # us)" for w s u us
  proof -
    obtain k ks where k: "sort_err s = None" "cursor_rows (sort_tuples s) (sort_tIdx s) (k # ks)" "u = tk_tuple k" "us = map tk_tuple ks"
      using a(2) by (auto simp: sort_rows_def)
    show ?thesis using a(1) k cursor_next [OF k(2)] by (auto simp: sort_rows_def SortExec_def)
  qed
  show "\<exists>w' s'. ex_Next (SortExec sorter orderBy E) w s = (Inr False, w', s') \<and> inv w' \<and> ex_Error (SortExec sorter orderBy E) s' = None"
    if "inv w" "sort_rows s []" for w s
    using that cursor_end by (auto simp: sort_rows_def SortExec_def)
  show "ex_Error (SortExec sorter orderBy E) s = None" if "sort_rows s us" for s us
    using that by (simp add: sort_rows_def SortExec_def)
qed

end

lemma keyed_rows_copies:
  "mapR (keyed_row desc orderBy) ts = Inr ks \<Longrightarrow> mapR (\<lambda>t. DeepCopy t desc) ts = Inr (map tk_tuple ks)"
  by (induction ts arbitrary: ks) (auto simp: bindR_eq_Inr keyed_row_def)

section \<open>Properties\<close>

text \<open>
  C21: Sorting.  Over any source of rows whose keys are comparable and stay readable, a sort
  with any correct library sort succeeds and then delivers copies of exactly the source's
  rows, in an order in which no row comes after one with a greater key, descending clauses
  reversed.
\<close>

theorem sort_orders_rows:
  assumes src: "row_source E W ready rows" and w: "W w" and ts: "ready (sort_child e) ts"
    and lib: "sorts sorter" and ks: "sortable E orderBy ts ks"
  shows "\<exists>w' e' ys. ex_Init (SortExec sorter orderBy E) w e = (Inr (), w', e') \<and> W w' \<and> sort_rows e' (map tk_tuple ys) \<and>
    mset ys = mset ks \<and> sorted_wrt (\<lambda>a b. \<exists>c \<le> 0. sortFunc orderBy a b = Inr c) ys \<and>
    row_source (SortExec sorter orderBy E) W (sort_ready sorter orderBy E ready) sort_rows"
proof -
  have same: "\<forall>a \<in> set ks. \<forall>b \<in> set ks. same_keys orderBy a b" using ks by (simp add: sortable_def)
  obtain ys where ys: "sorter (sortFunc orderBy) ks = Inr ys" "mset ys = mset ks" "sorted_wrt (\<lambda>a b. \<exists>c \<le> 0. sortFunc orderBy a b = Inr c) ys"
    by (rule sortsD [OF lib okey.three_way_axioms same])
  have i: "ex_Init (SortExec sorter orderBy E) = Sort_Init sorter orderBy E" by (simp add: SortExec_def)
  obtain w' e' where "Sort_Init sorter orderBy E w e = (Inr (), w', e')" "W w'" "sort_rows e' (map tk_tuple ys)"
    using row_source.sort_init [OF src w ts ks, of sorter ys] ys(1) by blast
  then show ?thesis using row_source.sort_source [OF src, of sorter orderBy] ys(2,3) unfolding i by blast
qed

definition demo_order :: "OrderByClause list" where
  "demo_order = [\<lparr>ob_Expr = BoundValueExpr 0 IntType ''a'', ob_Direction = SortOrderDescending\<rparr>]"

lemma demo_sortable:
  obtains ks where "sortable (ValuesExec demo_values [IntType]) demo_order (map (\<lambda>n. FromValues (Some [NewIntValue n])) [1, 2, 3, 4]) ks"
    "map tk_keys ks = [[NewIntValue 1], [NewIntValue 2], [NewIntValue 3], [NewIntValue 4]]"
proof -
  obtain desc where desc: "NewRawTupleDesc [IntType] = Inr desc" "wf_desc desc" "rd_fields desc = [IntType]"
    using NewRawTupleDesc_eq [of "[IntType]"] by (auto simp: total_size_def type_size_def size_defs)
  let ?t = "\<lambda>n. FromValues (Some [NewIntValue n])"
  have kr: "\<exists>k. keyed_row desc demo_order (?t n) = Inr k \<and> tk_keys k = [NewIntValue n]" if "n \<noteq> MinInt64" for n
  proof -
    have t: "tuple_ok (?t n)" "rd_fields desc = tuple_types (?t n)" "tuple_has (?t n) [NewIntValue n]"
      using that desc(3)
      by (simp_all add: tuple_ok_def FromValues_def extra_list_def value_wf_def storable_def NewIntValue_def zeroValue_def tuple_types_def
          tuple_has_def NumColumns_def Tuple_GetValue_def nth_checked_def value_eq_def)
    have "\<exists>b. WriteToBuffer (?t n) (replicate (rd_bytes desc) 0) desc = Inr b"
      by (rule WriteToBuffer_ok [OF t(1) desc(2) t(2) _ t(3), of "replicate (rd_bytes desc) 0"]) auto
    moreover have "NumColumns (?t n) = RawTupleDesc_NumColumns desc" by (simp add: NumColumns_def FromValues_def extra_list_def RawTupleDesc_NumColumns_def desc(3))
    moreover have "Eval (BoundValueExpr 0 IntType ''a'') (?t n) = Inr (NewIntValue n)"
      by (simp add: Tuple_GetValue_def FromValues_def extra_list_def nth_checked_def)
    ultimately show ?thesis by (auto simp: keyed_row_def DeepCopy_def demo_order_def BytesPerTuple_def)
  qed
  have "(1 :: 64 word) \<noteq> MinInt64" "(2 :: 64 word) \<noteq> MinInt64" "(3 :: 64 word) \<noteq> MinInt64" "(4 :: 64 word) \<noteq> MinInt64"
    by (simp_all add: MinInt64_def)
  note ks = this [THEN kr]
  obtain k1 where k1: "keyed_row desc demo_order (?t 1) = Inr k1" "tk_keys k1 = [NewIntValue 1]" using ks(1) by blast
  obtain k2 where k2: "keyed_row desc demo_order (?t 2) = Inr k2" "tk_keys k2 = [NewIntValue 2]" using ks(2) by blast
  obtain k3 where k3: "keyed_row desc demo_order (?t 3) = Inr k3" "tk_keys k3 = [NewIntValue 3]" using ks(3) by blast
  obtain k4 where k4: "keyed_row desc demo_order (?t 4) = Inr k4" "tk_keys k4 = [NewIntValue 4]" using ks(4) by blast
  note k = k1 k2 k3 k4
  have "sortable (ValuesExec demo_values [IntType]) demo_order (map ?t [1, 2, 3, 4]) [k1, k2, k3, k4]"
    using k desc(1) by (auto simp: sortable_def ValuesExec_def same_keys_def demo_order_def same_type_def NewIntValue_def zeroValue_def)
  then show thesis using that [of "[k1, k2, k3, k4]"] k by simp
qed

theorem sort_orders_rows_witness:
  "\<exists>w' e' ys. ex_Init (SortExec insertion_sort demo_order (ValuesExec demo_values [IntType])) () (NewSortExecutor NewValuesExecutor) = (Inr (), w', e') \<and>
     sort_rows e' (map tk_tuple ys) \<and> length ys = 4 \<and> sorted_wrt (\<lambda>a b. \<exists>c \<le> 0. sortFunc demo_order a b = Inr c) ys"
proof -
  obtain ks where ks: "sortable (ValuesExec demo_values [IntType] :: (unit, ValuesExecutor) Executor) demo_order
      (map (\<lambda>n. FromValues (Some [NewIntValue n])) [1, 2, 3, 4]) ks"
      "map tk_keys ks = [[NewIntValue 1], [NewIntValue 2], [NewIntValue 3], [NewIntValue 4]]"
    by (rule demo_sortable)
  have r: "values_ready demo_values [IntType] (sort_child (NewSortExecutor NewValuesExecutor)) (map (\<lambda>n. FromValues (Some [NewIntValue n])) [1, 2, 3, 4])"
    by (simp add: values_ready_def demo_values_def const_row_def)
  have "length ks = 4" using arg_cong [OF ks(2), of length] by simp
  obtain w' e' ys where "ex_Init (SortExec insertion_sort demo_order (ValuesExec demo_values [IntType])) () (NewSortExecutor NewValuesExecutor) = (Inr (), w', e')"
      "sort_rows e' (map tk_tuple ys)" "mset ys = mset ks" "sorted_wrt (\<lambda>a b. \<exists>c \<le> 0. sortFunc demo_order a b = Inr c) ys"
    using sort_orders_rows [OF vals.row_source_axioms TrueI r insertion_sort_sorts ks(1), of "()"] by blast
  moreover have "length ys = 4" using \<open>length ks = 4\<close> mset_eq_length [OF \<open>mset ys = mset ks\<close>] by simp
  ultimately show ?thesis by blast
qed

text \<open>An error that ends the child's rows is lost: the sort succeeds with the rows it got.\<close>

lemma sort_drops_child_error:
  assumes "ex_Init E w (sort_child e) = (Inr (), w1, c1)" "ex_Next E w1 c1 = (Inr False, w2, c2)" "ex_Error E c2 = Some f"
    "NewRawTupleDesc (ex_Schema E) = Inr desc" "sorts sorter"
  shows "\<exists>e'. ex_Init (SortExec sorter orderBy E) w e = (Inr (), w2, e') \<and> ex_Error (SortExec sorter orderBy E) e' = None"
proof -
  obtain ys where "sorter (sortFunc orderBy) [] = Inr ys" by (rule sortsD [OF assms(5) okey.three_way_axioms, of "[]"]) auto
  then show ?thesis using assms by (simp add: SortExec_def Sort_Init_def settle_def over_rows.simps)
qed

end
