(* ===== verification/Hash_Join.thy ===== *)
theory Hash_Join
  imports Sort_Executor "HOL-Library.AList"
begin

text \<open>
  The hash table of the operators (\<^verbatim>\<open>execution/hash_table.go\<close>) and the hash join
  (\<^verbatim>\<open>execution/hash_join_executor.go\<close>).
\<close>

section \<open>Hash table\<close>

text \<open>A Go map from the key's stored bytes; the scratch buffer is overwritten by every call.\<close>

record 'v ExecutionHashTable =
  ht_table :: "(RawTuple \<times> 'v) list"
  ht_keySchema :: RawTupleDesc
  ht_scratch :: RawTuple

definition NewExecutionHashTable :: "RawTupleDesc \<Rightarrow> 'v ExecutionHashTable" where
  "NewExecutionHashTable keySchema = \<lparr>ht_table = [], ht_keySchema = keySchema, ht_scratch = replicate (BytesPerTuple keySchema) 0\<rparr>"

definition ht_key :: "Tuple \<Rightarrow> 'v ExecutionHashTable \<Rightarrow> RawTuple res" where
  "ht_key key ht = bindR (WriteToBuffer key (ht_scratch ht) (ht_keySchema ht)) (\<lambda>t. Inr (tp_raw t))"

definition ht_Insert :: "Tuple \<Rightarrow> 'v \<Rightarrow> 'v ExecutionHashTable \<Rightarrow> 'v ExecutionHashTable res" where
  "ht_Insert key value ht =
     bindR (ht_key key ht) (\<lambda>k. Inr (ht\<lparr>ht_scratch := k, ht_table := AList.update k value (ht_table ht)\<rparr>))"

definition ht_Get :: "Tuple \<Rightarrow> 'v ExecutionHashTable \<Rightarrow> ('v option \<times> 'v ExecutionHashTable) res" where
  "ht_Get key ht = bindR (ht_key key ht) (\<lambda>k. Inr (map_of (ht_table ht) k, ht\<lparr>ht_scratch := k\<rparr>))"

definition ht_Delete :: "Tuple \<Rightarrow> 'v ExecutionHashTable \<Rightarrow> 'v ExecutionHashTable res" where
  "ht_Delete key ht = bindR (ht_key key ht) (\<lambda>k. Inr (ht\<lparr>ht_scratch := k, ht_table := AList.delete k (ht_table ht)\<rparr>))"

text \<open>\<open>ord\<close> is the order in which ranging over the map visits its entries.\<close>

definition ht_Iterate :: "((RawTuple \<times> 'v) list \<Rightarrow> (RawTuple \<times> 'v) list) \<Rightarrow> (Tuple \<Rightarrow> 'v \<Rightarrow> 'a \<Rightarrow> 'a res) \<Rightarrow>
    'v ExecutionHashTable \<Rightarrow> 'a \<Rightarrow> 'a res" where
  "ht_Iterate ord iter ht = foldR (\<lambda>(key, value). iter (FromRawTuple key (ht_keySchema ht) zeroRID) value) (ord (ht_table ht))"

section \<open>Hash join\<close>

record ('a, 'b) HashJoinExecutor =
  hj_left :: 'a
  hj_right :: 'b
  hj_tIdx :: int
  hj_tuples :: "Tuple list"
  hj_err :: "fault option"

definition NewHashJoinExecutor :: "'a \<Rightarrow> 'b \<Rightarrow> ('a, 'b) HashJoinExecutor" where
  "NewHashJoinExecutor left right = \<lparr>hj_left = left, hj_right = right, hj_tIdx = 0, hj_tuples = [], hj_err = None\<rparr>"

text \<open>The values of a key; the first null ends the loop.\<close>

fun key_values :: "Expr list \<Rightarrow> Tuple \<Rightarrow> Value list option res" where
  "key_values [] t = Inr (Some [])"
| "key_values (x # xs) t =
     bindR (Eval x t) (\<lambda>v. if val_null v then Inr None else bindR (key_values xs t) (\<lambda>vs. Inr (map_option ((#) v) vs)))"

definition build_row :: "Expr list \<Rightarrow> RawTupleDesc \<Rightarrow> Tuple \<Rightarrow> Tuple list ExecutionHashTable \<Rightarrow> Tuple list ExecutionHashTable res" where
  "build_row leftKeys leftDesc tup ht =
     bindR (key_values leftKeys tup) (\<lambda>ks.
     case ks of
       None \<Rightarrow> Inr ht
     | Some vals \<Rightarrow>
         let key = Extend (FromValues None) vals
         in bindR (ht_Get key ht) (\<lambda>(tups, ht1).
            bindR (DeepCopy tup leftDesc) (\<lambda>c.
            ht_Insert key (case tups of None \<Rightarrow> [c] | Some ts \<Rightarrow> ts @ [c]) ht1)))"

definition probe_row :: "Expr list \<Rightarrow> RawTupleDesc \<Rightarrow> Tuple \<Rightarrow> Tuple list ExecutionHashTable \<times> Tuple list \<Rightarrow>
    (Tuple list ExecutionHashTable \<times> Tuple list) res" where
  "probe_row rightKeys outDesc tup st =
     bindR (key_values rightKeys tup) (\<lambda>ks.
     case ks of
       None \<Rightarrow> Inr st
     | Some vals \<Rightarrow>
         bindR (ht_Get (Extend (FromValues None) vals) (fst st)) (\<lambda>(tups, ht1).
         case tups of
           None \<Rightarrow> Inr (ht1, snd st)
         | Some ts \<Rightarrow> bindR (mapR (\<lambda>l. MergeTuples (replicate (BytesPerTuple outDesc) 0) outDesc l tup) ts) (\<lambda>ms. Inr (ht1, snd st @ ms))))"

definition HashJoin_Init :: "Expr list \<Rightarrow> Expr list \<Rightarrow> ('w, 'a) Executor \<Rightarrow> ('w, 'b) Executor \<Rightarrow> 'w \<Rightarrow> ('a, 'b) HashJoinExecutor \<Rightarrow>
    unit res \<times> ('w \<times> ('a, 'b) HashJoinExecutor)" where
  "HashJoin_Init leftKeys rightKeys L R w e =
     (case ex_Init L w (hj_left e) of
        (Inl f, w1, l1) \<Rightarrow> (Inl f, w1, e\<lparr>hj_left := l1, hj_err := Some f\<rparr>)
      | (Inr _, w1, l1) \<Rightarrow>
     (case ex_Init R w1 (hj_right e) of
        (Inl f, w2, r1) \<Rightarrow> (Inl f, w2, e\<lparr>hj_left := l1, hj_right := r1, hj_err := Some f\<rparr>)
      | (Inr _, w2, r1) \<Rightarrow>
          let e1 = e\<lparr>hj_left := l1, hj_right := r1, hj_tIdx := - 1, hj_tuples := []\<rparr>
          in (case bindR (NewRawTupleDesc (map OutputType leftKeys)) (\<lambda>k. bindR (NewRawTupleDesc (ex_Schema L)) (\<lambda>d. Inr (k, d))) of
                Inl f \<Rightarrow> (Inl f, w2, e1)
              | Inr (keySchema, leftDesc) \<Rightarrow>
             (case settle (w2, l1) (over_rows L (build_row leftKeys leftDesc) w2 l1 (NewExecutionHashTable keySchema)) of
                (Inl f, w3, l2) \<Rightarrow> (Inl f, w3, e1\<lparr>hj_left := l2\<rparr>)
              | (Inr ht, w3, l2) \<Rightarrow>
             (case NewRawTupleDesc (ex_Schema L @ ex_Schema R) of
                Inl f \<Rightarrow> (Inl f, w3, e1\<lparr>hj_left := l2\<rparr>)
              | Inr outDesc \<Rightarrow>
             (case settle (w3, r1) (over_rows R (probe_row rightKeys outDesc) w3 r1 (ht, [])) of
                (Inl f, w4, r2) \<Rightarrow> (Inl f, w4, e1\<lparr>hj_left := l2, hj_right := r2\<rparr>)
              | (Inr (_, ts), w4, r2) \<Rightarrow> (Inr (), w4, e1\<lparr>hj_left := l2, hj_right := r2, hj_tuples := ts\<rparr>)))))))"

text \<open>Closing both children; the left one's error wins.\<close>

definition close_both :: "('w, 'a) Executor \<Rightarrow> ('w, 'b) Executor \<Rightarrow> 'w \<Rightarrow> 'a \<Rightarrow> 'b \<Rightarrow> unit res \<times> ('w \<times> 'a \<times> 'b)" where
  "close_both L R w l r =
     (let (lErr, w1, l') = ex_Close L w l; (rErr, w2, r') = ex_Close R w1 r
      in (case lErr of Inl f \<Rightarrow> Inl f | Inr _ \<Rightarrow> rErr, w2, l', r'))"

definition fault_of :: "'x res \<Rightarrow> fault option \<Rightarrow> fault option" where
  "fault_of r old = (case r of Inl f \<Rightarrow> Some f | Inr _ \<Rightarrow> old)"

definition HashJoinExec :: "Expr list \<Rightarrow> Expr list \<Rightarrow> ('w, 'a) Executor \<Rightarrow> ('w, 'b) Executor \<Rightarrow> ('w, ('a, 'b) HashJoinExecutor) Executor" where
  "HashJoinExec leftKeys rightKeys L R =
     \<lparr>ex_Schema = ex_Schema L @ ex_Schema R,
      ex_Init = HashJoin_Init leftKeys rightKeys L R,
      ex_Next = (\<lambda>w e. if hj_tIdx e + 1 \<ge> int (length (hj_tuples e)) then (Inr False, w, e)
                       else (Inr True, w, e\<lparr>hj_tIdx := hj_tIdx e + 1\<rparr>)),
      ex_Current = (\<lambda>e. int_index (hj_tuples e) (hj_tIdx e)),
      ex_Error = hj_err,
      ex_Close = (\<lambda>w e. let (r, w', l, r') = close_both L R w (hj_left e) (hj_right e)
                        in (r, w', e\<lparr>hj_left := l, hj_right := r', hj_tuples := [], hj_err := fault_of r (hj_err e)\<rparr>)),
      ex_Reread = (\<lambda>e v. v)\<rparr>"


section \<open>The bytes of a key\<close>

definition key_typed :: "gtype list \<Rightarrow> Value list \<Rightarrow> bool" where
  "key_typed kt vs \<longleftrightarrow> map val_t vs = kt \<and> (\<forall>v \<in> set vs. value_wf v \<and> storable v)"

definition key_bytes :: "Value list \<Rightarrow> RawTuple" where
  "key_bytes vs = concat (map value_bytes vs)"

lemma length_key_bytes: "key_typed kt vs \<Longrightarrow> length (key_bytes vs) = total_size kt"
  by (induction vs arbitrary: kt) (auto simp: key_typed_def key_bytes_def length_value_bytes total_size_def)

lemma write_values_bytes:
  assumes "wf_desc d" "rd_fields d = pre @ map val_t vs" "length b = total_size pre" "length rest = total_size (map val_t vs)"
    "\<forall>v \<in> set vs. value_wf v"
  shows "write_values d (length pre) vs (b @ rest) = Inr (b @ key_bytes vs)"
  using assms
proof (induction vs arbitrary: pre b rest)
  case (Cons v vs)
  let ?n = "type_size (val_t v)"
  have off: "nth_checked (rd_offsets d) (length pre) = Inr (length b)" "nth_checked (rd_fields d) (length pre) = Inr (val_t v)"
    using Cons.prems(1-3) by (auto simp: nth_checked_def wf_desc_def simp del: upt_Suc)
  have wf: "value_wf v" "length (value_bytes v) = ?n" "?n \<le> length rest" using Cons.prems(4,5) length_value_bytes by simp_all
  have "RawTupleDesc_SetValue d (b @ rest) (length pre) v = Inr (b @ value_bytes v @ drop ?n rest)"
    using off wf by (simp add: RawTupleDesc_SetValue_def from_checked_def Value_WriteTo_bytes put_at_def)
  moreover have "write_values d (length (pre @ [val_t v])) vs ((b @ value_bytes v) @ drop ?n rest) = Inr ((b @ value_bytes v) @ key_bytes vs)"
    by (rule Cons.IH) (use Cons.prems wf in simp_all)
  ultimately show ?case by (simp add: key_bytes_def)
qed (simp add: key_bytes_def)

lemma ht_key_bytes:
  assumes "wf_desc (ht_keySchema ht)" "rd_fields (ht_keySchema ht) = kt" "length (ht_scratch ht) = rd_bytes (ht_keySchema ht)" "key_typed kt vs"
  shows "ht_key (Extend (FromValues None) vs) ht = Inr (key_bytes vs)"
proof -
  have "write_values (ht_keySchema ht) 0 vs (ht_scratch ht) = Inr (key_bytes vs)"
    by (rule write_values_bytes [where pre = "[]" and b = "[]", simplified])
      (use assms in \<open>auto simp: key_typed_def wf_desc_def\<close>)
  moreover have "length vs = length kt" using assms(4) by (auto simp: key_typed_def)
  ultimately show ?thesis using assms
    by (cases vs) (simp_all add: ht_key_def WriteToBuffer_def BytesPerTuple_def NumColumns_def Extend_def FromValues_def extra_list_def
        RawTupleDesc_NumColumns_def FromRawTuple_def)
qed

lemma value_bytes_eq:
  assumes "storable v" "storable u" "val_t v = val_t u"
  shows "value_bytes v = value_bytes u \<longleftrightarrow> value_eq v u"
proof
  assume e: "value_bytes v = value_bytes u"
  obtain w w' where "AsValue (val_t v) (value_bytes v @ []) = Inr w" "value_eq v w" "AsValue (val_t u) (value_bytes u @ []) = Inr w'" "value_eq u w'"
    using AsValue_bytes [OF assms(1), of "[]"] AsValue_bytes [OF assms(2), of "[]"] by blast
  then show "value_eq v u" using e assms(3) by (auto simp: value_eq_def)
qed (auto simp: value_eq_def value_bytes_def split: gtype.splits)

lemma key_bytes_eq:
  assumes "key_typed kt vs" "key_typed kt us"
  shows "key_bytes vs = key_bytes us \<longleftrightarrow> list_all2 value_eq vs us"
  using assms
proof (induction vs arbitrary: kt us)
  case Nil
  then show ?case by (auto simp: key_typed_def)
next
  case (Cons v vs)
  then obtain u us' kt' where u: "us = u # us'" "kt = val_t v # kt'" "key_typed kt' vs" "key_typed kt' us'" "val_t u = val_t v"
      "storable v" "storable u" "value_wf v" "value_wf u"
    by (cases us) (auto simp: key_typed_def)
  have "length (value_bytes v) = length (value_bytes u)" using u length_value_bytes by simp
  then show ?case using Cons.IH [OF u(3,4)] value_bytes_eq [OF u(6,7)] u(1,5) by (auto simp: key_bytes_def)
qed

section \<open>The table that the left side builds\<close>

text \<open>The rows whose key has the given bytes.\<close>

definition key_is :: "Expr list \<Rightarrow> RawTuple \<Rightarrow> Tuple \<Rightarrow> bool" where
  "key_is keys b t \<longleftrightarrow> (\<exists>vs. key_values keys t = Inr (Some vs) \<and> key_bytes vs = b)"

definition keys_ok :: "gtype list \<Rightarrow> Expr list \<Rightarrow> Tuple \<Rightarrow> bool" where
  "keys_ok kt keys t \<longleftrightarrow> (\<exists>ks. key_values keys t = Inr ks \<and> (\<forall>vs. ks = Some vs \<longrightarrow> key_typed kt vs))"

definition table_of :: "Expr list \<Rightarrow> (Tuple \<Rightarrow> Tuple) \<Rightarrow> gtype list \<Rightarrow> RawTupleDesc \<Rightarrow> Tuple list \<Rightarrow> Tuple list ExecutionHashTable \<Rightarrow> bool" where
  "table_of keys copy kt d ts ht \<longleftrightarrow> ht_keySchema ht = d \<and> length (ht_scratch ht) = rd_bytes d \<and>
     (\<forall>b. map_of (ht_table ht) b = (case map copy (filter (key_is keys b) ts) of [] \<Rightarrow> None | us \<Rightarrow> Some us))"

lemma build_step:
  assumes ht: "table_of keys copy kt d ts ht" and d: "wf_desc d" "rd_fields d = kt" and t: "keys_ok kt keys t"
    and c: "\<And>vs. key_values keys t = Inr (Some vs) \<Longrightarrow> DeepCopy t leftDesc = Inr (copy t)"
  shows "\<exists>ht'. build_row keys leftDesc t ht = Inr ht' \<and> table_of keys copy kt d (ts @ [t]) ht'"
proof -
  obtain ks where ks: "key_values keys t = Inr ks" "\<And>vs. ks = Some vs \<Longrightarrow> key_typed kt vs" using t by (auto simp: keys_ok_def)
  show ?thesis
  proof (cases ks)
    case None
    then show ?thesis using ks(1) ht by (simp add: build_row_def table_of_def key_is_def)
  next
    case (Some vs)
    have ty: "key_typed kt vs" using ks(2) Some by simp
    let ?b = "key_bytes vs" and ?key = "Extend (FromValues None) vs"
    have k: "ht_key ?key h = Inr ?b" if "ht_keySchema h = d" "length (ht_scratch h) = rd_bytes d" for h :: "Tuple list ExecutionHashTable"
      by (rule ht_key_bytes [OF _ _ _ ty]) (use that d in simp_all)
    have len: "length ?b = rd_bytes d" using length_key_bytes [OF ty] d by (simp add: wf_desc_def)
    let ?old = "map copy (filter (key_is keys ?b) ts)"
    let ?new = "case (case ?old of [] \<Rightarrow> None | us \<Rightarrow> Some us) of None \<Rightarrow> [copy t] | Some us \<Rightarrow> us @ [copy t]"
    have new: "?new = ?old @ [copy t]" by (simp split: list.splits)
    have h: "ht_keySchema ht = d" "length (ht_scratch ht) = rd_bytes d"
      "\<And>b. map_of (ht_table ht) b = (case map copy (filter (key_is keys b) ts) of [] \<Rightarrow> None | us \<Rightarrow> Some us)"
      using ht by (simp_all add: table_of_def)
    have k1: "ht_key ?key ht = Inr ?b" "ht_key ?key (ht\<lparr>ht_scratch := ?b\<rparr>) = Inr ?b" using h len by (auto intro!: k)
    have b: "build_row keys leftDesc t ht = Inr (ht\<lparr>ht_scratch := ?b, ht_table := AList.update ?b ?new (ht_table ht)\<rparr>)"
      using ks(1) Some c [of vs] k1 by (simp add: build_row_def ht_Get_def ht_Insert_def h(3))
    have "key_is keys b' t \<longleftrightarrow> b' = ?b" for b' using ks(1) Some by (auto simp: key_is_def)
    then have "table_of keys copy kt d (ts @ [t]) (ht\<lparr>ht_scratch := ?b, ht_table := AList.update ?b ?new (ht_table ht)\<rparr>)"
      unfolding new using h len by (auto simp: table_of_def update_conv' split: list.splits)
    then show ?thesis using b by blast
  qed
qed

lemma build_all:
  assumes "wf_desc d" "rd_fields d = kt" "\<forall>t \<in> set ts. keys_ok kt keys t"
    and "\<And>t vs. t \<in> set ts \<Longrightarrow> key_values keys t = Inr (Some vs) \<Longrightarrow> DeepCopy t leftDesc = Inr (copy t)"
  obtains ht where "foldR (build_row keys leftDesc) ts (NewExecutionHashTable d) = Inr ht" "table_of keys copy kt d ts ht"
proof -
  have "\<exists>ht. foldR (build_row keys leftDesc) ts (NewExecutionHashTable d) = Inr ht \<and> table_of keys copy kt d ts ht"
    using assms(3,4)
  proof (induction ts rule: rev_induct)
    case Nil
    show ?case by (simp add: NewExecutionHashTable_def table_of_def BytesPerTuple_def)
  next
    case (snoc t ts)
    then obtain ht where ht: "foldR (build_row keys leftDesc) ts (NewExecutionHashTable d) = Inr ht" "table_of keys copy kt d ts ht" by auto
    have "keys_ok kt keys t" using snoc.prems(1) by simp
    from build_step [OF ht(2) assms(1,2) this, of leftDesc] snoc.prems(2) [of t] ht(1) show ?case by (auto simp: foldR_append)
  qed
  then show thesis using that by blast
qed


section \<open>Probing\<close>

text \<open>The specification of an equality join: for every right row, in order, the left rows with an equal key and no null in it.\<close>

definition joins :: "Expr list \<Rightarrow> Expr list \<Rightarrow> Tuple \<Rightarrow> Tuple \<Rightarrow> bool" where
  "joins leftKeys rightKeys l r =
     (case (key_values leftKeys l, key_values rightKeys r) of
        (Inr (Some vs), Inr (Some us)) \<Rightarrow> list_all2 value_eq vs us
      | _ \<Rightarrow> False)"

definition nested_loop :: "Expr list \<Rightarrow> Expr list \<Rightarrow> Tuple list \<Rightarrow> Tuple list \<Rightarrow> (Tuple \<times> Tuple) list" where
  "nested_loop leftKeys rightKeys ls rs = concat (map (\<lambda>r. map (\<lambda>l. (l, r)) (filter (\<lambda>l. joins leftKeys rightKeys l r) ls)) rs)"

definition merge_pair :: "RawTupleDesc \<Rightarrow> (Tuple \<Rightarrow> Tuple) \<Rightarrow> Tuple \<times> Tuple \<Rightarrow> Tuple res" where
  "merge_pair outDesc copy p = MergeTuples (replicate (BytesPerTuple outDesc) 0) outDesc (copy (fst p)) (snd p)"

lemma mapR_append: "mapR f (xs @ ys) = bindR (mapR f xs) (\<lambda>as. bindR (mapR f ys) (\<lambda>bs. Inr (as @ bs)))"
  by (induction xs) (auto simp: bindR_def split: sum.splits)

lemma mapR_map: "mapR f (map g xs) = mapR (\<lambda>x. f (g x)) xs"
  by (induction xs) simp_all

lemma joins_key_is:
  assumes "key_values rightKeys r = Inr (Some us)" "key_typed kt us" "keys_ok kt leftKeys l"
  shows "joins leftKeys rightKeys l r \<longleftrightarrow> key_is leftKeys (key_bytes us) l"
  using assms key_bytes_eq [OF _ assms(2)] by (auto simp: joins_def key_is_def keys_ok_def split: option.splits)

lemma probe_step:
  assumes ht: "table_of leftKeys copy kt d ls ht" and d: "wf_desc d" "rd_fields d = kt" and ls: "\<forall>l \<in> set ls. keys_ok kt leftKeys l"
    and r: "keys_ok kt rightKeys r" and ms: "mapR (merge_pair outDesc copy) (nested_loop leftKeys rightKeys ls [r]) = Inr ms"
  shows "\<exists>ht'. probe_row rightKeys outDesc r (ht, out) = Inr (ht', out @ ms) \<and> table_of leftKeys copy kt d ls ht'"
proof -
  obtain ks where ks: "key_values rightKeys r = Inr ks" "\<And>vs. ks = Some vs \<Longrightarrow> key_typed kt vs" using r by (auto simp: keys_ok_def)
  have nl: "nested_loop leftKeys rightKeys ls [r] = map (\<lambda>l. (l, r)) (filter (\<lambda>l. joins leftKeys rightKeys l r) ls)"
    by (simp add: nested_loop_def)
  show ?thesis
  proof (cases ks)
    case None
    then have "nested_loop leftKeys rightKeys ls [r] = []" using ks(1) by (simp add: nl joins_def split: sum.splits option.splits)
    then show ?thesis using None ks(1) ht ms by (simp add: probe_row_def)
  next
    case (Some us)
    have ty: "key_typed kt us" using ks(2) Some by simp
    let ?b = "key_bytes us"
    have h: "ht_keySchema ht = d" "length (ht_scratch ht) = rd_bytes d"
      "map_of (ht_table ht) ?b = (case map copy (filter (key_is leftKeys ?b) ls) of [] \<Rightarrow> None | us \<Rightarrow> Some us)"
      using ht by (simp_all add: table_of_def)
    have k: "ht_key (Extend (FromValues None) us) ht = Inr ?b" by (rule ht_key_bytes [OF _ _ _ ty]) (use h d in simp_all)
    have f: "filter (\<lambda>l. joins leftKeys rightKeys l r) ls = filter (key_is leftKeys ?b) ls"
      by (rule filter_cong [OF refl]) (use joins_key_is [OF _ ty] ks(1) Some ls in auto)
    have m: "mapR (\<lambda>l. MergeTuples (replicate (BytesPerTuple outDesc) 0) outDesc l r) (map copy (filter (key_is leftKeys ?b) ls)) = Inr ms"
      using ms by (simp add: nl f mapR_map merge_pair_def)
    have "table_of leftKeys copy kt d ls (ht\<lparr>ht_scratch := ?b\<rparr>)"
      using ht length_key_bytes [OF ty] d by (simp add: table_of_def wf_desc_def)
    then show ?thesis using ks(1) Some k m h(3)
      by (cases "map copy (filter (key_is leftKeys ?b) ls)") (auto simp: probe_row_def ht_Get_def)
  qed
qed

lemma probe_all:
  assumes ht: "table_of leftKeys copy kt d ls ht" and d: "wf_desc d" "rd_fields d = kt" and ls: "\<forall>l \<in> set ls. keys_ok kt leftKeys l"
    and "\<forall>r \<in> set rs. keys_ok kt rightKeys r" "mapR (merge_pair outDesc copy) (nested_loop leftKeys rightKeys ls rs) = Inr us"
  shows "\<exists>ht'. foldR (probe_row rightKeys outDesc) rs (ht, out) = Inr (ht', out @ us)"
  using ht assms(5,6)
proof (induction rs arbitrary: ht out us)
  case (Cons r rs)
  have "nested_loop leftKeys rightKeys ls (r # rs) = nested_loop leftKeys rightKeys ls [r] @ nested_loop leftKeys rightKeys ls rs"
    by (simp add: nested_loop_def)
  then obtain ms us' where u: "mapR (merge_pair outDesc copy) (nested_loop leftKeys rightKeys ls [r]) = Inr ms"
      "mapR (merge_pair outDesc copy) (nested_loop leftKeys rightKeys ls rs) = Inr us'" "us = ms @ us'"
    using Cons.prems(3) by (auto simp: mapR_append bindR_eq_Inr)
  obtain ht1 where "probe_row rightKeys outDesc r (ht, out) = Inr (ht1, out @ ms)" "table_of leftKeys copy kt d ls ht1"
    using probe_step [OF Cons.prems(1) d ls _ u(1)] Cons.prems(2) by auto
  then show ?case using Cons.IH [of ht1 us' "out @ ms"] Cons.prems(2) u by auto
qed (simp add: nested_loop_def)

section \<open>The rows of a join\<close>

definition hj_rows :: "('a, 'b) HashJoinExecutor \<Rightarrow> Tuple list \<Rightarrow> bool" where
  "hj_rows e us \<longleftrightarrow> hj_err e = None \<and> cursor_rows (hj_tuples e) (hj_tIdx e) us"

text \<open>
  When the join can be started: the children are ready, the keys of both sides have the
  types of the left key expressions, and the rows can be copied and merged.  Its rows are
  then those of the nested loop.
\<close>

definition hash_ready :: "Expr list \<Rightarrow> Expr list \<Rightarrow> ('w, 'a) Executor \<Rightarrow> ('w, 'b) Executor \<Rightarrow> ('a \<Rightarrow> Tuple list \<Rightarrow> bool) \<Rightarrow>
    ('b \<Rightarrow> Tuple list \<Rightarrow> bool) \<Rightarrow> ('a, 'b) HashJoinExecutor \<Rightarrow> Tuple list \<Rightarrow> bool" where
  "hash_ready leftKeys rightKeys L R lready rready e us \<longleftrightarrow>
     (\<exists>ls rs keySchema leftDesc outDesc copy.
        lready (hj_left e) ls \<and> rready (hj_right e) rs \<and> hj_err e = None \<and>
        NewRawTupleDesc (map OutputType leftKeys) = Inr keySchema \<and> NewRawTupleDesc (ex_Schema L) = Inr leftDesc \<and>
        NewRawTupleDesc (ex_Schema L @ ex_Schema R) = Inr outDesc \<and>
        (\<forall>l \<in> set ls. keys_ok (map OutputType leftKeys) leftKeys l \<and> DeepCopy l leftDesc = Inr (copy l)) \<and>
        (\<forall>r \<in> set rs. keys_ok (map OutputType leftKeys) rightKeys r) \<and>
        mapR (merge_pair outDesc copy) (nested_loop leftKeys rightKeys ls rs) = Inr us)"

text \<open>Two sources of rows over one world.\<close>

locale join_sources = left: row_source L inv lready lrows + right: row_source R inv rready rrows
  for L :: "('w, 'a) Executor" and inv and lready and lrows and R :: "('w, 'b) Executor" and rready and rrows
begin

lemma hash_init:
  assumes "inv w" "hash_ready leftKeys rightKeys L R lready rready e us"
  shows "\<exists>w' e'. HashJoin_Init leftKeys rightKeys L R w e = (Inr (), w', e') \<and> inv w' \<and> hj_rows e' us"
proof -
  let ?kt = "map OutputType leftKeys"
  obtain ls rs keySchema leftDesc outDesc copy where h: "lready (hj_left e) ls" "rready (hj_right e) rs" "hj_err e = None"
      "NewRawTupleDesc ?kt = Inr keySchema" "NewRawTupleDesc (ex_Schema L) = Inr leftDesc" "NewRawTupleDesc (ex_Schema L @ ex_Schema R) = Inr outDesc"
      "\<forall>l \<in> set ls. keys_ok ?kt leftKeys l \<and> DeepCopy l leftDesc = Inr (copy l)" "\<forall>r \<in> set rs. keys_ok ?kt rightKeys r"
      "mapR (merge_pair outDesc copy) (nested_loop leftKeys rightKeys ls rs) = Inr us"
    using assms(2) unfolding hash_ready_def by blast
  have d: "wf_desc keySchema" "rd_fields keySchema = ?kt" using NewRawTupleDesc_wf [OF h(4)] by simp_all
  obtain w1 l1 where 1: "ex_Init L w (hj_left e) = (Inr (), w1, l1)" "inv w1" "lrows l1 ls" using left.init_law [OF assms(1) h(1)] by blast
  obtain w2 r1 where 2: "ex_Init R w1 (hj_right e) = (Inr (), w2, r1)" "inv w2" "rrows r1 rs" using right.init_law [OF 1(2) h(2)] by blast
  have lk: "\<forall>l \<in> set ls. keys_ok ?kt leftKeys l" using h(7) by blast
  obtain ht where ht: "foldR (build_row leftKeys leftDesc) ls (NewExecutionHashTable keySchema) = Inr ht" "table_of leftKeys copy ?kt keySchema ls ht"
    by (rule build_all [OF d lk]) (use h(7) in auto)
  obtain w3 l2 where 3: "over_rows L (build_row leftKeys leftDesc) w2 l1 (NewExecutionHashTable keySchema) = Some (Inr ht, w3, l2)" "inv w3"
    using left.over_rows_fold [OF 2(2) 1(3) ht(1)] by blast
  obtain ht' where p: "foldR (probe_row rightKeys outDesc) rs (ht, []) = Inr (ht', us)"
    using probe_all [OF ht(2) d lk h(8,9), of "[]"] by auto
  obtain w4 r2 where "over_rows R (probe_row rightKeys outDesc) w3 r1 (ht, []) = Some (Inr (ht', us), w4, r2)" "inv w4"
    using right.over_rows_fold [OF 3(2) 2(3) p] by blast
  then show ?thesis using 1 2 3 h(3-6) by (simp add: HashJoin_Init_def settle_def hj_rows_def)
qed

lemma hash_source: "row_source (HashJoinExec leftKeys rightKeys L R) inv (hash_ready leftKeys rightKeys L R lready rready) hj_rows"
proof
  let ?E = "HashJoinExec leftKeys rightKeys L R"
  show "\<exists>w' s'. ex_Init ?E w s = (Inr (), w', s') \<and> inv w' \<and> hj_rows s' us"
    if "inv w" "hash_ready leftKeys rightKeys L R lready rready s us" for w s us
    using hash_init [OF that] by (simp add: HashJoinExec_def)
  show "\<exists>w' s'. ex_Next ?E w s = (Inr True, w', s') \<and> inv w' \<and> hj_rows s' us \<and> ex_Current ?E s' = Inr u"
    if a: "inv w" "hj_rows s (u # us)" for w s u us
    using a cursor_next [of "hj_tuples s" "hj_tIdx s" u us] by (simp add: hj_rows_def HashJoinExec_def)
  show "\<exists>w' s'. ex_Next ?E w s = (Inr False, w', s') \<and> inv w' \<and> ex_Error ?E s' = None" if "inv w" "hj_rows s []" for w s
    using that cursor_end [of "hj_tuples s" "hj_tIdx s"] by (simp add: hj_rows_def HashJoinExec_def)
  show "ex_Error ?E s = None" if "hj_rows s us" for s us using that by (simp add: hj_rows_def HashJoinExec_def)
qed

end

interpretation vjoin: join_sources "ValuesExec v1 s1 :: ('w, ValuesExecutor) Executor" "\<lambda>_. True" "values_ready v1 s1" "values_rows v1 s1"
    "ValuesExec v2 s2 :: ('w, ValuesExecutor) Executor" "values_ready v2 s2" "values_rows v2 s2" for v1 s1 v2 s2
  by (rule join_sources.intro) (rule vals.row_source_axioms)+

section \<open>Properties\<close>

text \<open>A row of one side: well formed, of the side's schema, with a key of the given types.\<close>

definition join_row :: "gtype list \<Rightarrow> gtype list \<Rightarrow> Expr list \<Rightarrow> Tuple \<Rightarrow> bool" where
  "join_row schema kt keys t \<longleftrightarrow> tuple_ok t \<and> tuple_types t = schema \<and> keys_ok kt keys t"

text \<open>The rows of a join: the columns of the left row, then those of the right row.\<close>

definition joined :: "(Tuple \<times> Tuple) list \<Rightarrow> Tuple list \<Rightarrow> bool" where
  "joined ps us \<longleftrightarrow> list_all2 (\<lambda>p u. tuple_has u (columns (fst p) @ columns (snd p))) ps us"

lemma merge_pairs:
  assumes "\<forall>p \<in> set ps. tuple_ok (fst p) \<and> tuple_types (fst p) = S1 \<and> tuple_ok (snd p) \<and> tuple_types (snd p) = S2"
    and "\<forall>p \<in> set ps. DeepCopy (fst p) leftDesc = Inr (copy (fst p))"
    and "NewRawTupleDesc S1 = Inr leftDesc" "NewRawTupleDesc (S1 @ S2) = Inr outDesc"
  shows "\<exists>us. mapR (merge_pair outDesc copy) ps = Inr us \<and> joined ps us"
  using assms(1,2)
proof (induction ps)
  case Nil
  show ?case by (simp add: joined_def)
next
  case (Cons p ps)
  have l: "tuple_ok (fst p)" "tuple_types (fst p) = S1" "tuple_ok (snd p)" "tuple_types (snd p) = S2" using Cons.prems(1) by simp_all
  obtain c where c: "DeepCopy (fst p) leftDesc = Inr c" "tuple_has c (columns (fst p))" "tuple_ok c" "tuple_types c = S1"
    using DeepCopy_ok [OF l(1) _ columns_ok(2) [OF l(1)], of leftDesc] l(2) assms(3) by auto
  have "copy (fst p) = c" using c(1) Cons.prems(2) by simp
  moreover obtain m where "MergeTuples (replicate (BytesPerTuple outDesc) 0) outDesc c (snd p) = Inr m" "tuple_has m (columns (fst p) @ columns (snd p))"
    using MergeTuples_columns [OF c(3) l(3) _ _ c(2) columns_ok(2) [OF l(3)], of outDesc "replicate (BytesPerTuple outDesc) 0"] c(4) l(4) assms(4) by auto
  ultimately show ?case using Cons by (auto simp: merge_pair_def joined_def)
qed

lemma nested_loop_rows: "p \<in> set (nested_loop leftKeys rightKeys ls rs) \<Longrightarrow> fst p \<in> set ls \<and> snd p \<in> set rs"
  by (auto simp: nested_loop_def)

text \<open>
  C16: Hash joins.  Over any two sources of well-formed rows of their schemas, whose keys
  evaluate to values that can be stored and have the types of the left key expressions,
  building a table from the left rows and probing it with the right ones
  succeeds, and the join then delivers the rows of the nested loop over both sides: for
  every right row in order, the left rows with an equal key and no null in it, each once
  per occurrence, with the columns of the left row followed by those of the right one.
\<close>

theorem hash_join_is_nested_loop:
  assumes src: "row_source L W lready lrows" "row_source R W rready rrows" and w: "W w"
    and desc: "NewRawTupleDesc (map OutputType leftKeys) = Inr keySchema" "NewRawTupleDesc (ex_Schema L) = Inr leftDesc"
      "NewRawTupleDesc (ex_Schema L @ ex_Schema R) = Inr outDesc"
    and ls: "lready l ls" "\<forall>t \<in> set ls. join_row (ex_Schema L) (map OutputType leftKeys) leftKeys t"
    and rs: "rready r rs" "\<forall>t \<in> set rs. join_row (ex_Schema R) (map OutputType leftKeys) rightKeys t"
  shows "\<exists>w' e' us. ex_Init (HashJoinExec leftKeys rightKeys L R) w (NewHashJoinExecutor l r) = (Inr (), w', e') \<and> W w' \<and> hj_rows e' us \<and>
    joined (nested_loop leftKeys rightKeys ls rs) us \<and>
    row_source (HashJoinExec leftKeys rightKeys L R) W (hash_ready leftKeys rightKeys L R lready rready) hj_rows"
proof -
  let ?copy = "\<lambda>t. projr (DeepCopy t leftDesc)"
  have c: "DeepCopy t leftDesc = Inr (?copy t)" if t: "t \<in> set ls" for t
  proof -
    have "tuple_ok t" "tuple_types t = ex_Schema L" using ls(2) t by (auto simp: join_row_def)
    then show ?thesis using DeepCopy_ok [OF _ _ columns_ok(2)] desc(2) by force
  qed
  obtain us where us: "mapR (merge_pair outDesc ?copy) (nested_loop leftKeys rightKeys ls rs) = Inr us" "joined (nested_loop leftKeys rightKeys ls rs) us"
    using merge_pairs [OF _ _ desc(2,3), of "nested_loop leftKeys rightKeys ls rs" ?copy] nested_loop_rows c ls(2) rs(2) unfolding join_row_def by blast
  have "hash_ready leftKeys rightKeys L R lready rready (NewHashJoinExecutor l r) us"
    unfolding hash_ready_def
    by (rule exI [of _ ls], rule exI [of _ rs], rule exI [of _ keySchema], rule exI [of _ leftDesc], rule exI [of _ outDesc], rule exI [of _ ?copy])
      (use ls rs desc c us(1) in \<open>auto simp: join_row_def NewHashJoinExecutor_def\<close>)
  from join_sources.hash_init [OF join_sources.intro [OF src] w this] us(2) join_sources.hash_source [OF join_sources.intro [OF src], of leftKeys rightKeys]
  show ?thesis by (auto simp: HashJoinExec_def)
qed

lemma demo_join_rows: "\<forall>t \<in> set (map (\<lambda>n. FromValues (Some [NewIntValue n])) [1, 2, 3, 4]). join_row [IntType] [IntType] [BoundValueExpr 0 IntType ''a''] t"
  by (simp add: join_row_def keys_ok_def tuple_ok_def FromValues_def extra_list_def value_wf_def storable_def NewIntValue_def zeroValue_def MinInt64_def
      tuple_types_def Tuple_GetValue_def nth_checked_def key_typed_def)

theorem hash_join_is_nested_loop_witness:
  "\<exists>w' e' us. ex_Init (HashJoinExec [BoundValueExpr 0 IntType ''a''] [BoundValueExpr 0 IntType ''a'']
       (ValuesExec demo_values [IntType]) (ValuesExec demo_values [IntType])) () (NewHashJoinExecutor NewValuesExecutor NewValuesExecutor) = (Inr (), w', e') \<and>
     hj_rows e' us \<and> length us = 4"
proof -
  let ?k = "[BoundValueExpr 0 IntType ''a'']" and ?ts = "map (\<lambda>n. FromValues (Some [NewIntValue n])) [1, 2, 3, 4]"
  have r: "values_ready demo_values [IntType] NewValuesExecutor ?ts" by (simp add: values_ready_def demo_values_def const_row_def)
  have s: "ex_Schema (ValuesExec demo_values [IntType] :: (unit, ValuesExecutor) Executor) = [IntType]" by (simp add: ValuesExec_def)
  obtain d1 where d1: "NewRawTupleDesc [IntType] = Inr d1" using NewRawTupleDesc_eq [of "[IntType]"] by (auto simp: total_size_def type_size_def size_defs)
  obtain d2 where d2: "NewRawTupleDesc [IntType, IntType] = Inr d2" using NewRawTupleDesc_eq [of "[IntType, IntType]"] by (auto simp: total_size_def type_size_def size_defs)
  have n: "length (nested_loop ?k ?k ?ts ?ts) = 4"
    by (simp add: nested_loop_def joins_def Tuple_GetValue_def FromValues_def extra_list_def nth_checked_def value_eq_def NewIntValue_def zeroValue_def)
  have o: "map OutputType ?k = [IntType]" by simp
  show ?thesis
    using hash_join_is_nested_loop [OF vals.row_source_axioms [of demo_values "[IntType]"] vals.row_source_axioms [of demo_values "[IntType]"], where w = "()" and leftKeys = ?k and rightKeys = ?k,
        unfolded s o, OF _ d1 d1 _ r _ r, of d2] demo_join_rows d2 n
    by (auto simp: joined_def dest!: list_all2_lengthD)
qed

end
