(* ===== verification/Block_Join.thy ===== *)
theory Block_Join
  imports Hash_Join
begin

text \<open>
  \<^verbatim>\<open>execution/block_nested_loop_join_executor.go\<close>: the join that buffers a block of left rows
  and reads the right side once per block.
\<close>

section \<open>The operator\<close>

record ('a, 'b) BlockNestedLoopJoinExecutor =
  bn_left :: 'a
  bn_right :: 'b
  maxTuplesInBlock :: int
  bn_leftTupDesc :: "RawTupleDesc option"
  bn_rightTupDesc :: "RawTupleDesc option"
  bn_tuples :: "Tuple list"
  bn_buf :: RawTuple
  bn_tIdx :: int
  bn_tup :: Tuple
  bn_err :: "fault option"
  leftExhausted :: bool

definition NewBlockNestedLoopJoinExecutor :: "'a \<Rightarrow> 'b \<Rightarrow> ('a, 'b) BlockNestedLoopJoinExecutor" where
  "NewBlockNestedLoopJoinExecutor left right =
     \<lparr>bn_left = left, bn_right = right, maxTuplesInBlock = 0, bn_leftTupDesc = None, bn_rightTupDesc = None, bn_tuples = [], bn_buf = [],
      bn_tIdx = 0, bn_tup = EmptyTuple, bn_err = None, leftExhausted = False\<rparr>"

definition blockSize :: int where "blockSize = 2 ^ 15"

text \<open>
  On a 64-bit machine a \<^verbatim>\<open>storage.Tuple\<close> takes 72 bytes (two slices of 24, a pointer of 8, a
  record identifier of 12, and padding), and the descriptor, whose size is taken for the data's,
  is a pointer.
\<close>

definition tupleOverhead :: int where "tupleOverhead = 72"
definition dataSize :: int where "dataSize = 8"

definition block_tuples :: int where "block_tuples = blockSize div (dataSize + tupleOverhead)"

text \<open>The loop of \<^verbatim>\<open>loadBuffer\<close> with the number of rows that still fit: the copies, and whether the left side ended.\<close>

primrec load_rows :: "('w, 'a) Executor \<Rightarrow> RawTupleDesc option \<Rightarrow> nat \<Rightarrow> 'w \<Rightarrow> 'a \<Rightarrow> Tuple list \<Rightarrow> (Tuple list \<times> bool) res \<times> ('w \<times> 'a)" where
  "load_rows L desc 0 w l ts = (Inr (ts, False), w, l)"
| "load_rows L desc (Suc n) w l ts =
     (let r = ex_Next L w l
      in case fst r of
           Inl f \<Rightarrow> (Inl f, snd r)
         | Inr found \<Rightarrow>
             if \<not> found then (Inr (ts, True), snd r)
             else (case bindR (ex_Current L (snd (snd r))) (\<lambda>t. case desc of None \<Rightarrow> Inl (Panic ''nil pointer dereference'') | Some d \<Rightarrow> DeepCopy t d) of
                     Inl f \<Rightarrow> (Inl f, snd r)
                   | Inr c \<Rightarrow> load_rows L desc n (fst (snd r)) (snd (snd r)) (ts @ [c])))"

definition loadBuffer :: "('w, 'a) Executor \<Rightarrow> 'w \<Rightarrow> ('a, 'b) BlockNestedLoopJoinExecutor \<Rightarrow> unit res \<times> ('w \<times> ('a, 'b) BlockNestedLoopJoinExecutor)" where
  "loadBuffer L w e =
     (case load_rows L (bn_leftTupDesc e) (nat (maxTuplesInBlock e)) w (bn_left e) [] of
        (Inl f, w', l) \<Rightarrow> (Inl f, w', e\<lparr>bn_left := l, bn_tuples := []\<rparr>)
      | (Inr (ts, ended), w', l) \<Rightarrow>
          (Inr (), w', e\<lparr>bn_left := l, bn_tuples := ts, leftExhausted := (leftExhausted e \<or> ended)\<rparr>))"

text \<open>The error of the right side's \<^verbatim>\<open>Init\<close> is returned but not recorded: the field gets the left side's, which is nil.\<close>

definition BNL_Init :: "('w, 'a) Executor \<Rightarrow> ('w, 'b) Executor \<Rightarrow> 'w \<Rightarrow> ('a, 'b) BlockNestedLoopJoinExecutor \<Rightarrow>
    unit res \<times> ('w \<times> ('a, 'b) BlockNestedLoopJoinExecutor)" where
  "BNL_Init L R w e =
     (case ex_Init L w (bn_left e) of
        (Inl f, w1, l1) \<Rightarrow> (Inl f, w1, e\<lparr>bn_left := l1, bn_err := Some f\<rparr>)
      | (Inr _, w1, l1) \<Rightarrow>
     (case ex_Init R w1 (bn_right e) of
        (Inl f, w2, r1) \<Rightarrow> (Inl f, w2, e\<lparr>bn_left := l1, bn_right := r1, bn_err := None\<rparr>)
      | (Inr _, w2, r1) \<Rightarrow>
     (case bindR (NewRawTupleDesc (ex_Schema L)) (\<lambda>ld. bindR (NewRawTupleDesc (ex_Schema R)) (\<lambda>rd. Inr (ld, rd))) of
        Inl f \<Rightarrow> (Inl f, w2, e\<lparr>bn_left := l1, bn_right := r1\<rparr>)
      | Inr (ld, rd) \<Rightarrow>
          let e1 = e\<lparr>bn_left := l1, bn_leftTupDesc := Some ld, bn_rightTupDesc := Some rd,
                     bn_buf := replicate (BytesPerTuple ld + BytesPerTuple rd) 0,
                     maxTuplesInBlock := block_tuples, bn_tuples := [], bn_tIdx := 0, leftExhausted := False\<rparr>
          in (case ex_Next R w2 r1 of
                (Inl f, w3, r2) \<Rightarrow> (Inl f, w3, e1\<lparr>bn_right := r2\<rparr>)
              | (Inr found, w3, r2) \<Rightarrow>
                  if found then loadBuffer L w3 (e1\<lparr>bn_right := r2\<rparr>) else (Inr (), w3, e1\<lparr>bn_right := r2\<rparr>)))))"

text \<open>A returned error is kept for \<^verbatim>\<open>Error\<close>; a panic, or a call that does not return, is not caught.\<close>

definition returned :: "fault \<Rightarrow> bool" where
  "returned f = (case f of Panic _ \<Rightarrow> False | Spins \<Rightarrow> False | _ \<Rightarrow> True)"

text \<open>The block is done for the current right row: the next right row, or the next block and the first right row again.\<close>

definition next_right :: "('w, 'a) Executor \<Rightarrow> ('w, 'b) Executor \<Rightarrow> 'w \<Rightarrow> ('a, 'b) BlockNestedLoopJoinExecutor \<Rightarrow>
    bool res \<times> ('w \<times> ('a, 'b) BlockNestedLoopJoinExecutor)" where
  "next_right L R w e0 =
     (let e = e0\<lparr>bn_tIdx := 0\<rparr>
      in case ex_Next R w (bn_right e) of
           (Inl f, w1, r1) \<Rightarrow> (Inl f, w1, e\<lparr>bn_right := r1\<rparr>)
         | (Inr found, w1, r1) \<Rightarrow>
             if found then (Inr True, w1, e\<lparr>bn_right := r1\<rparr>)
             else if leftExhausted e then (Inr False, w1, e\<lparr>bn_right := r1\<rparr>)
             else (case ex_Init R w1 r1 of
                     (Inl f, w2, r2) \<Rightarrow>
                       if returned f then (Inr False, w2, e\<lparr>bn_right := r2, bn_err := Some f\<rparr>) else (Inl f, w2, e\<lparr>bn_right := r2\<rparr>)
                   | (Inr _, w2, r2) \<Rightarrow>
                       (case ex_Next R w2 r2 of
                          (Inl f, w3, r3) \<Rightarrow> (Inl f, w3, e\<lparr>bn_right := r3\<rparr>)
                        | (Inr found2, w3, r3) \<Rightarrow>
                            if \<not> found2 then (Inr False, w3, e\<lparr>bn_right := r3\<rparr>)
                            else (case loadBuffer L w3 (e\<lparr>bn_right := r3\<rparr>) of
                                    (Inl f, st) \<Rightarrow> (Inl f, st)
                                  | (Inr _, st) \<Rightarrow> (Inr True, st)))))"

text \<open>A row passes the predicate unless it is null or zero.\<close>

definition passes :: "Expr \<Rightarrow> Tuple \<Rightarrow> bool res" where
  "passes predicate t = bindR (Eval predicate t) (\<lambda>val. if val_null val then Inr False else bindR (IntValue val) (\<lambda>n. Inr (n \<noteq> 0)))"

definition merge_current :: "Expr \<Rightarrow> ('w, 'a) Executor \<Rightarrow> ('w, 'b) Executor \<Rightarrow> ('a, 'b) BlockNestedLoopJoinExecutor \<Rightarrow> (Tuple \<times> bool) res" where
  "merge_current predicate L R e =
     bindR (NewRawTupleDesc (ex_Schema L @ ex_Schema R)) (\<lambda>desc.
     bindR (int_index (bn_tuples e) (bn_tIdx e)) (\<lambda>l.
     bindR (ex_Current R (bn_right e)) (\<lambda>r.
     bindR (MergeTuples (bn_buf e) desc l r) (\<lambda>m.
     bindR (passes predicate m) (\<lambda>ok. Inr (m, ok))))))"

partial_function (option) bnl_loop :: "Expr \<Rightarrow> ('w, 'a) Executor \<Rightarrow> ('w, 'b) Executor \<Rightarrow> 'w \<Rightarrow> ('a, 'b) BlockNestedLoopJoinExecutor \<Rightarrow>
    (bool res \<times> ('w \<times> ('a, 'b) BlockNestedLoopJoinExecutor)) option" where
  "bnl_loop predicate L R w e =
     (let a = (if bn_tIdx e \<ge> int (length (bn_tuples e)) then next_right L R w e else (Inr True, w, e))
      in case fst a of
           Inl f \<Rightarrow> Some (Inl f, snd a)
         | Inr go \<Rightarrow>
             if \<not> go then Some (Inr False, snd a)
             else (case merge_current predicate L R (snd (snd a)) of
                     Inl f \<Rightarrow> Some (Inl f, snd a)
                   | Inr (m, ok) \<Rightarrow>
                       let e' = (snd (snd a))\<lparr>bn_tup := m, bn_buf := tp_raw m, bn_tIdx := bn_tIdx (snd (snd a)) + 1\<rparr>
                       in if ok then Some (Inr True, fst (snd a), e') else bnl_loop predicate L R (fst (snd a)) e'))"

definition BNL_Next :: "Expr \<Rightarrow> ('w, 'a) Executor \<Rightarrow> ('w, 'b) Executor \<Rightarrow> 'w \<Rightarrow> ('a, 'b) BlockNestedLoopJoinExecutor \<Rightarrow>
    bool res \<times> ('w \<times> ('a, 'b) BlockNestedLoopJoinExecutor)" where
  "BNL_Next predicate L R w e =
     (if bn_tuples e = [] then (Inr False, w, e) else settle (w, e) (bnl_loop predicate L R w e))"

text \<open>The current row is a view into the buffer; \<open>view\<close> is what a string taken from an earlier row reads.\<close>

definition BNLExec :: "(('a, 'b) BlockNestedLoopJoinExecutor \<Rightarrow> Value \<Rightarrow> Value) \<Rightarrow> Expr \<Rightarrow> ('w, 'a) Executor \<Rightarrow> ('w, 'b) Executor \<Rightarrow>
    ('w, ('a, 'b) BlockNestedLoopJoinExecutor) Executor" where
  "BNLExec view predicate L R =
     \<lparr>ex_Schema = ex_Schema L @ ex_Schema R,
      ex_Init = BNL_Init L R,
      ex_Next = BNL_Next predicate L R,
      ex_Current = (\<lambda>e. Inr (bn_tup e)),
      ex_Error = bn_err,
      ex_Close = (\<lambda>w e. let (r, w', l, r') = close_both L R w (bn_left e) (bn_right e)
                        in (r, w', e\<lparr>bn_left := l, bn_right := r', bn_buf := [], bn_tuples := [], bn_err := fault_of r (bn_err e)\<rparr>)),
      ex_Reread = view\<rparr>"


section \<open>Merging into a used buffer\<close>

text \<open>Every byte of the buffer is overwritten, so what a merge leaves does not depend on what the last one left.\<close>

lemma write_values_append: "write_values d i (us @ vs) buf = bindR (write_values d i us buf) (write_values d (i + length us) vs)"
  by (induction us arbitrary: i buf) (auto simp: bindR_def split: sum.splits)

definition merges :: "RawTupleDesc \<Rightarrow> Tuple \<Rightarrow> Tuple \<Rightarrow> Tuple \<Rightarrow> bool" where
  "merges d l r m \<longleftrightarrow> (\<forall>buf. length buf = rd_bytes d \<longrightarrow> MergeTuples buf d l r = Inr m) \<and> length (tp_raw m) = rd_bytes d"

lemma merge_overwrites:
  assumes ok: "tuple_ok l" "tuple_ok r" and d: "NewRawTupleDesc (tuple_types l @ tuple_types r) = Inr d" and has: "tuple_has l lvs" "tuple_has r rvs"
  obtains m where "merges d l r m" "tuple_has m (lvs @ rvs)"
proof -
  have wf: "wf_desc d" "rd_fields d = tuple_types l @ tuple_types r" using NewRawTupleDesc_wf [OF d] by auto
  let ?z = "replicate (rd_bytes d) 0"
  obtain m where m: "MergeTuples ?z d l r = Inr m" "tuple_has m (lvs @ rvs)" "length (tp_raw m) = rd_bytes d"
    using MergeTuples_columns [OF ok d _ has, of ?z] by (auto simp: BytesPerTuple_def)
  have "MergeTuples buf d l r = MergeTuples ?z d l r" if b: "length buf = rd_bytes d" for buf
  proof (cases "tp_extra l = None \<and> tp_extra r = None")
    case True
    have "length (tp_raw x) = total_size (tuple_types x)" if "tuple_ok x" "tp_extra x = None" for x
      using that by (auto simp: tuple_ok_def tuple_types_def wf_desc_def extra_list_def split: option.splits)
    then have "length (tp_raw l) + length (tp_raw r) = rd_bytes d" using ok True wf by (simp add: wf_desc_def)
    then show ?thesis using True b by (simp add: MergeTuples_def BytesPerTuple_def from_checked_def go_copy_put_at put_at_def)
  next
    case False
    have n: "NumColumns l = length (columns l)" using columns_ok(5) [OF ok(1)] by simp
    have w: "write_values d 0 (columns l @ columns r) b' = Inr (key_bytes (columns l @ columns r))" if "length b' = rd_bytes d" for b'
      by (rule write_values_bytes [where pre = "[]" and b = "[]", simplified])
        (use wf that columns_ok(3,4) [OF ok(1)] columns_ok(3,4) [OF ok(2)] in \<open>auto simp: wf_desc_def\<close>)
    have "bindR (write_values d 0 (columns l) b') (write_values d (NumColumns l) (columns r)) = Inr (key_bytes (columns l @ columns r))"
      if "length b' = rd_bytes d" for b' using w [OF that] by (simp add: write_values_append n)
    then show ?thesis using b unfolding MergeTuples_def if_not_P [OF False]
      by (simp add: BytesPerTuple_def columns_ok(1) [OF ok(1)] columns_ok(1) [OF ok(2)])
  qed
  then have "merges d l r m" using m by (auto simp: merges_def)
  then show thesis using that m(2) by blast
qed

definition merged :: "RawTupleDesc \<Rightarrow> Tuple \<times> Tuple \<Rightarrow> Tuple" where
  "merged d x = projr (MergeTuples (replicate (rd_bytes d) 0) d (fst x) (snd x))"

lemma merges_merged: "merges d l r m \<Longrightarrow> merged d (l, r) = m"
  by (simp add: merges_def merged_def)


section \<open>The pairs in the order of the loop\<close>

definition pairs :: "'a list \<Rightarrow> 'b list \<Rightarrow> ('a \<times> 'b) list" where
  "pairs ls rs = concat (map (\<lambda>r. map (\<lambda>l. (l, r)) ls) rs)"

lemma pairs_simps [simp]: "pairs ls [] = []" "pairs [] rs = []" "pairs ls (r # rs) = map (\<lambda>l. (l, r)) ls @ pairs ls rs"
  "set (pairs ls rs) = set ls \<times> set rs"
  by (auto simp: pairs_def)

lemma pairs_empty [simp]: "pairs ls rs = [] \<longleftrightarrow> ls = [] \<or> rs = []"
  by (cases rs; cases ls) auto

lemma pairs_append: "mset (pairs (ls @ ls') rs) = mset (pairs ls rs) + mset (pairs ls' rs)"
  by (induction rs) auto

fun blocks :: "nat \<Rightarrow> 'a list \<Rightarrow> 'b list \<Rightarrow> ('a \<times> 'b) list" where
  "blocks n ls rs = (if n = 0 \<or> ls = [] then [] else pairs (take n ls) rs @ blocks n (drop n ls) rs)"

declare blocks.simps [simp del]

lemma blocks_Nil [simp]: "blocks n [] rs = []" by (simp add: blocks.simps)

lemma blocks_next: "0 < n \<Longrightarrow> ls \<noteq> [] \<Longrightarrow> blocks n ls rs = pairs (take n ls) rs @ blocks n (drop n ls) rs"
  by (simp add: blocks.simps [of n ls])

lemma blocks_mset: "0 < n \<Longrightarrow> mset (blocks n ls rs) = mset (pairs ls rs)"
proof (induction n ls rs rule: blocks.induct)
  case (1 n ls rs)
  show ?case
  proof (cases "ls = []")
    case False
    have "mset (pairs (take n ls @ drop n ls) rs) = mset (pairs (take n ls) rs) + mset (pairs (drop n ls) rs)" by (rule pairs_append)
    then show ?thesis using 1 False by (simp add: blocks_next)
  qed simp
qed

lemma blocks_map: "blocks n (map f ls) rs = map (\<lambda>(l, r). (f l, r)) (blocks n ls rs)"
proof (induction n ls rs rule: blocks.induct)
  case (1 n ls rs)
  have "pairs (map f xs) rs = map (\<lambda>(l, r). (f l, r)) (pairs xs rs)" for xs by (induction rs) simp_all
  then show ?case using 1 by (cases "n = 0 \<or> ls = []") (simp_all add: blocks.simps [of n ls] blocks.simps [of n "map f ls"] take_map drop_map)
qed


section \<open>The rows of the join\<close>

definition block_n :: nat where "block_n = nat block_tuples"

lemma block_n_pos: "0 < block_n" "int block_n = block_tuples"
  by (simp_all add: block_n_def block_tuples_def blockSize_def dataSize_def tupleOverhead_def)

text \<open>The pairs that are still to be looked at, those of the current block first.\<close>

definition bn_todo :: "('w, 'b) Executor \<Rightarrow> ('a \<Rightarrow> Tuple list \<Rightarrow> bool) \<Rightarrow> ('b \<Rightarrow> Tuple list \<Rightarrow> bool) \<Rightarrow> RawTupleDesc \<Rightarrow> Tuple list \<Rightarrow>
    ('a, 'b) BlockNestedLoopJoinExecutor \<Rightarrow> (Tuple \<times> Tuple) list \<Rightarrow> bool" where
  "bn_todo R lrows rrows d rs e ps \<longleftrightarrow>
     bn_err e = None \<and> bn_tuples e \<noteq> [] \<and> 0 \<le> bn_tIdx e \<and> maxTuplesInBlock e = block_tuples \<and> length (bn_buf e) = rd_bytes d \<and>
     (\<exists>ld cs r rs'. bn_leftTupDesc e = Some ld \<and> rrows (bn_right e) rs' \<and> ex_Current R (bn_right e) = Inr r \<and>
        (if leftExhausted e then cs = []
         else \<exists>ls. lrows (bn_left e) ls \<and> mapR (\<lambda>l. DeepCopy l ld) ls = Inr cs \<and> \<not> block_n dvd length ls) \<and>
        ps = pairs (drop (nat (bn_tIdx e)) (bn_tuples e)) [r] @ pairs (bn_tuples e) rs' @ blocks block_n cs rs)"

lemma bn_todoI:
  assumes "bn_err e = None" "bn_leftTupDesc e = Some ld" "rrows (bn_right e) rs'" "ex_Current R (bn_right e) = Inr r"
    "if leftExhausted e then cs = [] else \<exists>ls. lrows (bn_left e) ls \<and> mapR (\<lambda>l. DeepCopy l ld) ls = Inr cs \<and> \<not> block_n dvd length ls"
    "bn_tuples e \<noteq> []" "0 \<le> bn_tIdx e" "maxTuplesInBlock e = block_tuples" "length (bn_buf e) = rd_bytes d"
    "ps = pairs (drop (nat (bn_tIdx e)) (bn_tuples e)) [r] @ pairs (bn_tuples e) rs' @ blocks block_n cs rs"
  shows "bn_todo R lrows rrows d rs e ps"
  unfolding bn_todo_def using assms by blast

definition pair_ok :: "Expr \<Rightarrow> RawTupleDesc \<Rightarrow> Tuple \<times> Tuple \<Rightarrow> bool" where
  "pair_ok p d x \<longleftrightarrow> merges d (fst x) (snd x) (merged d x) \<and> (\<exists>b. passes p (merged d x) = Inr b)"

definition passing :: "Expr \<Rightarrow> RawTupleDesc \<Rightarrow> (Tuple \<times> Tuple) list \<Rightarrow> (Tuple \<times> Tuple) list" where
  "passing p d ps = filter (\<lambda>x. passes p (merged d x) = Inr True) ps"

text \<open>After its end, the right side can be started again for the same rows.\<close>

definition rewinds :: "('w, 'b) Executor \<Rightarrow> ('b \<Rightarrow> Tuple list \<Rightarrow> bool) \<Rightarrow> ('b \<Rightarrow> Tuple list \<Rightarrow> bool) \<Rightarrow> Tuple list \<Rightarrow> bool" where
  "rewinds R rready rrows rs \<longleftrightarrow> (\<forall>w s w' s'. rrows s [] \<longrightarrow> ex_Next R w s = (Inr False, w', s') \<longrightarrow> rready s' rs)"

definition bn_rows :: "Expr \<Rightarrow> ('w, 'b) Executor \<Rightarrow> ('a \<Rightarrow> Tuple list \<Rightarrow> bool) \<Rightarrow> ('b \<Rightarrow> Tuple list \<Rightarrow> bool) \<Rightarrow> ('b \<Rightarrow> Tuple list \<Rightarrow> bool) \<Rightarrow> RawTupleDesc \<Rightarrow>
    ('a, 'b) BlockNestedLoopJoinExecutor \<Rightarrow> Tuple list \<Rightarrow> bool" where
  "bn_rows p R lrows rready rrows d e us \<longleftrightarrow>
     bn_tuples e = [] \<and> bn_err e = None \<and> us = [] \<or>
     (\<exists>rs ps. rs \<noteq> [] \<and> rewinds R rready rrows rs \<and> bn_todo R lrows rrows d rs e ps \<and> (\<forall>x \<in> set ps. pair_ok p d x) \<and>
        us = map (merged d) (passing p d ps))"

lemma bn_rowsE:
  assumes "bn_rows p R lrows rready rrows d e us"
  obtains (nothing) "bn_tuples e = []" "bn_err e = None" "us = []"
  | (todo) rs ps where "rs \<noteq> []" "rewinds R rready rrows rs" "bn_todo R lrows rrows d rs e ps" "\<forall>x \<in> set ps. pair_ok p d x"
      "us = map (merged d) (passing p d ps)" "bn_tuples e \<noteq> []"
proof -
  have "bn_tuples e \<noteq> []" if "bn_todo R lrows rrows d rs e ps" for rs ps using that by (simp add: bn_todo_def)
  then show thesis using assms that unfolding bn_rows_def by (elim disjE exE conjE) simp_all
qed

text \<open>
  A left side whose rows fill whole blocks is left out: see \<open>full_blocks_panic\<close> below.
\<close>

definition bn_ready :: "Expr \<Rightarrow> ('w, 'a) Executor \<Rightarrow> ('w, 'b) Executor \<Rightarrow> ('a \<Rightarrow> Tuple list \<Rightarrow> bool) \<Rightarrow> ('b \<Rightarrow> Tuple list \<Rightarrow> bool) \<Rightarrow> ('b \<Rightarrow> Tuple list \<Rightarrow> bool) \<Rightarrow>
    RawTupleDesc \<Rightarrow> ('a, 'b) BlockNestedLoopJoinExecutor \<Rightarrow> Tuple list \<Rightarrow> bool" where
  "bn_ready p L R lready rready rrows d e us \<longleftrightarrow>
     (\<exists>ls rs ld rd cs. lready (bn_left e) ls \<and> rready (bn_right e) rs \<and> bn_err e = None \<and>
        NewRawTupleDesc (ex_Schema L) = Inr ld \<and> NewRawTupleDesc (ex_Schema R) = Inr rd \<and> NewRawTupleDesc (ex_Schema L @ ex_Schema R) = Inr d \<and>
        (ls = [] \<or> \<not> block_n dvd length ls) \<and> rewinds R rready rrows rs \<and>
        mapR (\<lambda>l. DeepCopy l ld) ls = Inr cs \<and> (\<forall>x \<in> set (pairs cs rs). pair_ok p d x) \<and>
        us = map (merged d) (passing p d (blocks block_n cs rs)))"

context row_source
begin

lemma load_rows_take:
  assumes "inv w" "rows l ls" "mapR (\<lambda>t. DeepCopy t ld) ls = Inr cs"
  shows "\<exists>w' l'. load_rows E (Some ld) k w l ts = (Inr (ts @ take k cs, length ls < k), w', l') \<and> inv w' \<and> (k \<le> length ls \<longrightarrow> rows l' (drop k ls))"
  using assms
proof (induction k arbitrary: w l ls cs ts)
  case (Suc k)
  show ?case
  proof (cases ls)
    case Nil
    then show ?thesis using end_law [OF Suc.prems(1)] Suc.prems(2,3) by fastforce
  next
    case (Cons t ls')
    obtain w1 l1 where n: "ex_Next E w l = (Inr True, w1, l1)" "inv w1" "rows l1 ls'" "ex_Current E l1 = Inr t"
      using next_law [OF Suc.prems(1)] Suc.prems(2) Cons by blast
    obtain c cs' where c: "DeepCopy t ld = Inr c" "mapR (\<lambda>t. DeepCopy t ld) ls' = Inr cs'" "cs = c # cs'"
      using Suc.prems(3) Cons by (auto simp: bindR_eq_Inr)
    show ?thesis using Suc.IH [OF n(2,3) c(2), of "ts @ [c]"] n c Cons by simp
  qed
qed simp

end

context join_sources
begin

lemma loadBuffer_block:
  assumes "inv w" "lrows (bn_left e) ls" "bn_leftTupDesc e = Some ld" "maxTuplesInBlock e = block_tuples"
    "mapR (\<lambda>t. DeepCopy t ld) ls = Inr cs"
  shows "\<exists>w' l'. loadBuffer L w e = (Inr (), w', e\<lparr>bn_left := l', bn_tuples := take block_n cs, leftExhausted := (leftExhausted e \<or> length ls < block_n)\<rparr>) \<and>
    inv w' \<and> (block_n \<le> length ls \<longrightarrow> lrows l' (drop block_n ls))"
  using left.load_rows_take [OF assms(1,2,5), of block_n "[]"] assms(3,4) by (auto simp: loadBuffer_def block_n_def)

lemma mapR_drop: "mapR f xs = Inr ys \<Longrightarrow> mapR f (drop n xs) = Inr (drop n ys)"
  by (induction xs arbitrary: n ys) (auto simp: bindR_eq_Inr drop_Cons split: nat.splits)

lemma next_right_todo:
  assumes w: "inv w" and e: "bn_todo R lrows rrows d rs e ps" "ps \<noteq> []" "bn_tIdx e \<ge> int (length (bn_tuples e))"
    and rs: "rs \<noteq> []" "rewinds R rready rrows rs"
  shows "\<exists>w' e'. next_right L R w e = (Inr True, w', e') \<and> inv w' \<and> bn_todo R lrows rrows d rs e' ps \<and> bn_tIdx e' = 0"
proof -
  obtain ld cs r rs' where t: "bn_leftTupDesc e = Some ld" "rrows (bn_right e) rs'"
      "if leftExhausted e then cs = [] else \<exists>ls. lrows (bn_left e) ls \<and> mapR (\<lambda>l. DeepCopy l ld) ls = Inr cs \<and> \<not> block_n dvd length ls"
      "ps = pairs (bn_tuples e) rs' @ blocks block_n cs rs"
    using e(1,3) by (fastforce simp: bn_todo_def)
  have b: "bn_err e = None" "bn_tuples e \<noteq> []" "maxTuplesInBlock e = block_tuples" "length (bn_buf e) = rd_bytes d" using e(1) by (simp_all add: bn_todo_def)
  show ?thesis
  proof (cases rs')
    case (Cons r1 rs1)
    obtain w1 s1 where n: "ex_Next R w (bn_right e) = (Inr True, w1, s1)" "inv w1" "rrows s1 rs1" "ex_Current R s1 = Inr r1"
      using right.next_law [OF w] t(2) Cons by blast
    let ?e = "e\<lparr>bn_tIdx := 0, bn_right := s1\<rparr>"
    have "bn_todo R lrows rrows d rs ?e ps" by (rule bn_todoI [where ld = ld and rs' = rs1 and r = r1 and cs = cs]) (use t n Cons b in auto)
    then show ?thesis using n by (auto simp: next_right_def)
  next
    case Nil
    then have "cs \<noteq> []" using t(4) e(2) by auto
    then obtain ls where ls: "\<not> leftExhausted e" "lrows (bn_left e) ls" "mapR (\<lambda>l. DeepCopy l ld) ls = Inr cs" "\<not> block_n dvd length ls"
      using t(3) by (auto split: if_splits)
    obtain w1 s1 where n: "ex_Next R w (bn_right e) = (Inr False, w1, s1)" "inv w1" using right.end_law [OF w] t(2) Nil by blast
    have "rready s1 rs" using rs(2) t(2) n(1) Nil by (auto simp: rewinds_def)
    then obtain w2 s2 where i: "ex_Init R w1 s1 = (Inr (), w2, s2)" "inv w2" "rrows s2 rs" using right.init_law [OF n(2)] by blast
    obtain r0 rs0 where r0: "rs = r0 # rs0" using rs(1) by (cases rs) auto
    obtain w3 s3 where n3: "ex_Next R w2 s2 = (Inr True, w3, s3)" "inv w3" "rrows s3 rs0" "ex_Current R s3 = Inr r0"
      using right.next_law [OF i(2)] i(3) r0 by blast
    let ?e = "e\<lparr>bn_tIdx := 0, bn_right := s3\<rparr>"
    obtain w4 l4 where l4: "loadBuffer L w3 ?e = (Inr (), w4, ?e\<lparr>bn_left := l4, bn_tuples := take block_n cs, leftExhausted := (length ls < block_n)\<rparr>)"
        "inv w4" "block_n \<le> length ls \<Longrightarrow> lrows l4 (drop block_n ls)"
      using loadBuffer_block [OF n3(2), of ?e ls ld cs] ls t(1) b(3) by auto
    have "length cs = length ls" using ls(3) by (rule mapR_length)
    moreover have "\<not> block_n dvd length ls - block_n" if "block_n \<le> length ls" using ls(4) dvd_diffD [OF _ dvd_refl that] by blast
    ultimately have "bn_todo R lrows rrows d rs (?e\<lparr>bn_left := l4, bn_tuples := take block_n cs, leftExhausted := (length ls < block_n)\<rparr>) ps"
      by (intro bn_todoI [where ld = ld and rs' = rs0 and r = r0 and cs = "drop block_n cs"])
        (use l4(3) n3 b t(1,4) Nil \<open>cs \<noteq> []\<close> block_n_pos(1) mapR_drop [OF ls(3), of block_n] r0 in
          \<open>auto simp: blocks_next not_less intro!: exI [of _ "drop block_n ls"]\<close>)
    then show ?thesis using n i n3 l4 ls(1) by (auto simp: next_right_def)
  qed
qed

lemma next_right_end:
  assumes w: "inv w" and e: "bn_todo R lrows rrows d rs e []" and rs: "rs \<noteq> []"
  shows "\<exists>w' e'. next_right L R w e = (Inr False, w', e') \<and> inv w' \<and> bn_err e' = None \<and> bn_tIdx e \<ge> int (length (bn_tuples e))"
proof -
  obtain ld cs r rs' where t: "rrows (bn_right e) rs'"
      "if leftExhausted e then cs = [] else \<exists>ls. lrows (bn_left e) ls \<and> mapR (\<lambda>l. DeepCopy l ld) ls = Inr cs \<and> \<not> block_n dvd length ls"
      "[] = pairs (drop (nat (bn_tIdx e)) (bn_tuples e)) [r] @ pairs (bn_tuples e) rs' @ blocks block_n cs rs"
    using e by (auto simp: bn_todo_def)
  have "rs' = []" "blocks block_n cs rs = []" using t(3) e by (auto simp: bn_todo_def)
  then have "cs = []" using blocks_next [OF block_n_pos(1), of cs rs] rs block_n_pos(1) by (cases "cs = []") auto
  have "leftExhausted e"
  proof (rule ccontr)
    assume "\<not> leftExhausted e"
    then obtain ls where "mapR (\<lambda>l. DeepCopy l ld) ls = Inr cs" "\<not> block_n dvd length ls" using t(2) by auto
    then show False using mapR_length [of "\<lambda>l. DeepCopy l ld" ls cs] \<open>cs = []\<close> by simp
  qed
  moreover obtain w1 s1 where "ex_Next R w (bn_right e) = (Inr False, w1, s1)" "inv w1" using right.end_law [OF w] t(1) \<open>rs' = []\<close> by blast
  moreover have "bn_tIdx e \<ge> int (length (bn_tuples e))" "bn_err e = None" using t(3) e by (auto simp: bn_todo_def)
  ultimately show ?thesis by (auto simp: next_right_def)
qed

lemma emit_todo:
  assumes e: "bn_todo R lrows rrows d rs e (x # ps)" "bn_tIdx e < int (length (bn_tuples e))"
    and d: "NewRawTupleDesc (ex_Schema L @ ex_Schema R) = Inr d" and x: "merges d (fst x) (snd x) m" "passes p m = Inr b"
  shows "merge_current p L R e = Inr (m, b)" "bn_todo R lrows rrows d rs (e\<lparr>bn_tup := m, bn_buf := tp_raw m, bn_tIdx := bn_tIdx e + 1\<rparr>) ps"
proof -
  obtain ld cs r rs' where t: "bn_leftTupDesc e = Some ld" "rrows (bn_right e) rs'" "ex_Current R (bn_right e) = Inr r"
      "if leftExhausted e then cs = [] else \<exists>ls. lrows (bn_left e) ls \<and> mapR (\<lambda>l. DeepCopy l ld) ls = Inr cs \<and> \<not> block_n dvd length ls"
      "x # ps = pairs (drop (nat (bn_tIdx e)) (bn_tuples e)) [r] @ pairs (bn_tuples e) rs' @ blocks block_n cs rs"
    using e(1) by (auto simp: bn_todo_def)
  have b: "bn_err e = None" "bn_tuples e \<noteq> []" "0 \<le> bn_tIdx e" "maxTuplesInBlock e = block_tuples" "length (bn_buf e) = rd_bytes d"
    using e(1) by (simp_all add: bn_todo_def)
  let ?i = "nat (bn_tIdx e)"
  have i: "?i < length (bn_tuples e)" "nat (bn_tIdx e + 1) = Suc ?i" using b(3) e(2) by simp_all
  have dr: "drop ?i (bn_tuples e) = bn_tuples e ! ?i # drop (Suc ?i) (bn_tuples e)" using i(1) by (simp add: Cons_nth_drop_Suc)
  then have xr: "x = (bn_tuples e ! ?i, r)" "ps = pairs (drop (Suc ?i) (bn_tuples e)) [r] @ pairs (bn_tuples e) rs' @ blocks block_n cs rs"
    using t(5) by simp_all
  have "MergeTuples (bn_buf e) d (bn_tuples e ! ?i) r = Inr m" "length (tp_raw m) = rd_bytes d" using x(1) b(5) xr(1) by (simp_all add: merges_def)
  then show "merge_current p L R e = Inr (m, b)" using d t(3) x(2) i(1) b(3) by (simp add: merge_current_def int_index_def)
  show "bn_todo R lrows rrows d rs (e\<lparr>bn_tup := m, bn_buf := tp_raw m, bn_tIdx := bn_tIdx e + 1\<rparr>) ps"
    by (rule bn_todoI [where ld = ld and rs' = rs' and r = r and cs = cs])
      (use t(1-4) b xr(2) i(2) \<open>length (tp_raw m) = rd_bytes d\<close> in simp_all)
qed

lemma bnl_loop_step:
  assumes w: "inv w" and e: "bn_todo R lrows rrows d rs e (x # ps)" and rs: "rs \<noteq> []" "rewinds R rready rrows rs"
    and d: "NewRawTupleDesc (ex_Schema L @ ex_Schema R) = Inr d" and x: "merges d (fst x) (snd x) m" "passes p m = Inr b"
  shows "\<exists>w' e'. bnl_loop p L R w e = (if b then Some (Inr True, w', e') else bnl_loop p L R w' e') \<and> inv w' \<and>
    bn_todo R lrows rrows d rs e' ps \<and> bn_tup e' = m"
proof (cases "bn_tIdx e \<ge> int (length (bn_tuples e))")
  case True
  obtain w1 e1 where n: "next_right L R w e = (Inr True, w1, e1)" "inv w1" "bn_todo R lrows rrows d rs e1 (x # ps)" "bn_tIdx e1 = 0"
    using next_right_todo [OF w e _ True rs] by auto
  have "bn_tIdx e1 < int (length (bn_tuples e1))" using n(3,4) by (simp add: bn_todo_def)
  note emit = emit_todo [OF n(3) this d x]
  show ?thesis using emit n True by (subst bnl_loop.simps) (auto simp: Let_def intro!: exI [of _ w1])
next
  case False
  then have "bn_tIdx e < int (length (bn_tuples e))" by simp
  note emit = emit_todo [OF e this d x]
  show ?thesis using emit w False by (subst bnl_loop.simps) (auto simp: Let_def intro!: exI [of _ w])
qed

lemma bnl_loop_end:
  assumes "inv w" "bn_todo R lrows rrows d rs e []" "rs \<noteq> []"
  shows "\<exists>w' e'. bnl_loop p L R w e = Some (Inr False, w', e') \<and> inv w' \<and> bn_err e' = None"
  using next_right_end [OF assms] by (subst bnl_loop.simps) (auto simp: Let_def)

lemma bnl_loop_rows:
  assumes w: "inv w" and e: "bn_todo R lrows rrows d rs e ps" "\<forall>x \<in> set ps. pair_ok p d x" and rs: "rs \<noteq> []" "rewinds R rready rrows rs"
    and d: "NewRawTupleDesc (ex_Schema L @ ex_Schema R) = Inr d"
  shows "case passing p d ps of
      [] \<Rightarrow> \<exists>w' e'. bnl_loop p L R w e = Some (Inr False, w', e') \<and> inv w' \<and> bn_err e' = None
    | x # xs \<Rightarrow> \<exists>w' e' ps'. bnl_loop p L R w e = Some (Inr True, w', e') \<and> inv w' \<and> bn_todo R lrows rrows d rs e' ps' \<and>
        (\<forall>x \<in> set ps'. pair_ok p d x) \<and> passing p d ps' = xs \<and> bn_tup e' = merged d x"
  using w e
proof (induction ps arbitrary: w e)
  case Nil
  then show ?case using bnl_loop_end rs(1) by (simp add: passing_def)
next
  case (Cons x ps)
  obtain b where x: "merges d (fst x) (snd x) (merged d x)" "passes p (merged d x) = Inr b" using Cons.prems(3) by (auto simp: pair_ok_def)
  obtain w1 e1 where s: "bnl_loop p L R w e = (if b then Some (Inr True, w1, e1) else bnl_loop p L R w1 e1)" "inv w1"
      "bn_todo R lrows rrows d rs e1 ps" "bn_tup e1 = merged d x"
    using bnl_loop_step [OF Cons.prems(1,2) rs d x] by blast
  show ?case
  proof (cases b)
    case True
    then show ?thesis using s x Cons.prems(3) by (auto simp: passing_def)
  next
    case False
    then have eq: "passing p d (x # ps) = passing p d ps" "bnl_loop p L R w e = bnl_loop p L R w1 e1" using x s by (simp_all add: passing_def)
    have "\<forall>x \<in> set ps. pair_ok p d x" using Cons.prems(3) by simp
    then show ?thesis unfolding eq by (rule Cons.IH [OF s(2,3)])
  qed
qed

lemma block_init:
  assumes w: "inv w" and e: "bn_ready p L R lready rready rrows d e us"
  shows "\<exists>w' e'. BNL_Init L R w e = (Inr (), w', e') \<and> inv w' \<and> bn_rows p R lrows rready rrows d e' us"
proof -
  obtain ls rs ld rd cs where r: "lready (bn_left e) ls" "rready (bn_right e) rs" "bn_err e = None"
      "NewRawTupleDesc (ex_Schema L) = Inr ld" "NewRawTupleDesc (ex_Schema R) = Inr rd" "NewRawTupleDesc (ex_Schema L @ ex_Schema R) = Inr d"
      "ls = [] \<or> \<not> block_n dvd length ls" "rewinds R rready rrows rs"
      "mapR (\<lambda>l. DeepCopy l ld) ls = Inr cs" "\<forall>x \<in> set (pairs cs rs). pair_ok p d x" "us = map (merged d) (passing p d (blocks block_n cs rs))"
    using e unfolding bn_ready_def by blast
  have bytes: "BytesPerTuple ld + BytesPerTuple rd = rd_bytes d"
    using NewRawTupleDesc_wf [OF r(4)] NewRawTupleDesc_wf [OF r(5)] NewRawTupleDesc_wf [OF r(6)] by (simp add: BytesPerTuple_def wf_desc_def)
  obtain w1 l1 where 1: "ex_Init L w (bn_left e) = (Inr (), w1, l1)" "inv w1" "lrows l1 ls" using left.init_law [OF w r(1)] by blast
  obtain w2 r1 where 2: "ex_Init R w1 (bn_right e) = (Inr (), w2, r1)" "inv w2" "rrows r1 rs" using right.init_law [OF 1(2) r(2)] by blast
  let ?e = "e\<lparr>bn_left := l1, bn_leftTupDesc := Some ld, bn_rightTupDesc := Some rd, bn_buf := replicate (BytesPerTuple ld + BytesPerTuple rd) 0,
      maxTuplesInBlock := block_tuples, bn_tuples := [], bn_tIdx := 0, leftExhausted := False\<rparr>"
  show ?thesis
  proof (cases rs)
    case Nil
    then obtain w3 r2 where "ex_Next R w2 r1 = (Inr False, w3, r2)" "inv w3" using right.end_law [OF 2(2)] 2(3) by blast
    moreover have "us = []" using r(11) Nil set_mset_mset [of "blocks block_n cs ([] :: Tuple list)"] blocks_mset [OF block_n_pos(1), of cs "[] :: Tuple list"]
      by (simp add: passing_def)
    ultimately show ?thesis using 1 2 r by (simp add: BNL_Init_def bn_rows_def)
  next
    case (Cons r0 rs0)
    then obtain w3 r2 where n: "ex_Next R w2 r1 = (Inr True, w3, r2)" "inv w3" "rrows r2 rs0" "ex_Current R r2 = Inr r0"
      using right.next_law [OF 2(2)] 2(3) by blast
    obtain w4 l4 where b: "loadBuffer L w3 (?e\<lparr>bn_right := r2\<rparr>) =
        (Inr (), w4, ?e\<lparr>bn_right := r2, bn_left := l4, bn_tuples := take block_n cs, leftExhausted := (length ls < block_n)\<rparr>)"
        "inv w4" "block_n \<le> length ls \<Longrightarrow> lrows l4 (drop block_n ls)"
      using loadBuffer_block [OF n(2), of "?e\<lparr>bn_right := r2\<rparr>" ls ld cs] 1(3) r(9) by auto
    let ?e' = "?e\<lparr>bn_right := r2, bn_left := l4, bn_tuples := take block_n cs, leftExhausted := (length ls < block_n)\<rparr>"
    have i: "BNL_Init L R w e = (Inr (), w4, ?e')" using 1 2 n b(1) r(4,5) by (simp add: BNL_Init_def Let_def)
    have len: "length cs = length ls" using r(9) by (rule mapR_length)
    have "bn_rows p R lrows rready rrows d ?e' us"
    proof (cases "cs = []")
      case True
      then show ?thesis using r(3,11) by (simp add: bn_rows_def passing_def)
    next
      case False
      then have nd: "\<not> block_n dvd length ls - block_n" if "block_n \<le> length ls" using r(7) len dvd_diffD [OF _ dvd_refl that] by force
      have "bn_todo R lrows rrows d rs ?e' (blocks block_n cs rs)"
        by (intro bn_todoI [where ld = ld and rs' = rs0 and r = r0 and cs = "drop block_n cs"])
          (use b(3) n r(3) bytes Cons False block_n_pos(1) mapR_drop [OF r(9), of block_n] len nd in
            \<open>auto simp: blocks_next not_less intro!: exI [of _ "drop block_n ls"]\<close>)
      moreover have "set (blocks block_n cs rs) = set (pairs cs rs)" using blocks_mset [OF block_n_pos(1), of cs rs] by (metis set_mset_mset)
      ultimately show ?thesis unfolding bn_rows_def using r(8,10,11) Cons by blast
    qed
    then show ?thesis using i b(2) by blast
  qed
qed

lemma block_source:
  assumes d: "NewRawTupleDesc (ex_Schema L @ ex_Schema R) = Inr d"
  shows "row_source (BNLExec view p L R) inv (bn_ready p L R lready rready rrows d) (bn_rows p R lrows rready rrows d)"
proof
  let ?E = "BNLExec view p L R" and ?rows = "bn_rows p R lrows rready rrows d"
  show "\<exists>w' s'. ex_Init ?E w s = (Inr (), w', s') \<and> inv w' \<and> ?rows s' us" if "inv w" "bn_ready p L R lready rready rrows d s us" for w s us
    using block_init [OF that] by (simp add: BNLExec_def)
  show "\<exists>w' s'. ex_Next ?E w s = (Inr True, w', s') \<and> inv w' \<and> ?rows s' us \<and> ex_Current ?E s' = Inr u"
    if a: "inv w" "?rows s (u # us)" for w s u us
  proof -
    obtain rs ps where t: "rs \<noteq> []" "rewinds R rready rrows rs" "bn_todo R lrows rrows d rs s ps" "\<forall>x \<in> set ps. pair_ok p d x"
        "u # us = map (merged d) (passing p d ps)" "bn_tuples s \<noteq> []" using a(2) by (cases rule: bn_rowsE) simp_all
    then obtain x xs where x: "passing p d ps = x # xs" "u = merged d x" "us = map (merged d) xs" by (cases "passing p d ps") auto
    obtain w' e' ps' where l: "bnl_loop p L R w s = Some (Inr True, w', e')" "inv w'" "bn_todo R lrows rrows d rs e' ps'"
        "\<forall>x \<in> set ps'. pair_ok p d x" "passing p d ps' = xs" "bn_tup e' = merged d x"
      using bnl_loop_rows [OF a(1) t(3,4,1,2) d] x(1) by auto
    have "?rows e' us" unfolding bn_rows_def using t(1,2) l(3-5) x(3) by blast
    then show ?thesis using l x(2) t(6) by (simp add: BNLExec_def BNL_Next_def settle_def)
  qed
  show "\<exists>w' s'. ex_Next ?E w s = (Inr False, w', s') \<and> inv w' \<and> ex_Error ?E s' = None" if a: "inv w" "?rows s []" for w s
    using a(2)
  proof (cases rule: bn_rowsE)
    case (todo rs ps)
    then have "passing p d ps = []" by simp
    then show ?thesis using bnl_loop_rows [OF a(1) todo(3,4,1,2) d] todo(6) by (auto simp: BNLExec_def BNL_Next_def settle_def)
  qed (use a(1) in \<open>simp add: BNLExec_def BNL_Next_def\<close>)
  show "ex_Error ?E s = None" if "?rows s us" for s us using that by (cases rule: bn_rowsE) (simp_all add: BNLExec_def bn_todo_def)
qed

text \<open>
  When the left rows fill whole blocks, \<^verbatim>\<open>leftExhausted\<close> is still unset after the last block:
  the next block is empty and its first row is read all the same.
\<close>

lemma full_blocks_panic:
  assumes w: "inv w" and e: "bn_tuples e \<noteq> []" "bn_tIdx e \<ge> int (length (bn_tuples e))" "\<not> leftExhausted e" "maxTuplesInBlock e = block_tuples"
    and s: "lrows (bn_left e) []" "rrows (bn_right e) []" "rs \<noteq> []" "rewinds R rready rrows rs"
    and d: "NewRawTupleDesc (ex_Schema L @ ex_Schema R) = Inr d"
  shows "\<exists>st. BNL_Next p L R w e = (Inl (Panic ''index out of range''), st)"
proof -
  obtain w1 s1 where n: "ex_Next R w (bn_right e) = (Inr False, w1, s1)" "inv w1" using right.end_law [OF w s(2)] by blast
  then have "rready s1 rs" using s by (auto simp: rewinds_def)
  then obtain w2 s2 where i: "ex_Init R w1 s1 = (Inr (), w2, s2)" "inv w2" "rrows s2 rs" using right.init_law [OF n(2)] by blast
  obtain r0 rs0 where "rs = r0 # rs0" using s(3) by (cases rs) auto
  then obtain w3 s3 where n3: "ex_Next R w2 s2 = (Inr True, w3, s3)" "inv w3" using right.next_law [OF i(2)] i(3) by blast
  obtain w4 l4 where "ex_Next L w3 (bn_left e) = (Inr False, w4, l4)" using left.end_law [OF n3(2) s(1)] by blast
  moreover obtain k where "nat block_tuples = Suc k" using block_n_pos(1) by (cases "nat block_tuples") (simp_all add: block_n_def)
  ultimately have "next_right L R w e = (Inr True, w4, e\<lparr>bn_tIdx := 0, bn_right := s3, bn_left := l4, bn_tuples := [], leftExhausted := True\<rparr>)"
    using n i n3 e(3,4) by (simp add: next_right_def loadBuffer_def Let_def)
  then have "bnl_loop p L R w e = Some (Inl (Panic ''index out of range''), w4, e\<lparr>bn_tIdx := 0, bn_right := s3, bn_left := l4, bn_tuples := [], leftExhausted := True\<rparr>)"
    using e(2) d by (subst bnl_loop.simps) (simp add: Let_def merge_current_def int_index_def)
  then show ?thesis using e(1) by (simp add: BNL_Next_def settle_def)
qed

end


section \<open>Properties\<close>

text \<open>Whether a left and a right row join: the predicate on the merge of the left row's copy with the right row.\<close>

definition pair_passes :: "Expr \<Rightarrow> RawTupleDesc \<Rightarrow> RawTupleDesc \<Rightarrow> Tuple \<times> Tuple \<Rightarrow> bool res" where
  "pair_passes p ld d x = bindR (DeepCopy (fst x) ld) (\<lambda>c. bindR (MergeTuples (replicate (rd_bytes d) 0) d c (snd x)) (passes p))"

definition row_of :: "gtype list \<Rightarrow> Tuple \<Rightarrow> bool" where
  "row_of schema t \<longleftrightarrow> tuple_ok t \<and> tuple_types t = schema"

lemma copy_and_merge:
  assumes "row_of S1 l" "row_of S2 r" "NewRawTupleDesc S1 = Inr ld" "NewRawTupleDesc (S1 @ S2) = Inr d"
  shows "DeepCopy l ld = Inr (projr (DeepCopy l ld))" "merges d (projr (DeepCopy l ld)) r (merged d (projr (DeepCopy l ld), r))"
    "tuple_has (merged d (projr (DeepCopy l ld), r)) (columns l @ columns r)"
    "pair_passes p ld d (l, r) = passes p (merged d (projr (DeepCopy l ld), r))"
proof -
  have ok: "tuple_ok l" "tuple_types l = S1" "tuple_ok r" "tuple_types r = S2" using assms(1,2) by (simp_all add: row_of_def)
  obtain c where c: "DeepCopy l ld = Inr c" "tuple_has c (columns l)" "tuple_ok c" "tuple_types c = S1"
    using DeepCopy_ok [OF ok(1) _ columns_ok(2) [OF ok(1)], of ld] ok(2) assms(3) by auto
  obtain m where m: "merges d c r m" "tuple_has m (columns l @ columns r)"
    by (rule merge_overwrites [OF c(3) ok(3) _ c(2) columns_ok(2) [OF ok(3)], of d]) (use assms(4) c(4) ok(4) in simp)
  note mm = merges_merged [OF m(1)]
  show "DeepCopy l ld = Inr (projr (DeepCopy l ld))" "merges d (projr (DeepCopy l ld)) r (merged d (projr (DeepCopy l ld), r))"
    "tuple_has (merged d (projr (DeepCopy l ld), r)) (columns l @ columns r)" using c m mm by simp_all
  show "pair_passes p ld d (l, r) = passes p (merged d (projr (DeepCopy l ld), r))"
    using c(1) m(1) mm by (simp add: pair_passes_def merges_def)
qed

lemma mapR_Inr_map: "(\<And>x. x \<in> set xs \<Longrightarrow> f x = Inr (g x)) \<Longrightarrow> mapR f xs = Inr (map g xs)"
  by (induction xs) simp_all

lemma block_join_ready:
  assumes desc: "NewRawTupleDesc (ex_Schema L) = Inr ld" "NewRawTupleDesc (ex_Schema R) = Inr rd" "NewRawTupleDesc (ex_Schema L @ ex_Schema R) = Inr d"
    and ls: "lready l ls" "\<forall>t \<in> set ls. row_of (ex_Schema L) t" "\<not> block_n dvd length ls"
    and rs: "rready r rs" "\<forall>t \<in> set rs. row_of (ex_Schema R) t" "rewinds R rready rrows rs"
    and pred: "\<forall>x \<in> set (pairs ls rs). \<exists>b. pair_passes p ld d x = Inr b"
  obtains us ps where "bn_ready p L R lready rready rrows d (NewBlockNestedLoopJoinExecutor l r) us" "joined ps us"
    "mset ps = mset (filter (\<lambda>x. pair_passes p ld d x = Inr True) (pairs ls rs))"
proof -
  let ?copy = "\<lambda>t. projr (DeepCopy t ld)" and ?b = "blocks block_n ls rs" and ?e = "NewBlockNestedLoopJoinExecutor l r"
  let ?f = "\<lambda>x. (?copy (fst x), snd x)" and ?ps = "filter (\<lambda>x. pair_passes p ld d x = Inr True) (blocks block_n ls rs)"
  have cm: "DeepCopy (fst x) ld = Inr (?copy (fst x))" "merges d (?copy (fst x)) (snd x) (merged d (?f x))"
      "tuple_has (merged d (?f x)) (columns (fst x) @ columns (snd x))" "pair_passes p ld d x = passes p (merged d (?f x))"
    if "x \<in> set (pairs ls rs)" for x
  proof -
    have x: "row_of (ex_Schema L) (fst x)" "row_of (ex_Schema R) (snd x)" using that ls(2) rs(2) by auto
    show "DeepCopy (fst x) ld = Inr (?copy (fst x))" "merges d (?copy (fst x)) (snd x) (merged d (?f x))"
      "tuple_has (merged d (?f x)) (columns (fst x) @ columns (snd x))" "pair_passes p ld d x = passes p (merged d (?f x))"
      using copy_and_merge [OF x desc(1,3)] by simp_all
  qed
  have b: "mset ?b = mset (pairs ls rs)" by (rule blocks_mset [OF block_n_pos(1)])
  then have bs: "set ?b = set (pairs ls rs)" by (metis set_mset_mset)
  have copies: "mapR (\<lambda>t. DeepCopy t ld) ls = Inr (map ?copy ls)"
  proof (rule mapR_Inr_map)
    fix t assume "t \<in> set ls"
    then have "row_of (ex_Schema L) t" using ls(2) by blast
    then show "DeepCopy t ld = Inr (?copy t)" using DeepCopy_ok [OF _ _ columns_ok(2)] desc(1) by (force simp: row_of_def)
  qed
  have bm: "blocks block_n (map ?copy ls) rs = map ?f ?b" by (simp add: blocks_map case_prod_unfold)
  have ps: "passing p d (map ?f ?b) = map ?f ?ps"
    unfolding passing_def filter_map by (rule arg_cong [where f = "map ?f"], rule filter_cong [OF refl]) (use cm(4) bs in simp)
  have pr: "set (pairs (map ?copy ls) rs) = ?f ` set (pairs ls rs)" by force
  have "\<forall>x \<in> set (pairs (map ?copy ls) rs). pair_ok p d x" unfolding pr using cm(2,4) pred by (simp add: pair_ok_def)
  then have "bn_ready p L R lready rready rrows d ?e (map (merged d) (map ?f ?ps))"
    unfolding bn_ready_def
    by (intro exI [of _ ls] exI [of _ rs] exI [of _ ld] exI [of _ rd] exI [of _ "map ?copy ls"] conjI)
      (use ls rs desc copies in \<open>simp_all add: NewBlockNestedLoopJoinExecutor_def bm ps del: map_map\<close>)
  moreover have "joined ?ps (map (merged d) (map ?f ?ps))" using cm(3) bs by (auto simp: joined_def list_all2_map2 intro!: list.rel_refl_strong)
  moreover have "mset ?ps = mset (filter (\<lambda>x. pair_passes p ld d x = Inr True) (pairs ls rs))" using b by (simp add: mset_filter)
  ultimately show thesis by (rule that)
qed

text \<open>
  C18: Block nested loop joins.  Over two sources of well-formed rows of their schemas, of which
  the right one can be started again, a left side whose rows do not fill whole blocks, and a
  predicate that evaluates to true or false on every pair, the join delivers exactly the
  pairs of a left and a right row on which the predicate holds, each once per occurrence, with
  the columns of the left row followed by those of the right one.
\<close>

theorem block_join_rows:
  assumes src: "row_source L W lready lrows" "row_source R W rready rrows" and w: "W w"
    and desc: "NewRawTupleDesc (ex_Schema L) = Inr ld" "NewRawTupleDesc (ex_Schema R) = Inr rd" "NewRawTupleDesc (ex_Schema L @ ex_Schema R) = Inr d"
    and ls: "lready l ls" "\<forall>t \<in> set ls. row_of (ex_Schema L) t" "\<not> block_n dvd length ls"
    and rs: "rready r rs" "\<forall>t \<in> set rs. row_of (ex_Schema R) t" "rewinds R rready rrows rs"
    and pred: "\<forall>x \<in> set (pairs ls rs). \<exists>b. pair_passes p ld d x = Inr b"
  shows "\<exists>w' e' us ps. ex_Init (BNLExec view p L R) w (NewBlockNestedLoopJoinExecutor l r) = (Inr (), w', e') \<and> W w' \<and>
    bn_rows p R lrows rready rrows d e' us \<and> joined ps us \<and> mset ps = mset (filter (\<lambda>x. pair_passes p ld d x = Inr True) (pairs ls rs)) \<and>
    row_source (BNLExec view p L R) W (bn_ready p L R lready rready rrows d) (bn_rows p R lrows rready rrows d)"
proof -
  obtain us ps where u: "bn_ready p L R lready rready rrows d (NewBlockNestedLoopJoinExecutor l r) us" "joined ps us"
      "mset ps = mset (filter (\<lambda>x. pair_passes p ld d x = Inr True) (pairs ls rs))"
    by (rule block_join_ready [OF desc, of lready l ls rready r rs rrows p]) (use ls rs pred in simp_all)
  note j = join_sources.intro [OF src]
  from join_sources.block_init [OF j w u(1)] obtain w' e' where "BNL_Init L R w (NewBlockNestedLoopJoinExecutor l r) = (Inr (), w', e')" "W w'"
      "bn_rows p R lrows rready rrows d e' us" by blast
  moreover have "ex_Init (BNLExec view p L R) = BNL_Init L R" by (simp add: BNLExec_def)
  ultimately show ?thesis using u(2,3) join_sources.block_source [OF j desc(3), of view p] by metis
qed

lemma demo_rows_of: "\<forall>t \<in> set (map (\<lambda>n. FromValues (Some [NewIntValue n])) [1, 2, 3, 4]). row_of [IntType] t"
  by (simp add: row_of_def tuple_ok_def FromValues_def extra_list_def value_wf_def storable_def NewIntValue_def zeroValue_def MinInt64_def tuple_types_def)

theorem block_join_rows_witness:
  "\<exists>w' e' us d. ex_Init (BNLExec (\<lambda>e v. v) (ConstantValueExpr (NewIntValue 1)) (ValuesExec demo_values [IntType]) (ValuesExec demo_values [IntType])) ()
       (NewBlockNestedLoopJoinExecutor NewValuesExecutor NewValuesExecutor) = (Inr (), w', e') \<and>
     bn_rows (ConstantValueExpr (NewIntValue 1)) (ValuesExec demo_values [IntType] :: (unit, ValuesExecutor) Executor) (values_rows demo_values [IntType])
       (values_ready demo_values [IntType]) (values_rows demo_values [IntType]) d e' us \<and> length us = 16"
proof -
  let ?ts = "map (\<lambda>n. FromValues (Some [NewIntValue n])) [1, 2, 3, 4]" and ?p = "ConstantValueExpr (NewIntValue 1)"
  let ?V = "ValuesExec demo_values [IntType] :: (unit, ValuesExecutor) Executor"
  have r: "values_ready demo_values [IntType] s ?ts" for s by (simp add: values_ready_def demo_values_def const_row_def)
  have s: "ex_Schema ?V = [IntType]" by (simp add: ValuesExec_def)
  obtain d1 where d1: "NewRawTupleDesc [IntType] = Inr d1" using NewRawTupleDesc_eq [of "[IntType]"] by (auto simp: total_size_def type_size_def size_defs)
  obtain d2 where d2: "NewRawTupleDesc ([IntType] @ [IntType]) = Inr d2" using NewRawTupleDesc_eq [of "[IntType, IntType]"] by (auto simp: total_size_def type_size_def size_defs)
  have one: "passes ?p t = Inr True" for t by (simp add: passes_def NewIntValue_def zeroValue_def IntValue_def)
  have pp: "\<forall>x \<in> set (pairs ?ts ?ts). pair_passes ?p d1 d2 x = Inr True"
  proof
    fix x assume "x \<in> set (pairs ?ts ?ts)"
    then have "row_of [IntType] (fst x)" "row_of [IntType] (snd x)" using demo_rows_of by auto
    from copy_and_merge(4) [OF this d1 d2, of ?p] show "pair_passes ?p d1 d2 x = Inr True" by (simp add: one)
  qed
  then have n: "filter (\<lambda>x. pair_passes ?p d1 d2 x = Inr True) (pairs ?ts ?ts) = pairs ?ts ?ts" by (auto simp: filter_id_conv)
  have rw: "rewinds ?V (values_ready demo_values [IntType]) (values_rows demo_values [IntType]) ?ts" using r by (simp add: rewinds_def)
  have nd: "\<not> block_n dvd length ?ts" using nat_dvd_not_less [of "length ?ts" block_n] by (simp add: block_n_def block_tuples_def blockSize_def dataSize_def tupleOverhead_def)
  have src: "row_source ?V (\<lambda>_. True) (values_ready demo_values [IntType]) (values_rows demo_values [IntType])" by (rule vals.row_source_axioms)
  have ok: "\<forall>x \<in> set (pairs ?ts ?ts). \<exists>b. pair_passes ?p d1 d2 x = Inr b" using pp by blast
  obtain w' e' us ps where "ex_Init (BNLExec (\<lambda>e v. v) ?p ?V ?V) () (NewBlockNestedLoopJoinExecutor NewValuesExecutor NewValuesExecutor) = (Inr (), w', e')"
      "bn_rows ?p ?V (values_rows demo_values [IntType]) (values_ready demo_values [IntType]) (values_rows demo_values [IntType]) d2 e' us"
      "joined ps us" "mset ps = mset (pairs ?ts ?ts)"
    using block_join_rows [OF src src, unfolded s, OF TrueI d1 d1 d2 r demo_rows_of nd r demo_rows_of rw ok, where w = "()" and view = "\<lambda>e v. v"] unfolding n by blast
  moreover have "length us = length ps" using \<open>joined ps us\<close> by (auto simp: joined_def dest: list_all2_lengthD)
  moreover have "length ps = length (pairs ?ts ?ts)" using \<open>mset ps = mset (pairs ?ts ?ts)\<close> by (metis size_mset)
  ultimately show ?thesis by (intro exI [of _ w'] exI [of _ e'] exI [of _ us] exI [of _ d2]) simp
qed

end
