(* ===== verification/Aggregate.thy ===== *)
theory Aggregate
  imports Hash_Join
begin

text \<open>
  \<^verbatim>\<open>execution/aggregate_executor.go\<close> with the clauses of \<^verbatim>\<open>planner/aggregation_node.go\<close>: grouping
  and aggregation with one hash table per aggregate.
\<close>

section \<open>The operator\<close>

datatype AggregatorType = AggCount | AggSum | AggMin | AggMax

record AggregateClause =
  agg_Type :: AggregatorType
  agg_Expr :: Expr

definition NewAggregateNode_schema :: "Expr list \<Rightarrow> AggregateClause list \<Rightarrow> gtype list" where
  "NewAggregateNode_schema groupBy aggregates = map OutputType groupBy @ map (\<lambda>a. OutputType (agg_Expr a)) aggregates"

record 's AggregateExecutor =
  ag_child :: 's
  ag_tIdx :: int
  ag_tuples :: "Tuple list"
  ag_err :: "fault option"
  aggHTs :: "Value ExecutionHashTable list"

definition NewAggregateExecutor :: "'s \<Rightarrow> 's AggregateExecutor" where
  "NewAggregateExecutor child = \<lparr>ag_child = child, ag_tIdx = 0, ag_tuples = [], ag_err = None, aggHTs = []\<rparr>"

text \<open>What the switch inserts for a key, given the value that is stored already; \<open>None\<close> when it inserts nothing.\<close>

fun agg_insert :: "AggregatorType \<Rightarrow> Value option \<Rightarrow> Value \<Rightarrow> Value option res" where
  "agg_insert AggCount old val =
     (case old of None \<Rightarrow> Inr (Some (NewIntValue 1))
      | Some cnt \<Rightarrow> if val_null cnt then Inr (Some (NewIntValue 1)) else bindR (Value_Increment cnt) (\<lambda>v. Inr (Some v)))"
| "agg_insert AggSum old val =
     (case old of None \<Rightarrow> Inr (Some val)
      | Some acc \<Rightarrow> if val_null acc then Inr (Some val)
          else bindR (IntValue acc) (\<lambda>a. bindR (IntValue val) (\<lambda>b. Inr (Some (NewIntValue (a + b))))))"
| "agg_insert AggMin old val =
     (case old of None \<Rightarrow> Inr (Some val)
      | Some minVal \<Rightarrow> if val_null minVal then Inr (Some val)
          else bindR (Value_Compare minVal val) (\<lambda>c. Inr (if c = 1 then Some val else None)))"
| "agg_insert AggMax old val =
     (case old of None \<Rightarrow> Inr (Some val)
      | Some maxVal \<Rightarrow> if val_null maxVal then Inr (Some val)
          else bindR (Value_Compare maxVal val) (\<lambda>c. Inr (if c = - 1 then Some val else None)))"

definition agg_switch :: "AggregatorType \<Rightarrow> Tuple \<Rightarrow> Value \<Rightarrow> Value ExecutionHashTable \<Rightarrow> Value ExecutionHashTable res" where
  "agg_switch ty key val ht =
     bindR (ht_Get key ht) (\<lambda>(old, ht1).
     bindR (agg_insert ty old val) (\<lambda>new. case new of None \<Rightarrow> Inr ht1 | Some v \<Rightarrow> ht_Insert key v ht1))"

text \<open>
  The body of the loop over the clauses.  A null is stored for a key that has no value yet, and
  then goes through the switch like any other value.
\<close>

definition agg_update :: "Tuple \<Rightarrow> Tuple \<Rightarrow> AggregateClause \<Rightarrow> Value ExecutionHashTable \<Rightarrow> Value ExecutionHashTable res" where
  "agg_update tup key aggc ht =
     bindR (Eval (agg_Expr aggc) tup) (\<lambda>val.
     if Value_IsNil val then Inr ht
     else if val_null val then
       bindR (ht_Get key ht) (\<lambda>(old, ht1).
       if old \<noteq> None then Inr ht1
       else bindR (ht_Insert key NewNullInt ht1) (agg_switch (agg_Type aggc) key val))
     else agg_switch (agg_Type aggc) key val ht)"

fun agg_clauses :: "Tuple \<Rightarrow> Tuple \<Rightarrow> AggregateClause list \<Rightarrow> Value ExecutionHashTable list \<Rightarrow> Value ExecutionHashTable list res" where
  "agg_clauses tup key (c # cs) (ht # hts) =
     bindR (agg_update tup key c ht) (\<lambda>ht'. bindR (agg_clauses tup key cs hts) (\<lambda>hts'. Inr (ht' # hts')))"
| "agg_clauses tup key _ hts = Inr hts"

definition agg_row :: "Expr list \<Rightarrow> AggregateClause list \<Rightarrow> Tuple \<Rightarrow> Value ExecutionHashTable list \<Rightarrow> Value ExecutionHashTable list res" where
  "agg_row groupBy clauses tup hts =
     bindR (mapR (\<lambda>x. Eval x tup) groupBy) (\<lambda>vals. agg_clauses tup (Extend (FromValues None) vals) clauses hts)"

text \<open>The tables keep strings that are views into the child's row buffer; they are read again with every row.\<close>

definition reread_tables :: "('w, 's) Executor \<Rightarrow> 's \<Rightarrow> Value ExecutionHashTable list \<Rightarrow> Value ExecutionHashTable list" where
  "reread_tables E s hts = map (\<lambda>ht. ht\<lparr>ht_table := map (\<lambda>(k, v). (k, ex_Reread E s v)) (ht_table ht)\<rparr>) hts"

partial_function (option) agg_loop :: "Expr list \<Rightarrow> AggregateClause list \<Rightarrow> ('w, 's) Executor \<Rightarrow> 'w \<Rightarrow> 's \<Rightarrow> Value ExecutionHashTable list \<Rightarrow>
    (Value ExecutionHashTable list res \<times> ('w \<times> 's)) option" where
  "agg_loop groupBy clauses E w s hts =
     (let n = ex_Next E w s; s' = snd (snd n)
      in case fst n of
           Inl e \<Rightarrow> Some (Inl e, snd n)
         | Inr found \<Rightarrow>
             if \<not> found then Some (Inr (reread_tables E s' hts), snd n)
             else (case bindR (ex_Current E s') (\<lambda>t. agg_row groupBy clauses t (reread_tables E s' hts)) of
                     Inl e \<Rightarrow> Some (Inl e, snd n)
                   | Inr hts' \<Rightarrow> agg_loop groupBy clauses E (fst (snd n)) s' hts'))"

definition appendFunc :: "Tuple \<Rightarrow> Value \<Rightarrow> Value list ExecutionHashTable \<Rightarrow> Value list ExecutionHashTable res" where
  "appendFunc key value rowHT =
     bindR (ht_Get key rowHT) (\<lambda>(cols, ht1). ht_Insert key (case cols of None \<Rightarrow> [value] | Some cs \<Rightarrow> cs @ [value]) ht1)"

definition saveResultTupleFunc :: "gtype list \<Rightarrow> Tuple \<Rightarrow> Value list \<Rightarrow> Tuple list \<Rightarrow> Tuple list res" where
  "saveResultTupleFunc schema key values tuples =
     bindR (NewRawTupleDesc schema) (\<lambda>desc.
     bindR (MergeTuples (replicate (BytesPerTuple desc) 0) desc key (Extend (FromValues None) values)) (\<lambda>m. Inr (tuples @ [m])))"

text \<open>\<open>ord1\<close> and \<open>ord2\<close> are the orders in which ranging over the maps visits the groups.\<close>

definition agg_results :: "((RawTuple \<times> Value) list \<Rightarrow> (RawTuple \<times> Value) list) \<Rightarrow> ((RawTuple \<times> Value list) list \<Rightarrow> (RawTuple \<times> Value list) list) \<Rightarrow>
    gtype list \<Rightarrow> RawTupleDesc \<Rightarrow> Value ExecutionHashTable list \<Rightarrow> Tuple list res" where
  "agg_results ord1 ord2 schema keySchema hts =
     bindR (foldR (ht_Iterate ord1 appendFunc) hts (NewExecutionHashTable keySchema)) (\<lambda>rowHT.
     ht_Iterate ord2 (saveResultTupleFunc schema) rowHT [])"

definition Agg_Init :: "((RawTuple \<times> Value) list \<Rightarrow> (RawTuple \<times> Value) list) \<Rightarrow> ((RawTuple \<times> Value list) list \<Rightarrow> (RawTuple \<times> Value list) list) \<Rightarrow>
    Expr list \<Rightarrow> AggregateClause list \<Rightarrow> ('w, 's) Executor \<Rightarrow> 'w \<Rightarrow> 's AggregateExecutor \<Rightarrow> unit res \<times> ('w \<times> 's AggregateExecutor)" where
  "Agg_Init ord1 ord2 groupBy clauses E w e =
     (case ex_Init E w (ag_child e) of
        (Inl f, w1, c1) \<Rightarrow> (Inl f, w1, e\<lparr>ag_child := c1, ag_err := Some f\<rparr>)
      | (Inr _, w1, c1) \<Rightarrow>
          let e1 = e\<lparr>ag_child := c1, ag_tIdx := - 1, ag_tuples := []\<rparr>
          in (case NewRawTupleDesc (map OutputType groupBy) of
                Inl f \<Rightarrow> (Inl f, w1, e1)
              | Inr keySchema \<Rightarrow>
             (case settle (w1, c1) (agg_loop groupBy clauses E w1 c1 (map (\<lambda>_. NewExecutionHashTable keySchema) clauses)) of
                (Inl f, w2, c2) \<Rightarrow> (Inl f, w2, e1\<lparr>ag_child := c2\<rparr>)
              | (Inr hts, w2, c2) \<Rightarrow>
             (case agg_results ord1 ord2 (NewAggregateNode_schema groupBy clauses) keySchema hts of
                Inl f \<Rightarrow> (Inl f, w2, e1\<lparr>ag_child := c2, aggHTs := hts\<rparr>)
              | Inr us \<Rightarrow> (Inr (), w2, e1\<lparr>ag_child := c2, aggHTs := hts, ag_tuples := us\<rparr>)))))"

definition AggregateExec :: "((RawTuple \<times> Value) list \<Rightarrow> (RawTuple \<times> Value) list) \<Rightarrow> ((RawTuple \<times> Value list) list \<Rightarrow> (RawTuple \<times> Value list) list) \<Rightarrow>
    Expr list \<Rightarrow> AggregateClause list \<Rightarrow> ('w, 's) Executor \<Rightarrow> ('w, 's AggregateExecutor) Executor" where
  "AggregateExec ord1 ord2 groupBy clauses E =
     \<lparr>ex_Schema = NewAggregateNode_schema groupBy clauses,
      ex_Init = Agg_Init ord1 ord2 groupBy clauses E,
      ex_Next = (\<lambda>w e. if ag_tIdx e + 1 \<ge> int (length (ag_tuples e)) then (Inr False, w, e)
                       else (Inr True, w, e\<lparr>ag_tIdx := ag_tIdx e + 1\<rparr>)),
      ex_Current = (\<lambda>e. int_index (ag_tuples e) (ag_tIdx e)),
      ex_Error = ag_err,
      ex_Close = (\<lambda>w e. let (r, w', c) = ex_Close E w (ag_child e) in (r, w', e\<lparr>ag_child := c, ag_tuples := []\<rparr>)),
      ex_Reread = (\<lambda>e v. v)\<rparr>"



section \<open>Hash tables and their keys\<close>

definition ht_ok :: "RawTupleDesc \<Rightarrow> 'v ExecutionHashTable \<Rightarrow> bool" where
  "ht_ok d ht \<longleftrightarrow> ht_keySchema ht = d \<and> length (ht_scratch ht) = rd_bytes d \<and> distinct (map fst (ht_table ht))"

text \<open>A tuple that is written to the bytes \<open>b\<close>, whatever the buffer held.\<close>

definition key_of :: "RawTupleDesc \<Rightarrow> Tuple \<Rightarrow> RawTuple \<Rightarrow> bool" where
  "key_of d key b \<longleftrightarrow> length b = rd_bytes d \<and>
     (\<forall>buf. length buf = rd_bytes d \<longrightarrow> bindR (WriteToBuffer key buf d) (\<lambda>t. Inr (tp_raw t)) = Inr b)"

lemma ht_New_ok: "ht_ok d (NewExecutionHashTable d)"
  by (simp add: ht_ok_def NewExecutionHashTable_def BytesPerTuple_def)

lemma ht_ok_ops:
  assumes "ht_ok d ht" "key_of d key b"
  shows "ht_Get key ht = Inr (map_of (ht_table ht) b, ht\<lparr>ht_scratch := b\<rparr>)" "ht_ok d (ht\<lparr>ht_scratch := b\<rparr>)"
    "ht_Insert key v ht = Inr (ht\<lparr>ht_scratch := b, ht_table := AList.update b v (ht_table ht)\<rparr>)"
    "ht_ok d (ht\<lparr>ht_scratch := b, ht_table := AList.update b v (ht_table ht)\<rparr>)"
  using assms by (simp_all add: ht_ok_def key_of_def ht_Get_def ht_Insert_def ht_key_def distinct_update)

lemma key_of_values:
  assumes "wf_desc d" "rd_fields d = kt" "key_typed kt vs"
  shows "key_of d (Extend (FromValues None) vs) (key_bytes vs)"
proof -
  have "bindR (WriteToBuffer (Extend (FromValues None) vs) buf d) (\<lambda>t. Inr (tp_raw t)) = Inr (key_bytes vs)" if "length buf = rd_bytes d" for buf
    using ht_key_bytes [of "\<lparr>ht_table = [], ht_keySchema = d, ht_scratch = buf\<rparr>" kt vs] assms that by (simp add: ht_key_def)
  then show ?thesis using assms length_key_bytes [OF assms(3)] by (simp add: key_of_def wf_desc_def)
qed

lemma key_of_raw: "length b = rd_bytes d \<Longrightarrow> key_of d (FromRawTuple b d rid) b"
  by (simp add: key_of_def WriteToBuffer_def FromRawTuple_def BytesPerTuple_def NumColumns_def extra_list_def RawTupleDesc_NumColumns_def go_copy_put_at put_at_def)

text \<open>The bytes of a key read back as its values.\<close>

lemma key_bytes_read:
  assumes "wf_desc d" "rd_fields d = kt" "key_typed kt vs"
  shows "tuple_has (FromRawTuple (key_bytes vs) d zeroRID) vs" "tuple_ok (FromRawTuple (key_bytes vs) d zeroRID)"
proof -
  let ?t = "Extend (FromValues None) vs" and ?z = "replicate (rd_bytes d) 0"
  have ok: "tuple_ok ?t" "tuple_types ?t = kt"
    using assms(3) by (auto simp: tuple_ok_def Extend_def FromValues_def extra_list_def key_typed_def tuple_types_def)
  have has: "tuple_has ?t vs" by (cases vs) (use FromValues_has [of vs] in \<open>simp_all add: Extend_def FromValues_def tuple_has_def NumColumns_def extra_list_def\<close>)
  obtain b where b: "WriteToBuffer ?t ?z d = Inr (FromRawTuple b d (tp_rid ?t))" "row_has d b 0 vs"
    using WriteToBuffer_ok [OF ok(1) assms(1) _ _ has, of ?z] ok(2) assms(2) by auto
  have "b = key_bytes vs" using key_of_values [OF assms] b(1) by (auto simp: key_of_def FromRawTuple_def dest!: spec [of _ ?z])
  moreover have "length vs = length (rd_fields d)" using assms(2,3) by (metis key_typed_def length_map)
  ultimately show "tuple_has (FromRawTuple (key_bytes vs) d zeroRID) vs" using b(2) by (simp add: FromRawTuple_has)
  show "tuple_ok (FromRawTuple (key_bytes vs) d zeroRID)" using assms length_key_bytes [OF assms(3)]
    by (simp add: tuple_ok_def FromRawTuple_def extra_list_def wf_desc_def)
qed


section \<open>What an aggregate computes\<close>

text \<open>One more value of a group, and all of them.\<close>

definition agg_step :: "AggregatorType \<Rightarrow> Value \<Rightarrow> Value option \<Rightarrow> Value option res" where
  "agg_step ty val old =
     (if val_null val \<and> old \<noteq> None then Inr old
      else if val_null val then bindR (agg_insert ty (Some NewNullInt) val) (\<lambda>new. Inr (case new of None \<Rightarrow> Some NewNullInt | Some v \<Rightarrow> Some v))
      else bindR (agg_insert ty old val) (\<lambda>new. Inr (case new of None \<Rightarrow> old | Some v \<Rightarrow> Some v)))"

definition agg_of :: "AggregatorType \<Rightarrow> Value list \<Rightarrow> Value option res" where
  "agg_of ty vs = foldR (agg_step ty) vs None"

lemma agg_of_simps: "agg_of ty [] = Inr None" "agg_of ty (vs @ [v]) = bindR (agg_of ty vs) (agg_step ty v)"
  by (simp_all add: agg_of_def foldR_append) (simp add: bindR_def split: sum.splits)

definition nonnull :: "Value list \<Rightarrow> Value list" where
  "nonnull vs = filter (\<lambda>v. \<not> val_null v) vs"

text \<open>
  The results in closed form.  A count has one too many when the first value of the group is
  null; a sum, a minimum and a maximum are those of the values that are not null, and the null
  itself when there are none.
\<close>

fun agg_spec :: "AggregatorType \<Rightarrow> Value list \<Rightarrow> Value \<Rightarrow> bool" where
  "agg_spec AggCount vs v \<longleftrightarrow> v = NewIntValue (of_nat (length (nonnull vs) + (if val_null (hd vs) then 1 else 0)))"
| "agg_spec AggSum vs v \<longleftrightarrow>
     (if nonnull vs = [] then v = hd vs else val_t v = IntType \<and> \<not> val_null v \<and> val_int v = sum_list (map val_int (nonnull vs)))"
| "agg_spec AggMin vs v \<longleftrightarrow>
     (if nonnull vs = [] then v = hd vs else v \<in> set (nonnull vs) \<and> (\<forall>u \<in> set (nonnull vs). \<exists>c \<le> 0. Value_Compare v u = Inr c))"
| "agg_spec AggMax vs v \<longleftrightarrow>
     (if nonnull vs = [] then v = hd vs else v \<in> set (nonnull vs) \<and> (\<forall>u \<in> set (nonnull vs). \<exists>c \<ge> 0. Value_Compare v u = Inr c))"

lemma nonnull_snoc [simp]: "nonnull (vs @ [v]) = nonnull vs @ (if val_null v then [] else [v])" "nonnull [] = []"
  by (simp_all add: nonnull_def)

lemma nonnull_hd: "vs \<noteq> [] \<Longrightarrow> nonnull vs = [] \<Longrightarrow> val_null (hd vs)"
  by (cases vs) (auto simp: nonnull_def split: if_splits)

lemma sint_of_nat_small: "n < 2 ^ 63 \<Longrightarrow> sint (of_nat n :: 64 word) = int n"
  by (simp add: signed_of_nat signed_take_bit_int_eq_self)

lemma count_of:
  assumes "vs \<noteq> []" "length vs < 2 ^ 62"
  shows "agg_of AggCount vs = Inr (Some (NewIntValue (of_nat (length (nonnull vs) + (if val_null (hd vs) then 1 else 0)))))"
  using assms
proof (induction vs rule: rev_induct)
  case (snoc v vs)
  let ?n = "length (nonnull vs) + (if val_null (hd vs) then 1 else 0)"
  show ?case
  proof (cases "vs = []")
    case True
    then show ?thesis by (simp add: agg_of_def agg_step_def NewNullInt_def zeroValue_def nonnull_def)
  next
    case False
    have IH: "agg_of AggCount vs = Inr (Some (NewIntValue (of_nat ?n)))" using snoc False by simp
    have "length (nonnull vs) \<le> length vs" by (simp add: nonnull_def)
    then have n: "?n \<le> 2 ^ 62" using snoc.prems(2) by simp
    then have s: "sint (of_nat ?n :: 64 word) = int ?n" by (intro sint_of_nat_small) simp
    have "int ?n < 2 ^ 63 - 1" using n by simp
    then have "Value_Increment (NewIntValue (of_nat ?n)) = Inr (NewIntValue (of_nat (Suc ?n)))"
      using s unfolding Value_Increment_def by (simp add: NewIntValue_def zeroValue_def MaxInt64_def)
    then show ?thesis using IH False by (simp add: agg_of_simps agg_step_def NewIntValue_def zeroValue_def)
  qed
qed simp

lemma sum_of:
  assumes "vs \<noteq> []" "\<forall>v \<in> set vs. val_t v = IntType"
  shows "\<exists>v. agg_of AggSum vs = Inr (Some v) \<and> agg_spec AggSum vs v"
  using assms
proof (induction vs rule: rev_induct)
  case (snoc v vs)
  show ?case
  proof (cases "vs = []")
    case True
    then show ?thesis using snoc.prems(2) by (auto simp: agg_of_def agg_step_def NewNullInt_def zeroValue_def nonnull_def)
  next
    case False
    then obtain a where a: "agg_of AggSum vs = Inr (Some a)" "agg_spec AggSum vs a" using snoc by auto
    have t: "val_t v = IntType" using snoc.prems(2) by simp
    have "val_null a \<longleftrightarrow> nonnull vs = []" using a(2) nonnull_hd [OF False] by (auto split: if_splits)
    then show ?thesis using a t False
      by (auto simp: agg_of_simps agg_step_def IntValue_def NewIntValue_def zeroValue_def split: if_splits)
  qed
qed simp

text \<open>The minimum with \<open>k = 1\<close>, the maximum with \<open>k = -1\<close>.\<close>

lemma extremum_of:
  assumes ty: "ty = AggMin \<and> k = 1 \<or> ty = AggMax \<and> k = - 1" and "vs \<noteq> []" "\<forall>v \<in> set vs. \<forall>u \<in> set vs. same_type v u"
  shows "\<exists>v. agg_of ty vs = Inr (Some v) \<and>
    (if nonnull vs = [] then v = hd vs else v \<in> set (nonnull vs) \<and> (\<forall>u \<in> set (nonnull vs). \<exists>c. k * c \<le> (0 :: int) \<and> Value_Compare v u = Inr c))"
  using assms(2,3)
proof (induction vs rule: rev_induct)
  case (snoc v vs)
  have self: "Value_Compare u u = Inr 0" if "u \<in> set (vs @ [v])" for u using vcmp.cmp_self snoc.prems(2) that by blast
  show ?case
  proof (cases "vs = []")
    case True
    then show ?thesis using ty self [of v] by (auto simp: agg_of_def agg_step_def NewNullInt_def zeroValue_def nonnull_def)
  next
    case False
    then obtain a where a: "agg_of ty vs = Inr (Some a)"
        "if nonnull vs = [] then a = hd vs else a \<in> set (nonnull vs) \<and> (\<forall>u \<in> set (nonnull vs). \<exists>c. k * c \<le> 0 \<and> Value_Compare a u = Inr c)"
      using snoc by auto
    have null: "val_null a \<longleftrightarrow> nonnull vs = []" using a(2) nonnull_hd [OF False] by (auto simp: nonnull_def split: if_splits)
    have sub: "set (nonnull vs) \<subseteq> set vs" by (auto simp: nonnull_def)
    consider (skip) "val_null v" | (first) "\<not> val_null v" "nonnull vs = []" | (both) "\<not> val_null v" "nonnull vs \<noteq> []" by blast
    then show ?thesis
    proof cases
      case both
      then have in_vs: "a \<in> set vs" using a(2) sub by auto
      have same: "same_type x y" if "x \<in> set (vs @ [v])" "y \<in> set (vs @ [v])" for x y using snoc.prems(2) that by blast
      obtain c where c: "Value_Compare a v = Inr c" "c \<in> {- 1, 0, 1}" using vcmp.cmp_range [OF same [of a v]] in_vs by auto
      have agg: "agg_of ty (vs @ [v]) = Inr (Some (if c = k then v else a))"
        using a(1) null both c ty by (auto simp: agg_of_simps agg_step_def)
      have "\<exists>c'. k * c' \<le> 0 \<and> Value_Compare (if c = k then v else a) u = Inr c'" if u: "u \<in> set (nonnull vs @ [v])" for u
      proof (cases "c = k")
        case True
        have va: "Value_Compare v a = Inr (- k)" using vcmp.cmp_antisym [OF same [of a v] c(1)] in_vs True by simp
        show ?thesis
        proof (cases "u = v")
          case False
          then obtain c' where c': "k * c' \<le> 0" "Value_Compare a u = Inr c'" using u a(2) both(2) by auto
          have au: "Value_Compare u a = Inr (- c')" "Value_Compare a v = Inr k"
            using vcmp.cmp_antisym [OF same [of a u] c'(2)] in_vs u sub c(1) True by auto
          have k: "k = 1 \<or> k = - 1" using ty by auto
          have "\<exists>e. k * e \<le> 0 \<and> Value_Compare v u = Inr e"
          proof (cases "k = 1")
            case True
            then show ?thesis using vcmp.cmp_trans [OF same [of v a] same [of a u] va c'(2)] in_vs u sub c'(1) by auto
          next
            case False
            then have "k = - 1" using k by simp
            then obtain e where "Value_Compare u v = Inr e" "e \<le> 0" using vcmp.cmp_trans [OF same [of u a] same [of a v] au] in_vs u sub c'(1) by auto
            then show ?thesis using vcmp.cmp_antisym [OF same [of u v]] u sub \<open>k = - 1\<close> by auto
          qed
          then show ?thesis using True by simp
        qed (use self [of v] True in auto)
      next
        case False
        then show ?thesis using u a(2) both(2) c ty by auto
      qed
      then show ?thesis using agg both a(2) by auto
    qed (use a null ty False self [of v] in \<open>auto simp: agg_of_simps agg_step_def\<close>)
  qed
qed simp

text \<open>
  The values of a group: they have one type, integers under a sum, and there are fewer of them
  than a count can reach.
\<close>

definition group_ok :: "AggregatorType \<Rightarrow> Value list \<Rightarrow> bool" where
  "group_ok ty vs \<longleftrightarrow> (\<forall>v \<in> set vs. \<forall>u \<in> set vs. same_type v u) \<and> (ty = AggSum \<longrightarrow> (\<forall>v \<in> set vs. val_t v = IntType)) \<and> length vs < 2 ^ 62"

lemma agg_of_ok:
  assumes "group_ok ty vs" "vs \<noteq> []"
  obtains v where "agg_of ty vs = Inr (Some v)" "agg_spec ty vs v"
proof (cases ty)
  case AggCount
  then show thesis using that count_of [OF assms(2)] assms(1) by (auto simp: group_ok_def)
next
  case AggSum
  then show thesis using that sum_of [OF assms(2)] assms(1) by (auto simp: group_ok_def)
next
  case AggMin
  then show thesis using that extremum_of [of ty 1, OF _ assms(2), unfolded mult_1] assms(1) by (auto simp: group_ok_def)
next
  case AggMax
  then show thesis using that extremum_of [of ty "- 1", OF _ assms(2), unfolded mult_minus1 neg_le_0_iff_le] assms(1) by (auto simp: group_ok_def)
qed



section \<open>The tables of the aggregates\<close>

text \<open>The key of a row, its bytes, and the value of an aggregate's expression on a row.\<close>

definition row_key :: "Expr list \<Rightarrow> Tuple \<Rightarrow> Value list" where
  "row_key groupBy t = projr (mapR (\<lambda>x. Eval x t) groupBy)"

definition group_key :: "Expr list \<Rightarrow> Tuple \<Rightarrow> RawTuple" where
  "group_key groupBy t = key_bytes (row_key groupBy t)"

definition agg_val :: "AggregateClause \<Rightarrow> Tuple \<Rightarrow> Value" where
  "agg_val c t = projr (Eval (agg_Expr c) t)"

definition group_vals :: "Expr list \<Rightarrow> Tuple list \<Rightarrow> AggregateClause \<Rightarrow> RawTuple \<Rightarrow> Value list" where
  "group_vals groupBy ts c b = map (agg_val c) (filter (\<lambda>t. group_key groupBy t = b) ts)"

definition row_ok :: "Expr list \<Rightarrow> AggregateClause list \<Rightarrow> Tuple \<Rightarrow> bool" where
  "row_ok groupBy clauses t \<longleftrightarrow> mapR (\<lambda>x. Eval x t) groupBy = Inr (row_key groupBy t) \<and> key_typed (map OutputType groupBy) (row_key groupBy t) \<and>
     (\<forall>c \<in> set clauses. Eval (agg_Expr c) t = Inr (agg_val c t) \<and> val_t (agg_val c t) \<noteq> DefaultType)"

definition groups_ok :: "Expr list \<Rightarrow> AggregateClause list \<Rightarrow> Tuple list \<Rightarrow> bool" where
  "groups_ok groupBy clauses ts \<longleftrightarrow> (\<forall>c \<in> set clauses. \<forall>b. group_ok (agg_Type c) (group_vals groupBy ts c b))"

definition agg_table :: "Expr list \<Rightarrow> RawTupleDesc \<Rightarrow> Tuple list \<Rightarrow> AggregateClause \<Rightarrow> Value ExecutionHashTable \<Rightarrow> bool" where
  "agg_table groupBy d ts c ht \<longleftrightarrow> ht_ok d ht \<and> (\<forall>b. agg_of (agg_Type c) (group_vals groupBy ts c b) = Inr (map_of (ht_table ht) b))"

lemma group_vals_snoc [simp]:
  "group_vals groupBy (ts @ [t]) c b = group_vals groupBy ts c b @ (if group_key groupBy t = b then [agg_val c t] else [])"
  "group_vals groupBy [] c b = []"
  by (simp_all add: group_vals_def)

lemma groups_ok_prefix: "groups_ok groupBy clauses (ts @ us) \<Longrightarrow> groups_ok groupBy clauses ts"
proof -
  have "group_ok ty vs" if "group_ok ty (vs @ us)" for ty vs us using that by (auto simp: group_ok_def)
  then show "groups_ok groupBy clauses (ts @ us) \<Longrightarrow> groups_ok groupBy clauses ts" unfolding groups_ok_def group_vals_def by (metis filter_append map_append)
qed

lemma agg_switch_ok:
  assumes "ht_ok d ht" "key_of d key b" "agg_insert ty (map_of (ht_table ht) b) val = Inr new"
  shows "\<exists>ht'. agg_switch ty key val ht = Inr ht' \<and> ht_ok d ht' \<and>
    map_of (ht_table ht') = (case new of None \<Rightarrow> map_of (ht_table ht) | Some v \<Rightarrow> (map_of (ht_table ht))(b \<mapsto> v))"
proof (cases new)
  case None
  then show ?thesis using assms ht_ok_ops [OF assms(1,2)] by (simp add: agg_switch_def)
next
  case (Some v)
  note 1 = ht_ok_ops [OF assms(1,2)]
  note 2 = ht_ok_ops [OF 1(2) assms(2)]
  show ?thesis using assms(3) Some 1 2(3,4) by (auto simp: agg_switch_def update_conv')
qed

lemma agg_update_ok:
  assumes ht: "agg_table groupBy d ts c ht" and key: "key_of d key (group_key groupBy t)"
    and t: "Eval (agg_Expr c) t = Inr (agg_val c t)" "val_t (agg_val c t) \<noteq> DefaultType"
    and g: "group_ok (agg_Type c) (group_vals groupBy (ts @ [t]) c (group_key groupBy t))"
  shows "\<exists>ht'. agg_update t key c ht = Inr ht' \<and> agg_table groupBy d (ts @ [t]) c ht'"
proof -
  let ?b = "group_key groupBy t" and ?v = "agg_val c t" and ?ty = "agg_Type c" and ?m = "map_of (ht_table ht)"
  have ok: "ht_ok d ht" and old: "\<And>b. agg_of ?ty (group_vals groupBy ts c b) = Inr (?m b)" using ht by (simp_all add: agg_table_def)
  obtain v where "agg_of ?ty (group_vals groupBy (ts @ [t]) c ?b) = Inr (Some v)" by (rule agg_of_ok [OF g]) auto
  then have st: "agg_step ?ty ?v (?m ?b) = Inr (Some v)" using old by (simp add: agg_of_simps)
  note ops = ht_ok_ops [OF ok key]
  have "\<exists>ht'. agg_update t key c ht = Inr ht' \<and> ht_ok d ht' \<and> map_of (ht_table ht') = ?m(?b \<mapsto> v)"
  proof (cases "val_null ?v")
    case False
    then obtain new where new: "agg_insert ?ty (?m ?b) ?v = Inr new" "(case new of None \<Rightarrow> ?m ?b | Some u \<Rightarrow> Some u) = Some v"
      using st by (auto simp: agg_step_def bindR_eq_Inr)
    have "(case new of None \<Rightarrow> ?m | Some u \<Rightarrow> ?m(?b \<mapsto> u)) = ?m(?b \<mapsto> v)" using new(2) by (auto split: option.splits)
    then show ?thesis using agg_switch_ok [OF ok key new(1)] False t by (simp add: agg_update_def Value_IsNil_def)
  next
    case null: True
    show ?thesis
    proof (cases "?m ?b")
      case (Some u)
      then have "u = v" using st null by (simp add: agg_step_def)
      then have "?m(?b \<mapsto> v) = ?m" using Some by auto
      then show ?thesis using null t ops Some by (simp add: agg_update_def Value_IsNil_def)
    next
      case None
      then obtain new where new: "agg_insert ?ty (Some NewNullInt) ?v = Inr new" "(case new of None \<Rightarrow> Some NewNullInt | Some u \<Rightarrow> Some u) = Some v"
        using st null by (auto simp: agg_step_def bindR_eq_Inr)
      note ins = ht_ok_ops [OF ops(2) key]
      let ?ht = "ht\<lparr>ht_scratch := ?b, ht_table := AList.update ?b NewNullInt (ht_table ht)\<rparr>"
      have okn: "ht_ok d ?ht" "map_of (ht_table ?ht) = ?m(?b \<mapsto> NewNullInt)" using ins(4) [of NewNullInt] by (simp_all add: update_conv')
      have m: "(case new of None \<Rightarrow> ?m(?b \<mapsto> NewNullInt) | Some u \<Rightarrow> (?m(?b \<mapsto> NewNullInt))(?b \<mapsto> u)) = ?m(?b \<mapsto> v)"
        using new(2) by (auto split: option.splits)
      have "agg_insert ?ty (map_of (ht_table ?ht) ?b) ?v = Inr new" unfolding okn(2) using new(1) by simp
      from agg_switch_ok [OF okn(1) key this, unfolded okn(2) m] obtain ht' where "agg_switch ?ty key ?v ?ht = Inr ht'" "ht_ok d ht'"
          "map_of (ht_table ht') = ?m(?b \<mapsto> v)" by blast
      then show ?thesis using null t ops(1) ins(3) [of NewNullInt] None by (simp add: agg_update_def Value_IsNil_def)
    qed
  qed
  then obtain ht' where ht': "agg_update t key c ht = Inr ht'" "ht_ok d ht'" "map_of (ht_table ht') = ?m(?b \<mapsto> v)" by blast
  have "agg_of ?ty (group_vals groupBy (ts @ [t]) c b) = Inr (map_of (ht_table ht') b)" for b
    using old [of b] st ht'(3) by (auto simp: agg_of_simps)
  then show ?thesis using ht' by (auto simp: agg_table_def)
qed

definition agg_tables :: "Expr list \<Rightarrow> RawTupleDesc \<Rightarrow> Tuple list \<Rightarrow> AggregateClause list \<Rightarrow> Value ExecutionHashTable list \<Rightarrow> bool" where
  "agg_tables groupBy d ts clauses hts \<longleftrightarrow> list_all2 (agg_table groupBy d ts) clauses hts"

lemma agg_row_ok:
  assumes d: "wf_desc d" "rd_fields d = map OutputType groupBy" and hts: "agg_tables groupBy d ts clauses hts"
    and t: "row_ok groupBy clauses t" and g: "groups_ok groupBy clauses (ts @ [t])"
  shows "\<exists>hts'. agg_row groupBy clauses t hts = Inr hts' \<and> agg_tables groupBy d (ts @ [t]) clauses hts'"
proof -
  let ?key = "Extend (FromValues None) (row_key groupBy t)"
  have key: "key_of d ?key (group_key groupBy t)" using key_of_values [OF d] t by (simp add: row_ok_def group_key_def)
  have "\<exists>hts'. agg_clauses t ?key cs hs = Inr hts' \<and> list_all2 (agg_table groupBy d (ts @ [t])) cs hts'"
    if "list_all2 (agg_table groupBy d ts) cs hs" "set cs \<subseteq> set clauses" for cs hs
    using that
  proof (induction cs hs rule: list_all2_induct)
    case (Cons c cs ht hs)
    have c: "Eval (agg_Expr c) t = Inr (agg_val c t)" "val_t (agg_val c t) \<noteq> DefaultType" "group_ok (agg_Type c) (group_vals groupBy (ts @ [t]) c (group_key groupBy t))"
      using t g Cons.prems unfolding row_ok_def groups_ok_def by (simp_all del: group_vals_snoc)
    obtain ht' where "agg_update t ?key c ht = Inr ht'" "agg_table groupBy d (ts @ [t]) c ht'" using agg_update_ok [OF Cons.hyps(1) key c] by blast
    moreover obtain hts' where "agg_clauses t ?key cs hs = Inr hts'" "list_all2 (agg_table groupBy d (ts @ [t])) cs hts'" using Cons by auto
    ultimately show ?case by auto
  qed simp
  then show ?thesis using hts t by (auto simp: agg_tables_def agg_row_def row_ok_def)
qed

text \<open>Integers are copied out of a row; strings must stay readable.\<close>

definition agg_stable :: "('w, 's) Executor \<Rightarrow> AggregateClause list \<Rightarrow> Tuple list \<Rightarrow> bool" where
  "agg_stable E clauses ts \<longleftrightarrow> (\<forall>s v. val_t v = IntType \<longrightarrow> ex_Reread E s v = v) \<and>
     (\<forall>s. \<forall>c \<in> set clauses. \<forall>t \<in> set ts. ex_Reread E s (agg_val c t) = agg_val c t)"

lemma agg_insert_range:
  assumes "agg_insert ty old val = Inr (Some v)" "\<And>cur. ty = AggCount \<Longrightarrow> old = Some cur \<Longrightarrow> val_t cur = IntType"
  shows "ty \<noteq> AggCount \<and> v = val \<or> val_t v = IntType"
  using assms
  by (cases ty) (auto simp: bindR_eq_Inr NewIntValue_def zeroValue_def Value_Increment_def split: option.splits if_splits)

lemma agg_of_range: "agg_of ty vs = Inr (Some v) \<Longrightarrow> ty \<noteq> AggCount \<and> v \<in> set vs \<or> val_t v = IntType"
proof (induction vs arbitrary: v rule: rev_induct)
  case (snoc u vs)
  then obtain o' where o': "agg_of ty vs = Inr o'" "agg_step ty u o' = Inr (Some v)" by (auto simp: agg_of_simps bindR_eq_Inr)
  have n: "val_t NewNullInt = IntType" by (simp add: NewNullInt_def zeroValue_def)
  consider "o' = Some v" | "v = NewNullInt" | old where "agg_insert ty old u = Inr (Some v)" "old = o' \<or> old = Some NewNullInt"
    using o'(2) by (fastforce simp: agg_step_def bindR_eq_Inr split: if_splits option.splits)
  then show ?case
  proof cases
    case 3
    have "ty \<noteq> AggCount \<and> v = u \<or> val_t v = IntType" by (rule agg_insert_range [OF 3(1)]) (use 3(2) snoc.IH o'(1) n in auto)
    then show ?thesis by auto
  qed (use snoc.IH o'(1) n in auto)
qed (simp add: agg_of_simps)

lemma reread_stable:
  assumes "agg_tables groupBy d ts clauses hts" "agg_stable E clauses ts"
  shows "reread_tables E s hts = hts"
proof -
  have "map (\<lambda>(k, v). (k, ex_Reread E s v)) (ht_table ht) = ht_table ht" if c: "c \<in> set clauses" "agg_table groupBy d ts c ht" for c ht
  proof (rule map_idI)
    fix x assume x: "x \<in> set (ht_table ht)"
    obtain b v where bv: "x = (b, v)" by (cases x)
    have "map_of (ht_table ht) b = Some v" using c(2) x bv by (simp add: agg_table_def ht_ok_def)
    then have "agg_of (agg_Type c) (group_vals groupBy ts c b) = Inr (Some v)" using c(2) by (simp add: agg_table_def)
    from agg_of_range [OF this] have "ex_Reread E s v = v" using assms(2) c(1) by (auto simp: agg_stable_def group_vals_def)
    then show "(case x of (k, v) \<Rightarrow> (k, ex_Reread E s v)) = x" using bv by simp
  qed
  moreover have "\<exists>c \<in> set clauses. agg_table groupBy d ts c ht" if "ht \<in> set hts" for ht
    using assms(1) that unfolding agg_tables_def by (metis in_set_conv_nth list_all2_conv_all_nth)
  ultimately have "ht\<lparr>ht_table := map (\<lambda>(k, v). (k, ex_Reread E s v)) (ht_table ht)\<rparr> = ht" if "ht \<in> set hts" for ht using that by fastforce
  then show ?thesis unfolding reread_tables_def by (rule map_idI)
qed

context row_source
begin

lemma agg_loop_ok:
  assumes d: "wf_desc d" "rd_fields d = map OutputType groupBy"
    and w: "inv w" "rows s ts" and hts: "agg_tables groupBy d done' clauses hts"
    and all: "\<forall>t \<in> set ts. row_ok groupBy clauses t" "groups_ok groupBy clauses (done' @ ts)" "agg_stable E clauses (done' @ ts)"
  shows "\<exists>w' s' hts'. agg_loop groupBy clauses E w s hts = Some (Inr hts', w', s') \<and> inv w' \<and> agg_tables groupBy d (done' @ ts) clauses hts' \<and>
    foldR (agg_row groupBy clauses) ts hts = Inr hts'"
  using w hts all
proof (induction ts arbitrary: w s hts done')
  case Nil
  then obtain w1 s1 where "ex_Next E w s = (Inr False, w1, s1)" "inv w1" using end_law by blast
  moreover have "reread_tables E s1 hts = hts" using reread_stable Nil by auto
  ultimately show ?case using Nil.prems(3) by (subst agg_loop.simps) simp
next
  case (Cons t ts)
  obtain w1 s1 where n: "ex_Next E w s = (Inr True, w1, s1)" "inv w1" "rows s1 ts" "ex_Current E s1 = Inr t"
    using next_law [OF Cons.prems(1,2)] by blast
  have st: "agg_stable E clauses done'" using Cons.prems(6) by (auto simp: agg_stable_def)
  note rr = reread_stable [OF Cons.prems(3) st, of s1]
  have g: "groups_ok groupBy clauses (done' @ [t])" using groups_ok_prefix [of groupBy clauses "done' @ [t]" ts] Cons.prems(5) by simp
  obtain hts1 where h: "agg_row groupBy clauses t hts = Inr hts1" "agg_tables groupBy d (done' @ [t]) clauses hts1"
    using agg_row_ok [OF d Cons.prems(3) _ g] Cons.prems(4) by auto
  have "\<exists>w' s' hts'. agg_loop groupBy clauses E w1 s1 hts1 = Some (Inr hts', w', s') \<and> inv w' \<and> agg_tables groupBy d ((done' @ [t]) @ ts) clauses hts' \<and>
      foldR (agg_row groupBy clauses) ts hts1 = Inr hts'"
    by (rule Cons.IH [OF n(2,3) h(2)]) (use Cons.prems in simp_all)
  then show ?case using n h(1) rr by (subst agg_loop.simps) simp
qed

end


section \<open>The result rows\<close>

lemma map_of_perm: "distinct (map fst xs) \<Longrightarrow> mset ys = mset xs \<Longrightarrow> map_of ys = map_of xs \<and> distinct (map fst ys)"
  by (metis map_of_inject_set mset_eq_setD mset_map mset_eq_imp_distinct_iff)

lemma append_entries:
  assumes "ht_ok d rowHT" "distinct (map fst es)" "\<forall>b \<in> set (map fst es). length b = rd_bytes d"
  shows "\<exists>ht'. foldR (\<lambda>(key, value). appendFunc (FromRawTuple key d zeroRID) value) es rowHT = Inr ht' \<and> ht_ok d ht' \<and>
    map_of (ht_table ht') = (\<lambda>b. case map_of es b of None \<Rightarrow> map_of (ht_table rowHT) b
      | Some v \<Rightarrow> Some (case map_of (ht_table rowHT) b of None \<Rightarrow> [v] | Some cs \<Rightarrow> cs @ [v]))"
  using assms
proof (induction es arbitrary: rowHT)
  case (Cons e es)
  obtain b v where e: "e = (b, v)" by (cases e)
  have k: "key_of d (FromRawTuple b d zeroRID) b" using Cons.prems(3) e by (intro key_of_raw) simp
  note 1 = ht_ok_ops [OF Cons.prems(1) k]
  note 2 = ht_ok_ops [OF 1(2) k]
  let ?cs = "case map_of (ht_table rowHT) b of None \<Rightarrow> [v] | Some cs \<Rightarrow> cs @ [v]"
  let ?ht = "rowHT\<lparr>ht_scratch := b, ht_table := AList.update b ?cs (ht_table rowHT)\<rparr>"
  have a: "appendFunc (FromRawTuple b d zeroRID) v rowHT = Inr ?ht" using 1(1) 2(3) by (simp add: appendFunc_def)
  have ok: "ht_ok d ?ht" "map_of (ht_table ?ht) = (map_of (ht_table rowHT))(b \<mapsto> ?cs)" using 2(4) by (simp_all add: update_conv')
  have nb: "map_of es b = None" using Cons.prems(2) e by (simp add: map_of_eq_None_iff)
  obtain ht' where "foldR (\<lambda>(key, value). appendFunc (FromRawTuple key d zeroRID) value) es ?ht = Inr ht'" "ht_ok d ht'"
      "map_of (ht_table ht') = (\<lambda>b. case map_of es b of None \<Rightarrow> map_of (ht_table ?ht) b
      | Some v \<Rightarrow> Some (case map_of (ht_table ?ht) b of None \<Rightarrow> [v] | Some cs \<Rightarrow> cs @ [v]))"
    using Cons.IH [OF ok(1)] Cons.prems(2,3) e by auto
  then show ?case using a e ok(2) nb by (auto simp: fun_eq_iff split: option.splits)
qed simp

text \<open>The value of an aggregate for a group.\<close>

definition agg_result :: "Expr list \<Rightarrow> Tuple list \<Rightarrow> AggregateClause \<Rightarrow> RawTuple \<Rightarrow> Value" where
  "agg_result groupBy ts c b = the (projr (agg_of (agg_Type c) (group_vals groupBy ts c b)))"

definition permutes :: "('a list \<Rightarrow> 'a list) \<Rightarrow> bool" where
  "permutes ord \<longleftrightarrow> (\<forall>xs. mset (ord xs) = mset xs)"

lemma agg_table_lookup:
  assumes "agg_table groupBy d ts c ht" "groups_ok groupBy clauses ts" "c \<in> set clauses"
  shows "map_of (ht_table ht) b = (if b \<in> group_key groupBy ` set ts then Some (agg_result groupBy ts c b) else None)"
proof -
  have m: "agg_of (agg_Type c) (group_vals groupBy ts c b) = Inr (map_of (ht_table ht) b)" using assms(1) by (simp add: agg_table_def)
  show ?thesis
  proof (cases "b \<in> group_key groupBy ` set ts")
    case True
    then have ne: "group_vals groupBy ts c b \<noteq> []" by (auto simp: group_vals_def filter_empty_conv)
    have "group_ok (agg_Type c) (group_vals groupBy ts c b)" using assms(2,3) by (simp add: groups_ok_def)
    from agg_of_ok [OF this ne] obtain v where "agg_of (agg_Type c) (group_vals groupBy ts c b) = Inr (Some v)" by blast
    then show ?thesis using m True by (simp add: agg_result_def)
  next
    case False
    then have "filter (\<lambda>t. group_key groupBy t = b) ts = []" by (auto simp: filter_empty_conv)
    then have "group_vals groupBy ts c b = []" by (simp add: group_vals_def)
    then show ?thesis using m False by (simp add: agg_of_simps)
  qed
qed

lemma append_tables:
  assumes "list_all2 (agg_table groupBy d ts) cs hts" "set cs \<subseteq> set clauses" "groups_ok groupBy clauses ts" "permutes ord1"
    and len: "\<forall>t \<in> set ts. length (group_key groupBy t) = rd_bytes d"
    and r: "ht_ok d rowHT" "map_of (ht_table rowHT) = (\<lambda>b. if pre \<noteq> [] \<and> b \<in> group_key groupBy ` set ts then Some (map (\<lambda>c. agg_result groupBy ts c b) pre) else None)"
  shows "\<exists>ht'. foldR (ht_Iterate ord1 appendFunc) hts rowHT = Inr ht' \<and> ht_ok d ht' \<and>
    map_of (ht_table ht') = (\<lambda>b. if pre @ cs \<noteq> [] \<and> b \<in> group_key groupBy ` set ts then Some (map (\<lambda>c. agg_result groupBy ts c b) (pre @ cs)) else None)"
  using assms(1,2) r
proof (induction cs hts arbitrary: pre rowHT rule: list_all2_induct)
  case (Cons c cs ht hts)
  let ?K = "group_key groupBy ` set ts"
  have ht: "ht_ok d ht" using Cons.hyps(1) by (simp add: agg_table_def)
  have lk: "map_of (ht_table ht) = (\<lambda>b. if b \<in> ?K then Some (agg_result groupBy ts c b) else None)"
    using agg_table_lookup [OF Cons.hyps(1) assms(3)] Cons.prems(1) by (simp add: fun_eq_iff)
  have perm: "map_of (ord1 (ht_table ht)) = map_of (ht_table ht)" "distinct (map fst (ord1 (ht_table ht)))" "set (ord1 (ht_table ht)) = set (ht_table ht)"
    using map_of_perm [of "ht_table ht" "ord1 (ht_table ht)"] ht assms(4) mset_eq_setD by (auto simp: permutes_def ht_ok_def)
  have keys: "\<forall>b \<in> set (map fst (ord1 (ht_table ht))). length b = rd_bytes d"
  proof
    fix b assume "b \<in> set (map fst (ord1 (ht_table ht)))"
    then have "map_of (ht_table ht) b \<noteq> None" unfolding map_of_eq_None_iff using perm(3) by auto
    then show "length b = rd_bytes d" using len lk by (auto split: if_splits)
  qed
  obtain ht1 where h1: "ht_Iterate ord1 appendFunc ht rowHT = Inr ht1" "ht_ok d ht1"
      "map_of (ht_table ht1) = (\<lambda>b. case map_of (ht_table ht) b of None \<Rightarrow> map_of (ht_table rowHT) b
        | Some v \<Rightarrow> Some (case map_of (ht_table rowHT) b of None \<Rightarrow> [v] | Some cs \<Rightarrow> cs @ [v]))"
    using append_entries [OF Cons.prems(2) perm(2) keys] perm(1) ht by (auto simp: ht_Iterate_def ht_ok_def)
  have "map_of (ht_table ht1) = (\<lambda>b. if pre @ [c] \<noteq> [] \<and> b \<in> ?K then Some (map (\<lambda>c. agg_result groupBy ts c b) (pre @ [c])) else None)"
    unfolding h1(3) Cons.prems(3) lk by (auto simp: fun_eq_iff)
  from Cons.IH [OF _ h1(2) this, unfolded append.assoc append.simps] Cons.prems(1) h1(1) show ?case by auto
next
  case Nil
  then show ?case unfolding append_Nil2 by simp
qed

definition result_ok :: "Expr list \<Rightarrow> AggregateClause list \<Rightarrow> Tuple list \<Rightarrow> bool" where
  "result_ok groupBy clauses ts \<longleftrightarrow> (\<forall>c \<in> set clauses. \<forall>t \<in> set ts.
     let v = agg_result groupBy ts c (group_key groupBy t) in val_t v = OutputType (agg_Expr c) \<and> value_wf v \<and> storable v)"

text \<open>The row of a group: the columns of its key, then the values of its aggregates.\<close>

definition group_row :: "Expr list \<Rightarrow> AggregateClause list \<Rightarrow> Tuple list \<Rightarrow> RawTuple \<Rightarrow> Tuple \<Rightarrow> bool" where
  "group_row groupBy clauses ts b u \<longleftrightarrow>
     (\<exists>t \<in> set ts. group_key groupBy t = b \<and> tuple_has u (row_key groupBy t @ map (\<lambda>c. agg_result groupBy ts c b) clauses))"

lemma save_row:
  assumes kd: "NewRawTupleDesc (map OutputType groupBy) = Inr kd" and d: "NewRawTupleDesc (NewAggregateNode_schema groupBy clauses) = Inr d"
    and ts: "\<forall>t \<in> set ts. row_ok groupBy clauses t" "result_ok groupBy clauses ts" and b: "b \<in> group_key groupBy ` set ts"
  shows "\<exists>u. saveResultTupleFunc (NewAggregateNode_schema groupBy clauses) (FromRawTuple b kd zeroRID) (map (\<lambda>c. agg_result groupBy ts c b) clauses) out = Inr (out @ [u]) \<and>
    group_row groupBy clauses ts b u"
proof -
  obtain t where t: "t \<in> set ts" "b = group_key groupBy t" using b by blast
  let ?vs = "map (\<lambda>c. agg_result groupBy ts c b) clauses" and ?key = "FromRawTuple b kd zeroRID"
  have wk: "wf_desc kd" "rd_fields kd = map OutputType groupBy" using NewRawTupleDesc_wf [OF kd] by auto
  have ty: "key_typed (map OutputType groupBy) (row_key groupBy t)" using ts(1) t(1) by (simp add: row_ok_def)
  note key = key_bytes_read [OF wk ty, folded group_key_def, folded t(2)]
  have v: "\<forall>v \<in> set ?vs. value_wf v \<and> storable v" "map val_t ?vs = map (\<lambda>c. OutputType (agg_Expr c)) clauses"
    using ts(2) t by (auto simp: result_ok_def Let_def)
  let ?r = "Extend (FromValues None) ?vs"
  have r: "tuple_ok ?r" "tuple_types ?r = map (\<lambda>c. OutputType (agg_Expr c)) clauses"
    using v by (auto simp: tuple_ok_def Extend_def FromValues_def extra_list_def tuple_types_def)
  have has: "tuple_has ?r ?vs" by (cases "?vs = []") (use FromValues_has [of ?vs] in \<open>simp_all add: Extend_def FromValues_def tuple_has_def NumColumns_def extra_list_def\<close>)
  have kt: "tuple_types ?key = map OutputType groupBy" using wk(2) by (simp add: tuple_types_def FromRawTuple_def extra_list_def)
  have d': "NewRawTupleDesc (tuple_types ?key @ tuple_types ?r) = Inr d" using d kt r(2) by (simp add: NewAggregateNode_schema_def)
  obtain u where u: "MergeTuples (replicate (BytesPerTuple d) 0) d ?key ?r = Inr u" "tuple_has u (row_key groupBy t @ ?vs)"
    using MergeTuples_columns [OF key(2) r(1) d' _ key(1) has, of "replicate (BytesPerTuple d) 0"] by auto
  then have "group_row groupBy clauses ts b u" using t by (auto simp: group_row_def)
  then show ?thesis using u(1) d by (simp add: saveResultTupleFunc_def)
qed

lemma save_rows:
  assumes "NewRawTupleDesc (map OutputType groupBy) = Inr kd" "NewRawTupleDesc (NewAggregateNode_schema groupBy clauses) = Inr d"
    "\<forall>t \<in> set ts. row_ok groupBy clauses t" "result_ok groupBy clauses ts"
    and es: "\<forall>(b, vs) \<in> set es. b \<in> group_key groupBy ` set ts \<and> vs = map (\<lambda>c. agg_result groupBy ts c b) clauses"
  shows "\<exists>us. foldR (\<lambda>(key, value). saveResultTupleFunc (NewAggregateNode_schema groupBy clauses) (FromRawTuple key kd zeroRID) value) es out = Inr (out @ us) \<and>
    list_all2 (group_row groupBy clauses ts) (map fst es) us"
  using es
proof (induction es arbitrary: out)
  case (Cons e es)
  obtain b where e: "e = (b, map (\<lambda>c. agg_result groupBy ts c b) clauses)" "b \<in> group_key groupBy ` set ts" using Cons.prems by (cases e) auto
  obtain u where u: "saveResultTupleFunc (NewAggregateNode_schema groupBy clauses) (FromRawTuple b kd zeroRID) (map (\<lambda>c. agg_result groupBy ts c b) clauses) out = Inr (out @ [u])"
      "group_row groupBy clauses ts b u"
    using save_row [OF assms(1-4) e(2)] by blast
  obtain us where "foldR (\<lambda>(key, value). saveResultTupleFunc (NewAggregateNode_schema groupBy clauses) (FromRawTuple key kd zeroRID) value) es (out @ [u]) = Inr ((out @ [u]) @ us)"
      "list_all2 (group_row groupBy clauses ts) (map fst es) us"
    using Cons.IH [of "out @ [u]"] Cons.prems by auto
  then show ?case using u e(1) by (auto intro!: exI [of _ "u # us"])
qed simp

lemma agg_results_ok:
  assumes kd: "NewRawTupleDesc (map OutputType groupBy) = Inr kd" and d: "NewRawTupleDesc (NewAggregateNode_schema groupBy clauses) = Inr d"
    and ts: "\<forall>t \<in> set ts. row_ok groupBy clauses t" "groups_ok groupBy clauses ts" "result_ok groupBy clauses ts"
    and hts: "agg_tables groupBy kd ts clauses hts" and ne: "clauses \<noteq> []" and ord: "permutes ord1" "permutes ord2"
  shows "\<exists>gs us. agg_results ord1 ord2 (NewAggregateNode_schema groupBy clauses) kd hts = Inr us \<and> distinct gs \<and> set gs = group_key groupBy ` set ts \<and>
    list_all2 (group_row groupBy clauses ts) gs us"
proof -
  let ?K = "group_key groupBy ` set ts"
  have wk: "wf_desc kd" "rd_fields kd = map OutputType groupBy" using NewRawTupleDesc_wf [OF kd] by auto
  have len: "\<forall>t \<in> set ts. length (group_key groupBy t) = rd_bytes kd"
    using ts(1) length_key_bytes wk by (auto simp: row_ok_def group_key_def wf_desc_def)
  obtain ht where ht: "foldR (ht_Iterate ord1 appendFunc) hts (NewExecutionHashTable kd) = Inr ht" "ht_ok kd ht"
      "map_of (ht_table ht) = (\<lambda>b. if b \<in> ?K then Some (map (\<lambda>c. agg_result groupBy ts c b) clauses) else None)"
    using append_tables [of groupBy kd ts clauses hts clauses ord1 "NewExecutionHashTable kd" "[]", unfolded append_Nil] hts ts(2) ord(1) len ht_New_ok [of kd] ne
    by (simp add: agg_tables_def NewExecutionHashTable_def [of kd] fun_eq_iff) blast
  let ?es = "ord2 (ht_table ht)"
  have perm: "map_of ?es = map_of (ht_table ht)" "distinct (map fst ?es)"
    using map_of_perm [of "ht_table ht" ?es] ht(2) ord(2) by (auto simp: permutes_def ht_ok_def)
  have es: "b \<in> ?K \<and> vs = map (\<lambda>c. agg_result groupBy ts c b) clauses" if "(b, vs) \<in> set ?es" for b vs
  proof -
    have "map_of ?es b = Some vs" using perm(2) that by simp
    then show ?thesis using perm(1) ht(3) by (auto split: if_splits)
  qed
  obtain us where us: "foldR (\<lambda>(key, value). saveResultTupleFunc (NewAggregateNode_schema groupBy clauses) (FromRawTuple key kd zeroRID) value) ?es [] = Inr us"
      "list_all2 (group_row groupBy clauses ts) (map fst ?es) us"
    using save_rows [OF kd d ts(1,3), of ?es "[]"] es by auto
  have "b \<in> set (map fst ?es)" if "b \<in> ?K" for b
  proof -
    have "map_of ?es b \<noteq> None" using that perm(1) ht(3) by simp
    then show ?thesis unfolding map_of_eq_None_iff by simp
  qed
  then have "set (map fst ?es) = ?K" using es by force
  moreover have "agg_results ord1 ord2 (NewAggregateNode_schema groupBy clauses) kd hts = Inr us"
    using ht(1,2) us(1) by (simp add: agg_results_def ht_Iterate_def ht_ok_def)
  ultimately show ?thesis using perm(2) us(2) by blast
qed



section \<open>The rows of an aggregation\<close>

definition ag_rows :: "'s AggregateExecutor \<Rightarrow> Tuple list \<Rightarrow> bool" where
  "ag_rows e us \<longleftrightarrow> ag_err e = None \<and> cursor_rows (ag_tuples e) (ag_tIdx e) us"

definition ag_input :: "Expr list \<Rightarrow> AggregateClause list \<Rightarrow> ('w, 's) Executor \<Rightarrow> Tuple list \<Rightarrow> bool" where
  "ag_input groupBy clauses E ts \<longleftrightarrow> (\<forall>t \<in> set ts. row_ok groupBy clauses t) \<and> groups_ok groupBy clauses ts \<and> agg_stable E clauses ts"

definition ag_ready :: "((RawTuple \<times> Value) list \<Rightarrow> (RawTuple \<times> Value) list) \<Rightarrow> ((RawTuple \<times> Value list) list \<Rightarrow> (RawTuple \<times> Value list) list) \<Rightarrow>
    Expr list \<Rightarrow> AggregateClause list \<Rightarrow> ('w, 's) Executor \<Rightarrow> ('s \<Rightarrow> Tuple list \<Rightarrow> bool) \<Rightarrow> 's AggregateExecutor \<Rightarrow> Tuple list \<Rightarrow> bool" where
  "ag_ready ord1 ord2 groupBy clauses E ready e us \<longleftrightarrow> ag_err e = None \<and>
     (\<exists>ts kd hts. ready (ag_child e) ts \<and> NewRawTupleDesc (map OutputType groupBy) = Inr kd \<and> ag_input groupBy clauses E ts \<and>
        foldR (agg_row groupBy clauses) ts (map (\<lambda>_. NewExecutionHashTable kd) clauses) = Inr hts \<and>
        agg_results ord1 ord2 (NewAggregateNode_schema groupBy clauses) kd hts = Inr us)"

lemma new_tables: "agg_tables groupBy kd [] clauses (map (\<lambda>_. NewExecutionHashTable kd) clauses)"
  by (auto simp: agg_tables_def agg_table_def list_all2_map2 ht_New_ok agg_of_simps NewExecutionHashTable_def [of kd] intro!: list.rel_refl_strong)
    (simp add: ht_ok_def BytesPerTuple_def)

context row_source
begin

lemma agg_init:
  assumes w: "inv w" and e: "ag_ready ord1 ord2 groupBy clauses E ready e us"
  shows "\<exists>w' e'. Agg_Init ord1 ord2 groupBy clauses E w e = (Inr (), w', e') \<and> inv w' \<and> ag_rows e' us"
proof -
  obtain ts kd hts where r: "ready (ag_child e) ts" "NewRawTupleDesc (map OutputType groupBy) = Inr kd" "ag_input groupBy clauses E ts"
      "foldR (agg_row groupBy clauses) ts (map (\<lambda>_. NewExecutionHashTable kd) clauses) = Inr hts"
      "agg_results ord1 ord2 (NewAggregateNode_schema groupBy clauses) kd hts = Inr us" "ag_err e = None"
    using e unfolding ag_ready_def by blast
  have wk: "wf_desc kd" "rd_fields kd = map OutputType groupBy" using NewRawTupleDesc_wf [OF r(2)] by auto
  obtain w1 c1 where 1: "ex_Init E w (ag_child e) = (Inr (), w1, c1)" "inv w1" "rows c1 ts" using init_law [OF w r(1)] by blast
  obtain w2 c2 where "agg_loop groupBy clauses E w1 c1 (map (\<lambda>_. NewExecutionHashTable kd) clauses) = Some (Inr hts, w2, c2)" "inv w2"
    using agg_loop_ok [OF wk 1(2,3) new_tables [of groupBy kd clauses]] r(3,4) by (auto simp: ag_input_def)
  then show ?thesis using 1(1) r(2,5,6) by (simp add: Agg_Init_def settle_def ag_rows_def Let_def)
qed

lemma agg_source: "row_source (AggregateExec ord1 ord2 groupBy clauses E) inv (ag_ready ord1 ord2 groupBy clauses E ready) ag_rows"
proof
  let ?E = "AggregateExec ord1 ord2 groupBy clauses E"
  show "\<exists>w' s'. ex_Init ?E w s = (Inr (), w', s') \<and> inv w' \<and> ag_rows s' us" if "inv w" "ag_ready ord1 ord2 groupBy clauses E ready s us" for w s us
    using agg_init [OF that] by (simp add: AggregateExec_def)
  show "\<exists>w' s'. ex_Next ?E w s = (Inr True, w', s') \<and> inv w' \<and> ag_rows s' us \<and> ex_Current ?E s' = Inr u" if a: "inv w" "ag_rows s (u # us)" for w s u us
    using a cursor_next [of "ag_tuples s" "ag_tIdx s" u us] by (simp add: ag_rows_def AggregateExec_def)
  show "\<exists>w' s'. ex_Next ?E w s = (Inr False, w', s') \<and> inv w' \<and> ex_Error ?E s' = None" if "inv w" "ag_rows s []" for w s
    using that cursor_end [of "ag_tuples s" "ag_tIdx s"] by (simp add: ag_rows_def AggregateExec_def)
  show "ex_Error ?E s = None" if "ag_rows s us" for s us using that by (simp add: ag_rows_def AggregateExec_def)
qed

end


section \<open>Properties\<close>

text \<open>
  What SQL means by the aggregates of a group: nulls do not count, and an aggregate other than a
  count is null when there is nothing else.
\<close>

fun sql_aggregate :: "AggregatorType \<Rightarrow> Value list \<Rightarrow> Value \<Rightarrow> bool" where
  "sql_aggregate AggCount vs v \<longleftrightarrow> v = NewIntValue (of_nat (length (nonnull vs)))"
| "sql_aggregate AggSum vs v \<longleftrightarrow>
     (if nonnull vs = [] then val_null v else val_t v = IntType \<and> \<not> val_null v \<and> val_int v = sum_list (map val_int (nonnull vs)))"
| "sql_aggregate AggMin vs v \<longleftrightarrow>
     (if nonnull vs = [] then val_null v else v \<in> set (nonnull vs) \<and> (\<forall>u \<in> set (nonnull vs). \<exists>c \<le> 0. Value_Compare v u = Inr c))"
| "sql_aggregate AggMax vs v \<longleftrightarrow>
     (if nonnull vs = [] then val_null v else v \<in> set (nonnull vs) \<and> (\<forall>u \<in> set (nonnull vs). \<exists>c \<ge> 0. Value_Compare v u = Inr c))"

lemma agg_spec_sql:
  assumes "agg_spec ty vs v" "vs \<noteq> []" "ty = AggCount \<longrightarrow> \<not> val_null (hd vs)"
  shows "sql_aggregate ty vs v"
  using assms nonnull_hd [of vs] by (cases ty) (auto split: if_splits)

definition counts_ok :: "Expr list \<Rightarrow> AggregateClause list \<Rightarrow> Tuple list \<Rightarrow> bool" where
  "counts_ok groupBy clauses ts \<longleftrightarrow> (\<forall>c \<in> set clauses. agg_Type c = AggCount \<longrightarrow>
     (\<forall>t \<in> set ts. \<not> val_null (hd (group_vals groupBy ts c (group_key groupBy t)))))"

definition aggregated :: "Expr list \<Rightarrow> AggregateClause list \<Rightarrow> Tuple list \<Rightarrow> RawTuple \<Rightarrow> Tuple \<Rightarrow> bool" where
  "aggregated groupBy clauses ts b u \<longleftrightarrow> (\<exists>t \<in> set ts. \<exists>vs. group_key groupBy t = b \<and> tuple_has u (row_key groupBy t @ vs) \<and>
     list_all2 (\<lambda>c v. sql_aggregate (agg_Type c) (group_vals groupBy ts c b) v) clauses vs)"

lemma group_row_aggregated:
  assumes "group_row groupBy clauses ts b u" "groups_ok groupBy clauses ts" "counts_ok groupBy clauses ts"
  shows "aggregated groupBy clauses ts b u"
proof -
  obtain t where t: "t \<in> set ts" "group_key groupBy t = b" "tuple_has u (row_key groupBy t @ map (\<lambda>c. agg_result groupBy ts c b) clauses)"
    using assms(1) by (auto simp: group_row_def)
  have "sql_aggregate (agg_Type c) (group_vals groupBy ts c b) (agg_result groupBy ts c b)" if "c \<in> set clauses" for c
  proof -
    have ne: "group_vals groupBy ts c b \<noteq> []" using t(1,2) by (auto simp: group_vals_def filter_empty_conv)
    moreover have "group_ok (agg_Type c) (group_vals groupBy ts c b)" using assms(2) that by (simp add: groups_ok_def)
    ultimately obtain v where "agg_of (agg_Type c) (group_vals groupBy ts c b) = Inr (Some v)" "agg_spec (agg_Type c) (group_vals groupBy ts c b) v"
      using agg_of_ok by blast
    moreover have "agg_Type c = AggCount \<longrightarrow> \<not> val_null (hd (group_vals groupBy ts c b))" using assms(3) that t(1,2) by (auto simp: counts_ok_def)
    ultimately show ?thesis using agg_spec_sql [OF _ ne] by (simp add: agg_result_def)
  qed
  then have "list_all2 (\<lambda>c v. sql_aggregate (agg_Type c) (group_vals groupBy ts c b) v) clauses (map (\<lambda>c. agg_result groupBy ts c b) clauses)"
    by (simp add: list_all2_map2 list.rel_refl_strong)
  then show ?thesis using t unfolding aggregated_def by blast
qed

text \<open>
  C19: Aggregation.  Over a source of rows on which the keys and the aggregated expressions
  evaluate, are storable and stay readable, whose sums are over integers, whose results have the
  declared column types (so no count over strings), with fewer than \<open>2^62\<close> rows and no count
  whose group starts with a null (such a count is one too high), an aggregation with at least
  one aggregate delivers exactly one row for every distinct key of the input, and in it the
  key's columns followed by the aggregates of the rows of that key as SQL defines them: nulls are
  ignored, counts count the other values, sums wrap around, minima and maxima are values of the
  group, and these three are null when the group has only nulls.
\<close>

theorem aggregate_groups:
  assumes src: "row_source E W ready rows" and w: "W w" and ts: "ready c ts" "ag_input groupBy clauses E ts" "result_ok groupBy clauses ts" "counts_ok groupBy clauses ts"
    and desc: "NewRawTupleDesc (map OutputType groupBy) = Inr kd" "NewRawTupleDesc (NewAggregateNode_schema groupBy clauses) = Inr d"
    and ne: "clauses \<noteq> []" and ord: "permutes ord1" "permutes ord2"
  shows "\<exists>w' e' gs us. ex_Init (AggregateExec ord1 ord2 groupBy clauses E) w (NewAggregateExecutor c) = (Inr (), w', e') \<and> W w' \<and> ag_rows e' us \<and>
    distinct gs \<and> set gs = group_key groupBy ` set ts \<and> list_all2 (aggregated groupBy clauses ts) gs us \<and>
    row_source (AggregateExec ord1 ord2 groupBy clauses E) W (ag_ready ord1 ord2 groupBy clauses E ready) ag_rows"
proof -
  have wk: "wf_desc kd" "rd_fields kd = map OutputType groupBy" using NewRawTupleDesc_wf [OF desc(1)] by auto
  have i: "\<forall>t \<in> set ts. row_ok groupBy clauses t" "groups_ok groupBy clauses ts" "agg_stable E clauses ts" using ts(2) by (simp_all add: ag_input_def)
  obtain w1 c1 where "ex_Init E w c = (Inr (), w1, c1)" "W w1" "rows c1 ts" using row_source.init_law [OF src w ts(1)] by blast
  then obtain hts where h: "agg_tables groupBy kd ts clauses hts" "foldR (agg_row groupBy clauses) ts (map (\<lambda>_. NewExecutionHashTable kd) clauses) = Inr hts"
    using row_source.agg_loop_ok [OF src wk _ _ new_tables [of groupBy kd clauses], of w1 c1 ts] i by auto
  obtain gs us where u: "agg_results ord1 ord2 (NewAggregateNode_schema groupBy clauses) kd hts = Inr us" "distinct gs" "set gs = group_key groupBy ` set ts"
      "list_all2 (group_row groupBy clauses ts) gs us"
    using agg_results_ok [OF desc i(1,2) ts(3) h(1) ne ord] by blast
  have "ag_ready ord1 ord2 groupBy clauses E ready (NewAggregateExecutor c) us"
    unfolding ag_ready_def NewAggregateExecutor_def using ts(1,2) desc(1) h(2) u(1) by auto
  then obtain w' e' where "Agg_Init ord1 ord2 groupBy clauses E w (NewAggregateExecutor c) = (Inr (), w', e')" "W w'" "ag_rows e' us"
    using row_source.agg_init [OF src w] by blast
  moreover have "list_all2 (aggregated groupBy clauses ts) gs us" using u(4) group_row_aggregated [OF _ i(2) ts(4)] by (rule list_all2_mono)
  moreover have "ex_Init (AggregateExec ord1 ord2 groupBy clauses E) = Agg_Init ord1 ord2 groupBy clauses E" by (simp add: AggregateExec_def)
  ultimately show ?thesis using u(2,3) row_source.agg_source [OF src, of ord1 ord2 groupBy clauses] by metis
qed

definition demo_sum :: "AggregateClause list" where
  "demo_sum = [\<lparr>agg_Type = AggSum, agg_Expr = BoundValueExpr 0 IntType ''a''\<rparr>]"

theorem aggregate_groups_witness:
  "\<exists>w' e' u v. ex_Init (AggregateExec (\<lambda>xs. xs) (\<lambda>xs. xs) [] demo_sum (ValuesExec demo_values [IntType])) () (NewAggregateExecutor NewValuesExecutor) = (Inr (), w', e') \<and>
     ag_rows e' [u] \<and> tuple_has u [v] \<and> val_int v = 10"
proof -
  let ?ts = "map (\<lambda>n. FromValues (Some [NewIntValue n])) [1, 2, 3, 4]" and ?V = "ValuesExec demo_values [IntType] :: (unit, ValuesExecutor) Executor"
  let ?c = "\<lparr>agg_Type = AggSum, agg_Expr = BoundValueExpr 0 IntType ''a''\<rparr>"
  have r: "values_ready demo_values [IntType] NewValuesExecutor ?ts" by (simp add: values_ready_def demo_values_def const_row_def)
  have src: "row_source ?V (\<lambda>_. True) (values_ready demo_values [IntType]) (values_rows demo_values [IntType])" by (rule vals.row_source_axioms)
  note s = agg_val_def Tuple_GetValue_def FromValues_def extra_list_def nth_checked_def NewIntValue_def zeroValue_def
  have gk: "group_key [] t = []" "row_key [] t = []" for t by (simp_all add: group_key_def row_key_def key_bytes_def)
  have gv: "group_vals [] ?ts c b = (if b = [] then map (agg_val c) ?ts else [])" for c b by (simp add: group_vals_def gk)
  have ok: "ag_input [] demo_sum ?V ?ts"
    unfolding ag_input_def row_ok_def groups_ok_def gv gk agg_stable_def demo_sum_def by (simp add: s group_ok_def same_type_def key_typed_def ValuesExec_def)
  have res: "result_ok [] demo_sum ?ts"
    unfolding result_ok_def demo_sum_def agg_result_def gv gk by (simp add: s agg_of_def agg_step_def IntValue_def value_wf_def storable_def MinInt64_def)
  have cnt: "counts_ok [] demo_sum ?ts" by (simp add: counts_ok_def demo_sum_def)
  obtain kd where kd: "NewRawTupleDesc (map OutputType []) = Inr kd" using NewRawTupleDesc_eq [of "[]"] by auto
  obtain d where d: "NewRawTupleDesc (NewAggregateNode_schema [] demo_sum) = Inr d"
    using NewRawTupleDesc_eq [of "[IntType]"] by (auto simp: NewAggregateNode_schema_def demo_sum_def total_size_def type_size_def size_defs)
  have ne: "demo_sum \<noteq> []" and p: "permutes (\<lambda>xs. xs)" by (simp_all add: demo_sum_def permutes_def)
  obtain w' e' gs us where a: "ex_Init (AggregateExec (\<lambda>xs. xs) (\<lambda>xs. xs) [] demo_sum ?V) () (NewAggregateExecutor NewValuesExecutor) = (Inr (), w', e')"
      "ag_rows e' us" "distinct gs" "set gs = {[]}" "list_all2 (aggregated [] demo_sum ?ts) gs us"
    using aggregate_groups [OF src TrueI r ok res cnt kd d ne p p, where w = "()"] gk by auto
  have "length gs = 1" using distinct_card [OF a(3)] a(4) by simp
  then have "gs = [[]]" using a(4) by (cases gs) auto
  then obtain u where u: "us = [u]" "aggregated [] demo_sum ?ts [] u" using a(5) by (auto simp: list_all2_Cons1)
  then obtain v where "tuple_has u [v]" "sql_aggregate AggSum (group_vals [] ?ts ?c []) v"
    by (auto simp: aggregated_def demo_sum_def gk list_all2_Cons1)
  moreover have "nonnull (group_vals [] ?ts ?c []) = map NewIntValue [1, 2, 3, 4]" unfolding gv by (simp add: s nonnull_def)
  ultimately show ?thesis using a(1,2) u(1) by (auto simp: NewIntValue_def zeroValue_def)
qed

text \<open>A count includes a null that comes first, and grouping without an aggregate yields no row at all.\<close>

lemma count_counts_leading_null: "agg_of AggCount [NewNullInt, NewIntValue 5] = Inr (Some (NewIntValue 2))"
  by (simp add: agg_of_def agg_step_def NewNullInt_def NewIntValue_def zeroValue_def Value_Increment_def MaxInt64_def)

lemma group_by_alone_is_empty:
  assumes "permutes ord2"
  shows "agg_results ord1 ord2 schema kd [] = Inr []"
proof -
  have "mset (ord2 []) = mset []" using assms unfolding permutes_def by blast
  then show ?thesis by (simp add: agg_results_def ht_Iterate_def NewExecutionHashTable_def)
qed

end
