(* ===== verification/Merge_Join.thy ===== *)
theory Merge_Join
  imports Hash_Join
begin

text \<open>
  \<^verbatim>\<open>execution/sort_merge_join_executor.go\<close>: the join of two sides that are sorted on their keys.
\<close>

section \<open>The operator\<close>

record ('a, 'b) SortMergeJoinExecutor =
  sm_left :: 'a
  sm_right :: 'b
  sm_err :: "fault option"
  sm_lkeySchema :: "RawTupleDesc option"
  sm_rkeySchema :: "RawTupleDesc option"
  sm_tIdx :: int
  sm_tuples :: "Tuple list"
  leftNoNext :: bool
  rightNoNext :: bool
  sm_leftDesc :: "RawTupleDesc option"
  sm_rightDesc :: "RawTupleDesc option"
  sm_outPutdesc :: "RawTupleDesc option"

definition NewSortMergeJoinExecutor :: "'a \<Rightarrow> 'b \<Rightarrow> ('a, 'b) SortMergeJoinExecutor" where
  "NewSortMergeJoinExecutor left right =
     \<lparr>sm_left = left, sm_right = right, sm_err = None, sm_lkeySchema = None, sm_rkeySchema = None, sm_tIdx = 0, sm_tuples = [],
      leftNoNext = False, rightNoNext = False, sm_leftDesc = None, sm_rightDesc = None, sm_outPutdesc = None\<rparr>"

definition advance_left :: "('w, 'a) Executor \<Rightarrow> 'w \<Rightarrow> ('a, 'b) SortMergeJoinExecutor \<Rightarrow> unit res \<times> ('w \<times> ('a, 'b) SortMergeJoinExecutor)" where
  "advance_left L w e =
     (case ex_Next L w (sm_left e) of
        (Inl f, w', l) \<Rightarrow> (Inl f, w', e\<lparr>sm_left := l\<rparr>)
      | (Inr found, w', l) \<Rightarrow> (Inr (), w', e\<lparr>sm_left := l, leftNoNext := (leftNoNext e \<or> \<not> found)\<rparr>))"

definition advance_right :: "('w, 'b) Executor \<Rightarrow> 'w \<Rightarrow> ('a, 'b) SortMergeJoinExecutor \<Rightarrow> unit res \<times> ('w \<times> ('a, 'b) SortMergeJoinExecutor)" where
  "advance_right R w e =
     (case ex_Next R w (sm_right e) of
        (Inl f, w', r) \<Rightarrow> (Inl f, w', e\<lparr>sm_right := r\<rparr>)
      | (Inr found, w', r) \<Rightarrow> (Inr (), w', e\<lparr>sm_right := r, rightNoNext := (rightNoNext e \<or> \<not> found)\<rparr>))"

text \<open>Both key schemas are built from the left keys.\<close>

definition sm_descs :: "Expr list \<Rightarrow> gtype list \<Rightarrow> gtype list \<Rightarrow> (RawTupleDesc \<times> RawTupleDesc \<times> RawTupleDesc \<times> RawTupleDesc) res" where
  "sm_descs leftKeys lschema rschema =
     bindR (NewRawTupleDesc lschema) (\<lambda>ld.
     bindR (NewRawTupleDesc rschema) (\<lambda>rd.
     bindR (NewRawTupleDesc (lschema @ rschema)) (\<lambda>od.
     bindR (NewRawTupleDesc (map OutputType leftKeys)) (\<lambda>kd. Inr (ld, rd, od, kd)))))"

definition SMJ_Init :: "Expr list \<Rightarrow> ('w, 'a) Executor \<Rightarrow> ('w, 'b) Executor \<Rightarrow> 'w \<Rightarrow> ('a, 'b) SortMergeJoinExecutor \<Rightarrow>
    unit res \<times> ('w \<times> ('a, 'b) SortMergeJoinExecutor)" where
  "SMJ_Init leftKeys L R w e =
     (case ex_Init L w (sm_left e) of
        (Inl f, w1, l1) \<Rightarrow> (Inl f, w1, e\<lparr>sm_left := l1, sm_err := Some f\<rparr>)
      | (Inr _, w1, l1) \<Rightarrow>
     (case ex_Init R w1 (sm_right e) of
        (Inl f, w2, r1) \<Rightarrow> (Inl f, w2, e\<lparr>sm_left := l1, sm_right := r1, sm_err := Some f\<rparr>)
      | (Inr _, w2, r1) \<Rightarrow>
     (case sm_descs leftKeys (ex_Schema L) (ex_Schema R) of
        Inl f \<Rightarrow> (Inl f, w2, e\<lparr>sm_left := l1, sm_right := r1\<rparr>)
      | Inr (ld, rd, od, kd) \<Rightarrow>
          let e1 = e\<lparr>sm_left := l1, sm_right := r1, sm_leftDesc := Some ld, sm_rightDesc := Some rd, sm_outPutdesc := Some od,
                     sm_lkeySchema := Some kd, sm_rkeySchema := Some kd, leftNoNext := False, rightNoNext := False\<rparr>
          in (case advance_left L w2 e1 of
                (Inl f, st) \<Rightarrow> (Inl f, st)
              | (Inr _, w3, e2) \<Rightarrow>
             (case advance_right R w3 e2 of
                (Inl f, st) \<Rightarrow> (Inl f, st)
              | (Inr _, w4, e3) \<Rightarrow> (Inr (), w4, e3\<lparr>sm_tIdx := - 1, sm_tuples := []\<rparr>))))))"

text \<open>\<^verbatim>\<open>joinKey\<close>: the values of the key, or \<open>None\<close> when one is null.\<close>

definition joinKey :: "Tuple \<Rightarrow> Expr list \<Rightarrow> Value list option res" where
  "joinKey tup keyExprs = key_values keyExprs tup"

definition key_tuple :: "Value list \<Rightarrow> Tuple" where
  "key_tuple vals = Extend (FromValues None) vals"

definition with_desc :: "RawTupleDesc option \<Rightarrow> (RawTupleDesc \<Rightarrow> 'x res) \<Rightarrow> 'x res" where
  "with_desc d f = (case d of None \<Rightarrow> Inl (Panic ''nil pointer dereference'') | Some desc \<Rightarrow> f desc)"

text \<open>
  The rows behind the current one with the same key, copied, and whether the side ended.  The key
  was taken from a row that the side has left behind.
\<close>

partial_function (option) same_key_rows :: "('w, 's) Executor \<Rightarrow> Expr list \<Rightarrow> RawTupleDesc option \<Rightarrow> Value list \<Rightarrow> 'w \<Rightarrow> 's \<Rightarrow> Tuple list \<Rightarrow>
    ((Tuple list \<times> bool) res \<times> ('w \<times> 's)) option" where
  "same_key_rows E keys desc key w s ts =
     (let n = ex_Next E w s; s' = snd (snd n)
      in case fst n of
           Inl f \<Rightarrow> Some (Inl f, snd n)
         | Inr found \<Rightarrow>
             if \<not> found then Some (Inr (ts, True), snd n)
             else (case bindR (ex_Current E s') (\<lambda>t. bindR (joinKey t keys) (\<lambda>k. Inr (t, k))) of
                     Inl f \<Rightarrow> Some (Inl f, snd n)
                   | Inr (t, None) \<Rightarrow>
                       (let n2 = ex_Next E (fst (snd n)) s'
                        in case fst n2 of
                             Inl f \<Rightarrow> Some (Inl f, snd n2)
                           | Inr found2 \<Rightarrow> Some (Inr (ts, \<not> found2), snd n2))
                   | Inr (t, Some k) \<Rightarrow>
                       (case Tuple_Equals (key_tuple k) (key_tuple (map (ex_Reread E s') key)) of
                          Inl f \<Rightarrow> Some (Inl f, snd n)
                        | Inr eq \<Rightarrow>
                            if eq then (case with_desc desc (DeepCopy t) of
                                          Inl f \<Rightarrow> Some (Inl f, snd n)
                                        | Inr c \<Rightarrow> same_key_rows E keys desc key (fst (snd n)) s' (ts @ [c]))
                            else Some (Inr (ts, False), snd n))))"

definition join_tuples :: "RawTupleDesc option \<Rightarrow> Tuple list \<Rightarrow> Tuple list \<Rightarrow> Tuple list res" where
  "join_tuples od leftTups rightTups =
     mapR (\<lambda>(l, r). with_desc od (\<lambda>d. MergeTuples (replicate (BytesPerTuple d) 0) d l r)) (List.product leftTups rightTups)"

text \<open>The two current rows have equal keys: their groups are collected and joined.\<close>

definition merge_groups :: "Expr list \<Rightarrow> Expr list \<Rightarrow> ('w, 'a) Executor \<Rightarrow> ('w, 'b) Executor \<Rightarrow> Tuple \<Rightarrow> Tuple \<Rightarrow> Value list \<Rightarrow> Value list \<Rightarrow>
    'w \<Rightarrow> ('a, 'b) SortMergeJoinExecutor \<Rightarrow> unit res \<times> ('w \<times> ('a, 'b) SortMergeJoinExecutor)" where
  "merge_groups leftKeys rightKeys L R leftTup rightTup leftKey rightKey w e =
     (case bindR (with_desc (sm_leftDesc e) (DeepCopy leftTup)) (\<lambda>lc. bindR (with_desc (sm_rightDesc e) (DeepCopy rightTup)) (\<lambda>rc. Inr (lc, rc))) of
        Inl f \<Rightarrow> (Inl f, w, e)
      | Inr (lc, rc) \<Rightarrow>
     (case settle (w, sm_left e) (same_key_rows L leftKeys (sm_leftDesc e) leftKey w (sm_left e) [lc]) of
        (Inl f, w1, l1) \<Rightarrow> (Inl f, w1, e\<lparr>sm_left := l1\<rparr>)
      | (Inr (lts, lend), w1, l1) \<Rightarrow>
     (case settle (w1, sm_right e) (same_key_rows R rightKeys (sm_rightDesc e) rightKey w1 (sm_right e) [rc]) of
        (Inl f, w2, r1) \<Rightarrow> (Inl f, w2, e\<lparr>sm_left := l1, leftNoNext := (leftNoNext e \<or> lend), sm_right := r1\<rparr>)
      | (Inr (rts, rend), w2, r1) \<Rightarrow>
          let e1 = e\<lparr>sm_left := l1, leftNoNext := (leftNoNext e \<or> lend), sm_right := r1, rightNoNext := (rightNoNext e \<or> rend)\<rparr>
          in (case join_tuples (sm_outPutdesc e) lts rts of
                Inl f \<Rightarrow> (Inl f, w2, e1)
              | Inr ms \<Rightarrow> (Inr (), w2, e1\<lparr>sm_tuples := sm_tuples e1 @ ms\<rparr>)))))"

definition merge_body :: "Expr list \<Rightarrow> Expr list \<Rightarrow> ('w, 'a) Executor \<Rightarrow> ('w, 'b) Executor \<Rightarrow> 'w \<Rightarrow> ('a, 'b) SortMergeJoinExecutor \<Rightarrow>
    unit res \<times> ('w \<times> ('a, 'b) SortMergeJoinExecutor)" where
  "merge_body leftKeys rightKeys L R w e =
     (case bindR (ex_Current L (sm_left e)) (\<lambda>lt. bindR (ex_Current R (sm_right e)) (\<lambda>rt. bindR (joinKey lt leftKeys) (\<lambda>lk. Inr (lt, rt, lk)))) of
        Inl f \<Rightarrow> (Inl f, w, e)
      | Inr (lt, rt, None) \<Rightarrow> advance_left L w e
      | Inr (lt, rt, Some leftKey) \<Rightarrow>
     (case joinKey rt rightKeys of
        Inl f \<Rightarrow> (Inl f, w, e)
      | Inr None \<Rightarrow> advance_right R w e
      | Inr (Some rightKey) \<Rightarrow>
     (case Tuple_Compare (key_tuple leftKey) (key_tuple rightKey) of
        Inl f \<Rightarrow> (Inl f, w, e)
      | Inr cmp \<Rightarrow>
          if cmp = 0 then merge_groups leftKeys rightKeys L R lt rt leftKey rightKey w e
          else if cmp = - 1 then advance_left L w e
          else if cmp = 1 then advance_right R w e
          else (Inr (), w, e))))"

partial_function (option) merge_loop :: "Expr list \<Rightarrow> Expr list \<Rightarrow> ('w, 'a) Executor \<Rightarrow> ('w, 'b) Executor \<Rightarrow> 'w \<Rightarrow> ('a, 'b) SortMergeJoinExecutor \<Rightarrow>
    (unit res \<times> ('w \<times> ('a, 'b) SortMergeJoinExecutor)) option" where
  "merge_loop leftKeys rightKeys L R w e =
     (if leftNoNext e \<or> rightNoNext e then Some (Inr (), w, e)
      else let b = merge_body leftKeys rightKeys L R w e
           in case fst b of
                Inl f \<Rightarrow> Some (Inl f, snd b)
              | Inr _ \<Rightarrow> merge_loop leftKeys rightKeys L R (fst (snd b)) (snd (snd b)))"

definition SMJ_Next :: "Expr list \<Rightarrow> Expr list \<Rightarrow> ('w, 'a) Executor \<Rightarrow> ('w, 'b) Executor \<Rightarrow> 'w \<Rightarrow> ('a, 'b) SortMergeJoinExecutor \<Rightarrow>
    bool res \<times> ('w \<times> ('a, 'b) SortMergeJoinExecutor)" where
  "SMJ_Next leftKeys rightKeys L R w e =
     (case settle (w, e) (merge_loop leftKeys rightKeys L R w e) of
        (Inl f, st) \<Rightarrow> (Inl f, st)
      | (Inr _, w', e') \<Rightarrow>
          if sm_tIdx e' + 1 \<ge> int (length (sm_tuples e')) then (Inr False, w', e')
          else (Inr True, w', e'\<lparr>sm_tIdx := sm_tIdx e' + 1\<rparr>))"

definition SortMergeJoinExec :: "Expr list \<Rightarrow> Expr list \<Rightarrow> ('w, 'a) Executor \<Rightarrow> ('w, 'b) Executor \<Rightarrow> ('w, ('a, 'b) SortMergeJoinExecutor) Executor" where
  "SortMergeJoinExec leftKeys rightKeys L R =
     \<lparr>ex_Schema = ex_Schema L @ ex_Schema R,
      ex_Init = SMJ_Init leftKeys L R,
      ex_Next = SMJ_Next leftKeys rightKeys L R,
      ex_Current = (\<lambda>e. int_index (sm_tuples e) (sm_tIdx e)),
      ex_Error = sm_err,
      ex_Close = (\<lambda>w e. let (r, w', l, r') = close_both L R w (sm_left e) (sm_right e)
                        in (r, w', e\<lparr>sm_left := l, sm_right := r', sm_tuples := [], sm_err := fault_of r (sm_err e)\<rparr>)),
      ex_Reread = (\<lambda>e v. v)\<rparr>"


section \<open>Merging sorted lists\<close>

text \<open>
  The algorithm on lists: \<open>key_run\<close> splits off the elements with the key \<open>a\<close>, dropping one with a
  null key that ends them; \<open>merge_lists\<close> walks over both sides.
\<close>

fun key_run :: "('k \<Rightarrow> 'k \<Rightarrow> int) \<Rightarrow> ('k \<Rightarrow> bool) \<Rightarrow> ('t \<Rightarrow> 'k) \<Rightarrow> 'k \<Rightarrow> 't list \<Rightarrow> 't list \<times> 't list" where
  "key_run cmp nul f a [] = ([], [])"
| "key_run cmp nul f a (t # ts) =
     (if nul (f t) then ([], ts)
      else if cmp (f t) a = 0 then (t # fst (key_run cmp nul f a ts), snd (key_run cmp nul f a ts))
      else ([], t # ts))"

lemma key_run_length: "length (snd (key_run cmp nul f a ts)) \<le> length ts"
  by (induction ts) auto

function merge_lists :: "('k \<Rightarrow> 'k \<Rightarrow> int) \<Rightarrow> ('k \<Rightarrow> bool) \<Rightarrow> ('s \<Rightarrow> 'k) \<Rightarrow> ('t \<Rightarrow> 'k) \<Rightarrow> 's list \<Rightarrow> 't list \<Rightarrow> ('s \<times> 't) list" where
  "merge_lists cmp nul f g (l # ls) (r # rs) =
     (if nul (f l) then merge_lists cmp nul f g ls (r # rs)
      else if nul (g r) then merge_lists cmp nul f g (l # ls) rs
      else if cmp (f l) (g r) = 0 then
        List.product (l # fst (key_run cmp nul f (f l) ls)) (r # fst (key_run cmp nul g (g r) rs)) @
        merge_lists cmp nul f g (snd (key_run cmp nul f (f l) ls)) (snd (key_run cmp nul g (g r) rs))
      else if cmp (f l) (g r) < 0 then merge_lists cmp nul f g ls (r # rs)
      else merge_lists cmp nul f g (l # ls) rs)"
| "merge_lists cmp nul f g [] rs = []"
| "merge_lists cmp nul f g (l # ls) [] = []"
  by pat_completeness auto
termination
  by (relation "measure (\<lambda>(cmp, nul, f, g, ls, rs). length ls + length rs)") (auto simp: less_Suc_eq_le intro!: le_SucI add_mono key_run_length)

text \<open>
  Keys of a set \<open>S\<close> under a total preorder that never makes a null key equal to one without nulls.
\<close>

locale key_order =
  fixes cmp :: "'k \<Rightarrow> 'k \<Rightarrow> int" and nul :: "'k \<Rightarrow> bool" and S :: "'k set"
  assumes self: "x \<in> S \<Longrightarrow> cmp x x = 0"
    and antisym: "x \<in> S \<Longrightarrow> y \<in> S \<Longrightarrow> cmp y x = - cmp x y"
    and trans: "x \<in> S \<Longrightarrow> y \<in> S \<Longrightarrow> z \<in> S \<Longrightarrow> cmp x y \<le> 0 \<Longrightarrow> cmp y z \<le> 0 \<Longrightarrow> cmp x z \<le> 0 \<and> (cmp x z = 0 \<longleftrightarrow> cmp x y = 0 \<and> cmp y z = 0)"
    and null_apart: "x \<in> S \<Longrightarrow> y \<in> S \<Longrightarrow> cmp x y = 0 \<Longrightarrow> nul x = nul y"
begin

definition key_sorted :: "('t \<Rightarrow> 'k) \<Rightarrow> 't list \<Rightarrow> bool" where
  "key_sorted f ts \<longleftrightarrow> sorted_wrt (\<lambda>a b. cmp (f a) (f b) \<le> 0) ts \<and> f ` set ts \<subseteq> S"

definition key_match :: "('s \<Rightarrow> 'k) \<Rightarrow> ('t \<Rightarrow> 'k) \<Rightarrow> 's \<Rightarrow> 't \<Rightarrow> bool" where
  "key_match f g l r \<longleftrightarrow> \<not> nul (f l) \<and> \<not> nul (g r) \<and> cmp (f l) (g r) = 0"

lemma key_sorted_Cons: "key_sorted f (t # ts) \<longleftrightarrow> f t \<in> S \<and> (\<forall>u \<in> set ts. cmp (f t) (f u) \<le> 0) \<and> key_sorted f ts"
  by (auto simp: key_sorted_def)

lemma same_trans: "x \<in> S \<Longrightarrow> y \<in> S \<Longrightarrow> z \<in> S \<Longrightarrow> cmp x y = 0 \<Longrightarrow> cmp y z = 0 \<Longrightarrow> cmp x z = 0"
  using trans [of x y z] by simp

text \<open>In a sorted list, whatever follows an element that is not equal to \<open>a\<close> is not equal to \<open>a\<close> either.\<close>

lemma run_stops:
  assumes "key_sorted f (t # ts)" "a \<in> S" "cmp a (f t) \<le> 0" "cmp a (f t) \<noteq> 0" "u \<in> set ts"
  shows "cmp (f u) a \<noteq> 0" "cmp a (f u) < 0"
proof -
  have s: "f t \<in> S" "f u \<in> S" "cmp (f t) (f u) \<le> 0" using assms(1,5) by (auto simp: key_sorted_def)
  from trans [OF assms(2) s(1,2) assms(3) s(3)] show "cmp a (f u) < 0" using assms(4) by linarith
  then show "cmp (f u) a \<noteq> 0" using antisym [OF assms(2) s(2)] by simp
qed

lemma key_run_sorted:
  assumes "key_sorted f ts" "a \<in> S" "\<not> nul a" "\<forall>t \<in> set ts. cmp a (f t) \<le> 0"
  shows "fst (key_run cmp nul f a ts) = filter (\<lambda>t. cmp (f t) a = 0) ts" "key_sorted f (snd (key_run cmp nul f a ts))"
    "\<forall>t \<in> set (snd (key_run cmp nul f a ts)). t \<in> set ts \<and> cmp a (f t) < 0"
    "filter (\<lambda>t. \<not> nul (f t)) ts = filter (\<lambda>t. cmp (f t) a = 0) ts @ filter (\<lambda>t. \<not> nul (f t)) (snd (key_run cmp nul f a ts))"
proof -
  have "fst (key_run cmp nul f a ts) = filter (\<lambda>t. cmp (f t) a = 0) ts \<and> key_sorted f (snd (key_run cmp nul f a ts)) \<and>
    (\<forall>t \<in> set (snd (key_run cmp nul f a ts)). t \<in> set ts \<and> cmp a (f t) < 0) \<and>
    filter (\<lambda>t. \<not> nul (f t)) ts = filter (\<lambda>t. cmp (f t) a = 0) ts @ filter (\<lambda>t. \<not> nul (f t)) (snd (key_run cmp nul f a ts))"
    using assms(1,4)
  proof (induction ts)
    case (Cons t ts)
    have t: "f t \<in> S" "cmp a (f t) \<le> 0" "key_sorted f ts" "\<forall>t \<in> set ts. cmp a (f t) \<le> 0" using Cons.prems by (auto simp: key_sorted_Cons)
    note IH = Cons.IH [OF t(3,4)]
    have eq: "cmp (f t) a = 0 \<longleftrightarrow> cmp a (f t) = 0" using antisym [OF assms(2) t(1)] by simp
    show ?case
    proof (cases "cmp a (f t) = 0")
      case True
      then have "\<not> nul (f t)" using null_apart [OF assms(2) t(1)] assms(3) by simp
      then show ?thesis using IH True eq by auto
    next
      case False
      have later: "cmp (f u) a \<noteq> 0" "cmp a (f u) < 0" if "u \<in> set ts" for u using run_stops [OF Cons.prems(1) assms(2) t(2) False that] by auto
      then have "filter (\<lambda>t. cmp (f t) a = 0) ts = []" by (simp add: filter_empty_conv)
      then show ?thesis using False eq t(2,3) later Cons.prems(1) by auto
    qed
  qed (simp add: key_sorted_def)
  then show "fst (key_run cmp nul f a ts) = filter (\<lambda>t. cmp (f t) a = 0) ts" "key_sorted f (snd (key_run cmp nul f a ts))"
    "\<forall>t \<in> set (snd (key_run cmp nul f a ts)). t \<in> set ts \<and> cmp a (f t) < 0"
    "filter (\<lambda>t. \<not> nul (f t)) ts = filter (\<lambda>t. cmp (f t) a = 0) ts @ filter (\<lambda>t. \<not> nul (f t)) (snd (key_run cmp nul f a ts))" by blast+
qed

text \<open>Only elements without a null in their key can match.\<close>

definition matches :: "('s \<Rightarrow> 'k) \<Rightarrow> ('t \<Rightarrow> 'k) \<Rightarrow> 's list \<Rightarrow> 't list \<Rightarrow> ('s \<times> 't) list" where
  "matches f g ls rs = filter (\<lambda>(l, r). key_match f g l r) (List.product ls rs)"

lemma matches_Cons: "matches f g (l # ls) rs = map (Pair l) (filter (key_match f g l) rs) @ matches f g ls rs"
  by (simp add: matches_def filter_map comp_def)

lemma matches_append: "matches f g (ls @ ls') rs = matches f g ls rs @ matches f g ls' rs"
  by (induction ls) (simp_all add: matches_Cons matches_def)

lemma matches_cong:
  assumes "filter (\<lambda>l. \<not> nul (f l)) ls = filter (\<lambda>l. \<not> nul (f l)) ls'" "filter (\<lambda>r. \<not> nul (g r)) rs = filter (\<lambda>r. \<not> nul (g r)) rs'"
  shows "matches f g ls rs = matches f g ls' rs'"
proof -
  have r: "filter (key_match f g l) qs = filter (key_match f g l) (filter (\<lambda>r. \<not> nul (g r)) qs)" for l qs
    by (auto simp: key_match_def intro!: filter_cong)
  have "matches f g ps qs = matches f g (filter (\<lambda>l. \<not> nul (f l)) ps) (filter (\<lambda>r. \<not> nul (g r)) qs)" for ps qs
  proof (induction ps)
    case (Cons p ps)
    have "filter (key_match f g p) qs = []" if "nul (f p)" using that by (simp add: key_match_def)
    then show ?case using Cons r [of p qs] by (simp add: matches_Cons)
  qed (simp add: matches_def)
  then show ?thesis using assms by metis
qed

lemma matches_none: "(\<And>l r. l \<in> set ls \<Longrightarrow> r \<in> set rs \<Longrightarrow> \<not> key_match f g l r) \<Longrightarrow> matches f g ls rs = []"
  by (auto simp: matches_def filter_empty_conv)

lemma matches_all: "(\<And>l r. l \<in> set ls \<Longrightarrow> r \<in> set rs \<Longrightarrow> key_match f g l r) \<Longrightarrow> matches f g ls rs = List.product ls rs"
  by (auto simp: matches_def filter_id_conv)

lemma matches_append_right:
  assumes "\<And>l r. l \<in> set ls \<Longrightarrow> r \<in> set rs \<Longrightarrow> \<not> key_match f g l r"
  shows "matches f g ls (rs @ rs') = matches f g ls rs'" "matches f g ls (rs' @ rs) = matches f g ls rs'"
proof -
  have "matches f g ls (rs @ rs') = matches f g ls rs' \<and> matches f g ls (rs' @ rs) = matches f g ls rs'"
    using assms by (induction ls) (simp_all add: matches_Cons filter_empty_conv, simp add: matches_def)
  then show "matches f g ls (rs @ rs') = matches f g ls rs'" "matches f g ls (rs' @ rs) = matches f g ls rs'" by auto
qed

lemma less_apart: "x \<in> S \<Longrightarrow> y \<in> S \<Longrightarrow> z \<in> S \<Longrightarrow> cmp x y = 0 \<Longrightarrow> cmp y z < 0 \<Longrightarrow> cmp x z < 0"
  using trans [of x y z] by linarith

lemma less_later:
  assumes "key_sorted g (r # rs)" "a \<in> S" "cmp a (g r) < 0" "r' \<in> set (r # rs)"
  shows "cmp a (g r') < 0"
  using assms run_stops(2) [of g r rs a r'] by (cases "r' = r") (auto simp: key_sorted_Cons)

lemma group_matches:
  assumes ls: "key_sorted f (l # ls)" and rs: "key_sorted g (r # rs)" and eq: "\<not> nul (f l)" "\<not> nul (g r)" "cmp (f l) (g r) = 0"
  shows "matches f g (l # ls) (r # rs) =
    List.product (l # fst (key_run cmp nul f (f l) ls)) (r # fst (key_run cmp nul g (g r) rs)) @
    matches f g (snd (key_run cmp nul f (f l) ls)) (snd (key_run cmp nul g (g r) rs))"
proof -
  let ?a = "f l" and ?b = "g r"
  let ?LG = "filter (\<lambda>t. cmp (f t) ?a = 0) (l # ls)" and ?RG = "filter (\<lambda>t. cmp (g t) ?b = 0) (r # rs)"
  let ?ls = "snd (key_run cmp nul f ?a ls)" and ?rs = "snd (key_run cmp nul g ?b rs)"
  have S: "?a \<in> S" "?b \<in> S" "f ` set ls \<subseteq> S" "g ` set rs \<subseteq> S" "key_sorted f ls" "key_sorted g rs"
      "\<forall>t \<in> set ls. cmp ?a (f t) \<le> 0" "\<forall>t \<in> set rs. cmp ?b (g t) \<le> 0"
    using ls rs by (auto simp: key_sorted_Cons) (auto simp: key_sorted_def)
  note L = key_run_sorted [OF S(5,1) eq(1) S(7)] and R = key_run_sorted [OF S(6,2) eq(2) S(8)]
  have LG: "?LG = l # fst (key_run cmp nul f ?a ls)" and RG: "?RG = r # fst (key_run cmp nul g ?b rs)" using L(1) R(1) self S(1,2) by simp_all
  have nl: "\<not> nul (f x) \<and> f x \<in> S \<and> cmp (f x) ?b = 0" if "x \<in> set ?LG" for x
  proof -
    have x: "f x \<in> S" "cmp (f x) ?a = 0" using that [unfolded set_filter] S(1,3) by auto
    show ?thesis using null_apart [OF x(1) S(1) x(2)] same_trans [OF x(1) S(1,2) x(2) eq(3)] eq(1) x(1) by simp
  qed
  have nr: "\<not> nul (g y) \<and> g y \<in> S \<and> cmp (g y) ?b = 0" if "y \<in> set ?RG" for y
  proof -
    have y: "g y \<in> S" "cmp (g y) ?b = 0" using that [unfolded set_filter] S(2,4) by auto
    show ?thesis using null_apart [OF y(1) S(2) y(2)] eq(2) y by simp
  qed
  have id: "filter (\<lambda>t. \<not> nul (f t)) ?LG = ?LG" "filter (\<lambda>t. \<not> nul (g t)) ?RG = ?RG" unfolding filter_id_conv using nl nr by blast+
  have fl: "filter (\<lambda>t. \<not> nul (f t)) (l # ls) = filter (\<lambda>t. \<not> nul (f t)) (?LG @ ?ls)" using L(4) eq(1) by (simp only: filter_append id) (simp add: self S(1,2))
  have fr: "filter (\<lambda>t. \<not> nul (g t)) (r # rs) = filter (\<lambda>t. \<not> nul (g t)) (?RG @ ?rs)" using R(4) eq(2) by (simp only: filter_append id) (simp add: self S(1,2))
  have "matches f g (l # ls) (r # rs) = matches f g (?LG @ ?ls) (?RG @ ?rs)" by (rule matches_cong [OF fl fr])
  also have "\<dots> = matches f g ?LG (?RG @ ?rs) @ matches f g ?ls (?RG @ ?rs)" by (rule matches_append)
  also have "matches f g ?LG (?RG @ ?rs) = matches f g ?LG ?RG"
  proof (rule matches_append_right(2))
    fix x y assume xy: "x \<in> set ?LG" "y \<in> set ?rs"
    have "cmp ?b (g y) < 0" "g y \<in> S" using R(3) xy(2) S(4) by auto
    then show "\<not> key_match f g x y" using less_apart [of "f x" ?b "g y"] nl [OF xy(1)] S(2) by (simp add: key_match_def)
  qed
  also have "matches f g ?LG ?RG = List.product ?LG ?RG"
  proof (rule matches_all)
    fix x y assume xy: "x \<in> set ?LG" "y \<in> set ?RG"
    have "cmp ?b (g y) = 0" using antisym [of "g y" ?b] nr [OF xy(2)] S(2) by simp
    then show "key_match f g x y" using same_trans [of "f x" ?b "g y"] nl [OF xy(1)] nr [OF xy(2)] S(2) by (simp add: key_match_def)
  qed
  also have "matches f g ?ls (?RG @ ?rs) = matches f g ?ls ?rs"
  proof (rule matches_append_right(1))
    fix x y assume xy: "x \<in> set ?ls" "y \<in> set ?RG"
    have x: "cmp ?a (f x) < 0" "f x \<in> S" using L(3) xy(1) S(3) by auto
    have "cmp ?b ?a = 0" using antisym [OF S(1,2)] eq(3) by simp
    then have "cmp (g y) ?a = 0" using same_trans [of "g y" ?b ?a] nr [OF xy(2)] S(1,2) by simp
    then have "cmp (g y) (f x) < 0" using less_apart [of "g y" ?a "f x"] nr [OF xy(2)] S(1) x by simp
    then show "\<not> key_match f g x y" using antisym [of "f x" "g y"] nr [OF xy(2)] x(2) by (simp add: key_match_def)
  qed
  finally show ?thesis unfolding LG RG .
qed

lemma merge_lists_sorted:
  assumes "key_sorted f ls" "key_sorted g rs"
  shows "merge_lists cmp nul f g ls rs = matches f g ls rs"
  using assms
proof (induction "length ls + length rs" arbitrary: ls rs rule: less_induct)
  case less
  show ?case
  proof (cases "ls = [] \<or> rs = []")
    case True
    then have "matches f g ls rs = []" by (intro matches_none) auto
    then show ?thesis using True by (cases ls; cases rs) simp_all
  next
    case False
    then obtain l ls' r rs' where e: "ls = l # ls'" "rs = r # rs'" by (auto simp: neq_Nil_conv)
    have s: "key_sorted f (l # ls')" "key_sorted g (r # rs')" "f l \<in> S" "g r \<in> S" "key_sorted f ls'" "key_sorted g rs'" using less.prems e by (auto simp: key_sorted_Cons)
    have skip_l: "merge_lists cmp nul f g ls' (r # rs') = matches f g (l # ls') (r # rs')" if "\<And>y. y \<in> set (r # rs') \<Longrightarrow> \<not> key_match f g l y"
      using less.hyps [of ls' "r # rs'"] s(2,5) that e by (auto simp: matches_Cons filter_empty_conv)
    have skip_r: "merge_lists cmp nul f g (l # ls') rs' = matches f g (l # ls') (r # rs')" if "\<And>x. x \<in> set (l # ls') \<Longrightarrow> \<not> key_match f g x r"
      using less.hyps [of "l # ls'" rs'] s(1,6) that e matches_append_right(1) [of "l # ls'" "[r]" f g rs'] by simp
    consider "nul (f l)" | "\<not> nul (f l)" "nul (g r)" | (eq) "\<not> nul (f l)" "\<not> nul (g r)" "cmp (f l) (g r) = 0"
      | (lt) "\<not> nul (f l)" "\<not> nul (g r)" "cmp (f l) (g r) < 0" | (gt) "\<not> nul (f l)" "\<not> nul (g r)" "cmp (f l) (g r) > 0" by linarith
    then show ?thesis
    proof cases
      case eq
      have "\<forall>t \<in> set ls'. cmp (f l) (f t) \<le> 0" "\<forall>t \<in> set rs'. cmp (g r) (g t) \<le> 0" using s(1,2) by (auto simp: key_sorted_Cons)
      note L = key_run_sorted(2) [OF s(5,3) eq(1) this(1)] and R = key_run_sorted(2) [OF s(6,4) eq(2) this(2)]
      have "length (snd (key_run cmp nul f (f l) ls')) + length (snd (key_run cmp nul g (g r) rs')) < length ls + length rs"
        using key_run_length [of cmp nul f "f l" ls'] key_run_length [of cmp nul g "g r" rs'] e by simp
      from less.hyps [OF this L R] show ?thesis unfolding e group_matches [OF s(1,2) eq] using eq by simp
    next
      case lt
      have "\<not> key_match f g l y" if "y \<in> set (r # rs')" for y using less_later [OF s(2,3) lt(3) that] by (simp add: key_match_def)
      from skip_l [OF this] show ?thesis using lt e by simp
    next
      case gt
      have "\<not> key_match f g x r" if x: "x \<in> set (l # ls')" for x
      proof -
        have "f x \<in> S" using s(1) x by (auto simp: key_sorted_def)
        moreover have "cmp (g r) (f x) < 0" using less_later [OF s(1) s(4) _ x] antisym [OF s(3,4)] gt(3) by simp
        ultimately show ?thesis using antisym [of "g r" "f x"] s(4) by (simp add: key_match_def)
      qed
      from skip_r [OF this] show ?thesis using gt e by simp
    qed (use skip_l skip_r e in \<open>auto simp: key_match_def\<close>)
  qed
qed

end


section \<open>The order of the join keys\<close>

definition kcmp :: "Value list \<Rightarrow> Value list \<Rightarrow> int" where
  "kcmp vs us = projr (lex_cmp Value_Compare vs us)"

definition has_null :: "Value list \<Rightarrow> bool" where
  "has_null vs \<longleftrightarrow> (\<exists>v \<in> set vs. val_null v)"

lemma key_typed_same: "key_typed kt vs \<Longrightarrow> key_typed kt us \<Longrightarrow> list_all2 same_type vs us"
  by (induction vs arbitrary: kt us) (auto simp: key_typed_def same_type_def value_wf_def Cons_eq_map_conv map_eq_Cons_conv)

lemma lex_kcmp: "key_typed kt vs \<Longrightarrow> key_typed kt us \<Longrightarrow> lex_cmp Value_Compare vs us = Inr (kcmp vs us) \<and> kcmp vs us \<in> {- 1, 0, 1}"
  using vlex.cmp_range [OF key_typed_same, of kt vs us] by (auto simp: kcmp_def)

lemma kcmp_zero:
  assumes "key_typed kt vs" "key_typed kt us"
  shows "kcmp vs us = 0 \<longleftrightarrow> list_all2 value_eq vs us"
proof -
  have "lex_cmp Value_Compare vs us = Inr 0 \<longleftrightarrow> list_all2 value_eq vs us" if "list_all2 same_type vs us"
    using that
  proof (induction rule: list_all2_induct)
    case (Cons v vs u us)
    obtain c where "Value_Compare v u = Inr c" using vcmp.cmp_range Cons by blast
    then show ?case using Cons Value_Compare_eq_0 [OF Cons.hyps(1)] by auto
  qed simp
  then show ?thesis using key_typed_same [OF assms] lex_kcmp [OF assms] by simp
qed

interpretation korder: key_order kcmp has_null "{vs. key_typed kt vs}" for kt
proof
  show "kcmp x x = 0" if "x \<in> {vs. key_typed kt vs}" for x
    using that vlex.cmp_self [OF key_typed_same, of kt x] by (simp add: kcmp_def)
  show "kcmp y x = - kcmp x y" if "x \<in> {vs. key_typed kt vs}" "y \<in> {vs. key_typed kt vs}" for x y
    using that vlex.cmp_antisym [OF key_typed_same, of kt x y "kcmp x y"] lex_kcmp [of kt x y] lex_kcmp [of kt y x] by simp
  show "kcmp x z \<le> 0 \<and> (kcmp x z = 0 \<longleftrightarrow> kcmp x y = 0 \<and> kcmp y z = 0)"
    if a: "x \<in> {vs. key_typed kt vs}" "y \<in> {vs. key_typed kt vs}" "z \<in> {vs. key_typed kt vs}" "kcmp x y \<le> 0" "kcmp y z \<le> 0" for x y z
    using a vlex.cmp_trans [OF key_typed_same key_typed_same, of kt x y kt z "kcmp x y" "kcmp y z"] lex_kcmp [of kt x y] lex_kcmp [of kt y z] lex_kcmp [of kt x z] by auto
  show "has_null x = has_null y" if a: "x \<in> {vs. key_typed kt vs}" "y \<in> {vs. key_typed kt vs}" "kcmp x y = 0" for x y
  proof -
    have "list_all2 value_eq x y" using a kcmp_zero [of kt x y] by simp
    then show ?thesis by (induction rule: list_all2_induct) (auto simp: has_null_def value_eq_def)
  qed
qed

lemma key_tuple_cmp:
  assumes "key_typed kt vs" "key_typed kt us"
  shows "Tuple_Compare (key_tuple vs) (key_tuple us) = Inr (kcmp vs us)" "Tuple_Equals (key_tuple vs) (key_tuple us) = Inr (kcmp vs us = 0)"
proof -
  have ok: "tuple_ok (key_tuple ws)" "tuple_types (key_tuple ws) = kt" if "key_typed kt ws" for ws
    using that by (auto simp: key_tuple_def tuple_ok_def Extend_def FromValues_def extra_list_def key_typed_def tuple_types_def)
  have col: "columns (key_tuple ws) = ws" for ws by (simp add: columns_def key_tuple_def get_values_Extend)
  have s: "same_tuple (key_tuple vs) (key_tuple us)" using ok assms by (simp add: same_tuple_def)
  show c: "Tuple_Compare (key_tuple vs) (key_tuple us) = Inr (kcmp vs us)" using Tuple_Compare_lex(1) [OF s] lex_kcmp [OF assms] col by simp
  then show "Tuple_Equals (key_tuple vs) (key_tuple us) = Inr (kcmp vs us = 0)" using Tuple_Compare_lex(2) [OF s] by auto
qed

text \<open>All values of a row's key, nulls included.\<close>

definition full_key :: "Expr list \<Rightarrow> Tuple \<Rightarrow> Value list" where
  "full_key keys t = projr (mapR (\<lambda>x. Eval x t) keys)"

lemma key_values_full: "mapR (\<lambda>x. Eval x t) keys = Inr vs \<Longrightarrow> key_values keys t = Inr (if has_null vs then None else Some vs)"
  by (induction keys arbitrary: vs) (auto simp: bindR_eq_Inr has_null_def)

definition copied :: "RawTupleDesc \<Rightarrow> Tuple \<Rightarrow> Tuple" where
  "copied d t = projr (DeepCopy t d)"

text \<open>The rows of one side: their keys have the given types and stay readable, and they can be copied.\<close>

definition side_ok :: "('w, 's) Executor \<Rightarrow> Expr list \<Rightarrow> gtype list \<Rightarrow> RawTupleDesc \<Rightarrow> Tuple list \<Rightarrow> bool" where
  "side_ok E keys kt d ts \<longleftrightarrow> (\<forall>t \<in> set ts. mapR (\<lambda>x. Eval x t) keys = Inr (full_key keys t) \<and> key_typed kt (full_key keys t) \<and>
     (\<forall>s. map (ex_Reread E s) (full_key keys t) = full_key keys t) \<and> DeepCopy t d = Inr (copied d t))"

lemma side_okD:
  assumes "side_ok E keys kt d ts" "t \<in> set ts"
  shows "joinKey t keys = Inr (if has_null (full_key keys t) then None else Some (full_key keys t))" "key_typed kt (full_key keys t)"
    "map (ex_Reread E s) (full_key keys t) = full_key keys t" "DeepCopy t d = Inr (copied d t)"
  using assms key_values_full by (auto simp: side_ok_def joinKey_def)

text \<open>A side stands on the first of the remaining rows, or has ended.\<close>

definition at_row :: "('w, 's) Executor \<Rightarrow> ('s \<Rightarrow> Tuple list \<Rightarrow> bool) \<Rightarrow> 's \<Rightarrow> bool \<Rightarrow> Tuple list \<Rightarrow> bool" where
  "at_row E rows s ended ts \<longleftrightarrow> (if ended then ts = [] else \<exists>t ts'. ts = t # ts' \<and> ex_Current E s = Inr t \<and> rows s ts')"

context row_source
begin

lemma next_row:
  assumes "inv w" "rows s ts"
  obtains w' s' where "ex_Next E w s = (Inr (ts \<noteq> []), w', s')" "inv w'" "at_row E rows s' (ts = []) ts"
proof (cases ts)
  case Nil
  then show thesis using end_law [OF assms(1)] assms(2) that by (fastforce simp: at_row_def)
next
  case (Cons t ts')
  then show thesis using next_law [OF assms(1)] assms(2) that by (fastforce simp: at_row_def)
qed

lemma same_key_rows_ok:
  assumes "inv w" "rows s ts" "side_ok E keys kt d ts" and a: "key_typed kt a" "\<And>s. map (ex_Reread E s) a = a"
  shows "\<exists>w' s' ended. same_key_rows E keys (Some d) a w s acc =
      Some (Inr (acc @ map (copied d) (fst (key_run kcmp has_null (full_key keys) a ts)), ended), w', s') \<and> inv w' \<and>
    at_row E rows s' ended (snd (key_run kcmp has_null (full_key keys) a ts))"
  using assms(1-3)
proof (induction ts arbitrary: w s acc)
  case Nil
  obtain w1 s1 where "ex_Next E w s = (Inr False, w1, s1)" "inv w1" using end_law [OF Nil.prems(1,2)] by blast
  then show ?case by (subst same_key_rows.simps) (auto simp: at_row_def)
next
  case (Cons t ts)
  obtain w1 s1 where n: "ex_Next E w s = (Inr True, w1, s1)" "inv w1" "rows s1 ts" "ex_Current E s1 = Inr t"
    using next_law [OF Cons.prems(1,2)] by blast
  let ?k = "full_key keys t"
  have k: "joinKey t keys = Inr (if has_null ?k then None else Some ?k)" "key_typed kt ?k" "DeepCopy t d = Inr (copied d t)"
    using side_okD [OF Cons.prems(3)] by auto
  note cmp = key_tuple_cmp(2) [OF k(2) a(1)]
  consider (null) "has_null ?k" | (eq) "\<not> has_null ?k" "kcmp ?k a = 0" | (ne) "\<not> has_null ?k" "kcmp ?k a \<noteq> 0" by blast
  then show ?case
  proof cases
    case null
    obtain w2 s2 where "ex_Next E w1 s1 = (Inr (ts \<noteq> []), w2, s2)" "inv w2" "at_row E rows s2 (ts = []) ts" using next_row [OF n(2,3)] by blast
    then show ?thesis using null n k(1) by (subst same_key_rows.simps) (auto simp: Let_def)
  next
    case eq
    have "side_ok E keys kt d ts" using Cons.prems(3) by (simp add: side_ok_def)
    from Cons.IH [OF n(2,3) this, of "acc @ [copied d t]"] show ?thesis using eq n k cmp a(2) by (subst same_key_rows.simps) (simp add: with_desc_def)
  next
    case ne
    then have "same_key_rows E keys (Some d) a w s acc = Some (Inr (acc, False), w1, s1)" using n k(1) cmp a(2) by (subst same_key_rows.simps) simp
    moreover have "at_row E rows s1 False (t # ts)" using n by (simp add: at_row_def)
    ultimately show ?thesis using ne n(2) by auto
  qed
qed

end

section \<open>The rows of the join\<close>

definition sm_state :: "('w, 'a) Executor \<Rightarrow> ('w, 'b) Executor \<Rightarrow> ('a \<Rightarrow> Tuple list \<Rightarrow> bool) \<Rightarrow> ('b \<Rightarrow> Tuple list \<Rightarrow> bool) \<Rightarrow> RawTupleDesc \<Rightarrow> RawTupleDesc \<Rightarrow> RawTupleDesc \<Rightarrow>
    ('a, 'b) SortMergeJoinExecutor \<Rightarrow> Tuple list \<Rightarrow> Tuple list \<Rightarrow> bool" where
  "sm_state L R lrows rrows ld rd od e ls rs \<longleftrightarrow>
     sm_err e = None \<and> sm_leftDesc e = Some ld \<and> sm_rightDesc e = Some rd \<and> sm_outPutdesc e = Some od \<and>
     at_row L lrows (sm_left e) (leftNoNext e) ls \<and> at_row R rrows (sm_right e) (rightNoNext e) rs"

definition merge_copies :: "RawTupleDesc \<Rightarrow> RawTupleDesc \<Rightarrow> RawTupleDesc \<Rightarrow> Tuple \<times> Tuple \<Rightarrow> Tuple res" where
  "merge_copies ld rd od x = MergeTuples (replicate (BytesPerTuple od) 0) od (copied ld (fst x)) (copied rd (snd x))"

abbreviation merge_rows :: "Expr list \<Rightarrow> Expr list \<Rightarrow> Tuple list \<Rightarrow> Tuple list \<Rightarrow> (Tuple \<times> Tuple) list" where
  "merge_rows leftKeys rightKeys ls rs \<equiv> merge_lists kcmp has_null (full_key leftKeys) (full_key rightKeys) ls rs"

lemma product_map: "List.product (map f xs) (map g ys) = map (\<lambda>x. (f (fst x), g (snd x))) (List.product xs ys)"
  by (induction xs) simp_all

lemma join_tuples_copies: "join_tuples (Some od) (map (copied ld) ls) (map (copied rd) rs) = mapR (merge_copies ld rd od) (List.product ls rs)"
  by (simp add: join_tuples_def product_map mapR_map merge_copies_def [abs_def] with_desc_def)

lemma key_run_set: "set (fst (key_run cmp nul f a ts)) \<subseteq> set ts" "set (snd (key_run cmp nul f a ts)) \<subseteq> set ts"
  by (induction ts) auto

context join_sources
begin

text \<open>One pass of the loop does what one unfolding of \<open>merge_lists\<close> does.\<close>

definition passed :: "RawTupleDesc \<Rightarrow> RawTupleDesc \<Rightarrow> RawTupleDesc \<Rightarrow> Expr list \<Rightarrow> Expr list \<Rightarrow> ('a, 'b) SortMergeJoinExecutor \<Rightarrow> Tuple list \<Rightarrow> Tuple list \<Rightarrow> Tuple list \<Rightarrow>
    unit res \<times> ('w \<times> ('a, 'b) SortMergeJoinExecutor) \<Rightarrow> bool" where
  "passed ld rd od leftKeys rightKeys e ls rs ms b \<longleftrightarrow> (\<exists>w' e' ls' rs' ms1 ms2. b = (Inr (), w', e') \<and> inv w' \<and> sm_state L R lrows rrows ld rd od e' ls' rs' \<and>
     set ls' \<subseteq> set ls \<and> set rs' \<subseteq> set rs \<and> length ls' + length rs' < length ls + length rs \<and>
     mapR (merge_copies ld rd od) (merge_rows leftKeys rightKeys ls' rs') = Inr ms2 \<and> ms = ms1 @ ms2 \<and>
     sm_tuples e' = sm_tuples e @ ms1 \<and> sm_tIdx e' = sm_tIdx e)"

lemma passedI:
  assumes "b = (Inr (), w', e')" "inv w'" "sm_state L R lrows rrows ld rd od e' ls' rs'" "set ls' \<subseteq> set ls" "set rs' \<subseteq> set rs"
    "length ls' + length rs' < length ls + length rs" "mapR (merge_copies ld rd od) (merge_rows leftKeys rightKeys ls' rs') = Inr post"
    "ms = old @ post" "sm_tuples e' = sm_tuples e @ old" "sm_tIdx e' = sm_tIdx e"
  shows "passed ld rd od leftKeys rightKeys e ls rs ms b"
  unfolding passed_def using assms by blast

lemma sm_stateD:
  assumes "sm_state L R lrows rrows ld rd od e (l # ls) (r # rs)"
  shows "sm_err e = None" "sm_leftDesc e = Some ld" "sm_rightDesc e = Some rd" "sm_outPutdesc e = Some od" "\<not> leftNoNext e" "\<not> rightNoNext e"
      "ex_Current L (sm_left e) = Inr l" "lrows (sm_left e) ls" "ex_Current R (sm_right e) = Inr r" "rrows (sm_right e) rs"
  using assms by (auto simp: sm_state_def at_row_def split: if_splits)

lemma pass_left:
  assumes w: "inv w" and e: "sm_state L R lrows rrows ld rd od e (l # ls) (r # rs)"
    and ms: "mapR (merge_copies ld rd od) (merge_rows leftKeys rightKeys ls (r # rs)) = Inr ms"
  shows "passed ld rd od leftKeys rightKeys e (l # ls) (r # rs) ms (advance_left L w e)"
proof -
  note s = sm_stateD [OF e]
  obtain w' l' where n: "ex_Next L w (sm_left e) = (Inr (ls \<noteq> []), w', l')" "inv w'" "at_row L lrows l' (ls = []) ls" by (rule left.next_row [OF w s(8)])
  let ?e = "e\<lparr>sm_left := l', leftNoNext := (ls = [])\<rparr>"
  have "advance_left L w e = (Inr (), w', ?e)" "sm_state L R lrows rrows ld rd od ?e ls (r # rs)"
    using n s by (simp_all add: advance_left_def sm_state_def) (simp add: at_row_def)
  then show ?thesis by (rule passedI [where e' = ?e and old = "[]", OF _ n(2) _ _ _ _ ms]) auto
qed

lemma pass_right:
  assumes w: "inv w" and e: "sm_state L R lrows rrows ld rd od e (l # ls) (r # rs)"
    and ms: "mapR (merge_copies ld rd od) (merge_rows leftKeys rightKeys (l # ls) rs) = Inr ms"
  shows "passed ld rd od leftKeys rightKeys e (l # ls) (r # rs) ms (advance_right R w e)"
proof -
  note s = sm_stateD [OF e]
  obtain w' r' where n: "ex_Next R w (sm_right e) = (Inr (rs \<noteq> []), w', r')" "inv w'" "at_row R rrows r' (rs = []) rs" by (rule right.next_row [OF w s(10)])
  let ?e = "e\<lparr>sm_right := r', rightNoNext := (rs = [])\<rparr>"
  have "advance_right R w e = (Inr (), w', ?e)" "sm_state L R lrows rrows ld rd od ?e (l # ls) rs"
    using n s by (simp_all add: advance_right_def sm_state_def) (simp add: at_row_def)
  then show ?thesis by (rule passedI [where e' = ?e and old = "[]", OF _ n(2) _ _ _ _ ms]) auto
qed

lemma pass_groups:
  assumes w: "inv w" and e: "sm_state L R lrows rrows ld rd od e (l # ls) (r # rs)"
    and ok: "side_ok L leftKeys kt ld (l # ls)" "side_ok R rightKeys kt rd (r # rs)"
    and eq: "\<not> has_null (full_key leftKeys l)" "\<not> has_null (full_key rightKeys r)" "kcmp (full_key leftKeys l) (full_key rightKeys r) = 0"
    and ms: "mapR (merge_copies ld rd od) (merge_rows leftKeys rightKeys (l # ls) (r # rs)) = Inr ms"
  shows "passed ld rd od leftKeys rightKeys e (l # ls) (r # rs) ms
    (merge_groups leftKeys rightKeys L R l r (full_key leftKeys l) (full_key rightKeys r) w e)"
proof -
  note s = sm_stateD [OF e]
  let ?a = "full_key leftKeys l" and ?b = "full_key rightKeys r"
  let ?lrun = "key_run kcmp has_null (full_key leftKeys) ?a ls" and ?rrun = "key_run kcmp has_null (full_key rightKeys) ?b rs"
  have l: "key_typed kt ?a" "\<And>s. map (ex_Reread L s) ?a = ?a" "DeepCopy l ld = Inr (copied ld l)" using side_okD [OF ok(1), of l] by auto
  have r: "key_typed kt ?b" "\<And>s. map (ex_Reread R s) ?b = ?b" "DeepCopy r rd = Inr (copied rd r)" using side_okD [OF ok(2), of r] by auto
  have ok': "side_ok L leftKeys kt ld ls" "side_ok R rightKeys kt rd rs" using ok by (simp_all add: side_ok_def)
  obtain w1 l1 lend where 1: "same_key_rows L leftKeys (Some ld) ?a w (sm_left e) [copied ld l] = Some (Inr ([copied ld l] @ map (copied ld) (fst ?lrun), lend), w1, l1)"
      "inv w1" "at_row L lrows l1 lend (snd ?lrun)" using left.same_key_rows_ok [OF w s(8) ok'(1) l(1,2)] by blast
  obtain w2 r1 rend where 2: "same_key_rows R rightKeys (Some rd) ?b w1 (sm_right e) [copied rd r] = Some (Inr ([copied rd r] @ map (copied rd) (fst ?rrun), rend), w2, r1)"
      "inv w2" "at_row R rrows r1 rend (snd ?rrun)" using right.same_key_rows_ok [OF 1(2) s(10) ok'(2) r(1,2)] by blast
  obtain ms1 ms2 where m: "mapR (merge_copies ld rd od) (List.product (l # fst ?lrun) (r # fst ?rrun)) = Inr ms1"
      "mapR (merge_copies ld rd od) (merge_rows leftKeys rightKeys (snd ?lrun) (snd ?rrun)) = Inr ms2" "ms = ms1 @ ms2"
    using ms eq by (auto simp: mapR_append bindR_eq_Inr simp del: product.simps)
  let ?e = "e\<lparr>sm_left := l1, leftNoNext := lend, sm_right := r1, rightNoNext := rend, sm_tuples := sm_tuples e @ ms1\<rparr>"
  have "join_tuples (Some od) (map (copied ld) (l # fst ?lrun)) (map (copied rd) (r # fst ?rrun)) = Inr ms1" using m(1) by (simp only: join_tuples_copies)
  then have "merge_groups leftKeys rightKeys L R l r ?a ?b w e = (Inr (), w2, ?e)"
    using 1(1) 2(1) l(3) r(3) s by (simp add: merge_groups_def with_desc_def settle_def Let_def)
  moreover have "sm_state L R lrows rrows ld rd od ?e (snd ?lrun) (snd ?rrun)" using s 1(3) 2(3) by (simp add: sm_state_def)
  moreover have "length (snd ?lrun) + length (snd ?rrun) < length (l # ls) + length (r # rs)"
    using key_run_length [of kcmp has_null "full_key leftKeys" ?a ls] key_run_length [of kcmp has_null "full_key rightKeys" ?b rs] by simp
  moreover have "set (snd ?lrun) \<subseteq> set (l # ls)" "set (snd ?rrun) \<subseteq> set (r # rs)"
    using key_run_set(2) [of kcmp has_null "full_key leftKeys" ?a ls] key_run_set(2) [of kcmp has_null "full_key rightKeys" ?b rs] by auto
  ultimately show ?thesis by (intro passedI [where e' = ?e, OF _ 2(2) _ _ _ _ m(2,3)]) simp_all
qed

lemma merge_body_ok:
  assumes w: "inv w" and e: "sm_state L R lrows rrows ld rd od e (l # ls) (r # rs)"
    and ok: "side_ok L leftKeys kt ld (l # ls)" "side_ok R rightKeys kt rd (r # rs)"
    and ms: "mapR (merge_copies ld rd od) (merge_rows leftKeys rightKeys (l # ls) (r # rs)) = Inr ms"
  shows "passed ld rd od leftKeys rightKeys e (l # ls) (r # rs) ms (merge_body leftKeys rightKeys L R w e)"
proof -
  note s = sm_stateD [OF e]
  let ?a = "full_key leftKeys l" and ?b = "full_key rightKeys r"
  have l: "joinKey l leftKeys = Inr (if has_null ?a then None else Some ?a)" "key_typed kt ?a" using side_okD [OF ok(1), of l] by auto
  have r: "joinKey r rightKeys = Inr (if has_null ?b then None else Some ?b)" "key_typed kt ?b" using side_okD [OF ok(2), of r] by auto
  have c: "Tuple_Compare (key_tuple ?a) (key_tuple ?b) = Inr (kcmp ?a ?b)" "kcmp ?a ?b \<in> {- 1, 0, 1}" using key_tuple_cmp(1) [OF l(2) r(2)] lex_kcmp [OF l(2) r(2)] by auto
  consider (nl) "has_null ?a" | (nr) "\<not> has_null ?a" "has_null ?b" | (eq) "\<not> has_null ?a" "\<not> has_null ?b" "kcmp ?a ?b = 0"
    | (lt) "\<not> has_null ?a" "\<not> has_null ?b" "kcmp ?a ?b = - 1" | (gt) "\<not> has_null ?a" "\<not> has_null ?b" "kcmp ?a ?b = 1" using c(2) by blast
  then show ?thesis
  proof cases
    case eq
    then have "merge_body leftKeys rightKeys L R w e = merge_groups leftKeys rightKeys L R l r ?a ?b w e" using s(7,9) l(1) r(1) c(1) by (simp add: merge_body_def)
    then show ?thesis using pass_groups [OF w e ok eq ms] by simp
  next
    case nl
    then have "merge_body leftKeys rightKeys L R w e = advance_left L w e" using s(7,9) l(1) by (simp add: merge_body_def)
    then show ?thesis using pass_left [OF w e] ms nl by simp
  next
    case nr
    then have "merge_body leftKeys rightKeys L R w e = advance_right R w e" using s(7,9) l(1) r(1) by (simp add: merge_body_def)
    then show ?thesis using pass_right [OF w e] ms nr by simp
  next
    case lt
    then have "merge_body leftKeys rightKeys L R w e = advance_left L w e" using s(7,9) l(1) r(1) c(1) by (simp add: merge_body_def)
    then show ?thesis using pass_left [OF w e] ms lt by simp
  next
    case gt
    then have "merge_body leftKeys rightKeys L R w e = advance_right R w e" using s(7,9) l(1) r(1) c(1) by (simp add: merge_body_def)
    then show ?thesis using pass_right [OF w e] ms gt by simp
  qed
qed

lemma merge_loop_ok:
  assumes "inv w" "sm_state L R lrows rrows ld rd od e ls rs" "side_ok L leftKeys kt ld ls" "side_ok R rightKeys kt rd rs"
    "mapR (merge_copies ld rd od) (merge_rows leftKeys rightKeys ls rs) = Inr ms"
  shows "\<exists>w' e' ls' rs'. merge_loop leftKeys rightKeys L R w e = Some (Inr (), w', e') \<and> inv w' \<and> sm_state L R lrows rrows ld rd od e' ls' rs' \<and>
    (ls' = [] \<or> rs' = []) \<and> set ls' \<subseteq> set ls \<and> set rs' \<subseteq> set rs \<and> sm_tuples e' = sm_tuples e @ ms \<and> sm_tIdx e' = sm_tIdx e"
  using assms
proof (induction "length ls + length rs" arbitrary: w e ls rs ms rule: less_induct)
  case less
  show ?case
  proof (cases "leftNoNext e \<or> rightNoNext e")
    case True
    then have "ls = [] \<or> rs = []" using less.prems(2) by (auto simp: sm_state_def at_row_def)
    moreover from this have "ms = []" using less.prems(5) by (cases ls; cases rs) auto
    ultimately show ?thesis using True less.prems(1,2) by (subst merge_loop.simps) auto
  next
    case False
    then obtain l ls1 r rs1 where c: "ls = l # ls1" "rs = r # rs1" using less.prems(2) by (auto simp: sm_state_def at_row_def)
    from merge_body_ok [OF less.prems [unfolded c]]
    obtain w1 e1 ls' rs' ms1 ms2 where b: "merge_body leftKeys rightKeys L R w e = (Inr (), w1, e1)" "inv w1" "sm_state L R lrows rrows ld rd od e1 ls' rs'"
        "set ls' \<subseteq> set ls" "set rs' \<subseteq> set rs" "length ls' + length rs' < length ls + length rs"
        "mapR (merge_copies ld rd od) (merge_rows leftKeys rightKeys ls' rs') = Inr ms2" "ms = ms1 @ ms2" "sm_tuples e1 = sm_tuples e @ ms1" "sm_tIdx e1 = sm_tIdx e"
      unfolding passed_def c by blast
    have "side_ok L leftKeys kt ld ls'" "side_ok R rightKeys kt rd rs'" using less.prems(3,4) b(4,5) by (auto simp: side_ok_def)
    from less.hyps [OF b(6,2,3) this b(7)]
    obtain w' e' ls'' rs'' where m: "merge_loop leftKeys rightKeys L R w1 e1 = Some (Inr (), w', e')" "inv w'" "sm_state L R lrows rrows ld rd od e' ls'' rs''"
        "ls'' = [] \<or> rs'' = []" "set ls'' \<subseteq> set ls'" "set rs'' \<subseteq> set rs'" "sm_tuples e' = sm_tuples e1 @ ms2" "sm_tIdx e' = sm_tIdx e1" by blast
    have "merge_loop leftKeys rightKeys L R w e = Some (Inr (), w', e')" using b(1) m(1) False by (subst merge_loop.simps) simp
    moreover have "set ls'' \<subseteq> set ls" "set rs'' \<subseteq> set rs" using m(5,6) b(4,5) by auto
    ultimately show ?thesis using m(2,3,4,7,8) b(8-10) by (intro exI [of _ w'] exI [of _ e'] exI [of _ ls''] exI [of _ rs'']) simp
  qed
qed

end

definition sm_rows :: "Expr list \<Rightarrow> Expr list \<Rightarrow> ('w, 'a) Executor \<Rightarrow> ('w, 'b) Executor \<Rightarrow> ('a \<Rightarrow> Tuple list \<Rightarrow> bool) \<Rightarrow> ('b \<Rightarrow> Tuple list \<Rightarrow> bool) \<Rightarrow>
    RawTupleDesc \<times> RawTupleDesc \<times> RawTupleDesc \<Rightarrow> ('a, 'b) SortMergeJoinExecutor \<Rightarrow> Tuple list \<Rightarrow> bool" where
  "sm_rows leftKeys rightKeys L R lrows rrows = (\<lambda>(ld, rd, od) e us.
     \<exists>ls rs ms. sm_state L R lrows rrows ld rd od e ls rs \<and>
       side_ok L leftKeys (map OutputType leftKeys) ld ls \<and> side_ok R rightKeys (map OutputType leftKeys) rd rs \<and>
       mapR (merge_copies ld rd od) (merge_rows leftKeys rightKeys ls rs) = Inr ms \<and> cursor_rows (sm_tuples e @ ms) (sm_tIdx e) us)"

definition sm_ready :: "Expr list \<Rightarrow> Expr list \<Rightarrow> ('w, 'a) Executor \<Rightarrow> ('w, 'b) Executor \<Rightarrow> ('a \<Rightarrow> Tuple list \<Rightarrow> bool) \<Rightarrow> ('b \<Rightarrow> Tuple list \<Rightarrow> bool) \<Rightarrow>
    RawTupleDesc \<times> RawTupleDesc \<times> RawTupleDesc \<Rightarrow> ('a, 'b) SortMergeJoinExecutor \<Rightarrow> Tuple list \<Rightarrow> bool" where
  "sm_ready leftKeys rightKeys L R lready rready = (\<lambda>(ld, rd, od) e us. sm_err e = None \<and>
     (\<exists>kd. sm_descs leftKeys (ex_Schema L) (ex_Schema R) = Inr (ld, rd, od, kd)) \<and>
     (\<exists>ls rs. lready (sm_left e) ls \<and> rready (sm_right e) rs \<and>
       side_ok L leftKeys (map OutputType leftKeys) ld ls \<and> side_ok R rightKeys (map OutputType leftKeys) rd rs \<and>
       mapR (merge_copies ld rd od) (merge_rows leftKeys rightKeys ls rs) = Inr us))"

context join_sources
begin

lemma merge_init:
  assumes w: "inv w" and e: "sm_ready leftKeys rightKeys L R lready rready (ld, rd, od) e us"
  shows "\<exists>w' e'. SMJ_Init leftKeys L R w e = (Inr (), w', e') \<and> inv w' \<and> sm_rows leftKeys rightKeys L R lrows rrows (ld, rd, od) e' us"
proof -
  obtain kd ls rs where r: "sm_err e = None" "sm_descs leftKeys (ex_Schema L) (ex_Schema R) = Inr (ld, rd, od, kd)" "lready (sm_left e) ls" "rready (sm_right e) rs"
      "side_ok L leftKeys (map OutputType leftKeys) ld ls" "side_ok R rightKeys (map OutputType leftKeys) rd rs"
      "mapR (merge_copies ld rd od) (merge_rows leftKeys rightKeys ls rs) = Inr us"
    using e unfolding sm_ready_def by auto
  obtain w1 l1 where 1: "ex_Init L w (sm_left e) = (Inr (), w1, l1)" "inv w1" "lrows l1 ls" using left.init_law [OF w r(3)] by blast
  obtain w2 r1 where 2: "ex_Init R w1 (sm_right e) = (Inr (), w2, r1)" "inv w2" "rrows r1 rs" using right.init_law [OF 1(2) r(4)] by blast
  obtain w3 l2 where 3: "ex_Next L w2 l1 = (Inr (ls \<noteq> []), w3, l2)" "inv w3" "at_row L lrows l2 (ls = []) ls" by (rule left.next_row [OF 2(2) 1(3)])
  obtain w4 r2 where 4: "ex_Next R w3 r1 = (Inr (rs \<noteq> []), w4, r2)" "inv w4" "at_row R rrows r2 (rs = []) rs" by (rule right.next_row [OF 3(2) 2(3)])
  let ?e = "e\<lparr>sm_left := l2, sm_right := r2, sm_leftDesc := Some ld, sm_rightDesc := Some rd, sm_outPutdesc := Some od, sm_lkeySchema := Some kd,
      sm_rkeySchema := Some kd, leftNoNext := (ls = []), rightNoNext := (rs = []), sm_tIdx := - 1, sm_tuples := []\<rparr>"
  have "SMJ_Init leftKeys L R w e = (Inr (), w4, ?e)"
    using 1(1) 2(1) 3(1) 4(1) r(2) by (simp add: SMJ_Init_def advance_left_def advance_right_def Let_def)
  moreover have "sm_state L R lrows rrows ld rd od ?e ls rs" using r(1) 3(3) 4(3) by (simp add: sm_state_def)
  then have "sm_rows leftKeys rightKeys L R lrows rrows (ld, rd, od) ?e us" unfolding sm_rows_def using r(5-7) by auto
  ultimately show ?thesis using 4(2) by blast
qed

lemma merge_next:
  assumes w: "inv w" and e: "sm_rows leftKeys rightKeys L R lrows rrows (ld, rd, od) e us"
  obtains w' e' where "merge_loop leftKeys rightKeys L R w e = Some (Inr (), w', e')" "inv w'" "cursor_rows (sm_tuples e') (sm_tIdx e') us" "sm_err e' = None"
    "\<And>i us. cursor_rows (sm_tuples e') i us \<Longrightarrow> sm_rows leftKeys rightKeys L R lrows rrows (ld, rd, od) (e'\<lparr>sm_tIdx := i\<rparr>) us"
proof -
  obtain ls rs ms where s: "sm_state L R lrows rrows ld rd od e ls rs" "side_ok L leftKeys (map OutputType leftKeys) ld ls"
      "side_ok R rightKeys (map OutputType leftKeys) rd rs" "mapR (merge_copies ld rd od) (merge_rows leftKeys rightKeys ls rs) = Inr ms"
      "cursor_rows (sm_tuples e @ ms) (sm_tIdx e) us"
    using e unfolding sm_rows_def by auto
  obtain w' e' ls' rs' where l: "merge_loop leftKeys rightKeys L R w e = Some (Inr (), w', e')" "inv w'" "sm_state L R lrows rrows ld rd od e' ls' rs'"
      "ls' = [] \<or> rs' = []" "set ls' \<subseteq> set ls" "set rs' \<subseteq> set rs" "sm_tuples e' = sm_tuples e @ ms" "sm_tIdx e' = sm_tIdx e"
    using merge_loop_ok [OF w s(1-4)] by blast
  have ok: "side_ok L leftKeys (map OutputType leftKeys) ld ls'" "side_ok R rightKeys (map OutputType leftKeys) rd rs'" using s(2,3) l(5,6) by (auto simp: side_ok_def)
  have none: "mapR (merge_copies ld rd od) (merge_rows leftKeys rightKeys ls' rs') = Inr []" using l(4) by (cases ls'; cases rs') auto
  have "sm_rows leftKeys rightKeys L R lrows rrows (ld, rd, od) (e'\<lparr>sm_tIdx := i\<rparr>) vs" if "cursor_rows (sm_tuples e') i vs" for i vs
  proof -
    have "sm_state L R lrows rrows ld rd od (e'\<lparr>sm_tIdx := i\<rparr>) ls' rs'" using l(3) by (simp add: sm_state_def)
    then show ?thesis unfolding sm_rows_def prod.case using ok none that by (intro exI [of _ ls'] exI [of _ rs'] exI [of _ "[]"]) simp
  qed
  moreover have "sm_err e' = None" using l(3) by (simp add: sm_state_def)
  ultimately show thesis using that l(1,2,7,8) s(5) by simp
qed

lemma merge_source: "row_source (SortMergeJoinExec leftKeys rightKeys L R) inv (sm_ready leftKeys rightKeys L R lready rready (ld, rd, od))
    (sm_rows leftKeys rightKeys L R lrows rrows (ld, rd, od))"
proof
  let ?E = "SortMergeJoinExec leftKeys rightKeys L R" and ?rows = "sm_rows leftKeys rightKeys L R lrows rrows (ld, rd, od)"
  show "\<exists>w' s'. ex_Init ?E w s = (Inr (), w', s') \<and> inv w' \<and> ?rows s' us" if "inv w" "sm_ready leftKeys rightKeys L R lready rready (ld, rd, od) s us" for w s us
    using merge_init [OF that] by (simp add: SortMergeJoinExec_def)
  show "\<exists>w' s'. ex_Next ?E w s = (Inr True, w', s') \<and> inv w' \<and> ?rows s' us \<and> ex_Current ?E s' = Inr u" if a: "inv w" "?rows s (u # us)" for w s u us
  proof -
    obtain w' e' where m: "merge_loop leftKeys rightKeys L R w s = Some (Inr (), w', e')" "inv w'" "cursor_rows (sm_tuples e') (sm_tIdx e') (u # us)"
        "\<And>i us. cursor_rows (sm_tuples e') i us \<Longrightarrow> ?rows (e'\<lparr>sm_tIdx := i\<rparr>) us"
      using merge_next [OF a] by metis
    show ?thesis using m(1,2) m(4) [OF cursor_next(3) [OF m(3)]] cursor_next(1,2) [OF m(3)] by (simp add: SortMergeJoinExec_def SMJ_Next_def settle_def)
  qed
  show "\<exists>w' s'. ex_Next ?E w s = (Inr False, w', s') \<and> inv w' \<and> ex_Error ?E s' = None" if a: "inv w" "?rows s []" for w s
  proof -
    obtain w' e' where m: "merge_loop leftKeys rightKeys L R w s = Some (Inr (), w', e')" "inv w'" "cursor_rows (sm_tuples e') (sm_tIdx e') []" "sm_err e' = None"
      using merge_next [OF a] by metis
    show ?thesis using m(1,2,4) cursor_end [OF m(3)] by (simp add: SortMergeJoinExec_def SMJ_Next_def settle_def)
  qed
  show "ex_Error ?E s = None" if "?rows s us" for s us using that by (auto simp: SortMergeJoinExec_def sm_rows_def sm_state_def)
qed

end


section \<open>Properties\<close>

definition sorted_on :: "Expr list \<Rightarrow> Tuple list \<Rightarrow> bool" where
  "sorted_on keys ts \<longleftrightarrow> sorted_wrt (\<lambda>a b. kcmp (full_key keys a) (full_key keys b) \<le> 0) ts"

definition sort_row :: "('w, 's) Executor \<Rightarrow> gtype list \<Rightarrow> Expr list \<Rightarrow> Tuple \<Rightarrow> bool" where
  "sort_row E kt keys t \<longleftrightarrow> tuple_ok t \<and> tuple_types t = ex_Schema E \<and> mapR (\<lambda>x. Eval x t) keys = Inr (full_key keys t) \<and>
     key_typed kt (full_key keys t) \<and> (\<forall>s. map (ex_Reread E s) (full_key keys t) = full_key keys t)"

lemma sort_row_copy:
  assumes "sort_row E kt keys t" "NewRawTupleDesc (ex_Schema E) = Inr d"
  shows "DeepCopy t d = Inr (copied d t)" "tuple_has (copied d t) (columns t)" "tuple_ok (copied d t)" "tuple_types (copied d t) = ex_Schema E"
proof -
  have ok: "tuple_ok t" "tuple_types t = ex_Schema E" using assms(1) by (simp_all add: sort_row_def)
  show "DeepCopy t d = Inr (copied d t)" "tuple_has (copied d t) (columns t)" "tuple_ok (copied d t)" "tuple_types (copied d t) = ex_Schema E"
    using DeepCopy_ok [OF ok(1) _ columns_ok(2) [OF ok(1)], of d] ok(2) assms(2) by (auto simp: copied_def)
qed

lemma merge_copies_ok:
  assumes "\<forall>x \<in> set ps. sort_row L kt leftKeys (fst x) \<and> sort_row R kt rightKeys (snd x)"
    and d: "NewRawTupleDesc (ex_Schema L) = Inr ld" "NewRawTupleDesc (ex_Schema R) = Inr rd" "NewRawTupleDesc (ex_Schema L @ ex_Schema R) = Inr od"
  shows "\<exists>us. mapR (merge_copies ld rd od) ps = Inr us \<and> joined ps us"
  using assms(1)
proof (induction ps)
  case (Cons x ps)
  note l = sort_row_copy [of L kt leftKeys "fst x", OF _ d(1)] and r = sort_row_copy [of R kt rightKeys "snd x", OF _ d(2)]
  obtain m where "merge_copies ld rd od x = Inr m" "tuple_has m (columns (fst x) @ columns (snd x))"
    using MergeTuples_columns [OF l(3) r(3) _ _ l(2) r(2), of od "replicate (BytesPerTuple od) 0"] l(4) r(4) d(3) Cons.prems by (auto simp: merge_copies_def)
  then show ?case using Cons by (auto simp: joined_def)
qed (simp add: joined_def)

lemma merge_rows_joins:
  assumes "\<forall>t \<in> set ls. sort_row L kt leftKeys t" "\<forall>t \<in> set rs. sort_row R kt rightKeys t" "sorted_on leftKeys ls" "sorted_on rightKeys rs"
  shows "merge_rows leftKeys rightKeys ls rs = filter (\<lambda>(l, r). joins leftKeys rightKeys l r) (List.product ls rs)"
proof -
  have k: "key_typed kt (full_key leftKeys l)" if "l \<in> set ls" for l using assms(1) that by (simp add: sort_row_def)
  have k': "key_typed kt (full_key rightKeys r)" if "r \<in> set rs" for r using assms(2) that by (simp add: sort_row_def)
  have "korder.key_sorted kt (full_key leftKeys) ls" "korder.key_sorted kt (full_key rightKeys) rs"
    using assms(3,4) k k' by (auto simp: korder.key_sorted_def sorted_on_def)
  then have "merge_rows leftKeys rightKeys ls rs = korder.matches (full_key leftKeys) (full_key rightKeys) ls rs" by (rule korder.merge_lists_sorted)
  also have "\<dots> = filter (\<lambda>(l, r). joins leftKeys rightKeys l r) (List.product ls rs)"
    unfolding korder.matches_def
  proof (rule filter_cong [OF refl], clarify)
    fix l r assume "(l, r) \<in> set (List.product ls rs)"
    then have lr: "l \<in> set ls" "r \<in> set rs" by auto
    have v: "key_values leftKeys l = Inr (if has_null (full_key leftKeys l) then None else Some (full_key leftKeys l))"
      "key_values rightKeys r = Inr (if has_null (full_key rightKeys r) then None else Some (full_key rightKeys r))"
      using key_values_full assms(1,2) lr by (simp_all add: sort_row_def)
    show "korder.key_match (full_key leftKeys) (full_key rightKeys) l r = joins leftKeys rightKeys l r"
      using kcmp_zero [OF k [OF lr(1)] k' [OF lr(2)]] v by (simp add: korder.key_match_def joins_def)
  qed
  finally show ?thesis .
qed

text \<open>
  C17: Sort-merge joins over children whose keys stay readable.  Over two sources of well-formed
  rows of their schemas that are sorted on their keys, nulls first, where the keys evaluate to
  values of the types of the left key expressions and still read the same after their child has
  moved on, the join delivers exactly the pairs of rows with equal keys and no null in them, in
  the order of the left side and then of the right side, with the columns of the left row
  followed by those of the right one.  Integers are copied and stay readable; string keys that
  an index scan delivers need not, because the scan reads every row into one buffer and the operator
  keeps the key of the first row of a group while it reads the others.
\<close>

theorem merge_join_rows:
  assumes src: "row_source L W lready lrows" "row_source R W rready rrows" and w: "W w"
    and desc: "NewRawTupleDesc (ex_Schema L) = Inr ld" "NewRawTupleDesc (ex_Schema R) = Inr rd" "NewRawTupleDesc (ex_Schema L @ ex_Schema R) = Inr od"
      "NewRawTupleDesc (map OutputType leftKeys) = Inr kd"
    and ls: "lready l ls" "\<forall>t \<in> set ls. sort_row L (map OutputType leftKeys) leftKeys t" "sorted_on leftKeys ls"
    and rs: "rready r rs" "\<forall>t \<in> set rs. sort_row R (map OutputType leftKeys) rightKeys t" "sorted_on rightKeys rs"
  shows "\<exists>w' e' us. ex_Init (SortMergeJoinExec leftKeys rightKeys L R) w (NewSortMergeJoinExecutor l r) = (Inr (), w', e') \<and> W w' \<and>
    sm_rows leftKeys rightKeys L R lrows rrows (ld, rd, od) e' us \<and>
    joined (filter (\<lambda>(l, r). joins leftKeys rightKeys l r) (List.product ls rs)) us \<and>
    row_source (SortMergeJoinExec leftKeys rightKeys L R) W (sm_ready leftKeys rightKeys L R lready rready (ld, rd, od))
      (sm_rows leftKeys rightKeys L R lrows rrows (ld, rd, od))"
proof -
  let ?kt = "map OutputType leftKeys" and ?ps = "filter (\<lambda>(l, r). joins leftKeys rightKeys l r) (List.product ls rs)"
  note m = merge_rows_joins [OF ls(2) rs(2) ls(3) rs(3)]
  have "\<forall>x \<in> set ?ps. sort_row L ?kt leftKeys (fst x) \<and> sort_row R ?kt rightKeys (snd x)" using ls(2) rs(2) by auto
  from merge_copies_ok [OF this desc(1-3)] obtain us where us: "mapR (merge_copies ld rd od) ?ps = Inr us" "joined ?ps us" by blast
  have ok: "side_ok L leftKeys ?kt ld ls" "side_ok R rightKeys ?kt rd rs"
    using ls(2) rs(2) sort_row_copy(1) [OF _ desc(1)] sort_row_copy(1) [OF _ desc(2)] by (auto simp: side_ok_def sort_row_def)
  have "sm_ready leftKeys rightKeys L R lready rready (ld, rd, od) (NewSortMergeJoinExecutor l r) us"
    unfolding sm_ready_def prod.case using desc ls(1) rs(1) ok us(1) [folded m]
    by (intro conjI exI [of _ ls] exI [of _ rs] exI [of _ kd]) (simp_all add: NewSortMergeJoinExecutor_def sm_descs_def)
  from join_sources.merge_init [OF join_sources.intro [OF src] w this]
  obtain w' e' where "SMJ_Init leftKeys L R w (NewSortMergeJoinExecutor l r) = (Inr (), w', e')" "W w'" "sm_rows leftKeys rightKeys L R lrows rrows (ld, rd, od) e' us" by blast
  moreover have "ex_Init (SortMergeJoinExec leftKeys rightKeys L R) = SMJ_Init leftKeys L R" by (simp add: SortMergeJoinExec_def)
  ultimately show ?thesis using us(2) join_sources.merge_source [OF join_sources.intro [OF src], of leftKeys rightKeys ld rd od] by metis
qed

lemma demo_sort_rows:
  assumes "n \<in> {1, 2, 3, 4}"
  shows "full_key [BoundValueExpr 0 IntType ''a''] (FromValues (Some [NewIntValue n])) = [NewIntValue n]"
    "sort_row (ValuesExec demo_values [IntType] :: (unit, ValuesExecutor) Executor) [IntType] [BoundValueExpr 0 IntType ''a''] (FromValues (Some [NewIntValue n]))"
proof -
  let ?k = "[BoundValueExpr 0 IntType ''a'']" and ?t = "FromValues (Some [NewIntValue n])"
  have e: "mapR (\<lambda>x. Eval x ?t) ?k = Inr [NewIntValue n]" by (simp add: Tuple_GetValue_def FromValues_def extra_list_def nth_checked_def)
  then show f: "full_key ?k ?t = [NewIntValue n]" by (simp add: full_key_def)
  have "tuple_ok ?t" "tuple_types ?t = [IntType]" "key_typed [IntType] [NewIntValue n]"
    using assms by (auto simp: tuple_ok_def FromValues_def extra_list_def value_wf_def storable_def NewIntValue_def zeroValue_def MinInt64_def tuple_types_def key_typed_def)
  then show "sort_row (ValuesExec demo_values [IntType] :: (unit, ValuesExecutor) Executor) [IntType] ?k ?t"
    unfolding sort_row_def f using e by (simp add: ValuesExec_def)
qed

theorem merge_join_rows_witness:
  "\<exists>w' e' us ds. ex_Init (SortMergeJoinExec [BoundValueExpr 0 IntType ''a''] [BoundValueExpr 0 IntType ''a'']
       (ValuesExec demo_values [IntType]) (ValuesExec demo_values [IntType])) () (NewSortMergeJoinExecutor NewValuesExecutor NewValuesExecutor) = (Inr (), w', e') \<and>
     sm_rows [BoundValueExpr 0 IntType ''a''] [BoundValueExpr 0 IntType ''a''] (ValuesExec demo_values [IntType] :: (unit, ValuesExecutor) Executor)
       (ValuesExec demo_values [IntType] :: (unit, ValuesExecutor) Executor) (values_rows demo_values [IntType]) (values_rows demo_values [IntType]) ds e' us \<and> length us = 4"
proof -
  let ?k = "[BoundValueExpr 0 IntType ''a'']" and ?ts = "map (\<lambda>n. FromValues (Some [NewIntValue n])) [1, 2, 3, 4]"
  let ?V = "ValuesExec demo_values [IntType] :: (unit, ValuesExecutor) Executor"
  have r: "values_ready demo_values [IntType] NewValuesExecutor ?ts" by (simp add: values_ready_def demo_values_def const_row_def)
  have s: "ex_Schema ?V = [IntType]" by (simp add: ValuesExec_def)
  obtain d1 where d1: "NewRawTupleDesc [IntType] = Inr d1" using NewRawTupleDesc_eq [of "[IntType]"] by (auto simp: total_size_def type_size_def size_defs)
  obtain d2 where d2: "NewRawTupleDesc ([IntType] @ [IntType]) = Inr d2" using NewRawTupleDesc_eq [of "[IntType, IntType]"] by (auto simp: total_size_def type_size_def size_defs)
  have n: "length (filter (\<lambda>(l, r). joins ?k ?k l r) (List.product ?ts ?ts)) = 4"
    by (simp add: joins_def Tuple_GetValue_def FromValues_def extra_list_def nth_checked_def value_eq_def NewIntValue_def zeroValue_def)
  have o: "map OutputType ?k = [IntType]" by simp
  have ok: "\<forall>t \<in> set ?ts. sort_row ?V [IntType] ?k t" using demo_sort_rows(2) by simp
  have so: "sorted_on ?k ?ts" unfolding sorted_on_def by (simp add: demo_sort_rows(1)) (simp add: kcmp_def Value_Compare_def NewIntValue_def zeroValue_def)
  have src: "row_source ?V (\<lambda>_. True) (values_ready demo_values [IntType]) (values_rows demo_values [IntType])" by (rule vals.row_source_axioms)
  obtain w' e' us where "ex_Init (SortMergeJoinExec ?k ?k ?V ?V) () (NewSortMergeJoinExecutor NewValuesExecutor NewValuesExecutor) = (Inr (), w', e')"
      "sm_rows ?k ?k ?V ?V (values_rows demo_values [IntType]) (values_rows demo_values [IntType]) (d1, d1, d2) e' us"
      "joined (filter (\<lambda>(l, r). joins ?k ?k l r) (List.product ?ts ?ts)) us"
    using merge_join_rows [OF src src, where w = "()" and leftKeys = ?k and rightKeys = ?k, unfolded s o, OF TrueI d1 d1 d2 d1 r ok so r ok so] by blast
  moreover from this(3) have "length us = 4" using n by (auto simp: joined_def simp del: filter.simps product.simps dest!: list_all2_lengthD)
  ultimately show ?thesis by (intro exI [of _ w'] exI [of _ e'] exI [of _ us] exI [of _ "(d1, d1, d2)"]) simp
qed

end
