(* ===== verification/Binary_Heap.thy ===== *)
theory Binary_Heap
  imports Prelude "HOL-Library.Multiset"
begin

text \<open>
  The operations of Go's \<^verbatim>\<open>container/heap\<close> that \<^verbatim>\<open>execution/topn_executor.go\<close> calls, on a slice
  that is compared through the \<^verbatim>\<open>Less\<close> method of its owner, and what they promise to that owner.
\<close>

section \<open>The operations\<close>

definition swap :: "'a list \<Rightarrow> nat \<Rightarrow> nat \<Rightarrow> 'a list" where
  "swap xs i j = xs[i := xs ! j, j := xs ! i]"

definition parent :: "nat \<Rightarrow> nat" where
  "parent j = (j - 1) div 2"

lemma parent_less: "0 < j \<Longrightarrow> parent j < j"
  by (simp add: parent_def)

lemma parent_self [simp]: "parent j = j \<longleftrightarrow> j = 0"
  using parent_less [of j] by (cases "j = 0") (simp_all add: parent_def)

lemma parent_children: "0 < k \<Longrightarrow> parent k = i \<longleftrightarrow> k = 2 * i + 1 \<or> k = 2 * i + 2"
  by (auto simp: parent_def)

text \<open>\<^verbatim>\<open>up\<close>: the parent of the root is the root itself, as \<^verbatim>\<open>(0 - 1) / 2\<close> is zero.\<close>

function heap_up :: "('a list \<Rightarrow> nat \<Rightarrow> nat \<Rightarrow> bool res) \<Rightarrow> 'a list \<Rightarrow> nat \<Rightarrow> 'a list res" where
  "heap_up Less xs j =
     (if parent j = j then Inr xs
      else case Less xs j (parent j) of
             Inl f \<Rightarrow> Inl f
           | Inr b \<Rightarrow> if \<not> b then Inr xs else heap_up Less (swap xs (parent j) j) (parent j))"
  by pat_completeness auto
termination
  by (relation "measure (\<lambda>(Less, xs, j). j)") (auto simp: parent_less)

definition best_child :: "('a list \<Rightarrow> nat \<Rightarrow> nat \<Rightarrow> bool res) \<Rightarrow> 'a list \<Rightarrow> nat \<Rightarrow> nat \<Rightarrow> nat res" where
  "best_child Less xs i n =
     (let j1 = 2 * i + 1; j2 = j1 + 1
      in if j2 < n then bindR (Less xs j2 j1) (\<lambda>b. Inr (if b then j2 else j1)) else Inr j1)"

lemma best_child_range: "best_child Less xs i n = Inr j \<Longrightarrow> j = 2 * i + 1 \<or> j = 2 * i + 2 \<and> j < n"
  by (auto simp: best_child_def Let_def bindR_eq_Inr split: if_splits)

function heap_down :: "('a list \<Rightarrow> nat \<Rightarrow> nat \<Rightarrow> bool res) \<Rightarrow> 'a list \<Rightarrow> nat \<Rightarrow> nat \<Rightarrow> 'a list res" where
  "heap_down Less xs i n =
     (if 2 * i + 1 \<ge> n then Inr xs
      else case best_child Less xs i n of
             Inl f \<Rightarrow> Inl f
           | Inr j \<Rightarrow>
               (case Less xs j i of
                  Inl f \<Rightarrow> Inl f
                | Inr b \<Rightarrow> if \<not> b then Inr xs else heap_down Less (swap xs i j) j n))"
  by pat_completeness auto
termination
  by (relation "measure (\<lambda>(Less, xs, i, n). n - i)") (auto dest: best_child_range)

declare heap_up.simps [simp del] heap_down.simps [simp del]

definition heap_Push :: "('a list \<Rightarrow> nat \<Rightarrow> nat \<Rightarrow> bool res) \<Rightarrow> 'a list \<Rightarrow> 'a \<Rightarrow> 'a list res" where
  "heap_Push Less xs x = heap_up Less (xs @ [x]) (length xs)"

definition heap_Pop :: "('a list \<Rightarrow> nat \<Rightarrow> nat \<Rightarrow> bool res) \<Rightarrow> 'a list \<Rightarrow> ('a \<times> 'a list) res" where
  "heap_Pop Less xs =
     (if xs = [] then Inl (Panic ''index out of range'')
      else bindR (heap_down Less (swap xs 0 (length xs - 1)) 0 (length xs - 1)) (\<lambda>ys. Inr (last ys, butlast ys)))"

section \<open>Swapping\<close>

lemma swap_props [simp]:
  assumes "i < length xs" "j < length xs"
  shows "length (swap xs i j) = length xs" "mset (swap xs i j) = mset xs" "set (swap xs i j) = set xs"
    "k < length xs \<Longrightarrow> swap xs i j ! k = (if k = j then xs ! i else if k = i then xs ! j else xs ! k)"
proof -
  show m: "mset (swap xs i j) = mset xs" using mset_swap [OF assms(2,1)] by (simp add: swap_def)
  show "set (swap xs i j) = set xs" by (rule mset_eq_setD [OF m])
qed (use assms in \<open>auto simp: swap_def nth_list_update\<close>)

section \<open>What a heap promises\<close>

text \<open>
  The owner's promise: \<^verbatim>\<open>Less\<close> answers whether an element may come before another, in a total
  order with ties on the elements \<open>A\<close>.
\<close>

locale heap_owner =
  fixes Less :: "'a list \<Rightarrow> nat \<Rightarrow> nat \<Rightarrow> bool res" and before :: "'a \<Rightarrow> 'a \<Rightarrow> bool" and A :: "'a set"
  assumes less_law: "set xs \<subseteq> A \<Longrightarrow> i < length xs \<Longrightarrow> j < length xs \<Longrightarrow> Less xs i j = Inr (before (xs ! i) (xs ! j))"
    and before_total: "x \<in> A \<Longrightarrow> y \<in> A \<Longrightarrow> before x y \<or> before y x"
    and before_trans: "x \<in> A \<Longrightarrow> y \<in> A \<Longrightarrow> z \<in> A \<Longrightarrow> before x y \<Longrightarrow> before y z \<Longrightarrow> before x z"
begin

definition is_heap :: "nat \<Rightarrow> 'a list \<Rightarrow> bool" where
  "is_heap n xs \<longleftrightarrow> (\<forall>k < n. 0 < k \<longrightarrow> before (xs ! parent k) (xs ! k))"

definition up_inv :: "'a list \<Rightarrow> nat \<Rightarrow> bool" where
  "up_inv xs j \<longleftrightarrow> (\<forall>k < length xs. 0 < k \<longrightarrow> k \<noteq> j \<longrightarrow> before (xs ! parent k) (xs ! k)) \<and>
     (\<forall>k < length xs. 0 < k \<longrightarrow> 0 < j \<longrightarrow> parent k = j \<longrightarrow> before (xs ! parent j) (xs ! k))"

definition down_inv :: "nat \<Rightarrow> 'a list \<Rightarrow> nat \<Rightarrow> bool" where
  "down_inv n xs i \<longleftrightarrow> (\<forall>k < n. 0 < k \<longrightarrow> parent k \<noteq> i \<longrightarrow> before (xs ! parent k) (xs ! k)) \<and>
     (\<forall>k < n. 0 < k \<longrightarrow> 0 < i \<longrightarrow> parent k = i \<longrightarrow> before (xs ! parent i) (xs ! k))"

lemma in_A: "set xs \<subseteq> A \<Longrightarrow> k < length xs \<Longrightarrow> xs ! k \<in> A"
  using nth_mem by blast

lemma up_step:
  assumes xs: "set xs \<subseteq> A" and j: "0 < j" "j < length xs" and v: "up_inv xs j" and b: "before (xs ! j) (xs ! parent j)"
  shows "up_inv (swap xs (parent j) j) (parent j)"
proof -
  let ?i = "parent j" and ?ys = "swap xs (parent j) j"
  have i: "?i < length xs" "?i < j" using j parent_less [of j] by simp_all
  note tr = before_trans [OF in_A [OF xs] in_A [OF xs] in_A [OF xs]]
  have ok: "before (xs ! parent k) (xs ! k)" if "k < length xs" "0 < k" "k \<noteq> j" for k using v that by (simp add: up_inv_def)
  have gp: "before (xs ! ?i) (xs ! k)" if "k < length xs" "0 < k" "parent k = j" for k using v that j by (simp add: up_inv_def)
  have "before (?ys ! parent k) (?ys ! k)" if k: "k < length xs" "0 < k" "k \<noteq> ?i" for k
  proof -
    have p: "parent k < length xs" "parent k \<noteq> k" using k parent_less [of k] by simp_all
    show ?thesis
    proof (cases "k = j")
      case True
      then show ?thesis using i j b k by simp
    next
      case False
      consider "parent k = j" | "parent k = ?i" "parent k \<noteq> j" | "parent k \<noteq> j" "parent k \<noteq> ?i" by blast
      then show ?thesis
      proof cases
        case 1
        then show ?thesis using gp [OF k(1,2)] False k i j p by simp
      next
        case 2
        then have "before (xs ! j) (xs ! k)" using tr [OF j(2) i(1) k(1) b] ok [OF k(1,2) False] by simp
        then show ?thesis using 2 False k i j p by simp
      next
        case 3
        then show ?thesis using ok [OF k(1,2) False] False k i j p by simp
      qed
    qed
  qed
  moreover have "before (?ys ! parent ?i) (?ys ! k)" if k: "k < length xs" "0 < k" "0 < ?i" "parent k = ?i" for k
  proof -
    have p: "parent ?i < length xs" "parent ?i \<noteq> ?i" "parent ?i \<noteq> j" "k \<noteq> ?i" using i parent_less [OF k(3)] parent_less [OF k(2)] k(4) by auto
    have pi: "before (xs ! parent ?i) (xs ! ?i)" using ok [OF i(1) k(3)] i(2) by simp
    show ?thesis
    proof (cases "k = j")
      case True
      then show ?thesis using pi p i j by simp
    next
      case False
      then have "before (xs ! parent ?i) (xs ! k)" using tr [OF p(1) i(1) k(1) pi] ok [OF k(1,2)] k(4) by simp
      then show ?thesis using False p k i j by simp
    qed
  qed
  ultimately show ?thesis using i j by (simp add: up_inv_def)
qed

lemma heap_up_ok:
  assumes "set xs \<subseteq> A" "j < length xs" "up_inv xs j"
  shows "\<exists>ys. heap_up Less xs j = Inr ys \<and> mset ys = mset xs \<and> is_heap (length ys) ys"
  using assms
proof (induction j arbitrary: xs rule: less_induct)
  case (less j)
  show ?case
  proof (cases "j = 0")
    case True
    then show ?thesis using less.prems by (simp add: heap_up.simps [of Less xs 0] is_heap_def up_inv_def)
  next
    case False
    then have p: "parent j < j" "parent j \<noteq> j" "0 < j" using parent_less [of j] by simp_all
    have l: "Less xs j (parent j) = Inr (before (xs ! j) (xs ! parent j))" using less_law less.prems p by simp
    show ?thesis
    proof (cases "before (xs ! j) (xs ! parent j)")
      case True
      have "\<exists>ys. heap_up Less (swap xs (parent j) j) (parent j) = Inr ys \<and> mset ys = mset (swap xs (parent j) j) \<and> is_heap (length ys) ys"
        by (rule less.IH [OF p(1)]) (use less.prems p up_step [OF less.prems(1) p(3) less.prems(2,3) True] in simp_all)
      then show ?thesis using True l p less.prems(2) by (simp add: heap_up.simps [of Less xs j])
    next
      case False
      have "before (xs ! parent j) (xs ! j)" using False before_total in_A [OF less.prems(1)] less.prems(2) p by (meson less_trans)
      then have "is_heap (length xs) xs" using less.prems(3) by (auto simp: is_heap_def up_inv_def)
      then show ?thesis using False l p by (simp add: heap_up.simps [of Less xs j])
    qed
  qed
qed

lemma heap_Push_ok:
  assumes "set xs \<subseteq> A" "x \<in> A" "is_heap (length xs) xs"
  shows "\<exists>ys. heap_Push Less xs x = Inr ys \<and> mset ys = add_mset x (mset xs) \<and> is_heap (length ys) ys"
proof -
  have "before ((xs @ [x]) ! parent k) ((xs @ [x]) ! k)" if "k < length (xs @ [x])" "0 < k" "k \<noteq> length xs" for k
    using assms(3) that parent_less [OF that(2)] by (auto simp: is_heap_def nth_append)
  moreover have "parent k \<noteq> length xs" if "k < length (xs @ [x])" "0 < k" for k using that parent_less [OF that(2)] by simp
  ultimately have "up_inv (xs @ [x]) (length xs)" unfolding up_inv_def by blast
  from heap_up_ok [OF _ _ this] show ?thesis using assms(1,2) by (simp add: heap_Push_def)
qed

lemma best_child_ok:
  assumes "set xs \<subseteq> A" "n \<le> length xs" "2 * i + 1 < n"
  shows "\<exists>j. best_child Less xs i n = Inr j \<and> j < n \<and> parent j = i \<and> i < j \<and> (\<forall>k < n. 0 < k \<longrightarrow> parent k = i \<longrightarrow> before (xs ! j) (xs ! k))"
proof -
  have ch: "k = 2 * i + 1 \<or> k = 2 * i + 2" if "0 < k" "parent k = i" for k using that parent_children by blast
  have refl: "before (xs ! k) (xs ! k)" if "k < n" for k using before_total in_A [OF assms(1)] that assms(2) by (meson less_le_trans)
  have one: "parent (2 * i + 1) = i" "parent (2 * i + 2) = i" using parent_children by simp_all
  show ?thesis
  proof (cases "2 * i + 2 < n")
    case True
    have l: "Less xs (2 * i + 2) (2 * i + 1) = Inr (before (xs ! (2 * i + 2)) (xs ! (2 * i + 1)))" using less_law [OF assms(1)] True assms(2,3) by simp
    show ?thesis
    proof (cases "before (xs ! (2 * i + 2)) (xs ! (2 * i + 1))")
      case b: True
      then have "\<forall>k < n. 0 < k \<longrightarrow> parent k = i \<longrightarrow> before (xs ! (2 * i + 2)) (xs ! k)" using ch refl by metis
      then show ?thesis using True b l one by (intro exI [of _ "2 * i + 2"]) (simp add: best_child_def Let_def)
    next
      case b: False
      then have "before (xs ! (2 * i + 1)) (xs ! (2 * i + 2))" using before_total in_A [OF assms(1)] True assms(2,3) by (meson less_le_trans)
      then have "\<forall>k < n. 0 < k \<longrightarrow> parent k = i \<longrightarrow> before (xs ! (2 * i + 1)) (xs ! k)" using ch refl by metis
      then show ?thesis using True b l one by (intro exI [of _ "2 * i + 1"]) (simp add: best_child_def Let_def)
    qed
  next
    case False
    then have "\<forall>k < n. 0 < k \<longrightarrow> parent k = i \<longrightarrow> before (xs ! (2 * i + 1)) (xs ! k)" using ch refl by metis
    then show ?thesis using False assms(3) one by (intro exI [of _ "2 * i + 1"]) (simp add: best_child_def Let_def)
  qed
qed

lemma down_step:
  assumes xs: "set xs \<subseteq> A" and n: "n \<le> length xs" and v: "down_inv n xs i" and j: "j < n" "parent j = i" "i < j"
    and best: "\<forall>k < n. 0 < k \<longrightarrow> parent k = i \<longrightarrow> before (xs ! j) (xs ! k)" and b: "before (xs ! j) (xs ! i)"
  shows "down_inv n (swap xs i j) j"
proof -
  let ?ys = "swap xs i j"
  have l: "i < length xs" "j < length xs" using n j by simp_all
  have ok: "before (xs ! parent k) (xs ! k)" if "k < n" "0 < k" "parent k \<noteq> i" for k using v that by (simp add: down_inv_def)
  have gp: "before (xs ! parent i) (xs ! k)" if "k < n" "0 < k" "0 < i" "parent k = i" for k using v that by (simp add: down_inv_def)
  have "before (?ys ! parent k) (?ys ! k)" if k: "k < n" "0 < k" "parent k \<noteq> j" for k
  proof -
    have p: "parent k < length xs" "k < length xs" "parent k \<noteq> k" using k n parent_less [of k] by simp_all
    consider "k = j" | "k \<noteq> j" "parent k = i" | "k = i" "parent k \<noteq> i" | "k \<noteq> j" "parent k \<noteq> i" "k \<noteq> i" by blast
    then show ?thesis
    proof cases
      case 1
      then show ?thesis using b j l p by simp
    next
      case 2
      then have "k \<noteq> i" using p(3) by simp
      then show ?thesis using best k 2 j l p by simp
    next
      case 3
      then have "before (xs ! parent i) (xs ! j)" using gp [OF j(1) _ _ j(2)] k j by simp
      then show ?thesis using 3 k j l p by simp
    next
      case 4
      then show ?thesis using ok [OF k(1,2)] k j l p by simp
    qed
  qed
  moreover have "before (?ys ! parent j) (?ys ! k)" if k: "k < n" "0 < k" "0 < j" "parent k = j" for k
  proof -
    have "k \<noteq> j" "k \<noteq> i" "k < length xs" "i \<noteq> j" using parent_less [OF k(2)] k j n by simp_all
    moreover have "before (xs ! j) (xs ! k)" using ok [OF k(1,2)] k(4) j(3) by simp
    ultimately show ?thesis using j(2) l by simp
  qed
  ultimately show ?thesis by (simp add: down_inv_def)
qed

lemma heap_down_ok:
  assumes "set xs \<subseteq> A" "n \<le> length xs" "i < n \<or> n = 0" "down_inv n xs i"
  shows "\<exists>ys. heap_down Less xs i n = Inr ys \<and> mset ys = mset xs \<and> drop n ys = drop n xs \<and> is_heap n ys"
  using assms
proof (induction "n - i" arbitrary: xs i rule: less_induct)
  case less
  show ?case
  proof (cases "2 * i + 1 < n")
    case False
    have "parent k \<noteq> i" if "k < n" "0 < k" for k using False that parent_children [of k i] by auto
    then have "is_heap n xs" using less.prems(4) by (simp add: is_heap_def down_inv_def)
    then show ?thesis using False by (simp add: heap_down.simps [of Less xs i n])
  next
    case True
    obtain j where j: "best_child Less xs i n = Inr j" "j < n" "parent j = i" "i < j" "\<forall>k < n. 0 < k \<longrightarrow> parent k = i \<longrightarrow> before (xs ! j) (xs ! k)"
      using best_child_ok [OF less.prems(1,2) True] by blast
    have l: "Less xs j i = Inr (before (xs ! j) (xs ! i))" "i < length xs" "j < length xs" using less_law less.prems(1,2) j by simp_all
    show ?thesis
    proof (cases "before (xs ! j) (xs ! i)")
      case b: True
      have "\<exists>ys. heap_down Less (swap xs i j) j n = Inr ys \<and> mset ys = mset (swap xs i j) \<and> drop n ys = drop n (swap xs i j) \<and> is_heap n ys"
        by (rule less.hyps) (use less.prems(1,2) j l down_step [OF less.prems(1,2,4) j(2-5) b] in simp_all)
      moreover have "drop n (swap xs i j) = drop n xs" using j by (simp add: swap_def)
      ultimately show ?thesis using b True j(1) l by (simp add: heap_down.simps [of Less xs i n])
    next
      case b: False
      have ij: "before (xs ! i) (xs ! j)" using b before_total in_A [OF less.prems(1)] l(2,3) by blast
      have "before (xs ! parent k) (xs ! k)" if k: "k < n" "0 < k" for k
      proof (cases "parent k = i")
        case True
        have "k < length xs" using k less.prems(2) by simp
        from before_trans [OF in_A [OF less.prems(1) l(2)] in_A [OF less.prems(1) l(3)] in_A [OF less.prems(1) this] ij] show ?thesis using j(5) k True by simp
      qed (use less.prems(4) k in \<open>simp add: down_inv_def\<close>)
      then show ?thesis using b True j(1) l by (simp add: heap_down.simps [of Less xs i n] is_heap_def)
    qed
  qed
qed

lemma root_first:
  assumes "set xs \<subseteq> A" "is_heap n xs" "n \<le> length xs" "k < n"
  shows "before (xs ! 0) (xs ! k)"
  using assms(4)
proof (induction k rule: less_induct)
  case (less k)
  have in_n: "xs ! i \<in> A" if "i < n" for i using in_A [OF assms(1)] that assms(3) by simp
  show ?case
  proof (cases "k = 0")
    case True
    then show ?thesis using before_total [OF in_n [OF less.prems] in_n [OF less.prems]] by simp
  next
    case False
    then have p: "parent k < k" using parent_less by simp
    then have "before (xs ! 0) (xs ! parent k)" "before (xs ! parent k) (xs ! k)" using less assms(2) False by (auto simp: is_heap_def)
    then show ?thesis using before_trans in_n less.prems p by (meson le_less_trans less_trans not_less_eq zero_le)
  qed
qed

lemma heap_Pop_ok:
  assumes "set xs \<subseteq> A" "is_heap (length xs) xs" "xs \<noteq> []"
  shows "\<exists>x ys. heap_Pop Less xs = Inr (x, ys) \<and> mset xs = add_mset x (mset ys) \<and> is_heap (length ys) ys \<and> x = xs ! 0 \<and> (\<forall>y \<in> set xs. before x y)"
proof -
  let ?n = "length xs - 1"
  let ?zs = "swap xs 0 ?n"
  have l: "0 < length xs" "?n < length xs" using assms(3) by simp_all
  have "before (?zs ! parent k) (?zs ! k)" if k: "k < ?n" "0 < k" "parent k \<noteq> 0" for k
  proof -
    have "parent k < ?n" "k < length xs" "parent k < length xs" using parent_less [OF k(2)] k(1) by simp_all
    then show ?thesis using assms(2) l k by (simp add: is_heap_def)
  qed
  then have "down_inv ?n ?zs 0" by (simp add: down_inv_def)
  from heap_down_ok [OF _ _ _ this] obtain ys where d: "heap_down Less ?zs 0 ?n = Inr ys" "mset ys = mset xs" "drop ?n ys = drop ?n ?zs" "is_heap ?n ys"
    using assms(1) l by (cases "Suc 0 < length xs") auto
  have n: "length ys = length xs" using d(2) by (rule mset_eq_length)
  then have ne: "ys \<noteq> []" using assms(3) by auto
  have "drop ?n ?zs = [xs ! 0]" using l Cons_nth_drop_Suc [of ?n ?zs] by simp
  then have x: "last ys = xs ! 0" using d(3) n l by (metis last_drop last_ConsL)
  have "mset ys = add_mset (last ys) (mset (butlast ys))" using ne by (metis append_butlast_last_id mset_append mset_single_iff_right union_mset_add_mset_right add_mset_add_single)
  moreover have "before (butlast ys ! parent k) (butlast ys ! k)" if k: "k < length (butlast ys)" "0 < k" for k
    using d(4) n k parent_less [OF k(2)] by (simp add: is_heap_def nth_butlast)
  then have "is_heap (length (butlast ys)) (butlast ys)" unfolding is_heap_def by blast
  moreover have "\<forall>y \<in> set xs. before (xs ! 0) y" using root_first [OF assms(1,2)] by (auto simp: in_set_conv_nth)
  ultimately show ?thesis using d(1,2) x assms(3) by (simp add: heap_Pop_def)
qed

end

end
