(* ===== verification/Top_N.thy ===== *)
theory Top_N
  imports Sort_Executor Binary_Heap
begin

text \<open>
  \<^verbatim>\<open>execution/topn_executor.go\<close>: the first rows of an order, kept in a heap of bounded size whose
  root is the greatest row kept.
\<close>

section \<open>The heap of rows\<close>

record maxHeap =
  mh_tuples :: "TupleWithOrdKey list"
  ordDirs :: "SortDirection list"

fun compare_from :: "nat \<Rightarrow> Value list \<Rightarrow> Value list \<Rightarrow> (int \<times> nat) res" where
  "compare_from i [] _ = Inr (0, i)"
| "compare_from i (a # as) (b # bs) = bindR (Value_Compare a b) (\<lambda>ret. if ret \<noteq> 0 then Inr (ret, i) else compare_from (Suc i) as bs)"
| "compare_from i _ [] = Inl (Panic ''index out of range'')"

definition tk_compare :: "TupleWithOrdKey \<Rightarrow> TupleWithOrdKey \<Rightarrow> (int \<times> nat) res" where
  "tk_compare a b = compare_from 0 (tk_keys a) (tk_keys b)"

text \<open>\<^verbatim>\<open>Less\<close> holds on ties too: the root is a row that no kept row comes after.\<close>

definition maxHeap_Less :: "maxHeap \<Rightarrow> nat \<Rightarrow> nat \<Rightarrow> bool res" where
  "maxHeap_Less h i j =
     bindR (nth_checked (mh_tuples h) i) (\<lambda>a.
     bindR (nth_checked (mh_tuples h) j) (\<lambda>b.
     bindR (tk_compare a b) (\<lambda>(val, ordIdx).
     bindR (if val \<noteq> 0 then bindR (nth_checked (ordDirs h) ordIdx) (\<lambda>d. Inr (if d = SortOrderDescending then val * - 1 else val)) else Inr val) (\<lambda>val.
     Inr (val \<noteq> - 1)))))"

definition less_in :: "maxHeap \<Rightarrow> TupleWithOrdKey list \<Rightarrow> nat \<Rightarrow> nat \<Rightarrow> bool res" where
  "less_in h ts = maxHeap_Less (h\<lparr>mh_tuples := ts\<rparr>)"

definition mh_Push :: "maxHeap \<Rightarrow> TupleWithOrdKey \<Rightarrow> maxHeap res" where
  "mh_Push h t = bindR (heap_Push (less_in h) (mh_tuples h) t) (\<lambda>ts. Inr (h\<lparr>mh_tuples := ts\<rparr>))"

definition mh_Pop :: "maxHeap \<Rightarrow> (TupleWithOrdKey \<times> maxHeap) res" where
  "mh_Pop h = bindR (heap_Pop (less_in h) (mh_tuples h)) (\<lambda>(x, ts). Inr (x, h\<lparr>mh_tuples := ts\<rparr>))"

section \<open>The operator\<close>

record 's TopNExecutor =
  tn_child :: 's
  tn_err :: "fault option"
  tn_tIdx :: int
  tn_tuples :: "Tuple list"

definition NewTopNExecutor :: "'s \<Rightarrow> 's TopNExecutor" where
  "NewTopNExecutor child = \<lparr>tn_child = child, tn_err = None, tn_tIdx = 0, tn_tuples = []\<rparr>"

definition offer :: "int \<Rightarrow> OrderByClause list \<Rightarrow> RawTupleDesc \<Rightarrow> Tuple \<Rightarrow> maxHeap \<Rightarrow> maxHeap res" where
  "offer limit orderBy desc tup h =
     bindR (keyed_row desc orderBy tup) (\<lambda>t.
     if int (length (mh_tuples h)) < limit then mh_Push h t
     else bindR (nth_checked (mh_tuples h) 0) (\<lambda>top.
          bindR (tk_compare t top) (\<lambda>(compVal, ordIdx).
          bindR (if ordIdx < length orderBy
                 then bindR (nth_checked (ordDirs h) ordIdx) (\<lambda>d. Inr (if d = SortOrderDescending then compVal * - 1 else compVal))
                 else Inr compVal) (\<lambda>compVal.
          if compVal = - 1 then bindR (mh_Pop h) (\<lambda>(_, h1). mh_Push h1 t) else Inr h))))"

text \<open>The rows are copied, their keys are not: the keys read the child's current row buffer.\<close>

definition reread_heap :: "('w, 's) Executor \<Rightarrow> 's \<Rightarrow> maxHeap \<Rightarrow> maxHeap" where
  "reread_heap E s h = h\<lparr>mh_tuples := map (\<lambda>k. k\<lparr>tk_keys := map (ex_Reread E s) (tk_keys k)\<rparr>) (mh_tuples h)\<rparr>"

partial_function (option) topn_loop :: "int \<Rightarrow> OrderByClause list \<Rightarrow> RawTupleDesc \<Rightarrow> ('w, 's) Executor \<Rightarrow> 'w \<Rightarrow> 's \<Rightarrow> maxHeap \<Rightarrow>
    (maxHeap res \<times> ('w \<times> 's)) option" where
  "topn_loop limit orderBy desc E w s h =
     (let n = ex_Next E w s; s' = snd (snd n)
      in case fst n of
           Inl e \<Rightarrow> Some (Inl e, snd n)
         | Inr found \<Rightarrow>
             if \<not> found then Some (Inr (reread_heap E s' h), snd n)
             else (case bindR (ex_Current E s') (\<lambda>t. offer limit orderBy desc t (reread_heap E s' h)) of
                     Inl e \<Rightarrow> Some (Inl e, snd n)
                   | Inr h' \<Rightarrow> topn_loop limit orderBy desc E (fst (snd n)) s' h'))"

text \<open>The heap is emptied into the slice from the back.\<close>

primrec drain :: "nat \<Rightarrow> maxHeap \<Rightarrow> Tuple list \<Rightarrow> Tuple list res" where
  "drain 0 h acc = Inr acc"
| "drain (Suc n) h acc = bindR (mh_Pop h) (\<lambda>(x, h'). drain n h' (tk_tuple x # acc))"

definition TopN_Init :: "int \<Rightarrow> OrderByClause list \<Rightarrow> ('w, 's) Executor \<Rightarrow> 'w \<Rightarrow> 's TopNExecutor \<Rightarrow> unit res \<times> ('w \<times> 's TopNExecutor)" where
  "TopN_Init limit orderBy child w e =
     (case ex_Init child w (tn_child e) of
        (Inl f, w1, c1) \<Rightarrow> (Inl f, w1, e\<lparr>tn_child := c1, tn_err := Some f\<rparr>)
      | (Inr _, w1, c1) \<Rightarrow>
          let e1 = e\<lparr>tn_child := c1, tn_tIdx := - 1\<rparr>
          in case NewRawTupleDesc (ex_Schema child) of
               Inl f \<Rightarrow> (Inl f, w1, e1)
             | Inr desc \<Rightarrow>
                 (case settle (w1, c1) (topn_loop limit orderBy desc child w1 c1 \<lparr>mh_tuples = [], ordDirs = map ob_Direction orderBy\<rparr>) of
                    (Inl f, w2, c2) \<Rightarrow> (Inl f, w2, e1\<lparr>tn_child := c2\<rparr>)
                  | (Inr h, w2, c2) \<Rightarrow>
                      (case drain (length (mh_tuples h)) h [] of
                         Inl f \<Rightarrow> (Inl f, w2, e1\<lparr>tn_child := c2\<rparr>)
                       | Inr us \<Rightarrow> (Inr (), w2, e1\<lparr>tn_child := c2, tn_tuples := us\<rparr>))))"

definition TopNExec :: "int \<Rightarrow> OrderByClause list \<Rightarrow> ('w, 's) Executor \<Rightarrow> ('w, 's TopNExecutor) Executor" where
  "TopNExec limit orderBy child =
     \<lparr>ex_Schema = ex_Schema child,
      ex_Init = TopN_Init limit orderBy child,
      ex_Next = (\<lambda>w e. if tn_tIdx e + 1 \<ge> int (length (tn_tuples e)) then (Inr False, w, e)
                       else (Inr True, w, e\<lparr>tn_tIdx := tn_tIdx e + 1\<rparr>)),
      ex_Current = (\<lambda>e. int_index (tn_tuples e) (tn_tIdx e)),
      ex_Error = tn_err,
      ex_Close = (\<lambda>w e. let (r, w', c) = ex_Close child w (tn_child e)
                        in (r, w', e\<lparr>tn_child := c, tn_err := (case r of Inl f \<Rightarrow> Some f | Inr _ \<Rightarrow> tn_err e)\<rparr>)),
      ex_Reread = (\<lambda>e v. v)\<rparr>"

section \<open>The order of the heap\<close>

lemma compare_from_key:
  assumes "length as = length ds" "list_all2 same_type as bs"
  shows "\<exists>r i. compare_from n as bs = Inr (r, i) \<and> n \<le> i \<and> (if r = 0 then i = n + length ds else i < n + length ds) \<and>
    key_compare ds as bs = Inr (if r \<noteq> 0 \<and> ds ! (i - n) = SortOrderDescending then - r else r)"
  using assms
proof (induction ds arbitrary: n as bs)
  case (Cons d ds)
  then obtain a as' b bs' where e: "as = a # as'" "bs = b # bs'" "same_type a b" "length as' = length ds" "list_all2 same_type as' bs'"
    by (cases as; cases bs) auto
  obtain c where c: "Value_Compare a b = Inr c" using vcmp.cmp_range [OF e(3)] by blast
  show ?case
  proof (cases "c = 0")
    case True
    obtain r i where r: "compare_from (Suc n) as' bs' = Inr (r, i)" "Suc n \<le> i" "if r = 0 then i = Suc n + length ds else i < Suc n + length ds"
        "key_compare ds as' bs' = Inr (if r \<noteq> 0 \<and> ds ! (i - Suc n) = SortOrderDescending then - r else r)"
      using Cons.IH [OF e(4,5), of "Suc n"] by blast
    have "i - n = Suc (i - Suc n)" using r(2) by simp
    then show ?thesis using True c r e(1,2) by (auto split: if_splits)
  qed (use c e(1,2) in auto)
qed simp

lemma tk_compare_sortFunc:
  assumes "same_keys orderBy a b"
  obtains r i where "tk_compare a b = Inr (r, i)" "if r = 0 then i = length orderBy else i < length orderBy"
    "sortFunc orderBy a b = Inr (if r \<noteq> 0 \<and> map ob_Direction orderBy ! i = SortOrderDescending then - r else r)"
  using compare_from_key [of "tk_keys a" "map ob_Direction orderBy" "tk_keys b" 0] assms
  by (auto simp: same_keys_def tk_compare_def sortFunc_def cong: if_cong)

definition order_le :: "OrderByClause list \<Rightarrow> TupleWithOrdKey \<Rightarrow> TupleWithOrdKey \<Rightarrow> bool" where
  "order_le orderBy a b \<longleftrightarrow> (\<exists>c \<le> 0. sortFunc orderBy a b = Inr c)"

lemma order_le_trans: "same_keys orderBy x y \<Longrightarrow> same_keys orderBy y z \<Longrightarrow> order_le orderBy x y \<Longrightarrow> order_le orderBy y z \<Longrightarrow> order_le orderBy x z"
  using okey.cmp_trans unfolding order_le_def by blast

lemma order_le_iff:
  assumes "same_keys orderBy a b" "sortFunc orderBy a b = Inr c"
  shows "order_le orderBy a b \<longleftrightarrow> c \<le> 0" "order_le orderBy b a \<longleftrightarrow> 0 \<le> c"
  using assms okey.cmp_antisym [OF assms] by (auto simp: order_le_def)

definition row_heap :: "OrderByClause list \<Rightarrow> TupleWithOrdKey list \<Rightarrow> maxHeap" where
  "row_heap orderBy ts = \<lparr>mh_tuples = ts, ordDirs = map ob_Direction orderBy\<rparr>"

lemma less_in_row_heap: "less_in (row_heap orderBy ts) us = maxHeap_Less (row_heap orderBy us)"
  by (simp add: less_in_def row_heap_def)

interpretation toph: heap_owner "\<lambda>ts. maxHeap_Less (row_heap orderBy ts)" "\<lambda>a b. order_le orderBy b a" "{k. same_keys orderBy k0 k}" for orderBy k0
proof
  have same: "same_keys orderBy x y" if "x \<in> {k. same_keys orderBy k0 k}" "y \<in> {k. same_keys orderBy k0 k}" for x y
    using that okey.same_sym okey.same_trans by blast
  show "maxHeap_Less (row_heap orderBy xs) i j = Inr (order_le orderBy (xs ! j) (xs ! i))"
    if "set xs \<subseteq> {k. same_keys orderBy k0 k}" "i < length xs" "j < length xs" for xs i j
  proof -
    have s: "same_keys orderBy (xs ! i) (xs ! j)" using same that nth_mem by blast
    obtain r p where r: "tk_compare (xs ! i) (xs ! j) = Inr (r, p)" "if r = 0 then p = length orderBy else p < length orderBy"
        "sortFunc orderBy (xs ! i) (xs ! j) = Inr (if r \<noteq> 0 \<and> map ob_Direction orderBy ! p = SortOrderDescending then - r else r)"
      by (rule tk_compare_sortFunc [OF s])
    let ?c = "if r \<noteq> 0 \<and> map ob_Direction orderBy ! p = SortOrderDescending then - r else r"
    have c: "?c \<in> {- 1, 0, 1}" using okey.cmp_range [OF s] r(3) by auto
    have "maxHeap_Less (row_heap orderBy xs) i j = Inr (?c \<noteq> - 1)"
      using that(2,3) r(1,2) by (auto simp: maxHeap_Less_def row_heap_def nth_checked_def)
    moreover have "?c \<noteq> - 1 \<longleftrightarrow> 0 \<le> ?c" using c by auto
    ultimately show ?thesis using order_le_iff(2) [OF s r(3)] by simp
  qed
  show "order_le orderBy y x \<or> order_le orderBy x y" if "x \<in> {k. same_keys orderBy k0 k}" "y \<in> {k. same_keys orderBy k0 k}" for x y
    using okey.cmp_le_total [OF same [OF that]] by (auto simp: order_le_def)
  show "order_le orderBy z x" if "x \<in> {k. same_keys orderBy k0 k}" "y \<in> {k. same_keys orderBy k0 k}" "z \<in> {k. same_keys orderBy k0 k}"
      "order_le orderBy y x" "order_le orderBy z y" for x y z
    using order_le_trans [OF same [OF that(3,2)] same [OF that(2,1)] that(5,4)] .
qed

lemma mh_Push_ok:
  assumes "set ts \<subseteq> {k. same_keys orderBy k0 k}" "same_keys orderBy k0 t" "toph.is_heap orderBy (length ts) ts"
  obtains us where "mh_Push (row_heap orderBy ts) t = Inr (row_heap orderBy us)" "mset us = add_mset t (mset ts)" "toph.is_heap orderBy (length us) us"
proof -
  obtain us where "heap_Push (\<lambda>ts. maxHeap_Less (row_heap orderBy ts)) ts t = Inr us" "mset us = add_mset t (mset ts)" "toph.is_heap orderBy (length us) us"
    using toph.heap_Push_ok [OF assms(1) _ assms(3)] assms(2) by blast
  moreover have "less_in (row_heap orderBy ts) = (\<lambda>ts. maxHeap_Less (row_heap orderBy ts))" by (simp add: fun_eq_iff less_in_row_heap)
  ultimately show thesis using that by (simp add: mh_Push_def) (simp add: row_heap_def)
qed

lemma mh_Pop_ok:
  assumes "set ts \<subseteq> {k. same_keys orderBy k0 k}" "toph.is_heap orderBy (length ts) ts" "ts \<noteq> []"
  obtains us where "mh_Pop (row_heap orderBy ts) = Inr (ts ! 0, row_heap orderBy us)" "mset ts = add_mset (ts ! 0) (mset us)"
    "toph.is_heap orderBy (length us) us" "\<forall>y \<in> set ts. order_le orderBy y (ts ! 0)"
proof -
  obtain us where "heap_Pop (\<lambda>ts. maxHeap_Less (row_heap orderBy ts)) ts = Inr (ts ! 0, us)" "mset ts = add_mset (ts ! 0) (mset us)"
      "toph.is_heap orderBy (length us) us" "\<forall>y \<in> set ts. order_le orderBy y (ts ! 0)"
    using toph.heap_Pop_ok [OF assms] by blast
  moreover have "less_in (row_heap orderBy ts) = (\<lambda>ts. maxHeap_Less (row_heap orderBy ts))" by (simp add: fun_eq_iff less_in_row_heap)
  ultimately show thesis using that by (simp add: mh_Pop_def) (simp add: row_heap_def)
qed

section \<open>The rows that are kept\<close>

text \<open>
  Of the rows seen so far the heap keeps as many as the limit allows; the others are \<open>rest\<close>,
  and none of them comes before a kept row.
\<close>

definition kept :: "int \<Rightarrow> OrderByClause list \<Rightarrow> TupleWithOrdKey list \<Rightarrow> TupleWithOrdKey list \<Rightarrow> TupleWithOrdKey list \<Rightarrow> bool" where
  "kept limit orderBy seen ts rest \<longleftrightarrow> toph.is_heap orderBy (length ts) ts \<and> mset ts + mset rest = mset seen \<and>
     (\<forall>x \<in> set ts. \<forall>r \<in> set rest. order_le orderBy x r) \<and> length ts = min (nat limit) (length seen)"

lemma kept_set: "kept limit orderBy seen ts rest \<Longrightarrow> set ts \<union> set rest = set seen"
  unfolding kept_def by (metis set_mset_mset set_mset_union)

lemma full_heap:
  assumes k: "kept limit orderBy seen ts rest" and l: "0 < limit" "\<not> int (length ts) < limit"
    and same: "\<forall>a \<in> set (seen @ [t]). \<forall>b \<in> set (seen @ [t]). same_keys orderBy a b"
    and c: "sortFunc orderBy t (ts ! 0) = Inr c"
  shows "c = - 1 \<Longrightarrow> \<exists>us us' rest'. mh_Pop (row_heap orderBy ts) = Inr (ts ! 0, row_heap orderBy us) \<and>
      mh_Push (row_heap orderBy us) t = Inr (row_heap orderBy us') \<and> kept limit orderBy (seen @ [t]) us' rest'"
    and "c \<noteq> - 1 \<Longrightarrow> \<exists>rest'. kept limit orderBy (seen @ [t]) ts rest'"
proof -
  have ne: "ts \<noteq> []" using l by auto
  have sets: "set ts \<union> set rest = set seen" using k by (rule kept_set)
  then have sub: "\<And>x. x \<in> set ts \<Longrightarrow> x \<in> set seen" "\<And>x. x \<in> set rest \<Longrightarrow> x \<in> set seen" by blast+
  have A: "set ts \<subseteq> {k. same_keys orderBy t k}" "same_keys orderBy t t" using same sets by auto
  have h: "toph.is_heap orderBy (length ts) ts" "mset ts + mset rest = mset seen" "\<forall>x \<in> set ts. \<forall>r \<in> set rest. order_le orderBy x r" "length ts = min (nat limit) (length seen)"
    using k unfolding kept_def by blast+
  have len: "length ts = min (nat limit) (length (seen @ [t]))" using h(4) l by auto
  obtain us where p: "mh_Pop (row_heap orderBy ts) = Inr (ts ! 0, row_heap orderBy us)" "mset ts = add_mset (ts ! 0) (mset us)"
      "toph.is_heap orderBy (length us) us" "\<forall>y \<in> set ts. order_le orderBy y (ts ! 0)"
    by (rule mh_Pop_ok [OF A(1) h(1) ne])
  have top: "ts ! 0 \<in> set ts" "same_keys orderBy t (ts ! 0)" using ne A(1) by (auto simp: subset_iff)
  note le = order_le_iff [OF top(2) c]
  have tr: "order_le orderBy x z" if "order_le orderBy x y" "order_le orderBy y z" "{x, y, z} \<subseteq> set (seen @ [t])" for x y z
    using order_le_trans [OF _ _ that(1,2)] same that(3) by auto
  show "\<exists>us us' rest'. mh_Pop (row_heap orderBy ts) = Inr (ts ! 0, row_heap orderBy us) \<and>
      mh_Push (row_heap orderBy us) t = Inr (row_heap orderBy us') \<and> kept limit orderBy (seen @ [t]) us' rest'" if "c = - 1"
  proof -
    have us: "set us \<subseteq> set ts" using p(2) by (metis set_mset_add_mset_insert set_mset_mset subset_insertI)
    have "set us \<subseteq> {k. same_keys orderBy t k}" using us A(1) by blast
    from mh_Push_ok [OF this A(2) p(3)] obtain us' where q: "mh_Push (row_heap orderBy us) t = Inr (row_heap orderBy us')" "mset us' = add_mset t (mset us)"
        "toph.is_heap orderBy (length us') us'" by blast
    have "set us' = insert t (set us)" using q(2) by (metis set_mset_add_mset_insert set_mset_mset)
    moreover have "order_le orderBy t (ts ! 0)" using le(1) that by simp
    ultimately have "\<forall>x \<in> set us'. \<forall>r \<in> set (ts ! 0 # rest). order_le orderBy x r"
      using h(3) p(4) us tr [of t "ts ! 0"] top(1) sub by auto
    moreover have "mset us' + mset (ts ! 0 # rest) = mset (seen @ [t])" using q(2) h(2) p(2) by simp
    moreover have "length us' = length ts" using q(2) p(2) by (metis size_add_mset size_mset)
    ultimately have "kept limit orderBy (seen @ [t]) us' (ts ! 0 # rest)" using q(3) len by (simp add: kept_def)
    then show ?thesis using p(1) q(1) by blast
  qed
  show "\<exists>rest'. kept limit orderBy (seen @ [t]) ts rest'" if "c \<noteq> - 1"
  proof -
    have "order_le orderBy (ts ! 0) t" using le(2) that okey.cmp_range [OF top(2)] c by auto
    then have "\<forall>x \<in> set ts. order_le orderBy x t" using p(4) tr [of _ "ts ! 0" t] top(1) sub by auto
    then have "kept limit orderBy (seen @ [t]) ts (t # rest)" using h len by (simp add: kept_def)
    then show ?thesis by blast
  qed
qed

lemma offer_ok:
  assumes k: "kept limit orderBy seen ts rest" and l: "0 < limit" and t: "keyed_row desc orderBy tup = Inr t"
    and same: "\<forall>a \<in> set (seen @ [t]). \<forall>b \<in> set (seen @ [t]). same_keys orderBy a b"
  shows "\<exists>us rest'. offer limit orderBy desc tup (row_heap orderBy ts) = Inr (row_heap orderBy us) \<and> kept limit orderBy (seen @ [t]) us rest'"
proof (cases "int (length ts) < limit")
  case True
  have A: "set ts \<subseteq> {k. same_keys orderBy t k}" "same_keys orderBy t t" using same kept_set [OF k] by auto
  have h: "toph.is_heap orderBy (length ts) ts" "mset ts + mset rest = mset seen" "length ts = min (nat limit) (length seen)" using k unfolding kept_def by blast+
  obtain us where us: "mh_Push (row_heap orderBy ts) t = Inr (row_heap orderBy us)" "mset us = add_mset t (mset ts)" "toph.is_heap orderBy (length us) us"
    by (rule mh_Push_ok [OF A h(1)])
  have n: "length ts = length seen" "length us = Suc (length ts)" using h(3) True us(2) by (auto dest: arg_cong [of _ _ size])
  then have "rest = []" using arg_cong [OF h(2), of size] by simp
  then have "kept limit orderBy (seen @ [t]) us []" using us(2,3) h(2) n True by (auto simp: kept_def)
  then show ?thesis using True t us(1) by (auto simp: offer_def row_heap_def)
next
  case False
  then have ne: "ts \<noteq> []" using l by auto
  then have s: "same_keys orderBy t (ts ! 0)" using same kept_set [OF k] by auto
  obtain r i where r: "tk_compare t (ts ! 0) = Inr (r, i)" "if r = 0 then i = length orderBy else i < length orderBy"
      "sortFunc orderBy t (ts ! 0) = Inr (if r \<noteq> 0 \<and> map ob_Direction orderBy ! i = SortOrderDescending then - r else r)"
    by (rule tk_compare_sortFunc [OF s])
  let ?c = "if r \<noteq> 0 \<and> map ob_Direction orderBy ! i = SortOrderDescending then - r else r"
  have o: "offer limit orderBy desc tup (row_heap orderBy ts) =
      (if ?c = - 1 then bindR (mh_Pop (row_heap orderBy ts)) (\<lambda>(_, h1). mh_Push h1 t) else Inr (row_heap orderBy ts))"
    using False ne t r(1,2) by (auto simp: offer_def row_heap_def nth_checked_def split: if_splits)
  note f = full_heap [OF k l False same r(3)]
  show ?thesis
  proof (cases "?c = - 1")
    case True
    from f(1) [OF this] obtain us us' rest' where "mh_Pop (row_heap orderBy ts) = Inr (ts ! 0, row_heap orderBy us)"
        "mh_Push (row_heap orderBy us) t = Inr (row_heap orderBy us')" "kept limit orderBy (seen @ [t]) us' rest'" by blast
    then show ?thesis unfolding o if_P [OF True] by auto
  next
    case False
    show ?thesis unfolding o if_not_P [OF False] using f(2) [OF False] by blast
  qed
qed

lemma drain_sorts:
  assumes "set ts \<subseteq> {k. same_keys orderBy k0 k}" "toph.is_heap orderBy (length ts) ts" "sorted_wrt (order_le orderBy) ys"
    "\<forall>x \<in> set ts. \<forall>y \<in> set ys. order_le orderBy x y"
  shows "\<exists>zs. drain (length ts) (row_heap orderBy ts) (map tk_tuple ys) = Inr (map tk_tuple zs) \<and> mset zs = mset ts + mset ys \<and> sorted_wrt (order_le orderBy) zs"
  using assms
proof (induction "length ts" arbitrary: ts ys)
  case (Suc n)
  have ne: "ts \<noteq> []" using Suc.hyps(2) by auto
  obtain us where p: "mh_Pop (row_heap orderBy ts) = Inr (ts ! 0, row_heap orderBy us)" "mset ts = add_mset (ts ! 0) (mset us)"
      "toph.is_heap orderBy (length us) us" "\<forall>y \<in> set ts. order_le orderBy y (ts ! 0)"
    by (rule mh_Pop_ok [OF Suc.prems(1,2) ne])
  have us: "set us \<subseteq> set ts" "length us = n" "ts ! 0 \<in> set ts"
    using p(2) Suc.hyps(2) ne by (metis set_mset_add_mset_insert set_mset_mset subset_insertI, metis nat.inject size_add_mset size_mset, simp)
  have "\<exists>zs. drain (length us) (row_heap orderBy us) (map tk_tuple (ts ! 0 # ys)) = Inr (map tk_tuple zs) \<and> mset zs = mset us + mset (ts ! 0 # ys) \<and>
      sorted_wrt (order_le orderBy) zs"
    by (rule Suc.hyps(1)) (use us p(3,4) Suc.prems in auto)
  then obtain zs where z: "drain n (row_heap orderBy us) (map tk_tuple (ts ! 0 # ys)) = Inr (map tk_tuple zs)" "mset zs = mset us + mset (ts ! 0 # ys)"
      "sorted_wrt (order_le orderBy) zs" using us(2) by auto
  have "mset zs = mset ts + mset ys" using z(2) p(2) by simp
  then show ?case using z(1,3) p(1) unfolding Suc.hyps(2) [symmetric] by auto
next
  case 0
  then show ?case by (intro exI [of _ ys]) simp
qed

section \<open>The rows of the operator\<close>

definition topn_rows :: "'s TopNExecutor \<Rightarrow> Tuple list \<Rightarrow> bool" where
  "topn_rows e us \<longleftrightarrow> tn_err e = None \<and> cursor_rows (tn_tuples e) (tn_tIdx e) us"

text \<open>The rows \<open>us\<close> are the first ones of some sorted arrangement of the child's rows.\<close>

definition first_rows :: "int \<Rightarrow> OrderByClause list \<Rightarrow> TupleWithOrdKey list \<Rightarrow> Tuple list \<Rightarrow> bool" where
  "first_rows limit orderBy ks us \<longleftrightarrow>
     (\<exists>zs. mset zs = mset ks \<and> sorted_wrt (order_le orderBy) zs \<and> us = map tk_tuple (take (nat limit) zs))"

definition topn_ready :: "int \<Rightarrow> OrderByClause list \<Rightarrow> ('w, 's) Executor \<Rightarrow> ('s \<Rightarrow> Tuple list \<Rightarrow> bool) \<Rightarrow> 's TopNExecutor \<Rightarrow> Tuple list \<Rightarrow> bool" where
  "topn_ready limit orderBy E ready e us \<longleftrightarrow> tn_err e = None \<and> 0 < limit \<and> (\<exists>ts ks desc h. ready (tn_child e) ts \<and> sortable E orderBy ts ks \<and>
     NewRawTupleDesc (ex_Schema E) = Inr desc \<and> foldR (offer limit orderBy desc) ts (row_heap orderBy []) = Inr h \<and> drain (length (mh_tuples h)) h [] = Inr us)"

lemma offers_ok:
  assumes "kept limit orderBy seen ts rest" "0 < limit" "mapR (keyed_row desc orderBy) tups = Inr ks"
    "\<forall>a \<in> set (seen @ ks). \<forall>b \<in> set (seen @ ks). same_keys orderBy a b"
  shows "\<exists>us rest'. foldR (offer limit orderBy desc) tups (row_heap orderBy ts) = Inr (row_heap orderBy us) \<and> kept limit orderBy (seen @ ks) us rest'"
  using assms
proof (induction tups arbitrary: seen ts rest ks)
  case (Cons tup tups)
  obtain k ks' where k: "keyed_row desc orderBy tup = Inr k" "mapR (keyed_row desc orderBy) tups = Inr ks'" "ks = k # ks'"
    using Cons.prems(3) by (auto simp: bindR_eq_Inr)
  obtain us rest1 where 1: "offer limit orderBy desc tup (row_heap orderBy ts) = Inr (row_heap orderBy us)" "kept limit orderBy (seen @ [k]) us rest1"
    using offer_ok [OF Cons.prems(1,2) k(1)] Cons.prems(4) k(3) by auto
  from Cons.IH [OF 1(2) Cons.prems(2) k(2)] show ?case using Cons.prems(4) k(3) 1(1) by simp
qed auto

lemma sorted_rest:
  assumes "\<forall>a \<in> set rest. \<forall>b \<in> set rest. same_keys orderBy a b"
  obtains rs where "mset rs = mset rest" "sorted_wrt (order_le orderBy) rs"
proof -
  have "okey.le orderBy = order_le orderBy" by (auto simp: fun_eq_iff okey.le_def order_le_def)
  then show thesis using okey.insertion_sort_ok [OF assms] that by metis
qed

lemma topn_first:
  assumes ks: "\<forall>a \<in> set ks. \<forall>b \<in> set ks. same_keys orderBy a b" and k: "kept limit orderBy ks ts rest" and l: "0 < limit"
  obtains us where "drain (length ts) (row_heap orderBy ts) [] = Inr us" "first_rows limit orderBy ks us"
proof -
  have sets: "set ts \<union> set rest = set ks" using k by (rule kept_set)
  have h: "toph.is_heap orderBy (length ts) ts" "mset ts + mset rest = mset ks" "\<forall>x \<in> set ts. \<forall>r \<in> set rest. order_le orderBy x r" "length ts = min (nat limit) (length ks)"
    using k unfolding kept_def by blast+
  have "set ts \<subseteq> {k. same_keys orderBy (hd ts) k}" using ks sets by (cases ts) auto
  from drain_sorts [OF this h(1), of "[]"] obtain zs where z: "drain (length ts) (row_heap orderBy ts) [] = Inr (map tk_tuple zs)" "mset zs = mset ts" "sorted_wrt (order_le orderBy) zs" by auto
  obtain rs where r: "mset rs = mset rest" "sorted_wrt (order_le orderBy) rs" by (rule sorted_rest [of rest orderBy]) (use ks sets in blast)
  have "set zs = set ts" "set rs = set rest" using z(2) r(1) by (metis mset_eq_setD)+
  then have s: "sorted_wrt (order_le orderBy) (zs @ rs)" using z(3) r(2) h(3) by (simp add: sorted_wrt_append)
  have m: "mset (zs @ rs) = mset ks" using z(2) r(1) h(2) by simp
  have n: "length zs = min (nat limit) (length ks)" "length ks = length zs + length rs" using mset_eq_length [OF z(2)] h(4) mset_eq_length [OF m] by simp_all
  then have "take (nat limit) (zs @ rs) = zs" by (cases rs) (auto simp: min_def split: if_splits)
  then have "first_rows limit orderBy ks (map tk_tuple zs)" unfolding first_rows_def using s m by metis
  then show thesis using that z(1) by blast
qed

lemma reread_row_heap:
  assumes "\<forall>k \<in> set ts. \<forall>v \<in> set (tk_keys k). \<forall>s. ex_Reread E s v = v"
  shows "reread_heap E s (row_heap orderBy ts) = row_heap orderBy ts"
proof -
  have "k\<lparr>tk_keys := map (ex_Reread E s) (tk_keys k)\<rparr> = k" if "k \<in> set ts" for k using assms that map_idI [of "tk_keys k" "ex_Reread E s"] by simp
  then show ?thesis by (simp add: reread_heap_def row_heap_def map_idI)
qed

context row_source
begin

lemma topn_loop_ok:
  assumes "inv w" "rows s tups" "kept limit orderBy seen ts rest" "0 < limit" "mapR (keyed_row desc orderBy) tups = Inr ks"
    "\<forall>a \<in> set (seen @ ks). \<forall>b \<in> set (seen @ ks). same_keys orderBy a b" "\<forall>k \<in> set (seen @ ks). \<forall>v \<in> set (tk_keys k). \<forall>s. ex_Reread E s v = v"
  shows "\<exists>w' s' us rest'. topn_loop limit orderBy desc E w s (row_heap orderBy ts) = Some (Inr (row_heap orderBy us), w', s') \<and> inv w' \<and>
    foldR (offer limit orderBy desc) tups (row_heap orderBy ts) = Inr (row_heap orderBy us) \<and> kept limit orderBy (seen @ ks) us rest'"
  using assms
proof (induction tups arbitrary: w s seen ts rest ks)
  case Nil
  then obtain w1 s1 where "ex_Next E w s = (Inr False, w1, s1)" "inv w1" using end_law by blast
  moreover have "reread_heap E s1 (row_heap orderBy ts) = row_heap orderBy ts" using kept_set [OF Nil.prems(3)] Nil.prems(7) by (intro reread_row_heap) auto
  ultimately show ?case using Nil.prems(3,5) by (subst topn_loop.simps) auto
next
  case (Cons tup tups)
  obtain w1 s1 where n: "ex_Next E w s = (Inr True, w1, s1)" "inv w1" "rows s1 tups" "ex_Current E s1 = Inr tup"
    using next_law [OF Cons.prems(1,2)] by blast
  obtain k ks' where k: "keyed_row desc orderBy tup = Inr k" "mapR (keyed_row desc orderBy) tups = Inr ks'" "ks = k # ks'"
    using Cons.prems(5) by (auto simp: bindR_eq_Inr)
  have rr: "reread_heap E s1 (row_heap orderBy ts) = row_heap orderBy ts" using kept_set [OF Cons.prems(3)] Cons.prems(7) by (intro reread_row_heap) auto
  obtain us rest1 where 1: "offer limit orderBy desc tup (row_heap orderBy ts) = Inr (row_heap orderBy us)" "kept limit orderBy (seen @ [k]) us rest1"
    using offer_ok [OF Cons.prems(3,4) k(1)] Cons.prems(6) k(3) by auto
  have "\<exists>w' s' us' rest'. topn_loop limit orderBy desc E w1 s1 (row_heap orderBy us) = Some (Inr (row_heap orderBy us'), w', s') \<and> inv w' \<and>
      foldR (offer limit orderBy desc) tups (row_heap orderBy us) = Inr (row_heap orderBy us') \<and> kept limit orderBy ((seen @ [k]) @ ks') us' rest'"
    by (rule Cons.IH [OF n(2,3) 1(2) Cons.prems(4) k(2)]) (use Cons.prems(6,7) k(3) in simp_all)
  then show ?case using n(1,4) 1(1) rr k(3) by (subst topn_loop.simps) simp
qed

lemma kept_nothing: "kept limit orderBy [] [] []"
  by (simp add: kept_def toph.is_heap_def)

lemma topn_ready_first:
  assumes e: "ready (tn_child e) ts" "tn_err e = None" and ks: "sortable E orderBy ts ks" and l: "0 < limit"
  obtains us where "topn_ready limit orderBy E ready e us" "first_rows limit orderBy ks us"
proof -
  obtain desc where d: "NewRawTupleDesc (ex_Schema E) = Inr desc" "mapR (keyed_row desc orderBy) ts = Inr ks" "\<forall>a \<in> set ks. \<forall>b \<in> set ks. same_keys orderBy a b"
    using ks by (auto simp: sortable_def)
  obtain hs rest where h: "foldR (offer limit orderBy desc) ts (row_heap orderBy []) = Inr (row_heap orderBy hs)" "kept limit orderBy ks hs rest"
    using offers_ok [OF kept_nothing l d(2)] d(3) by auto
  obtain us where u: "drain (length hs) (row_heap orderBy hs) [] = Inr us" "first_rows limit orderBy ks us" by (rule topn_first [OF d(3) h(2) l])
  have "topn_ready limit orderBy E ready e us" unfolding topn_ready_def using e ks d(1) h(1) u(1) l
    by (intro conjI exI [of _ ts] exI [of _ ks] exI [of _ desc] exI [of _ "row_heap orderBy hs"]) (simp_all add: row_heap_def)
  then show thesis using u(2) by (rule that)
qed

lemma topn_init:
  assumes w: "inv w" and e: "topn_ready limit orderBy E ready e us"
  shows "\<exists>w' e'. TopN_Init limit orderBy E w e = (Inr (), w', e') \<and> inv w' \<and> topn_rows e' us"
proof -
  obtain ts ks desc h where r: "tn_err e = None" "0 < limit" "ready (tn_child e) ts" "sortable E orderBy ts ks" "NewRawTupleDesc (ex_Schema E) = Inr desc"
      "foldR (offer limit orderBy desc) ts (row_heap orderBy []) = Inr h" "drain (length (mh_tuples h)) h [] = Inr us"
    using e unfolding topn_ready_def by blast
  obtain w1 c1 where i: "ex_Init E w (tn_child e) = (Inr (), w1, c1)" "inv w1" "rows c1 ts" using init_law [OF w r(3)] by blast
  have d: "mapR (keyed_row desc orderBy) ts = Inr ks"
      "\<forall>a \<in> set ks. \<forall>b \<in> set ks. same_keys orderBy a b" "\<forall>k \<in> set ks. \<forall>v \<in> set (tk_keys k). \<forall>s. ex_Reread E s v = v"
    using r(4,5) by (auto simp: sortable_def)
  obtain w2 c2 where h: "topn_loop limit orderBy desc E w1 c1 (row_heap orderBy []) = Some (Inr h, w2, c2)" "inv w2"
    using topn_loop_ok [OF i(2,3) kept_nothing r(2) d(1)] d(2,3) r(6) by auto
  let ?e = "e\<lparr>tn_child := c2, tn_tIdx := - 1, tn_tuples := us\<rparr>"
  have "TopN_Init limit orderBy E w e = (Inr (), w2, ?e)"
    using i(1) r(5,7) h(1) by (simp add: TopN_Init_def settle_def row_heap_def)
  then show ?thesis using h(2) r(1) by (auto simp: topn_rows_def)
qed

lemma topn_source: "row_source (TopNExec limit orderBy E) inv (topn_ready limit orderBy E ready) topn_rows"
proof
  let ?E = "TopNExec limit orderBy E"
  show "\<exists>w' s'. ex_Init ?E w s = (Inr (), w', s') \<and> inv w' \<and> topn_rows s' us" if "inv w" "topn_ready limit orderBy E ready s us" for w s us
    using topn_init [OF that] by (simp add: TopNExec_def)
  show "\<exists>w' s'. ex_Next ?E w s = (Inr True, w', s') \<and> inv w' \<and> topn_rows s' us \<and> ex_Current ?E s' = Inr u" if a: "inv w" "topn_rows s (u # us)" for w s u us
    using a cursor_next [of "tn_tuples s" "tn_tIdx s" u us] by (simp add: topn_rows_def TopNExec_def)
  show "\<exists>w' s'. ex_Next ?E w s = (Inr False, w', s') \<and> inv w' \<and> ex_Error ?E s' = None" if "inv w" "topn_rows s []" for w s
    using that cursor_end [of "tn_tuples s" "tn_tIdx s"] by (simp add: topn_rows_def TopNExec_def)
  show "ex_Error ?E s = None" if "topn_rows s us" for s us using that by (simp add: topn_rows_def TopNExec_def)
qed

text \<open>With a limit of zero the first row finds an empty heap, whose root is read all the same.\<close>

lemma limit_zero_panics:
  assumes w: "inv w" and e: "ready (tn_child e) (t # ts)" and ks: "sortable E orderBy (t # ts) ks" and l: "limit \<le> 0"
  shows "\<exists>w' e'. ex_Init (TopNExec limit orderBy E) w e = (Inl (Panic ''index out of range''), w', e')"
proof -
  obtain w1 c1 where i: "ex_Init E w (tn_child e) = (Inr (), w1, c1)" "inv w1" "rows c1 (t # ts)" using init_law [OF w e] by blast
  obtain desc k where d: "NewRawTupleDesc (ex_Schema E) = Inr desc" "keyed_row desc orderBy t = Inr k" using ks by (auto simp: sortable_def bindR_eq_Inr)
  obtain w2 c2 where n: "ex_Next E w1 c1 = (Inr True, w2, c2)" "ex_Current E c2 = Inr t" using next_law [OF i(2,3)] by blast
  have "topn_loop limit orderBy desc E w1 c1 \<lparr>mh_tuples = [], ordDirs = map ob_Direction orderBy\<rparr> = Some (Inl (Panic ''index out of range''), w2, c2)"
    using n d(2) l by (subst topn_loop.simps) (simp add: offer_def reread_heap_def nth_checked_def)
  then show ?thesis using i(1) d(1) by (simp add: TopNExec_def TopN_Init_def settle_def)
qed

end

section \<open>Properties\<close>

text \<open>
  C20: Top rows.  Over any source of rows whose keys are comparable and stay readable, a top-n
  operator with a positive limit succeeds and delivers what a correct sort followed by a limit
  would: copies of the first rows of some arrangement of the source's rows in which no row
  comes after one with a greater key.
\<close>

theorem top_n_rows:
  assumes src: "row_source E W ready rows" and w: "W w" and ts: "ready c ts" and ks: "sortable E orderBy ts ks" and limit: "0 < limit"
  shows "\<exists>w' e' us zs. ex_Init (TopNExec limit orderBy E) w (NewTopNExecutor c) = (Inr (), w', e') \<and> W w' \<and> topn_rows e' us \<and>
    mset zs = mset ks \<and> sorted_wrt (\<lambda>a b. \<exists>c \<le> 0. sortFunc orderBy a b = Inr c) zs \<and> us = map tk_tuple (take (nat limit) zs) \<and>
    row_source (TopNExec limit orderBy E) W (topn_ready limit orderBy E ready) topn_rows"
proof -
  obtain us where u: "topn_ready limit orderBy E ready (NewTopNExecutor c) us" "first_rows limit orderBy ks us"
    by (rule row_source.topn_ready_first [OF src _ _ ks limit, of "NewTopNExecutor c"]) (use ts in \<open>simp_all add: NewTopNExecutor_def\<close>)
  obtain zs where z: "mset zs = mset ks" "sorted_wrt (order_le orderBy) zs" "us = map tk_tuple (take (nat limit) zs)" using u(2) by (auto simp: first_rows_def)
  have o: "order_le orderBy = (\<lambda>a b. \<exists>c \<le> 0. sortFunc orderBy a b = Inr c)" by (simp add: fun_eq_iff order_le_def)
  have i: "ex_Init (TopNExec limit orderBy E) = TopN_Init limit orderBy E" by (simp add: TopNExec_def)
  from row_source.topn_init [OF src w u(1)] obtain w' e' where "TopN_Init limit orderBy E w (NewTopNExecutor c) = (Inr (), w', e')" "W w'" "topn_rows e' us" by blast
  then show ?thesis using z row_source.topn_source [OF src, of limit orderBy] unfolding i o by blast
qed

theorem top_n_rows_witness:
  "\<exists>w' e' us. ex_Init (TopNExec 2 demo_order (ValuesExec demo_values [IntType])) () (NewTopNExecutor NewValuesExecutor) = (Inr (), w', e') \<and>
     topn_rows e' us \<and> length us = 2"
proof -
  obtain ks where ks: "sortable (ValuesExec demo_values [IntType] :: (unit, ValuesExecutor) Executor) demo_order
      (map (\<lambda>n. FromValues (Some [NewIntValue n])) [1, 2, 3, 4]) ks"
      "map tk_keys ks = [[NewIntValue 1], [NewIntValue 2], [NewIntValue 3], [NewIntValue 4]]"
    by (rule demo_sortable)
  have r: "values_ready demo_values [IntType] NewValuesExecutor (map (\<lambda>n. FromValues (Some [NewIntValue n])) [1, 2, 3, 4])"
    by (simp add: values_ready_def demo_values_def const_row_def)
  have n: "length ks = 4" using arg_cong [OF ks(2), of length] by simp
  obtain w' e' us zs where u: "ex_Init (TopNExec 2 demo_order (ValuesExec demo_values [IntType])) () (NewTopNExecutor NewValuesExecutor) = (Inr (), w', e')"
      "topn_rows e' us" "mset zs = mset ks" "us = map tk_tuple (take (nat 2) zs)"
    using top_n_rows [OF vals.row_source_axioms TrueI r ks(1), of 2 "()"] by auto
  have "length us = 2" using u(4) n mset_eq_length [OF u(3)] by simp
  then show ?thesis using u(1,2) by blast
qed

end
