(* ===== verification/Spec2Isabelle.thy ===== *)
theory Spec2Isabelle
  imports Deadlock_Detection Recovery_Phases Modify_Table Block_Join Aggregate Merge_Join Top_N
begin

text \<open>
  A verification development for GoDB, a relational database system in Go
  (\<^verbatim>\<open>src/GoDB-lab-s26\<close>).

  \<^bold>\<open>The program.\<close>  GoDB stores tables as heap files of fixed-size pages
  (\<^verbatim>\<open>storage\<close>), reads and writes them through a sharded buffer pool, logs every
  change ahead of the page write (\<^verbatim>\<open>storage/log_record.go\<close>, \<^verbatim>\<open>logging\<close>), isolates
  transactions by hierarchical two-phase locking with deadlock detection and rolls them
  back from an undo buffer (\<^verbatim>\<open>transaction\<close>), and recovers after a crash from the log
  (\<^verbatim>\<open>recovery\<close>).  Above this, \<^verbatim>\<open>execution\<close> holds table heaps and query operators,
  \<^verbatim>\<open>indexing\<close> in-memory indexes, \<^verbatim>\<open>planner\<close> the SQL planner, \<^verbatim>\<open>catalog\<close> the schema.

  \<^bold>\<open>How it is modelled.\<close>  A call that may fail returns a sum: \<open>Inl\<close> a fault (a panic with
  its message, a GoDB error code, another error, or \<open>Spins\<close> for a call that has not
  returned because it waits for another thread), \<open>Inr\<close> its value.  State is passed
  explicitly in records that carry the fields of the Go structs.  Machine integers are
  words.  Threads are modelled where the code's correctness depends on them: the log
  manager and the lock manager have step relations over interleavings; the other calls
  are single steps.

  \<^bold>\<open>Theories.\<close>
  \<^item> \<open>Prelude\<close>: results, byte buffers, little-endian codec, three-way comparisons
    (locale \<open>three_way\<close>).
  \<^item> \<open>Common_Types\<close> (\<^verbatim>\<open>common/\<close>), \<open>Bitmap\<close>, \<open>Tuples\<close>, \<open>Heap_Page\<close> (\<^verbatim>\<open>storage/bitmap.go\<close>,
    \<^verbatim>\<open>tuple.go\<close>, \<^verbatim>\<open>heap_page.go\<close>, \<^verbatim>\<open>page.go\<close>): values and their stored form, the word-wise
    bitmap, row layout, the slotted page; a page refines a list of slots (locale
    \<open>slotted_page\<close>).
  \<^item> \<open>Log_Record\<close>, \<open>Log_Manager\<close>, \<open>Log_Interface\<close> (\<^verbatim>\<open>storage/log_record.go\<close>, \<^verbatim>\<open>wal.go\<close>,
    \<^verbatim>\<open>logging/\<close>): the byte format of every record and its checksum, the double-buffered
    log with its flusher, the iterator after a crash, and what clients of any log rely
    on.  The locale \<open>log_service\<close> has the appends, the waits and the flushed position, which
    transactions and table heaps use; \<open>log_reader\<close> adds the iterator, which recovery uses and
    which shows the whole history only in a state without pending appends (\<open>readable\<close>).
    Both managers are instances: the in-memory log, always readable, and the double-buffered
    log of production, readable when its buffers are empty, as they are after a restart.
  \<^item> \<open>Lock_Manager\<close>, \<open>Deadlock_Detection\<close>, \<open>Txn_Context\<close>, \<open>Txn_Manager\<close>
    (\<^verbatim>\<open>transaction/\<close>): the lock table and its invariant (locale \<open>lock_service\<close>), the
    search for cycles in the wait graph and the victims it aborts, lock upgrades and the undo
    buffer (locale \<open>undo_stack\<close>), begin, commit and rollback.
  \<^item> \<open>Disk_Storage\<close>, \<open>Buffer_Pool\<close>, \<open>Page_Edit\<close> (\<^verbatim>\<open>storage/disk_storage.go\<close>,
    \<^verbatim>\<open>buffer_pool.go\<close>): files as page arrays (locale \<open>paged_files\<close>), pinning, eviction and
    write-back (locale \<open>page_cache\<close>), and edits of heap pages through the pool.
  \<^item> \<open>Slot_History\<close>: the specification of logged changes: what every record does to its
    slot, and what rolling a transaction back means.
  \<^item> \<open>Table_Heap\<close>, \<open>Heap_Insert\<close>, \<open>Heap_Scan\<close> (\<^verbatim>\<open>execution/table_heap.go\<close>,
    \<^verbatim>\<open>seq_scan_executor.go\<close>): row operations, what insertion does to the table, and that a
    scan returns every live row once, in order.
  \<^item> \<open>Catalog\<close> (\<^verbatim>\<open>catalog/catalog.go\<close>), \<open>Index_Key\<close>, \<open>Mem_Hash_Index\<close>,
    \<open>Mem_BTree_Index\<close>, \<open>Index_Manager\<close> (\<^verbatim>\<open>indexing/\<close>): the schema and its persistence, index
    keys, the two indexes and their manager.  The concurrent map and the tree come from other
    packages: the locales \<open>concurrent_map\<close> and \<open>ordered_tree\<close> state what is relied on,
    \<open>key_world\<close> gives an instance, and \<open>entry_index\<close> is what every index promises.  The
    states of the catalog are those that \<open>catalog_reach\<close> reaches from an empty one.
  \<^item> \<open>Index_Access\<close> (\<^verbatim>\<open>execution/index_lookup_executor.go\<close>, \<^verbatim>\<open>index_scan_executor.go\<close>),
    \<open>Modify_Table\<close> (\<^verbatim>\<open>insert_executor.go\<close>, \<^verbatim>\<open>delete_executor.go\<close>, \<^verbatim>\<open>update_executor.go\<close>):
    the operators that read a table through an index and those that change a table and its
    indexes, over a world of the storage state and the index manager.
  \<^item> \<open>Checkpoint\<close>, \<open>Recovery\<close>, \<open>Recovery_Redo\<close>, \<open>Recovery_Phases\<close> (\<^verbatim>\<open>recovery/\<close>,
    \<^verbatim>\<open>execution/table_manager.go\<close>): checkpoints, the three phases of a restart, and what
    analysis and redo establish.
  \<^item> \<open>Expr\<close> (\<^verbatim>\<open>planner/expr.go\<close>, \<^verbatim>\<open>logical_plan_types.go\<close>): expressions, their types, LIKE
    patterns, predicates split into conjuncts.
  \<^item> \<open>Executor\<close>, \<open>Sort_Executor\<close>, \<open>Hash_Join\<close>, \<open>Block_Join\<close>, \<open>Merge_Join\<close>, \<open>Aggregate\<close>,
    \<open>Binary_Heap\<close>, \<open>Top_N\<close> (\<^verbatim>\<open>execution/\<close>): query operators.  An operator is a record of
    its methods; what the consumer of one relies on is the locale \<open>row_source\<close> (joins use two
    of them, locale \<open>join_sources\<close>), and every operator is shown to be a row source again when
    its children are, so that the theorems compose along a plan.  The joins are compared with
    the product of their inputs, filtered; the locale \<open>key_order\<close> carries the merge of sorted
    lists, \<open>heap_owner\<close> the binary heap of \<^verbatim>\<open>container/heap\<close>.
  \<^item> \<open>Demo_Store\<close>: a small concrete database that witnesses run on.

  \<^bold>\<open>Bounds and fuel.\<close>  The insertion loop has fuel; every pass after the first is on a page
  that the loop allocated, which has a free slot, so two passes are enough without
  interference.  The scan loop is bounded by the number of pages.  The loops of the query
  operators run as long as their child has rows; they are partial functions whose value is
  \<open>None\<close> when they never end, and the theorems show that they do end over a row source.
  Everything else recurses structurally or has a termination proof.

  \<^bold>\<open>Views into row buffers.\<close>  A string value read from a row is a view into the buffer of the
  operator that delivered it.  The field \<open>ex_Reread\<close> of an operator says what such a value
  reads later; operators that keep values across rows need them to read the same, which is a
  hypothesis of their theorems.

  \<^bold>\<open>Not modelled.\<close>  The SQL front end and the planner's rules, the stubs \<^verbatim>\<open>materialize_executor.go\<close> and
  \<^verbatim>\<open>index_nested_loop_join_executor.go\<close>, the shell (\<^verbatim>\<open>main.go\<close>), printing, and the test
  helpers.  Page latches have no state of their own in the model: they protect steps that the
  model takes as one.
\<close>

end
